(* ===== verification/Prelude.thy ===== *)
theory Prelude
  imports Main "HOL-Library.Word" "HOL-Library.Signed_Division"
begin

text \<open>
  What every component of the development shares: the ways in which the modelled C code
  can go wrong (a failed KASSERT, a NULL dereference, a division by zero, an operation on a
  list element that is not there), the sequencing of operations that may go wrong, the
  library macros and functions of the kernel that the code calls (TAILQ operations, ffsl,
  max, min, imax), and generic facts about lists and words.
\<close>

unbundle bit_operations_syntax

named_theorems ksimps \<open>unfolding rules of small model definitions\<close>

subsection \<open>Faults\<close>

datatype fault =
    Panic string        \<comment> \<open>a KASSERT or MPASS of an INVARIANTS kernel fires, or panic() is called\<close>
  | NullDeref string    \<comment> \<open>a field is read through a NULL pointer\<close>
  | DivByZero string    \<comment> \<open>an integer division or remainder by zero\<close>
  | BadList string      \<comment> \<open>TAILQ_REMOVE of an element that is not on the list\<close>
  | OutOfBounds string  \<comment> \<open>an array is accessed outside its bounds\<close>
  | Diverges string     \<comment> \<open>the fuel given to a loop that need not end has run out\<close>

definition rbind :: "fault + 'a \<Rightarrow> ('a \<Rightarrow> fault + 'b) \<Rightarrow> fault + 'b" where
  "rbind m k = (case m of Inl e \<Rightarrow> Inl e | Inr a \<Rightarrow> k a)"

lemma rbind_simps [simp]:
  "rbind (Inl e) k = Inl e"
  "rbind (Inr a) k = k a"
  by (simp_all add: rbind_def)

lemma rbind_eq_Inr: "rbind m k = Inr b \<longleftrightarrow> (\<exists>a. m = Inr a \<and> k a = Inr b)"
  by (cases m) auto

lemma rbind_eq_Inl: "rbind m k = Inl e \<longleftrightarrow> m = Inl e \<or> (\<exists>a. m = Inr a \<and> k a = Inl e)"
  by (cases m) auto

lemma rbind_InrE [elim!]:
  assumes "rbind m k = Inr b"
  obtains a where "m = Inr a" "k a = Inr b"
  using assms by (auto simp: rbind_eq_Inr)

definition kassert :: "bool \<Rightarrow> string \<Rightarrow> fault + unit" where
  "kassert b msg = (if b then Inr () else Inl (Panic msg))"

lemma kassert_simps [simp]:
  "kassert True msg = Inr ()"
  "kassert False msg = Inl (Panic msg)"
  "kassert b msg = Inr u \<longleftrightarrow> b"
  by (simp_all add: kassert_def)

subsection \<open>Machine integers\<close>

type_synonym u_char = "8 word"
type_synonym u_int = "32 word"
type_synonym u_long = "64 word"
type_synonym c_int = "32 word"  \<comment> \<open>a C int whose wrap-around matters, read with \<open>sint\<close>\<close>

definition c_div :: "int \<Rightarrow> int \<Rightarrow> int" where
  "c_div a b = sgn a * sgn b * (\<bar>a\<bar> div \<bar>b\<bar>)"

lemma c_div_nonneg: "0 \<le> a \<Longrightarrow> 0 < b \<Longrightarrow> c_div a b = a div b"
  by (cases "a = 0") (simp_all add: c_div_def)

subsection \<open>Flag words\<close>

definition has_flag :: "u_int \<Rightarrow> u_int \<Rightarrow> bool" where
  "has_flag w f \<longleftrightarrow> w AND f \<noteq> 0"

definition set_flag :: "u_int \<Rightarrow> u_int \<Rightarrow> u_int" where
  "set_flag w f = w OR f"

definition clr_flag :: "u_int \<Rightarrow> u_int \<Rightarrow> u_int" where
  "clr_flag w f = w AND NOT f"

lemma has_flag_set_flag: "has_flag (set_flag w f) g \<longleftrightarrow> has_flag w g \<or> f AND g \<noteq> 0"
proof -
  have "(w OR f) AND g = (w AND g) OR (f AND g)"
    by (rule bit_eqI) (auto simp: bit_simps)
  moreover have "a OR b = 0 \<longleftrightarrow> a = 0 \<and> b = 0" for a b :: u_int
    by (auto simp: bit_eq_iff bit_simps)
  ultimately show ?thesis
    by (auto simp: has_flag_def set_flag_def)
qed

lemma has_flag_clr_flag_same [simp]: "\<not> has_flag (clr_flag w f) f"
proof -
  have "(w AND NOT f) AND f = 0"
    by (rule bit_eqI) (auto simp: bit_simps)
  then show ?thesis
    by (simp add: has_flag_def clr_flag_def)
qed

lemma has_flag_clr_flag_other: "f AND g = 0 \<Longrightarrow> has_flag (clr_flag w f) g \<longleftrightarrow> has_flag w g"
proof -
  assume d: "f AND g = 0"
  have "(w AND NOT f) AND g = w AND g"
  proof (rule bit_eqI)
    fix n
    have "\<not> (bit f n \<and> bit g n)"
      using arg_cong [OF d, of "\<lambda>x. bit x n"] by (simp add: bit_simps)
    then show "bit ((w AND NOT f) AND g) n = bit (w AND g) n"
      by (auto simp: bit_simps dest: bit_imp_le_length)
  qed
  then show ?thesis
    by (simp add: has_flag_def clr_flag_def)
qed

lemma clr_flag_id: "\<not> has_flag w f \<Longrightarrow> clr_flag w f = w"
proof -
  assume n: "\<not> has_flag w f"
  show ?thesis
  proof (rule bit_eqI)
    fix m
    have "\<not> (bit w m \<and> bit f m)"
      using n bit_and_iff [of w f m] by (auto simp: has_flag_def)
    then show "bit (clr_flag w f) m = bit w m"
      by (auto simp: clr_flag_def bit_simps dest: bit_imp_le_length)
  qed
qed

subsection \<open>Library functions of the kernel\<close>

text \<open>\<open>ffsl\<close>: one more than the index of the least set bit, 0 for the zero word.\<close>

definition ffsl :: "u_long \<Rightarrow> int" where
  "ffsl w = (case find (bit w) [0..<64] of None \<Rightarrow> 0 | Some i \<Rightarrow> int i + 1)"

definition imax :: "int \<Rightarrow> int \<Rightarrow> int" where
  "imax a b = (if a > b then a else b)"

text \<open>TAILQ_REMOVE: a list element that is not on the list corrupts the queue.\<close>

definition tailq_remove :: "'a \<Rightarrow> 'a list \<Rightarrow> fault + 'a list" where
  "tailq_remove x xs =
     (if x \<in> set xs then Inr (remove1 x xs) else Inl (BadList ''TAILQ_REMOVE''))"

definition tailq_first :: "'a list \<Rightarrow> 'a option" where
  "tailq_first xs = (case xs of [] \<Rightarrow> None | x # _ \<Rightarrow> Some x)"

lemma tailq_first_simps [simp]:
  "tailq_first [] = None"
  "tailq_first (x # xs) = Some x"
  by (simp_all add: tailq_first_def)

lemma tailq_first_eq_None [simp]: "tailq_first xs = None \<longleftrightarrow> xs = []"
  by (cases xs) simp_all

lemma tailq_first_SomeD: "tailq_first xs = Some x \<Longrightarrow> x \<in> set xs"
  by (cases xs) auto

lemma tailq_remove_Inr: "tailq_remove x xs = Inr ys \<longleftrightarrow> x \<in> set xs \<and> ys = remove1 x xs"
  by (auto simp: tailq_remove_def)

lemma div_mod_eq_iff: "(p::nat) div b = q div b \<and> p mod b = q mod b \<longleftrightarrow> p = q"
  by (metis div_mult_mod_eq)

lemma and_pow2_minus_one: "k AND (2 ^ n - 1) = k mod 2 ^ n" for k :: nat
  by (metis mask_eq_exp_minus_1 take_bit_eq_mask take_bit_eq_mod)

lemma unat_u_char_less: "unat (x :: u_char) < 256"
  using unsigned_less [of x, where 'a = nat] by simp

subsection \<open>Word arithmetic without overflow\<close>

lemma unat_max: "unat (max a b) = max (unat a) (unat b)" for a b :: "'a :: len word"
  by (simp add: max_def word_le_nat_alt)

lemma unat_min: "unat (min a b) = min (unat a) (unat b)" for a b :: "'a :: len word"
  by (simp add: min_def word_le_nat_alt)

lemma u_int_add: "unat a + unat b < 2 ^ 32 \<Longrightarrow> unat (a + b) = unat a + unat b" for a b :: u_int
  by (simp add: unat_word_ariths)

lemma u_int_mult: "unat a * unat b < 2 ^ 32 \<Longrightarrow> unat (a * b) = unat a * unat b" for a b :: u_int
  by (simp add: unat_word_ariths)

lemma u_int_of_int: "0 \<le> k \<Longrightarrow> k < 2 ^ 32 \<Longrightarrow> uint (of_int k :: u_int) = k"
  by (simp add: uint_word_of_int)

lemma uint_le_numeral: "uint w \<le> numeral k \<longleftrightarrow> unat w \<le> numeral k" for w :: "'a :: len word"
  using of_nat_le_iff [of "unat w" "numeral k", where 'a = int] by simp

lemma uint_less_numeral: "uint w < numeral k \<longleftrightarrow> unat w < numeral k" for w :: "'a :: len word"
  using of_nat_less_iff [of "unat w" "numeral k", where 'a = int] by simp

lemma uint_sub_ok: "b \<le> a \<Longrightarrow> uint (a - b) = uint a - uint b" for a b :: "'a :: len word"
  by (simp add: word_le_def uint_sub_lem)

lemma sint_of_small: "unat w < 2147483648 \<Longrightarrow> sint w = uint w" for w :: u_int
proof -
  assume "unat w < 2147483648"
  then have "uint w < 2147483648" by (simp add: uint_less_numeral)
  moreover have "- (2 ^ 31) \<le> uint w" by (rule order_trans [OF _ uint_ge_0]) simp
  ultimately have "signed_take_bit 31 (uint w) = uint w"
    by (intro signed_take_bit_int_eq_self) simp_all
  then show ?thesis by (simp add: sint_uint)
qed

end
