(* ===== verification/Machine.thy ===== *)
theory Machine
  imports Prelude
begin

text \<open>
  The data of asgn2/proc.h and asgn2/runq.h that the scheduler works on, and the parameters
  that come from headers outside the repository: machine/runq.h (record \<open>rqb_machine\<close>),
  sys/priority.h, sys/resource.h and the boot-time constants (record \<open>kconf\<close>).
  A thread is named by a number (its address), a CPU by its id. The SRQ flags of sys/sched.h
  are a set of names, because only their being distinct matters.
\<close>

subsection \<open>Run queue parameters\<close>

definition RQ_NQS :: nat where [simp]: "RQ_NQS = 64"
definition RQ_PPQ :: nat where [simp]: "RQ_PPQ = 4"

record rqb_machine =
  RQB_LEN :: nat                    \<comment> \<open>number of words of the status bit array\<close>
  RQB_L2BPW :: nat                  \<comment> \<open>log2 of the bits per word\<close>
  RQB_BPW :: nat                    \<comment> \<open>bits per word\<close>
  RQB_WORD :: "nat \<Rightarrow> nat"          \<comment> \<open>the word that holds a queue's bit\<close>
  RQB_BIT :: "nat \<Rightarrow> u_long"        \<comment> \<open>the queue's bit in that word\<close>
  RQB_FFS :: "u_long \<Rightarrow> int"        \<comment> \<open>index of the least set bit\<close>

text \<open>
  What kern_switch.c relies on: its own CTASSERT, and what machine/runq.h documents.
  Words are kept in 64 bits on every machine; a machine with narrower words leaves the upper
  bits zero.
\<close>

definition rqb_ctassert :: "'a rqb_machine_scheme \<Rightarrow> bool" where
  "rqb_ctassert C \<longleftrightarrow> RQB_BPW C * RQB_LEN C = RQ_NQS"

definition rqb_ok :: "'a rqb_machine_scheme \<Rightarrow> bool" where
  "rqb_ok C \<longleftrightarrow> rqb_ctassert C \<and> RQB_BPW C = 2 ^ RQB_L2BPW C \<and>
     (\<forall>p. RQB_WORD C p = p div RQB_BPW C) \<and>
     (\<forall>p. RQB_BIT C p = push_bit (p mod RQB_BPW C) 1) \<and>
     (\<forall>w. w \<noteq> 0 \<longrightarrow> 0 \<le> RQB_FFS C w \<and> bit w (nat (RQB_FFS C w)) \<and>
        (\<forall>n. int n < RQB_FFS C w \<longrightarrow> \<not> bit w n))"

subsection \<open>Threads\<close>

type_synonym tid = nat
type_synonym cpuid = nat

datatype srq = SRQ_OURSELF | SRQ_YIELDING | SRQ_INTR | SRQ_PREEMPTED | SRQ_BORROWING

abbreviation SRQ_BORING :: "srq set" where "SRQ_BORING \<equiv> {}"

datatype td_state = TDS_INACTIVE | TDS_INHIBITED | TDS_CAN_RUN | TDS_RUNQ | TDS_RUNNING

text \<open>The four run queues of a struct tdq; a pointer to one of them is a CPU and a name.\<close>

datatype rqname = RQ_realtime | RQ_timeshare | RQ_lottery | RQ_idle

text \<open>The spin lock that protects a thread: the lock of a CPU's tdq, or any other lock.\<close>

datatype lockptr = TDQ_LOCKPTR cpuid | BlockedLock | OtherLock nat

record td_sched =
  ts_runq :: "(cpuid \<times> rqname) option"
  ts_flags :: u_int
  ts_cpu :: cpuid
  ts_rltick :: c_int
  ts_slice :: int
  ts_slptime :: u_int
  ts_runtime :: u_int
  ts_ltick :: c_int
  ts_ftick :: c_int
  ts_ticks :: c_int

text \<open>
  struct thread, with the scheduler's struct td_sched that the kernel allocates behind it
  (\<open>td_get_sched\<close>) as the parent record. Only the fields that the modelled code reads or
  writes are kept; \<open>td_retval0\<close> is td_retval[0].
\<close>

record thread = td_sched +
  td_lock :: lockptr
  td_proc :: nat
  td_cpuset :: "cpuid set"
  td_lend_user_pri :: u_char
  td_flags :: u_int
  td_inhibitors :: u_int
  td_owepreempt :: bool
  td_intr_nesting_level :: int
  td_pinned :: int
  td_slptick :: c_int
  td_rqindex :: u_char
  td_base_pri :: u_char
  td_priority :: u_char
  td_pri_class :: u_char
  td_user_pri :: u_char
  td_base_user_pri :: u_char
  td_state :: td_state
  td_retval0 :: u_long
  td_critnest :: u_int
  td_lastcpu :: int
  td_oncpu :: int
  td_tickets :: u_long

record proc =
  p_flag :: u_int
  p_nice :: int
  p_threads :: "tid list"

type_synonym store = "tid \<Rightarrow> thread"

subsection \<open>Flags of asgn2/proc.h\<close>

definition TDF_BORROWING :: u_int where "TDF_BORROWING = 0x00000001"
definition TDF_INPANIC :: u_int where "TDF_INPANIC = 0x00000002"
definition TDF_INMEM :: u_int where "TDF_INMEM = 0x00000004"
definition TDF_IDLETD :: u_int where "TDF_IDLETD = 0x00000020"
definition TDF_CANSWAP :: u_int where "TDF_CANSWAP = 0x00000040"
definition TDF_NEEDRESCHED :: u_int where "TDF_NEEDRESCHED = 0x00010000"
definition TDF_NOLOAD :: u_int where "TDF_NOLOAD = 0x00040000"
definition TDF_SCHED2 :: u_int where "TDF_SCHED2 = 0x04000000"
definition P_SYSTEM :: u_int where "P_SYSTEM = 0x00200"
definition TDI_SUSPENDED :: u_int where "TDI_SUSPENDED = 0x0001"
definition TDI_LOCK :: u_int where "TDI_LOCK = 0x0008"
definition NOCPU :: int where "NOCPU = -1"

lemmas tdf_defs [ksimps] = TDF_BORROWING_def TDF_INPANIC_def TDF_INMEM_def TDF_IDLETD_def
  TDF_CANSWAP_def TDF_NEEDRESCHED_def TDF_NOLOAD_def TDF_SCHED2_def P_SYSTEM_def
  TDI_SUSPENDED_def TDI_LOCK_def NOCPU_def

definition TD_IS_SUSPENDED :: "thread \<Rightarrow> bool" where
  "TD_IS_SUSPENDED t \<longleftrightarrow> has_flag (td_inhibitors t) TDI_SUSPENDED"
definition TD_ON_LOCK :: "thread \<Rightarrow> bool" where
  "TD_ON_LOCK t \<longleftrightarrow> has_flag (td_inhibitors t) TDI_LOCK"
definition TD_IS_RUNNING :: "thread \<Rightarrow> bool" where
  "TD_IS_RUNNING t \<longleftrightarrow> td_state t = TDS_RUNNING"
definition TD_ON_RUNQ :: "thread \<Rightarrow> bool" where
  "TD_ON_RUNQ t \<longleftrightarrow> td_state t = TDS_RUNQ"
definition TD_CAN_RUN :: "thread \<Rightarrow> bool" where
  "TD_CAN_RUN t \<longleftrightarrow> td_state t = TDS_CAN_RUN"
definition TD_IS_INHIBITED :: "thread \<Rightarrow> bool" where
  "TD_IS_INHIBITED t \<longleftrightarrow> td_state t = TDS_INHIBITED"
definition TD_IS_IDLETHREAD :: "thread \<Rightarrow> bool" where
  "TD_IS_IDLETHREAD t \<longleftrightarrow> has_flag (td_flags t) TDF_IDLETD"

lemmas td_state_defs [ksimps] = TD_IS_SUSPENDED_def TD_ON_LOCK_def TD_IS_RUNNING_def TD_ON_RUNQ_def
  TD_CAN_RUN_def TD_IS_INHIBITED_def TD_IS_IDLETHREAD_def

text \<open>An update of one thread of the store.\<close>

definition upd_td :: "tid \<Rightarrow> (thread \<Rightarrow> thread) \<Rightarrow> store \<Rightarrow> store" where
  "upd_td t f ths = ths(t := f (ths t))"

lemma upd_td_apply: "upd_td t f ths u = (if u = t then f (ths t) else ths u)"
  by (simp add: upd_td_def)

lemma upd_td_same [simp]: "upd_td t f ths t = f (ths t)"
  by (simp add: upd_td_def)

lemma upd_td_other [simp]: "u \<noteq> t \<Longrightarrow> upd_td t f ths u = ths u"
  by (simp add: upd_td_def)

subsection \<open>The configuration of FreeBSD 11.2 on amd64, for evaluation\<close>

definition amd64_rqb :: rqb_machine where
  "amd64_rqb = \<lparr>RQB_LEN = 1, RQB_L2BPW = 6, RQB_BPW = 64, RQB_WORD = (\<lambda>p. p div 64),
     RQB_BIT = (\<lambda>p. push_bit (p mod 64) 1), RQB_FFS = (\<lambda>w. ffsl w - 1)\<rparr>"

lemma ffsl_bounds: "w \<noteq> 0 \<Longrightarrow> 0 < ffsl w \<and> bit w (nat (ffsl w - 1)) \<and> (\<forall>n. int n < ffsl w - 1 \<longrightarrow> \<not> bit w n)"
proof -
  assume "w \<noteq> 0"
  then obtain k where k: "bit w k" "k < 64"
    by (auto simp: bit_eq_iff dest: bit_imp_le_length)
  then obtain i where i: "find (bit w) [0..<64] = Some i"
    by (cases "find (bit w) [0..<64]") (auto simp: find_None_iff)
  then have "i < 64" "bit w i" "\<forall>j<i. \<not> bit w j"
    by (auto simp: find_Some_iff)
  then show ?thesis
    using i by (auto simp: ffsl_def)
qed

lemma amd64_rqb_ok: "rqb_ok amd64_rqb"
  using ffsl_bounds by (auto simp: rqb_ok_def rqb_ctassert_def amd64_rqb_def)

text \<open>The 32-bit machines keep the 64 queues in two words.\<close>

definition i386_rqb :: rqb_machine where
  "i386_rqb = \<lparr>RQB_LEN = 2, RQB_L2BPW = 5, RQB_BPW = 32, RQB_WORD = (\<lambda>p. p div 32),
     RQB_BIT = (\<lambda>p. push_bit (p mod 32) 1), RQB_FFS = (\<lambda>w. ffsl w - 1)\<rparr>"

lemma i386_rqb_ok: "rqb_ok i386_rqb"
  using ffsl_bounds by (auto simp: rqb_ok_def rqb_ctassert_def i386_rqb_def)

end
