(* ===== verification/RunQueue.thy ===== *)
theory RunQueue
  imports Machine
begin

text \<open>
  The run queues of asgn2/runq.h and asgn2/kern_switch.c: 64 lists of threads and a bit per
  list that says whether it is non-empty. Each operation takes the machine parameters, the
  threads and the queue, and returns the changed ones.
\<close>

subsection \<open>State\<close>

record runq =
  rq_bits :: "u_long list"
  rq_queues :: "tid list list"
  num_tickets :: u_long
  total_proc :: int
  max_tickets :: u_long
  min_tickets :: u_long

text \<open>The list head of a queue number, which the code computes as an int.\<close>

definition rqhead :: "runq \<Rightarrow> int \<Rightarrow> fault + tid list" where
  "rqhead rq pri =
     (if 0 \<le> pri \<and> nat pri < length (rq_queues rq) then Inr (rq_queues rq ! nat pri)
      else Inl (OutOfBounds ''rq_queues''))"

definition set_rqhead :: "runq \<Rightarrow> nat \<Rightarrow> tid list \<Rightarrow> runq" where
  "set_rqhead rq pri q = rq\<lparr>rq_queues := (rq_queues rq)[pri := q]\<rparr>"

subsection \<open>Initialisation\<close>

definition runq_init :: "'a rqb_machine_scheme \<Rightarrow> runq" where
  "runq_init C = \<lparr>rq_bits = replicate (RQB_LEN C) 0, rq_queues = replicate RQ_NQS [],
     num_tickets = 0, total_proc = 0, max_tickets = 0, min_tickets = 0\<rparr>"

definition lotteryq_init :: "'a rqb_machine_scheme \<Rightarrow> runq" where
  "lotteryq_init C = \<lparr>rq_bits = replicate (RQB_LEN C) 0, rq_queues = replicate RQ_NQS [],
     num_tickets = 0, total_proc = 0, max_tickets = 0, min_tickets = 0\<rparr>"

subsection \<open>Status bits\<close>

definition runq_clrbit :: "'a rqb_machine_scheme \<Rightarrow> runq \<Rightarrow> nat \<Rightarrow> runq" where
  "runq_clrbit C rq pri =
     rq\<lparr>rq_bits := (rq_bits rq)[RQB_WORD C pri := rq_bits rq ! RQB_WORD C pri AND NOT (RQB_BIT C pri)]\<rparr>"

definition runq_setbit :: "'a rqb_machine_scheme \<Rightarrow> runq \<Rightarrow> nat \<Rightarrow> runq" where
  "runq_setbit C rq pri =
     rq\<lparr>rq_bits := (rq_bits rq)[RQB_WORD C pri := rq_bits rq ! RQB_WORD C pri OR RQB_BIT C pri]\<rparr>"

text \<open>The loop over the words from the first one, and from the word of a priority.\<close>

fun findbit_loop :: "'a rqb_machine_scheme \<Rightarrow> u_long list \<Rightarrow> nat list \<Rightarrow> int" where
  "findbit_loop C bits [] = -1"
| "findbit_loop C bits (i # is) =
     (if bits ! i \<noteq> 0 then RQB_FFS C (bits ! i) + int (i * 2 ^ RQB_L2BPW C)
      else findbit_loop C bits is)"

definition runq_findbit :: "'a rqb_machine_scheme \<Rightarrow> runq \<Rightarrow> int" where
  "runq_findbit C rq = findbit_loop C (rq_bits rq) [0..<RQB_LEN C]"

fun findbit_from_loop ::
  "'a rqb_machine_scheme \<Rightarrow> u_long list \<Rightarrow> u_long \<Rightarrow> nat list \<Rightarrow> int option \<times> u_long" where
  "findbit_from_loop C bits msk [] = (None, msk)"
| "findbit_from_loop C bits msk (i # is) =
     (let msk' = bits ! i AND msk
      in if msk' = 0 then findbit_from_loop C bits (-1) is
         else (Some (RQB_FFS C msk' + int (i * 2 ^ RQB_L2BPW C)), msk'))"

text \<open>
  \<open>goto again\<close> runs the loop once more from queue 0, unless it started there.
\<close>

definition runq_findbit_from :: "'a rqb_machine_scheme \<Rightarrow> runq \<Rightarrow> u_char \<Rightarrow> int" where
  "runq_findbit_from C rq pri =
     (let msk = push_bit (unat pri AND (RQB_BPW C - 1)) (-1)
      in case findbit_from_loop C (rq_bits rq) msk [RQB_WORD C (unat pri)..<RQB_LEN C] of
           (Some p, _) \<Rightarrow> p
         | (None, msk') \<Rightarrow>
             if pri = 0 then -1
             else (case findbit_from_loop C (rq_bits rq) msk' [RQB_WORD C 0..<RQB_LEN C] of
                     (Some p, _) \<Rightarrow> p
                   | (None, _) \<Rightarrow> -1))"

subsection \<open>Adding\<close>

definition tailq_insert :: "srq set \<Rightarrow> tid \<Rightarrow> tid list \<Rightarrow> tid list" where
  "tailq_insert flags td q = (if SRQ_PREEMPTED \<in> flags then td # q else q @ [td])"

definition runq_add ::
  "'a rqb_machine_scheme \<Rightarrow> store \<Rightarrow> runq \<Rightarrow> tid \<Rightarrow> srq set \<Rightarrow> store \<times> runq" where
  "runq_add C ths rq td flags =
     (let pri = unat (td_priority (ths td)) div RQ_PPQ;
          ths' = upd_td td (td_rqindex_update (\<lambda>_. of_nat pri)) ths;
          rq1 = runq_setbit C rq pri
      in (ths', set_rqhead rq1 pri (tailq_insert flags td (rq_queues rq1 ! pri))))"

definition runq_add_pri ::
  "'a rqb_machine_scheme \<Rightarrow> store \<Rightarrow> runq \<Rightarrow> tid \<Rightarrow> u_char \<Rightarrow> srq set \<Rightarrow> fault + (store \<times> runq)" where
  "runq_add_pri C ths rq td pri flags =
     rbind (kassert (unat pri < RQ_NQS) ''runq_add_pri: out of range'') (\<lambda>_.
       (let ths' = upd_td td (td_rqindex_update (\<lambda>_. pri)) ths;
            rq1 = runq_setbit C rq (unat pri)
        in Inr (ths', set_rqhead rq1 (unat pri)
                        (tailq_insert flags td (rq_queues rq1 ! unat pri)))))"

definition lotteryq_add ::
  "'a rqb_machine_scheme \<Rightarrow> store \<Rightarrow> runq \<Rightarrow> tid \<Rightarrow> srq set \<Rightarrow> store \<times> runq" where
  "lotteryq_add C ths rq td flags =
     (let ths' = upd_td td (td_rqindex_update (\<lambda>_. 0)) ths;
          rq1 = runq_setbit C rq 0
      in (ths', set_rqhead rq1 0 (tailq_insert flags td (rq_queues rq1 ! 0))))"

subsection \<open>Looking and choosing\<close>

fun check_loop :: "u_long list \<Rightarrow> nat list \<Rightarrow> bool" where
  "check_loop bits [] = False"
| "check_loop bits (i # is) = (if bits ! i \<noteq> 0 then True else check_loop bits is)"

definition runq_check :: "'a rqb_machine_scheme \<Rightarrow> runq \<Rightarrow> bool" where
  "runq_check C rq = check_loop (rq_bits rq) [0..<RQB_LEN C]"

definition runq_choose :: "'a rqb_machine_scheme \<Rightarrow> runq \<Rightarrow> fault + tid option" where
  "runq_choose C rq =
     (let pri = runq_findbit C rq
      in if pri \<noteq> -1 then
           rbind (rqhead rq pri) (\<lambda>rqh.
           rbind (kassert (tailq_first rqh \<noteq> None) ''runq_choose: no thread on busy queue'') (\<lambda>_.
             Inr (tailq_first rqh)))
         else Inr None)"

definition runq_choose_from :: "'a rqb_machine_scheme \<Rightarrow> runq \<Rightarrow> u_char \<Rightarrow> fault + tid option" where
  "runq_choose_from C rq idx =
     (let pri = runq_findbit_from C rq idx
      in if pri \<noteq> -1 then
           rbind (rqhead rq pri) (\<lambda>rqh.
           rbind (kassert (tailq_first rqh \<noteq> None) ''runq_choose: no thread on busy queue'') (\<lambda>_.
             Inr (tailq_first rqh)))
         else Inr None)"

text \<open>\<open>while (count-- && td2)\<close>: the first of the first \<open>count\<close> threads that last ran here.\<close>

fun fuzz_scan :: "store \<Rightarrow> cpuid \<Rightarrow> nat \<Rightarrow> tid option \<Rightarrow> tid list \<Rightarrow> tid option" where
  "fuzz_scan ths cpu 0 td q = td"
| "fuzz_scan ths cpu (Suc count) td [] = td"
| "fuzz_scan ths cpu (Suc count) td (td2 # q) =
     (if td_lastcpu (ths td2) = int cpu then Some td2 else fuzz_scan ths cpu count td q)"

definition runq_choose_fuzz ::
  "'a rqb_machine_scheme \<Rightarrow> cpuid \<Rightarrow> store \<Rightarrow> runq \<Rightarrow> int \<Rightarrow> fault + tid option" where
  "runq_choose_fuzz C cpu ths rq fuzz =
     (let pri = runq_findbit C rq
      in if pri \<noteq> -1 then
           rbind (rqhead rq pri) (\<lambda>rqh.
             (let td = (if fuzz > 1 then fuzz_scan ths cpu (nat fuzz) (tailq_first rqh) rqh
                        else tailq_first rqh)
              in rbind (kassert (td \<noteq> None) ''runq_choose_fuzz: no proc on busy queue'') (\<lambda>_.
                   Inr td)))
         else Inr None)"

subsection \<open>Removing\<close>

text \<open>\<open>idx\<close> is the caller's removal index, None for the NULL pointer.\<close>

definition runq_remove_idx ::
  "'a rqb_machine_scheme \<Rightarrow> store \<Rightarrow> runq \<Rightarrow> tid \<Rightarrow> u_char option \<Rightarrow> fault + (runq \<times> u_char option)" where
  "runq_remove_idx C ths rq td idx =
     rbind (kassert (has_flag (td_flags (ths td)) TDF_INMEM) ''runq_remove_idx: thread swapped out'') (\<lambda>_.
       (let pri = td_rqindex (ths td)
        in rbind (kassert (unat pri < RQ_NQS) ''runq_remove_idx: Invalid index'') (\<lambda>_.
           rbind (tailq_remove td (rq_queues rq ! unat pri)) (\<lambda>q.
             (let rq1 = set_rqhead rq (unat pri) q
              in if q = [] then
                   Inr (runq_clrbit C rq1 (unat pri),
                        (case idx of None \<Rightarrow> None
                         | Some i \<Rightarrow> Some (if i = pri then of_nat ((unat pri + 1) mod RQ_NQS) else i)))
                 else Inr (rq1, idx))))))"

definition runq_remove ::
  "'a rqb_machine_scheme \<Rightarrow> store \<Rightarrow> runq \<Rightarrow> tid \<Rightarrow> fault + runq" where
  "runq_remove C ths rq td = rbind (runq_remove_idx C ths rq td None) (\<lambda>(rq', _). Inr rq')"

subsection \<open>What the status bits mean\<close>

definition marked :: "'a rqb_machine_scheme \<Rightarrow> runq \<Rightarrow> nat \<Rightarrow> bool" where
  "marked C rq p \<longleftrightarrow> p < RQ_NQS \<and> bit (rq_bits rq ! RQB_WORD C p) (p mod RQB_BPW C)"

definition bits_wf :: "'a rqb_machine_scheme \<Rightarrow> runq \<Rightarrow> bool" where
  "bits_wf C rq \<longleftrightarrow> rqb_ok C \<and> length (rq_bits rq) = RQB_LEN C \<and>
     (\<forall>i < RQB_LEN C. \<forall>n. bit (rq_bits rq ! i) n \<longrightarrow> n < RQB_BPW C)"

lemma rqb_okD:
  assumes "rqb_ok C"
  shows "RQB_WORD C p = p div RQB_BPW C" "RQB_BIT C p = push_bit (p mod RQB_BPW C) 1"
    "0 < RQB_BPW C" "RQB_BPW C \<le> 64" "0 < RQB_LEN C" "RQB_BPW C = 2 ^ RQB_L2BPW C"
    "p < 64 \<longleftrightarrow> p div RQB_BPW C < RQB_LEN C"
proof -
  have m: "RQB_BPW C * RQB_LEN C = 64" and e: "RQB_BPW C = 2 ^ RQB_L2BPW C"
    using assms by (auto simp: rqb_ok_def rqb_ctassert_def)
  show b: "0 < RQB_BPW C" and l: "0 < RQB_LEN C"
    using m by (metis mult_0 mult_0_right neq0_conv numeral_neq_zero)+
  show "RQB_BPW C \<le> 64"
    using m l by (metis One_nat_def Suc_leI mult.right_neutral mult_le_mono2)
  show "p < 64 \<longleftrightarrow> p div RQB_BPW C < RQB_LEN C"
    using m b by (metis div_less_iff_less_mult mult.commute)
  show "RQB_BPW C = 2 ^ RQB_L2BPW C" by (rule e)
  show "RQB_WORD C p = p div RQB_BPW C" "RQB_BIT C p = push_bit (p mod RQB_BPW C) 1"
    using assms by (auto simp: rqb_ok_def)
qed

lemma rqb_ffs:
  assumes "rqb_ok C" "w \<noteq> 0"
  obtains j where "RQB_FFS C w = int j" "bit w j" "\<And>n. n < j \<Longrightarrow> \<not> bit w n"
proof -
  have "0 \<le> RQB_FFS C w" "bit w (nat (RQB_FFS C w))" "\<forall>n. int n < RQB_FFS C w \<longrightarrow> \<not> bit w n"
    using assms by (auto simp: rqb_ok_def)
  then show thesis
    by (intro that [of "nat (RQB_FFS C w)"]) auto
qed

lemma bit_RQB_BIT:
  assumes "rqb_ok C"
  shows "bit (RQB_BIT C p) n \<longleftrightarrow> n = p mod RQB_BPW C"
proof -
  have "p mod RQB_BPW C < 64"
    using rqb_okD(3,4) [OF assms] by (metis less_le_trans mod_less_divisor)
  then show ?thesis
    by (auto simp: rqb_okD(2) [OF assms] bit_simps)
qed

lemma marked_setbit:
  assumes wf: "bits_wf C rq" and p: "p < RQ_NQS"
  shows "marked C (runq_setbit C rq p) q \<longleftrightarrow> q = p \<or> marked C rq q"
proof -
  have ok: "rqb_ok C" and len: "length (rq_bits rq) = RQB_LEN C"
    using wf by (auto simp: bits_wf_def)
  have "p div RQB_BPW C < RQB_LEN C"
    using rqb_okD(7) [OF ok] p by simp
  then show ?thesis
    using p len div_mod_eq_iff [of p "RQB_BPW C" q]
    by (auto simp: marked_def runq_setbit_def nth_list_update bit_or_iff bit_RQB_BIT [OF ok] rqb_okD(1) [OF ok])
qed

lemma bits_wf_setbit:
  assumes wf: "bits_wf C rq" and p: "p < RQ_NQS"
  shows "bits_wf C (runq_setbit C rq p)"
proof -
  have ok: "rqb_ok C" and len: "length (rq_bits rq) = RQB_LEN C"
    using wf by (auto simp: bits_wf_def)
  moreover have "RQB_WORD C p < RQB_LEN C"
    using rqb_okD(1,7) [OF ok] p by simp
  moreover have "p mod RQB_BPW C < RQB_BPW C"
    using rqb_okD(3) [OF ok] by simp
  ultimately show ?thesis
    using wf by (auto simp: bits_wf_def runq_setbit_def nth_list_update bit_or_iff bit_RQB_BIT [OF ok])
qed

lemma marked_clrbit:
  assumes wf: "bits_wf C rq" and p: "p < RQ_NQS"
  shows "marked C (runq_clrbit C rq p) q \<longleftrightarrow> q \<noteq> p \<and> marked C rq q"
proof -
  have ok: "rqb_ok C" and len: "length (rq_bits rq) = RQB_LEN C"
    using wf by (auto simp: bits_wf_def)
  have "p div RQB_BPW C < RQB_LEN C" and b: "RQB_BPW C \<le> 64"  "0 < RQB_BPW C"
    using rqb_okD(7,4,3) [OF ok] p by simp_all
  moreover have "q mod RQB_BPW C < 64"
    using b by (metis less_le_trans mod_less_divisor)
  ultimately show ?thesis
    using p len div_mod_eq_iff [of p "RQB_BPW C" q]
    by (auto simp: marked_def runq_clrbit_def nth_list_update bit_and_iff bit_not_iff bit_RQB_BIT [OF ok]
          rqb_okD(1) [OF ok] dest: bit_imp_le_length)
qed

lemma bits_wf_clrbit:
  assumes wf: "bits_wf C rq" and p: "p < RQ_NQS"
  shows "bits_wf C (runq_clrbit C rq p)"
proof -
  have ok: "rqb_ok C" and len: "length (rq_bits rq) = RQB_LEN C"
    using wf by (auto simp: bits_wf_def)
  moreover have "RQB_WORD C p < RQB_LEN C"
    using rqb_okD(1,7) [OF ok] p by simp
  moreover have "p mod RQB_BPW C < RQB_BPW C"
    using rqb_okD(3) [OF ok] by simp
  ultimately show ?thesis
    using wf by (auto simp: bits_wf_def runq_clrbit_def nth_list_update bit_and_iff bit_RQB_BIT [OF ok])
qed

lemma findbit_loop_find:
  "findbit_loop C bits is = (case find (\<lambda>i. bits ! i \<noteq> 0) is of None \<Rightarrow> -1
     | Some i \<Rightarrow> RQB_FFS C (bits ! i) + int (i * 2 ^ RQB_L2BPW C))"
  by (induction "is") auto

lemma findbit_from_loop_find:
  "findbit_from_loop C bits (-1) is = (case find (\<lambda>i. bits ! i \<noteq> 0) is of None \<Rightarrow> (None, -1)
     | Some i \<Rightarrow> (Some (RQB_FFS C (bits ! i) + int (i * 2 ^ RQB_L2BPW C)), bits ! i))"
  by (induction "is") (auto simp: Let_def)

text \<open>A bit position of a word, and the queue number that it stands for.\<close>

lemma queue_of_bit:
  assumes ok: "rqb_ok C" and "j < RQB_BPW C" "i < RQB_LEN C"
  shows "(j + i * 2 ^ RQB_L2BPW C) div RQB_BPW C = i" "(j + i * 2 ^ RQB_L2BPW C) mod RQB_BPW C = j"
    "j + i * 2 ^ RQB_L2BPW C < 64"
proof -
  have e: "RQB_BPW C = 2 ^ RQB_L2BPW C" by (rule rqb_okD(6) [OF ok])
  show d: "(j + i * 2 ^ RQB_L2BPW C) div RQB_BPW C = i" and "(j + i * 2 ^ RQB_L2BPW C) mod RQB_BPW C = j"
    using assms(2) by (simp_all add: e [symmetric])
  show "j + i * 2 ^ RQB_L2BPW C < 64"
    using rqb_okD(7) [OF ok] d assms(3) by simp
qed

text \<open>The first non-zero word from word \<open>k\<close> on holds the first marked queue from there on.\<close>

lemma first_word:
  assumes wf: "bits_wf C rq" and f: "find (\<lambda>i. rq_bits rq ! i \<noteq> 0) [k..<RQB_LEN C] = Some i"
  obtains p where "RQB_FFS C (rq_bits rq ! i) + int (i * 2 ^ RQB_L2BPW C) = int p" "marked C rq p"
    "k * RQB_BPW C \<le> p" "\<And>q. k * RQB_BPW C \<le> q \<Longrightarrow> q < p \<Longrightarrow> \<not> marked C rq q"
proof -
  have ok: "rqb_ok C" using wf by (simp add: bits_wf_def)
  have i: "k \<le> i" "i < RQB_LEN C" "rq_bits rq ! i \<noteq> 0" and less: "\<And>m. k \<le> m \<Longrightarrow> m < i \<Longrightarrow> rq_bits rq ! m = 0"
  proof -
    from f obtain n where n: "n < RQB_LEN C - k" "rq_bits rq ! (k + n) \<noteq> 0" "i = k + n"
        "\<forall>j<n. rq_bits rq ! (k + j) = 0"
      by (auto simp: find_Some_iff)
    then show "k \<le> i" "i < RQB_LEN C" "rq_bits rq ! i \<noteq> 0" by auto
    show "rq_bits rq ! m = 0" if "k \<le> m" "m < i" for m
      using n(3) n(4) [rule_format, of "m - k"] that by auto
  qed
  obtain j where j: "RQB_FFS C (rq_bits rq ! i) = int j" "bit (rq_bits rq ! i) j"
      "\<And>n. n < j \<Longrightarrow> \<not> bit (rq_bits rq ! i) n"
    using rqb_ffs [OF ok i(3)] by blast
  have jb: "j < RQB_BPW C" using wf i(2) j(2) by (auto simp: bits_wf_def)
  let ?p = "j + i * 2 ^ RQB_L2BPW C"
  note Q = queue_of_bit [OF ok jb i(2)]
  have e: "RQB_BPW C = 2 ^ RQB_L2BPW C" by (rule rqb_okD(6) [OF ok])
  show thesis
  proof (rule that [of ?p])
    show "RQB_FFS C (rq_bits rq ! i) + int (i * 2 ^ RQB_L2BPW C) = int ?p" by (simp add: j(1))
    show "marked C rq ?p" using Q j(2) by (simp add: marked_def rqb_okD(1) [OF ok])
    have "k * RQB_BPW C \<le> i * RQB_BPW C" using i(1) by (rule mult_le_mono1)
    then show "k * RQB_BPW C \<le> ?p" unfolding e by (rule trans_le_add2)
    fix q assume q: "k * RQB_BPW C \<le> q" "q < ?p"
    have "k \<le> q div RQB_BPW C" using q(1) rqb_okD(3) [OF ok] by (simp add: less_eq_div_iff_mult_less_eq)
    moreover have "q div RQB_BPW C \<le> i" using q(2) Q(1) by (metis div_le_mono less_imp_le)
    moreover have "q mod RQB_BPW C < j" if "q div RQB_BPW C = i"
      using q(2) that Q(1,2) by (metis add_less_cancel_left div_mult_mod_eq)
    ultimately show "\<not> marked C rq q"
      using less j(3) by (cases "q div RQB_BPW C = i") (auto simp: marked_def rqb_okD(1) [OF ok])
  qed
qed

lemma no_word:
  assumes wf: "bits_wf C rq" and f: "find (\<lambda>i. rq_bits rq ! i \<noteq> 0) [k..<RQB_LEN C] = None"
    and q: "k * RQB_BPW C \<le> q"
  shows "\<not> marked C rq q"
proof -
  have ok: "rqb_ok C" using wf by (simp add: bits_wf_def)
  have "k \<le> q div RQB_BPW C" using q rqb_okD(3) [OF ok] by (simp add: less_eq_div_iff_mult_less_eq)
  then show ?thesis
    using f rqb_okD(7) [OF ok, of q] by (auto simp: find_None_iff marked_def rqb_okD(1) [OF ok])
qed

lemma findbit_spec:
  assumes wf: "bits_wf C rq"
  shows "(runq_findbit C rq = -1 \<and> (\<forall>q. \<not> marked C rq q)) \<or>
    (\<exists>p. runq_findbit C rq = int p \<and> marked C rq p \<and> (\<forall>q<p. \<not> marked C rq q))"
proof (cases "find (\<lambda>i. rq_bits rq ! i \<noteq> 0) [0..<RQB_LEN C]")
  case None
  then show ?thesis
    using no_word [OF wf None] by (simp add: runq_findbit_def findbit_loop_find)
next
  case (Some i)
  obtain p where p: "RQB_FFS C (rq_bits rq ! i) + int (i * 2 ^ RQB_L2BPW C) = int p" "marked C rq p"
      "\<And>q. q < p \<Longrightarrow> \<not> marked C rq q"
    by (rule first_word [OF wf Some]) simp
  then have "runq_findbit C rq = int p"
    by (simp add: runq_findbit_def findbit_loop_find Some)
  with p show ?thesis by blast
qed

text \<open>The masked first word: the bits below the priority are ignored.\<close>

lemma bit_from_mask:
  "n < 64 \<Longrightarrow> bit (w AND push_bit k (-1)) n \<longleftrightarrow> bit w n \<and> k \<le> n" for w :: u_long
  by (auto simp: bit_simps)

lemma findbit_from_first_pass:
  assumes wf: "bits_wf C rq" and k: "k < 64"
    and m: "m = push_bit (k AND (RQB_BPW C - 1)) (-1)"
  shows "(findbit_from_loop C (rq_bits rq) m [RQB_WORD C k..<RQB_LEN C] = (None, -1) \<and>
            (\<forall>q\<ge>k. \<not> marked C rq q)) \<or>
    (\<exists>p w. findbit_from_loop C (rq_bits rq) m [RQB_WORD C k..<RQB_LEN C] = (Some (int p), w) \<and>
       k \<le> p \<and> marked C rq p \<and> (\<forall>q. k \<le> q \<and> q < p \<longrightarrow> \<not> marked C rq q))"
proof -
  have ok: "rqb_ok C" using wf by (simp add: bits_wf_def)
  have e: "RQB_BPW C = 2 ^ RQB_L2BPW C" by (rule rqb_okD(6) [OF ok])
  let ?i = "k div RQB_BPW C" and ?j = "k mod RQB_BPW C"
  have i: "?i < RQB_LEN C" using rqb_okD(7) [OF ok] k by simp
  have jm: "k AND (RQB_BPW C - 1) = ?j"
    unfolding e by (rule and_pow2_minus_one)
  have j: "?j < RQB_BPW C" using rqb_okD(3) [OF ok] by simp
  have kk: "k = ?j + ?i * 2 ^ RQB_L2BPW C" by (simp add: e [symmetric])
  let ?w = "rq_bits rq ! ?i AND m"
  have bw: "bit ?w n \<longleftrightarrow> bit (rq_bits rq ! ?i) n \<and> ?j \<le> n" for n
    unfolding m jm by (auto simp: bit_simps dest: bit_imp_le_length)
  have up: "[RQB_WORD C k..<RQB_LEN C] = ?i # [Suc ?i..<RQB_LEN C]"
    using i by (simp add: rqb_okD(1) [OF ok] upt_conv_Cons)
  have same: "q div RQB_BPW C = ?i \<Longrightarrow> k \<le> q \<longleftrightarrow> ?j \<le> q mod RQB_BPW C" for q
    by (metis add_le_cancel_left div_mult_mod_eq)
  have above: "Suc ?i * RQB_BPW C \<le> q \<longleftrightarrow> ?i < q div RQB_BPW C" for q
    using rqb_okD(3) [OF ok] by (simp add: less_eq_div_iff_mult_less_eq Suc_le_eq [symmetric] del: mult_Suc)
  show ?thesis
  proof (cases "?w = 0")
    case False
    obtain n where n: "RQB_FFS C ?w = int n" "bit ?w n" "\<And>l. l < n \<Longrightarrow> \<not> bit ?w l"
      using rqb_ffs [OF ok False] by blast
    have nb: "n < RQB_BPW C" using wf i n(2) by (auto simp: bits_wf_def bw)
    let ?p = "n + ?i * 2 ^ RQB_L2BPW C"
    note Q = queue_of_bit [OF ok nb i]
    have "k \<le> ?p" using n(2) bw kk by (metis add_le_mono1)
    moreover have "marked C rq ?p" using n(2) Q by (simp add: bw marked_def rqb_okD(1) [OF ok])
    moreover have "\<not> marked C rq q" if q: "k \<le> q" "q < ?p" for q
    proof -
      have "q div RQB_BPW C = ?i"
        using q Q(1) by (metis div_le_mono le_antisym less_imp_le)
      moreover have "q mod RQB_BPW C < n"
        using q(2) Q(1,2) calculation by (metis add_less_cancel_left div_mult_mod_eq)
      ultimately show ?thesis
        using n(3) [of "q mod RQB_BPW C"] same [of q] q(1) by (auto simp: bw marked_def rqb_okD(1) [OF ok])
    qed
    moreover have "findbit_from_loop C (rq_bits rq) m [RQB_WORD C k..<RQB_LEN C] = (Some (int ?p), ?w)"
      using False by (simp add: up n(1) Let_def)
    ultimately show ?thesis by blast
  next
    case True
    have rest: "findbit_from_loop C (rq_bits rq) m [RQB_WORD C k..<RQB_LEN C] =
        findbit_from_loop C (rq_bits rq) (-1) [Suc ?i..<RQB_LEN C]"
      using True by (simp add: up Let_def)
    have here: "\<not> marked C rq q" if "q div RQB_BPW C = ?i" "k \<le> q" for q
      using bw [of "q mod RQB_BPW C"] True same [OF that(1)] that by (auto simp: marked_def rqb_okD(1) [OF ok])
    have split: "\<not> marked C rq q" if "k \<le> q" "Suc ?i * RQB_BPW C \<le> q \<Longrightarrow> \<not> marked C rq q" for q
      using that here [of q] above [of q] div_le_mono [OF that(1), of "RQB_BPW C"] by (metis le_neq_implies_less)
    show ?thesis
    proof (cases "find (\<lambda>i. rq_bits rq ! i \<noteq> 0) [Suc ?i..<RQB_LEN C]")
      case None
      then show ?thesis
        using no_word [OF wf None] split by (auto simp: rest findbit_from_loop_find)
    next
      case (Some l)
      obtain p where p: "RQB_FFS C (rq_bits rq ! l) + int (l * 2 ^ RQB_L2BPW C) = int p" "marked C rq p"
          "Suc ?i * RQB_BPW C \<le> p" "\<And>q. Suc ?i * RQB_BPW C \<le> q \<Longrightarrow> q < p \<Longrightarrow> \<not> marked C rq q"
        using first_word [OF wf Some] by blast
      have "k \<le> p" using p(3) above [of p] by (metis div_le_mono linorder_not_le nat_le_linear)
      moreover have "\<not> marked C rq q" if "k \<le> q" "q < p" for q
        using split [OF that(1)] p(4) that(2) by blast
      moreover have "findbit_from_loop C (rq_bits rq) m [RQB_WORD C k..<RQB_LEN C] = (Some (int p), rq_bits rq ! l)"
        by (simp add: rest findbit_from_loop_find Some p(1) [symmetric])
      ultimately show ?thesis using p(2) by blast
    qed
  qed
qed

lemma findbit_from_spec:
  assumes wf: "bits_wf C rq" and k: "unat pri < RQ_NQS"
  shows "(runq_findbit_from C rq pri = -1 \<and> (\<forall>q. \<not> marked C rq q)) \<or>
    (\<exists>p. runq_findbit_from C rq pri = int p \<and> marked C rq p \<and>
       (\<forall>q. marked C rq q \<longrightarrow> (p + RQ_NQS - unat pri) mod RQ_NQS \<le> (q + RQ_NQS - unat pri) mod RQ_NQS))"
proof -
  let ?k = "unat pri"
  have k64: "?k < 64" using k by simp
  have lt: "q < 64" if "marked C rq q" for q
    using that by (simp add: marked_def)
  have after: "(p + 64 - ?k) mod 64 = p - ?k" if "?k \<le> p" "p < 64" for p
  proof -
    have "p + 64 - ?k = (p - ?k) + 64" using that k64 by simp
    then have "(p + 64 - ?k) mod 64 = (p - ?k) mod 64" by (simp only: mod_add_self2)
    then show ?thesis using that by simp
  qed
  have before: "(p + 64 - ?k) mod 64 = p + 64 - ?k" if "p < ?k" for p
    using that by simp
  have w0: "RQB_WORD C 0 = 0"
    using wf by (simp add: bits_wf_def rqb_okD(1))
  note P1 = findbit_from_first_pass [OF wf k64, OF refl]
  have P2: "(findbit_from_loop C (rq_bits rq) (-1) [0..<RQB_LEN C] = (None, -1) \<and> (\<forall>q. \<not> marked C rq q)) \<or>
      (\<exists>p w. findbit_from_loop C (rq_bits rq) (-1) [0..<RQB_LEN C] = (Some (int p), w) \<and> marked C rq p \<and>
         (\<forall>q. q < p \<longrightarrow> \<not> marked C rq q))"
    using findbit_from_first_pass [OF wf, of 0 "-1"] by (simp add: w0)
  consider (found) p w where
      "findbit_from_loop C (rq_bits rq) (push_bit (?k AND (RQB_BPW C - 1)) (-1)) [RQB_WORD C ?k..<RQB_LEN C] = (Some (int p), w)"
      "?k \<le> p" "marked C rq p" "\<And>q. ?k \<le> q \<Longrightarrow> q < p \<Longrightarrow> \<not> marked C rq q"
    | (wrap) "findbit_from_loop C (rq_bits rq) (push_bit (?k AND (RQB_BPW C - 1)) (-1)) [RQB_WORD C ?k..<RQB_LEN C] = (None, -1)"
      "\<And>q. ?k \<le> q \<Longrightarrow> \<not> marked C rq q"
    using P1 by blast
  then show ?thesis
  proof cases
    case (found p w)
    have "p - ?k \<le> (q + 64 - ?k) mod 64" if q: "marked C rq q" for q
    proof (cases "?k \<le> q")
      case True
      then have "p \<le> q" using found(4) [of q] q by (meson not_less)
      then have "p - ?k \<le> q - ?k" by (rule diff_le_mono)
      then show ?thesis using after [OF True lt [OF q]] by simp
    next
      case False
      then show ?thesis using before [of q] lt [OF found(3)] found(2) by simp
    qed
    then show ?thesis
      using found(1,3) after [OF found(2) lt [OF found(3)]] by (auto simp: runq_findbit_from_def Let_def)
  next
    case wrap
    show ?thesis
    proof (cases "pri = 0")
      case True
      then show ?thesis using wrap by (auto simp: runq_findbit_from_def Let_def)
    next
      case False
      then have r: "runq_findbit_from C rq pri =
          (case findbit_from_loop C (rq_bits rq) (-1) [0..<RQB_LEN C] of (Some p, _) \<Rightarrow> p | (None, _) \<Rightarrow> -1)"
        using wrap(1) by (simp add: runq_findbit_from_def Let_def w0)
      from P2 show ?thesis
      proof (elim disjE exE conjE)
        assume "findbit_from_loop C (rq_bits rq) (-1) [0..<RQB_LEN C] = (None, -1)" "\<forall>q. \<not> marked C rq q"
        then show ?thesis by (simp add: r)
      next
        fix p w
        assume p: "findbit_from_loop C (rq_bits rq) (-1) [0..<RQB_LEN C] = (Some (int p), w)"
          "marked C rq p" "\<forall>q. q < p \<longrightarrow> \<not> marked C rq q"
        have small: "q < ?k" if "marked C rq q" for q
          using that wrap(2) by (meson not_le)
        have "(p + 64 - ?k) mod 64 \<le> (q + 64 - ?k) mod 64" if q: "marked C rq q" for q
        proof -
          have "p + 64 - ?k \<le> q + 64 - ?k"
            using q p(3) by (meson diff_le_mono add_le_mono1 not_le)
          then show ?thesis by (simp only: before [OF small [OF p(2)]] before [OF small [OF q]])
        qed
        then show ?thesis
          using p(1,2) by (auto simp: r)
      qed
    qed
  qed
qed

end
