(* ===== verification/RunQueueLaws.thy ===== *)
theory RunQueueLaws
  imports RunQueue
begin

text \<open>
  The run queues of kern_switch.c as an implementation of two contracts: the status bits as a
  set of queue numbers that can be searched from the front or circularly (locale
  \<open>status_bits\<close>), and the queue as a set of threads that can be added, chosen and removed
  (locale \<open>run_queue\<close>, interpreted for the linear and for the circular discipline). The
  invariant \<open>runq_wf\<close> ties the bits, the lists and the threads' queue indices together.
\<close>

locale status_bits =
  fixes bits_inv :: "'c \<Rightarrow> 's \<Rightarrow> bool"
    and mark :: "'c \<Rightarrow> 's \<Rightarrow> nat \<Rightarrow> 's"
    and unmark :: "'c \<Rightarrow> 's \<Rightarrow> nat \<Rightarrow> 's"
    and is_marked :: "'c \<Rightarrow> 's \<Rightarrow> nat \<Rightarrow> bool"
    and first_marked :: "'c \<Rightarrow> 's \<Rightarrow> int"
    and next_marked :: "'c \<Rightarrow> 's \<Rightarrow> u_char \<Rightarrow> int"
    and n :: nat
  assumes inv_mark: "bits_inv c s \<Longrightarrow> p < n \<Longrightarrow> bits_inv c (mark c s p)"
    and inv_unmark: "bits_inv c s \<Longrightarrow> p < n \<Longrightarrow> bits_inv c (unmark c s p)"
    and is_marked_mark: "bits_inv c s \<Longrightarrow> p < n \<Longrightarrow> is_marked c (mark c s p) q \<longleftrightarrow> q = p \<or> is_marked c s q"
    and is_marked_unmark: "bits_inv c s \<Longrightarrow> p < n \<Longrightarrow> is_marked c (unmark c s p) q \<longleftrightarrow> q \<noteq> p \<and> is_marked c s q"
    and is_marked_less: "is_marked c s p \<Longrightarrow> p < n"
    and first_marked: "bits_inv c s \<Longrightarrow>
      (first_marked c s = -1 \<and> (\<forall>q. \<not> is_marked c s q)) \<or>
      (\<exists>p. first_marked c s = int p \<and> is_marked c s p \<and> (\<forall>q<p. \<not> is_marked c s q))"
    and next_marked: "bits_inv c s \<Longrightarrow> unat k < n \<Longrightarrow>
      (next_marked c s k = -1 \<and> (\<forall>q. \<not> is_marked c s q)) \<or>
      (\<exists>p. next_marked c s k = int p \<and> is_marked c s p \<and>
         (\<forall>q. is_marked c s q \<longrightarrow> (p + n - unat k) mod n \<le> (q + n - unat k) mod n))"
begin

lemma first_marked_none: "bits_inv c s \<Longrightarrow> first_marked c s = -1 \<longleftrightarrow> (\<forall>q. \<not> is_marked c s q)"
  using first_marked [of c s] by auto

lemma next_marked_none: "bits_inv c s \<Longrightarrow> unat k < n \<Longrightarrow> next_marked c s k = -1 \<longleftrightarrow> (\<forall>q. \<not> is_marked c s q)"
  using next_marked [of c s k] by auto

lemma first_marked_some:
  "bits_inv c s \<Longrightarrow> first_marked c s \<noteq> -1 \<Longrightarrow>
     \<exists>p. first_marked c s = int p \<and> p < n \<and> is_marked c s p \<and> (\<forall>q. is_marked c s q \<longrightarrow> p \<le> q)"
  using first_marked [of c s] is_marked_less [of c s] by (auto simp: not_less [symmetric])

lemma next_marked_some:
  "bits_inv c s \<Longrightarrow> unat k < n \<Longrightarrow> next_marked c s k \<noteq> -1 \<Longrightarrow>
     \<exists>p. next_marked c s k = int p \<and> p < n \<and> is_marked c s p \<and>
       (\<forall>q. is_marked c s q \<longrightarrow> (p + n - unat k) mod n \<le> (q + n - unat k) mod n)"
  using next_marked [of c s k] is_marked_less [of c s] by auto

text \<open>The circular search from 0 is the linear search.\<close>

lemma next_marked_0:
  assumes "bits_inv c s" "0 < n"
  shows "next_marked c s 0 = first_marked c s"
proof (cases "first_marked c s = -1")
  case True
  then show ?thesis
    using next_marked_none [of c s 0] first_marked_none [of c s] assms by simp
next
  case False
  have "next_marked c s 0 \<noteq> -1"
    using False next_marked_none [of c s 0] first_marked_none [of c s] assms by simp
  then obtain p where p: "next_marked c s 0 = int p" "is_marked c s p" "p < n"
      "\<And>q. is_marked c s q \<Longrightarrow> (p + n) mod n \<le> (q + n) mod n"
    using next_marked_some [of c s 0] assms by auto
  obtain q where q: "first_marked c s = int q" "is_marked c s q" "q < n" "\<And>r. is_marked c s r \<Longrightarrow> q \<le> r"
    using first_marked_some [of c s] False assms(1) by auto
  show ?thesis
    using p(4) [OF q(2)] p(3) q(3) q(4) [OF p(2)] by (simp add: p(1) q(1))
qed

lemma first_marked_mark:
  assumes i: "bits_inv c s" and p: "p < n"
  shows "first_marked c (mark c s p) = (if first_marked c s = -1 then int p else min (int p) (first_marked c s))"
proof -
  have "first_marked c (mark c s p) \<noteq> -1"
    using first_marked_none [OF inv_mark [OF i p]] is_marked_mark [OF i p, of p] by auto
  then obtain m where m: "first_marked c (mark c s p) = int m" "is_marked c (mark c s p) m"
      "\<And>q. is_marked c (mark c s p) q \<Longrightarrow> m \<le> q"
    using first_marked_some [OF inv_mark [OF i p]] by auto
  show ?thesis
  proof (cases "first_marked c s = -1")
    case True
    then show ?thesis
      using m(1,2) is_marked_mark [OF i p] first_marked_none [OF i] by auto
  next
    case False
    then obtain l where l: "first_marked c s = int l" "is_marked c s l" "\<And>q. is_marked c s q \<Longrightarrow> l \<le> q"
      using first_marked_some [OF i] by auto
    have "m = min p l"
    proof (rule le_antisym)
      show "m \<le> min p l" using m(3) l(2) is_marked_mark [OF i p] by simp
      show "min p l \<le> m" using m(2) l(3) [of m] is_marked_mark [OF i p] by auto
    qed
    then show ?thesis using False by (simp add: m(1) l(1))
  qed
qed

end

interpretation rqb: status_bits bits_wf runq_setbit runq_clrbit marked runq_findbit runq_findbit_from RQ_NQS
proof (unfold_locales, goal_cases)
  case (1 c s p) then show ?case by (rule bits_wf_setbit)
next
  case (2 c s p) then show ?case by (rule bits_wf_clrbit)
next
  case (3 c s p q) then show ?case by (rule marked_setbit)
next
  case (4 c s p q) then show ?case by (rule marked_clrbit)
next
  case (5 c s p) then show ?case by (simp add: marked_def)
next
  case (6 c s) then show ?case by (rule findbit_spec)
next
  case (7 c s k) then show ?case by (rule findbit_from_spec)
qed

subsection \<open>Well-formed run queues\<close>

definition rq_level :: "runq \<Rightarrow> nat \<Rightarrow> tid list" where
  "rq_level rq p = rq_queues rq ! p"

definition rq_elems :: "runq \<Rightarrow> tid set" where
  "rq_elems rq = set (concat (rq_queues rq))"

definition runq_wf :: "'a rqb_machine_scheme \<Rightarrow> store \<Rightarrow> runq \<Rightarrow> bool" where
  "runq_wf C ths rq \<longleftrightarrow> bits_wf C rq \<and> length (rq_queues rq) = RQ_NQS \<and>
     (\<forall>p < RQ_NQS. marked C rq p \<longleftrightarrow> rq_level rq p \<noteq> []) \<and>
     (\<forall>p < RQ_NQS. distinct (rq_level rq p) \<and>
        (\<forall>t \<in> set (rq_level rq p). unat (td_rqindex (ths t)) = p \<and> has_flag (td_flags (ths t)) TDF_INMEM))"

lemma rq_elems_iff: "length (rq_queues rq) = RQ_NQS \<Longrightarrow> t \<in> rq_elems rq \<longleftrightarrow> (\<exists>p < RQ_NQS. t \<in> set (rq_level rq p))"
  by (auto simp: rq_elems_def rq_level_def) (metis in_set_conv_nth)+

lemma runq_wfD:
  assumes "runq_wf C ths rq"
  shows "bits_wf C rq" "length (rq_queues rq) = 64"
    "marked C rq p \<longleftrightarrow> p < 64 \<and> rq_level rq p \<noteq> []"
    "p < 64 \<Longrightarrow> distinct (rq_level rq p)"
    "p < 64 \<Longrightarrow> t \<in> set (rq_level rq p) \<Longrightarrow> unat (td_rqindex (ths t)) = p"
    "p < 64 \<Longrightarrow> t \<in> set (rq_level rq p) \<Longrightarrow> has_flag (td_flags (ths t)) TDF_INMEM"
  using assms by (auto simp: runq_wf_def marked_def)

lemma runq_wf_elem:
  assumes "runq_wf C ths rq"
  shows "t \<in> rq_elems rq \<longleftrightarrow> unat (td_rqindex (ths t)) < 64 \<and> t \<in> set (rq_level rq (unat (td_rqindex (ths t))))"
  using runq_wfD(2,5) [OF assms] rq_elems_iff [of rq t] by auto

text \<open>Threads that are not queued may change freely.\<close>

lemma runq_wf_cong:
  assumes "runq_wf C ths rq"
    and "\<And>t. t \<in> rq_elems rq \<Longrightarrow> td_rqindex (ths' t) = td_rqindex (ths t) \<and>
          has_flag (td_flags (ths' t)) TDF_INMEM = has_flag (td_flags (ths t)) TDF_INMEM"
  shows "runq_wf C ths' rq"
proof -
  have "t \<in> rq_elems rq" if "p < 64" "t \<in> set (rq_level rq p)" for t p
    using that runq_wfD(2) [OF assms(1)] rq_elems_iff [of rq t] by auto
  then show ?thesis
    using assms(1,2) by (fastforce simp: runq_wf_def)
qed

subsection \<open>Adding keeps the queue well-formed\<close>

definition enqueued :: "'a rqb_machine_scheme \<Rightarrow> runq \<Rightarrow> tid \<Rightarrow> nat \<Rightarrow> srq set \<Rightarrow> runq" where
  "enqueued C rq td pri flags =
     set_rqhead (runq_setbit C rq pri) pri (tailq_insert flags td (rq_queues (runq_setbit C rq pri) ! pri))"

lemma setbit_queues [simp]: "rq_queues (runq_setbit C rq p) = rq_queues rq"
  "rq_queues (runq_clrbit C rq p) = rq_queues rq"
  by (simp_all add: runq_setbit_def runq_clrbit_def)

lemma set_rqhead_simps [simp]:
  "rq_bits (set_rqhead rq p q) = rq_bits rq"
  "rq_queues (set_rqhead rq p q) = (rq_queues rq)[p := q]"
  by (simp_all add: set_rqhead_def)

lemma marked_cong: "rq_bits rq' = rq_bits rq \<Longrightarrow> marked C rq' p = marked C rq p"
  "rq_bits rq' = rq_bits rq \<Longrightarrow> bits_wf C rq' = bits_wf C rq"
  by (simp_all add: marked_def bits_wf_def)

lemma set_tailq_insert [simp]: "set (tailq_insert flags td q) = insert td (set q)"
  by (auto simp: tailq_insert_def)

lemma tailq_insert_ne [simp]: "tailq_insert flags td q \<noteq> []"
  by (simp add: tailq_insert_def)

lemma distinct_tailq_insert [simp]: "distinct (tailq_insert flags td q) \<longleftrightarrow> td \<notin> set q \<and> distinct q"
  by (auto simp: tailq_insert_def)

lemma rq_level_enqueued:
  "p < 64 \<Longrightarrow> pri < 64 \<Longrightarrow> length (rq_queues rq) = 64 \<Longrightarrow>
   rq_level (enqueued C rq td pri flags) p = (if p = pri then tailq_insert flags td (rq_level rq pri) else rq_level rq p)"
  by (simp add: rq_level_def enqueued_def)

lemma enqueued_wf:
  assumes wf: "runq_wf C ths rq" and new: "td \<notin> rq_elems rq" and p: "pri < 64"
    and mem: "has_flag (td_flags (ths td)) TDF_INMEM"
    and ths': "\<And>t. t \<noteq> td \<Longrightarrow> ths' t = ths t" "unat (td_rqindex (ths' td)) = pri" "td_flags (ths' td) = td_flags (ths td)"
  shows "runq_wf C ths' (enqueued C rq td pri flags)" "rq_elems (enqueued C rq td pri flags) = insert td (rq_elems rq)"
proof -
  note W = runq_wfD [OF wf]
  let ?rq = "enqueued C rq td pri flags"
  have len: "length (rq_queues ?rq) = 64" by (simp add: enqueued_def W(2))
  have lev: "rq_level ?rq p = (if p = pri then tailq_insert flags td (rq_level rq pri) else rq_level rq p)" if "p < 64" for p
    using that p W(2) by (simp add: rq_level_enqueued)
  have bits: "rq_bits ?rq = rq_bits (runq_setbit C rq pri)" by (simp add: enqueued_def)
  show el: "rq_elems ?rq = insert td (rq_elems rq)"
    using lev p len W(2) by (auto simp: set_eq_iff rq_elems_iff split: if_splits)
  have nt: "t \<noteq> td" if "p < 64" "t \<in> set (rq_level rq p)" for t p
    using that new W(2) by (auto simp: rq_elems_iff)
  have "bits_wf C ?rq"
    unfolding marked_cong(2) [OF bits] using rqb.inv_mark [OF W(1)] p by simp
  moreover have "marked C ?rq q \<longleftrightarrow> rq_level ?rq q \<noteq> []" if "q < 64" for q
    unfolding marked_cong(1) [OF bits] using that p W(3) [of q] lev [OF that] rqb.is_marked_mark [OF W(1), of pri q] by auto
  moreover have "distinct (rq_level ?rq q)" if "q < 64" for q
    using lev [OF that] W(4) [OF that] nt [OF that] by auto
  moreover have "unat (td_rqindex (ths' t)) = q \<and> has_flag (td_flags (ths' t)) TDF_INMEM"
    if "q < 64" "t \<in> set (rq_level ?rq q)" for q t
    using that lev [OF that(1)] W(5,6) [OF that(1), of t] nt [OF that(1)] mem ths' by (auto split: if_splits)
  ultimately show "runq_wf C ths' ?rq"
    using len by (simp add: runq_wf_def)
qed

lemma unat_prio_level [simp]: "unat (x :: u_char) div 4 < 64" "unat (of_nat (unat x div 4) :: u_char) = unat x div 4"
proof -
  have "unat x < 256" by (rule unat_u_char_less)
  then show "unat x div 4 < 64" "unat (of_nat (unat x div 4) :: u_char) = unat x div 4"
    by (simp_all add: unat_of_nat)
qed

lemma runq_add_eq: "runq_add C ths rq td flags =
    (upd_td td (td_rqindex_update (\<lambda>_. of_nat (unat (td_priority (ths td)) div 4))) ths,
     enqueued C rq td (unat (td_priority (ths td)) div 4) flags)"
  by (simp add: runq_add_def enqueued_def Let_def)

lemma runq_add_pri_eq: "runq_add_pri C ths rq td pri flags =
    (if unat pri < 64 then Inr (upd_td td (td_rqindex_update (\<lambda>_. pri)) ths, enqueued C rq td (unat pri) flags)
     else Inl (Panic ''runq_add_pri: out of range''))"
  by (simp add: runq_add_pri_def enqueued_def Let_def)

lemma lotteryq_add_eq: "lotteryq_add C ths rq td flags =
    (upd_td td (td_rqindex_update (\<lambda>_. 0)) ths, enqueued C rq td 0 flags)"
  by (simp add: lotteryq_add_def enqueued_def Let_def)

lemma runq_add_is_add_pri:
  "runq_add_pri C ths rq td (of_nat (unat (td_priority (ths td)) div 4)) flags = Inr (runq_add C ths rq td flags)"
  by (simp add: runq_add_pri_eq runq_add_eq)

lemma runq_add_pri_wf:
  assumes "runq_wf C ths rq" "td \<notin> rq_elems rq" "has_flag (td_flags (ths td)) TDF_INMEM"
    "runq_add_pri C ths rq td pri flags = Inr (ths', rq')"
  shows "runq_wf C ths' rq'" "rq_elems rq' = insert td (rq_elems rq)"
  using assms(4) enqueued_wf [OF assms(1,2) _ assms(3), of "unat pri" ths' flags]
  by (auto simp: runq_add_pri_eq split: if_splits)

lemma runq_add_wf:
  assumes "runq_wf C ths rq" "td \<notin> rq_elems rq" "has_flag (td_flags (ths td)) TDF_INMEM"
    "runq_add C ths rq td flags = (ths', rq')"
  shows "runq_wf C ths' rq'" "rq_elems rq' = insert td (rq_elems rq)"
  using runq_add_pri_wf [OF assms(1,2,3), of "of_nat (unat (td_priority (ths td)) div 4)" flags ths' rq'] assms(4)
  by (simp_all add: runq_add_is_add_pri)

subsection \<open>Removing keeps the queue well-formed\<close>

definition dequeued :: "'a rqb_machine_scheme \<Rightarrow> runq \<Rightarrow> tid \<Rightarrow> nat \<Rightarrow> runq" where
  "dequeued C rq td pri =
     (let q = remove1 td (rq_level rq pri); rq1 = set_rqhead rq pri q
      in if q = [] then runq_clrbit C rq1 pri else rq1)"

lemma runq_remove_idx_eq:
  assumes wf: "runq_wf C ths rq" and td: "td \<in> rq_elems rq"
  shows "runq_remove_idx C ths rq td idx =
    Inr (dequeued C rq td (unat (td_rqindex (ths td))),
         (if remove1 td (rq_level rq (unat (td_rqindex (ths td)))) = []
          then map_option (\<lambda>i. if i = td_rqindex (ths td)
                 then of_nat ((unat (td_rqindex (ths td)) + 1) mod RQ_NQS) else i) idx
          else idx))"
  using td [unfolded runq_wf_elem [OF wf]] runq_wfD(6) [OF wf, of "unat (td_rqindex (ths td))" td]
  by (auto simp: runq_remove_idx_def dequeued_def rq_level_def tailq_remove_def Let_def split: option.split)

lemma rq_level_dequeued:
  "p < 64 \<Longrightarrow> pri < 64 \<Longrightarrow> length (rq_queues rq) = 64 \<Longrightarrow>
   rq_level (dequeued C rq td pri) p = (if p = pri then remove1 td (rq_level rq pri) else rq_level rq p)"
  by (simp add: rq_level_def dequeued_def Let_def)

lemma dequeued_wf:
  assumes wf: "runq_wf C ths rq" and td: "td \<in> rq_elems rq"
  defines "pri \<equiv> unat (td_rqindex (ths td))"
  shows "runq_wf C ths (dequeued C rq td pri)" "rq_elems (dequeued C rq td pri) = rq_elems rq - {td}"
proof -
  note W = runq_wfD [OF wf]
  have p: "pri < 64" and tq: "td \<in> set (rq_level rq pri)"
    using td unfolding runq_wf_elem [OF wf] pri_def by auto
  let ?rq = "dequeued C rq td pri"
  have len: "length (rq_queues ?rq) = 64" by (simp add: dequeued_def W(2) Let_def)
  have lev: "rq_level ?rq q = (if q = pri then remove1 td (rq_level rq pri) else rq_level rq q)" if "q < 64" for q
    using that p W(2) by (simp add: rq_level_dequeued)
  have only: "td \<in> set (rq_level rq q) \<longleftrightarrow> q = pri" if "q < 64" for q
    using W(5) [OF that, of td] tq by (auto simp: pri_def)
  have sets: "set (rq_level ?rq q) = set (rq_level rq q) - {td}" if "q < 64" for q
    using lev [OF that] only [OF that] W(4) [OF p] by (auto simp: set_remove1_eq)
  show "rq_elems ?rq = rq_elems rq - {td}"
    using sets len W(2) by (auto simp: set_eq_iff rq_elems_iff)
  let ?rq1 = "set_rqhead rq pri (remove1 td (rq_level rq pri))"
  have b1: "bits_wf C ?rq1" using W(1) by (simp add: marked_cong(2) [of ?rq1 rq])
  have "bits_wf C ?rq"
    using b1 rqb.inv_unmark [OF b1, of pri] p
    by (cases "remove1 td (rq_level rq pri) = []") (simp_all add: dequeued_def Let_def)
  moreover have "marked C ?rq q \<longleftrightarrow> rq_level ?rq q \<noteq> []" if q: "q < 64" for q
    using rqb.is_marked_unmark [OF b1, of pri q] p W(3) [of q] q lev [OF q] tq
    by (auto simp: dequeued_def Let_def marked_cong(1) [of ?rq1 rq])
  moreover have "distinct (rq_level ?rq q)" if "q < 64" for q
    using lev [OF that] W(4) [OF that] by (cases "q = pri") (simp_all add: distinct_remove1)
  ultimately show "runq_wf C ths ?rq"
    using len sets W(5,6) by (auto simp: runq_wf_def)
qed

lemma runq_remove_ok:
  assumes "runq_wf C ths rq" "td \<in> rq_elems rq"
  shows "runq_remove C ths rq td = Inr (dequeued C rq td (unat (td_rqindex (ths td))))"
  by (simp add: runq_remove_def runq_remove_idx_eq [OF assms])

subsection \<open>Initial queues and choosing\<close>

lemma runq_init_wf:
  assumes "rqb_ok C"
  shows "runq_wf C ths (runq_init C)" "rq_elems (runq_init C) = {}"
proof -
  have "p < 64 \<Longrightarrow> p div RQB_BPW C < RQB_LEN C" for p
    using rqb_okD(7) [OF assms] by simp
  then show "runq_wf C ths (runq_init C)"
    using assms by (auto simp: runq_wf_def runq_init_def bits_wf_def marked_def rq_level_def rqb_okD(1))
  show "rq_elems (runq_init C) = {}"
    by (auto simp: rq_elems_def runq_init_def)
qed

lemma lotteryq_init_eq [simp]: "lotteryq_init C = runq_init C"
  by (simp add: lotteryq_init_def runq_init_def)

lemma no_mark_iff_empty:
  assumes "runq_wf C ths rq"
  shows "(\<forall>q. \<not> marked C rq q) \<longleftrightarrow> rq_elems rq = {}"
  using runq_wfD(2,3) [OF assms] by (auto simp: set_eq_iff rq_elems_iff) (metis last_in_set)+

lemma rqhead_level: "p < 64 \<Longrightarrow> length (rq_queues rq) = 64 \<Longrightarrow> rqhead rq (int p) = Inr (rq_level rq p)"
  by (simp add: rqhead_def rq_level_def)

lemma runq_choose_cases:
  assumes wf: "runq_wf C ths rq"
  shows "(runq_choose C rq = Inr None \<and> rq_elems rq = {}) \<or>
    (\<exists>p t. runq_choose C rq = Inr (Some t) \<and> runq_findbit C rq = int p \<and> p < 64 \<and>
       tailq_first (rq_level rq p) = Some t \<and> t \<in> rq_elems rq \<and>
       (\<forall>u \<in> rq_elems rq. td_rqindex (ths t) \<le> td_rqindex (ths u)))"
proof (cases "runq_findbit C rq = -1")
  case True
  then show ?thesis
    using rqb.first_marked_none [OF runq_wfD(1) [OF wf]] no_mark_iff_empty [OF wf] by (simp add: runq_choose_def)
next
  case False
  note W = runq_wfD [OF wf]
  obtain p where p: "runq_findbit C rq = int p" "p < 64" "marked C rq p" "\<And>q. marked C rq q \<Longrightarrow> p \<le> q"
    using rqb.first_marked_some [OF W(1) False] by auto
  obtain t where t: "tailq_first (rq_level rq p) = Some t"
    using p(3) W(3) by (cases "rq_level rq p") auto
  have tp: "t \<in> set (rq_level rq p)" using t by (rule tailq_first_SomeD)
  have "td_rqindex (ths t) \<le> td_rqindex (ths u)" if u: "u \<in> rq_elems rq" for u
  proof -
    have "marked C rq (unat (td_rqindex (ths u)))"
      using u unfolding runq_wf_elem [OF wf] W(3) by auto
    then show ?thesis
      using p(4) W(5) [OF p(2) tp] by (simp add: word_le_nat_alt)
  qed
  moreover have "t \<in> rq_elems rq" using tp p(2) W(2) by (auto simp: rq_elems_iff)
  moreover have "runq_choose C rq = Inr (Some t)"
    using False p(1,2) t tp W(2) by (cases "rq_level rq p") (simp_all add: runq_choose_def rqhead_level Let_def)
  ultimately show ?thesis using p(1,2) t by blast
qed

lemma runq_choose_from_cases:
  assumes wf: "runq_wf C ths rq" and k: "unat idx < 64"
  shows "(runq_choose_from C rq idx = Inr None \<and> rq_elems rq = {}) \<or>
    (\<exists>p t. runq_choose_from C rq idx = Inr (Some t) \<and> p < 64 \<and>
       tailq_first (rq_level rq p) = Some t \<and> t \<in> rq_elems rq \<and>
       (\<forall>u \<in> rq_elems rq. (unat (td_rqindex (ths t)) + 64 - unat idx) mod 64
                          \<le> (unat (td_rqindex (ths u)) + 64 - unat idx) mod 64))"
proof (cases "runq_findbit_from C rq idx = -1")
  case True
  then show ?thesis
    using rqb.next_marked_none [OF runq_wfD(1) [OF wf]] k no_mark_iff_empty [OF wf]
    by (simp add: runq_choose_from_def)
next
  case False
  note W = runq_wfD [OF wf]
  obtain p where p: "runq_findbit_from C rq idx = int p" "p < 64" "marked C rq p"
      "\<And>q. marked C rq q \<Longrightarrow> (p + 64 - unat idx) mod 64 \<le> (q + 64 - unat idx) mod 64"
    using rqb.next_marked_some [OF W(1) _ False] k by auto
  obtain t where t: "tailq_first (rq_level rq p) = Some t"
    using p(3) W(3) by (cases "rq_level rq p") auto
  have tp: "t \<in> set (rq_level rq p)" using t by (rule tailq_first_SomeD)
  have "(unat (td_rqindex (ths t)) + 64 - unat idx) mod 64 \<le> (unat (td_rqindex (ths u)) + 64 - unat idx) mod 64"
    if u: "u \<in> rq_elems rq" for u
  proof -
    have "marked C rq (unat (td_rqindex (ths u)))"
      using u unfolding runq_wf_elem [OF wf] W(3) by auto
    then show ?thesis
      using p(4) W(5) [OF p(2) tp] by simp
  qed
  moreover have "t \<in> rq_elems rq" using tp p(2) W(2) by (auto simp: rq_elems_iff)
  moreover have "runq_choose_from C rq idx = Inr (Some t)"
    using False p(1,2) t tp W(2) by (cases "rq_level rq p") (simp_all add: runq_choose_from_def rqhead_level Let_def)
  ultimately show ?thesis using p(2) t by blast
qed

lemma check_loop_iff: "check_loop bits is \<longleftrightarrow> (\<exists>i \<in> set is. bits ! i \<noteq> 0)"
  by (induction "is") auto

lemma runq_check_findbit:
  assumes "bits_wf C rq"
  shows "runq_check C rq \<longleftrightarrow> runq_findbit C rq \<noteq> -1"
proof -
  have "runq_check C rq \<longleftrightarrow> find (\<lambda>i. rq_bits rq ! i \<noteq> 0) [0..<RQB_LEN C] \<noteq> None"
    by (auto simp: runq_check_def check_loop_iff find_None_iff)
  also have "\<dots> \<longleftrightarrow> runq_findbit C rq \<noteq> -1"
  proof (cases "find (\<lambda>i. rq_bits rq ! i \<noteq> 0) [0..<RQB_LEN C]")
    case (Some i)
    show ?thesis
      by (rule first_word [OF assms Some]) (simp add: runq_findbit_def findbit_loop_find Some)
  qed (simp add: runq_findbit_def findbit_loop_find)
  finally show ?thesis .
qed

lemma fuzz_scan_cases:
  "fuzz_scan ths cpu n td q = td \<or>
   (\<exists>u \<in> set (take n q). fuzz_scan ths cpu n td q = Some u \<and> td_lastcpu (ths u) = int cpu)"
  by (induction ths cpu n td q rule: fuzz_scan.induct) auto

lemma fuzz_scan_found:
  "u \<in> set (take n q) \<Longrightarrow> td_lastcpu (ths u) = int cpu \<Longrightarrow>
   \<exists>v \<in> set (take n q). fuzz_scan ths cpu n td q = Some v \<and> td_lastcpu (ths v) = int cpu"
  by (induction ths cpu n td q rule: fuzz_scan.induct) auto


subsection \<open>The contract of a run queue\<close>

text \<open>
  What the scheduler relies on: a thread that is ready and not queued can be added, choosing
  finds a queued thread unless there is none, and a queued thread can be removed. The linear
  queues (realtime and idle) and the circular one (timeshare) keep the same contract with
  their own operations.
\<close>

locale run_queue =
  fixes wf :: "'c \<Rightarrow> store \<Rightarrow> 'q \<Rightarrow> bool"
    and elems :: "'q \<Rightarrow> tid set"
    and ready :: "store \<Rightarrow> tid \<Rightarrow> bool"
    and add_ok :: "'a \<Rightarrow> bool"
    and choose_ok :: "'k \<Rightarrow> bool"
    and add :: "'c \<Rightarrow> store \<Rightarrow> 'q \<Rightarrow> tid \<Rightarrow> 'a \<Rightarrow> fault + (store \<times> 'q)"
    and pick :: "'c \<Rightarrow> 'q \<Rightarrow> 'k \<Rightarrow> fault + tid option"
    and remove :: "'c \<Rightarrow> store \<Rightarrow> 'q \<Rightarrow> tid \<Rightarrow> fault + 'q"
  assumes add_law: "wf c ths q \<Longrightarrow> t \<notin> elems q \<Longrightarrow> ready ths t \<Longrightarrow> add_ok a \<Longrightarrow>
      \<exists>ths' q'. add c ths q t a = Inr (ths', q') \<and> wf c ths' q' \<and> elems q' = insert t (elems q)"
    and choose_law: "wf c ths q \<Longrightarrow> choose_ok k \<Longrightarrow>
      (pick c q k = Inr None \<and> elems q = {}) \<or> (\<exists>t \<in> elems q. pick c q k = Inr (Some t))"
    and remove_law: "wf c ths q \<Longrightarrow> t \<in> elems q \<Longrightarrow>
      \<exists>q'. remove c ths q t = Inr q' \<and> wf c ths q' \<and> elems q' = elems q - {t}"
    and finite_elems: "finite (elems q)"
begin

lemma choose_none_iff: "wf c ths q \<Longrightarrow> choose_ok k \<Longrightarrow> pick c q k = Inr None \<longleftrightarrow> elems q = {}"
  using choose_law [of c ths q k] by auto

lemma choose_some: "wf c ths q \<Longrightarrow> choose_ok k \<Longrightarrow> t \<in> elems q \<Longrightarrow> \<exists>u \<in> elems q. pick c q k = Inr (Some u)"
  using choose_law [of c ths q k] by auto

lemma added_is_chosen_some:
  assumes "wf c ths q" "t \<notin> elems q" "ready ths t" "add_ok a" "choose_ok k"
  shows "\<exists>ths' q' u. add c ths q t a = Inr (ths', q') \<and> pick c q' k = Inr (Some u) \<and> u \<in> insert t (elems q)"
proof -
  obtain ths' q' where q': "add c ths q t a = Inr (ths', q')" "wf c ths' q'" "elems q' = insert t (elems q)"
    using add_law [OF assms(1-4)] by blast
  then show ?thesis
    using choose_some [OF q'(2) assms(5), of t] by auto
qed

lemma choose_remove:
  assumes "wf c ths q" "choose_ok k" "elems q \<noteq> {}"
  shows "\<exists>t q'. pick c q k = Inr (Some t) \<and> remove c ths q t = Inr q' \<and> wf c ths q' \<and>
    t \<in> elems q \<and> elems q' = elems q - {t} \<and> card (elems q') < card (elems q)"
proof -
  obtain t where t: "t \<in> elems q" "pick c q k = Inr (Some t)"
    using choose_law [OF assms(1,2)] assms(3) by auto
  obtain q' where "remove c ths q t = Inr q'" "wf c ths q'" "elems q' = elems q - {t}"
    using remove_law [OF assms(1) t(1)] by blast
  with t show ?thesis
    using card_Diff1_less [OF finite_elems t(1)] by auto
qed

end

abbreviation td_inmem :: "store \<Rightarrow> tid \<Rightarrow> bool" where
  "td_inmem ths t \<equiv> has_flag (td_flags (ths t)) TDF_INMEM"

lemma runq_remove_law:
  assumes "runq_wf C ths rq" "t \<in> rq_elems rq"
  shows "\<exists>rq'. runq_remove C ths rq t = Inr rq' \<and> runq_wf C ths rq' \<and> rq_elems rq' = rq_elems rq - {t}"
  using runq_remove_ok [OF assms] dequeued_wf [OF assms] by auto

lemma runq_add_pri_law:
  assumes "runq_wf C ths rq" "t \<notin> rq_elems rq" "td_inmem ths t" "unat pri < 64"
  shows "\<exists>ths' rq'. runq_add_pri C ths rq t pri flags = Inr (ths', rq') \<and> runq_wf C ths' rq' \<and>
    rq_elems rq' = insert t (rq_elems rq)"
  using runq_add_pri_wf [OF assms(1-3), of pri flags] assms(4) by (auto simp: runq_add_pri_eq)

interpretation linq: run_queue runq_wf rq_elems td_inmem "\<lambda>_ :: srq set. True" "\<lambda>_ :: unit. True"
  "\<lambda>C ths rq t flags. Inr (runq_add C ths rq t flags)" "\<lambda>C rq _. runq_choose C rq" runq_remove
proof (unfold_locales, goal_cases)
  case (1 c ths q t a) then show ?case
    using runq_add_wf [OF 1(1-3)] by (metis surj_pair)
next
  case (2 c ths q k) then show ?case using runq_choose_cases [OF 2(1)] by blast
next
  case (3 c ths q t) then show ?case by (rule runq_remove_law)
next
  case (4 q) show ?case by (simp add: rq_elems_def)
qed

interpretation circq: run_queue runq_wf rq_elems td_inmem
  "\<lambda>(pri, _ :: srq set). unat (pri :: u_char) < 64" "\<lambda>idx :: u_char. unat idx < 64"
  "\<lambda>C ths rq t (pri, flags). runq_add_pri C ths rq t pri flags" runq_choose_from runq_remove
proof (unfold_locales, goal_cases)
  case (1 c ths q t a) then show ?case by (cases a) (simp add: runq_add_pri_law)
next
  case (2 c ths q k) then show ?case using runq_choose_from_cases [OF 2] by blast
next
  case (3 c ths q t) then show ?case by (rule runq_remove_law)
next
  case (4 q) show ?case by (simp add: rq_elems_def)
qed

subsection \<open>The order in which threads are chosen\<close>

text \<open>Choosing and removing until the linear queue is empty, with the threads in that order.\<close>

inductive runq_drains :: "'a rqb_machine_scheme \<Rightarrow> store \<Rightarrow> runq \<Rightarrow> tid list \<Rightarrow> bool" for C ths where
  drained: "runq_choose C rq = Inr None \<Longrightarrow> runq_drains C ths rq []"
| drain: "runq_choose C rq = Inr (Some t) \<Longrightarrow> runq_remove C ths rq t = Inr rq' \<Longrightarrow>
    runq_drains C ths rq' ts \<Longrightarrow> runq_drains C ths rq (t # ts)"

inductive_cases runq_drains_NilE: "runq_drains C ths rq []"
inductive_cases runq_drains_ConsE: "runq_drains C ths rq (t # ts)"

lemma runq_drains_all:
  "runq_wf C ths rq \<Longrightarrow> \<exists>ts. runq_drains C ths rq ts \<and> distinct ts \<and> set ts = rq_elems rq \<and>
     sorted (map (\<lambda>t. td_rqindex (ths t)) ts)"
proof (induction "card (rq_elems rq)" arbitrary: rq rule: less_induct)
  case less
  show ?case
  proof (cases "rq_elems rq = {}")
    case True
    then have "runq_drains C ths rq []"
      using linq.choose_none_iff [OF less.prems] by (auto intro: drained)
    then show ?thesis using True by (intro exI [of _ "[]"]) simp
  next
    case False
    then obtain t q' where s: "runq_choose C rq = Inr (Some t)" "runq_remove C ths rq t = Inr q'"
        "runq_wf C ths q'" "t \<in> rq_elems rq" "rq_elems q' = rq_elems rq - {t}" "card (rq_elems q') < card (rq_elems rq)"
      using linq.choose_remove [OF less.prems TrueI False] by blast
    obtain ts where ts: "runq_drains C ths q' ts" "distinct ts" "set ts = rq_elems q'"
        "sorted (map (\<lambda>t. td_rqindex (ths t)) ts)"
      using less.hyps [OF s(6) s(3)] by blast
    have "\<forall>u \<in> rq_elems rq. td_rqindex (ths t) \<le> td_rqindex (ths u)"
      using runq_choose_cases [OF less.prems] s(1) by auto
    then show ?thesis
      using s ts by (intro exI [of _ "t # ts"]) (auto intro: drain)
  qed
qed

end
