(* ===== verification/Lottery.thy ===== *)
theory Lottery
  imports RunQueueLaws
begin

text \<open>
  The lottery queue of asgn2/kern_switch.c: drawing a random ticket and walking the first
  list of the queue until the running total of tickets reaches it. The specification is a
  list that holds every thread once per ticket; the walk returns the drawn ticket's thread,
  so a thread wins exactly as many draws as it has tickets.
\<close>

subsection \<open>Drawing\<close>

text \<open>\<open>r\<close> is the value that random() returns; a modulus of 0 traps.\<close>

definition rng :: "u_long \<Rightarrow> u_long \<Rightarrow> fault + u_long" where
  "rng r maxnum = (if maxnum = 0 then Inl (DivByZero ''rng'') else Inr ((r mod maxnum) + 1))"

fun lottery_scan :: "store \<Rightarrow> u_long \<Rightarrow> u_long \<Rightarrow> tid list \<Rightarrow> tid option" where
  "lottery_scan ths winner counter [] = None"
| "lottery_scan ths winner counter (td # q) =
     (let counter' = counter + td_tickets (ths td)
      in if counter' \<ge> winner then Some td else lottery_scan ths winner counter' q)"

definition lotteryq_choose :: "u_long \<Rightarrow> store \<Rightarrow> runq \<Rightarrow> fault + (tid option \<times> runq)" where
  "lotteryq_choose r ths rq =
     (if total_proc rq \<noteq> 0 then
        rbind (rqhead rq 0) (\<lambda>rqh.
        rbind (rng r (num_tickets rq)) (\<lambda>winner.
          (case lottery_scan ths winner 0 rqh of
             Some td \<Rightarrow> Inr (Some td, rq\<lparr>total_proc := total_proc rq - 1,
                                        num_tickets := num_tickets rq - td_tickets (ths td)\<rparr>)
           | None \<Rightarrow> Inr (None, rq))))
      else Inr (None, rq))"

subsection \<open>Specification: a list of tickets\<close>

definition tickets :: "store \<Rightarrow> tid \<Rightarrow> nat" where
  "tickets ths t = unat (td_tickets (ths t))"

definition ticket_list :: "store \<Rightarrow> tid list \<Rightarrow> tid list" where
  "ticket_list ths q = concat (map (\<lambda>t. replicate (tickets ths t) t) q)"

lemma ticket_list_simps [simp]:
  "ticket_list ths [] = []"
  "ticket_list ths (t # q) = replicate (tickets ths t) t @ ticket_list ths q"
  by (simp_all add: ticket_list_def)

lemma ticket_list_append [simp]: "ticket_list ths (p @ q) = ticket_list ths p @ ticket_list ths q"
  by (simp add: ticket_list_def)

lemma length_ticket_list: "length (ticket_list ths q) = sum_list (map (tickets ths) q)"
  by (induction q) auto

lemma count_ticket_list: "distinct q \<Longrightarrow> count_list (ticket_list ths q) t = (if t \<in> set q then tickets ths t else 0)"
proof (induction q)
  case (Cons u q)
  have "count_list (replicate n u) t = (if t = u then n else 0)" for n
    by (induction n) auto
  with Cons show ?case by auto
qed simp

lemma set_ticket_list: "set (ticket_list ths q) \<subseteq> set q"
  by (auto simp: ticket_list_def)

lemma u_long_add_no_overflow:
  "unat a + unat b < 2 ^ 64 \<Longrightarrow> unat (a + b) = unat a + unat b" for a b :: u_long
  by (simp add: unat_word_ariths)

lemma lottery_scan_ticket:
  assumes "unat c < unat v" "unat v \<le> unat c + length (ticket_list ths q)"
    "unat c + length (ticket_list ths q) < 2 ^ 64"
  shows "lottery_scan ths v c q = Some (ticket_list ths q ! (unat v - unat c - 1))"
  using assms
proof (induction q arbitrary: c)
  case (Cons t q)
  let ?w = "tickets ths t"
  have c': "unat (c + td_tickets (ths t)) = unat c + ?w"
    using Cons.prems(3) by (intro u_long_add_no_overflow [of c "td_tickets (ths t)", folded tickets_def]) simp
  show ?case
  proof (cases "unat v \<le> unat c + ?w")
    case True
    then have "c + td_tickets (ths t) \<ge> v" by (simp add: word_le_nat_alt c')
    moreover have "unat v - unat c - 1 < ?w" using True Cons.prems(1) by arith
    ultimately show ?thesis by (simp add: nth_append)
  next
    case False
    then have n: "\<not> c + td_tickets (ths t) \<ge> v" by (simp add: word_le_nat_alt c')
    have "lottery_scan ths v (c + td_tickets (ths t)) q =
        Some (ticket_list ths q ! (unat v - unat (c + td_tickets (ths t)) - 1))"
      using Cons.prems False by (intro Cons.IH) (simp_all add: c')
    moreover have "\<not> unat v - unat c - 1 < ?w" and "unat v - unat c - 1 - ?w = unat v - (unat c + ?w) - 1"
      using False by arith+
    ultimately show ?thesis using n by (simp add: nth_append c')
  qed
qed simp

lemma lottery_scan_member: "lottery_scan ths v c q = Some t \<Longrightarrow> t \<in> set q"
  by (induction q arbitrary: c) (auto simp: Let_def split: if_splits)

subsection \<open>The accounting of the queue\<close>

definition lottery_acct :: "store \<Rightarrow> runq \<Rightarrow> bool" where
  "lottery_acct ths rq \<longleftrightarrow> length (rq_queues rq) = RQ_NQS \<and> distinct (rq_level rq 0) \<and>
     total_proc rq = int (length (rq_level rq 0)) \<and>
     sum_list (map (tickets ths) (rq_level rq 0)) < 2 ^ 64 \<and>
     unat (num_tickets rq) = sum_list (map (tickets ths) (rq_level rq 0))"

lemma lottery_acctD:
  assumes "lottery_acct ths rq"
  shows "length (rq_queues rq) = 64" "distinct (rq_level rq 0)"
    "total_proc rq = int (length (rq_level rq 0))"
    "length (ticket_list ths (rq_level rq 0)) < 2 ^ 64"
    "unat (num_tickets rq) = length (ticket_list ths (rq_level rq 0))"
  using assms by (simp_all add: lottery_acct_def length_ticket_list)

lemma lotteryq_choose_ticket:
  fixes r :: u_long
  assumes a: "lottery_acct ths rq" and n: "num_tickets rq \<noteq> 0"
  defines "t \<equiv> ticket_list ths (rq_level rq 0) ! unat (r mod num_tickets rq)"
  shows "lotteryq_choose r ths rq =
    Inr (Some t, rq\<lparr>total_proc := total_proc rq - 1, num_tickets := num_tickets rq - td_tickets (ths t)\<rparr>)"
    "t \<in> set (rq_level rq 0)"
proof -
  note A = lottery_acctD [OF a]
  let ?W = "num_tickets rq" and ?q = "rq_level rq 0"
  have m: "unat (r mod ?W) < unat ?W"
    using n by (simp add: unat_mod unat_gt_0)
  then have v: "unat (r mod ?W + 1) = unat (r mod ?W) + 1"
    using A(4,5) by (subst u_long_add_no_overflow) simp_all
  have "lottery_scan ths (r mod ?W + 1) 0 ?q = Some t"
    using m v A(4,5) by (subst lottery_scan_ticket) (simp_all add: t_def)
  moreover have "?q \<noteq> []" using m A(5) by auto
  then have "total_proc rq \<noteq> 0" by (simp add: A(3))
  ultimately show "lotteryq_choose r ths rq =
    Inr (Some t, rq\<lparr>total_proc := total_proc rq - 1, num_tickets := ?W - td_tickets (ths t)\<rparr>)"
    using n A(1) by (simp add: lotteryq_choose_def rng_def rqhead_def rq_level_def)
  have "t \<in> set (ticket_list ths ?q)"
    using m A(5) by (simp add: t_def)
  then show "t \<in> set ?q" using set_ticket_list by auto
qed

lemma card_word_nth:
  assumes "length xs = unat n"
  shows "card {r :: u_long. r < n \<and> xs ! unat r = t} = count_list xs t"
proof -
  have "bij_betw unat {r :: u_long. r < n \<and> xs ! unat r = t} {i. i < length xs \<and> xs ! i = t}"
  proof (rule bij_betw_byWitness [where f' = of_nat])
    have le: "i < 2 ^ 64" if "i < unat n" for i
      using that unsigned_less [of n, where 'a = nat] by simp
    show "\<forall>r \<in> {r :: u_long. r < n \<and> xs ! unat r = t}. of_nat (unat r) = r" by simp
    show "\<forall>i \<in> {i. i < length xs \<and> xs ! i = t}. unat (of_nat i :: u_long) = i"
      using assms le by (simp add: unat_of_nat)
    show "unat ` {r. r < n \<and> xs ! unat r = t} \<subseteq> {i. i < length xs \<and> xs ! i = t}"
      using assms by (auto simp: word_less_nat_alt)
    show "of_nat ` {i. i < length xs \<and> xs ! i = t} \<subseteq> {r. r < n \<and> xs ! unat r = t}"
      using assms le by (auto simp: word_less_nat_alt unat_of_nat)
  qed
  then have "card {r :: u_long. r < n \<and> xs ! unat r = t} = card {i. i < length xs \<and> xs ! i = t}"
    by (rule bij_betw_same_card)
  also have "\<dots> = length (filter (\<lambda>x. x = t) xs)"
    by (simp add: length_filter_conv_card)
  also have "\<dots> = count_list xs t"
    by (induction xs) auto
  finally show ?thesis .
qed

lemma lotteryq_choose_share:
  assumes a: "lottery_acct ths rq" and t: "t \<in> set (rq_level rq 0)"
  shows "card {r. r < num_tickets rq \<and> (\<exists>rq'. lotteryq_choose r ths rq = Inr (Some t, rq'))} = tickets ths t"
proof (cases "num_tickets rq = 0")
  case True
  have "tickets ths t \<le> sum_list (map (tickets ths) (rq_level rq 0))"
    using t by (intro member_le_sum_list) auto
  then show ?thesis
    using True a t by (simp add: lottery_acct_def)
next
  case False
  have "r < num_tickets rq \<and> (\<exists>rq'. lotteryq_choose r ths rq = Inr (Some t, rq')) \<longleftrightarrow>
      r < num_tickets rq \<and> ticket_list ths (rq_level rq 0) ! unat r = t" for r
  proof -
    have "r mod num_tickets rq = r" if "r < num_tickets rq"
      using that by (simp add: word_mod_less_divisor word_arith_nat_mod word_less_nat_alt)
    then show ?thesis
      using lotteryq_choose_ticket [OF a False, of r] by auto
  qed
  then show ?thesis
    using card_word_nth [OF lottery_acctD(5) [OF a, symmetric], of t]
      count_ticket_list [OF lottery_acctD(2) [OF a], of ths t] t by simp
qed

end
