(* ===== verification/SchedPri.thy ===== *)
theory SchedPri
  imports Machine
begin

text \<open>
  The arithmetic of asgn2/sched_ule.c: priority ranges, the interactivity score, cpu usage
  accounting, priorities from scores and nice values, time slices and the preemption test.
  u_int arithmetic is done on 32-bit words, as C does it when one operand is unsigned; the
  tick counters are C ints that wrap. Constants of sys/priority.h, sys/resource.h and
  sys/param.h and the clock rate are fields of \<open>kconf\<close>; the static variables that sysctl can
  set are the record \<open>tunables\<close>.
\<close>

subsection \<open>Parameters\<close>

record kconf = rqb_machine +
  PRI_MAX_ITHD :: int
  PRI_MIN_TIMESHARE :: int
  PRI_MAX_TIMESHARE :: int
  PRI_MIN_IDLE :: int
  PRI_MAX_IDLE :: int
  PRI_FIFO_BIT :: u_char
  PRI_TIMESHARE :: u_char
  PRI_BASE :: "u_char \<Rightarrow> u_char"
  PRIO_MIN :: int
  PRIO_MAX :: int
  PSOCK :: int
  FSHIFT :: nat
  hz :: int
  stathz :: int
  mp_maxid :: cpuid
  CG_SHARE_L2 :: int
  HAVE_INLINE_FFSL :: bool
  cpu_idle_wakeup :: "cpuid \<Rightarrow> bool"  \<comment> \<open>whether the machine can wake the idle CPU without an IPI\<close>
  getuid :: "nat \<Rightarrow> u_long"  \<comment> \<open>the real user id of a process, which sys_getuid puts into td_retval[0]\<close>

text \<open>
  What the arithmetic relies on: the ranges of sys/priority.h in order and within a u_char,
  nice values symmetric around 0, and room for the nice values in the timeshare range.
\<close>

definition kconf_ok :: "'a kconf_scheme \<Rightarrow> bool" where
  "kconf_ok C \<longleftrightarrow> rqb_ok C \<and> 0 \<le> PRI_MAX_ITHD C \<and> PRI_MAX_ITHD C < PRI_MIN_TIMESHARE C \<and>
     PRI_MIN_IDLE C = PRI_MAX_TIMESHARE C + 1 \<and> PRI_MIN_IDLE C < PRI_MAX_IDLE C \<and> PRI_MAX_IDLE C = 255 \<and>
     PRIO_MIN C = - PRIO_MAX C \<and> 0 < PRIO_MAX C \<and>
     4 * PRIO_MAX C + 2 \<le> PRI_MAX_TIMESHARE C - PRI_MIN_TIMESHARE C + 1 \<and>
     0 < hz C \<and> hz C \<le> 10000 \<and> 0 < stathz C \<and> stathz C \<le> 10000"

definition fbsd :: kconf where
  "fbsd = rqb_machine.extend amd64_rqb
     \<lparr>PRI_MAX_ITHD = 47, PRI_MIN_TIMESHARE = 120, PRI_MAX_TIMESHARE = 223, PRI_MIN_IDLE = 224,
      PRI_MAX_IDLE = 255, PRI_FIFO_BIT = 8, PRI_TIMESHARE = 3, PRI_BASE = (\<lambda>p. p AND NOT 8),
      PRIO_MIN = -20, PRIO_MAX = 20, PSOCK = 88, FSHIFT = 11, hz = 1000, stathz = 127, mp_maxid = 1,
      CG_SHARE_L2 = 2, HAVE_INLINE_FFSL = True, cpu_idle_wakeup = (\<lambda>_. False), getuid = (\<lambda>p. if p = 0 then 0 else 1001)\<rparr>"

lemma fbsd_rqb_ok: "rqb_ok fbsd"
  using ffsl_bounds
  by (auto simp: rqb_ok_def rqb_ctassert_def fbsd_def amd64_rqb_def rqb_machine.extend_def)

lemma fbsd_simps [simp]:
  "RQB_LEN fbsd = 1" "RQB_L2BPW fbsd = 6" "RQB_BPW fbsd = 64" "RQB_WORD fbsd = (\<lambda>p. p div 64)"
  "RQB_BIT fbsd = (\<lambda>p. push_bit (p mod 64) 1)" "RQB_FFS fbsd = (\<lambda>w. ffsl w - 1)"
  "PRI_MAX_ITHD fbsd = 47" "PRI_MIN_TIMESHARE fbsd = 120" "PRI_MAX_TIMESHARE fbsd = 223"
  "PRI_MIN_IDLE fbsd = 224" "PRI_MAX_IDLE fbsd = 255" "PRI_FIFO_BIT fbsd = 8" "PRI_TIMESHARE fbsd = 3"
  "PRI_BASE fbsd = (\<lambda>p. p AND NOT 8)" "PRIO_MIN fbsd = -20" "PRIO_MAX fbsd = 20" "PSOCK fbsd = 88"
  "FSHIFT fbsd = 11" "hz fbsd = 1000" "stathz fbsd = 127" "mp_maxid fbsd = 1"
  "CG_SHARE_L2 fbsd = 2" "HAVE_INLINE_FFSL fbsd" "cpu_idle_wakeup fbsd = (\<lambda>_. False)"
  "getuid fbsd = (\<lambda>p. if p = 0 then 0 else 1001)"
  by (simp_all add: fbsd_def amd64_rqb_def rqb_machine.extend_def)

lemma fbsd_ok: "kconf_ok fbsd"
  by (simp add: kconf_ok_def fbsd_rqb_ok)

record tunables =
  sched_interact :: int
  tickincr :: int
  realstathz :: int
  sched_slice :: int
  sched_slice_min :: int
  preempt_thresh :: int
  static_boost :: int
  sched_idlespins :: int
  sched_idlespinthresh :: int
  rebalance :: bool
  balance_interval :: int
  affinity :: int
  steal_idle :: bool
  steal_thresh :: int
  always_steal :: bool
  trysteal_limit :: int
  hogticks :: int

subsection \<open>Priority ranges\<close>

definition SCHED_PRI_NRESV :: "'a kconf_scheme \<Rightarrow> int" where
  "SCHED_PRI_NRESV C = PRIO_MAX C - PRIO_MIN C"
definition PRI_TIMESHARE_RANGE :: "'a kconf_scheme \<Rightarrow> int" where
  "PRI_TIMESHARE_RANGE C = PRI_MAX_TIMESHARE C - PRI_MIN_TIMESHARE C + 1"
definition PRI_INTERACT_RANGE :: "'a kconf_scheme \<Rightarrow> int" where
  "PRI_INTERACT_RANGE C = c_div (PRI_TIMESHARE_RANGE C - SCHED_PRI_NRESV C) 2"
definition PRI_BATCH_RANGE :: "'a kconf_scheme \<Rightarrow> int" where
  "PRI_BATCH_RANGE C = PRI_TIMESHARE_RANGE C - PRI_INTERACT_RANGE C"
definition PRI_MIN_INTERACT :: "'a kconf_scheme \<Rightarrow> int" where
  "PRI_MIN_INTERACT C = PRI_MIN_TIMESHARE C"
definition PRI_MAX_INTERACT :: "'a kconf_scheme \<Rightarrow> int" where
  "PRI_MAX_INTERACT C = PRI_MIN_TIMESHARE C + PRI_INTERACT_RANGE C - 1"
definition PRI_MIN_BATCH :: "'a kconf_scheme \<Rightarrow> int" where
  "PRI_MIN_BATCH C = PRI_MIN_TIMESHARE C + PRI_INTERACT_RANGE C"
definition PRI_MAX_BATCH :: "'a kconf_scheme \<Rightarrow> int" where
  "PRI_MAX_BATCH C = PRI_MAX_TIMESHARE C"
definition SCHED_PRI_NHALF :: "'a kconf_scheme \<Rightarrow> int" where
  "SCHED_PRI_NHALF C = c_div (SCHED_PRI_NRESV C) 2"
definition SCHED_PRI_MIN :: "'a kconf_scheme \<Rightarrow> int" where
  "SCHED_PRI_MIN C = PRI_MIN_BATCH C + SCHED_PRI_NHALF C"
definition SCHED_PRI_MAX :: "'a kconf_scheme \<Rightarrow> int" where
  "SCHED_PRI_MAX C = PRI_MAX_BATCH C - SCHED_PRI_NHALF C"
definition SCHED_PRI_RANGE :: "'a kconf_scheme \<Rightarrow> int" where
  "SCHED_PRI_RANGE C = SCHED_PRI_MAX C - SCHED_PRI_MIN C + 1"
definition SCHED_PRI_NICE :: "int \<Rightarrow> int" where
  "SCHED_PRI_NICE nice = nice"

lemmas pri_ranges = PRI_TIMESHARE_RANGE_def PRI_INTERACT_RANGE_def PRI_BATCH_RANGE_def
  PRI_MIN_INTERACT_def PRI_MAX_INTERACT_def PRI_MIN_BATCH_def PRI_MAX_BATCH_def SCHED_PRI_NRESV_def
  SCHED_PRI_NHALF_def SCHED_PRI_MIN_def SCHED_PRI_MAX_def SCHED_PRI_RANGE_def SCHED_PRI_NICE_def

lemma kconf_okD:
  assumes "kconf_ok C"
  shows "SCHED_PRI_NRESV C = 2 * PRIO_MAX C" "SCHED_PRI_NHALF C = PRIO_MAX C"
    "PRI_INTERACT_RANGE C = (PRI_TIMESHARE_RANGE C - 2 * PRIO_MAX C) div 2"
    "0 < PRI_INTERACT_RANGE C" "2 * PRIO_MAX C < PRI_BATCH_RANGE C" "0 < SCHED_PRI_RANGE C"
    "0 \<le> PRI_MIN_TIMESHARE C" "PRI_MIN_BATCH C < PRI_MAX_BATCH C" "PRI_MAX_BATCH C < 255"
    "PRI_MIN_TIMESHARE C < PRI_MIN_BATCH C" "PRI_MAX_INTERACT C = PRI_MIN_BATCH C - 1"
    "SCHED_PRI_RANGE C < 256" "PRI_BATCH_RANGE C < 256"
proof -
  have k: "PRIO_MIN C = - PRIO_MAX C" "0 < PRIO_MAX C" "0 \<le> PRI_MAX_ITHD C"
    "PRI_MAX_ITHD C < PRI_MIN_TIMESHARE C"
    "4 * PRIO_MAX C + 2 \<le> PRI_MAX_TIMESHARE C - PRI_MIN_TIMESHARE C + 1" "PRI_MAX_TIMESHARE C + 1 < 255"
    using assms by (auto simp: kconf_ok_def)
  show n: "SCHED_PRI_NRESV C = 2 * PRIO_MAX C" using k by (simp add: SCHED_PRI_NRESV_def)
  show h: "SCHED_PRI_NHALF C = PRIO_MAX C" using k by (simp add: SCHED_PRI_NHALF_def n c_div_nonneg)
  show i: "PRI_INTERACT_RANGE C = (PRI_TIMESHARE_RANGE C - 2 * PRIO_MAX C) div 2"
    using k by (simp add: PRI_INTERACT_RANGE_def n c_div_nonneg PRI_TIMESHARE_RANGE_def)
  have i2: "2 * PRI_INTERACT_RANGE C \<le> PRI_TIMESHARE_RANGE C - 2 * PRIO_MAX C" "1 \<le> PRI_INTERACT_RANGE C"
    using k unfolding i by (simp_all add: PRI_TIMESHARE_RANGE_def)
  then show "0 < PRI_INTERACT_RANGE C" by simp
  show "2 * PRIO_MAX C < PRI_BATCH_RANGE C" "0 < SCHED_PRI_RANGE C" "0 \<le> PRI_MIN_TIMESHARE C"
    "PRI_MIN_BATCH C < PRI_MAX_BATCH C" "PRI_MAX_BATCH C < 255" "PRI_MIN_TIMESHARE C < PRI_MIN_BATCH C"
    "PRI_MAX_INTERACT C = PRI_MIN_BATCH C - 1" "SCHED_PRI_RANGE C < 256" "PRI_BATCH_RANGE C < 256"
    using k i2 h
    by (simp_all add: PRI_BATCH_RANGE_def PRI_MIN_BATCH_def PRI_MAX_BATCH_def PRI_MAX_INTERACT_def
          PRI_TIMESHARE_RANGE_def SCHED_PRI_RANGE_def SCHED_PRI_MAX_def SCHED_PRI_MIN_def)
qed

subsection \<open>Preemption test, slices and clock constants\<close>

definition SCHED_TICK_SECS :: int where "SCHED_TICK_SECS = 10"
definition SCHED_TICK_SHIFT :: nat where "SCHED_TICK_SHIFT = 10"
definition SCHED_TICK_TARG :: "'a kconf_scheme \<Rightarrow> int" where "SCHED_TICK_TARG C = hz C * SCHED_TICK_SECS"
definition SCHED_TICK_MAX :: "'a kconf_scheme \<Rightarrow> int" where "SCHED_TICK_MAX C = SCHED_TICK_TARG C + hz C"
definition SCHED_SLP_RUN_MAX :: "'a kconf_scheme \<Rightarrow> u_int" where
  "SCHED_SLP_RUN_MAX C = of_int (push_bit SCHED_TICK_SHIFT (hz C * 5))"
definition SCHED_SLP_RUN_FORK :: "'a kconf_scheme \<Rightarrow> int" where
  "SCHED_SLP_RUN_FORK C = push_bit SCHED_TICK_SHIFT (c_div (hz C) 2)"
definition SCHED_INTERACT_MAX :: int where "SCHED_INTERACT_MAX = 100"
definition SCHED_INTERACT_HALF :: int where "SCHED_INTERACT_HALF = c_div SCHED_INTERACT_MAX 2"
definition SCHED_INTERACT_THRESH :: int where "SCHED_INTERACT_THRESH = 30"
definition SCHED_SLICE_DEFAULT_DIVISOR :: int where "SCHED_SLICE_DEFAULT_DIVISOR = 10"
definition SCHED_SLICE_MIN_DIVISOR :: int where "SCHED_SLICE_MIN_DIVISOR = 6"

lemmas sched_consts [ksimps] = SCHED_TICK_SECS_def SCHED_TICK_SHIFT_def SCHED_TICK_TARG_def SCHED_TICK_MAX_def
  SCHED_SLP_RUN_MAX_def SCHED_SLP_RUN_FORK_def SCHED_INTERACT_MAX_def SCHED_INTERACT_THRESH_def
  SCHED_SLICE_DEFAULT_DIVISOR_def SCHED_SLICE_MIN_DIVISOR_def

lemma interact_half [simp]: "SCHED_INTERACT_HALF = 50"
  by (simp add: SCHED_INTERACT_HALF_def SCHED_INTERACT_MAX_def c_div_def)

definition sched_shouldpreempt :: "'a kconf_scheme \<Rightarrow> tunables \<Rightarrow> int \<Rightarrow> int \<Rightarrow> bool \<Rightarrow> bool" where
  "sched_shouldpreempt C T pri cpri remote =
     (if pri \<ge> cpri then False
      else if cpri \<ge> PRI_MIN_IDLE C then True
      else if preempt_thresh T = 0 then False
      else if pri \<le> preempt_thresh T then True
      else if remote \<and> pri \<le> PRI_MAX_INTERACT C \<and> cpri > PRI_MAX_INTERACT C then True
      else False)"

text \<open>\<open>sysload\<close> is the tdq's \<open>tdq_sysload\<close>.\<close>

definition tdq_slice :: "tunables \<Rightarrow> int \<Rightarrow> int" where
  "tdq_slice T sysload =
     (let load = sysload - 1
      in if load \<ge> SCHED_SLICE_MIN_DIVISOR then sched_slice_min T
         else if load \<le> 1 then sched_slice T
         else c_div (sched_slice T) load)"

definition sched_initticks :: "'a kconf_scheme \<Rightarrow> tunables \<Rightarrow> tunables" where
  "sched_initticks C T =
     (let rs = (if stathz C \<noteq> 0 then stathz C else hz C);
          sl = c_div rs SCHED_SLICE_DEFAULT_DIVISOR;
          incr = c_div (push_bit SCHED_TICK_SHIFT (hz C)) rs
      in T\<lparr>realstathz := rs, sched_slice := sl, sched_slice_min := c_div sl SCHED_SLICE_MIN_DIVISOR,
           hogticks := imax 1 (c_div (2 * hz C * sl + c_div rs 2) rs),
           tickincr := (if incr = 0 then 1 else incr),
           balance_interval := rs, affinity := imax 1 (c_div (hz C) 1000),
           sched_idlespinthresh :=
             (if sched_idlespinthresh T < 0 then c_div (2 * imax 10000 (6 * hz C)) rs
              else sched_idlespinthresh T)\<rparr>)"

definition sched_rr_interval :: "'a kconf_scheme \<Rightarrow> tunables \<Rightarrow> int" where
  "sched_rr_interval C T =
     imax 1 (c_div (sched_slice T * hz C + c_div (realstathz T) 2) (realstathz T))"

text \<open>
  The sysctl handler of the quantum: \<open>new_val\<close> is what sysctl_handle_int leaves in the
  variable, \<open>err\<close> its error and \<open>is_write\<close> whether a new value was given; the result is
  the errno.
\<close>

definition EINVAL :: int where "EINVAL = 22"

definition sysctl_kern_quantum ::
  "'a kconf_scheme \<Rightarrow> tunables \<Rightarrow> int \<Rightarrow> bool \<Rightarrow> int \<Rightarrow> int \<times> tunables" where
  "sysctl_kern_quantum C T err is_write new_val =
     (let period = c_div 1000000 (realstathz T)
      in if err \<noteq> 0 \<or> \<not> is_write then (err, T)
         else if new_val \<le> 0 then (EINVAL, T)
         else (let sl = imax 1 (c_div (new_val + c_div period 2) period)
               in (0, T\<lparr>sched_slice := sl, sched_slice_min := c_div sl SCHED_SLICE_MIN_DIVISOR,
                       hogticks := imax 1 (c_div (2 * hz C * sl + c_div (realstathz T) 2) (realstathz T))\<rparr>)))"

text \<open>The pseudo random numbers of the balancer: the new state and the upper half of it.\<close>

definition sched_random :: "u_int \<Rightarrow> u_int \<times> u_int" where
  "sched_random s = (let s' = s * 69069 + 5 in (drop_bit 16 s', s'))"

subsection \<open>Interactivity\<close>

definition sched_interact_score :: "tunables \<Rightarrow> 'a td_sched_scheme \<Rightarrow> int" where
  "sched_interact_score T ts =
     (if sched_interact T \<le> SCHED_INTERACT_HALF \<and> ts_runtime ts \<ge> ts_slptime ts then SCHED_INTERACT_HALF
      else if ts_runtime ts > ts_slptime ts then
        (let d = max 1 (ts_runtime ts div of_int SCHED_INTERACT_HALF)
         in sint (of_int SCHED_INTERACT_HALF + (of_int SCHED_INTERACT_HALF - ts_slptime ts div d) :: u_int))
      else if ts_slptime ts > ts_runtime ts then
        (let d = max 1 (ts_slptime ts div of_int SCHED_INTERACT_HALF)
         in sint (ts_runtime ts div d))
      else if ts_runtime ts \<noteq> 0 then SCHED_INTERACT_HALF
      else 0)"

definition sched_interact_update :: "'a kconf_scheme \<Rightarrow> 'b td_sched_scheme \<Rightarrow> 'b td_sched_scheme" where
  "sched_interact_update C ts =
     (let sum = ts_runtime ts + ts_slptime ts; m = SCHED_SLP_RUN_MAX C
      in if sum < m then ts
         else if sum > m * 2 then
           (if ts_runtime ts > ts_slptime ts then ts\<lparr>ts_runtime := m, ts_slptime := 1\<rparr>
            else ts\<lparr>ts_slptime := m, ts_runtime := 1\<rparr>)
         else if sum > (m div 5) * 6 then
           ts\<lparr>ts_runtime := ts_runtime ts div 2, ts_slptime := ts_slptime ts div 2\<rparr>
         else ts\<lparr>ts_runtime := (ts_runtime ts div 5) * 4, ts_slptime := (ts_slptime ts div 5) * 4\<rparr>)"

definition sched_interact_fork :: "'a kconf_scheme \<Rightarrow> 'b td_sched_scheme \<Rightarrow> fault + 'b td_sched_scheme" where
  "sched_interact_fork C ts =
     (let sum = sint (ts_runtime ts + ts_slptime ts)
      in if sum > SCHED_SLP_RUN_FORK C then
           (if SCHED_SLP_RUN_FORK C = 0 then Inl (DivByZero ''sched_interact_fork'')
            else let ratio = of_int (c_div sum (SCHED_SLP_RUN_FORK C))
                 in Inr (ts\<lparr>ts_runtime := ts_runtime ts div ratio, ts_slptime := ts_slptime ts div ratio\<rparr>))
         else Inr ts)"

subsection \<open>CPU usage\<close>

text \<open>\<open>t\<close> is the tick counter.\<close>

definition sched_pctcpu_update ::
  "'a kconf_scheme \<Rightarrow> c_int \<Rightarrow> 'b td_sched_scheme \<Rightarrow> bool \<Rightarrow> fault + 'b td_sched_scheme" where
  "sched_pctcpu_update C t ts run =
     rbind
       (if t - ts_ltick ts \<ge> of_int (SCHED_TICK_TARG C) then
          Inr (ts\<lparr>ts_ticks := 0, ts_ftick := t - of_int (SCHED_TICK_TARG C)\<rparr>)
        else if sint (t - ts_ftick ts) \<ge> SCHED_TICK_MAX C then
          (if ts_ltick ts = ts_ftick ts then Inl (DivByZero ''sched_pctcpu_update'')
           else Inr (ts\<lparr>ts_ticks := of_int (c_div (sint (ts_ticks ts)) (sint (ts_ltick ts - ts_ftick ts))) *
                                      (ts_ltick ts - (t - of_int (SCHED_TICK_TARG C))),
                       ts_ftick := t - of_int (SCHED_TICK_TARG C)\<rparr>))
        else Inr ts)
       (\<lambda>ts1. let ts2 = (if run then ts1\<lparr>ts_ticks := ts_ticks ts1 + push_bit SCHED_TICK_SHIFT (t - ts_ltick ts1)\<rparr>
                         else ts1)
              in Inr (ts2\<lparr>ts_ltick := t\<rparr>))"

definition SCHED_TICK_HZ :: "'b td_sched_scheme \<Rightarrow> c_int" where
  "SCHED_TICK_HZ ts = signed_drop_bit SCHED_TICK_SHIFT (ts_ticks ts)"

definition SCHED_TICK_TOTAL :: "'a kconf_scheme \<Rightarrow> 'b td_sched_scheme \<Rightarrow> u_int" where
  "SCHED_TICK_TOTAL C ts = max (ts_ltick ts - ts_ftick ts) (of_int (hz C))"

text \<open>roundup(total, range) / range, in u_int arithmetic.\<close>

definition SCHED_PRI_TICKS :: "'a kconf_scheme \<Rightarrow> 'b td_sched_scheme \<Rightarrow> fault + u_int" where
  "SCHED_PRI_TICKS C ts =
     (let r = of_int (SCHED_PRI_RANGE C);
          d = ((SCHED_TICK_TOTAL C ts + (r - 1)) div r * r) div r
      in if d = 0 then Inl (DivByZero ''SCHED_PRI_TICKS'') else Inr (SCHED_TICK_HZ ts div d))"

text \<open>The percentage that ps shows; FSCALE is 1 << FSHIFT.\<close>

definition sched_pctcpu ::
  "'a kconf_scheme \<Rightarrow> c_int \<Rightarrow> 'b td_sched_scheme \<Rightarrow> bool \<Rightarrow> fault + (int \<times> 'b td_sched_scheme)" where
  "sched_pctcpu C t ts running =
     rbind (sched_pctcpu_update C t ts running) (\<lambda>ts1.
       if ts_ticks ts1 \<noteq> 0 then
         (let rtick = uint (min (of_int (c_div (sint (SCHED_TICK_HZ ts1)) SCHED_TICK_SECS) :: u_int)
                                (of_int (hz C)));
              FSCALE = push_bit (FSHIFT C) 1
          in Inr (drop_bit (FSHIFT C) (FSCALE * (c_div (FSCALE * rtick) (hz C))), ts1))
       else Inr (0, ts1))"

subsection \<open>Priorities\<close>

definition sched_user_prio :: "thread \<Rightarrow> u_char \<Rightarrow> thread" where
  "sched_user_prio td prio =
     (let td1 = td\<lparr>td_base_user_pri := prio\<rparr>
      in if td_lend_user_pri td1 \<le> prio then td1 else td1\<lparr>td_user_pri := prio\<rparr>)"

text \<open>\<open>nice\<close> is the nice value of the thread's process.\<close>

definition sched_priority :: "'a kconf_scheme \<Rightarrow> tunables \<Rightarrow> int \<Rightarrow> thread \<Rightarrow> fault + thread" where
  "sched_priority C T nice td =
     (if PRI_BASE C (td_pri_class td) \<noteq> PRI_TIMESHARE C then Inr td
      else let score = imax 0 (sched_interact_score T td + nice)
           in rbind
                (if score < sched_interact T then
                   (let pri = PRI_MIN_INTERACT C +
                          c_div (PRI_MAX_INTERACT C - PRI_MIN_INTERACT C + 1) (sched_interact T) * score
                    in rbind (kassert (pri \<ge> PRI_MIN_INTERACT C \<and> pri \<le> PRI_MAX_INTERACT C)
                               ''sched_priority: invalid interactive priority'') (\<lambda>_. Inr pri))
                 else
                   rbind (if ts_ticks td \<noteq> 0 then
                            rbind (SCHED_PRI_TICKS C td) (\<lambda>k.
                              Inr (uint (min k (of_int (SCHED_PRI_RANGE C - 1)))))
                          else Inr 0) (\<lambda>k.
                     (let pri = SCHED_PRI_MIN C + k + SCHED_PRI_NICE nice
                      in rbind (kassert (pri \<ge> PRI_MIN_BATCH C \<and> pri \<le> PRI_MAX_BATCH C)
                                 ''sched_priority: invalid priority'') (\<lambda>_. Inr pri))))
                (\<lambda>pri. Inr (sched_user_prio td (of_int pri))))"

subsection \<open>Scores are percentages\<close>

text \<open>The quotient of the score is at most 98: 50, or less than 50 more for small counts.\<close>

lemma score_quotient: "s < r \<Longrightarrow> s div max 1 (r div 50) \<le> 98" for r s :: nat
proof -
  assume sr: "s < r"
  show ?thesis
  proof (cases "r div 50 = 0")
    case True
    then show ?thesis using sr by simp
  next
    case False
    let ?d = "r div 50"
    have "r < 50 * ?d + 50" by (simp add: mult.commute dividend_less_div_times)
    then have "s < 99 * ?d" using sr False by simp
    then have "s div ?d < 99" using False by (simp add: less_mult_imp_div_less)
    then show ?thesis using False by (simp add: max_def)
  qed
qed

lemma interact_score_bounds: "0 \<le> sched_interact_score T ts \<and> sched_interact_score T ts \<le> SCHED_INTERACT_MAX"
proof -
  let ?r = "unat (ts_runtime ts)" and ?s = "unat (ts_slptime ts)"
  have A: "2 \<le> sint (50 + (50 - ts_slptime ts div max 1 (ts_runtime ts div 50)) :: u_int) \<and>
      sint (50 + (50 - ts_slptime ts div max 1 (ts_runtime ts div 50)) :: u_int) \<le> 100"
    if "ts_slptime ts < ts_runtime ts"
  proof -
    let ?q = "ts_slptime ts div max 1 (ts_runtime ts div 50)"
    have q: "unat ?q \<le> 98"
      using that score_quotient [of ?s ?r] by (simp add: word_less_nat_alt unat_div unat_max)
    then have "?q \<le> 100" by (simp add: word_le_nat_alt)
    then have "unat (100 - ?q) = 100 - unat ?q"
      by (simp add: unat_sub)
    moreover have "50 + (50 - ?q) = 100 - ?q" by simp
    ultimately have "sint (50 + (50 - ?q)) = uint (100 - ?q)" using q by (simp add: sint_of_small)
    moreover have "uint (100 - ?q) = 100 - uint ?q"
      using \<open>?q \<le> 100\<close> by (simp add: uint_sub_ok)
    ultimately show ?thesis using q by (simp add: uint_le_numeral)
  qed
  have B: "0 \<le> sint (ts_runtime ts div max 1 (ts_slptime ts div 50)) \<and>
      sint (ts_runtime ts div max 1 (ts_slptime ts div 50)) \<le> 98"
    if "ts_runtime ts < ts_slptime ts"
  proof -
    have "unat (ts_runtime ts div max 1 (ts_slptime ts div 50)) \<le> 98"
      using that score_quotient [of ?r ?s] by (simp add: word_less_nat_alt unat_div unat_max)
    then show ?thesis by (simp add: sint_of_small uint_le_numeral)
  qed
  show ?thesis
    using A B by (auto simp: sched_interact_score_def SCHED_INTERACT_MAX_def Let_def)
qed

lemma interact_score_hog:
  "sched_interact T \<le> 50 \<Longrightarrow> ts_slptime ts \<le> ts_runtime ts \<Longrightarrow> sched_interact_score T ts = 50"
  by (simp add: sched_interact_score_def)

lemma interact_update_bound:
  assumes hz: "0 < hz C" "hz C \<le> 10000"
    and sum: "unat (ts_runtime ts) + unat (ts_slptime ts) < 2 ^ 32"
  shows "unat (ts_runtime (sched_interact_update C ts)) + unat (ts_slptime (sched_interact_update C ts))
    \<le> unat (SCHED_SLP_RUN_MAX C) + 1"
proof -
  let ?r = "unat (ts_runtime ts)" and ?s = "unat (ts_slptime ts)"
  let ?M = "SCHED_SLP_RUN_MAX C"
  obtain h where h: "hz C = int h" "0 < h" "h \<le> 10000"
    using hz by (metis nat_int nonneg_int_cases of_nat_0_less_iff less_imp_le of_nat_le_iff of_nat_numeral)
  have M: "unat ?M = 5120 * h"
  proof -
    have "?M = of_nat (5120 * h)"
      by (simp add: SCHED_SLP_RUN_MAX_def SCHED_TICK_SHIFT_def push_bit_eq_mult h(1))
    then show ?thesis using h by (simp only: unat_of_nat) simp
  qed
  have s: "unat (ts_runtime ts + ts_slptime ts) = ?r + ?s" using sum by (rule u_int_add)
  have M2: "unat (?M * 2) = 2 * unat ?M" using h by (simp add: unat_word_ariths M)
  have M5: "unat (?M div 5 * 6) = unat ?M div 5 * 6" using h by (simp add: unat_word_ariths unat_div M)
  define r s m where rsm: "r = ?r" "s = ?s" "m = unat ?M"
  have arith: "\<not> m div 5 * 6 < r + s \<Longrightarrow> r div 5 * 4 + s div 5 * 4 \<le> m + 1"
    "r + s \<le> 2 * m \<Longrightarrow> r div 2 + s div 2 \<le> m + 1" by linarith+
  consider "r + s < m" | "\<not> r + s < m" "2 * m < r + s" | "\<not> r + s < m" "\<not> 2 * m < r + s" "m div 5 * 6 < r + s"
    | "\<not> r + s < m" "\<not> 2 * m < r + s" "\<not> m div 5 * 6 < r + s" by blast
  then show ?thesis
  proof cases
    case 1
    then show ?thesis by (simp add: sched_interact_update_def Let_def word_less_nat_alt s rsm)
  next
    case 2
    then show ?thesis by (simp add: sched_interact_update_def Let_def word_less_nat_alt s M2 rsm)
  next
    case 3
    then show ?thesis using arith(2)
      by (simp add: sched_interact_update_def Let_def word_less_nat_alt s M2 M5 rsm unat_div)
  next
    case 4
    have "unat (ts_runtime ts div 5 * 4) = r div 5 * 4" "unat (ts_slptime ts div 5 * 4) = s div 5 * 4"
      using sum by (simp_all add: unat_word_ariths unat_div rsm)
    with 4 show ?thesis using arith(1)
      by (simp add: sched_interact_update_def Let_def word_less_nat_alt s M2 M5 rsm)
  qed
qed


subsection \<open>Forking\<close>

lemma fork_share:
  fixes r s F k :: nat
  assumes "k = (r + s) div F" "0 < F" "F \<le> r + s"
  shows "r div k + s div k < 2 * F"
proof -
  have k: "1 \<le> k" using assms by (simp add: Suc_le_eq div_greater_zero_iff)
  have "r + s < (k + 1) * F"
    using assms(1,2) dividend_less_div_times [of F "r + s"] by (simp add: add.commute)
  also have "\<dots> \<le> (k + k) * F" using k by (intro mult_le_mono1) simp
  also have "\<dots> = 2 * F * k" by simp
  finally have "(r + s) div k < 2 * F" using k by (simp add: less_mult_imp_div_less)
  moreover have "(r div k + s div k) * k \<le> r + s"
    by (simp add: add_mult_distrib add_mono)
  then have "r div k + s div k \<le> (r + s) div k"
    using k by (simp add: less_eq_div_iff_mult_less_eq)
  ultimately show ?thesis by simp
qed

lemma slp_run_fork: "0 \<le> hz C \<Longrightarrow> SCHED_SLP_RUN_FORK C = 1024 * (hz C div 2)"
  by (simp add: SCHED_SLP_RUN_FORK_def SCHED_TICK_SHIFT_def push_bit_eq_mult c_div_nonneg)

lemma interact_fork_bound:
  assumes hz: "2 \<le> hz C" "hz C \<le> 10000"
    and sum: "unat (ts_runtime ts) + unat (ts_slptime ts) < 2 ^ 31"
  shows "\<exists>ts'. sched_interact_fork C ts = Inr ts' \<and>
    int (unat (ts_runtime ts') + unat (ts_slptime ts')) < 2 * SCHED_SLP_RUN_FORK C"
proof -
  let ?r = "unat (ts_runtime ts)" and ?s = "unat (ts_slptime ts)"
  have add: "unat (ts_runtime ts + ts_slptime ts) = ?r + ?s" using sum by (intro u_int_add) simp
  then have S: "sint (ts_runtime ts + ts_slptime ts) = int (?r + ?s)"
    using sum by (simp add: sint_of_small uint_nat [symmetric] flip: add)
  obtain F where F: "SCHED_SLP_RUN_FORK C = int F" "0 < F"
    using hz slp_run_fork [of C] by (metis (no_types, opaque_lifting) nonneg_int_cases of_nat_0_less_iff
       mult_pos_pos pos_imp_zdiv_pos_iff zero_less_numeral order_trans zero_le_numeral less_imp_le order_less_le_trans)
  show ?thesis
  proof (cases "F < ?r + ?s")
    case False
    then show ?thesis using F by (simp add: sched_interact_fork_def Let_def S del: of_nat_unat)
  next
    case True
    let ?k = "(?r + ?s) div F"
    have kk: "?k < 2 ^ 32" by (rule le_less_trans [OF div_le_dividend]) (use sum in simp)
    have c: "c_div (int (?r + ?s)) (int F) = int ?k"
      using F(2) by (simp add: c_div_nonneg zdiv_int)
    have "unat (of_int (int ?k) :: u_int) = ?k"
      using kk by (simp add: unat_of_nat)
    then show ?thesis
      using True F c fork_share [of ?k ?r ?s F]
      by (simp add: sched_interact_fork_def Let_def S unat_div del: of_nat_unat)
  qed
qed

subsection \<open>The usage window\<close>

definition pct_ok :: "'a kconf_scheme \<Rightarrow> 'b td_sched_scheme \<Rightarrow> bool" where
  "pct_ok C ts \<longleftrightarrow> int (unat (ts_ltick ts - ts_ftick ts)) \<le> SCHED_TICK_MAX C"

lemma tick_consts:
  assumes "kconf_ok C"
  obtains h where "hz C = int h" "0 < h" "h \<le> 10000" "SCHED_TICK_TARG C = int (10 * h)" "SCHED_TICK_MAX C = int (11 * h)"
    "unat (of_int (SCHED_TICK_TARG C) :: u_int) = 10 * h" "unat (of_int (hz C) :: u_int) = h"
proof -
  obtain h where h: "hz C = int h" "0 < h" "h \<le> 10000"
    using assms by (metis kconf_ok_def nonneg_int_cases of_nat_0_less_iff less_imp_le of_nat_le_iff of_nat_numeral)
  have t: "SCHED_TICK_TARG C = int (10 * h)" by (simp add: SCHED_TICK_TARG_def SCHED_TICK_SECS_def h(1))
  show thesis
  proof (rule that [of h])
    show "unat (of_int (SCHED_TICK_TARG C) :: u_int) = 10 * h" "unat (of_int (hz C) :: u_int) = h"
      unfolding t h(1) of_int_of_nat_eq using h(2,3) by (simp_all only: unat_of_nat) simp_all
  qed (use h t in \<open>simp_all add: SCHED_TICK_MAX_def\<close>)
qed

lemma pctcpu_update_ok:
  assumes k: "kconf_ok C" and p: "pct_ok C ts"
  shows "\<exists>ts'. sched_pctcpu_update C t ts run = Inr ts' \<and> pct_ok C ts' \<and> ts_ltick ts' = t"
proof -
  obtain h where h: "0 < h" "h \<le> 10000" "SCHED_TICK_TARG C = int (10 * h)" "SCHED_TICK_MAX C = int (11 * h)"
      "unat (of_int (SCHED_TICK_TARG C) :: u_int) = 10 * h"
    using tick_consts [OF k] by metis
  let ?T = "of_int (SCHED_TICK_TARG C) :: u_int"
  let ?E = "t - ts_ltick ts" and ?D = "ts_ltick ts - ts_ftick ts"
  have D: "unat ?D \<le> 11 * h" using p h(4) by (simp add: pct_ok_def del: of_nat_unat)
  have fresh: "pct_ok C (ts'\<lparr>ts_ltick := t\<rparr>)" if "ts_ftick ts' = t - ?T" for ts' :: "'b td_sched_scheme"
    using that h by (simp add: pct_ok_def)
  show ?thesis
  proof (cases "?T \<le> ?E")
    case True
    then show ?thesis by (auto simp: sched_pctcpu_update_def Let_def intro!: fresh)
  next
    case False
    then have E: "unat ?E < 10 * h" by (simp add: word_le_nat_alt h(5))
    have sum: "t - ts_ftick ts = ?E + ?D" by simp
    have us: "unat (t - ts_ftick ts) = unat ?E + unat ?D"
      unfolding sum using D E h(2) by (intro u_int_add) simp
    then have "unat (t - ts_ftick ts) < 2147483648" using D E h(2) by simp
    then have "sint (t - ts_ftick ts) = int (unat (t - ts_ftick ts))" by (simp add: sint_of_small)
    then have ss: "sint (t - ts_ftick ts) = int (unat ?E + unat ?D)" unfolding us .
    show ?thesis
    proof (cases "SCHED_TICK_MAX C \<le> sint (t - ts_ftick ts)")
      case True
      then have "11 * h \<le> unat ?E + unat ?D" unfolding ss h(4) by linarith
      then have "ts_ltick ts \<noteq> ts_ftick ts" using E by auto
      then show ?thesis
        using False True by (auto simp: sched_pctcpu_update_def Let_def intro!: fresh)
    next
      case nomax: False
      then have "unat (t - ts_ftick ts) \<le> 11 * h" unfolding ss h(4) us by linarith
      then show ?thesis
        using False nomax by (simp add: sched_pctcpu_update_def Let_def pct_ok_def h(4) del: of_nat_unat)
    qed
  qed
qed

lemma pri_ticks_ok:
  assumes k: "kconf_ok C" and p: "pct_ok C ts"
  shows "\<exists>n. SCHED_PRI_TICKS C ts = Inr n"
proof -
  obtain h where h: "0 < h" "h \<le> 10000" "SCHED_TICK_MAX C = int (11 * h)" "unat (of_int (hz C) :: u_int) = h"
    using tick_consts [OF k] by metis
  obtain r where r: "SCHED_PRI_RANGE C = int r" "0 < r" "r < 256"
    using kconf_okD(6,12) [OF k] by (metis nonneg_int_cases of_nat_0_less_iff less_imp_le of_nat_less_iff of_nat_numeral)
  let ?r = "of_int (SCHED_PRI_RANGE C) :: u_int" and ?t = "SCHED_TICK_TOTAL C ts"
  have ur: "unat ?r = r" using r by (simp add: unat_of_nat)
  have ut: "h \<le> unat ?t" "unat ?t \<le> 11 * h"
    using p h by (auto simp: SCHED_TICK_TOTAL_def pct_ok_def unat_max simp del: of_nat_unat)
  have r1: "unat (?r - 1) = r - 1" using r ur by (subst unat_sub) (simp_all add: word_le_nat_alt)
  have a: "unat (?t + (?r - 1)) = unat ?t + (r - 1)"
  proof -
    have "unat ?t + unat (?r - 1) < 2 ^ 32" unfolding r1 using ut h(2) r(3) by simp
    then have "unat (?t + (?r - 1)) = unat ?t + unat (?r - 1)" by (rule u_int_add)
    then show ?thesis unfolding r1 .
  qed
  have m: "unat ((?t + (?r - 1)) div ?r * ?r) = (unat ?t + (r - 1)) div r * r"
  proof -
    have "(unat ?t + (r - 1)) div r * r \<le> unat ?t + (r - 1)" by simp
    also have "\<dots> < 2 ^ 32" using ut h(2) r by simp
    finally have "(unat ?t + (r - 1)) div r * r < 2 ^ 32" .
    moreover have "unat ((?t + (?r - 1)) div ?r) = (unat ?t + (r - 1)) div r"
      unfolding unat_div a ur ..
    ultimately show ?thesis by (subst u_int_mult) (simp_all only: ur)
  qed
  have "unat (((?t + (?r - 1)) div ?r * ?r) div ?r) = (unat ?t + (r - 1)) div r"
    unfolding unat_div m ur using r(2) by simp
  moreover have "0 < (unat ?t + (r - 1)) div r" using ut h(1) r(2) by (simp add: div_greater_zero_iff)
  ultimately have "((?t + (?r - 1)) div ?r * ?r) div ?r \<noteq> 0"
    by (metis less_numeral_extra(3) unat_0)
  then show ?thesis by (simp add: SCHED_PRI_TICKS_def Let_def)
qed

lemma interact_pri:
  fixes R si score :: int
  assumes "0 < R" "0 \<le> score" "score < si"
  shows "0 \<le> c_div R si * score \<and> c_div R si * score < R"
proof -
  have si: "0 < si" using assms by simp
  have "R div si * score \<le> R div si * (si - 1)"
    using assms si by (intro mult_left_mono) (simp_all add: pos_imp_zdiv_nonneg_iff)
  also have "\<dots> < R"
  proof (cases "R div si = 0")
    case False
    then have "0 < R div si" using assms si by (metis le_less pos_imp_zdiv_nonneg_iff less_imp_le)
    moreover have "R div si * si \<le> R" using si by (metis Euclidean_Rings.pos_mod_sign add_le_cancel_left add.right_neutral div_mult_mod_eq)
    ultimately show ?thesis by (simp add: right_diff_distrib)
  qed (use assms in simp)
  finally show ?thesis using assms si by (simp add: c_div_nonneg pos_imp_zdiv_nonneg_iff)
qed


lemma sched_priority_other:
  "PRI_BASE C (td_pri_class td) \<noteq> PRI_TIMESHARE C \<Longrightarrow> sched_priority C T nice td = Inr td"
  by (simp add: sched_priority_def)

lemma u_char_of_int: "0 \<le> p \<Longrightarrow> p < 256 \<Longrightarrow> uint (of_int p :: u_char) = p"
  by (simp add: uint_word_of_int)

lemma sched_user_prio_base [simp]: "td_base_user_pri (sched_user_prio td p) = p"
  by (simp add: sched_user_prio_def Let_def)

text \<open>The part of the priority that comes from cpu usage is less than the usage range.\<close>

lemma pri_usage_bound:
  assumes k: "kconf_ok C" and p: "pct_ok C ts"
  obtains n where "rbind (SCHED_PRI_TICKS C ts) (\<lambda>k. Inr (uint (min k (of_int (SCHED_PRI_RANGE C - 1))))) = Inr n"
    "0 \<le> n" "n < SCHED_PRI_RANGE C"
proof -
  obtain m where m: "SCHED_PRI_TICKS C ts = Inr m" using pri_ticks_ok [OF assms] by blast
  have u: "uint (of_int (SCHED_PRI_RANGE C - 1) :: u_int) = SCHED_PRI_RANGE C - 1"
    using kconf_okD(6,12) [OF k] by (intro u_int_of_int) simp_all
  have "min m (of_int (SCHED_PRI_RANGE C - 1)) \<le> of_int (SCHED_PRI_RANGE C - 1)" by simp
  then have "uint (min m (of_int (SCHED_PRI_RANGE C - 1))) \<le> SCHED_PRI_RANGE C - 1"
    unfolding word_le_def u .
  then show thesis by (intro that) (simp_all add: m)
qed

lemma sched_priority_ok:
  fixes T :: tunables
  assumes k: "kconf_ok C" and p: "pct_ok C td" and n: "PRIO_MIN C \<le> nice" "nice \<le> PRIO_MAX C"
    and c: "PRI_BASE C (td_pri_class td) = PRI_TIMESHARE C"
  defines "score \<equiv> imax 0 (sched_interact_score T td + nice)"
  shows "\<exists>pri. sched_priority C T nice td = Inr (sched_user_prio td (of_int pri)) \<and>
    (if score < sched_interact T then PRI_MIN_INTERACT C \<le> pri \<and> pri \<le> PRI_MAX_INTERACT C
     else PRI_MIN_BATCH C \<le> pri \<and> pri \<le> PRI_MAX_BATCH C)"
proof (cases "score < sched_interact T")
  case True
  have s0: "0 \<le> score" by (simp add: score_def imax_def)
  have R: "PRI_MAX_INTERACT C - PRI_MIN_INTERACT C + 1 = PRI_INTERACT_RANGE C"
    by (simp add: PRI_MAX_INTERACT_def PRI_MIN_INTERACT_def)
  let ?pri = "PRI_MIN_INTERACT C + c_div (PRI_INTERACT_RANGE C) (sched_interact T) * score"
  have b: "PRI_MIN_INTERACT C \<le> ?pri \<and> ?pri \<le> PRI_MAX_INTERACT C"
    using interact_pri [OF kconf_okD(4) [OF k] s0 True] by (simp add: PRI_MAX_INTERACT_def PRI_MIN_INTERACT_def)
  have "sched_priority C T nice td = Inr (sched_user_prio td (of_int ?pri))"
    using True c b
    by (simp add: sched_priority_def score_def [symmetric] R Let_def del: of_int_add of_int_mult)
  then show ?thesis unfolding if_P [OF True] using b by blast
next
  case False
  obtain u where u: "ts_ticks td = 0 \<Longrightarrow> u = 0"
      "ts_ticks td \<noteq> 0 \<Longrightarrow> rbind (SCHED_PRI_TICKS C td) (\<lambda>k. Inr (uint (min k (of_int (SCHED_PRI_RANGE C - 1))))) = Inr u"
      "0 \<le> u" "u < SCHED_PRI_RANGE C"
    using pri_usage_bound [OF k p] kconf_okD(6) [OF k] by (metis order_refl)
  let ?pri = "SCHED_PRI_MIN C + u + SCHED_PRI_NICE nice"
  have b: "PRI_MIN_BATCH C \<le> ?pri \<and> ?pri \<le> PRI_MAX_BATCH C"
    using u(3,4) n k kconf_okD(2) [OF k]
    by (auto simp: SCHED_PRI_NICE_def SCHED_PRI_MIN_def SCHED_PRI_RANGE_def SCHED_PRI_MAX_def kconf_ok_def)
  have "sched_priority C T nice td = Inr (sched_user_prio td (of_int ?pri))"
    using False c u(1,2) b
    by (cases "ts_ticks td = 0")
       (simp_all add: sched_priority_def score_def [symmetric] Let_def del: of_int_add of_int_diff)
  then show ?thesis unfolding if_not_P [OF False] using b by blast
qed

subsection \<open>Slices\<close>

lemma tdq_slice_eq:
  assumes "0 \<le> sched_slice T" "sched_slice_min T = sched_slice T div 6"
  shows "tdq_slice T l = sched_slice T div (if 7 \<le> l then 6 else if l \<le> 2 then 1 else l - 1)"
  using assms by (simp add: tdq_slice_def SCHED_SLICE_MIN_DIVISOR_def Let_def c_div_nonneg)

lemma tdq_slice_bounds:
  assumes "0 \<le> sched_slice T" "sched_slice_min T = sched_slice T div 6"
  shows "sched_slice_min T \<le> tdq_slice T l" "tdq_slice T l \<le> sched_slice T"
    "1 < l - 1 \<Longrightarrow> l - 1 < 6 \<Longrightarrow> (l - 1) * tdq_slice T l \<le> sched_slice T"
    "l \<le> m \<Longrightarrow> tdq_slice T m \<le> tdq_slice T l"
proof -
  let ?S = "sched_slice T" and ?d = "\<lambda>l :: int. if 7 \<le> l then 6 else if l \<le> 2 then 1 else l - 1"
  note e = tdq_slice_eq [OF assms]
  have mono: "a \<le> b \<Longrightarrow> 0 < a \<Longrightarrow> ?S div b \<le> ?S div a" for a b :: int
    using assms(1) by (intro zdiv_mono2) simp_all
  show "sched_slice_min T \<le> tdq_slice T l"
    unfolding e assms(2) by (rule mono) auto
  show "tdq_slice T l \<le> ?S"
    unfolding e using mono [of 1 "?d l"] by auto
  show "(l - 1) * tdq_slice T l \<le> ?S" if "1 < l - 1" "l - 1 < 6"
  proof -
    have "tdq_slice T l = ?S div (l - 1)" using that by (simp add: e)
    moreover have "(l - 1) * (?S div (l - 1)) = ?S - ?S mod (l - 1)" by (rule minus_mod_eq_mult_div [symmetric])
    moreover have "0 \<le> ?S mod (l - 1)" using that by (intro Euclidean_Rings.pos_mod_sign) simp
    ultimately show ?thesis by simp
  qed
  show "tdq_slice T m \<le> tdq_slice T l" if "l \<le> m"
    unfolding e using that by (intro mono) auto
qed

end
