(* ===== verification/SchedState.thy ===== *)
theory SchedState
  imports Lottery SchedPri
begin

text \<open>
  The state of asgn2/sched_ule.c: the per-CPU thread queues (struct tdq), the CPU topology,
  and everything else the scheduler reads and writes, in one record. A CPU is named by its
  id, so TDQ_CPU(c) is \<open>k_tdq k c\<close>; TDQ_SELF() is the queue of the CPU that runs the
  operation, an argument \<open>self\<close> of the operations that use it. Spin locks are not modelled
  beyond the pointer \<open>td_lock\<close>: an operation is one atomic step of the CPU that runs it.
\<close>

subsection \<open>CPU topology\<close>

datatype cgflag = CG_FLAG_HTT | CG_FLAG_SMT | CG_FLAG_THREAD

datatype cpu_group =
  CpuGroup (cg_mask: "cpuid set") (cg_level: int) (cg_flags: "cgflag set") (cg_child: "cpu_group list")

subsection \<open>Thread queues\<close>

text \<open>
  \<open>tdq_cg\<close> is the path from the CPU's own group to the root of the topology: its head is
  the group that the pointer names, each next element is \<open>cg_parent\<close>, and [] is NULL.
\<close>

record tdq =
  tdq_cg :: "cpu_group list"
  tdq_load :: int
  tdq_cpu_idle :: bool
  tdq_sysload :: int
  tdq_transferable :: int
  tdq_switchcnt :: int
  tdq_oldswitchcnt :: int
  tdq_lowpri :: u_char
  tdq_ipipending :: bool
  tdq_idx :: u_char
  tdq_ridx :: u_char
  tdq_realtime :: runq
  tdq_timeshare :: runq
  tdq_lottery :: runq
  tdq_idle :: runq

fun tdq_rq :: "rqname \<Rightarrow> tdq \<Rightarrow> runq" where
  "tdq_rq RQ_realtime t = tdq_realtime t"
| "tdq_rq RQ_timeshare t = tdq_timeshare t"
| "tdq_rq RQ_lottery t = tdq_lottery t"
| "tdq_rq RQ_idle t = tdq_idle t"

fun set_tdq_rq :: "rqname \<Rightarrow> runq \<Rightarrow> tdq \<Rightarrow> tdq" where
  "set_tdq_rq RQ_realtime q t = t\<lparr>tdq_realtime := q\<rparr>"
| "set_tdq_rq RQ_timeshare q t = t\<lparr>tdq_timeshare := q\<rparr>"
| "set_tdq_rq RQ_lottery q t = t\<lparr>tdq_lottery := q\<rparr>"
| "set_tdq_rq RQ_idle q t = t\<lparr>tdq_idle := q\<rparr>"

lemma tdq_rq_set [simp]: "tdq_rq n (set_tdq_rq m q t) = (if n = m then q else tdq_rq n t)"
  by (cases n; cases m) simp_all

lemma set_tdq_rq_frame [simp]:
  "tdq_cg (set_tdq_rq m q t) = tdq_cg t" "tdq_load (set_tdq_rq m q t) = tdq_load t"
  "tdq_sysload (set_tdq_rq m q t) = tdq_sysload t" "tdq_transferable (set_tdq_rq m q t) = tdq_transferable t"
  "tdq_lowpri (set_tdq_rq m q t) = tdq_lowpri t" "tdq_idx (set_tdq_rq m q t) = tdq_idx t"
  "tdq_ridx (set_tdq_rq m q t) = tdq_ridx t"
  by (cases m; simp)+

subsection \<open>The scheduler's state\<close>

text \<open>
  \<open>k_random\<close> is the sequence of values that random() returns, \<open>k_randpos\<close> how many were
  taken; \<open>k_randomval\<close> is the balancer's own generator of each CPU; \<open>k_calls\<close> records the calls
  of kernel functions outside the scheduler, the latest first: what these do is not modelled.
\<close>

datatype swflag = SW_VOL | SW_INVOL | SW_PREEMPT | SWT_IDLE | SWT_OWEPREEMPT | SWT_REMOTEWAKEIDLE
  | SWT_REMOTEPREEMPT | SWT_RELINQUISH

datatype ext_call =
    IPI_PREEMPT cpuid                 \<comment> \<open>ipi_cpu(cpu, IPI_PREEMPT)\<close>
  | MI_SWITCH cpuid "swflag set"      \<comment> \<open>mi_switch(flags, NULL) on a CPU\<close>
  | TURNSTILE_ADJUST tid u_char       \<comment> \<open>turnstile_adjust(td, oldprio)\<close>
  | CPU_SWITCH tid tid lockptr        \<comment> \<open>cpu_switch(td, newtd, mtx)\<close>
  | CPU_THROW "tid option" tid        \<comment> \<open>cpu_throw(td, newtd)\<close>
  | CPU_IDLE bool                     \<comment> \<open>cpu_idle(busy)\<close>

record kern =
  k_td :: store
  k_proc :: "nat \<Rightarrow> proc"
  k_tdq :: "cpuid \<Rightarrow> tdq"
  k_cur :: "cpuid \<Rightarrow> tid"
  k_idle :: "cpuid \<Rightarrow> tid"
  k_ticks :: c_int
  k_tun :: tunables
  k_random :: "nat \<Rightarrow> u_long"
  k_randpos :: nat
  k_randomval :: "cpuid \<Rightarrow> u_int"
  k_cputop :: cpu_group
  k_smp_started :: bool
  k_panicstr :: bool
  k_cold :: bool
  k_kdb_active :: bool
  k_balance_tdq :: cpuid
  k_balance_ticks :: int
  k_calls :: "ext_call list"

definition upd_th :: "tid \<Rightarrow> (thread \<Rightarrow> thread) \<Rightarrow> kern \<Rightarrow> kern" where
  "upd_th t f k = k\<lparr>k_td := upd_td t f (k_td k)\<rparr>"

definition upd_tdq :: "cpuid \<Rightarrow> (tdq \<Rightarrow> tdq) \<Rightarrow> kern \<Rightarrow> kern" where
  "upd_tdq c f k = k\<lparr>k_tdq := (k_tdq k)(c := f (k_tdq k c))\<rparr>"

lemma upd_th_simps [simp]:
  "k_td (upd_th t f k) = upd_td t f (k_td k)" "k_tdq (upd_th t f k) = k_tdq k"
  "k_proc (upd_th t f k) = k_proc k" "k_cur (upd_th t f k) = k_cur k" "k_idle (upd_th t f k) = k_idle k"
  "k_tun (upd_th t f k) = k_tun k" "k_ticks (upd_th t f k) = k_ticks k"
  "k_random (upd_th t f k) = k_random k" "k_randpos (upd_th t f k) = k_randpos k"
  "k_calls (upd_th t f k) = k_calls k"
  by (simp_all add: upd_th_def)

lemma upd_tdq_simps [simp]:
  "k_td (upd_tdq c g k) = k_td k" "k_tdq (upd_tdq c g k) = (k_tdq k)(c := g (k_tdq k c))"
  "k_proc (upd_tdq c g k) = k_proc k" "k_cur (upd_tdq c g k) = k_cur k" "k_idle (upd_tdq c g k) = k_idle k"
  "k_tun (upd_tdq c g k) = k_tun k" "k_ticks (upd_tdq c g k) = k_ticks k"
  "k_random (upd_tdq c g k) = k_random k" "k_randpos (upd_tdq c g k) = k_randpos k"
  "k_calls (upd_tdq c g k) = k_calls k"
  by (simp_all add: upd_tdq_def)

definition td_nice :: "kern \<Rightarrow> tid \<Rightarrow> int" where
  "td_nice k td = p_nice (k_proc k (td_proc (k_td k td)))"

definition ext_call :: "ext_call \<Rightarrow> kern \<Rightarrow> kern" where
  "ext_call e k = k\<lparr>k_calls := e # k_calls k\<rparr>"

subsection \<open>Flags private to the scheduler\<close>

definition TSF_BOUND :: u_int where "TSF_BOUND = 0x0001"
definition TSF_XFERABLE :: u_int where "TSF_XFERABLE = 0x0002"
definition TDF_SLICEEND :: u_int where "TDF_SLICEEND = TDF_SCHED2"

definition THREAD_CAN_MIGRATE :: "thread \<Rightarrow> bool" where
  "THREAD_CAN_MIGRATE td \<longleftrightarrow> td_pinned td = 0"

definition THREAD_CAN_SCHED :: "thread \<Rightarrow> cpuid \<Rightarrow> bool" where
  "THREAD_CAN_SCHED td cpu \<longleftrightarrow> cpu \<in> td_cpuset td"

end
