(* ===== verification/Tdq.thy ===== *)
theory Tdq
  imports SchedState
begin

text \<open>
  The operations of asgn2/sched_ule.c on one CPU's thread queue: adding a thread to the run
  queue that its priority and its user call for, removing it, load accounting, choosing the
  next thread and stealing one.
\<close>

subsection \<open>Adding and removing\<close>

text \<open>
  The lottery part of \<open>tdq_runq_add\<close>: the thread goes to list 0 of the lottery queue with
  20 tickets plus its nice value, and the queue's totals are updated.
\<close>

definition tdq_lottery_add :: "'a kconf_scheme \<Rightarrow> store \<Rightarrow> runq \<Rightarrow> tid \<Rightarrow> int \<Rightarrow> srq set \<Rightarrow> fault + (store \<times> runq)" where
  "tdq_lottery_add C ths rq td nice flags =
     rbind (runq_add_pri C ths rq td 0 flags) (\<lambda>(ths1, rq1).
       (let t = of_int (20 + SCHED_PRI_NICE nice);
            ths2 = upd_td td (td_tickets_update (\<lambda>_. t)) ths1;
            rq2 = (if t > max_tickets rq1 \<or> max_tickets rq1 = 0 then rq1\<lparr>max_tickets := t\<rparr> else rq1);
            rq3 = (if t < min_tickets rq2 \<or> min_tickets rq2 = 0 then rq2\<lparr>min_tickets := t\<rparr> else rq2)
        in Inr (ths2, rq3\<lparr>total_proc := total_proc rq3 + 1, num_tickets := num_tickets rq3 + t\<rparr>)))"

text \<open>The timeshare part: the position in the circular queue.\<close>

definition tdq_timeshare_pri :: "'a kconf_scheme \<Rightarrow> tdq \<Rightarrow> u_char \<Rightarrow> srq set \<Rightarrow> u_char" where
  "tdq_timeshare_pri C q pri flags =
     (if SRQ_BORROWING \<notin> flags \<and> SRQ_PREEMPTED \<notin> flags then
        (let pri1 = of_int (c_div (int RQ_NQS * (uint pri - PRI_MIN_BATCH C)) (PRI_BATCH_RANGE C)) :: u_char;
             pri2 = of_nat ((unat pri1 + unat (tdq_idx q)) mod RQ_NQS) :: u_char
         in if tdq_ridx q \<noteq> tdq_idx q \<and> pri2 = tdq_ridx q then of_nat (unat (pri2 - 1) mod RQ_NQS) else pri2)
      else tdq_ridx q)"

text \<open>The first part of \<open>tdq_runq_add\<close>: the thread is runnable, and counted when it can move.\<close>

definition tdq_ready :: "cpuid \<Rightarrow> tid \<Rightarrow> kern \<Rightarrow> kern" where
  "tdq_ready c td k =
     (let k1 = upd_th td (td_state_update (\<lambda>_. TDS_RUNQ)) k
      in if THREAD_CAN_MIGRATE (k_td k1 td) then
           upd_th td (\<lambda>t. t\<lparr>ts_flags := set_flag (ts_flags t) TSF_XFERABLE\<rparr>)
             (upd_tdq c (\<lambda>q. q\<lparr>tdq_transferable := tdq_transferable q + 1\<rparr>) k1)
         else k1)"

definition tdq_runq_add :: "'a kconf_scheme \<Rightarrow> cpuid \<Rightarrow> tid \<Rightarrow> srq set \<Rightarrow> kern \<Rightarrow> fault + kern" where
  "tdq_runq_add C c td flags k =
     (let pri = td_priority (k_td k td);
          k2 = tdq_ready c td k
      in if uint pri < PRI_MIN_BATCH C then
           (let k3 = upd_th td (ts_runq_update (\<lambda>_. Some (c, RQ_realtime))) k2;
                (ths, rq) = runq_add C (k_td k3) (tdq_realtime (k_tdq k3 c)) td flags
            in Inr (upd_tdq c (set_tdq_rq RQ_realtime rq) (k3\<lparr>k_td := ths\<rparr>)))
         else if uint pri \<le> PRI_MAX_BATCH C then
           (let k3 = upd_th td (\<lambda>t. t\<lparr>td_retval0 := getuid C (td_proc t)\<rparr>) k2
            in if td_retval0 (k_td k3 td) \<noteq> 0 then
                 (let k4 = upd_th td (ts_runq_update (\<lambda>_. Some (c, RQ_lottery))) k3
                  in rbind (kassert (uint pri \<le> PRI_MAX_BATCH C \<and> uint pri \<ge> PRI_MIN_BATCH C)
                             ''Invalid priority on timeshare runq'') (\<lambda>_.
                     rbind (tdq_lottery_add C (k_td k4) (tdq_lottery (k_tdq k4 c)) td (td_nice k4 td) flags) (\<lambda>(ths, rq).
                       Inr (upd_tdq c (set_tdq_rq RQ_lottery rq) (k4\<lparr>k_td := ths\<rparr>)))))
               else
                 (let k4 = upd_th td (ts_runq_update (\<lambda>_. Some (c, RQ_timeshare))) k3
                  in rbind (kassert (uint pri \<le> PRI_MAX_BATCH C \<and> uint pri \<ge> PRI_MIN_BATCH C)
                             ''Invalid priority on timeshare runq'') (\<lambda>_.
                     rbind (runq_add_pri C (k_td k4) (tdq_timeshare (k_tdq k4 c)) td
                              (tdq_timeshare_pri C (k_tdq k4 c) pri flags) flags) (\<lambda>(ths, rq).
                       Inr (upd_tdq c (set_tdq_rq RQ_timeshare rq) (k4\<lparr>k_td := ths\<rparr>))))))
         else
           (let k3 = upd_th td (ts_runq_update (\<lambda>_. Some (c, RQ_idle))) k2;
                (ths, rq) = runq_add C (k_td k3) (tdq_idle (k_tdq k3 c)) td flags
            in Inr (upd_tdq c (set_tdq_rq RQ_idle rq) (k3\<lparr>k_td := ths\<rparr>))))"

text \<open>
  Removal. \<open>ts_runq\<close> may name a queue of another CPU; only the timeshare queue of this one
  moves the removal index.
\<close>

definition tdq_runq_rem :: "'a kconf_scheme \<Rightarrow> cpuid \<Rightarrow> tid \<Rightarrow> kern \<Rightarrow> fault + kern" where
  "tdq_runq_rem C c td k =
     (case ts_runq (k_td k td) of
        None \<Rightarrow> Inl (Panic ''tdq_runq_remove: null ts_runq'')
      | Some (c', name) \<Rightarrow>
          (let k1 = (if has_flag (ts_flags (k_td k td)) TSF_XFERABLE then
                       upd_th td (\<lambda>t. t\<lparr>ts_flags := clr_flag (ts_flags t) TSF_XFERABLE\<rparr>)
                         (upd_tdq c (\<lambda>q. q\<lparr>tdq_transferable := tdq_transferable q - 1\<rparr>) k)
                     else k);
               q = k_tdq k1 c
           in if c' = c \<and> name = RQ_timeshare then
                (if tdq_idx q \<noteq> tdq_ridx q then
                   rbind (runq_remove_idx C (k_td k1) (tdq_timeshare q) td (Some (tdq_ridx q))) (\<lambda>(rq, idx).
                     Inr (upd_tdq c (\<lambda>q. q\<lparr>tdq_timeshare := rq, tdq_ridx := the idx\<rparr>) k1))
                 else
                   rbind (runq_remove_idx C (k_td k1) (tdq_timeshare q) td None) (\<lambda>(rq, _).
                     Inr (upd_tdq c (\<lambda>q. q\<lparr>tdq_timeshare := rq\<rparr>) k1)))
              else
                rbind (runq_remove C (k_td k1) (tdq_rq name (k_tdq k1 c')) td) (\<lambda>rq.
                  Inr (upd_tdq c' (set_tdq_rq name rq) k1))))"

subsection \<open>Load\<close>

definition tdq_load_add :: "cpuid \<Rightarrow> tid \<Rightarrow> kern \<Rightarrow> kern" where
  "tdq_load_add c td k =
     (let k1 = upd_tdq c (\<lambda>q. q\<lparr>tdq_load := tdq_load q + 1\<rparr>) k
      in if \<not> has_flag (td_flags (k_td k1 td)) TDF_NOLOAD then
           upd_tdq c (\<lambda>q. q\<lparr>tdq_sysload := tdq_sysload q + 1\<rparr>) k1
         else k1)"

definition tdq_load_rem :: "cpuid \<Rightarrow> tid \<Rightarrow> kern \<Rightarrow> fault + kern" where
  "tdq_load_rem c td k =
     rbind (kassert (tdq_load (k_tdq k c) \<noteq> 0) ''tdq_load_rem: Removing with 0 load'') (\<lambda>_.
       (let k1 = upd_tdq c (\<lambda>q. q\<lparr>tdq_load := tdq_load q - 1\<rparr>) k
        in if \<not> has_flag (td_flags (k_td k1 td)) TDF_NOLOAD then
             Inr (upd_tdq c (\<lambda>q. q\<lparr>tdq_sysload := tdq_sysload q - 1\<rparr>) k1)
           else Inr k1))"

subsection \<open>Choosing\<close>

text \<open>
  What \<open>tdq_choose\<close> does with the lottery's totals after a draw. The C code reuses its
  variable td as the cursor of both TAILQ_FOREACH loops, so td is NULL after a loop has run;
  the comparison of its tickets and the final printf then read through a NULL pointer.
\<close>

fun max_loop :: "store \<Rightarrow> u_long \<Rightarrow> tid list \<Rightarrow> u_long" where
  "max_loop ths m [] = m"
| "max_loop ths m (td # q) = max_loop ths (if td_tickets (ths td) > m then td_tickets (ths td) else m) q"

fun min_loop :: "store \<Rightarrow> u_long \<Rightarrow> tid list \<Rightarrow> u_long" where
  "min_loop ths m [] = m"
| "min_loop ths m (td # q) =
     min_loop ths (if td_tickets (ths td) < m \<or> m = 0 then td_tickets (ths td) else m) q"

definition td_deref :: "tid option \<Rightarrow> fault + tid" where
  "td_deref p = (case p of None \<Rightarrow> Inl (NullDeref ''td->td_tickets'') | Some td \<Rightarrow> Inr td)"

definition tdq_lottery_stats :: "store \<Rightarrow> runq \<Rightarrow> tid \<Rightarrow> fault + (tid option \<times> runq)" where
  "tdq_lottery_stats ths rq td =
     rbind
       (if total_proc rq = 0 then Inr (Some td, rq\<lparr>max_tickets := 0, min_tickets := 0\<rparr>)
        else
          rbind (rqhead rq 0) (\<lambda>rqh.
            (let (td1, rq1) =
               (if td_tickets (ths td) = max_tickets rq \<or> max_tickets rq = 0
                then (None, rq\<lparr>max_tickets := max_loop ths 0 rqh\<rparr>) else (Some td, rq))
             in rbind (td_deref td1) (\<lambda>td'.
                  if td_tickets (ths td') = min_tickets rq1
                  then Inr (None, rq1\<lparr>min_tickets := min_loop ths 0 rqh\<rparr>)
                  else Inr (td1, rq1)))))
       (\<lambda>(td2, rq2). rbind (td_deref td2) (\<lambda>_. Inr (td2, rq2)))"

definition next_random :: "kern \<Rightarrow> u_long" where
  "next_random k = k_random k (k_randpos k)"

definition tdq_choose :: "'a kconf_scheme \<Rightarrow> cpuid \<Rightarrow> kern \<Rightarrow> fault + (tid option \<times> kern)" where
  "tdq_choose C c k =
     (let q = k_tdq k c
      in rbind (runq_choose C (tdq_realtime q)) (\<lambda>td.
         if td \<noteq> None then Inr (td, k)
         else rbind (runq_choose_from C (tdq_timeshare q) (tdq_ridx q)) (\<lambda>td.
           if td \<noteq> None then
             rbind (kassert (uint (td_priority (k_td k (the td))) \<ge> PRI_MIN_BATCH C)
                     ''tdq_choose: Invalid priority on timeshare queue'') (\<lambda>_. Inr (td, k))
           else rbind (lotteryq_choose (next_random k) (k_td k) (tdq_lottery q)) (\<lambda>(td, rq).
             (let k1 = upd_tdq c (set_tdq_rq RQ_lottery rq)
                         (k\<lparr>k_randpos := (if total_proc (tdq_lottery q) \<noteq> 0 then k_randpos k + 1 else k_randpos k)\<rparr>)
              in if td \<noteq> None then
                   rbind (tdq_lottery_stats (k_td k1) rq (the td)) (\<lambda>(td', rq').
                     Inr (td', upd_tdq c (set_tdq_rq RQ_lottery rq') k1))
                 else rbind (runq_choose C (tdq_idle q)) (\<lambda>td.
                   if td \<noteq> None then
                     rbind (kassert (uint (td_priority (k_td k (the td))) \<ge> PRI_MIN_IDLE C)
                             ''tdq_choose: Invalid priority on idle queue'') (\<lambda>_. Inr (td, k1))
                   else Inr (None, k1)))))))"

text \<open>\<open>ctd\<close> is None for the NULL argument.\<close>

definition tdq_setlowpri :: "'a kconf_scheme \<Rightarrow> cpuid \<Rightarrow> tid option \<Rightarrow> kern \<Rightarrow> fault + kern" where
  "tdq_setlowpri C c ctd k =
     (let ctd' = (case ctd of None \<Rightarrow> k_cur k c | Some t \<Rightarrow> t)
      in rbind (tdq_choose C c k) (\<lambda>(td, k1).
           (case td of
              None \<Rightarrow> Inr (upd_tdq c (\<lambda>q. q\<lparr>tdq_lowpri := td_priority (k_td k1 ctd')\<rparr>) k1)
            | Some t \<Rightarrow>
                if td_priority (k_td k1 t) > td_priority (k_td k1 ctd') then
                  Inr (upd_tdq c (\<lambda>q. q\<lparr>tdq_lowpri := td_priority (k_td k1 ctd')\<rparr>) k1)
                else Inr (upd_tdq c (\<lambda>q. q\<lparr>tdq_lowpri := td_priority (k_td k1 t)\<rparr>) k1))))"

subsection \<open>Set up, adding with load, removal without running, and the choice to run\<close>

definition tdq_setup :: "'a kconf_scheme \<Rightarrow> cpuid \<Rightarrow> kern \<Rightarrow> kern" where
  "tdq_setup C c k =
     upd_tdq c (\<lambda>q. q\<lparr>tdq_realtime := runq_init C, tdq_timeshare := runq_init C,
                      tdq_lottery := lotteryq_init C, tdq_idle := runq_init C\<rparr>) k"

definition tdq_add :: "'a kconf_scheme \<Rightarrow> cpuid \<Rightarrow> tid \<Rightarrow> srq set \<Rightarrow> kern \<Rightarrow> fault + kern" where
  "tdq_add C c td flags k =
     rbind (kassert (td_inhibitors (k_td k td) = 0) ''sched_add: trying to run inhibited thread'') (\<lambda>_.
     rbind (kassert (TD_CAN_RUN (k_td k td) \<or> TD_IS_RUNNING (k_td k td)) ''sched_add: bad thread state'') (\<lambda>_.
     rbind (kassert (has_flag (td_flags (k_td k td)) TDF_INMEM) ''sched_add: thread swapped out'') (\<lambda>_.
       (let k1 = (if td_priority (k_td k td) < tdq_lowpri (k_tdq k c) then
                    upd_tdq c (\<lambda>q. q\<lparr>tdq_lowpri := td_priority (k_td k td)\<rparr>) k
                  else k)
        in rbind (tdq_runq_add C c td flags k1) (\<lambda>k2. Inr (tdq_load_add c td k2))))))"

definition sched_rem :: "'a kconf_scheme \<Rightarrow> tid \<Rightarrow> kern \<Rightarrow> fault + kern" where
  "sched_rem C td k =
     (let c = ts_cpu (k_td k td)
      in rbind (kassert (td_lock (k_td k td) = TDQ_LOCKPTR c) ''td->td_lock == TDQ_LOCKPTR(tdq)'') (\<lambda>_.
         rbind (kassert (TD_ON_RUNQ (k_td k td)) ''sched_rem: thread not on run queue'') (\<lambda>_.
         rbind (tdq_runq_rem C c td k) (\<lambda>k1.
         rbind (tdq_load_rem c td k1) (\<lambda>k2.
           (let k3 = upd_th td (td_state_update (\<lambda>_. TDS_CAN_RUN)) k2
            in if td_priority (k_td k3 td) = tdq_lowpri (k_tdq k3 c) then tdq_setlowpri C c None k3
               else Inr k3))))))"

definition sched_choose :: "'a kconf_scheme \<Rightarrow> cpuid \<Rightarrow> kern \<Rightarrow> fault + (tid \<times> kern)" where
  "sched_choose C self k =
     rbind (tdq_choose C self k) (\<lambda>(td, k1).
       (case td of
          Some t \<Rightarrow>
            rbind (tdq_runq_rem C self t k1) (\<lambda>k2.
              Inr (t, upd_tdq self (\<lambda>q. q\<lparr>tdq_lowpri := td_priority (k_td k2 t)\<rparr>) k2))
        | None \<Rightarrow> Inr (k_idle k1 self, upd_tdq self (\<lambda>q. q\<lparr>tdq_lowpri := of_int (PRI_MAX_IDLE C)\<rparr>) k1)))"

definition sched_runnable :: "cpuid \<Rightarrow> kern \<Rightarrow> bool" where
  "sched_runnable self k =
     (if has_flag (td_flags (k_td k (k_cur k self))) TDF_IDLETD then tdq_load (k_tdq k self) > 0
      else tdq_load (k_tdq k self) - 1 > 0)"

subsection \<open>Stealing\<close>

definition can_steal :: "store \<Rightarrow> cpuid \<Rightarrow> tid \<Rightarrow> bool" where
  "can_steal ths cpu td \<longleftrightarrow> THREAD_CAN_MIGRATE (ths td) \<and> THREAD_CAN_SCHED (ths td) cpu"

text \<open>
  \<open>runq_steal_from\<close>: the inner loop over a list, the loop over the bits of a word, the loop
  over the words, and the second round from queue 0. \<open>first\<close> is the C variable of that name,
  the last thread seen; each loop returns the thread found, or else \<open>first\<close>.
\<close>

fun steal_list :: "store \<Rightarrow> cpuid \<Rightarrow> tid option \<Rightarrow> tid list \<Rightarrow> tid option \<times> tid option" where
  "steal_list ths cpu first [] = (None, first)"
| "steal_list ths cpu first (td # q) =
     (if first \<noteq> None \<and> can_steal ths cpu td then (Some td, first)
      else steal_list ths cpu (Some td) q)"

fun steal_bits :: "'a rqb_machine_scheme \<Rightarrow> store \<Rightarrow> runq \<Rightarrow> cpuid \<Rightarrow> nat \<Rightarrow> tid option \<Rightarrow> nat list \<Rightarrow> tid option \<times> tid option" where
  "steal_bits C ths rq cpu i first [] = (None, first)"
| "steal_bits C ths rq cpu i first (b # bs) =
     (if rq_bits rq ! i AND push_bit b 1 = 0 then steal_bits C ths rq cpu i first bs
      else case steal_list ths cpu first (rq_queues rq ! (b + i * 2 ^ RQB_L2BPW C)) of
             (Some td, f) \<Rightarrow> (Some td, f)
           | (None, f) \<Rightarrow> steal_bits C ths rq cpu i f bs)"

fun steal_words :: "'a rqb_machine_scheme \<Rightarrow> store \<Rightarrow> runq \<Rightarrow> cpuid \<Rightarrow> nat \<Rightarrow> tid option \<Rightarrow> nat list \<Rightarrow> tid option \<times> tid option" where
  "steal_words C ths rq cpu bit0 first [] = (None, first)"
| "steal_words C ths rq cpu bit0 first (i # is) =
     (if rq_bits rq ! i = 0 then steal_words C ths rq cpu 0 first is
      else (let b = (if bit0 = 0 then nat (RQB_FFS C (rq_bits rq ! i)) else bit0)
            in case steal_bits C ths rq cpu i first [b..<RQB_BPW C] of
                 (Some td, f) \<Rightarrow> (Some td, f)
               | (None, f) \<Rightarrow> steal_words C ths rq cpu 0 f is))"

definition runq_steal_from :: "'a rqb_machine_scheme \<Rightarrow> store \<Rightarrow> runq \<Rightarrow> cpuid \<Rightarrow> u_char \<Rightarrow> tid option" where
  "runq_steal_from C ths rq cpu start =
     (let ws = [RQB_WORD C (unat start)..<RQB_LEN C];
          b0 = unat start AND (RQB_BPW C - 1)
      in case steal_words C ths rq cpu b0 None ws of
           (Some td, _) \<Rightarrow> Some td
         | (None, first) \<Rightarrow>
             (case (if start \<noteq> 0
                    then steal_words C ths rq cpu (if ws = [] then b0 else 0) first [RQB_WORD C 0..<RQB_LEN C]
                    else (None, first)) of
                (Some td, _) \<Rightarrow> Some td
              | (None, Some f) \<Rightarrow> (if can_steal ths cpu f then Some f else None)
              | (None, None) \<Rightarrow> None))"

fun steal_all_bits :: "'a rqb_machine_scheme \<Rightarrow> store \<Rightarrow> runq \<Rightarrow> cpuid \<Rightarrow> nat \<Rightarrow> nat list \<Rightarrow> tid option" where
  "steal_all_bits C ths rq cpu w [] = None"
| "steal_all_bits C ths rq cpu w (b # bs) =
     (if rq_bits rq ! w AND push_bit b 1 = 0 then steal_all_bits C ths rq cpu w bs
      else case find (can_steal ths cpu) (rq_queues rq ! (b + w * 2 ^ RQB_L2BPW C)) of
             Some td \<Rightarrow> Some td
           | None \<Rightarrow> steal_all_bits C ths rq cpu w bs)"

fun steal_all_words :: "'a rqb_machine_scheme \<Rightarrow> store \<Rightarrow> runq \<Rightarrow> cpuid \<Rightarrow> nat list \<Rightarrow> tid option" where
  "steal_all_words C ths rq cpu [] = None"
| "steal_all_words C ths rq cpu (w # ws) =
     (if rq_bits rq ! w = 0 then steal_all_words C ths rq cpu ws
      else case steal_all_bits C ths rq cpu w [0..<RQB_BPW C] of
             Some td \<Rightarrow> Some td
           | None \<Rightarrow> steal_all_words C ths rq cpu ws)"

definition runq_steal :: "'a rqb_machine_scheme \<Rightarrow> store \<Rightarrow> runq \<Rightarrow> cpuid \<Rightarrow> tid option" where
  "runq_steal C ths rq cpu = steal_all_words C ths rq cpu [0..<RQB_LEN C]"

definition tdq_steal :: "'a kconf_scheme \<Rightarrow> store \<Rightarrow> tdq \<Rightarrow> cpuid \<Rightarrow> tid option" where
  "tdq_steal C ths q cpu =
     (case runq_steal C ths (tdq_realtime q) cpu of
        Some td \<Rightarrow> Some td
      | None \<Rightarrow>
          (case runq_steal_from C ths (tdq_timeshare q) cpu (tdq_ridx q) of
             Some td \<Rightarrow> Some td
           | None \<Rightarrow>
               (case runq_steal_from C ths (tdq_lottery q) cpu (tdq_ridx q) of
                  Some td \<Rightarrow> Some td
                | None \<Rightarrow> runq_steal C ths (tdq_idle q) cpu)))"

text \<open>Moving a stolen thread; thread_lock and TDQ_UNLOCK only change who holds the locks.\<close>

definition tdq_move :: "'a kconf_scheme \<Rightarrow> cpuid \<Rightarrow> cpuid \<Rightarrow> kern \<Rightarrow> fault + (tid option \<times> kern)" where
  "tdq_move C from to k =
     (case tdq_steal C (k_td k) (k_tdq k from) to of
        None \<Rightarrow> Inr (None, k)
      | Some td \<Rightarrow>
          rbind (sched_rem C td k) (\<lambda>k1.
            (let k2 = upd_th td (\<lambda>t. t\<lparr>ts_cpu := to, td_lock := TDQ_LOCKPTR to\<rparr>) k1
             in rbind (tdq_add C to td {SRQ_YIELDING} k2) (\<lambda>k3. Inr (Some td, k3)))))"

end
