(* ===== verification/TdqLaws.thy ===== *)
theory TdqLaws
  imports Tdq
begin

text \<open>
  What the operations on a thread queue promise: the lottery's totals, the invariant \<open>k_wf\<close>
  that ties every queue of every CPU to the threads' ts_runq pointers, its preservation by
  adding, removing, choosing and moving, the queue that a thread goes to, and stealing.
\<close>

subsection \<open>The lottery queue gains a thread\<close>

lemma tickets_cong: "(\<And>t. t \<in> set q \<Longrightarrow> td_tickets (ths' t) = td_tickets (ths t)) \<Longrightarrow>
    map (tickets ths') q = map (tickets ths) q"
  by (simp add: tickets_def)

lemma sum_tickets_insert:
  "sum_list (map (tickets ths) (tailq_insert flags td q)) = tickets ths td + sum_list (map (tickets ths) q)"
  by (simp add: tailq_insert_def)

definition nice_tickets :: "int \<Rightarrow> u_long" where
  "nice_tickets nice = of_int (20 + SCHED_PRI_NICE nice)"

lemma unat_nice_tickets: "-20 \<le> nice \<Longrightarrow> nice \<le> 20 \<Longrightarrow> unat (nice_tickets nice) = nat (20 + nice)"
proof -
  assume n: "-20 \<le> nice" "nice \<le> 20"
  then have "uint (nice_tickets nice) = 20 + nice"
    unfolding nice_tickets_def SCHED_PRI_NICE_def by (simp add: uint_word_of_int del: of_int_add)
  then show ?thesis by (metis nat_int uint_nat)
qed

text \<open>What the addition does: the thread, its tickets, and the totals.\<close>

definition lottery_joined :: "u_long \<Rightarrow> runq \<Rightarrow> runq" where
  "lottery_joined w rq =
     rq\<lparr>max_tickets := (if w > max_tickets rq \<or> max_tickets rq = 0 then w else max_tickets rq),
        min_tickets := (if w < min_tickets rq \<or> min_tickets rq = 0 then w else min_tickets rq),
        total_proc := total_proc rq + 1, num_tickets := num_tickets rq + w\<rparr>"

lemma lottery_joined_simps [simp]:
  "rq_bits (lottery_joined w rq) = rq_bits rq" "rq_queues (lottery_joined w rq) = rq_queues rq"
  "total_proc (lottery_joined w rq) = total_proc rq + 1" "num_tickets (lottery_joined w rq) = num_tickets rq + w"
  by (simp_all add: lottery_joined_def)

lemma enqueued_totals [simp]:
  "total_proc (enqueued C rq td p flags) = total_proc rq" "num_tickets (enqueued C rq td p flags) = num_tickets rq"
  "max_tickets (enqueued C rq td p flags) = max_tickets rq" "min_tickets (enqueued C rq td p flags) = min_tickets rq"
  by (simp_all add: enqueued_def set_rqhead_def runq_setbit_def)

lemma tdq_lottery_add_eq:
  "tdq_lottery_add C ths rq td nice flags =
    Inr (upd_td td (\<lambda>t. t\<lparr>td_rqindex := 0, td_tickets := nice_tickets nice\<rparr>) ths,
         lottery_joined (nice_tickets nice) (enqueued C rq td 0 flags))"
  unfolding tdq_lottery_add_def Let_def nice_tickets_def [symmetric]
  by (simp add: runq_add_pri_eq upd_td_def lottery_joined_def)

lemma enqueued_lottery_acct:
  assumes a: "lottery_acct ths rq" and new: "td \<notin> set (rq_level rq 0)"
    and tk: "unat w + sum_list (map (tickets ths) (rq_level rq 0)) < 2 ^ 64"
    and ths': "\<And>t. t \<noteq> td \<Longrightarrow> td_tickets (ths' t) = td_tickets (ths t)" "td_tickets (ths' td) = w"
    and rq': "rq_queues rq' = rq_queues (enqueued C rq td 0 flags)" "total_proc rq' = total_proc rq + 1"
      "num_tickets rq' = num_tickets rq + w"
  shows "lottery_acct ths' rq'"
proof -
  have len: "length (rq_queues rq) = 64" using a by (simp add: lottery_acct_def)
  have lev: "rq_level rq' 0 = tailq_insert flags td (rq_level rq 0)"
    using rq_level_enqueued [of 0 0 rq C td flags] len by (simp add: rq_level_def rq'(1))
  have eq: "map (tickets ths') (rq_level rq 0) = map (tickets ths) (rq_level rq 0)"
    using new ths'(1) by (intro tickets_cong) metis
  have sum: "sum_list (map (tickets ths') (tailq_insert flags td (rq_level rq 0))) =
      unat w + sum_list (map (tickets ths) (rq_level rq 0))"
    unfolding sum_tickets_insert eq by (simp add: tickets_def ths'(2))
  have l: "length (tailq_insert flags td q) = length q + 1" for q by (simp add: tailq_insert_def)
  have distinct_insert: "distinct q \<Longrightarrow> td \<notin> set q \<Longrightarrow> distinct (tailq_insert flags td q)" for q
    by (simp add: tailq_insert_def)
  have "unat (num_tickets rq + w) = unat (num_tickets rq) + unat w"
    using a tk by (intro u_long_add_no_overflow) (simp add: lottery_acct_def)
  then show ?thesis
    using a new tk distinct_insert
    unfolding lottery_acct_def lev sum rq'(2,3) by (simp add: l rq'(1) enqueued_def set_rqhead_def runq_setbit_def)
qed

subsection \<open>What choosing the lottery's winner does\<close>

lemma lottery_stats_cases:
  "tdq_lottery_stats ths rq td =
    (if total_proc rq = 0 then Inr (Some td, rq\<lparr>max_tickets := 0, min_tickets := 0\<rparr>)
     else if length (rq_queues rq) = 0 then Inl (OutOfBounds ''rq_queues'')
     else if td_tickets (ths td) = max_tickets rq \<or> max_tickets rq = 0 \<or> td_tickets (ths td) = min_tickets rq
     then Inl (NullDeref ''td->td_tickets'')
     else Inr (Some td, rq))"
  by (auto simp: tdq_lottery_stats_def td_deref_def rqhead_def)

subsection \<open>The invariant of all the thread queues\<close>

definition q_elems :: "kern \<Rightarrow> cpuid \<Rightarrow> rqname \<Rightarrow> tid set" where
  "q_elems k c n = rq_elems (tdq_rq n (k_tdq k c))"

text \<open>
  The best priority that a thread of the queue can have. A queued thread's priority may only
  get worse in place, so this is all that is known of it.
\<close>

fun prio_floor :: "'a kconf_scheme \<Rightarrow> rqname \<Rightarrow> int" where
  "prio_floor C RQ_realtime = 0"
| "prio_floor C RQ_timeshare = PRI_MIN_BATCH C"
| "prio_floor C RQ_lottery = PRI_MIN_BATCH C"
| "prio_floor C RQ_idle = PRI_MIN_IDLE C"

definition k_wf :: "'a kconf_scheme \<Rightarrow> kern \<Rightarrow> bool" where
  "k_wf C k \<longleftrightarrow>
     (\<forall>c n. runq_wf C (k_td k) (tdq_rq n (k_tdq k c)) \<and>
        (\<forall>t \<in> q_elems k c n. ts_runq (k_td k t) = Some (c, n) \<and> td_state (k_td k t) = TDS_RUNQ \<and>
           prio_floor C n \<le> uint (td_priority (k_td k t)))) \<and>
     (\<forall>c. unat (tdq_idx (k_tdq k c)) < RQ_NQS \<and> unat (tdq_ridx (k_tdq k c)) < RQ_NQS)"

definition unqueued :: "kern \<Rightarrow> tid \<Rightarrow> bool" where
  "unqueued k t \<longleftrightarrow> (\<forall>c n. t \<notin> q_elems k c n)"

lemma k_wfD:
  assumes "k_wf C k"
  shows "runq_wf C (k_td k) (tdq_rq n (k_tdq k c))"
    "t \<in> q_elems k c n \<Longrightarrow> ts_runq (k_td k t) = Some (c, n)"
    "t \<in> q_elems k c n \<Longrightarrow> td_state (k_td k t) = TDS_RUNQ"
    "unat (tdq_idx (k_tdq k c)) < 64" "unat (tdq_ridx (k_tdq k c)) < 64"
    "t \<in> q_elems k c n \<Longrightarrow> td_inmem (k_td k) t"
    "t \<in> q_elems k c n \<Longrightarrow> prio_floor C n \<le> uint (td_priority (k_td k t))"
proof -
  show w: "runq_wf C (k_td k) (tdq_rq n (k_tdq k c))" using assms unfolding k_wf_def by blast
  show "t \<in> q_elems k c n \<Longrightarrow> ts_runq (k_td k t) = Some (c, n)" "t \<in> q_elems k c n \<Longrightarrow> td_state (k_td k t) = TDS_RUNQ"
    "t \<in> q_elems k c n \<Longrightarrow> prio_floor C n \<le> uint (td_priority (k_td k t))"
    using assms unfolding k_wf_def by blast+
  show "unat (tdq_idx (k_tdq k c)) < 64" "unat (tdq_ridx (k_tdq k c)) < 64"
    using assms by (simp_all add: k_wf_def)
  show "td_inmem (k_td k) t" if "t \<in> q_elems k c n"
    using that runq_wfD(6) [OF w] runq_wf_elem [OF w, of t] by (auto simp: q_elems_def)
qed

lemma k_wfI:
  assumes "\<And>c n. runq_wf C (k_td k) (tdq_rq n (k_tdq k c))"
    "\<And>c n t. t \<in> q_elems k c n \<Longrightarrow> ts_runq (k_td k t) = Some (c, n)"
    "\<And>c n t. t \<in> q_elems k c n \<Longrightarrow> td_state (k_td k t) = TDS_RUNQ"
    "\<And>c n t. t \<in> q_elems k c n \<Longrightarrow> prio_floor C n \<le> uint (td_priority (k_td k t))"
    "\<And>c. unat (tdq_idx (k_tdq k c)) < 64" "\<And>c. unat (tdq_ridx (k_tdq k c)) < 64"
  shows "k_wf C k"
  using assms by (simp add: k_wf_def)

text \<open>A thread is on one queue at most.\<close>

lemma k_wf_unique:
  assumes "k_wf C k" "t \<in> q_elems k c n" "t \<in> q_elems k c' n'"
  shows "c' = c \<and> n' = n"
  using k_wfD(2) [OF assms(1,2)] k_wfD(2) [OF assms(1,3)] by simp

text \<open>Changing threads that are not queued, or fields that the queues do not depend on.\<close>

lemma k_wf_frame:
  assumes wf: "k_wf C k"
    and q: "\<And>c n. tdq_rq n (k_tdq k' c) = tdq_rq n (k_tdq k c)"
    and i: "\<And>c. tdq_idx (k_tdq k' c) = tdq_idx (k_tdq k c)" "\<And>c. tdq_ridx (k_tdq k' c) = tdq_ridx (k_tdq k c)"
    and t: "\<And>t. \<not> unqueued k t \<Longrightarrow> ts_runq (k_td k' t) = ts_runq (k_td k t) \<and> td_state (k_td k' t) = td_state (k_td k t) \<and>
       td_rqindex (k_td k' t) = td_rqindex (k_td k t) \<and>
       has_flag (td_flags (k_td k' t)) TDF_INMEM = has_flag (td_flags (k_td k t)) TDF_INMEM \<and>
       uint (td_priority (k_td k t)) \<le> uint (td_priority (k_td k' t))"
  shows "k_wf C k'" "q_elems k' = q_elems k"
proof -
  show e: "q_elems k' = q_elems k" by (simp add: q_elems_def fun_eq_iff q)
  have u: "t \<in> q_elems k c n \<Longrightarrow> \<not> unqueued k t" for t c n by (auto simp: unqueued_def)
  note u' = t [OF u]
  show "k_wf C k'"
  proof (rule k_wfI)
    show "runq_wf C (k_td k') (tdq_rq n (k_tdq k' c))" for c n
      unfolding q using u' by (intro runq_wf_cong [OF k_wfD(1) [OF wf]]) (simp add: q_elems_def)
    show "prio_floor C n \<le> uint (td_priority (k_td k' t))" if "t \<in> q_elems k' c n" for c n t
      using that u' [of t c n] k_wfD(7) [OF wf, of t c n] by (simp add: e)
  qed (use u' e k_wfD [OF wf] i in \<open>simp_all\<close>)
qed

text \<open>One queue changes: the thread \<open>td\<close> joins it, or leaves it.\<close>

lemma k_wf_join:
  assumes wf: "k_wf C k" and new: "unqueued k td"
    and q: "\<And>c' n'. tdq_rq n' (k_tdq k' c') = (if c' = c \<and> n' = n then rq' else tdq_rq n' (k_tdq k c'))"
    and i: "\<And>c. tdq_idx (k_tdq k' c) = tdq_idx (k_tdq k c)" "\<And>c. tdq_ridx (k_tdq k' c) = tdq_ridx (k_tdq k c)"
    and t: "\<And>t. t \<noteq> td \<Longrightarrow> k_td k' t = k_td k t"
    and rq': "runq_wf C (k_td k') rq'" "rq_elems rq' = insert td (q_elems k c n)"
    and td: "ts_runq (k_td k' td) = Some (c, n)" "td_state (k_td k' td) = TDS_RUNQ"
      "prio_floor C n \<le> uint (td_priority (k_td k' td))"
  shows "k_wf C k'" "q_elems k' c' n' = (if c' = c \<and> n' = n then insert td (q_elems k c n) else q_elems k c' n')"
proof -
  show e: "q_elems k' c' n' = (if c' = c \<and> n' = n then insert td (q_elems k c n) else q_elems k c' n')" for c' n'
    using rq'(2) by (simp add: q_elems_def q)
  have ne: "t \<in> q_elems k c' n' \<Longrightarrow> t \<noteq> td" for t c' n' using new by (auto simp: unqueued_def)
  show "k_wf C k'"
  proof (rule k_wfI)
    fix c' n'
    have "runq_wf C (k_td k') (tdq_rq n' (k_tdq k c'))"
      using ne by (intro runq_wf_cong [OF k_wfD(1) [OF wf]]) (simp add: q_elems_def t)
    then show "runq_wf C (k_td k') (tdq_rq n' (k_tdq k' c'))" using rq'(1) by (simp add: q)
    fix s assume "s \<in> q_elems k' c' n'"
    then have "s = td \<and> c' = c \<and> n' = n \<or> s \<in> q_elems k c' n'" by (auto simp: e split: if_splits)
    then show "ts_runq (k_td k' s) = Some (c', n')" "td_state (k_td k' s) = TDS_RUNQ"
      "prio_floor C n' \<le> uint (td_priority (k_td k' s))"
      using td ne k_wfD(2,3,7) [OF wf, of s c' n'] by (auto simp: t)
  qed (use k_wfD(4,5) [OF wf] i in \<open>simp_all\<close>)
qed

lemma k_wf_leave:
  assumes wf: "k_wf C k"
    and q: "\<And>c' n'. tdq_rq n' (k_tdq k' c') = (if c' = c \<and> n' = n then rq' else tdq_rq n' (k_tdq k c'))"
    and i: "\<And>c. tdq_idx (k_tdq k' c) = tdq_idx (k_tdq k c)" "\<And>c. unat (tdq_ridx (k_tdq k' c)) < 64"
    and t: "\<And>t. t \<noteq> td \<Longrightarrow> k_td k' t = k_td k t"
    and rq': "runq_wf C (k_td k) rq'" "rq_elems rq' = q_elems k c n - {td}" and td: "td \<in> q_elems k c n"
  shows "k_wf C k'" "q_elems k' c' n' = q_elems k c' n' - {td}"
proof -
  have u: "td \<in> q_elems k c' n' \<longleftrightarrow> c' = c \<and> n' = n" for c' n' using k_wf_unique [OF wf td] td by blast
  have e0: "q_elems k' c' n' = (if c' = c \<and> n' = n then q_elems k c n - {td} else q_elems k c' n')" for c' n'
    using rq'(2) by (simp add: q_elems_def q)
  show e: "q_elems k' c' n' = q_elems k c' n' - {td}" for c' n'
    using u [of c' n'] e0 [of c' n'] by (cases "c' = c \<and> n' = n") simp_all
  show "k_wf C k'"
  proof (rule k_wfI)
    fix c' n'
    have ne: "s \<noteq> td" if "s \<in> q_elems k' c' n'" for s using that e [of c' n'] by simp
    have "runq_wf C (k_td k) (tdq_rq n' (k_tdq k' c'))"
      using rq'(1) k_wfD(1) [OF wf] by (cases "c' = c \<and> n' = n") (simp_all add: q)
    then show "runq_wf C (k_td k') (tdq_rq n' (k_tdq k' c'))"
      by (rule runq_wf_cong) (use ne in \<open>simp add: q_elems_def t\<close>)
    fix s assume s: "s \<in> q_elems k' c' n'"
    then have "s \<in> q_elems k c' n'" using e [of c' n'] by simp
    then show "ts_runq (k_td k' s) = Some (c', n')" "td_state (k_td k' s) = TDS_RUNQ"
      "prio_floor C n' \<le> uint (td_priority (k_td k' s))"
      using ne [OF s] k_wfD(2,3,7) [OF wf, of s c' n'] by (simp_all add: t)
  qed (use k_wfD(4) [OF wf] i in \<open>simp_all\<close>)
qed


subsection \<open>Adding a thread\<close>

lemma runq_wf_bits_queues:
  assumes "rq_bits rq' = rq_bits rq" "rq_queues rq' = rq_queues rq"
  shows "runq_wf C ths rq' = runq_wf C ths rq" "rq_elems rq' = rq_elems rq"
  using assms(2) by (simp_all add: runq_wf_def rq_level_def rq_elems_def marked_cong [of rq' rq, OF assms(1)])

lemma tdq_rq_frame [simp]:
  "tdq_rq n (q\<lparr>tdq_transferable := x\<rparr>) = tdq_rq n q" "tdq_rq n (q\<lparr>tdq_load := i\<rparr>) = tdq_rq n q"
  "tdq_rq n (q\<lparr>tdq_sysload := i\<rparr>) = tdq_rq n q" "tdq_rq n (q\<lparr>tdq_lowpri := p\<rparr>) = tdq_rq n q"
  "tdq_rq n (q\<lparr>tdq_ridx := p\<rparr>) = tdq_rq n q" "tdq_rq n (q\<lparr>tdq_idx := p\<rparr>) = tdq_rq n q"
  "tdq_rq n (q\<lparr>tdq_switchcnt := i\<rparr>) = tdq_rq n q" "tdq_rq n (q\<lparr>tdq_oldswitchcnt := i\<rparr>) = tdq_rq n q"
  "tdq_rq n (q\<lparr>tdq_ipipending := b\<rparr>) = tdq_rq n q" "tdq_rq n (q\<lparr>tdq_cpu_idle := b\<rparr>) = tdq_rq n q"
  "tdq_rq n (q\<lparr>tdq_cg := g\<rparr>) = tdq_rq n q"
  by (cases n; simp)+

lemma tdq_rq_timeshare [simp]:
  "tdq_rq n (q\<lparr>tdq_timeshare := rq\<rparr>) = (if n = RQ_timeshare then rq else tdq_rq n q)"
  by (cases n; simp)

lemma tdq_timeshare_pri_less:
  "unat (tdq_ridx q) < 64 \<Longrightarrow> unat (tdq_timeshare_pri C q pri flags) < 64"
  by (simp add: tdq_timeshare_pri_def Let_def unat_of_nat)

lemma k_wf_enqueue:
  assumes wf: "k_wf C k" and new: "unqueued k td" and mem: "td_inmem (k_td k) td" and p: "pri < 64"
    and q: "\<And>c' n'. tdq_rq n' (k_tdq k' c') = (if c' = c \<and> n' = n then rq' else tdq_rq n' (k_tdq k c'))"
    and rq': "rq_bits rq' = rq_bits (enqueued C (tdq_rq n (k_tdq k c)) td pri flags)"
      "rq_queues rq' = rq_queues (enqueued C (tdq_rq n (k_tdq k c)) td pri flags)"
    and i: "\<And>c. tdq_idx (k_tdq k' c) = tdq_idx (k_tdq k c)" "\<And>c. tdq_ridx (k_tdq k' c) = tdq_ridx (k_tdq k c)"
    and t: "\<And>t. t \<noteq> td \<Longrightarrow> k_td k' t = k_td k t"
    and td: "ts_runq (k_td k' td) = Some (c, n)" "td_state (k_td k' td) = TDS_RUNQ"
      "unat (td_rqindex (k_td k' td)) = pri" "td_flags (k_td k' td) = td_flags (k_td k td)"
      "prio_floor C n \<le> uint (td_priority (k_td k' td))"
  shows "k_wf C k'" "q_elems k' c' n' = (if c' = c \<and> n' = n then insert td (q_elems k c n) else q_elems k c' n')"
proof -
  have "td \<notin> rq_elems (tdq_rq n (k_tdq k c))" using new by (simp add: unqueued_def q_elems_def)
  note e = enqueued_wf [OF k_wfD(1) [OF wf] this p mem t td(3,4), where flags = flags, folded q_elems_def]
  note e' = e [unfolded q_elems_def, folded runq_wf_bits_queues [OF rq']]
  show "k_wf C k'" "q_elems k' c' n' = (if c' = c \<and> n' = n then insert td (q_elems k c n) else q_elems k c' n')"
    using k_wf_join [OF wf new q i t e'(1) _ td(1,2,5)] e'(2) by (simp_all add: q_elems_def)
qed

text \<open>The queue that a thread's priority and user call for.\<close>

definition queue_of :: "'a kconf_scheme \<Rightarrow> thread \<Rightarrow> rqname" where
  "queue_of C th =
     (if uint (td_priority th) < PRI_MIN_BATCH C then RQ_realtime
      else if uint (td_priority th) \<le> PRI_MAX_BATCH C then
        (if getuid C (td_proc th) \<noteq> 0 then RQ_lottery else RQ_timeshare)
      else RQ_idle)"

lemma tdq_ready_frame [simp]:
  "tdq_rq n (k_tdq (tdq_ready c td k) c') = tdq_rq n (k_tdq k c')"
  "tdq_realtime (k_tdq (tdq_ready c td k) c') = tdq_realtime (k_tdq k c')"
  "tdq_timeshare (k_tdq (tdq_ready c td k) c') = tdq_timeshare (k_tdq k c')"
  "tdq_lottery (k_tdq (tdq_ready c td k) c') = tdq_lottery (k_tdq k c')"
  "tdq_idle (k_tdq (tdq_ready c td k) c') = tdq_idle (k_tdq k c')"
  "tdq_idx (k_tdq (tdq_ready c td k) c') = tdq_idx (k_tdq k c')"
  "tdq_ridx (k_tdq (tdq_ready c td k) c') = tdq_ridx (k_tdq k c')"
  "tdq_load (k_tdq (tdq_ready c td k) c') = tdq_load (k_tdq k c')"
  "tdq_sysload (k_tdq (tdq_ready c td k) c') = tdq_sysload (k_tdq k c')"
  "tdq_lowpri (k_tdq (tdq_ready c td k) c') = tdq_lowpri (k_tdq k c')"
  "t \<noteq> td \<Longrightarrow> k_td (tdq_ready c td k) t = k_td k t"
  "td_state (k_td (tdq_ready c td k) td) = TDS_RUNQ"
  "td_flags (k_td (tdq_ready c td k) td) = td_flags (k_td k td)"
  "td_proc (k_td (tdq_ready c td k) td) = td_proc (k_td k td)"
  "td_priority (k_td (tdq_ready c td k) td) = td_priority (k_td k td)"
  "td_pinned (k_td (tdq_ready c td k) td) = td_pinned (k_td k td)"
  "k_proc (tdq_ready c td k) = k_proc k"
  by (simp_all add: tdq_ready_def Let_def)

text \<open>The four ways through the addition.\<close>

lemma tdq_runq_add_eq:
  "tdq_runq_add C c td flags k =
    (let k2 = tdq_ready c td k; pri = td_priority (k_td k td); n = queue_of C (k_td k td);
         p = (if n = RQ_lottery then 0 else if n = RQ_timeshare then tdq_timeshare_pri C (k_tdq k2 c) pri flags
              else of_nat (unat pri div 4));
         q = enqueued C (tdq_rq n (k_tdq k c)) td (unat p) flags;
         th0 = (if n = RQ_lottery \<or> n = RQ_timeshare then (k_td k2 td)\<lparr>td_retval0 := getuid C (td_proc (k_td k td))\<rparr>
                else k_td k2 td);
         th = th0\<lparr>ts_runq := Some (c, n), td_rqindex := p\<rparr>;
         w = nice_tickets (td_nice k td)
     in if n = RQ_timeshare \<and> \<not> unat p < 64 then Inl (Panic ''runq_add_pri: out of range'')
        else Inr (upd_tdq c (set_tdq_rq n (if n = RQ_lottery then lottery_joined w q else q))
          (k2\<lparr>k_td := (k_td k2)(td := (if n = RQ_lottery then th\<lparr>td_tickets := w\<rparr> else th))\<rparr>)))"
proof -
  consider (rt) "uint (td_priority (k_td k td)) < PRI_MIN_BATCH C"
    | (ba) "\<not> uint (td_priority (k_td k td)) < PRI_MIN_BATCH C" "uint (td_priority (k_td k td)) \<le> PRI_MAX_BATCH C"
    | (id) "\<not> uint (td_priority (k_td k td)) < PRI_MIN_BATCH C" "\<not> uint (td_priority (k_td k td)) \<le> PRI_MAX_BATCH C" by blast
  then show ?thesis
  proof cases
    case rt
    then show ?thesis
      by (simp add: tdq_runq_add_def Let_def queue_of_def runq_add_eq upd_th_def upd_td_def)
  next
    case ba
    then show ?thesis
      by (simp add: tdq_runq_add_def Let_def queue_of_def runq_add_pri_eq tdq_lottery_add_eq
        upd_th_def upd_td_def td_nice_def)
  next
    case id
    then show ?thesis 
      by (simp add: tdq_runq_add_def Let_def queue_of_def runq_add_eq upd_th_def upd_td_def)
  qed
qed


lemma kconf_ok_idle: "kconf_ok C \<Longrightarrow> PRI_MIN_IDLE C = PRI_MAX_TIMESHARE C + 1"
  by (simp add: kconf_ok_def)


lemma tdq_runq_add_ok:
  assumes C: "kconf_ok C" and wf: "k_wf C k" and new: "unqueued k td" and mem: "td_inmem (k_td k) td"
  defines "n \<equiv> queue_of C (k_td k td)"
  shows "\<exists>k'. tdq_runq_add C c td flags k = Inr k' \<and> k_wf C k' \<and>
    (\<forall>c' n'. q_elems k' c' n' = (if c' = c \<and> n' = n then insert td (q_elems k c n) else q_elems k c' n'))"
proof -
  define p where "p = (if n = RQ_lottery then 0 else if n = RQ_timeshare
      then tdq_timeshare_pri C (k_tdq (tdq_ready c td k) c) (td_priority (k_td k td)) flags
      else of_nat (unat (td_priority (k_td k td)) div 4))"
  have p64: "unat p < 64"
    using tdq_timeshare_pri_less [of "k_tdq (tdq_ready c td k) c" C] k_wfD(5) [OF wf] by (simp add: p_def)
  have fl: "prio_floor C n \<le> uint (td_priority (k_td k td))"
    using kconf_ok_idle [OF C] by (auto simp: n_def queue_of_def PRI_MAX_BATCH_def)
  have fl': "n = RQ_timeshare \<Longrightarrow> PRI_MIN_BATCH C \<le> uint (td_priority (k_td k td))"
      "n = RQ_lottery \<Longrightarrow> PRI_MIN_BATCH C \<le> uint (td_priority (k_td k td))"
    using fl by auto
  have ok: "\<not> (n = RQ_timeshare \<and> \<not> unat p < 64)" using p64 by simp
  note E = k_wf_enqueue [OF wf new mem p64, where c = c and n = n and flags = flags
      and rq' = "let q = enqueued C (tdq_rq n (k_tdq k c)) td (unat p) flags
                 in if n = RQ_lottery then lottery_joined (nice_tickets (td_nice k td)) q else q", unfolded Let_def]
  show ?thesis
    unfolding tdq_runq_add_eq n_def [symmetric] Let_def p_def [symmetric] if_not_P [OF ok]
    by (intro exI conjI allI, rule refl) (rule E; simp add: fl fl')+
qed

subsection \<open>Removing a thread\<close>

text \<open>The state before the thread leaves its queue: no longer counted as one that can move.\<close>

definition tdq_unready :: "cpuid \<Rightarrow> tid \<Rightarrow> kern \<Rightarrow> kern" where
  "tdq_unready c td k =
     (if has_flag (ts_flags (k_td k td)) TSF_XFERABLE then
        upd_th td (\<lambda>t. t\<lparr>ts_flags := clr_flag (ts_flags t) TSF_XFERABLE\<rparr>)
          (upd_tdq c (\<lambda>q. q\<lparr>tdq_transferable := tdq_transferable q - 1\<rparr>) k)
      else k)"

lemma tdq_unready_frame [simp]:
  "tdq_rq n (k_tdq (tdq_unready c td k) c') = tdq_rq n (k_tdq k c')"
  "tdq_timeshare (k_tdq (tdq_unready c td k) c') = tdq_timeshare (k_tdq k c')"
  "tdq_idx (k_tdq (tdq_unready c td k) c') = tdq_idx (k_tdq k c')"
  "tdq_ridx (k_tdq (tdq_unready c td k) c') = tdq_ridx (k_tdq k c')"
  "tdq_load (k_tdq (tdq_unready c td k) c') = tdq_load (k_tdq k c')"
  "tdq_sysload (k_tdq (tdq_unready c td k) c') = tdq_sysload (k_tdq k c')"
  "tdq_lowpri (k_tdq (tdq_unready c td k) c') = tdq_lowpri (k_tdq k c')"
  "k_td (tdq_unready c td k) t = (if t = td then (k_td k td)\<lparr>ts_flags := clr_flag (ts_flags (k_td k td)) TSF_XFERABLE\<rparr> else k_td k t)"
  "k_proc (tdq_unready c td k) = k_proc k" "k_cur (tdq_unready c td k) = k_cur k"
  by (simp_all add: tdq_unready_def clr_flag_id)


lemma mod64_word [simp]: "unat (of_nat (x mod 64) :: u_char) = x mod 64" "unat (of_nat (Suc x mod 64) :: u_char) = Suc x mod 64"
  by (simp_all add: unat_of_nat)

lemma tdq_ridx_id: "tdq_ridx q = r \<Longrightarrow> q\<lparr>tdq_ridx := r\<rparr> = q" 
  "tdq_ridx q = r \<Longrightarrow> q\<lparr>tdq_timeshare := rq, tdq_ridx := r\<rparr> = q\<lparr>tdq_timeshare := rq\<rparr>"
  by auto

lemma tdq_runq_rem_eq:
  assumes wf: "k_wf C k" and td: "td \<in> q_elems k c' n"
  defines "rq \<equiv> tdq_rq n (k_tdq k c')" and "i \<equiv> td_rqindex (k_td k td)"
  shows "\<exists>r. unat r < 64 \<and> (c' = c \<and> n = RQ_timeshare \<or> r = tdq_ridx (k_tdq k c')) \<and>
    tdq_runq_rem C c td k =
      Inr (upd_tdq c' (\<lambda>q. (set_tdq_rq n (dequeued C rq td (unat i)) q)\<lparr>tdq_ridx := r\<rparr>) (tdq_unready c td k))"
proof -
  let ?k1 = "tdq_unready c td k"
  have el: "td \<in> rq_elems rq" using td by (simp add: q_elems_def rq_def)
  have wf1: "runq_wf C (k_td ?k1) rq"
    unfolding rq_def by (rule runq_wf_cong [OF k_wfD(1) [OF wf]]) simp
  have i1: "td_rqindex (k_td ?k1 td) = i" by (simp add: i_def)
  note R = runq_remove_idx_eq [OF wf1 el, unfolded i1]
  have un: "tdq_runq_rem C c td k =
      (let q = k_tdq ?k1 c
       in if c' = c \<and> n = RQ_timeshare then
            (if tdq_idx q \<noteq> tdq_ridx q then
               rbind (runq_remove_idx C (k_td ?k1) (tdq_timeshare q) td (Some (tdq_ridx q))) (\<lambda>(rq, idx).
                 Inr (upd_tdq c (\<lambda>q. q\<lparr>tdq_timeshare := rq, tdq_ridx := the idx\<rparr>) ?k1))
             else
               rbind (runq_remove_idx C (k_td ?k1) (tdq_timeshare q) td None) (\<lambda>(rq, _).
                 Inr (upd_tdq c (\<lambda>q. q\<lparr>tdq_timeshare := rq\<rparr>) ?k1)))
          else
            rbind (runq_remove C (k_td ?k1) (tdq_rq n (k_tdq ?k1 c')) td) (\<lambda>rq.
              Inr (upd_tdq c' (set_tdq_rq n rq) ?k1)))"
    using k_wfD(2) [OF wf td] by (simp only: tdq_runq_rem_def tdq_unready_def [symmetric] Let_def option.simps prod.case)
  show ?thesis
  proof (cases "c' = c \<and> n = RQ_timeshare")
    case True
    then have rq: "tdq_timeshare (k_tdq k c) = rq" by (simp add: rq_def)
    let ?r = "if tdq_idx (k_tdq k c) \<noteq> tdq_ridx (k_tdq k c) \<and> remove1 td (rq_level rq (unat i)) = [] \<and> tdq_ridx (k_tdq k c) = i
      then of_nat ((unat i + 1) mod 64) else tdq_ridx (k_tdq k c)"
    have "tdq_runq_rem C c td k = Inr (upd_tdq c' (\<lambda>q. (set_tdq_rq n (dequeued C rq td (unat i)) q)\<lparr>tdq_ridx := ?r\<rparr>) ?k1)"
      using True by (simp add: un Let_def rq R upd_tdq_def tdq_ridx_id)
    moreover have "unat ?r < 64" using k_wfD(5) [OF wf] by simp
    ultimately show ?thesis using True by blast
  next
    case False
    then have "tdq_runq_rem C c td k = Inr (upd_tdq c' (\<lambda>q. (set_tdq_rq n (dequeued C rq td (unat i)) q)\<lparr>tdq_ridx := tdq_ridx (k_tdq k c')\<rparr>) ?k1)"
      unfolding un Let_def if_not_P [OF False]
      by (simp add: runq_remove_def R rq_def [symmetric] upd_tdq_def tdq_ridx_id)
    then show ?thesis using k_wfD(5) [OF wf] by blast
  qed
qed

lemma tdq_runq_rem_ok:
  assumes wf: "k_wf C k" and td: "td \<in> q_elems k c' n"
  shows "\<exists>k'. tdq_runq_rem C c td k = Inr k' \<and> k_wf C k' \<and> (\<forall>d m. q_elems k' d m = q_elems k d m - {td}) \<and>
    (\<forall>t. t \<noteq> td \<longrightarrow> k_td k' t = k_td k t) \<and> (\<exists>f. k_td k' td = (k_td k td)\<lparr>ts_flags := f\<rparr>) \<and>
    (\<forall>d. tdq_load (k_tdq k' d) = tdq_load (k_tdq k d) \<and> tdq_sysload (k_tdq k' d) = tdq_sysload (k_tdq k d) \<and>
       tdq_lowpri (k_tdq k' d) = tdq_lowpri (k_tdq k d))"
proof -
  let ?rq = "tdq_rq n (k_tdq k c')" and ?i = "td_rqindex (k_td k td)"
  obtain r where r: "unat r < 64" "tdq_runq_rem C c td k =
      Inr (upd_tdq c' (\<lambda>q. (set_tdq_rq n (dequeued C ?rq td (unat ?i)) q)\<lparr>tdq_ridx := r\<rparr>) (tdq_unready c td k))"
    using tdq_runq_rem_eq [OF wf td, of c] by blast
  let ?K = "upd_tdq c' (\<lambda>q. (set_tdq_rq n (dequeued C ?rq td (unat ?i)) q)\<lparr>tdq_ridx := r\<rparr>) (tdq_unready c td k)"
  have el: "td \<in> rq_elems ?rq" using td by (simp add: q_elems_def)
  note D = dequeued_wf [OF k_wfD(1) [OF wf] el]
  have L: "k_wf C ?K" "q_elems ?K d m = q_elems k d m - {td}" for d m
    using k_wf_leave [OF wf, where k' = ?K and c = c' and n = n and td = td, OF _ _ _ _ D(1)] D(2) td r(1) k_wfD(5) [OF wf]
    by (simp_all add: q_elems_def)
  show ?thesis
    unfolding r(2) using L by (intro exI [of _ ?K]) auto
qed

subsection \<open>Choosing\<close>

text \<open>
  Choosing a thread changes nothing but the lottery's totals and the random numbers taken.
\<close>

definition k_same :: "kern \<Rightarrow> kern \<Rightarrow> bool" where
  "k_same k k' \<longleftrightarrow> k_td k' = k_td k \<and> k_proc k' = k_proc k \<and> k_cur k' = k_cur k \<and> k_idle k' = k_idle k \<and>
     (\<forall>c. \<exists>rq. rq_bits rq = rq_bits (tdq_lottery (k_tdq k c)) \<and> rq_queues rq = rq_queues (tdq_lottery (k_tdq k c)) \<and>
        k_tdq k' c = (k_tdq k c)\<lparr>tdq_lottery := rq\<rparr>)"

lemma k_same_refl [simp]: "k_same k k"
  by (auto simp: k_same_def intro!: exI [of _ "tdq_lottery (k_tdq k c)" for c])

lemma k_sameD:
  assumes "k_same k k'"
  shows "k_td k' = k_td k" "k_proc k' = k_proc k" "k_cur k' = k_cur k" "k_idle k' = k_idle k"
    "tdq_load (k_tdq k' c) = tdq_load (k_tdq k c)" "tdq_sysload (k_tdq k' c) = tdq_sysload (k_tdq k c)"
    "tdq_lowpri (k_tdq k' c) = tdq_lowpri (k_tdq k c)" "tdq_idx (k_tdq k' c) = tdq_idx (k_tdq k c)"
    "tdq_ridx (k_tdq k' c) = tdq_ridx (k_tdq k c)" "tdq_transferable (k_tdq k' c) = tdq_transferable (k_tdq k c)"
    "n \<noteq> RQ_lottery \<Longrightarrow> tdq_rq n (k_tdq k' c) = tdq_rq n (k_tdq k c)"
    "rq_bits (tdq_rq n (k_tdq k' c)) = rq_bits (tdq_rq n (k_tdq k c))"
    "rq_queues (tdq_rq n (k_tdq k' c)) = rq_queues (tdq_rq n (k_tdq k c))"
proof -
  show "k_td k' = k_td k" "k_proc k' = k_proc k" "k_cur k' = k_cur k" "k_idle k' = k_idle k"
    using assms by (simp_all add: k_same_def)
  obtain rq where "rq_bits rq = rq_bits (tdq_lottery (k_tdq k c))" "rq_queues rq = rq_queues (tdq_lottery (k_tdq k c))"
      "k_tdq k' c = (k_tdq k c)\<lparr>tdq_lottery := rq\<rparr>"
    using assms unfolding k_same_def by blast
  then show "tdq_load (k_tdq k' c) = tdq_load (k_tdq k c)" "tdq_sysload (k_tdq k' c) = tdq_sysload (k_tdq k c)"
    "tdq_lowpri (k_tdq k' c) = tdq_lowpri (k_tdq k c)" "tdq_idx (k_tdq k' c) = tdq_idx (k_tdq k c)"
    "tdq_ridx (k_tdq k' c) = tdq_ridx (k_tdq k c)" "tdq_transferable (k_tdq k' c) = tdq_transferable (k_tdq k c)"
    "n \<noteq> RQ_lottery \<Longrightarrow> tdq_rq n (k_tdq k' c) = tdq_rq n (k_tdq k c)"
    "rq_bits (tdq_rq n (k_tdq k' c)) = rq_bits (tdq_rq n (k_tdq k c))"
    "rq_queues (tdq_rq n (k_tdq k' c)) = rq_queues (tdq_rq n (k_tdq k c))"
    by (cases n; simp)+
qed

lemma k_same_wf:
  assumes s: "k_same k k'" and wf: "k_wf C k"
  shows "k_wf C k'" "q_elems k' = q_elems k"
proof -
  note S = k_sameD [OF s]
  show e: "q_elems k' = q_elems k" by (simp add: q_elems_def fun_eq_iff runq_wf_bits_queues(2) [OF S(12,13)])
  show "k_wf C k'"
    using k_wfD [OF wf] by (intro k_wfI) (simp_all add: S e runq_wf_bits_queues(1) [OF S(12,13)])
qed

lemma lotteryq_choose_frame:
  assumes "lotteryq_choose r ths rq = Inr (x, rq')"
  shows "rq_bits rq' = rq_bits rq" "rq_queues rq' = rq_queues rq"
    "x = Some t \<Longrightarrow> t \<in> rq_elems rq" "total_proc rq = 0 \<Longrightarrow> x = None" "x = None \<Longrightarrow> rq' = rq"
proof -
  have h: "h = rq_queues rq ! 0 \<and> rq_queues rq \<noteq> []" if "rqhead rq 0 = Inr h" for h
    using that by (auto simp: rqhead_def split: if_splits)
  have e: "t \<in> rq_elems rq" if "t \<in> set (rq_queues rq ! 0)" "rq_queues rq \<noteq> []" for t
    using that by (auto simp: rq_elems_def intro!: bexI [of _ "rq_queues rq ! 0"])
  show "rq_bits rq' = rq_bits rq" "rq_queues rq' = rq_queues rq"
    "x = Some t \<Longrightarrow> t \<in> rq_elems rq" "total_proc rq = 0 \<Longrightarrow> x = None" "x = None \<Longrightarrow> rq' = rq"
    using assms by (auto simp: lotteryq_choose_def dest!: h lottery_scan_member intro: e split: if_splits option.splits)
qed

lemma lottery_stats_frame:
  assumes "tdq_lottery_stats ths rq td = Inr (x, rq')"
  shows "x = Some td" "rq_bits rq' = rq_bits rq" "rq_queues rq' = rq_queues rq"
  using assms by (auto simp: lottery_stats_cases split: if_splits)

lemma k_same_lottery:
  "rq_bits rq = rq_bits (tdq_lottery (k_tdq k c)) \<Longrightarrow> rq_queues rq = rq_queues (tdq_lottery (k_tdq k c)) \<Longrightarrow>
   k_same k (upd_tdq c (set_tdq_rq RQ_lottery rq) (k\<lparr>k_randpos := p\<rparr>))"
  by (auto simp: k_same_def intro: exI [of _ "tdq_lottery (k_tdq k d)" for d])

lemma k_same_trans: "k_same k k1 \<Longrightarrow> k_same k1 k2 \<Longrightarrow> k_same k k2"
proof -
  assume a: "k_same k k1" and b: "k_same k1 k2"
  have "\<exists>rq. rq_bits rq = rq_bits (tdq_lottery (k_tdq k c)) \<and> rq_queues rq = rq_queues (tdq_lottery (k_tdq k c)) \<and>
        k_tdq k2 c = (k_tdq k c)\<lparr>tdq_lottery := rq\<rparr>" for c
  proof -
    obtain r1 where 1: "rq_bits r1 = rq_bits (tdq_lottery (k_tdq k c))" "rq_queues r1 = rq_queues (tdq_lottery (k_tdq k c))"
        "k_tdq k1 c = (k_tdq k c)\<lparr>tdq_lottery := r1\<rparr>" using a unfolding k_same_def by blast
    obtain r2 where 2: "rq_bits r2 = rq_bits (tdq_lottery (k_tdq k1 c))" "rq_queues r2 = rq_queues (tdq_lottery (k_tdq k1 c))"
        "k_tdq k2 c = (k_tdq k1 c)\<lparr>tdq_lottery := r2\<rparr>" using b unfolding k_same_def by blast
    show ?thesis using 1 2 by (intro exI [of _ r2]) simp
  qed
  then show ?thesis using a b by (simp add: k_same_def)
qed

text \<open>The three other queues, as the realtime, timeshare and idle parts of the choice see them.\<close>

lemma choose_linear:
  assumes wf: "k_wf C k" and n: "n = RQ_realtime \<or> n = RQ_idle"
  shows "(runq_choose C (tdq_rq n (k_tdq k c)) = Inr None \<and> q_elems k c n = {}) \<or>
    (\<exists>t \<in> q_elems k c n. runq_choose C (tdq_rq n (k_tdq k c)) = Inr (Some t) \<and>
       (\<forall>u \<in> q_elems k c n. td_rqindex (k_td k t) \<le> td_rqindex (k_td k u)))"
  using runq_choose_cases [OF k_wfD(1) [OF wf], of n c] by (auto simp: q_elems_def)

lemma choose_circular:
  assumes wf: "k_wf C k"
  shows "(runq_choose_from C (tdq_timeshare (k_tdq k c)) (tdq_ridx (k_tdq k c)) = Inr None \<and> q_elems k c RQ_timeshare = {}) \<or>
    (\<exists>t \<in> q_elems k c RQ_timeshare. runq_choose_from C (tdq_timeshare (k_tdq k c)) (tdq_ridx (k_tdq k c)) = Inr (Some t) \<and>
       (\<forall>u \<in> q_elems k c RQ_timeshare.
          (unat (td_rqindex (k_td k t)) + 64 - unat (tdq_ridx (k_tdq k c))) mod 64
          \<le> (unat (td_rqindex (k_td k u)) + 64 - unat (tdq_ridx (k_tdq k c))) mod 64))"
  using runq_choose_from_cases [OF k_wfD(1) [OF wf, of RQ_timeshare c] k_wfD(5) [OF wf, of c]]
  by (auto simp: q_elems_def)

lemma tdq_choose_realtime:
  assumes "k_wf C k" "q_elems k c RQ_realtime \<noteq> {}"
  shows "\<exists>t \<in> q_elems k c RQ_realtime. tdq_choose C c k = Inr (Some t, k) \<and>
    (\<forall>u \<in> q_elems k c RQ_realtime. td_rqindex (k_td k t) \<le> td_rqindex (k_td k u))"
  using choose_linear [OF assms(1), of RQ_realtime c] assms(2) by (auto simp: tdq_choose_def Let_def)

lemma tdq_choose_timeshare:
  assumes "k_wf C k" "q_elems k c RQ_realtime = {}" "q_elems k c RQ_timeshare \<noteq> {}"
  shows "\<exists>t \<in> q_elems k c RQ_timeshare. tdq_choose C c k = Inr (Some t, k) \<and>
    (\<forall>u \<in> q_elems k c RQ_timeshare.
          (unat (td_rqindex (k_td k t)) + 64 - unat (tdq_ridx (k_tdq k c))) mod 64
          \<le> (unat (td_rqindex (k_td k u)) + 64 - unat (tdq_ridx (k_tdq k c))) mod 64)"
proof -
  have r: "runq_choose C (tdq_realtime (k_tdq k c)) = Inr None"
    using choose_linear [OF assms(1), of RQ_realtime c] assms(2) by simp
  obtain t where t: "t \<in> q_elems k c RQ_timeshare"
      "runq_choose_from C (tdq_timeshare (k_tdq k c)) (tdq_ridx (k_tdq k c)) = Inr (Some t)"
      "\<forall>u \<in> q_elems k c RQ_timeshare.
          (unat (td_rqindex (k_td k t)) + 64 - unat (tdq_ridx (k_tdq k c))) mod 64
          \<le> (unat (td_rqindex (k_td k u)) + 64 - unat (tdq_ridx (k_tdq k c))) mod 64"
    using choose_circular [OF assms(1), of c] assms(3) by blast
  have "tdq_choose C c k = Inr (Some t, k)"
    using k_wfD(7) [OF assms(1) t(1)] by (simp add: tdq_choose_def Let_def r t(2))
  then show ?thesis using t(1,3) by blast
qed

text \<open>With both empty the lottery is next, and then the idle queue.\<close>

lemma tdq_choose_rest:
  assumes "k_wf C k" "q_elems k c RQ_realtime = {}" "q_elems k c RQ_timeshare = {}"
  shows "tdq_choose C c k =
    (let q = k_tdq k c
     in rbind (lotteryq_choose (next_random k) (k_td k) (tdq_lottery q)) (\<lambda>(td, rq).
          (let k1 = upd_tdq c (set_tdq_rq RQ_lottery rq)
                         (k\<lparr>k_randpos := (if total_proc (tdq_lottery q) \<noteq> 0 then k_randpos k + 1 else k_randpos k)\<rparr>)
           in case td of Some t \<Rightarrow>
                rbind (tdq_lottery_stats (k_td k) rq t) (\<lambda>(td', rq'). Inr (td', upd_tdq c (set_tdq_rq RQ_lottery rq') k1))
              | None \<Rightarrow> rbind (runq_choose C (tdq_idle q)) (\<lambda>td. Inr (td, k1)))))"
proof -
  have r: "runq_choose C (tdq_realtime (k_tdq k c)) = Inr None"
    using choose_linear [OF assms(1), of RQ_realtime c] assms(2) by simp
  have t: "runq_choose_from C (tdq_timeshare (k_tdq k c)) (tdq_ridx (k_tdq k c)) = Inr None"
    using choose_circular [OF assms(1), of c] assms(3) by simp
  have i: "rbind (runq_choose C (tdq_idle (k_tdq k c))) (\<lambda>td. if td \<noteq> None then
       rbind (kassert (uint (td_priority (k_td k (the td))) \<ge> PRI_MIN_IDLE C)
          ''tdq_choose: Invalid priority on idle queue'') (\<lambda>_. Inr (td, k1)) else Inr (None, k1)) =
     rbind (runq_choose C (tdq_idle (k_tdq k c))) (\<lambda>td. Inr (td, k1))" for k1 :: kern
    using choose_linear [OF assms(1), of RQ_idle c] k_wfD(7) [OF assms(1), of _ c RQ_idle] by fastforce
  show ?thesis
  proof (cases "lotteryq_choose (next_random k) (k_td k) (tdq_lottery (k_tdq k c))")
    case (Inr p)
    then obtain x rq where "lotteryq_choose (next_random k) (k_td k) (tdq_lottery (k_tdq k c)) = Inr (x, rq)"
      by (cases p) simp
    then show ?thesis
      unfolding tdq_choose_def Let_def r t by (cases x) (simp_all add: i [simplified])
  qed (simp add: tdq_choose_def r t Let_def)
qed

lemma not_lottery: "n \<noteq> RQ_lottery \<longleftrightarrow> n = RQ_realtime \<or> n = RQ_timeshare \<or> n = RQ_idle"
  by (cases n) simp_all

lemma tdq_choose_ok:
  assumes wf: "k_wf C k" and c: "tdq_choose C c k = Inr (r, k')"
  shows "k_same k k'" "r = Some t \<Longrightarrow> \<exists>n. t \<in> q_elems k c n"
    "r = None \<Longrightarrow> n \<noteq> RQ_lottery \<Longrightarrow> q_elems k c n = {}"
proof -
  have "k_same k k' \<and> (\<forall>t. r = Some t \<longrightarrow> (\<exists>n. t \<in> q_elems k c n)) \<and>
    (r = None \<longrightarrow> (\<forall>n. n \<noteq> RQ_lottery \<longrightarrow> q_elems k c n = {}))"
  proof (cases "q_elems k c RQ_realtime = {} \<and> q_elems k c RQ_timeshare = {}")
    case False
    then obtain n t where "t \<in> q_elems k c n" "tdq_choose C c k = Inr (Some t, k)"
      using tdq_choose_realtime [OF wf, of c] tdq_choose_timeshare [OF wf, of c] by blast
    then show ?thesis using c by auto
  next
    case True
    obtain x rq where x: "lotteryq_choose (next_random k) (k_td k) (tdq_lottery (k_tdq k c)) = Inr (x, rq)"
      using c True by (auto simp: tdq_choose_rest [OF wf] Let_def)
    note X = lotteryq_choose_frame [OF x]
    define k1 where "k1 = upd_tdq c (set_tdq_rq RQ_lottery rq)
        (k\<lparr>k_randpos := (if total_proc (tdq_lottery (k_tdq k c)) \<noteq> 0 then k_randpos k + 1 else k_randpos k)\<rparr>)"
    have s1: "k_same k k1" unfolding k1_def by (rule k_same_lottery) (rule X)+
    note c' = c [unfolded tdq_choose_rest [OF wf conjunct1 [OF True] conjunct2 [OF True]] Let_def x rbind_simps prod.case,
        folded k1_def]
    show ?thesis
    proof (cases x)
      case None
      obtain td where "runq_choose C (tdq_idle (k_tdq k c)) = Inr td" "r = td" "k' = k1"
        using c' None by auto
      then show ?thesis
        using choose_linear [OF wf, of RQ_idle c] True s1 by (cases r) (auto simp: not_lottery)
    next
      case (Some t)
      obtain td' rq' where st: "tdq_lottery_stats (k_td k) rq t = Inr (td', rq')" "r = td'"
          "k' = upd_tdq c (set_tdq_rq RQ_lottery rq') k1"
        using c' Some by auto
      note L = lottery_stats_frame [OF st(1)]
      have l1: "tdq_lottery (k_tdq k1 c) = rq" by (simp add: k1_def)
      have "k_same k1 (upd_tdq c (set_tdq_rq RQ_lottery rq') (k1\<lparr>k_randpos := k_randpos k1\<rparr>))"
        using L(2,3) by (intro k_same_lottery) (simp_all add: l1)
      then have "k_same k k'" using s1 k_same_trans st(3) by simp
      moreover have "t \<in> q_elems k c RQ_lottery" using X(3) Some by (simp add: q_elems_def)
      ultimately show ?thesis using L(1) st(2) by auto
    qed
  qed
  then show "k_same k k'" "r = Some t \<Longrightarrow> \<exists>n. t \<in> q_elems k c n"
    "r = None \<Longrightarrow> n \<noteq> RQ_lottery \<Longrightarrow> q_elems k c n = {}" by blast+
qed

text \<open>
  The draw, when its total is not 0: on a total of no tickets random() is reduced modulo 0; a
  winner that is found is returned unless looking for the new extremes reads NULL; without one the
  idle queue is next.
\<close>

definition drawn :: "kern \<Rightarrow> cpuid \<Rightarrow> tid option" where
  "drawn k c = (let rq = tdq_lottery (k_tdq k c)
     in if total_proc rq = 0 then None else lottery_scan (k_td k) (next_random k mod num_tickets rq + 1) 0 (rq_level rq 0))"

definition after_draw :: "kern \<Rightarrow> cpuid \<Rightarrow> kern" where
  "after_draw k c = (if total_proc (tdq_lottery (k_tdq k c)) = 0 then k else k\<lparr>k_randpos := k_randpos k + 1\<rparr>)"

lemma tdq_choose_draw:
  assumes wf: "k_wf C k" and e: "q_elems k c RQ_realtime = {}" "q_elems k c RQ_timeshare = {}"
  defines "rq \<equiv> tdq_lottery (k_tdq k c)"
  shows "total_proc rq \<noteq> 0 \<Longrightarrow> num_tickets rq = 0 \<Longrightarrow> tdq_choose C c k = Inl (DivByZero ''rng'')"
    "total_proc rq = 0 \<or> num_tickets rq \<noteq> 0 \<Longrightarrow> drawn k c = None \<Longrightarrow>
      tdq_choose C c k = rbind (runq_choose C (tdq_idle (k_tdq k c))) (\<lambda>td. Inr (td, after_draw k c))"
    "num_tickets rq \<noteq> 0 \<Longrightarrow> drawn k c = Some t \<Longrightarrow>
      t \<in> q_elems k c RQ_lottery \<and>
      (if total_proc rq \<noteq> 1 \<and> (td_tickets (k_td k t) = max_tickets rq \<or> max_tickets rq = 0 \<or> td_tickets (k_td k t) = min_tickets rq)
       then tdq_choose C c k = Inl (NullDeref ''td->td_tickets'') else (\<exists>k'. tdq_choose C c k = Inr (Some t, k')))"
proof -
  have len: "length (rq_queues rq) = 64" using runq_wfD(2) [OF k_wfD(1) [OF wf, of RQ_lottery c]] by (simp add: rq_def)
  have h: "rqhead rq 0 = Inr (rq_level rq 0)" using rqhead_level [of 0, OF _ len] by simp
  note T = tdq_choose_rest [OF wf e, folded rq_def]
  show "total_proc rq \<noteq> 0 \<Longrightarrow> num_tickets rq = 0 \<Longrightarrow> tdq_choose C c k = Inl (DivByZero ''rng'')"
    by (simp add: T Let_def rq_def [symmetric] lotteryq_choose_def h rng_def)
  have k: "upd_tdq c (set_tdq_rq RQ_lottery rq) (k\<lparr>k_randpos := r\<rparr>) = k\<lparr>k_randpos := r\<rparr>" "upd_tdq c (set_tdq_rq RQ_lottery rq) k = k" for r
    by (simp_all add: upd_tdq_def rq_def)
  show "total_proc rq = 0 \<or> num_tickets rq \<noteq> 0 \<Longrightarrow> drawn k c = None \<Longrightarrow>
      tdq_choose C c k = rbind (runq_choose C (tdq_idle (k_tdq k c))) (\<lambda>td. Inr (td, after_draw k c))"
    by (cases "total_proc rq = 0")
      (simp_all add: T Let_def rq_def [symmetric] lotteryq_choose_def h rng_def drawn_def after_draw_def k)
  show "t \<in> q_elems k c RQ_lottery \<and>
      (if total_proc rq \<noteq> 1 \<and> (td_tickets (k_td k t) = max_tickets rq \<or> max_tickets rq = 0 \<or> td_tickets (k_td k t) = min_tickets rq)
       then tdq_choose C c k = Inl (NullDeref ''td->td_tickets'') else (\<exists>k'. tdq_choose C c k = Inr (Some t, k')))"
    if n: "num_tickets rq \<noteq> 0" and d: "drawn k c = Some t"
  proof -
    have tp: "total_proc rq \<noteq> 0" and sc: "lottery_scan (k_td k) (next_random k mod num_tickets rq + 1) 0 (rq_level rq 0) = Some t"
      using d by (auto simp: drawn_def Let_def rq_def [symmetric] split: if_splits)
    have l: "lotteryq_choose (next_random k) (k_td k) rq =
        Inr (Some t, rq\<lparr>total_proc := total_proc rq - 1, num_tickets := num_tickets rq - td_tickets (k_td k t)\<rparr>)"
      using tp n by (simp add: lotteryq_choose_def h rng_def sc)
    have "t \<in> q_elems k c RQ_lottery" using lotteryq_choose_frame(3) [OF l] by (simp add: q_elems_def rq_def)
    then show ?thesis using len by (auto simp: T Let_def rq_def [symmetric] l lottery_stats_cases)
  qed
qed

text \<open>With the total of lottery threads at 0 the choice never fails.\<close>

definition no_draw :: "kern \<Rightarrow> cpuid \<Rightarrow> bool" where
  "no_draw k c \<longleftrightarrow> total_proc (tdq_lottery (k_tdq k c)) = 0"

lemma tdq_choose_no_draw:
  assumes wf: "k_wf C k" and nl: "no_draw k c"
  shows "\<exists>r. tdq_choose C c k = Inr (r, k)"
proof -
  have l: "lotteryq_choose (next_random k) (k_td k) (tdq_lottery (k_tdq k c)) = Inr (None, tdq_lottery (k_tdq k c))"
    using nl by (simp add: no_draw_def lotteryq_choose_def)
  have k: "upd_tdq c (set_tdq_rq RQ_lottery (tdq_lottery (k_tdq k c))) k = k" by (simp add: upd_tdq_def)
  have i: "\<exists>r. runq_choose C (tdq_idle (k_tdq k c)) = Inr r"
    using choose_linear [OF wf, of RQ_idle c] by auto
  show ?thesis
  proof (cases "q_elems k c RQ_realtime = {} \<and> q_elems k c RQ_timeshare = {}")
    case True
    then show ?thesis using i nl by (simp add: tdq_choose_rest [OF wf] Let_def l k no_draw_def) auto
  next
    case False
    then show ?thesis using tdq_choose_realtime [OF wf, of c] tdq_choose_timeshare [OF wf, of c] by blast
  qed
qed

lemma tdq_choose_idle:
  assumes wf: "k_wf C k" and nl: "no_draw k c" and e: "q_elems k c RQ_realtime = {}" "q_elems k c RQ_timeshare = {}"
  shows "tdq_choose C c k = rbind (runq_choose C (tdq_idle (k_tdq k c))) (\<lambda>td. Inr (td, k))"
proof -
  have l: "lotteryq_choose (next_random k) (k_td k) (tdq_lottery (k_tdq k c)) = Inr (None, tdq_lottery (k_tdq k c))"
    using nl by (simp add: no_draw_def lotteryq_choose_def)
  have k: "upd_tdq c (set_tdq_rq RQ_lottery (tdq_lottery (k_tdq k c))) k = k" by (simp add: upd_tdq_def)
  show ?thesis using nl by (simp add: tdq_choose_rest [OF wf e] Let_def l k no_draw_def)
qed

subsection \<open>Choosing the thread to run\<close>

text \<open>The chosen thread leaves its queue; without one the idle thread of the CPU runs.\<close>

lemma sched_choose_ok:
  assumes wf: "k_wf C k" and c: "sched_choose C self k = Inr (t, k')"
  shows "k_wf C k' \<and>
    ((\<exists>n. t \<in> q_elems k self n) \<and> (\<forall>d m. q_elems k' d m = q_elems k d m - {t}) \<and>
       tdq_lowpri (k_tdq k' self) = td_priority (k_td k t)
     \<or> t = k_idle k self \<and> q_elems k' = q_elems k \<and> (\<forall>n. n \<noteq> RQ_lottery \<longrightarrow> q_elems k self n = {}))"
proof -
  obtain r k1 where 1: "tdq_choose C self k = Inr (r, k1)"
    using c by (auto simp: sched_choose_def)
  note T = tdq_choose_ok [OF wf 1] and S = k_sameD [OF tdq_choose_ok(1) [OF wf 1]]
  note W = k_same_wf [OF T(1) wf]
  have low: "k_wf C (upd_tdq d (\<lambda>q. q\<lparr>tdq_lowpri := p\<rparr>) k2)" "q_elems (upd_tdq d (\<lambda>q. q\<lparr>tdq_lowpri := p\<rparr>) k2) = q_elems k2"
    if "k_wf C k2" for d p k2
    by (rule k_wf_frame [OF that]; simp)+
  show ?thesis
  proof (cases r)
    case None
    then have "t = k_idle k self" "k' = upd_tdq self (\<lambda>q. q\<lparr>tdq_lowpri := of_int (PRI_MAX_IDLE C)\<rparr>) k1"
      using c 1 by (simp_all add: sched_choose_def S)
    then show ?thesis using low [OF W(1)] W(2) T(3) None by simp
  next
    case (Some u)
    obtain n where n: "u \<in> q_elems k1 self n" using T(2) Some W(2) by auto
    obtain k2 where k2: "tdq_runq_rem C self u k1 = Inr k2" "k_wf C k2" "\<And>d m. q_elems k2 d m = q_elems k1 d m - {u}"
        "\<exists>f. k_td k2 u = (k_td k1 u)\<lparr>ts_flags := f\<rparr>"
      using tdq_runq_rem_ok [OF W(1) n, of self] by blast
    have k': "t = u" "k' = upd_tdq self (\<lambda>q. q\<lparr>tdq_lowpri := td_priority (k_td k2 u)\<rparr>) k2"
      using c 1 Some k2(1) by (auto simp: sched_choose_def)
    have "td_priority (k_td k2 u) = td_priority (k_td k u)" using k2(4) S(1) by auto
    then show ?thesis using low [OF k2(2)] k2(3) W(2) k' n by auto
  qed
qed

subsection \<open>Stealing from a linear queue\<close>

lemma find_append: "find P (xs @ ys) = (case find P xs of None \<Rightarrow> find P ys | Some x \<Rightarrow> Some x)"
  by (induction xs) auto

lemma test_bit_and: "w AND push_bit b 1 = 0 \<longleftrightarrow> \<not> bit w b" for w :: u_long
  using and_exp_eq_0_iff_not_bit [of w b] by (simp add: push_bit_eq_mult)

lemma concat_block: "concat (map (\<lambda>b. L (b + n * B)) [j..<B]) = concat (map L [n * B + j..<n * B + B])"
  by (rule arg_cong [of _ _ concat], rule nth_equalityI) (simp_all add: add_ac)

lemma concat_blocks_from:
  "m \<le> n \<Longrightarrow> concat (map (\<lambda>i. concat (map (\<lambda>b. L (b + i * B)) [0..<B])) [m..<n]) = concat (map L [m * B..<n * B])"
proof (induction n)
  case (Suc n)
  show ?case
  proof (cases "m = Suc n")
    case False
    then have m: "m \<le> n" using Suc.prems by simp
    then have "m * B \<le> n * B" by simp
    then have "[m * B..<Suc n * B] = [m * B..<n * B] @ [n * B..<n * B + B]"
      using upt_add_eq_append [of "m * B" "n * B" B] by (simp add: add.commute)
    then show ?thesis using Suc.IH [OF m] m concat_block [of L n B 0] by (simp del: mult_Suc)
  qed simp
qed simp

lemmas concat_blocks = concat_blocks_from [of 0, simplified]

text \<open>What the status bits say about the lists, in the form that the loops test it.\<close>

lemma word_bit_level:
  assumes wf: "runq_wf C ths rq" and i: "i < RQB_LEN C" and b: "b < RQB_BPW C"
  shows "rq_bits rq ! i AND push_bit b 1 = 0 \<longleftrightarrow> rq_level rq (b + i * 2 ^ RQB_L2BPW C) = []"
    "b + i * 2 ^ RQB_L2BPW C < 64"
proof -
  have ok: "rqb_ok C" using runq_wfD(1) [OF wf] by (simp add: bits_wf_def)
  note Q = queue_of_bit [OF ok b i]
  show "b + i * 2 ^ RQB_L2BPW C < 64" by (rule Q)
  show "rq_bits rq ! i AND push_bit b 1 = 0 \<longleftrightarrow> rq_level rq (b + i * 2 ^ RQB_L2BPW C) = []"
    using runq_wfD(3) [OF wf, of "b + i * 2 ^ RQB_L2BPW C"] Q
    unfolding test_bit_and by (simp add: marked_def rqb_okD(1) [OF ok])
qed

lemma zero_word_levels:
  assumes wf: "runq_wf C ths rq" and i: "i < RQB_LEN C" and z: "rq_bits rq ! i = 0" and bs: "set bs \<subseteq> {..<RQB_BPW C}"
  shows "concat (map (\<lambda>b. rq_level rq (b + i * 2 ^ RQB_L2BPW C)) bs) = []"
  using word_bit_level(1) [OF wf i] bs by (auto simp: z)

lemma steal_all_bits_find:
  assumes wf: "runq_wf C ths' rq" and w: "w < RQB_LEN C"
  shows "set bs \<subseteq> {..<RQB_BPW C} \<Longrightarrow> steal_all_bits C ths rq cpu w bs =
    find (can_steal ths cpu) (concat (map (\<lambda>b. rq_level rq (b + w * 2 ^ RQB_L2BPW C)) bs))"
proof (induction bs)
  case (Cons b bs)
  then show ?case
    using word_bit_level(1) [OF wf w, of b]
    by (simp add: find_append rq_level_def split: option.split)
qed simp

lemma steal_all_words_find:
  assumes wf: "runq_wf C ths' rq"
  shows "set ws \<subseteq> {..<RQB_LEN C} \<Longrightarrow> steal_all_words C ths rq cpu ws =
    find (can_steal ths cpu) (concat (map (\<lambda>w. concat (map (\<lambda>b. rq_level rq (b + w * 2 ^ RQB_L2BPW C)) [0..<RQB_BPW C])) ws))"
proof (induction ws)
  case (Cons w ws)
  then have w: "w < RQB_LEN C" by simp
  have bs: "set [0..<RQB_BPW C] \<subseteq> {..<RQB_BPW C}" by auto
  show ?case
  proof (cases "rq_bits rq ! w = 0")
    case True
    then show ?thesis using Cons by (simp add: zero_word_levels [OF wf w True bs] del: concat_eq_Nil_conv)
  next
    case False
    then show ?thesis
      using Cons steal_all_bits_find [OF wf w bs] by (simp add: find_append split: option.split)
  qed
qed simp

lemma levels_all:
  assumes "length (rq_queues rq) = 64"
  shows "concat (map (rq_level rq) [0..<64]) = concat (rq_queues rq)"
  using assms map_nth [of "rq_queues rq"] by (simp add: rq_level_def [abs_def])

lemma runq_steal_find:
  assumes wf: "runq_wf C ths' rq"
  shows "runq_steal C ths rq cpu = find (can_steal ths cpu) (concat (rq_queues rq))"
proof -
  have ok: "rqb_ok C" using runq_wfD(1) [OF wf] by (simp add: bits_wf_def)
  then have n: "RQB_LEN C * RQB_BPW C = 64" unfolding rqb_ok_def rqb_ctassert_def by (metis RQ_NQS_def mult.commute)
  have "runq_steal C ths rq cpu = find (can_steal ths cpu)
     (concat (map (\<lambda>w. concat (map (\<lambda>b. rq_level rq (b + w * 2 ^ RQB_L2BPW C)) [0..<RQB_BPW C])) [0..<RQB_LEN C]))"
    unfolding runq_steal_def by (rule steal_all_words_find [OF wf]) auto
  also have "\<dots> = find (can_steal ths cpu) (concat (map (rq_level rq) [0..<64]))"
    unfolding rqb_okD(6) [OF ok, symmetric] concat_blocks n ..
  finally show ?thesis by (simp add: levels_all [OF runq_wfD(2) [OF wf]])
qed

subsection \<open>Stealing from the circular queue\<close>

lemma steal_list_append:
  "steal_list ths cpu f (xs @ ys) =
    (case steal_list ths cpu f xs of (Some t, f') \<Rightarrow> (Some t, f') | (None, f') \<Rightarrow> steal_list ths cpu f' ys)"
  by (induction xs arbitrary: f) auto

lemma steal_bits_list:
  assumes wf: "runq_wf C ths' rq" and i: "i < RQB_LEN C"
  shows "set bs \<subseteq> {..<RQB_BPW C} \<Longrightarrow> steal_bits C ths rq cpu i f bs =
    steal_list ths cpu f (concat (map (\<lambda>b. rq_level rq (b + i * 2 ^ RQB_L2BPW C)) bs))"
proof (induction bs arbitrary: f)
  case (Cons b bs)
  then show ?case
    using word_bit_level(1) [OF wf i, of b]
    by (simp add: steal_list_append rq_level_def split: option.split prod.split)
qed simp

text \<open>The bits below the least set bit have empty lists.\<close>

lemma levels_from_ffs:
  assumes wf: "runq_wf C ths rq" and i: "i < RQB_LEN C" and nz: "rq_bits rq ! i \<noteq> 0"
  shows "concat (map (\<lambda>b. rq_level rq (b + i * 2 ^ RQB_L2BPW C)) [nat (RQB_FFS C (rq_bits rq ! i))..<RQB_BPW C]) =
    concat (map (\<lambda>b. rq_level rq (b + i * 2 ^ RQB_L2BPW C)) [0..<RQB_BPW C])"
proof -
  have bw: "bits_wf C rq" by (rule runq_wfD(1) [OF wf])
  then have ok: "rqb_ok C" by (simp add: bits_wf_def)
  obtain j where j: "RQB_FFS C (rq_bits rq ! i) = int j" "bit (rq_bits rq ! i) j" "\<And>n. n < j \<Longrightarrow> \<not> bit (rq_bits rq ! i) n"
    using rqb_ffs [OF ok nz] by blast
  have jb: "j < RQB_BPW C" using bw i j(2) by (simp add: bits_wf_def)
  have "rq_level rq (b + i * 2 ^ RQB_L2BPW C) = []" if "b < j" for b
    using that jb j(3) [OF that] word_bit_level(1) [OF wf i, of b] test_bit_and by simp
  then have "concat (map (\<lambda>b. rq_level rq (b + i * 2 ^ RQB_L2BPW C)) [0..<j]) = []" by simp
  moreover have "[0..<RQB_BPW C] = [0..<j] @ [j..<RQB_BPW C]" using jb upt_add_eq_append [of 0 j "RQB_BPW C - j"] by simp
  ultimately show ?thesis by (simp add: j(1) del: concat_eq_Nil_conv)
qed

lemma steal_words_list:
  assumes wf: "runq_wf C ths' rq" and b0: "b0 < RQB_BPW C"
  shows "set (w # ws) \<subseteq> {..<RQB_LEN C} \<Longrightarrow> steal_words C ths rq cpu b0 f (w # ws) =
    steal_list ths cpu f (concat (map (\<lambda>b. rq_level rq (b + w * 2 ^ RQB_L2BPW C)) [b0..<RQB_BPW C]) @
      concat (map (\<lambda>w. concat (map (\<lambda>b. rq_level rq (b + w * 2 ^ RQB_L2BPW C)) [0..<RQB_BPW C])) ws))"
  using b0
proof (induction ws arbitrary: w f b0)
  case Nil
  then have w: "w < RQB_LEN C" by simp
  have bs: "set [n..<RQB_BPW C] \<subseteq> {..<RQB_BPW C}" for n by auto
  show ?case
    using zero_word_levels [OF wf w _ bs, of b0] levels_from_ffs [OF wf w]
    by (auto simp: steal_bits_list [OF wf w bs] Let_def simp del: concat_eq_Nil_conv split: option.split prod.split)
next
  case (Cons v ws)
  then have w: "w < RQB_LEN C" by simp
  have bs: "set [n..<RQB_BPW C] \<subseteq> {..<RQB_BPW C}" for n by auto
  have z: "0 < RQB_BPW C" using Cons.prems(2) by simp
  have IH: "steal_words C ths rq cpu 0 f (v # ws) = steal_list ths cpu f
      (concat (map (\<lambda>w. concat (map (\<lambda>b. rq_level rq (b + w * 2 ^ RQB_L2BPW C)) [0..<RQB_BPW C])) (v # ws)))" for f
    using Cons.IH [OF _ z, of v f] Cons.prems(1) by simp
  show ?case
    unfolding steal_words.simps(2) [of _ _ _ _ _ _ w "v # ws"] IH steal_list_append
    using zero_word_levels [OF wf w _ bs, of b0] levels_from_ffs [OF wf w]
    by (auto simp: steal_bits_list [OF wf w bs] Let_def steal_list_append simp del: concat_eq_Nil_conv split: option.split prod.split)
qed


text \<open>The threads in the order in which the two rounds meet them.\<close>

definition steal_order :: "runq \<Rightarrow> u_char \<Rightarrow> tid list" where
  "steal_order rq start = concat (map (rq_level rq) [unat start..<RQ_NQS]) @
     (if start \<noteq> 0 then concat (rq_queues rq) else [])"

lemma runq_steal_from_list:
  assumes wf: "runq_wf C ths' rq" and s: "unat start < 64"
  shows "runq_steal_from C ths rq cpu start =
    (case steal_list ths cpu None (steal_order rq start) of
       (Some td, _) \<Rightarrow> Some td
     | (None, Some f) \<Rightarrow> (if can_steal ths cpu f then Some f else None)
     | (None, None) \<Rightarrow> None)"
proof -
  have ok: "rqb_ok C" using runq_wfD(1) [OF wf] by (simp add: bits_wf_def)
  note K = rqb_okD [OF ok]
  let ?B = "RQB_BPW C" and ?n = "RQB_LEN C" and ?s = "unat start"
  have n: "?n * ?B = 64" using ok unfolding rqb_ok_def rqb_ctassert_def by (metis RQ_NQS_def mult.commute)
  have b0: "?s AND (?B - 1) = ?s mod ?B" unfolding K(6) by (rule and_pow2_minus_one)
  have w: "?s div ?B < ?n" using K(7) s by blast
  have ws: "[?s div ?B..<?n] = ?s div ?B # [Suc (?s div ?B)..<?n]" using w by (simp add: upt_conv_Cons)
  have ws0: "[0..<?n] = 0 # [Suc 0..<?n]" using K(5) by (simp add: upt_conv_Cons)
  have j: "?s mod ?B < ?B" using K(3) by simp
  have e: "?s div ?B * ?B + ?s mod ?B = ?s" by simp
  let ?r = "\<lambda>w. concat (map (\<lambda>w. concat (map (\<lambda>b. rq_level rq (b + w * 2 ^ RQB_L2BPW C)) [0..<?B])) [Suc w..<?n])"
  have part: "concat (map (\<lambda>b. rq_level rq (b + w * 2 ^ RQB_L2BPW C)) [j..<?B]) @ ?r w = concat (map (rq_level rq) [w * ?B + j..<64])"
    if "w < ?n" "j < ?B" for w j
  proof -
    have "Suc w * ?B \<le> 64" using that(1) unfolding n [symmetric] by (intro mult_le_mono1) simp
    then have "[w * ?B + j..<64] = [w * ?B + j..<w * ?B + ?B] @ [Suc w * ?B..<?n * ?B]"
      using upt_add_eq_append [of "w * ?B + j" "w * ?B + ?B" "64 - (w * ?B + ?B)"] that(2) by (simp add: n add.commute)
    then show ?thesis
      unfolding K(6) [symmetric] using concat_block [of "rq_level rq" w ?B j] concat_blocks_from [of "Suc w" ?n "rq_level rq" ?B] that(1)
      by (simp del: mult_Suc)
  qed
  have sub: "set (w # [Suc w..<?n]) \<subseteq> {..<?n}" if "w < ?n" for w using that by auto
  have A: "steal_words C ths rq cpu (?s mod ?B) f [?s div ?B..<?n] = steal_list ths cpu f (concat (map (rq_level rq) [?s..<64]))" for f
    unfolding ws steal_words_list [OF wf j sub [OF w]] part [OF w j] e ..
  have B: "steal_words C ths rq cpu 0 f [0..<?n] = steal_list ths cpu f (concat (rq_queues rq))" for f
    unfolding ws0 steal_words_list [OF wf K(3) sub [OF K(5)]] part [OF K(5,3)]
    by (simp add: levels_all [OF runq_wfD(2) [OF wf]])
  show ?thesis
    unfolding runq_steal_from_def Let_def b0 K(1) A steal_order_def steal_list_append
    using ws B by (auto split: option.split prod.split)
qed

lemma steal_list_sound: "steal_list ths cpu f xs = (Some t, f') \<Longrightarrow> t \<in> set xs \<and> can_steal ths cpu t"
  by (induction xs arbitrary: f) (auto split: if_splits)

lemma steal_list_last: "steal_list ths cpu f xs = (None, f') \<Longrightarrow> f' = (if xs = [] then f else Some (last xs))"
  by (induction xs arbitrary: f) (auto split: if_splits)

lemma steal_list_none:
  "steal_list ths cpu f xs = (None, f') \<Longrightarrow> t \<in> set (if f = None then tl xs else xs) \<Longrightarrow> \<not> can_steal ths cpu t"
proof (induction xs arbitrary: f)
  case (Cons x xs)
  show ?case using Cons.prems Cons.IH [of "Some x"] by (cases f) (auto split: if_splits)
qed simp

lemma set_steal_order:
  assumes "length (rq_queues rq) = 64"
  shows "set (steal_order rq start) = rq_elems rq"
proof -
  have "set (steal_order rq start) =
      {t. \<exists>p. unat start \<le> p \<and> p < 64 \<and> t \<in> set (rq_level rq p)} \<union> (if start \<noteq> 0 then rq_elems rq else {})"
    by (auto simp: steal_order_def rq_elems_def)
  then show ?thesis using assms by (auto simp: rq_elems_iff)
qed

text \<open>
  A stolen thread is on the queue and may move there; a thread that may move is missed only
  when it is the first of the round.
\<close>

lemma runq_steal_from_sound:
  assumes wf: "runq_wf C ths' rq" and s: "unat start < 64" and t: "runq_steal_from C ths rq cpu start = Some t"
  shows "t \<in> rq_elems rq \<and> can_steal ths cpu t"
proof -
  obtain r f where r: "steal_list ths cpu None (steal_order rq start) = (r, f)" by fastforce
  have "t \<in> set (steal_order rq start) \<and> can_steal ths cpu t"
    using t r steal_list_sound [of ths cpu None "steal_order rq start"] steal_list_last [of ths cpu None "steal_order rq start" f]
    by (auto simp: runq_steal_from_list [OF wf s] split: option.splits if_splits)
  then show ?thesis using set_steal_order [OF runq_wfD(2) [OF wf]] by simp
qed

lemma runq_steal_from_none:
  assumes wf: "runq_wf C ths' rq" and s: "unat start < 64" and n: "runq_steal_from C ths rq cpu start = None"
    and t: "t \<in> rq_elems rq" "can_steal ths cpu t"
  shows "tailq_first (steal_order rq start) = Some t"
proof -
  let ?xs = "steal_order rq start"
  have "t \<in> set ?xs" using t set_steal_order [OF runq_wfD(2) [OF wf]] by simp
  moreover obtain r f where r: "steal_list ths cpu None ?xs = (r, f)" by fastforce
  ultimately show ?thesis
    using n t steal_list_none [of ths cpu None ?xs f t]
    by (cases ?xs) (auto simp: runq_steal_from_list [OF wf s] split: option.splits)
qed

subsection \<open>Stealing from a thread queue\<close>

lemma find_SomeD: "find P xs = Some x \<Longrightarrow> x \<in> set xs \<and> P x"
  by (induction xs) (auto split: if_splits)

lemma tdq_steal_ok:
  assumes wf: "k_wf C k" and t: "tdq_steal C (k_td k) (k_tdq k c) cpu = Some t"
  shows "(\<exists>n. t \<in> q_elems k c n) \<and> can_steal (k_td k) cpu t"
proof -
  have lin: "t \<in> q_elems k c n \<and> can_steal (k_td k) cpu t"
    if "runq_steal C (k_td k) (tdq_rq n (k_tdq k c)) cpu = Some t" for n
    using find_SomeD [OF that [unfolded runq_steal_find [OF k_wfD(1) [OF wf]]]] by (simp add: q_elems_def rq_elems_def)
  have circ: "t \<in> q_elems k c n \<and> can_steal (k_td k) cpu t"
    if "runq_steal_from C (k_td k) (tdq_rq n (k_tdq k c)) cpu (tdq_ridx (k_tdq k c)) = Some t" for n
    using runq_steal_from_sound [OF k_wfD(1) [OF wf] k_wfD(5) [OF wf] that] by (simp add: q_elems_def)
  show ?thesis
    using t lin [of RQ_realtime] lin [of RQ_idle] circ [of RQ_timeshare] circ [of RQ_lottery]
    by (auto simp: tdq_steal_def split: option.splits)
qed

text \<open>Stealing fails only when a movable thread is the first of its round, or there is none.\<close>

lemma tdq_steal_none:
  assumes wf: "k_wf C k" and n: "tdq_steal C (k_td k) (k_tdq k c) cpu = None"
    and t: "t \<in> q_elems k c n" "can_steal (k_td k) cpu t"
  shows "(n = RQ_timeshare \<or> n = RQ_lottery) \<and>
    tailq_first (steal_order (tdq_rq n (k_tdq k c)) (tdq_ridx (k_tdq k c))) = Some t"
proof -
  have lin: False if "runq_steal C (k_td k) (tdq_rq n (k_tdq k c)) cpu = None"
    using that t by (auto simp: runq_steal_find [OF k_wfD(1) [OF wf]] find_None_iff q_elems_def rq_elems_def)
  have circ: "tailq_first (steal_order (tdq_rq n (k_tdq k c)) (tdq_ridx (k_tdq k c))) = Some t"
    if "runq_steal_from C (k_td k) (tdq_rq n (k_tdq k c)) cpu (tdq_ridx (k_tdq k c)) = None"
    using runq_steal_from_none [OF k_wfD(1) [OF wf] k_wfD(5) [OF wf] that] t by (simp add: q_elems_def)
  show ?thesis
    using n lin circ by (cases n) (auto simp: tdq_steal_def split: option.splits)
qed

subsection \<open>The lowest priority, removal without running, and moving\<close>

text \<open>Operations that leave every queue and thread as it is.\<close>

definition k_inert :: "'a kconf_scheme \<Rightarrow> kern \<Rightarrow> kern \<Rightarrow> bool" where
  "k_inert C k k' \<longleftrightarrow> k_td k' = k_td k \<and> q_elems k' = q_elems k \<and> (k_wf C k \<longrightarrow> k_wf C k') \<and>
     (\<forall>c. tdq_load (k_tdq k' c) = tdq_load (k_tdq k c) \<and> tdq_sysload (k_tdq k' c) = tdq_sysload (k_tdq k c) \<and>
        tdq_transferable (k_tdq k' c) = tdq_transferable (k_tdq k c))"

lemma k_inert_lowpri: "k_inert C k (upd_tdq c (\<lambda>q. q\<lparr>tdq_lowpri := p\<rparr>) k)"
proof -
  have "k_wf C k \<Longrightarrow> k_wf C (upd_tdq c (\<lambda>q. q\<lparr>tdq_lowpri := p\<rparr>) k)" by (rule k_wf_frame [of C k]; simp)
  then show ?thesis by (simp add: k_inert_def q_elems_def fun_eq_iff)
qed

lemma k_inert_refl: "k_inert C k k"
  by (simp add: k_inert_def)

lemma k_inert_trans: "k_inert C k k1 \<Longrightarrow> k_inert C k1 k2 \<Longrightarrow> k_inert C k k2"
  by (simp add: k_inert_def)

lemma k_same_inert: "k_wf C k \<Longrightarrow> k_same k k' \<Longrightarrow> k_inert C k k'"
  using k_same_wf [of k k' C] k_sameD [of k k'] by (simp add: k_inert_def)

lemma tdq_setlowpri_ok:
  assumes wf: "k_wf C k"
  shows "tdq_setlowpri C c ctd k = Inr k' \<Longrightarrow> k_inert C k k'"
    "no_draw k c \<Longrightarrow> \<exists>k'. tdq_setlowpri C c ctd k = Inr k'"
proof -
  show "k_inert C k k'" if e: "tdq_setlowpri C c ctd k = Inr k'"
  proof -
    obtain r k1 where 1: "tdq_choose C c k = Inr (r, k1)" using e by (auto simp: tdq_setlowpri_def Let_def)
    obtain p where "k' = upd_tdq c (\<lambda>q. q\<lparr>tdq_lowpri := p\<rparr>) k1"
      using e 1 by (auto simp: tdq_setlowpri_def Let_def split: option.splits if_splits)
    then show ?thesis
      using k_inert_trans [OF k_same_inert [OF wf tdq_choose_ok(1) [OF wf 1]] k_inert_lowpri] by simp
  qed
  show "\<exists>k'. tdq_setlowpri C c ctd k = Inr k'" if "no_draw k c"
    using tdq_choose_no_draw [OF wf that] by (auto simp: tdq_setlowpri_def Let_def split: option.split)
qed

lemma tdq_load_rem_eq:
  assumes "tdq_load (k_tdq k c) \<noteq> 0"
  shows "\<exists>k'. tdq_load_rem c td k = Inr k' \<and> k_td k' = k_td k \<and> q_elems k' = q_elems k \<and>
    (k_wf C k \<longrightarrow> k_wf C k') \<and> tdq_lottery (k_tdq k' d) = tdq_lottery (k_tdq k d) \<and>
    (\<forall>d. tdq_load (k_tdq k' d) = (if d = c then tdq_load (k_tdq k c) - 1 else tdq_load (k_tdq k d)))"
proof -
  let ?K = "\<lambda>b. upd_tdq c (\<lambda>q. q\<lparr>tdq_load := tdq_load q - 1, tdq_sysload := tdq_sysload q - b\<rparr>) k"
  have w: "k_wf C k \<Longrightarrow> k_wf C (?K b)" for b by (rule k_wf_frame [of C k]; simp)
  have f: "k_td (?K b) = k_td k" "q_elems (?K b) = q_elems k" "tdq_lottery (k_tdq (?K b) d) = tdq_lottery (k_tdq k d)"
    "\<forall>d. tdq_load (k_tdq (?K b) d) = (if d = c then tdq_load (k_tdq k c) - 1 else tdq_load (k_tdq k d))" for b
    by (simp_all add: q_elems_def fun_eq_iff)
  have "tdq_load_rem c td k = Inr (?K (if has_flag (td_flags (k_td k td)) TDF_NOLOAD then 0 else 1))"
    using assms by (simp add: tdq_load_rem_def upd_tdq_def)
  then show ?thesis using w f by blast
qed

lemma sched_rem_ok:
  assumes wf: "k_wf C k" and td: "td \<in> q_elems k c n" and c: "ts_cpu (k_td k td) = c"
    and l: "td_lock (k_td k td) = TDQ_LOCKPTR c" and load: "tdq_load (k_tdq k c) \<noteq> 0" and nl: "no_draw k c"
  shows "\<exists>k'. sched_rem C td k = Inr k' \<and> k_wf C k' \<and> (\<forall>d m. q_elems k' d m = q_elems k d m - {td}) \<and>
    (\<forall>t. t \<noteq> td \<longrightarrow> k_td k' t = k_td k t) \<and>
    (\<exists>f. k_td k' td = (k_td k td)\<lparr>ts_flags := f, td_state := TDS_CAN_RUN\<rparr>) \<and>
    (\<forall>d. tdq_load (k_tdq k' d) = (if d = c then tdq_load (k_tdq k c) - 1 else tdq_load (k_tdq k d)))"
proof -
  obtain k1 where 1: "tdq_runq_rem C c td k = Inr k1" "k_wf C k1" "\<And>d m. q_elems k1 d m = q_elems k d m - {td}"
      "\<And>t. t \<noteq> td \<Longrightarrow> k_td k1 t = k_td k t" "\<exists>f. k_td k1 td = (k_td k td)\<lparr>ts_flags := f\<rparr>"
      "\<And>d. tdq_load (k_tdq k1 d) = tdq_load (k_tdq k d)"
    using tdq_runq_rem_ok [OF wf td, of c] by blast
  have nl1: "no_draw k1 c"
  proof -
    obtain r where "tdq_runq_rem C c td k = Inr (upd_tdq c (\<lambda>q. (set_tdq_rq n (dequeued C (tdq_rq n (k_tdq k c)) td (unat (td_rqindex (k_td k td)))) q)
        \<lparr>tdq_ridx := r\<rparr>) (tdq_unready c td k))"
      using tdq_runq_rem_eq [OF wf td, of c] by blast
    then have "total_proc (tdq_rq RQ_lottery (k_tdq k1 c)) = total_proc (tdq_rq RQ_lottery (k_tdq k c))"
      using 1(1) by (auto simp: dequeued_def Let_def set_rqhead_def runq_clrbit_def simp del: tdq_rq.simps)
    then show ?thesis using nl by (simp add: no_draw_def)
  qed
  obtain k2 where 2: "tdq_load_rem c td k1 = Inr k2" "k_td k2 = k_td k1" "q_elems k2 = q_elems k1" "k_wf C k2"
      "tdq_lottery (k_tdq k2 c) = tdq_lottery (k_tdq k1 c)"
      "\<And>d. tdq_load (k_tdq k2 d) = (if d = c then tdq_load (k_tdq k1 c) - 1 else tdq_load (k_tdq k1 d))"
    using tdq_load_rem_eq [of k1 c td C c] load 1(2,6) by auto
  let ?k3 = "upd_th td (td_state_update (\<lambda>_. TDS_CAN_RUN)) k2"
  have u2: "unqueued k2 td" using 1(3) 2(3) by (simp add: unqueued_def)
  have 3: "k_wf C ?k3" "q_elems ?k3 = q_elems k2"
    by (rule k_wf_frame [OF 2(4)]; use u2 in \<open>auto simp: upd_td_apply\<close>)+
  have nl3: "no_draw ?k3 c" using nl1 2(5) by (simp add: no_draw_def)
  have "\<exists>k'. (if td_priority (k_td ?k3 td) = tdq_lowpri (k_tdq ?k3 c) then tdq_setlowpri C c None ?k3 else Inr ?k3) = Inr k' \<and> k_inert C ?k3 k'"
    using tdq_setlowpri_ok(2) [OF 3(1) nl3, of None] tdq_setlowpri_ok(1) [OF 3(1), of c None]
    by (cases "td_priority (k_td ?k3 td) = tdq_lowpri (k_tdq ?k3 c)") (auto simp del: upd_th_simps simp: k_inert_refl)
  then obtain k' where k': "(if td_priority (k_td ?k3 td) = tdq_lowpri (k_tdq ?k3 c) then tdq_setlowpri C c None ?k3 else Inr ?k3) = Inr k'"
      "k_inert C ?k3 k'" by blast
  note I = k'(2) [unfolded k_inert_def]
  have "sched_rem C td k = Inr k'"
    using k'(1) 1(1) 2(1) k_wfD(3) [OF wf td] by (simp add: sched_rem_def Let_def c l TD_ON_RUNQ_def)
  moreover have "k_wf C k'" "q_elems k' = q_elems k2" using I 3 by auto
  moreover have t: "k_td k' = upd_td td (td_state_update (\<lambda>_. TDS_CAN_RUN)) (k_td k1)" using I 2(2) by simp
  then have "\<exists>f. k_td k' td = (k_td k td)\<lparr>ts_flags := f, td_state := TDS_CAN_RUN\<rparr>"
    using 1(5) by auto
  moreover have "tdq_load (k_tdq k' d) = (if d = c then tdq_load (k_tdq k c) - 1 else tdq_load (k_tdq k d))" for d
    using I 2(6) 1(6) by simp
  ultimately show ?thesis
    using t 1(3,4) 2(3) by (auto simp: upd_td_apply)
qed

lemma tdq_load_add_ok:
  "k_td (tdq_load_add c td k) = k_td k" "q_elems (tdq_load_add c td k) = q_elems k"
  "k_wf C k \<Longrightarrow> k_wf C (tdq_load_add c td k)"
  "tdq_load (k_tdq (tdq_load_add c td k) d) = (if d = c then tdq_load (k_tdq k c) + 1 else tdq_load (k_tdq k d))"
proof -
  have q: "tdq_rq n (k_tdq (tdq_load_add c td k) d) = tdq_rq n (k_tdq k d)" for n d
    by (simp add: tdq_load_add_def Let_def)
  show t: "k_td (tdq_load_add c td k) = k_td k" by (simp add: tdq_load_add_def Let_def)
  show "q_elems (tdq_load_add c td k) = q_elems k" by (simp add: q_elems_def fun_eq_iff q)
  show "k_wf C k \<Longrightarrow> k_wf C (tdq_load_add c td k)"
    by (rule k_wf_frame [of C k]) (simp_all add: q t, simp_all add: tdq_load_add_def Let_def)
  show "tdq_load (k_tdq (tdq_load_add c td k) d) = (if d = c then tdq_load (k_tdq k c) + 1 else tdq_load (k_tdq k d))"
    by (simp add: tdq_load_add_def Let_def)
qed

lemma tdq_runq_add_frame:
  assumes "tdq_runq_add C c td flags k = Inr k'"
  shows "t \<noteq> td \<Longrightarrow> k_td k' t = k_td k t" "tdq_load (k_tdq k' d) = tdq_load (k_tdq k d)"
    "d \<noteq> c \<Longrightarrow> k_tdq k' d = k_tdq k d"
    "ts_runq (k_td k' td) = Some (c, queue_of C (k_td k td))" "td_state (k_td k' td) = TDS_RUNQ"
    "td_priority (k_td k' td) = td_priority (k_td k td)"
proof -
  have r: "d \<noteq> c \<Longrightarrow> k_tdq (tdq_ready c td k) d = k_tdq k d" by (simp add: tdq_ready_def Let_def)
  show "t \<noteq> td \<Longrightarrow> k_td k' t = k_td k t" "tdq_load (k_tdq k' d) = tdq_load (k_tdq k d)"
    "d \<noteq> c \<Longrightarrow> k_tdq k' d = k_tdq k d"
    "ts_runq (k_td k' td) = Some (c, queue_of C (k_td k td))" "td_state (k_td k' td) = TDS_RUNQ"
    "td_priority (k_td k' td) = td_priority (k_td k td)"
    using assms by (auto simp: tdq_runq_add_eq Let_def r split: if_splits)
qed

text \<open>
  A thread that may be added: not inhibited, ready to run, in memory and on no queue. It goes
  to the queue that its priority and its user call for, and counts in the load.
\<close>

definition addable :: "kern \<Rightarrow> tid \<Rightarrow> bool" where
  "addable k td \<longleftrightarrow> td_inhibitors (k_td k td) = 0 \<and>
     (td_state (k_td k td) = TDS_CAN_RUN \<or> td_state (k_td k td) = TDS_RUNNING) \<and>
     td_inmem (k_td k) td \<and> unqueued k td"

lemma tdq_add_ok:
  assumes C: "kconf_ok C" and wf: "k_wf C k" and a: "addable k td"
  shows "\<exists>k'. tdq_add C c td flags k = Inr k' \<and> k_wf C k' \<and>
    (\<forall>d m. q_elems k' d m = (if d = c \<and> m = queue_of C (k_td k td) then insert td (q_elems k d m) else q_elems k d m)) \<and>
    (\<forall>t. t \<noteq> td \<longrightarrow> k_td k' t = k_td k t) \<and>
    (\<forall>d. tdq_load (k_tdq k' d) = (if d = c then tdq_load (k_tdq k c) + 1 else tdq_load (k_tdq k d)))"
proof -
  define k1 where "k1 = (if td_priority (k_td k td) < tdq_lowpri (k_tdq k c) then
      upd_tdq c (\<lambda>q. q\<lparr>tdq_lowpri := td_priority (k_td k td)\<rparr>) k else k)"
  have i: "k_inert C k k1" by (simp add: k1_def k_inert_lowpri k_inert_refl)
  then have 1: "k_td k1 = k_td k" "q_elems k1 = q_elems k" "k_wf C k1" "tdq_load (k_tdq k1 d) = tdq_load (k_tdq k d)" for d
    using wf by (simp_all add: k_inert_def)
  have "unqueued k1 td" "td_inmem (k_td k1) td" using a 1 by (simp_all add: addable_def unqueued_def)
  from tdq_runq_add_ok [OF C 1(3) this, of c flags] obtain k2 where 2: "tdq_runq_add C c td flags k1 = Inr k2" "k_wf C k2"
      "\<And>d m. q_elems k2 d m = (if d = c \<and> m = queue_of C (k_td k td) then insert td (q_elems k d m) else q_elems k d m)"
    unfolding 1(1,2) by auto
  note F = tdq_runq_add_frame [OF 2(1)]
  have "tdq_add C c td flags k = Inr (tdq_load_add c td k2)"
    using a 2(1) by (auto simp: tdq_add_def addable_def TD_CAN_RUN_def TD_IS_RUNNING_def Let_def k1_def [symmetric])
  then show ?thesis
    using 2 F(1,2) 1 by (auto simp: tdq_load_add_ok)
qed

text \<open>The threads of a CPU's queues are locked by that CPU's lock.\<close>

definition placed :: "kern \<Rightarrow> cpuid \<Rightarrow> bool" where
  "placed k c \<longleftrightarrow> (\<forall>n. \<forall>t \<in> q_elems k c n. ts_cpu (k_td k t) = c \<and> td_lock (k_td k t) = TDQ_LOCKPTR c \<and>
     td_inhibitors (k_td k t) = 0)"

lemma tdq_move_ok:
  assumes C: "kconf_ok C" and wf: "k_wf C k" and p: "placed k from" and load: "tdq_load (k_tdq k from) \<noteq> 0"
    and nl: "no_draw k from" and ne: "to \<noteq> from"
  shows "\<exists>r k'. tdq_move C from to k = Inr (r, k') \<and> k_wf C k' \<and>
    (case r of
       None \<Rightarrow> k' = k
     | Some t \<Rightarrow> (\<exists>n. t \<in> q_elems k from n) \<and> can_steal (k_td k) to t \<and>
         (\<forall>m. t \<notin> q_elems k' from m) \<and> t \<in> q_elems k' to (queue_of C (k_td k t)) \<and>
         (\<forall>d m. q_elems k' d m - {t} = q_elems k d m - {t}) \<and>
         tdq_load (k_tdq k' from) = tdq_load (k_tdq k from) - 1 \<and> tdq_load (k_tdq k' to) = tdq_load (k_tdq k to) + 1)"
proof (cases "tdq_steal C (k_td k) (k_tdq k from) to")
  case None
  then show ?thesis using wf by (simp add: tdq_move_def)
next
  case (Some t)
  obtain n where n: "t \<in> q_elems k from n" and s: "can_steal (k_td k) to t" using tdq_steal_ok [OF wf Some] by blast
  have t: "ts_cpu (k_td k t) = from" "td_lock (k_td k t) = TDQ_LOCKPTR from" "td_inhibitors (k_td k t) = 0"
    using p n by (auto simp: placed_def)
  obtain k1 f where 1: "sched_rem C t k = Inr k1" "k_wf C k1" "\<And>d m. q_elems k1 d m = q_elems k d m - {t}"
      "k_td k1 t = (k_td k t)\<lparr>ts_flags := f, td_state := TDS_CAN_RUN\<rparr>"
      "\<And>d. tdq_load (k_tdq k1 d) = (if d = from then tdq_load (k_tdq k from) - 1 else tdq_load (k_tdq k d))"
    using sched_rem_ok [OF wf n t(1,2) load nl] by blast
  define k2 where "k2 = upd_th t (\<lambda>t. t\<lparr>ts_cpu := to, td_lock := TDQ_LOCKPTR to\<rparr>) k1"
  have u: "unqueued k1 t" by (simp add: unqueued_def 1(3))
  have 2: "k_wf C k2" "q_elems k2 = q_elems k1"
    unfolding k2_def by (rule k_wf_frame [OF 1(2)]; use u in \<open>auto simp: upd_td_apply\<close>)+
  have "addable k2 t"
    using u t(3) k_wfD(6) [OF wf n] 1(4) by (simp add: addable_def k2_def unqueued_def q_elems_def)
  from tdq_add_ok [OF C 2(1) this, of to "{SRQ_YIELDING}"] obtain k3 where
    3: "tdq_add C to t {SRQ_YIELDING} k2 = Inr k3" "k_wf C k3"
      "\<And>d m. q_elems k3 d m = (if d = to \<and> m = queue_of C (k_td k2 t) then insert t (q_elems k2 d m) else q_elems k2 d m)"
      "\<And>d. tdq_load (k_tdq k3 d) = (if d = to then tdq_load (k_tdq k2 to) + 1 else tdq_load (k_tdq k2 d))"
    by blast
  have q: "queue_of C (k_td k2 t) = queue_of C (k_td k t)" using 1(4) by (simp add: k2_def queue_of_def)
  have "tdq_move C from to k = Inr (Some t, k3)"
    using Some 1(1) 3(1) by (simp add: tdq_move_def k2_def)
  then show ?thesis
    using 3 n s ne 1(3,5) 2(2) q by (intro exI [of _ "Some t"] exI [of _ k3]) (auto simp: k2_def)
qed

subsection \<open>The lottery's draw in the context of the choice\<close>

text \<open>
  With only lottery threads ready, the draw either takes the last ticket holder, or it takes
  a thread whose tickets are strictly between the recorded least and greatest number, or the
  choice reads through a NULL pointer.
\<close>

lemma tdq_choose_lottery:
  fixes C :: "'a kconf_scheme"
  assumes wf: "k_wf C k" and e: "q_elems k c RQ_realtime = {}" "q_elems k c RQ_timeshare = {}"
    and a: "lottery_acct (k_td k) (tdq_lottery (k_tdq k c))" and n: "num_tickets (tdq_lottery (k_tdq k c)) \<noteq> 0"
  defines "rq \<equiv> tdq_lottery (k_tdq k c)"
  defines "t \<equiv> ticket_list (k_td k) (rq_level rq 0) ! unat (next_random k mod num_tickets rq)"
  defines "w \<equiv> td_tickets (k_td k t)"
  defines "rq1 \<equiv> rq\<lparr>total_proc := total_proc rq - 1, num_tickets := num_tickets rq - w\<rparr>"
  defines "res \<equiv> \<lambda>rq'. Inr (Some t, upd_tdq c (\<lambda>q. q\<lparr>tdq_lottery := rq'\<rparr>) (k\<lparr>k_randpos := k_randpos k + 1\<rparr>))"
  shows "tdq_choose C c k =
    (if total_proc rq = 1 then res (rq1\<lparr>max_tickets := 0, min_tickets := 0\<rparr>)
     else if w = max_tickets rq \<or> max_tickets rq = 0 \<or> w = min_tickets rq
     then Inl (NullDeref ''td->td_tickets'')
     else res rq1)"
    "t \<in> q_elems k c RQ_lottery"
proof -
  note L = lotteryq_choose_ticket [OF a n, of "next_random k", folded rq_def, folded t_def w_def, folded rq1_def]
  have len: "length (rq_queues rq) = 64" using a by (simp add: lottery_acct_def rq_def)
  show el: "t \<in> q_elems k c RQ_lottery"
    using L(2) len by (auto simp: q_elems_def rq_def [symmetric] rq_elems_iff intro!: exI [of _ 0])
  have ne: "total_proc rq \<noteq> 0" using L(2) a by (auto simp: lottery_acct_def rq_def)
  have s: "tdq_lottery_stats (k_td k) rq1 t =
    (if total_proc rq = 1 then Inr (Some t, rq1\<lparr>max_tickets := 0, min_tickets := 0\<rparr>)
     else if w = max_tickets rq \<or> max_tickets rq = 0 \<or> w = min_tickets rq
     then Inl (NullDeref ''td->td_tickets'') else Inr (Some t, rq1))"
    using len by (auto simp: lottery_stats_cases rq1_def w_def)
  show "tdq_choose C c k =
    (if total_proc rq = 1 then res (rq1\<lparr>max_tickets := 0, min_tickets := 0\<rparr>)
     else if w = max_tickets rq \<or> max_tickets rq = 0 \<or> w = min_tickets rq
     then Inl (NullDeref ''td->td_tickets'') else res rq1)"
    unfolding tdq_choose_rest [OF wf e] Let_def rq_def [symmetric] L(1)
    using ne by (simp add: s res_def upd_tdq_def)
qed

end
