(* ===== verification/Samples.thy ===== *)
theory Samples
  imports TdqLaws
begin

text \<open>
  Concrete threads, queues and kernel states at which the properties are applied: two CPUs,
  threads of root (process 0) and of an ordinary user (process 1).
\<close>

definition th0 :: thread where
  "th0 = \<lparr>ts_runq = None, ts_flags = 0, ts_cpu = 0, ts_rltick = 0, ts_slice = 0, ts_slptime = 0,
     ts_runtime = 0, ts_ltick = 0, ts_ftick = 0, ts_ticks = 0, td_lock = TDQ_LOCKPTR 0, td_proc = 0,
     td_cpuset = {0, 1}, td_lend_user_pri = 255, td_flags = TDF_INMEM, td_inhibitors = 0,
     td_owepreempt = False, td_intr_nesting_level = 0, td_pinned = 0, td_slptick = 0, td_rqindex = 0,
     td_base_pri = 180, td_priority = 180, td_pri_class = 3, td_user_pri = 180, td_base_user_pri = 180,
     td_state = TDS_CAN_RUN, td_retval0 = 0, td_critnest = 1, td_lastcpu = 0, td_oncpu = NOCPU, td_tickets = 0\<rparr>"

lemma th0_simps [simp]:
  "ts_runq th0 = None" "ts_flags th0 = 0" "ts_cpu th0 = 0" "ts_slptime th0 = 0" "ts_runtime th0 = 0" "ts_slice th0 = 0"
  "ts_ltick th0 = 0" "ts_ftick th0 = 0" "ts_ticks th0 = 0" "td_lock th0 = TDQ_LOCKPTR 0" "td_proc th0 = 0"
  "td_cpuset th0 = {0, 1}" "td_lend_user_pri th0 = 255" "td_flags th0 = TDF_INMEM" "td_inhibitors th0 = 0"
  "td_pinned th0 = 0" "td_rqindex th0 = 0" "td_base_pri th0 = 180" "td_priority th0 = 180"
  "td_pri_class th0 = 3" "td_user_pri th0 = 180" "td_base_user_pri th0 = 180" "td_state th0 = TDS_CAN_RUN"
  "td_retval0 th0 = 0" "td_critnest th0 = 1" "td_lastcpu th0 = 0" "td_oncpu th0 = NOCPU" "td_tickets th0 = 0"
  "td_owepreempt th0 = False" "td_intr_nesting_level th0 = 0" "td_slptick th0 = 0" "ts_rltick th0 = 0"
  by (simp_all add: th0_def)

lemma inmem_flag [simp]: "has_flag TDF_INMEM TDF_INMEM" "\<not> has_flag TDF_INMEM TDF_NOLOAD" "\<not> has_flag TDF_INMEM TDF_IDLETD"
  by (simp_all add: has_flag_def tdf_defs)

text \<open>Thread 1 of priority 100 and thread 2 of priority 40 on one queue.\<close>

definition ths_a :: store where "ths_a = (\<lambda>t. th0\<lparr>td_priority := if t = 1 then 100 else 40\<rparr>)"
definition ths_b :: store where "ths_b = fst (runq_add fbsd ths_a (runq_init fbsd) 1 {})"
definition rq_b :: runq where "rq_b = snd (runq_add fbsd ths_a (runq_init fbsd) 1 {})"
definition ths_c :: store where "ths_c = fst (runq_add fbsd ths_b rq_b 2 {})"
definition rq_c :: runq where "rq_c = snd (runq_add fbsd ths_b rq_b 2 {})"

lemma rq_b_wf: "runq_wf fbsd ths_b rq_b" "rq_elems rq_b = {1}"
  using runq_add_wf [OF runq_init_wf(1) [OF fbsd_rqb_ok], where td = 1 and flags = "{}" and ths = ths_a and ths' = ths_b and rq' = rq_b]
  by (simp_all add: runq_init_wf [OF fbsd_rqb_ok] ths_a_def ths_b_def rq_b_def)

lemma ths_b_eq: "ths_b = upd_td 1 (td_rqindex_update (\<lambda>_. 25)) ths_a"
  by (simp add: ths_b_def runq_add_eq ths_a_def)

lemma rq_c_wf: "runq_wf fbsd ths_c rq_c" "rq_elems rq_c = {1, 2}"
  using runq_add_wf [OF rq_b_wf(1), where td = 2 and flags = "{}" and ths' = ths_c and rq' = rq_c]
  by (auto simp: rq_b_wf(2) ths_a_def ths_b_eq ths_c_def rq_c_def upd_td_def)

lemma ths_c_eq: "ths_c = upd_td 2 (td_rqindex_update (\<lambda>_. 10)) (upd_td 1 (td_rqindex_update (\<lambda>_. 25)) ths_a)"
  by (simp add: ths_c_def runq_add_eq ths_b_eq ths_a_def upd_td_def)

lemma rq_c_eq: "rq_c = enqueued fbsd (enqueued fbsd (runq_init fbsd) 1 25 {}) 2 10 {}"
  by (simp add: rq_c_def rq_b_def runq_add_eq ths_b_eq ths_a_def upd_td_def)

text \<open>A lottery queue with threads 1 and 2, of 20 and of 30 tickets.\<close>

definition ths_l :: store where
  "ths_l = (\<lambda>t. th0\<lparr>td_tickets := if t = 1 then 20 else 30\<rparr>)"

definition rq_l :: runq where
  "rq_l = (runq_init fbsd)\<lparr>rq_bits := [1], rq_queues := [1, 2] # replicate 63 [], num_tickets := 50, total_proc := 2,
     max_tickets := 30, min_tickets := 20\<rparr>"

lemma rq_l_level: "rq_level rq_l 0 = [1, 2]"
  by (simp add: rq_level_def rq_l_def)

lemma rq_l_acct: "lottery_acct ths_l rq_l"
  by (simp add: lottery_acct_def rq_l_level tickets_def ths_l_def) (simp add: rq_l_def)

definition tun0 :: tunables where
  "tun0 = sched_initticks fbsd \<lparr>sched_interact = 30, tickincr = 8 * 1024, realstathz = 127, sched_slice = 10,
     sched_slice_min = 1, preempt_thresh = 80, static_boost = 152, sched_idlespins = 10000,
     sched_idlespinthresh = -1, rebalance = True, balance_interval = 128, affinity = 1, steal_idle = True,
     steal_thresh = 2, always_steal = False, trysteal_limit = 2, hogticks = 1\<rparr>"

lemma tun0_simps [simp]:
  "sched_interact tun0 = 30" "sched_slice tun0 = 12" "sched_slice_min tun0 = 2" "realstathz tun0 = 127" "preempt_thresh tun0 = 80"
  by (simp_all add: tun0_def sched_initticks_def Let_def c_div_def SCHED_SLICE_DEFAULT_DIVISOR_def SCHED_SLICE_MIN_DIVISOR_def)


lemma concat_first: "(\<And>q. 0 < q \<Longrightarrow> q < n \<Longrightarrow> L q = []) \<Longrightarrow> 0 < n \<Longrightarrow> concat (map L [0..<n]) = L 0"
  by (simp add: upt_conv_Cons)

text \<open>A kernel of two CPUs with nothing to run.\<close>

definition tdq0 :: tdq where
  "tdq0 = \<lparr>tdq_cg = [], tdq_load = 0, tdq_cpu_idle = False, tdq_sysload = 0, tdq_transferable = 0, tdq_switchcnt = 0,
     tdq_oldswitchcnt = 0, tdq_lowpri = 255, tdq_ipipending = False, tdq_idx = 0, tdq_ridx = 0,
     tdq_realtime = runq_init fbsd, tdq_timeshare = runq_init fbsd, tdq_lottery = runq_init fbsd, tdq_idle = runq_init fbsd\<rparr>"

definition k0 :: kern where
  "k0 = \<lparr>k_td = (\<lambda>_. th0), k_proc = (\<lambda>_. \<lparr>p_flag = 0, p_nice = 0, p_threads = []\<rparr>), k_tdq = (\<lambda>_. tdq0),
     k_cur = (\<lambda>c. 100 + c), k_idle = (\<lambda>c. 100 + c), k_ticks = 0, k_tun = tun0, k_random = (\<lambda>_. 7), k_randpos = 0,
     k_randomval = (\<lambda>_. 1), k_cputop = CpuGroup {0, 1} 0 {} [], k_smp_started = True, k_panicstr = False,
     k_cold = False, k_kdb_active = False, k_balance_tdq = 0, k_balance_ticks = 1, k_calls = []\<rparr>"

lemma k0_simps [simp]:
  "k_td k0 = (\<lambda>_. th0)" "k_tdq k0 c = tdq0" "k_proc k0 p = \<lparr>p_flag = 0, p_nice = 0, p_threads = []\<rparr>"
  "k_cur k0 c = 100 + c" "k_idle k0 c = 100 + c" "k_tun k0 = tun0" "k_ticks k0 = 0"
  "tdq_load tdq0 = 0" "tdq_lowpri tdq0 = 255" "tdq_idx tdq0 = 0" "tdq_ridx tdq0 = 0" "tdq_rq n tdq0 = runq_init fbsd"
  "tdq_cg tdq0 = []" "tdq_transferable tdq0 = 0" "tdq_realtime tdq0 = runq_init fbsd"
  "tdq_timeshare tdq0 = runq_init fbsd" "tdq_lottery tdq0 = runq_init fbsd" "tdq_idle tdq0 = runq_init fbsd"
  by (cases n; simp add: k0_def tdq0_def)+

lemma q_elems_k0 [simp]: "q_elems k0 c n = {}" "unqueued k0 t"
  by (simp_all add: q_elems_def unqueued_def runq_init_wf [OF fbsd_rqb_ok])

lemma k0_wf: "k_wf fbsd k0"
  by (rule k_wfI) (simp_all add: runq_init_wf [OF fbsd_rqb_ok])

text \<open>On CPU 0 two lottery threads of an ordinary user, both of 20 tickets.\<close>

definition rq_2 :: runq where
  "rq_2 = (runq_init fbsd)\<lparr>rq_bits := [1], rq_queues := [1, 2] # replicate 63 [], num_tickets := 40, total_proc := 2,
     max_tickets := 20, min_tickets := 20\<rparr>"

definition rq_1 :: runq where
  "rq_1 = (runq_init fbsd)\<lparr>rq_bits := [1], rq_queues := [1] # replicate 63 [], num_tickets := 20, total_proc := 1,
     max_tickets := 20, min_tickets := 20\<rparr>"

definition k_lot :: "runq \<Rightarrow> kern" where
  "k_lot rq = upd_tdq 0 (\<lambda>q. q\<lparr>tdq_load := total_proc rq, tdq_lottery := rq\<rparr>)
     (k0\<lparr>k_td := (\<lambda>_. th0\<lparr>ts_runq := Some (0, RQ_lottery), td_state := TDS_RUNQ, td_proc := 1, td_retval0 := 1001, td_tickets := 20\<rparr>)\<rparr>)"

lemma rq_2_not_1: "rq_2 \<noteq> rq_1"
proof
  assume "rq_2 = rq_1"
  then have "total_proc rq_2 = total_proc rq_1" by simp
  then show False by (simp add: rq_1_def rq_2_def)
qed

lemma rq_level_one: "q < 64 \<Longrightarrow> rq_level (rq\<lparr>rq_bits := b, rq_queues := x # replicate 63 [], num_tickets := i, total_proc := j,
     max_tickets := m, min_tickets := n\<rparr>) q = (if q = 0 then x else [])"
  by (cases q) (simp_all add: rq_level_def)

lemma k_lot_wf:
  assumes "rq = rq_1 \<or> rq = rq_2"
  shows "k_wf fbsd (k_lot rq)" "q_elems (k_lot rq) 0 RQ_lottery = set (rq_level rq 0)"
    "q_elems (k_lot rq) 0 RQ_realtime = {}" "q_elems (k_lot rq) 0 RQ_timeshare = {}" "q_elems (k_lot rq) 0 RQ_idle = {}"
    "lottery_acct (k_td (k_lot rq)) rq" "tdq_lottery (k_tdq (k_lot rq) 0) = rq" "runq_wf fbsd (k_td (k_lot rq)) rq"
    "q < 64 \<Longrightarrow> rq_level rq q = (if q = 0 then if rq = rq_1 then [1] else [1, 2] else [])"
    "rq_elems rq = set (rq_level rq 0)"
proof -
  show lev: "q < 64 \<Longrightarrow> rq_level rq q = (if q = 0 then if rq = rq_1 then [1] else [1, 2] else [])" for q
    using assms by (auto simp: rq_1_def rq_2_def rq_level_one)
  have bits: "rq_bits rq = [1]" "length (rq_queues rq) = 64" using assms by (auto simp: rq_1_def rq_2_def)
  have b1: "bit (1 :: u_long) n \<longleftrightarrow> n = 0" for n by (simp add: bit_1_iff)
  have mark: "marked fbsd rq p \<longleftrightarrow> p = 0" if "p < 64" for p using that by (simp add: marked_def bits b1)
  show wf: "runq_wf fbsd (k_td (k_lot rq)) rq"
    by (simp add: runq_wf_def bits bits_wf_def fbsd_rqb_ok b1 mark lev k_lot_def)
  have q: "tdq_rq n (k_tdq (k_lot rq) c) = (if c = 0 \<and> n = RQ_lottery then rq else runq_init fbsd)" for n c
    by (cases n) (simp_all add: k_lot_def tdq0_def)
  show re: "rq_elems rq = set (rq_level rq 0)"
    using assms by (auto simp: rq_elems_def rq_level_def rq_1_def rq_2_def)
  have el: "q_elems (k_lot rq) c n = (if c = 0 \<and> n = RQ_lottery then set (rq_level rq 0) else {})" for n c
    using re by (simp add: q_elems_def q runq_init_wf [OF fbsd_rqb_ok])
  show "k_wf fbsd (k_lot rq)"
    using wf by (intro k_wfI) (auto simp: q el runq_init_wf [OF fbsd_rqb_ok], auto simp: k_lot_def PRI_MIN_BATCH_def
       PRI_INTERACT_RANGE_def PRI_TIMESHARE_RANGE_def SCHED_PRI_NRESV_def c_div_def split: if_splits)
  show "q_elems (k_lot rq) 0 RQ_lottery = set (rq_level rq 0)"
    "q_elems (k_lot rq) 0 RQ_realtime = {}" "q_elems (k_lot rq) 0 RQ_timeshare = {}" "q_elems (k_lot rq) 0 RQ_idle = {}"
    by (simp_all add: el)
  show "lottery_acct (k_td (k_lot rq)) rq"
    using assms by (auto simp: lottery_acct_def lev bits tickets_def k_lot_def) (auto simp: rq_1_def rq_2_def)
  show "tdq_lottery (k_tdq (k_lot rq) 0) = rq" by (simp add: k_lot_def)
qed

end
