(* ===== verification/RunQueueProps.thy ===== *)
theory RunQueueProps
  imports Samples
begin

text \<open>
  The properties of the run queues and of the lottery, each with an application to a
  concrete queue. They rest on RunQueueLaws and Lottery.
\<close>

text \<open>
  C12: Choosing from a well-formed linear run queue never fails a KASSERT. It returns NULL
  exactly when no thread is queued; otherwise the thread at the head of its list whose queue
  index, and so whose priority class of 4, is the best of all queued threads.
\<close>

theorem runq_choose_best:
  assumes "runq_wf C ths rq"
  shows "(rq_elems rq = {} \<and> runq_choose C rq = Inr None) \<or>
    (\<exists>t. runq_choose C rq = Inr (Some t) \<and> t \<in> rq_elems rq \<and>
       tailq_first (rq_level rq (unat (td_rqindex (ths t)))) = Some t \<and>
       (\<forall>u \<in> rq_elems rq. td_rqindex (ths t) \<le> td_rqindex (ths u)))"
  using runq_choose_cases [OF assms] runq_wfD(5) [OF assms] tailq_first_SomeD by metis

theorem runq_choose_best_witness: "runq_choose fbsd rq_c = Inr (Some 2)"
  using runq_choose_best [OF rq_c_wf(1)] rq_c_wf(2) by (auto simp: ths_c_eq upd_td_def)

text \<open>
  Choosing from the circular queue with a start index below 64 never fails either, and
  returns a head of list whose distance from the start index, counted round the 64 lists, is
  least.
\<close>

theorem runq_choose_from_next:
  assumes "runq_wf C ths rq" "unat idx < RQ_NQS"
  shows "(rq_elems rq = {} \<and> runq_choose_from C rq idx = Inr None) \<or>
    (\<exists>t. runq_choose_from C rq idx = Inr (Some t) \<and> t \<in> rq_elems rq \<and>
       tailq_first (rq_level rq (unat (td_rqindex (ths t)))) = Some t \<and>
       (\<forall>u \<in> rq_elems rq. (unat (td_rqindex (ths t)) + RQ_NQS - unat idx) mod RQ_NQS
                          \<le> (unat (td_rqindex (ths u)) + RQ_NQS - unat idx) mod RQ_NQS))"
proof -
  have k: "unat idx < 64" using assms(2) by simp
  have "tailq_first (rq_level rq (unat (td_rqindex (ths t)))) = Some t"
    if "p < 64" "tailq_first (rq_level rq p) = Some t" for p t
    using runq_wfD(5) [OF assms(1) that(1) tailq_first_SomeD [OF that(2)]] that(2) by simp
  then show ?thesis using runq_choose_from_cases [OF assms(1) k] unfolding RQ_NQS_def by blast
qed

theorem runq_choose_from_next_witness: "runq_choose_from fbsd rq_c 11 = Inr (Some 1)"
  using runq_choose_from_next [OF rq_c_wf(1), of 11] rq_c_wf(2) by (auto simp: ths_c_eq upd_td_def)

text \<open>
  Adding a thread that is in memory and not queued keeps the queue well-formed, and puts
  the thread, and nothing else, on the list of its priority divided by 4: at the head when it
  was preempted, else at the tail. The thread remembers the list in td_rqindex.
\<close>

theorem runq_add_inserts:
  assumes wf: "runq_wf C ths rq" and new: "td \<notin> rq_elems rq" and mem: "td_inmem ths td"
  shows "\<exists>ths' rq'. runq_add C ths rq td flags = (ths', rq') \<and> runq_wf C ths' rq' \<and>
    rq_elems rq' = insert td (rq_elems rq) \<and>
    unat (td_rqindex (ths' td)) = unat (td_priority (ths td)) div RQ_PPQ \<and>
    (\<forall>p < RQ_NQS. rq_level rq' p =
       (if p \<noteq> unat (td_priority (ths td)) div RQ_PPQ then rq_level rq p
        else if SRQ_PREEMPTED \<in> flags then td # rq_level rq p else rq_level rq p @ [td]))"
proof -
  let ?p = "unat (td_priority (ths td)) div 4"
  have "rq_level (enqueued C rq td ?p flags) p = (if p \<noteq> ?p then rq_level rq p
      else if SRQ_PREEMPTED \<in> flags then td # rq_level rq p else rq_level rq p @ [td])" if "p < 64" for p
    using rq_level_enqueued [OF that unat_prio_level(1) runq_wfD(2) [OF wf], of C td] by (auto simp: tailq_insert_def)
  then show ?thesis
    using runq_add_wf [OF wf new mem runq_add_eq] by (simp add: runq_add_eq)
qed

theorem runq_add_inserts_witness:
  "\<exists>ths' rq'. runq_add fbsd ths_c rq_c 3 {SRQ_PREEMPTED} = (ths', rq') \<and> rq_elems rq' = {1, 2, 3}"
  using runq_add_inserts [OF rq_c_wf(1), of 3 "{SRQ_PREEMPTED}"] by (auto simp: rq_c_wf(2) ths_c_eq ths_a_def upd_td_def)

text \<open>
  C19: Removing a queued thread keeps the queue well-formed, so that the status bit of a list
  that became empty is cleared, and takes exactly this thread out. The removal index moves to
  the next list, round the 64, exactly when it names the list that became empty.
\<close>

theorem runq_remove_idx_removes:
  assumes wf: "runq_wf C ths rq" and td: "td \<in> rq_elems rq"
  shows "\<exists>rq' i'. runq_remove_idx C ths rq td (Some i) = Inr (rq', Some i') \<and> runq_wf C ths rq' \<and>
    rq_elems rq' = rq_elems rq - {td} \<and>
    i' = (if rq_level rq' (unat (td_rqindex (ths td))) = [] \<and> i = td_rqindex (ths td)
          then of_nat ((unat i + 1) mod RQ_NQS) else i)"
proof -
  have p: "unat (td_rqindex (ths td)) < 64" using runq_wf_elem [OF wf] td by simp
  show ?thesis
    unfolding runq_remove_idx_eq [OF assms]
    using dequeued_wf [OF assms] rq_level_dequeued [OF p p runq_wfD(2) [OF wf], of C td] by auto
qed

theorem runq_remove_idx_removes_witness:
  "\<exists>rq' i'. runq_remove_idx fbsd ths_c rq_c 2 (Some 10) = Inr (rq', Some i') \<and> rq_elems rq' = {1}"
  using runq_remove_idx_removes [OF rq_c_wf(1), of 2 10] by (auto simp: rq_c_wf(2))

text \<open>
  Choosing and removing until the queue is empty ends, and runs every queued thread
  exactly once, in order of the queue index.
\<close>

theorem runq_drains_sorted:
  assumes "runq_wf C ths rq"
  shows "\<exists>ts. runq_drains C ths rq ts \<and> distinct ts \<and> set ts = rq_elems rq \<and>
    sorted (map (\<lambda>t. td_rqindex (ths t)) ts)"
  using assms by (rule runq_drains_all)

theorem runq_drains_sorted_witness: "\<exists>ts. runq_drains fbsd ths_c rq_c ts \<and> set ts = {1, 2}"
  using runq_drains_sorted [OF rq_c_wf(1)] rq_c_wf(2) by auto

text \<open>The check for work looks at the status words only, and is true exactly when a thread is queued.\<close>

theorem runq_check_nonempty:
  assumes "runq_wf C ths rq"
  shows "runq_check C rq \<longleftrightarrow> rq_elems rq \<noteq> {}"
  using runq_check_findbit [OF runq_wfD(1) [OF assms]] rqb.first_marked_none [OF runq_wfD(1) [OF assms]]
    no_mark_iff_empty [OF assms] by simp

theorem runq_check_nonempty_witness: "runq_check fbsd rq_c"
  using runq_check_nonempty [OF rq_c_wf(1)] rq_c_wf(2) by simp

text \<open>
  The fuzzy choice takes a thread of the best list, like the plain one; when one of the
  first \<open>fuzz\<close> threads of that list last ran on this CPU it takes such a thread, and otherwise
  the head of the list.
\<close>

theorem runq_choose_fuzz_affine:
  assumes wf: "runq_wf C ths rq" and ne: "rq_elems rq \<noteq> {}" and fuzz: "fuzz > 1"
  shows "\<exists>t p. runq_choose_fuzz C cpu ths rq fuzz = Inr (Some t) \<and> p < RQ_NQS \<and> t \<in> set (rq_level rq p) \<and>
    (\<forall>u \<in> rq_elems rq. p \<le> unat (td_rqindex (ths u))) \<and>
    (if \<exists>u \<in> set (take (nat fuzz) (rq_level rq p)). td_lastcpu (ths u) = int cpu
     then td_lastcpu (ths t) = int cpu \<and> t \<in> set (take (nat fuzz) (rq_level rq p))
     else tailq_first (rq_level rq p) = Some t)"
proof -
  obtain p t where p: "runq_findbit C rq = int p" "p < 64" "tailq_first (rq_level rq p) = Some t" "t \<in> rq_elems rq"
      "\<forall>u \<in> rq_elems rq. td_rqindex (ths t) \<le> td_rqindex (ths u)"
    using runq_choose_cases [OF wf] ne by auto
  have tp: "unat (td_rqindex (ths t)) = p" by (rule runq_wfD(5) [OF wf p(2) tailq_first_SomeD [OF p(3)]])
  let ?q = "rq_level rq p" and ?f = "fuzz_scan ths cpu (nat fuzz) (Some t) (rq_level rq p)"
  have nn: "?f \<noteq> None" using fuzz_scan_cases [of ths cpu "nat fuzz" "Some t" ?q] by auto
  then have r: "runq_choose_fuzz C cpu ths rq fuzz = Inr ?f"
    using fuzz p(1,2,3) runq_wfD(2) [OF wf] by (simp add: runq_choose_fuzz_def rqhead_level Let_def)
  have lev: "\<forall>u \<in> rq_elems rq. p \<le> unat (td_rqindex (ths u))" using p(5) tp by (auto simp: word_le_nat_alt)
  show ?thesis
  proof (cases "\<exists>u \<in> set (take (nat fuzz) ?q). td_lastcpu (ths u) = int cpu")
    case True
    then obtain v where v: "v \<in> set (take (nat fuzz) ?q)" "?f = Some v" "td_lastcpu (ths v) = int cpu"
      using fuzz_scan_found [of _ "nat fuzz" ?q ths cpu "Some t"] by blast
    then show ?thesis using True r p(2) lev by (intro exI [of _ v] exI [of _ p]) (auto dest: in_set_takeD)
  next
    case False
    then have "?f = Some t" using fuzz_scan_cases [of ths cpu "nat fuzz" "Some t" ?q] by auto
    then show ?thesis using False r p(2,3) lev tailq_first_SomeD [OF p(3)] by (intro exI [of _ t] exI [of _ p]) auto
  qed
qed

theorem runq_choose_fuzz_affine_witness: "\<exists>t. runq_choose_fuzz fbsd 0 ths_c rq_c 2 = Inr (Some t)"
  using runq_choose_fuzz_affine [OF rq_c_wf(1), of 2 0] rq_c_wf(2) by auto

text \<open>
  C27: The lottery is proportional while its totals are in order, that is when the number of threads
  and of tickets on record are those of the list (\<open>lottery_acct\<close>): of the values that random() can
  take modulo the number of tickets, each queued thread wins exactly as many as it has tickets. The
  scheduler does not keep the totals in order: a draw takes the winner off them while it stays on the
  list (\<open>setlowpri_loses_thread\<close>), and a removal leaves them as they are.
\<close>

theorem lottery_proportional:
  assumes "lottery_acct ths rq" "t \<in> set (rq_level rq 0)"
  shows "card {r. r < num_tickets rq \<and> (\<exists>rq'. lotteryq_choose r ths rq = Inr (Some t, rq'))} = tickets ths t"
  using assms by (rule lotteryq_choose_share)

theorem lottery_proportional_witness:
  "card {r. r < 50 \<and> (\<exists>rq'. lotteryq_choose r ths_l rq_l = Inr (Some 2, rq'))} = 30"
proof -
  have "2 \<in> set (rq_level rq_l 0)" by (simp add: rq_l_level)
  from lottery_proportional [OF rq_l_acct this] show ?thesis
    by (simp add: tickets_def ths_l_def) (simp add: rq_l_def)
qed

text \<open>
  With the totals in order and at least one ticket, the draw always has a winner: the
  holder of ticket number random() modulo the tickets, in list order. It leaves the lists as
  they are and takes the winner and its tickets off the totals.
\<close>

theorem lottery_draw_wins:
  fixes r :: u_long
  assumes a: "lottery_acct ths rq" and n: "num_tickets rq \<noteq> 0"
  shows "\<exists>t \<in> set (rq_level rq 0). t = ticket_list ths (rq_level rq 0) ! unat (r mod num_tickets rq) \<and>
    lotteryq_choose r ths rq =
      Inr (Some t, rq\<lparr>total_proc := total_proc rq - 1, num_tickets := num_tickets rq - td_tickets (ths t)\<rparr>)"
  using lotteryq_choose_ticket [OF assms, of r] by blast

theorem lottery_draw_wins_witness: "\<exists>t \<in> {1, 2}. \<exists>rq'. lotteryq_choose 71 ths_l rq_l = Inr (Some t, rq')"
proof -
  have "num_tickets rq_l \<noteq> 0" by (simp add: rq_l_def)
  from lottery_draw_wins [OF rq_l_acct this, of 71] show ?thesis by (auto simp: rq_l_level)
qed

end
