(* ===== verification/SchedProps.thy ===== *)
theory SchedProps
  imports Samples
begin

text \<open>
  The properties of the scheduler's arithmetic (SchedPri), each with an application to a
  concrete thread of the FreeBSD configuration \<open>fbsd\<close>.
\<close>

text \<open>
  C35: The interactivity score is a percentage for every pair of sleep and run times, though
  it is computed in 32-bit unsigned arithmetic.
\<close>

theorem interact_score_range: "0 \<le> sched_interact_score T ts \<and> sched_interact_score T ts \<le> SCHED_INTERACT_MAX"
  by (rule interact_score_bounds)

text \<open>
  The history limit holds: whatever sleep and run time came in without wrapping, at most
  SCHED_SLP_RUN_MAX + 1 of it is kept in all.
\<close>

theorem interact_update_limits:
  assumes "0 < hz C" "hz C \<le> 10000" "unat (ts_runtime ts) + unat (ts_slptime ts) < 2 ^ 32"
  shows "unat (ts_runtime (sched_interact_update C ts)) + unat (ts_slptime (sched_interact_update C ts))
    \<le> unat (SCHED_SLP_RUN_MAX C) + 1"
  using assms by (rule interact_update_bound)

theorem interact_update_limits_witness:
  "unat (ts_runtime (sched_interact_update fbsd (th0\<lparr>ts_runtime := 6000000, ts_slptime := 4000000\<rparr>))) +
   unat (ts_slptime (sched_interact_update fbsd (th0\<lparr>ts_runtime := 6000000, ts_slptime := 4000000\<rparr>))) \<le> 5120001"
  using interact_update_limits [of fbsd "th0\<lparr>ts_runtime := 6000000, ts_slptime := 4000000\<rparr>"]
  by (simp add: SCHED_SLP_RUN_MAX_def SCHED_TICK_SHIFT_def)

text \<open>
  A forked child inherits a history of less than twice SCHED_SLP_RUN_FORK, and the
  division by the ratio is never by zero. (The limit itself is not kept: the ratio is
  truncated.)
\<close>

theorem interact_fork_limits:
  assumes "2 \<le> hz C" "hz C \<le> 10000" "unat (ts_runtime ts) + unat (ts_slptime ts) < 2 ^ 31"
  shows "\<exists>ts'. sched_interact_fork C ts = Inr ts' \<and>
    int (unat (ts_runtime ts') + unat (ts_slptime ts')) < 2 * SCHED_SLP_RUN_FORK C"
  using assms by (rule interact_fork_bound)

theorem interact_fork_limits_witness:
  "\<exists>ts'. sched_interact_fork fbsd (th0\<lparr>ts_runtime := 1000000, ts_slptime := 7\<rparr>) = Inr ts' \<and>
    int (unat (ts_runtime ts') + unat (ts_slptime ts')) < 2 * SCHED_SLP_RUN_FORK fbsd"
  by (rule interact_fork_limits) simp_all

text \<open>
  The cpu usage window is an invariant of its update: from a window of at most
  SCHED_TICK_MAX ticks, at any tick, the update never divides by zero and leaves such a window
  that ends at this tick.
\<close>

theorem pctcpu_window_invariant:
  assumes "kconf_ok C" "pct_ok C ts"
  shows "\<exists>ts'. sched_pctcpu_update C t ts run = Inr ts' \<and> pct_ok C ts' \<and> ts_ltick ts' = t"
  using assms by (rule pctcpu_update_ok)

theorem pctcpu_window_invariant_witness:
  "\<exists>ts'. sched_pctcpu_update fbsd 5000 (th0\<lparr>ts_ticks := 77\<rparr>) True = Inr ts' \<and> pct_ok fbsd ts' \<and> ts_ltick ts' = 5000"
proof -
  have "pct_ok fbsd (th0\<lparr>ts_ticks := 77\<rparr>)" by (simp add: pct_ok_def sched_consts)
  from pctcpu_window_invariant [OF fbsd_ok this, of 5000 True] show ?thesis .
qed

text \<open>
  For every timeshare thread with a valid usage window and nice value, sched_priority
  passes its KASSERTs and sets a user priority in the interactive range when the score with
  the nice value is below the threshold, and in the batch range otherwise.
\<close>

theorem sched_priority_in_range:
  assumes "kconf_ok C" "pct_ok C td" "PRIO_MIN C \<le> nice" "nice \<le> PRIO_MAX C"
    "PRI_BASE C (td_pri_class td) = PRI_TIMESHARE C"
  shows "\<exists>pri. sched_priority C T nice td = Inr (sched_user_prio td (of_int pri)) \<and>
    (if imax 0 (sched_interact_score T td + nice) < sched_interact T
     then PRI_MIN_INTERACT C \<le> pri \<and> pri \<le> PRI_MAX_INTERACT C
     else PRI_MIN_BATCH C \<le> pri \<and> pri \<le> PRI_MAX_BATCH C)"
  using assms by (rule sched_priority_ok)

theorem sched_priority_in_range_witness:
  "\<exists>pri. sched_priority fbsd tun0 5 th0 = Inr (sched_user_prio th0 (of_int pri)) \<and> pri \<le> 223"
proof -
  have "pct_ok fbsd th0" by (simp add: pct_ok_def sched_consts)
  from sched_priority_in_range [OF fbsd_ok this, of 5 tun0] show ?thesis
    by (fastforce simp: PRI_MAX_INTERACT_def PRI_MAX_BATCH_def PRI_INTERACT_RANGE_def PRI_TIMESHARE_RANGE_def
        SCHED_PRI_NRESV_def c_div_def split: if_splits)
qed

text \<open>
  Time slices share the latency target: never below the minimum or above the full slice,
  not growing with the load, and from 2 to 5 competing threads all their slices fit into one
  full slice.
\<close>

theorem tdq_slice_shares:
  assumes "0 \<le> sched_slice T" "sched_slice_min T = sched_slice T div 6"
  shows "sched_slice_min T \<le> tdq_slice T l \<and> tdq_slice T l \<le> sched_slice T \<and>
    (l \<le> m \<longrightarrow> tdq_slice T m \<le> tdq_slice T l) \<and>
    (1 < l - 1 \<longrightarrow> l - 1 < 6 \<longrightarrow> (l - 1) * tdq_slice T l \<le> sched_slice T)"
  using tdq_slice_bounds [OF assms] by blast

theorem tdq_slice_shares_witness: "3 * tdq_slice tun0 4 \<le> 12"
  using tdq_slice_shares [of tun0 4 5] by simp

end
