(* ===== verification/TdqProps.thy ===== *)
theory TdqProps
  imports Samples
begin

text \<open>
  The properties of the thread queues of one CPU: which queue a thread goes to, which thread
  is chosen, moving between CPUs, stealing, and what the lottery does in this context.
\<close>

text \<open>
  C17: Adding a runnable thread succeeds in every well-formed state, keeps the invariant that
  every queue of every CPU agrees with the threads' ts_runq, puts the thread on the queue that
  its priority and its user call for (realtime, timeshare of root, lottery of other users,
  idle), and counts it in the load; nothing else moves.
\<close>

theorem tdq_add_queues:
  assumes "kconf_ok C" "k_wf C k" "addable k td"
  shows "\<exists>k'. tdq_add C c td flags k = Inr k' \<and> k_wf C k' \<and>
    (\<forall>d m. q_elems k' d m = (if d = c \<and> m = queue_of C (k_td k td) then insert td (q_elems k d m) else q_elems k d m)) \<and>
    (\<forall>t. t \<noteq> td \<longrightarrow> k_td k' t = k_td k t) \<and>
    (\<forall>d. tdq_load (k_tdq k' d) = (if d = c then tdq_load (k_tdq k c) + 1 else tdq_load (k_tdq k d)))"
  using assms by (rule tdq_add_ok)

theorem tdq_add_queues_witness:
  "\<exists>k'. tdq_add fbsd 1 5 {} k0 = Inr k' \<and> k_wf fbsd k' \<and> q_elems k' 1 RQ_timeshare = {5} \<and> tdq_load (k_tdq k' 1) = 1"
proof -
  have "addable k0 5" by (simp add: addable_def)
  moreover have "queue_of fbsd (k_td k0 5) = RQ_timeshare"
    by (simp add: queue_of_def PRI_MIN_BATCH_def PRI_MAX_BATCH_def PRI_INTERACT_RANGE_def PRI_TIMESHARE_RANGE_def
        SCHED_PRI_NRESV_def c_div_def)
  ultimately show ?thesis using tdq_add_queues [OF fbsd_ok k0_wf, of 5 1 "{}"] by auto
qed

text \<open>
  C23: The order of the queues, in every state of the invariant. A realtime thread of the best index
  is chosen if there is one, else the timeshare thread that is nearest after the removal index;
  nothing changes and no KASSERT fires. With both queues empty the lottery's totals decide: a total of
  threads with no tickets faults in random() % 0; the winner of a draw is returned unless its tickets
  are an extreme on record while other threads count (then NULL is read); and without a draw, or
  without a winner, an idle-class thread of the best index is chosen, and NULL is returned when
  there is none. The totals are those of the queue, which need not agree with its list.
\<close>

theorem tdq_choose_order:
  assumes wf: "k_wf C k"
  shows "if q_elems k c RQ_realtime \<noteq> {} then
      (\<exists>t \<in> q_elems k c RQ_realtime. tdq_choose C c k = Inr (Some t, k) \<and>
        (\<forall>u \<in> q_elems k c RQ_realtime. td_rqindex (k_td k t) \<le> td_rqindex (k_td k u)))
    else if q_elems k c RQ_timeshare \<noteq> {} then
      (\<exists>t \<in> q_elems k c RQ_timeshare. tdq_choose C c k = Inr (Some t, k) \<and> (\<forall>u \<in> q_elems k c RQ_timeshare.
          (unat (td_rqindex (k_td k t)) + 64 - unat (tdq_ridx (k_tdq k c))) mod 64
          \<le> (unat (td_rqindex (k_td k u)) + 64 - unat (tdq_ridx (k_tdq k c))) mod 64))
    else (let rq = tdq_lottery (k_tdq k c)
      in if total_proc rq \<noteq> 0 \<and> num_tickets rq = 0 then tdq_choose C c k = Inl (DivByZero ''rng'')
         else (case drawn k c of
            Some t \<Rightarrow> t \<in> q_elems k c RQ_lottery \<and>
              (if total_proc rq \<noteq> 1 \<and> (td_tickets (k_td k t) = max_tickets rq \<or> max_tickets rq = 0 \<or>
                    td_tickets (k_td k t) = min_tickets rq)
               then tdq_choose C c k = Inl (NullDeref ''td->td_tickets'') else (\<exists>k'. tdq_choose C c k = Inr (Some t, k')))
          | None \<Rightarrow>
              (if q_elems k c RQ_idle \<noteq> {} then
                 (\<exists>t \<in> q_elems k c RQ_idle. tdq_choose C c k = Inr (Some t, after_draw k c) \<and>
                   (\<forall>u \<in> q_elems k c RQ_idle. td_rqindex (k_td k t) \<le> td_rqindex (k_td k u)))
               else tdq_choose C c k = Inr (None, after_draw k c))))"
proof (cases "q_elems k c RQ_realtime = {} \<and> q_elems k c RQ_timeshare = {}")
  case True
  note D = tdq_choose_draw [OF wf conjunct1 [OF True] conjunct2 [OF True]]
  show ?thesis
  proof (cases "total_proc (tdq_lottery (k_tdq k c)) \<noteq> 0 \<and> num_tickets (tdq_lottery (k_tdq k c)) = 0")
    case False
    then show ?thesis
    proof (cases "drawn k c")
      case None
      then show ?thesis using True False D(2) choose_linear [OF wf, of RQ_idle c] by (auto simp: Let_def)
    next
      case (Some t)
      have "total_proc (tdq_lottery (k_tdq k c)) \<noteq> 0" using Some by (auto simp: drawn_def)
      then show ?thesis using True False Some D(3) [OF _ Some] by (simp add: Let_def)
    qed
  qed (use True D(1) in \<open>simp add: Let_def\<close>)
next
  case False
  then show ?thesis
    using tdq_choose_realtime [OF wf, of c] tdq_choose_timeshare [OF wf, of c] by simp
qed

theorem tdq_choose_order_witness:
  "tdq_choose fbsd 0 k0 = Inr (None, k0) \<and> tdq_choose fbsd 0 (k_lot rq_2) = Inl (NullDeref ''td->td_tickets'') \<and>
   (\<exists>k'. tdq_choose fbsd 0 (k_lot rq_1) = Inr (Some 1, k'))"
proof -
  have "tdq_choose fbsd 0 k0 = Inr (None, k0)"
  proof -
    have "total_proc (tdq_lottery (k_tdq k0 0)) = 0" by (simp add: runq_init_def)
    then have "drawn k0 0 = None" "after_draw k0 0 = k0" "total_proc (tdq_lottery (k_tdq k0 0)) = 0"
      by (simp_all add: drawn_def after_draw_def)
    then show ?thesis using tdq_choose_order [OF k0_wf, of 0] by (simp add: Let_def)
  qed
  moreover have "(\<exists>k'. tdq_choose fbsd 0 (k_lot rq_1) = Inr (Some 1, k')) \<and> tdq_choose fbsd 0 (k_lot rq_2) = Inl (NullDeref ''td->td_tickets'')"
  proof -
    have l: "td_tickets (k_td (k_lot rq) t) = 20" "next_random (k_lot rq) = 7" for rq t
      by (simp_all add: k_lot_def next_random_def k0_def upd_tdq_def)
    have "rq_1 = rq_1 \<or> rq_1 = rq_2" "rq_2 = rq_1 \<or> rq_2 = rq_2" by simp_all
    note K1 = k_lot_wf [OF this(1)] and K2 = k_lot_wf [OF this(2)]
    have t: "total_proc rq_1 = 1" "num_tickets rq_1 = 20" "total_proc rq_2 = 2" "num_tickets rq_2 = 40" "max_tickets rq_2 = 20"
      by (simp_all add: rq_1_def rq_2_def)
    have d: "drawn (k_lot rq_1) 0 = Some 1" "drawn (k_lot rq_2) 0 = Some 1"
      using K1(9) [of 0] K2(9) [of 0] rq_2_not_1 by (simp_all add: drawn_def K1(7) K2(7) Let_def l t)
    show ?thesis
      using tdq_choose_order [OF K1(1), of 0] tdq_choose_order [OF K2(1), of 0] d by (simp add: K1 K2 Let_def l t)
  qed
  ultimately show ?thesis by blast
qed

text \<open>
  C18: What sched_choose returns to run has left every queue, with all other threads where
  they were and the invariant kept; or it is the CPU's idle thread, and then only lottery
  threads can have been waiting.
\<close>

theorem sched_choose_dequeues:
  assumes "k_wf C k" "sched_choose C self k = Inr (t, k')"
  shows "k_wf C k' \<and>
    ((\<exists>n. t \<in> q_elems k self n) \<and> (\<forall>d m. q_elems k' d m = q_elems k d m - {t}) \<and>
       tdq_lowpri (k_tdq k' self) = td_priority (k_td k t)
     \<or> t = k_idle k self \<and> q_elems k' = q_elems k \<and> (\<forall>n. n \<noteq> RQ_lottery \<longrightarrow> q_elems k self n = {}))"
  using assms by (rule sched_choose_ok)

theorem sched_choose_dequeues_witness: "\<exists>k'. sched_choose fbsd 0 k0 = Inr (100, k') \<and> k_wf fbsd k'"
proof -
  have nl: "no_draw k0 0" by (simp add: no_draw_def tdq0_def k0_def runq_init_def)
  have "tdq_choose fbsd 0 k0 = rbind (runq_choose fbsd (tdq_idle (k_tdq k0 0))) (\<lambda>td. Inr (td, k0))"
    by (rule tdq_choose_idle [OF k0_wf nl]) simp_all
  moreover have "runq_choose fbsd (tdq_idle (k_tdq k0 0)) = Inr None"
    using choose_linear [OF k0_wf, of RQ_idle 0] by simp
  ultimately have "sched_choose fbsd 0 k0 = Inr (100, upd_tdq 0 (\<lambda>q. q\<lparr>tdq_lowpri := 255\<rparr>) k0)"
    by (simp add: sched_choose_def)
  with sched_choose_dequeues [OF k0_wf this] show ?thesis by blast
qed

text \<open>
  Moving work between two CPUs is a transfer: with no lottery threads on the source, a
  non-zero load and its threads locked by it, it never fails; either nothing changes, or one
  thread that may run on the target leaves the source for the target's queue of its class,
  every other thread stays, and the loads change by one each.
\<close>

theorem tdq_move_transfers:
  assumes "kconf_ok C" "k_wf C k" "placed k from" "tdq_load (k_tdq k from) \<noteq> 0" "no_draw k from" "to \<noteq> from"
  shows "\<exists>r k'. tdq_move C from to k = Inr (r, k') \<and> k_wf C k' \<and>
    (case r of
       None \<Rightarrow> k' = k
     | Some t \<Rightarrow> (\<exists>n. t \<in> q_elems k from n) \<and> can_steal (k_td k) to t \<and>
         (\<forall>m. t \<notin> q_elems k' from m) \<and> t \<in> q_elems k' to (queue_of C (k_td k t)) \<and>
         (\<forall>d m. q_elems k' d m - {t} = q_elems k d m - {t}) \<and>
         tdq_load (k_tdq k' from) = tdq_load (k_tdq k from) - 1 \<and> tdq_load (k_tdq k' to) = tdq_load (k_tdq k to) + 1)"
  using assms by (rule tdq_move_ok)

theorem tdq_move_transfers_witness:
  "\<exists>r k'. tdq_move fbsd 0 1 (upd_tdq 0 (\<lambda>q. q\<lparr>tdq_load := 1\<rparr>) k0) = Inr (r, k') \<and> k_wf fbsd k'"
proof -
  let ?k = "upd_tdq 0 (\<lambda>q. q\<lparr>tdq_load := 1\<rparr>) k0"
  have "k_wf fbsd ?k" by (rule k_wf_frame [OF k0_wf]; simp)
  moreover have "placed ?k 0" "no_draw ?k 0"
    by (simp_all add: placed_def no_draw_def q_elems_def runq_init_wf [OF fbsd_rqb_ok] tdq0_def k0_def upd_tdq_def)
       (simp add: runq_init_def)
  ultimately show ?thesis using tdq_move_transfers [OF fbsd_ok, of ?k 0 1] by auto
qed

text \<open>
  C32: Stealing from a realtime or idle queue is exact: the search over status words and bits
  is the search of all lists in order for a thread that is not pinned and may run on the CPU.
\<close>

theorem runq_steal_exact:
  assumes "runq_wf C ths' rq"
  shows "runq_steal C ths rq cpu = find (can_steal ths cpu) (concat (rq_queues rq))"
  using assms by (rule runq_steal_find)

theorem runq_steal_exact_witness: "runq_steal fbsd ths_c rq_c 1 = find (can_steal ths_c 1) (concat (rq_queues rq_c))"
  using rq_c_wf(1) by (rule runq_steal_exact)

text \<open>
  Stealing from the circular queue returns only threads that are queued and may move, and
  finds one unless the only threads that may move are the first that the search meets.
\<close>

theorem runq_steal_from_finds:
  assumes "runq_wf C ths' rq" "unat start < RQ_NQS"
  shows "(\<forall>t. runq_steal_from C ths rq cpu start = Some t \<longrightarrow> t \<in> rq_elems rq \<and> can_steal ths cpu t) \<and>
    (runq_steal_from C ths rq cpu start = None \<longrightarrow>
       (\<forall>t \<in> rq_elems rq. can_steal ths cpu t \<longrightarrow> tailq_first (steal_order rq start) = Some t))"
  using runq_steal_from_sound [OF assms(1)] runq_steal_from_none [OF assms(1)] assms(2) by simp

theorem runq_steal_from_finds_witness: "\<exists>t \<in> {1, 2}. runq_steal_from fbsd ths_c rq_c 1 20 = Some t"
proof -
  have c: "can_steal ths_c 1 t" for t
    by (simp add: can_steal_def THREAD_CAN_MIGRATE_def THREAD_CAN_SCHED_def ths_c_eq ths_a_def upd_td_def)
  have s: "unat (20 :: u_char) < RQ_NQS" by simp
  note F = runq_steal_from_finds [OF rq_c_wf(1) s, where ths = ths_c and cpu = 1]
  show ?thesis
  proof (cases "runq_steal_from fbsd ths_c rq_c 1 20")
    case None
    with F c have False by (auto simp: rq_c_wf(2))
    then show ?thesis ..
  qed (use F in \<open>auto simp: rq_c_wf(2)\<close>)
qed

text \<open>
  The search does miss such a thread: with two threads on one list, the first one free to
  move and the second one pinned, and the removal index 0, nothing is stolen.
\<close>

theorem runq_steal_from_misses:
  "\<exists>ths rq. runq_wf fbsd ths rq \<and> 1 \<in> rq_elems rq \<and> can_steal ths 1 1 \<and> runq_steal_from fbsd ths rq 1 0 = None"
proof -
  let ?ths = "(\<lambda>t. th0\<lparr>td_pinned := if t = 1 then 0 else 1\<rparr>) :: store"
  have bits: "runq_wf fbsd ?ths rq_2"
    by (rule runq_wf_cong [OF k_lot_wf(8) [of rq_2]]) (simp_all add: k_lot_def)
  have lev: "rq_level rq_2 q = (if q = 0 then [1, 2] else [])" if "q < 64" for q
    using k_lot_wf(9) [of rq_2 q] rq_2_not_1 that by simp
  have "steal_order rq_2 0 = concat (map (rq_level rq_2) [0..<64])"
    by (simp only: steal_order_def unsigned_0 RQ_NQS_def) simp
  also have "\<dots> = [1, 2]" using lev by (subst concat_first) simp_all
  finally have "runq_steal_from fbsd ?ths rq_2 1 0 = None"
    by (simp add: runq_steal_from_list [OF bits] can_steal_def THREAD_CAN_MIGRATE_def)
  moreover have "1 \<in> rq_elems rq_2" using k_lot_wf(10) [of rq_2] lev [of 0] by simp
  ultimately show ?thesis using bits by (intro exI [of _ ?ths] exI [of _ rq_2]) (simp add: can_steal_def THREAD_CAN_MIGRATE_def THREAD_CAN_SCHED_def)
qed

text \<open>
  C40: Choosing among lottery threads goes wrong in the model as in the code when the winner
  holds the greatest or the least number of tickets on record: the cursor of the loops over
  the queue is NULL afterwards and is read. So when no realtime and no timeshare thread waits on the
  CPU (one would be returned before any draw), the totals of the lottery are those of its list, at
  least two threads with at least one ticket wait there and each holds the greatest or the least
  number, the choice fails for every value of random().
\<close>

theorem tdq_choose_lottery_null:
  assumes wf: "k_wf C k" and e: "q_elems k c RQ_realtime = {}" "q_elems k c RQ_timeshare = {}"
    and a: "lottery_acct (k_td k) (tdq_lottery (k_tdq k c))" and n: "num_tickets (tdq_lottery (k_tdq k c)) \<noteq> 0"
    and two: "total_proc (tdq_lottery (k_tdq k c)) > 1"
    and ext: "\<forall>t \<in> q_elems k c RQ_lottery. td_tickets (k_td k t) = max_tickets (tdq_lottery (k_tdq k c)) \<or>
      td_tickets (k_td k t) = min_tickets (tdq_lottery (k_tdq k c))"
  shows "tdq_choose C c k = Inl (NullDeref ''td->td_tickets'')"
  using tdq_choose_lottery [OF wf e a n] two ext by auto

theorem tdq_choose_lottery_null_witness: "tdq_choose fbsd 0 (k_lot rq_2) = Inl (NullDeref ''td->td_tickets'')"
proof -
  have "rq_2 = rq_1 \<or> rq_2 = rq_2" by simp
  note K = k_lot_wf [OF this]
  show ?thesis
    by (rule tdq_choose_lottery_null [OF K(1,3,4)]) (use K(6) in \<open>simp_all add: K(7)\<close>, simp_all add: rq_2_def k_lot_def)
qed

text \<open>
  More nice, more tickets: a thread that is nicer, which should run less, gets more of the
  lottery, and a thread of the best nice value -20 gets no ticket at all.
\<close>

theorem lottery_nice_inverted:
  assumes "-20 \<le> n1" "n1 < n2" "n2 \<le> 20"
  shows "\<exists>ths1 rq1 ths2 rq2. tdq_lottery_add C ths rq td n1 flags = Inr (ths1, rq1) \<and>
    tdq_lottery_add C ths rq td n2 flags = Inr (ths2, rq2) \<and> tickets ths1 td < tickets ths2 td \<and>
    tickets ths1 td = nat (20 + n1)"
  using assms by (simp add: tdq_lottery_add_eq tickets_def unat_nice_tickets)

theorem lottery_nice_inverted_witness:
  "\<exists>ths1 rq1. tdq_lottery_add fbsd ths_a (runq_init fbsd) 1 (-20) {} = Inr (ths1, rq1) \<and> tickets ths1 1 = 0"
  using lottery_nice_inverted [of "-20" 0 fbsd ths_a "runq_init fbsd" 1 "{}"] by auto

text \<open>
  Looking costs the thread its place. When the last lottery thread waits and the lowest
  priority is recomputed, the draw takes the thread off the totals without taking it off the
  list; from then on the choice does not see it, and the CPU goes idle with it queued.
\<close>

theorem setlowpri_loses_thread:
  assumes wf: "k_wf C k" and e: "q_elems k c RQ_realtime = {}" "q_elems k c RQ_timeshare = {}" "q_elems k c RQ_idle = {}"
    and a: "lottery_acct (k_td k) (tdq_lottery (k_tdq k c))" and n: "num_tickets (tdq_lottery (k_tdq k c)) \<noteq> 0"
    and one: "total_proc (tdq_lottery (k_tdq k c)) = 1"
  shows "\<exists>k' t. tdq_setlowpri C c ctd k = Inr k' \<and> t \<in> q_elems k' c RQ_lottery \<and> tdq_choose C c k' = Inr (None, k')"
proof -
  obtain t k1 where 1: "tdq_choose C c k = Inr (Some t, k1)" "t \<in> q_elems k c RQ_lottery" "no_draw k1 c"
    using tdq_choose_lottery [OF wf e(1,2) a n] one by (auto simp: no_draw_def)
  let ?ctd = "case ctd of None \<Rightarrow> k_cur k c | Some t \<Rightarrow> t"
  define p where "p = (if td_priority (k_td k1 t) > td_priority (k_td k1 ?ctd) then td_priority (k_td k1 ?ctd) else td_priority (k_td k1 t))"
  define k' where "k' = upd_tdq c (\<lambda>q. q\<lparr>tdq_lowpri := p\<rparr>) k1"
  have 2: "tdq_setlowpri C c ctd k = Inr k'"
    using 1(1) by (simp add: tdq_setlowpri_def Let_def k'_def p_def)
  have i: "k_inert C k k'" by (rule tdq_setlowpri_ok(1) [OF wf 2])
  have w: "k_wf C k'" "q_elems k' = q_elems k" using i wf by (simp_all add: k_inert_def)
  have "no_draw k' c" using 1(3) by (simp add: no_draw_def k'_def)
  then have "tdq_choose C c k' = Inr (None, k')"
    using tdq_choose_idle [OF w(1)] choose_linear [OF w(1), of RQ_idle c] e w(2) by simp
  then show ?thesis using 2 1(2) w(2) by auto
qed

theorem setlowpri_loses_thread_witness:
  "\<exists>k' t. tdq_setlowpri fbsd 0 None (k_lot rq_1) = Inr k' \<and> t \<in> q_elems k' 0 RQ_lottery \<and>
    tdq_choose fbsd 0 k' = Inr (None, k')"
proof -
  have "rq_1 = rq_1 \<or> rq_1 = rq_2" by simp
  note K = k_lot_wf [OF this]
  show ?thesis
    by (rule setlowpri_loses_thread [OF K(1,3,4,5)]) (use K(6) in \<open>simp_all add: K(7)\<close>, simp_all add: rq_1_def)
qed

end
