(* ===== verification/CpuSearch.thy ===== *)
theory CpuSearch
  imports Tdq
begin

text \<open>
  The part of asgn2/sched_ule.c that looks at several CPUs: the search of the topology tree
  for the least or the most loaded CPU, the long-term balancer, stealing by an idle CPU, the
  notification of a remote CPU, and the choice of a CPU for a thread.
\<close>

subsection \<open>Searching the topology\<close>

text \<open>struct cpu_search; the name is that of the function too.\<close>

record cpu_search_s =
  cs_mask :: "cpuid set"
  cs_prefer :: int
  cs_pri :: int
  cs_limit :: int
  cs_cpu :: int
  cs_load :: int

datatype cpu_match = CPU_SEARCH_LOWEST | CPU_SEARCH_HIGHEST | CPU_SEARCH_BOTH

definition match_low :: "cpu_match \<Rightarrow> bool" where
  "match_low m \<longleftrightarrow> m \<noteq> CPU_SEARCH_HIGHEST"

definition match_high :: "cpu_match \<Rightarrow> bool" where
  "match_high m \<longleftrightarrow> m \<noteq> CPU_SEARCH_LOWEST"

definition INT_MAX :: int where "INT_MAX = 2147483647"
definition INT_MIN :: int where "INT_MIN = -2147483648"

text \<open>
  The variables of cpu_search: the caller's low and high, the local copies for one item, the
  loads of the best items, the sum of the loads, and the state of sched_random on this CPU.
\<close>

record search_st =
  s_low :: cpu_search_s
  s_high :: cpu_search_s
  s_lgroup :: cpu_search_s
  s_hgroup :: cpu_search_s
  s_lload :: int
  s_hload :: int
  s_total :: int
  s_rnd :: u_int

text \<open>The end of the loop body: the load of the item is added and the item compared.\<close>

definition search_compare :: "cpu_match \<Rightarrow> int \<Rightarrow> search_st \<Rightarrow> search_st" where
  "search_compare m load s =
     (let s1 = s\<lparr>s_total := s_total s + load\<rparr>;
          s2 = (if match_low m \<and> cs_cpu (s_lgroup s1) \<ge> 0 \<and>
                   (load < s_lload s1 \<or> load = s_lload s1 \<and> cs_load (s_lgroup s1) < cs_load (s_low s1))
                then s1\<lparr>s_lload := load, s_low := (s_low s1)\<lparr>cs_cpu := cs_cpu (s_lgroup s1), cs_load := cs_load (s_lgroup s1)\<rparr>\<rparr>
                else s1)
      in if match_high m \<and> cs_cpu (s_hgroup s2) \<ge> 0 \<and>
            (load > s_hload s2 \<or> load = s_hload s2 \<and> cs_load (s_hgroup s2) > cs_load (s_high s2))
         then s2\<lparr>s_hload := load, s_high := (s_high s2)\<lparr>cs_cpu := cs_cpu (s_hgroup s2), cs_load := cs_load (s_hgroup s2)\<rparr>\<rparr>
         else s2)"

text \<open>The start of the loop body: no CPU found yet for the item.\<close>

definition search_clear :: "cpu_match \<Rightarrow> search_st \<Rightarrow> search_st" where
  "search_clear m s =
     (let s1 = (if match_low m then s\<lparr>s_lgroup := (s_lgroup s)\<lparr>cs_cpu := -1\<rparr>\<rparr> else s)
      in if match_high m then s1\<lparr>s_hgroup := (s_hgroup s1)\<lparr>cs_cpu := -1\<rparr>\<rparr> else s1)"

text \<open>An item that is a CPU: its load, and the CPU if it is allowed.\<close>

definition search_item :: "(cpuid \<Rightarrow> tdq) \<Rightarrow> cpu_match \<Rightarrow> cpuid \<Rightarrow> search_st \<Rightarrow> int \<times> search_st" where
  "search_item T m cpu s =
     (let tdq = T cpu;
          (r, rs) = sched_random (s_rnd s);
          s1 = s\<lparr>s_rnd := rs\<rparr>;
          rnd = uint (r mod 32);
          load0 = tdq_load tdq * 256;
          load = (if match_low m \<and> int cpu = cs_prefer (s_low s1) then load0 - 64 else load0);
          s2 = (if match_low m \<and> uint (tdq_lowpri tdq) > cs_pri (s_lgroup s1) \<and>
                   tdq_load tdq \<le> cs_limit (s_lgroup s1) \<and> cpu \<in> cs_mask (s_lgroup s1)
                then s1\<lparr>s_lgroup := (s_lgroup s1)\<lparr>cs_cpu := int cpu, cs_load := load - rnd\<rparr>\<rparr> else s1);
          s3 = (if match_high m \<and> tdq_load tdq \<ge> cs_limit (s_hgroup s2) \<and> tdq_transferable tdq \<noteq> 0 \<and>
                   cpu \<in> cs_mask (s_hgroup s2)
                then s2\<lparr>s_hgroup := (s_hgroup s2)\<lparr>cs_cpu := int cpu, cs_load := load - rnd\<rparr>\<rparr> else s2)
      in (load, s3))"

definition search_cpu :: "(cpuid \<Rightarrow> tdq) \<Rightarrow> cpu_match \<Rightarrow> cpuid \<Rightarrow> search_st \<Rightarrow> search_st" where
  "search_cpu T m cpu s =
     (let (load, s1) = search_item T m cpu (search_clear m s) in search_compare m load s1)"

definition search_init :: "cpu_search_s \<Rightarrow> cpu_search_s \<Rightarrow> u_int \<Rightarrow> search_st" where
  "search_init low high r = \<lparr>s_low = low, s_high = high, s_lgroup = low, s_hgroup = high,
     s_lload = INT_MAX, s_hload = INT_MIN, s_total = 0, s_rnd = r\<rparr>"

text \<open>
  The CPUs of a group that no child group has, in the order of the loop: by CPU_FFS the least
  first, without an inline ffsl the greatest first.
\<close>

definition own_cpus :: "'a kconf_scheme \<Rightarrow> cpuid set \<Rightarrow> cpu_group list \<Rightarrow> cpuid list" where
  "own_cpus C msk children =
     (let cpus = filter (\<lambda>c. c \<in> msk \<and> (\<forall>g \<in> set children. c \<notin> cg_mask g)) [0..<Suc (mp_maxid C)]
      in if HAVE_INLINE_FFSL C then cpus else rev cpus)"

text \<open>
  The search: the children from the last to the first, then the CPUs. Of the caller's low and
  high only those that the match uses mean anything.
\<close>

fun cpu_search :: "'a kconf_scheme \<Rightarrow> (cpuid \<Rightarrow> tdq) \<Rightarrow> cpu_match \<Rightarrow> cpu_group \<Rightarrow>
    cpu_search_s \<Rightarrow> cpu_search_s \<Rightarrow> u_int \<Rightarrow> int \<times> cpu_search_s \<times> cpu_search_s \<times> u_int"
  and search_children :: "'a kconf_scheme \<Rightarrow> (cpuid \<Rightarrow> tdq) \<Rightarrow> cpu_match \<Rightarrow> cpu_group list \<Rightarrow> search_st \<Rightarrow> search_st"
where
  "cpu_search C T m (CpuGroup msk level flags children) low high r =
     (let s = fold (search_cpu T m) (own_cpus C msk children)
                (search_children C T m children (search_init low high r))
      in (s_total s, s_low s, s_high s, s_rnd s))"
| "search_children C T m [] s = s"
| "search_children C T m (child # cs) s =
     (let s1 = search_clear m (search_children C T m cs s);
          (load, lg, hg, r) = cpu_search C T m child (s_lgroup s1) (s_hgroup s1) (s_rnd s1)
      in search_compare m load (s1\<lparr>s_lgroup := lg, s_hgroup := hg, s_rnd := r\<rparr>))"

text \<open>
  The callers leave cs_load unset; its value is not read before it is set. \<open>self\<close> is the CPU
  whose random numbers are used.
\<close>

definition no_search :: cpu_search_s where
  "no_search = \<lparr>cs_mask = {}, cs_prefer = 0, cs_pri = 0, cs_limit = 0, cs_cpu = -1, cs_load = 0\<rparr>"

definition sched_lowest :: "'a kconf_scheme \<Rightarrow> cpuid \<Rightarrow> cpu_group \<Rightarrow> cpuid set \<Rightarrow> int \<Rightarrow> int \<Rightarrow> int \<Rightarrow> kern \<Rightarrow> int \<times> kern" where
  "sched_lowest C self cg msk pri maxload prefer k =
     (let low = no_search\<lparr>cs_cpu := -1, cs_prefer := prefer, cs_mask := msk, cs_pri := pri, cs_limit := maxload\<rparr>;
          (_, low', _, r) = cpu_search C (k_tdq k) CPU_SEARCH_LOWEST cg low no_search (k_randomval k self)
      in (cs_cpu low', k\<lparr>k_randomval := (k_randomval k)(self := r)\<rparr>))"

definition sched_highest :: "'a kconf_scheme \<Rightarrow> cpuid \<Rightarrow> cpu_group \<Rightarrow> cpuid set \<Rightarrow> int \<Rightarrow> kern \<Rightarrow> int \<times> kern" where
  "sched_highest C self cg msk minload k =
     (let high = no_search\<lparr>cs_cpu := -1, cs_mask := msk, cs_limit := minload\<rparr>;
          (_, _, high', r) = cpu_search C (k_tdq k) CPU_SEARCH_HIGHEST cg no_search high (k_randomval k self)
      in (cs_cpu high', k\<lparr>k_randomval := (k_randomval k)(self := r)\<rparr>))"

subsection \<open>Notification\<close>

definition tdq_notify :: "'a kconf_scheme \<Rightarrow> cpuid \<Rightarrow> tid \<Rightarrow> kern \<Rightarrow> kern" where
  "tdq_notify C c td k =
     (if tdq_ipipending (k_tdq k c) then k
      else (let cpu = ts_cpu (k_td k td);
                pri = uint (td_priority (k_td k td));
                ctd = k_cur k cpu
            in if \<not> sched_shouldpreempt C (k_tun k) pri (uint (td_priority (k_td k ctd))) True then k
               else if TD_IS_IDLETHREAD (k_td k ctd) \<and> (\<not> tdq_cpu_idle (k_tdq k c) \<or> cpu_idle_wakeup C cpu) then k
               else ext_call (IPI_PREEMPT cpu) (upd_tdq c (\<lambda>q. q\<lparr>tdq_ipipending := True\<rparr>) k)))"

subsection \<open>The other CPUs\<close>

text \<open>
  The loops below run without the locks of the queues: what the other CPUs do is an argument, one
  function of the state for each place where they can get in between and each round. \<open>rv_search\<close> acts
  between a search and the first look at what it found, \<open>rv_lock\<close> while the locks of two queues are
  waited for; a search itself reads one state. Rounds are counted down to 0, from \<open>rv_rounds\<close> where
  nothing bounds their number.
\<close>

record rivals =
  rv_rounds :: nat
  rv_search :: "nat \<Rightarrow> kern \<Rightarrow> kern"
  rv_lock :: "nat \<Rightarrow> kern \<Rightarrow> kern"
  rv_pair :: "nat \<Rightarrow> nat \<Rightarrow> kern \<Rightarrow> kern"

text \<open>Nobody else runs.\<close>

definition quiet_cpus :: "nat \<Rightarrow> rivals" where
  "quiet_cpus n = \<lparr>rv_rounds = n, rv_search = (\<lambda>_. id), rv_lock = (\<lambda>_. id), rv_pair = (\<lambda>_ _. id)\<rparr>"

text \<open>CPU_FILL sets every bit of a cpuset_t, of which there are MAXCPU, 256 on amd64.\<close>

definition CPU_SETSIZE :: nat where "CPU_SETSIZE = 256"

definition all_cpus :: "cpuid set" where
  "all_cpus = {0..<CPU_SETSIZE}"

subsection \<open>The long-term balancer\<close>

definition sched_balance_pair :: "'a kconf_scheme \<Rightarrow> cpuid \<Rightarrow> cpuid \<Rightarrow> cpuid \<Rightarrow> kern \<Rightarrow> fault + (bool \<times> kern)" where
  "sched_balance_pair C self high low k =
     (if tdq_transferable (k_tdq k high) \<noteq> 0 \<and> tdq_load (k_tdq k high) > tdq_load (k_tdq k low) then
        rbind (tdq_move C high low k) (\<lambda>(td, k1).
          (case td of
             None \<Rightarrow> Inr (False, k1)
           | Some t \<Rightarrow> Inr (True, if low \<noteq> self then tdq_notify C low t k1 else k1)))
      else Inr (False, k))"

text \<open>
  The loops of sched_balance_group, with fuel for the iterations: the inner one over the low
  CPUs of one high CPU, the outer one over the high CPUs. Every round takes a CPU out of a mask.
\<close>

datatype low_result = BreakAll | NextHigh | MovedTo cpuid

fun balance_low :: "nat \<Rightarrow> (nat \<Rightarrow> kern \<Rightarrow> kern) \<Rightarrow> 'a kconf_scheme \<Rightarrow> cpuid \<Rightarrow> cpu_group \<Rightarrow> cpuid \<Rightarrow> cpuid set \<Rightarrow> bool \<Rightarrow> kern \<Rightarrow> fault + (low_result \<times> kern)" where
  "balance_low 0 others C self cg high lmask anylow k = Inl (Diverges ''sched_balance_group'')"
| "balance_low (Suc n) others C self cg high lmask anylow k =
     (let (low, k1) = sched_lowest C self cg lmask (-1) (tdq_load (k_tdq k high) - 1) (int high) k
      in if anylow \<and> low = -1 then Inr (BreakAll, k1)
         else if low = -1 then Inr (NextHigh, k1)
         else rbind (sched_balance_pair C self high (nat low) (others n k1)) (\<lambda>(moved, k2).
                if moved then Inr (MovedTo (nat low), k2)
                else balance_low n others C self cg high (lmask - {nat low}) False k2))"

fun balance_high :: "nat \<Rightarrow> nat \<Rightarrow> rivals \<Rightarrow> 'a kconf_scheme \<Rightarrow> cpuid \<Rightarrow> cpu_group \<Rightarrow> cpuid set \<Rightarrow> kern \<Rightarrow> fault + kern" where
  "balance_high 0 m W C self cg hmask k = Inl (Diverges ''sched_balance_group'')"
| "balance_high (Suc n) m W C self cg hmask k =
     (let (high, k1) = sched_highest C self cg hmask 2 k
      in if high = -1 then Inr k1
         else (let hmask1 = hmask - {nat high}
               in if hmask1 = {} then Inr k1
                  else rbind (balance_low m (rv_pair W n) C self cg (nat high) hmask1 True (rv_search W n k1)) (\<lambda>(r, k2).
                    (case r of
                       BreakAll \<Rightarrow> Inr k2
                     | NextHigh \<Rightarrow> balance_high n m W C self cg hmask1 k2
                     | MovedTo low \<Rightarrow> balance_high n m W C self cg (hmask1 - {low}) k2))))"

definition sched_balance_group :: "rivals \<Rightarrow> 'a kconf_scheme \<Rightarrow> cpuid \<Rightarrow> cpu_group \<Rightarrow> kern \<Rightarrow> fault + kern" where
  "sched_balance_group W C self cg k = balance_high (CPU_SETSIZE + 1) (CPU_SETSIZE + 1) W C self cg all_cpus k"

definition sched_balance :: "rivals \<Rightarrow> 'a kconf_scheme \<Rightarrow> cpuid \<Rightarrow> kern \<Rightarrow> fault + kern" where
  "sched_balance W C self k =
     (if \<not> k_smp_started k \<or> \<not> rebalance (k_tun k) then Inr k
      else if balance_interval (k_tun k) = 0 then Inl (DivByZero ''sched_balance'')
      else (let (r, rs) = sched_random (k_randomval k self);
                k1 = k\<lparr>k_randomval := (k_randomval k)(self := rs),
                       k_balance_ticks := max (c_div (balance_interval (k_tun k)) 2) 1 +
                                          uint r mod balance_interval (k_tun k)\<rparr>
            in sched_balance_group W C self (k_cputop k1) k1))"

subsection \<open>Stealing when idle\<close>

text \<open>The data of a search is stale: the CPU has no eligible thread any more.\<close>

definition stale_steal :: "kern \<Rightarrow> cpuid \<Rightarrow> bool" where
  "stale_steal k c \<longleftrightarrow> tdq_load (k_tdq k c) < steal_thresh (k_tun k) \<or> tdq_transferable (k_tdq k c) = 0"

text \<open>
  \<open>tdq_idled\<close>: True for the result 1. The path is that of \<open>cg\<close>. The restarts come from what other
  CPUs do between the search, the first look and the locks.
\<close>

fun idled_loop :: "nat \<Rightarrow> rivals \<Rightarrow> 'a kconf_scheme \<Rightarrow> cpuid \<Rightarrow> cpu_group list \<Rightarrow> cpuid set \<Rightarrow> int \<Rightarrow> kern \<Rightarrow> fault + (bool \<times> kern)" where
  "idled_loop 0 W C self path msk switchcnt k = Inl (Diverges ''tdq_idled'')"
| "idled_loop (Suc n) W C self [] msk switchcnt k = Inl (NullDeref ''cg->cg_mask'')"
| "idled_loop (Suc n) W C self (cg # path) msk switchcnt k =
     (let (cpu, k) = sched_highest C self cg msk (steal_thresh (k_tun k)) k;
          k = rv_search W n k;
          cnt = (\<lambda>k. tdq_switchcnt (k_tdq k self) + tdq_oldswitchcnt (k_tdq k self));
          restart = (\<lambda>k. idled_loop n W C self (tdq_cg (k_tdq k self)) msk (cnt k) k);
          switch = (\<lambda>k. Inr (False, ext_call (MI_SWITCH self {SW_VOL, SWT_IDLE}) k))
      in if tdq_load (k_tdq k self) \<noteq> 0 then Inr (False, k)
         else if cpu = -1 then (if path = [] then Inr (True, k) else idled_loop n W C self path msk switchcnt k)
         else if stale_steal k (nat cpu) then restart k
         else (let k = rv_lock W n k
               in if tdq_load (k_tdq k self) \<noteq> 0 then switch k
                  else if stale_steal k (nat cpu) \<or> switchcnt \<noteq> cnt k then restart k
                  else rbind (tdq_move C (nat cpu) self k) (\<lambda>(td, k).
                         if td \<noteq> None then switch k
                         else idled_loop n W C self (cg # path) (msk - {nat cpu}) switchcnt k)))"

definition tdq_idled :: "rivals \<Rightarrow> 'a kconf_scheme \<Rightarrow> cpuid \<Rightarrow> kern \<Rightarrow> fault + (bool \<times> kern)" where
  "tdq_idled W C self k =
     (if \<not> k_smp_started k \<or> \<not> steal_idle (k_tun k) \<or> tdq_cg (k_tdq k self) = [] then Inr (True, k)
      else idled_loop (rv_rounds W) W C self (tdq_cg (k_tdq k self))
             (all_cpus - {self}) (tdq_switchcnt (k_tdq k self) + tdq_oldswitchcnt (k_tdq k self)) k)"

text \<open>\<open>tdq_trysteal\<close>: \<open>i\<close> counts the levels of the topology.\<close>

fun trysteal_loop :: "nat \<Rightarrow> rivals \<Rightarrow> 'a kconf_scheme \<Rightarrow> cpuid \<Rightarrow> int \<Rightarrow> cpu_group list \<Rightarrow> cpuid set \<Rightarrow> kern \<Rightarrow> fault + kern" where
  "trysteal_loop 0 W C self i path msk k = Inl (Diverges ''tdq_trysteal'')"
| "trysteal_loop (Suc n) W C self i [] msk k = Inl (NullDeref ''cg->cg_mask'')"
| "trysteal_loop (Suc n) W C self i (cg # path) msk k =
     (let (cpu, k) = sched_highest C self cg msk (steal_thresh (k_tun k)) k;
          k = rv_search W n k
      in if tdq_load (k_tdq k self) > 0 then Inr k
         else if cpu = -1 then
           (if path = [] \<or> i + 1 > trysteal_limit (k_tun k) then Inr k
            else trysteal_loop n W C self (i + 1) path msk k)
         else if stale_steal k (nat cpu) then trysteal_loop n W C self i (cg # path) msk k
         else (let k = rv_lock W n k
               in if tdq_load (k_tdq k self) > 0 then Inr k
                  else if stale_steal k (nat cpu) then Inr k
                  else rbind (tdq_move C (nat cpu) self k) (\<lambda>(td, k). Inr k)))"

definition tdq_trysteal :: "rivals \<Rightarrow> 'a kconf_scheme \<Rightarrow> cpuid \<Rightarrow> kern \<Rightarrow> fault + kern" where
  "tdq_trysteal W C self k =
     (if \<not> k_smp_started k \<or> trysteal_limit (k_tun k) = 0 \<or> tdq_cg (k_tdq k self) = [] then Inr k
      else trysteal_loop (rv_rounds W) W C self 1 (tdq_cg (k_tdq k self)) (all_cpus - {self}) k)"

subsection \<open>Choosing a CPU for a thread\<close>

definition SCHED_AFFINITY :: "tunables \<Rightarrow> c_int \<Rightarrow> thread \<Rightarrow> int \<Rightarrow> bool" where
  "SCHED_AFFINITY T now td t \<longleftrightarrow> sint (ts_rltick td) > sint (now - of_int (t * affinity T))"

text \<open>The last group on the way to the root that is no SMT group and has affinity left.\<close>

fun cache_group :: "tunables \<Rightarrow> c_int \<Rightarrow> thread \<Rightarrow> cpu_group list \<Rightarrow> cpu_group option \<Rightarrow> cpu_group option" where
  "cache_group T now td [] ccg = ccg"
| "cache_group T now td (cg # path) ccg =
     (if CG_FLAG_THREAD \<in> cg_flags cg then cache_group T now td path ccg
      else if \<not> SCHED_AFFINITY T now td (cg_level cg) then cache_group T now td path ccg
      else cache_group T now td path (Some cg))"

text \<open>The search of sched_pickcpu, in three rounds, and the comparison with this CPU.\<close>

definition pickcpu_search :: "'a kconf_scheme \<Rightarrow> cpuid \<Rightarrow> tid \<Rightarrow> int \<Rightarrow> cpu_group list \<Rightarrow> kern \<Rightarrow> fault + (int \<times> kern)" where
  "pickcpu_search C self td pri path k =
     (let th = k_td k td;
          cg = cache_group (k_tun k) (k_ticks k) th path None;
          msk = td_cpuset th;
          top = k_cputop k;
          (cpu1, k1) = (case cg of
              Some g \<Rightarrow> if g \<noteq> top \<and> cg_mask g \<noteq> cg_mask top
                        then sched_lowest C self g msk (max pri (PRI_MAX_TIMESHARE C)) INT_MAX (int (ts_cpu th)) k
                        else (-1, k)
            | None \<Rightarrow> (-1, k));
          (cpu2, k2) = (if cpu1 = -1 then sched_lowest C self top msk pri INT_MAX (int (ts_cpu th)) k1 else (cpu1, k1));
          (cpu3, k3) = (if cpu2 = -1 then sched_lowest C self top msk (-1) INT_MAX (int (ts_cpu th)) k2 else (cpu2, k2))
      in rbind (kassert (cpu3 \<noteq> -1) ''sched_pickcpu: Failed to find a cpu.'') (\<lambda>_.
           if THREAD_CAN_SCHED th self \<and> uint (tdq_lowpri (k_tdq k3 self)) > pri \<and>
              uint (tdq_lowpri (k_tdq k3 (nat cpu3))) < PRI_MIN_IDLE C \<and>
              tdq_load (k_tdq k3 self) \<le> tdq_load (k_tdq k3 (nat cpu3)) + 1
           then Inr (int self, k3) else Inr (cpu3, k3)))"

definition sched_pickcpu :: "'a kconf_scheme \<Rightarrow> cpuid \<Rightarrow> tid \<Rightarrow> srq set \<Rightarrow> kern \<Rightarrow> fault + (cpuid \<times> kern)" where
  "sched_pickcpu C self td flags k =
     (if \<not> k_smp_started k then Inr (self, k)
      else if SRQ_OURSELF \<in> flags \<or> \<not> THREAD_CAN_MIGRATE (k_td k td) then Inr (ts_cpu (k_td k td), k)
      else (let pri = uint (td_priority (k_td k td));
                intr = (pri \<le> PRI_MAX_ITHD C \<and> THREAD_CAN_SCHED (k_td k td) self \<and>
                        td_intr_nesting_level (k_td k (k_cur k self)) \<noteq> 0 \<and> ts_cpu (k_td k td) \<noteq> self);
                k1 = (if intr then upd_th td (ts_cpu_update (\<lambda>_. self)) k else k)
            in if intr \<and> uint (tdq_lowpri (k_tdq k1 self)) > pri then Inr (ts_cpu (k_td k1 td), k1)
               else (let c = ts_cpu (k_td k1 td);
                         path = tdq_cg (k_tdq k1 c);
                         affine = (THREAD_CAN_SCHED (k_td k1 td) c \<and> uint (tdq_lowpri (k_tdq k1 c)) \<ge> PRI_MIN_IDLE C \<and>
                                   SCHED_AFFINITY (k_tun k1) (k_ticks k1) (k_td k1 td) (CG_SHARE_L2 C))
                     in rbind
                          (if \<not> affine then Inr False
                           else (case path of
                                   [] \<Rightarrow> Inl (NullDeref ''cg->cg_flags'')
                                 | cg # _ \<Rightarrow>
                                     Inr (CG_FLAG_THREAD \<notin> cg_flags cg \<or>
                                          (\<forall>cpu \<in> set [0..<Suc (mp_maxid C)]. cpu \<in> cg_mask cg \<longrightarrow>
                                             \<not> uint (tdq_lowpri (k_tdq k1 cpu)) < PRI_MIN_IDLE C))))
                          (\<lambda>stay. if stay then Inr (c, k1)
                                  else rbind (pickcpu_search C self td pri path k1) (\<lambda>(cpu, k2). Inr (nat cpu, k2))))))"

definition sched_setcpu :: "tid \<Rightarrow> cpuid \<Rightarrow> kern \<Rightarrow> kern" where
  "sched_setcpu td cpu k =
     (let k1 = upd_th td (ts_cpu_update (\<lambda>_. cpu)) k
      in if td_lock (k_td k1 td) = TDQ_LOCKPTR cpu then k1
         else upd_th td (td_lock_update (\<lambda>_. TDQ_LOCKPTR cpu)) k1)"

end
