(* ===== verification/SchedOps.thy ===== *)
theory SchedOps
  imports CpuSearch
begin

text \<open>
  The entry points of asgn2/sched_ule.c and the thread-level functions of asgn2/kern_switch.c:
  adding a thread, changing priorities, sleeping and waking, forking and exiting, the clock
  tick, binding, and the context switch. \<open>self\<close> is the CPU that executes the function and
  \<open>k_cur k self\<close> its curthread.
\<close>

subsection \<open>Threads and their states\<close>

definition TD_SET_RUNNING :: "tid \<Rightarrow> kern \<Rightarrow> kern" where
  "TD_SET_RUNNING td k = upd_th td (td_state_update (\<lambda>_. TDS_RUNNING)) k"

definition TD_SET_CAN_RUN :: "tid \<Rightarrow> kern \<Rightarrow> kern" where
  "TD_SET_CAN_RUN td k = upd_th td (td_state_update (\<lambda>_. TDS_CAN_RUN)) k"

text \<open>The functions of SchedPri on a thread of the state.\<close>

definition k_priority :: "'a kconf_scheme \<Rightarrow> tid \<Rightarrow> kern \<Rightarrow> fault + kern" where
  "k_priority C td k =
     rbind (sched_priority C (k_tun k) (td_nice k td) (k_td k td)) (\<lambda>t. Inr (upd_th td (\<lambda>_. t) k))"

definition k_pctcpu_update :: "'a kconf_scheme \<Rightarrow> tid \<Rightarrow> bool \<Rightarrow> kern \<Rightarrow> fault + kern" where
  "k_pctcpu_update C td run k =
     rbind (sched_pctcpu_update C (k_ticks k) (k_td k td) run) (\<lambda>t. Inr (upd_th td (\<lambda>_. t) k))"

definition k_interact_update :: "'a kconf_scheme \<Rightarrow> tid \<Rightarrow> kern \<Rightarrow> kern" where
  "k_interact_update C td k = upd_th td (sched_interact_update C) k"

definition k_interact_fork :: "'a kconf_scheme \<Rightarrow> tid \<Rightarrow> kern \<Rightarrow> fault + kern" where
  "k_interact_fork C td k = rbind (sched_interact_fork C (k_td k td)) (\<lambda>t. Inr (upd_th td (\<lambda>_. t) k))"

subsection \<open>Adding a thread\<close>

definition sched_setpreempt :: "'a kconf_scheme \<Rightarrow> cpuid \<Rightarrow> tid \<Rightarrow> kern \<Rightarrow> kern" where
  "sched_setpreempt C self td k =
     (let ctd = k_cur k self;
          pri = uint (td_priority (k_td k td));
          cpri = uint (td_priority (k_td k ctd));
          k1 = (if pri < cpri then upd_th ctd (\<lambda>t. t\<lparr>td_flags := set_flag (td_flags t) TDF_NEEDRESCHED\<rparr>) k else k)
      in if k_panicstr k1 \<or> pri \<ge> cpri \<or> k_cold k1 \<or> TD_IS_INHIBITED (k_td k1 ctd) then k1
         else if \<not> sched_shouldpreempt C (k_tun k1) pri cpri False then k1
         else upd_th ctd (td_owepreempt_update (\<lambda>_. True)) k1)"

definition sched_add :: "'a kconf_scheme \<Rightarrow> cpuid \<Rightarrow> tid \<Rightarrow> srq set \<Rightarrow> kern \<Rightarrow> fault + kern" where
  "sched_add C self td flags k =
     rbind (if PRI_BASE C (td_pri_class (k_td k td)) = PRI_TIMESHARE C then k_priority C td k else Inr k) (\<lambda>k1.
     rbind (sched_pickcpu C self td flags k1) (\<lambda>(cpu, k2).
     rbind (tdq_add C cpu td flags (sched_setcpu td cpu k2)) (\<lambda>k3.
       Inr (if cpu \<noteq> self then tdq_notify C cpu td k3
            else if SRQ_YIELDING \<notin> flags then sched_setpreempt C self td k3
            else k3))))"

subsection \<open>Priorities\<close>

definition sched_thread_priority :: "'a kconf_scheme \<Rightarrow> cpuid \<Rightarrow> tid \<Rightarrow> u_char \<Rightarrow> kern \<Rightarrow> fault + kern" where
  "sched_thread_priority C self td prio k =
     (if td_priority (k_td k td) = prio then Inr k
      else if TD_ON_RUNQ (k_td k td) \<and> prio < td_priority (k_td k td) then
        rbind (sched_rem C td k) (\<lambda>k1.
          sched_add C self td {SRQ_BORROWING} (upd_th td (td_priority_update (\<lambda>_. prio)) k1))
      else if TD_IS_RUNNING (k_td k td) then
        (let c = ts_cpu (k_td k td);
             oldpri = td_priority (k_td k td);
             k1 = upd_th td (td_priority_update (\<lambda>_. prio)) k
         in if prio < tdq_lowpri (k_tdq k1 c) then Inr (upd_tdq c (\<lambda>q. q\<lparr>tdq_lowpri := prio\<rparr>) k1)
            else if tdq_lowpri (k_tdq k1 c) = oldpri then tdq_setlowpri C c (Some td) k1
            else Inr k1)
      else Inr (upd_th td (td_priority_update (\<lambda>_. prio)) k))"

definition sched_lend_prio :: "'a kconf_scheme \<Rightarrow> cpuid \<Rightarrow> tid \<Rightarrow> u_char \<Rightarrow> kern \<Rightarrow> fault + kern" where
  "sched_lend_prio C self td prio k =
     sched_thread_priority C self td prio
       (upd_th td (\<lambda>t. t\<lparr>td_flags := set_flag (td_flags t) TDF_BORROWING\<rparr>) k)"

definition sched_unlend_prio :: "'a kconf_scheme \<Rightarrow> cpuid \<Rightarrow> tid \<Rightarrow> u_char \<Rightarrow> kern \<Rightarrow> fault + kern" where
  "sched_unlend_prio C self td prio k =
     (let th = k_td k td;
          base_pri = (if uint (td_base_pri th) \<ge> PRI_MIN_TIMESHARE C \<and> uint (td_base_pri th) \<le> PRI_MAX_TIMESHARE C
                      then td_user_pri th else td_base_pri th)
      in if prio \<ge> base_pri then
           sched_thread_priority C self td base_pri
             (upd_th td (\<lambda>t. t\<lparr>td_flags := clr_flag (td_flags t) TDF_BORROWING\<rparr>) k)
         else sched_lend_prio C self td prio k)"

definition sched_prio :: "'a kconf_scheme \<Rightarrow> cpuid \<Rightarrow> tid \<Rightarrow> u_char \<Rightarrow> kern \<Rightarrow> fault + kern" where
  "sched_prio C self td prio k =
     (let k1 = upd_th td (td_base_pri_update (\<lambda>_. prio)) k
      in if has_flag (td_flags (k_td k1 td)) TDF_BORROWING \<and> td_priority (k_td k1 td) < prio then Inr k1
         else (let oldprio = td_priority (k_td k1 td)
               in rbind (sched_thread_priority C self td prio k1) (\<lambda>k2.
                    Inr (if TD_ON_LOCK (k_td k2 td) \<and> oldprio \<noteq> prio then ext_call (TURNSTILE_ADJUST td oldprio) k2
                         else k2))))"

definition sched_lend_user_prio :: "'a kconf_scheme \<Rightarrow> cpuid \<Rightarrow> tid \<Rightarrow> u_char \<Rightarrow> kern \<Rightarrow> fault + kern" where
  "sched_lend_user_prio C self td prio k =
     (let k1 = upd_th td (\<lambda>t. t\<lparr>td_lend_user_pri := prio, td_user_pri := min prio (td_base_user_pri t)\<rparr>) k;
          th = k_td k1 td
      in if td_priority th > td_user_pri th then sched_prio C self td (td_user_pri th) k1
         else if td_priority th \<noteq> td_user_pri th then
           Inr (upd_th td (\<lambda>t. t\<lparr>td_flags := set_flag (td_flags t) TDF_NEEDRESCHED\<rparr>) k1)
         else Inr k1)"

fun nice_loop :: "'a kconf_scheme \<Rightarrow> cpuid \<Rightarrow> tid list \<Rightarrow> kern \<Rightarrow> fault + kern" where
  "nice_loop C self [] k = Inr k"
| "nice_loop C self (td # tds) k =
     rbind (k_priority C td k) (\<lambda>k1.
     rbind (sched_prio C self td (td_base_user_pri (k_td k1 td)) k1) (\<lambda>k2. nice_loop C self tds k2))"

definition sched_nice :: "'a kconf_scheme \<Rightarrow> cpuid \<Rightarrow> nat \<Rightarrow> int \<Rightarrow> kern \<Rightarrow> fault + kern" where
  "sched_nice C self p nice k =
     (let k1 = k\<lparr>k_proc := (k_proc k)(p := (k_proc k p)\<lparr>p_nice := nice\<rparr>)\<rparr>
      in nice_loop C self (p_threads (k_proc k1 p)) k1)"

definition sched_class :: "tid \<Rightarrow> u_char \<Rightarrow> kern \<Rightarrow> kern" where
  "sched_class td class k =
     (if td_pri_class (k_td k td) = class then k else upd_th td (td_pri_class_update (\<lambda>_. class)) k)"

text \<open>The return to user mode. A thread that borrows a priority must not get here.\<close>

definition sched_userret :: "'a kconf_scheme \<Rightarrow> cpuid \<Rightarrow> tid \<Rightarrow> kern \<Rightarrow> fault + kern" where
  "sched_userret C self td k =
     rbind (kassert (\<not> has_flag (td_flags (k_td k td)) TDF_BORROWING)
             ''thread with borrowed priority returning to userland'') (\<lambda>_.
       if td_priority (k_td k td) \<noteq> td_user_pri (k_td k td) then
         tdq_setlowpri C self (Some td)
           (upd_th td (\<lambda>t. t\<lparr>td_priority := td_user_pri t, td_base_pri := td_user_pri t\<rparr>) k)
       else Inr k)"

subsection \<open>Sleeping and waking\<close>

definition sched_sleep :: "'a kconf_scheme \<Rightarrow> cpuid \<Rightarrow> tid \<Rightarrow> int \<Rightarrow> kern \<Rightarrow> fault + kern" where
  "sched_sleep C self td prio k =
     (let k1 = upd_th td (td_slptick_update (\<lambda>_. k_ticks k)) k;
          k2 = (if TD_IS_SUSPENDED (k_td k1 td) \<or> prio \<ge> PSOCK C
                then upd_th td (\<lambda>t. t\<lparr>td_flags := set_flag (td_flags t) TDF_CANSWAP\<rparr>) k1 else k1);
          boost = static_boost (k_tun k2)
      in if PRI_BASE C (td_pri_class (k_td k2 td)) \<noteq> PRI_TIMESHARE C then Inr k2
         else if boost = 1 \<and> prio \<noteq> 0 then sched_prio C self td (of_int prio) k2
         else if boost \<noteq> 0 \<and> uint (td_priority (k_td k2 td)) > boost then sched_prio C self td (of_int boost) k2
         else Inr k2)"

definition sched_wakeup :: "'a kconf_scheme \<Rightarrow> cpuid \<Rightarrow> tid \<Rightarrow> kern \<Rightarrow> fault + kern" where
  "sched_wakeup C self td k =
     (let k1 = upd_th td (\<lambda>t. t\<lparr>td_flags := clr_flag (td_flags t) TDF_CANSWAP\<rparr>) k;
          slptick = td_slptick (k_td k1 td);
          k2 = upd_th td (td_slptick_update (\<lambda>_. 0)) k1
      in rbind
           (if slptick \<noteq> 0 \<and> slptick \<noteq> k_ticks k2 then
              k_pctcpu_update C td False
                (k_interact_update C td
                  (upd_th td (\<lambda>t. t\<lparr>ts_slptime := ts_slptime t + push_bit SCHED_TICK_SHIFT (k_ticks k2 - slptick)\<rparr>) k2))
            else Inr k2)
           (\<lambda>k3. sched_add C self td SRQ_BORING (upd_th td (ts_slice_update (\<lambda>_. 0)) k3)))"

subsection \<open>Forking and exiting\<close>

definition sched_fork_thread :: "cpuid \<Rightarrow> tid \<Rightarrow> tid \<Rightarrow> kern \<Rightarrow> kern" where
  "sched_fork_thread self td child k =
     (let p = k_td k td
      in upd_th child (\<lambda>c. c\<lparr>td_oncpu := NOCPU, td_lastcpu := NOCPU, td_lock := TDQ_LOCKPTR self,
           td_cpuset := td_cpuset p, ts_cpu := ts_cpu p, ts_flags := 0, ts_ticks := ts_ticks p,
           ts_ltick := ts_ltick p, ts_ftick := ts_ftick p, td_priority := td_base_pri c,
           ts_slptime := ts_slptime p, ts_runtime := ts_runtime p,
           ts_slice := tdq_slice (k_tun k) (tdq_sysload (k_tdq k self)) - sched_slice_min (k_tun k)\<rparr>) k)"

definition sched_fork :: "'a kconf_scheme \<Rightarrow> cpuid \<Rightarrow> tid \<Rightarrow> tid \<Rightarrow> kern \<Rightarrow> fault + kern" where
  "sched_fork C self td child k =
     rbind (k_pctcpu_update C td True k) (\<lambda>k1.
     rbind (k_interact_fork C child (sched_fork_thread self td child k1)) (\<lambda>k2.
     rbind (k_priority C child k2) (\<lambda>k3.
       k_priority C td
         (k_interact_update C td
           (upd_th td (\<lambda>t. t\<lparr>ts_runtime := ts_runtime t + of_int (tickincr (k_tun k3))\<rparr>) k3)))))"

definition sched_exit_thread :: "'a kconf_scheme \<Rightarrow> tid \<Rightarrow> tid \<Rightarrow> kern \<Rightarrow> fault + kern" where
  "sched_exit_thread C td child k =
     k_priority C td
       (k_interact_update C td
         (upd_th td (\<lambda>t. t\<lparr>ts_runtime := ts_runtime t + ts_runtime (k_td k child)\<rparr>) k))"

definition sched_exit :: "'a kconf_scheme \<Rightarrow> nat \<Rightarrow> tid \<Rightarrow> kern \<Rightarrow> fault + kern" where
  "sched_exit C p child k =
     (case p_threads (k_proc k p) of
        [] \<Rightarrow> Inl (NullDeref ''FIRST_THREAD_IN_PROC'')
      | td # _ \<Rightarrow> sched_exit_thread C td child k)"

definition sched_fork_exit :: "cpuid \<Rightarrow> tid \<Rightarrow> kern \<Rightarrow> fault + kern" where
  "sched_fork_exit self td k =
     (let k1 = (if TD_IS_IDLETHREAD (k_td k td) then upd_th td (td_lock_update (\<lambda>_. TDQ_LOCKPTR self)) k else k)
      in rbind (kassert (td_lock (k_td k1 td) = TDQ_LOCKPTR self) ''td->td_lock == TDQ_LOCKPTR(tdq)'') (\<lambda>_.
           Inr (upd_th td (td_oncpu_update (\<lambda>_. int self)) k1)))"

subsection \<open>The clock tick and preemption\<close>

text \<open>The insert index advances once a tick, and takes the removal index along over empty lists.\<close>

definition clock_index :: "tdq \<Rightarrow> tdq" where
  "clock_index q =
     (if tdq_idx q = tdq_ridx q then
        (let q1 = q\<lparr>tdq_idx := of_nat ((unat (tdq_idx q) + 1) mod RQ_NQS)\<rparr>;
             q2 = (if rq_queues (tdq_timeshare q1) ! unat (tdq_ridx q1) = [] then q1\<lparr>tdq_ridx := tdq_idx q1\<rparr> else q1)
         in if rq_queues (tdq_lottery q2) ! unat (tdq_ridx q2) = [] then q2\<lparr>tdq_ridx := tdq_idx q2\<rparr> else q2)
      else q)"

text \<open>The part of the tick that is charged to the thread.\<close>

definition clock_thread :: "'a kconf_scheme \<Rightarrow> cpuid \<Rightarrow> tid \<Rightarrow> kern \<Rightarrow> fault + kern" where
  "clock_thread C self td k =
     (if td_pri_class (k_td k td) AND PRI_FIFO_BIT C \<noteq> 0 then Inr k
      else rbind
        (if PRI_BASE C (td_pri_class (k_td k td)) = PRI_TIMESHARE C then
           k_priority C td
             (k_interact_update C td
               (upd_th td (\<lambda>t. t\<lparr>ts_runtime := ts_runtime t + of_int (tickincr (k_tun k))\<rparr>) k))
         else Inr k)
        (\<lambda>k1.
          if TD_IS_IDLETHREAD (k_td k1 td) then Inr k1
          else (let k2 = upd_th td (\<lambda>t. t\<lparr>ts_slice := ts_slice t + 1\<rparr>) k1
                in if ts_slice (k_td k2 td) \<ge> tdq_slice (k_tun k2) (tdq_sysload (k_tdq k2 self)) then
                     Inr (upd_th td (\<lambda>t. t\<lparr>ts_slice := 0,
                            td_flags := set_flag (td_flags t) (TDF_NEEDRESCHED OR TDF_SLICEEND)\<rparr>) k2)
                   else Inr k2)))"

definition sched_clock :: "rivals \<Rightarrow> 'a kconf_scheme \<Rightarrow> cpuid \<Rightarrow> tid \<Rightarrow> kern \<Rightarrow> fault + kern" where
  "sched_clock W C self td k =
     rbind
       (if k_balance_tdq k = self \<and> k_balance_ticks k \<noteq> 0 then
          (let k1 = k\<lparr>k_balance_ticks := k_balance_ticks k - 1\<rparr>
           in if k_balance_ticks k1 = 0 then sched_balance W C self k1 else Inr k1)
        else Inr k)
       (\<lambda>k1.
         (let k2 = upd_tdq self (\<lambda>q. clock_index (q\<lparr>tdq_oldswitchcnt := tdq_switchcnt q, tdq_switchcnt := tdq_load q\<rparr>)) k1
          in rbind (k_pctcpu_update C td True k2) (\<lambda>k3. clock_thread C self td k3)))"

definition sched_preempt :: "cpuid \<Rightarrow> tid \<Rightarrow> kern \<Rightarrow> kern" where
  "sched_preempt self td k =
     (let k1 = upd_tdq self (\<lambda>q. q\<lparr>tdq_ipipending := False\<rparr>) k
      in if td_priority (k_td k1 td) > tdq_lowpri (k_tdq k1 self) then
           (if td_critnest (k_td k1 td) > 1 then upd_th td (td_owepreempt_update (\<lambda>_. True)) k1
            else if TD_IS_IDLETHREAD (k_td k1 td) then ext_call (MI_SWITCH self {SW_INVOL, SW_PREEMPT, SWT_REMOTEWAKEIDLE}) k1
            else ext_call (MI_SWITCH self {SW_INVOL, SW_PREEMPT, SWT_REMOTEPREEMPT}) k1)
         else k1)"

definition critical_enter :: "cpuid \<Rightarrow> kern \<Rightarrow> kern" where
  "critical_enter self k = upd_th (k_cur k self) (\<lambda>t. t\<lparr>td_critnest := td_critnest t + 1\<rparr>) k"

definition critical_exit :: "cpuid \<Rightarrow> kern \<Rightarrow> fault + kern" where
  "critical_exit self k =
     (let td = k_cur k self
      in rbind (kassert (td_critnest (k_td k td) \<noteq> 0) ''critical_exit: td_critnest == 0'') (\<lambda>_.
           if td_critnest (k_td k td) = 1 then
             (let k1 = upd_th td (td_critnest_update (\<lambda>_. 0)) k
              in if td_owepreempt (k_td k1 td) \<and> \<not> k_kdb_active k1 then
                   (let k2 = upd_th td (td_critnest_update (\<lambda>_. 1)) k1;
                        k3 = upd_th td (\<lambda>t. t\<lparr>td_critnest := td_critnest t - 1\<rparr>) k2
                    in Inr (ext_call (MI_SWITCH self ({SW_INVOL, SW_PREEMPT} \<union>
                              (if TD_IS_IDLETHREAD (k_td k3 td) then {SWT_IDLE} else {SWT_OWEPREEMPT}))) k3))
                 else Inr k1)
           else Inr (upd_th td (\<lambda>t. t\<lparr>td_critnest := td_critnest t - 1\<rparr>) k)))"

subsection \<open>Binding and affinity\<close>

definition sched_affinity :: "'a kconf_scheme \<Rightarrow> cpuid \<Rightarrow> tid \<Rightarrow> kern \<Rightarrow> fault + kern" where
  "sched_affinity C self td k =
     (if THREAD_CAN_SCHED (k_td k td) (ts_cpu (k_td k td)) then Inr k
      else if TD_ON_RUNQ (k_td k td) then rbind (sched_rem C td k) (\<lambda>k1. sched_add C self td SRQ_BORING k1)
      else if \<not> TD_IS_RUNNING (k_td k td) then Inr k
      else (let k1 = upd_th td (\<lambda>t. t\<lparr>td_flags := set_flag (td_flags t) TDF_NEEDRESCHED\<rparr>) k
            in Inr (if td \<noteq> k_cur k self then ext_call (IPI_PREEMPT (ts_cpu (k_td k1 td))) k1 else k1)))"

text \<open>sched_pin and sched_unpin of sys/sched.h count the pins of curthread.\<close>

definition sched_unbind :: "cpuid \<Rightarrow> tid \<Rightarrow> kern \<Rightarrow> fault + kern" where
  "sched_unbind self td k =
     rbind (kassert (td = k_cur k self) ''sched_bind: can only bind curthread'') (\<lambda>_.
       if \<not> has_flag (ts_flags (k_td k td)) TSF_BOUND then Inr k
       else Inr (upd_th (k_cur k self) (\<lambda>t. t\<lparr>td_pinned := td_pinned t - 1\<rparr>)
                  (upd_th td (\<lambda>t. t\<lparr>ts_flags := clr_flag (ts_flags t) TSF_BOUND\<rparr>) k)))"

definition sched_bind :: "cpuid \<Rightarrow> tid \<Rightarrow> cpuid \<Rightarrow> kern \<Rightarrow> fault + kern" where
  "sched_bind self td cpu k =
     rbind (kassert (td = k_cur k self) ''sched_bind: can only bind curthread'') (\<lambda>_.
     rbind (if has_flag (ts_flags (k_td k td)) TSF_BOUND then sched_unbind self td k else Inr k) (\<lambda>k1.
     rbind (kassert (THREAD_CAN_MIGRATE (k_td k1 td)) ''must be migratable'') (\<lambda>_.
       (let k2 = upd_th td (\<lambda>t. t\<lparr>ts_flags := set_flag (ts_flags t) TSF_BOUND\<rparr>) k1;
            k3 = upd_th (k_cur k2 self) (\<lambda>t. t\<lparr>td_pinned := td_pinned t + 1\<rparr>) k2
        in if self = cpu then Inr k3
           else Inr (ext_call (MI_SWITCH self {SW_VOL}) (upd_th td (ts_cpu_update (\<lambda>_. cpu)) k3))))))"

definition sched_is_bound :: "tid \<Rightarrow> kern \<Rightarrow> bool" where
  "sched_is_bound td k = has_flag (ts_flags (k_td k td)) TSF_BOUND"

definition sched_relinquish :: "cpuid \<Rightarrow> kern \<Rightarrow> kern" where
  "sched_relinquish self k = ext_call (MI_SWITCH self {SW_VOL, SWT_RELINQUISH}) k"

definition sched_load :: "'a kconf_scheme \<Rightarrow> kern \<Rightarrow> int" where
  "sched_load C k = sum_list (map (\<lambda>i. tdq_sysload (k_tdq k i)) [0..<Suc (mp_maxid C)])"

definition sched_estcpu :: "tid \<Rightarrow> nat" where
  "sched_estcpu td = 0"

subsection \<open>The thread that runs next\<close>

text \<open>In a panic only system threads and the panicking one run. The fuel bounds the retries.\<close>

fun choosethread_panic :: "nat \<Rightarrow> 'a kconf_scheme \<Rightarrow> cpuid \<Rightarrow> tid \<Rightarrow> kern \<Rightarrow> fault + (tid \<times> kern)" where
  "choosethread_panic 0 C self td k = Inl (Diverges ''choosethread_panic'')"
| "choosethread_panic (Suc n) C self td k =
     (if \<not> has_flag (p_flag (k_proc k (td_proc (k_td k td)))) P_SYSTEM \<and>
         \<not> has_flag (td_flags (k_td k td)) TDF_INPANIC then
        rbind (sched_choose C self (TD_SET_CAN_RUN td k)) (\<lambda>(td', k1). choosethread_panic n C self td' k1)
      else Inr (td, TD_SET_RUNNING td k))"

definition choosethread :: "nat \<Rightarrow> 'a kconf_scheme \<Rightarrow> cpuid \<Rightarrow> kern \<Rightarrow> fault + (tid \<times> kern)" where
  "choosethread fuel C self k =
     rbind (sched_choose C self k) (\<lambda>(td, k1).
       if k_panicstr k1 then choosethread_panic fuel C self td k1
       else Inr (td, TD_SET_RUNNING td k1))"

subsection \<open>The context switch\<close>

definition sched_switch_migrate :: "'a kconf_scheme \<Rightarrow> cpuid \<Rightarrow> tid \<Rightarrow> srq set \<Rightarrow> kern \<Rightarrow> fault + (lockptr \<times> kern)" where
  "sched_switch_migrate C c td flags k =
     (let tdn = ts_cpu (k_td k td)
      in rbind (tdq_load_rem c td k) (\<lambda>k1.
         rbind (tdq_add C tdn td flags (upd_th td (td_lock_update (\<lambda>_. BlockedLock)) k1)) (\<lambda>k2.
           Inr (TDQ_LOCKPTR tdn, tdq_notify C tdn td k2))))"

text \<open>
  The start of sched_switch: the accounting of the thread that stops. What is left is to put
  it where it belongs.
\<close>

definition switch_account :: "'a kconf_scheme \<Rightarrow> cpuid \<Rightarrow> tid \<Rightarrow> kern \<Rightarrow> fault + kern" where
  "switch_account C self td k =
     rbind (k_pctcpu_update C td True k) (\<lambda>k1.
       (let k2 = upd_th td (\<lambda>t. t\<lparr>ts_rltick := k_ticks k1, td_lastcpu := td_oncpu t, td_oncpu := NOCPU,
                   td_flags := clr_flag (td_flags t) (TDF_NEEDRESCHED OR TDF_SLICEEND), td_owepreempt := False\<rparr>) k1
        in Inr (if \<not> TD_IS_IDLETHREAD (k_td k2 td)
                then upd_tdq self (\<lambda>q. q\<lparr>tdq_switchcnt := tdq_switchcnt q + 1\<rparr>) k2 else k2)))"

definition switch_place :: "rivals \<Rightarrow> 'a kconf_scheme \<Rightarrow> cpuid \<Rightarrow> tid \<Rightarrow> bool \<Rightarrow> kern \<Rightarrow> fault + (lockptr \<times> kern)" where
  "switch_place W C self td preempted k =
     (let mtx = td_lock (k_td k td)
      in if TD_IS_IDLETHREAD (k_td k td) then
           rbind (kassert (td_lock (k_td k td) = TDQ_LOCKPTR self) ''td->td_lock == TDQ_LOCKPTR(tdq)'') (\<lambda>_.
             Inr (mtx, TD_SET_CAN_RUN td k))
         else if TD_IS_RUNNING (k_td k td) then
           rbind (kassert (td_lock (k_td k td) = TDQ_LOCKPTR self) ''td->td_lock == TDQ_LOCKPTR(tdq)'') (\<lambda>_.
             (let srqflag = (if preempted then {SRQ_OURSELF, SRQ_YIELDING, SRQ_PREEMPTED} else {SRQ_OURSELF, SRQ_YIELDING})
              in rbind (if THREAD_CAN_MIGRATE (k_td k td) \<and> \<not> THREAD_CAN_SCHED (k_td k td) (ts_cpu (k_td k td)) then
                          rbind (sched_pickcpu C self td {} k) (\<lambda>(cpu, k1). Inr (upd_th td (ts_cpu_update (\<lambda>_. cpu)) k1))
                        else Inr k)
                   (\<lambda>k1. if ts_cpu (k_td k1 td) = self then
                           rbind (tdq_runq_add C self td srqflag k1) (\<lambda>k2. Inr (mtx, k2))
                         else
                           rbind (kassert (THREAD_CAN_MIGRATE (k_td k1 td) \<or> has_flag (ts_flags (k_td k1 td)) TSF_BOUND)
                                   ''Thread shouldn't migrate'') (\<lambda>_.
                             sched_switch_migrate C self td srqflag k1))))
         else
           rbind (tdq_load_rem self td (upd_th td (td_lock_update (\<lambda>_. BlockedLock)) k)) (\<lambda>k1.
           rbind (if tdq_load (k_tdq k1 self) = 0 then tdq_trysteal W C self k1 else Inr k1) (\<lambda>k2.
             Inr (mtx, k2))))"

text \<open>
  \<open>sched_switch\<close> up to cpu_switch, which is where another thread goes on; the result is that
  thread. When the same thread is chosen again it goes on itself. \<open>sched_switch_resume\<close> is what
  the thread does when it runs again, possibly on another CPU.
\<close>

definition sched_switch_resume :: "cpuid \<Rightarrow> tid \<Rightarrow> kern \<Rightarrow> fault + kern" where
  "sched_switch_resume self td k =
     rbind (kassert (td_lock (k_td k td) = TDQ_LOCKPTR self) ''td->td_lock == TDQ_LOCKPTR(tdq)'') (\<lambda>_.
       Inr (upd_th td (td_oncpu_update (\<lambda>_. int self)) k))"

definition sched_switch :: "nat \<Rightarrow> rivals \<Rightarrow> 'a kconf_scheme \<Rightarrow> cpuid \<Rightarrow> tid \<Rightarrow> tid option \<Rightarrow> swflag set \<Rightarrow> kern \<Rightarrow> fault + (tid \<times> kern)" where
  "sched_switch fuel W C self td newtd flags k =
     rbind (kassert (newtd = None) ''sched_switch: Unsupported newtd argument'') (\<lambda>_.
       (let preempted = (\<not> has_flag (td_flags (k_td k td)) TDF_SLICEEND \<and> SW_PREEMPT \<in> flags)
        in rbind (switch_account C self td k) (\<lambda>k1.
           rbind (switch_place W C self td preempted k1) (\<lambda>(mtx, k2).
           rbind (choosethread fuel C self k2) (\<lambda>(newtd', k3).
             if td \<noteq> newtd' then
               rbind (k_pctcpu_update C newtd' False k3) (\<lambda>k4. Inr (newtd', ext_call (CPU_SWITCH td newtd' mtx) k4))
             else
               rbind (sched_switch_resume self td (upd_th td (td_lock_update (\<lambda>_. mtx)) k3)) (\<lambda>k4. Inr (newtd', k4)))))))"

text \<open>The end of a thread, or the start of a CPU (no thread).\<close>

definition sched_throw :: "nat \<Rightarrow> 'a kconf_scheme \<Rightarrow> cpuid \<Rightarrow> tid option \<Rightarrow> kern \<Rightarrow> fault + (tid \<times> kern)" where
  "sched_throw fuel C self td k =
     rbind
       (case td of
          None \<Rightarrow> Inr k
        | Some t \<Rightarrow>
            rbind (kassert (td_lock (k_td k t) = TDQ_LOCKPTR self) ''td->td_lock == TDQ_LOCKPTR(tdq)'') (\<lambda>_.
            rbind (tdq_load_rem self t k) (\<lambda>k1.
              Inr (upd_th t (\<lambda>th. th\<lparr>td_lastcpu := td_oncpu th, td_oncpu := NOCPU\<rparr>) k1))))
       (\<lambda>k1. rbind (choosethread fuel C self k1) (\<lambda>(newtd, k2). Inr (newtd, ext_call (CPU_THROW td newtd) k2)))"

subsection \<open>The idle thread\<close>

text \<open>
  One round of sched_idletd: the switch when there is work, and the rest, which a round without
  work goes on with. The result is the new oldswitchcnt.
\<close>

definition idletd_switch :: "cpuid \<Rightarrow> kern \<Rightarrow> kern" where
  "idletd_switch self k =
     (if tdq_load (k_tdq k self) \<noteq> 0 then ext_call (MI_SWITCH self {SW_VOL, SWT_IDLE}) k else k)"

definition idletd_rest :: "rivals \<Rightarrow> 'a kconf_scheme \<Rightarrow> cpuid \<Rightarrow> int \<Rightarrow> kern \<Rightarrow> fault + (int \<times> kern)" where
  "idletd_rest W C self oldswitchcnt k =
     (let cnt = (\<lambda>k. tdq_switchcnt (k_tdq k self) + tdq_oldswitchcnt (k_tdq k self));
          search = (always_steal (k_tun k) \<or> cnt k \<noteq> oldswitchcnt);
          old = (if search then cnt k else oldswitchcnt)
      in rbind (if search then tdq_idled W C self k else Inr (True, k)) (\<lambda>(r, k1).
           if \<not> r then Inr (old, k1)
           else if tdq_load (k_tdq k1 self) \<noteq> 0 \<or> cnt k1 \<noteq> old then Inr (old, k1)
           else (let k2 = upd_tdq self (\<lambda>q. q\<lparr>tdq_cpu_idle := True\<rparr>) k1
                 in if tdq_load (k_tdq k2 self) \<noteq> 0 then Inr (old, upd_tdq self (\<lambda>q. q\<lparr>tdq_cpu_idle := False\<rparr>) k2)
                    else (let k3 = upd_tdq self (\<lambda>q. q\<lparr>tdq_cpu_idle := False\<rparr>)
                                     (ext_call (CPU_IDLE (cnt k1 * 4 > sched_idlespinthresh (k_tun k1))) k2)
                          in if cnt k3 \<noteq> old then Inr (old, k3)
                             else Inr (old + 1, upd_tdq self (\<lambda>q. q\<lparr>tdq_switchcnt := tdq_switchcnt q + 1\<rparr>) k3)))))"

subsection \<open>Set up\<close>

text \<open>
  \<open>topo\<close> is the topology that smp_topo returns and \<open>find_group\<close> is smp_topo_find, with [] for
  NULL; \<open>thread0\<close> is the first thread.
\<close>

fun setup_loop :: "'a kconf_scheme \<Rightarrow> (cpu_group \<Rightarrow> cpuid \<Rightarrow> cpu_group list) \<Rightarrow> cpuid list \<Rightarrow> kern \<Rightarrow> fault + kern" where
  "setup_loop C find_group [] k = Inr k"
| "setup_loop C find_group (i # is) k =
     (let k1 = tdq_setup C i k;
          k2 = upd_tdq i (\<lambda>q. q\<lparr>tdq_cg := find_group (k_cputop k1) i\<rparr>) k1
      in if tdq_cg (k_tdq k2 i) = [] then Inl (Panic ''Can't find cpu group'')
         else setup_loop C find_group is k2)"

definition sched_setup_smp :: "rivals \<Rightarrow> 'a kconf_scheme \<Rightarrow> cpu_group \<Rightarrow> (cpu_group \<Rightarrow> cpuid \<Rightarrow> cpu_group list) \<Rightarrow> cpuid \<Rightarrow> kern \<Rightarrow> fault + kern" where
  "sched_setup_smp W C topo find_group self k =
     rbind (setup_loop C find_group [0..<Suc (mp_maxid C)] (k\<lparr>k_cputop := topo\<rparr>)) (\<lambda>k1.
       sched_balance W C self (k1\<lparr>k_balance_tdq := self\<rparr>))"

definition sched_setup :: "rivals \<Rightarrow> 'a kconf_scheme \<Rightarrow> cpu_group \<Rightarrow> (cpu_group \<Rightarrow> cpuid \<Rightarrow> cpu_group list) \<Rightarrow> cpuid \<Rightarrow> tid \<Rightarrow> kern \<Rightarrow> fault + kern" where
  "sched_setup W C topo find_group self thread0 k =
     rbind (sched_setup_smp W C topo find_group self k) (\<lambda>k1.
       (let k2 = tdq_load_add self thread0 (upd_th thread0 (td_lock_update (\<lambda>_. TDQ_LOCKPTR self)) k1)
        in Inr (upd_tdq self (\<lambda>q. q\<lparr>tdq_lowpri := td_priority (k_td k2 thread0)\<rparr>) k2)))"

definition schedinit :: "tid \<Rightarrow> kern \<Rightarrow> kern" where
  "schedinit thread0 k =
     upd_th thread0 (\<lambda>t. t\<lparr>ts_ltick := k_ticks k, ts_ftick := k_ticks k, ts_slice := 0\<rparr>) k"

end
