(* ===== verification/CpuSearchLaws.thy ===== *)
theory CpuSearchLaws
  imports CpuSearch TdqLaws
begin

text \<open>
  The search of the topology is sound and complete for the CPUs that it visits; so the CPU
  picked for a thread is one that the thread may run on, and the balancer's and the stealers'
  loops end within their fuel.
\<close>

subsection \<open>The search is sound and complete\<close>

text \<open>The CPUs that the search of a group visits, and how many.\<close>

fun cg_visits :: "'a kconf_scheme \<Rightarrow> cpu_group \<Rightarrow> cpuid set" where
  "cg_visits C (CpuGroup msk level flags children) =
     (\<Union>g \<in> set children. cg_visits C g) \<union> set (own_cpus C msk children)"

fun cg_size :: "'a kconf_scheme \<Rightarrow> cpu_group \<Rightarrow> int" where
  "cg_size C (CpuGroup msk level flags children) =
     sum_list (map (cg_size C) children) + int (length (own_cpus C msk children))"

lemma cg_size_nonneg: "0 \<le> cg_size C g"
  by (induction g) (auto intro!: add_nonneg_nonneg sum_list_nonneg)

definition ok_low :: "(cpuid \<Rightarrow> tdq) \<Rightarrow> cpuid set \<Rightarrow> int \<Rightarrow> int \<Rightarrow> cpuid \<Rightarrow> bool" where
  "ok_low T M P L c \<longleftrightarrow> c \<in> M \<and> uint (tdq_lowpri (T c)) > P \<and> tdq_load (T c) \<le> L"

definition ok_high :: "(cpuid \<Rightarrow> tdq) \<Rightarrow> cpuid set \<Rightarrow> int \<Rightarrow> cpuid \<Rightarrow> bool" where
  "ok_high T M L c \<longleftrightarrow> c \<in> M \<and> tdq_load (T c) \<ge> L \<and> tdq_transferable (T c) \<noteq> 0"

text \<open>A search record with its parameters, and a CPU of the given set in it if it has one.\<close>

definition found :: "(cpuid \<Rightarrow> bool) \<Rightarrow> cpuid set \<Rightarrow> int \<Rightarrow> int \<Rightarrow> cpuid set \<Rightarrow> cpu_search_s \<Rightarrow> bool" where
  "found ok M P L V g \<longleftrightarrow> cs_mask g = M \<and> cs_pri g = P \<and> cs_limit g = L \<and>
     (if cs_cpu g = -1 then \<forall>c \<in> V. \<not> ok c else \<exists>c \<in> V. cs_cpu g = int c \<and> ok c)"

lemma found_mono: "found ok M P L V g \<Longrightarrow> cs_cpu g \<noteq> -1 \<Longrightarrow> V \<subseteq> W \<Longrightarrow> found ok M P L W g"
  by (auto simp: found_def)

text \<open>
  The state of the loop after the CPUs of V. \<open>B\<close> bounds the loads and \<open>n\<close> counts the CPUs, so
  that the sums stay away from INT_MIN and INT_MAX.
\<close>

definition search_inv :: "cpu_match \<Rightarrow> (cpuid \<Rightarrow> tdq) \<Rightarrow> int \<Rightarrow> int \<Rightarrow> cpu_search_s \<Rightarrow> cpu_search_s \<Rightarrow> cpuid set \<Rightarrow> search_st \<Rightarrow> bool" where
  "search_inv m T B n low high V s \<longleftrightarrow>
     - 64 * n \<le> s_total s \<and> s_total s \<le> 256 * B * n \<and>
     (match_low m \<longrightarrow> found (ok_low T (cs_mask low) (cs_pri low) (cs_limit low)) (cs_mask low) (cs_pri low) (cs_limit low) V (s_low s) \<and>
        cs_mask (s_lgroup s) = cs_mask low \<and> cs_pri (s_lgroup s) = cs_pri low \<and> cs_limit (s_lgroup s) = cs_limit low \<and>
        (cs_cpu (s_low s) = -1 \<longrightarrow> s_lload s = INT_MAX)) \<and>
     (match_high m \<longrightarrow> found (ok_high T (cs_mask high) (cs_limit high)) (cs_mask high) (cs_pri high) (cs_limit high) V (s_high s) \<and>
        cs_mask (s_hgroup s) = cs_mask high \<and> cs_pri (s_hgroup s) = cs_pri high \<and> cs_limit (s_hgroup s) = cs_limit high \<and>
        (cs_cpu (s_high s) = -1 \<longrightarrow> s_hload s = INT_MIN))"

definition small :: "int \<Rightarrow> int \<Rightarrow> bool" where
  "small B n \<longleftrightarrow> (256 * B + 64) * n < INT_MAX"

lemma search_init_inv:
  "cs_cpu low = -1 \<or> \<not> match_low m \<Longrightarrow> cs_cpu high = -1 \<or> \<not> match_high m \<Longrightarrow>
   search_inv m T B 0 low high {} (search_init low high r)"
  by (auto simp: search_inv_def search_init_def found_def)

lemma search_compare_inv:
  assumes inv: "search_inv m T B n low high V s" and load: "-64 * d \<le> load" "load \<le> 256 * B * d" "small B d" "0 \<le> d" "0 \<le> B"
    and l: "match_low m \<Longrightarrow> found (ok_low T (cs_mask low) (cs_pri low) (cs_limit low)) (cs_mask low) (cs_pri low) (cs_limit low) W (s_lgroup s)"
    and h: "match_high m \<Longrightarrow> found (ok_high T (cs_mask high) (cs_limit high)) (cs_mask high) (cs_pri high) (cs_limit high) W (s_hgroup s)"
  shows "search_inv m T B (n + d) low high (V \<union> W) (search_compare m load s)"
proof -
  have s: "256 * B * d + 64 * d < INT_MAX" using load(3) by (simp add: small_def algebra_simps)
  have "0 \<le> 256 * B * d" using load(4,5) by simp
  then have b: "load < INT_MAX" "load > INT_MIN" using s load(1,2,4) unfolding INT_MAX_def INT_MIN_def by linarith+
  have t: "s_total (search_compare m load s) = s_total s + load" by (simp add: search_compare_def Let_def)
  have tb: "- 64 * (n + d) \<le> s_total s + load" "s_total s + load \<le> 256 * B * (n + d)"
    using inv load by (simp_all add: search_inv_def algebra_simps)
  have L: "found (ok_low T (cs_mask low) (cs_pri low) (cs_limit low)) (cs_mask low) (cs_pri low) (cs_limit low) (V \<union> W) (s_low (search_compare m load s)) \<and>
      (cs_cpu (s_low (search_compare m load s)) = -1 \<longrightarrow> s_lload (search_compare m load s) = INT_MAX) \<and>
      s_lgroup (search_compare m load s) = s_lgroup s" if "match_low m"
    using that l [OF that] inv b by (auto simp: search_inv_def search_compare_def Let_def found_def split: if_splits)
  have H: "found (ok_high T (cs_mask high) (cs_limit high)) (cs_mask high) (cs_pri high) (cs_limit high) (V \<union> W) (s_high (search_compare m load s)) \<and>
      (cs_cpu (s_high (search_compare m load s)) = -1 \<longrightarrow> s_hload (search_compare m load s) = INT_MIN) \<and>
      s_hgroup (search_compare m load s) = s_hgroup s" if "match_high m"
    using that h [OF that] inv b by (auto simp: search_inv_def search_compare_def Let_def found_def split: if_splits)
  show ?thesis unfolding search_inv_def t using tb L H inv by (simp add: search_inv_def)
qed

lemma search_clear_inv:
  assumes "search_inv m T B n low high V s"
  shows "search_inv m T B n low high V (search_clear m s)" "s_rnd (search_clear m s) = s_rnd s"
    "match_low m \<Longrightarrow> cs_cpu (s_lgroup (search_clear m s)) = -1" "match_high m \<Longrightarrow> cs_cpu (s_hgroup (search_clear m s)) = -1"
  using assms by (auto simp: search_inv_def search_clear_def Let_def)

lemma search_item_fields:
  assumes "search_item T m c s = (load, s')"
  shows "s_total s' = s_total s" "s_low s' = s_low s" "s_high s' = s_high s" "s_lload s' = s_lload s" "s_hload s' = s_hload s"
    "s_lgroup s' = (if match_low m \<and> uint (tdq_lowpri (T c)) > cs_pri (s_lgroup s) \<and> tdq_load (T c) \<le> cs_limit (s_lgroup s) \<and>
       c \<in> cs_mask (s_lgroup s) then (s_lgroup s)\<lparr>cs_cpu := int c, cs_load := load - uint (fst (sched_random (s_rnd s)) mod 32)\<rparr> else s_lgroup s)"
    "s_hgroup s' = (if match_high m \<and> tdq_load (T c) \<ge> cs_limit (s_hgroup s) \<and> tdq_transferable (T c) \<noteq> 0 \<and>
       c \<in> cs_mask (s_hgroup s) then (s_hgroup s)\<lparr>cs_cpu := int c, cs_load := load - uint (fst (sched_random (s_rnd s)) mod 32)\<rparr> else s_hgroup s)"
    "load = tdq_load (T c) * 256 \<or> load = tdq_load (T c) * 256 - 64"
proof -
  obtain r rs where r: "sched_random (s_rnd s) = (r, rs)" by fastforce
  show "s_total s' = s_total s" "s_low s' = s_low s" "s_high s' = s_high s" "s_lload s' = s_lload s" "s_hload s' = s_hload s"
    "s_lgroup s' = (if match_low m \<and> uint (tdq_lowpri (T c)) > cs_pri (s_lgroup s) \<and> tdq_load (T c) \<le> cs_limit (s_lgroup s) \<and>
       c \<in> cs_mask (s_lgroup s) then (s_lgroup s)\<lparr>cs_cpu := int c, cs_load := load - uint (fst (sched_random (s_rnd s)) mod 32)\<rparr> else s_lgroup s)"
    "s_hgroup s' = (if match_high m \<and> tdq_load (T c) \<ge> cs_limit (s_hgroup s) \<and> tdq_transferable (T c) \<noteq> 0 \<and>
       c \<in> cs_mask (s_hgroup s) then (s_hgroup s)\<lparr>cs_cpu := int c, cs_load := load - uint (fst (sched_random (s_rnd s)) mod 32)\<rparr> else s_hgroup s)"
    "load = tdq_load (T c) * 256 \<or> load = tdq_load (T c) * 256 - 64"
    using assms unfolding search_item_def Let_def r prod.case by (auto simp: r)
qed

lemma search_item_inv:
  assumes inv: "search_inv m T B n low high V s" and B: "0 \<le> tdq_load (T c)" "tdq_load (T c) \<le> B"
    and cl: "match_low m \<Longrightarrow> cs_cpu (s_lgroup s) = -1" "match_high m \<Longrightarrow> cs_cpu (s_hgroup s) = -1"
    and i: "search_item T m c s = (load, s')"
  shows "search_inv m T B n low high V s'" "-64 \<le> load" "load \<le> 256 * B"
    "match_low m \<Longrightarrow> found (ok_low T (cs_mask low) (cs_pri low) (cs_limit low)) (cs_mask low) (cs_pri low) (cs_limit low) {c} (s_lgroup s')"
    "match_high m \<Longrightarrow> found (ok_high T (cs_mask high) (cs_limit high)) (cs_mask high) (cs_pri high) (cs_limit high) {c} (s_hgroup s')"
proof -
  note I = search_item_fields [OF i]
  show "-64 \<le> load" "load \<le> 256 * B" using I(8) B by auto
  show "search_inv m T B n low high V s'"
    using inv unfolding search_inv_def I(1-5) by (simp add: I(6,7))
  show "found (ok_low T (cs_mask low) (cs_pri low) (cs_limit low)) (cs_mask low) (cs_pri low) (cs_limit low) {c} (s_lgroup s')" if "match_low m"
    using inv cl(1) [OF that] that unfolding I(6) by (auto simp: search_inv_def found_def ok_low_def)
  show "found (ok_high T (cs_mask high) (cs_limit high)) (cs_mask high) (cs_pri high) (cs_limit high) {c} (s_hgroup s')" if "match_high m"
    using inv cl(2) [OF that] that unfolding I(7) by (auto simp: search_inv_def found_def ok_high_def)
qed

lemma search_cpu_inv:
  assumes inv: "search_inv m T B n low high V s" and B: "0 \<le> tdq_load (T c)" "tdq_load (T c) \<le> B" "small B 1"
  shows "search_inv m T B (n + 1) low high (insert c V) (search_cpu T m c s)"
proof -
  note K = search_clear_inv [OF inv]
  obtain load s' where i: "search_item T m c (search_clear m s) = (load, s')" by fastforce
  note I = search_item_inv [OF K(1) B(1,2) K(3,4) i]
  show ?thesis
    using search_compare_inv [OF I(1), of 1 load "{c}"] I(2-) B by (simp add: search_cpu_def i)
qed

lemma search_cpus_inv:
  assumes "search_inv m T B n low high V s" "\<forall>c. 0 \<le> tdq_load (T c) \<and> tdq_load (T c) \<le> B" "small B 1"
  shows "search_inv m T B (n + int (length cs)) low high (V \<union> set cs) (fold (search_cpu T m) cs s)"
  using assms(1)
proof (induction cs arbitrary: n V s)
  case (Cons c cs)
  from Cons.IH [OF search_cpu_inv [OF Cons.prems]] show ?case using assms(2,3) by (simp add: ac_simps)
qed simp

text \<open>The result of a search: total and both records.\<close>

definition search_res :: "cpu_match \<Rightarrow> (cpuid \<Rightarrow> tdq) \<Rightarrow> int \<Rightarrow> int \<Rightarrow> cpu_search_s \<Rightarrow> cpu_search_s \<Rightarrow> cpuid set \<Rightarrow>
    int \<times> cpu_search_s \<times> cpu_search_s \<times> u_int \<Rightarrow> bool" where
  "search_res m T B n low high V res \<longleftrightarrow> (case res of (tot, lo, hi, _) \<Rightarrow>
     - 64 * n \<le> tot \<and> tot \<le> 256 * B * n \<and>
     (match_low m \<longrightarrow> found (ok_low T (cs_mask low) (cs_pri low) (cs_limit low)) (cs_mask low) (cs_pri low) (cs_limit low) V lo) \<and>
     (match_high m \<longrightarrow> found (ok_high T (cs_mask high) (cs_limit high)) (cs_mask high) (cs_pri high) (cs_limit high) V hi))"

lemma small_mono: "small B n \<Longrightarrow> 0 \<le> m \<Longrightarrow> m \<le> n \<Longrightarrow> 0 \<le> B \<Longrightarrow> small B m"
proof -
  assume a: "small B n" "0 \<le> m" "m \<le> n" "0 \<le> B"
  then have "(256 * B + 64) * m \<le> (256 * B + 64) * n" by (intro mult_left_mono) simp_all
  then show ?thesis using a(1) by (simp add: small_def)
qed

lemma search_children_inv:
  assumes B: "0 \<le> B" and "\<forall>g \<in> set gs. small B (cg_size C g)"
    and "\<And>g low high r. g \<in> set gs \<Longrightarrow> cs_cpu low = -1 \<or> \<not> match_low m \<Longrightarrow> cs_cpu high = -1 \<or> \<not> match_high m \<Longrightarrow>
        search_res m T B (cg_size C g) low high (cg_visits C g) (cpu_search C T m g low high r)"
    and "search_inv m T B n lo0 hi0 V s"
  shows "search_inv m T B (n + sum_list (map (cg_size C) gs)) lo0 hi0 (V \<union> (\<Union>g \<in> set gs. cg_visits C g)) (search_children C T m gs s)"
  using assms(2-)
proof (induction gs arbitrary: n V s)
  case (Cons g gs)
  let ?n = "n + sum_list (map (cg_size C) gs)" and ?V = "V \<union> (\<Union>g \<in> set gs. cg_visits C g)"
  have IH: "search_inv m T B ?n lo0 hi0 ?V (search_children C T m gs s)"
    using Cons.prems by (intro Cons.IH) auto
  note K = search_clear_inv [OF IH]
  let ?s1 = "search_clear m (search_children C T m gs s)"
  obtain load lg hg r where e: "cpu_search C T m g (s_lgroup ?s1) (s_hgroup ?s1) (s_rnd ?s1) = (load, lg, hg, r)"
    by (metis prod_cases4)
  have R: "search_res m T B (cg_size C g) (s_lgroup ?s1) (s_hgroup ?s1) (cg_visits C g) (load, lg, hg, r)"
    unfolding e [symmetric] using K(3,4) by (intro Cons.prems(2)) auto
  let ?s2 = "?s1\<lparr>s_lgroup := lg, s_hgroup := hg, s_rnd := r\<rparr>"
  have pl: "match_low m \<Longrightarrow> cs_mask (s_lgroup ?s1) = cs_mask lo0 \<and> cs_pri (s_lgroup ?s1) = cs_pri lo0 \<and> cs_limit (s_lgroup ?s1) = cs_limit lo0"
    and ph: "match_high m \<Longrightarrow> cs_mask (s_hgroup ?s1) = cs_mask hi0 \<and> cs_pri (s_hgroup ?s1) = cs_pri hi0 \<and> cs_limit (s_hgroup ?s1) = cs_limit hi0"
    using K(1) by (simp_all add: search_inv_def)
  have l: "match_low m \<Longrightarrow> found (ok_low T (cs_mask lo0) (cs_pri lo0) (cs_limit lo0)) (cs_mask lo0) (cs_pri lo0) (cs_limit lo0) (cg_visits C g) lg"
    and h: "match_high m \<Longrightarrow> found (ok_high T (cs_mask hi0) (cs_limit hi0)) (cs_mask hi0) (cs_pri hi0) (cs_limit hi0) (cg_visits C g) hg"
    using R pl ph by (simp_all add: search_res_def)
  have "search_inv m T B ?n lo0 hi0 ?V ?s2"
    using K(1) l h by (auto simp: search_inv_def found_def)
  then have "search_inv m T B (?n + cg_size C g) lo0 hi0 (?V \<union> cg_visits C g) (search_compare m load ?s2)"
  proof (rule search_compare_inv [OF _ _ _ _ cg_size_nonneg B])
    show "-64 * cg_size C g \<le> load" "load \<le> 256 * B * cg_size C g" using R by (simp_all add: search_res_def)
    show "small B (cg_size C g)" using Cons.prems(1) by simp
  qed (use l h in simp_all)
  moreover have "search_children C T m (g # gs) s = search_compare m load ?s2"
    by (simp add: Let_def e)
  ultimately show ?case by (simp add: ac_simps Un_commute Un_left_commute)
qed simp

lemma cpu_search_inv:
  assumes B: "\<forall>c. 0 \<le> tdq_load (T c) \<and> tdq_load (T c) \<le> B"
  shows "small B (cg_size C g) \<Longrightarrow> cs_cpu low = -1 \<or> \<not> match_low m \<Longrightarrow> cs_cpu high = -1 \<or> \<not> match_high m \<Longrightarrow>
      search_res m T B (cg_size C g) low high (cg_visits C g) (cpu_search C T m g low high r)"
proof (induction g arbitrary: low high r)
  case (CpuGroup msk level flags gs)
  have b0: "0 \<le> B" using B [rule_format, of 0] by linarith
  have part: "cg_size C g \<le> cg_size C (CpuGroup msk level flags gs)" if "g \<in> set gs" for g
  proof -
    have "cg_size C g \<le> sum_list (map (cg_size C) gs)"
      using that cg_size_nonneg by (intro member_le_sum_list) auto
    then show ?thesis by simp
  qed
  have sm: "\<forall>g \<in> set gs. small B (cg_size C g)"
    using small_mono [OF CpuGroup.prems(1) cg_size_nonneg part b0] by blast
  have "search_inv m T B (0 + sum_list (map (cg_size C) gs)) low high ({} \<union> (\<Union>g \<in> set gs. cg_visits C g))
      (search_children C T m gs (search_init low high r))"
    using CpuGroup.IH sm by (intro search_children_inv [OF b0 sm] search_init_inv CpuGroup.prems(2,3)) auto
  note S = this [simplified]
  let ?cs = "own_cpus C msk gs"
  let ?s = "fold (search_cpu T m) ?cs (search_children C T m gs (search_init low high r))"
  have "search_inv m T B (sum_list (map (cg_size C) gs) + int (length ?cs)) low high
      ((\<Union>g \<in> set gs. cg_visits C g) \<union> set ?cs) ?s"
  proof (cases "?cs = []")
    case True
    then show ?thesis using S by simp
  next
    case False
    have "1 \<le> cg_size C (CpuGroup msk level flags gs)"
    proof -
      have "0 \<le> sum_list (map (cg_size C) gs)" using cg_size_nonneg by (intro sum_list_nonneg) auto
      moreover have "1 \<le> int (length ?cs)" using False by (cases ?cs) simp_all
      ultimately show ?thesis by simp
    qed
    then have "small B 1" by (intro small_mono [OF CpuGroup.prems(1) _ _ b0]) simp_all
    then show ?thesis using search_cpus_inv [OF S B] by simp
  qed
  then show ?case by (simp add: Let_def search_res_def search_inv_def)
qed

text \<open>
  What the two searches return: -1 when no visited CPU qualifies, and otherwise one that does.
\<close>

definition loads_small :: "'a kconf_scheme \<Rightarrow> kern \<Rightarrow> cpu_group \<Rightarrow> bool" where
  "loads_small C k g \<longleftrightarrow> (\<exists>B. (\<forall>c. 0 \<le> tdq_load (k_tdq k c) \<and> tdq_load (k_tdq k c) \<le> B) \<and> small B (cg_size C g))"

lemma sched_lowest_spec:
  assumes "loads_small C k g" and r: "sched_lowest C self g msk pri maxload prefer k = (cpu, k')"
  shows "if cpu = -1 then \<forall>c \<in> cg_visits C g. \<not> ok_low (k_tdq k) msk pri maxload c
         else \<exists>c \<in> cg_visits C g. cpu = int c \<and> ok_low (k_tdq k) msk pri maxload c"
    "k' = k\<lparr>k_randomval := k_randomval k'\<rparr>"
proof -
  obtain B where B: "\<forall>c. 0 \<le> tdq_load (k_tdq k c) \<and> tdq_load (k_tdq k c) \<le> B" "small B (cg_size C g)"
    using assms(1) by (auto simp: loads_small_def)
  let ?low = "no_search\<lparr>cs_cpu := -1, cs_prefer := prefer, cs_mask := msk, cs_pri := pri, cs_limit := maxload\<rparr>"
  obtain t lo hi rr where e: "cpu_search C (k_tdq k) CPU_SEARCH_LOWEST g ?low no_search (k_randomval k self) = (t, lo, hi, rr)"
    by (metis prod_cases4)
  have "search_res CPU_SEARCH_LOWEST (k_tdq k) B (cg_size C g) ?low no_search (cg_visits C g) (t, lo, hi, rr)"
    unfolding e [symmetric] by (rule cpu_search_inv [OF B]) (simp_all add: match_high_def)
  then show "if cpu = -1 then \<forall>c \<in> cg_visits C g. \<not> ok_low (k_tdq k) msk pri maxload c
         else \<exists>c \<in> cg_visits C g. cpu = int c \<and> ok_low (k_tdq k) msk pri maxload c" "k' = k\<lparr>k_randomval := k_randomval k'\<rparr>"
    using r e by (auto simp: sched_lowest_def Let_def search_res_def match_low_def found_def split: if_splits)
qed

lemma sched_highest_spec:
  assumes "loads_small C k g" and r: "sched_highest C self g msk minload k = (cpu, k')"
  shows "if cpu = -1 then \<forall>c \<in> cg_visits C g. \<not> ok_high (k_tdq k) msk minload c
         else \<exists>c \<in> cg_visits C g. cpu = int c \<and> ok_high (k_tdq k) msk minload c"
    "k' = k\<lparr>k_randomval := k_randomval k'\<rparr>"
proof -
  obtain B where B: "\<forall>c. 0 \<le> tdq_load (k_tdq k c) \<and> tdq_load (k_tdq k c) \<le> B" "small B (cg_size C g)"
    using assms(1) by (auto simp: loads_small_def)
  let ?high = "no_search\<lparr>cs_cpu := -1, cs_mask := msk, cs_limit := minload\<rparr>"
  obtain t lo hi rr where e: "cpu_search C (k_tdq k) CPU_SEARCH_HIGHEST g no_search ?high (k_randomval k self) = (t, lo, hi, rr)"
    by (metis prod_cases4)
  have "search_res CPU_SEARCH_HIGHEST (k_tdq k) B (cg_size C g) no_search ?high (cg_visits C g) (t, lo, hi, rr)"
    unfolding e [symmetric] by (rule cpu_search_inv [OF B]) (simp_all add: match_low_def)
  then show "if cpu = -1 then \<forall>c \<in> cg_visits C g. \<not> ok_high (k_tdq k) msk minload c
         else \<exists>c \<in> cg_visits C g. cpu = int c \<and> ok_high (k_tdq k) msk minload c" "k' = k\<lparr>k_randomval := k_randomval k'\<rparr>"
    using r e by (auto simp: sched_highest_def Let_def search_res_def match_high_def found_def split: if_splits)
qed

subsection \<open>The CPU picked for a thread\<close>

lemma loads_small_cong: "k_tdq k' = k_tdq k \<Longrightarrow> loads_small C k' g = loads_small C k g"
  by (simp add: loads_small_def)

lemma loads_small_max:
  assumes "loads_small C k g" "cg_visits C g \<noteq> {}"
  shows "tdq_load (k_tdq k c) \<le> INT_MAX"
proof -
  obtain B where B: "\<forall>c. 0 \<le> tdq_load (k_tdq k c) \<and> tdq_load (k_tdq k c) \<le> B" "small B (cg_size C g)"
    using assms(1) by (auto simp: loads_small_def)
  have b0: "0 \<le> B" using B(1) [rule_format, of c] by linarith
  have ne: "cg_visits C g \<noteq> {} \<Longrightarrow> 1 \<le> cg_size C g"
  proof (induction g)
    case (CpuGroup msk level flags gs)
    show ?case
    proof (cases "own_cpus C msk gs = []")
      case True
      then obtain h where h: "h \<in> set gs" "cg_visits C h \<noteq> {}" using CpuGroup.prems by auto
      then have "1 \<le> cg_size C h" by (rule CpuGroup.IH)
      also have "\<dots> \<le> sum_list (map (cg_size C) gs)" using h(1) cg_size_nonneg by (intro member_le_sum_list) auto
      finally show ?thesis by simp
    next
      case False
      have "0 \<le> sum_list (map (cg_size C) gs)" using cg_size_nonneg by (intro sum_list_nonneg) auto
      moreover have "1 \<le> int (length (own_cpus C msk gs))" using False by (cases "own_cpus C msk gs") simp_all
      ultimately show ?thesis by simp
    qed
  qed
  have "small B 1" using ne [OF assms(2)] by (intro small_mono [OF B(2) _ _ b0]) simp_all
  then show ?thesis using B(1) [rule_format, of c] b0 unfolding small_def by simp
qed

text \<open>What the topology promises: every CPU has a path of groups, with small loads.\<close>

definition topo_ok :: "'a kconf_scheme \<Rightarrow> kern \<Rightarrow> bool" where
  "topo_ok C k \<longleftrightarrow> loads_small C k (k_cputop k) \<and>
     (\<forall>c. tdq_cg (k_tdq k c) \<noteq> [] \<and> (\<forall>g \<in> set (tdq_cg (k_tdq k c)). loads_small C k g))"

lemma cache_group_in: "cache_group T now td path ccg = Some g \<Longrightarrow> g \<in> set path \<or> ccg = Some g"
  by (induction path arbitrary: ccg) (auto split: if_splits)

lemma sched_lowest_cases:
  assumes "loads_small C k g" "sched_lowest C self g msk pri maxload prefer k = (cpu, k')"
  shows "(\<exists>r. k' = k\<lparr>k_randomval := r\<rparr>) \<and> (cpu = -1 \<or> (\<exists>c \<in> msk. cpu = int c))"
  using sched_lowest_spec [OF assms] by (metis ok_low_def)

lemma pickcpu_search_ok:
  assumes top: "loads_small C k (k_cputop k)" and path: "\<forall>g \<in> set path. loads_small C k g"
    and set: "td_cpuset (k_td k td) \<inter> cg_visits C (k_cputop k) \<noteq> {}"
  shows "\<exists>cpu k'. pickcpu_search C self td pri path k = Inr (int cpu, k') \<and> THREAD_CAN_SCHED (k_td k td) cpu \<and>
    k' = k\<lparr>k_randomval := k_randomval k'\<rparr>"
proof -
  let ?th = "k_td k td" and ?top = "k_cputop k" and ?msk = "td_cpuset (k_td k td)"
  let ?cg = "cache_group (k_tun k) (k_ticks k) ?th path None"
  define s1 where "s1 = (case ?cg of Some g \<Rightarrow> if g \<noteq> ?top \<and> cg_mask g \<noteq> cg_mask ?top
      then sched_lowest C self g ?msk (max pri (PRI_MAX_TIMESHARE C)) INT_MAX (int (ts_cpu ?th)) k else (-1, k) | None \<Rightarrow> (-1, k))"
  obtain c1 k1 where 1: "s1 = (c1, k1)" by fastforce
  have r1: "\<exists>r. k1 = k\<lparr>k_randomval := r\<rparr>" and m1: "c1 = -1 \<or> (\<exists>c \<in> ?msk. c1 = int c)"
  proof -
    have "(\<exists>r. k1 = k\<lparr>k_randomval := r\<rparr>) \<and> (c1 = -1 \<or> (\<exists>c \<in> ?msk. c1 = int c))"
    proof (cases "\<exists>g. ?cg = Some g \<and> g \<noteq> ?top \<and> cg_mask g \<noteq> cg_mask ?top")
      case True
      then obtain g where c: "?cg = Some g" "g \<noteq> ?top" "cg_mask g \<noteq> cg_mask ?top" by blast
      then have g: "s1 = sched_lowest C self g ?msk (max pri (PRI_MAX_TIMESHARE C)) INT_MAX (int (ts_cpu ?th)) k"
        by (simp add: s1_def)
      have l: "loads_small C k g" using cache_group_in [OF c(1)] path by blast
      show ?thesis using sched_lowest_cases [OF l] g 1 by metis
    next
      case False
      then have "s1 = (-1, k)" by (auto simp: s1_def split: option.split)
      then show ?thesis using 1 by (auto intro: exI [of _ "k_randomval k"])
    qed
    then show "\<exists>r. k1 = k\<lparr>k_randomval := r\<rparr>" "c1 = -1 \<or> (\<exists>c \<in> ?msk. c1 = int c)" by auto
  qed
  obtain c2 k2 where 2: "(if c1 = -1 then sched_lowest C self ?top ?msk pri INT_MAX (int (ts_cpu ?th)) k1 else (c1, k1)) = (c2, k2)" by fastforce
  have t1: "k_tdq k1 = k_tdq k" using r1 by auto
  have l1: "loads_small C k1 ?top" using top loads_small_cong [OF t1, of C] by simp
  have r2: "\<exists>r. k2 = k\<lparr>k_randomval := r\<rparr>" and m2: "c2 = -1 \<or> (\<exists>c \<in> ?msk. c2 = int c)"
    using sched_lowest_cases [OF l1, of self ?msk pri INT_MAX "int (ts_cpu ?th)" c2 k2] 2 r1 m1 by (auto split: if_splits)
  obtain c3 k3 where 3: "(if c2 = -1 then sched_lowest C self ?top ?msk (-1) INT_MAX (int (ts_cpu ?th)) k2 else (c2, k2)) = (c3, k3)" by fastforce
  have t2: "k_tdq k2 = k_tdq k" using r2 by auto
  have l2: "loads_small C k2 ?top" using top loads_small_cong [OF t2, of C] by simp
  have r3: "\<exists>r. k3 = k\<lparr>k_randomval := r\<rparr>" and m3: "\<exists>c \<in> ?msk. c3 = int c"
  proof -
    show "\<exists>r. k3 = k\<lparr>k_randomval := r\<rparr>"
      using sched_lowest_cases [OF l2, of self ?msk "-1" INT_MAX "int (ts_cpu ?th)" c3 k3] 3 r2 by (auto split: if_splits)
    obtain c where c: "c \<in> ?msk" "c \<in> cg_visits C ?top" using set by blast
    have "ok_low (k_tdq k2) ?msk (-1) INT_MAX c"
      using c loads_small_max [OF l2, of c] by (auto simp: ok_low_def less_le_trans [OF _ uint_ge_0])
    then have "c2 = -1 \<Longrightarrow> c3 \<noteq> -1"
      using sched_lowest_spec(1) [OF l2, of self ?msk "-1" INT_MAX "int (ts_cpu ?th)" c3 k3] 3 c(2) by auto
    then show "\<exists>c \<in> ?msk. c3 = int c"
      using sched_lowest_cases [OF l2, of self ?msk "-1" INT_MAX "int (ts_cpu ?th)" c3 k3] 3 m2 by (auto split: if_splits)
  qed
  obtain c where c: "c \<in> ?msk" "c3 = int c" using m3 by blast
  have "pickcpu_search C self td pri path k =
      (if THREAD_CAN_SCHED ?th self \<and> uint (tdq_lowpri (k_tdq k3 self)) > pri \<and> uint (tdq_lowpri (k_tdq k3 c)) < PRI_MIN_IDLE C \<and>
          tdq_load (k_tdq k3 self) \<le> tdq_load (k_tdq k3 c) + 1 then Inr (int self, k3) else Inr (int c, k3))"
    unfolding pickcpu_search_def Let_def s1_def [symmetric] 1 prod.case 2 3 using c(2) by simp
  then show ?thesis using c r3 by (auto simp: THREAD_CAN_SCHED_def)
qed

text \<open>
  Unless the thread has to stay where it is, the CPU picked is one of its set, and only the
  thread's ts_cpu and the random numbers change.
\<close>

lemma sched_pickcpu_ok:
  assumes topo: "topo_ok C k" and sm: "k_smp_started k" and fl: "SRQ_OURSELF \<notin> flags" and mig: "THREAD_CAN_MIGRATE (k_td k td)"
    and set: "td_cpuset (k_td k td) \<inter> cg_visits C (k_cputop k) \<noteq> {}"
  shows "\<exists>cpu k' c. sched_pickcpu C self td flags k = Inr (cpu, k') \<and> THREAD_CAN_SCHED (k_td k td) cpu \<and>
    k' = (upd_th td (ts_cpu_update (\<lambda>_. c)) k)\<lparr>k_randomval := k_randomval k'\<rparr>"
proof -
  let ?pri = "uint (td_priority (k_td k td))"
  define intr where "intr = (?pri \<le> PRI_MAX_ITHD C \<and> THREAD_CAN_SCHED (k_td k td) self \<and>
      td_intr_nesting_level (k_td k (k_cur k self)) \<noteq> 0 \<and> ts_cpu (k_td k td) \<noteq> self)"
  define c where "c = (if intr then self else ts_cpu (k_td k td))"
  define k1 where "k1 = upd_th td (ts_cpu_update (\<lambda>_. c)) k"
  have id: "upd_th td (ts_cpu_update (\<lambda>_. ts_cpu (k_td k td))) k = k" by (simp add: upd_th_def upd_td_def)
  have k1: "(if intr then upd_th td (ts_cpu_update (\<lambda>_. self)) k else k) = k1" by (simp add: k1_def c_def id)
  have tc: "ts_cpu (k_td k1 td) = c" "td_cpuset (k_td k1 td) = td_cpuset (k_td k td)" "td_priority (k_td k1 td) = td_priority (k_td k td)"
    "k_tdq k1 = k_tdq k" "k_cputop k1 = k_cputop k" "k_tun k1 = k_tun k" "k_ticks k1 = k_ticks k"
    by (simp_all add: k1_def) (simp add: upd_th_def)
  have S: "THREAD_CAN_SCHED (k_td k1 td) x = THREAD_CAN_SCHED (k_td k td) x" for x by (simp add: THREAD_CAN_SCHED_def tc)
  let ?path = "tdq_cg (k_tdq k1 c)"
  have topo1: "loads_small C k1 (k_cputop k1)" "?path \<noteq> []" "\<forall>g \<in> set ?path. loads_small C k1 g"
    using topo loads_small_cong [OF tc(4), of C] by (auto simp: topo_ok_def tc)
  obtain g p where gp: "?path = g # p" using topo1(2) by (cases ?path) auto
  have "td_cpuset (k_td k1 td) \<inter> cg_visits C (k_cputop k1) \<noteq> {}" using set by (simp add: tc)
  from pickcpu_search_ok [OF topo1(1,3) this, of self ?pri] obtain cpu k' where s:
    "pickcpu_search C self td ?pri ?path k1 = Inr (int cpu, k')" "THREAD_CAN_SCHED (k_td k1 td) cpu" "k' = k1\<lparr>k_randomval := k_randomval k'\<rparr>"
    by blast
  have nm: "\<not> (SRQ_OURSELF \<in> flags \<or> \<not> THREAD_CAN_MIGRATE (k_td k td))" using fl mig by simp
  define stay where "stay = (CG_FLAG_THREAD \<notin> cg_flags g \<or> (\<forall>cpu \<in> set [0..<Suc (mp_maxid C)]. cpu \<in> cg_mask g \<longrightarrow>
      \<not> uint (tdq_lowpri (k_tdq k1 cpu)) < PRI_MIN_IDLE C))"
  define aff where "aff = (THREAD_CAN_SCHED (k_td k1 td) c \<and> uint (tdq_lowpri (k_tdq k1 c)) \<ge> PRI_MIN_IDLE C \<and>
      SCHED_AFFINITY (k_tun k1) (k_ticks k1) (k_td k1 td) (CG_SHARE_L2 C))"
  have eq: "sched_pickcpu C self td flags k =
      (if intr \<and> uint (tdq_lowpri (k_tdq k1 self)) > ?pri then Inr (c, k1)
       else if aff \<and> stay then Inr (c, k1) else Inr (cpu, k'))"
    unfolding sched_pickcpu_def Let_def if_not_P [OF nm] intr_def [symmetric] k1 tc(1) gp list.case
      aff_def [symmetric] stay_def [symmetric]
    using sm s(1) gp by simp
  have "intr \<Longrightarrow> THREAD_CAN_SCHED (k_td k td) c" by (simp add: intr_def c_def)
  moreover have "aff \<Longrightarrow> THREAD_CAN_SCHED (k_td k td) c" using S by (simp add: aff_def)
  moreover have "k1 = (upd_th td (ts_cpu_update (\<lambda>_. c)) k)\<lparr>k_randomval := k_randomval k1\<rparr>" by (simp add: k1_def)
  moreover have "k' = (upd_th td (ts_cpu_update (\<lambda>_. c)) k)\<lparr>k_randomval := k_randomval k'\<rparr>" using s(3) by (simp add: k1_def)
  ultimately show ?thesis using s(2) S eq by metis
qed

subsection \<open>A search returns a CPU of its mask\<close>

definition holds_ok :: "(cpuid \<Rightarrow> bool) \<Rightarrow> cpu_search_s \<Rightarrow> cpu_search_s \<Rightarrow> bool" where
  "holds_ok ok p g \<longleftrightarrow> cs_mask g = cs_mask p \<and> cs_limit g = cs_limit p \<and> (cs_cpu g = -1 \<or> (\<exists>c. cs_cpu g = int c \<and> ok c))"

definition high_sound :: "(cpuid \<Rightarrow> tdq) \<Rightarrow> cpu_search_s \<Rightarrow> search_st \<Rightarrow> bool" where
  "high_sound T p s \<longleftrightarrow> holds_ok (ok_high T (cs_mask p) (cs_limit p)) p (s_high s) \<and>
     holds_ok (ok_high T (cs_mask p) (cs_limit p)) p (s_hgroup s)"

lemma search_clear_high: "high_sound T p s \<Longrightarrow> high_sound T p (search_clear CPU_SEARCH_HIGHEST s)"
  by (auto simp: high_sound_def holds_ok_def search_clear_def match_low_def match_high_def)

lemma search_compare_high: "high_sound T p s \<Longrightarrow> high_sound T p (search_compare CPU_SEARCH_HIGHEST load s)"
  by (auto simp: high_sound_def holds_ok_def search_compare_def Let_def match_low_def match_high_def)

lemma search_cpu_high: "high_sound T p s \<Longrightarrow> high_sound T p (search_cpu T CPU_SEARCH_HIGHEST c s)"
proof -
  assume h: "high_sound T p s"
  obtain load s' where i: "search_item T CPU_SEARCH_HIGHEST c (search_clear CPU_SEARCH_HIGHEST s) = (load, s')" by fastforce
  note I = search_item_fields [OF i]
  have "high_sound T p s'"
    using search_clear_high [OF h] unfolding high_sound_def I(3,7) by (auto simp: holds_ok_def ok_high_def)
  then show ?thesis by (simp add: search_cpu_def i search_compare_high)
qed

lemma search_cpus_high: "high_sound T p s \<Longrightarrow> high_sound T p (fold (search_cpu T CPU_SEARCH_HIGHEST) cs s)"
  by (induction cs arbitrary: s) (simp_all add: search_cpu_high)

lemma search_children_high:
  assumes "\<forall>g \<in> set gs. \<forall>low high r t lo hi r'. holds_ok (ok_high T (cs_mask p) (cs_limit p)) p high \<longrightarrow>
      cpu_search C T CPU_SEARCH_HIGHEST g low high r = (t, lo, hi, r') \<longrightarrow> holds_ok (ok_high T (cs_mask p) (cs_limit p)) p hi"
    and "high_sound T p s"
  shows "high_sound T p (search_children C T CPU_SEARCH_HIGHEST gs s)"
  using assms
proof (induction gs)
  case (Cons g gs)
  let ?s = "search_clear CPU_SEARCH_HIGHEST (search_children C T CPU_SEARCH_HIGHEST gs s)"
  have h: "high_sound T p ?s"
    by (rule search_clear_high [OF Cons.IH [OF ballI Cons.prems(2)]], rule bspec [OF Cons.prems(1) list.set_intros(2)])
  obtain t lo hi r where e: "cpu_search C T CPU_SEARCH_HIGHEST g (s_lgroup ?s) (s_hgroup ?s) (s_rnd ?s) = (t, lo, hi, r)"
    by (metis prod_cases4)
  have "holds_ok (ok_high T (cs_mask p) (cs_limit p)) p hi"
    using h by (intro bspec [OF Cons.prems(1) list.set_intros(1), rule_format, OF _ e]) (simp add: high_sound_def)
  then have "high_sound T p (?s\<lparr>s_lgroup := lo, s_hgroup := hi, s_rnd := r\<rparr>)"
    using h by (simp add: high_sound_def)
  then show ?case by (simp add: Let_def e search_compare_high)
qed simp

lemma cpu_search_high:
  "holds_ok (ok_high T (cs_mask p) (cs_limit p)) p high \<Longrightarrow> cpu_search C T CPU_SEARCH_HIGHEST g low high r = (t, lo, hi, r') \<Longrightarrow>
   holds_ok (ok_high T (cs_mask p) (cs_limit p)) p hi"
proof (induction g arbitrary: low high r t lo hi r')
  case (CpuGroup msk level flags gs)
  have "high_sound T p (search_init low high r)" using CpuGroup.prems(1) by (simp add: high_sound_def search_init_def)
  then have "high_sound T p (search_children C T CPU_SEARCH_HIGHEST gs (search_init low high r))"
    using CpuGroup.IH by (intro search_children_high ballI) blast+
  from search_cpus_high [OF this, of "own_cpus C msk gs"] show ?case
    using CpuGroup.prems(2) by (auto simp: high_sound_def Let_def)
qed

lemma sched_highest_sound:
  assumes "sched_highest C self g msk minload k = (cpu, k')"
  shows "(\<exists>r. k' = k\<lparr>k_randomval := r\<rparr>) \<and> (cpu = -1 \<or> (\<exists>c. cpu = int c \<and> ok_high (k_tdq k) msk minload c))"
proof -
  let ?high = "no_search\<lparr>cs_cpu := -1, cs_mask := msk, cs_limit := minload\<rparr>"
  obtain t lo hi r where e: "cpu_search C (k_tdq k) CPU_SEARCH_HIGHEST g no_search ?high (k_randomval k self) = (t, lo, hi, r)"
    by (metis prod_cases4)
  have "holds_ok (ok_high (k_tdq k) (cs_mask ?high) (cs_limit ?high)) ?high hi"
    by (rule cpu_search_high [OF _ e]) (simp add: holds_ok_def)
  then show ?thesis using assms e by (auto simp: sched_highest_def Let_def holds_ok_def)
qed

definition low_sound :: "(cpuid \<Rightarrow> bool) \<Rightarrow> cpu_search_s \<Rightarrow> search_st \<Rightarrow> bool" where
  "low_sound ok p s \<longleftrightarrow> holds_ok ok p (s_low s) \<and> holds_ok ok p (s_lgroup s)"

lemma search_clear_low: "low_sound ok p s \<Longrightarrow> low_sound ok p (search_clear CPU_SEARCH_LOWEST s)"
  by (auto simp: low_sound_def holds_ok_def search_clear_def match_low_def match_high_def)

lemma search_compare_low: "low_sound ok p s \<Longrightarrow> low_sound ok p (search_compare CPU_SEARCH_LOWEST load s)"
  by (auto simp: low_sound_def holds_ok_def search_compare_def Let_def match_low_def match_high_def)

lemma search_cpu_low:
  "low_sound (\<lambda>c. c \<in> cs_mask p) p s \<Longrightarrow> low_sound (\<lambda>c. c \<in> cs_mask p) p (search_cpu T CPU_SEARCH_LOWEST c s)"
proof -
  assume h: "low_sound (\<lambda>c. c \<in> cs_mask p) p s"
  obtain load s' where i: "search_item T CPU_SEARCH_LOWEST c (search_clear CPU_SEARCH_LOWEST s) = (load, s')" by fastforce
  note I = search_item_fields [OF i]
  have "low_sound (\<lambda>c. c \<in> cs_mask p) p s'"
    using search_clear_low [OF h] unfolding low_sound_def I(2,6) by (auto simp: holds_ok_def)
  then show ?thesis by (simp add: search_cpu_def i search_compare_low)
qed

lemma search_cpus_low:
  "low_sound (\<lambda>c. c \<in> cs_mask p) p s \<Longrightarrow> low_sound (\<lambda>c. c \<in> cs_mask p) p (fold (search_cpu T CPU_SEARCH_LOWEST) cs s)"
  by (induction cs arbitrary: s) (simp_all add: search_cpu_low)

lemma search_children_low:
  assumes "\<forall>g \<in> set gs. \<forall>low high r t lo hi r'. holds_ok (\<lambda>c. c \<in> cs_mask p) p low \<longrightarrow>
      cpu_search C T CPU_SEARCH_LOWEST g low high r = (t, lo, hi, r') \<longrightarrow> holds_ok (\<lambda>c. c \<in> cs_mask p) p lo"
    and "low_sound (\<lambda>c. c \<in> cs_mask p) p s"
  shows "low_sound (\<lambda>c. c \<in> cs_mask p) p (search_children C T CPU_SEARCH_LOWEST gs s)"
  using assms
proof (induction gs)
  case (Cons g gs)
  let ?s = "search_clear CPU_SEARCH_LOWEST (search_children C T CPU_SEARCH_LOWEST gs s)"
  have h: "low_sound (\<lambda>c. c \<in> cs_mask p) p ?s"
    by (rule search_clear_low [OF Cons.IH [OF ballI Cons.prems(2)]], rule bspec [OF Cons.prems(1) list.set_intros(2)])
  obtain t lo hi r where e: "cpu_search C T CPU_SEARCH_LOWEST g (s_lgroup ?s) (s_hgroup ?s) (s_rnd ?s) = (t, lo, hi, r)"
    by (metis prod_cases4)
  have "holds_ok (\<lambda>c. c \<in> cs_mask p) p lo"
    using h by (intro bspec [OF Cons.prems(1) list.set_intros(1), rule_format, OF _ e]) (simp add: low_sound_def)
  then have "low_sound (\<lambda>c. c \<in> cs_mask p) p (?s\<lparr>s_lgroup := lo, s_hgroup := hi, s_rnd := r\<rparr>)"
    using h by (simp add: low_sound_def)
  then show ?case by (simp add: Let_def e search_compare_low)
qed simp

lemma cpu_search_low:
  "holds_ok (\<lambda>c. c \<in> cs_mask p) p low \<Longrightarrow> cpu_search C T CPU_SEARCH_LOWEST g low high r = (t, lo, hi, r') \<Longrightarrow>
   holds_ok (\<lambda>c. c \<in> cs_mask p) p lo"
proof (induction g arbitrary: low high r t lo hi r')
  case (CpuGroup msk level flags gs)
  have "low_sound (\<lambda>c. c \<in> cs_mask p) p (search_init low high r)" using CpuGroup.prems(1) by (simp add: low_sound_def search_init_def)
  then have "low_sound (\<lambda>c. c \<in> cs_mask p) p (search_children C T CPU_SEARCH_LOWEST gs (search_init low high r))"
    using CpuGroup.IH by (intro search_children_low ballI) blast+
  from search_cpus_low [OF this, of T "own_cpus C msk gs"] show ?case
    using CpuGroup.prems(2) by (auto simp: low_sound_def Let_def)
qed

lemma sched_lowest_sound:
  assumes "sched_lowest C self g msk pri maxload prefer k = (cpu, k')"
  shows "(\<exists>r. k' = k\<lparr>k_randomval := r\<rparr>) \<and> (cpu = -1 \<or> (\<exists>c \<in> msk. cpu = int c))"
proof -
  let ?low = "no_search\<lparr>cs_cpu := -1, cs_prefer := prefer, cs_mask := msk, cs_pri := pri, cs_limit := maxload\<rparr>"
  obtain t lo hi r where e: "cpu_search C (k_tdq k) CPU_SEARCH_LOWEST g ?low no_search (k_randomval k self) = (t, lo, hi, r)"
    by (metis prod_cases4)
  have "holds_ok (\<lambda>c. c \<in> cs_mask ?low) ?low lo"
    by (rule cpu_search_low [OF _ e]) (simp add: holds_ok_def)
  then show ?thesis using assms e by (auto simp: sched_lowest_def Let_def holds_ok_def)
qed

subsection \<open>Operations that do not loop\<close>

definition returns :: "fault + 'a \<Rightarrow> bool" where
  "returns r \<longleftrightarrow> (\<forall>s. r \<noteq> Inl (Diverges s))"

lemma returns_Inr [simp]: "returns (Inr x)"
  by (simp add: returns_def)

lemma returns_Inl [simp]: "returns (Inl e) \<longleftrightarrow> (\<forall>s. e \<noteq> Diverges s)"
  by (simp add: returns_def)

lemma returns_kassert [simp]: "returns (kassert b s)"
  by (cases b) simp_all

lemma returns_tailq_remove [simp]: "returns (tailq_remove x xs)"
  by (simp add: tailq_remove_def)

lemma returns_rqhead [simp]: "returns (rqhead rq p)"
  by (simp add: rqhead_def)

lemma returns_rbind [simp]: "returns m \<Longrightarrow> returns (rbind m f) \<longleftrightarrow> (\<forall>x. m = Inr x \<longrightarrow> returns (f x))"
  by (cases m) auto

lemma returns_runq_choose [simp]: "returns (runq_choose C rq)" "returns (runq_choose_from C rq i)"
  by (auto simp: runq_choose_def runq_choose_from_def Let_def)

lemma returns_rng [simp]: "returns (rng r n)"
  by (simp add: rng_def)

lemma returns_lotteryq_choose [simp]: "returns (lotteryq_choose r ths rq)"
  by (auto simp: lotteryq_choose_def split: option.split)

lemma returns_td_deref [simp]: "returns (td_deref p)"
  by (simp add: td_deref_def split: option.split)

lemma returns_stats [simp]: "returns (tdq_lottery_stats ths rq td)"
  by (auto simp: tdq_lottery_stats_def Let_def)

lemma returns_tdq_choose [simp]: "returns (tdq_choose C c k)"
  unfolding tdq_choose_def Let_def by (auto split: prod.split)

lemma returns_setlowpri [simp]: "returns (tdq_setlowpri C c ctd k)"
  unfolding tdq_setlowpri_def Let_def by (auto split: prod.split option.split)

lemma returns_runq_remove [simp]: "returns (runq_remove_idx C ths rq td idx)" "returns (runq_remove C ths rq td)"
proof -
  show 1: "returns (runq_remove_idx C ths rq td i)" for i by (auto simp: runq_remove_idx_def Let_def)
  then show "returns (runq_remove C ths rq td)" by (auto simp: runq_remove_def split: prod.split)
qed

lemma returns_tdq_runq_rem [simp]: "returns (tdq_runq_rem C c td k)"
  unfolding tdq_runq_rem_def Let_def by (auto split: option.split prod.split)

lemma returns_load_rem [simp]: "returns (tdq_load_rem c td k)"
  by (auto simp: tdq_load_rem_def Let_def)

lemma returns_sched_rem [simp]: "returns (sched_rem C td k)"
  unfolding sched_rem_def Let_def by auto

lemma returns_runq_add_pri [simp]: "returns (runq_add_pri C ths rq td p flags)"
  by (auto simp: runq_add_pri_def Let_def)

lemma returns_tdq_runq_add [simp]: "returns (tdq_runq_add C c td flags k)"
  unfolding tdq_runq_add_def tdq_lottery_add_def Let_def by (auto split: prod.split)

lemma returns_tdq_add [simp]: "returns (tdq_add C c td flags k)"
  unfolding tdq_add_def Let_def by auto

lemma returns_tdq_move [simp]: "returns (tdq_move C a b k)"
  unfolding tdq_move_def Let_def by (auto split: option.split)

lemma tdq_move_None: "tdq_move C a b k = Inr (None, k') \<Longrightarrow> k' = k"
  by (auto simp: tdq_move_def Let_def split: option.splits)

lemma returns_balance_pair [simp]: "returns (sched_balance_pair C self high low k)"
  unfolding sched_balance_pair_def by (auto split: option.split prod.split)

lemma returns_sched_choose [simp]: "returns (sched_choose C self k)"
  unfolding sched_choose_def by (auto split: prod.split option.split)

subsection \<open>The loops end\<close>

lemma balance_low_returns:
  "finite lmask \<Longrightarrow> card lmask < n \<Longrightarrow> returns (balance_low n f C self cg high lmask anylow k)"
proof (induction n arbitrary: lmask anylow k)
  case (Suc n)
  obtain low k1 where l: "sched_lowest C self cg lmask (-1) (tdq_load (k_tdq k high) - 1) (int high) k = (low, k1)" by fastforce
  note S = sched_lowest_sound [OF l]
  have "returns (balance_low n f C self cg high (lmask - {nat low}) False k2)" if "low \<noteq> -1" for k2
  proof -
    have "nat low \<in> lmask" using S that by auto
    then have "card (lmask - {nat low}) < card lmask" using Suc.prems(1) by (intro card_Diff1_less)
    then show ?thesis using Suc.prems by (intro Suc.IH) auto
  qed
  then show ?case by (auto simp: l split: prod.split)
qed simp

lemma balance_high_returns:
  "finite hmask \<Longrightarrow> card hmask < n \<Longrightarrow> card hmask < m \<Longrightarrow> returns (balance_high n m W C self cg hmask k)"
proof (induction n arbitrary: hmask k)
  case (Suc n)
  obtain high k1 where h: "sched_highest C self cg hmask 2 k = (high, k1)" by fastforce
  note S = sched_highest_sound [OF h]
  have "returns (balance_low m (rv_pair W n) C self cg (nat high) (hmask - {nat high}) True (rv_search W n k1))"
    using Suc.prems card_Diff1_le [of hmask "nat high"] by (intro balance_low_returns) auto
  moreover have "returns (balance_high n m W C self cg (hmask - {nat high} - X) k2)" if "high \<noteq> -1" for X k2
  proof -
    have "nat high \<in> hmask" using S that by (auto simp: ok_high_def)
    then have "card (hmask - {nat high}) < card hmask" using Suc.prems(1) by (intro card_Diff1_less)
    moreover have "card (hmask - {nat high} - X) \<le> card (hmask - {nat high})" using Suc.prems(1) by (intro card_mono) auto
    ultimately show ?thesis using Suc.prems by (intro Suc.IH) auto
  qed
  note R = this [of "{}", simplified] this
  ultimately show ?case using R by (auto simp: h Let_def split: prod.split low_result.split)
qed simp

lemma card_all_cpus [simp]: "finite all_cpus" "card all_cpus = CPU_SETSIZE"
  by (simp_all add: all_cpus_def)

lemma sched_balance_returns: "returns (sched_balance W C self k)"
  unfolding sched_balance_def sched_balance_group_def Let_def
  by (simp add: balance_high_returns del: balance_high.simps split: prod.split)

subsection \<open>The searches for work end when the other CPUs let them\<close>

text \<open>The other CPUs keep the place of this CPU in the topology. A round is undisturbed when they do
  nothing in it.\<close>

definition keeps_topology :: "cpuid \<Rightarrow> rivals \<Rightarrow> bool" where
  "keeps_topology self W \<longleftrightarrow> (\<forall>n k. tdq_cg (k_tdq (rv_search W n k) self) = tdq_cg (k_tdq k self) \<and>
     tdq_cg (k_tdq (rv_lock W n k) self) = tdq_cg (k_tdq k self))"

definition disturbed :: "rivals \<Rightarrow> nat \<Rightarrow> bool" where
  "disturbed W n \<longleftrightarrow> rv_search W n \<noteq> id \<or> rv_lock W n \<noteq> id"

text \<open>How many of the first \<open>n\<close> rounds, counted as the loops count them, are disturbed.\<close>

fun disturbances :: "rivals \<Rightarrow> nat \<Rightarrow> nat" where
  "disturbances W 0 = 0"
| "disturbances W (Suc n) = (if disturbed W n then 1 else 0) + disturbances W n"

text \<open>An undisturbed round of tdq_idled ends the search, or climbs a level, or drops a CPU, or has noticed
  that the switch count it remembers is out of date; it only goes back to the start in the last case.\<close>

definition idled_rank :: "nat \<Rightarrow> kern \<Rightarrow> cpuid \<Rightarrow> cpu_group list \<Rightarrow> cpuid set \<Rightarrow> int \<Rightarrow> nat" where
  "idled_rank L k self path msk switchcnt =
     length path + card msk + (if switchcnt = tdq_switchcnt (k_tdq k self) + tdq_oldswitchcnt (k_tdq k self) then 0 else L + 1)"

lemma idled_loop_returns:
  assumes W: "keeps_topology self W"
  shows "finite msk \<Longrightarrow> length path \<le> L \<Longrightarrow> length (tdq_cg (k_tdq k self)) = L \<Longrightarrow>
    idled_rank L k self path msk switchcnt + (2 * L + 2) * disturbances W n < n \<Longrightarrow>
    returns (idled_loop n W C self path msk switchcnt k)"
proof (induction n arbitrary: path msk switchcnt k)
  case (Suc n)
  show ?case
  proof (cases path)
    case (Cons cg p)
    obtain cpu k1 where h: "sched_highest C self cg msk (steal_thresh (k_tun k)) k = (cpu, k1)" by fastforce
    obtain r where k1: "k1 = k\<lparr>k_randomval := r\<rparr>" using sched_highest_sound [OF h] by blast
    define k2 where "k2 = rv_search W n k1"
    define k3 where "k3 = rv_lock W n k2"
    let ?cnt = "\<lambda>k. tdq_switchcnt (k_tdq k self) + tdq_oldswitchcnt (k_tdq k self)"
    have S: "nat cpu \<in> msk" "\<not> stale_steal k1 (nat cpu)" if "cpu \<noteq> -1"
      using sched_highest_sound [OF h] that by (auto simp: ok_high_def stale_steal_def)
    have cg: "length (tdq_cg (k_tdq k1 self)) = L" "length (tdq_cg (k_tdq k2 self)) = L" "length (tdq_cg (k_tdq k3 self)) = L"
      using W Suc.prems(3) by (simp_all add: keeps_topology_def k1 k2_def k3_def)
    have less: "card (msk - {nat cpu}) < card msk" if "cpu \<noteq> -1"
      using S(1) [OF that] Suc.prems(1) by (intro card_Diff1_less) simp_all
    have next_ok: "returns (idled_loop n W C self path' msk' sw' k')"
      if "msk' \<subseteq> msk" "length path' \<le> L" "length (tdq_cg (k_tdq k' self)) = L"
        "disturbed W n \<or> idled_rank L k' self path' msk' sw' < idled_rank L k self path msk switchcnt" for path' msk' sw' k'
    proof (rule Suc.IH [OF _ that(2,3)])
      have f: "finite msk'" "card msk' \<le> card msk" using that(1) Suc.prems(1) finite_subset card_mono by blast+
      then show "finite msk'" by simp
      have "idled_rank L k' self path' msk' sw' \<le> length path' + card msk + (L + 1)" using f(2) by (simp add: idled_rank_def)
      moreover have "card msk + 1 \<le> idled_rank L k self path msk switchcnt" by (simp add: idled_rank_def Cons)
      ultimately show "idled_rank L k' self path' msk' sw' + (2 * L + 2) * disturbances W n < n"
        using that(2,4) Suc.prems(4) by (cases "disturbed W n") (auto simp: algebra_simps)
    qed
    have q: "k2 = k1 \<and> k3 = k1" if "\<not> disturbed W n" using that by (simp add: disturbed_def k2_def k3_def)
    have up: "returns (idled_loop n W C self p msk switchcnt k2)"
      using Suc.prems(2) Cons cg by (intro next_ok; cases "disturbed W n") (use q in \<open>auto simp: idled_rank_def k1\<close>)
    have drop_cpu: "returns (idled_loop n W C self (cg # p) (msk - {nat cpu}) switchcnt k4)"
      if "cpu \<noteq> -1" "tdq_move C (nat cpu) self k3 = Inr (None, k4)" for k4
      using Suc.prems(2) Cons cg less [OF that(1)] tdq_move_None [OF that(2)]
      by (intro next_ok; cases "disturbed W n") (use q in \<open>auto simp: idled_rank_def k1\<close>)
    have restart1: "returns (idled_loop n W C self (tdq_cg (k_tdq k2 self)) msk (?cnt k2) k2)"
      if "cpu \<noteq> -1" "stale_steal k2 (nat cpu)"
      using S(2) [OF that(1)] that(2) cg by (intro next_ok; cases "disturbed W n") (use q in auto)
    have restart2: "returns (idled_loop n W C self (tdq_cg (k_tdq k3 self)) msk (?cnt k3) k3)"
      if "cpu \<noteq> -1" "stale_steal k3 (nat cpu) \<or> switchcnt \<noteq> ?cnt k3"
      using S(2) [OF that(1)] that(2) cg Cons by (intro next_ok; cases "disturbed W n") (use q in \<open>auto simp: idled_rank_def k1\<close>)
    show ?thesis unfolding Cons idled_loop.simps h Let_def prod.case k2_def [symmetric] k3_def [symmetric]
      using up drop_cpu restart1 restart2 by (auto simp del: idled_loop.simps split: prod.split)
  qed simp
qed simp

lemma tdq_idled_returns:
  assumes "keeps_topology self W" "L = length (tdq_cg (k_tdq k self))"
    "L + CPU_SETSIZE + (2 * L + 2) * disturbances W (rv_rounds W) < rv_rounds W"
  shows "returns (tdq_idled W C self k)"
proof -
  let ?sw = "tdq_switchcnt (k_tdq k self) + tdq_oldswitchcnt (k_tdq k self)"
  have "card (all_cpus - {self}) \<le> CPU_SETSIZE" using card_Diff1_le [of all_cpus self] by simp
  then have "returns (idled_loop (rv_rounds W) W C self (tdq_cg (k_tdq k self)) (all_cpus - {self}) ?sw k)"
    using assms by (intro idled_loop_returns [where L = L]) (simp_all add: idled_rank_def)
  then show ?thesis by (simp add: tdq_idled_def)
qed

lemma trysteal_loop_returns:
  "length path + disturbances W n < n \<Longrightarrow> returns (trysteal_loop n W C self i path msk k)"
proof (induction n arbitrary: path i k)
  case (Suc n)
  show ?case
  proof (cases path)
    case (Cons cg p)
    obtain cpu k1 where h: "sched_highest C self cg msk (steal_thresh (k_tun k)) k = (cpu, k1)" by fastforce
    obtain r where k1: "k1 = k\<lparr>k_randomval := r\<rparr>" using sched_highest_sound [OF h] by blast
    define k2 where "k2 = rv_search W n k1"
    have S: "\<not> stale_steal k1 (nat cpu)" if "cpu \<noteq> -1"
      using sched_highest_sound [OF h] that by (auto simp: ok_high_def stale_steal_def)
    have q: "k2 = k1" if "\<not> disturbed W n" using that by (simp add: disturbed_def k2_def)
    have up: "returns (trysteal_loop n W C self (i + 1) p msk k2)"
      using Suc.prems Cons by (intro Suc.IH) (simp split: if_splits)
    have again: "returns (trysteal_loop n W C self i (cg # p) msk k2)" if "cpu \<noteq> -1" "stale_steal k2 (nat cpu)"
      using S that q Suc.prems Cons by (cases "disturbed W n") (auto intro!: Suc.IH)
    show ?thesis unfolding Cons trysteal_loop.simps h Let_def prod.case k2_def [symmetric]
      using up again by (auto simp del: trysteal_loop.simps split: prod.split)
  qed simp
qed simp

lemma tdq_trysteal_returns:
  "length (tdq_cg (k_tdq k self)) + disturbances W (rv_rounds W) < rv_rounds W \<Longrightarrow> returns (tdq_trysteal W C self k)"
  unfolding tdq_trysteal_def by (auto intro!: trysteal_loop_returns simp del: trysteal_loop.simps)

end
