(* ===== verification/SchedInv.thy ===== *)
theory SchedInv
  imports SchedOps CpuSearchLaws
begin

text \<open>
  The invariant of the scheduler's state, kept by every operation that returns: all queues are
  well-formed, agree with the threads' ts_runq and td_state, and hold no idle thread. It is an
  invariant of the step relation that interleaves the operations of all CPUs with changes by
  the rest of the kernel.
\<close>

subsection \<open>The invariant and its frames\<close>

definition not_idle :: "kern \<Rightarrow> tid \<Rightarrow> bool" where
  "not_idle k td \<longleftrightarrow> (\<forall>c. td \<noteq> k_idle k c)"

definition k_ok :: "'a kconf_scheme \<Rightarrow> kern \<Rightarrow> bool" where
  "k_ok C k \<longleftrightarrow> k_wf C k \<and> (\<forall>c. unqueued k (k_idle k c))"

text \<open>A change of a thread that the queues do not notice.\<close>

definition same_place :: "thread \<Rightarrow> thread \<Rightarrow> bool" where
  "same_place t t' \<longleftrightarrow> ts_runq t' = ts_runq t \<and> td_state t' = td_state t \<and> td_rqindex t' = td_rqindex t \<and>
     has_flag (td_flags t') TDF_INMEM = has_flag (td_flags t) TDF_INMEM \<and> uint (td_priority t) \<le> uint (td_priority t')"

lemma q_elems_frame [simp]:
  "q_elems (upd_th td f k) = q_elems k" "q_elems (k\<lparr>k_td := s\<rparr>) = q_elems k" "q_elems (k\<lparr>k_randomval := r\<rparr>) = q_elems k"
  "q_elems (k\<lparr>k_calls := l\<rparr>) = q_elems k" "q_elems (k\<lparr>k_proc := p\<rparr>) = q_elems k" "q_elems (k\<lparr>k_cur := u\<rparr>) = q_elems k"
  "q_elems (k\<lparr>k_ticks := t\<rparr>) = q_elems k" "q_elems (k\<lparr>k_tun := T\<rparr>) = q_elems k" "q_elems (k\<lparr>k_balance_ticks := b\<rparr>) = q_elems k"
  "q_elems (ext_call e k) = q_elems k" "q_elems (k\<lparr>k_cputop := g\<rparr>) = q_elems k" "q_elems (k\<lparr>k_balance_tdq := c\<rparr>) = q_elems k"
  by (simp_all add: q_elems_def fun_eq_iff ext_call_def)

lemma unqueued_frame [simp]:
  "unqueued (upd_th td f k) = unqueued k" "unqueued (k\<lparr>k_randomval := r\<rparr>) = unqueued k" "unqueued (k\<lparr>k_td := s\<rparr>) = unqueued k"
  "unqueued (k\<lparr>k_proc := p\<rparr>) = unqueued k" "unqueued (ext_call e k) = unqueued k" "unqueued (k\<lparr>k_cur := u\<rparr>) = unqueued k"
  by (simp_all add: unqueued_def fun_eq_iff)

lemma ext_call_frame [simp]:
  "k_td (ext_call e k) = k_td k" "k_tdq (ext_call e k) = k_tdq k" "k_idle (ext_call e k) = k_idle k"
  "k_cur (ext_call e k) = k_cur k" "k_tun (ext_call e k) = k_tun k" "k_proc (ext_call e k) = k_proc k"
  by (simp_all add: ext_call_def)

lemma k_ok_wf: "k_ok C k \<Longrightarrow> k_wf C k"
  by (simp add: k_ok_def)

lemma k_ok_frame:
  assumes "k_ok C k" "\<And>c n. tdq_rq n (k_tdq k' c) = tdq_rq n (k_tdq k c)"
    "\<And>c. tdq_idx (k_tdq k' c) = tdq_idx (k_tdq k c)" "\<And>c. tdq_ridx (k_tdq k' c) = tdq_ridx (k_tdq k c)"
    "\<And>t. \<not> unqueued k t \<Longrightarrow> same_place (k_td k t) (k_td k' t)" "k_idle k' = k_idle k"
  shows "k_ok C k'"
proof -
  have wf: "k_wf C k" using assms(1) by (simp add: k_ok_def)
  have "k_wf C k'" "q_elems k' = q_elems k"
    by (rule k_wf_frame [OF wf assms(2-4)]; use assms(5) in \<open>simp add: same_place_def\<close>)+
  then show ?thesis using assms(1,6) by (simp add: k_ok_def unqueued_def)
qed

lemma same_place_refl [simp]: "same_place t t"
  by (simp add: same_place_def)

lemma k_ok_th:
  assumes "k_ok C k" "same_place (k_td k td) (f (k_td k td)) \<or> unqueued k td"
  shows "k_ok C (upd_th td f k)"
  by (rule k_ok_frame [OF assms(1)]) (use assms(2) in \<open>auto simp: upd_td_def\<close>)

lemma k_ok_tdq:
  assumes "k_ok C k" "\<And>n. tdq_rq n (g (k_tdq k c)) = tdq_rq n (k_tdq k c)"
    "tdq_idx (g (k_tdq k c)) = tdq_idx (k_tdq k c)" "tdq_ridx (g (k_tdq k c)) = tdq_ridx (k_tdq k c)"
  shows "k_ok C (upd_tdq c g k)"
  by (rule k_ok_frame [OF assms(1)]) (use assms(2-) in \<open>auto\<close>)

lemma k_ok_others [simp]:
  "k_ok C (k\<lparr>k_randomval := r\<rparr>) = k_ok C k" "k_ok C (ext_call e k) = k_ok C k" "k_ok C (k\<lparr>k_proc := p\<rparr>) = k_ok C k"
  "k_ok C (k\<lparr>k_cur := u\<rparr>) = k_ok C k" "k_ok C (k\<lparr>k_ticks := t\<rparr>) = k_ok C k" "k_ok C (k\<lparr>k_tun := T\<rparr>) = k_ok C k"
  "k_ok C (k\<lparr>k_balance_ticks := b\<rparr>) = k_ok C k" "k_ok C (k\<lparr>k_cputop := g\<rparr>) = k_ok C k" "k_ok C (k\<lparr>k_balance_tdq := c\<rparr>) = k_ok C k"
  by (simp_all add: k_ok_def k_wf_def unqueued_def)

lemma k_ok_tdq_fields:
  "k_ok C k \<Longrightarrow> k_ok C (upd_tdq c (\<lambda>q. q\<lparr>tdq_lowpri := p\<rparr>) k)"
  "k_ok C k \<Longrightarrow> k_ok C (upd_tdq c (\<lambda>q. q\<lparr>tdq_ipipending := b\<rparr>) k)"
  "k_ok C k \<Longrightarrow> k_ok C (upd_tdq c (\<lambda>q. q\<lparr>tdq_cpu_idle := b\<rparr>) k)"
  "k_ok C k \<Longrightarrow> k_ok C (upd_tdq c (\<lambda>q. q\<lparr>tdq_switchcnt := tdq_switchcnt q + 1\<rparr>) k)"
  by (rule k_ok_tdq; simp)+

text \<open>Only a thread in state TDS_RUNQ is queued.\<close>

lemma k_wf_unqueued: "k_wf C k \<Longrightarrow> td_state (k_td k td) \<noteq> TDS_RUNQ \<Longrightarrow> unqueued k td"
  by (auto simp: unqueued_def dest: k_wfD(3))

lemma inmem_flags [simp]:
  "has_flag (set_flag w TDF_NEEDRESCHED) TDF_INMEM = has_flag w TDF_INMEM"
  "has_flag (set_flag w TDF_BORROWING) TDF_INMEM = has_flag w TDF_INMEM"
  "has_flag (set_flag w TDF_CANSWAP) TDF_INMEM = has_flag w TDF_INMEM"
  "has_flag (set_flag w (TDF_NEEDRESCHED OR TDF_SLICEEND)) TDF_INMEM = has_flag w TDF_INMEM"
  "has_flag (clr_flag w TDF_BORROWING) TDF_INMEM = has_flag w TDF_INMEM"
  "has_flag (clr_flag w TDF_CANSWAP) TDF_INMEM = has_flag w TDF_INMEM"
  "has_flag (clr_flag w (TDF_NEEDRESCHED OR TDF_SLICEEND)) TDF_INMEM = has_flag w TDF_INMEM"
  by (simp_all add: has_flag_set_flag has_flag_clr_flag_other tdf_defs TDF_SLICEEND_def)

subsection \<open>Queues of one CPU\<close>

lemma k_same_ok: "k_ok C k \<Longrightarrow> k_same k k' \<Longrightarrow> k_ok C k' \<and> q_elems k' = q_elems k \<and> k_idle k' = k_idle k"
  using k_same_wf [of k k' C] k_sameD(4) [of k k'] by (simp add: k_ok_def unqueued_def)

lemma tdq_setlowpri_safe:
  assumes "k_ok C k" "tdq_setlowpri C c ctd k = Inr k'"
  shows "k_ok C k'" "q_elems k' = q_elems k" "k_idle k' = k_idle k"
proof -
  obtain td k1 where c: "tdq_choose C c k = Inr (td, k1)"
    using assms(2) by (auto simp: tdq_setlowpri_def Let_def)
  define p where "p = (let P = td_priority (k_td k1 (case ctd of None \<Rightarrow> k_cur k c | Some t \<Rightarrow> t))
    in case td of None \<Rightarrow> P | Some t \<Rightarrow> if td_priority (k_td k1 t) > P then P else td_priority (k_td k1 t))"
  have k': "k' = upd_tdq c (\<lambda>q. q\<lparr>tdq_lowpri := p\<rparr>) k1"
    using assms(2) c by (auto simp: tdq_setlowpri_def Let_def p_def split: option.splits if_splits)
  note S = k_same_ok [OF assms(1) tdq_choose_ok(1) [OF k_ok_wf [OF assms(1)] c]]
  show "k_ok C k'" unfolding k' using S by (intro k_ok_tdq_fields) simp
  have "q_elems k' = q_elems k1" by (simp add: k' q_elems_def fun_eq_iff)
  then show "q_elems k' = q_elems k" "k_idle k' = k_idle k" using S by (simp_all add: k')
qed

lemma runq_remove_idx_elem:
  assumes "runq_remove_idx C ths rq td idx = Inr x" "length (rq_queues rq) = 64"
  shows "td \<in> rq_elems rq"
proof -
  have "unat (td_rqindex (ths td)) < 64" "td \<in> set (rq_queues rq ! unat (td_rqindex (ths td)))"
    using assms(1) by (auto simp: runq_remove_idx_def Let_def tailq_remove_def split: if_splits)
  then show ?thesis using assms(2) by (auto simp: rq_elems_def)
qed

lemma tdq_runq_rem_queued:
  assumes "k_wf C k" "tdq_runq_rem C c td k = Inr k'"
  obtains c' n where "td \<in> q_elems k c' n"
proof -
  obtain c' n where r: "ts_runq (k_td k td) = Some (c', n)" using assms(2) by (auto simp: tdq_runq_rem_def split: option.splits)
  have "td \<in> q_elems k c' n"
    using assms(2) runq_wfD(2) [OF k_wfD(1) [OF assms(1)]] runq_wfD(2) [OF k_wfD(1) [OF assms(1), of RQ_timeshare]] r
    by (auto simp: tdq_runq_rem_def tdq_unready_def [symmetric] Let_def runq_remove_def q_elems_def dest!: runq_remove_idx_elem split: if_splits)
  then show thesis by (rule that)
qed

lemma tdq_runq_rem_safe:
  assumes "k_ok C k" "tdq_runq_rem C c td k = Inr k'"
  shows "k_ok C k'" "unqueued k' td" "k_idle k' = k_idle k" "not_idle k td" "\<exists>f. k_td k' td = (k_td k td)\<lparr>ts_flags := f\<rparr>"
    "td_state (k_td k td) = TDS_RUNQ" "td_inmem (k_td k) td"
proof -
  have wf: "k_wf C k" using assms(1) by (rule k_ok_wf)
  obtain c' n where q: "td \<in> q_elems k c' n" using tdq_runq_rem_queued [OF wf assms(2)] .
  obtain k1 where 1: "tdq_runq_rem C c td k = Inr k1" "k_wf C k1" "\<forall>d m. q_elems k1 d m = q_elems k d m - {td}"
      "\<exists>f. k_td k1 td = (k_td k td)\<lparr>ts_flags := f\<rparr>"
    using tdq_runq_rem_ok [OF wf q, of c] by blast
  have [simp]: "k1 = k'" using 1(1) assms(2) by simp
  obtain g u where "k' = upd_tdq c' g (tdq_unready u td k)" using tdq_runq_rem_eq [OF wf q, of c] assms(2) by auto
  then show i: "k_idle k' = k_idle k" by (simp add: tdq_unready_def)
  show "k_ok C k'" using assms(1) 1(2,3) by (auto simp: k_ok_def i unqueued_def)
  show "unqueued k' td" using 1(3) by (simp add: unqueued_def)
  show "not_idle k td" using assms(1) q by (auto simp: k_ok_def not_idle_def unqueued_def)
  show "\<exists>f. k_td k' td = (k_td k td)\<lparr>ts_flags := f\<rparr>" using 1(4) by simp
  show "td_state (k_td k td) = TDS_RUNQ" "td_inmem (k_td k) td" using k_wfD(3,6) [OF wf q] by simp_all
qed

lemma tdq_load_rem_safe:
  assumes "k_ok C k" "tdq_load_rem c td k = Inr k'"
  shows "k_ok C k'" "k_td k' = k_td k" "q_elems k' = q_elems k" "k_idle k' = k_idle k"
proof -
  have l: "tdq_load (k_tdq k c) \<noteq> 0" using assms(2) by (auto simp: tdq_load_rem_def)
  obtain k1 where 1: "tdq_load_rem c td k = Inr k1" "k_td k1 = k_td k" "q_elems k1 = q_elems k" "k_wf C k \<longrightarrow> k_wf C k1"
    using tdq_load_rem_eq [OF l, of td C c] by blast
  have [simp]: "k1 = k'" using 1(1) assms(2) by simp
  show i: "k_idle k' = k_idle k" using assms(2) by (auto simp: tdq_load_rem_def Let_def split: if_splits)
  show "k_ok C k'" "k_td k' = k_td k" "q_elems k' = q_elems k" using 1 assms(1) by (simp_all add: k_ok_def unqueued_def i)
qed

lemma tdq_load_add_safe: "k_ok C k \<Longrightarrow> k_ok C (tdq_load_add c td k)" "k_idle (tdq_load_add c td k) = k_idle k"
proof -
  show i: "k_idle (tdq_load_add c td k) = k_idle k" by (simp add: tdq_load_add_def Let_def)
  show "k_ok C k \<Longrightarrow> k_ok C (tdq_load_add c td k)"
    by (simp add: k_ok_def tdq_load_add_ok(3) i unqueued_def tdq_load_add_ok(2))
qed

lemma sched_rem_safe:
  assumes "k_ok C k" "sched_rem C td k = Inr k'"
  shows "k_ok C k'" "unqueued k' td" "k_idle k' = k_idle k" "not_idle k td" "\<not> unqueued k td"
proof -
  let ?c = "ts_cpu (k_td k td)"
  obtain k1 k2 where 1: "tdq_runq_rem C ?c td k = Inr k1" and 2: "tdq_load_rem ?c td k1 = Inr k2"
    and 3: "k' = upd_th td (td_state_update (\<lambda>_. TDS_CAN_RUN)) k2 \<or>
      tdq_setlowpri C ?c None (upd_th td (td_state_update (\<lambda>_. TDS_CAN_RUN)) k2) = Inr k'"
    using assms(2) by (auto simp: sched_rem_def Let_def split: if_splits)
  note R = tdq_runq_rem_safe [OF assms(1) 1] and L = tdq_load_rem_safe [OF tdq_runq_rem_safe(1) [OF assms(1) 1] 2]
  let ?k3 = "upd_th td (td_state_update (\<lambda>_. TDS_CAN_RUN)) k2"
  have u2: "unqueued k2 td" using R(2) L(3) by (simp add: unqueued_def)
  then have k3: "k_ok C ?k3" using L(1) by (intro k_ok_th) simp_all
  have "k_ok C k' \<and> q_elems k' = q_elems ?k3 \<and> k_idle k' = k_idle ?k3"
    using 3 k3 tdq_setlowpri_safe [OF k3] by auto
  then show "k_ok C k'" "unqueued k' td" "k_idle k' = k_idle k" using u2 R(3) L(4) by (simp_all add: unqueued_def)
  show "not_idle k td" by (rule R(4))
  show "\<not> unqueued k td" using tdq_runq_rem_queued [OF k_ok_wf [OF assms(1)] 1] by (metis unqueued_def)
qed

lemma tdq_runq_add_safe:
  assumes C: "kconf_ok C" and ok: "k_ok C k" and u: "unqueued k td" and m: "td_inmem (k_td k) td" and i: "not_idle k td"
    and a: "tdq_runq_add C c td flags k = Inr k'"
  shows "k_ok C k'" "k_idle k' = k_idle k"
proof -
  obtain k1 where 1: "tdq_runq_add C c td flags k = Inr k1" "k_wf C k1"
      "\<forall>c' n'. q_elems k1 c' n' = (if c' = c \<and> n' = queue_of C (k_td k td) then insert td (q_elems k c (queue_of C (k_td k td))) else q_elems k c' n')"
    using tdq_runq_add_ok [OF C k_ok_wf [OF ok] u m, of c flags] by blast
  have [simp]: "k1 = k'" using 1(1) a by simp
  show e: "k_idle k' = k_idle k" using a
    by (auto simp: tdq_runq_add_def tdq_lottery_add_def Let_def tdq_ready_def split: if_splits prod.splits)
  show "k_ok C k'" using 1(2,3) ok i by (auto simp: k_ok_def unqueued_def e not_idle_def)
qed

lemma tdq_add_safe:
  assumes C: "kconf_ok C" and ok: "k_ok C k" and i: "not_idle k td" and a: "tdq_add C c td flags k = Inr k'"
  shows "k_ok C k'" "k_idle k' = k_idle k"
proof -
  define k1 where "k1 = (if td_priority (k_td k td) < tdq_lowpri (k_tdq k c) then
      upd_tdq c (\<lambda>q. q\<lparr>tdq_lowpri := td_priority (k_td k td)\<rparr>) k else k)"
  obtain k2 where 2: "tdq_runq_add C c td flags k1 = Inr k2" "k' = tdq_load_add c td k2"
    and s: "TD_CAN_RUN (k_td k td) \<or> TD_IS_RUNNING (k_td k td)" "td_inmem (k_td k) td"
    using a by (auto simp: tdq_add_def Let_def k1_def [symmetric])
  have ok1: "k_ok C k1" using ok by (simp add: k1_def k_ok_tdq_fields)
  have "unqueued k td" using s(1) k_wf_unqueued [OF k_ok_wf [OF ok]] by (auto simp: TD_CAN_RUN_def TD_IS_RUNNING_def)
  then have "unqueued k1 td" "td_inmem (k_td k1) td" "not_idle k1 td"
    using s(2) i by (auto simp: k1_def unqueued_def q_elems_def not_idle_def)
  note A = tdq_runq_add_safe [OF C ok1 this 2(1)]
  show "k_ok C k'" "k_idle k' = k_idle k"
    using A tdq_load_add_safe by (simp_all add: 2(2) k1_def)
qed

lemma tdq_move_safe:
  assumes C: "kconf_ok C" and ok: "k_ok C k" and m: "tdq_move C from to k = Inr (r, k')"
  shows "k_ok C k'"
proof (cases "tdq_steal C (k_td k) (k_tdq k from) to")
  case None
  then show ?thesis using m ok by (simp add: tdq_move_def)
next
  case (Some t)
  obtain k1 where 1: "sched_rem C t k = Inr k1"
    and 2: "tdq_add C to t {SRQ_YIELDING} (upd_th t (\<lambda>t. t\<lparr>ts_cpu := to, td_lock := TDQ_LOCKPTR to\<rparr>) k1) = Inr k'"
    using m Some by (auto simp: tdq_move_def Let_def)
  note R = sched_rem_safe [OF ok 1]
  let ?k2 = "upd_th t (\<lambda>t. t\<lparr>ts_cpu := to, td_lock := TDQ_LOCKPTR to\<rparr>) k1"
  have "k_ok C ?k2" using R(1,2) by (intro k_ok_th) simp_all
  moreover have "not_idle ?k2 t" using R(3,4) by (simp add: not_idle_def)
  ultimately show ?thesis by (rule tdq_add_safe(1) [OF C _ _ 2])
qed

lemma sched_choose_safe:
  assumes ok: "k_ok C k" and c: "sched_choose C self k = Inr (t, k')"
  shows "k_ok C k'" "unqueued k' t" "k_idle k' = k_idle k"
proof -
  obtain r k1 where 1: "tdq_choose C self k = Inr (r, k1)" using c by (auto simp: sched_choose_def)
  note S = k_same_ok [OF ok tdq_choose_ok(1) [OF k_ok_wf [OF ok] 1]]
  have "k_ok C k' \<and> unqueued k' t \<and> k_idle k' = k_idle k"
  proof (cases r)
    case None
    then have e: "t = k_idle k1 self" "k' = upd_tdq self (\<lambda>q. q\<lparr>tdq_lowpri := of_int (PRI_MAX_IDLE C)\<rparr>) k1"
      using c 1 by (auto simp: sched_choose_def)
    have "k_ok C k'" unfolding e(2) using S by (intro k_ok_tdq_fields) simp
    then show ?thesis using S by (auto simp: e k_ok_def)
  next
    case (Some u)
    then obtain k2 where 2: "tdq_runq_rem C self u k1 = Inr k2" and e: "t = u" "k' = upd_tdq self (\<lambda>q. q\<lparr>tdq_lowpri := td_priority (k_td k2 t)\<rparr>) k2"
      using c 1 by (auto simp: sched_choose_def)
    have ok1: "k_ok C k1" using S by simp
    note R = tdq_runq_rem_safe [OF ok1 2]
    have "k_ok C k'" unfolding e(2) using R(1) by (intro k_ok_tdq_fields)
    moreover have "unqueued k' t" using R(2) by (simp add: e unqueued_def q_elems_def)
    ultimately show ?thesis using R(3) S by (simp add: e)
  qed
  then show "k_ok C k'" "unqueued k' t" "k_idle k' = k_idle k" by simp_all
qed

subsection \<open>Notifications, and the CPU of a thread\<close>

lemma tdq_notify_safe:
  "k_ok C k \<Longrightarrow> k_ok C (tdq_notify C c td k)" "k_idle (tdq_notify C c td k) = k_idle k" "k_td (tdq_notify C c td k) = k_td k"
  "q_elems (tdq_notify C c td k) = q_elems k" "tdq_load (k_tdq (tdq_notify C c td k) d) = tdq_load (k_tdq k d)"
proof -
  have q: "q_elems (upd_tdq c (\<lambda>q. q\<lparr>tdq_ipipending := True\<rparr>) k) = q_elems k" by (simp add: q_elems_def fun_eq_iff)
  show "k_ok C k \<Longrightarrow> k_ok C (tdq_notify C c td k)" by (simp add: tdq_notify_def Let_def k_ok_tdq_fields)
  show "k_idle (tdq_notify C c td k) = k_idle k" "k_td (tdq_notify C c td k) = k_td k"
    "tdq_load (k_tdq (tdq_notify C c td k) d) = tdq_load (k_tdq k d)"
    by (simp_all add: tdq_notify_def Let_def)
  show "q_elems (tdq_notify C c td k) = q_elems k" by (simp add: tdq_notify_def Let_def q)
qed

lemma setpreempt_safe:
  "k_ok C k \<Longrightarrow> k_ok C (sched_setpreempt C self td k)" "k_idle (sched_setpreempt C self td k) = k_idle k"
  "q_elems (sched_setpreempt C self td k) = q_elems k" "k_tdq (sched_setpreempt C self td k) = k_tdq k"
  "ts_cpu (k_td (sched_setpreempt C self td k) t) = ts_cpu (k_td k t)" "td_lock (k_td (sched_setpreempt C self td k) t) = td_lock (k_td k t)"
proof -
  let ?ctd = "k_cur k self"
  define k1 where "k1 = (if uint (td_priority (k_td k td)) < uint (td_priority (k_td k ?ctd))
      then upd_th ?ctd (\<lambda>t. t\<lparr>td_flags := set_flag (td_flags t) TDF_NEEDRESCHED\<rparr>) k else k)"
  have e: "sched_setpreempt C self td k = k1 \<or> sched_setpreempt C self td k = upd_th ?ctd (td_owepreempt_update (\<lambda>_. True)) k1"
    unfolding sched_setpreempt_def Let_def k1_def [symmetric] by simp
  have k1: "k_ok C k \<Longrightarrow> k_ok C k1" by (simp add: k1_def) (auto intro!: k_ok_th simp: same_place_def)
  show "k_ok C k \<Longrightarrow> k_ok C (sched_setpreempt C self td k)"
    using e k1 by (auto intro!: k_ok_th simp: same_place_def)
  show "k_idle (sched_setpreempt C self td k) = k_idle k"
    "q_elems (sched_setpreempt C self td k) = q_elems k" "k_tdq (sched_setpreempt C self td k) = k_tdq k"
    using e by (auto simp: k1_def)
  show "ts_cpu (k_td (sched_setpreempt C self td k) t) = ts_cpu (k_td k t)" "td_lock (k_td (sched_setpreempt C self td k) t) = td_lock (k_td k t)"
    using e by (auto simp: k1_def upd_td_def)
qed

lemma sched_setcpu_safe:
  "k_ok C k \<Longrightarrow> k_ok C (sched_setcpu td cpu k)" "k_idle (sched_setcpu td cpu k) = k_idle k"
  by (auto simp: sched_setcpu_def Let_def same_place_def intro!: k_ok_th)

lemma pickcpu_search_safe:
  assumes "pickcpu_search C self td pri path k = Inr (cpu, k')"
  shows "\<exists>r. k' = k\<lparr>k_randomval := r\<rparr>"
proof -
  let ?th = "k_td k td" and ?top = "k_cputop k" and ?msk = "td_cpuset (k_td k td)"
  define s1 where "s1 = (case cache_group (k_tun k) (k_ticks k) ?th path None of
      Some g \<Rightarrow> if g \<noteq> ?top \<and> cg_mask g \<noteq> cg_mask ?top
        then sched_lowest C self g ?msk (max pri (PRI_MAX_TIMESHARE C)) INT_MAX (int (ts_cpu ?th)) k else (-1, k) | None \<Rightarrow> (-1, k))"
  obtain c1 k1 where 1: "s1 = (c1, k1)" by fastforce
  have r1: "\<exists>r. k1 = k\<lparr>k_randomval := r\<rparr>"
    using 1 sched_lowest_sound by (fastforce simp: s1_def intro: exI [of _ "k_randomval k"] split: option.splits if_splits)
  obtain c2 k2 where 2: "(if c1 = -1 then sched_lowest C self ?top ?msk pri INT_MAX (int (ts_cpu ?th)) k1 else (c1, k1)) = (c2, k2)" by fastforce
  have r2: "\<exists>r. k2 = k\<lparr>k_randomval := r\<rparr>" using 2 r1 sched_lowest_sound [of C self ?top ?msk pri INT_MAX _ k1 c2 k2] by (auto split: if_splits)
  obtain c3 k3 where 3: "(if c2 = -1 then sched_lowest C self ?top ?msk (-1) INT_MAX (int (ts_cpu ?th)) k2 else (c2, k2)) = (c3, k3)" by fastforce
  have r3: "\<exists>r. k3 = k\<lparr>k_randomval := r\<rparr>" using 3 r2 sched_lowest_sound [of C self ?top ?msk "-1" INT_MAX _ k2 c3 k3] by (auto split: if_splits)
  show ?thesis using assms r3
    unfolding pickcpu_search_def Let_def s1_def [symmetric] 1 prod.case 2 3 by (auto split: if_splits)
qed

lemma sched_pickcpu_safe:
  assumes "sched_pickcpu C self td flags k = Inr (cpu, k')"
  shows "\<exists>c r. k' = (upd_th td (ts_cpu_update (\<lambda>_. c)) k)\<lparr>k_randomval := r\<rparr>"
proof -
  define intr where "intr = (uint (td_priority (k_td k td)) \<le> PRI_MAX_ITHD C \<and> THREAD_CAN_SCHED (k_td k td) self \<and>
      td_intr_nesting_level (k_td k (k_cur k self)) \<noteq> 0 \<and> ts_cpu (k_td k td) \<noteq> self)"
  define k1 where "k1 = (if intr then upd_th td (ts_cpu_update (\<lambda>_. self)) k else k)"
  have id: "\<exists>c r. k = (upd_th td (ts_cpu_update (\<lambda>_. c)) k)\<lparr>k_randomval := r\<rparr>"
    by (intro exI [of _ "ts_cpu (k_td k td)"] exI [of _ "k_randomval k"]) (simp add: upd_th_def upd_td_def)
  have "\<exists>c. k1 = upd_th td (ts_cpu_update (\<lambda>_. c)) k"
    by (intro exI [of _ "if intr then self else ts_cpu (k_td k td)"]) (simp add: k1_def upd_th_def upd_td_def)
  then obtain c where c: "k1 = upd_th td (ts_cpu_update (\<lambda>_. c)) k" by blast
  have "k' = k \<or> k' = k1 \<or> (\<exists>a pri path. pickcpu_search C self td pri path k1 = Inr (a, k'))"
    using assms unfolding sched_pickcpu_def Let_def intr_def [symmetric] k1_def [symmetric]
    by (auto split: if_splits list.splits)
  then have "k' = k \<or> (\<exists>r. k' = k1\<lparr>k_randomval := r\<rparr>)"
    using pickcpu_search_safe [of C self td _ _ k1] by (auto intro: exI [of _ "k_randomval k1"])
  then show ?thesis using id c by blast
qed

lemma k_priority_upd:
  assumes "k_priority C td k = Inr k'"
  shows "k' = k \<or> (\<exists>p. k' = upd_th td (\<lambda>t. sched_user_prio t p) k)"
proof -
  obtain t where t: "sched_priority C (k_tun k) (td_nice k td) (k_td k td) = Inr t" "k' = upd_th td (\<lambda>_. t) k"
    using assms by (auto simp: k_priority_def)
  have "t = k_td k td \<or> (\<exists>p. t = sched_user_prio (k_td k td) p)"
    using t(1) unfolding sched_priority_def Let_def by (auto split: if_splits)
  then show ?thesis using t(2) by (auto simp: upd_th_def upd_td_def)
qed

lemma sched_user_prio_fields [simp]:
  "ts_runq (sched_user_prio t p) = ts_runq t" "td_state (sched_user_prio t p) = td_state t" "td_rqindex (sched_user_prio t p) = td_rqindex t"
  "td_flags (sched_user_prio t p) = td_flags t" "td_priority (sched_user_prio t p) = td_priority t" "td_proc (sched_user_prio t p) = td_proc t"
  "td_inhibitors (sched_user_prio t p) = td_inhibitors t" "td_cpuset (sched_user_prio t p) = td_cpuset t"
  "td_pinned (sched_user_prio t p) = td_pinned t" "ts_cpu (sched_user_prio t p) = ts_cpu t"
  by (simp_all add: sched_user_prio_def Let_def)

lemma k_priority_safe:
  assumes "k_priority C td k = Inr k'"
  shows "k_ok C k \<Longrightarrow> k_ok C k'" "k_idle k' = k_idle k" "q_elems k' = q_elems k"
  using k_priority_upd [OF assms] by (auto intro!: k_ok_th simp: same_place_def)

lemma sched_add_safe:
  assumes C: "kconf_ok C" and ok: "k_ok C k" and i: "not_idle k td" and a: "sched_add C self td flags k = Inr k'"
  shows "k_ok C k'" "k_idle k' = k_idle k"
proof -
  obtain k1 cpu k2 k3 where
      1: "(if PRI_BASE C (td_pri_class (k_td k td)) = PRI_TIMESHARE C then k_priority C td k else Inr k) = Inr k1"
    and 2: "sched_pickcpu C self td flags k1 = Inr (cpu, k2)" and 3: "tdq_add C cpu td flags (sched_setcpu td cpu k2) = Inr k3"
    and k': "k' = (if cpu \<noteq> self then tdq_notify C cpu td k3 else if SRQ_YIELDING \<notin> flags then sched_setpreempt C self td k3 else k3)"
    using a by (auto simp: sched_add_def)
  have ok1: "k_ok C k1" "k_idle k1 = k_idle k" using 1 ok k_priority_safe by (auto split: if_splits)
  obtain c r where k2: "k2 = (upd_th td (ts_cpu_update (\<lambda>_. c)) k1)\<lparr>k_randomval := r\<rparr>" using sched_pickcpu_safe [OF 2] by blast
  have "k_ok C k2" "k_idle k2 = k_idle k" using ok1 by (auto simp: k2 same_place_def intro!: k_ok_th)
  then have "k_ok C (sched_setcpu td cpu k2)" "not_idle (sched_setcpu td cpu k2) td" "k_idle (sched_setcpu td cpu k2) = k_idle k"
    using i by (simp_all add: sched_setcpu_safe not_idle_def)
  then have "k_ok C k3" "k_idle k3 = k_idle k" using tdq_add_safe [OF C _ _ 3] by simp_all
  then show "k_ok C k'" "k_idle k' = k_idle k" by (simp_all add: k' tdq_notify_safe setpreempt_safe)
qed

subsection \<open>Priorities\<close>

lemma thread_priority_safe:
  assumes C: "kconf_ok C" and ok: "k_ok C k" and a: "sched_thread_priority C self td prio k = Inr k'"
  shows "k_ok C k'" "k_idle k' = k_idle k"
proof -
  let ?th = "k_td k td"
  have up: "k_ok C (upd_th td (td_priority_update (\<lambda>_. prio)) k)" if "\<not> (TD_ON_RUNQ ?th \<and> prio < td_priority ?th)"
  proof (rule k_ok_th [OF ok])
    show "same_place ?th (td_priority_update (\<lambda>_. prio) ?th) \<or> unqueued k td"
      using that k_wf_unqueued [OF k_ok_wf [OF ok], of td] by (auto simp: same_place_def TD_ON_RUNQ_def word_less_def)
  qed
  have "k_ok C k' \<and> k_idle k' = k_idle k"
  proof (cases "td_priority ?th = prio")
    case True
    then show ?thesis using a ok by (simp add: sched_thread_priority_def)
  next
    case ne: False
    show ?thesis
    proof (cases "TD_ON_RUNQ ?th \<and> prio < td_priority ?th")
      case True
      then obtain k1 where 1: "sched_rem C td k = Inr k1"
        and 2: "sched_add C self td {SRQ_BORROWING} (upd_th td (td_priority_update (\<lambda>_. prio)) k1) = Inr k'"
        using a ne by (auto simp: sched_thread_priority_def)
      note R = sched_rem_safe [OF ok 1]
      have "k_ok C (upd_th td (td_priority_update (\<lambda>_. prio)) k1)" using R by (intro k_ok_th) simp_all
      moreover have "not_idle (upd_th td (td_priority_update (\<lambda>_. prio)) k1) td" using R by (simp add: not_idle_def)
      ultimately show ?thesis using sched_add_safe [OF C _ _ 2] R(3) by simp
    next
      case False
      let ?c = "ts_cpu ?th" and ?k1 = "upd_th td (td_priority_update (\<lambda>_. prio)) k"
      have "k' = ?k1 \<or> k' = upd_tdq ?c (\<lambda>q. q\<lparr>tdq_lowpri := prio\<rparr>) ?k1 \<or> tdq_setlowpri C ?c (Some td) ?k1 = Inr k'"
        using a ne False by (auto simp: sched_thread_priority_def Let_def split: if_splits)
      then show ?thesis
        using up [OF False] tdq_setlowpri_safe [OF up [OF False]] k_ok_tdq_fields(1) [OF up [OF False]] by auto
    qed
  qed
  then show "k_ok C k'" "k_idle k' = k_idle k" by simp_all
qed

lemma lend_prio_safe:
  assumes "kconf_ok C" "k_ok C k" "sched_lend_prio C self td prio k = Inr k'"
  shows "k_ok C k'" "k_idle k' = k_idle k"
proof -
  let ?k1 = "upd_th td (\<lambda>t. t\<lparr>td_flags := set_flag (td_flags t) TDF_BORROWING\<rparr>) k"
  have "k_ok C ?k1" using assms(2) by (rule k_ok_th) (simp add: same_place_def)
  from thread_priority_safe [OF assms(1) this] show "k_ok C k'" "k_idle k' = k_idle k"
    using assms(3) by (simp_all add: sched_lend_prio_def)
qed

lemma unlend_prio_safe:
  assumes C: "kconf_ok C" and ok: "k_ok C k" and a: "sched_unlend_prio C self td prio k = Inr k'"
  shows "k_ok C k'" "k_idle k' = k_idle k"
proof -
  let ?k1 = "upd_th td (\<lambda>t. t\<lparr>td_flags := clr_flag (td_flags t) TDF_BORROWING\<rparr>) k"
  have k1: "k_ok C ?k1" using ok by (rule k_ok_th) (simp add: same_place_def)
  have "sched_lend_prio C self td prio k = Inr k' \<or> (\<exists>p. sched_thread_priority C self td p ?k1 = Inr k')"
    using a by (auto simp: sched_unlend_prio_def Let_def split: if_splits)
  then show "k_ok C k'" "k_idle k' = k_idle k"
    using lend_prio_safe [OF C ok] thread_priority_safe [OF C k1] by auto
qed

lemma sched_prio_safe:
  assumes C: "kconf_ok C" and ok: "k_ok C k" and a: "sched_prio C self td prio k = Inr k'"
  shows "k_ok C k'" "k_idle k' = k_idle k"
proof -
  let ?k1 = "upd_th td (td_base_pri_update (\<lambda>_. prio)) k"
  have k1: "k_ok C ?k1" using ok by (rule k_ok_th) (simp add: same_place_def)
  have "k' = ?k1 \<or> (\<exists>k2 e. sched_thread_priority C self td prio ?k1 = Inr k2 \<and> (k' = k2 \<or> k' = ext_call e k2))"
    using a by (auto simp: sched_prio_def Let_def split: if_splits)
  then show "k_ok C k'" "k_idle k' = k_idle k"
    using k1 thread_priority_safe [OF C k1] by auto
qed

lemma lend_user_prio_safe:
  assumes C: "kconf_ok C" and ok: "k_ok C k" and a: "sched_lend_user_prio C self td prio k = Inr k'"
  shows "k_ok C k'" "k_idle k' = k_idle k"
proof -
  let ?k1 = "upd_th td (\<lambda>t. t\<lparr>td_lend_user_pri := prio, td_user_pri := min prio (td_base_user_pri t)\<rparr>) k"
  have k1: "k_ok C ?k1" using ok by (rule k_ok_th) (simp add: same_place_def)
  have k2: "k_ok C (upd_th td (\<lambda>t. t\<lparr>td_flags := set_flag (td_flags t) TDF_NEEDRESCHED\<rparr>) ?k1)"
    using k1 by (rule k_ok_th) (simp add: same_place_def)
  have "k' = ?k1 \<or> (\<exists>p. sched_prio C self td p ?k1 = Inr k') \<or> k' = upd_th td (\<lambda>t. t\<lparr>td_flags := set_flag (td_flags t) TDF_NEEDRESCHED\<rparr>) ?k1"
    using a unfolding sched_lend_user_prio_def Let_def by (auto split: if_splits)
  then show "k_ok C k'" "k_idle k' = k_idle k"
    using k1 k2 sched_prio_safe [OF C k1] by auto
qed

lemma nice_loop_safe:
  assumes C: "kconf_ok C"
  shows "k_ok C k \<Longrightarrow> nice_loop C self tds k = Inr k' \<Longrightarrow> k_ok C k'"
proof (induction tds arbitrary: k)
  case (Cons td tds)
  then obtain k1 k2 where 1: "k_priority C td k = Inr k1" and 2: "sched_prio C self td (td_base_user_pri (k_td k1 td)) k1 = Inr k2"
    and 3: "nice_loop C self tds k2 = Inr k'" by auto
  have "k_ok C k2" using sched_prio_safe(1) [OF C k_priority_safe(1) [OF 1 Cons.prems(1)] 2] .
  then show ?case using 3 by (rule Cons.IH)
qed simp

lemma sched_nice_safe: "kconf_ok C \<Longrightarrow> k_ok C k \<Longrightarrow> sched_nice C self p n k = Inr k' \<Longrightarrow> k_ok C k'"
  unfolding sched_nice_def Let_def by (erule nice_loop_safe [rotated 2]) simp_all

lemma sched_class_safe: "k_ok C k \<Longrightarrow> k_ok C (sched_class td c k)"
  by (auto simp: sched_class_def same_place_def intro!: k_ok_th)

lemma userret_safe:
  assumes ok: "k_ok C k" and u: "unqueued k td" and a: "sched_userret C self td k = Inr k'"
  shows "k_ok C k'"
proof -
  let ?k1 = "upd_th td (\<lambda>t. t\<lparr>td_priority := td_user_pri t, td_base_pri := td_user_pri t\<rparr>) k"
  have k1: "k_ok C ?k1" using ok u by (intro k_ok_th) simp_all
  have "k' = k \<or> tdq_setlowpri C self (Some td) ?k1 = Inr k'"
    using a by (auto simp: sched_userret_def split: if_splits)
  then show ?thesis using ok tdq_setlowpri_safe [OF k1] by auto
qed

subsection \<open>Accounting, sleeping and forking\<close>

lemma pctcpu_safe:
  assumes "k_pctcpu_update C td run k = Inr k'"
  shows "k_ok C k \<Longrightarrow> k_ok C k'" "k_idle k' = k_idle k" "q_elems k' = q_elems k" "k_tdq k' = k_tdq k" "k_cur k' = k_cur k"
    "td_state (k_td k' t) = td_state (k_td k t)" "td_flags (k_td k' t) = td_flags (k_td k t)"
proof -
  obtain s where s: "sched_pctcpu_update C (k_ticks k) (k_td k td) run = Inr s" and k': "k' = upd_th td (\<lambda>_. s) k"
    using assms by (auto simp: k_pctcpu_update_def)
  have e: "ts_runq s = ts_runq (k_td k td)" "td_state s = td_state (k_td k td)" "td_rqindex s = td_rqindex (k_td k td)"
    "td_flags s = td_flags (k_td k td)" "td_priority s = td_priority (k_td k td)"
    using s by (auto simp: sched_pctcpu_update_def Let_def split: if_splits)
  show "k_ok C k \<Longrightarrow> k_ok C k'" unfolding k' by (rule k_ok_th) (simp_all add: same_place_def e)
  show "k_idle k' = k_idle k" "q_elems k' = q_elems k" "k_tdq k' = k_tdq k" "k_cur k' = k_cur k" by (simp_all add: k')
  show "td_state (k_td k' t) = td_state (k_td k t)" "td_flags (k_td k' t) = td_flags (k_td k t)"
    by (simp_all add: k' upd_td_def e)
qed

lemma interact_fields [simp]:
  "ts_runq (sched_interact_update C t) = ts_runq t" "td_state (sched_interact_update C t) = td_state t"
  "td_rqindex (sched_interact_update C t) = td_rqindex t" "td_flags (sched_interact_update C t) = td_flags t"
  "td_priority (sched_interact_update C t) = td_priority t"
  for t :: thread
  by (simp_all add: sched_interact_update_def Let_def)

lemma k_interact_safe: "k_ok C k \<Longrightarrow> k_ok C (k_interact_update C td k)" "k_idle (k_interact_update C td k) = k_idle k"
  unfolding k_interact_update_def by (auto intro!: k_ok_th simp: same_place_def)

lemma k_fork_safe:
  assumes "k_interact_fork C td k = Inr k'"
  shows "k_ok C k \<Longrightarrow> k_ok C k'" "k_idle k' = k_idle k"
proof -
  obtain s where s: "sched_interact_fork C (k_td k td) = Inr s" and k': "k' = upd_th td (\<lambda>_. s) k"
    using assms by (auto simp: k_interact_fork_def)
  have "same_place (k_td k td) s"
    using s unfolding sched_interact_fork_def Let_def by (auto simp: same_place_def split: if_splits)
  then show "k_ok C k \<Longrightarrow> k_ok C k'" "k_idle k' = k_idle k" unfolding k' by (auto intro: k_ok_th)
qed

lemma k_ok_same: "k_ok C k \<Longrightarrow> same_place (k_td k td) (f (k_td k td)) \<Longrightarrow> k_ok C (upd_th td f k)"
  by (rule k_ok_th) simp_all

lemma sleep_safe:
  assumes C: "kconf_ok C" and ok: "k_ok C k" and a: "sched_sleep C self td prio k = Inr k'"
  shows "k_ok C k'"
proof -
  define k1 where "k1 = upd_th td (td_slptick_update (\<lambda>_. k_ticks k)) k"
  define k2 where "k2 = (if TD_IS_SUSPENDED (k_td k1 td) \<or> prio \<ge> PSOCK C
      then upd_th td (\<lambda>t. t\<lparr>td_flags := set_flag (td_flags t) TDF_CANSWAP\<rparr>) k1 else k1)"
  have "k_ok C k1" unfolding k1_def using ok by (rule k_ok_same) (simp add: same_place_def)
  then have k2: "k_ok C k2" unfolding k2_def by (auto intro: k_ok_same simp: same_place_def)
  have "k' = k2 \<or> (\<exists>p. sched_prio C self td p k2 = Inr k')"
    using a unfolding sched_sleep_def Let_def k1_def [symmetric] k2_def [symmetric] by (auto split: if_splits)
  then show ?thesis using k2 sched_prio_safe [OF C k2] by auto
qed

lemma wakeup_safe:
  assumes C: "kconf_ok C" and ok: "k_ok C k" and i: "not_idle k td" and a: "sched_wakeup C self td k = Inr k'"
  shows "k_ok C k'"
proof -
  define k1 where "k1 = upd_th td (\<lambda>t. t\<lparr>td_flags := clr_flag (td_flags t) TDF_CANSWAP\<rparr>) k"
  define k2 where "k2 = upd_th td (td_slptick_update (\<lambda>_. 0)) k1"
  have "k_ok C k1" unfolding k1_def using ok by (rule k_ok_same) (simp add: same_place_def)
  then have k2: "k_ok C k2" "k_idle k2 = k_idle k" unfolding k2_def by (auto intro: k_ok_same simp: same_place_def k1_def)
  let ?g = "\<lambda>t. t\<lparr>ts_slptime := ts_slptime t + push_bit SCHED_TICK_SHIFT (k_ticks k2 - td_slptick (k_td k1 td))\<rparr>"
  obtain k3 where 3: "k3 = k2 \<or> k_pctcpu_update C td False (k_interact_update C td (upd_th td ?g k2)) = Inr k3"
    and 4: "sched_add C self td SRQ_BORING (upd_th td (ts_slice_update (\<lambda>_. 0)) k3) = Inr k'"
    using a unfolding sched_wakeup_def Let_def k1_def [symmetric] k2_def [symmetric] by (auto split: if_splits)
  have "k_ok C (upd_th td ?g k2)" by (intro k_ok_same [OF k2(1)]) (simp add: same_place_def)
  note g = k_interact_safe(1) [OF this, of td]
  have "k_ok C k3 \<and> k_idle k3 = k_idle k"
    using 3
  proof
    assume "k_pctcpu_update C td False (k_interact_update C td (upd_th td ?g k2)) = Inr k3"
    from pctcpu_safe(1,2) [OF this] show ?thesis using g k2(2) by (simp add: k_interact_safe(2))
  qed (use k2 in simp)
  then have "k_ok C (upd_th td (ts_slice_update (\<lambda>_. 0)) k3)" "not_idle (upd_th td (ts_slice_update (\<lambda>_. 0)) k3) td"
    using i by (auto intro: k_ok_same simp: same_place_def not_idle_def)
  then show ?thesis by (rule sched_add_safe(1) [OF C _ _ 4])
qed

lemma fork_safe:
  assumes ok: "k_ok C k" and u: "unqueued k child" and a: "sched_fork C self td child k = Inr k'"
  shows "k_ok C k'"
proof -
  obtain k1 k2 k3 g where 1: "k_pctcpu_update C td True k = Inr k1"
    and 2: "k_interact_fork C child (sched_fork_thread self td child k1) = Inr k2" and 3: "k_priority C child k2 = Inr k3"
    and 4: "k_priority C td (k_interact_update C td (upd_th td g k3)) = Inr k'" and g: "\<forall>t. same_place t (g t)"
    using a unfolding sched_fork_def by (elim rbind_InrE) (force simp: same_place_def)
  have "k_ok C (sched_fork_thread self td child k1)"
    unfolding sched_fork_thread_def Let_def using pctcpu_safe [OF 1] ok u by (intro k_ok_th) (simp_all add: unqueued_def)
  then have "k_ok C k3" by (intro k_priority_safe(1) [OF 3] k_fork_safe(1) [OF 2])
  then have "k_ok C (upd_th td g k3)" using g by (intro k_ok_same) simp_all
  then show ?thesis by (intro k_priority_safe(1) [OF 4] k_interact_safe)
qed

lemma exit_safe:
  assumes ok: "k_ok C k" and a: "sched_exit C p child k = Inr k'"
  shows "k_ok C k'"
proof -
  obtain td f where 1: "k_priority C td (k_interact_update C td (upd_th td (\<lambda>t. t\<lparr>ts_runtime := f t\<rparr>) k)) = Inr k'"
    using a unfolding sched_exit_def sched_exit_thread_def by (auto split: list.splits)
  have "k_ok C (upd_th td (\<lambda>t. t\<lparr>ts_runtime := f t\<rparr>) k)" using ok by (rule k_ok_same) (simp add: same_place_def)
  then show ?thesis by (intro k_priority_safe(1) [OF 1] k_interact_safe)
qed

lemma fork_exit_safe:
  assumes ok: "k_ok C k" and a: "sched_fork_exit self td k = Inr k'"
  shows "k_ok C k'"
proof -
  define k1 where "k1 = (if TD_IS_IDLETHREAD (k_td k td) then upd_th td (td_lock_update (\<lambda>_. TDQ_LOCKPTR self)) k else k)"
  have "k_ok C k1" unfolding k1_def using ok by (auto intro: k_ok_same simp: same_place_def)
  moreover have "k' = upd_th td (td_oncpu_update (\<lambda>_. int self)) k1"
    using a unfolding sched_fork_exit_def k1_def [symmetric] Let_def by auto
  ultimately show ?thesis by (auto intro: k_ok_same simp: same_place_def)
qed

subsection \<open>Balancing and stealing\<close>

lemma highest_ok: "sched_highest C self g msk l k = (cpu, k') \<Longrightarrow> k_ok C k \<Longrightarrow> k_ok C k'"
  using sched_highest_sound [of C self g msk l k cpu k'] by auto

lemma lowest_ok: "sched_lowest C self g msk p l q k = (cpu, k') \<Longrightarrow> k_ok C k \<Longrightarrow> k_ok C k'"
  using sched_lowest_sound [of C self g msk p l q k cpu k'] by auto

lemma balance_pair_safe:
  assumes C: "kconf_ok C" and ok: "k_ok C k" and a: "sched_balance_pair C self high low k = Inr (b, k')"
  shows "k_ok C k'"
proof -
  have "k' = k \<or> (\<exists>td k1. tdq_move C high low k = Inr (td, k1) \<and> (k' = k1 \<or> (\<exists>t. k' = tdq_notify C low t k1)))"
    using a unfolding sched_balance_pair_def by (auto split: if_splits option.splits)
  then show ?thesis using ok tdq_move_safe [OF C ok] tdq_notify_safe(1) by blast
qed

text \<open>The other CPUs keep the invariant.\<close>

definition rivals_ok :: "'a kconf_scheme \<Rightarrow> rivals \<Rightarrow> bool" where
  "rivals_ok C W \<longleftrightarrow> (\<forall>n m k. k_ok C k \<longrightarrow>
     k_ok C (rv_search W n k) \<and> k_ok C (rv_lock W n k) \<and> k_ok C (rv_pair W n m k))"

lemma rivals_okD:
  assumes "rivals_ok C W" "k_ok C k"
  shows "k_ok C (rv_search W n k)" "k_ok C (rv_lock W n k)" "k_ok C (rv_pair W n m k)"
  using assms by (simp_all add: rivals_ok_def)

lemma quiet_cpus_ok [simp]: "rivals_ok C (quiet_cpus n)"
  by (simp add: rivals_ok_def quiet_cpus_def)

lemma balance_low_safe:
  assumes C: "kconf_ok C" and f: "\<And>n k. k_ok C k \<Longrightarrow> k_ok C (f n k)"
  shows "k_ok C k \<Longrightarrow> balance_low n f C self cg high lmask anylow k = Inr (r, k') \<Longrightarrow> k_ok C k'"
proof (induction n arbitrary: lmask anylow k)
  case (Suc n)
  obtain low k1 where l: "sched_lowest C self cg lmask (-1) (tdq_load (k_tdq k high) - 1) (int high) k = (low, k1)" by fastforce
  have k1: "k_ok C k1" "k_ok C (f n k1)" using lowest_ok [OF l Suc.prems(1)] f by blast+
  have "k' = k1 \<or> (\<exists>b k2. sched_balance_pair C self high (nat low) (f n k1) = Inr (b, k2) \<and>
      (k' = k2 \<or> balance_low n f C self cg high (lmask - {nat low}) False k2 = Inr (r, k')))"
    using Suc.prems(2) l by (auto split: if_splits)
  then show ?case using k1(1) balance_pair_safe [OF C k1(2)] Suc.IH by blast
qed simp

lemma balance_high_safe:
  assumes C: "kconf_ok C" and W: "rivals_ok C W"
  shows "k_ok C k \<Longrightarrow> balance_high n m W C self cg hmask k = Inr k' \<Longrightarrow> k_ok C k'"
proof (induction n arbitrary: hmask k)
  case (Suc n)
  obtain high k1 where h: "sched_highest C self cg hmask 2 k = (high, k1)" by fastforce
  have k1: "k_ok C k1" "k_ok C (rv_search W n k1)" using highest_ok [OF h Suc.prems(1)] rivals_okD(1) [OF W] by blast+
  have "k' = k1 \<or> (\<exists>r k2. balance_low m (rv_pair W n) C self cg (nat high) (hmask - {nat high}) True (rv_search W n k1) = Inr (r, k2) \<and>
      (k' = k2 \<or> (\<exists>msk. balance_high n m W C self cg msk k2 = Inr k')))"
    using Suc.prems(2) h by (auto simp: Let_def split: if_splits low_result.splits)
  moreover have "k_ok C (rv_pair W n i k)" if "k_ok C k" for i k using rivals_okD(3) [OF W that] .
  ultimately show ?case using k1(1) balance_low_safe [OF C _ k1(2), of "rv_pair W n"] Suc.IH by blast
qed simp

lemma balance_safe:
  assumes "kconf_ok C" "rivals_ok C W" "k_ok C k" "sched_balance W C self k = Inr k'"
  shows "k_ok C k'"
proof -
  obtain r rs where r: "sched_random (k_randomval k self) = (r, rs)" by fastforce
  have "k' = k \<or> (\<exists>x b n m. balance_high n m W C self (k_cputop k) all_cpus (k\<lparr>k_randomval := x, k_balance_ticks := b\<rparr>) = Inr k')"
    using assms(4) unfolding sched_balance_def sched_balance_group_def Let_def r
    by (auto simp del: balance_high.simps split: if_splits)
  then show ?thesis using assms(3) balance_high_safe [OF assms(1,2)] by (metis k_ok_others(1,7))
qed

lemma idled_loop_safe:
  assumes C: "kconf_ok C" and W: "rivals_ok C W"
  shows "k_ok C k \<Longrightarrow> idled_loop n W C self path msk sw k = Inr (b, k') \<Longrightarrow> k_ok C k'"
proof (induction n arbitrary: path msk sw k)
  case (Suc n)
  show ?case
  proof (cases path)
    case Nil
    then show ?thesis using Suc.prems(2) by simp
  next
    case (Cons cg p)
    obtain cpu k1 where h: "sched_highest C self cg msk (steal_thresh (k_tun k)) k = (cpu, k1)" by fastforce
    let ?k2 = "rv_search W n k1" let ?k3 = "rv_lock W n ?k2"
    have k1: "k_ok C ?k2" "k_ok C ?k3" using highest_ok [OF h Suc.prems(1)] rivals_okD(1,2) [OF W] by blast+
    have "\<exists>k2. k_ok C k2 \<and> (k' = k2 \<or> k' = ext_call (MI_SWITCH self {SW_VOL, SWT_IDLE}) k2 \<or>
        (\<exists>path msk sw. idled_loop n W C self path msk sw k2 = Inr (b, k')))"
      using Suc.prems(2) k1 tdq_move_safe [OF C k1(2), of "nat cpu" self] unfolding Cons idled_loop.simps h Let_def prod.case
      by (fastforce split: if_splits prod.splits)
    then show ?thesis using Suc.IH by auto
  qed
qed simp

lemma idled_safe: "kconf_ok C \<Longrightarrow> rivals_ok C W \<Longrightarrow> k_ok C k \<Longrightarrow> tdq_idled W C self k = Inr (b, k') \<Longrightarrow> k_ok C k'"
  unfolding tdq_idled_def by (auto split: if_splits dest: idled_loop_safe simp del: idled_loop.simps)

lemma trysteal_loop_safe:
  assumes C: "kconf_ok C" and W: "rivals_ok C W"
  shows "k_ok C k \<Longrightarrow> trysteal_loop n W C self i path msk k = Inr k' \<Longrightarrow> k_ok C k'"
proof (induction n arbitrary: path i k)
  case (Suc n)
  show ?case
  proof (cases path)
    case Nil
    then show ?thesis using Suc.prems(2) by simp
  next
    case (Cons cg p)
    obtain cpu k1 where h: "sched_highest C self cg msk (steal_thresh (k_tun k)) k = (cpu, k1)" by fastforce
    let ?k2 = "rv_search W n k1" let ?k3 = "rv_lock W n ?k2"
    have k1: "k_ok C ?k2" "k_ok C ?k3" using highest_ok [OF h Suc.prems(1)] rivals_okD(1,2) [OF W] by blast+
    have "k' = ?k2 \<or> k' = ?k3 \<or> (\<exists>i path. trysteal_loop n W C self i path msk ?k2 = Inr k') \<or>
        (\<exists>td. tdq_move C (nat cpu) self ?k3 = Inr (td, k'))"
      using Suc.prems(2) unfolding Cons trysteal_loop.simps h Let_def prod.case by (auto split: if_splits)
    then show ?thesis using k1 Suc.IH tdq_move_safe [OF C k1(2)] by auto
  qed
qed simp

lemma trysteal_safe: "kconf_ok C \<Longrightarrow> rivals_ok C W \<Longrightarrow> k_ok C k \<Longrightarrow> tdq_trysteal W C self k = Inr k' \<Longrightarrow> k_ok C k'"
  unfolding tdq_trysteal_def by (auto split: if_splits dest: trysteal_loop_safe simp del: trysteal_loop.simps)

subsection \<open>The clock tick\<close>

lemma clock_index_frame [simp]:
  "tdq_rq n (clock_index q) = tdq_rq n q" "tdq_realtime (clock_index q) = tdq_realtime q"
  "tdq_timeshare (clock_index q) = tdq_timeshare q" "tdq_lottery (clock_index q) = tdq_lottery q" "tdq_idle (clock_index q) = tdq_idle q"
  by (cases n; simp add: clock_index_def Let_def)+

lemma clock_index_range: "unat (tdq_idx q) < 64 \<Longrightarrow> unat (tdq_ridx q) < 64 \<Longrightarrow>
    unat (tdq_idx (clock_index q)) < 64 \<and> unat (tdq_ridx (clock_index q)) < 64"
  by (auto simp: clock_index_def Let_def)

lemma clock_index_safe:
  assumes "k_ok C k"
  shows "k_ok C (upd_tdq self (\<lambda>q. clock_index (q\<lparr>tdq_oldswitchcnt := tdq_switchcnt q, tdq_switchcnt := tdq_load q\<rparr>)) k)"
    (is "k_ok C (upd_tdq self ?f k)")
proof -
  have wf: "k_wf C k" using assms by (rule k_ok_wf)
  have q: "tdq_rq n (k_tdq (upd_tdq self ?f k) c) = tdq_rq n (k_tdq k c)" for c n by (cases n) simp_all
  then have e: "q_elems (upd_tdq self ?f k) = q_elems k" by (simp add: q_elems_def fun_eq_iff)
  have i: "unat (tdq_idx (k_tdq (upd_tdq self ?f k) c)) < 64" "unat (tdq_ridx (k_tdq (upd_tdq self ?f k) c)) < 64" for c
    using clock_index_range [of "(k_tdq k c)\<lparr>tdq_oldswitchcnt := tdq_switchcnt (k_tdq k c), tdq_switchcnt := tdq_load (k_tdq k c)\<rparr>"]
      k_wfD(4,5) [OF wf, of c] by (cases "c = self"; simp)+
  have "k_wf C (upd_tdq self ?f k)"
    by (rule k_wfI) (use q i e k_wfD(1,2,3,7) [OF wf] in \<open>simp_all\<close>)
  then show ?thesis using assms by (simp add: k_ok_def unqueued_def e)
qed

lemma clock_thread_safe:
  assumes ok: "k_ok C k" and a: "clock_thread C self td k = Inr k'"
  shows "k_ok C k'"
proof -
  let ?g = "\<lambda>t. t\<lparr>ts_runtime := ts_runtime t + of_int (tickincr (k_tun k))\<rparr>"
  have "k_ok C (upd_th td ?g k)" by (intro k_ok_same [OF ok]) (simp add: same_place_def)
  then have p: "k_priority C td (k_interact_update C td (upd_th td ?g k)) = Inr k1 \<Longrightarrow> k_ok C k1" for k1
    using k_priority_safe(1) k_interact_safe(1) by blast
  consider "k' = k" | k1 where "k_ok C k1" "k' = k1 \<or> k' = upd_th td (\<lambda>t. t\<lparr>ts_slice := ts_slice t + 1\<rparr>) k1 \<or>
      k' = upd_th td (\<lambda>t. t\<lparr>ts_slice := 0, td_flags := set_flag (td_flags t) (TDF_NEEDRESCHED OR TDF_SLICEEND)\<rparr>)
             (upd_th td (\<lambda>t. t\<lparr>ts_slice := ts_slice t + 1\<rparr>) k1)"
    using a p ok unfolding clock_thread_def Let_def by (force split: if_splits)
  then show ?thesis
  proof cases
    case 2
    let ?k2 = "upd_th td (\<lambda>t. t\<lparr>ts_slice := ts_slice t + 1\<rparr>) k1"
    have "k_ok C ?k2" by (intro k_ok_same [OF 2(1)]) (simp add: same_place_def)
    moreover from this have "k_ok C (upd_th td (\<lambda>t. t\<lparr>ts_slice := 0, td_flags := set_flag (td_flags t) (TDF_NEEDRESCHED OR TDF_SLICEEND)\<rparr>) ?k2)"
      by (rule k_ok_same) (simp add: same_place_def)
    ultimately show ?thesis using 2 by auto
  qed (use ok in simp)
qed

lemma clock_safe:
  assumes C: "kconf_ok C" and W: "rivals_ok C W" and ok: "k_ok C k" and a: "sched_clock W C self td k = Inr k'"
  shows "k_ok C k'"
proof -
  obtain k1 k3 where 1: "(if k_balance_tdq k = self \<and> k_balance_ticks k \<noteq> 0 then
          (let k1 = k\<lparr>k_balance_ticks := k_balance_ticks k - 1\<rparr>
           in if k_balance_ticks k1 = 0 then sched_balance W C self k1 else Inr k1)
        else Inr k) = Inr k1"
    and 3: "k_pctcpu_update C td True (upd_tdq self (\<lambda>q. clock_index (q\<lparr>tdq_oldswitchcnt := tdq_switchcnt q, tdq_switchcnt := tdq_load q\<rparr>)) k1) = Inr k3"
    and 4: "clock_thread C self td k3 = Inr k'"
    using a by (auto simp only: sched_clock_def rbind_eq_Inr Let_def)
  have "k_ok C (k\<lparr>k_balance_ticks := k_balance_ticks k - 1\<rparr>)" using ok by simp
  from balance_safe [OF C W this] have "k_ok C k1" using 1 ok by (auto simp: Let_def split: if_splits)
  then show ?thesis by (intro clock_thread_safe [OF _ 4] pctcpu_safe(1) [OF 3] clock_index_safe)
qed

subsection \<open>Preemption, critical sections, affinity, binding\<close>

lemma preempt_safe: "k_ok C k \<Longrightarrow> k_ok C (sched_preempt self td k)"
proof -
  assume ok: "k_ok C k"
  let ?k1 = "upd_tdq self (\<lambda>q. q\<lparr>tdq_ipipending := False\<rparr>) k"
  have "k_ok C ?k1" using ok by (rule k_ok_tdq_fields)
  moreover from this have "k_ok C (upd_th td (td_owepreempt_update (\<lambda>_. True)) ?k1)" by (rule k_ok_same) (simp add: same_place_def)
  ultimately show ?thesis by (simp add: sched_preempt_def Let_def)
qed

lemma critical_enter_safe: "k_ok C k \<Longrightarrow> k_ok C (critical_enter self k)"
  unfolding critical_enter_def by (rule k_ok_same) (simp_all add: same_place_def)

lemma critical_exit_safe:
  assumes ok: "k_ok C k" and a: "critical_exit self k = Inr k'"
  shows "k_ok C k'"
proof -
  have up: "k_ok C j \<Longrightarrow> k_ok C (upd_th t (td_critnest_update f) j)" for t f j
    by (erule k_ok_same) (simp add: same_place_def)
  let ?t = "k_cur k self" and ?d = "\<lambda>t. t\<lparr>td_critnest := td_critnest t - 1\<rparr>"
  let ?k1 = "upd_th ?t (td_critnest_update (\<lambda>_. 0)) k"
  have d: "k_ok C j \<Longrightarrow> k_ok C (upd_th t ?d j)" for t j by (erule k_ok_same) (simp add: same_place_def)
  have "k' = ?k1 \<or> (\<exists>e. k' = ext_call e (upd_th ?t ?d (upd_th ?t (td_critnest_update (\<lambda>_. 1)) ?k1))) \<or> k' = upd_th ?t ?d k"
    using a unfolding critical_exit_def Let_def by (auto split: if_splits)
  then show ?thesis using up d ok by auto
qed

lemma affinity_safe:
  assumes C: "kconf_ok C" and ok: "k_ok C k" and a: "sched_affinity C self td k = Inr k'"
  shows "k_ok C k'"
proof -
  let ?k1 = "upd_th td (\<lambda>t. t\<lparr>td_flags := set_flag (td_flags t) TDF_NEEDRESCHED\<rparr>) k"
  have k1: "k_ok C ?k1" using ok by (rule k_ok_same) (simp add: same_place_def)
  have "k' = k \<or> k' = ?k1 \<or> (\<exists>e. k' = ext_call e ?k1) \<or> (\<exists>j. sched_rem C td k = Inr j \<and> sched_add C self td SRQ_BORING j = Inr k')"
    using a unfolding sched_affinity_def Let_def by (auto split: if_splits)
  moreover have "k_ok C k'" if "sched_rem C td k = Inr j" "sched_add C self td SRQ_BORING j = Inr k'" for j
    using sched_rem_safe [OF ok that(1)] by (intro sched_add_safe(1) [OF C _ _ that(2)]) (simp_all add: not_idle_def)
  ultimately show ?thesis using ok k1 by auto
qed

lemma unbind_safe:
  assumes ok: "k_ok C k" and a: "sched_unbind self td k = Inr k'"
  shows "k_ok C k'"
proof -
  let ?k1 = "upd_th td (\<lambda>t. t\<lparr>ts_flags := clr_flag (ts_flags t) TSF_BOUND\<rparr>) k"
  have "k_ok C ?k1" using ok by (rule k_ok_same) (simp add: same_place_def)
  then have "k_ok C (upd_th (k_cur k self) (\<lambda>t. t\<lparr>td_pinned := td_pinned t - 1\<rparr>) ?k1)" by (rule k_ok_same) (simp add: same_place_def)
  then show ?thesis using ok a by (auto simp: sched_unbind_def split: if_splits)
qed

lemma bind_safe:
  assumes ok: "k_ok C k" and a: "sched_bind self td cpu k = Inr k'"
  shows "k_ok C k'"
proof -
  obtain k1 where 1: "(if has_flag (ts_flags (k_td k td)) TSF_BOUND then sched_unbind self td k else Inr k) = Inr k1"
    and r: "(let k2 = upd_th td (\<lambda>t. t\<lparr>ts_flags := set_flag (ts_flags t) TSF_BOUND\<rparr>) k1;
            k3 = upd_th (k_cur k2 self) (\<lambda>t. t\<lparr>td_pinned := td_pinned t + 1\<rparr>) k2
        in if self = cpu then Inr k3
           else Inr (ext_call (MI_SWITCH self {SW_VOL}) (upd_th td (ts_cpu_update (\<lambda>_. cpu)) k3))) = (Inr k' :: fault + kern)"
    using a by (auto simp only: sched_bind_def rbind_eq_Inr)
  have "k_ok C k1" using 1 ok unbind_safe [OF ok] by (auto split: if_splits)
  then have "k_ok C (upd_th td (\<lambda>t. t\<lparr>ts_flags := set_flag (ts_flags t) TSF_BOUND\<rparr>) k1)" by (rule k_ok_same) (simp add: same_place_def)
  then have 2: "k_ok C (upd_th (k_cur k1 self) (\<lambda>t. t\<lparr>td_pinned := td_pinned t + 1\<rparr>) (upd_th td (\<lambda>t. t\<lparr>ts_flags := set_flag (ts_flags t) TSF_BOUND\<rparr>) k1))"
    by (rule k_ok_same) (simp add: same_place_def)
  then have "k_ok C (upd_th td (ts_cpu_update (\<lambda>_. cpu))
        (upd_th (k_cur k1 self) (\<lambda>t. t\<lparr>td_pinned := td_pinned t + 1\<rparr>) (upd_th td (\<lambda>t. t\<lparr>ts_flags := set_flag (ts_flags t) TSF_BOUND\<rparr>) k1)))"
    by (rule k_ok_same) (simp add: same_place_def)
  then show ?thesis using r 2 by (auto simp: Let_def split: if_splits)
qed

subsection \<open>The context switch\<close>

lemma k_ok_unq: "k_ok C k \<Longrightarrow> unqueued k td \<Longrightarrow> k_ok C (upd_th td f k)"
  by (rule k_ok_th) simp_all

lemma choosethread_panic_safe:
  "k_ok C k \<Longrightarrow> unqueued k td \<Longrightarrow> choosethread_panic n C self td k = Inr (t, k') \<Longrightarrow> k_ok C k' \<and> unqueued k' t \<and> td_state (k_td k' t) = TDS_RUNNING"
proof (induction n arbitrary: td k)
  case (Suc n)
  show ?case
  proof (cases "\<not> has_flag (p_flag (k_proc k (td_proc (k_td k td)))) P_SYSTEM \<and> \<not> has_flag (td_flags (k_td k td)) TDF_INPANIC")
    case True
    then obtain u k1 where 1: "sched_choose C self (TD_SET_CAN_RUN td k) = Inr (u, k1)" and 2: "choosethread_panic n C self u k1 = Inr (t, k')"
      using Suc.prems(3) by auto
    have "k_ok C (TD_SET_CAN_RUN td k)" unfolding TD_SET_CAN_RUN_def using Suc.prems(1,2) by (rule k_ok_unq)
    from sched_choose_safe [OF this 1] show ?thesis by (intro Suc.IH [OF _ _ 2])
  next
    case False
    then have "t = td" "k' = TD_SET_RUNNING td k" using Suc.prems(3) by (auto split: if_splits)
    then show ?thesis using k_ok_unq [OF Suc.prems(1,2)] Suc.prems(2) by (simp add: TD_SET_RUNNING_def upd_td_def)
  qed
qed simp

lemma choosethread_safe:
  assumes ok: "k_ok C k" and a: "choosethread n C self k = Inr (t, k')"
  shows "k_ok C k'" "unqueued k' t" "td_state (k_td k' t) = TDS_RUNNING"
proof -
  obtain u k1 where 1: "sched_choose C self k = Inr (u, k1)"
    and 2: "choosethread_panic n C self u k1 = Inr (t, k') \<or> t = u \<and> k' = TD_SET_RUNNING u k1"
    using a unfolding choosethread_def by (auto split: if_splits)
  note S = sched_choose_safe [OF ok 1]
  have "k_ok C k' \<and> unqueued k' t \<and> td_state (k_td k' t) = TDS_RUNNING"
    using 2 choosethread_panic_safe [OF S(1,2)] k_ok_unq [OF S(1,2)] S(2) by (auto simp: TD_SET_RUNNING_def upd_td_def)
  then show "k_ok C k'" "unqueued k' t" "td_state (k_td k' t) = TDS_RUNNING" by simp_all
qed

lemma idletd_flag [simp]: "has_flag (clr_flag w (TDF_NEEDRESCHED OR TDF_SLICEEND)) TDF_IDLETD = has_flag w TDF_IDLETD"
  by (simp add: has_flag_clr_flag_other tdf_defs TDF_SLICEEND_def)

lemma switch_account_safe:
  assumes ok: "k_ok C k" and a: "switch_account C self td k = Inr k'"
  shows "k_ok C k'" "q_elems k' = q_elems k" "k_idle k' = k_idle k" "td_state (k_td k' td) = td_state (k_td k td)"
    "has_flag (td_flags (k_td k' td)) TDF_INMEM = has_flag (td_flags (k_td k td)) TDF_INMEM"
    "TD_IS_IDLETHREAD (k_td k' td) = TD_IS_IDLETHREAD (k_td k td)"
proof -
  obtain k1 where 1: "k_pctcpu_update C td True k = Inr k1" using a unfolding switch_account_def by auto
  let ?k2 = "upd_th td (\<lambda>t. t\<lparr>ts_rltick := k_ticks k1, td_lastcpu := td_oncpu t, td_oncpu := NOCPU,
                   td_flags := clr_flag (td_flags t) (TDF_NEEDRESCHED OR TDF_SLICEEND), td_owepreempt := False\<rparr>) k1"
  let ?k3 = "upd_tdq self (\<lambda>q. q\<lparr>tdq_switchcnt := tdq_switchcnt q + 1\<rparr>) ?k2"
  have k': "k' = ?k2 \<or> k' = ?k3" using a 1 unfolding switch_account_def Let_def by (auto split: if_splits)
  note P = pctcpu_safe [OF 1]
  have "k_ok C ?k2" using P(1) [OF ok] by (rule k_ok_same) (simp add: same_place_def)
  then show "k_ok C k'" using k' k_ok_tdq_fields(4) by blast
  have "q_elems ?k3 = q_elems k1" by (simp add: q_elems_def fun_eq_iff)
  then show "q_elems k' = q_elems k" using k' P(3) by auto
  show "k_idle k' = k_idle k" "td_state (k_td k' td) = td_state (k_td k td)"
    "has_flag (td_flags (k_td k' td)) TDF_INMEM = has_flag (td_flags (k_td k td)) TDF_INMEM"
    "TD_IS_IDLETHREAD (k_td k' td) = TD_IS_IDLETHREAD (k_td k td)"
    using k' P(2,6,7) by (auto simp: upd_td_def TD_IS_IDLETHREAD_def)
qed

lemma switch_migrate_safe:
  assumes C: "kconf_ok C" and ok: "k_ok C k" and i: "not_idle k td" and a: "sched_switch_migrate C c td flags k = Inr (m, k')"
  shows "k_ok C k'"
proof -
  obtain k1 k2 where 1: "tdq_load_rem c td k = Inr k1"
    and 2: "tdq_add C (ts_cpu (k_td k td)) td flags (upd_th td (td_lock_update (\<lambda>_. BlockedLock)) k1) = Inr k2"
    and k': "k' = tdq_notify C (ts_cpu (k_td k td)) td k2"
    using a unfolding sched_switch_migrate_def Let_def by auto
  note L = tdq_load_rem_safe [OF ok 1]
  have "k_ok C (upd_th td (td_lock_update (\<lambda>_. BlockedLock)) k1)" using L(1) by (rule k_ok_same) (simp add: same_place_def)
  moreover have "not_idle (upd_th td (td_lock_update (\<lambda>_. BlockedLock)) k1) td" using i L(4) by (simp add: not_idle_def)
  ultimately show ?thesis unfolding k' by (intro tdq_notify_safe tdq_add_safe(1) [OF C _ _ 2])
qed

lemma switch_place_safe:
  assumes C: "kconf_ok C" and W: "rivals_ok C W" and ok: "k_ok C k" and u: "unqueued k td" and m: "td_inmem (k_td k) td"
    and i: "TD_IS_IDLETHREAD (k_td k td) \<or> not_idle k td" and a: "switch_place W C self td pre k = Inr (mtx, k')"
  shows "k_ok C k'"
proof -
  define srq where "srq = (if pre then {SRQ_OURSELF, SRQ_YIELDING, SRQ_PREEMPTED} else {SRQ_OURSELF, SRQ_YIELDING})"
  consider (idle) "TD_IS_IDLETHREAD (k_td k td)" | (run) "\<not> TD_IS_IDLETHREAD (k_td k td)" "TD_IS_RUNNING (k_td k td)"
    | (block) "\<not> TD_IS_IDLETHREAD (k_td k td)" "\<not> TD_IS_RUNNING (k_td k td)" by blast
  then show ?thesis
  proof cases
    case idle
    then show ?thesis using a k_ok_unq [OF ok u] by (auto simp: switch_place_def Let_def TD_SET_CAN_RUN_def)
  next
    case run
    obtain k1 where 1: "(if THREAD_CAN_MIGRATE (k_td k td) \<and> \<not> THREAD_CAN_SCHED (k_td k td) (ts_cpu (k_td k td)) then
          rbind (sched_pickcpu C self td {} k) (\<lambda>(cpu, k1). Inr (upd_th td (ts_cpu_update (\<lambda>_. cpu)) k1)) else Inr k) = Inr k1"
      and 2: "tdq_runq_add C self td srq k1 = Inr k' \<or> sched_switch_migrate C self td srq k1 = Inr (mtx, k')"
      using a run unfolding switch_place_def Let_def srq_def [symmetric] by (simp only: if_False if_True rbind_eq_Inr) (auto split: if_splits)
    have 3: "k1 = k \<or> (\<exists>c r cpu. k1 = upd_th td (ts_cpu_update (\<lambda>_. cpu)) ((upd_th td (ts_cpu_update (\<lambda>_. c)) k)\<lparr>k_randomval := r\<rparr>))"
    proof -
      have "k1 = k \<or> (\<exists>cpu j. sched_pickcpu C self td {} k = Inr (cpu, j) \<and> k1 = upd_th td (ts_cpu_update (\<lambda>_. cpu)) j)"
        using 1 by (auto split: if_splits)
      then show ?thesis using sched_pickcpu_safe by blast
    qed
    have "k_ok C k1 \<and> k_idle k1 = k_idle k \<and> q_elems k1 = q_elems k \<and> td_flags (k_td k1 td) = td_flags (k_td k td)"
      using 3
    proof
      assume "\<exists>c r cpu. k1 = upd_th td (ts_cpu_update (\<lambda>_. cpu)) ((upd_th td (ts_cpu_update (\<lambda>_. c)) k)\<lparr>k_randomval := r\<rparr>)"
      then obtain c r cpu where k1: "k1 = upd_th td (ts_cpu_update (\<lambda>_. cpu)) ((upd_th td (ts_cpu_update (\<lambda>_. c)) k)\<lparr>k_randomval := r\<rparr>)" by blast
      have "k_ok C (upd_th td (ts_cpu_update (\<lambda>_. c)) k)" using ok by (rule k_ok_same) (simp add: same_place_def)
      then have "k_ok C k1" unfolding k1 by (intro k_ok_same) (simp_all add: same_place_def)
      then show ?thesis by (simp add: k1 upd_td_def)
    qed (use ok in simp)
    then have "k_ok C k1" "unqueued k1 td" "td_inmem (k_td k1) td" "not_idle k1 td"
      using u m run(1) i by (simp_all add: unqueued_def not_idle_def)
    then show ?thesis
      using 2 tdq_runq_add_safe(1) [OF C, of k1 td self] switch_migrate_safe [OF C, of k1 td self] by blast
  next
    case block
    obtain k1 where 1: "tdq_load_rem self td (upd_th td (td_lock_update (\<lambda>_. BlockedLock)) k) = Inr k1"
        "k' = k1 \<or> tdq_trysteal W C self k1 = Inr k'"
      using a block unfolding switch_place_def Let_def by (auto split: if_splits)
    have "k_ok C (upd_th td (td_lock_update (\<lambda>_. BlockedLock)) k)" using ok by (rule k_ok_same) (simp add: same_place_def)
    from tdq_load_rem_safe(1) [OF this 1(1)] show ?thesis using 1(2) trysteal_safe [OF C W] by blast
  qed
qed

lemma sched_switch_safe:
  assumes C: "kconf_ok C" and W: "rivals_ok C W" and ok: "k_ok C k" and u: "unqueued k td" and m: "td_inmem (k_td k) td"
    and i: "TD_IS_IDLETHREAD (k_td k td) \<or> not_idle k td" and a: "sched_switch n W C self td newtd flags k = Inr (t, k')"
  shows "k_ok C k'" "unqueued k' t" "td_state (k_td k' t) = TDS_RUNNING"
proof -
  obtain k1 mtx k2 k3 where 1: "switch_account C self td k = Inr k1"
    and 2: "switch_place W C self td (\<not> has_flag (td_flags (k_td k td)) TDF_SLICEEND \<and> SW_PREEMPT \<in> flags) k1 = Inr (mtx, k2)"
    and 3: "choosethread n C self k2 = Inr (t, k3)"
    and r: "td \<noteq> t \<and> (\<exists>k4. k_pctcpu_update C t False k3 = Inr k4 \<and> k' = ext_call (CPU_SWITCH td t mtx) k4) \<or>
        k' = upd_th td (td_oncpu_update (\<lambda>_. int self)) (upd_th td (td_lock_update (\<lambda>_. mtx)) k3)"
    using a unfolding sched_switch_def sched_switch_resume_def Let_def by (fastforce split: if_splits)
  have 4: "(\<exists>k4 e. k_pctcpu_update C t False k3 = Inr k4 \<and> k' = ext_call e k4) \<or>
        k' = upd_th td (td_oncpu_update (\<lambda>_. int self)) (upd_th td (td_lock_update (\<lambda>_. mtx)) k3)"
    using r by blast
  note A = switch_account_safe [OF ok 1]
  have "k_ok C k2"
    using A u m i by (intro switch_place_safe [OF C W A(1) _ _ _ 2]) (auto simp: unqueued_def not_idle_def)
  note T = choosethread_safe [OF this 3]
  have "k_ok C (upd_th td (td_lock_update (\<lambda>_. mtx)) k3)" using T(1) by (rule k_ok_same) (simp add: same_place_def)
  then have "k_ok C (upd_th td (td_oncpu_update (\<lambda>_. int self)) (upd_th td (td_lock_update (\<lambda>_. mtx)) k3))"
    by (rule k_ok_same) (simp add: same_place_def)
  then have "k_ok C k' \<and> unqueued k' t \<and> td_state (k_td k' t) = TDS_RUNNING"
    using 4
  proof (elim disjE exE conjE)
    fix k4 e assume "k_pctcpu_update C t False k3 = Inr k4" "k' = ext_call e k4"
    then show ?thesis using pctcpu_safe(1,3,6) [of C t False k3 k4] T by (simp add: unqueued_def)
  qed (use T(2,3) in \<open>auto simp: upd_td_def\<close>)
  then show "k_ok C k'" "unqueued k' t" "td_state (k_td k' t) = TDS_RUNNING" by simp_all
qed

lemma sched_throw_safe:
  assumes ok: "k_ok C k" and a: "sched_throw n C self td k = Inr (t, k')"
  shows "k_ok C k'" "unqueued k' t" "td_state (k_td k' t) = TDS_RUNNING"
proof -
  obtain k1 k2 where 1: "(case td of None \<Rightarrow> Inr k
        | Some t \<Rightarrow> rbind (kassert (td_lock (k_td k t) = TDQ_LOCKPTR self) ''td->td_lock == TDQ_LOCKPTR(tdq)'') (\<lambda>_.
            rbind (tdq_load_rem self t k) (\<lambda>k1.
              Inr (upd_th t (\<lambda>th. th\<lparr>td_lastcpu := td_oncpu th, td_oncpu := NOCPU\<rparr>) k1)))) = Inr k1"
    and 2: "choosethread n C self k1 = Inr (t, k2)" and k': "k' = ext_call (CPU_THROW td t) k2"
    using a unfolding sched_throw_def by auto
  have up: "k_ok C j \<Longrightarrow> k_ok C (upd_th u (\<lambda>th. th\<lparr>td_lastcpu := td_oncpu th, td_oncpu := NOCPU\<rparr>) j)" for u j
    by (erule k_ok_same) (simp add: same_place_def)
  have "k_ok C k1" using 1 ok tdq_load_rem_safe(1) [OF ok] up by (auto split: option.splits)
  from choosethread_safe [OF this 2] show "k_ok C k'" "unqueued k' t" "td_state (k_td k' t) = TDS_RUNNING" by (simp_all add: k')
qed

subsection \<open>The idle thread\<close>

lemma idletd_rest_safe:
  assumes C: "kconf_ok C" and W: "rivals_ok C W" and ok: "k_ok C k" and a: "idletd_rest W C self old k = Inr (o', k')"
  shows "k_ok C k'"
proof -
  let ?search = "always_steal (k_tun k) \<or> tdq_switchcnt (k_tdq k self) + tdq_oldswitchcnt (k_tdq k self) \<noteq> old"
  obtain x where 1: "(if ?search then tdq_idled W C self k else Inr (True, k)) = Inr x"
    using a unfolding idletd_rest_def Let_def by (cases "?search") auto
  obtain b k1 where x: "x = (b, k1)" by fastforce
  have ok1: "k_ok C k1" using 1 ok idled_safe [OF C W ok] by (auto simp: x split: if_splits)
  show ?thesis
    using a 1 ok1 unfolding idletd_rest_def Let_def x
    by (auto split: if_splits intro!: k_ok_tdq_fields)
qed

subsection \<open>Set up\<close>

text \<open>
  Before sched_setup the indices are 0, which is how the kernel's memory starts; CPU ids above
  mp_maxid name no queue, for which the empty queue stands.
\<close>

definition k_static :: "'a kconf_scheme \<Rightarrow> kern \<Rightarrow> bool" where
  "k_static C k \<longleftrightarrow> (\<forall>c. tdq_idx (k_tdq k c) = 0 \<and> tdq_ridx (k_tdq k c) = 0) \<and>
     (\<forall>c n. c > mp_maxid C \<longrightarrow> tdq_rq n (k_tdq k c) = runq_init C)"

lemma runq_init_any_wf: "kconf_ok C \<Longrightarrow> runq_wf C ths (runq_init C) \<and> runq_wf C ths (lotteryq_init C) \<and>
    rq_elems (runq_init C) = {} \<and> rq_elems (lotteryq_init C) = {}"
  using runq_init_wf [of C] by (simp add: kconf_ok_def)

definition fresh_tdq :: "'a kconf_scheme \<Rightarrow> tdq \<Rightarrow> bool" where
  "fresh_tdq C q \<longleftrightarrow> tdq_idx q = 0 \<and> tdq_ridx q = 0 \<and> (\<forall>n. tdq_rq n q = runq_init C \<or> tdq_rq n q = lotteryq_init C)"

lemma setup_loop_fresh:
  assumes "setup_loop C fg is k = Inr k'" "\<forall>c. tdq_idx (k_tdq k c) = 0 \<and> tdq_ridx (k_tdq k c) = 0"
    "\<forall>c. c \<notin> set is \<longrightarrow> fresh_tdq C (k_tdq k c)"
  shows "\<forall>c. fresh_tdq C (k_tdq k' c)"
  using assms
proof (induction "is" arbitrary: k)
  case (Cons i "is")
  let ?k2 = "upd_tdq i (\<lambda>q. q\<lparr>tdq_cg := fg (k_cputop (tdq_setup C i k)) i\<rparr>) (tdq_setup C i k)"
  have l: "setup_loop C fg is ?k2 = Inr k'" using Cons.prems(1) by (auto simp: Let_def split: if_splits)
  have i: "fresh_tdq C (k_tdq ?k2 i)"
  proof -
    have "tdq_rq n (k_tdq ?k2 i) = runq_init C \<or> tdq_rq n (k_tdq ?k2 i) = lotteryq_init C" for n by (cases n) (simp_all add: tdq_setup_def)
    then show ?thesis using Cons.prems(2) by (simp add: fresh_tdq_def tdq_setup_def)
  qed
  have o: "k_tdq ?k2 c = k_tdq k c" if "c \<noteq> i" for c using that by (simp add: tdq_setup_def)
  have z: "\<forall>c. tdq_idx (k_tdq ?k2 c) = 0 \<and> tdq_ridx (k_tdq ?k2 c) = 0"
    using Cons.prems(2) by (simp add: tdq_setup_def)
  have "\<forall>c. c \<notin> set is \<longrightarrow> fresh_tdq C (k_tdq ?k2 c)"
  proof (intro allI impI)
    fix c assume "c \<notin> set is"
    then show "fresh_tdq C (k_tdq ?k2 c)" using i o [of c] Cons.prems(3) by (cases "c = i") simp_all
  qed
  from Cons.IH [OF l z this] show ?case .
qed (simp add: fresh_tdq_def)

lemma fresh_ok:
  assumes "kconf_ok C" "\<forall>c. fresh_tdq C (k_tdq k c)"
  shows "k_ok C k"
proof -
  have r: "runq_wf C (k_td k) (tdq_rq n (k_tdq k c)) \<and> rq_elems (tdq_rq n (k_tdq k c)) = {}" for c n
    using runq_init_any_wf [OF assms(1), of "k_td k"] assms(2) unfolding fresh_tdq_def by metis
  then have "q_elems k c n = {}" for c n by (simp add: q_elems_def)
  moreover from this have "k_wf C k" by (intro k_wfI) (use r assms(2) in \<open>simp_all add: fresh_tdq_def\<close>)
  ultimately show ?thesis by (simp add: k_ok_def unqueued_def)
qed

lemma setup_safe:
  assumes C: "kconf_ok C" and W: "rivals_ok C W" and st: "k_static C k" and a: "sched_setup W C topo fg self td0 k = Inr k'"
  shows "k_ok C k'"
proof -
  obtain k1 k2 where 1: "setup_loop C fg [0..<Suc (mp_maxid C)] (k\<lparr>k_cputop := topo\<rparr>) = Inr k1"
    and 2: "sched_balance W C self (k1\<lparr>k_balance_tdq := self\<rparr>) = Inr k2"
    and k': "k' = upd_tdq self (\<lambda>q. q\<lparr>tdq_lowpri := td_priority (k_td (tdq_load_add self td0 (upd_th td0 (td_lock_update (\<lambda>_. TDQ_LOCKPTR self)) k2)) td0)\<rparr>)
      (tdq_load_add self td0 (upd_th td0 (td_lock_update (\<lambda>_. TDQ_LOCKPTR self)) k2))"
    using a by (auto simp: sched_setup_def sched_setup_smp_def Let_def)
  have "\<forall>c. c \<notin> set [0..<Suc (mp_maxid C)] \<longrightarrow> fresh_tdq C (k_tdq (k\<lparr>k_cputop := topo\<rparr>) c)"
    using st by (simp add: k_static_def fresh_tdq_def)
  then have "\<forall>c. fresh_tdq C (k_tdq k1 c)" using setup_loop_fresh [OF 1] st by (simp add: k_static_def)
  then have "k_ok C k1" by (rule fresh_ok [OF C])
  then have "k_ok C k2" by (intro balance_safe [OF C W _ 2]) simp
  then have "k_ok C (upd_th td0 (td_lock_update (\<lambda>_. TDQ_LOCKPTR self)) k2)" by (rule k_ok_same) (simp add: same_place_def)
  then show ?thesis unfolding k' by (intro k_ok_tdq_fields tdq_load_add_safe)
qed

subsection \<open>The steps of the whole kernel\<close>

text \<open>
  One step is one operation of the scheduler on some CPU that returns, or a change by the rest
  of the kernel. The premises on threads are the callers' contracts: an idle thread is never
  added, curthread is on no run queue and its stack is in memory, and a new thread is not
  queued. The rest of the kernel may change everything about threads that are on no queue, of
  the others what \<open>same_place\<close> allows, and the clock, curthread, processes and tunables.
\<close>

inductive sched_step :: "'a kconf_scheme \<Rightarrow> kern \<Rightarrow> kern \<Rightarrow> bool" for C where
  step_add: "not_idle k td \<Longrightarrow> sched_add C self td flags k = Inr k' \<Longrightarrow> sched_step C k k'"
| step_rem: "sched_rem C td k = Inr k' \<Longrightarrow> sched_step C k k'"
| step_lend: "sched_lend_prio C self td prio k = Inr k' \<Longrightarrow> sched_step C k k'"
| step_unlend: "sched_unlend_prio C self td prio k = Inr k' \<Longrightarrow> sched_step C k k'"
| step_prio: "sched_prio C self td prio k = Inr k' \<Longrightarrow> sched_step C k k'"
| step_lend_user: "sched_lend_user_prio C self td prio k = Inr k' \<Longrightarrow> sched_step C k k'"
| step_nice: "sched_nice C self p n k = Inr k' \<Longrightarrow> sched_step C k k'"
| step_class: "sched_step C k (sched_class td cl k)"
| step_userret: "unqueued k td \<Longrightarrow> sched_userret C self td k = Inr k' \<Longrightarrow> sched_step C k k'"
| step_sleep: "sched_sleep C self td pri k = Inr k' \<Longrightarrow> sched_step C k k'"
| step_wakeup: "not_idle k td \<Longrightarrow> sched_wakeup C self td k = Inr k' \<Longrightarrow> sched_step C k k'"
| step_fork: "unqueued k child \<Longrightarrow> sched_fork C self td child k = Inr k' \<Longrightarrow> sched_step C k k'"
| step_exit: "sched_exit C p child k = Inr k' \<Longrightarrow> sched_step C k k'"
| step_fork_exit: "sched_fork_exit self td k = Inr k' \<Longrightarrow> sched_step C k k'"
| step_clock: "rivals_ok C W \<Longrightarrow> sched_clock W C self td k = Inr k' \<Longrightarrow> sched_step C k k'"
| step_preempt: "sched_step C k (sched_preempt self td k)"
| step_critical_enter: "sched_step C k (critical_enter self k)"
| step_critical_exit: "critical_exit self k = Inr k' \<Longrightarrow> sched_step C k k'"
| step_affinity: "sched_affinity C self td k = Inr k' \<Longrightarrow> sched_step C k k'"
| step_bind: "sched_bind self td cpu k = Inr k' \<Longrightarrow> sched_step C k k'"
| step_unbind: "sched_unbind self td k = Inr k' \<Longrightarrow> sched_step C k k'"
| step_relinquish: "sched_step C k (sched_relinquish self k)"
| step_switch: "rivals_ok C W \<Longrightarrow> unqueued k td \<Longrightarrow> td_inmem (k_td k) td \<Longrightarrow> TD_IS_IDLETHREAD (k_td k td) \<or> not_idle k td \<Longrightarrow>
    sched_switch n W C self td newtd flags k = Inr (t, k') \<Longrightarrow> sched_step C k k'"
| step_throw: "sched_throw n C self td k = Inr (t, k') \<Longrightarrow> sched_step C k k'"
| step_idle_switch: "sched_step C k (idletd_switch self k)"
| step_idle: "rivals_ok C W \<Longrightarrow> idletd_rest W C self old k = Inr (old', k') \<Longrightarrow> sched_step C k k'"
| env_thread: "unqueued k td \<or> (\<forall>t. same_place t (f t)) \<Longrightarrow> sched_step C k (upd_th td f k)"
| env_ticks: "sched_step C k (k\<lparr>k_ticks := now\<rparr>)"
| env_cur: "sched_step C k (k\<lparr>k_cur := cur\<rparr>)"
| env_proc: "sched_step C k (k\<lparr>k_proc := p\<rparr>)"
| env_tun: "sched_step C k (k\<lparr>k_tun := T\<rparr>)"

inductive_cases sched_stepE: "sched_step C k k'"

inductive sched_reach :: "'a kconf_scheme \<Rightarrow> kern \<Rightarrow> bool" for C where
  boot: "rivals_ok C W \<Longrightarrow> k_static C k \<Longrightarrow> sched_setup W C topo fg self td0 k = Inr k' \<Longrightarrow> sched_reach C k'"
| step: "sched_reach C k \<Longrightarrow> sched_step C k k' \<Longrightarrow> sched_reach C k'"

lemma sched_step_ok:
  assumes C: "kconf_ok C" and "sched_step C k k'" "k_ok C k"
  shows "k_ok C k'"
  using assms(2)
proof cases
  case step_add
  then show ?thesis using sched_add_safe(1) [OF C assms(3)] by blast
next
  case step_rem
  then show ?thesis using sched_rem_safe(1) [OF assms(3)] by blast
next
  case step_lend
  then show ?thesis using lend_prio_safe(1) [OF C assms(3)] by blast
next
  case step_unlend
  then show ?thesis using unlend_prio_safe(1) [OF C assms(3)] by blast
next
  case step_prio
  then show ?thesis using sched_prio_safe(1) [OF C assms(3)] by blast
next
  case step_lend_user
  then show ?thesis using lend_user_prio_safe(1) [OF C assms(3)] by blast
next
  case step_nice
  then show ?thesis using sched_nice_safe [OF C assms(3)] by blast
next
  case step_class
  then show ?thesis using sched_class_safe [OF assms(3)] by blast
next
  case step_userret
  then show ?thesis using userret_safe [OF assms(3)] by blast
next
  case step_sleep
  then show ?thesis using sleep_safe [OF C assms(3)] by blast
next
  case step_wakeup
  then show ?thesis using wakeup_safe [OF C assms(3)] by blast
next
  case step_fork
  then show ?thesis using fork_safe [OF assms(3)] by blast
next
  case step_exit
  then show ?thesis using exit_safe [OF assms(3)] by blast
next
  case step_fork_exit
  then show ?thesis using fork_exit_safe [OF assms(3)] by blast
next
  case step_clock
  then show ?thesis using clock_safe [OF C _ assms(3)] by blast
next
  case step_preempt
  then show ?thesis using preempt_safe [OF assms(3)] by blast
next
  case step_critical_enter
  then show ?thesis using critical_enter_safe [OF assms(3)] by blast
next
  case step_critical_exit
  then show ?thesis using critical_exit_safe [OF assms(3)] by blast
next
  case step_affinity
  then show ?thesis using affinity_safe [OF C assms(3)] by blast
next
  case step_bind
  then show ?thesis using bind_safe [OF assms(3)] by blast
next
  case step_unbind
  then show ?thesis using unbind_safe [OF assms(3)] by blast
next
  case step_switch
  then show ?thesis using sched_switch_safe(1) [OF C _ assms(3)] by blast
next
  case step_throw
  then show ?thesis using sched_throw_safe(1) [OF assms(3)] by blast
next
  case step_idle
  then show ?thesis using idletd_rest_safe [OF C _ assms(3)] by blast
next
  case env_thread
  then show ?thesis using k_ok_th [OF assms(3)] by blast
qed (use assms(3) in \<open>simp_all add: sched_relinquish_def idletd_switch_def\<close>)

lemma sched_reach_ok: "sched_reach C k \<Longrightarrow> kconf_ok C \<Longrightarrow> k_ok C k"
  by (induction rule: sched_reach.induct) (auto intro: setup_safe sched_step_ok)

subsection \<open>The priority of a thread, followed through the operations\<close>

lemma tdq_add_frame:
  assumes "tdq_add C c td flags k = Inr k'"
  shows "td_priority (k_td k' t) = td_priority (k_td k t)" "td_flags (k_td k' t) = td_flags (k_td k t)"
    "ts_cpu (k_td k' t) = ts_cpu (k_td k t)" "td_lock (k_td k' t) = td_lock (k_td k t)"
proof -
  define k1 where "k1 = (if td_priority (k_td k td) < tdq_lowpri (k_tdq k c) then
      upd_tdq c (\<lambda>q. q\<lparr>tdq_lowpri := td_priority (k_td k td)\<rparr>) k else k)"
  obtain k2 where 2: "tdq_runq_add C c td flags k1 = Inr k2" "k' = tdq_load_add c td k2"
    using assms by (auto simp: tdq_add_def Let_def k1_def [symmetric])
  have k1: "k_td k1 = k_td k" and k': "k_td k' = k_td k2" by (simp_all add: k1_def 2(2) tdq_load_add_ok(1))
  have "td_priority (k_td k2 t) = td_priority (k_td k1 t) \<and> td_flags (k_td k2 t) = td_flags (k_td k1 t) \<and>
      ts_cpu (k_td k2 t) = ts_cpu (k_td k1 t) \<and> td_lock (k_td k2 t) = td_lock (k_td k1 t)"
  proof (cases "t = td")
    case True
    then show ?thesis
      using 2(1) by (auto simp: tdq_runq_add_eq Let_def tdq_ready_def upd_td_def split: if_splits)
  qed (simp add: tdq_runq_add_frame(1) [OF 2(1)])
  then show "td_priority (k_td k' t) = td_priority (k_td k t)" "td_flags (k_td k' t) = td_flags (k_td k t)"
    "ts_cpu (k_td k' t) = ts_cpu (k_td k t)" "td_lock (k_td k' t) = td_lock (k_td k t)"
    by (simp_all add: k' k1)
qed

lemma borrow_needresched [simp]: "has_flag (set_flag w TDF_NEEDRESCHED) TDF_BORROWING = has_flag w TDF_BORROWING"
  by (simp add: has_flag_set_flag tdf_defs)

lemma setpreempt_frame:
  "td_priority (k_td (sched_setpreempt C self td k) t) = td_priority (k_td k t)"
  "has_flag (td_flags (k_td (sched_setpreempt C self td k) t)) TDF_BORROWING = has_flag (td_flags (k_td k t)) TDF_BORROWING"
  by (simp_all add: sched_setpreempt_def Let_def upd_td_def)

lemma sched_add_frame:
  assumes "sched_add C self td flags k = Inr k'"
  shows "td_priority (k_td k' t) = td_priority (k_td k t)"
    "has_flag (td_flags (k_td k' t)) TDF_BORROWING = has_flag (td_flags (k_td k t)) TDF_BORROWING"
proof -
  obtain k1 cpu k2 k3 where
      1: "(if PRI_BASE C (td_pri_class (k_td k td)) = PRI_TIMESHARE C then k_priority C td k else Inr k) = Inr k1"
    and 2: "sched_pickcpu C self td flags k1 = Inr (cpu, k2)" and 3: "tdq_add C cpu td flags (sched_setcpu td cpu k2) = Inr k3"
    and k': "k' = (if cpu \<noteq> self then tdq_notify C cpu td k3 else if SRQ_YIELDING \<notin> flags then sched_setpreempt C self td k3 else k3)"
    using assms by (auto simp: sched_add_def)
  have "td_priority (k_td k1 t) = td_priority (k_td k t) \<and> td_flags (k_td k1 t) = td_flags (k_td k t)"
    using 1 k_priority_upd [of C td k k1] by (auto simp: upd_td_def split: if_splits)
  moreover obtain c r where "k2 = (upd_th td (ts_cpu_update (\<lambda>_. c)) k1)\<lparr>k_randomval := r\<rparr>" using sched_pickcpu_safe [OF 2] by blast
  moreover have "td_priority (k_td (sched_setcpu td cpu k2) t) = td_priority (k_td k2 t) \<and> td_flags (k_td (sched_setcpu td cpu k2) t) = td_flags (k_td k2 t)"
    by (simp add: sched_setcpu_def Let_def upd_td_def)
  ultimately show "td_priority (k_td k' t) = td_priority (k_td k t)"
    "has_flag (td_flags (k_td k' t)) TDF_BORROWING = has_flag (td_flags (k_td k t)) TDF_BORROWING"
    using tdq_add_frame [OF 3] by (auto simp: k' setpreempt_frame tdq_notify_safe upd_td_def)
qed

lemma sched_rem_flags:
  assumes "sched_rem C td k = Inr k'" "k_ok C k"
  shows "td_flags (k_td k' td) = td_flags (k_td k td)"
proof -
  let ?c = "ts_cpu (k_td k td)"
  obtain k1 k2 where 1: "tdq_runq_rem C ?c td k = Inr k1" and 2: "tdq_load_rem ?c td k1 = Inr k2"
    and 3: "k' = upd_th td (td_state_update (\<lambda>_. TDS_CAN_RUN)) k2 \<or>
      tdq_setlowpri C ?c None (upd_th td (td_state_update (\<lambda>_. TDS_CAN_RUN)) k2) = Inr k'"
    using assms(1) by (auto simp: sched_rem_def Let_def split: if_splits)
  note R = tdq_runq_rem_safe [OF assms(2) 1] and L = tdq_load_rem_safe [OF tdq_runq_rem_safe(1) [OF assms(2) 1] 2]
  let ?k3 = "upd_th td (td_state_update (\<lambda>_. TDS_CAN_RUN)) k2"
  have "unqueued k2 td" using R(2) L(3) by (simp add: unqueued_def)
  then have k3: "k_wf C ?k3" using L(1) by (intro k_ok_wf k_ok_th) simp_all
  have "k_td k' = k_td ?k3" using 3 tdq_setlowpri_ok(1) [OF k3] by (auto simp: k_inert_def)
  then show ?thesis using R(5) L(2) by (auto simp: upd_td_def)
qed

lemma thread_priority_sets:
  assumes ok: "k_ok C k" and a: "sched_thread_priority C self td prio k = Inr k'"
  shows "td_priority (k_td k' td) = prio \<and> has_flag (td_flags (k_td k' td)) TDF_BORROWING = has_flag (td_flags (k_td k td)) TDF_BORROWING"
proof (cases "td_priority (k_td k td) \<noteq> prio \<and> TD_ON_RUNQ (k_td k td) \<and> prio < td_priority (k_td k td)")
  case True
  then obtain k1 where 1: "sched_rem C td k = Inr k1"
    and 2: "sched_add C self td {SRQ_BORROWING} (upd_th td (td_priority_update (\<lambda>_. prio)) k1) = Inr k'"
    using a by (auto simp: sched_thread_priority_def)
  have "td_flags (k_td k1 td) = td_flags (k_td k td)"
    using 1 ok by (rule sched_rem_flags)
  then show ?thesis using sched_add_frame [OF 2, of td] by (simp add: upd_td_def)
next
  case False
  let ?k1 = "upd_th td (td_priority_update (\<lambda>_. prio)) k" and ?c = "ts_cpu (k_td k td)"
  show ?thesis
  proof (cases "td_priority (k_td k td) = prio")
    case True
    then show ?thesis using a by (simp add: sched_thread_priority_def)
  next
    case ne: False
    then have q: "\<not> (TD_ON_RUNQ (k_td k td) \<and> prio < td_priority (k_td k td))" using False by simp
    have "k' = ?k1 \<or> k' = upd_tdq ?c (\<lambda>q. q\<lparr>tdq_lowpri := prio\<rparr>) ?k1 \<or> tdq_setlowpri C ?c (Some td) ?k1 = Inr k'"
      using a ne q by (auto simp: sched_thread_priority_def Let_def split: if_splits)
    moreover have "k_td k' = k_td ?k1" if "tdq_setlowpri C ?c (Some td) ?k1 = Inr k'"
    proof -
      have "k_ok C ?k1"
      proof (rule k_ok_th [OF ok])
        show "same_place (k_td k td) (td_priority_update (\<lambda>_. prio) (k_td k td)) \<or> unqueued k td"
          using q k_wf_unqueued [OF k_ok_wf [OF ok], of td] by (auto simp: same_place_def TD_ON_RUNQ_def word_less_def)
      qed
      from tdq_setlowpri_ok(1) [OF k_ok_wf [OF this] that] show ?thesis by (simp add: k_inert_def)
    qed
    ultimately have "k_td k' = k_td ?k1" by auto
    then show ?thesis by (simp add: upd_td_def)
  qed
qed


lemma borrow_set [simp]: "has_flag (set_flag w TDF_BORROWING) TDF_BORROWING"
  by (simp add: has_flag_set_flag tdf_defs)

lemma lend_prio_sets:
  assumes ok: "k_ok C k" and a: "sched_lend_prio C self td prio k = Inr k'"
  shows "td_priority (k_td k' td) = prio \<and> has_flag (td_flags (k_td k' td)) TDF_BORROWING"
proof -
  let ?k1 = "upd_th td (\<lambda>t. t\<lparr>td_flags := set_flag (td_flags t) TDF_BORROWING\<rparr>) k"
  have "k_ok C ?k1" using ok by (rule k_ok_same) (simp add: same_place_def)
  from thread_priority_sets [OF this a [unfolded sched_lend_prio_def]] show ?thesis by (simp add: upd_td_def)
qed

definition unlend_base :: "'a kconf_scheme \<Rightarrow> thread \<Rightarrow> u_char" where
  "unlend_base C th = (if PRI_MIN_TIMESHARE C \<le> uint (td_base_pri th) \<and> uint (td_base_pri th) \<le> PRI_MAX_TIMESHARE C
     then td_user_pri th else td_base_pri th)"

lemma unlend_prio_sets:
  assumes ok: "k_ok C k" and a: "sched_unlend_prio C self td prio k = Inr k'"
  shows "td_priority (k_td k' td) = min prio (unlend_base C (k_td k td)) \<and>
    has_flag (td_flags (k_td k' td)) TDF_BORROWING = (prio < unlend_base C (k_td k td))"
proof (cases "prio < unlend_base C (k_td k td)")
  case True
  then have "sched_lend_prio C self td prio k = Inr k'"
    using a True [folded not_le] by (simp add: sched_unlend_prio_def Let_def unlend_base_def [symmetric])
  from lend_prio_sets [OF ok this] show ?thesis using True by simp
next
  case False
  let ?k1 = "upd_th td (\<lambda>t. t\<lparr>td_flags := clr_flag (td_flags t) TDF_BORROWING\<rparr>) k"
  have "k_ok C ?k1" using ok by (rule k_ok_same) (simp add: same_place_def)
  moreover have "sched_thread_priority C self td (unlend_base C (k_td k td)) ?k1 = Inr k'"
    using a False [unfolded not_less] by (simp add: sched_unlend_prio_def Let_def unlend_base_def [symmetric])
  ultimately show ?thesis using thread_priority_sets [of C ?k1 self td] False by (simp add: upd_td_def)
qed

subsection \<open>Adding a thread, in total\<close>

lemma sched_add_total:
  assumes C: "kconf_ok C" and ok: "k_ok C k" and a: "addable k td" and i: "not_idle k td"
    and pct: "pct_ok C (k_td k td)" and nice: "PRIO_MIN C \<le> td_nice k td" "td_nice k td \<le> PRIO_MAX C"
    and topo: "topo_ok C k" "k_smp_started k" and fl: "SRQ_OURSELF \<notin> flags" and mig: "THREAD_CAN_MIGRATE (k_td k td)"
    and set: "td_cpuset (k_td k td) \<inter> cg_visits C (k_cputop k) \<noteq> {}"
  shows "\<exists>k' cpu. sched_add C self td flags k = Inr k' \<and> k_ok C k' \<and> THREAD_CAN_SCHED (k_td k td) cpu \<and>
    td \<in> q_elems k' cpu (queue_of C (k_td k td)) \<and> ts_cpu (k_td k' td) = cpu \<and> td_lock (k_td k' td) = TDQ_LOCKPTR cpu \<and>
    (\<forall>d m. q_elems k' d m - {td} = q_elems k d m) \<and>
    (\<forall>d. tdq_load (k_tdq k' d) = (if d = cpu then tdq_load (k_tdq k d) + 1 else tdq_load (k_tdq k d)))"
proof -
  have "\<exists>k1. (if PRI_BASE C (td_pri_class (k_td k td)) = PRI_TIMESHARE C then k_priority C td k else Inr k) = Inr k1"
    using sched_priority_ok [OF C pct nice, of "k_tun k"]
    by (cases "PRI_BASE C (td_pri_class (k_td k td)) = PRI_TIMESHARE C") (auto simp: k_priority_def)
  then obtain k1 where 1: "(if PRI_BASE C (td_pri_class (k_td k td)) = PRI_TIMESHARE C then k_priority C td k else Inr k) = Inr k1" by blast
  have u1: "k1 = k \<or> (\<exists>p. k1 = upd_th td (\<lambda>t. sched_user_prio t p) k)"
    using 1 k_priority_upd [of C td k k1] by (auto split: if_splits)
  have f1: "td_state (k_td k1 td) = td_state (k_td k td)" "td_flags (k_td k1 td) = td_flags (k_td k td)"
    "td_inhibitors (k_td k1 td) = td_inhibitors (k_td k td)" "td_cpuset (k_td k1 td) = td_cpuset (k_td k td)"
    "td_pinned (k_td k1 td) = td_pinned (k_td k td)" "td_priority (k_td k1 td) = td_priority (k_td k td)"
    "td_proc (k_td k1 td) = td_proc (k_td k td)" "k_tdq k1 = k_tdq k" "k_cputop k1 = k_cputop k" "k_smp_started k1 = k_smp_started k"
    "q_elems k1 = q_elems k" "k_idle k1 = k_idle k"
    using u1 by (auto simp: upd_td_def) (auto simp: upd_th_def)
  have ok1: "k_ok C k1" using 1 ok k_priority_safe(1) by (auto split: if_splits)
  have "topo_ok C k1" using topo(1) loads_small_cong [OF f1(8), of C] by (simp add: topo_ok_def f1)
  moreover have "THREAD_CAN_MIGRATE (k_td k1 td)" using mig by (simp add: THREAD_CAN_MIGRATE_def f1)
  ultimately obtain cpu k2 c where 2: "sched_pickcpu C self td flags k1 = Inr (cpu, k2)" and S: "THREAD_CAN_SCHED (k_td k1 td) cpu"
    and k2: "k2 = (upd_th td (ts_cpu_update (\<lambda>_. c)) k1)\<lparr>k_randomval := k_randomval k2\<rparr>"
    using sched_pickcpu_ok [of C k1 flags td self] topo(2) fl set by (auto simp: f1)
  define k3 where "k3 = sched_setcpu td cpu k2"
  have td2: "k_td k2 = upd_td td (ts_cpu_update (\<lambda>_. c)) (k_td k1)" "k_tdq k2 = k_tdq k1" "q_elems k2 = q_elems k1" "k_idle k2 = k_idle k1"
    by (subst k2, simp)+
  have "k_ok C (upd_th td (ts_cpu_update (\<lambda>_. c)) k1)" using ok1 by (rule k_ok_same) (simp add: same_place_def)
  then have ok2: "k_ok C k2" by (subst k2) simp
  then have ok3: "k_ok C k3" by (simp add: k3_def sched_setcpu_safe)
  have td3: "td_state (k_td k3 td) = td_state (k_td k td)" "td_flags (k_td k3 td) = td_flags (k_td k td)"
    "td_inhibitors (k_td k3 td) = td_inhibitors (k_td k td)" "td_priority (k_td k3 td) = td_priority (k_td k td)"
    "td_proc (k_td k3 td) = td_proc (k_td k td)" "ts_cpu (k_td k3 td) = cpu" "td_lock (k_td k3 td) = TDQ_LOCKPTR cpu"
    "k_tdq k3 = k_tdq k" "q_elems k3 = q_elems k" "k_idle k3 = k_idle k"
    by (simp_all add: k3_def sched_setcpu_def Let_def td2 upd_td_def f1)
  have "addable k3 td" using a by (simp add: addable_def td3 unqueued_def)
  moreover have q: "queue_of C (k_td k3 td) = queue_of C (k_td k td)" by (simp add: queue_of_def td3)
  ultimately obtain k4 where 4: "tdq_add C cpu td flags k3 = Inr k4" "k_wf C k4"
      "\<forall>d m. q_elems k4 d m = (if d = cpu \<and> m = queue_of C (k_td k td) then insert td (q_elems k d m) else q_elems k d m)"
      "\<forall>d. tdq_load (k_tdq k4 d) = (if d = cpu then tdq_load (k_tdq k cpu) + 1 else tdq_load (k_tdq k d))"
    using tdq_add_ok [OF C k_ok_wf [OF ok3], of td cpu flags] by (auto simp: td3)
  note F = tdq_add_frame [OF 4(1)]
  have ok4: "k_ok C k4" using tdq_add_safe(1) [OF C ok3 _ 4(1)] i by (simp add: not_idle_def td3)
  define k' where "k' = (if cpu \<noteq> self then tdq_notify C cpu td k4 else if SRQ_YIELDING \<notin> flags then sched_setpreempt C self td k4 else k4)"
  have "sched_add C self td flags k = Inr k'"
    by (simp add: sched_add_def 1 2 4(1) k3_def [symmetric] k'_def)
  moreover have "k_ok C k'" "q_elems k' = q_elems k4" "tdq_load (k_tdq k' d) = tdq_load (k_tdq k4 d)"
    "ts_cpu (k_td k' td) = ts_cpu (k_td k4 td)" "td_lock (k_td k' td) = td_lock (k_td k4 td)" for d
    using ok4 by (simp_all add: k'_def tdq_notify_safe setpreempt_safe)
  moreover have "td \<notin> q_elems k d m" for d m using a by (simp add: addable_def unqueued_def)
  moreover have "THREAD_CAN_SCHED (k_td k td) cpu" using S by (simp add: THREAD_CAN_SCHED_def f1)
  ultimately show ?thesis using 4(3,4) F td3 by auto
qed

subsection \<open>The clock and the circular queue\<close>

text \<open>When the removal index is not 0 and only list 0 of the lottery queue is used, every tick moves it.\<close>

lemma clock_index_skips:
  assumes "tdq_idx q = tdq_ridx q" "rq_queues (tdq_lottery q) ! unat (tdq_ridx q) = []"
  shows "tdq_ridx (clock_index q) = of_nat ((unat (tdq_ridx q) + 1) mod 64) \<and> tdq_idx (clock_index q) = tdq_ridx (clock_index q)"
  using assms
  by (cases "rq_queues (tdq_timeshare q) ! unat (tdq_ridx q) = []") (auto simp: clock_index_def Let_def)

end
