(* ===== verification/SchedOpsProps.thy ===== *)
theory SchedOpsProps
  imports SchedInv Samples
begin

text \<open>
  The properties of the scheduler's entry points: the invariant over all interleavings of the
  CPUs, the end of the balancer's and the stealers' loops, the choice of a CPU, priority
  lending, critical sections, binding and the clock.
\<close>

lemma k0_ok: "k_ok fbsd k0"
  using k0_wf by (simp add: k_ok_def)

definition g_top :: cpu_group where "g_top = CpuGroup {0, 1} 2 {} []"

text \<open>The sample kernel with a topology of one group of two CPUs.\<close>

definition k_topo :: kern where
  "k_topo = k0\<lparr>k_cputop := g_top, k_tdq := (\<lambda>c. tdq0\<lparr>tdq_cg := [g_top]\<rparr>)\<rparr>"

lemma k_topo_simps [simp]:
  "k_td k_topo = (\<lambda>_. th0)" "k_tdq k_topo c = tdq0\<lparr>tdq_cg := [g_top]\<rparr>" "k_cputop k_topo = g_top" "k_idle k_topo c = 100 + c"
  "k_cur k_topo c = 100 + c" "k_smp_started k_topo" "k_tun k_topo = tun0" "k_proc k_topo = k_proc k0"
  by (simp_all add: k_topo_def) (simp_all add: k0_def)

lemma k_topo_elems [simp]: "q_elems k_topo c n = {}" "unqueued k_topo t"
proof -
  have q: "tdq_rq n (tdq0\<lparr>tdq_cg := [g_top]\<rparr>) = runq_init fbsd" for n by (cases n) simp_all
  show "q_elems k_topo c n = {}" for c n by (simp add: q_elems_def q runq_init_wf [OF fbsd_rqb_ok])
  then show "unqueued k_topo t" by (simp add: unqueued_def)
qed


lemma g_top_visits: "cg_visits fbsd g_top = {0, 1}" "cg_size fbsd g_top = 2"
  by (auto simp: g_top_def own_cpus_def)

lemma k_topo_topo: "topo_ok fbsd k_topo"
  unfolding topo_ok_def loads_small_def by (auto simp: g_top_visits small_def INT_MAX_def intro!: exI [of _ 0])

text \<open>
  C2: After sched_setup, whatever the CPUs do in whatever order - adding and removing threads,
  changing, lending and returning priorities, sleeping and waking, forking and exiting, clock
  ticks with the balancer, preemption, binding, stealing by idle CPUs, context switches - and
  whatever the rest of the kernel does in between, also while a balancer or stealer looks for a CPU
  without locks, every run queue of every CPU is well-formed
  and agrees with its threads, a thread is on one queue at most, and no idle thread is queued.
\<close>

theorem scheduler_invariant:
  assumes "kconf_ok C" "sched_reach C k"
  shows "k_wf C k \<and> (\<forall>c n d m. \<forall>t \<in> q_elems k c n. t \<noteq> k_idle k d \<and> (t \<in> q_elems k d m \<longrightarrow> d = c \<and> m = n))"
proof -
  have ok: "k_ok C k" using sched_reach_ok [OF assms(2,1)] .
  have "t \<noteq> k_idle k d" if "t \<in> q_elems k c n" for t c n d
    using ok that by (auto simp: k_ok_def unqueued_def)
  then show ?thesis using k_ok_wf [OF ok] k_wf_unique [OF k_ok_wf [OF ok]] by blast
qed

theorem scheduler_invariant_witness:
  "\<exists>k1 k2. sched_setup (quiet_cpus 0) fbsd g_top (\<lambda>g c. [g]) 0 5 (k0\<lparr>k_smp_started := False\<rparr>) = Inr k1 \<and>
     sched_add fbsd 0 7 {} k1 = Inr k2 \<and> 7 \<in> q_elems k2 0 RQ_timeshare \<and> k_wf fbsd k2"
proof -
  let ?k = "k0\<lparr>k_smp_started := False\<rparr>"
  have st: "k_static fbsd ?k" by (simp add: k_static_def)
  obtain k1 where 1: "sched_setup (quiet_cpus 0) fbsd g_top (\<lambda>g c. [g]) 0 5 ?k = Inr k1" and td: "k_td k1 7 = th0" and sm: "\<not> k_smp_started k1"
      and i: "k_idle k1 = k_idle k0" and pr: "td_nice k1 7 = 0"
    by (simp add: sched_setup_def sched_setup_smp_def sched_balance_def Let_def tdq_setup_def upd_td_def upt_conv_Cons td_nice_def
        tdq_load_add_def upd_tdq_def upd_th_def)
  have r1: "sched_reach fbsd k1" using sched_reach.boot [OF quiet_cpus_ok st 1] .
  have ok1: "k_ok fbsd k1" using setup_safe [OF fbsd_ok quiet_cpus_ok st 1] .
  have ni: "not_idle k1 7" by (simp add: not_idle_def i)
  have "pct_ok fbsd th0" by (simp add: pct_ok_def sched_consts)
  then obtain k2 where 2: "k_priority fbsd 7 k1 = Inr k2"
    using sched_priority_ok [OF fbsd_ok, of th0 0 "k_tun k1"] pr by (auto simp: k_priority_def td)
  have td2: "td_state (k_td k2 7) = TDS_CAN_RUN" "td_flags (k_td k2 7) = TDF_INMEM" "td_inhibitors (k_td k2 7) = 0" "td_priority (k_td k2 7) = 180"
     "td_proc (k_td k2 7) = 0" "td_lock (k_td k2 7) = TDQ_LOCKPTR 0" "\<not> k_smp_started k2" "k_idle k2 = k_idle k0"
    using k_priority_upd [OF 2] td sm i by (auto simp: upd_td_def sched_user_prio_def Let_def) (auto simp: upd_th_def)
  let ?k3 = "sched_setcpu 7 0 k2"
  have td3: "td_state (k_td ?k3 7) = TDS_CAN_RUN" "td_flags (k_td ?k3 7) = TDF_INMEM" "td_inhibitors (k_td ?k3 7) = 0" "td_priority (k_td ?k3 7) = 180"
     "td_proc (k_td ?k3 7) = 0"
    using td2 by (simp_all add: sched_setcpu_def Let_def upd_td_def)
  have ok3: "k_ok fbsd ?k3" using k_priority_safe(1) [OF 2 ok1] by (simp add: sched_setcpu_safe)
  have "addable ?k3 7" using k_wf_unqueued [OF k_ok_wf [OF ok3], of 7] by (simp add: addable_def td3)
  moreover have q: "queue_of fbsd (k_td ?k3 7) = RQ_timeshare"
    by (simp add: queue_of_def td3 PRI_MIN_BATCH_def PRI_MAX_BATCH_def PRI_INTERACT_RANGE_def PRI_TIMESHARE_RANGE_def SCHED_PRI_NRESV_def c_div_def)
  ultimately obtain k4 where 4: "tdq_add fbsd 0 7 {} ?k3 = Inr k4" "7 \<in> q_elems k4 0 RQ_timeshare"
    using tdq_add_ok [OF fbsd_ok k_ok_wf [OF ok3], of 7 0 "{}"] by auto
  have pc: "sched_pickcpu fbsd 0 7 {} k2 = Inr (0, k2)" using td2(7) by (simp add: sched_pickcpu_def)
  have 5: "sched_add fbsd 0 7 {} k1 = Inr (sched_setpreempt fbsd 0 7 k4)"
    by (simp add: sched_add_def td 2 pc 4(1))
  have "sched_reach fbsd (sched_setpreempt fbsd 0 7 k4)"
    using sched_reach.step [OF r1 sched_step.step_add [OF ni 5]] .
  then have "k_wf fbsd (sched_setpreempt fbsd 0 7 k4)" using scheduler_invariant [OF fbsd_ok] by blast
  then show ?thesis using 1 5 4(2) by (simp add: setpreempt_safe)
qed

text \<open>
  C25: The loops that could run forever end although they take no queue's lock while they search.
  sched_balance returns (or panics) before the rounds of its model run out whatever the other CPUs do
  meanwhile: each of its rounds takes a CPU out of a mask. tdq_idled and tdq_trysteal start a
  search again when the other CPUs took away what it found, so they return when other CPUs
  interfere in few of the rounds: with \<open>L\<close> levels above this CPU, \<open>d\<close> disturbed rounds and as
  many undisturbed ones as the bound asks for, because an undisturbed round ends the search, climbs
  a level, drops a CPU from the mask or brings the remembered switch count up to date. The others
  do not move this CPU in the topology.
\<close>

theorem balance_loops_end:
  assumes "keeps_topology self W" "L = length (tdq_cg (k_tdq k self))"
    "L + CPU_SETSIZE + (2 * L + 2) * disturbances W (rv_rounds W) < rv_rounds W"
  shows "sched_balance V C self k \<noteq> Inl (Diverges s) \<and> tdq_idled W C self k \<noteq> Inl (Diverges s) \<and>
    tdq_trysteal W C self k \<noteq> Inl (Diverges s)"
proof -
  have "disturbances W (rv_rounds W) \<le> (2 * L + 2) * disturbances W (rv_rounds W)" by simp
  then have "length (tdq_cg (k_tdq k self)) + disturbances W (rv_rounds W) < rv_rounds W" using assms(2,3) by linarith
  then show ?thesis
    using sched_balance_returns [of V C self k] tdq_idled_returns [OF assms] tdq_trysteal_returns [of k self W C]
    unfolding returns_def by blast
qed

text \<open>At the first search of 300 rounds another CPU takes what can be transferred off CPU 0.\<close>

definition one_theft :: rivals where
  "one_theft = (quiet_cpus 300)\<lparr>rv_search := (\<lambda>n. if n = 299 then upd_tdq 0 (\<lambda>q. q\<lparr>tdq_transferable := 0\<rparr>) else id)\<rparr>"

lemma one_theft_disturbs: "n < 299 \<Longrightarrow> disturbances one_theft n = 0"
  by (induction n) (simp_all add: one_theft_def quiet_cpus_def disturbed_def)

theorem balance_loops_end_witness:
  "tdq_idled one_theft fbsd 1 (upd_tdq 0 (\<lambda>q. q\<lparr>tdq_load := 2, tdq_transferable := 1\<rparr>) k_topo) \<noteq> Inl (Diverges ''tdq_idled'')"
proof -
  let ?k = "upd_tdq 0 (\<lambda>q. q\<lparr>tdq_load := 2, tdq_transferable := 1\<rparr>) k_topo"
  have "keeps_topology 1 one_theft" by (simp add: keeps_topology_def one_theft_def quiet_cpus_def)
  moreover have "disturbances one_theft 300 \<le> 2"
  proof -
    have "disturbances one_theft (Suc (Suc 298)) \<le> 2 + disturbances one_theft 298" by (simp only: disturbances.simps) simp
    then show ?thesis using one_theft_disturbs [of 298] by simp
  qed
  moreover have "length (tdq_cg (k_tdq ?k 1)) = 1" "rv_rounds one_theft = 300" by (simp_all add: one_theft_def quiet_cpus_def)
  ultimately show ?thesis using balance_loops_end [of 1 one_theft 1 ?k one_theft fbsd] by (simp add: CPU_SETSIZE_def)
qed

text \<open>
  C24: The searches of the topology tree are exact for the CPUs that the tree reaches:
  sched_lowest and sched_highest return -1 just when no CPU qualifies, and otherwise a CPU of
  the mask with the required priority, load and transferable threads. The loads must be small
  against INT_MAX, the start value of the comparison.
\<close>

theorem cpu_search_exact:
  assumes "loads_small C k g" "sched_lowest C self g msk pri maxload prefer k = (lo, k1)" "sched_highest C self g msk2 minload k = (hi, k2)"
  shows "(if lo = -1 then \<forall>c \<in> cg_visits C g. \<not> ok_low (k_tdq k) msk pri maxload c
      else \<exists>c \<in> cg_visits C g. lo = int c \<and> ok_low (k_tdq k) msk pri maxload c) \<and>
    (if hi = -1 then \<forall>c \<in> cg_visits C g. \<not> ok_high (k_tdq k) msk2 minload c
      else \<exists>c \<in> cg_visits C g. hi = int c \<and> ok_high (k_tdq k) msk2 minload c)"
  using sched_lowest_spec(1) [OF assms(1,2)] sched_highest_spec(1) [OF assms(1,3)] by blast

theorem cpu_search_exact_witness:
  "\<exists>c \<in> {0, 1}. fst (sched_lowest fbsd 0 g_top {0, 1} 50 3 (-1) k_topo) = int c"
proof -
  have l: "loads_small fbsd k_topo g_top" using k_topo_topo by (simp add: topo_ok_def)
  have "ok_low (k_tdq k_topo) {0, 1} 50 3 0" by (simp add: ok_low_def)
  moreover obtain lo k1 where 1: "sched_lowest fbsd 0 g_top {0, 1} 50 3 (-1) k_topo = (lo, k1)" by fastforce
  moreover obtain hi k2 where 2: "sched_highest fbsd 0 g_top {} 2 k_topo = (hi, k2)" by fastforce
  ultimately show ?thesis using cpu_search_exact [OF l 1 2] by (auto simp: g_top_visits split: if_splits)
qed



text \<open>
  Returning a lent priority leaves the thread with the better of the priority still lent
  and its own, which is its user priority when the base priority is a timeshare one; and it
  counts as borrowing just when the lent one is better.
\<close>

theorem unlend_restores:
  assumes "k_ok C k" "sched_unlend_prio C self td prio k = Inr k'"
  shows "td_priority (k_td k' td) = min prio (unlend_base C (k_td k td)) \<and>
    has_flag (td_flags (k_td k' td)) TDF_BORROWING = (prio < unlend_base C (k_td k td))"
  using assms by (rule unlend_prio_sets)

theorem unlend_restores_witness:
  "\<exists>k'. sched_unlend_prio fbsd 0 7 255 k0 = Inr k' \<and> td_priority (k_td k' 7) = 180 \<and> \<not> has_flag (td_flags (k_td k' 7)) TDF_BORROWING"
proof -
  have b: "unlend_base fbsd (k_td k0 7) = 180" by (simp add: unlend_base_def)
  obtain k' where 1: "sched_unlend_prio fbsd 0 7 255 k0 = Inr k'"
    by (simp add: sched_unlend_prio_def Let_def sched_thread_priority_def upd_td_def)
  show ?thesis using unlend_restores [OF k0_ok 1] 1 unfolding b by (auto simp: min_def)
qed

text \<open>
  Critical sections nest: leaving the section just entered restores the nesting count, and
  a preemption that became pending meanwhile is taken exactly when the outermost section is
  left and the debugger is not active.
\<close>

theorem critical_sections_nest:
  assumes "td_critnest (k_td k (k_cur k self)) \<noteq> -1"
  shows "\<exists>k'. critical_exit self (critical_enter self k) = Inr k' \<and>
    td_critnest (k_td k' (k_cur k self)) = td_critnest (k_td k (k_cur k self)) \<and>
    (k_calls k' = k_calls k \<longleftrightarrow> \<not> (td_critnest (k_td k (k_cur k self)) = 0 \<and> td_owepreempt (k_td k (k_cur k self)) \<and> \<not> k_kdb_active k))"
proof -
  have "td_critnest (k_td k (k_cur k self)) + 1 \<noteq> 0"
    using assms by (metis add_eq_0_iff minus_equation_iff)
  then show ?thesis
    by (auto simp: critical_enter_def critical_exit_def Let_def upd_td_def ext_call_def) (auto simp: upd_th_def)
qed

theorem critical_sections_nest_witness:
  "\<exists>k'. critical_exit 0 (critical_enter 0 k0) = Inr k' \<and> td_critnest (k_td k' 100) = 1"
  using critical_sections_nest [of k0 0] by auto

text \<open>
  Binding curthread to its own CPU and unbinding it restores the thread completely when it
  was not bound: the pin count and the scheduler's flags are as before.
\<close>

theorem bind_unbind_roundtrip:
  assumes "td = k_cur k self" "THREAD_CAN_MIGRATE (k_td k td)" "\<not> has_flag (ts_flags (k_td k td)) TSF_BOUND"
  shows "\<exists>k1 k2. sched_bind self td self k = Inr k1 \<and> sched_is_bound td k1 \<and> \<not> THREAD_CAN_MIGRATE (k_td k1 td) \<and>
    sched_unbind self td k1 = Inr k2 \<and> k_td k2 td = k_td k td"
proof -
  have f: "has_flag (set_flag w TSF_BOUND) TSF_BOUND" for w by (simp add: has_flag_set_flag TSF_BOUND_def)
  have c: "clr_flag (set_flag w TSF_BOUND) TSF_BOUND = w" if "\<not> has_flag w TSF_BOUND" for w
  proof -
    have "clr_flag (set_flag w TSF_BOUND) TSF_BOUND = clr_flag w TSF_BOUND"
      by (rule bit_eqI) (auto simp: clr_flag_def set_flag_def bit_simps)
    then show ?thesis using clr_flag_id [OF that] by simp
  qed
  show ?thesis
    using assms c [OF assms(3)] f
    by (auto simp: sched_bind_def sched_unbind_def Let_def upd_td_def sched_is_bound_def THREAD_CAN_MIGRATE_def)
qed

theorem bind_unbind_roundtrip_witness:
  "\<exists>k1 k2. sched_bind 0 100 0 k0 = Inr k1 \<and> sched_is_bound 100 k1 \<and> sched_unbind 0 100 k1 = Inr k2 \<and> k_td k2 100 = th0"
  using bind_unbind_roundtrip [of 100 k0 0] by (auto simp: THREAD_CAN_MIGRATE_def has_flag_def)

text \<open>
  C26: The context switch never runs a queued thread: when sched_switch returns, and what the other
  CPUs do while it looks for work to steal keeps the invariant, the invariant holds and the thread to run next is in state TDS_RUNNING and on no run queue of any CPU.
\<close>

theorem sched_switch_runs_unqueued:
  assumes "kconf_ok C" "rivals_ok C W" "k_ok C k" "unqueued k td" "td_inmem (k_td k) td" "TD_IS_IDLETHREAD (k_td k td) \<or> not_idle k td"
    "sched_switch n W C self td newtd flags k = Inr (t, k')"
  shows "k_ok C k' \<and> unqueued k' t \<and> td_state (k_td k' t) = TDS_RUNNING"
  using sched_switch_safe [OF assms] by blast

theorem sched_switch_runs_unqueued_witness:
  "\<exists>k'. sched_switch 1 (quiet_cpus 0) fbsd 0 5 None {SW_VOL} (upd_tdq 0 (\<lambda>q. q\<lparr>tdq_load := 1\<rparr>) (k0\<lparr>k_smp_started := False\<rparr>)) = Inr (100, k') \<and>
     td_state (k_td k' 100) = TDS_RUNNING"
proof -
  let ?k = "upd_tdq 0 (\<lambda>q. q\<lparr>tdq_load := 1\<rparr>) (k0\<lparr>k_smp_started := False\<rparr>)"
  have ok: "k_ok fbsd ?k" by (rule k_ok_frame [OF k0_ok]) simp_all
  have u: "unqueued ?k 5" "td_inmem (k_td ?k) 5" "not_idle ?k 5"
    by (simp_all add: unqueued_def q_elems_def runq_init_wf [OF fbsd_rqb_ok] not_idle_def)
  obtain k1 where 1: "switch_account fbsd 0 5 ?k = Inr k1"
      "k1 = upd_tdq 0 (\<lambda>q. q\<lparr>tdq_switchcnt := tdq_switchcnt q + 1\<rparr>) (upd_th 5 (\<lambda>_. k_td k1 5) ?k)"
      "td_flags (k_td k1 5) = TDF_INMEM" "td_state (k_td k1 5) = TDS_CAN_RUN"
    by (simp add: switch_account_def k_pctcpu_update_def sched_pctcpu_update_def sched_consts Let_def upd_td_def TD_IS_IDLETHREAD_def
        clr_flag_def tdf_defs TDF_SLICEEND_def has_flag_def upd_tdq_def upd_th_def)
  have k1: "tdq_load (k_tdq k1 0) = 1" "k_idle k1 = k_idle k0" "\<not> k_panicstr k1" "\<not> k_smp_started k1" "k_ticks k1 = 0" "k_td k1 100 = th0"
    by (subst 1(2), simp add: upd_td_def upd_tdq_def upd_th_def k0_def)+
  have q1: "tdq_rq n (k_tdq k1 c) = runq_init fbsd" for n c
    by (subst 1(2), cases n, simp_all)
  define kb where "kb = upd_tdq 0 (\<lambda>q. q\<lparr>tdq_sysload := tdq_sysload q - 1\<rparr>) (upd_tdq 0 (\<lambda>q. q\<lparr>tdq_load := tdq_load q - 1\<rparr>)
      (upd_th 5 (td_lock_update (\<lambda>_. BlockedLock)) k1))"
  have b: "tdq_rq n (k_tdq kb c) = runq_init fbsd" "k_idle kb = k_idle k0" "\<not> k_panicstr kb" "k_ticks kb = 0" "k_td kb 100 = th0" "\<not> k_smp_started kb"
    for n c using k1 q1 by (simp_all add: kb_def upd_td_def) (simp_all add: upd_tdq_def upd_th_def)
  have 2: "switch_place (quiet_cpus 0) fbsd 0 5 False k1 = Inr (td_lock (k_td k1 5), kb)"
    using b(6) k1(1) 1(3,4) unfolding kb_def
    by (simp add: switch_place_def Let_def TD_IS_IDLETHREAD_def TD_IS_RUNNING_def tdq_load_rem_def tdq_trysteal_def upd_td_def)
  have "k_ok fbsd k1" using switch_account_safe(1) [OF ok 1(1)] .
  then have wb: "k_wf fbsd kb" using switch_place_safe [OF fbsd_ok quiet_cpus_ok _ _ _ _ 2] u switch_account_safe(2-) [OF ok 1(1)] k_ok_wf
    by (auto simp: unqueued_def not_idle_def)
  have eb: "q_elems kb c n = {}" for c n by (simp add: q_elems_def b runq_init_wf [OF fbsd_rqb_ok])
  have "no_draw kb 0" using b(1) [of RQ_lottery 0] by (simp add: no_draw_def runq_init_def)
  then have "tdq_choose fbsd 0 kb = Inr (None, kb)"
    using tdq_choose_idle [OF wb, of 0] choose_linear [OF wb, of RQ_idle 0] eb by simp
  then have 3: "choosethread 1 fbsd 0 kb = Inr (100, TD_SET_RUNNING 100 (upd_tdq 0 (\<lambda>q. q\<lparr>tdq_lowpri := 255\<rparr>) kb))"
    using b(2,3) by (simp add: choosethread_def sched_choose_def) (simp add: upd_tdq_def)
  obtain k' where "sched_switch 1 (quiet_cpus 0) fbsd 0 5 None {SW_VOL} ?k = Inr (100, k')"
    using 1(1) 2 3 b(4,5)
    by (simp add: sched_switch_def k_pctcpu_update_def TD_SET_RUNNING_def sched_pctcpu_update_def sched_consts upd_td_def Let_def)
  from this sched_switch_runs_unqueued [OF fbsd_ok quiet_cpus_ok ok u(1,2) disjI2 [OF u(3)] this] show ?thesis by blast
qed

text \<open>
  The tick can skip waiting threads: with equal indices and list ridx of the lottery queue
  empty, which for ridx other than 0 it always is, the removal index moves on although threads
  may wait on list ridx of the timeshare queue; these then wait for the index to come round.
\<close>

theorem clock_skips_timeshare:
  assumes "tdq_idx q = tdq_ridx q" "rq_queues (tdq_lottery q) ! unat (tdq_ridx q) = []"
  shows "tdq_ridx (clock_index q) = of_nat ((unat (tdq_ridx q) + 1) mod 64) \<and> tdq_idx (clock_index q) = tdq_ridx (clock_index q) \<and>
    tdq_timeshare (clock_index q) = tdq_timeshare q"
  using clock_index_skips [OF assms] by simp

theorem clock_skips_timeshare_witness:
  "tdq_ridx (clock_index (tdq0\<lparr>tdq_idx := 3, tdq_ridx := 3, tdq_timeshare := (runq_init fbsd)\<lparr>rq_queues := (replicate 64 [])[3 := [7]]\<rparr>\<rparr>)) = 4"
proof -
  let ?q = "tdq0\<lparr>tdq_idx := 3, tdq_ridx := 3, tdq_timeshare := (runq_init fbsd)\<lparr>rq_queues := (replicate 64 [])[3 := [7]]\<rparr>\<rparr>"
  have "rq_queues (tdq_lottery ?q) ! unat (tdq_ridx ?q) = []" by (simp add: runq_init_def)
  from clock_skips_timeshare [OF _ this] show ?thesis by simp
qed

end
