(* ===== verification/FileSys.thy ===== *)
theory FileSys
  imports Prelude
begin

text \<open>
  The FUSE file system of asgn4/hello.c. The backing file FILE_FS holds \<open>NUM_BLOCKS\<close> blocks;
  block 0 starts with the magic number and the allocation bitmap, and every other block
  holds a \<open>struct metadata\<close> and then \<open>USABLE_SPACE\<close> bytes of data, so that a file is a chain of
  blocks linked by the field \<open>next\<close>. The state is the backing file at that granularity (every
  lseek of the code goes to the magic number, to the bitmap, to the metadata of a block or
  to its data) and the static in-memory copy of the bitmap.

  One definition per FUSE operation. An operation takes what it reads from outside as
  arguments: the clock readings, in the order of its clock_gettime calls, and the initial
  contents of its uninitialised locals (\<open>md0\<close>, \<open>buf0\<close>). write() fails on a descriptor opened
  O_RDONLY, and the code ignores its result. A metadata read at a block number that is not
  one of the file's blocks and an access outside the 128 KB stack buffer are faults.
\<close>

subsection \<open>Constants and data\<close>

definition MAGIC_NUMBER :: u_int where "MAGIC_NUMBER = 0xfa19283e"
definition BLOCK_SIZE :: nat where "BLOCK_SIZE = 4096"
definition NUM_BLOCKS :: nat where "NUM_BLOCKS = 400"
definition MAX_BLOCKS :: nat where "MAX_BLOCKS = (BLOCK_SIZE - 4) div 4"
definition MAX_FILENAME_LENGTH :: nat where "MAX_FILENAME_LENGTH = 20"
definition MAX_REQUEST_SIZE :: nat where "MAX_REQUEST_SIZE = 128 * 1024"

text \<open>sizeof(struct metadata) on amd64: the name, an int, three timespecs of two 64-bit
  fields, an int and four bytes of padding.\<close>

definition METADATA_SIZE :: nat where "METADATA_SIZE = 20 + 4 + 3 * 16 + 4 + 4"
definition MIN_BLOCK_SIZE :: nat where "MIN_BLOCK_SIZE = METADATA_SIZE + 1"
definition USABLE_SPACE :: nat where "USABLE_SPACE = BLOCK_SIZE - METADATA_SIZE"

record timespec =
  tv_sec :: int
  tv_nsec :: int

record metadata =
  filename :: string
  file_size :: int
  create_time :: timespec
  access_time :: timespec
  modify_time :: timespec
  md_next :: nat

type_synonym byte = "8 word"

record block =
  blk_md :: metadata
  blk_data :: "byte list"

record fs =
  bitmap :: "nat \<Rightarrow> int"
  disk_magic :: u_int
  disk_bitmap :: "nat \<Rightarrow> int"
  blocks :: "nat \<Rightarrow> block"

datatype errno = ENOENT | EEXIST | ENOMEM | ENAMETOOLONG | ENOBUFS

datatype open_mode = O_RDONLY | O_RDWR

definition zero_time :: timespec where "zero_time = \<lparr>tv_sec = 0, tv_nsec = 0\<rparr>"

definition zero_md :: metadata where
  "zero_md = \<lparr>filename = [], file_size = 0, create_time = zero_time,
     access_time = zero_time, modify_time = zero_time, md_next = 0\<rparr>"

subsection \<open>Access to the backing file\<close>

definition write_at :: "'a list \<Rightarrow> nat \<Rightarrow> 'a list \<Rightarrow> 'a list" where
  "write_at xs off ys = take off xs @ ys @ drop (off + length ys) xs"

definition read_md :: "fs \<Rightarrow> nat \<Rightarrow> fault + metadata" where
  "read_md s i =
     (if 0 < i \<and> i < NUM_BLOCKS then Inr (blk_md (blocks s i)) else Inl (OutOfBounds ''block''))"

definition write_md :: "open_mode \<Rightarrow> nat \<Rightarrow> metadata \<Rightarrow> fs \<Rightarrow> fs" where
  "write_md mode i m s = (case mode of O_RDONLY \<Rightarrow> s
     | O_RDWR \<Rightarrow> s\<lparr>blocks := (blocks s)(i := (blocks s i)\<lparr>blk_md := m\<rparr>)\<rparr>)"

definition write_data :: "open_mode \<Rightarrow> nat \<Rightarrow> byte list \<Rightarrow> fs \<Rightarrow> fs" where
  "write_data mode i bs s = (case mode of O_RDONLY \<Rightarrow> s
     | O_RDWR \<Rightarrow> s\<lparr>blocks := (blocks s)(i := (blocks s i)\<lparr>blk_data :=
           write_at (blk_data (blocks s i)) 0 bs\<rparr>)\<rparr>)"

definition write_bitmap :: "open_mode \<Rightarrow> fs \<Rightarrow> fs" where
  "write_bitmap mode s = (case mode of O_RDONLY \<Rightarrow> s | O_RDWR \<Rightarrow> s\<lparr>disk_bitmap := bitmap s\<rparr>)"

definition read_bitmap :: "fs \<Rightarrow> fs" where
  "read_bitmap s = s\<lparr>bitmap := disk_bitmap s\<rparr>"

definition bm_set :: "nat \<Rightarrow> int \<Rightarrow> fs \<Rightarrow> fs" where
  "bm_set i v s = s\<lparr>bitmap := (bitmap s)(i := v)\<rparr>"

text \<open>The loop that looks a name up in the metadata of the used blocks; it leaves the last
  metadata it read in \<open>md\<close>, which is the caller's.\<close>

fun scan_blocks :: "fs \<Rightarrow> string \<Rightarrow> nat list \<Rightarrow> metadata \<Rightarrow> nat option \<times> metadata" where
  "scan_blocks s path [] m = (None, m)"
| "scan_blocks s path (i # is) m =
     (if bitmap s i = 1 then
        let m' = blk_md (blocks s i) in
        if path = filename m' then (Some i, m') else scan_blocks s path is m'
      else scan_blocks s path is m)"

definition scan :: "fs \<Rightarrow> string \<Rightarrow> metadata \<Rightarrow> nat option \<times> metadata" where
  "scan s path m = scan_blocks s path [1..<NUM_BLOCKS] m"

text \<open>The loop that looks for the first block whose bitmap entry is 0.\<close>

definition first_free :: "fs \<Rightarrow> nat option" where
  "first_free s = find (\<lambda>i. bitmap s i = 0) [1..<NUM_BLOCKS]"

subsection \<open>Attributes and directory\<close>

record stat =
  st_dir :: bool
  st_perm :: nat
  st_nlink :: nat
  st_size :: int
  st_birthtim :: timespec
  st_atim :: timespec
  st_mtim :: timespec

definition hello_getattr :: "string \<Rightarrow> metadata \<Rightarrow> fs \<Rightarrow> fs \<times> (errno + stat)" where
  "hello_getattr path md0 s =
    (let s = read_bitmap s;
         (found, m) = (if path \<noteq> ''/'' then scan s path md0 else (None, md0)) in
     (s, if path = ''/'' then
           Inr \<lparr>st_dir = True, st_perm = 493, st_nlink = 2, st_size = 0, st_birthtim = zero_time,
                st_atim = zero_time, st_mtim = zero_time\<rparr>
         else if found \<noteq> None then
           Inr \<lparr>st_dir = False, st_perm = 438, st_nlink = 1, st_size = file_size m,
                st_birthtim = create_time m, st_atim = access_time m, st_mtim = modify_time m\<rparr>
         else Inl ENOENT))"

definition hello_readdir :: "string \<Rightarrow> fs \<Rightarrow> fs \<times> (errno + string list)" where
  "hello_readdir path s =
    (if path \<noteq> ''/'' then (s, Inl ENOENT)
     else (s, Inr ([''.'', ''..''] @
            map (\<lambda>i. tl (filename (blk_md (blocks s i))))
              (filter (\<lambda>i. bitmap s i = 1 \<and> filename (blk_md (blocks s i)) \<noteq> [])
                [1..<NUM_BLOCKS]))))"

subsection \<open>Truncation\<close>

function trunc_walk :: "nat \<Rightarrow> nat \<Rightarrow> fs \<Rightarrow> fault + nat" where
  "trunc_walk cur sz s =
     rbind (read_md s cur) (\<lambda>m.
       if sz > USABLE_SPACE then trunc_walk (md_next m) (sz - USABLE_SPACE) s
       else Inr (md_next m))"
  by pat_completeness auto
termination
  by (relation "measure (\<lambda>(cur, sz, s). sz)")
    (auto simp: USABLE_SPACE_def BLOCK_SIZE_def METADATA_SIZE_def)

fun free_chain :: "nat \<Rightarrow> nat \<Rightarrow> fs \<Rightarrow> fault + fs" where
  "free_chain 0 cur s = Inl (Diverges ''hello_truncate'')"
| "free_chain (Suc n) cur s =
     (if cur = 0 then Inr s
      else rbind (read_md s cur) (\<lambda>m. free_chain n (md_next m) (bm_set cur 0 s)))"

function trunc_grow :: "nat \<Rightarrow> nat \<Rightarrow> fs \<Rightarrow> fault + fs \<times> (errno + unit)" where
  "trunc_grow cur sz s =
     rbind (read_md s cur) (\<lambda>m.
       if sz > USABLE_SPACE then
         if md_next m = 0 then
           (case first_free s of
              None \<Rightarrow> Inr (s, Inl ENOMEM)
            | Some i \<Rightarrow> trunc_grow i (sz - USABLE_SPACE)
                (write_md O_RDONLY cur (m\<lparr>md_next := i\<rparr>) (bm_set i 1 s)))
         else trunc_grow (md_next m) (sz - USABLE_SPACE) s
       else Inr (s, Inr ()))"
  by pat_completeness auto
termination
  by (relation "measure (\<lambda>(cur, sz, s). sz)")
    (auto simp: USABLE_SPACE_def BLOCK_SIZE_def METADATA_SIZE_def)

definition hello_truncate ::
    "string \<Rightarrow> nat \<Rightarrow> timespec \<Rightarrow> timespec \<Rightarrow> metadata \<Rightarrow> fs \<Rightarrow> fault + fs \<times> (errno + unit)" where
  "hello_truncate path sz t1 t2 md0 s =
    (case scan s path md0 of
       (None, _) \<Rightarrow> Inr (s, Inl ENOENT)
     | (Some start, m) \<Rightarrow>
         let fsize = file_size m;
             s = write_md O_RDONLY start (m\<lparr>file_size := sint (of_nat sz :: c_int),
                   access_time := t1, modify_time := t2\<rparr>) s in
         if int sz < fsize then
           rbind (trunc_walk start sz s) (\<lambda>nb.
           rbind (free_chain (Suc NUM_BLOCKS) nb s) (\<lambda>s.
           Inr (write_bitmap O_RDONLY s, Inr ())))
         else if int sz > fsize then
           rbind (trunc_grow start sz s) (\<lambda>(s, r).
             case r of Inl e \<Rightarrow> Inr (s, Inl e) | Inr _ \<Rightarrow> Inr (write_bitmap O_RDONLY s, Inr ()))
         else Inr (write_bitmap O_RDONLY s, Inr ()))"

subsection \<open>Opening\<close>

text \<open>The write goes where the read of the metadata left the file offset, to the data of the
  block; \<open>md_bytes\<close> is the representation of a \<open>struct metadata\<close> in memory.\<close>

definition hello_open ::
    "(metadata \<Rightarrow> byte list) \<Rightarrow> string \<Rightarrow> timespec \<Rightarrow> metadata \<Rightarrow> fs \<Rightarrow> fs \<times> (errno + unit)" where
  "hello_open md_bytes path t md0 s =
    (case scan s path md0 of
       (None, _) \<Rightarrow> (s, Inl ENOENT)
     | (Some i, m) \<Rightarrow> (write_data O_RDONLY i (md_bytes (m\<lparr>access_time := t\<rparr>)) s, Inr ()))"

subsection \<open>Reading and writing\<close>

text \<open>The loop of hello_read and hello_write that copies the blocks of a file to the buffer:
  \<open>m\<close> is the metadata of the block \<open>cur\<close>.\<close>

function read_chain :: "fs \<Rightarrow> nat \<Rightarrow> metadata \<Rightarrow> nat \<Rightarrow> byte list \<Rightarrow> fault + byte list" where
  "read_chain s cur m byte_count buffer =
     (if byte_count + USABLE_SPACE > MAX_REQUEST_SIZE then Inl (OutOfBounds ''buffer'')
      else
        let buffer = write_at buffer byte_count (take USABLE_SPACE (blk_data (blocks s cur))) in
        if md_next m \<noteq> 0 then
          rbind (read_md s (md_next m)) (\<lambda>m'.
            read_chain s (md_next m) m' (byte_count + USABLE_SPACE) buffer)
        else Inr buffer)"
  by pat_completeness auto
termination
  by (relation "measure (\<lambda>(s, cur, m, bc, b). MAX_REQUEST_SIZE - bc)")
    (auto simp: USABLE_SPACE_def BLOCK_SIZE_def METADATA_SIZE_def)

definition hello_read ::
    "string \<Rightarrow> nat \<Rightarrow> nat \<Rightarrow> timespec \<Rightarrow> metadata \<Rightarrow> byte list \<Rightarrow> fs
      \<Rightarrow> fault + fs \<times> (errno + byte list)" where
  "hello_read path sz offset t md0 buf0 s =
    (case scan s path md0 of
       (None, _) \<Rightarrow> Inr (s, Inl ENOENT)
     | (Some start, m) \<Rightarrow>
         let fsize = file_size m in
         rbind (read_chain s start m 0 buf0) (\<lambda>buffer.
         rbind (if int offset < fsize then
                  let sz = (if int (offset + sz) > fsize then nat fsize - offset else sz) in
                  if offset + sz > MAX_REQUEST_SIZE then Inl (OutOfBounds ''buffer'')
                  else Inr (take sz (drop offset buffer))
                else Inr []) (\<lambda>out.
         rbind (read_md s start) (\<lambda>m.
         Inr (write_md O_RDWR start (m\<lparr>access_time := t\<rparr>) s, Inr out)))))"

text \<open>One step of the writing loop past a full block: the block that follows, allocated when
  the chain ends here, with the metadata the loop goes on with.\<close>

definition write_next ::
    "nat \<Rightarrow> metadata \<Rightarrow> fs \<Rightarrow> fault + fs \<times> (nat \<times> metadata) option" where
  "write_next cur m s =
    (if md_next m = 0 then
       (case first_free s of
          None \<Rightarrow> Inr (s, None)
        | Some i \<Rightarrow> Inr (write_md O_RDWR cur (m\<lparr>md_next := i\<rparr>) (bm_set i 1 s),
                        Some (i, zero_md)))
     else
       rbind (read_md s cur) (\<lambda>m.
       rbind (read_md s (md_next m)) (\<lambda>m'. Inr (s, Some (md_next m, m')))))"

function write_loop ::
    "nat \<Rightarrow> metadata \<Rightarrow> nat \<Rightarrow> nat \<Rightarrow> byte list \<Rightarrow> fs \<Rightarrow> fault + fs \<times> (errno + unit)" where
  "write_loop cur m new_file_size bytes_written buffer s =
     (if new_file_size > USABLE_SPACE then
        rbind (write_next cur m s) (\<lambda>(s, r). case r of
            None \<Rightarrow> Inr (s, Inl ENOMEM)
          | Some (next_block, m) \<Rightarrow>
              write_loop next_block m (new_file_size - USABLE_SPACE)
                (bytes_written + USABLE_SPACE) buffer
                (write_data O_RDWR cur (take USABLE_SPACE (drop bytes_written buffer)) s))
      else
        Inr (write_data O_RDWR cur (take new_file_size (drop bytes_written buffer)) s, Inr ()))"
  by pat_completeness auto
termination
  by (relation "measure (\<lambda>(cur, m, nfs, bw, b, s). nfs)")
    (auto simp: USABLE_SPACE_def BLOCK_SIZE_def METADATA_SIZE_def)

text \<open>\<open>new_file_size\<close> is an int: the 64-bit sum of offset and size is cut to 32 bits.\<close>

definition hello_write ::
    "string \<Rightarrow> byte list \<Rightarrow> nat \<Rightarrow> timespec \<Rightarrow> timespec \<Rightarrow> metadata \<Rightarrow> byte list \<Rightarrow> fs
      \<Rightarrow> fault + fs \<times> (errno + nat)" where
  "hello_write path buf offset t1 t2 md0 buf0 s =
    (case scan s path md0 of
       (None, _) \<Rightarrow> Inr (s, Inl ENOENT)
     | (Some start, m) \<Rightarrow>
         rbind (read_chain s start m 0 buf0) (\<lambda>buffer.
         let sz = length buf;
             new_file_size = sint (of_nat (offset + sz) :: c_int) in
         if new_file_size > int MAX_REQUEST_SIZE then Inr (s, Inl ENOBUFS)
         else if offset + sz > MAX_REQUEST_SIZE then Inl (OutOfBounds ''buffer'')
         else
           let buffer = write_at buffer offset buf in
           rbind (read_md s start) (\<lambda>m.
           let m = m\<lparr>file_size := new_file_size, access_time := t1, modify_time := t2\<rparr>;
               s = write_md O_RDWR start m s in
           rbind (write_loop start m (nat new_file_size) 0 buffer s) (\<lambda>(s, r).
           case r of Inl e \<Rightarrow> Inr (s, Inl e)
             | Inr _ \<Rightarrow> Inr (write_bitmap O_RDWR s, Inr sz)))))"

subsection \<open>Removing and creating files\<close>

fun unlink_loop :: "nat \<Rightarrow> metadata \<Rightarrow> fs \<Rightarrow> fault + fs" where
  "unlink_loop 0 m s = Inl (Diverges ''hello_unlink'')"
| "unlink_loop (Suc n) m s =
     (if md_next m \<noteq> 0 then
        let s = bm_set (md_next m) 0 s in
        rbind (read_md s (md_next m)) (\<lambda>m. unlink_loop n m s)
      else Inr s)"

definition hello_unlink :: "string \<Rightarrow> metadata \<Rightarrow> fs \<Rightarrow> fault + fs \<times> (errno + unit)" where
  "hello_unlink path md0 s =
    (let s = read_bitmap s in
     case scan s path md0 of
       (None, _) \<Rightarrow> Inr (s, Inl ENOENT)
     | (Some i, m) \<Rightarrow>
         rbind (unlink_loop (Suc NUM_BLOCKS) m (bm_set i 0 s)) (\<lambda>s.
         Inr (write_bitmap O_RDWR s, Inr ())))"

definition strnlen :: "string \<Rightarrow> nat \<Rightarrow> nat" where
  "strnlen str maxlen = min (length str) maxlen"

definition hello_create ::
    "string \<Rightarrow> timespec \<Rightarrow> timespec \<Rightarrow> metadata \<Rightarrow> fs \<Rightarrow> fs \<times> (errno + unit)" where
  "hello_create path t1 t2 md0 s =
    (let s = read_bitmap s in
     case scan s path md0 of
       (Some _, _) \<Rightarrow> (s, Inl EEXIST)
     | (None, m) \<Rightarrow>
         (case first_free s of
            None \<Rightarrow> (s, Inl ENOMEM)
          | Some i \<Rightarrow>
              let s = write_bitmap O_RDWR (bm_set i 1 s) in
              if strnlen path MAX_FILENAME_LENGTH = MAX_FILENAME_LENGTH then
                (s, Inl ENAMETOOLONG)
              else
                (write_md O_RDWR i (m\<lparr>filename := path, file_size := 0, create_time := t1,
                   modify_time := t2, md_next := 0\<rparr>) s, Inr ())))"

subsection \<open>Mounting\<close>

text \<open>What main does to the backing file before it hands over to FUSE; \<open>bitmap\<close> is static and
  so starts as zero. None: main exits on the checks of the constants.\<close>

definition hello_main :: "fs \<Rightarrow> fs option" where
  "hello_main s =
    (if NUM_BLOCKS > MAX_BLOCKS then None
     else if BLOCK_SIZE < MIN_BLOCK_SIZE then None
     else
       let s = s\<lparr>bitmap := (\<lambda>_. 0)\<rparr>;
           s = (if disk_magic s = 0 then
                  write_bitmap O_RDWR (bm_set 0 1 (s\<lparr>disk_magic := MAGIC_NUMBER\<rparr>))
                else s) in
       Some (read_bitmap s))"

text \<open>FILE_FS just created: ftruncate filled it with zero bytes.\<close>

definition blank_block :: block where
  "blank_block = \<lparr>blk_md = zero_md, blk_data = replicate USABLE_SPACE 0\<rparr>"

definition new_disk :: fs where
  "new_disk = \<lparr>bitmap = (\<lambda>_. 0), disk_magic = 0, disk_bitmap = (\<lambda>_. 0),
     blocks = (\<lambda>_. blank_block)\<rparr>"

subsection \<open>The operations FUSE calls\<close>

datatype fs_op =
    Getattr string
  | Readdir string
  | Truncate string nat
  | Open string
  | Read string nat nat
  | Write string "byte list" nat
  | Unlink string
  | Create string

datatype reply =
    Attributes stat | Names "string list" | Bytes "byte list" | Count nat | Done | Failed errno

text \<open>What one call reads from outside: two clock readings, the stack and the layout of a
  \<open>struct metadata\<close>.\<close>

record fs_env =
  env_t1 :: timespec
  env_t2 :: timespec
  env_md :: metadata
  env_buf :: "byte list"
  env_bytes :: "metadata \<Rightarrow> byte list"

definition reply_of :: "('a \<Rightarrow> reply) \<Rightarrow> fs \<times> (errno + 'a) \<Rightarrow> fs \<times> reply" where
  "reply_of f r = (fst r, case snd r of Inl e \<Rightarrow> Failed e | Inr a \<Rightarrow> f a)"

fun hello_oper :: "fs_env \<Rightarrow> fs_op \<Rightarrow> fs \<Rightarrow> fault + fs \<times> reply" where
  "hello_oper e (Getattr p) s = Inr (reply_of Attributes (hello_getattr p (env_md e) s))"
| "hello_oper e (Readdir p) s = Inr (reply_of Names (hello_readdir p s))"
| "hello_oper e (Truncate p n) s =
     rbind (hello_truncate p n (env_t1 e) (env_t2 e) (env_md e) s)
       (\<lambda>r. Inr (reply_of (\<lambda>_. Done) r))"
| "hello_oper e (Open p) s =
     Inr (reply_of (\<lambda>_. Done) (hello_open (env_bytes e) p (env_t1 e) (env_md e) s))"
| "hello_oper e (Read p n off) s =
     rbind (hello_read p n off (env_t1 e) (env_md e) (env_buf e) s)
       (\<lambda>r. Inr (reply_of Bytes r))"
| "hello_oper e (Write p bs off) s =
     rbind (hello_write p bs off (env_t1 e) (env_t2 e) (env_md e) (env_buf e) s)
       (\<lambda>r. Inr (reply_of Count r))"
| "hello_oper e (Unlink p) s =
     rbind (hello_unlink p (env_md e) s) (\<lambda>r. Inr (reply_of (\<lambda>_. Done) r))"
| "hello_oper e (Create p) s =
     Inr (reply_of (\<lambda>_. Done) (hello_create p (env_t1 e) (env_t2 e) (env_md e) s))"

declare trunc_walk.simps [simp del] trunc_grow.simps [simp del]
  read_chain.simps [simp del] write_loop.simps [simp del]
  free_chain.simps [simp del] unlink_loop.simps [simp del]

end
