(* ===== verification/FileSysLaws.thy ===== *)
theory FileSysLaws
  imports FileSys
begin

text \<open>
  The laws of the file system of asgn4/hello.c: the accesses to the backing file, the lookup
  of a name by the scanning loop, and the type invariant \<open>fs_typed\<close>, which every FUSE operation
  keeps whatever its arguments are.
\<close>

named_theorems fs_simps \<open>unfolding rules of the accesses to the backing file\<close>

subsection \<open>Constants\<close>

text \<open>\<open>NUM_BLOCKS\<close> stays folded: the simplifier would spell out the loops over the blocks.\<close>

lemma fs_constants [simp]:
  "0 < NUM_BLOCKS" "USABLE_SPACE = 4016" "MAX_REQUEST_SIZE = 131072"
  "BLOCK_SIZE = 4096" "MAX_BLOCKS = 1023" "MIN_BLOCK_SIZE = 81" "MAX_FILENAME_LENGTH = 20"
  by (simp_all add: NUM_BLOCKS_def USABLE_SPACE_def MAX_REQUEST_SIZE_def BLOCK_SIZE_def
      METADATA_SIZE_def MAX_BLOCKS_def MIN_BLOCK_SIZE_def MAX_FILENAME_LENGTH_def)

subsection \<open>Accesses\<close>

lemma write_at_nil [simp]: "write_at xs off [] = xs"
  by (simp add: write_at_def)

lemma length_write_at [simp]: "off + length ys \<le> length xs \<Longrightarrow> length (write_at xs off ys) = length xs"
  by (simp add: write_at_def)

lemma write_at_nth:
  "off + length ys \<le> length xs \<Longrightarrow> i < length xs \<Longrightarrow>
     write_at xs off ys ! i = (if off \<le> i \<and> i < off + length ys then ys ! (i - off) else xs ! i)"
  by (auto simp: write_at_def nth_append min_def)

lemma take_write_at: "off \<le> length xs \<Longrightarrow> take (off + length ys) (write_at xs off ys) = take off xs @ ys"
  by (simp add: write_at_def)

lemma write_md_simps [simp]:
  "bitmap (write_md o' i m s) = bitmap s"
  "disk_bitmap (write_md o' i m s) = disk_bitmap s"
  "disk_magic (write_md o' i m s) = disk_magic s"
  "write_md O_RDONLY i m s = s"
  "blocks (write_md O_RDWR i m s) = (blocks s)(i := (blocks s i)\<lparr>blk_md := m\<rparr>)"
  by (simp_all add: write_md_def split: open_mode.splits)

lemma write_data_simps [simp]:
  "bitmap (write_data o' i bs s) = bitmap s"
  "disk_bitmap (write_data o' i bs s) = disk_bitmap s"
  "disk_magic (write_data o' i bs s) = disk_magic s"
  "write_data O_RDONLY i bs s = s"
  "blocks (write_data O_RDWR i bs s) =
     (blocks s)(i := (blocks s i)\<lparr>blk_data := write_at (blk_data (blocks s i)) 0 bs\<rparr>)"
  by (simp_all add: write_data_def split: open_mode.splits)

lemma bitmap_simps [simp]:
  "bitmap (write_bitmap o' s) = bitmap s"
  "blocks (write_bitmap o' s) = blocks s"
  "disk_magic (write_bitmap o' s) = disk_magic s"
  "write_bitmap O_RDONLY s = s"
  "disk_bitmap (write_bitmap O_RDWR s) = bitmap s"
  "bitmap (read_bitmap s) = disk_bitmap s"
  "disk_bitmap (read_bitmap s) = disk_bitmap s"
  "blocks (read_bitmap s) = blocks s"
  "disk_magic (read_bitmap s) = disk_magic s"
  "bitmap (bm_set i v s) = (bitmap s)(i := v)"
  "disk_bitmap (bm_set i v s) = disk_bitmap s"
  "blocks (bm_set i v s) = blocks s"
  "disk_magic (bm_set i v s) = disk_magic s"
  by (simp_all add: write_bitmap_def read_bitmap_def bm_set_def split: open_mode.splits)

lemma read_md_Inr [simp]: "read_md s i = Inr m \<longleftrightarrow> 0 < i \<and> i < NUM_BLOCKS \<and> m = blk_md (blocks s i)"
  by (auto simp: read_md_def)

lemma read_md_ok: "0 < i \<Longrightarrow> i < NUM_BLOCKS \<Longrightarrow> read_md s i = Inr (blk_md (blocks s i))"
  by simp

subsection \<open>Looking a name up\<close>

definition used :: "fs \<Rightarrow> nat \<Rightarrow> bool" where
  "used s i \<longleftrightarrow> 0 < i \<and> i < NUM_BLOCKS \<and> bitmap s i = 1"

abbreviation name_of :: "fs \<Rightarrow> nat \<Rightarrow> string" where
  "name_of s i \<equiv> filename (blk_md (blocks s i))"

definition find_file :: "fs \<Rightarrow> string \<Rightarrow> nat option" where
  "find_file s path = find (\<lambda>i. bitmap s i = 1 \<and> name_of s i = path) [1..<NUM_BLOCKS]"

lemma fst_scan_blocks:
  "fst (scan_blocks s path is m) = find (\<lambda>i. bitmap s i = 1 \<and> name_of s i = path) is"
  by (induction s path "is" m rule: scan_blocks.induct) (auto simp: Let_def)

lemma snd_scan_blocks:
  "fst (scan_blocks s path is m) = Some i \<Longrightarrow> snd (scan_blocks s path is m) = blk_md (blocks s i)"
  by (induction s path "is" m rule: scan_blocks.induct) (auto simp: Let_def split: if_splits)

lemma find_file_eq: "find_file s path = fst (scan s path m)"
  by (simp only: fst_scan_blocks find_file_def scan_def)

lemma scan_Some: "find_file s path = Some i \<Longrightarrow> scan s path m = (Some i, blk_md (blocks s i))"
  unfolding find_file_eq [of s path m] scan_def
  by (rule prod_eqI) (simp_all only: snd_scan_blocks fst_conv snd_conv)

lemma scan_None: "find_file s path = None \<Longrightarrow> scan s path m = (None, snd (scan s path m))"
  unfolding find_file_eq [of s path m]
  by (rule prod_eqI) (simp_all only: fst_conv snd_conv)

lemma scan_cases:
  obtains (missing) m' where "find_file s path = None" "scan s path m = (None, m')"
  | (there) i where "find_file s path = Some i" "scan s path m = (Some i, blk_md (blocks s i))"
  using scan_None [of s path m] scan_Some [of s path _ m] by (cases "find_file s path") blast+

lemma find_file_SomeD: "find_file s path = Some i \<Longrightarrow> used s i \<and> name_of s i = path"
  by (auto simp: find_file_def used_def find_Some_iff dest: nth_mem)

lemma find_file_None: "find_file s path = None \<longleftrightarrow> (\<forall>i. used s i \<longrightarrow> name_of s i \<noteq> path)"
  by (auto simp: find_file_def used_def find_None_iff Suc_le_eq)

lemma first_free_SomeD:
  assumes "first_free s = Some i"
  shows "0 < i" "i < NUM_BLOCKS" "bitmap s i = 0" "\<And>j. 0 < j \<Longrightarrow> j < i \<Longrightarrow> bitmap s j \<noteq> 0"
proof -
  obtain k where k: "k < NUM_BLOCKS - 1" "i = 1 + k" "bitmap s i = 0" "\<forall>j<k. bitmap s (1 + j) \<noteq> 0"
    using assms by (auto simp: first_free_def find_Some_iff)
  show "0 < i" "i < NUM_BLOCKS" "bitmap s i = 0" using k by auto
  show "bitmap s j \<noteq> 0" if "0 < j" "j < i" for j
    using k(4) [rule_format, of "j - 1"] k(2) that by simp
qed

lemma first_free_None: "first_free s = None \<longleftrightarrow> (\<forall>i. 0 < i \<longrightarrow> i < NUM_BLOCKS \<longrightarrow> bitmap s i \<noteq> 0)"
  by (auto simp: first_free_def find_None_iff Suc_le_eq)

subsection \<open>Well-formed file systems\<close>

definition md_ok :: "metadata \<Rightarrow> bool" where
  "md_ok m \<longleftrightarrow> length (filename m) < MAX_FILENAME_LENGTH \<and> 0 \<le> file_size m \<and>
     file_size m \<le> int MAX_REQUEST_SIZE \<and> md_next m < NUM_BLOCKS"

definition fs_typed :: "fs \<Rightarrow> bool" where
  "fs_typed s \<longleftrightarrow> (\<forall>i<NUM_BLOCKS. bitmap s i \<in> {0, 1} \<and> disk_bitmap s i \<in> {0, 1} \<and>
     md_ok (blk_md (blocks s i)) \<and> length (blk_data (blocks s i)) = USABLE_SPACE)"

lemma md_ok_update [simp]:
  "md_ok (m\<lparr>access_time := t\<rparr>) = md_ok m"
  "md_ok (m\<lparr>modify_time := t\<rparr>) = md_ok m"
  "md_ok m \<Longrightarrow> i < NUM_BLOCKS \<Longrightarrow> md_ok (m\<lparr>md_next := i\<rparr>)"
  "md_ok m \<Longrightarrow> 0 \<le> n \<Longrightarrow> n \<le> 131072 \<Longrightarrow> md_ok (m\<lparr>file_size := n\<rparr>)"
  "md_ok zero_md"
  by (auto simp: md_ok_def zero_md_def)

lemma fs_typed_md: "fs_typed s \<Longrightarrow> i < NUM_BLOCKS \<Longrightarrow> md_ok (blk_md (blocks s i))"
  by (simp add: fs_typed_def)

lemma fs_typed_data: "fs_typed s \<Longrightarrow> i < NUM_BLOCKS \<Longrightarrow> length (blk_data (blocks s i)) = 4016"
  by (simp add: fs_typed_def)

lemma fs_typed_bm_set: "fs_typed s \<Longrightarrow> v \<in> {0, 1} \<Longrightarrow> fs_typed (bm_set i v s)"
  by (simp add: fs_typed_def)

lemma fs_typed_write_md: "fs_typed s \<Longrightarrow> md_ok m \<Longrightarrow> fs_typed (write_md o' i m s)"
  by (cases o') (auto simp: fs_typed_def)

lemma fs_typed_write_data: "fs_typed s \<Longrightarrow> length bs \<le> 4016 \<Longrightarrow> fs_typed (write_data o' i bs s)"
  by (cases o') (auto simp: fs_typed_def)

lemma fs_typed_bitmap:
  "fs_typed s \<Longrightarrow> fs_typed (write_bitmap o' s)"
  "fs_typed s \<Longrightarrow> fs_typed (read_bitmap s)"
  by (cases o'; simp add: fs_typed_def) (simp add: fs_typed_def)

lemmas fs_typed_intros = fs_typed_bm_set fs_typed_write_md fs_typed_write_data fs_typed_bitmap

text \<open>What an operation on a well-formed file system may end in: the faults a corrupted chain
  or a long one causes, or again a well-formed file system.\<close>

definition chain_fault :: "fault \<Rightarrow> bool" where
  "chain_fault f \<longleftrightarrow> (case f of OutOfBounds _ \<Rightarrow> True | Diverges _ \<Rightarrow> True | _ \<Rightarrow> False)"

lemma chain_fault_simps [simp]:
  "chain_fault (OutOfBounds x)" "chain_fault (Diverges x)"
  by (simp_all add: chain_fault_def)

definition typed_result :: "fault + fs \<times> 'a \<Rightarrow> bool" where
  "typed_result r \<longleftrightarrow> (case r of Inl f \<Rightarrow> chain_fault f | Inr (s, _) \<Rightarrow> fs_typed s)"

lemma typed_result_simps [simp]:
  "typed_result (Inl (OutOfBounds x))"
  "typed_result (Inl (Diverges x))"
  "typed_result (Inr (s, a)) \<longleftrightarrow> fs_typed s"
  by (simp_all add: typed_result_def)

lemma read_md_bind:
  "(\<And>m. 0 < i \<Longrightarrow> i < NUM_BLOCKS \<Longrightarrow> m = blk_md (blocks s i) \<Longrightarrow> P (k m)) \<Longrightarrow>
   P (Inl (OutOfBounds ''block'')) \<Longrightarrow> P (rbind (read_md s i) k)"
  by (simp add: read_md_def)

lemma typed_read_md [intro]:
  "(\<And>m. md_ok m \<Longrightarrow> typed_result (k m)) \<Longrightarrow> fs_typed s \<Longrightarrow> typed_result (rbind (read_md s i) k)"
  by (rule read_md_bind) (auto intro: fs_typed_md)

lemma typed_rbind:
  assumes "typed_result m" "\<And>s a. m = Inr (s, a) \<Longrightarrow> fs_typed s \<Longrightarrow> typed_result (k (s, a))"
  shows "typed_result (rbind m k)"
  using assms by (cases m) (auto simp: typed_result_def)

lemma typed_rbind_read:
  assumes "\<And>f. m = Inl f \<Longrightarrow> chain_fault f" "\<And>a. m = Inr a \<Longrightarrow> typed_result (k a)"
  shows "typed_result (rbind m k)"
  using assms by (cases m) (auto simp: typed_result_def)

lemma first_free_less: "first_free s = Some i \<Longrightarrow> i < NUM_BLOCKS"
  by (rule first_free_SomeD)

lemma trunc_grow_typed: "fs_typed s \<Longrightarrow> typed_result (trunc_grow cur sz s)"
proof (induction cur sz s rule: trunc_grow.induct)
  case (1 cur sz s)
  show ?case
    by (subst trunc_grow.simps)
      (auto simp del: fs_constants write_md_simps split: option.splits
        intro!: typed_read_md 1 fs_typed_intros md_ok_update first_free_less)
qed

lemma trunc_walk_fault: "trunc_walk cur sz s = Inl f \<Longrightarrow> chain_fault f"
proof (induction cur sz s rule: trunc_walk.induct)
  case (1 cur sz s)
  show ?case
    using 1(2) unfolding trunc_walk.simps [of cur sz s]
    by (auto dest: 1(1) [simplified] simp: rbind_eq_Inl read_md_def split: if_splits)
qed

lemma free_chain_typed:
  "fs_typed s \<Longrightarrow> (case free_chain n cur s of Inl f \<Rightarrow> chain_fault f | Inr s' \<Rightarrow> fs_typed s')"
  by (induction n cur s rule: free_chain.induct)
    (auto simp: free_chain.simps read_md_def fs_typed_bm_set)

lemma unlink_loop_typed:
  "fs_typed s \<Longrightarrow> (case unlink_loop n m s of Inl f \<Rightarrow> chain_fault f | Inr s' \<Rightarrow> fs_typed s')"
  by (induction n m s rule: unlink_loop.induct)
    (auto simp: unlink_loop.simps read_md_def fs_typed_bm_set Let_def)

lemma read_chain_fault: "read_chain s cur m bc buf = Inl f \<Longrightarrow> chain_fault f"
proof (induction s cur m bc buf rule: read_chain.induct)
  case (1 s cur m bc buf)
  show ?case
    using 1(2) unfolding read_chain.simps [of s cur m bc buf]
    by (auto dest: 1(1) [simplified] simp: rbind_eq_Inl read_md_def Let_def split: if_splits)
qed

lemma write_next_typed:
  assumes "fs_typed s" "md_ok m"
  shows "case write_next cur m s of Inl f \<Rightarrow> chain_fault f | Inr (s', None) \<Rightarrow> fs_typed s'
     | Inr (s', Some (nb, m')) \<Rightarrow> fs_typed s' \<and> md_ok m'"
proof (cases "md_next m = 0")
  case True
  then show ?thesis
    using assms by (auto simp: write_next_def split: option.splits
        intro!: fs_typed_intros md_ok_update first_free_less)
next
  case False
  then show ?thesis
    using assms by (auto simp: write_next_def read_md_def intro: fs_typed_md)
qed

lemma write_loop_typed: "fs_typed s \<Longrightarrow> md_ok m \<Longrightarrow> typed_result (write_loop cur m n bw buf s)"
proof (induction cur m n bw buf s rule: write_loop.induct)
  case (1 cur m n bw buf s)
  show ?case
  proof (cases "USABLE_SPACE < n")
    case True
    show ?thesis
    proof (cases "write_next cur m s")
      case (Inl f)
      then show ?thesis
        using True write_next_typed [OF 1(2,3), of cur]
        by (simp add: write_loop.simps [of cur m n bw buf s] typed_result_def)
    next
      case (Inr r)
      obtain s' c where r: "r = (s', c)" by fastforce
      show ?thesis
      proof (cases c)
        case None
        then show ?thesis
          using True Inr r write_next_typed [OF 1(2,3), of cur]
          by (simp add: write_loop.simps [of cur m n bw buf s])
      next
        case (Some d)
        obtain nb m' where d: "d = (nb, m')" by fastforce
        have "fs_typed s'" "md_ok m'"
          using Inr r Some d write_next_typed [OF 1(2,3), of cur] by simp_all
        then show ?thesis
          using True Inr r Some d 1(1) [OF True, of s' m' nb]
          by (simp add: write_loop.simps [of cur m n bw buf s] fs_typed_write_data)
      qed
    qed
  next
    case False
    then show ?thesis
      using 1(2) by (simp add: write_loop.simps [of cur m n bw buf s] fs_typed_write_data)
  qed
qed


subsection \<open>Every operation keeps a file system well-formed\<close>

lemma scan_Some_less: "find_file s path = Some i \<Longrightarrow> 0 < i \<and> i < NUM_BLOCKS"
  by (drule find_file_SomeD) (simp add: used_def)

lemma hello_truncate_typed:
  assumes "fs_typed s"
  shows "typed_result (hello_truncate path sz t1 t2 m0 s)"
proof (cases rule: scan_cases [of s path m0])
  case (there i)
  have f: "free_chain n nb s = Inl e \<Longrightarrow> chain_fault e"
      "free_chain n nb s = Inr s' \<Longrightarrow> fs_typed s'" for n nb s' e
    using free_chain_typed [OF assms, of n nb] by simp_all
  show ?thesis
    using assms trunc_grow_typed [OF assms]
    by (auto simp: hello_truncate_def there Let_def split: sum.splits
        intro!: typed_rbind_read typed_rbind intro: trunc_walk_fault f)
qed (simp add: hello_truncate_def assms)

lemma hello_read_typed:
  assumes "fs_typed s"
  shows "typed_result (hello_read path sz off t m0 buf0 s)"
proof (cases rule: scan_cases [of s path m0])
  case (there i)
  show ?thesis
    using assms scan_Some_less [OF there(1)] fs_typed_md [OF assms, of i]
    by (auto simp: hello_read_def there Let_def read_md_ok split: if_splits
        intro!: typed_rbind_read fs_typed_write_md dest: read_chain_fault)
qed (simp add: hello_read_def assms)

lemma int_size_small: "n \<le> 131072 \<Longrightarrow> sint (of_nat n :: c_int) = int n"
  by (subst sint_of_small) (simp_all add: unat_of_nat uint_nat)

lemma hello_write_typed:
  assumes "fs_typed s"
  shows "typed_result (hello_write path bs off t1 t2 m0 buf0 s)"
proof (cases rule: scan_cases [of s path m0])
  case (there i)
  define n where "n = sint (of_nat (off + length bs) :: c_int)"
  let ?m = "(blk_md (blocks s i))\<lparr>file_size := n, access_time := t1, modify_time := t2\<rparr>"
  have i: "0 < i" "i < NUM_BLOCKS" using scan_Some_less [OF there(1)] by simp_all
  show ?thesis
  proof (cases "off + length bs \<le> 131072")
    case True
    then have n: "n = int (off + length bs)" unfolding n_def by (rule int_size_small)
    have m: "md_ok ?m"
      using True n fs_typed_md [OF assms i(2)] by (simp add: md_ok_def)
    have "typed_result (write_loop i ?m (nat n) 0 buf (write_md O_RDWR i ?m s))" for buf
      using assms m by (intro write_loop_typed fs_typed_write_md)
    then show ?thesis
      unfolding hello_write_def there prod.case option.case n_def [symmetric] Let_def
      by (intro typed_rbind_read)
        (auto simp: assms i read_md_ok read_chain_fault split: sum.splits
          intro!: typed_rbind fs_typed_intros)
  next
    case False
    then show ?thesis
      unfolding hello_write_def there prod.case option.case n_def [symmetric] Let_def
      by (intro typed_rbind_read) (auto simp: assms read_chain_fault)
  qed
qed (simp add: hello_write_def assms)

lemma hello_unlink_typed:
  assumes "fs_typed s"
  shows "typed_result (hello_unlink path m0 s)"
proof (cases rule: scan_cases [of "read_bitmap s" path m0])
  case (there i)
  let ?s = "bm_set i 0 (read_bitmap s)"
  have "fs_typed ?s" using assms by (simp add: fs_typed_intros)
  from unlink_loop_typed [OF this, of "Suc NUM_BLOCKS" "blk_md (blocks s i)"]
  show ?thesis
    by (simp add: hello_unlink_def there typed_result_def fs_typed_bitmap split: sum.splits)
qed (simp add: hello_unlink_def assms fs_typed_bitmap)

lemma hello_create_typed:
  assumes "fs_typed s"
  shows "fs_typed (fst (hello_create path t1 t2 m0 s))"
proof (cases rule: scan_cases [of "read_bitmap s" path m0])
  case (missing m)
  show ?thesis
  proof (cases "first_free (read_bitmap s)")
    case (Some i)
    show ?thesis
      using assms by (auto simp: hello_create_def missing Some Let_def strnlen_def min_def
          intro!: fs_typed_intros) (simp add: md_ok_def)
  qed (simp add: hello_create_def missing assms fs_typed_bitmap)
qed (simp add: hello_create_def assms fs_typed_bitmap)

lemma typed_reply: "typed_result r \<Longrightarrow> typed_result (rbind r (\<lambda>r. Inr (reply_of f r)))"
  by (cases r) (auto simp: typed_result_def reply_of_def)

lemma hello_oper_typed: "fs_typed s \<Longrightarrow> typed_result (hello_oper e op s)"
proof (cases op)
  case (Open p)
  assume s: "fs_typed s"
  show ?thesis
    by (cases rule: scan_cases [of s p "env_md e"])
      (simp_all add: Open hello_open_def reply_of_def s)
qed (auto simp: reply_of_def hello_getattr_def hello_readdir_def fs_typed_bitmap Let_def
    split: prod.splits intro!: typed_reply [unfolded reply_of_def]
    hello_truncate_typed hello_read_typed hello_write_typed hello_unlink_typed hello_create_typed)

lemma new_disk_typed: "fs_typed new_disk"
  by (simp add: fs_typed_def new_disk_def blank_block_def)

lemma hello_main_typed: "fs_typed s \<Longrightarrow> hello_main s = Some s' \<Longrightarrow> fs_typed s'"
  by (auto simp: hello_main_def Let_def fs_typed_def split: if_splits)

end
