(* ===== verification/Simulation.thy ===== *)
theory Simulation
  imports Prelude
begin

text \<open>
  The interface between a component and its abstract specification: a step function that may
  fault implements a specification through an abstraction of its states and of its replies.
  The client's lemma is that histories are implemented when single steps are.
\<close>

fun run_steps :: "('e \<Rightarrow> 'op \<Rightarrow> 's \<Rightarrow> fault + 's \<times> 'r) \<Rightarrow> ('e \<times> 'op) list \<Rightarrow> 's
    \<Rightarrow> fault + 's \<times> 'r list" where
  "run_steps f [] s = Inr (s, [])"
| "run_steps f ((e, op) # xs) s =
     rbind (f e op s) (\<lambda>(s, r). rbind (run_steps f xs s) (\<lambda>(s, rs). Inr (s, r # rs)))"

fun spec_steps :: "('e \<Rightarrow> 'op \<Rightarrow> 'a \<Rightarrow> 'a \<times> 'q) \<Rightarrow> ('e \<times> 'op) list \<Rightarrow> 'a \<Rightarrow> 'a \<times> 'q list" where
  "spec_steps f [] a = (a, [])"
| "spec_steps f ((e, op) # xs) a =
     (let (a, q) = f e op a; (a, qs) = spec_steps f xs a in (a, q # qs))"

fun pre_steps :: "('e \<Rightarrow> 'op \<Rightarrow> 'a \<Rightarrow> bool) \<Rightarrow> ('e \<Rightarrow> 'op \<Rightarrow> 'a \<Rightarrow> 'a \<times> 'q) \<Rightarrow> ('e \<times> 'op) list
    \<Rightarrow> 'a \<Rightarrow> bool" where
  "pre_steps pre f [] a \<longleftrightarrow> True"
| "pre_steps pre f ((e, op) # xs) a \<longleftrightarrow> pre e op a \<and> pre_steps pre f xs (fst (f e op a))"

locale simulation =
  fixes step :: "'e \<Rightarrow> 'op \<Rightarrow> 's \<Rightarrow> fault + 's \<times> 'r"
    and spec :: "'e \<Rightarrow> 'op \<Rightarrow> 'a \<Rightarrow> 'a \<times> 'q"
    and good :: "'s \<Rightarrow> bool"
    and abst :: "'s \<Rightarrow> 'a"
    and obs :: "'r \<Rightarrow> 'q"
    and pre :: "'e \<Rightarrow> 'op \<Rightarrow> 'a \<Rightarrow> bool"
  assumes simulates: "good s \<Longrightarrow> pre e op (abst s) \<Longrightarrow>
    \<exists>s' r. step e op s = Inr (s', r) \<and> good s' \<and> spec e op (abst s) = (abst s', obs r)"
begin

lemma runs:
  "good s \<Longrightarrow> pre_steps pre spec xs (abst s) \<Longrightarrow>
   \<exists>s' rs. run_steps step xs s = Inr (s', rs) \<and> good s' \<and>
     spec_steps spec xs (abst s) = (abst s', map obs rs)"
proof (induction xs arbitrary: s)
  case (Cons x xs)
  obtain e op where x: "x = (e, op)" by fastforce
  have p: "pre e op (abst s)" "pre_steps pre spec xs (fst (spec e op (abst s)))"
    using Cons.prems(2) by (simp_all add: x)
  from simulates [OF Cons.prems(1) p(1)] obtain s1 r
    where s1: "step e op s = Inr (s1, r)" "good s1" "spec e op (abst s) = (abst s1, obs r)"
    by blast
  from Cons.IH [OF s1(2)] p(2) s1(3) obtain s' rs
    where "run_steps step xs s1 = Inr (s', rs)" "good s'"
      "spec_steps spec xs (abst s1) = (abst s', map obs rs)"
    by auto
  then show ?case
    by (simp add: x s1)
qed simp

end

end
