(* ===== verification/FileSysSmall.thy ===== *)
theory FileSysSmall
  imports FileSysLaws Simulation
begin

text \<open>
  The abstract specification of the file system, a map from names to contents and times, and
  the proof that the code implements it for files that fit in one block (\<open>small_ok\<close>): each
  operation is simulated, and the interface \<open>simulation\<close> lifts this to histories.
\<close>

subsection \<open>What a user of the file system sees\<close>

record afile =
  content :: "byte list"
  born :: timespec
  changed :: timespec

type_synonym afs = "string \<rightharpoonup> afile"

text \<open>What is observed of a reply: the order of a directory listing and the access time of a
  file are not determined.\<close>

fun observe :: "reply \<Rightarrow> string set + reply" where
  "observe (Names ns) = Inl (set ns)"
| "observe (Attributes st) = Inr (Attributes (st\<lparr>st_atim := zero_time\<rparr>))"
| "observe r = Inr r"

definition answer :: "afs \<Rightarrow> string \<Rightarrow> (afile \<Rightarrow> reply) \<Rightarrow> string set + reply" where
  "answer f p k = Inr (case f p of None \<Rightarrow> Failed ENOENT | Some x \<Rightarrow> k x)"

definition attributes :: "afile \<Rightarrow> stat" where
  "attributes x = \<lparr>st_dir = False, st_perm = 438, st_nlink = 1, st_size = int (length (content x)),
     st_birthtim = born x, st_atim = zero_time, st_mtim = changed x\<rparr>"

definition root_attributes :: stat where
  "root_attributes = \<lparr>st_dir = True, st_perm = 493, st_nlink = 2, st_size = 0,
     st_birthtim = zero_time, st_atim = zero_time, st_mtim = zero_time\<rparr>"

fun fs_spec :: "fs_env \<Rightarrow> fs_op \<Rightarrow> afs \<Rightarrow> afs \<times> (string set + reply)" where
  "fs_spec e (Getattr p) f =
     (f, if p = ''/'' then Inr (Attributes root_attributes)
         else answer f p (\<lambda>x. Attributes (attributes x)))"
| "fs_spec e (Readdir p) f =
     (f, if p \<noteq> ''/'' then Inr (Failed ENOENT) else Inl ({''.'', ''..''} \<union> tl ` dom f))"
| "fs_spec e (Truncate p n) f = (f, answer f p (\<lambda>x. Done))"
| "fs_spec e (Open p) f = (f, answer f p (\<lambda>x. Done))"
| "fs_spec e (Read p n off) f = (f, answer f p (\<lambda>x. Bytes (take n (drop off (content x)))))"
| "fs_spec e (Write p bs off) f =
     (case f p of None \<Rightarrow> f
        | Some x \<Rightarrow> f(p \<mapsto> x\<lparr>content := take off (content x) @ bs, changed := env_t2 e\<rparr>),
      answer f p (\<lambda>x. Count (length bs)))"
| "fs_spec e (Unlink p) f = (f(p := None), answer f p (\<lambda>x. Done))"
| "fs_spec e (Create p) f =
     (if p \<in> dom f then (f, Inr (Failed EEXIST))
      else if card (dom f) = NUM_BLOCKS - 1 then (f, Inr (Failed ENOMEM))
      else (f(p \<mapsto> \<lparr>content = [], born = env_t1 e, changed = env_t2 e\<rparr>), Inr Done))"

definition file_path :: "string \<Rightarrow> bool" where
  "file_path p \<longleftrightarrow> length p < MAX_FILENAME_LENGTH \<and> 1 < length p \<and> hd p = CHR ''/''"

definition fs_pre :: "fs_env \<Rightarrow> fs_op \<Rightarrow> afs \<Rightarrow> bool" where
  "fs_pre e op f \<longleftrightarrow> length (env_buf e) = MAX_REQUEST_SIZE \<and>
     (case op of
        Create p \<Rightarrow> file_path p
      | Write p bs off \<Rightarrow> off + length bs \<le> USABLE_SPACE \<and>
          (case f p of None \<Rightarrow> True | Some x \<Rightarrow> off \<le> length (content x))
      | Truncate p n \<Rightarrow> n \<le> USABLE_SPACE
      | _ \<Rightarrow> True)"

subsection \<open>The file systems that hold files of one block\<close>

definition abs_file :: "block \<Rightarrow> afile" where
  "abs_file b = \<lparr>content = take (nat (file_size (blk_md b))) (blk_data b),
     born = create_time (blk_md b), changed = modify_time (blk_md b)\<rparr>"

definition abs_fs :: "fs \<Rightarrow> afs" where
  "abs_fs s p = map_option (\<lambda>i. abs_file (blocks s i)) (find_file s p)"

definition small_ok :: "fs \<Rightarrow> bool" where
  "small_ok s \<longleftrightarrow> fs_typed s \<and> (\<forall>i<NUM_BLOCKS. bitmap s i = disk_bitmap s i) \<and>
     (\<forall>i. used s i \<longrightarrow> file_path (name_of s i) \<and> md_next (blk_md (blocks s i)) = 0 \<and>
        file_size (blk_md (blocks s i)) \<le> int USABLE_SPACE) \<and>
     inj_on (name_of s) {i. used s i}"

lemma small_okI:
  assumes "fs_typed s" "\<And>i. i < NUM_BLOCKS \<Longrightarrow> bitmap s i = disk_bitmap s i"
    "\<And>i. used s i \<Longrightarrow> file_path (name_of s i)"
    "\<And>i. used s i \<Longrightarrow> md_next (blk_md (blocks s i)) = 0"
    "\<And>i. used s i \<Longrightarrow> file_size (blk_md (blocks s i)) \<le> 4016"
    "\<And>i j. used s i \<Longrightarrow> used s j \<Longrightarrow> name_of s i = name_of s j \<Longrightarrow> i = j"
  shows "small_ok s"
  unfolding small_ok_def inj_on_def by (intro conjI allI impI ballI; (simp add: assms)?)

lemma used_less: "used s i \<Longrightarrow> i < NUM_BLOCKS"
  by (simp add: used_def)

lemma small_okD:
  assumes "small_ok s"
  shows "fs_typed s" "\<And>i. i < NUM_BLOCKS \<Longrightarrow> disk_bitmap s i = bitmap s i"
    "\<And>i. used s i \<Longrightarrow> file_path (name_of s i)"
    "\<And>i. used s i \<Longrightarrow> md_next (blk_md (blocks s i)) = 0"
    "\<And>i. used s i \<Longrightarrow> file_size (blk_md (blocks s i)) \<le> 4016"
    "\<And>i j. used s i \<Longrightarrow> used s j \<Longrightarrow> name_of s i = name_of s j \<Longrightarrow> i = j"
  using assms unfolding small_ok_def inj_on_def by simp_all

lemma small_ok_block:
  assumes "small_ok s" "used s i"
  shows "0 \<le> file_size (blk_md (blocks s i))" "length (blk_data (blocks s i)) = 4016"
proof -
  note typed = small_okD(1) [OF assms(1)] and i = used_less [OF assms(2)]
  show "0 \<le> file_size (blk_md (blocks s i))"
    using fs_typed_md [OF typed i] by (simp add: md_ok_def)
  show "length (blk_data (blocks s i)) = 4016"
    by (rule fs_typed_data [OF typed i])
qed

lemma find_file_cong:
  assumes "\<And>i. used s' i \<and> name_of s' i = p \<longleftrightarrow> used s i \<and> name_of s i = p"
  shows "find_file s' p = find_file s p"
  unfolding find_file_def
proof (rule find_cong [OF refl])
  fix i assume "i \<in> set [1..<NUM_BLOCKS]"
  then show "(bitmap s' i = 1 \<and> name_of s' i = p) = (bitmap s i = 1 \<and> name_of s i = p)"
    using assms [of i] by (simp add: used_def Suc_le_eq)
qed

lemma find_file_small: 
  assumes "small_ok s"
  shows "find_file s p = Some i \<longleftrightarrow> used s i \<and> name_of s i = p"
proof
  assume u: "used s i \<and> name_of s i = p"
  then obtain j where j: "find_file s p = Some j"
    by (cases "find_file s p") (auto simp: find_file_None)
  with u show "find_file s p = Some i"
    using small_okD(6) [OF assms] find_file_SomeD by metis
qed (rule find_file_SomeD)

lemma small_ok_read_bitmap [simp]:
  assumes "small_ok s"
  shows "small_ok (read_bitmap s)" "used (read_bitmap s) i = used s i"
    "find_file (read_bitmap s) p = find_file s p" "abs_fs (read_bitmap s) = abs_fs s"
proof -
  show u: "used (read_bitmap s) i = used s i" for i
    using small_okD(2) [OF assms] by (auto simp: used_def)
  show "find_file (read_bitmap s) p = find_file s p" for p
    by (rule find_file_cong) (simp add: u)
  then show "abs_fs (read_bitmap s) = abs_fs s"
    by (simp add: abs_fs_def fun_eq_iff)
  show "small_ok (read_bitmap s)"
    using small_okD [OF assms] by (intro small_okI) (simp_all add: u fs_typed_bitmap)
qed

lemma abs_None: "abs_fs s p = None \<longleftrightarrow> find_file s p = None"
  by (simp add: abs_fs_def)

lemma dom_abs: 
  assumes "small_ok s"
  shows "dom (abs_fs s) = name_of s ` {i. used s i}"
  using find_file_SomeD [of s] find_file_small [OF assms]
  by (force simp: dom_def abs_fs_def)

lemma card_dom_abs: "small_ok s \<Longrightarrow> card (dom (abs_fs s)) = card {i. used s i}"
  by (simp add: dom_abs card_image small_ok_def)

lemma used_subset: "{i. used s i} \<subseteq> {1..<NUM_BLOCKS}"
  by (auto simp: used_def)

lemma small_full:
  assumes "small_ok s"
  shows "card (dom (abs_fs s)) = NUM_BLOCKS - 1 \<longleftrightarrow> first_free s = None"
proof -
  have "card {i. used s i} = card {1..<NUM_BLOCKS} \<longleftrightarrow> {i. used s i} = {1..<NUM_BLOCKS}"
    by (metis card_subset_eq [OF finite_atLeastLessThan used_subset])
  moreover have "bitmap s i = 1 \<longleftrightarrow> bitmap s i \<noteq> 0" if "i < NUM_BLOCKS" for i
    using small_okD(1) [OF assms] that unfolding fs_typed_def by force
  then have "{i. used s i} = {1..<NUM_BLOCKS} \<longleftrightarrow> first_free s = None"
    unfolding first_free_None used_def set_eq_iff by (auto simp: Suc_le_eq)
  ultimately show ?thesis
    by (simp add: card_dom_abs assms)
qed

subsection \<open>Changing one block\<close>

lemma small_update:
  assumes s: "small_ok s" and i: "used s i"
    and s': "bitmap s' = bitmap s" "disk_bitmap s' = disk_bitmap s" "blocks s' = (blocks s)(i := b)"
    and b: "filename (blk_md b) = name_of s i" "md_next (blk_md b) = 0"
      "0 \<le> file_size (blk_md b)" "file_size (blk_md b) \<le> 4016" "length (blk_data b) = 4016"
  shows "small_ok s'" "abs_fs s' = (abs_fs s)(name_of s i \<mapsto> abs_file b)"
proof -
  have u: "used s' j = used s j" and n: "name_of s' j = name_of s j" for j
    by (simp_all add: used_def s' b)
  have f: "find_file s' p = find_file s p" for p
    by (rule find_file_cong) (simp only: u n)
  show "small_ok s'"
  proof (rule small_okI)
    have "md_ok (blk_md b)"
      using b small_okD(3) [OF s i] by (simp add: md_ok_def file_path_def)
    then show "fs_typed s'"
      using small_okD(1) [OF s] b(5) by (simp add: fs_typed_def s')
    show "md_next (blk_md (blocks s' j)) = 0" "file_size (blk_md (blocks s' j)) \<le> 4016"
      if "used s' j" for j
      using that small_okD(4,5) [OF s, of j] b(2,4) by (simp_all add: u s')
  qed (use small_okD [OF s] in \<open>simp_all add: u n s'(1,2)\<close>)
  show "abs_fs s' = (abs_fs s)(name_of s i \<mapsto> abs_file b)"
  proof
    fix p
    show "abs_fs s' p = ((abs_fs s)(name_of s i \<mapsto> abs_file b)) p"
    proof (cases "p = name_of s i")
      case True
      then have "find_file s p = Some i"
        using i by (simp add: find_file_small [OF s])
      then show ?thesis by (simp add: abs_fs_def f s' True)
    next
      case False
      then have "find_file s p \<noteq> Some i"
        by (auto simp: find_file_small [OF s])
      then show ?thesis using False
        by (cases "find_file s p") (auto simp: abs_fs_def f s')
    qed
  qed
qed

lemma small_add:
  assumes s: "small_ok s" and i: "0 < i" "i < NUM_BLOCKS" "bitmap s i = 0"
    and s': "bitmap s' = (bitmap s)(i := 1)" "disk_bitmap s' = (bitmap s)(i := 1)"
      "blocks s' = (blocks s)(i := b)"
    and p: "file_path p" "find_file s p = None"
    and b: "filename (blk_md b) = p" "md_next (blk_md b) = 0"
      "0 \<le> file_size (blk_md b)" "file_size (blk_md b) \<le> 4016" "length (blk_data b) = 4016"
  shows "small_ok s'" "abs_fs s' = (abs_fs s)(p \<mapsto> abs_file b)"
proof -
  have u: "used s' j \<longleftrightarrow> used s j \<or> j = i" for j
    using i by (auto simp: used_def s')
  have ni: "\<not> used s i" using i by (simp add: used_def)
  have n: "name_of s' j = (if j = i then p else name_of s j)" for j
    by (simp add: s' b)
  have new: "name_of s j \<noteq> p" if "used s j" for j
    using p(2) that by (simp add: find_file_None)
  have f: "find_file s' q = (if q = p then Some i else find_file s q)" for q
  proof (cases "q = p")
    case True
    then obtain j where j: "find_file s' q = Some j"
      using u [of i] n [of i] by (cases "find_file s' q") (auto simp: find_file_None)
    then have "used s' j" "name_of s' j = p" using True by (auto dest: find_file_SomeD)
    then have "j = i" using u [of j] n [of j] new [of j] by (cases "j = i") simp_all
    then show ?thesis using j True by simp
  next
    case False
    have "find_file s' q = find_file s q"
      by (rule find_file_cong) (use False ni in \<open>auto simp: u n\<close>)
    then show ?thesis using False by simp
  qed
  show "small_ok s'"
  proof (rule small_okI)
    have "md_ok (blk_md b)"
      using b p(1) by (simp add: md_ok_def file_path_def)
    then show "fs_typed s'"
      using small_okD(1) [OF s] b(5) by (simp add: fs_typed_def s')
    show "md_next (blk_md (blocks s' j)) = 0" "file_size (blk_md (blocks s' j)) \<le> 4016"
        "file_path (name_of s' j)"
      if "used s' j" for j
      using that small_okD(3-5) [OF s, of j] b(2,4) p(1)
      by (cases "j = i"; simp add: u s' b(1))+
    show "j = k" if "used s' j" "used s' k" "name_of s' j = name_of s' k" for j k
      using that small_okD(6) [OF s, of j k] new [of j] new [of k] unfolding u n
      by (cases "j = i"; cases "k = i") simp_all
  qed (simp add: s')
  show "abs_fs s' = (abs_fs s)(p \<mapsto> abs_file b)"
  proof
    fix q
    have "find_file s q \<noteq> Some i"
      using ni by (auto dest: find_file_SomeD)
    then show "abs_fs s' q = ((abs_fs s)(p \<mapsto> abs_file b)) q"
      by (cases "find_file s q") (auto simp: abs_fs_def f s')
  qed
qed

lemma small_remove:
  assumes s: "small_ok s" and i: "used s i"
    and s': "bitmap s' = (bitmap s)(i := 0)" "disk_bitmap s' = (bitmap s)(i := 0)" "blocks s' = blocks s"
  shows "small_ok s'" "abs_fs s' = (abs_fs s)(name_of s i := None)"
proof -
  have u: "used s' j \<longleftrightarrow> used s j \<and> j \<noteq> i" for j
    using i by (auto simp: used_def s')
  have f: "find_file s' q = (if q = name_of s i then None else find_file s q)" for q
  proof (cases "q = name_of s i")
    case True
    then show ?thesis
      using small_okD(6) [OF s _ i] by (auto simp: find_file_None u s')
  next
    case False
    have "find_file s' q = find_file s q"
      by (rule find_file_cong) (use False in \<open>auto simp: u s'\<close>)
    then show ?thesis using False by simp
  qed
  show "small_ok s'"
  proof (rule small_okI)
    show "fs_typed s'"
      using small_okD(1) [OF s] by (simp add: fs_typed_def s')
    show "j = k" if "used s' j" "used s' k" "name_of s' j = name_of s' k" for j k
      using that small_okD(6) [OF s, of j k] by (simp add: u s')
  qed (use small_okD(3-5) [OF s] in \<open>simp_all add: s' u\<close>)
  show "abs_fs s' = (abs_fs s)(name_of s i := None)"
    by (simp add: fun_eq_iff abs_fs_def f s')
qed

subsection \<open>Each operation implements its specification\<close>

lemma observe_reply [simp]:
  "observe (snd (reply_of (\<lambda>_. Done) (s, r))) = Inr (case r of Inl e \<Rightarrow> Failed e | Inr _ \<Rightarrow> Done)"
  "observe (snd (reply_of Bytes (s, q))) = Inr (case q of Inl e \<Rightarrow> Failed e | Inr b \<Rightarrow> Bytes b)"
  "observe (snd (reply_of Count (s, c))) = Inr (case c of Inl e \<Rightarrow> Failed e | Inr k \<Rightarrow> Count k)"
  "fst (reply_of f (s, x)) = s"
  by (simp_all add: reply_of_def split: sum.splits)

definition refines :: "fs_env \<Rightarrow> fs_op \<Rightarrow> fs \<Rightarrow> bool" where
  "refines e op s \<longleftrightarrow> (\<exists>s' r. hello_oper e op s = Inr (s', r) \<and> small_ok s' \<and>
     fs_spec e op (abs_fs s) = (abs_fs s', observe r))"

lemma refinesI:
  assumes "small_ok s'" "fs_spec e op (abs_fs s) = (abs_fs s', observe (snd (reply_of f (s', x))))"
    "hello_oper e op s = Inr (reply_of f (s', x))"
  shows "refines e op s"
  using assms by (auto simp: refines_def reply_of_def)

text \<open>The error every operation on a name that is not there returns.\<close>

lemma no_such_file:
  assumes "find_file s p = None"
  shows "hello_truncate p n t1 t2 m0 s = Inr (s, Inl ENOENT)"
    "hello_open mb p t1 m0 s = (s, Inl ENOENT)"
    "hello_read p n off t1 m0 b0 s = Inr (s, Inl ENOENT)"
    "hello_write p bs off t1 t2 m0 b0 s = Inr (s, Inl ENOENT)"
  using scan_None [OF assms, of m0]
  by (auto simp: hello_truncate_def hello_open_def hello_read_def hello_write_def
      split: prod.split option.split)

lemma abs_Some: "find_file s p = Some i \<Longrightarrow> abs_fs s p = Some (abs_file (blocks s i))"
  by (simp add: abs_fs_def)

lemma abs_missing: "find_file s p = None \<Longrightarrow> abs_fs s p = None"
  by (simp add: abs_fs_def)

lemma length_content:
  "small_ok s \<Longrightarrow> used s i \<Longrightarrow> int (length (content (abs_file (blocks s i)))) = file_size (blk_md (blocks s i))"
  using small_ok_block [of s i] small_okD(5) [of s i] by (simp add: abs_file_def)

lemma root_missing: "small_ok s \<Longrightarrow> find_file s ''/'' = None"
  by (auto simp: find_file_None dest: small_okD(3)) (auto simp: file_path_def dest!: small_okD(3))

lemma getattr_refines:
  assumes s: "small_ok s"
  shows "refines e (Getattr p) s"
proof (cases rule: scan_cases [of "read_bitmap s" p "env_md e"])
  case (missing m)
  then show ?thesis
    using s by (intro refinesI [of "read_bitmap s" _ _ _ Attributes "snd (hello_getattr p (env_md e) s)"])
      (cases "p = ''/''"; simp add: hello_getattr_def reply_of_def answer_def abs_missing
         root_attributes_def)+
next
  case (there i)
  then have i: "find_file s p = Some i" "used s i" and "p \<noteq> ''/''"
    using s find_file_SomeD root_missing [OF s] by auto
  then show ?thesis
    using s there(2) length_content [OF s i(2)]
    by (intro refinesI [of "read_bitmap s" _ _ _ Attributes "snd (hello_getattr p (env_md e) s)"];
        simp add: hello_getattr_def reply_of_def answer_def abs_Some attributes_def)
      (simp add: abs_file_def)
qed

lemma readdir_refines:
  assumes s: "small_ok s"
  shows "refines e (Readdir p) s"
proof -
  have ne: "name_of s i \<noteq> []" if "used s i" for i
    using small_okD(3) [OF s that] by (auto simp: file_path_def)
  have "{i. 0 < i \<and> i < NUM_BLOCKS \<and> bitmap s i = 1 \<and> name_of s i \<noteq> []} = {i. used s i}"
    using ne by (auto simp: used_def)
  then have "(\<lambda>i. tl (name_of s i)) ` {x. Suc 0 \<le> x \<and> x < NUM_BLOCKS \<and> bitmap s x = 1 \<and> name_of s x \<noteq> []}
      = tl ` dom (abs_fs s)"
    unfolding dom_abs [OF s] image_image Suc_le_eq by simp
  then show ?thesis
    using s by (intro refinesI [of s _ _ _ Names "snd (hello_readdir p s)"])
      (auto simp: hello_readdir_def reply_of_def)
qed

lemma open_refines:
  assumes s: "small_ok s"
  shows "refines e (Open p) s"
proof (cases "find_file s p")
  case None
  then show ?thesis
    using s by (intro refinesI [of s _ _ _ _ "Inl ENOENT"]) (simp_all add: no_such_file answer_def abs_missing)
next
  case (Some i)
  then show ?thesis
    using s by (intro refinesI [of s _ _ _ _ "Inr ()"])
      (simp_all add: hello_open_def scan_Some answer_def abs_Some)
qed

lemma truncate_small:
  assumes s: "small_ok s" and n: "n \<le> 4016" and i: "find_file s p = Some i"
  shows "hello_truncate p n t1 t2 m0 s = Inr (s, Inr ())"
proof -
  have u: "used s i" "0 < i" "i < NUM_BLOCKS"
    using find_file_SomeD [OF i] by (simp_all add: used_def)
  have "trunc_walk i n s = Inr 0" "trunc_grow i n s = Inr (s, Inr ())"
    using n u small_okD(4) [OF s u(1)]
    by (simp_all add: trunc_walk.simps [of i] trunc_grow.simps [of i] read_md_ok)
  then show ?thesis
    by (simp add: hello_truncate_def scan_Some [OF i] free_chain.simps Let_def)
qed

lemma truncate_refines:
  assumes s: "small_ok s" and "fs_pre e (Truncate p n) (abs_fs s)"
  shows "refines e (Truncate p n) s"
proof (cases "find_file s p")
  case None
  then show ?thesis
    using s by (intro refinesI [of s _ _ _ _ "Inl ENOENT"]) (simp_all add: no_such_file answer_def abs_missing)
next
  case (Some i)
  then show ?thesis
    using assms truncate_small [OF s _ Some]
    by (intro refinesI [of s _ _ _ _ "Inr ()"]) (simp_all add: answer_def abs_Some fs_pre_def)
qed

lemma read_chain_last:
  "md_next m = 0 \<Longrightarrow> length (blk_data (blocks s i)) = 4016 \<Longrightarrow>
   read_chain s i m 0 buf = Inr (write_at buf 0 (blk_data (blocks s i)))"
  by (simp add: read_chain.simps [of s i])

lemma take_drop_write_at_0:
  "length ys \<le> length xs \<Longrightarrow> off + n \<le> length ys \<Longrightarrow>
     take n (drop off (write_at xs 0 ys)) = take n (drop off ys)"
  by (simp add: write_at_def)

lemma read_refines:
  assumes s: "small_ok s" and pre: "fs_pre e (Read p n off) (abs_fs s)"
  shows "refines e (Read p n off) s"
proof (cases "find_file s p")
  case None
  then show ?thesis
    using s by (intro refinesI [of s _ _ _ _ "Inl ENOENT"]) (simp_all add: no_such_file answer_def abs_missing)
next
  case (Some i)
  have u: "used s i" "name_of s i = p" using find_file_SomeD [OF Some] by simp_all
  then have r: "0 < i" "i < NUM_BLOCKS" by (simp_all add: used_def)
  let ?m = "blk_md (blocks s i)" and ?d = "blk_data (blocks s i)"
  let ?s = "write_md O_RDWR i (?m\<lparr>access_time := env_t1 e\<rparr>) s"
  note blk = small_ok_block [OF s u(1)] small_okD(4,5) [OF s u(1)]
  let ?n = "if int off + int n > file_size ?m then nat (file_size ?m) - off else n"
  have c: "take n (drop off (take (nat (file_size ?m)) ?d)) =
      (if int off < file_size ?m then take ?n (drop off ?d) else [])"
    using blk by (auto simp: drop_take min_def)
  have d: "take ?n (drop off (write_at (env_buf e) 0 ?d)) = take ?n (drop off ?d)"
    if "int off < file_size ?m"
    using that pre blk by (intro take_drop_write_at_0) (auto simp: fs_pre_def)
  have "hello_read p n off (env_t1 e) (env_md e) (env_buf e) s =
      Inr (?s, Inr (take n (drop off (content (abs_file (blocks s i))))))"
    using blk r d
    by (auto simp: hello_read_def scan_Some [OF Some] read_chain_last read_md_ok abs_file_def c
        Let_def)
  moreover have "small_ok ?s" "abs_fs ?s = (abs_fs s)(p \<mapsto> abs_file ((blocks s i)\<lparr>blk_md := ?m\<lparr>access_time := env_t1 e\<rparr>\<rparr>))"
    using small_update [OF s u(1), of ?s] blk u(2) by simp_all
  then have "small_ok ?s" "abs_fs ?s = abs_fs s"
    by (simp_all add: abs_file_def fun_eq_iff abs_Some [OF Some])
  ultimately show ?thesis
    by (intro refinesI [of ?s _ _ _ Bytes]) (simp_all add: answer_def abs_Some [OF Some])
qed

lemma take_write_small:
  assumes "length d = (4016::nat)" "4016 \<le> length b" "off + length bs \<le> 4016"
  shows "take (off + length bs)
      (write_at d 0 (take (off + length bs) (write_at (write_at b 0 d) off bs))) = take off d @ bs"
  using assms by (simp add: write_at_def)

lemma small_ok_write_bitmap:
  assumes "small_ok s"
  shows "small_ok (write_bitmap O_RDWR s)" "abs_fs (write_bitmap O_RDWR s) = abs_fs s"
proof -
  have u: "used (write_bitmap O_RDWR s) = used s" by (simp add: used_def fun_eq_iff)
  show "small_ok (write_bitmap O_RDWR s)"
    using small_okD [OF assms] by (intro small_okI) (simp_all add: u fs_typed_bitmap)
  show "abs_fs (write_bitmap O_RDWR s) = abs_fs s"
    by (simp add: abs_fs_def find_file_def fun_eq_iff)
qed

lemma write_refines:
  assumes s: "small_ok s" and pre: "fs_pre e (Write p bs off) (abs_fs s)"
  shows "refines e (Write p bs off) s"
proof (cases "find_file s p")
  case None
  then show ?thesis
    using s by (intro refinesI [of s _ _ _ Count "Inl ENOENT"]) (simp_all add: no_such_file answer_def abs_missing)
next
  case (Some i)
  have u: "used s i" "name_of s i = p" using find_file_SomeD [OF Some] by simp_all
  then have r: "0 < i" "i < NUM_BLOCKS" by (simp_all add: used_def)
  let ?m = "blk_md (blocks s i)" and ?d = "blk_data (blocks s i)" and ?n = "off + length bs"
  note blk = small_ok_block [OF s u(1)] small_okD(4,5) [OF s u(1)]
  have b: "?n \<le> 4016" "off \<le> nat (file_size ?m)" "length (env_buf e) = 131072"
    using pre blk by (auto simp: fs_pre_def abs_Some [OF Some] abs_file_def)
  let ?buf = "write_at (write_at (env_buf e) 0 ?d) off bs"
  let ?m' = "?m\<lparr>file_size := int ?n, access_time := env_t1 e, modify_time := env_t2 e\<rparr>"
  let ?s1 = "write_data O_RDWR i (take ?n ?buf) (write_md O_RDWR i ?m' s)"
  let ?b = "(blocks s i)\<lparr>blk_md := ?m', blk_data := write_at ?d 0 (take ?n ?buf)\<rparr>"
  let ?s = "write_bitmap O_RDWR ?s1"
  have sz: "sint (of_nat ?n :: c_int) = int ?n"
    by (rule int_size_small) (use b in simp)
  have loop: "write_loop i ?m' ?n 0 ?buf (write_md O_RDWR i ?m' s) = Inr (?s1, Inr ())"
    using b by (simp add: write_loop.simps [of i])
  have chain: "read_chain s i ?m 0 (env_buf e) = Inr (write_at (env_buf e) 0 ?d)"
    using blk by (simp add: read_chain_last)
  have w: "hello_write p bs off (env_t1 e) (env_t2 e) (env_md e) (env_buf e) s =
      Inr (?s, Inr (length bs))"
    unfolding hello_write_def scan_Some [OF Some] prod.case option.case chain rbind_simps Let_def
      sz nat_int read_md_ok [OF r] loop sum.case
    using b by simp
  have bl: "blocks ?s1 = (blocks s)(i := ?b)"
    by simp
  have s1: "small_ok ?s1" "abs_fs ?s1 = (abs_fs s)(p \<mapsto> abs_file ?b)"
    using small_update [OF s u(1) _ _ bl] blk b u(2) by (simp_all add: write_at_def)
  note s2 = small_ok_write_bitmap [OF s1(1)]
  have "abs_file ?b = (abs_file (blocks s i))\<lparr>content := take off (content (abs_file (blocks s i))) @ bs,
      changed := env_t2 e\<rparr>"
    using take_write_small [OF blk(2), of "env_buf e" off bs] b
    by (simp add: abs_file_def nat_int_add)
  then show ?thesis
    using s1(2) s2 w
    by (intro refinesI [of ?s _ _ _ Count "Inr (length bs)"]) (simp_all add: answer_def abs_Some [OF Some])
qed

lemma unlink_refines:
  assumes s: "small_ok s"
  shows "refines e (Unlink p) s"
proof (cases "find_file s p")
  case None
  then obtain m where "scan (read_bitmap s) p (env_md e) = (None, m)"
    using scan_None [of "read_bitmap s" p "env_md e"] s by auto
  then have "hello_unlink p (env_md e) s = Inr (read_bitmap s, Inl ENOENT)"
    by (simp add: hello_unlink_def)
  then show ?thesis
    using s None by (intro refinesI [of "read_bitmap s" _ _ _ _ "Inl ENOENT"])
      (simp_all add: answer_def abs_missing fun_upd_idem)
next
  case (Some i)
  have u: "used s i" "name_of s i = p" using find_file_SomeD [OF Some] by simp_all
  let ?s = "write_bitmap O_RDWR (bm_set i 0 (read_bitmap s))"
  have f: "find_file (read_bitmap s) p = Some i" using s Some by simp
  have w: "hello_unlink p (env_md e) s = Inr (?s, Inr ())"
    using scan_Some [OF f, of "env_md e"] small_okD(4) [OF s u(1)]
    by (simp add: hello_unlink_def unlink_loop.simps)
  have "small_ok ?s" "abs_fs ?s = (abs_fs s)(p := None)"
    using small_remove [of "read_bitmap s" i ?s] s u by simp_all
  then show ?thesis
    using w by (intro refinesI [of ?s _ _ _ _ "Inr ()"]) (simp_all add: answer_def abs_Some [OF Some])
qed

lemma create_refines:
  assumes s: "small_ok s" and pre: "fs_pre e (Create p) (abs_fs s)"
  shows "refines e (Create p) s"
proof (cases rule: scan_cases [of "read_bitmap s" p "env_md e"])
  case (there i)
  then show ?thesis
    using s by (intro refinesI [of "read_bitmap s" _ _ _ _ "Inl EEXIST"])
      (auto simp: hello_create_def abs_Some)
next
  case (missing m)
  have p: "file_path p" using pre by (simp add: fs_pre_def)
  have f: "find_file s p = None" "find_file (read_bitmap s) p = None" using missing s by simp_all
  show ?thesis
  proof (cases "first_free (read_bitmap s)")
    case None
    then have "card (dom (abs_fs s)) = NUM_BLOCKS - 1"
      using small_full [of "read_bitmap s"] s by simp
    then show ?thesis
      using s None f missing by (intro refinesI [of "read_bitmap s" _ _ _ _ "Inl ENOMEM"])
        (auto simp: hello_create_def abs_missing)
  next
    case (Some i)
    have nf: "card (dom (abs_fs s)) \<noteq> NUM_BLOCKS - 1"
      using small_full [of "read_bitmap s"] s Some by simp
    note i = first_free_SomeD [OF Some]
    let ?m = "m\<lparr>filename := p, file_size := 0, create_time := env_t1 e,
                   modify_time := env_t2 e, md_next := 0\<rparr>"
    let ?s = "write_md O_RDWR i ?m (write_bitmap O_RDWR (bm_set i 1 (read_bitmap s)))"
    let ?b = "(blocks s i)\<lparr>blk_md := ?m\<rparr>"
    have w: "hello_create p (env_t1 e) (env_t2 e) (env_md e) s = (?s, Inr ())"
      using p unfolding hello_create_def Let_def missing prod.case option.case Some
      by (simp add: strnlen_def file_path_def)
    have "length (blk_data ?b) = 4016"
      using fs_typed_data [OF small_okD(1) [OF s] i(2)] by simp
    then have "small_ok ?s" "abs_fs ?s = (abs_fs s)(p \<mapsto> abs_file ?b)"
      using small_add [OF _ i(1-3), of ?s ?b p] s p f(2) by simp_all
    then show ?thesis
      using w f nf by (intro refinesI [of ?s _ _ _ _ "Inr ()"])
        (simp_all add: abs_missing domIff abs_file_def)
  qed
qed

lemma hello_oper_refines: "small_ok s \<Longrightarrow> fs_pre e op (abs_fs s) \<Longrightarrow> refines e op s"
  by (cases op) (simp_all only: getattr_refines readdir_refines truncate_refines open_refines
      read_refines write_refines unlink_refines create_refines)

interpretation hello: simulation hello_oper fs_spec small_ok abs_fs observe fs_pre
  by unfold_locales (use hello_oper_refines in \<open>simp only: refines_def\<close>)

lemma hello_main_new_disk:
  "hello_main new_disk = Some (read_bitmap (write_bitmap O_RDWR (bm_set 0 1 (new_disk\<lparr>disk_magic := MAGIC_NUMBER\<rparr>))))"
  by (simp add: hello_main_def Let_def NUM_BLOCKS_def) (simp add: new_disk_def)

lemma mounted_small:
  assumes "hello_main new_disk = Some s"
  shows "small_ok s" "abs_fs s = Map.empty" "\<And>i. \<not> used s i"
proof -
  have s: "s = read_bitmap (write_bitmap O_RDWR (bm_set 0 1 (new_disk\<lparr>disk_magic := MAGIC_NUMBER\<rparr>)))"
    using assms hello_main_new_disk by simp
  show u: "\<not> used s i" for i
    by (simp add: used_def s new_disk_def)
  show "small_ok s"
    using hello_main_typed [OF new_disk_typed assms] by (intro small_okI) (simp_all add: u, simp add: s)
  have "find_file s p = None" for p by (simp add: find_file_None u)
  then show "abs_fs s = Map.empty" by (simp add: abs_fs_def fun_eq_iff)
qed

end
