(* ===== verification/FileSysChain.thy ===== *)
theory FileSysChain
  imports FileSysSmall
begin

text \<open>
  Files of several blocks: the chain of blocks of a file, the buffer the code assembles from it
  and the loop that writes it back and allocates what is missing.
\<close>

fun chain :: "fs \<Rightarrow> nat list \<Rightarrow> bool" where
  "chain s [] \<longleftrightarrow> False"
| "chain s [i] \<longleftrightarrow> 0 < i \<and> i < NUM_BLOCKS \<and> md_next (blk_md (blocks s i)) = 0"
| "chain s (i # j # js) \<longleftrightarrow>
     0 < i \<and> i < NUM_BLOCKS \<and> md_next (blk_md (blocks s i)) = j \<and> chain s (j # js)"

definition chain_data :: "fs \<Rightarrow> nat list \<Rightarrow> byte list" where
  "chain_data s is = concat (map (\<lambda>i. blk_data (blocks s i)) is)"

definition free_set :: "fs \<Rightarrow> nat set" where
  "free_set s = {i. 0 < i \<and> i < NUM_BLOCKS \<and> bitmap s i = 0}"

text \<open>How many blocks a file of \<open>n\<close> bytes needs.\<close>

definition needs :: "nat \<Rightarrow> nat" where
  "needs n = (if n = 0 then 1 else Suc ((n - 1) div USABLE_SPACE))"

lemma needs_step: "4016 < n \<Longrightarrow> needs n = Suc (needs (n - 4016))"
proof -
  assume n: "4016 < n"
  then have "n - 1 = (n - 4016 - 1) + 4016" by simp
  then have "(n - 1) div 4016 = Suc ((n - 4016 - 1) div 4016)" by (metis div_add_self2 Suc_eq_plus1 zero_neq_numeral)
  then show ?thesis using n by (simp add: needs_def)
qed

lemma needs_pos: "1 \<le> needs n"
  by (simp add: needs_def)

lemma needs_le: "n \<le> 4016 * k \<Longrightarrow> 0 < k \<Longrightarrow> needs n \<le> k"
  by (cases "n = 0") (auto simp: needs_def Suc_le_eq less_mult_imp_div_less mult.commute)

lemma chain_head: "chain s (i # is) \<Longrightarrow> 0 < i \<and> i < NUM_BLOCKS"
  by (cases "is") auto

lemma chain_cong:
  "(\<And>i. i \<in> set is \<Longrightarrow> md_next (blk_md (blocks s' i)) = md_next (blk_md (blocks s i))) \<Longrightarrow>
   chain s' is = chain s is"
  by (induction s "is" rule: chain.induct) auto

lemma chain_data_simps [simp]:
  "chain_data s [] = []"
  "chain_data s (i # is) = blk_data (blocks s i) @ chain_data s is"
  by (simp_all add: chain_data_def)

lemma chain_data_cong:
  "(\<And>i. i \<in> set is \<Longrightarrow> blk_data (blocks s' i) = blk_data (blocks s i)) \<Longrightarrow>
   chain_data s' is = chain_data s is"
  by (induction "is") auto

lemma chain_range: "chain s is \<Longrightarrow> i \<in> set is \<Longrightarrow> 0 < i \<and> i < NUM_BLOCKS"
  by (induction s "is" rule: chain.induct) auto

lemma length_chain_data:
  "fs_typed s \<Longrightarrow> (\<And>i. i \<in> set is \<Longrightarrow> i < NUM_BLOCKS) \<Longrightarrow> length (chain_data s is) = 4016 * length is"
  by (induction "is") (auto simp: fs_typed_data)

lemma finite_free_set [simp]: "finite (free_set s)"
  by (simp add: free_set_def)

lemma write_at_append:
  "write_at (write_at xs k ys) (k + length ys) zs = write_at xs k (ys @ zs)"
  if "k + length ys \<le> length xs"
  using that by (simp add: write_at_def ac_simps)

lemma read_chain_data:
  assumes "fs_typed s"
  shows "chain s (i # is) \<Longrightarrow> bc + 4016 * Suc (length is) \<le> 131072 \<Longrightarrow> length buf = 131072 \<Longrightarrow>
    read_chain s i (blk_md (blocks s i)) bc buf = Inr (write_at buf bc (chain_data s (i # is)))"
proof (induction "is" arbitrary: i bc buf)
  case Nil
  then have "length (blk_data (blocks s i)) = 4016"
    using fs_typed_data [OF assms] by simp
  then show ?case
    using Nil by (simp add: read_chain.simps [of s i])
next
  case (Cons j js)
  have d: "length (blk_data (blocks s i)) = 4016" and j: "0 < j" "j < NUM_BLOCKS"
    using Cons.prems chain_head [of s j js] fs_typed_data [OF assms] by simp_all
  let ?buf = "write_at buf bc (blk_data (blocks s i))"
  have "read_chain s j (blk_md (blocks s j)) (bc + 4016) ?buf =
      Inr (write_at ?buf (bc + 4016) (chain_data s (j # js)))"
    using Cons.prems d by (intro Cons.IH) simp_all
  also have "write_at ?buf (bc + 4016) (chain_data s (j # js)) = write_at buf bc (chain_data s (i # j # js))"
    using write_at_append [of bc "blk_data (blocks s i)" buf] Cons.prems d by simp
  finally show ?case
    using Cons.prems d j by (simp add: read_chain.simps [of s i] read_md_ok)
qed

text \<open>What the writing loop leaves as it is: the metadata of every block but its link, the
  blocks off the chain, and the used blocks.\<close>

definition keeps :: "fs \<Rightarrow> fs \<Rightarrow> bool" where
  "keeps s s' \<longleftrightarrow>
     (\<forall>j. \<exists>x. blk_md (blocks s' j) = (blk_md (blocks s j))\<lparr>md_next := x\<rparr>) \<and>
     (\<forall>j. bitmap s' j \<noteq> bitmap s j \<longrightarrow> bitmap s j = 0 \<and> name_of s j = [])"

lemma md_link_self: "\<exists>x. m = m\<lparr>md_next := x\<rparr>"
  by (metis metadata.surjective metadata.update_convs(6))

lemma keeps_same:
  "(\<And>j. blk_md (blocks s' j) = blk_md (blocks s j)) \<Longrightarrow> bitmap s' = bitmap s \<Longrightarrow> keeps s s'"
  unfolding keeps_def by (metis metadata.surjective metadata.update_convs(6))

lemma keeps_name: "keeps s s' \<Longrightarrow> name_of s' j = name_of s j"
  unfolding keeps_def by (metis metadata.select_convs(1) metadata.surjective metadata.update_convs(6))

lemma keeps_size: "keeps s s' \<Longrightarrow> file_size (blk_md (blocks s' j)) = file_size (blk_md (blocks s j))"
  unfolding keeps_def by (metis metadata.select_convs(2) metadata.surjective metadata.update_convs(6))

lemma keeps_trans: "keeps s s1 \<Longrightarrow> keeps s1 s' \<Longrightarrow> keeps s s'"
proof -
  assume a: "keeps s s1" "keeps s1 s'"
  have "\<exists>x. blk_md (blocks s' j) = (blk_md (blocks s j))\<lparr>md_next := x\<rparr>" for j
  proof -
    obtain x y where "blk_md (blocks s1 j) = (blk_md (blocks s j))\<lparr>md_next := x\<rparr>"
      "blk_md (blocks s' j) = (blk_md (blocks s1 j))\<lparr>md_next := y\<rparr>"
      using a unfolding keeps_def by blast
    then show ?thesis by auto
  qed
  moreover have "bitmap s j = 0 \<and> name_of s j = []" if "bitmap s' j \<noteq> bitmap s j" for j
    using a that keeps_name [OF a(1), of j] unfolding keeps_def by metis
  ultimately show ?thesis unfolding keeps_def by blast
qed

lemma keeps_find:
  assumes "keeps s s'" "p \<noteq> []" 
  shows "find_file s' p = find_file s p"
proof (rule find_file_cong)
  fix i
  have "name_of s' i = name_of s i" by (rule keeps_name [OF assms(1)])
  moreover have "bitmap s' i = bitmap s i \<or> name_of s i = []"
    using assms(1) unfolding keeps_def by blast
  ultimately show "used s' i \<and> name_of s' i = p \<longleftrightarrow> used s i \<and> name_of s i = p"
    using assms(2) by (auto simp: used_def)
qed

definition fresh_free :: "fs \<Rightarrow> bool" where
  "fresh_free s \<longleftrightarrow> (\<forall>i \<in> free_set s. blk_md (blocks s i) = zero_md)"

definition written :: "fs \<Rightarrow> nat list \<Rightarrow> byte list \<Rightarrow> fs \<Rightarrow> nat list \<Rightarrow> bool" where
  "written s is bs s' is' \<longleftrightarrow> chain s' is' \<and> distinct is' \<and> fs_typed s' \<and>
     hd is' = hd is \<and> set is' \<subseteq> set is \<union> free_set s \<and>
     length is' \<le> max (length is) (needs (length bs)) \<and>
     take (length bs) (chain_data s' is') = bs \<and> 
     (\<forall>j. j \<notin> set is' \<longrightarrow> blocks s' j = blocks s j) \<and>
     (\<forall>j\<in>set is'. bitmap s' j \<noteq> 0) \<and> keeps s s'"


lemma written_full:
  assumes s1: "fs_typed s" "length bs0 = 4016" "length (blk_data (blocks s cur)) = 4016"
      "0 < cur" "cur < NUM_BLOCKS" "bitmap s cur \<noteq> 0"
      "blocks s1 = (blocks s)(cur := (blocks s cur)\<lparr>blk_md := (blk_md (blocks s cur))\<lparr>md_next := j\<rparr>, blk_data := bs0\<rparr>)"
      "keeps s s1" "free_set s1 \<subseteq> free_set s" "set (j # js) \<subseteq> set rest \<union> free_set s"
      "cur \<notin> set (j # js)" "length js \<le> length rest - 1" "bs \<noteq> []"
    and w: "written s1 (j # js) bs s' is'"
  shows "written s (cur # rest) (bs0 @ bs) s' (cur # is')"
proof -
  have w: "chain s' is'" "distinct is'" "fs_typed s'" "hd is' = j"
    "set is' \<subseteq> set (j # js) \<union> free_set s1" "length is' \<le> max (Suc (length js)) (needs (length bs))"
    "take (length bs) (chain_data s' is') = bs" "\<And>k. k \<notin> set is' \<Longrightarrow> blocks s' k = blocks s1 k"
    "keeps s1 s'" "\<forall>j\<in>set is'. bitmap s' j \<noteq> 0"
    using w by (simp_all add: written_def)
  have cur: "cur \<notin> set is'"
    using w(5) s1(6,9,11) by (auto simp: free_set_def)
  then have b: "blocks s' cur = (blocks s cur)\<lparr>blk_md := (blk_md (blocks s cur))\<lparr>md_next := j\<rparr>, blk_data := bs0\<rparr>"
    using w(8) s1(7) by simp
  obtain ks where ks: "is' = j # ks" using w(1,4) by (cases is') auto
  have n: "needs (length (bs0 @ bs)) = Suc (needs (length bs))"
    using needs_step [of "4016 + length bs"] s1(2,13) by (cases bs) simp_all
  show ?thesis
    unfolding written_def
  proof (intro conjI)
    show "chain s' (cur # is')" using w(1) s1(4,5) b by (simp add: ks)
    show "set (cur # is') \<subseteq> set (cur # rest) \<union> free_set s"
      using w(5) s1(9,10) by auto
    show "length (cur # is') \<le> max (length (cur # rest)) (needs (length (bs0 @ bs)))"
      using w(6) s1(12) n needs_pos [of "length bs"] by (cases rest) auto
    show "take (length (bs0 @ bs)) (chain_data s' (cur # is')) = bs0 @ bs"
      using w(7) s1(2) by (simp add: b)
    show "\<forall>k. k \<notin> set (cur # is') \<longrightarrow> blocks s' k = blocks s k"
      using w(8) s1(7) by simp
    show k: "keeps s s'" by (rule keeps_trans [OF s1(8) w(9)])
    have "bitmap s' cur \<noteq> 0" using k s1(6) unfolding keeps_def by metis
    then show "\<forall>j\<in>set (cur # is'). bitmap s' j \<noteq> 0" using w(10) by simp
  qed (use w cur in simp_all)
qed


lemma written_last:
  assumes "fs_typed s" "chain s (cur # rest)" "distinct (cur # rest)" "length bs \<le> 4016"
    "\<forall>j\<in>set (cur # rest). bitmap s j \<noteq> 0"
  shows "written s (cur # rest) bs (write_data O_RDWR cur bs s) (cur # rest)"
proof -
  let ?s = "write_data O_RDWR cur bs s"
  have c: "length (blk_data (blocks s cur)) = 4016"
    using fs_typed_data [OF assms(1)] chain_head [OF assms(2)] by simp
  show ?thesis
    unfolding written_def
  proof (intro conjI)
    show "chain ?s (cur # rest)"
      using assms(2) by (subst chain_cong [of _ _ s]) simp_all
    show "keeps s ?s" by (rule keeps_same) simp_all
    show "take (length bs) (chain_data ?s (cur # rest)) = bs"
      using assms(4) c by (simp add: write_at_def)
  qed (use assms in \<open>auto simp: fs_typed_write_data\<close>)
qed

text \<open>The step to the next block, on the chain or newly allocated.\<close>

lemma write_next_extends:
  assumes p: "fs_typed s" "chain s (cur # rest)" "distinct (cur # rest)"
    "\<forall>j\<in>set (cur # rest). bitmap s j \<noteq> 0" "fresh_free s"
    "needs n \<le> Suc (length rest) + card (free_set s)" and n: "4016 < n"
  shows "\<exists>j js s0. write_next cur (blk_md (blocks s cur)) s = Inr (s0, Some (j, blk_md (blocks s0 j))) \<and>
    fs_typed s0 \<and>
    blocks s0 = (blocks s)(cur := (blocks s cur)\<lparr>blk_md := (blk_md (blocks s cur))\<lparr>md_next := j\<rparr>\<rparr>) \<and>
    chain s0 (j # js) \<and> distinct (j # js) \<and> (\<forall>k\<in>set (j # js). bitmap s0 k \<noteq> 0) \<and> keeps s s0 \<and>
    free_set s0 \<subseteq> free_set s \<and> needs (n - 4016) \<le> Suc (length js) + card (free_set s0) \<and>
    set (j # js) \<subseteq> set rest \<union> free_set s \<and> cur \<notin> set (j # js) \<and> length js \<le> length rest - 1"
proof (cases rest)
  case (Cons j js)
  let ?m = "blk_md (blocks s cur)"
  have c: "md_next ?m = j" "0 < cur" "cur < NUM_BLOCKS" "chain s (j # js)" 
    using p(2) by (simp_all add: Cons)
  have same: "?m\<lparr>md_next := j\<rparr> = ?m" using c(1) by simp
  have "write_next cur ?m s = Inr (s, Some (j, blk_md (blocks s j)))"
    using c chain_head [OF c(4)] by (simp add: write_next_def read_md_ok)
  moreover have "needs (n - 4016) \<le> Suc (length js) + card (free_set s)"
    using p(6) needs_step [OF n] by (simp add: Cons)
  moreover have "keeps s s" by (rule keeps_same) simp_all
  ultimately show ?thesis
    using p(1,3,4) c(4) unfolding Cons
    by (intro exI [of _ j] exI [of _ js] exI [of _ s] conjI) (simp_all add: same subset_insertI2)
next
  case Nil
  let ?m = "blk_md (blocks s cur)"
  have c: "md_next ?m = 0" "0 < cur" "cur < NUM_BLOCKS" "bitmap s cur \<noteq> 0" using p(2,4) by (simp_all add: Nil)
  have "1 \<le> card (free_set s)"
    using p(6) needs_step [OF n] needs_pos [of "n - 4016"] by (simp add: Nil)
  then have "free_set s \<noteq> {}" by auto
  then obtain i where i: "first_free s = Some i"
    using first_free_None [of s] by (cases "first_free s") (auto simp: free_set_def)
  note fi = first_free_SomeD(1-3) [OF i]
  have ni: "i \<noteq> cur" using fi c by auto
  let ?s0 = "write_md O_RDWR cur (?m\<lparr>md_next := i\<rparr>) (bm_set i 1 s)"
  have f: "free_set ?s0 = free_set s - {i}" by (auto simp: free_set_def)
  have mem: "i \<in> free_set s" using fi by (simp add: free_set_def)
  then have z: "blk_md (blocks s i) = zero_md" using p(5) by (simp add: fresh_free_def)
  have "card (free_set s) = Suc (card (free_set ?s0))"
    unfolding f by (rule card.remove [OF finite_free_set mem])
  then have "needs (n - 4016) \<le> Suc 0 + card (free_set ?s0)"
    using p(6) needs_step [OF n] by (simp add: Nil)
  moreover have "write_next cur ?m s = Inr (?s0, Some (i, blk_md (blocks ?s0 i)))"
    using c i ni z by (simp add: write_next_def)
  moreover have "fs_typed ?s0"
    using p(1) fs_typed_md [OF p(1) c(3)] fi by (intro fs_typed_intros) simp_all
  moreover have "chain ?s0 [i]" using fi z ni by (simp add: zero_md_def)
  moreover have "keeps s ?s0"
    unfolding keeps_def
  proof (intro conjI allI impI)
    show "\<exists>x. blk_md (blocks ?s0 k) = (blk_md (blocks s k))\<lparr>md_next := x\<rparr>" for k
      using md_link_self [of "blk_md (blocks s k)"] by (cases "k = cur") auto
    show "bitmap s k = 0" "name_of s k = []" if "bitmap ?s0 k \<noteq> bitmap s k" for k
      using that fi z by (auto simp: zero_md_def split: if_splits)
  qed
  ultimately show ?thesis
    using ni mem f unfolding Nil by (intro exI [of _ i] exI [of _ "[]"] exI [of _ ?s0] conjI) simp_all
qed

lemma write_loop_written:
  assumes "fs_typed s" "chain s (cur # rest)" "distinct (cur # rest)"
    "\<forall>j\<in>set (cur # rest). bitmap s j \<noteq> 0" "fresh_free s"
    "needs n \<le> Suc (length rest) + card (free_set s)" "bw + n \<le> length buf"
  shows "\<exists>s' is'. write_loop cur (blk_md (blocks s cur)) n bw buf s = Inr (s', Inr ()) \<and>
    written s (cur # rest) (take n (drop bw buf)) s' is'"
  using assms
proof (induction n arbitrary: cur rest bw s rule: less_induct)
  case (less n)
  note p = less.prems
  let ?m = "blk_md (blocks s cur)"
  show ?case
  proof (cases "4016 < n")
    case False
    then show ?thesis
      using written_last [OF p(1,2,3) _ p(4), of "take n (drop bw buf)"]
      by (intro exI [of _ "write_data O_RDWR cur (take n (drop bw buf)) s"] exI [of _ "cur # rest"])
        (simp add: write_loop.simps [of cur])
  next
    case True
    let ?blk = "take 4016 (drop bw buf)" and ?bs = "take (n - 4016) (drop (bw + 4016) buf)"
    have cur: "0 < cur" "cur < NUM_BLOCKS" "length (blk_data (blocks s cur)) = 4016" "bitmap s cur \<noteq> 0"
      using chain_head [OF p(2)] fs_typed_data [OF p(1)] p(4) by simp_all
    have l0: "length ?blk = 4016" using True p(7) by simp
    have l1: "?bs \<noteq> []" using True p(7) by simp
    have split: "take n (drop bw buf) = ?blk @ ?bs"
      using True take_add [of 4016 "n - 4016" "drop bw buf"] by (simp add: drop_drop add.commute)
    have full: "write_at (blk_data (blocks s cur)) 0 ?blk = ?blk"
      using l0 cur(3) by (simp add: write_at_def)
    obtain j js s0 where nxt: "write_next cur ?m s = Inr (s0, Some (j, blk_md (blocks s0 j)))"
      and s0: "fs_typed s0" "blocks s0 = (blocks s)(cur := (blocks s cur)\<lparr>blk_md := ?m\<lparr>md_next := j\<rparr>\<rparr>)"
        "chain s0 (j # js)" "distinct (j # js)" "\<forall>k\<in>set (j # js). bitmap s0 k \<noteq> 0" "keeps s s0"
        "free_set s0 \<subseteq> free_set s" "needs (n - 4016) \<le> Suc (length js) + card (free_set s0)"
        "set (j # js) \<subseteq> set rest \<union> free_set s" "cur \<notin> set (j # js)" "length js \<le> length rest - 1"
      using write_next_extends [OF p(1-6) True] by blast
    let ?s1 = "write_data O_RDWR cur ?blk s0"
    have b1: "blocks ?s1 = (blocks s)(cur := (blocks s cur)\<lparr>blk_md := ?m\<lparr>md_next := j\<rparr>, blk_data := ?blk\<rparr>)"
      by (simp add: s0(2) full) 
    have k1: "keeps s ?s1"
      by (rule keeps_trans [OF s0(6)]) (rule keeps_same; simp)
    have f1: "free_set ?s1 = free_set s0" by (simp add: free_set_def)
    have "chain ?s1 (j # js)" using s0(3) by (subst chain_cong [of _ _ s0]) simp_all
    moreover have "fs_typed ?s1" using s0(1) by (intro fs_typed_write_data) simp_all
    moreover have "fresh_free ?s1"
      using p(5) s0(7) cur(4) unfolding fresh_free_def f1 b1 by (auto simp: free_set_def)
    ultimately obtain s' is' where w: "write_loop j (blk_md (blocks ?s1 j)) (n - 4016) (bw + 4016) buf ?s1
          = Inr (s', Inr ())" "written ?s1 (j # js) ?bs s' is'"
      using less.IH [of "n - 4016" ?s1 j js "bw + 4016"] True s0(4,5,8) p(7) by (auto simp: f1)
    have "written s (cur # rest) (?blk @ ?bs) s' (cur # is')"
      by (rule written_full [OF p(1) l0 cur(3) cur(1,2,4) b1 k1 _ s0(9,10,11) l1 w(2)])
        (use s0(7) in \<open>simp only: f1\<close>)
    moreover have "write_loop cur ?m n bw buf s = Inr (s', Inr ())"
      using True w(1) s0(10) by (auto simp: write_loop.simps [of cur] nxt)
    ultimately show ?thesis
      unfolding split by blast
  qed
qed


definition file_chain :: "fs \<Rightarrow> string \<Rightarrow> nat list \<Rightarrow> bool" where
  "file_chain s p is \<longleftrightarrow> chain s is \<and> distinct is \<and> find_file s p = Some (hd is) \<and>
     (\<forall>j\<in>set is. bitmap s j \<noteq> 0) \<and> length is \<le> 32"

definition file_bytes :: "fs \<Rightarrow> nat list \<Rightarrow> byte list" where
  "file_bytes s is = take (nat (file_size (blk_md (blocks s (hd is))))) (chain_data s is)"

lemma file_chain_cons:
  assumes "file_chain s p is"
  obtains i js where "is = i # js"
  using assms by (cases "is") (auto simp: file_chain_def)

lemma clip_read:
  "take n (drop off (take (nat fs) d)) =
     (if int off < fs then take (if int off + int n > fs then nat fs - off else n) (drop off d) else [])"
  by (auto simp: drop_take min_def)

lemma hello_read_chain:
  assumes s: "fs_typed s" "file_chain s p is" "length buf0 = 131072"
    and sz: "file_size (blk_md (blocks s (hd is))) \<le> int (4016 * length is)"
  shows "hello_read p n off t m0 buf0 s =
    Inr (write_md O_RDWR (hd is) ((blk_md (blocks s (hd is)))\<lparr>access_time := t\<rparr>) s,
         Inr (take n (drop off (file_bytes s is))))"
proof -
  obtain i js where "is": "is = i # js" using file_chain_cons [OF s(2)] .
  have c: "chain s (i # js)" "find_file s p = Some i" "length js < 32"
    using s(2) by (simp_all add: file_chain_def "is")
  note i = chain_head [OF c(1)]
  let ?fs = "file_size (blk_md (blocks s i))"
  define d where "d = chain_data s (i # js)"
  have l: "length d = 4016 * Suc (length js)"
    using length_chain_data [OF s(1), of "i # js"] chain_range [OF c(1)] unfolding d_def by auto
  have r: "read_chain s i (blk_md (blocks s i)) 0 buf0 = Inr (write_at buf0 0 d)"
    using c s(3) unfolding d_def by (intro read_chain_data [OF s(1)]) simp_all
  let ?n = "if int off + int n > ?fs then nat ?fs - off else n"
  have b: "take k (drop off (write_at buf0 0 d)) = take k (drop off d)" if "off + k \<le> length d" for k
    using that l c(3) s(3) by (intro take_drop_write_at_0) simp_all
  have fits: "int off < ?fs \<Longrightarrow> off + ?n \<le> length d" 
    using sz l by (auto simp: "is")
  show ?thesis
    unfolding hello_read_def scan_Some [OF c(2)] prod.case option.case r rbind_simps Let_def
      file_bytes_def "is" list.sel clip_read d_def [symmetric]
    using fits b [of ?n] i l c(3) by (auto simp: read_md_ok)
qed

lemma hello_write_chain:
  assumes s: "fs_typed s" "file_chain s p is" "fresh_free s" "length buf0 = 131072" "p \<noteq> []"
    and n: "off + length bs \<le> 4016 * 32" "off \<le> 4016 * length is"
      "needs (off + length bs) \<le> length is + card (free_set s)"
  shows "\<exists>s' is'. hello_write p bs off t1 t2 m0 buf0 s = Inr (s', Inr (length bs)) \<and>
    fs_typed s' \<and> file_chain s' p is' \<and> hd is' = hd is \<and>
    file_size (blk_md (blocks s' (hd is'))) = int (off + length bs) \<and>
    file_bytes s' is' = take off (chain_data s is) @ bs"
proof -
  obtain i js where "is": "is = i # js" using file_chain_cons [OF s(2)] .
  have c: "chain s (i # js)" "distinct (i # js)" "find_file s p = Some i" "length js < 32"
    "\<forall>j\<in>set (i # js). bitmap s j \<noteq> 0"
    using s(2) by (simp_all add: file_chain_def "is")
  note i = chain_head [OF c(1)]
  let ?n = "off + length bs" and ?d = "chain_data s (i # js)"
  let ?m = "(blk_md (blocks s i))\<lparr>file_size := int ?n, access_time := t1, modify_time := t2\<rparr>"
  let ?s1 = "write_md O_RDWR i ?m s"
  let ?buf = "write_at (write_at buf0 0 ?d) off bs"
  have l: "length ?d = 4016 * Suc (length js)"
    using length_chain_data [OF s(1), of "i # js"] chain_range [OF c(1)] by auto
  have r: "read_chain s i (blk_md (blocks s i)) 0 buf0 = Inr (write_at buf0 0 ?d)"
    using c s(4) by (intro read_chain_data [OF s(1)]) simp_all
  have sz: "sint (of_nat ?n :: c_int) = int ?n"
    by (rule int_size_small) (use n in simp)
  have buf: "length ?buf = 131072" "take ?n ?buf = take off ?d @ bs"
    using l c(4) s(4) n by (simp_all add: write_at_def "is")
  have t1: "fs_typed ?s1"
    using fs_typed_md [OF s(1)] i n s(1) by (intro fs_typed_write_md) (simp_all add: md_ok_def)
  have f1: "free_set ?s1 = free_set s" by (simp add: free_set_def)
  have ff: "fresh_free ?s1"
    using s(3) c(5) unfolding fresh_free_def f1 by (auto simp: free_set_def)
  have ch: "chain ?s1 (i # js)" using c(1) by (subst chain_cong [of _ _ s]) simp_all
  have "needs ?n \<le> Suc (length js) + card (free_set ?s1)"
    using n(3) unfolding f1 "is" by simp
  from write_loop_written [OF t1 ch c(2) _ ff this, of 0 ?buf] c(5) n buf(1)
  obtain s2 is2 where w: "write_loop i ?m ?n 0 ?buf ?s1 = Inr (s2, Inr ())"
    "written ?s1 (i # js) (take ?n ?buf) s2 is2"
    by auto
  let ?s' = "write_bitmap O_RDWR s2"
  have hw: "hello_write p bs off t1 t2 m0 buf0 s = Inr (?s', Inr (length bs))"
    unfolding hello_write_def scan_Some [OF c(3)] prod.case option.case r rbind_simps Let_def
      sz nat_int read_md_ok [OF conjunct1 [OF i] conjunct2 [OF i]] w sum.case
    using n by simp
  have w2: "chain s2 is2" "distinct is2" "fs_typed s2" "hd is2 = i" "keeps ?s1 s2"
    "length is2 \<le> max (Suc (length js)) (needs ?n)" "take ?n (chain_data s2 is2) = take off ?d @ bs"
    using w(2) buf l n by (simp_all add: written_def "is")
  obtain ks where ks: "is2 = i # ks" using w2(1,4) by (cases is2) auto
  have f: "find_file ?s' p = Some i"
  proof -
    have "find_file ?s' p = find_file s2 p" by (simp add: find_file_def)
    also have "\<dots> = find_file ?s1 p" by (rule keeps_find [OF w2(5) s(5)])
    also have "\<dots> = find_file s p" by (rule find_file_cong) (auto simp: used_def)
    finally show ?thesis using c(3) by simp
  qed
  have "needs ?n \<le> 32" by (rule needs_le) (use n(1) in simp_all)
  then have "length is2 \<le> 32" using w2(6) c(4) by simp
  moreover have "chain ?s' is2" using w2(1) by (subst chain_cong [of _ _ s2]) simp_all
  moreover have "\<forall>j\<in>set is2. bitmap ?s' j \<noteq> 0" using w(2) by (simp add: written_def)
  ultimately have fc: "file_chain ?s' p is2" using f w2(2,4) by (simp add: file_chain_def)
  have fs: "file_size (blk_md (blocks ?s' i)) = int ?n"
    using keeps_size [OF w2(5), of i] by simp
  have "chain_data ?s' is2 = chain_data s2 is2" by (rule chain_data_cong) simp
  then have "file_bytes ?s' is2 = take off (chain_data s is) @ bs"
    using w2(7) unfolding file_bytes_def w2(4) fs nat_int by (simp only: "is")
  then show ?thesis
    using hw fc fs w2(3,4) by (intro exI [of _ ?s'] exI [of _ is2]) (simp add: "is" fs_typed_bitmap)
qed

end
