(* ===== verification/FileSysProps.thy ===== *)
theory FileSysProps
  imports FileSysChain
begin

text \<open>
  The properties of the file system of asgn4/hello.c, with the states their witnesses use.
\<close>


subsection \<open>Concrete states for the witnesses\<close>

definition mounted :: fs where
  "mounted = the (hello_main new_disk)"

definition plain_env :: fs_env where
  "plain_env = \<lparr>env_t1 = zero_time, env_t2 = zero_time, env_md = zero_md,
     env_buf = replicate MAX_REQUEST_SIZE 0, env_bytes = (\<lambda>_. [])\<rparr>"

lemma mounted_main: "hello_main new_disk = Some mounted"
  by (simp add: mounted_def hello_main_new_disk)


lemma mounted_fields: "bitmap mounted = (\<lambda>_. 0)(0 := 1)" "disk_bitmap mounted = (\<lambda>_. 0)(0 := 1)"
  "blocks mounted = (\<lambda>_. blank_block)"
  by (simp_all add: mounted_def hello_main_new_disk) (simp_all add: new_disk_def)

text \<open>The mounted file system with one file in block 1, and metadata of a file long removed in
  block 2.\<close>

definition one_file :: fs where
  "one_file = write_md O_RDWR 1 (zero_md\<lparr>filename := ''/a''\<rparr>)
     (write_bitmap O_RDWR (bm_set 1 1 mounted))"

definition one_file_stale :: fs where
  "one_file_stale = write_md O_RDWR 2 (zero_md\<lparr>filename := ''/gone''\<rparr>) one_file"

text \<open>The file of two blocks.\<close>

definition two_blocks :: fs where
  "two_blocks = write_md O_RDWR 1 (zero_md\<lparr>filename := ''/a'', file_size := 5000, md_next := 2\<rparr>)
     (write_bitmap O_RDWR (bm_set 2 1 one_file))"

lemma one_file_fields:
  "bitmap one_file = (\<lambda>_. 0)(0 := 1, 1 := 1)" "disk_bitmap one_file = (\<lambda>_. 0)(0 := 1, 1 := 1)"
  "blocks one_file = (\<lambda>_. blank_block)(1 := blank_block\<lparr>blk_md := zero_md\<lparr>filename := ''/a''\<rparr>\<rparr>)"
  by (simp_all add: one_file_def mounted_fields fun_upd_twist)

lemma stale_fields:
  "bitmap one_file_stale = (\<lambda>_. 0)(0 := 1, 1 := 1)"
  "blocks one_file_stale = (\<lambda>_. blank_block)(1 := blank_block\<lparr>blk_md := zero_md\<lparr>filename := ''/a''\<rparr>\<rparr>,
     2 := blank_block\<lparr>blk_md := zero_md\<lparr>filename := ''/gone''\<rparr>\<rparr>)"
  by (simp_all add: one_file_stale_def one_file_fields)

lemma two_fields:
  "bitmap two_blocks = (\<lambda>_. 0)(0 := 1, 1 := 1, 2 := 1)"
  "disk_bitmap two_blocks = (\<lambda>_. 0)(0 := 1, 1 := 1, 2 := 1)"
  "blocks two_blocks = (\<lambda>_. blank_block)
     (1 := blank_block\<lparr>blk_md := zero_md\<lparr>filename := ''/a'', file_size := 5000, md_next := 2\<rparr>\<rparr>)"
  by (simp_all add: two_blocks_def one_file_fields)

lemma block_numbers: "[Suc 0..<NUM_BLOCKS] = Suc 0 # 2 # [3..<NUM_BLOCKS]"
  by (simp add: NUM_BLOCKS_def upt_conv_Cons)

lemma blank_fields [simp]: "length (blk_data blank_block) = 4016" "blk_md blank_block = zero_md"
  by (simp_all add: blank_block_def)

lemma small_block_numbers [simp]: "Suc 0 < NUM_BLOCKS" "2 < NUM_BLOCKS"
  by (simp_all add: NUM_BLOCKS_def)

lemma sample_files:
  "find_file one_file ''/a'' = Some 1" "find_file one_file_stale ''/a'' = Some 1"
  "find_file two_blocks ''/a'' = Some 1" "find_file one_file_stale ''/gone'' = None"
  "first_free one_file_stale = Some 2" "find_file (read_bitmap two_blocks) ''/a'' = Some 1"
  by (simp_all add: find_file_def first_free_def block_numbers one_file_fields stale_fields two_fields
      find_None_iff)

lemma one_file_typed: "fs_typed one_file"
  by (auto simp: fs_typed_def one_file_fields md_ok_def zero_md_def)

text \<open>
  C5: While every file fits in one block, the code implements its specification on the calls that
  \<open>fs_pre\<close> admits: the created names start with '/' and have 2 to 19 characters, a write ends within one
  block and does not start past the end of its file, truncate asks for at most a block, and the
  request buffer has its full size. For every history of such calls from a file system in which
  \<open>small_ok\<close> holds (a newly formatted one does), whatever the clock, the stack and the order of the
  calls are, no call faults, the reply of each call is the reply of a map from names to contents, with
  its errors ENOENT, EEXIST and ENOMEM (exactly when all blocks hold files, so a full disk is
  included), and the file system left stands for the map the specification leaves. The contract also
  records how far it is from a usual file system: a write drops what followed the written range, and
  truncate changes nothing. A longer name is not covered: hello_create refuses it with ENAMETOOLONG
  but leaves a block marked as used (\<open>create_too_long_leaks\<close>), which no map of files stands for.
\<close>

theorem file_system_refines:
  assumes "small_ok s" "pre_steps fs_pre fs_spec ops (abs_fs s)"
  shows "\<exists>s' rs. run_steps hello_oper ops s = Inr (s', rs) \<and> small_ok s' \<and>
    spec_steps fs_spec ops (abs_fs s) = (abs_fs s', map observe rs)"
  using assms by (rule hello.runs)

theorem file_system_refines_witness:
  "\<exists>s' rs. run_steps hello_oper [(plain_env, Create ''/a''), (plain_env, Write ''/a'' [1, 2, 3] 0),
       (plain_env, Read ''/a'' 10 1), (plain_env, Readdir ''/'')] mounted = Inr (s', rs) \<and>
     map observe rs = [Inr Done, Inr (Count 3), Inr (Bytes [2, 3]), Inl {''.'', ''..'', ''a''}]"
proof -
  let ?ops = "[(plain_env, Create ''/a''), (plain_env, Write ''/a'' [1, 2, 3] 0),
       (plain_env, Read ''/a'' 10 1), (plain_env, Readdir ''/'')]"
  note m = mounted_small [OF mounted_main]
  have "spec_steps fs_spec ?ops Map.empty = 
     ([''/a'' \<mapsto> \<lparr>content = [1, 2, 3], born = zero_time, changed = zero_time\<rparr>],
      [Inr Done, Inr (Count 3), Inr (Bytes [2, 3]), Inl {''.'', ''..'', ''a''}])"
    by (simp add: plain_env_def answer_def NUM_BLOCKS_def insert_commute)
  moreover have "pre_steps fs_pre fs_spec ?ops Map.empty"
    by (simp add: plain_env_def fs_pre_def answer_def NUM_BLOCKS_def file_path_def)
  ultimately show ?thesis
    using file_system_refines [of mounted ?ops] m(1,2) by auto
qed

text \<open>
  C13: Writing to a file of any number of blocks and reading it back. When enough blocks are free,
  and the free blocks have not been used since formatting (\<open>fresh_free\<close>; on a block that was used
  before, the links that a removed file left in it are followed, see C39), a write of at most 32
  blocks in all that does not start past the end of the chain returns its size, and afterwards a read of any
  range returns that range of the old bytes before the offset followed by the written ones.
\<close>

theorem write_then_read:
  assumes "fs_typed s" "file_chain s p is" "fresh_free s" "p \<noteq> []"
    "length buf0 = MAX_REQUEST_SIZE" "length buf1 = MAX_REQUEST_SIZE"
    "off + length bs \<le> 32 * USABLE_SPACE" "off \<le> USABLE_SPACE * length is"
    "needs (off + length bs) \<le> length is + card (free_set s)"
  shows "\<exists>s' s''. hello_write p bs off t1 t2 m0 buf0 s = Inr (s', Inr (length bs)) \<and>
    hello_read p n o' t m1 buf1 s' = Inr (s'', Inr (take n (drop o' (take off (chain_data s is) @ bs))))"
proof -
  obtain s' is' where w: "hello_write p bs off t1 t2 m0 buf0 s = Inr (s', Inr (length bs))" "fs_typed s'"
    "file_chain s' p is'" "file_size (blk_md (blocks s' (hd is'))) = int (off + length bs)"
    "file_bytes s' is' = take off (chain_data s is) @ bs"
    using hello_write_chain [OF assms(1-3) _ assms(4), of buf0 off bs t1 t2 m0] assms(5,7-9) by auto
  have r: "\<And>i. i \<in> set is \<Longrightarrow> i < NUM_BLOCKS" "\<And>i. i \<in> set is' \<Longrightarrow> i < NUM_BLOCKS"
    using assms(2) w(3) chain_range unfolding file_chain_def by blast+
  have "length (file_bytes s' is') = off + length bs"
    unfolding w(5) using assms(8) length_chain_data [OF assms(1) r(1)] by simp
  then have "off + length bs \<le> 4016 * length is'"
    using length_chain_data [OF w(2) r(2)] w(4) by (simp add: file_bytes_def)
  then have "hello_read p n o' t m1 buf1 s' =
     Inr (write_md O_RDWR (hd is') ((blk_md (blocks s' (hd is')))\<lparr>access_time := t\<rparr>) s',
       Inr (take n (drop o' (file_bytes s' is'))))"
    using assms(6) w(4) by (intro hello_read_chain [OF w(2,3)]) simp_all
  then show ?thesis
    using w(1,5) by simp
qed


theorem write_then_read_witness:
  "\<exists>s' s''. hello_write ''/a'' (replicate 5000 7) 0 zero_time zero_time zero_md
       (replicate MAX_REQUEST_SIZE 0) one_file = Inr (s', Inr 5000) \<and>
     hello_read ''/a'' 3 4500 zero_time zero_md (replicate MAX_REQUEST_SIZE 0) s' =
       Inr (s'', Inr [7, 7, 7])"
proof -
  have f: "free_set one_file = {2..<400}"
    by (auto simp: free_set_def one_file_fields NUM_BLOCKS_def)
  have "file_chain one_file ''/a'' [1]"
    by (simp add: file_chain_def sample_files) (simp add: one_file_fields zero_md_def)
  moreover have "fresh_free one_file"
    by (simp add: fresh_free_def f) (simp add: one_file_fields)
  moreover have "needs 5000 = 2" by (simp add: needs_def)
  ultimately show ?thesis
    using write_then_read [OF one_file_typed, of "''/a''" "[1]" "replicate MAX_REQUEST_SIZE 0"
        "replicate MAX_REQUEST_SIZE 0" 0 "replicate 5000 7" zero_time zero_time zero_md 3 4500
        zero_time zero_md]
    by (simp add: f numeral_3_eq_3)
qed



lemma unlink_loop_chain:
  "chain s (i # js) \<Longrightarrow> length js < n \<Longrightarrow> blocks s0 = blocks s \<Longrightarrow>
   unlink_loop n (blk_md (blocks s i)) s0 =
     Inr (s0\<lparr>bitmap := (\<lambda>k. if k \<in> set js then 0 else bitmap s0 k)\<rparr>)"
proof (induction js arbitrary: i n s0)
  case Nil
  then show ?case by (cases n) (simp_all add: unlink_loop.simps)
next
  case (Cons j js)
  then obtain m where n: "n = Suc m" by (cases n) auto
  have j: "0 < j" "j < NUM_BLOCKS" "md_next (blk_md (blocks s i)) = j"
    using Cons.prems chain_head [of s j js] by simp_all
  have "unlink_loop m (blk_md (blocks s j)) (bm_set j 0 s0) =
      Inr ((bm_set j 0 s0)\<lparr>bitmap := (\<lambda>k. if k \<in> set js then 0 else bitmap (bm_set j 0 s0) k)\<rparr>)"
    using Cons.prems n by (intro Cons.IH) simp_all
  also have "\<dots> = Inr (s0\<lparr>bitmap := (\<lambda>k. if k \<in> set (j # js) then 0 else bitmap s0 k)\<rparr>)"
    by (simp add: bm_set_def fun_upd_def) (rule fs.unfold_congs; auto)
  finally show ?case
    using j Cons.prems(3) by (simp add: n unlink_loop.simps read_md_ok Let_def)
qed

text \<open>
  C34: Removing a file frees exactly the blocks of its chain, in memory and on disk, and writes no
  block; the loop over the chain ends because a chain has fewer blocks than the file.
\<close>

theorem unlink_frees_chain:
  assumes "chain s is" "distinct is" "find_file (read_bitmap s) p = Some (hd is)"
  shows "\<exists>s'. hello_unlink p m0 s = Inr (s', Inr ()) \<and> blocks s' = blocks s \<and>
    disk_bitmap s' = bitmap s' \<and>
    bitmap s' = (\<lambda>k. if k \<in> set is then 0 else disk_bitmap s k)"
proof -
  obtain i js where "is": "is = i # js" using assms(1) by (cases "is") auto
  have c: "chain (read_bitmap s) (i # js)"
    using assms(1) by (subst chain_cong [of _ _ s]) (simp_all add: "is")
  have "card (set is) \<le> card {1..<NUM_BLOCKS}"
    using chain_range [OF assms(1)] by (intro card_mono) (auto simp: Suc_le_eq)
  then have n: "length js < Suc NUM_BLOCKS"
    using distinct_card [OF assms(2)] by (simp add: "is")
  have f: "find_file (read_bitmap s) p = Some i" using assms(3) by (simp add: "is")
  show ?thesis
    using unlink_loop_chain [OF c n, of "bm_set i 0 (read_bitmap s)"]
    by (auto simp: hello_unlink_def scan_Some [OF f] "is" fun_eq_iff Let_def)
qed

theorem unlink_frees_chain_witness:
  "\<exists>s'. hello_unlink ''/a'' zero_md two_blocks = Inr (s', Inr ()) \<and> bitmap s' 1 = 0 \<and> bitmap s' 2 = 0"
proof -
  have "chain two_blocks [1, 2]"
    by (simp add: two_fields) (simp add: zero_md_def)
  then show ?thesis
    using unlink_frees_chain [of two_blocks "[1, 2]" "''/a''" zero_md] by (auto simp: sample_files)
qed


lemma getattr_found:
  assumes "used (read_bitmap s) j"
  shows "\<exists>st. snd (hello_getattr (name_of s j) m s) = Inr st"
proof -
  have "find_file (read_bitmap s) (name_of s j) \<noteq> None"
    unfolding find_file_None using assms by auto
  then obtain k where "find_file (read_bitmap s) (name_of s j) = Some k" by blast
  from scan_Some [OF this, of m] show ?thesis
    by (simp add: hello_getattr_def Let_def)
qed

text \<open>
  C39: A write that allocates its last block leaves that block's old metadata on disk, because the
  loop writes a block's metadata only when it links the block to a further one. A name that
  was removed, and that no lookup found before the write, is then found again.
\<close>

theorem stale_block_reappears:
  assumes "fs_typed s" "find_file s p = Some i" "md_next (blk_md (blocks s i)) = 0"
    "first_free s = Some j" "name_of s j = q" "find_file s q = None" "length buf0 = MAX_REQUEST_SIZE"
    "USABLE_SPACE < length bs" "length bs \<le> 2 * USABLE_SPACE"
  shows "\<exists>s' st. hello_write p bs 0 t1 t2 m0 buf0 s = Inr (s', Inr (length bs)) \<and>
    find_file s' q \<noteq> None \<and> snd (hello_getattr q m1 s') = Inr st"
proof -
  have i: "0 < i" "i < NUM_BLOCKS" using scan_Some_less [OF assms(2)] by simp_all
  note j = first_free_SomeD(1-3) [OF assms(4)]
  have ij: "i \<noteq> j" using find_file_SomeD [OF assms(2)] j(3) by (auto simp: used_def)
  let ?m = "blk_md (blocks s i)" and ?n = "length bs" and ?d = "blk_data (blocks s i)"
  let ?m' = "?m\<lparr>file_size := int ?n, access_time := t1, modify_time := t2\<rparr>"
  let ?buf = "write_at (write_at buf0 0 ?d) 0 bs"
  let ?s1 = "write_md O_RDWR i ?m' s"
  let ?s2 = "write_md O_RDWR i (?m'\<lparr>md_next := j\<rparr>) (bm_set j 1 ?s1)"
  let ?s3 = "write_data O_RDWR j (take (?n - 4016) (drop 4016 ?buf))
     (write_data O_RDWR i (take 4016 ?buf) ?s2)"
  have r: "read_chain s i ?m 0 buf0 = Inr (write_at buf0 0 ?d)"
    using assms(3) fs_typed_data [OF assms(1) i(2)] by (intro read_chain_last) simp_all
  have sz: "sint (of_nat (0 + ?n) :: c_int) = int ?n"
    using int_size_small [of ?n] assms(9) by simp
  have ff: "first_free ?s1 = Some j" using assms(4) by (simp add: first_free_def)
  have w1: "write_next i ?m' ?s1 = Inr (?s2, Some (j, zero_md))"
    using assms(3) ff by (simp add: write_next_def)
  have short: "\<not> 4016 < ?n - 4016" using assms(9) by simp
  have loop: "write_loop i ?m' ?n 0 ?buf ?s1 = Inr (?s3, Inr ())"
    using assms(8) short w1 by (simp add: write_loop.simps [of i] write_loop.simps [of j])
  let ?s' = "write_bitmap O_RDWR ?s3"
  have hw: "hello_write p bs 0 t1 t2 m0 buf0 s = Inr (?s', Inr ?n)"
    unfolding hello_write_def scan_Some [OF assms(2)] prod.case option.case r rbind_simps Let_def
      sz nat_int read_md_ok [OF i] loop sum.case
    using assms(9) by simp
  have u: "used ?s' j" "name_of ?s' j = q"
    using j(1,2) ij assms(5) by (simp_all add: used_def)
  then have f: "find_file ?s' q \<noteq> None" unfolding find_file_None by blast
  have "used (read_bitmap ?s') j" using j(1,2) ij by (simp add: used_def)
  from getattr_found [OF this] u(2) have "\<exists>st. snd (hello_getattr q m1 ?s') = Inr st" by simp
  then show ?thesis using hw f by blast
qed

theorem stale_block_reappears_witness:
  "find_file one_file_stale ''/gone'' = None \<and>
   (\<exists>s' st. hello_write ''/a'' (replicate 5000 7) 0 zero_time zero_time zero_md
       (replicate MAX_REQUEST_SIZE 0) one_file_stale = Inr (s', Inr 5000) \<and>
     find_file s' ''/gone'' \<noteq> None \<and> snd (hello_getattr ''/gone'' zero_md s') = Inr st)"
proof -
  have "fs_typed one_file_stale"
    unfolding one_file_stale_def by (intro fs_typed_intros one_file_typed) (simp add: md_ok_def zero_md_def)
  moreover have "md_next (blk_md (blocks one_file_stale 1)) = 0" "name_of one_file_stale 2 = ''/gone''"
    by (simp_all add: stale_fields zero_md_def)
  ultimately show ?thesis
    using stale_block_reappears [of one_file_stale "''/a''" 1 2 "''/gone''" "replicate MAX_REQUEST_SIZE 0"
        "replicate 5000 7" zero_time zero_time zero_md zero_md] by (simp add: sample_files)
qed

text \<open>
  hello_create takes a block for a name before it checks the length of the name. A name of 20
  characters or more gets ENAMETOOLONG, and the block stays marked as used, in memory and on
  disk, with whatever metadata it held: the name in it can be looked up from then on.
\<close>

theorem create_too_long_leaks:
  assumes "find_file (read_bitmap s) p = None" "first_free (read_bitmap s) = Some i"
    "MAX_FILENAME_LENGTH \<le> length p"
  shows "\<exists>s'. hello_create p t1 t2 m0 s = (s', Inl ENAMETOOLONG) \<and> blocks s' = blocks s \<and>
    bitmap s' = (disk_bitmap s)(i := 1) \<and> disk_bitmap s' = (disk_bitmap s)(i := 1) \<and>
    find_file s' (name_of s i) \<noteq> None"
proof -
  let ?s = "write_bitmap O_RDWR (bm_set i 1 (read_bitmap s))"
  obtain m where "scan (read_bitmap s) p m0 = (None, m)"
    using scan_None [OF assms(1)] by blast
  then have "hello_create p t1 t2 m0 s = (?s, Inl ENAMETOOLONG)"
    using assms(2,3) by (simp add: hello_create_def strnlen_def)
  moreover have "find_file ?s (name_of s i) \<noteq> None"
    unfolding find_file_None using first_free_SomeD(1,2) [OF assms(2)] by (auto simp: used_def)
  ultimately show ?thesis by auto
qed

theorem create_too_long_leaks_witness:
  "find_file one_file_stale ''/gone'' = None \<and>
   (\<exists>s'. hello_create ''/xxxxxxxxxxxxxxxxxxxx'' zero_time zero_time zero_md one_file_stale =
       (s', Inl ENAMETOOLONG) \<and> find_file s' ''/gone'' \<noteq> None)"
proof -
  have "read_bitmap one_file_stale = one_file_stale"
    by (simp add: read_bitmap_def stale_fields) (simp add: one_file_stale_def one_file_fields)
  moreover have "find_file one_file_stale ''/xxxxxxxxxxxxxxxxxxxx'' = None"
    by (simp add: find_file_def block_numbers stale_fields find_None_iff)
  moreover have "name_of one_file_stale 2 = ''/gone''" by (simp add: stale_fields)
  ultimately show ?thesis
    using create_too_long_leaks [of one_file_stale "''/xxxxxxxxxxxxxxxxxxxx''" 2 zero_time zero_time zero_md]
    by (auto simp: sample_files)
qed

text \<open>
  hello_write checks the size of the file after cutting it to an int. When offset plus size
  passes a multiple of 4 GB by at most 128 KB, the check lets the call pass and the copy goes
  beyond the stack buffer.
\<close>

theorem write_offset_wraps:
  assumes "find_file s p = Some i" "read_chain s i (blk_md (blocks s i)) 0 buf0 = Inr b"
    "off + length bs = 2 ^ 32 + r" "r \<le> MAX_REQUEST_SIZE"
  shows "hello_write p bs off t1 t2 m0 buf0 s = Inl (OutOfBounds ''buffer'')"
proof -
  have "(of_nat (2 ^ 32 + r) :: c_int) = of_nat r"
    by simp
  then have "sint (of_nat (off + length bs) :: c_int) = int r"
    unfolding assms(3) using int_size_small [of r] assms(4) by (simp only: fs_constants)
  then show ?thesis
    unfolding hello_write_def scan_Some [OF assms(1)] prod.case option.case assms(2) rbind_simps Let_def
    using assms(3,4) by simp
qed

theorem write_offset_wraps_witness:
  "hello_write ''/a'' [1] 4294967296 zero_time zero_time zero_md (replicate MAX_REQUEST_SIZE 0) one_file =
     Inl (OutOfBounds ''buffer'')"
proof -
  have "read_chain one_file 1 (blk_md (blocks one_file 1)) 0 (replicate MAX_REQUEST_SIZE 0) =
      Inr (write_at (replicate MAX_REQUEST_SIZE 0) 0 (blk_data (blocks one_file 1)))"
    by (intro read_chain_last) (simp_all add: one_file_fields zero_md_def)
  then show ?thesis
    by (rule write_offset_wraps [OF sample_files(1), where r = 1]) simp_all
qed

lemma trunc_grow_disk: "trunc_grow cur n s = Inr (s', r) \<Longrightarrow> blocks s' = blocks s \<and> disk_bitmap s' = disk_bitmap s"
proof (induction cur n s arbitrary: s' r rule: trunc_grow.induct)
  case (1 cur n s)
  show ?case
    using 1(3) unfolding trunc_grow.simps [of cur n s]
    by (auto split: if_splits option.splits dest: 1(1,2) [simplified])
qed

lemma free_chain_disk: "free_chain n cur s = Inr s' \<Longrightarrow> blocks s' = blocks s \<and> disk_bitmap s' = disk_bitmap s"
  by (induction n cur s rule: free_chain.induct) (auto simp: free_chain.simps split: if_splits)

text \<open>
  hello_truncate opens the backing file for reading only, so nothing it writes reaches the disk:
  no metadata, no link and no bitmap entry of the backing file changes. What it frees, it frees
  in memory only, while the chain on disk keeps its links.
\<close>

theorem truncate_never_writes:
  assumes "hello_truncate p n t1 t2 m0 s = Inr (s', r)"
  shows "blocks s' = blocks s \<and> disk_bitmap s' = disk_bitmap s"
proof (cases rule: scan_cases [of s p m0])
  case (there i)
  then show ?thesis
    using assms by (auto simp: hello_truncate_def Let_def split: if_splits sum.splits
        dest: trunc_grow_disk free_chain_disk)
qed (use assms in \<open>simp add: hello_truncate_def\<close>)

theorem truncate_never_writes_witness:
  "\<exists>s'. hello_truncate ''/a'' 10 zero_time zero_time zero_md two_blocks = Inr (s', Inr ()) \<and>
     bitmap s' 2 = 0 \<and> md_next (blk_md (blocks s' 1)) = 2 \<and> disk_bitmap s' 2 = 1"
proof -
  have b: "file_size (blk_md (blocks two_blocks (Suc 0))) = 5000" "md_next (blk_md (blocks two_blocks (Suc 0))) = 2"
    "md_next (blk_md (blocks two_blocks 2)) = 0"
    by (simp_all add: two_fields zero_md_def)
  have w: "trunc_walk (Suc 0) 10 two_blocks = Inr 2"
    using b by (simp add: trunc_walk.simps [of "Suc 0"] read_md_ok)
  have f: "free_chain (Suc NUM_BLOCKS) 2 two_blocks = Inr (bm_set 2 0 two_blocks)"
  proof -
    have "free_chain (Suc (Suc m)) 2 two_blocks = Inr (bm_set 2 0 two_blocks)" for m
      by (simp add: free_chain.simps read_md_ok b)
    from this [of 399] show ?thesis by (simp add: NUM_BLOCKS_def)
  qed
  have t: "hello_truncate ''/a'' 10 zero_time zero_time zero_md two_blocks = Inr (bm_set 2 0 two_blocks, Inr ())"
    by (simp add: hello_truncate_def scan_Some [OF sample_files(3)] b w f Let_def)
  then show ?thesis
    using truncate_never_writes [OF t] b by (simp add: two_fields)
qed

end
