(* ===== verification/Shell.thy ===== *)
theory Shell
  imports Prelude
begin

text \<open>
  The command loop of asgn1/argshell.c. The lexer's get_args hands over a NULL-terminated
  vector of words (\<open>None\<close> is the NULL pointer). What a line does is the system calls of the
  shell and of each process it forks, in order; fork returns in both processes, and an execvp
  that succeeds is the last event of its process. The results of the system calls are
  parameters (one record \<open>os\<close> per command the line runs), and so are the contents of
  uninitialised arrays. The printf calls of the loop are not modelled.
\<close>

definition SIZE :: nat where "SIZE = 256"

record os =
  os_fork :: int
  os_fork2 :: int
  os_open :: int
  os_dup2 :: int
  os_execvp :: int
  os_pipe :: int
  os_rd :: int
  os_wr :: int
  os_chdir :: int
  os_cwd :: string

type_synonym arg_vec = "string option list"

datatype event =
    Fork | Pipe | Wait
  | OpenRead "string option" | Creat "string option" | OpenAppend "string option"
  | Dup2 int int | Close int
  | Execvp "string option" "string list"
  | Getcwd | Chdir string
  | Perror string | Exit

record outcome =
  shell :: "event list"
  procs :: "event list list"
  exited :: bool

definition nothing :: outcome where
  "nothing = \<lparr>shell = [], procs = [], exited = False\<rparr>"

text \<open>What follows is done only when the shell is still there.\<close>

definition and_then :: "outcome \<Rightarrow> (fault + outcome) \<Rightarrow> fault + outcome" where
  "and_then a b = (if exited a then Inr a
     else rbind b (\<lambda>b. Inr \<lparr>shell = shell a @ shell b, procs = procs a @ procs b, exited = exited b\<rparr>))"

definition words :: "arg_vec \<Rightarrow> string list" where
  "words args = map the (takeWhile (\<lambda>a. a \<noteq> None) args)"

text \<open>The end of every child: execvp, and perror and exit when it returns.\<close>

definition exec_child :: "os \<Rightarrow> arg_vec \<Rightarrow> event list" where
  "exec_child os args = Execvp (args ! 0) (words args) #
     (if os_execvp os < 0 then [Perror ''Error: execvp failed to execute'', Exit] else [])"

definition redirect_child :: "os \<Rightarrow> event \<Rightarrow> int \<Rightarrow> arg_vec \<Rightarrow> event list" where
  "redirect_child os opening target args =
     [opening, Dup2 (os_open os) target] @
     (if os_dup2 os < 0 then [Perror ''Error: dup2 failed to execute'', Exit]
      else Close (os_open os) # exec_child os args)"

definition defaultCommand :: "os \<Rightarrow> arg_vec \<Rightarrow> outcome" where
  "defaultCommand os args =
    (if os_fork os < 0 then
       \<lparr>shell = [Fork, Perror ''Error: fork did not complete'', Exit], procs = [], exited = True\<rparr>
     else \<lparr>shell = [Fork, Wait], procs = [exec_child os args], exited = False\<rparr>)"

definition inputRedirect :: "os \<Rightarrow> arg_vec \<Rightarrow> string option \<Rightarrow> outcome" where
  "inputRedirect os args file =
    (if os_fork os < 0 then
       \<lparr>shell = [Fork, Perror ''Error: fork did not complete'', Exit], procs = [], exited = True\<rparr>
     else \<lparr>shell = [Fork, Wait], procs = [redirect_child os (OpenRead file) 0 args], exited = False\<rparr>)"

definition outputRedirect :: "os \<Rightarrow> arg_vec \<Rightarrow> string option \<Rightarrow> outcome" where
  "outputRedirect os args file =
    (if os_fork os < 0 then
       \<lparr>shell = [Fork, Perror ''Error: fork failed to execute''], procs = [], exited = False\<rparr>
     else \<lparr>shell = [Fork, Wait], procs = [redirect_child os (Creat file) 1 args], exited = False\<rparr>)"

definition outputRedirectAppend :: "os \<Rightarrow> arg_vec \<Rightarrow> string option \<Rightarrow> outcome" where
  "outputRedirectAppend os args file =
    (if os_fork os < 0 then
       \<lparr>shell = [Fork, Perror ''Error: fork failed to execute''], procs = [], exited = False\<rparr>
     else \<lparr>shell = [Fork, Wait], procs = [redirect_child os (OpenAppend file) 1 args], exited = False\<rparr>)"

subsection \<open>Pipes\<close>

text \<open>The two copying loops. \<open>slots\<close> are the 256 uninitialised pointers of the destination.\<close>

function pipe_left :: "arg_vec \<Rightarrow> nat \<Rightarrow> arg_vec \<Rightarrow> fault + arg_vec" where
  "pipe_left args j slots =
    (if length args \<le> j then Inl (OutOfBounds ''args'')
     else if args ! j = None then Inr slots
     else if length slots \<le> j then Inl (OutOfBounds ''pipeArgs'')
     else pipe_left args (Suc j) (slots[j := args ! j]))"
  by pat_completeness auto
termination
  by (relation "measure (\<lambda>(args, j, slots). length args - j)") auto

function pipe_right :: "arg_vec \<Rightarrow> nat \<Rightarrow> nat \<Rightarrow> arg_vec \<Rightarrow> fault + arg_vec" where
  "pipe_right args i k slots =
    (if length args \<le> k then Inl (OutOfBounds ''args'')
     else if args ! k = None then Inr slots
     else if length args \<le> Suc k \<or> length slots \<le> k - i then Inl (OutOfBounds ''pipeArgs2'')
     else pipe_right args i (Suc k) (slots[k - i := args ! Suc k]))"
  by pat_completeness auto
termination
  by (relation "measure (\<lambda>(args, i, k, slots). length args - k)") auto

definition pipe_end :: "os \<Rightarrow> int \<Rightarrow> int \<Rightarrow> int \<Rightarrow> arg_vec \<Rightarrow> event list" where
  "pipe_end os unused fd target args = [Close unused, Dup2 fd target] @
     (if os_dup2 os < 0 then [Perror ''Error: dup2 failed to execute'', Exit] else exec_child os args)"

definition pipeCommand ::
    "os \<Rightarrow> arg_vec \<Rightarrow> nat \<Rightarrow> arg_vec \<Rightarrow> arg_vec \<Rightarrow> fault + outcome" where
  "pipeCommand os args i slots slots2 =
    (let args = args[i := None] in
     rbind (pipe_left args 0 slots) (\<lambda>pipeArgs.
     rbind (pipe_right args i i slots2) (\<lambda>pipeArgs2.
     Inr (if os_pipe os = -1 then
         \<lparr>shell = [Pipe, Perror ''Error: pipe did not complete'', Exit], procs = [], exited = True\<rparr>
       else if os_fork os < 0 then
         \<lparr>shell = [Pipe, Fork, Perror ''Error: fork failed to execute'', Exit], procs = [], exited = True\<rparr>
       else
         \<lparr>shell = [Pipe, Fork, Wait],
          procs = (if os_fork2 os < 0 then [[Fork, Perror ''Error: fork failed to execute'', Exit]]
            else [Fork # pipe_end os (os_rd os) (os_wr os) 1 pipeArgs,
                  pipe_end os (os_wr os) (os_rd os) 0 pipeArgs2]),
          exited = False\<rparr>))))"

subsection \<open>Changing the directory\<close>

definition changeDirectory :: "os \<Rightarrow> arg_vec \<Rightarrow> fault + outcome" where
  "changeDirectory os args =
    (case args ! 1 of
       None \<Rightarrow> Inl (NullDeref ''args[1]'')
     | Some d \<Rightarrow>
         let absolute = (d \<noteq> [] \<and> hd d = CHR ''/'');
             dir = (if absolute then d else os_cwd os @ ''/'' @ d);
             calls = (if absolute then [] else [Getcwd]) @ [Chdir dir] in
         if SIZE \<le> length dir then Inl (OutOfBounds ''dir'')
         else if os_chdir os < 0 then
           Inr \<lparr>shell = calls @ [Perror ''Error: cd failed to execute'', Exit], procs = [], exited = True\<rparr>
         else Inr \<lparr>shell = calls, procs = [], exited = False\<rparr>)"

subsection \<open>The command loop\<close>

record world =
  w_os :: "nat \<Rightarrow> os"
  w_slots :: "nat \<Rightarrow> arg_vec"
  w_slots2 :: "nat \<Rightarrow> arg_vec"

text \<open>The loop over the words of a line, from word \<open>i\<close> on; when it ends the line is run once
  more as a plain command. pipeCommand has set \<open>args[i]\<close> to NULL when it returns.\<close>

function run_words :: "world \<Rightarrow> nat \<Rightarrow> arg_vec \<Rightarrow> fault + outcome" where
  "run_words w i args =
    (if length args \<le> i then Inl (OutOfBounds ''args'')
     else case args ! i of
       None \<Rightarrow> Inr (defaultCommand (w_os w i) args)
     | Some a \<Rightarrow>
         if a = ''<'' then
           let args = args[i := None] in
           and_then (inputRedirect (w_os w i) args (args ! Suc i)) (run_words w (Suc i) args)
         else if a = ''>'' then
           let args = args[i := None] in
           and_then (outputRedirect (w_os w i) args (args ! Suc i)) (run_words w (Suc i) args)
         else if a = ''>>'' then
           let args = args[i := None] in
           and_then (outputRedirectAppend (w_os w i) args (args ! Suc i)) (run_words w (Suc i) args)
         else if a = ''|'' then
           rbind (pipeCommand (w_os w i) args i (w_slots w i) (w_slots2 w i)) (\<lambda>out.
             and_then out (run_words w (Suc i) (args[i := None])))
         else run_words w (Suc i) args)"
  by pat_completeness auto
termination
  by (relation "measure (\<lambda>(w, i, args). length args - i)") (auto simp: Let_def)

definition run_line :: "world \<Rightarrow> arg_vec \<Rightarrow> fault + outcome" where
  "run_line w args =
    (case args ! 0 of
       None \<Rightarrow> Inr nothing
     | Some a \<Rightarrow>
         if a = ''cd'' then changeDirectory (w_os w 0) args
         else if a = ''exit'' then Inr \<lparr>shell = [Exit], procs = [], exited = True\<rparr>
         else run_words w 0 args)"

text \<open>The endless loop of main over the lines typed: it ends with the shell, or waits for more.\<close>

fun shell_main :: "(world \<times> arg_vec) list \<Rightarrow> fault + outcome" where
  "shell_main [] = Inr nothing"
| "shell_main ((w, args) # rest) =
     rbind (run_line w args) (\<lambda>out. and_then out (shell_main rest))"

declare pipe_left.simps [simp del] pipe_right.simps [simp del] run_words.simps [simp del]

end
