(* ===== verification/ShellProps.thy ===== *)
theory ShellProps
  imports Shell
begin

text \<open>
  The properties of the command loop of asgn1/argshell.c: what processes a line starts and with
  which argument vectors.
\<close>


definition plain_word :: "string \<Rightarrow> bool" where
  "plain_word a \<longleftrightarrow> a \<notin> {''<'', ''>'', ''>>'', ''|''}"

definition command :: "string list \<Rightarrow> bool" where
  "command ws \<longleftrightarrow> ws \<noteq> [] \<and> list_all plain_word ws \<and> hd ws \<notin> {''cd'', ''exit''}"

definition forks_ok :: "world \<Rightarrow> bool" where
  "forks_ok w \<longleftrightarrow> (\<forall>i. 0 \<le> os_fork (w_os w i))"

lemma words_map [simp]: "words (map Some ws @ None # rest) = ws"
  by (simp add: words_def takeWhile_append comp_def)

lemma and_then_Inr [simp]:
  "and_then a (Inr b) = Inr (if exited a then a else \<lparr>shell = shell a @ shell b,
     procs = procs a @ procs b, exited = exited b\<rparr>)"
  by (simp add: and_then_def)

text \<open>The loop passes over plain words.\<close>

lemma run_words_plain:
  assumes "\<forall>j\<in>{i..<k}. \<exists>a. args ! j = Some a \<and> plain_word a" "i \<le> k" "k < length args"
  shows "run_words w i args = run_words w k args"
  using assms(2,1)
proof (induction rule: inc_induct)
  case (step n)
  have "n \<in> {n..<k}" using step.hyps by simp
  then obtain a where a: "args ! n = Some a" "plain_word a" using step.prems by blast
  have "run_words w n args = run_words w (Suc n) args"
    using a step.hyps assms(3) by (subst run_words.simps) (simp add: plain_word_def)
  also have "\<dots> = run_words w k args" using step by simp
  finally show ?case .
qed simp

lemma run_words_end:
  "k < length args \<Longrightarrow> args ! k = None \<Longrightarrow> run_words w k args = Inr (defaultCommand (w_os w k) args)"
  by (subst run_words.simps) simp

lemma nth_words: "i < length ws \<Longrightarrow> (map Some ws @ rest) ! i = Some (ws ! i)"
  by (simp add: nth_append)

lemma run_line_command:
  "command ws \<Longrightarrow> run_line w (map Some ws @ rest) = run_words w 0 (map Some ws @ rest)"
  by (cases ws) (auto simp: run_line_def command_def)

text \<open>
  A line without redirections and pipes starts exactly one child, which executes the words of
  the line, and the shell waits once.
\<close>

theorem plain_command_once:
  assumes "command ws" "0 \<le> os_fork (w_os w (length ws))"
  shows "run_line w (map Some ws @ [None]) = Inr \<lparr>shell = [Fork, Wait],
    procs = [exec_child (w_os w (length ws)) (map Some ws @ [None])], exited = False\<rparr>"
proof -
  have "run_words w 0 (map Some ws @ [None]) = run_words w (length ws) (map Some ws @ [None])"
    using assms(1) by (intro run_words_plain) (auto simp: nth_words command_def list_all_length)
  then show ?thesis
    using assms by (simp add: run_line_command run_words_end nth_append defaultCommand_def)
qed

theorem plain_command_once_witness:
  "run_line \<lparr>w_os = (\<lambda>_. \<lparr>os_fork = 5, os_fork2 = 6, os_open = 3, os_dup2 = 0, os_execvp = -1,
       os_pipe = 0, os_rd = 4, os_wr = 5, os_chdir = 0, os_cwd = ''/''\<rparr>), w_slots = (\<lambda>_. []), w_slots2 = (\<lambda>_. [])\<rparr>
     [Some ''ls'', Some ''-l'', None] =
   Inr \<lparr>shell = [Fork, Wait], procs = [[Execvp (Some ''ls'') [''ls'', ''-l''],
     Perror ''Error: execvp failed to execute'', Exit]], exited = False\<rparr>"
  using plain_command_once [of "[''ls'', ''-l'']"
      "\<lparr>w_os = (\<lambda>_. \<lparr>os_fork = 5, os_fork2 = 6, os_open = 3, os_dup2 = 0, os_execvp = -1,
       os_pipe = 0, os_rd = 4, os_wr = 5, os_chdir = 0, os_cwd = ''/''\<rparr>), w_slots = (\<lambda>_. []), w_slots2 = (\<lambda>_. [])\<rparr>"]
  by (simp add: command_def plain_word_def exec_child_def words_def)

text \<open>Which child a redirection starts.\<close>

fun redirected :: "string \<Rightarrow> string \<Rightarrow> os \<Rightarrow> arg_vec \<Rightarrow> event list" where
  "redirected oper f os args =
     (if oper = ''<'' then redirect_child os (OpenRead (Some f)) 0 args
      else if oper = ''>'' then redirect_child os (Creat (Some f)) 1 args
      else redirect_child os (OpenAppend (Some f)) 1 args)"

text \<open>
  C38: A line with a redirection starts two children. The first has its input or output redirected
  to the file and executes the words before the operator; the loop over the words then ends and
  the line is run again as a plain command, so the second executes the same words without the
  redirection.
\<close>

theorem redirect_runs_twice:
  assumes "command ws" "oper \<in> {''<'', ''>'', ''>>''}" "plain_word f" "forks_ok w"
  shows "\<exists>out. run_line w (map Some ws @ [Some oper, Some f, None]) = Inr out \<and>
    procs out = [redirected oper f (w_os w (length ws)) (map Some ws @ [None, Some f, None]),
                 exec_child (w_os w (length ws + 2)) (map Some ws @ [None, Some f, None])] \<and>
    words (map Some ws @ [None, Some f, None]) = ws"
proof -
  let ?n = "length ws"
  let ?args = "map Some ws @ [Some oper, Some f, None]" and ?args' = "map Some ws @ [None, Some f, None]"
  have start: "run_words w 0 ?args = run_words w ?n ?args"
    using assms(1) by (intro run_words_plain) (auto simp: nth_words command_def list_all_length)
  have upd: "(map Some ws @ [Some c, Some f, None])[?n := None] = ?args'" for c
    by (simp add: list_update_append)
  have n: "?args ! ?n = Some oper" "?args' ! Suc ?n = Some f" "?args' ! Suc (Suc ?n) = None"
    by (simp_all add: nth_append)
  have "run_words w (Suc ?n) ?args' = run_words w (Suc (Suc ?n)) ?args'"
    using assms(3) n(2) by (intro run_words_plain) (auto simp: less_Suc_eq le_less)
  also have "\<dots> = Inr (defaultCommand (w_os w (Suc (Suc ?n))) ?args')"
    using n(3) by (intro run_words_end) simp_all
  finally have rest: "run_words w (Suc ?n) ?args' = Inr (defaultCommand (w_os w (Suc (Suc ?n))) ?args')" .
  have target: "?args ! Suc ?n = Some f" by (simp add: nth_append)
  have ok: "\<not> os_fork (w_os w j) < 0" for j using assms(4) by (simp add: forks_ok_def not_less)
  have "\<exists>out. run_words w ?n ?args = Inr out \<and>
      procs out = [redirected oper f (w_os w ?n) ?args', exec_child (w_os w (?n + 2)) ?args']"
    using assms(2) n(1,2) rest ok target
    by (subst run_words.simps) (auto simp: upd inputRedirect_def outputRedirect_def
        outputRedirectAppend_def defaultCommand_def Let_def)
  then show ?thesis
    using run_line_command [OF assms(1)] start words_map [of ws "[Some f, None]"] by simp
qed


lemma pipe_left_words:
  "length ws \<le> length slots \<Longrightarrow> j \<le> length ws \<Longrightarrow> take j slots = take j (map Some ws) \<Longrightarrow>
   pipe_left (map Some ws @ None # rest) j slots = Inr (map Some ws @ drop (length ws) slots)"
proof (induction "length ws - j" arbitrary: j slots)
  case 0
  then have "j = length ws" by simp
  then have "slots = map Some ws @ drop (length ws) slots"
    using 0 append_take_drop_id [of "length ws" slots] by simp
  then show ?case
    using \<open>j = length ws\<close> by (subst pipe_left.simps) (simp add: nth_append)
next
  case (Suc n)
  then have j: "j < length ws" by simp
  let ?slots = "slots[j := Some (ws ! j)]"
  have "take (Suc j) ?slots = take (Suc j) (map Some ws)"
    using Suc.prems j by (simp add: take_Suc_conv_app_nth)
  then have "pipe_left (map Some ws @ None # rest) (Suc j) ?slots =
      Inr (map Some ws @ drop (length ws) ?slots)"
    using Suc j by (intro Suc.hyps(1)) simp_all
  then show ?case
    using j Suc.prems(1) by (subst pipe_left.simps) (simp add: nth_append)
qed

text \<open>
  The right side of a pipe is never copied. pipeCommand overwrites the bar with NULL before the
  loop that copies the words after it, so that loop ends at once: whatever follows the bar, the
  right child executes the uninitialised array, and the left child's vector is the words before
  the bar followed by what was on the stack, with no NULL put after them.
\<close>

theorem pipe_loses_right_side:
  assumes "length ws \<le> length slots" "os_pipe os \<noteq> -1" "0 \<le> os_fork os" "0 \<le> os_fork2 os"
  shows "pipeCommand os (map Some ws @ Some ''|'' # rest) (length ws) slots slots2 =
    Inr \<lparr>shell = [Pipe, Fork, Wait],
      procs = [Fork # pipe_end os (os_rd os) (os_wr os) 1 (map Some ws @ drop (length ws) slots),
               pipe_end os (os_wr os) (os_rd os) 0 slots2],
      exited = False\<rparr>"
proof -
  have upd: "(map Some ws @ Some ''|'' # rest)[length ws := None] = map Some ws @ None # rest"
    by (simp add: list_update_append)
  have "pipe_right (map Some ws @ None # rest) (length ws) (length ws) slots2 = Inr slots2"
    by (subst pipe_right.simps) (simp add: nth_append)
  then show ?thesis
    using assms pipe_left_words [OF assms(1), of 0 rest]
    by (simp add: pipeCommand_def upd)
qed

theorem pipe_loses_right_side_witness:
  "\<exists>out. pipeCommand \<lparr>os_fork = 5, os_fork2 = 6, os_open = 3, os_dup2 = 0, os_execvp = 0,
       os_pipe = 0, os_rd = 4, os_wr = 5, os_chdir = 0, os_cwd = ''/''\<rparr>
     [Some ''ls'', Some ''|'', Some ''wc'', None] 1 [Some ''x'', None] [Some ''y'', None] = Inr out \<and>
     procs out = [[Fork, Close 4, Dup2 5 1, Execvp (Some ''ls'') [''ls'']],
                  [Close 5, Dup2 4 0, Execvp (Some ''y'') [''y'']]]"
  using pipe_loses_right_side [of "[''ls'']" "[Some ''x'', None]"
      "\<lparr>os_fork = 5, os_fork2 = 6, os_open = 3, os_dup2 = 0, os_execvp = 0,
       os_pipe = 0, os_rd = 4, os_wr = 5, os_chdir = 0, os_cwd = ''/''\<rparr>" "[Some ''wc'', None]" "[Some ''y'', None]"]
  by (simp add: pipe_end_def exec_child_def words_def)

theorem redirect_runs_twice_witness:
  "\<exists>out. run_line \<lparr>w_os = (\<lambda>_. \<lparr>os_fork = 5, os_fork2 = 6, os_open = 3, os_dup2 = 0, os_execvp = 0,
       os_pipe = 0, os_rd = 4, os_wr = 5, os_chdir = 0, os_cwd = ''/''\<rparr>), w_slots = (\<lambda>_. []), w_slots2 = (\<lambda>_. [])\<rparr>
     [Some ''ls'', Some ''>'', Some ''f'', None] = Inr out \<and>
   procs out = [[Creat (Some ''f''), Dup2 3 1, Close 3, Execvp (Some ''ls'') [''ls'']],
                [Execvp (Some ''ls'') [''ls'']]]"
  using redirect_runs_twice [of "[''ls'']" "''>''" "''f''"
     "\<lparr>w_os = (\<lambda>_. \<lparr>os_fork = 5, os_fork2 = 6, os_open = 3, os_dup2 = 0, os_execvp = 0,
       os_pipe = 0, os_rd = 4, os_wr = 5, os_chdir = 0, os_cwd = ''/''\<rparr>), w_slots = (\<lambda>_. []), w_slots2 = (\<lambda>_. [])\<rparr>"]
  by (simp add: command_def plain_word_def forks_ok_def exec_child_def redirect_child_def words_def)

end
