(* ===== verification/VmPage.thy ===== *)
theory VmPage
  imports Prelude
begin

text \<open>
  The physical pages of asgn3/vm_page.c and vm_page.h: the busy lock word, the page queues with
  their markers and counters, wiring and holding, the valid and dirty bits, and the list and
  trie of the resident pages of an object. Page and queue locks are held as the comments of the
  functions demand and are not part of the state; an atomic compare-and-set succeeds when the
  word is what was read. vm_phys_domain is the field \<open>phys_domain\<close> of the state; the free page
  allocator, wakeup() and the pmap layer are entries of the trace or parameters.
\<close>

type_synonym pg = nat
type_synonym obj = nat

subsection \<open>struct vm_page\<close>

type_synonym vm_page_bits_t = "8 word"

definition VM_PAGE_BITS_ALL :: vm_page_bits_t where "VM_PAGE_BITS_ALL = 0xff"

definition VPO_UNMANAGED :: "8 word" where "VPO_UNMANAGED = 0x04"
definition VPO_NOSYNC :: "8 word" where "VPO_NOSYNC = 0x10"
definition PGA_REFERENCED :: "8 word" where "PGA_REFERENCED = 0x02"
definition PG_FICTITIOUS :: "16 word" where "PG_FICTITIOUS = 0x0004"
definition PG_ZERO :: "16 word" where "PG_ZERO = 0x0008"
definition PG_MARKER :: "16 word" where "PG_MARKER = 0x0010"
definition PG_NODUMP :: "16 word" where "PG_NODUMP = 0x0080"
definition PG_UNHOLDFREE :: "16 word" where "PG_UNHOLDFREE = 0x0100"

definition PQ_NONE :: u_char where "PQ_NONE = 255"
definition PQ_INACTIVE :: u_char where "PQ_INACTIVE = 0"
definition PQ_ACTIVE :: u_char where "PQ_ACTIVE = 1"
definition PQ_LAUNDRY :: u_char where "PQ_LAUNDRY = 2"
definition PQ_COUNT :: u_char where "PQ_COUNT = 3"

definition ACT_INIT :: u_char where "ACT_INIT = 5"

record vm_page =
  pg_object :: "obj option"
  pindex :: u_long
  wire_count :: u_int
  busy_lock :: u_int
  hold_count :: "16 word"
  pg_flags :: "16 word"
  aflags :: "8 word"
  oflags :: "8 word"
  queue :: u_char
  act_count :: u_char
  valid :: vm_page_bits_t
  dirty :: vm_page_bits_t
  timestamp_sec :: int
  timestamp_nsec :: int

subsection \<open>The busy lock\<close>

definition VPB_BIT_SHARED :: u_int where "VPB_BIT_SHARED = 0x01"
definition VPB_BIT_EXCLUSIVE :: u_int where "VPB_BIT_EXCLUSIVE = 0x02"
definition VPB_BIT_WAITERS :: u_int where "VPB_BIT_WAITERS = 0x04"
definition VPB_BIT_FLAGMASK :: u_int where
  "VPB_BIT_FLAGMASK = VPB_BIT_SHARED OR VPB_BIT_EXCLUSIVE OR VPB_BIT_WAITERS"
definition VPB_SHARERS_SHIFT :: nat where "VPB_SHARERS_SHIFT = 3"
definition VPB_SHARERS :: "u_int \<Rightarrow> u_int" where
  "VPB_SHARERS x = drop_bit VPB_SHARERS_SHIFT (x AND NOT VPB_BIT_FLAGMASK)"
definition VPB_SHARERS_WORD :: "u_int \<Rightarrow> u_int" where
  "VPB_SHARERS_WORD x = push_bit VPB_SHARERS_SHIFT x OR VPB_BIT_SHARED"
definition VPB_ONE_SHARER :: u_int where "VPB_ONE_SHARER = push_bit VPB_SHARERS_SHIFT 1"
definition VPB_SINGLE_EXCLUSIVER :: u_int where "VPB_SINGLE_EXCLUSIVER = VPB_BIT_EXCLUSIVE"
definition VPB_UNBUSIED :: u_int where "VPB_UNBUSIED = VPB_SHARERS_WORD 0"

text \<open>Each function takes the lock word and returns the new one; \<open>True\<close> in the second component
  says that the waiters are woken.\<close>

definition vm_page_busied :: "u_int \<Rightarrow> bool" where
  "vm_page_busied x \<longleftrightarrow> x \<noteq> VPB_UNBUSIED"

definition vm_page_xbusied :: "u_int \<Rightarrow> bool" where
  "vm_page_xbusied x \<longleftrightarrow> x AND VPB_SINGLE_EXCLUSIVER \<noteq> 0"

definition vm_page_sbusied :: "u_int \<Rightarrow> bool" where
  "vm_page_sbusied x \<longleftrightarrow> x AND VPB_BIT_SHARED \<noteq> 0 \<and> x \<noteq> VPB_UNBUSIED"

definition vm_page_trysbusy :: "u_int \<Rightarrow> u_int \<times> bool" where
  "vm_page_trysbusy x =
     (if x AND VPB_BIT_SHARED = 0 then (x, False) else (x + VPB_ONE_SHARER, True))"

definition vm_page_tryxbusy :: "u_int \<Rightarrow> u_int \<times> bool" where
  "vm_page_tryxbusy x = (if x = VPB_UNBUSIED then (VPB_SINGLE_EXCLUSIVER, True) else (x, False))"

definition vm_page_sunbusy :: "u_int \<Rightarrow> fault + u_int \<times> bool" where
  "vm_page_sunbusy x =
    rbind (kassert (vm_page_sbusied x) ''vm_page_assert_sbusied'') (\<lambda>_.
    if VPB_SHARERS x > 1 then Inr (x - VPB_ONE_SHARER, False)
    else if x AND VPB_BIT_WAITERS = 0 then
      rbind (kassert (x = VPB_SHARERS_WORD 1) ''vm_page_sunbusy: invalid lock state'') (\<lambda>_.
      Inr (VPB_UNBUSIED, False))
    else
      rbind (kassert (x = VPB_SHARERS_WORD 1 OR VPB_BIT_WAITERS)
        ''vm_page_sunbusy: invalid lock state for waiters'') (\<lambda>_.
      Inr (VPB_UNBUSIED, True)))"

definition vm_page_xunbusy :: "u_int \<Rightarrow> fault + u_int \<times> bool" where
  "vm_page_xunbusy x =
    (if x = VPB_SINGLE_EXCLUSIVER then Inr (VPB_UNBUSIED, False)
     else rbind (kassert (vm_page_xbusied x) ''vm_page_assert_xbusied'') (\<lambda>_. Inr (VPB_UNBUSIED, True)))"

text \<open>The loop retries until the word is an exclusive busy with or without waiters.\<close>

definition vm_page_busy_downgrade :: "u_int \<Rightarrow> fault + u_int \<times> bool" where
  "vm_page_busy_downgrade x =
    rbind (kassert (vm_page_xbusied x) ''vm_page_assert_xbusied'') (\<lambda>_.
    let w = x AND VPB_BIT_WAITERS in
    if x = VPB_SINGLE_EXCLUSIVER OR w then Inr (VPB_SHARERS_WORD 1, w \<noteq> 0)
    else Inl (Diverges ''vm_page_busy_downgrade''))"

text \<open>\<open>True\<close>: the caller sleeps.\<close>

definition vm_page_busy_sleep :: "bool \<Rightarrow> u_int \<Rightarrow> u_int \<times> bool" where
  "vm_page_busy_sleep nonshared x =
    (if x = VPB_UNBUSIED \<or> (nonshared \<and> x AND VPB_BIT_SHARED \<noteq> 0) then (x, False)
     else if x AND VPB_BIT_WAITERS = 0 then (x OR VPB_BIT_WAITERS, True)
     else (x, True))"

definition vm_page_flash :: "u_int \<Rightarrow> u_int \<times> bool" where
  "vm_page_flash x =
    (if x AND VPB_BIT_WAITERS = 0 then (x, False) else (x AND NOT VPB_BIT_WAITERS, True))"

subsection \<open>Valid and dirty bits\<close>

definition PAGE_SIZE :: int where "PAGE_SIZE = 4096"
definition DEV_BSHIFT :: nat where "DEV_BSHIFT = 9"
definition DEV_BSIZE :: int where "DEV_BSIZE = 2 ^ DEV_BSHIFT"

text \<open>The shifts are done in int, to which the 8-bit operands are promoted, and the result is
  cut to 8 bits.\<close>

definition vm_page_bits :: "int \<Rightarrow> int \<Rightarrow> fault + vm_page_bits_t" where
  "vm_page_bits base sz =
    rbind (kassert (base + sz \<le> PAGE_SIZE) ''vm_page_bits: illegal base/size'') (\<lambda>_.
    if sz = 0 then Inr 0
    else
      let first_bit = nat (drop_bit DEV_BSHIFT base);
          last_bit = nat (drop_bit DEV_BSHIFT (base + sz - 1)) in
      Inr (of_int (push_bit last_bit 2 - push_bit first_bit 1)))"

definition vm_page_is_valid :: "vm_page \<Rightarrow> int \<Rightarrow> int \<Rightarrow> fault + bool" where
  "vm_page_is_valid m base sz =
    rbind (vm_page_bits base sz) (\<lambda>bits. Inr (valid m \<noteq> 0 \<and> valid m AND bits = bits))"

text \<open>The ranges that are zeroed are returned with the page: the partial chunk before \<open>base\<close> and
  the one after \<open>base + size\<close>, when their valid bits are clear.\<close>

definition zero_frags :: "vm_page \<Rightarrow> int \<Rightarrow> int \<Rightarrow> (int \<times> int) list" where
  "zero_frags m base sz =
    (let frag = base - base mod DEV_BSIZE; endoff = base + sz in
     (if frag \<noteq> base \<and> \<not> bit (valid m) (nat (drop_bit DEV_BSHIFT base))
      then [(frag, base - frag)] else []) @
     (if endoff - endoff mod DEV_BSIZE \<noteq> endoff \<and> \<not> bit (valid m) (nat (drop_bit DEV_BSHIFT endoff))
      then [(endoff, DEV_BSIZE - endoff mod DEV_BSIZE)] else []))"

definition vm_page_set_valid_range ::
    "vm_page \<Rightarrow> int \<Rightarrow> int \<Rightarrow> fault + vm_page \<times> (int \<times> int) list" where
  "vm_page_set_valid_range m base sz =
    (if sz = 0 then Inr (m, [])
     else rbind (vm_page_bits base sz) (\<lambda>bits.
       rbind (kassert (NOT (valid m) AND bits AND dirty m = 0) ''vm_page_set_valid_range: page is dirty'') (\<lambda>_.
       Inr (m\<lparr>valid := valid m OR bits\<rparr>, zero_frags m base sz))))"

text \<open>\<open>clear_modify\<close>: pmap_clear_modify was called.\<close>

definition vm_page_set_validclean ::
    "vm_page \<Rightarrow> int \<Rightarrow> int \<Rightarrow> fault + vm_page \<times> (int \<times> int) list \<times> bool" where
  "vm_page_set_validclean m base sz =
    (if sz = 0 then Inr (m, [], False)
     else rbind (vm_page_bits base sz) (\<lambda>pagebits.
       let oldvalid = valid m; frags = zero_frags m base sz;
           m = m\<lparr>valid := valid m OR pagebits\<rparr> in
       if base = 0 \<and> sz = PAGE_SIZE then
         Inr (m\<lparr>dirty := 0, oflags := oflags m AND NOT VPO_NOSYNC\<rparr>, frags, oldvalid = VM_PAGE_BITS_ALL)
       else Inr (m\<lparr>dirty := dirty m AND NOT pagebits\<rparr>, frags, False)))"

definition vm_page_clear_dirty :: "vm_page \<Rightarrow> int \<Rightarrow> int \<Rightarrow> fault + vm_page" where
  "vm_page_clear_dirty m base sz =
    rbind (vm_page_bits base sz) (\<lambda>bits. Inr (m\<lparr>dirty := dirty m AND NOT bits\<rparr>))"

text \<open>The runs of invalid chunks that vm_page_zero_invalid zeroes, as offset and length.\<close>

fun invalid_runs :: "vm_page_bits_t \<Rightarrow> nat \<Rightarrow> nat list \<Rightarrow> (int \<times> int) list" where
  "invalid_runs v b [] = []"
| "invalid_runs v b (i # is) =
    (if i = 8 \<or> bit v i then
       (if i > b then [(push_bit DEV_BSHIFT (int b), push_bit DEV_BSHIFT (int i - int b))] else []) @
       invalid_runs v (i + 1) is
     else invalid_runs v b is)"

definition vm_page_zero_invalid :: "vm_page \<Rightarrow> bool \<Rightarrow> vm_page \<times> (int \<times> int) list" where
  "vm_page_zero_invalid m setvalid =
    (if setvalid then m\<lparr>valid := VM_PAGE_BITS_ALL\<rparr> else m, invalid_runs (valid m) 0 [0..<9])"

definition vm_page_dirty_KBI :: "vm_page \<Rightarrow> fault + vm_page" where
  "vm_page_dirty_KBI m =
    rbind (kassert (valid m = VM_PAGE_BITS_ALL) ''vm_page_dirty: page is invalid!'') (\<lambda>_.
    Inr (m\<lparr>dirty := VM_PAGE_BITS_ALL\<rparr>))"

definition vm_page_undirty :: "vm_page \<Rightarrow> vm_page" where
  "vm_page_undirty m = m\<lparr>dirty := 0\<rparr>"

subsection \<open>The bits of a range\<close>

lemma bits_of_range:
  fixes f l :: nat
  assumes "f \<le> l" "l < 8"
  shows "bit (of_int (push_bit l 2 - push_bit f 1) :: vm_page_bits_t) i \<longleftrightarrow> f \<le> i \<and> i \<le> l"
proof -
  have "(push_bit l 2 - push_bit f 1 :: int) = push_bit f (mask (Suc l - f))"
  proof -
    have "(2::int) ^ Suc l = 2 ^ f * 2 ^ (Suc l - f)" using assms(1) by (simp add: power_add [symmetric])
    then show ?thesis by (simp add: push_bit_eq_mult mask_eq_exp_minus_1 algebra_simps)
  qed
  then show ?thesis
    using assms by (auto simp: bit_simps)
qed

lemma vm_page_bits_bit:
  assumes "0 \<le> base" "0 < sz" "base + sz \<le> PAGE_SIZE"
  obtains bits where "vm_page_bits base sz = Inr bits"
    "\<And>i. bit bits i \<longleftrightarrow> base div DEV_BSIZE \<le> int i \<and> int i \<le> (base + sz - 1) div DEV_BSIZE"
proof -
  let ?f = "nat (drop_bit DEV_BSHIFT base)" and ?l = "nat (drop_bit DEV_BSHIFT (base + sz - 1))"
  have d: "drop_bit DEV_BSHIFT x = x div 512" for x :: int by (simp add: drop_bit_eq_div DEV_BSHIFT_def)
  have d512: "DEV_BSIZE = 512" by (simp add: DEV_BSIZE_def DEV_BSHIFT_def)
  have f: "int ?f = base div 512" using assms(1) by (simp add: d)
  have l: "int ?l = (base + sz - 1) div 512" using assms by (simp add: d)
  have fl: "?f \<le> ?l" using assms by (auto simp: d intro!: nat_mono zdiv_mono1)
  have l8: "?l < 8" using assms by (simp add: d PAGE_SIZE_def)
  have "vm_page_bits base sz = Inr (of_int (push_bit ?l 2 - push_bit ?f 1))"
    using assms by (simp add: vm_page_bits_def Let_def)
  moreover have "bit (of_int (push_bit ?l 2 - push_bit ?f 1) :: vm_page_bits_t) i \<longleftrightarrow>
      base div DEV_BSIZE \<le> int i \<and> int i \<le> (base + sz - 1) div DEV_BSIZE" for i
    unfolding bits_of_range [OF fl l8] d512 using f l by linarith
  ultimately show thesis by (rule that)
qed

text \<open>A range that was marked valid is valid, and what was valid before still is.\<close>

lemma set_valid_range_valid:
  assumes "0 \<le> base" "0 < sz" "base + sz \<le> PAGE_SIZE" "dirty m = 0"
  shows "\<exists>m' z. vm_page_set_valid_range m base sz = Inr (m', z) \<and> vm_page_is_valid m' base sz = Inr True \<and>
    (\<forall>i. bit (valid m') i \<longleftrightarrow> bit (valid m) i \<or> base div DEV_BSIZE \<le> int i \<and> int i \<le> (base + sz - 1) div DEV_BSIZE)"
proof -
  obtain bits where b: "vm_page_bits base sz = Inr bits"
    "\<And>i. bit bits i \<longleftrightarrow> base div DEV_BSIZE \<le> int i \<and> int i \<le> (base + sz - 1) div DEV_BSIZE"
    by (rule vm_page_bits_bit [OF assms(1-3)]) blast
  let ?m = "m\<lparr>valid := valid m OR bits\<rparr>"
  have r: "vm_page_set_valid_range m base sz = Inr (?m, zero_frags m base sz)"
    using assms(2,4) by (simp add: vm_page_set_valid_range_def b(1))
  have sub: "valid ?m AND bits = bits" by (rule bit_eqI) (auto simp: bit_simps)
  have "base div DEV_BSIZE \<le> (base + sz - 1) div DEV_BSIZE"
    using assms(2) by (intro zdiv_mono1) (simp_all add: DEV_BSIZE_def)
  moreover have "0 \<le> base div DEV_BSIZE" using assms(1) by (simp add: DEV_BSIZE_def DEV_BSHIFT_def)
  ultimately have "bit bits (nat (base div DEV_BSIZE))" by (simp add: b(2))
  then have "bits \<noteq> 0" by force
  moreover have "v \<noteq> 0" if "v AND bits = bits" "bits \<noteq> 0" for v using that by auto
  ultimately have "valid ?m \<noteq> 0" using sub by blast
  then have "vm_page_is_valid ?m base sz = Inr True" using sub by (simp add: vm_page_is_valid_def b(1))
  moreover have "bit (valid ?m) i \<longleftrightarrow> bit (valid m) i \<or> base div DEV_BSIZE \<le> int i \<and> int i \<le> (base + sz - 1) div DEV_BSIZE" for i
    by (simp add: bit_simps b(2))
  ultimately show ?thesis using r by blast
qed

text \<open>vm_page_zero_invalid zeroes exactly the bytes of the invalid chunks.\<close>

definition covers :: "(int \<times> int) list \<Rightarrow> int \<Rightarrow> bool" where
  "covers rs x \<longleftrightarrow> (\<exists>(off, len) \<in> set rs. off \<le> x \<and> x < off + len)"

lemma covers_simps [simp]:
  "covers [] x \<longleftrightarrow> False" "covers (r # rs) x \<longleftrightarrow> (fst r \<le> x \<and> x < fst r + snd r) \<or> covers rs x"
  "covers (rs @ rs') x \<longleftrightarrow> covers rs x \<or> covers rs' x"
  by (auto simp: covers_def)

lemma invalid_runs_covers:
  assumes "b \<le> i" "i \<le> 8" "\<And>j. b \<le> j \<Longrightarrow> j < i \<Longrightarrow> \<not> bit v j"
  shows "covers (invalid_runs v b [i..<9]) x \<longleftrightarrow> 512 * int b \<le> x \<and> x < 4096 \<and> \<not> bit v (nat (x div 512))"
  using assms
proof (induction "8 - i" arbitrary: i b)
  case 0
  then have i: "i = 8" by simp
  have up: "[8..<9] = [8::nat]" by (simp add: upt_rec)
  have "512 * int b \<le> x \<Longrightarrow> x < 4096 \<Longrightarrow> \<not> bit v (nat (x div 512))"
    using 0(4) [of "nat (x div 512)"] by (auto simp: i)
  then show ?case by (auto simp: i up push_bit_eq_mult DEV_BSHIFT_def)
next
  case (Suc k)
  have up: "[i..<9] = i # [Suc i..<9]" using Suc(2) by (simp add: upt_rec)
  show ?case
  proof (cases "bit v i")
    case False
    have "covers (invalid_runs v b [Suc i..<9]) x \<longleftrightarrow> 512 * int b \<le> x \<and> x < 4096 \<and> \<not> bit v (nat (x div 512))"
      using Suc(2-5) False by (intro Suc(1)) (auto simp: less_Suc_eq)
    moreover have "i \<noteq> 8" using Suc(2) by simp
    ultimately show ?thesis using False by (simp add: up)
  next
    case True
    have IH: "covers (invalid_runs v (Suc i) [Suc i..<9]) x \<longleftrightarrow>
      512 * int (Suc i) \<le> x \<and> x < 4096 \<and> \<not> bit v (nat (x div 512))"
      using Suc(2) by (intro Suc(1)) auto
    have run: "\<not> bit v (nat (x div 512))" if "512 * int b \<le> x" "x < 512 * int i"
      using that by (intro Suc(5)) auto
    have at: "bit v (nat (x div 512))" if "512 * int i \<le> x" "x < 512 * int i + 512"
    proof -
      have "nat (x div 512) = i" using that by linarith
      then show ?thesis using True by simp
    qed
    have "i < 8" using Suc(2) by simp
    then show ?thesis using True Suc(3) IH run at by (auto simp: up push_bit_eq_mult DEV_BSHIFT_def algebra_simps simp flip: linorder_not_le)
  qed
qed

lemma zero_invalid_covers:
  "covers (snd (vm_page_zero_invalid m setvalid)) x \<longleftrightarrow> 0 \<le> x \<and> x < PAGE_SIZE \<and> \<not> bit (valid m) (nat (x div DEV_BSIZE))"
  using invalid_runs_covers [of 0 0 "valid m" x]
  by (simp add: vm_page_zero_invalid_def PAGE_SIZE_def DEV_BSIZE_def DEV_BSHIFT_def)

end
