(* ===== verification/VmQueue.thy ===== *)
theory VmQueue
  imports VmPage
begin

text \<open>
  The operations of vm_page.c on the page queues and on the resident pages of an object. The
  state has every page, the queues of every memory domain with their counters, the marker page
  at the head of each inactive queue, and per object its page list, its trie (the map that the
  vm_radix functions maintain) and its page count. What the pmap layer answers about a page is
  part of the state too; calls to other code are appended to \<open>calls\<close>.
\<close>

datatype vm_call =
    Vhold obj | Vdrop obj | ObjWriteableDirty obj | FreePage pg | WakePage pg | PmapDefaultAttr pg
  | AllocPage pg | PmapRemoveAll pg | PmapSetAttr pg obj | PmapZero pg | PmapMemattr pg | PmapCopy pg pg
  | ZeroIdleWakeup
  | PmapRemoveWrite pg | PutPages "pg list" | PipAdd obj nat | PipWakeup obj | ObjReference obj | ObjDeallocate obj
  | SpeedupSyncer | WakeupPagedaemon | WakeupFree | WakeupPagesNeeded | SleepFree | SleepPagesNeeded | RadixWait

record 'r vm =
  pages :: "pg \<Rightarrow> vm_page"
  pq_pl :: "nat \<Rightarrow> u_char \<Rightarrow> pg list"
  pq_cnt :: "nat \<Rightarrow> u_char \<Rightarrow> int"
  pq_vcnt :: "u_char \<Rightarrow> u_int"
  v_wire_count :: u_int
  phys_domain :: "pg \<Rightarrow> nat"
  vmd_inacthead :: "nat \<Rightarrow> pg"
  memq :: "obj \<Rightarrow> pg list"
  rtree :: "obj \<Rightarrow> 'r"
  resident_page_count :: "obj \<Rightarrow> int"
  is_vnode :: "obj \<Rightarrow> bool"
  is_mapped :: "pg \<Rightarrow> bool"
  is_write_mapped :: "pg \<Rightarrow> bool"
  is_modified :: "pg \<Rightarrow> bool"
  obj_unmanaged :: "obj \<Rightarrow> bool"
  obj_fictitious :: "obj \<Rightarrow> bool"
  obj_memattr_default :: "obj \<Rightarrow> bool"
  obj_ref_count :: "obj \<Rightarrow> int"
  obj_dead :: "obj \<Rightarrow> bool"
  obj_anonymous :: "obj \<Rightarrow> bool"  \<comment> \<open>of type OBJT_SWAP or OBJT_DEFAULT\<close>
  obj_size :: "obj \<Rightarrow> u_long"
  vmd_marker :: "nat \<Rightarrow> pg"
  vmd_laundry_marker :: "nat \<Rightarrow> pg"
  memattr_default :: "pg \<Rightarrow> bool"
  v_free_count :: u_int
  vm_page_zero_count :: int
  vm_pageout_deficit :: u_int
  vm_pageout_wanted :: bool
  vm_pages_needed :: bool
  vm_pageout_pages_needed :: bool
  calls :: "vm_call list"

definition upd_pg :: "pg \<Rightarrow> (vm_page \<Rightarrow> vm_page) \<Rightarrow> 'r vm \<Rightarrow> 'r vm" where
  "upd_pg m f s = s\<lparr>pages := (pages s)(m := f (pages s m))\<rparr>"

definition set_pq :: "nat \<Rightarrow> u_char \<Rightarrow> pg list \<Rightarrow> 'r vm \<Rightarrow> 'r vm" where
  "set_pq d q l s = s\<lparr>pq_pl := (pq_pl s)(d := (pq_pl s d)(q := l))\<rparr>"

definition vm_call :: "vm_call \<Rightarrow> 'r vm \<Rightarrow> 'r vm" where
  "vm_call c s = s\<lparr>calls := calls s @ [c]\<rparr>"

text \<open>Each of the three queues of every domain counts into one counter of vm_cnt.\<close>

definition vm_pagequeue_cnt_add :: "nat \<Rightarrow> u_char \<Rightarrow> int \<Rightarrow> 'r vm \<Rightarrow> 'r vm" where
  "vm_pagequeue_cnt_add d q n s =
     s\<lparr>pq_cnt := (pq_cnt s)(d := (pq_cnt s d)(q := pq_cnt s d q + n)),
       pq_vcnt := (pq_vcnt s)(q := pq_vcnt s q + of_int n)\<rparr>"

subsection \<open>The page queues\<close>

definition vm_page_pagequeue :: "pg \<Rightarrow> 'r vm \<Rightarrow> nat \<times> u_char" where
  "vm_page_pagequeue m s =
     (if queue (pages s m) = PQ_LAUNDRY then (0, queue (pages s m))
      else (phys_domain s m, queue (pages s m)))"

definition vm_page_dequeue_locked :: "pg \<Rightarrow> 'r vm \<Rightarrow> fault + 'r vm" where
  "vm_page_dequeue_locked m s =
     (case vm_page_pagequeue m s of (d, q) \<Rightarrow>
        if q \<ge> PQ_COUNT then Inl (OutOfBounds ''vmd_pagequeues'')
        else
          rbind (tailq_remove m (pq_pl s d q)) (\<lambda>l.
          Inr (vm_pagequeue_cnt_add d q (- 1)
                 (set_pq d q l (upd_pg m (\<lambda>p. p\<lparr>queue := PQ_NONE\<rparr>) s)))))"

definition vm_page_dequeue :: "pg \<Rightarrow> 'r vm \<Rightarrow> fault + 'r vm" where
  "vm_page_dequeue m s =
     rbind (kassert (queue (pages s m) < PQ_COUNT) ''vm_page_dequeue: page is not queued'') (\<lambda>_.
     vm_page_dequeue_locked m s)"

definition vm_page_remque :: "pg \<Rightarrow> 'r vm \<Rightarrow> fault + 'r vm" where
  "vm_page_remque m s = (if queue (pages s m) \<noteq> PQ_NONE then vm_page_dequeue m s else Inr s)"

definition vm_page_enqueue :: "u_char \<Rightarrow> pg \<Rightarrow> 'r vm \<Rightarrow> fault + 'r vm" where
  "vm_page_enqueue q m s =
     rbind (kassert (q < PQ_COUNT) ''vm_page_enqueue: invalid queue'') (\<lambda>_.
     let d = (if q = PQ_LAUNDRY then 0 else phys_domain s m) in
     Inr (vm_pagequeue_cnt_add d q 1
            (set_pq d q (pq_pl s d q @ [m]) (upd_pg m (\<lambda>p. p\<lparr>queue := q\<rparr>) s))))"

definition vm_page_requeue :: "pg \<Rightarrow> 'r vm \<Rightarrow> fault + 'r vm" where
  "vm_page_requeue m s =
     rbind (kassert (queue (pages s m) \<noteq> PQ_NONE) ''vm_page_requeue: page is not queued'') (\<lambda>_.
     case vm_page_pagequeue m s of (d, q) \<Rightarrow>
       if q \<ge> PQ_COUNT then Inl (OutOfBounds ''vmd_pagequeues'')
       else rbind (tailq_remove m (pq_pl s d q)) (\<lambda>l. Inr (set_pq d q (l @ [m]) s)))"

definition unmanaged :: "pg \<Rightarrow> 'r vm \<Rightarrow> bool" where
  "unmanaged m s \<longleftrightarrow> oflags (pages s m) AND VPO_UNMANAGED \<noteq> 0"

definition raise_act :: "vm_page \<Rightarrow> vm_page" where
  "raise_act p = (if act_count p < ACT_INIT then p\<lparr>act_count := ACT_INIT\<rparr> else p)"

text \<open>\<open>(sec, nsec)\<close> is what getnanotime() returns.\<close>

definition vm_page_activate :: "int \<times> int \<Rightarrow> pg \<Rightarrow> 'r vm \<Rightarrow> fault + 'r vm" where
  "vm_page_activate now m s =
     (if queue (pages s m) \<noteq> PQ_ACTIVE then
        if wire_count (pages s m) = 0 \<and> \<not> unmanaged m s then
          rbind (vm_page_remque m (upd_pg m raise_act s)) (\<lambda>s.
          vm_page_enqueue PQ_ACTIVE m
            (upd_pg m (\<lambda>p. p\<lparr>timestamp_sec := fst now, timestamp_nsec := snd now\<rparr>) s))
        else
          rbind (kassert (queue (pages s m) = PQ_NONE) ''vm_page_activate: wired page is queued'') (\<lambda>_.
          Inr s)
      else Inr (upd_pg m raise_act s))"

fun insert_before :: "'a \<Rightarrow> 'a \<Rightarrow> 'a list \<Rightarrow> 'a list" where
  "insert_before y x [] = []"
| "insert_before y x (z # zs) = (if z = y then x # z # zs else z # insert_before y x zs)"

definition vm_page_deactivate' :: "bool \<Rightarrow> pg \<Rightarrow> 'r vm \<Rightarrow> fault + 'r vm" where
  "vm_page_deactivate' noreuse m s =
     (if queue (pages s m) = PQ_INACTIVE \<and> \<not> noreuse then Inr s
      else if wire_count (pages s m) = 0 \<and> \<not> unmanaged m s then
        let d = phys_domain s m in
        rbind (if queue (pages s m) = PQ_INACTIVE then vm_page_dequeue_locked m s else vm_page_remque m s) (\<lambda>s.
        let s = upd_pg m (\<lambda>p. p\<lparr>queue := PQ_INACTIVE\<rparr>) s;
            l = pq_pl s d PQ_INACTIVE in
        if noreuse \<and> vmd_inacthead s d \<notin> set l then Inl (BadList ''TAILQ_INSERT_BEFORE'')
        else
          Inr (vm_pagequeue_cnt_add d PQ_INACTIVE 1
            (set_pq d PQ_INACTIVE
              (if noreuse then insert_before (vmd_inacthead s d) m l else l @ [m]) s)))
      else Inr s)"

definition vm_page_deactivate :: "pg \<Rightarrow> 'r vm \<Rightarrow> fault + 'r vm" where
  "vm_page_deactivate m s = vm_page_deactivate' False m s"

definition vm_page_deactivate_noreuse :: "pg \<Rightarrow> 'r vm \<Rightarrow> fault + 'r vm" where
  "vm_page_deactivate_noreuse m s = vm_page_deactivate' True m s"

definition vm_page_launder :: "pg \<Rightarrow> 'r vm \<Rightarrow> fault + 'r vm" where
  "vm_page_launder m s =
     (if queue (pages s m) \<noteq> PQ_LAUNDRY then
        if wire_count (pages s m) = 0 \<and> \<not> unmanaged m s then
          rbind (vm_page_remque m s) (\<lambda>s. vm_page_enqueue PQ_LAUNDRY m s)
        else rbind (kassert (queue (pages s m) = PQ_NONE) ''wired page is queued'') (\<lambda>_. Inr s)
      else Inr s)"

subsection \<open>Wiring\<close>

definition vm_page_wire :: "pg \<Rightarrow> 'r vm \<Rightarrow> fault + 'r vm" where
  "vm_page_wire m s =
     (if pg_flags (pages s m) AND PG_FICTITIOUS \<noteq> 0 then
        rbind (kassert (wire_count (pages s m) = 1) ''vm_page_wire: fictitious'') (\<lambda>_. Inr s)
      else
        rbind (if wire_count (pages s m) = 0 then
                 rbind (kassert (\<not> unmanaged m s \<or> queue (pages s m) = PQ_NONE)
                   ''vm_page_wire: unmanaged page is queued'') (\<lambda>_.
                 rbind (vm_page_remque m s) (\<lambda>s. Inr (s\<lparr>v_wire_count := v_wire_count s + 1\<rparr>)))
               else Inr s) (\<lambda>s.
        let s = upd_pg m (\<lambda>p. p\<lparr>wire_count := wire_count p + 1\<rparr>) s in
        rbind (kassert (wire_count (pages s m) \<noteq> 0) ''vm_page_wire: wire_count overflow'') (\<lambda>_.
        Inr s)))"

definition vm_page_unwire :: "u_char \<Rightarrow> pg \<Rightarrow> 'r vm \<Rightarrow> fault + 'r vm \<times> bool" where
  "vm_page_unwire q m s =
     rbind (kassert (q < PQ_COUNT \<or> q = PQ_NONE) ''vm_page_unwire: invalid queue'') (\<lambda>_.
     if pg_flags (pages s m) AND PG_FICTITIOUS \<noteq> 0 then
       rbind (kassert (wire_count (pages s m) = 1) ''vm_page_unwire: fictitious'') (\<lambda>_. Inr (s, False))
     else if wire_count (pages s m) > 0 then
       let s = upd_pg m (\<lambda>p. p\<lparr>wire_count := wire_count p - 1\<rparr>) s in
       if wire_count (pages s m) = 0 then
         let s = s\<lparr>v_wire_count := v_wire_count s - 1\<rparr> in
         if \<not> unmanaged m s \<and> pg_object (pages s m) \<noteq> None \<and> q \<noteq> PQ_NONE then
           rbind (vm_page_enqueue q m s) (\<lambda>s. Inr (s, True))
         else Inr (s, True)
       else Inr (s, False)
     else Inl (Panic ''vm_page_unwire: page's wire count is zero''))"

end
