(* ===== verification/VmObject.thy ===== *)
theory VmObject
  imports VmQueue
begin

text \<open>
  The resident pages of an object in vm_page.c: insertion, removal, lookup, replacement and
  renaming. The trie of an object is kept by the vm_radix functions, which are not part of the
  sources; they are the argument \<open>R\<close> of the operations. Their keys are the page indices, and the
  insertion returns \<open>None\<close> when it cannot allocate a node.
\<close>

record 'r radix =
  r_lookup :: "u_long \<Rightarrow> 'r \<Rightarrow> pg option"
  r_lookup_le :: "u_long \<Rightarrow> 'r \<Rightarrow> pg option"
  r_lookup_ge :: "u_long \<Rightarrow> 'r \<Rightarrow> pg option"
  r_insert :: "u_long \<Rightarrow> pg \<Rightarrow> 'r \<Rightarrow> 'r option"
  r_remove :: "u_long \<Rightarrow> 'r \<Rightarrow> pg option \<times> 'r"
  r_replace :: "u_long \<Rightarrow> pg \<Rightarrow> 'r \<Rightarrow> pg option \<times> 'r"

subsection \<open>List primitives\<close>

fun tailq_next :: "'a \<Rightarrow> 'a list \<Rightarrow> 'a option" where
  "tailq_next x [] = None"
| "tailq_next x (y # ys) = (if y = x then tailq_first ys else tailq_next x ys)"

definition tailq_prev :: "'a \<Rightarrow> 'a list \<Rightarrow> 'a option" where
  "tailq_prev x ys = tailq_next x (rev ys)"

fun insert_after :: "'a \<Rightarrow> 'a \<Rightarrow> 'a list \<Rightarrow> 'a list" where
  "insert_after y x [] = []"
| "insert_after y x (z # zs) = (if z = y then z # x # zs else z # insert_after y x zs)"

definition tailq_insert_after :: "'a \<Rightarrow> 'a \<Rightarrow> 'a list \<Rightarrow> fault + 'a list" where
  "tailq_insert_after y x l =
     (if y \<in> set l then Inr (insert_after y x l) else Inl (BadList ''TAILQ_INSERT_AFTER''))"

definition set_memq :: "obj \<Rightarrow> pg list \<Rightarrow> 'r vm \<Rightarrow> 'r vm" where
  "set_memq ob l s = s\<lparr>memq := (memq s)(ob := l)\<rparr>"

definition set_rtree :: "obj \<Rightarrow> 'r \<Rightarrow> 'r vm \<Rightarrow> 'r vm" where
  "set_rtree ob t s = s\<lparr>rtree := (rtree s)(ob := t)\<rparr>"

definition add_resident :: "obj \<Rightarrow> int \<Rightarrow> 'r vm \<Rightarrow> 'r vm" where
  "add_resident ob n s = s\<lparr>resident_page_count := (resident_page_count s)(ob := resident_page_count s ob + n)\<rparr>"

definition call_if :: "bool \<Rightarrow> vm_call \<Rightarrow> 'r vm \<Rightarrow> 'r vm" where
  "call_if b c s = (if b then vm_call c s else s)"

definition set_busy :: "pg \<Rightarrow> u_int \<times> bool \<Rightarrow> 'r vm \<Rightarrow> 'r vm" where
  "set_busy m xw s = call_if (snd xw) (WakePage m) (upd_pg m (\<lambda>p. p\<lparr>busy_lock := fst xw\<rparr>) s)"

subsection \<open>Insertion\<close>

definition check_mpred :: "pg option \<Rightarrow> obj \<Rightarrow> u_long \<Rightarrow> 'r vm \<Rightarrow> fault + unit" where
  "check_mpred mpred ob pi s =
     (case mpred of None \<Rightarrow> Inr ()
      | Some p \<Rightarrow>
          rbind (kassert (pg_object (pages s p) = Some ob)
            ''vm_page_insert_after: object doesn't contain mpred'') (\<lambda>_.
          kassert (pindex (pages s p) < pi) ''vm_page_insert_after: mpred doesn't precede pindex''))"

definition vm_page_insert_radixdone :: "pg \<Rightarrow> obj \<Rightarrow> pg option \<Rightarrow> 'r vm \<Rightarrow> fault + 'r vm" where
  "vm_page_insert_radixdone m ob mpred s =
     rbind (kassert (pg_object (pages s m) = Some ob)
       ''vm_page_insert_radixdone: page has inconsistent object'') (\<lambda>_.
     rbind (check_mpred mpred ob (pindex (pages s m)) s) (\<lambda>_.
     rbind (case mpred of None \<Rightarrow> Inr (m # memq s ob) | Some p \<Rightarrow> tailq_insert_after p m (memq s ob)) (\<lambda>l.
     let s = add_resident ob 1 (set_memq ob l s);
         s = call_if (resident_page_count s ob = 1 \<and> is_vnode s ob) (Vhold ob) s;
         s = call_if (is_write_mapped s m) (ObjWriteableDirty ob) s in
     Inr s)))"

text \<open>\<open>True\<close>: the insertion failed.\<close>

definition vm_page_insert_after ::
    "'r radix \<Rightarrow> pg \<Rightarrow> obj \<Rightarrow> u_long \<Rightarrow> pg option \<Rightarrow> 'r vm \<Rightarrow> fault + 'r vm \<times> bool" where
  "vm_page_insert_after R m ob pi mpred s =
     rbind (kassert (pg_object (pages s m) = None) ''vm_page_insert_after: page already inserted'') (\<lambda>_.
     rbind (check_mpred mpred ob pi s) (\<lambda>_.
     let msucc = (case mpred of None \<Rightarrow> tailq_first (memq s ob) | Some p \<Rightarrow> tailq_next p (memq s ob)) in
     rbind (case msucc of None \<Rightarrow> Inr ()
            | Some q \<Rightarrow> kassert (pindex (pages s q) > pi)
                ''vm_page_insert_after: msucc doesn't succeed pindex'') (\<lambda>_.
     let s = upd_pg m (\<lambda>p. p\<lparr>pg_object := Some ob, pindex := pi\<rparr>) s in
     case r_insert R pi m (rtree s ob) of
       None \<Rightarrow> Inr (upd_pg m (\<lambda>p. p\<lparr>pg_object := None, pindex := 0\<rparr>) s, True)
     | Some t \<Rightarrow>
         rbind (vm_page_insert_radixdone m ob mpred (set_rtree ob t s)) (\<lambda>s. Inr (s, False)))))"

definition vm_page_insert :: "'r radix \<Rightarrow> pg \<Rightarrow> obj \<Rightarrow> u_long \<Rightarrow> 'r vm \<Rightarrow> fault + 'r vm \<times> bool" where
  "vm_page_insert R m ob pi s =
     vm_page_insert_after R m ob pi (r_lookup_le R pi (rtree s ob)) s"

subsection \<open>Removal\<close>

definition vm_page_remove :: "'r radix \<Rightarrow> pg \<Rightarrow> 'r vm \<Rightarrow> fault + 'r vm" where
  "vm_page_remove R m s =
     (case pg_object (pages s m) of None \<Rightarrow> Inr s
      | Some ob \<Rightarrow>
          rbind (if vm_page_xbusied (busy_lock (pages s m))
                 then rbind (vm_page_xunbusy (busy_lock (pages s m))) (\<lambda>xw. Inr (set_busy m xw s))
                 else Inr s) (\<lambda>s.
          let (mrem, t) = r_remove R (pindex (pages s m)) (rtree s ob) in
          rbind (kassert (mrem = Some m) ''removed page, expected page'') (\<lambda>_.
          rbind (tailq_remove m (memq s ob)) (\<lambda>l.
          let s = add_resident ob (- 1) (set_memq ob l (set_rtree ob t s));
              s = call_if (resident_page_count s ob = 0 \<and> is_vnode s ob) (Vdrop ob) s in
          Inr (upd_pg m (\<lambda>p. p\<lparr>pg_object := None\<rparr>) s)))))"

subsection \<open>Lookup\<close>

definition vm_page_lookup :: "'r radix \<Rightarrow> obj \<Rightarrow> u_long \<Rightarrow> 'r vm \<Rightarrow> pg option" where
  "vm_page_lookup R ob pi s = r_lookup R pi (rtree s ob)"

definition vm_page_find_least :: "'r radix \<Rightarrow> obj \<Rightarrow> u_long \<Rightarrow> 'r vm \<Rightarrow> pg option" where
  "vm_page_find_least R ob pi s =
     (case tailq_first (memq s ob) of None \<Rightarrow> None
      | Some m \<Rightarrow> if pindex (pages s m) < pi then r_lookup_ge R pi (rtree s ob) else Some m)"

text \<open>A page of no object has no list links; the result is then an object mismatch.\<close>

definition obj_list :: "pg \<Rightarrow> 'r vm \<Rightarrow> pg list" where
  "obj_list m s = (case pg_object (pages s m) of None \<Rightarrow> [] | Some ob \<Rightarrow> memq s ob)"

definition neighbour :: "pg option \<Rightarrow> u_long \<Rightarrow> pg \<Rightarrow> 'r vm \<Rightarrow> fault + pg option" where
  "neighbour nb pi m s =
     (case nb of None \<Rightarrow> Inr None
      | Some p \<Rightarrow>
          rbind (kassert (pg_object (pages s p) = pg_object (pages s m)) ''MPASS'') (\<lambda>_.
          Inr (if pindex (pages s p) \<noteq> pi then None else Some p)))"

definition vm_page_next :: "pg \<Rightarrow> 'r vm \<Rightarrow> fault + pg option" where
  "vm_page_next m s = neighbour (tailq_next m (obj_list m s)) (pindex (pages s m) + 1) m s"

definition vm_page_prev :: "pg \<Rightarrow> 'r vm \<Rightarrow> fault + pg option" where
  "vm_page_prev m s = neighbour (tailq_prev m (obj_list m s)) (pindex (pages s m) - 1) m s"

subsection \<open>Replacement and renaming\<close>

definition vm_page_replace :: "'r radix \<Rightarrow> pg \<Rightarrow> obj \<Rightarrow> u_long \<Rightarrow> 'r vm \<Rightarrow> fault + 'r vm \<times> pg" where
  "vm_page_replace R mnew ob pi s =
     rbind (kassert (pg_object (pages s mnew) = None) ''vm_page_replace: page already in object'') (\<lambda>_.
     rbind (kassert (queue (pages s mnew) = PQ_NONE) ''vm_page_replace: new page is on a paging queue'') (\<lambda>_.
     let s = upd_pg mnew (\<lambda>p. p\<lparr>pg_object := Some ob, pindex := pi\<rparr>) s in
     case r_replace R pi mnew (rtree s ob) of
       (None, t) \<Rightarrow> Inl (Panic ''vm_radix_replace: original replacing page not found'')
     | (Some mold, t) \<Rightarrow>
         let s = set_rtree ob t s in
         rbind (kassert (queue (pages s mold) = PQ_NONE) ''vm_page_replace: old page is on a paging queue'') (\<lambda>_.
         rbind (tailq_insert_after mold mnew (memq s ob)) (\<lambda>l.
         rbind (tailq_remove mold l) (\<lambda>l.
         let s = upd_pg mold (\<lambda>p. p\<lparr>pg_object := None\<rparr>) (set_memq ob l s) in
         rbind (vm_page_xunbusy (busy_lock (pages s mold))) (\<lambda>xw.
         let s = set_busy mold xw s in
         Inr (call_if (is_write_mapped s mnew) (ObjWriteableDirty ob) s, mold)))))))"

definition vm_page_dirty :: "pg \<Rightarrow> 'r vm \<Rightarrow> fault + 'r vm" where
  "vm_page_dirty m s = rbind (vm_page_dirty_KBI (pages s m)) (\<lambda>p. Inr (upd_pg m (\<lambda>_. p) s))"

definition vm_page_rename :: "'r radix \<Rightarrow> pg \<Rightarrow> obj \<Rightarrow> u_long \<Rightarrow> 'r vm \<Rightarrow> fault + 'r vm \<times> bool" where
  "vm_page_rename R m ob pi s =
     (let mpred = r_lookup_le R pi (rtree s ob) in
      rbind (kassert (case mpred of None \<Rightarrow> True | Some p \<Rightarrow> pindex (pages s p) \<noteq> pi)
        ''vm_page_rename: pindex already renamed'') (\<lambda>_.
      let opidx = pindex (pages s m); s = upd_pg m (\<lambda>p. p\<lparr>pindex := pi\<rparr>) s in
      case r_insert R pi m (rtree s ob) of
        None \<Rightarrow> Inr (upd_pg m (\<lambda>p. p\<lparr>pindex := opidx\<rparr>) s, True)
      | Some t \<Rightarrow>
          rbind (vm_page_remove R m (upd_pg m (\<lambda>p. p\<lparr>pindex := opidx\<rparr>) (set_rtree ob t s))) (\<lambda>s.
          let s = upd_pg m (\<lambda>p. p\<lparr>pindex := pi, pg_object := Some ob\<rparr>) s in
          rbind (vm_page_insert_radixdone m ob mpred s) (\<lambda>s.
          rbind (vm_page_dirty m s) (\<lambda>s. Inr (s, False))))))"

end
