(* ===== verification/VmFree.thy ===== *)
theory VmFree
  imports VmObject
begin

text \<open>
  Holding, freeing and allocating pages in vm_page.c, with the requests to the page daemon of
  vm_pageout.c. The physical allocator is not part of the sources: which page it hands out is an
  argument of the allocation, and what the count of free pages becomes is a function of the
  environment, as are the macros of vmmeter.h and the dirty bits after pmap_remove_all.
\<close>

record 'r vm_env =
  radix_ops :: "'r radix"
  vm_phys_freecnt_adj :: "pg \<Rightarrow> int \<Rightarrow> u_int \<Rightarrow> u_int"
  dirty_after_remove_all :: "pg \<Rightarrow> vm_page_bits_t"
  vm_page_count_min :: "u_int \<Rightarrow> bool"
  vm_paging_needed :: "u_int \<Rightarrow> bool"
  v_pageout_free_min :: u_int
  v_free_reserved :: u_int
  v_interrupt_free_min :: u_int
  in_pageproc :: bool
  have_pageproc :: bool

definition adj_free :: "'r vm_env \<Rightarrow> pg \<Rightarrow> int \<Rightarrow> 'r vm \<Rightarrow> 'r vm" where
  "adj_free E m k s = s\<lparr>v_free_count := vm_phys_freecnt_adj E m k (v_free_count s)\<rparr>"

subsection \<open>Freeing\<close>

definition vm_page_free_wakeup :: "'r vm_env \<Rightarrow> 'r vm \<Rightarrow> 'r vm" where
  "vm_page_free_wakeup E s =
     (let s = (if vm_pageout_pages_needed s \<and> v_free_count s \<ge> v_pageout_free_min E
               then (vm_call WakeupPagesNeeded s)\<lparr>vm_pageout_pages_needed := False\<rparr> else s) in
      if vm_pages_needed s \<and> \<not> vm_page_count_min E (v_free_count s)
      then vm_call WakeupFree (s\<lparr>vm_pages_needed := False\<rparr>) else s)"

definition vm_page_free_prep :: "'r vm_env \<Rightarrow> pg \<Rightarrow> bool \<Rightarrow> 'r vm \<Rightarrow> fault + 'r vm \<times> bool" where
  "vm_page_free_prep E m pagequeue_locked s =
     rbind (if \<not> unmanaged m s
            then kassert (\<not> is_mapped s m) ''vm_page_free_toq: freeing mapped page''
            else kassert (queue (pages s m) = PQ_NONE) ''vm_page_free_toq: unmanaged page is queued'') (\<lambda>_.
     rbind (kassert (\<not> vm_page_sbusied (busy_lock (pages s m))) ''vm_page_free: freeing busy page'') (\<lambda>_.
     rbind (if queue (pages s m) \<noteq> PQ_NONE
            then if pagequeue_locked then vm_page_dequeue_locked m s else vm_page_dequeue m s
            else Inr s) (\<lambda>s.
     rbind (vm_page_remove (radix_ops E) m s) (\<lambda>s.
     if pg_flags (pages s m) AND PG_FICTITIOUS \<noteq> 0 then Inr (s, False)
     else
       let s = upd_pg m (\<lambda>p. vm_page_undirty (p\<lparr>valid := 0\<rparr>)) s in
       if wire_count (pages s m) \<noteq> 0 then Inl (Panic ''vm_page_free: freeing wired page'')
       else if hold_count (pages s m) \<noteq> 0 then
         let s = upd_pg m (\<lambda>p. p\<lparr>pg_flags := pg_flags p AND NOT PG_ZERO\<rparr>) s in
         rbind (kassert (pg_flags (pages s m) AND PG_UNHOLDFREE = 0)
           ''vm_page_free: freeing PG_UNHOLDFREE page'') (\<lambda>_.
         Inr (upd_pg m (\<lambda>p. p\<lparr>pg_flags := pg_flags p OR PG_UNHOLDFREE\<rparr>) s, False))
       else if memattr_default s m then Inr (s, True)
       else Inr (vm_call (PmapDefaultAttr m) (s\<lparr>memattr_default := (memattr_default s)(m := True)\<rparr>), True)))))"

text \<open>\<open>FreePage\<close> is the call of vm_reserv_free_page or vm_phys_free_pages.\<close>

definition vm_page_free_phys :: "'r vm_env \<Rightarrow> pg \<Rightarrow> 'r vm \<Rightarrow> 'r vm" where
  "vm_page_free_phys E m s =
     (let s = vm_call (FreePage m) (adj_free E m 1 s) in
      if pg_flags (pages s m) AND PG_ZERO \<noteq> 0 then s\<lparr>vm_page_zero_count := vm_page_zero_count s + 1\<rparr>
      else vm_call ZeroIdleWakeup s)"

definition vm_page_free_phys_pglist :: "'r vm_env \<Rightarrow> pg list \<Rightarrow> 'r vm \<Rightarrow> 'r vm" where
  "vm_page_free_phys_pglist E tq s =
     (if tq = [] then s else vm_page_free_wakeup E (fold (vm_page_free_phys E) tq s))"

definition vm_page_free_toq :: "'r vm_env \<Rightarrow> pg \<Rightarrow> 'r vm \<Rightarrow> fault + 'r vm" where
  "vm_page_free_toq E m s =
     rbind (vm_page_free_prep E m False s) (\<lambda>(s, done).
     Inr (if done then vm_page_free_wakeup E (vm_page_free_phys E m s) else s))"

definition vm_page_free :: "'r vm_env \<Rightarrow> pg \<Rightarrow> 'r vm \<Rightarrow> fault + 'r vm" where
  "vm_page_free E m s =
     vm_page_free_toq E m (upd_pg m (\<lambda>p. p\<lparr>pg_flags := pg_flags p AND NOT PG_ZERO\<rparr>) s)"

definition vm_page_free_zero :: "'r vm_env \<Rightarrow> pg \<Rightarrow> 'r vm \<Rightarrow> fault + 'r vm" where
  "vm_page_free_zero E m s =
     vm_page_free_toq E m (upd_pg m (\<lambda>p. p\<lparr>pg_flags := pg_flags p OR PG_ZERO\<rparr>) s)"

subsection \<open>Holding\<close>

definition vm_page_hold :: "pg \<Rightarrow> 'r vm \<Rightarrow> 'r vm" where
  "vm_page_hold m s = upd_pg m (\<lambda>p. p\<lparr>hold_count := hold_count p + 1\<rparr>) s"

definition vm_page_unhold :: "'r vm_env \<Rightarrow> pg \<Rightarrow> 'r vm \<Rightarrow> fault + 'r vm" where
  "vm_page_unhold E m s =
     rbind (kassert (hold_count (pages s m) \<ge> 1) ''vm_page_unhold: hold count < 0!!!'') (\<lambda>_.
     let s = upd_pg m (\<lambda>p. p\<lparr>hold_count := hold_count p - 1\<rparr>) s in
     if hold_count (pages s m) = 0 \<and> pg_flags (pages s m) AND PG_UNHOLDFREE \<noteq> 0
     then vm_page_free_toq E m s else Inr s)"

fun vm_page_unhold_pages :: "'r vm_env \<Rightarrow> pg list \<Rightarrow> 'r vm \<Rightarrow> fault + 'r vm" where
  "vm_page_unhold_pages E [] s = Inr s"
| "vm_page_unhold_pages E (m # ma) s = rbind (vm_page_unhold E m s) (vm_page_unhold_pages E ma)"

text \<open>The pmap reports a modification by vm_page_dirty, which asserts that the page is valid as a whole.\<close>

definition pmap_remove_all :: "'r vm_env \<Rightarrow> pg \<Rightarrow> 'r vm \<Rightarrow> 'r vm" where
  "pmap_remove_all E m s =
     vm_call (PmapRemoveAll m)
       ((upd_pg m (\<lambda>p. p\<lparr>dirty := (if valid p = VM_PAGE_BITS_ALL then dirty_after_remove_all E m else dirty p)\<rparr>) s)
          \<lparr>is_mapped := (is_mapped s)(m := False)\<rparr>)"

lemma pmap_remove_all_eq:
  "pmap_remove_all E m s = vm_call (PmapRemoveAll m)
     ((upd_pg m (\<lambda>p. p\<lparr>dirty := (if valid (pages s m) = VM_PAGE_BITS_ALL then dirty_after_remove_all E m
                                  else dirty (pages s m))\<rparr>) s)\<lparr>is_mapped := (is_mapped s)(m := False)\<rparr>)"
  by (simp add: pmap_remove_all_def upd_pg_def)

definition vm_page_try_to_free :: "'r vm_env \<Rightarrow> pg \<Rightarrow> 'r vm \<Rightarrow> fault + 'r vm \<times> bool" where
  "vm_page_try_to_free E m s =
     (let p = pages s m in
      if dirty p \<noteq> 0 \<or> hold_count p \<noteq> 0 \<or> wire_count p \<noteq> 0 \<or> unmanaged m s \<or> vm_page_busied (busy_lock p)
      then Inr (s, False)
      else
        let s = (case pg_object p of None \<Rightarrow> s
                 | Some ob \<Rightarrow>
                     if obj_ref_count s ob \<noteq> 0 then pmap_remove_all E m s else s) in
        if dirty (pages s m) \<noteq> 0 then Inr (s, False)
        else rbind (vm_page_free E m s) (\<lambda>s. Inr (s, True)))"

subsection \<open>Advice and faults\<close>

datatype madvice = MADV_NORMAL | MADV_WILLNEED | MADV_DONTNEED | MADV_FREE

definition vm_page_advise :: "int \<times> int \<Rightarrow> pg \<Rightarrow> madvice \<Rightarrow> 'r vm \<Rightarrow> fault + 'r vm" where
  "vm_page_advise now m advice s =
     (if advice \<noteq> MADV_FREE \<and> advice \<noteq> MADV_DONTNEED then
        if advice = MADV_WILLNEED then vm_page_activate now m s else Inr s
      else
        let s = (if advice = MADV_FREE then upd_pg m vm_page_undirty s else s);
            s = upd_pg m (\<lambda>p. p\<lparr>aflags := aflags p AND NOT PGA_REFERENCED\<rparr>) s in
        rbind (if advice \<noteq> MADV_FREE \<and> dirty (pages s m) = 0 \<and> is_modified s m
               then vm_page_dirty m s else Inr s) (\<lambda>s.
        if dirty (pages s m) = 0 then vm_page_deactivate_noreuse m s else vm_page_launder m s))"

definition vm_page_reference :: "pg \<Rightarrow> 'r vm \<Rightarrow> 'r vm" where
  "vm_page_reference m s = upd_pg m (\<lambda>p. p\<lparr>aflags := aflags p OR PGA_REFERENCED\<rparr>) s"

definition vm_page_readahead_finish :: "int \<times> int \<Rightarrow> pg \<Rightarrow> 'r vm \<Rightarrow> fault + 'r vm" where
  "vm_page_readahead_finish now m s =
     rbind (kassert (valid (pages s m) \<noteq> 0) ''vm_page_readahead_finish: invalid'') (\<lambda>_.
     rbind (if busy_lock (pages s m) AND VPB_BIT_WAITERS \<noteq> 0 then vm_page_activate now m s
            else vm_page_deactivate m s) (\<lambda>s.
     rbind (vm_page_xunbusy (busy_lock (pages s m))) (\<lambda>xw. Inr (set_busy m xw s))))"

text \<open>\<open>True\<close>: the thread slept, or the page was unbusied before it did.\<close>

definition vm_page_sleep_if_busy :: "pg \<Rightarrow> 'r vm \<Rightarrow> 'r vm \<times> bool" where
  "vm_page_sleep_if_busy m s =
     (if vm_page_busied (busy_lock (pages s m)) then
        (upd_pg m (\<lambda>p. p\<lparr>busy_lock := fst (vm_page_busy_sleep False (busy_lock p))\<rparr>) s, True)
      else (s, False))"

definition vm_page_test_dirty :: "pg \<Rightarrow> 'r vm \<Rightarrow> fault + 'r vm" where
  "vm_page_test_dirty m s =
     (if dirty (pages s m) \<noteq> VM_PAGE_BITS_ALL \<and> is_modified s m then vm_page_dirty m s else Inr s)"

subsection \<open>Asking the page daemon\<close>

definition pagedaemon_wakeup :: "'r vm_env \<Rightarrow> 'r vm \<Rightarrow> 'r vm" where
  "pagedaemon_wakeup E s =
     (if \<not> vm_pageout_wanted s \<and> \<not> in_pageproc E
      then vm_call WakeupPagedaemon (s\<lparr>vm_pageout_wanted := True\<rparr>) else s)"

definition pagedaemon_wait :: "'r vm \<Rightarrow> 'r vm" where
  "pagedaemon_wait s =
     (let s = (if \<not> vm_pageout_wanted s \<or> \<not> vm_pages_needed s
               then vm_call WakeupPagedaemon (s\<lparr>vm_pageout_wanted := True\<rparr>) else s) in
      vm_call SleepFree (s\<lparr>vm_pages_needed := True\<rparr>))"

definition vm_wait' :: "'r vm_env \<Rightarrow> 'r vm \<Rightarrow> fault + 'r vm" where
  "vm_wait' E s =
     (if in_pageproc E then Inr (vm_call SleepPagesNeeded (s\<lparr>vm_pageout_pages_needed := True\<rparr>))
      else if \<not> have_pageproc E then Inl (Panic ''vm_wait in early boot'')
      else Inr (pagedaemon_wait s))"

subsection \<open>Allocation\<close>

definition VM_ALLOC_INTERRUPT :: u_int where "VM_ALLOC_INTERRUPT = 1"
definition VM_ALLOC_SYSTEM :: u_int where "VM_ALLOC_SYSTEM = 2"
definition VM_ALLOC_CLASS_MASK :: u_int where "VM_ALLOC_CLASS_MASK = 3"
definition VM_ALLOC_WAITOK :: u_int where "VM_ALLOC_WAITOK = 0x0008"
definition VM_ALLOC_WAITFAIL :: u_int where "VM_ALLOC_WAITFAIL = 0x0010"
definition VM_ALLOC_WIRED :: u_int where "VM_ALLOC_WIRED = 0x0020"
definition VM_ALLOC_ZERO :: u_int where "VM_ALLOC_ZERO = 0x0040"
definition VM_ALLOC_NOOBJ :: u_int where "VM_ALLOC_NOOBJ = 0x0100"
definition VM_ALLOC_NOBUSY :: u_int where "VM_ALLOC_NOBUSY = 0x0200"
definition VM_ALLOC_IFCACHED :: u_int where "VM_ALLOC_IFCACHED = 0x0400"
definition VM_ALLOC_NODUMP :: u_int where "VM_ALLOC_NODUMP = 0x2000"
definition VM_ALLOC_SBUSY :: u_int where "VM_ALLOC_SBUSY = 0x4000"
definition VM_ALLOC_COUNT_SHIFT :: nat where "VM_ALLOC_COUNT_SHIFT = 16"

text \<open>\<open>True\<close>: try again.\<close>

definition vm_page_alloc_fail :: "'r vm_env \<Rightarrow> u_int \<Rightarrow> 'r vm \<Rightarrow> fault + 'r vm \<times> bool" where
  "vm_page_alloc_fail E req s =
     (let s = s\<lparr>vm_pageout_deficit := vm_pageout_deficit s + max (drop_bit VM_ALLOC_COUNT_SHIFT req) 1\<rparr> in
      if has_flag req (VM_ALLOC_WAITOK OR VM_ALLOC_WAITFAIL) then
        rbind (vm_wait' E s) (\<lambda>s. Inr (s, has_flag req VM_ALLOC_WAITOK))
      else Inr (pagedaemon_wakeup E s, False))"

definition vm_page_alloc_check :: "pg \<Rightarrow> 'r vm \<Rightarrow> fault + unit" where
  "vm_page_alloc_check m s =
     (let p = pages s m in
      rbind (kassert (pg_object p = None) ''page has object'') (\<lambda>_.
      rbind (kassert (queue p = PQ_NONE) ''page has unexpected queue'') (\<lambda>_.
      rbind (kassert (wire_count p = 0) ''page is wired'') (\<lambda>_.
      rbind (kassert (hold_count p = 0) ''page is held'') (\<lambda>_.
      rbind (kassert (\<not> vm_page_busied (busy_lock p)) ''page is busy'') (\<lambda>_.
      rbind (kassert (dirty p = 0) ''page is dirty'') (\<lambda>_.
      rbind (kassert (memattr_default s m) ''page has unexpected memattr'') (\<lambda>_.
      kassert (valid p = 0) ''free page is valid''))))))))"

definition may_alloc :: "'r vm_env \<Rightarrow> u_int \<Rightarrow> u_int \<Rightarrow> bool" where
  "may_alloc E req_class free \<longleftrightarrow> free > v_free_reserved E \<or>
     (req_class = VM_ALLOC_SYSTEM \<and> free > v_interrupt_free_min E) \<or>
     (req_class = VM_ALLOC_INTERRUPT \<and> free > 0)"

text \<open>The attempts of the \<open>again\<close> loop: with each comes the free count that the lock holder finds and
  the page that the physical allocator would hand out. The thread still sleeps when they end.\<close>

fun alloc_loop :: "'r vm_env \<Rightarrow> u_int \<Rightarrow> u_int \<Rightarrow> (u_int \<times> pg option) list \<Rightarrow> 'r vm \<Rightarrow>
    fault + 'r vm \<times> pg option" where
  "alloc_loop E req req_class [] s = Inl (Diverges ''vm_page_alloc_after'')"
| "alloc_loop E req req_class ((free, got) # rest) s =
    (let s = s\<lparr>v_free_count := free\<rparr> in
     if may_alloc E req_class free then
       rbind (kassert (got \<noteq> None) ''missing page'') (\<lambda>_. Inr (s, got))
     else
       rbind (vm_page_alloc_fail E req s) (\<lambda>(s, again).
       if again then alloc_loop E req req_class rest s else Inr (s, None)))"

definition req_class_of :: "'r vm_env \<Rightarrow> u_int \<Rightarrow> u_int" where
  "req_class_of E req =
     (let c = req AND VM_ALLOC_CLASS_MASK in
      if in_pageproc E \<and> c \<noteq> VM_ALLOC_INTERRUPT then VM_ALLOC_SYSTEM else c)"

definition alloc_page :: "obj option \<Rightarrow> u_int \<Rightarrow> 'r vm \<Rightarrow> vm_page \<Rightarrow> vm_page" where
  "alloc_page ob req s p =
     p\<lparr>pg_flags := ((if has_flag req VM_ALLOC_ZERO then PG_ZERO else 0) AND pg_flags p) OR
                   (if has_flag req VM_ALLOC_NODUMP then PG_NODUMP else 0),
       aflags := 0,
       oflags := (if case ob of None \<Rightarrow> True | Some ob \<Rightarrow> obj_unmanaged s ob then VPO_UNMANAGED else 0),
       busy_lock := (if has_flag req VM_ALLOC_SBUSY then VPB_SHARERS_WORD 1
                     else if has_flag req (VM_ALLOC_NOBUSY OR VM_ALLOC_NOOBJ OR VM_ALLOC_SBUSY) then VPB_UNBUSIED
                     else VPB_SINGLE_EXCLUSIVER),
       wire_count := (if has_flag req VM_ALLOC_WIRED then 1 else wire_count p),
       act_count := 0\<rparr>"

definition take_page :: "'r vm_env \<Rightarrow> pg \<Rightarrow> 'r vm \<Rightarrow> 'r vm" where
  "take_page E m s =
     (let s = vm_call (AllocPage m) (adj_free E m (- 1) s) in
      if pg_flags (pages s m) AND PG_ZERO \<noteq> 0
      then s\<lparr>vm_page_zero_count := vm_page_zero_count s - 1\<rparr> else s)"

definition vm_page_alloc_after ::
    "'r vm_env \<Rightarrow> obj option \<Rightarrow> u_long \<Rightarrow> u_int \<Rightarrow> pg option \<Rightarrow> (u_int \<times> pg option) list \<Rightarrow> 'r vm \<Rightarrow>
     fault + 'r vm \<times> pg option" where
  "vm_page_alloc_after E ob pi req mpred attempts s =
     rbind (kassert ((ob \<noteq> None) = (\<not> has_flag req VM_ALLOC_NOOBJ) \<and>
        (ob \<noteq> None \<or> \<not> has_flag req VM_ALLOC_SBUSY) \<and>
        req AND (VM_ALLOC_NOBUSY OR VM_ALLOC_SBUSY) \<noteq> VM_ALLOC_NOBUSY OR VM_ALLOC_SBUSY)
       ''inconsistent object/req'') (\<lambda>_.
     rbind (kassert (ob = None \<or> \<not> has_flag req VM_ALLOC_WAITOK)
       ''Can't sleep and retry object insertion.'') (\<lambda>_.
     rbind (case mpred of None \<Rightarrow> Inr ()
            | Some p \<Rightarrow> kassert (pindex (pages s p) < pi) ''mpred doesn't precede pindex'') (\<lambda>_.
     if has_flag req VM_ALLOC_IFCACHED then Inr (s, None)
     else
       rbind (alloc_loop E req (req_class_of E req) attempts s) (\<lambda>(s, got).
       case got of None \<Rightarrow> Inr (s, None)
       | Some m \<Rightarrow>
           let s = take_page E m s; free_count = v_free_count s in
           rbind (vm_page_alloc_check m s) (\<lambda>_.
           let s = upd_pg m (alloc_page ob req s) s;
               s = (if has_flag req VM_ALLOC_WIRED then s\<lparr>v_wire_count := v_wire_count s + 1\<rparr> else s) in
           rbind (case ob of None \<Rightarrow> Inr (upd_pg m (\<lambda>p. p\<lparr>pindex := pi\<rparr>) s, False)
                  | Some ob \<Rightarrow> vm_page_insert_after (radix_ops E) m ob pi mpred s) (\<lambda>(s, failed).
           if failed then
             let s = pagedaemon_wakeup E s;
                 s = (if has_flag req VM_ALLOC_WIRED
                      then upd_pg m (\<lambda>p. p\<lparr>wire_count := 0\<rparr>) (s\<lparr>v_wire_count := v_wire_count s - 1\<rparr>) else s) in
             rbind (kassert (pg_object (pages s m) = None) ''page has object'') (\<lambda>_.
             rbind (vm_page_free_toq E m
                 (upd_pg m (\<lambda>p. p\<lparr>oflags := VPO_UNMANAGED, busy_lock := VPB_UNBUSIED\<rparr>) s)) (\<lambda>s.
             Inr (call_if (has_flag req VM_ALLOC_WAITFAIL) RadixWait s, None)))
           else
             let s = (case ob of None \<Rightarrow> s
                      | Some ob \<Rightarrow>
                          if \<not> obj_memattr_default s ob \<and> \<not> obj_fictitious s ob
                          then (vm_call (PmapSetAttr m ob) s)\<lparr>memattr_default := (memattr_default s)(m := False)\<rparr>
                          else s) in
             Inr (if vm_paging_needed E free_count then pagedaemon_wakeup E s else s, Some m)))))))"

definition vm_page_alloc ::
    "'r vm_env \<Rightarrow> obj option \<Rightarrow> u_long \<Rightarrow> u_int \<Rightarrow> (u_int \<times> pg option) list \<Rightarrow> 'r vm \<Rightarrow>
     fault + 'r vm \<times> pg option" where
  "vm_page_alloc E ob pi req attempts s =
     vm_page_alloc_after E ob pi req
       (case ob of None \<Rightarrow> None | Some ob \<Rightarrow> r_lookup_le (radix_ops E) pi (rtree s ob)) attempts s"

end
