(* ===== verification/VmQueueLaws.thy ===== *)
theory VmQueueLaws
  imports VmQueue
begin

text \<open>
  The invariant of the page queues and what taking a page off its queue and putting it on one do
  to it.
\<close>


lemma pq_simps [simp]:
  "PQ_NONE = 255" "PQ_INACTIVE = 0" "PQ_ACTIVE = 1" "PQ_LAUNDRY = 2" "PQ_COUNT = 3" "ACT_INIT = 5"
  by (simp_all add: PQ_NONE_def PQ_INACTIVE_def PQ_ACTIVE_def PQ_LAUNDRY_def PQ_COUNT_def ACT_INIT_def)

lemma upd_pg_simps [simp]:
  "pages (upd_pg m f s) = (pages s)(m := f (pages s m))" "pq_pl (upd_pg m f s) = pq_pl s"
  "pq_cnt (upd_pg m f s) = pq_cnt s" "pq_vcnt (upd_pg m f s) = pq_vcnt s"
  "phys_domain (upd_pg m f s) = phys_domain s" "vmd_inacthead (upd_pg m f s) = vmd_inacthead s"
  by (simp_all add: upd_pg_def)

lemma set_pq_simps [simp]:
  "pages (set_pq d q l s) = pages s" "pq_pl (set_pq d q l s) = (pq_pl s)(d := (pq_pl s d)(q := l))"
  "pq_cnt (set_pq d q l s) = pq_cnt s" "pq_vcnt (set_pq d q l s) = pq_vcnt s"
  "phys_domain (set_pq d q l s) = phys_domain s" "vmd_inacthead (set_pq d q l s) = vmd_inacthead s"
  by (simp_all add: set_pq_def)

lemma cnt_add_simps [simp]:
  "pages (vm_pagequeue_cnt_add d q n s) = pages s" "pq_pl (vm_pagequeue_cnt_add d q n s) = pq_pl s"
  "pq_cnt (vm_pagequeue_cnt_add d q n s) = (pq_cnt s)(d := (pq_cnt s d)(q := pq_cnt s d q + n))"
  "pq_vcnt (vm_pagequeue_cnt_add d q n s) = (pq_vcnt s)(q := pq_vcnt s q + of_int n)"
  "phys_domain (vm_pagequeue_cnt_add d q n s) = phys_domain s"
  "vmd_inacthead (vm_pagequeue_cnt_add d q n s) = vmd_inacthead s"
  by (simp_all add: vm_pagequeue_cnt_add_def)

definition marker :: "'r vm \<Rightarrow> pg \<Rightarrow> bool" where
  "marker s m \<longleftrightarrow> pg_flags (pages s m) AND PG_MARKER \<noteq> 0"

definition fictitious :: "'r vm \<Rightarrow> pg \<Rightarrow> bool" where
  "fictitious s m \<longleftrightarrow> pg_flags (pages s m) AND PG_FICTITIOUS \<noteq> 0"

text \<open>The list a page of queue \<open>q\<close> is on: laundry pages are all on the list of domain 0.\<close>

definition home :: "'r vm \<Rightarrow> pg \<Rightarrow> u_char \<Rightarrow> nat" where
  "home s m q = (if q = PQ_LAUNDRY then 0 else phys_domain s m)"

definition queued :: "'r vm \<Rightarrow> nat \<Rightarrow> u_char \<Rightarrow> pg list" where
  "queued s d q = filter (\<lambda>m. \<not> marker s m) (pq_pl s d q)"

text \<open>The invariant of the page queues of \<open>n\<close> domains: the queue field of a page says which one
  list it is on, only managed pages that are not wired are queued, and all counters agree with
  the lists. Marker pages are on the lists but not counted.\<close>

definition page_ok :: "nat \<Rightarrow> 'r vm \<Rightarrow> pg \<Rightarrow> bool" where
  "page_ok n s m \<longleftrightarrow>
     (queue (pages s m) < PQ_COUNT \<or> queue (pages s m) = PQ_NONE) \<and>
     (queue (pages s m) \<noteq> PQ_NONE \<longrightarrow> wire_count (pages s m) = 0 \<and> \<not> unmanaged m s) \<and>
     (fictitious s m \<longrightarrow> wire_count (pages s m) = 1) \<and> phys_domain s m < n"

definition list_ok :: "'r vm \<Rightarrow> nat \<Rightarrow> u_char \<Rightarrow> bool" where
  "list_ok s d q \<longleftrightarrow> distinct (pq_pl s d q) \<and>
     (\<forall>m. \<not> marker s m \<longrightarrow> (m \<in> set (pq_pl s d q) \<longleftrightarrow> queue (pages s m) = q \<and> d = home s m q)) \<and>
     pq_cnt s d q = int (length (queued s d q))"

definition vm_wf :: "nat \<Rightarrow> 'r vm \<Rightarrow> bool" where
  "vm_wf n s \<longleftrightarrow> 0 < n \<and> (\<forall>m. \<not> marker s m \<longrightarrow> page_ok n s m) \<and>
     (\<forall>d q. q < PQ_COUNT \<longrightarrow> list_ok s d q) \<and>
     (\<forall>q < PQ_COUNT. pq_vcnt s q = of_int (\<Sum>d<n. pq_cnt s d q)) \<and>
     (\<forall>d. vmd_inacthead s d \<in> set (pq_pl s d PQ_INACTIVE) \<and> marker s (vmd_inacthead s d))"

lemma vm_wfD:
  assumes "vm_wf n s"
  shows "\<And>m. \<not> marker s m \<Longrightarrow> page_ok n s m" "\<And>d q. q < 3 \<Longrightarrow> list_ok s d q"
    "\<And>q. q < 3 \<Longrightarrow> pq_vcnt s q = of_int (\<Sum>d<n. pq_cnt s d q)" "0 < n"
    "\<And>d. vmd_inacthead s d \<in> set (pq_pl s d 0)" "\<And>d. marker s (vmd_inacthead s d)"
  using assms unfolding vm_wf_def by simp_all

lemma vm_wfI:
  assumes "\<And>m. \<not> marker s m \<Longrightarrow> page_ok n s m" "\<And>d q. q < 3 \<Longrightarrow> list_ok s d q"
    "\<And>q. q < 3 \<Longrightarrow> pq_vcnt s q = of_int (\<Sum>d<n. pq_cnt s d q)" "0 < n"
    "\<And>d. vmd_inacthead s d \<in> set (pq_pl s d 0)" "\<And>d. marker s (vmd_inacthead s d)"
  shows "vm_wf n s"
  using assms unfolding vm_wf_def by simp

lemma queued_elem:
  assumes "vm_wf n s" "\<not> marker s m" "q < 3"
  shows "m \<in> set (pq_pl s d q) \<longleftrightarrow> queue (pages s m) = q \<and> d = home s m q"
  using vm_wfD(2) [OF assms(1,3), of d] assms(2) unfolding list_ok_def by blast

lemma length_filter_remove1:
  "distinct l \<Longrightarrow> x \<in> set l \<Longrightarrow> P x \<Longrightarrow> Suc (length (filter P (remove1 x l))) = length (filter P l)"
  by (induction l) auto

lemma sum_fun_upd:
  "d < (n::nat) \<Longrightarrow> (\<Sum>i<n. (f(d := f d + k)) i) = (\<Sum>i<n. f i) + (k::int)"
proof -
  assume d: "d < n"
  have "(\<Sum>i<n. (f(d := f d + k)) i) = (\<Sum>i<n. f i + (if i = d then k else 0))"
    by (rule sum.cong) auto
  then show ?thesis using d by (simp add: sum.distrib)
qed

text \<open>Taking a page off its list and putting it on one keep the invariant, whatever happens to the
  other fields of the page as long as it may be queued.\<close>

lemma vm_wf_change_list:
  assumes wf: "vm_wf n s" and m: "\<not> marker s m" and q: "q < 3" and d: "d = home s m q"
    and s': "pages s' = (pages s)(m := p)" "pq_pl s' = (pq_pl s)(d := (pq_pl s d)(q := l))"
      "pq_cnt s' = (pq_cnt s)(d := (pq_cnt s d)(q := pq_cnt s d q + k))"
      "pq_vcnt s' = (pq_vcnt s)(q := pq_vcnt s q + of_int k)"
      "phys_domain s' = phys_domain s" "vmd_inacthead s' = vmd_inacthead s"
    and p: "pg_flags p AND PG_MARKER = 0" "page_ok n s' m"
    and others: "\<And>q'. q' < 3 \<Longrightarrow> q' \<noteq> q \<Longrightarrow> queue p = q' \<longleftrightarrow> queue (pages s m) = q'"
    and l: "distinct l" "set l - {m} = set (pq_pl s d q) - {m}" "m \<in> set l \<longleftrightarrow> queue p = q"
      "int (length (filter (\<lambda>m. \<not> marker s m) l)) = pq_cnt s d q + k"
  shows "vm_wf n s'"
proof (rule vm_wfI)
  have mk: "marker s' x = marker s x" for x
    using m p(1) by (auto simp: marker_def s'(1))
  have home: "home s' x y = home s x y" for x y by (simp add: home_def s'(5))
  show "page_ok n s' x" if "\<not> marker s' x" for x
  proof (cases "x = m")
    case False
    then show ?thesis using vm_wfD(1) [OF wf, of x] that
      by (simp add: mk page_ok_def unmanaged_def fictitious_def s'(1,5))
  qed (simp add: p(2))
  show "list_ok s' d' q'" if "q' < 3" for d' q'
  proof -
    have el: "x \<in> set (pq_pl s' d' q') \<longleftrightarrow> queue (pages s' x) = q' \<and> d' = home s' x q'"
      if x: "\<not> marker s' x" for x
    proof (cases "x = m")
      case True
      note old = queued_elem [OF wf m \<open>q' < 3\<close>, of d']
      have "m \<in> set (pq_pl s' d' q') \<longleftrightarrow> queue p = q' \<and> d' = home s m q'"
      proof (cases "q' = q")
        case True
        then show ?thesis using old l(3) d by (cases "d' = d") (simp_all add: s'(2))
      next
        case False
        then show ?thesis using old others [OF \<open>q' < 3\<close> False]
          by (cases "d' = d") (simp_all add: s'(2))
      qed
      then show ?thesis by (simp add: True home s'(1))
    next
      case False
      have "x \<in> set l \<longleftrightarrow> x \<in> set (pq_pl s d q)" using l(2) False by blast
      then have "x \<in> set (pq_pl s' d' q') \<longleftrightarrow> x \<in> set (pq_pl s d' q')" by (simp add: s'(2))
      then show ?thesis
        using queued_elem [OF wf _ \<open>q' < 3\<close>, of x d'] x False by (simp add: mk home s'(1))
    qed
    have "list_ok s d' q'" by (rule vm_wfD(2) [OF wf that])
    then show ?thesis
      using el l(1,4) unfolding list_ok_def queued_def mk
      by (cases "d' = d"; cases "q' = q"; simp add: s'(2,3))
  qed
  show "pq_vcnt s' q' = of_int (\<Sum>d<n. pq_cnt s' d q')" if "q' < 3" for q'
  proof (cases "q' = q")
    case True
    have "phys_domain s m < n" using vm_wfD(1) [OF wf m] by (simp add: page_ok_def)
    then have dn: "d < n" using vm_wfD(4) [OF wf] by (simp add: d home_def)
    have "(\<Sum>i<n. pq_cnt s' i q) = (\<Sum>i<n. ((\<lambda>i. pq_cnt s i q)(d := pq_cnt s d q + k)) i)"
      by (rule sum.cong) (simp_all add: s'(3))
    then show ?thesis
      using vm_wfD(3) [OF wf q] sum_fun_upd [OF dn, of "\<lambda>i. pq_cnt s i q" k] True by (simp add: s'(4))
  next
    case False
    have "(\<Sum>i<n. pq_cnt s' i q') = (\<Sum>i<n. pq_cnt s i q')"
      using False by (intro sum.cong) (simp_all add: s'(3))
    then show ?thesis using vm_wfD(3) [OF wf that] False by (simp add: s'(4))
  qed
  show "0 < n" by (rule vm_wfD(4) [OF wf])
  show "marker s' (vmd_inacthead s' x)" for x using vm_wfD(6) [OF wf] by (simp add: mk s'(6))
  show "vmd_inacthead s' x \<in> set (pq_pl s' x 0)" for x
  proof -
    have "vmd_inacthead s x \<noteq> m" using vm_wfD(6) [OF wf, of x] m by auto
    then show ?thesis using vm_wfD(5) [OF wf, of x] l(2) by (auto simp: s'(2,6))
  qed
qed


lemma vm_wf_update:
  assumes wf: "vm_wf n s" and m: "\<not> marker s m"
    and s': "pages s' = (pages s)(m := p)" "pq_pl s' = pq_pl s" "pq_cnt s' = pq_cnt s"
      "pq_vcnt s' = pq_vcnt s" "phys_domain s' = phys_domain s" "vmd_inacthead s' = vmd_inacthead s"
    and p: "pg_flags p AND PG_MARKER = 0" "page_ok n s' m" "queue p = queue (pages s m)"
  shows "vm_wf n s'"
proof (rule vm_wfI)
  have mk: "marker s' x = marker s x" for x
    using m p(1) by (auto simp: marker_def s'(1))
  have home: "home s' x y = home s x y" for x y by (simp add: home_def s'(5))
  have q: "queue (pages s' x) = queue (pages s x)" for x by (simp add: s'(1) p(3))
  show "page_ok n s' x" if "\<not> marker s' x" for x
  proof (cases "x = m")
    case False
    then show ?thesis using vm_wfD(1) [OF wf, of x] that
      by (simp add: mk page_ok_def unmanaged_def fictitious_def s'(1,5))
  qed (simp add: p(2))
  show "list_ok s' d q" if "q < 3" for d q
    using vm_wfD(2) [OF wf that, of d] unfolding list_ok_def queued_def mk home q s'(2,3) .
qed (use vm_wfD [OF wf] m p(1) in \<open>auto simp: marker_def s'\<close>)

lemma length_filter_distinct:
  assumes "distinct l" "distinct k" "set l = insert m (set k)" "m \<notin> set k" "P m"
  shows "length (filter P l) = Suc (length (filter P k))"
proof -
  have "set (filter P l) = insert m (set (filter P k))" using assms(3,5) by auto
  moreover have "card (insert m (set (filter P k))) = Suc (card (set (filter P k)))"
    using assms(4) by (intro card_insert_disjoint) auto
  ultimately show ?thesis
    using distinct_card [of "filter P l"] distinct_card [of "filter P k"] assms(1,2) by simp
qed

lemma not_marker_flags: "\<not> marker s m \<Longrightarrow> pg_flags (pages s m) AND PG_MARKER = 0"
  by (simp add: marker_def)

definition taken_off :: "'r vm \<Rightarrow> pg \<Rightarrow> 'r vm" where
  "taken_off s m = (let q = queue (pages s m); d = home s m q in
     vm_pagequeue_cnt_add d q (- 1) (set_pq d q (remove1 m (pq_pl s d q))
       (upd_pg m (\<lambda>p. p\<lparr>queue := PQ_NONE\<rparr>) s)))"

definition put_on :: "'r vm \<Rightarrow> pg \<Rightarrow> u_char \<Rightarrow> pg list \<Rightarrow> 'r vm" where
  "put_on s m q l = (let d = home s m q in
     vm_pagequeue_cnt_add d q 1 (set_pq d q l (upd_pg m (\<lambda>p. p\<lparr>queue := q\<rparr>) s)))"

lemma dequeue_ok:
  assumes wf: "vm_wf n s" and m: "\<not> marker s m" and q: "queue (pages s m) < 3"
  shows "vm_page_dequeue_locked m s = Inr (taken_off s m)" "vm_page_dequeue m s = Inr (taken_off s m)"
    "vm_page_remque m s = Inr (taken_off s m)" "vm_wf n (taken_off s m)"
proof -
  let ?q = "queue (pages s m)" and ?d = "home s m (queue (pages s m))"
  let ?l = "pq_pl s ?d ?q"
  have mem: "m \<in> set ?l" using queued_elem [OF wf m q] by simp
  have lo: "list_ok s ?d ?q" by (rule vm_wfD(2) [OF wf q])
  show *: "vm_page_dequeue_locked m s = Inr (taken_off s m)"
    using q mem by (cases "?q = 2") (simp_all add: vm_page_dequeue_locked_def vm_page_pagequeue_def
        home_def taken_off_def Let_def tailq_remove_def leD)
  then show "vm_page_dequeue m s = Inr (taken_off s m)" using q by (simp add: vm_page_dequeue_def)
  then show "vm_page_remque m s = Inr (taken_off s m)" using q by (auto simp: vm_page_remque_def)
  have ne: "?q \<noteq> 255" using q by auto
  show "vm_wf n (taken_off s m)"
  proof (rule vm_wf_change_list [OF wf m q refl, where p = "(pages s m)\<lparr>queue := 255\<rparr>" and l = "remove1 m ?l" and k = "- 1"])
    show "page_ok n (taken_off s m) m"
      using vm_wfD(1) [OF wf m] by (simp add: taken_off_def Let_def page_ok_def fictitious_def)
    show "int (length (filter (\<lambda>m. \<not> marker s m) (remove1 m ?l))) = pq_cnt s ?d ?q + - 1"
      using length_filter_remove1 [of ?l m "\<lambda>m. \<not> marker s m"] lo mem m
      by (simp add: list_ok_def queued_def)
    show "queue ((pages s m)\<lparr>queue := 255\<rparr>) = q' \<longleftrightarrow> queue (pages s m) = q'" if "q' < 3" "q' \<noteq> ?q" for q'
      using that by auto
  qed (use lo mem ne not_marker_flags [OF m] in \<open>auto simp: taken_off_def Let_def list_ok_def\<close>)
qed

lemma put_ok:
  assumes wf: "vm_wf n s" and m: "\<not> marker s m" and q: "q < 3" "queue (pages s m) = 255"
    and p: "wire_count (pages s m) = 0" "\<not> unmanaged m s"
    and l: "distinct l" "set l = insert m (set (pq_pl s (home s m q) q))"
  shows "vm_wf n (put_on s m q l)"
proof -
  let ?d = "home s m q"
  have ne: "q \<noteq> 255" using q(1) by auto
  have nm: "m \<notin> set (pq_pl s ?d q)" using queued_elem [OF wf m q(1)] q(2) ne by simp
  have lo: "list_ok s ?d q" by (rule vm_wfD(2) [OF wf q(1)])
  show ?thesis
  proof (rule vm_wf_change_list [OF wf m q(1) refl, where p = "(pages s m)\<lparr>queue := q\<rparr>" and l = l and k = 1])
    show "page_ok n (put_on s m q l) m"
      using vm_wfD(1) [OF wf m] p q by (simp add: put_on_def Let_def page_ok_def fictitious_def unmanaged_def)
    show "int (length (filter (\<lambda>m. \<not> marker s m) l)) = pq_cnt s ?d q + 1"
      using length_filter_distinct [OF l(1) _ l(2) nm, of "\<lambda>m. \<not> marker s m"] lo m
      by (simp add: list_ok_def queued_def)
    show "queue ((pages s m)\<lparr>queue := q\<rparr>) = q' \<longleftrightarrow> queue (pages s m) = q'" if "q' < 3" "q' \<noteq> q" for q'
      using that q(2) by auto
  qed (use l nm not_marker_flags [OF m] in \<open>auto simp: put_on_def Let_def\<close>)
qed


lemma taken_off_simps:
  "pages (taken_off s m) = (pages s)(m := (pages s m)\<lparr>queue := 255\<rparr>)"
  "phys_domain (taken_off s m) = phys_domain s" "vmd_inacthead (taken_off s m) = vmd_inacthead s"
  "marker (taken_off s m) x = marker s x" "unmanaged x (taken_off s m) = unmanaged x s"
  by (auto simp: taken_off_def Let_def marker_def unmanaged_def)

lemma put_on_simps:
  "pages (put_on s m q l) = (pages s)(m := (pages s m)\<lparr>queue := q\<rparr>)"
  "phys_domain (put_on s m q l) = phys_domain s" "vmd_inacthead (put_on s m q l) = vmd_inacthead s"
  "marker (put_on s m q l) x = marker s x" "unmanaged x (put_on s m q l) = unmanaged x s"
  by (auto simp: put_on_def Let_def marker_def unmanaged_def)

lemma queue_cases:
  assumes "vm_wf n s" "\<not> marker s m"
  obtains (off) "queue (pages s m) = 255" | (on) "queue (pages s m) < 3"
  using vm_wfD(1) [OF assms] by (auto simp: page_ok_def)

lemma queued_free:
  assumes "vm_wf n s" "\<not> marker s m" "queue (pages s m) \<noteq> 255"
  shows "wire_count (pages s m) = 0" "\<not> unmanaged m s"
  using vm_wfD(1) [OF assms(1,2)] assms(3) by (simp_all add: page_ok_def)

text \<open>After vm_page_remque the page is off the queues and the rest is as before.\<close>

lemma remque_ok:
  assumes wf: "vm_wf n s" and m: "\<not> marker s m"
  obtains s' where "vm_page_remque m s = Inr s'" "vm_wf n s'" "\<not> marker s' m"
    "pages s' = (pages s)(m := (pages s m)\<lparr>queue := 255\<rparr>)" "phys_domain s' = phys_domain s"
    "\<And>d q. q < 3 \<Longrightarrow>
       pq_pl s' d q = (if q = queue (pages s m) \<and> d = home s m q then remove1 m (pq_pl s d q) else pq_pl s d q)"
    "vmd_inacthead s' = vmd_inacthead s"
proof -
  consider (off) "queue (pages s m) = 255" | (on) "queue (pages s m) < 3"
    using queue_cases [OF wf m] by blast
  then show ?thesis
  proof cases
    case off
    then have "(pages s)(m := (pages s m)\<lparr>queue := 255\<rparr>) = pages s"
      by (simp add: fun_upd_idem)
    then show ?thesis
      using off wf m by (intro that [of s]) (auto simp: vm_page_remque_def)
  next
    case on
    show ?thesis
    proof (rule that [OF dequeue_ok(3,4) [OF wf m on]])
      show "pq_pl (taken_off s m) d q =
          (if q = queue (pages s m) \<and> d = home s m q then remove1 m (pq_pl s d q) else pq_pl s d q)" for d q
        by (auto simp: taken_off_def Let_def)
    qed (use m in \<open>simp_all add: taken_off_simps\<close>)
  qed
qed

end
