(* ===== verification/VmQueueOps.thy ===== *)
theory VmQueueOps
  imports VmQueueLaws
begin

text \<open>
  The operations of the page queues and of wiring never fail on a page that the invariant knows,
  keep the invariant, and put the page where they say.
\<close>


subsection \<open>Every operation keeps the invariant\<close>

lemma page_ok_swap:
  assumes "page_ok n s m" "queue p = queue (pages s m)" "wire_count p = wire_count (pages s m)"
    "oflags p = oflags (pages s m)" "pg_flags p = pg_flags (pages s m)" "pages s' m = p" "phys_domain s' = phys_domain s"
  shows "page_ok n s' m"
  using assms unfolding page_ok_def unmanaged_def fictitious_def by simp

lemma vm_wf_upd_pg:
  assumes wf: "vm_wf n s" and m: "\<not> marker s m"
    and f: "queue (f (pages s m)) = queue (pages s m)" "wire_count (f (pages s m)) = wire_count (pages s m)"
      "oflags (f (pages s m)) = oflags (pages s m)" "pg_flags (f (pages s m)) = pg_flags (pages s m)"
  shows "vm_wf n (upd_pg m f s)" "\<not> marker (upd_pg m f s) m" "unmanaged m (upd_pg m f s) = unmanaged m s"
proof -
  show "vm_wf n (upd_pg m f s)"
    by (rule vm_wf_update [OF wf m, where p = "f (pages s m)"])
      (use f not_marker_flags [OF m] page_ok_swap [OF vm_wfD(1) [OF wf m] f(1,2,3,4), of "upd_pg m f s"] in simp_all)
  show "\<not> marker (upd_pg m f s) m" "unmanaged m (upd_pg m f s) = unmanaged m s"
    using m f by (simp_all add: marker_def unmanaged_def)
qed

lemma raise_act_simps [simp]:
  "queue (raise_act p) = queue p" "wire_count (raise_act p) = wire_count p"
  "oflags (raise_act p) = oflags p" "pg_flags (raise_act p) = pg_flags p" "pg_object (raise_act p) = pg_object p"
  by (simp_all add: raise_act_def)

lemma enqueue_ok:
  assumes wf: "vm_wf n s" and m: "\<not> marker s m" and q: "q < 3" "queue (pages s m) = 255"
    and p: "wire_count (pages s m) = 0" "\<not> unmanaged m s"
  shows "vm_page_enqueue q m s = Inr (put_on s m q (pq_pl s (home s m q) q @ [m]))"
    "vm_wf n (put_on s m q (pq_pl s (home s m q) q @ [m]))"
proof -
  have ne: "q \<noteq> 255" using q(1) by auto
  have nm: "m \<notin> set (pq_pl s (home s m q) q)" using queued_elem [OF wf m q(1)] q(2) ne by simp
  show "vm_page_enqueue q m s = Inr (put_on s m q (pq_pl s (home s m q) q @ [m]))"
    using q(1) by (simp add: vm_page_enqueue_def put_on_def home_def Let_def)
  show "vm_wf n (put_on s m q (pq_pl s (home s m q) q @ [m]))"
    using vm_wfD(2) [OF wf q(1), of "home s m q"] nm
    by (intro put_ok [OF wf m q p]) (simp_all add: list_ok_def)
qed

text \<open>The page \<open>m\<close> goes to the end of queue \<open>q\<close>, off the queue it was on.\<close>

definition moved_to_tail :: "'r vm \<Rightarrow> pg \<Rightarrow> u_char \<Rightarrow> 'r vm \<Rightarrow> bool" where
  "moved_to_tail s m q s' \<longleftrightarrow> queue (pages s' m) = q \<and>
     pq_pl s' (home s m q) q = remove1 m (pq_pl s (home s m q) q) @ [m] \<and>
     (\<forall>d q'. q' < PQ_COUNT \<longrightarrow> (d, q') \<noteq> (home s m q, q) \<longrightarrow>
        pq_pl s' d q' = remove1 m (pq_pl s d q'))"

lemma remove1_other:
  assumes "vm_wf n s" "\<not> marker s m" "q < 3" "queue (pages s m) \<noteq> q \<or> d \<noteq> home s m q"
  shows "remove1 m (pq_pl s d q) = pq_pl s d q"
  using queued_elem [OF assms(1-3), of d] assms(4) by (intro remove1_idem) auto

lemma requeue_tail:
  assumes wf: "vm_wf n s" and m: "\<not> marker s m" and q: "q < 3"
    and p: "wire_count (pages s m) = 0" "\<not> unmanaged m s"
    and f: "\<And>p. queue (f p) = queue p" "\<And>p. wire_count (f p) = wire_count p"
      "\<And>p. oflags (f p) = oflags p" "\<And>p. pg_flags (f p) = pg_flags p"
  shows "\<exists>s'. rbind (vm_page_remque m s) (\<lambda>s. vm_page_enqueue q m (upd_pg m f s)) = Inr s' \<and>
    vm_wf n s' \<and> moved_to_tail s m q s'"
proof -
  obtain s1 where s1: "vm_page_remque m s = Inr s1" "vm_wf n s1" "\<not> marker s1 m"
    "pages s1 = (pages s)(m := (pages s m)\<lparr>queue := 255\<rparr>)" "phys_domain s1 = phys_domain s"
    "\<And>d q. q < 3 \<Longrightarrow>
       pq_pl s1 d q = (if q = queue (pages s m) \<and> d = home s m q then remove1 m (pq_pl s d q) else pq_pl s d q)"
    by (rule remque_ok [OF wf m]) blast
  let ?s2 = "upd_pg m f s1"
  note s2 = vm_wf_upd_pg [where f = f, OF s1(2,3) f]
  have h: "home ?s2 m q = home s m q" by (simp add: home_def s1(5))
  have rm: "pq_pl s1 d q' = remove1 m (pq_pl s d q')" if "q' < 3" for d q'
    using s1(6) [OF that, of d] remove1_other [OF wf m that, of d] by metis
  have u: "\<not> unmanaged m ?s2" using p(2) by (simp add: unmanaged_def f s1(4))
  have e: "vm_page_enqueue q m ?s2 = Inr (put_on ?s2 m q (pq_pl ?s2 (home ?s2 m q) q @ [m]))"
    "vm_wf n (put_on ?s2 m q (pq_pl ?s2 (home ?s2 m q) q @ [m]))"
    using enqueue_ok [OF s2(1,2) q, of] p(1) u by (simp_all add: f s1(4))
  have "moved_to_tail s m q (put_on ?s2 m q (pq_pl ?s2 (home ?s2 m q) q @ [m]))"
    unfolding moved_to_tail_def h using rm q by (auto simp: put_on_def Let_def h)
  then show ?thesis using s1(1) e by auto
qed

lemma activate_ok:
  assumes wf: "vm_wf n s" and m: "\<not> marker s m"
  shows "\<exists>s'. vm_page_activate now m s = Inr s' \<and> vm_wf n s' \<and>
    (queue (pages s m) \<noteq> PQ_ACTIVE \<longrightarrow> wire_count (pages s m) = 0 \<longrightarrow> \<not> unmanaged m s \<longrightarrow> moved_to_tail s m PQ_ACTIVE s')"
proof -
  note a = vm_wf_upd_pg [OF wf m, of raise_act, simplified]
  let ?s = "upd_pg m raise_act s"
  let ?f = "\<lambda>p. p\<lparr>timestamp_sec := fst now, timestamp_nsec := snd now\<rparr>"
  show ?thesis
  proof (cases "queue (pages s m) \<noteq> 1 \<and> wire_count (pages s m) = 0 \<and> \<not> unmanaged m s")
    case True
    have "\<exists>s'. rbind (vm_page_remque m ?s) (\<lambda>s. vm_page_enqueue 1 m (upd_pg m ?f s)) = Inr s' \<and>
      vm_wf n s' \<and> moved_to_tail ?s m 1 s'"
      using True a by (intro requeue_tail) simp_all
    then show ?thesis
      using True by (auto simp: vm_page_activate_def moved_to_tail_def home_def)
  next
    case False
    then have "queue (pages s m) = 1 \<or> queue (pages s m) = 255 \<and> (wire_count (pages s m) = 0 \<longrightarrow> unmanaged m s)"
      using queued_free [OF wf m] by blast
    then show ?thesis
      using wf a(1) by (auto simp: vm_page_activate_def)
  qed
qed

lemma launder_ok:
  assumes wf: "vm_wf n s" and m: "\<not> marker s m"
  shows "\<exists>s'. vm_page_launder m s = Inr s' \<and> vm_wf n s' \<and>
    (queue (pages s m) \<noteq> PQ_LAUNDRY \<longrightarrow> wire_count (pages s m) = 0 \<longrightarrow> \<not> unmanaged m s \<longrightarrow> moved_to_tail s m PQ_LAUNDRY s')"
proof (cases "queue (pages s m) \<noteq> 2 \<and> wire_count (pages s m) = 0 \<and> \<not> unmanaged m s")
  case True
  have "\<exists>s'. rbind (vm_page_remque m s) (\<lambda>s. vm_page_enqueue 2 m (upd_pg m (\<lambda>p. p) s)) = Inr s' \<and>
      vm_wf n s' \<and> moved_to_tail s m 2 s'"
    using True by (intro requeue_tail [OF wf m]) simp_all
  then show ?thesis
    using True by (simp add: vm_page_launder_def upd_pg_def)
next
  case False
  then have "queue (pages s m) = 2 \<or> queue (pages s m) = 255 \<and> (wire_count (pages s m) = 0 \<longrightarrow> unmanaged m s)"
    using queued_free [OF wf m] by blast
  then show ?thesis
    using wf by (auto simp: vm_page_launder_def)
qed


lemma insert_before_props:
  "y \<in> set l \<Longrightarrow> set (insert_before y x l) = insert x (set l)"
  "distinct l \<Longrightarrow> x \<notin> set l \<Longrightarrow> distinct (insert_before y x l)"
proof -
  show "y \<in> set l \<Longrightarrow> set (insert_before y x l) = insert x (set l)"
    by (induction l) auto
  have "set (insert_before y x l) \<subseteq> insert x (set l)" for l :: "'a list"
    by (induction l) auto
  then show "distinct l \<Longrightarrow> x \<notin> set l \<Longrightarrow> distinct (insert_before y x l)"
    by (induction l) fastforce+
qed

text \<open>The page goes to the end of the inactive queue of its domain, or with \<open>noreuse\<close> in front of
  the marker.\<close>

definition deactivated :: "bool \<Rightarrow> 'r vm \<Rightarrow> pg \<Rightarrow> 'r vm \<Rightarrow> bool" where
  "deactivated noreuse s m s' \<longleftrightarrow> queue (pages s' m) = PQ_INACTIVE \<and>
     (let d = phys_domain s m; l = remove1 m (pq_pl s d PQ_INACTIVE) in
      pq_pl s' d PQ_INACTIVE = (if noreuse then insert_before (vmd_inacthead s d) m l else l @ [m]))"

lemma deactivate_ok:
  assumes wf: "vm_wf n s" and m: "\<not> marker s m"
  shows "\<exists>s'. vm_page_deactivate' noreuse m s = Inr s' \<and> vm_wf n s' \<and>
    (queue (pages s m) \<noteq> PQ_INACTIVE \<or> noreuse \<longrightarrow> wire_count (pages s m) = 0 \<longrightarrow> \<not> unmanaged m s \<longrightarrow>
      deactivated noreuse s m s')"
proof (cases "(queue (pages s m) \<noteq> 0 \<or> noreuse) \<and> wire_count (pages s m) = 0 \<and> \<not> unmanaged m s")
  case True
  obtain s1 where s1: "vm_page_remque m s = Inr s1" "vm_wf n s1" "\<not> marker s1 m"
    "pages s1 = (pages s)(m := (pages s m)\<lparr>queue := 255\<rparr>)" "phys_domain s1 = phys_domain s"
    "\<And>d q. q < 3 \<Longrightarrow>
       pq_pl s1 d q = (if q = queue (pages s m) \<and> d = home s m q then remove1 m (pq_pl s d q) else pq_pl s d q)"
    "vmd_inacthead s1 = vmd_inacthead s"
    by (rule remque_ok [OF wf m]) blast
  let ?d = "phys_domain s m"
  let ?l = "pq_pl s1 ?d 0"
  let ?l' = "if noreuse then insert_before (vmd_inacthead s1 ?d) m ?l else ?l @ [m]"
  have same: "(if queue (pages s m) = 0 then vm_page_dequeue_locked m s else vm_page_remque m s) = Inr s1"
    using s1(1) dequeue_ok(1,3) [OF wf m] by auto
  have l: "?l = remove1 m (pq_pl s ?d 0)"
    using s1(6) [of 0 ?d] remove1_other [OF wf m, of 0 ?d] by (auto simp: home_def)
  have lo: "distinct ?l" using vm_wfD(2) [OF s1(2), of 0 ?d] by (simp add: list_ok_def)
  have nm: "m \<notin> set ?l" using queued_elem [OF s1(2,3), of 0 ?d] by (simp add: s1(4))
  have hd: "vmd_inacthead s1 ?d \<in> set ?l" by (rule vm_wfD(5) [OF s1(2)])
  have u: "\<not> unmanaged m s1" using True by (simp add: unmanaged_def s1(4))
  have wf': "vm_wf n (put_on s1 m 0 ?l')"
    using insert_before_props [where y = "vmd_inacthead s1 ?d" and x = m and l = ?l] lo nm hd True u
    by (intro put_ok [OF s1(2,3)]) (simp_all add: s1(4,5) home_def)
  have stays: "(queue (pages s m) = PQ_INACTIVE \<and> \<not> noreuse) = False" using True by simp
  have "vm_page_deactivate' noreuse m s = Inr (put_on s1 m 0 ?l')"
    using stays True same hd s1(7)
    by (simp only: vm_page_deactivate'_def if_False if_True simp_thms HOL.if_not_P)
      (simp add: put_on_def home_def s1(5) Let_def)
  moreover have "deactivated noreuse s m (put_on s1 m 0 ?l')"
    using l s1(5,7) by (simp add: deactivated_def put_on_def Let_def home_def)
  ultimately show ?thesis using wf' by blast
next
  case False
  then show ?thesis
    using wf by (auto simp: vm_page_deactivate'_def)
qed

lemma wire_ok:
  assumes wf: "vm_wf n s" and m: "\<not> marker s m" "\<not> fictitious s m" "wire_count (pages s m) \<noteq> - 1"
  shows "\<exists>s'. vm_page_wire m s = Inr s' \<and> vm_wf n s' \<and> queue (pages s' m) = PQ_NONE \<and>
    wire_count (pages s' m) = wire_count (pages s m) + 1"
proof -
  have nz: "wire_count (pages s m) + 1 \<noteq> 0" using m(3) by (simp add: eq_neg_iff_add_eq_0)
  have nf: "pg_flags (pages s m) AND PG_FICTITIOUS = 0" using m(2) by (simp add: fictitious_def)
  have up: "vm_wf n (upd_pg m (\<lambda>p. p\<lparr>wire_count := wire_count p + 1\<rparr>) t)"
    if t: "vm_wf n t" "\<not> marker t m" "\<not> fictitious t m" "queue (pages t m) = 255" for t
  proof (rule vm_wf_update [OF t(1,2), where p = "(pages t m)\<lparr>wire_count := wire_count (pages t m) + 1\<rparr>"])
    show "page_ok n (upd_pg m (\<lambda>p. p\<lparr>wire_count := wire_count p + 1\<rparr>) t) m"
      using vm_wfD(1) [OF t(1,2)] t(3,4) by (simp add: page_ok_def fictitious_def)
  qed (use t not_marker_flags in simp_all)
  show ?thesis
  proof (cases "wire_count (pages s m) = 0")
    case False
    then have q: "queue (pages s m) = 255" using queued_free [OF wf m(1)] by blast
    then show ?thesis
      using up [OF wf m(1,2) q] nf False nz by (simp add: vm_page_wire_def)
  next
    case True
    obtain s1 where s1: "vm_page_remque m s = Inr s1" "vm_wf n s1" "\<not> marker s1 m"
      "pages s1 = (pages s)(m := (pages s m)\<lparr>queue := 255\<rparr>)"
      by (rule remque_ok [OF wf m(1)]) blast
    have w: "vm_wf n (s1\<lparr>v_wire_count := v\<rparr>)" for v
      using s1(2) unfolding vm_wf_def page_ok_def list_ok_def marker_def fictitious_def home_def queued_def unmanaged_def by simp
    have um: "unmanaged m s \<Longrightarrow> queue (pages s m) = 255" using queued_free [OF wf m(1)] by blast
    have "vm_wf n (upd_pg m (\<lambda>p. p\<lparr>wire_count := wire_count p + 1\<rparr>) (s1\<lparr>v_wire_count := v\<rparr>))" for v
      using s1(3,4) m(2) by (intro up w) (simp_all add: marker_def fictitious_def)
    then show ?thesis
      using True nf s1(1,4) um nz by (auto simp: vm_page_wire_def)
  qed
qed

lemma unwire_ok:
  assumes wf: "vm_wf n s" and m: "\<not> marker s m" "\<not> fictitious s m" "wire_count (pages s m) \<noteq> 0"
    and q: "q < PQ_COUNT \<or> q = PQ_NONE"
  shows "\<exists>s'. vm_page_unwire q m s = Inr (s', wire_count (pages s m) = 1) \<and> vm_wf n s' \<and>
    queue (pages s' m) = (if wire_count (pages s m) = 1 \<and> \<not> unmanaged m s \<and> pg_object (pages s m) \<noteq> None
                          then q else PQ_NONE)"
proof -
  have nf: "pg_flags (pages s m) AND PG_FICTITIOUS = 0" using m(2) by (simp add: fictitious_def)
  have off: "queue (pages s m) = 255" using queued_free [OF wf m(1)] m(3) by blast
  let ?f = "\<lambda>p. p\<lparr>wire_count := wire_count p - 1\<rparr>"
  let ?s = "upd_pg m ?f s"
  have w1: "vm_wf n ?s"
  proof (rule vm_wf_update [OF wf m(1), where p = "(pages s m)\<lparr>wire_count := wire_count (pages s m) - 1\<rparr>"])
    show "page_ok n ?s m"
      using vm_wfD(1) [OF wf m(1)] m(2) off by (simp add: page_ok_def fictitious_def)
  qed (use m not_marker_flags [OF m(1)] in simp_all)
  have w2: "vm_wf n (?s\<lparr>v_wire_count := v\<rparr>)" for v
    using w1 unfolding vm_wf_def page_ok_def list_ok_def marker_def fictitious_def home_def queued_def unmanaged_def by simp
  have pos: "wire_count (pages s m) > 0" using m(3) by (simp add: word_neq_0_conv)
  have one: "wire_count (pages s m) - 1 = 0 \<longleftrightarrow> wire_count (pages s m) = 1" by simp
  show ?thesis
  proof (cases "wire_count (pages s m) = 1 \<and> \<not> unmanaged m s \<and> pg_object (pages s m) \<noteq> None \<and> q \<noteq> 255")
    case True
    let ?t = "?s\<lparr>v_wire_count := v_wire_count ?s - 1\<rparr>"
    have e: "vm_page_enqueue q m ?t = Inr (put_on ?t m q (pq_pl ?t (home ?t m q) q @ [m]))"
      "vm_wf n (put_on ?t m q (pq_pl ?t (home ?t m q) q @ [m]))"
      using True q off m(1) by (intro enqueue_ok [OF w2]; simp add: marker_def unmanaged_def)+
    then show ?thesis
      using True q nf pos off by (auto simp: vm_page_unwire_def unmanaged_def put_on_def Let_def)
  next
    case False
    then show ?thesis
      using q nf pos off w1 w2 by (auto simp: vm_page_unwire_def unmanaged_def Let_def)
  qed
qed

end
