(* ===== verification/VmObjectLaws.thy ===== *)
theory VmObjectLaws
  imports VmObject VmQueueOps
begin

text \<open>
  The invariant of the objects of vm_page.c: the page list of an object is sorted by page index,
  holds exactly the pages that name the object, agrees with the trie and with the resident page
  count, and the vnode is held once exactly while the list is not empty.
\<close>


subsection \<open>What the trie promises\<close>

definition radix_ok :: "'r radix \<Rightarrow> ('r \<Rightarrow> u_long \<Rightarrow> pg option) \<Rightarrow> bool" where
  "radix_ok R a \<longleftrightarrow>
     (\<forall>k t. r_lookup R k t = a t k) \<and>
     (\<forall>k t. r_lookup_le R k t = None \<longrightarrow> (\<forall>j\<le>k. a t j = None)) \<and>
     (\<forall>k t p. r_lookup_le R k t = Some p \<longrightarrow>
        (\<exists>j\<le>k. a t j = Some p \<and> (\<forall>i\<le>k. j < i \<longrightarrow> a t i = None))) \<and>
     (\<forall>k t. r_lookup_ge R k t = None \<longrightarrow> (\<forall>j\<ge>k. a t j = None)) \<and>
     (\<forall>k t p. r_lookup_ge R k t = Some p \<longrightarrow>
        (\<exists>j\<ge>k. a t j = Some p \<and> (\<forall>i\<ge>k. i < j \<longrightarrow> a t i = None))) \<and>
     (\<forall>k p t t'. a t k = None \<longrightarrow> r_insert R k p t = Some t' \<longrightarrow> a t' = (a t)(k := Some p)) \<and>
     (\<forall>k t. fst (r_remove R k t) = a t k \<and> a (snd (r_remove R k t)) = (a t)(k := None)) \<and>
     (\<forall>k p t. a t k \<noteq> None \<longrightarrow>
        fst (r_replace R k p t) = a t k \<and> a (snd (r_replace R k p t)) = (a t)(k := Some p))"

lemma radix_okD:
  assumes "radix_ok R a"
  shows "r_lookup R k t = a t k"
    "r_lookup_le R k t = None \<Longrightarrow> j \<le> k \<Longrightarrow> a t j = None"
    "r_lookup_le R k t = Some p \<Longrightarrow> \<exists>j\<le>k. a t j = Some p \<and> (\<forall>i\<le>k. j < i \<longrightarrow> a t i = None)"
    "r_lookup_ge R k t = None \<Longrightarrow> k \<le> j \<Longrightarrow> a t j = None"
    "r_lookup_ge R k t = Some p \<Longrightarrow> \<exists>j\<ge>k. a t j = Some p \<and> (\<forall>i\<ge>k. i < j \<longrightarrow> a t i = None)"
    "a t k = None \<Longrightarrow> r_insert R k q t = Some t' \<Longrightarrow> a t' = (a t)(k := Some q)"
    "fst (r_remove R k t) = a t k" "a (snd (r_remove R k t)) = (a t)(k := None)"
    "a t k \<noteq> None \<Longrightarrow> fst (r_replace R k q t) = a t k"
    "a t k \<noteq> None \<Longrightarrow> a (snd (r_replace R k q t)) = (a t)(k := Some q)"
  using assms unfolding radix_ok_def by - (elim conjE, metis)+

subsection \<open>The invariant of the objects\<close>

definition holds :: "obj \<Rightarrow> vm_call list \<Rightarrow> int" where
  "holds ob cs = int (count_list cs (Vhold ob)) - int (count_list cs (Vdrop ob))"

definition sorted_pages :: "'r vm \<Rightarrow> pg list \<Rightarrow> bool" where
  "sorted_pages s l \<longleftrightarrow> sorted_wrt (<) (map (\<lambda>m. pindex (pages s m)) l)"

definition obj_ok :: "('r \<Rightarrow> u_long \<Rightarrow> pg option) \<Rightarrow> 'r vm \<Rightarrow> obj \<Rightarrow> bool" where
  "obj_ok a s ob \<longleftrightarrow> sorted_pages s (memq s ob) \<and>
     (\<forall>m. m \<in> set (memq s ob) \<longleftrightarrow> pg_object (pages s m) = Some ob) \<and>
     (\<forall>k. a (rtree s ob) k = find (\<lambda>m. pindex (pages s m) = k) (memq s ob)) \<and>
     resident_page_count s ob = int (length (memq s ob)) \<and>
     holds ob (calls s) = (if is_vnode s ob \<and> memq s ob \<noteq> [] then 1 else 0)"

definition obj_wf :: "('r \<Rightarrow> u_long \<Rightarrow> pg option) \<Rightarrow> 'r vm \<Rightarrow> bool" where
  "obj_wf a s \<longleftrightarrow> (\<forall>ob. obj_ok a s ob)"

lemma obj_wfD:
  assumes "obj_wf a s"
  shows "sorted_pages s (memq s ob)" "m \<in> set (memq s ob) \<longleftrightarrow> pg_object (pages s m) = Some ob"
    "a (rtree s ob) k = find (\<lambda>m. pindex (pages s m) = k) (memq s ob)"
    "resident_page_count s ob = int (length (memq s ob))"
    "holds ob (calls s) = (if is_vnode s ob \<and> memq s ob \<noteq> [] then 1 else 0)"
  using assms unfolding obj_wf_def obj_ok_def by blast+

lemma sorted_pages_simps:
  "sorted_pages s []"
  "sorted_pages s (x # l) \<longleftrightarrow> (\<forall>y \<in> set l. pindex (pages s x) < pindex (pages s y)) \<and> sorted_pages s l"
  "sorted_pages s (l @ k) \<longleftrightarrow> sorted_pages s l \<and> sorted_pages s k \<and>
     (\<forall>x \<in> set l. \<forall>y \<in> set k. pindex (pages s x) < pindex (pages s y))"
  by (auto simp: sorted_pages_def sorted_wrt_append)

lemma sorted_pages_distinct: "sorted_pages s l \<Longrightarrow> distinct l"
  by (induction l) (auto simp: sorted_pages_simps)

lemma sorted_pages_cong:
  "(\<And>m. m \<in> set l \<Longrightarrow> pindex (pages s' m) = pindex (pages s m)) \<Longrightarrow> sorted_pages s' l = sorted_pages s l"
  by (induction l) (auto simp: sorted_pages_simps)

lemma find_pindex:
  "sorted_pages s l \<Longrightarrow> find (\<lambda>m. pindex (pages s m) = k) l = Some x \<longleftrightarrow> x \<in> set l \<and> pindex (pages s x) = k"
  by (induction l) (auto simp: sorted_pages_simps)

lemma find_eqI:
  assumes "sorted_pages s l" "\<And>x. v = Some x \<longleftrightarrow> x \<in> set l \<and> pindex (pages s x) = k"
  shows "v = find (\<lambda>m. pindex (pages s m) = k) l"
proof (cases v)
  case None
  then show ?thesis using assms(2) find_pindex [OF assms(1), of k]
    by (cases "find (\<lambda>m. pindex (pages s m) = k) l") auto
next
  case (Some x)
  then have "find (\<lambda>m. pindex (pages s m) = k) l = Some x"
    using assms(2) find_pindex [OF assms(1), of k x] by simp
  then show ?thesis using Some by simp
qed

lemma trie_iff:
  assumes "obj_wf a s"
  shows "a (rtree s ob) k = Some m \<longleftrightarrow> pg_object (pages s m) = Some ob \<and> pindex (pages s m) = k"
  unfolding obj_wfD(3) [OF assms] find_pindex [OF obj_wfD(1) [OF assms]] obj_wfD(2) [OF assms] ..

lemma trie_None:
  assumes "obj_wf a s"
  shows "a (rtree s ob) k = None \<longleftrightarrow> (\<forall>m. pg_object (pages s m) = Some ob \<longrightarrow> pindex (pages s m) \<noteq> k)"
  using trie_iff [OF assms, of ob k] by (cases "a (rtree s ob) k") auto

lemma obj_ok_transfer:
  assumes "obj_ok a s o'" "memq s' o' = memq s o'" "rtree s' o' = rtree s o'"
    "resident_page_count s' o' = resident_page_count s o'" "is_vnode s' o' = is_vnode s o'"
    "holds o' (calls s') = holds o' (calls s)"
    and pin: "\<And>x. pg_object (pages s x) = Some o' \<Longrightarrow> pindex (pages s' x) = pindex (pages s x)"
    and own: "\<And>x. pg_object (pages s' x) = Some o' \<longleftrightarrow> pg_object (pages s x) = Some o'"
  shows "obj_ok a s' o'"
proof -
  have pin': "x \<in> set (memq s o') \<Longrightarrow> pindex (pages s' x) = pindex (pages s x)" for x
    using assms(1) pin unfolding obj_ok_def by blast
  have "sorted_pages s' (memq s o') = sorted_pages s (memq s o')"
    by (rule sorted_pages_cong) (rule pin')
  moreover have "find (\<lambda>m. pindex (pages s' m) = k) (memq s o') = find (\<lambda>m. pindex (pages s m) = k) (memq s o')" for k
    by (rule find_cong) (simp_all add: pin')
  ultimately show ?thesis using assms(1) unfolding obj_ok_def by (simp add: assms(2-6) own)
qed

text \<open>An operation that changes only the object \<open>ob\<close> and the pages \<open>M\<close> keeps the invariant of every
  other object.\<close>

lemma obj_wf_change:
  assumes wf: "obj_wf a s"
    and M: "\<And>x. x \<in> M \<Longrightarrow> pg_object (pages s x) = None \<or> pg_object (pages s x) = Some ob"
      "\<And>x. x \<in> M \<Longrightarrow> pg_object (pages s' x) = None \<or> pg_object (pages s' x) = Some ob"
    and s': "\<And>x. x \<notin> M \<Longrightarrow> pg_object (pages s' x) = pg_object (pages s x)"
      "\<And>x. x \<notin> M \<Longrightarrow> pindex (pages s' x) = pindex (pages s x)"
      "\<And>o'. o' \<noteq> ob \<Longrightarrow> memq s' o' = memq s o'" "\<And>o'. o' \<noteq> ob \<Longrightarrow> rtree s' o' = rtree s o'"
      "\<And>o'. o' \<noteq> ob \<Longrightarrow> resident_page_count s' o' = resident_page_count s o'"
      "is_vnode s' = is_vnode s" "\<And>o'. o' \<noteq> ob \<Longrightarrow> holds o' (calls s') = holds o' (calls s)"
    and ok: "obj_ok a s' ob"
  shows "obj_wf a s'"
  unfolding obj_wf_def
proof
  fix o'
  show "obj_ok a s' o'"
  proof (cases "o' = ob")
    case False
    have "obj_ok a s o'" using wf by (simp add: obj_wf_def)
    then show ?thesis
    proof (rule obj_ok_transfer)
      show "pindex (pages s' x) = pindex (pages s x)" if "pg_object (pages s x) = Some o'" for x
        using that M(1) [of x] s'(2) [of x] False by (cases "x \<in> M") auto
      show "pg_object (pages s' x) = Some o' \<longleftrightarrow> pg_object (pages s x) = Some o'" for x
        using s'(1) [of x] M [of x] False by (cases "x \<in> M") auto
    qed (use False s' in simp_all)
  qed (simp add: ok)
qed

text \<open>Queues do not depend on the object layer.\<close>

definition pq_same :: "'r vm \<Rightarrow> 'r vm \<Rightarrow> bool" where
  "pq_same s s' \<longleftrightarrow> (\<forall>x. queue (pages s' x) = queue (pages s x) \<and> wire_count (pages s' x) = wire_count (pages s x) \<and>
       oflags (pages s' x) = oflags (pages s x) \<and> pg_flags (pages s' x) = pg_flags (pages s x)) \<and>
     pq_pl s' = pq_pl s \<and> pq_cnt s' = pq_cnt s \<and> pq_vcnt s' = pq_vcnt s \<and>
     phys_domain s' = phys_domain s \<and> vmd_inacthead s' = vmd_inacthead s"

lemma vm_wf_pq_same: "vm_wf n s \<Longrightarrow> pq_same s s' \<Longrightarrow> vm_wf n s'"
  unfolding vm_wf_def pq_same_def page_ok_def list_ok_def queued_def marker_def fictitious_def
    unmanaged_def home_def by simp

subsection \<open>Splitting the page list\<close>

lemma split_distinct:
  assumes d: "distinct l" and p: "p \<in> set l"
  obtains xs ys where "l = xs @ p # ys" "tailq_next p l = tailq_first ys" "tailq_prev p l = tailq_first (rev xs)"
    "insert_after p m l = xs @ p # m # ys" "remove1 p l = xs @ ys"
proof -
  obtain xs ys where l: "l = xs @ p # ys" using p by (meson split_list)
  have nx: "p \<notin> set xs" "p \<notin> set ys" using d by (auto simp: l)
  have nxt: "p \<notin> set xs \<Longrightarrow> tailq_next p (xs @ p # ys) = tailq_first ys" for xs ys
    by (induction xs) auto
  have ia: "p \<notin> set xs \<Longrightarrow> insert_after p m (xs @ p # ys) = xs @ p # m # ys" for xs ys
    by (induction xs) auto
  have "tailq_prev p l = tailq_first (rev xs)"
    using nxt [of "rev ys" "rev xs"] nx by (simp add: tailq_prev_def l)
  then show thesis using that [OF l] nx nxt [of xs ys] ia [of xs ys] by (simp add: l remove1_append)
qed

lemmas split_after = split_distinct [OF sorted_pages_distinct]

subsection \<open>Linking a page\<close>

lemma call_if_simps [simp]:
  "pages (call_if b c s) = pages s" "pq_pl (call_if b c s) = pq_pl s" "pq_cnt (call_if b c s) = pq_cnt s"
  "pq_vcnt (call_if b c s) = pq_vcnt s" "phys_domain (call_if b c s) = phys_domain s"
  "vmd_inacthead (call_if b c s) = vmd_inacthead s" "memq (call_if b c s) = memq s"
  "rtree (call_if b c s) = rtree s" "resident_page_count (call_if b c s) = resident_page_count s"
  "is_vnode (call_if b c s) = is_vnode s" "is_write_mapped (call_if b c s) = is_write_mapped s"
  "calls (call_if b c s) = calls s @ (if b then [c] else [])"
  by (simp_all add: call_if_def vm_call_def)

lemma link_simps [simp]:
  "pages (set_memq ob l s) = pages s" "memq (set_memq ob l s) = (memq s)(ob := l)"
  "rtree (set_memq ob l s) = rtree s" "resident_page_count (set_memq ob l s) = resident_page_count s"
  "is_vnode (set_memq ob l s) = is_vnode s" "calls (set_memq ob l s) = calls s"
  "pages (set_rtree ob t s) = pages s" "memq (set_rtree ob t s) = memq s"
  "rtree (set_rtree ob t s) = (rtree s)(ob := t)" "resident_page_count (set_rtree ob t s) = resident_page_count s"
  "is_vnode (set_rtree ob t s) = is_vnode s" "calls (set_rtree ob t s) = calls s"
  "pages (add_resident ob k s) = pages s" "memq (add_resident ob k s) = memq s" "rtree (add_resident ob k s) = rtree s"
  "resident_page_count (add_resident ob k s) = (resident_page_count s)(ob := resident_page_count s ob + k)"
  "is_vnode (add_resident ob k s) = is_vnode s" "calls (add_resident ob k s) = calls s"
  "memq (upd_pg m f s) = memq s" "rtree (upd_pg m f s) = rtree s"
  "resident_page_count (upd_pg m f s) = resident_page_count s" "is_vnode (upd_pg m f s) = is_vnode s"
  "calls (upd_pg m f s) = calls s"
  by (simp_all add: set_memq_def set_rtree_def add_resident_def upd_pg_def)

lemma pq_same_refl [simp]: "pq_same s s" by (simp add: pq_same_def)
lemma pq_same_trans: "pq_same s t \<Longrightarrow> pq_same t u \<Longrightarrow> pq_same s u" by (simp add: pq_same_def)

lemma pq_same_simps [simp]:
  "pq_same s (call_if b c t) = pq_same s t" "pq_same s (set_memq ob l t) = pq_same s t"
  "pq_same s (set_rtree ob r t) = pq_same s t" "pq_same s (add_resident ob k t) = pq_same s t"
  by (simp_all add: pq_same_def set_memq_def set_rtree_def add_resident_def)

lemma pq_same_upd_pg:
  "pq_same s t \<Longrightarrow> queue (f (pages t m)) = queue (pages t m) \<Longrightarrow> wire_count (f (pages t m)) = wire_count (pages t m) \<Longrightarrow>
   oflags (f (pages t m)) = oflags (pages t m) \<Longrightarrow> pg_flags (f (pages t m)) = pg_flags (pages t m) \<Longrightarrow>
   pq_same s (upd_pg m f t)"
  by (simp add: pq_same_def)

lemma set_busy_simps [simp]:
  "pages (set_busy m xw s) = (pages s)(m := (pages s m)\<lparr>busy_lock := fst xw\<rparr>)"
  "memq (set_busy m xw s) = memq s" "rtree (set_busy m xw s) = rtree s"
  "resident_page_count (set_busy m xw s) = resident_page_count s" "is_vnode (set_busy m xw s) = is_vnode s"
  "calls (set_busy m xw s) = calls s @ (if snd xw then [WakePage m] else [])"
  "pq_same t (set_busy m xw s) = pq_same t s"
  by (simp_all add: set_busy_def) (auto simp: pq_same_def)

text \<open>Nothing but the object \<open>ob\<close> changes.\<close>

definition obj_frame :: "obj \<Rightarrow> 'r vm \<Rightarrow> 'r vm \<Rightarrow> bool" where
  "obj_frame ob s s' \<longleftrightarrow> is_vnode s' = is_vnode s \<and>
     (\<forall>o'. o' \<noteq> ob \<longrightarrow> memq s' o' = memq s o' \<and> rtree s' o' = rtree s o' \<and>
        resident_page_count s' o' = resident_page_count s o' \<and> holds o' (calls s') = holds o' (calls s))"

lemma holds_simps [simp]:
  "holds ob (cs @ cs') = holds ob cs + holds ob cs'" "holds ob [] = 0"
  "holds ob [Vhold x] = (if x = ob then 1 else 0)" "holds ob [Vdrop x] = (if x = ob then - 1 else 0)"
  "holds ob [ObjWriteableDirty x] = 0" "holds ob [WakePage m] = 0"
  by (auto simp: holds_def)

text \<open>\<open>mpred\<close> is the page with the greatest index below \<open>pi\<close>.\<close>

definition mpred_ok :: "'r vm \<Rightarrow> obj \<Rightarrow> u_long \<Rightarrow> pg option \<Rightarrow> bool" where
  "mpred_ok s ob pi mpred \<longleftrightarrow>
     (case mpred of None \<Rightarrow> \<forall>x\<in>set (memq s ob). pi < pindex (pages s x)
      | Some p \<Rightarrow> p \<in> set (memq s ob) \<and> pindex (pages s p) < pi \<and>
          (\<forall>x\<in>set (memq s ob). pindex (pages s x) \<le> pindex (pages s p) \<or> pi < pindex (pages s x)))"

lemma mpred_split:
  assumes "sorted_pages s (memq s ob)" "mpred_ok s ob pi mpred"
  obtains xs ys where "memq s ob = xs @ ys" "\<And>x. x \<in> set xs \<Longrightarrow> pindex (pages s x) < pi"
    "\<And>y. y \<in> set ys \<Longrightarrow> pi < pindex (pages s y)"
    "(case mpred of None \<Rightarrow> Inr (m # memq s ob) | Some p \<Rightarrow> tailq_insert_after p m (memq s ob)) = Inr (xs @ m # ys)"
    "(case mpred of None \<Rightarrow> tailq_first (memq s ob) | Some p \<Rightarrow> tailq_next p (memq s ob)) = tailq_first ys"
proof (cases mpred)
  case None
  then show thesis using that [of "[]" "memq s ob"] assms(2) by (simp add: mpred_ok_def)
next
  case (Some p)
  then have p: "p \<in> set (memq s ob)" "pindex (pages s p) < pi" using assms(2) by (simp_all add: mpred_ok_def)
  obtain xs ys where l: "memq s ob = xs @ p # ys" "tailq_next p (memq s ob) = tailq_first ys"
    "insert_after p m (memq s ob) = xs @ p # m # ys"
    by (rule split_after [OF assms(1) p(1)]) blast
  show thesis
  proof (rule that [of "xs @ [p]" ys])
    show "pindex (pages s x) < pi" if "x \<in> set (xs @ [p])" for x
      using that p(2) assms(1) unfolding l(1) by (auto simp: sorted_pages_simps intro: order.strict_trans)
    show "pi < pindex (pages s y)" if "y \<in> set ys" for y
      using that assms unfolding mpred_ok_def Some by (auto simp: l(1) sorted_pages_simps dest: leD)
  qed (use l p in \<open>simp_all add: Some tailq_insert_after_def\<close>)
qed

text \<open>The state before the page is linked: as the invariant says, but for the page \<open>m\<close>, which is in
  the trie and not in the list.\<close>

definition unlinked :: "('r \<Rightarrow> u_long \<Rightarrow> pg option) \<Rightarrow> 'r vm \<Rightarrow> obj \<Rightarrow> pg \<Rightarrow> bool" where
  "unlinked a s ob m \<longleftrightarrow> pg_object (pages s m) = Some ob \<and> sorted_pages s (memq s ob) \<and>
     (\<forall>x. x \<in> set (memq s ob) \<longleftrightarrow> x \<noteq> m \<and> pg_object (pages s x) = Some ob) \<and>
     (\<forall>k. a (rtree s ob) k = (if k = pindex (pages s m) then Some m
                              else find (\<lambda>x. pindex (pages s x) = k) (memq s ob))) \<and>
     resident_page_count s ob = int (length (memq s ob)) \<and>
     holds ob (calls s) = (if is_vnode s ob \<and> memq s ob \<noteq> [] then 1 else 0)"

lemma int_lengths_0: "int (length xs) + int (length ys) = 0 \<longleftrightarrow> xs = [] \<and> ys = []"
  by (cases xs; cases ys) auto

lemma radixdone_ok:
  assumes u: "unlinked a s ob m" and mp: "mpred_ok s ob (pindex (pages s m)) mpred"
  shows "\<exists>s'. vm_page_insert_radixdone m ob mpred s = Inr s' \<and> obj_ok a s' ob \<and> obj_frame ob s s' \<and>
    pq_same s s' \<and> pages s' = pages s \<and> rtree s' = rtree s"
proof -
  let ?pi = "pindex (pages s m)"
  have so: "sorted_pages s (memq s ob)" using u by (simp add: unlinked_def)
  obtain xs ys where l: "memq s ob = xs @ ys" "\<And>x. x \<in> set xs \<Longrightarrow> pindex (pages s x) < ?pi"
    "\<And>y. y \<in> set ys \<Longrightarrow> ?pi < pindex (pages s y)"
    "(case mpred of None \<Rightarrow> Inr (m # memq s ob) | Some p \<Rightarrow> tailq_insert_after p m (memq s ob)) = Inr (xs @ m # ys)"
    by (rule mpred_split [OF so mp]) blast
  let ?l = "xs @ m # ys"
  let ?s1 = "add_resident ob 1 (set_memq ob ?l s)"
  let ?s2 = "call_if (resident_page_count ?s1 ob = 1 \<and> is_vnode ?s1 ob) (Vhold ob) ?s1"
  let ?s3 = "call_if (is_write_mapped ?s2 m) (ObjWriteableDirty ob) ?s2"
  have chk: "check_mpred mpred ob ?pi s = Inr ()"
    using mp u by (auto simp: check_mpred_def mpred_ok_def unlinked_def split: option.splits)
  have r: "vm_page_insert_radixdone m ob mpred s = Inr ?s3"
    using u by (simp add: vm_page_insert_radixdone_def chk l(4) unlinked_def Let_def)
  have so': "sorted_pages s ?l" using so l by (auto simp: l(1) sorted_pages_simps)
  have tr: "a (rtree s ob) k = find (\<lambda>x. pindex (pages s x) = k) ?l" for k
  proof (rule find_eqI [OF so'])
    show "a (rtree s ob) k = Some x \<longleftrightarrow> x \<in> set ?l \<and> pindex (pages s x) = k" for x
    proof (cases "k = ?pi")
      case True
      then show ?thesis using u l(2) [of x] l(3) [of x] by (auto simp: unlinked_def)
    next
      case False
      then show ?thesis using u find_pindex [OF so, of k x] by (auto simp: unlinked_def l(1))
    qed
  qed
  have "sorted_pages ?s3 ?l" using so' by (simp add: sorted_pages_def)
  then have "obj_ok a ?s3 ob"
    using u tr by (auto simp: obj_ok_def unlinked_def l(1) int_lengths_0)
  moreover have "obj_frame ob s ?s3" by (simp add: obj_frame_def)
  ultimately show ?thesis using r by simp
qed

subsection \<open>Insertion and removal\<close>

lemma obj_wf_frame:
  assumes wf: "obj_wf a s" and f: "obj_frame ob s s'" and ok: "obj_ok a s' ob"
    and M: "\<And>x. x \<in> M \<Longrightarrow> pg_object (pages s x) = None \<or> pg_object (pages s x) = Some ob"
      "\<And>x. x \<in> M \<Longrightarrow> pg_object (pages s' x) = None \<or> pg_object (pages s' x) = Some ob"
    and o: "\<And>x. x \<notin> M \<Longrightarrow> pg_object (pages s' x) = pg_object (pages s x)"
      "\<And>x. x \<notin> M \<Longrightarrow> pindex (pages s' x) = pindex (pages s x)"
  shows "obj_wf a s'"
  by (rule obj_wf_change [OF wf M o]) (use f ok in \<open>auto simp: obj_frame_def\<close>)

lemma mpred_ok_cong:
  assumes "memq s' ob = memq s ob" "\<And>x. x \<in> set (memq s ob) \<Longrightarrow> pindex (pages s' x) = pindex (pages s x)"
  shows "mpred_ok s' ob pi mpred = mpred_ok s ob pi mpred"
  unfolding mpred_ok_def assms(1) using assms(2) by (auto split: option.splits)

lemma mpred_lookup_le:
  assumes R: "radix_ok R a" and wf: "obj_wf a s" and free: "a (rtree s ob) pi = None"
  shows "mpred_ok s ob pi (r_lookup_le R pi (rtree s ob))"
proof -
  have idx: "x \<in> set (memq s ob) \<longleftrightarrow> a (rtree s ob) (pindex (pages s x)) = Some x" for x
    by (simp add: trie_iff [OF wf] obj_wfD(2) [OF wf])
  show ?thesis
  proof (cases "r_lookup_le R pi (rtree s ob)")
    case None
    have "pi < pindex (pages s x)" if "x \<in> set (memq s ob)" for x
      using radix_okD(2) [OF R None, of "pindex (pages s x)"] that idx [of x] by force
    then show ?thesis by (simp add: mpred_ok_def None)
  next
    case (Some p)
    obtain j where j: "j \<le> pi" "a (rtree s ob) j = Some p" "\<forall>i\<le>pi. j < i \<longrightarrow> a (rtree s ob) i = None"
      using radix_okD(3) [OF R Some] by blast
    have pj: "pindex (pages s p) = j" using j(2) by (simp add: trie_iff [OF wf])
    have lt: "j < pi" using j free by (metis order.not_eq_order_implies_strict option.distinct(1))
    have "pindex (pages s x) \<le> j \<or> pi < pindex (pages s x)" if "x \<in> set (memq s ob)" for x
      using j(3) that idx [of x] by (metis linorder_not_less option.distinct(1))
    then show ?thesis using j(2) idx [of p] pj lt by (simp add: mpred_ok_def Some)
  qed
qed

text \<open>What an insertion does to the state.\<close>

definition page_inserted :: "('r \<Rightarrow> u_long \<Rightarrow> pg option) \<Rightarrow> pg \<Rightarrow> obj \<Rightarrow> u_long \<Rightarrow> 'r vm \<Rightarrow> 'r vm \<Rightarrow> bool" where
  "page_inserted a m ob pi s s' \<longleftrightarrow>
     pages s' = (pages s)(m := (pages s m)\<lparr>pg_object := Some ob, pindex := pi\<rparr>) \<and>
     a (rtree s' ob) = (a (rtree s ob))(pi := Some m) \<and> obj_frame ob s s'"

lemma insert_after_ok:
  assumes R: "radix_ok R a" and wf: "obj_wf a s" and m: "pg_object (pages s m) = None"
    and free: "a (rtree s ob) pi = None" and mp: "mpred_ok s ob pi mpred"
  shows "\<exists>s'. vm_page_insert_after R m ob pi mpred s = Inr (s', r_insert R pi m (rtree s ob) = None) \<and>
    obj_wf a s' \<and> pq_same s s' \<and>
    (if r_insert R pi m (rtree s ob) = None
     then s' = upd_pg m (\<lambda>p. p\<lparr>pg_object := None, pindex := 0\<rparr>) s else page_inserted a m ob pi s s')"
proof -
  note D = obj_wfD [OF wf]
  have nm: "m \<notin> set (memq s o')" for o' using D(2) [of m o'] m by simp
  have chk: "check_mpred mpred ob pi s = Inr ()"
    using mp D(2) by (auto simp: check_mpred_def mpred_ok_def split: option.splits)
  obtain ys where succ: "(case mpred of None \<Rightarrow> tailq_first (memq s ob) | Some p \<Rightarrow> tailq_next p (memq s ob)) = tailq_first ys"
    "\<And>y. y \<in> set ys \<Longrightarrow> pi < pindex (pages s y)"
    by (rule mpred_split [OF D(1) mp, of m]) blast
  have succ_chk: "(case tailq_first ys of None \<Rightarrow> Inr ()
      | Some q \<Rightarrow> kassert (pindex (pages s q) > pi) msg) = Inr ()" for msg
    using succ(2) by (auto dest: tailq_first_SomeD split: option.splits)
  let ?s1 = "upd_pg m (\<lambda>p. p\<lparr>pg_object := Some ob, pindex := pi\<rparr>) s"
  show ?thesis
  proof (cases "r_insert R pi m (rtree s ob)")
    case None
    let ?s2 = "upd_pg m (\<lambda>p. p\<lparr>pg_object := None, pindex := 0\<rparr>) s"
    have eq: "upd_pg m (\<lambda>p. p\<lparr>pg_object := None, pindex := 0\<rparr>) ?s1 = ?s2" by (simp add: upd_pg_def)
    have "obj_ok a ?s2 o'" for o'
    proof (rule obj_ok_transfer)
      show "obj_ok a s o'" using wf by (simp add: obj_wf_def)
    qed (use m in auto)
    then have "obj_wf a ?s2" by (simp add: obj_wf_def)
    then show ?thesis
      by (simp add: vm_page_insert_after_def m chk succ(1) succ_chk None eq Let_def pq_same_upd_pg)
  next
    case (Some t)
    have t: "a t = (a (rtree s ob))(pi := Some m)" by (rule radix_okD(6) [OF R free Some])
    let ?s2 = "set_rtree ob t ?s1"
    have so: "sorted_pages ?s2 (memq s ob) = sorted_pages s (memq s ob)"
      using nm by (intro sorted_pages_cong) auto
    have fi: "find (\<lambda>x. pindex (pages ?s2 x) = k) (memq s ob) = find (\<lambda>x. pindex (pages s x) = k) (memq s ob)" for k
      using nm by (intro find_cong) auto
    have un: "unlinked a ?s2 ob m" using D nm so fi by (auto simp: unlinked_def t)
    have mp2: "mpred_ok ?s2 ob (pindex (pages ?s2 m)) mpred"
      using mp nm by (subst mpred_ok_cong [of _ _ s]) auto
    obtain s' where s': "vm_page_insert_radixdone m ob mpred ?s2 = Inr s'" "obj_ok a s' ob" "obj_frame ob ?s2 s'"
      "pq_same ?s2 s'" "pages s' = pages ?s2" "rtree s' = rtree ?s2"
      using radixdone_ok [OF un mp2] by blast
    have fr: "obj_frame ob s s'" using s'(3) by (simp add: obj_frame_def)
    have "obj_wf a s'" by (rule obj_wf_frame [OF wf fr s'(2), of "{m}"]) (simp_all add: m s'(5))
    moreover have "pq_same s s'" by (rule pq_same_trans [OF _ s'(4)]) (simp add: pq_same_upd_pg)
    moreover have "page_inserted a m ob pi s s'" using s'(5,6) fr by (simp add: page_inserted_def t)
    ultimately show ?thesis
      by (simp add: vm_page_insert_after_def m chk succ(1) succ_chk Some Let_def s'(1))
  qed
qed

definition page_removed :: "('r \<Rightarrow> u_long \<Rightarrow> pg option) \<Rightarrow> pg \<Rightarrow> 'r vm \<Rightarrow> 'r vm \<Rightarrow> bool" where
  "page_removed a m s s' \<longleftrightarrow> (\<exists>b.
     pages s' = (pages s)(m := (pages s m)\<lparr>busy_lock := b, pg_object := None\<rparr>) \<and>
     \<not> vm_page_xbusied b \<and>
     b = (if vm_page_xbusied (busy_lock (pages s m)) then VPB_UNBUSIED else busy_lock (pages s m))) \<and>
     (\<forall>ob. pg_object (pages s m) = Some ob \<longrightarrow>
        memq s' ob = remove1 m (memq s ob) \<and>
        a (rtree s' ob) = (a (rtree s ob))(pindex (pages s m) := None) \<and> obj_frame ob s s')"

lemma xunbusy_cases:
  "vm_page_xbusied x \<Longrightarrow> vm_page_xunbusy x = Inr (VPB_UNBUSIED, x \<noteq> VPB_SINGLE_EXCLUSIVER)"
  by (auto simp: vm_page_xunbusy_def)

lemma unbusied_simps [simp]: "\<not> vm_page_xbusied VPB_UNBUSIED"
  by (simp add: vm_page_xbusied_def VPB_UNBUSIED_def VPB_SHARERS_WORD_def VPB_BIT_SHARED_def
      VPB_SINGLE_EXCLUSIVER_def VPB_BIT_EXCLUSIVE_def)

lemma remove_local:
  assumes R: "radix_ok R a" and ok: "obj_ok a s ob" and m: "pg_object (pages s m) = Some ob"
  shows "\<exists>s'. vm_page_remove R m s = Inr s' \<and> obj_ok a s' ob \<and> pq_same s s' \<and> page_removed a m s s'"
proof -
  let ?x = "busy_lock (pages s m)" and ?pi = "pindex (pages s m)" and ?l = "memq s ob"
  define b where "b = (if vm_page_xbusied ?x then VPB_UNBUSIED else ?x)"
  obtain t where t: "t = (if vm_page_xbusied ?x then set_busy m (VPB_UNBUSIED, ?x \<noteq> VPB_SINGLE_EXCLUSIVER) s else s)"
    by simp
  have t': "pages t = (pages s)(m := (pages s m)\<lparr>busy_lock := b\<rparr>)" "memq t = memq s" "rtree t = rtree s"
    "resident_page_count t = resident_page_count s" "is_vnode t = is_vnode s" "pq_same s t"
    "\<And>o'. holds o' (calls t) = holds o' (calls s)"
    by (simp_all add: t b_def set_busy_def pq_same_upd_pg)
  have bx: "\<not> vm_page_xbusied b" "b = (if vm_page_xbusied ?x then VPB_UNBUSIED else ?x)" by (simp_all add: b_def)
  note D = ok [unfolded obj_ok_def]
  have mem: "m \<in> set ?l" using D m by blast
  have so: "sorted_pages s ?l" using D by blast
  have at: "a (rtree s ob) ?pi = Some m" using D find_pindex [OF so] mem by simp
  obtain tr where tr: "r_remove R ?pi (rtree s ob) = (Some m, tr)" "a tr = (a (rtree s ob))(?pi := None)"
    using radix_okD(7,8) [OF R, of ?pi "rtree s ob"] at by (cases "r_remove R ?pi (rtree s ob)") simp
  obtain xs ys where l: "?l = xs @ m # ys" "remove1 m ?l = xs @ ys"
    by (rule split_after [OF so mem]) blast
  let ?s1 = "add_resident ob (- 1) (set_memq ob (xs @ ys) (set_rtree ob tr t))"
  let ?s2 = "call_if (resident_page_count ?s1 ob = 0 \<and> is_vnode ?s1 ob) (Vdrop ob) ?s1"
  let ?s3 = "upd_pg m (\<lambda>p. p\<lparr>pg_object := None\<rparr>) ?s2"
  have fst: "(if vm_page_xbusied ?x then rbind (vm_page_xunbusy ?x) (\<lambda>xw. Inr (set_busy m xw s)) else Inr s) = Inr t"
    by (simp add: t xunbusy_cases)
  have r: "vm_page_remove R m s = Inr ?s3"
    by (simp add: vm_page_remove_def m fst Let_def t' tr(1) tailq_remove_def mem l(2) split del: if_split)
  have pg: "pages ?s3 = (pages s)(m := (pages s m)\<lparr>busy_lock := b, pg_object := None\<rparr>)"
    by (simp add: t'(1))
  have pin: "pindex (pages ?s3 x) = pindex (pages s x)" for x unfolding pg by simp
  have so': "sorted_pages ?s3 (xs @ ys)"
    using so sorted_pages_cong [of "xs @ ys" ?s3 s] pin by (simp add: l(1) sorted_pages_simps)
  have d: "m \<notin> set xs" "m \<notin> set ys" using sorted_pages_distinct [OF so] by (auto simp: l(1))
  have find: "a tr k = find (\<lambda>x. pindex (pages ?s3 x) = k) (xs @ ys)" for k
  proof (rule find_eqI [OF so'])
    have eq: "a tr k = (if k = ?pi then None else find (\<lambda>x. pindex (pages s x) = k) ?l)"
      using D by (simp add: tr(2))
    have inj: "x \<in> set (xs @ ys) \<Longrightarrow> pindex (pages s x) \<noteq> ?pi" for x
      using so by (auto simp: l(1) sorted_pages_simps)
    show "a tr k = Some x \<longleftrightarrow> x \<in> set (xs @ ys) \<and> pindex (pages ?s3 x) = k" for x
      unfolding pin eq using inj [of x] find_pindex [OF so, of k x] d by (auto simp: l(1))
  qed
  have mem': "x \<in> set (xs @ ys) \<longleftrightarrow> pg_object (pages ?s3 x) = Some ob" for x
    unfolding pg using D d by (auto simp: l(1))
  have "obj_ok a ?s3 ob"
    unfolding obj_ok_def using so' find mem' D t' by (auto simp: l(1) int_lengths_0)
  moreover have "pq_same s ?s3" using t'(6) by (simp add: pq_same_upd_pg)
  moreover have "page_removed a m s ?s3"
    unfolding page_removed_def using bx pg t' tr(2) m l(2) by (auto simp: obj_frame_def)
  ultimately show ?thesis using r by blast
qed

lemma remove_ok:
  assumes R: "radix_ok R a" and wf: "obj_wf a s"
  shows "\<exists>s'. vm_page_remove R m s = Inr s' \<and> obj_wf a s' \<and> pq_same s s' \<and> pg_object (pages s' m) = None \<and>
    (case pg_object (pages s m) of None \<Rightarrow> s' = s | Some ob \<Rightarrow> page_removed a m s s')"
proof (cases "pg_object (pages s m)")
  case None
  then show ?thesis using wf by (simp add: vm_page_remove_def)
next
  case (Some ob)
  have ok: "obj_ok a s ob" using wf by (simp add: obj_wf_def)
  obtain s' where s': "vm_page_remove R m s = Inr s'" "obj_ok a s' ob" "pq_same s s'" "page_removed a m s s'"
    using remove_local [OF R ok Some] by blast
  have "obj_wf a s'"
    by (rule obj_wf_frame [OF wf _ s'(2), of "{m}"]) (use s'(4) Some in \<open>auto simp: page_removed_def\<close>)
  then show ?thesis using s' Some by (auto simp: page_removed_def)
qed

lemma insert_ok:
  assumes R: "radix_ok R a" and wf: "obj_wf a s" and m: "pg_object (pages s m) = None"
    and free: "a (rtree s ob) pi = None"
  shows "\<exists>s'. vm_page_insert R m ob pi s = Inr (s', r_insert R pi m (rtree s ob) = None) \<and>
    obj_wf a s' \<and> pq_same s s' \<and>
    (if r_insert R pi m (rtree s ob) = None
     then s' = upd_pg m (\<lambda>p. p\<lparr>pg_object := None, pindex := 0\<rparr>) s else page_inserted a m ob pi s s')"
  using insert_after_ok [OF R wf m free mpred_lookup_le [OF R wf free]] by (simp add: vm_page_insert_def)

text \<open>An index that is taken makes the insertion panic.\<close>

lemma insert_taken:
  assumes R: "radix_ok R a" and wf: "obj_wf a s" and taken: "a (rtree s ob) pi = Some q"
  shows "\<exists>msg. vm_page_insert R m ob pi s = Inl (Panic msg)"
proof -
  have "\<exists>p. r_lookup_le R pi (rtree s ob) = Some p \<and> a (rtree s ob) pi = Some p"
  proof (cases "r_lookup_le R pi (rtree s ob)")
    case None
    then show ?thesis using radix_okD(2) [OF R None order.refl] taken by simp
  next
    case (Some p)
    then show ?thesis using radix_okD(3) [OF R Some] taken
      by (metis option.distinct(1) order.order_iff_strict order.refl)
  qed
  then obtain p where p: "r_lookup_le R pi (rtree s ob) = Some p" "a (rtree s ob) pi = Some p" by blast
  then have "pg_object (pages s p) = Some ob" "pindex (pages s p) = pi"
    using trie_iff [OF wf] by blast+
  then show ?thesis
    by (simp add: vm_page_insert_def vm_page_insert_after_def p(1) check_mpred_def kassert_def)
qed

subsection \<open>Lookup\<close>

lemma find_least_ok:
  assumes R: "radix_ok R a" and wf: "obj_wf a s"
  shows "vm_page_find_least R ob pi s = find (\<lambda>m. pi \<le> pindex (pages s m)) (memq s ob)"
proof -
  have so: "sorted_pages s (memq s ob)" by (rule obj_wfD(1) [OF wf])
  have first: "find (\<lambda>m. pi \<le> pindex (pages s m)) l = Some x"
    if "sorted_pages s l" "x \<in> set l" "pi \<le> pindex (pages s x)"
      "\<And>y. y \<in> set l \<Longrightarrow> pi \<le> pindex (pages s y) \<Longrightarrow> pindex (pages s x) \<le> pindex (pages s y)" for l x
    using that by (induction l) (auto simp: sorted_pages_simps dest: leD)
  show ?thesis
  proof (cases "memq s ob")
    case Nil
    then show ?thesis by (simp add: vm_page_find_least_def)
  next
    case (Cons y ys)
    show ?thesis
    proof (cases "pindex (pages s y) < pi")
      case False
      then have "pi \<le> pindex (pages s y)" by simp
      then show ?thesis using Cons False by (simp add: vm_page_find_least_def)
    next
      case True
      have idx: "x \<in> set (memq s ob) \<Longrightarrow> a (rtree s ob) (pindex (pages s x)) = Some x" for x
        by (simp add: trie_iff [OF wf] obj_wfD(2) [OF wf])
      have eq: "vm_page_find_least R ob pi s = r_lookup_ge R pi (rtree s ob)"
        using True Cons by (simp add: vm_page_find_least_def)
      show ?thesis
      proof (cases "r_lookup_ge R pi (rtree s ob)")
        case None
        have "\<not> pi \<le> pindex (pages s x)" if "x \<in> set (memq s ob)" for x
          using radix_okD(4) [OF R None] idx [OF that] by force
        then show ?thesis using eq None by (simp add: find_None_iff [THEN iffD2])
      next
        case (Some x)
        obtain j where j: "pi \<le> j" "a (rtree s ob) j = Some x" "\<forall>i\<ge>pi. i < j \<longrightarrow> a (rtree s ob) i = None"
          using radix_okD(5) [OF R Some] by blast
        have x: "x \<in> set (memq s ob)" "pindex (pages s x) = j"
          using j(2) by (simp_all add: trie_iff [OF wf] obj_wfD(2) [OF wf])
        have "j \<le> pindex (pages s z)" if "z \<in> set (memq s ob)" "pi \<le> pindex (pages s z)" for z
          using j(3) idx [OF that(1)] that(2) by (metis linorder_not_less option.distinct(1))
        then show ?thesis using first [OF so x(1)] x(2) j(1) eq Some by simp
      qed
    qed
  qed
qed

lemma neighbour_ok:
  assumes wf: "obj_wf a s" and m: "pg_object (pages s m) = Some ob"
    and nb: "\<And>p. nb = Some p \<Longrightarrow> p \<in> set (memq s ob)"
    and miss: "\<And>p. p \<in> set (memq s ob) \<Longrightarrow> pindex (pages s p) = pi \<Longrightarrow> nb = Some p"
  shows "neighbour nb pi m s = Inr (a (rtree s ob) pi)"
proof (cases "a (rtree s ob) pi")
  case None
  show ?thesis
  proof (cases nb)
    case (Some p)
    then have o: "pg_object (pages s p) = Some ob" using nb obj_wfD(2) [OF wf] by blast
    then have "pindex (pages s p) \<noteq> pi" using None [unfolded trie_None [OF wf]] by blast
    then show ?thesis by (simp add: neighbour_def None Some o m)
  qed (simp add: neighbour_def None)
next
  case (Some p)
  then have "p \<in> set (memq s ob)" "pindex (pages s p) = pi" "pg_object (pages s p) = Some ob"
    by (simp_all add: trie_iff [OF wf] obj_wfD(2) [OF wf])
  then show ?thesis using miss Some m by (simp add: neighbour_def)
qed

lemma next_ok:
  assumes wf: "obj_wf a s" and m: "pg_object (pages s m) = Some ob"
  shows "vm_page_next m s = Inr (if pindex (pages s m) = - 1 then None else a (rtree s ob) (pindex (pages s m) + 1))"
proof -
  note so = obj_wfD(1) [OF wf, of ob]
  have "m \<in> set (memq s ob)" using m by (simp add: obj_wfD(2) [OF wf])
  then obtain xs ys where l: "memq s ob = xs @ m # ys" "tailq_next m (memq s ob) = tailq_first ys"
    by (rule split_after [OF so]) blast
  have gt: "pindex (pages s m) < pindex (pages s y)" if "y \<in> set ys" for y
    using that so by (auto simp: l(1) sorted_pages_simps)
  show ?thesis
  proof (cases "pindex (pages s m) = - 1")
    case True
    then have "ys = []" using gt by (cases ys) (auto simp: word_order.extremum_strict)
    then show ?thesis by (simp add: vm_page_next_def obj_list_def m l(2) True neighbour_def)
  next
    case False
    have lt: "pindex (pages s m) < pindex (pages s m) + 1"
      using False inc_less_eq_self_iff_eq [of "pindex (pages s m)"] by (simp add: not_le [symmetric])
    have "neighbour (tailq_next m (memq s ob)) (pindex (pages s m) + 1) m s = Inr (a (rtree s ob) (pindex (pages s m) + 1))"
    proof (rule neighbour_ok [OF wf m])
      show "p \<in> set (memq s ob)" if "tailq_next m (memq s ob) = Some p" for p
        using that tailq_first_SomeD [of ys p] by (simp add: l(2)) (simp add: l(1))
      show "tailq_next m (memq s ob) = Some p"
        if p: "p \<in> set (memq s ob)" "pindex (pages s p) = pindex (pages s m) + 1" for p
      proof -
        have "p \<in> set ys" using p so lt by (auto simp: l(1) sorted_pages_simps dest: order.asym)
        then obtain y zs where ys: "ys = y # zs" "p = y \<or> p \<in> set zs" by (cases ys) auto
        have "pindex (pages s p) \<le> pindex (pages s y)" using gt [of y] p(2) ys(1) by (simp add: inc_le)
        then have "p = y" using ys so by (auto simp: l(1) sorted_pages_simps dest: leD)
        then show ?thesis by (simp add: l(2) ys(1))
      qed
    qed
    then show ?thesis using False by (simp add: vm_page_next_def obj_list_def m)
  qed
qed

lemma prev_ok:
  assumes wf: "obj_wf a s" and m: "pg_object (pages s m) = Some ob"
  shows "vm_page_prev m s = Inr (if pindex (pages s m) = 0 then None else a (rtree s ob) (pindex (pages s m) - 1))"
proof -
  note so = obj_wfD(1) [OF wf, of ob]
  have "m \<in> set (memq s ob)" using m by (simp add: obj_wfD(2) [OF wf])
  then obtain xs ys where l: "memq s ob = xs @ m # ys" "tailq_prev m (memq s ob) = tailq_first (rev xs)"
    by (rule split_after [OF so]) blast
  have less: "pindex (pages s y) < pindex (pages s m)" if "y \<in> set xs" for y
    using that so by (auto simp: l(1) sorted_pages_simps)
  show ?thesis
  proof (cases "pindex (pages s m) = 0")
    case True
    then have "xs = []" using less by (cases xs) auto
    then show ?thesis by (simp add: vm_page_prev_def obj_list_def m l(2) True neighbour_def)
  next
    case False
    have lt: "pindex (pages s m) - 1 < pindex (pages s m)"
      using False less_eq_dec_self_iff_eq [of "pindex (pages s m)"] by (simp add: not_le [symmetric])
    have "neighbour (tailq_prev m (memq s ob)) (pindex (pages s m) - 1) m s = Inr (a (rtree s ob) (pindex (pages s m) - 1))"
    proof (rule neighbour_ok [OF wf m])
      show "p \<in> set (memq s ob)" if "tailq_prev m (memq s ob) = Some p" for p
        using that tailq_first_SomeD [of "rev xs" p] by (simp add: l(2)) (simp add: l(1))
      show "tailq_prev m (memq s ob) = Some p"
        if p: "p \<in> set (memq s ob)" "pindex (pages s p) = pindex (pages s m) - 1" for p
      proof -
        have "p \<in> set xs" using p so lt by (auto simp: l(1) sorted_pages_simps dest: order.asym)
        then obtain y zs where xs: "xs = zs @ [y]" "p = y \<or> p \<in> set zs"
          by (cases xs rule: rev_cases) auto
        have "pindex (pages s y) \<le> pindex (pages s p)" using less [of y] p(2) xs(1)
          by (simp add: less_imp_less_eq_dec)
        then have "p = y" using xs so by (auto simp: l(1) sorted_pages_simps dest: leD)
        then show ?thesis by (simp add: l(2) xs(1))
      qed
    qed
    then show ?thesis using False by (simp add: vm_page_prev_def obj_list_def m)
  qed
qed

subsection \<open>Replacement and renaming\<close>

lemma replace_ok:
  assumes R: "radix_ok R a" and wf: "obj_wf a s"
    and new: "pg_object (pages s mnew) = None" "queue (pages s mnew) = PQ_NONE"
    and old: "a (rtree s ob) pi = Some mold" "queue (pages s mold) = PQ_NONE"
      "vm_page_xbusied (busy_lock (pages s mold))"
  shows "\<exists>s'. vm_page_replace R mnew ob pi s = Inr (s', mold) \<and> obj_wf a s' \<and> pq_same s s' \<and>
    a (rtree s' ob) = (a (rtree s ob))(pi := Some mnew) \<and> obj_frame ob s s' \<and>
    pages s' = (pages s)(mnew := (pages s mnew)\<lparr>pg_object := Some ob, pindex := pi\<rparr>,
      mold := (pages s mold)\<lparr>pg_object := None, busy_lock := VPB_UNBUSIED\<rparr>)"
proof -
  note D = obj_wfD [OF wf]
  have mo: "pg_object (pages s mold) = Some ob" "pindex (pages s mold) = pi" using old(1) by (simp_all add: trie_iff [OF wf])
  then have ne: "mold \<noteq> mnew" using new by auto
  have mem: "mold \<in> set (memq s ob)" using mo D(2) by blast
  obtain xs ys where l: "memq s ob = xs @ mold # ys" "insert_after mold mnew (memq s ob) = xs @ mold # mnew # ys"
    by (rule split_after [OF D(1) mem, of mnew]) blast
  have d: "mold \<notin> set xs" "mold \<notin> set ys" using sorted_pages_distinct [OF D(1), of ob] by (auto simp: l(1))
  have nm: "mnew \<notin> set xs" "mnew \<notin> set ys" using D(2) [of mnew ob] new(1) by (auto simp: l(1))
  obtain tr where tr: "r_replace R pi mnew (rtree s ob) = (Some mold, tr)" "a tr = (a (rtree s ob))(pi := Some mnew)"
    using radix_okD(9,10) [OF R, of "rtree s ob" pi mnew] old(1) by (cases "r_replace R pi mnew (rtree s ob)") simp
  let ?l = "xs @ mnew # ys"
  let ?s1 = "upd_pg mold (\<lambda>p. p\<lparr>pg_object := None\<rparr>) (set_memq ob ?l (set_rtree ob tr
    (upd_pg mnew (\<lambda>p. p\<lparr>pg_object := Some ob, pindex := pi\<rparr>) s)))"
  let ?s2 = "set_busy mold (VPB_UNBUSIED, busy_lock (pages s mold) \<noteq> VPB_SINGLE_EXCLUSIVER) ?s1"
  let ?s3 = "call_if (is_write_mapped ?s2 mnew) (ObjWriteableDirty ob) ?s2"
  have r: "vm_page_replace R mnew ob pi s = Inr (?s3, mold)"
    using d ne by (simp add: vm_page_replace_def new tr(1) old(2) tailq_insert_after_def mem l(2) xunbusy_cases [OF old(3)]
        tailq_remove_def remove1_append Let_def)
  have pg: "pages ?s3 = (pages s)(mnew := (pages s mnew)\<lparr>pg_object := Some ob, pindex := pi\<rparr>,
      mold := (pages s mold)\<lparr>pg_object := None, busy_lock := VPB_UNBUSIED\<rparr>)"
    using ne by (simp add: set_busy_def)
  have st: "memq ?s3 = (memq s)(ob := ?l)" "rtree ?s3 = (rtree s)(ob := tr)" "resident_page_count ?s3 = resident_page_count s"
    "is_vnode ?s3 = is_vnode s" "holds o' (calls ?s3) = holds o' (calls s)" for o'
    by (simp_all add: set_busy_def)
  have pin: "pindex (pages ?s3 x) = (if x = mnew then pi else pindex (pages s x))" for x
    unfolding pg using ne by simp
  have so: "sorted_pages ?s3 ?l"
  proof -
    have "pindex (pages ?s3 x) = pindex (pages s x)" if "x \<in> set xs \<union> set ys" for x
      using that nm unfolding pin by auto
    then show ?thesis
      using D(1) [of ob] sorted_pages_cong [of xs ?s3 s] sorted_pages_cong [of ys ?s3 s] mo(2) nm pin [of mnew]
      by (simp add: l(1) sorted_pages_simps)
  qed
  have f: "a tr k = find (\<lambda>x. pindex (pages ?s3 x) = k) ?l" for k
  proof (rule find_eqI [OF so])
    have inj: "x \<in> set xs \<union> set ys \<Longrightarrow> pindex (pages s x) \<noteq> pi" for x
      using D(1) [of ob] mo(2) by (auto simp: l(1) sorted_pages_simps)
    show "a tr k = Some x \<longleftrightarrow> x \<in> set ?l \<and> pindex (pages ?s3 x) = k" for x
      unfolding pin tr(2) using inj [of x] nm trie_iff [OF wf, of ob k x] D(2) [of x ob] mo(2)
      by (auto simp: l(1))
  qed
  have mem': "x \<in> set ?l \<longleftrightarrow> pg_object (pages ?s3 x) = Some ob" for x
    unfolding pg using D(2) [of x ob] d ne by (auto simp: l(1))
  have fr: "obj_frame ob s ?s3" by (simp add: obj_frame_def st)
  have ok: "obj_ok a ?s3 ob"
    unfolding obj_ok_def st using so f mem' D(4,5) [of ob] by (simp add: l(1))
  have "obj_wf a ?s3"
    by (rule obj_wf_frame [OF wf fr ok, of "{mnew, mold}"]) (use new mo ne in \<open>auto simp: pg\<close>)
  moreover have "pq_same s ?s3"
    using ne by (simp add: set_busy_def pq_same_upd_pg)
  ultimately show ?thesis using r fr pg st(2) tr(2) by auto
qed

lemma rename_ok:
  assumes R: "radix_ok R a" and wf: "obj_wf a s" and m: "pg_object (pages s m) = Some o1" "o1 \<noteq> ob"
    and free: "a (rtree s ob) pi = None" and v: "valid (pages s m) = VM_PAGE_BITS_ALL"
  shows "\<exists>s'. vm_page_rename R m ob pi s = Inr (s', r_insert R pi m (rtree s ob) = None) \<and>
    obj_wf a s' \<and> pq_same s s' \<and>
    (if r_insert R pi m (rtree s ob) = None then s' = s
     else a (rtree s' ob) pi = Some m \<and> a (rtree s' o1) (pindex (pages s m)) = None \<and>
       dirty (pages s' m) = VM_PAGE_BITS_ALL \<and> memq s' o1 = remove1 m (memq s o1))"
proof -
  note D = obj_wfD [OF wf]
  let ?mp = "r_lookup_le R pi (rtree s ob)" and ?op = "pindex (pages s m)"
  have mp: "mpred_ok s ob pi ?mp" by (rule mpred_lookup_le [OF R wf free])
  then have chk: "case ?mp of None \<Rightarrow> True | Some p \<Rightarrow> pindex (pages s p) \<noteq> pi"
    by (auto simp: mpred_ok_def split: option.splits)
  have undo: "upd_pg m (\<lambda>p. p\<lparr>pindex := ?op\<rparr>) (upd_pg m (\<lambda>p. p\<lparr>pindex := pi\<rparr>) s) = s"
    "upd_pg m (\<lambda>p. p\<lparr>pindex := ?op\<rparr>) (set_rtree ob t (upd_pg m (\<lambda>p. p\<lparr>pindex := pi\<rparr>) s)) = set_rtree ob t s" for t
    by (simp_all add: upd_pg_def set_rtree_def)
  show ?thesis
  proof (cases "r_insert R pi m (rtree s ob)")
    case None
    then show ?thesis using chk wf by (simp add: vm_page_rename_def undo Let_def)
  next
    case (Some t)
    have t: "a t = (a (rtree s ob))(pi := Some m)" by (rule radix_okD(6) [OF R free Some])
    let ?s1 = "set_rtree ob t s"
    have "obj_ok a ?s1 o1" using wf m(2) unfolding obj_wf_def obj_ok_def sorted_pages_def by simp
    then obtain s2 where s2: "vm_page_remove R m ?s1 = Inr s2" "obj_ok a s2 o1" "pq_same ?s1 s2" "page_removed a m ?s1 s2"
      using remove_local [OF R, of ?s1 o1 m] m(1) by auto
    let ?s3 = "upd_pg m (\<lambda>p. p\<lparr>pindex := pi, pg_object := Some ob\<rparr>) s2"
    obtain b where p2: "pages s2 = (pages s)(m := (pages s m)\<lparr>busy_lock := b, pg_object := None\<rparr>)"
      using s2(4) by (auto simp: page_removed_def)
    have q2: "memq s2 o1 = remove1 m (memq s o1)" "a (rtree s2 o1) = (a (rtree s o1))(?op := None)" "obj_frame o1 ?s1 s2"
      using s2(4) m by (auto simp: page_removed_def)
    have nm: "m \<notin> set (memq s ob)" using m D(2) [of m ob] by auto
    have pin: "x \<in> set (memq s ob) \<Longrightarrow> pindex (pages ?s3 x) = pindex (pages s x)" for x
      using nm p2 by auto
    have e2: "memq s2 ob = memq s ob" "rtree s2 ob = t" "resident_page_count s2 ob = resident_page_count s ob"
      "holds ob (calls s2) = holds ob (calls s)" "is_vnode s2 = is_vnode s"
      using q2(3) m(2) by (simp_all add: obj_frame_def)
    have "find (\<lambda>x. pindex (pages ?s3 x) = k) (memq s ob) = find (\<lambda>x. pindex (pages s x) = k) (memq s ob)" for k
      using pin by (intro find_cong) auto
    moreover have "sorted_pages ?s3 (memq s ob) = sorted_pages s (memq s ob)" by (rule sorted_pages_cong) (rule pin)
    ultimately have un: "unlinked a ?s3 ob m"
      using D nm m by (auto simp: unlinked_def e2 p2 t)
    have "mpred_ok ?s3 ob pi ?mp" using mp mpred_ok_cong [of ?s3 ob s pi ?mp] pin e2(1) by simp
    then obtain s4 where s4: "vm_page_insert_radixdone m ob ?mp ?s3 = Inr s4" "obj_ok a s4 ob" "obj_frame ob ?s3 s4"
      "pq_same ?s3 s4" "pages s4 = pages ?s3" "rtree s4 = rtree ?s3"
      using radixdone_ok [OF un, of ?mp] by auto
    let ?s5 = "upd_pg m (\<lambda>p. (pages s4 m)\<lparr>dirty := VM_PAGE_BITS_ALL\<rparr>) s4"
    have d: "vm_page_dirty m s4 = Inr ?s5"
      using v by (simp add: vm_page_dirty_def vm_page_dirty_KBI_def s4(5) p2)
    have r: "vm_page_rename R m ob pi s = Inr (?s5, False)"
      using chk by (simp add: vm_page_rename_def Some undo s2(1) s4(1) d Let_def)
    have "obj_ok a s4 o'" for o'
    proof -
      consider "o' = ob" | "o' = o1" | "o' \<noteq> ob" "o' \<noteq> o1" by blast
      then show ?thesis
      proof cases
        case 1
        then show ?thesis using s4(2) by simp
      next
        case 2
        show ?thesis unfolding 2
          by (rule obj_ok_transfer [OF s2(2)])
            (use s4(3) m(2) in \<open>auto simp: obj_frame_def s4(5) p2\<close>)
      next
        case 3
        have "obj_ok a s o'" using wf by (simp add: obj_wf_def)
        then show ?thesis
          by (rule obj_ok_transfer) (use s4(3) q2(3) m 3 in \<open>auto simp: obj_frame_def s4(5) p2\<close>)
      qed
    qed
    then have "obj_ok a ?s5 o'" for o' by (rule obj_ok_transfer) simp_all
    then have "obj_wf a ?s5" by (simp add: obj_wf_def)
    moreover have "pq_same s ?s5"
    proof -
      have "pq_same s s2" by (rule pq_same_trans [OF _ s2(3)]) simp
      then have "pq_same s ?s3" by (simp add: pq_same_upd_pg)
      then have "pq_same s s4" by (rule pq_same_trans [OF _ s4(4)])
      then show ?thesis by (simp add: pq_same_def)
    qed
    moreover have "memq s4 o1 = memq s2 o1" "rtree s4 o1 = rtree s2 o1"
      using s4(3) m(2) by (simp_all add: obj_frame_def)
    ultimately show ?thesis
      using r q2 e2(2) by (simp add: Some s4(6) t)
  qed
qed

subsection \<open>Insertion undone\<close>

lemma sorted_pages_map: "sorted_pages s l \<longleftrightarrow> sorted_wrt (<) (map (\<lambda>m. pindex (pages s m)) l)"
  by (induction l) (auto simp: sorted_pages_simps)

lemma sorted_pages_unique:
  assumes "sorted_pages s l" "sorted_pages s k" "set l = set k"
  shows "l = k"
proof -
  let ?f = "\<lambda>m. pindex (pages s m)"
  have "sorted_wrt (<) (map ?f l)" "sorted_wrt (<) (map ?f k)" "set (map ?f l) = set (map ?f k)"
    using assms by (simp_all add: sorted_pages_map)
  then have eq: "map ?f l = map ?f k" by (metis strict_sorted_equal)
  have "inj_on ?f (set l \<union> set k)"
    using assms(1,3) by (simp add: sorted_pages_map strict_sorted_iff distinct_map)
  then show ?thesis using eq by (metis map_inj_on)
qed

text \<open>Taking out what was put in restores the object.\<close>

lemma insert_remove:
  assumes R: "radix_ok R a" and wf: "obj_wf a s" and m: "pg_object (pages s m) = None" and free: "a (rtree s ob) pi = None"
    and room: "r_insert R pi m (rtree s ob) \<noteq> None" and unbusied: "\<not> vm_page_xbusied (busy_lock (pages s m))"
  shows "\<exists>s1 s2. vm_page_insert R m ob pi s = Inr (s1, False) \<and> vm_page_lookup R ob pi s1 = Some m \<and>
    vm_page_remove R m s1 = Inr s2 \<and> (\<forall>o'. a (rtree s2 o') = a (rtree s o') \<and> memq s2 o' = memq s o') \<and>
    resident_page_count s2 ob = resident_page_count s ob \<and> pages s2 = (pages s)(m := (pages s m)\<lparr>pindex := pi\<rparr>)"
proof -
  obtain s1 where s1: "vm_page_insert R m ob pi s = Inr (s1, False)" "obj_wf a s1" "page_inserted a m ob pi s s1"
    using insert_ok [OF R wf m free] room by auto
  then have p1: "pages s1 = (pages s)(m := (pages s m)\<lparr>pg_object := Some ob, pindex := pi\<rparr>)"
    "a (rtree s1 ob) = (a (rtree s ob))(pi := Some m)" "obj_frame ob s s1" by (simp_all add: page_inserted_def)
  have o1: "pg_object (pages s1 m) = Some ob" by (simp add: p1(1))
  obtain s2 where s2: "vm_page_remove R m s1 = Inr s2" "obj_wf a s2" "page_removed a m s1 s2"
    using remove_ok [OF R s1(2), of m] o1 by auto
  have p2: "pages s2 = (pages s1)(m := (pages s1 m)\<lparr>pg_object := None\<rparr>)"
    "a (rtree s2 ob) = (a (rtree s1 ob))(pi := None)" "obj_frame ob s1 s2"
    using s2(3) o1 unbusied by (auto simp: page_removed_def p1(1) fun_upd_idem)
  have pages2: "pages s2 = (pages s)(m := (pages s m)\<lparr>pindex := pi\<rparr>)" using m unfolding p2(1) p1(1) by (auto simp: fun_eq_iff)
  have tries: "a (rtree s2 o') = a (rtree s o')" for o'
  proof (cases "o' = ob")
    case True
    then show ?thesis using free by (simp add: p2(2) p1(2) fun_upd_idem)
  next
    case False
    then show ?thesis using p1(3) p2(3) by (simp add: obj_frame_def)
  qed
  have nm: "m \<notin> set (memq s o')" for o' using obj_wfD(2) [OF wf] m by simp
  have lists: "memq s2 o' = memq s o'" for o'
  proof (rule sorted_pages_unique)
    show "sorted_pages s2 (memq s2 o')" by (rule obj_wfD(1) [OF s2(2)])
    have "map (\<lambda>x. pindex (pages s2 x)) (memq s o') = map (\<lambda>x. pindex (pages s x)) (memq s o')"
      using nm [of o'] by (intro map_cong) (auto simp: pages2)
    then show "sorted_pages s2 (memq s o')" using obj_wfD(1) [OF wf, of o'] by (metis sorted_pages_map)
    show "set (memq s2 o') = set (memq s o')"
      using obj_wfD(2) [OF wf] obj_wfD(2) [OF s2(2)] m by (auto simp: pages2 split: if_splits)
  qed
  have "resident_page_count s2 ob = resident_page_count s ob"
    using obj_wfD(4) [OF wf] obj_wfD(4) [OF s2(2)] lists by simp
  moreover have "vm_page_lookup R ob pi s1 = Some m" using radix_okD(1) [OF R] by (simp add: vm_page_lookup_def p1(2))
  ultimately show ?thesis using s1(1) s2(1) tries lists pages2 by blast
qed

end
