(* ===== verification/VmFreeLaws.thy ===== *)
theory VmFreeLaws
  imports VmFree VmObjectLaws
begin

text \<open>
  Freeing and allocating keep the invariants of the queues and of the objects. A page that is
  freed is on no queue and in no object, and passes the checks of the next allocation.
\<close>


subsection \<open>The whole invariant\<close>

definition vm_inv :: "nat \<Rightarrow> ('r \<Rightarrow> u_long \<Rightarrow> pg option) \<Rightarrow> 'r vm \<Rightarrow> bool" where
  "vm_inv n a s \<longleftrightarrow> vm_wf n s \<and> obj_wf a s"

text \<open>The object layer of the two states is the same.\<close>

definition obj_same :: "'r vm \<Rightarrow> 'r vm \<Rightarrow> bool" where
  "obj_same s s' \<longleftrightarrow> (\<forall>x. pg_object (pages s' x) = pg_object (pages s x) \<and> pindex (pages s' x) = pindex (pages s x)) \<and>
     memq s' = memq s \<and> rtree s' = rtree s \<and> resident_page_count s' = resident_page_count s \<and>
     is_vnode s' = is_vnode s \<and> (\<forall>ob. holds ob (calls s') = holds ob (calls s))"

lemma obj_wf_same: "obj_wf a s \<Longrightarrow> obj_same s s' \<Longrightarrow> obj_wf a s'"
  unfolding obj_wf_def obj_ok_def obj_same_def sorted_pages_def by simp

lemma obj_same_refl [simp]: "obj_same s s" by (simp add: obj_same_def)
lemma obj_same_trans: "obj_same s t \<Longrightarrow> obj_same t u \<Longrightarrow> obj_same s u" by (simp add: obj_same_def)

lemma vm_inv_same: "vm_inv n a s \<Longrightarrow> pq_same s s' \<Longrightarrow> obj_same s s' \<Longrightarrow> vm_inv n a s'"
  by (auto simp: vm_inv_def intro: vm_wf_pq_same obj_wf_same)

lemma obj_same_simps [simp]:
  "obj_same s (set_pq d q l t) = obj_same s t" "obj_same s (vm_pagequeue_cnt_add d q k t) = obj_same s t"
  by (simp_all add: obj_same_def set_pq_def vm_pagequeue_cnt_add_def)

lemma obj_same_upd_pg:
  "obj_same s t \<Longrightarrow> pg_object (f (pages t m)) = pg_object (pages t m) \<Longrightarrow> pindex (f (pages t m)) = pindex (pages t m) \<Longrightarrow>
   obj_same s (upd_pg m f t)"
  by (simp add: obj_same_def)

lemma obj_same_taken_off [simp]: "obj_same s (taken_off s m)"
  by (simp add: taken_off_def Let_def obj_same_upd_pg)

lemma obj_same_put_on: "obj_same s t \<Longrightarrow> obj_same s (put_on t m q l)"
  by (simp add: put_on_def Let_def obj_same_upd_pg)

text \<open>A call that is neither a hold nor a release of a vnode, and the fields that only the freeing and
  the allocation read, do not matter to the invariant.\<close>

definition quiet :: "vm_call \<Rightarrow> bool" where
  "quiet c \<longleftrightarrow> (\<forall>ob. c \<noteq> Vhold ob \<and> c \<noteq> Vdrop ob)"

lemma holds_quiet: "quiet c \<Longrightarrow> holds ob [c] = 0"
  by (auto simp: holds_def quiet_def)

lemma quiet_simps [simp]:
  "quiet (ObjWriteableDirty ob)" "quiet (FreePage m)" "quiet (WakePage m)" "quiet (PmapDefaultAttr m)" "quiet (AllocPage m)"
  "quiet (PmapRemoveAll m)" "quiet (PmapSetAttr m ob)" "quiet (PmapZero m)" "quiet (PmapMemattr m)" "quiet (PmapCopy m m')"
  "quiet ZeroIdleWakeup" "quiet WakeupPagedaemon"
  "quiet WakeupFree" "quiet WakeupPagesNeeded" "quiet SleepFree" "quiet SleepPagesNeeded" "quiet RadixWait"
  by (simp_all add: quiet_def)

text \<open>Both layers are the same.\<close>

definition vm_same :: "'r vm \<Rightarrow> 'r vm \<Rightarrow> bool" where
  "vm_same s s' \<longleftrightarrow> pages s' = pages s \<and> pq_pl s' = pq_pl s \<and> pq_cnt s' = pq_cnt s \<and> pq_vcnt s' = pq_vcnt s \<and>
     phys_domain s' = phys_domain s \<and> vmd_inacthead s' = vmd_inacthead s \<and> memq s' = memq s \<and> rtree s' = rtree s \<and>
     resident_page_count s' = resident_page_count s \<and> is_vnode s' = is_vnode s \<and> (\<forall>ob. holds ob (calls s') = holds ob (calls s))"

lemma vm_same_refl [simp]: "vm_same s s" by (simp add: vm_same_def)
lemma vm_same_trans: "vm_same s t \<Longrightarrow> vm_same t u \<Longrightarrow> vm_same s u" by (simp add: vm_same_def)

lemma vm_sameD:
  assumes "vm_same s s'"
  shows "pq_same s s'" "obj_same s s'" "pages s' = pages s" "vm_inv n a s \<Longrightarrow> vm_inv n a s'"
proof -
  show "pq_same s s'" "obj_same s s'" "pages s' = pages s"
    using assms by (simp_all add: vm_same_def pq_same_def obj_same_def)
  then show "vm_inv n a s \<Longrightarrow> vm_inv n a s'" using vm_inv_same by blast
qed

lemma vm_same_call [simp]: "quiet c \<Longrightarrow> vm_same s (vm_call c t) = vm_same s t"
  by (simp add: vm_same_def vm_call_def holds_quiet)

lemma vm_same_fields [simp]:
  "vm_same s (t\<lparr>memattr_default := u1\<rparr>) = vm_same s t" "vm_same s (t\<lparr>v_free_count := u2\<rparr>) = vm_same s t"
  "vm_same s (t\<lparr>vm_page_zero_count := u3\<rparr>) = vm_same s t" "vm_same s (t\<lparr>vm_pageout_deficit := u2\<rparr>) = vm_same s t"
  "vm_same s (t\<lparr>vm_pageout_wanted := u4\<rparr>) = vm_same s t" "vm_same s (t\<lparr>vm_pages_needed := u4\<rparr>) = vm_same s t"
  "vm_same s (t\<lparr>vm_pageout_pages_needed := u4\<rparr>) = vm_same s t" "vm_same s (t\<lparr>v_wire_count := u2\<rparr>) = vm_same s t"
  "vm_same s (t\<lparr>is_mapped := u5\<rparr>) = vm_same s t"
  "vm_same (s\<lparr>v_free_count := u2\<rparr>) t = vm_same s t" "vm_same (s\<lparr>vm_pageout_deficit := u2\<rparr>) t = vm_same s t"
  by (simp_all add: vm_same_def)

lemma vm_same_free [simp]:
  "vm_same s (adj_free E m k t) = vm_same s t" "vm_same s (vm_page_free_wakeup E t) = vm_same s t"
  "vm_same s (vm_page_free_phys E m t) = vm_same s t" "vm_same s (pagedaemon_wakeup E t) = vm_same s t"
  "vm_same s (pagedaemon_wait t) = vm_same s t" "vm_same s (take_page E m t) = vm_same s t"
  "quiet c \<Longrightarrow> vm_same s (call_if b c t) = vm_same s t"
  by (simp_all add: adj_free_def vm_page_free_wakeup_def vm_page_free_phys_def pagedaemon_wakeup_def pagedaemon_wait_def
      take_page_def call_if_def Let_def)

lemma vm_same_wait: "vm_wait' E s = Inr s' \<Longrightarrow> vm_same s s'"
  by (auto simp: vm_wait'_def split: if_splits)

lemma vm_same_alloc_fail: "vm_page_alloc_fail E req s = Inr (s', b) \<Longrightarrow> vm_same s s'"
  by (auto simp: vm_page_alloc_fail_def Let_def split: if_splits dest!: vm_same_wait)

lemma vm_same_alloc_loop: "alloc_loop E req c l s = Inr (s', got) \<Longrightarrow> vm_same s s'"
proof (induction l arbitrary: s)
  case (Cons x l)
  obtain free g where x: "x = (free, g)" by (cases x)
  show ?case
    using Cons.prems unfolding x
    by (auto simp: Let_def split: if_splits dest!: vm_same_alloc_fail Cons.IH intro: vm_same_trans)
qed simp

subsection \<open>Freeing\<close>

text \<open>A page in its last state before the free list.\<close>

definition page_idle :: "'r vm \<Rightarrow> pg \<Rightarrow> bool" where
  "page_idle s m \<longleftrightarrow> (let p = pages s m in pg_object p = None \<and> queue p = PQ_NONE \<and> wire_count p = 0 \<and>
     valid p = 0 \<and> dirty p = 0 \<and> \<not> vm_page_busied (busy_lock p))"

text \<open>The page may be freed: nobody maps it or shares its busy lock, it is not wired, and an
  exclusive busy lock goes with its object.\<close>

definition freeable :: "'r vm \<Rightarrow> pg \<Rightarrow> bool" where
  "freeable s m \<longleftrightarrow> \<not> marker s m \<and> \<not> fictitious s m \<and> (unmanaged m s \<or> \<not> is_mapped s m) \<and>
     wire_count (pages s m) = 0 \<and>
     (\<not> vm_page_busied (busy_lock (pages s m)) \<or>
      vm_page_xbusied (busy_lock (pages s m)) \<and> \<not> vm_page_sbusied (busy_lock (pages s m)) \<and> pg_object (pages s m) \<noteq> None) \<and>
     (hold_count (pages s m) \<noteq> 0 \<longrightarrow> pg_flags (pages s m) AND PG_UNHOLDFREE = 0)"

lemma busied_cases: "\<not> vm_page_busied x \<Longrightarrow> \<not> vm_page_xbusied x \<and> \<not> vm_page_sbusied x"
  by (auto simp: vm_page_busied_def vm_page_sbusied_def)

lemma vm_inv_upd_flags:
  assumes inv: "vm_inv n a s" and m: "\<not> marker s m"
    and f: "queue (f (pages s m)) = queue (pages s m)" "wire_count (f (pages s m)) = wire_count (pages s m)"
      "oflags (f (pages s m)) = oflags (pages s m)" "pg_flags (f (pages s m)) AND PG_MARKER = 0"
      "pg_flags (f (pages s m)) AND PG_FICTITIOUS = pg_flags (pages s m) AND PG_FICTITIOUS"
      "pg_object (f (pages s m)) = pg_object (pages s m)" "pindex (f (pages s m)) = pindex (pages s m)"
  shows "vm_inv n a (upd_pg m f s)"
proof -
  have wf: "vm_wf n s" "obj_wf a s" using inv by (simp_all add: vm_inv_def)
  have "page_ok n (upd_pg m f s) m"
    using vm_wfD(1) [OF wf(1) m] f by (simp add: page_ok_def unmanaged_def fictitious_def)
  then have "vm_wf n (upd_pg m f s)" by (intro vm_wf_update [OF wf(1) m, where p = "f (pages s m)"]) (simp_all add: f)
  moreover have "obj_wf a (upd_pg m f s)" by (rule obj_wf_same [OF wf(2)]) (simp add: obj_same_upd_pg f)
  ultimately show ?thesis by (simp add: vm_inv_def)
qed

lemma unholdfree_bits:
  fixes w :: "16 word"
  shows "(w AND NOT PG_ZERO) AND PG_UNHOLDFREE = w AND PG_UNHOLDFREE"
    "(w AND NOT PG_ZERO OR PG_UNHOLDFREE) AND PG_MARKER = w AND PG_MARKER"
    "(w AND NOT PG_ZERO OR PG_UNHOLDFREE) AND PG_FICTITIOUS = w AND PG_FICTITIOUS"
    "(w AND NOT PG_ZERO OR PG_UNHOLDFREE) AND PG_UNHOLDFREE \<noteq> 0"
proof -
  have n: "NOT PG_ZERO AND PG_UNHOLDFREE = PG_UNHOLDFREE" "NOT PG_ZERO AND PG_MARKER = PG_MARKER"
    "NOT PG_ZERO AND PG_FICTITIOUS = PG_FICTITIOUS" "PG_UNHOLDFREE AND PG_MARKER = 0" "PG_UNHOLDFREE AND PG_FICTITIOUS = 0"
    by (simp_all add: PG_ZERO_def PG_UNHOLDFREE_def PG_MARKER_def PG_FICTITIOUS_def)
  show "(w AND NOT PG_ZERO) AND PG_UNHOLDFREE = w AND PG_UNHOLDFREE"
    "(w AND NOT PG_ZERO OR PG_UNHOLDFREE) AND PG_MARKER = w AND PG_MARKER"
    "(w AND NOT PG_ZERO OR PG_UNHOLDFREE) AND PG_FICTITIOUS = w AND PG_FICTITIOUS"
    by (simp_all add: word_ao_dist and.assoc n)
  have "bit ((w AND NOT PG_ZERO OR PG_UNHOLDFREE) AND PG_UNHOLDFREE) 8"
    by (simp add: bit_simps PG_UNHOLDFREE_def)
  then show "(w AND NOT PG_ZERO OR PG_UNHOLDFREE) AND PG_UNHOLDFREE \<noteq> 0" by force
qed

lemma free_prep_ok:
  assumes R: "radix_ok (radix_ops E) a" and inv: "vm_inv n a s" and m: "freeable s m"
  shows "\<exists>s'. vm_page_free_prep E m locked s = Inr (s', hold_count (pages s m) = 0) \<and> vm_inv n a s' \<and>
    page_idle s' m \<and> (hold_count (pages s m) = 0 \<longrightarrow> memattr_default s' m) \<and>
    hold_count (pages s' m) = hold_count (pages s m) \<and>
    (\<forall>x. x \<noteq> m \<longrightarrow> pages s' x = pages s x) \<and>
    (hold_count (pages s m) \<noteq> 0 \<longrightarrow> pg_flags (pages s' m) AND PG_UNHOLDFREE \<noteq> 0)"
proof -
  have wf: "vm_wf n s" "obj_wf a s" using inv by (simp_all add: vm_inv_def)
  have mk: "\<not> marker s m" and fi: "\<not> fictitious s m" and w0: "wire_count (pages s m) = 0"
    using m by (simp_all add: freeable_def)
  let ?x = "busy_lock (pages s m)"
  have ns: "\<not> vm_page_sbusied ?x" using m busied_cases [of ?x] by (auto simp: freeable_def)
  have q: "queue (pages s m) < 3 \<or> queue (pages s m) = 255" using vm_wfD(1) [OF wf(1) mk] by (simp add: page_ok_def)
  have chk: "(if \<not> unmanaged m s then kassert (\<not> is_mapped s m) e else kassert (queue (pages s m) = PQ_NONE) e') = Inr ()" for e e'
    using m queued_free [OF wf(1) mk] by (auto simp: freeable_def)
  define s1 where "s1 = (if queue (pages s m) = 255 then s else taken_off s m)"
  have un: "(if queue (pages s m) \<noteq> PQ_NONE then if locked then vm_page_dequeue_locked m s else vm_page_dequeue m s
      else Inr s) = Inr s1"
    using q dequeue_ok(1,2) [OF wf(1) mk] by (auto simp: s1_def)
  have p1: "pages s1 = (pages s)(m := (pages s m)\<lparr>queue := 255\<rparr>)"
    by (cases "pages s m") (auto simp: s1_def taken_off_simps(1))
  have wf1: "vm_wf n s1" "obj_wf a s1"
    using wf q dequeue_ok(4) [OF wf(1) mk] obj_wf_same [OF wf(2), of "taken_off s m"] by (auto simp: s1_def)
  obtain s2 where s2: "vm_page_remove (radix_ops E) m s1 = Inr s2" "obj_wf a s2" "pq_same s1 s2" "pg_object (pages s2 m) = None"
    "case pg_object (pages s1 m) of None \<Rightarrow> s2 = s1 | Some ob \<Rightarrow> page_removed a m s1 s2"
    using remove_ok [OF R wf1(2), of m] by blast
  have wf2: "vm_wf n s2" by (rule vm_wf_pq_same [OF wf1(1) s2(3)])
  obtain b where p2: "pages s2 = (pages s)(m := (pages s m)\<lparr>queue := 255, busy_lock := b, pg_object := None\<rparr>)"
    "\<not> vm_page_busied b"
  proof (cases "pg_object (pages s m)")
    case None
    show thesis
    proof (rule that [of ?x])
      show "\<not> vm_page_busied ?x" using m None by (auto simp: freeable_def)
      have e: "(pages s m)\<lparr>queue := 255, busy_lock := ?x, pg_object := None\<rparr> = (pages s m)\<lparr>queue := 255\<rparr>"
        using None by (cases "pages s m") simp
      show "pages s2 = (pages s)(m := (pages s m)\<lparr>queue := 255, busy_lock := ?x, pg_object := None\<rparr>)"
        unfolding e using s2(5) None p1 by simp
    qed
  next
    case (Some ob)
    then obtain b where b: "pages s2 = (pages s1)(m := (pages s1 m)\<lparr>busy_lock := b, pg_object := None\<rparr>)"
      "\<not> vm_page_xbusied b" "\<not> vm_page_xbusied ?x \<longrightarrow> b = ?x" "vm_page_xbusied ?x \<longrightarrow> b = VPB_UNBUSIED"
      using s2(5) by (auto simp: p1 page_removed_def)
    show thesis
    proof (rule that [of b])
      show "\<not> vm_page_busied b" using b m by (auto simp: freeable_def vm_page_busied_def)
    qed (simp add: b(1) p1)
  qed
  let ?s3 = "upd_pg m (\<lambda>p. vm_page_undirty (p\<lparr>valid := 0\<rparr>)) s2"
  have nf: "pg_flags (pages s m) AND PG_FICTITIOUS = 0" using fi by (simp add: fictitious_def)
  have inv2: "vm_inv n a s2" using wf2 s2(2) by (simp add: vm_inv_def)
  have mk2: "\<not> marker s2 m" using mk by (simp add: marker_def p2)
  have inv3: "vm_inv n a ?s3"
    by (rule vm_inv_upd_flags [OF inv2 mk2]) (use not_marker_flags [OF mk] in \<open>simp_all add: vm_page_undirty_def p2\<close>)
  have idle: "page_idle ?s3 m" using p2(2) w0 by (simp add: page_idle_def Let_def p2(1) vm_page_undirty_def)
  show ?thesis
  proof (cases "hold_count (pages s m) = 0")
    case True
    have at: "(if memattr_default ?s3 m then Inr (?s3, True)
       else Inr (vm_call (PmapDefaultAttr m) (?s3\<lparr>memattr_default := (memattr_default ?s3)(m := True)\<rparr>), True)) =
       Inr ((if memattr_default ?s3 m then ?s3
          else vm_call (PmapDefaultAttr m) (?s3\<lparr>memattr_default := (memattr_default ?s3)(m := True)\<rparr>)), True)" by simp
    define s4 where "s4 = (if memattr_default ?s3 m then ?s3
          else vm_call (PmapDefaultAttr m) (?s3\<lparr>memattr_default := (memattr_default ?s3)(m := True)\<rparr>))"
    have "vm_same ?s3 s4" by (simp add: s4_def)
    then have s4: "vm_inv n a s4" "pages s4 = pages ?s3" using vm_sameD inv3 by blast+
    have "memattr_default s4 m" by (simp add: s4_def vm_call_def)
    moreover have "vm_page_free_prep E m locked s = Inr (s4, True)"
      unfolding vm_page_free_prep_def chk un s2(1) rbind_simps
      using ns nf w0 True by (simp add: p2(1) vm_page_undirty_def Let_def s4_def)
    moreover have "page_idle s4 m" using idle by (simp add: page_idle_def s4(2))
    ultimately show ?thesis using s4 True by (simp add: p2(1) vm_page_undirty_def)
  next
    case False
    then have fl: "pg_flags (pages s m) AND PG_UNHOLDFREE = 0" using m by (simp add: freeable_def)
    let ?s5 = "upd_pg m (\<lambda>p. p\<lparr>pg_flags := pg_flags p AND NOT PG_ZERO OR PG_UNHOLDFREE\<rparr>) ?s3"
    have eq: "upd_pg m (\<lambda>p. p\<lparr>pg_flags := pg_flags p OR PG_UNHOLDFREE\<rparr>)
       (upd_pg m (\<lambda>p. p\<lparr>pg_flags := pg_flags p AND NOT PG_ZERO\<rparr>) ?s3) = ?s5" by (simp add: upd_pg_def)
    note bits = unholdfree_bits
    have mk3: "\<not> marker ?s3 m" using mk2 by (simp add: marker_def vm_page_undirty_def)
    have "vm_inv n a ?s5"
      by (rule vm_inv_upd_flags [OF inv3 mk3])
        (use not_marker_flags [OF mk] in \<open>simp_all add: vm_page_undirty_def p2 bits\<close>)
    moreover have "vm_page_free_prep E m locked s = Inr (?s5, False)"
      unfolding vm_page_free_prep_def chk un s2(1) rbind_simps
      using ns nf w0 False fl bits by (simp add: p2(1) vm_page_undirty_def Let_def eq [unfolded vm_page_undirty_def])
    moreover have "page_idle ?s5 m" using idle by (simp add: page_idle_def Let_def)
    ultimately show ?thesis using False bits by (simp add: p2(1) vm_page_undirty_def)
  qed
qed

definition frees :: "'r vm \<Rightarrow> pg \<Rightarrow> nat" where
  "frees s m = count_list (calls s) (FreePage m)"

lemma frees_simps [simp]:
  "frees (vm_call c s) m = frees s m + (if c = FreePage m then 1 else 0)"
  "frees (call_if b c s) m = frees s m + (if b \<and> c = FreePage m then 1 else 0)"
  "frees (upd_pg x f s) m = frees s m" "frees (set_memq ob l s) m = frees s m" "frees (set_rtree ob t s) m = frees s m"
  "frees (add_resident ob k s) m = frees s m" "frees (set_busy x (b1, w) s) m = frees s m"
  "frees (taken_off s x) m = frees s m" "frees (s\<lparr>memattr_default := u1\<rparr>) m = frees s m"
  "frees (s\<lparr>vm_page_zero_count := u3\<rparr>) m = frees s m" "frees (s\<lparr>vm_pages_needed := u4\<rparr>) m = frees s m"
  "frees (s\<lparr>vm_pageout_pages_needed := u4\<rparr>) m = frees s m" "frees (adj_free E x k s) m = frees s m"
  by (simp_all add: frees_def vm_call_def call_if_def upd_pg_def set_memq_def set_rtree_def add_resident_def set_busy_def
      taken_off_def set_pq_def vm_pagequeue_cnt_add_def adj_free_def Let_def)

lemma frees_remove: "vm_page_remove R m s = Inr s' \<Longrightarrow> frees s' x = frees s x"
  by (auto simp: vm_page_remove_def Let_def split: option.splits if_splits prod.splits)

lemma frees_free_prep:
  assumes "vm_page_free_prep E m locked s = Inr (s', b)"
  shows "frees s' x = frees s x"
proof -
  have deq: "vm_page_dequeue_locked m s = Inr t \<Longrightarrow> frees t x = frees s x" for t
    by (auto simp: vm_page_dequeue_locked_def frees_def set_pq_def vm_pagequeue_cnt_add_def upd_pg_def split: prod.splits if_splits)
  obtain t u where t: "(if queue (pages s m) \<noteq> PQ_NONE then if locked then vm_page_dequeue_locked m s else vm_page_dequeue m s
      else Inr s) = Inr t" "vm_page_remove (radix_ops E) m t = Inr u"
    and u: "(if pg_flags (pages u m) AND PG_FICTITIOUS \<noteq> 0 then Inr (u, False)
     else
       let s = upd_pg m (\<lambda>p. vm_page_undirty (p\<lparr>valid := 0\<rparr>)) u in
       if wire_count (pages s m) \<noteq> 0 then Inl (Panic ''vm_page_free: freeing wired page'')
       else if hold_count (pages s m) \<noteq> 0 then
         let s = upd_pg m (\<lambda>p. p\<lparr>pg_flags := pg_flags p AND NOT PG_ZERO\<rparr>) s in
         rbind (kassert (pg_flags (pages s m) AND PG_UNHOLDFREE = 0)
           ''vm_page_free: freeing PG_UNHOLDFREE page'') (\<lambda>_.
         Inr (upd_pg m (\<lambda>p. p\<lparr>pg_flags := pg_flags p OR PG_UNHOLDFREE\<rparr>) s, False))
       else if memattr_default s m then Inr (s, True)
       else Inr (vm_call (PmapDefaultAttr m) (s\<lparr>memattr_default := (memattr_default s)(m := True)\<rparr>), True)) = Inr (s', b)"
    using assms unfolding vm_page_free_prep_def rbind_eq_Inr by blast
  have "frees t x = frees s x" using t(1) deq by (auto simp: vm_page_dequeue_def split: if_splits)
  moreover have "frees u x = frees t x" by (rule frees_remove [OF t(2)])
  moreover have "frees s' x = frees u x" using u by (auto simp: Let_def split: if_splits)
  ultimately show ?thesis by simp
qed

lemma frees_wakeup [simp]: "frees (vm_page_free_wakeup E s) m = frees s m"
  by (simp add: vm_page_free_wakeup_def Let_def)

lemma frees_free_phys [simp]: "frees (vm_page_free_phys E x s) m = frees s m + (if x = m then 1 else 0)"
  by (simp add: vm_page_free_phys_def Let_def)

lemma memattr_free [simp]:
  "memattr_default (vm_page_free_wakeup E s) = memattr_default s" "memattr_default (vm_page_free_phys E x s) = memattr_default s"
  by (simp_all add: vm_page_free_wakeup_def vm_page_free_phys_def adj_free_def vm_call_def Let_def)

text \<open>What is freed passes the checks of the next allocation.\<close>

lemma page_idle_check:
  "page_idle s m \<Longrightarrow> hold_count (pages s m) = 0 \<Longrightarrow> memattr_default s m \<Longrightarrow> vm_page_alloc_check m s = Inr ()"
  by (simp add: page_idle_def vm_page_alloc_check_def Let_def)

lemma free_toq_ok:
  assumes R: "radix_ok (radix_ops E) a" and inv: "vm_inv n a s" and m: "freeable s m"
  shows "\<exists>s'. vm_page_free_toq E m s = Inr s' \<and> vm_inv n a s' \<and> page_idle s' m \<and>
    (\<forall>x. x \<noteq> m \<longrightarrow> pages s' x = pages s x) \<and> hold_count (pages s' m) = hold_count (pages s m) \<and>
    (if hold_count (pages s m) = 0 then vm_page_alloc_check m s' = Inr () \<and> frees s' m = frees s m + 1
     else pg_flags (pages s' m) AND PG_UNHOLDFREE \<noteq> 0 \<and> frees s' m = frees s m)"
proof -
  obtain t where t: "vm_page_free_prep E m False s = Inr (t, hold_count (pages s m) = 0)" "vm_inv n a t" "page_idle t m"
    "hold_count (pages s m) = 0 \<longrightarrow> memattr_default t m" "hold_count (pages t m) = hold_count (pages s m)"
    "\<forall>x. x \<noteq> m \<longrightarrow> pages t x = pages s x"
    "hold_count (pages s m) \<noteq> 0 \<longrightarrow> pg_flags (pages t m) AND PG_UNHOLDFREE \<noteq> 0"
    using free_prep_ok [OF R inv m] by blast
  have fr: "frees t m = frees s m" by (rule frees_free_prep [OF t(1)])
  let ?u = "vm_page_free_wakeup E (vm_page_free_phys E m t)"
  have "vm_same t ?u" by simp
  then have u: "vm_inv n a ?u" "pages ?u = pages t" using vm_sameD t(2) by blast+
  then have idle: "page_idle ?u m" using t(3) by (simp add: page_idle_def)
  show ?thesis
  proof (cases "hold_count (pages s m) = 0")
    case True
    then have "vm_page_alloc_check m ?u = Inr ()"
      using idle t(4,5) u(2) by (intro page_idle_check) simp_all
    then show ?thesis using True t u idle fr by (simp add: vm_page_free_toq_def)
  next
    case False
    then show ?thesis using t fr by (simp add: vm_page_free_toq_def)
  qed
qed

lemma zero_bits:
  fixes w :: "16 word"
  shows "(w AND NOT PG_ZERO) AND PG_MARKER = w AND PG_MARKER" "(w AND NOT PG_ZERO) AND PG_FICTITIOUS = w AND PG_FICTITIOUS"
    "(w AND NOT PG_ZERO) AND PG_UNHOLDFREE = w AND PG_UNHOLDFREE"
  by (simp_all add: and.assoc) (simp_all add: PG_ZERO_def PG_UNHOLDFREE_def PG_MARKER_def PG_FICTITIOUS_def)

lemma free_ok:
  assumes R: "radix_ok (radix_ops E) a" and inv: "vm_inv n a s" and m: "freeable s m"
  shows "\<exists>s'. vm_page_free E m s = Inr s' \<and> vm_inv n a s' \<and> page_idle s' m \<and>
    (\<forall>x. x \<noteq> m \<longrightarrow> pages s' x = pages s x) \<and> hold_count (pages s' m) = hold_count (pages s m) \<and>
    (if hold_count (pages s m) = 0 then vm_page_alloc_check m s' = Inr () \<and> frees s' m = frees s m + 1
     else pg_flags (pages s' m) AND PG_UNHOLDFREE \<noteq> 0 \<and> frees s' m = frees s m)"
proof -
  let ?s = "upd_pg m (\<lambda>p. p\<lparr>pg_flags := pg_flags p AND NOT PG_ZERO\<rparr>) s"
  have mk: "\<not> marker s m" using m by (simp add: freeable_def)
  have "vm_inv n a ?s" by (rule vm_inv_upd_flags [OF inv mk]) (use not_marker_flags [OF mk] in \<open>simp_all add: zero_bits\<close>)
  moreover have "freeable ?s m"
  proof -
    have "is_mapped ?s = is_mapped s" by (simp add: upd_pg_def)
    then show ?thesis using m by (simp add: freeable_def marker_def fictitious_def unmanaged_def zero_bits)
  qed
  ultimately show ?thesis using free_toq_ok [OF R, of n ?s m]
    by (cases "hold_count (pages s m) = 0") (simp_all add: vm_page_free_def)
qed

text \<open>A held page is freed when the last hold goes.\<close>

lemma unhold_frees:
  assumes R: "radix_ok (radix_ops E) a" and inv: "vm_inv n a s" and m: "\<not> marker s m" "\<not> fictitious s m"
    and i: "page_idle s m" "hold_count (pages s m) = 1" "pg_flags (pages s m) AND PG_UNHOLDFREE \<noteq> 0"
    "unmanaged m s \<or> \<not> is_mapped s m"
  shows "\<exists>s'. vm_page_unhold E m s = Inr s' \<and> vm_inv n a s' \<and> vm_page_alloc_check m s' = Inr () \<and> frees s' m = frees s m + 1"
proof -
  let ?s = "upd_pg m (\<lambda>p. p\<lparr>hold_count := hold_count p - 1\<rparr>) s"
  have "vm_inv n a ?s" by (rule vm_inv_upd_flags [OF inv m(1)]) (use not_marker_flags [OF m(1)] in simp_all)
  moreover have "freeable ?s m"
  proof -
    have "is_mapped ?s = is_mapped s" by (simp add: upd_pg_def)
    then show ?thesis using m i by (simp add: freeable_def marker_def fictitious_def unmanaged_def page_idle_def Let_def)
  qed
  ultimately obtain s' where "vm_page_free_toq E m ?s = Inr s'" "vm_inv n a s'" "vm_page_alloc_check m s' = Inr ()"
    "frees s' m = frees s m + 1"
    using free_toq_ok [OF R, of n ?s m] i(2) by auto
  then show ?thesis using i by (simp add: vm_page_unhold_def)
qed

subsection \<open>Allocation\<close>

lemma vm_inv_upd_off:
  assumes inv: "vm_inv n a s" and m: "\<not> marker s m" and q: "queue (pages s m) = 255"
    and f: "queue (f (pages s m)) = 255" "pg_flags (f (pages s m)) AND PG_MARKER = 0"
      "pg_flags (f (pages s m)) AND PG_FICTITIOUS = 0" "pg_object (f (pages s m)) = pg_object (pages s m)"
      "pg_object (pages s m) = None \<or> pindex (f (pages s m)) = pindex (pages s m)"
  shows "vm_inv n a (upd_pg m f s)"
proof -
  have wf: "vm_wf n s" "obj_wf a s" using inv by (simp_all add: vm_inv_def)
  have "page_ok n (upd_pg m f s) m"
    using vm_wfD(1) [OF wf(1) m] f by (simp add: page_ok_def fictitious_def)
  then have "vm_wf n (upd_pg m f s)" by (intro vm_wf_update [OF wf(1) m, where p = "f (pages s m)"]) (simp_all add: f q)
  moreover have "obj_ok a (upd_pg m f s) o'" for o'
  proof (rule obj_ok_transfer)
    show "obj_ok a s o'" using wf(2) by (simp add: obj_wf_def)
  qed (use f in auto)
  ultimately show ?thesis by (simp add: vm_inv_def obj_wf_def)
qed

lemma alloc_flags:
  fixes w :: "16 word"
  shows "(((if b then PG_ZERO else 0) AND w) OR (if c then PG_NODUMP else 0)) AND PG_MARKER = 0"
    "(((if b then PG_ZERO else 0) AND w) OR (if c then PG_NODUMP else 0)) AND PG_FICTITIOUS = 0"
    "(((if b then PG_ZERO else 0) AND w) OR (if c then PG_NODUMP else 0)) AND PG_UNHOLDFREE = 0"
proof -
  have "(PG_ZERO AND w) AND PG_MARKER = w AND (PG_ZERO AND PG_MARKER)"
    "(PG_ZERO AND w) AND PG_FICTITIOUS = w AND (PG_ZERO AND PG_FICTITIOUS)"
    "(PG_ZERO AND w) AND PG_UNHOLDFREE = w AND (PG_ZERO AND PG_UNHOLDFREE)" by (simp_all add: and.commute and.left_commute)
  moreover have "PG_ZERO AND PG_MARKER = 0" "PG_ZERO AND PG_FICTITIOUS = 0" "PG_ZERO AND PG_UNHOLDFREE = 0"
    "PG_NODUMP AND PG_MARKER = 0" "PG_NODUMP AND PG_FICTITIOUS = 0" "PG_NODUMP AND PG_UNHOLDFREE = 0"
    by (simp_all add: PG_ZERO_def PG_MARKER_def PG_FICTITIOUS_def PG_UNHOLDFREE_def PG_NODUMP_def)
  ultimately show "(((if b then PG_ZERO else 0) AND w) OR (if c then PG_NODUMP else 0)) AND PG_MARKER = 0"
    "(((if b then PG_ZERO else 0) AND w) OR (if c then PG_NODUMP else 0)) AND PG_FICTITIOUS = 0"
    "(((if b then PG_ZERO else 0) AND w) OR (if c then PG_NODUMP else 0)) AND PG_UNHOLDFREE = 0"
    by (simp_all add: word_ao_dist)
qed

lemma free_toq_off:
  assumes "vm_page_free_toq E m s = Inr s'" "queue (pages s m) = 255" "pg_object (pages s m) = None"
  shows "v_wire_count s' = v_wire_count s" "rtree s' = rtree s"
proof -
  have [simp]: "v_wire_count (upd_pg x f t) = v_wire_count t" "v_wire_count (vm_page_free_wakeup E t) = v_wire_count t"
    "v_wire_count (vm_page_free_phys E x t) = v_wire_count t" "rtree (vm_page_free_wakeup E t) = rtree t"
    "rtree (vm_page_free_phys E x t) = rtree t" "v_wire_count (vm_call c t) = v_wire_count t" "rtree (vm_call c t) = rtree t" for x f t c
    by (simp_all add: upd_pg_def vm_page_free_wakeup_def vm_page_free_phys_def adj_free_def vm_call_def Let_def)
  show "v_wire_count s' = v_wire_count s" "rtree s' = rtree s"
    using assms by (auto simp: vm_page_free_toq_def vm_page_free_prep_def vm_page_remove_def Let_def split: if_splits)
qed

text \<open>A page of the free list, as vm_page_free leaves it.\<close>

definition allocatable :: "'r vm \<Rightarrow> pg \<Rightarrow> bool" where
  "allocatable s m \<longleftrightarrow> \<not> marker s m \<and> \<not> fictitious s m \<and> vm_page_alloc_check m s = Inr ()"

lemma alloc_checkD:
  assumes "vm_page_alloc_check m s = Inr ()"
  shows "pg_object (pages s m) = None" "queue (pages s m) = 255" "wire_count (pages s m) = 0"
    "hold_count (pages s m) = 0" "\<not> vm_page_busied (busy_lock (pages s m))" "dirty (pages s m) = 0"
    "memattr_default s m" "valid (pages s m) = 0"
  using assms by (auto simp: vm_page_alloc_check_def Let_def rbind_eq_Inr)

text \<open>A request that is consistent, for an object.\<close>

definition obj_request :: "u_int \<Rightarrow> bool" where
  "obj_request req \<longleftrightarrow> \<not> has_flag req VM_ALLOC_NOOBJ \<and> \<not> has_flag req VM_ALLOC_WAITOK \<and> \<not> has_flag req VM_ALLOC_IFCACHED \<and>
     req AND (VM_ALLOC_NOBUSY OR VM_ALLOC_SBUSY) \<noteq> VM_ALLOC_NOBUSY OR VM_ALLOC_SBUSY"

definition alloc_result :: "u_int \<Rightarrow> obj \<Rightarrow> u_long \<Rightarrow> vm_page \<Rightarrow> bool" where
  "alloc_result req ob pi p \<longleftrightarrow> pg_object p = Some ob \<and> pindex p = pi \<and> queue p = PQ_NONE \<and> valid p = 0 \<and> dirty p = 0 \<and>
     act_count p = 0 \<and> hold_count p = 0 \<and> pg_flags p AND PG_MARKER = 0 \<and> pg_flags p AND PG_FICTITIOUS = 0 \<and>
     wire_count p = (if has_flag req VM_ALLOC_WIRED then 1 else 0) \<and>
     busy_lock p = (if has_flag req VM_ALLOC_SBUSY then VPB_SHARERS_WORD 1
       else if has_flag req VM_ALLOC_NOBUSY then VPB_UNBUSIED else VPB_SINGLE_EXCLUSIVER)"

lemma has_flag_or: "has_flag x (f OR g) \<longleftrightarrow> has_flag x f \<or> has_flag x g"
proof -
  have "a OR b = 0 \<longleftrightarrow> a = 0 \<and> b = 0" for a b :: u_int by (auto simp: bit_eq_iff bit_simps)
  moreover have "x AND (f OR g) = (x AND f) OR (x AND g)" by (rule bit_eqI) (auto simp: bit_simps)
  ultimately show ?thesis by (simp add: has_flag_def)
qed

lemma vm_same_memattr: "vm_same s t \<Longrightarrow> vm_same s (if b then t\<lparr>v_wire_count := k\<rparr> else t)" by simp

lemma alloc_ok:
  assumes R: "radix_ok (radix_ops E) a" and inv: "vm_inv n a s" and m: "allocatable s m" and req: "obj_request req"
    and free: "a (rtree s ob) pi = None" and mp: "mpred_ok s ob pi mpred"
    and ok: "may_alloc E (req_class_of E req) fc"
  shows "\<exists>s' r. vm_page_alloc_after E (Some ob) pi req mpred ((fc, Some m) # rest) s = Inr (s', r) \<and> vm_inv n a s' \<and>
    (\<forall>x. x \<noteq> m \<longrightarrow> pages s' x = pages s x) \<and>
    (if r_insert (radix_ops E) pi m (rtree s ob) = None
     then r = None \<and> v_wire_count s' = v_wire_count s \<and> a (rtree s' ob) = a (rtree s ob) \<and>
       vm_page_alloc_check m s' = Inr () \<and> frees s' m = frees s m + 1
     else r = Some m \<and> alloc_result req ob pi (pages s' m) \<and> a (rtree s' ob) = (a (rtree s ob))(pi := Some m))"
proof -
  have mk: "\<not> marker s m" and chk: "vm_page_alloc_check m s = Inr ()" using m by (simp_all add: allocatable_def)
  note C = alloc_checkD [OF chk]
  let ?s1 = "take_page E m (s\<lparr>v_free_count := fc\<rparr>)"
  have s1: "vm_same s ?s1" by simp
  have inv1: "vm_inv n a ?s1" and p1: "pages ?s1 = pages s" and q1: "pq_same s ?s1" and o1: "obj_same s ?s1"
    using vm_sameD [OF s1] inv by blast+
  have mem1: "memattr_default ?s1 = memattr_default s" "v_wire_count ?s1 = v_wire_count s" "rtree ?s1 = rtree s" "memq ?s1 = memq s"
    by (simp_all add: take_page_def adj_free_def vm_call_def Let_def)
  have fr1: "frees ?s1 m = frees s m" by (simp add: take_page_def adj_free_def vm_call_def Let_def frees_def)
  have chk1: "vm_page_alloc_check m ?s1 = Inr ()" using chk by (simp add: vm_page_alloc_check_def p1 mem1(1) Let_def)
  let ?f = "alloc_page (Some ob) req ?s1"
  let ?s2 = "upd_pg m ?f ?s1"
  let ?s3 = "if has_flag req VM_ALLOC_WIRED then ?s2\<lparr>v_wire_count := v_wire_count ?s2 + 1\<rparr> else ?s2"
  have fp: "pg_flags (?f p) AND PG_MARKER = 0" "pg_flags (?f p) AND PG_FICTITIOUS = 0" "pg_flags (?f p) AND PG_UNHOLDFREE = 0"
    "queue (?f p) = queue p" "pg_object (?f p) = pg_object p" "valid (?f p) = valid p" "dirty (?f p) = dirty p"
    "hold_count (?f p) = hold_count p" "act_count (?f p) = 0" "pindex (?f p) = pindex p" for p
    by (simp_all add: alloc_page_def alloc_flags)
  have inv2: "vm_inv n a ?s2"
    by (rule vm_inv_upd_off [OF inv1]) (use mk C fp in \<open>simp_all add: marker_def p1\<close>)
  have s3: "vm_same ?s2 ?s3" by simp
  have inv3: "vm_inv n a ?s3" by (rule vm_sameD(4) [OF s3 inv2])
  have p3: "pages ?s3 = (pages s)(m := ?f (pages s m))" using vm_sameD(3) [OF s3] by (simp add: p1)
  have r3: "rtree ?s3 = rtree s" "memq ?s3 = memq s" using s3 by (simp_all add: vm_same_def mem1)
  have w3: "v_wire_count ?s3 = v_wire_count s + (if has_flag req VM_ALLOC_WIRED then 1 else 0)"
    by (simp add: upd_pg_def mem1)
  have md3: "memattr_default ?s3 = memattr_default s" by (simp add: upd_pg_def mem1)
  have fr3: "frees ?s3 m = frees s m" using fr1 by (simp add: frees_def upd_pg_def)
  have mp3: "mpred_ok ?s3 ob pi mpred"
  proof -
    have "mpred_ok ?s3 ob pi mpred = mpred_ok s ob pi mpred"
      by (rule mpred_ok_cong) (use r3 p3 fp in auto)
    then show ?thesis using mp by simp
  qed
  have wf3: "obj_wf a ?s3" "vm_wf n ?s3" using inv3 by (simp_all add: vm_inv_def)
  have o3: "pg_object (pages ?s3 m) = None" using C(1) by (simp add: p3 fp)
  have free3: "a (rtree ?s3 ob) pi = None" using free by (simp add: r3)
  obtain s4 where s4: "vm_page_insert_after (radix_ops E) m ob pi mpred ?s3 = Inr (s4, r_insert (radix_ops E) pi m (rtree s ob) = None)"
    "obj_wf a s4" "pq_same ?s3 s4"
    "if r_insert (radix_ops E) pi m (rtree s ob) = None
     then s4 = upd_pg m (\<lambda>p. p\<lparr>pg_object := None, pindex := 0\<rparr>) ?s3 else page_inserted a m ob pi ?s3 s4"
    using insert_after_ok [OF R wf3(1) o3 free3 mp3] unfolding r3 by blast
  have inv4: "vm_inv n a s4" using s4(2) vm_wf_pq_same [OF wf3(2) s4(3)] by (simp add: vm_inv_def)
  have pre: "(case mpred of None \<Rightarrow> Inr () | Some p \<Rightarrow> kassert (pindex (pages s p) < pi) msg) = Inr ()" for msg
    using mp by (auto simp: mpred_ok_def split: option.splits)
  note R0 = req [unfolded obj_request_def]
  have run: "vm_page_alloc_after E (Some ob) pi req mpred ((fc, Some m) # rest) s =
    (if r_insert (radix_ops E) pi m (rtree s ob) = None then
       let s = pagedaemon_wakeup E s4;
           s = (if has_flag req VM_ALLOC_WIRED
                then upd_pg m (\<lambda>p. p\<lparr>wire_count := 0\<rparr>) (s\<lparr>v_wire_count := v_wire_count s - 1\<rparr>) else s) in
       rbind (kassert (pg_object (pages s m) = None) ''page has object'') (\<lambda>_.
       rbind (vm_page_free_toq E m
           (upd_pg m (\<lambda>p. p\<lparr>oflags := VPO_UNMANAGED, busy_lock := VPB_UNBUSIED\<rparr>) s)) (\<lambda>s.
       Inr (call_if (has_flag req VM_ALLOC_WAITFAIL) RadixWait s, None)))
     else
       let s = (if \<not> obj_memattr_default s4 ob \<and> \<not> obj_fictitious s4 ob
                then (vm_call (PmapSetAttr m ob) s4)\<lparr>memattr_default := (memattr_default s4)(m := False)\<rparr>
                else s4) in
       Inr (if vm_paging_needed E (v_free_count ?s1) then pagedaemon_wakeup E s else s, Some m))"
    using R0 unfolding vm_page_alloc_after_def Let_def
    by (simp add: pre ok chk1 s4(1) [unfolded Let_def] split del: if_split cong: if_cong)
  show ?thesis
  proof (cases "r_insert (radix_ops E) pi m (rtree s ob)")
    case None
    have s4': "s4 = upd_pg m (\<lambda>p. p\<lparr>pg_object := None, pindex := 0\<rparr>) ?s3" using s4(4) None by simp
    let ?t = "pagedaemon_wakeup E s4"
    have t: "vm_same s4 ?t" by simp
    have inv_t: "vm_inv n a ?t" and p_t: "pages ?t = pages s4" using vm_sameD [OF t] inv4 by blast+
    have w_t: "v_wire_count ?t = v_wire_count ?s3" "memattr_default ?t = memattr_default s" "rtree ?t = rtree s"
      "frees ?t m = frees s m"
      using r3 md3 fr3 by (simp_all add: pagedaemon_wakeup_def vm_call_def s4' upd_pg_def frees_def)
    define u where "u = (if has_flag req VM_ALLOC_WIRED
                then upd_pg m (\<lambda>p. p\<lparr>wire_count := 0\<rparr>) (?t\<lparr>v_wire_count := v_wire_count ?t - 1\<rparr>) else ?t)"
    let ?g = "\<lambda>p. (if has_flag req VM_ALLOC_WIRED then p\<lparr>wire_count := 0\<rparr> else p)"
    let ?v = "upd_pg m (\<lambda>p. p\<lparr>oflags := VPO_UNMANAGED, busy_lock := VPB_UNBUSIED\<rparr>) u"
    have pu: "pages u = (pages s4)(m := ?g (pages s4 m))" by (simp add: u_def p_t)
    have p4: "pages s4 m = (?f (pages s m))\<lparr>pg_object := None, pindex := 0\<rparr>" by (simp add: s4' p3)
    have mk4: "\<not> marker s4 m" using fp by (simp add: marker_def p4)
    have inv_u: "vm_inv n a u"
    proof (cases "has_flag req VM_ALLOC_WIRED")
      case True
      have "vm_inv n a (?t\<lparr>v_wire_count := v_wire_count ?t - 1\<rparr>)"
        by (rule vm_sameD(4) [OF _ inv_t]) simp
      then show ?thesis unfolding u_def using True
        by (simp only: if_True) (rule vm_inv_upd_off, use fp C mk4 in \<open>simp_all add: p_t p4 marker_def\<close>)
    qed (simp add: u_def inv_t)
    have inv_v: "vm_inv n a ?v"
      by (rule vm_inv_upd_off [OF inv_u]) (use fp C mk4 in \<open>auto simp: pu p4 marker_def\<close>)
    have pv: "pages ?v m = (?g (pages s4 m))\<lparr>oflags := VPO_UNMANAGED, busy_lock := VPB_UNBUSIED\<rparr>" by (simp add: pu)
    have wc: "wire_count (?g (pages s4 m)) = 0" using C(3) by (simp add: p4 alloc_page_def)
    have fields: "pg_flags (pages ?v m) = pg_flags (?f (pages s m))" "hold_count (pages ?v m) = 0" "pg_object (pages ?v m) = None"
      "queue (pages ?v m) = 255"
      unfolding pv p4 using C fp by simp_all
    have fv: "freeable ?v m"
      unfolding freeable_def marker_def fictitious_def unmanaged_def pv
      using fp wc by (simp add: p4 VPO_UNMANAGED_def vm_page_busied_def)
    have hv: "hold_count (pages ?v m) = 0" by (rule fields)
    obtain w where w: "vm_page_free_toq E m ?v = Inr w" "vm_inv n a w" "\<forall>x. x \<noteq> m \<longrightarrow> pages w x = pages ?v x"
      "vm_page_alloc_check m w = Inr ()" "frees w m = frees ?v m + 1"
      using free_toq_ok [OF R inv_v fv] hv by auto
    have off: "v_wire_count w = v_wire_count ?v" "rtree w = rtree ?v"
      by (rule free_toq_off [OF w(1) fields(4,3)])+
    have uw: "v_wire_count u = v_wire_count s" "rtree u = rtree s" "frees u m = frees s m"
      using w_t w3 by (simp_all add: u_def upd_pg_def frees_def)
    have ou: "pg_object (pages u m) = None" by (simp add: pu p4)
    let ?w = "call_if (has_flag req VM_ALLOC_WAITFAIL) RadixWait w"
    have sw: "vm_same w ?w" by simp
    have res: "vm_page_alloc_after E (Some ob) pi req mpred ((fc, Some m) # rest) s = Inr (?w, None)"
      unfolding run Let_def u_def [symmetric] using None by (simp add: ou w(1))
    have fw: "vm_inv n a ?w" "pages ?w = pages w" "v_wire_count ?w = v_wire_count s" "rtree ?w = rtree s"
      "memattr_default ?w = memattr_default w"
      using vm_sameD [OF sw] w off uw by (simp_all add: call_if_def vm_call_def upd_pg_def)
    have fr: "frees ?w m = frees s m + 1" using w(5) uw(3) by simp
    have chk: "vm_page_alloc_check m ?w = Inr ()" using w(4) by (simp add: vm_page_alloc_check_def fw Let_def)
    have oth: "\<forall>x. x \<noteq> m \<longrightarrow> pages ?w x = pages s x" using w(3) by (simp add: fw(2) pu s4' p3)
    show ?thesis
      by (rule exI [of _ ?w], rule exI [of _ None]) (use None res fw fr chk oth in simp)
  next
    case (Some t)
    have ins: "page_inserted a m ob pi ?s3 s4" using s4(4) Some by simp
    define v where "v = (if \<not> obj_memattr_default s4 ob \<and> \<not> obj_fictitious s4 ob
                then (vm_call (PmapSetAttr m ob) s4)\<lparr>memattr_default := (memattr_default s4)(m := False)\<rparr>
                else s4)"
    define w where "w = (if vm_paging_needed E (v_free_count ?s1) then pagedaemon_wakeup E v else v)"
    have vw: "vm_same s4 w" by (simp add: v_def w_def)
    have res: "vm_page_alloc_after E (Some ob) pi req mpred ((fc, Some m) # rest) s = Inr (w, Some m)"
      unfolding run Let_def v_def [symmetric] using Some by (simp add: w_def)
    have pw: "pages w = (pages s)(m := (?f (pages s m))\<lparr>pg_object := Some ob, pindex := pi\<rparr>)" "rtree w = rtree s4"
      using vm_sameD(3) [OF vw] ins vw p3 by (simp_all add: page_inserted_def vm_same_def)
    have rw: "a (rtree w ob) = (a (rtree s ob))(pi := Some m)"
      using ins r3 by (simp add: pw(2) page_inserted_def)
    have noobj: "\<not> has_flag req VM_ALLOC_NOOBJ" using R0 by simp
    have al: "alloc_result req ob pi (pages w m)"
      using C noobj by (simp add: alloc_result_def pw(1) alloc_page_def alloc_flags has_flag_or)
    have "vm_inv n a w" by (rule vm_sameD(4) [OF vw inv4])
    then show ?thesis
      by (intro exI [of _ w] exI [of _ "Some m"]) (use Some res rw al pw(1) in simp)
  qed
qed

subsection \<open>The queue operations do not touch the objects\<close>

lemma obj_same_left [simp]:
  "obj_same s (t\<lparr>v_wire_count := k\<rparr>) = obj_same s t"
  by (simp add: obj_same_def)

lemma obj_same_dequeue_locked: "vm_page_dequeue_locked m s = Inr s' \<Longrightarrow> obj_same s s'"
  by (auto simp: vm_page_dequeue_locked_def obj_same_upd_pg split: prod.splits if_splits)

lemma obj_same_remque: "vm_page_remque m s = Inr s' \<Longrightarrow> obj_same s s'"
  by (auto simp: vm_page_remque_def vm_page_dequeue_def split: if_splits dest: obj_same_dequeue_locked)

lemma obj_same_enqueue: "vm_page_enqueue q m s = Inr s' \<Longrightarrow> obj_same s s'"
  by (auto simp: vm_page_enqueue_def Let_def obj_same_upd_pg)

lemma obj_same_raise_act: "obj_same s (upd_pg m raise_act s)"
  by (rule obj_same_upd_pg) (simp_all add: raise_act_def)

lemma obj_same_activate: "vm_page_activate now m s = Inr s' \<Longrightarrow> obj_same s s'"
proof -
  have "obj_same s t" if "obj_same (upd_pg m raise_act s) u"
    "obj_same (upd_pg m (\<lambda>p. p\<lparr>timestamp_sec := fst now, timestamp_nsec := snd now\<rparr>) u) t" for t u
  proof -
    have "obj_same u (upd_pg m (\<lambda>p. p\<lparr>timestamp_sec := fst now, timestamp_nsec := snd now\<rparr>) u)"
      by (rule obj_same_upd_pg) simp_all
    then show ?thesis
      by (rule obj_same_trans [OF obj_same_raise_act obj_same_trans [OF that(1) obj_same_trans [OF _ that(2)]]])
  qed
  then show "vm_page_activate now m s = Inr s' \<Longrightarrow> obj_same s s'"
    by (auto simp: vm_page_activate_def obj_same_raise_act split: if_splits dest!: obj_same_remque obj_same_enqueue)
qed

lemma obj_same_deactivate: "vm_page_deactivate' noreuse m s = Inr s' \<Longrightarrow> obj_same s s'"
  by (auto simp: vm_page_deactivate'_def Let_def obj_same_upd_pg split: if_splits
      dest!: obj_same_remque obj_same_dequeue_locked)

lemma obj_same_launder: "vm_page_launder m s = Inr s' \<Longrightarrow> obj_same s s'"
  by (auto simp: vm_page_launder_def split: if_splits dest!: obj_same_remque obj_same_enqueue intro: obj_same_trans)

lemma obj_same_wire: "vm_page_wire m s = Inr s' \<Longrightarrow> obj_same s s'"
  by (auto simp: vm_page_wire_def obj_same_upd_pg Let_def split: if_splits dest!: obj_same_remque)

lemma obj_same_unwire: "vm_page_unwire q m s = Inr (s', b) \<Longrightarrow> obj_same s s'"
proof -
  have "obj_same s t" if "obj_same ((upd_pg m (\<lambda>p. p\<lparr>wire_count := wire_count p - 1\<rparr>) s)\<lparr>v_wire_count := k\<rparr>) t" for t k
    using that by (rule obj_same_trans [rotated]) (simp add: obj_same_upd_pg)
  then show "vm_page_unwire q m s = Inr (s', b) \<Longrightarrow> obj_same s s'"
    by (auto simp: vm_page_unwire_def Let_def obj_same_upd_pg split: if_splits dest!: obj_same_enqueue)
qed

end
