(* ===== verification/VmSteps.thy ===== *)
theory VmSteps
  imports VmFreeLaws
begin

text \<open>
  Histories of the page operations: as long as the callers keep their side of each operation, no
  operation faults and the invariants of the queues and of the objects hold after every one.
\<close>


lemma requeue_ok:
  assumes wf: "vm_wf n s" and m: "\<not> marker s m" and q: "queue (pages s m) \<noteq> PQ_NONE"
  shows "\<exists>s'. vm_page_requeue m s = Inr s' \<and> vm_wf n s' \<and> pages s' = pages s \<and> obj_same s s' \<and>
    moved_to_tail s m (queue (pages s m)) s'"
proof -
  let ?q = "queue (pages s m)" and ?d = "home s m (queue (pages s m))"
  let ?l = "pq_pl s ?d ?q"
  have q3: "?q < 3" using vm_wfD(1) [OF wf m] q by (simp add: page_ok_def)
  have mem: "m \<in> set ?l" using queued_elem [OF wf m q3] by simp
  have lo: "list_ok s ?d ?q" by (rule vm_wfD(2) [OF wf q3])
  let ?s' = "set_pq ?d ?q (remove1 m ?l @ [m]) s"
  have "vm_page_requeue m s = Inr ?s'"
    using q q3 mem by (cases "?q = 2") (simp_all add: vm_page_requeue_def vm_page_pagequeue_def home_def
        tailq_remove_def leD)
  moreover have "vm_wf n ?s'"
  proof (rule vm_wf_change_list [OF wf m q3 refl, where p = "pages s m" and l = "remove1 m ?l @ [m]" and k = 0])
    show "page_ok n ?s' m" using vm_wfD(1) [OF wf m] by (simp add: page_ok_def fictitious_def unmanaged_def)
    have "length (filter (\<lambda>m. \<not> marker s m) (remove1 m ?l @ [m])) = length (filter (\<lambda>m. \<not> marker s m) ?l)"
      using length_filter_remove1 [of ?l m "\<lambda>m. \<not> marker s m"] lo mem m by (simp add: list_ok_def)
    then show "int (length (filter (\<lambda>m. \<not> marker s m) (remove1 m ?l @ [m]))) = pq_cnt s ?d ?q + 0"
      using lo by (simp add: list_ok_def queued_def)
    show "pq_cnt ?s' = (pq_cnt s)(?d := (pq_cnt s ?d)(?q := pq_cnt s ?d ?q + 0))" by simp
  qed (use lo mem not_marker_flags [OF m] in \<open>auto simp: list_ok_def\<close>)
  moreover have "moved_to_tail s m ?q ?s'"
    unfolding moved_to_tail_def using remove1_other [OF wf m, symmetric] by auto
  ultimately show ?thesis by simp
qed

subsection \<open>Histories\<close>

datatype vm_op =
    Activate "int \<times> int" pg | Deactivate pg | Deactivate_noreuse pg | Launder pg | Requeue pg
  | Wire pg | Unwire u_char pg | Insert pg obj u_long | Remove pg | Rename pg obj u_long | Replace pg obj u_long
  | Hold pg | Unhold pg | Free pg | Try_to_free pg | Advise "int \<times> int" pg madvice | Dirty pg
  | Alloc obj u_long u_int u_int pg

fun vm_exec :: "'r vm_env \<Rightarrow> vm_op \<Rightarrow> 'r vm \<Rightarrow> fault + 'r vm" where
  "vm_exec E (Activate now m) s = vm_page_activate now m s"
| "vm_exec E (Deactivate m) s = vm_page_deactivate m s"
| "vm_exec E (Deactivate_noreuse m) s = vm_page_deactivate_noreuse m s"
| "vm_exec E (Launder m) s = vm_page_launder m s"
| "vm_exec E (Requeue m) s = vm_page_requeue m s"
| "vm_exec E (Wire m) s = vm_page_wire m s"
| "vm_exec E (Unwire q m) s = rbind (vm_page_unwire q m s) (\<lambda>(s, _). Inr s)"
| "vm_exec E (Insert m ob pi) s = rbind (vm_page_insert (radix_ops E) m ob pi s) (\<lambda>(s, _). Inr s)"
| "vm_exec E (Remove m) s = vm_page_remove (radix_ops E) m s"
| "vm_exec E (Rename m ob pi) s = rbind (vm_page_rename (radix_ops E) m ob pi s) (\<lambda>(s, _). Inr s)"
| "vm_exec E (Replace m ob pi) s = rbind (vm_page_replace (radix_ops E) m ob pi s) (\<lambda>(s, _). Inr s)"
| "vm_exec E (Hold m) s = Inr (vm_page_hold m s)"
| "vm_exec E (Unhold m) s = vm_page_unhold E m s"
| "vm_exec E (Free m) s = vm_page_free E m s"
| "vm_exec E (Try_to_free m) s = rbind (vm_page_try_to_free E m s) (\<lambda>(s, _). Inr s)"
| "vm_exec E (Advise now m adv) s = vm_page_advise now m adv s"
| "vm_exec E (Dirty m) s = vm_page_dirty m s"
| "vm_exec E (Alloc ob pi req free m) s =
     rbind (vm_page_alloc E (Some ob) pi req [(free, Some m)] s) (\<lambda>(s, _). Inr s)"

text \<open>What the callers of the operations see to.\<close>

definition trie :: "'r vm_env \<Rightarrow> 'r \<Rightarrow> u_long \<Rightarrow> pg option" where
  "trie E t k = r_lookup (radix_ops E) k t"

fun vm_pre :: "'r vm_env \<Rightarrow> vm_op \<Rightarrow> 'r vm \<Rightarrow> bool" where
  "vm_pre E (Activate now m) s \<longleftrightarrow> \<not> marker s m"
| "vm_pre E (Deactivate m) s \<longleftrightarrow> \<not> marker s m"
| "vm_pre E (Deactivate_noreuse m) s \<longleftrightarrow> \<not> marker s m"
| "vm_pre E (Launder m) s \<longleftrightarrow> \<not> marker s m"
| "vm_pre E (Requeue m) s \<longleftrightarrow> \<not> marker s m \<and> queue (pages s m) \<noteq> PQ_NONE"
| "vm_pre E (Wire m) s \<longleftrightarrow> \<not> marker s m \<and> \<not> fictitious s m \<and> wire_count (pages s m) \<noteq> - 1"
| "vm_pre E (Unwire q m) s \<longleftrightarrow> \<not> marker s m \<and> \<not> fictitious s m \<and> wire_count (pages s m) \<noteq> 0 \<and>
     (q < PQ_COUNT \<or> q = PQ_NONE)"
| "vm_pre E (Insert m ob pi) s \<longleftrightarrow> pg_object (pages s m) = None \<and> vm_page_lookup (radix_ops E) ob pi s = None"
| "vm_pre E (Remove m) s \<longleftrightarrow> True"
| "vm_pre E (Rename m ob pi) s \<longleftrightarrow> pg_object (pages s m) \<noteq> None \<and> pg_object (pages s m) \<noteq> Some ob \<and>
     valid (pages s m) = VM_PAGE_BITS_ALL \<and> vm_page_lookup (radix_ops E) ob pi s = None"
| "vm_pre E (Replace m ob pi) s \<longleftrightarrow> pg_object (pages s m) = None \<and> queue (pages s m) = PQ_NONE \<and>
     (case vm_page_lookup (radix_ops E) ob pi s of None \<Rightarrow> False
      | Some old \<Rightarrow> queue (pages s old) = PQ_NONE \<and> vm_page_xbusied (busy_lock (pages s old)))"
| "vm_pre E (Hold m) s \<longleftrightarrow> \<not> marker s m"
| "vm_pre E (Unhold m) s \<longleftrightarrow> \<not> marker s m \<and> hold_count (pages s m) \<ge> 1 \<and>
     (hold_count (pages s m) = 1 \<and> pg_flags (pages s m) AND PG_UNHOLDFREE \<noteq> 0 \<longrightarrow>
        \<not> fictitious s m \<and> page_idle s m \<and> (unmanaged m s \<or> \<not> is_mapped s m))"
| "vm_pre E (Free m) s \<longleftrightarrow> freeable s m"
| "vm_pre E (Try_to_free m) s \<longleftrightarrow> \<not> marker s m \<and> \<not> fictitious s m \<and>
     (case pg_object (pages s m) of None \<Rightarrow> \<not> is_mapped s m
      | Some ob \<Rightarrow> obj_ref_count s ob = 0 \<longrightarrow> \<not> is_mapped s m)"
| "vm_pre E (Advise now m adv) s \<longleftrightarrow> \<not> marker s m \<and> (is_modified s m \<longrightarrow> valid (pages s m) = VM_PAGE_BITS_ALL)"
| "vm_pre E (Dirty m) s \<longleftrightarrow> \<not> marker s m \<and> valid (pages s m) = VM_PAGE_BITS_ALL"
| "vm_pre E (Alloc ob pi req free m) s \<longleftrightarrow> allocatable s m \<and> obj_request req \<and>
     vm_page_lookup (radix_ops E) ob pi s = None \<and> may_alloc E (req_class_of E req) free"

lemma inv_step:
  assumes "vm_inv n a s" "\<exists>s'. r = Inr s' \<and> vm_wf n s' \<and> P s'" "\<And>s'. r = Inr s' \<Longrightarrow> obj_same s s'"
  shows "\<exists>s'. r = Inr s' \<and> vm_inv n a s'"
  using assms unfolding vm_inv_def by (metis obj_wf_same)

lemma inv_step_obj:
  assumes "vm_inv n a s" "\<exists>s'. r = Inr s' \<and> obj_wf a s' \<and> pq_same s s' \<and> P s'"
  shows "\<exists>s'. r = Inr s' \<and> vm_inv n a s'"
  using assms unfolding vm_inv_def by (metis vm_wf_pq_same)

lemma try_to_free_ok:
  assumes R: "radix_ok (radix_ops E) a" and inv: "vm_inv n a s" and pre: "vm_pre E (Try_to_free m) s"
  shows "\<exists>s' b. vm_page_try_to_free E m s = Inr (s', b) \<and> vm_inv n a s'"
proof -
  let ?p = "pages s m"
  show ?thesis
  proof (cases "dirty ?p \<noteq> 0 \<or> hold_count ?p \<noteq> 0 \<or> wire_count ?p \<noteq> 0 \<or> unmanaged m s \<or> vm_page_busied (busy_lock ?p)")
    case True
    then show ?thesis using inv by (auto simp: vm_page_try_to_free_def Let_def)
  next
    case False
    have mk: "\<not> marker s m" using pre by simp
    define t where "t = (case pg_object ?p of None \<Rightarrow> s
                 | Some ob \<Rightarrow>
                     if obj_ref_count s ob \<noteq> 0 then pmap_remove_all E m s else s)"
    have step: "vm_page_try_to_free E m s = (if dirty (pages t m) \<noteq> 0 then Inr (t, False)
        else rbind (vm_page_free E m t) (\<lambda>s. Inr (s, True)))"
      using False by (simp add: vm_page_try_to_free_def t_def Let_def)
    have u: "vm_inv n a (upd_pg m (\<lambda>p. p\<lparr>dirty := d\<rparr>) s)" for d
      by (rule vm_inv_upd_flags [OF inv mk]) (use not_marker_flags [OF mk] in simp_all)
    have c: "vm_inv n a (vm_call (PmapRemoveAll m) ((upd_pg m (\<lambda>p. p\<lparr>dirty := d\<rparr>) s)\<lparr>is_mapped := k\<rparr>))" for d k
      by (rule vm_sameD(4) [OF _ u [of d]]) simp
    have inv_t: "vm_inv n a t" using inv c by (auto simp: t_def pmap_remove_all_eq split: option.splits)
    have "freeable t m"
      using False pre
      by (auto simp: t_def pmap_remove_all_eq freeable_def vm_call_def upd_pg_def marker_def fictitious_def unmanaged_def split: option.splits)
    then obtain s' where "vm_page_free E m t = Inr s'" "vm_inv n a s'" using free_ok [OF R inv_t] by blast
    then show ?thesis using inv_t step by (cases "dirty (pages t m) = 0") auto
  qed
qed

lemma inv_layers: "vm_inv n a s \<Longrightarrow> vm_wf n s" "vm_inv n a s \<Longrightarrow> obj_wf a s"
  by (simp_all add: vm_inv_def)

lemma advise_ok:
  assumes inv: "vm_inv n a s" and m: "\<not> marker s m" "is_modified s m \<longrightarrow> valid (pages s m) = VM_PAGE_BITS_ALL"
  shows "\<exists>s'. vm_page_advise now m adv s = Inr s' \<and> vm_inv n a s'"
proof -
  have [simp]: "is_modified (upd_pg x f t) = is_modified t" for x f t by (simp add: upd_pg_def)
  let ?s1 = "if adv = MADV_FREE then upd_pg m vm_page_undirty s else s"
  let ?s2 = "upd_pg m (\<lambda>p. p\<lparr>aflags := aflags p AND NOT PGA_REFERENCED\<rparr>) ?s1"
  have i1: "vm_inv n a ?s1"
    using inv vm_inv_upd_flags [OF inv m(1), of vm_page_undirty] not_marker_flags [OF m(1)] by (simp add: vm_page_undirty_def)
  have mk1: "\<not> marker ?s1 m" using m(1) by (simp add: marker_def vm_page_undirty_def)
  have i2: "vm_inv n a ?s2"
    by (rule vm_inv_upd_flags [OF i1 mk1]) (use not_marker_flags [OF mk1] in simp_all)
  have mk2: "\<not> marker ?s2 m" using mk1 by (simp add: marker_def)
  define r where "r = (if adv \<noteq> MADV_FREE \<and> dirty (pages ?s2 m) = 0 \<and> is_modified ?s2 m then vm_page_dirty m ?s2 else Inr ?s2)"
  obtain t where t: "r = Inr t" "vm_inv n a t" "\<not> marker t m"
  proof (cases "adv \<noteq> MADV_FREE \<and> dirty (pages ?s2 m) = 0 \<and> is_modified ?s2 m")
    case True
    then have v: "valid (pages ?s2 m) = VM_PAGE_BITS_ALL" using m(2) by (auto simp: upd_pg_def)
    let ?t = "upd_pg m (\<lambda>_. (pages ?s2 m)\<lparr>dirty := VM_PAGE_BITS_ALL\<rparr>) ?s2"
    have "r = Inr ?t" unfolding r_def if_P [OF True] using v by (simp add: vm_page_dirty_def vm_page_dirty_KBI_def)
    moreover have "vm_inv n a ?t" by (rule vm_inv_upd_flags [OF i2 mk2]) (use not_marker_flags [OF mk2] in simp_all)
    moreover have "\<not> marker ?t m" using mk2 by (simp add: marker_def)
    ultimately show thesis by (rule that)
  next
    case False
    then have "r = Inr ?s2" unfolding r_def by (rule if_not_P)
    then show thesis by (rule that [OF _ i2 mk2])
  qed
  have fin: "\<exists>s'. (if dirty (pages t m) = 0 then vm_page_deactivate_noreuse m t else vm_page_launder m t) = Inr s' \<and> vm_inv n a s'"
    using inv_step [OF t(2) deactivate_ok [OF inv_layers(1) [OF t(2)] t(3), of True] obj_same_deactivate]
      inv_step [OF t(2) launder_ok [OF inv_layers(1) [OF t(2)] t(3)] obj_same_launder]
    by (cases "dirty (pages t m) = 0") (simp_all add: vm_page_deactivate_noreuse_def)
  show ?thesis
  proof (cases "adv \<noteq> MADV_FREE \<and> adv \<noteq> MADV_DONTNEED")
    case True
    then show ?thesis
      using inv inv_step [OF inv activate_ok [OF inv_layers(1) [OF inv] m(1), of now] obj_same_activate]
      by (cases adv) (simp_all add: vm_page_advise_def)
  next
    case False
    then have "vm_page_advise now m adv s =
      rbind r (\<lambda>s. if dirty (pages s m) = 0 then vm_page_deactivate_noreuse m s else vm_page_launder m s)"
      by (simp only: vm_page_advise_def if_not_P [OF False] if_False Let_def r_def)
    then show ?thesis using fin by (simp add: t(1))
  qed
qed

lemma unhold_ok:
  assumes R: "radix_ok (radix_ops E) a" and inv: "vm_inv n a s" and pre: "vm_pre E (Unhold m) s"
  shows "\<exists>s'. vm_page_unhold E m s = Inr s' \<and> vm_inv n a s'"
proof (cases "hold_count (pages s m) = 1 \<and> pg_flags (pages s m) AND PG_UNHOLDFREE \<noteq> 0")
  case True
  then show ?thesis using unhold_frees [OF R inv, of m] pre by auto
next
  case False
  have mk: "\<not> marker s m" using pre by simp
  have i: "vm_inv n a (upd_pg m (\<lambda>p. p\<lparr>hold_count := hold_count p - 1\<rparr>) s)"
    by (rule vm_inv_upd_flags [OF inv mk]) (use not_marker_flags [OF mk] in simp_all)
  have "hold_count (pages s m) - 1 = 0 \<longleftrightarrow> hold_count (pages s m) = 1" by (simp add: right_minus_eq)
  then show ?thesis using False pre i by (auto simp: vm_page_unhold_def Let_def)
qed

lemma vm_exec_ok:
  assumes R: "radix_ok (radix_ops E) (trie E)" and inv: "vm_inv n (trie E) s" and pre: "vm_pre E op s"
  shows "\<exists>s'. vm_exec E op s = Inr s' \<and> vm_inv n (trie E) s'"
proof -
  note W = inv_layers [OF inv]
  have look: "vm_page_lookup (radix_ops E) ob k s = trie E (rtree s ob) k" for ob k
    by (simp add: vm_page_lookup_def trie_def)
  show ?thesis
  proof (cases op)
    case (Activate now m)
    then show ?thesis using inv_step [OF inv activate_ok [OF W(1)] obj_same_activate] pre by simp
  next
    case (Deactivate m)
    then show ?thesis using inv_step [OF inv deactivate_ok [OF W(1)] obj_same_deactivate] pre
      by (simp add: vm_page_deactivate_def)
  next
    case (Deactivate_noreuse m)
    then show ?thesis using inv_step [OF inv deactivate_ok [OF W(1)] obj_same_deactivate] pre
      by (simp add: vm_page_deactivate_noreuse_def)
  next
    case (Launder m)
    then show ?thesis using inv_step [OF inv launder_ok [OF W(1)] obj_same_launder] pre by simp
  next
    case (Requeue m)
    then show ?thesis using requeue_ok [OF W(1)] pre W(2) by (auto simp: vm_inv_def intro: obj_wf_same)
  next
    case (Wire m)
    then show ?thesis using inv_step [OF inv wire_ok [OF W(1)] obj_same_wire] pre by simp
  next
    case (Unwire q m)
    then obtain s' where "vm_page_unwire q m s = Inr (s', wire_count (pages s m) = 1)" "vm_wf n s'"
      using unwire_ok [OF W(1)] pre by fastforce
    moreover from this(1) have "obj_wf (trie E) s'" by (rule obj_wf_same [OF W(2) obj_same_unwire])
    ultimately show ?thesis using Unwire by (simp add: vm_inv_def)
  next
    case (Insert m ob pi)
    then obtain s' b where "vm_page_insert (radix_ops E) m ob pi s = Inr (s', b)" "obj_wf (trie E) s'" "pq_same s s'"
      using insert_ok [OF R W(2), of m ob pi] pre look by auto
    then show ?thesis using Insert W(1) vm_wf_pq_same by (auto simp: vm_inv_def)
  next
    case (Remove m)
    then show ?thesis using inv_step_obj [OF inv] remove_ok [OF R W(2), of m] by (simp, blast)
  next
    case (Rename m ob pi)
    then obtain o1 where "pg_object (pages s m) = Some o1" "o1 \<noteq> ob" using pre by auto
    then obtain s' b where "vm_page_rename (radix_ops E) m ob pi s = Inr (s', b)" "obj_wf (trie E) s'" "pq_same s s'"
      using rename_ok [OF R W(2), of m o1 ob pi] pre look Rename by auto
    then show ?thesis using Rename W(1) vm_wf_pq_same by (auto simp: vm_inv_def)
  next
    case (Replace m ob pi)
    then obtain old where "trie E (rtree s ob) pi = Some old" "queue (pages s old) = PQ_NONE"
      "vm_page_xbusied (busy_lock (pages s old))" using pre look by (auto split: option.splits)
    then obtain s' b where "vm_page_replace (radix_ops E) m ob pi s = Inr (s', b)" "obj_wf (trie E) s'" "pq_same s s'"
      using replace_ok [OF R W(2), of m ob pi old] pre Replace by auto
    then show ?thesis using Replace W(1) vm_wf_pq_same by (auto simp: vm_inv_def)
  next
    case (Hold m)
    then have mk: "\<not> marker s m" using pre by simp
    have "vm_inv n (trie E) (vm_page_hold m s)"
      unfolding vm_page_hold_def by (rule vm_inv_upd_flags [OF inv mk]) (use not_marker_flags [OF mk] in simp_all)
    then show ?thesis using Hold by simp
  next
    case (Unhold m)
    then show ?thesis using unhold_ok [OF R inv, of m] pre by simp
  next
    case (Free m)
    then show ?thesis using free_ok [OF R inv, of m] pre by auto
  next
    case (Try_to_free m)
    then show ?thesis using try_to_free_ok [OF R inv, of m] pre by auto
  next
    case (Advise now m adv)
    then show ?thesis using advise_ok [OF inv, of m now adv] pre by simp
  next
    case (Dirty m)
    then have mk: "\<not> marker s m" and v: "valid (pages s m) = VM_PAGE_BITS_ALL" using pre by simp_all
    have "vm_inv n (trie E) (upd_pg m (\<lambda>_. (pages s m)\<lparr>dirty := VM_PAGE_BITS_ALL\<rparr>) s)"
      by (rule vm_inv_upd_flags [OF inv mk]) (use not_marker_flags [OF mk] in simp_all)
    then show ?thesis using Dirty v by (simp add: vm_page_dirty_def vm_page_dirty_KBI_def)
  next
    case (Alloc ob pi req fc m)
    then have free: "trie E (rtree s ob) pi = None" using pre look by simp
    have p: "allocatable s m" "obj_request req" "may_alloc E (req_class_of E req) fc" using pre Alloc by simp_all
    obtain s' b where "vm_page_alloc E (Some ob) pi req [(fc, Some m)] s = Inr (s', b)" "vm_inv n (trie E) s'"
      using alloc_ok [OF R inv p(1,2) free mpred_lookup_le [OF R W(2) free] p(3), of "[]"]
      by (auto simp: vm_page_alloc_def)
    then show ?thesis using Alloc by simp
  qed
qed

fun vm_run :: "'r vm_env \<Rightarrow> vm_op list \<Rightarrow> 'r vm \<Rightarrow> fault + 'r vm" where
  "vm_run E [] s = Inr s"
| "vm_run E (op # ops) s = rbind (vm_exec E op s) (vm_run E ops)"

fun vm_pres :: "'r vm_env \<Rightarrow> vm_op list \<Rightarrow> 'r vm \<Rightarrow> bool" where
  "vm_pres E [] s \<longleftrightarrow> True"
| "vm_pres E (op # ops) s \<longleftrightarrow> vm_pre E op s \<and>
     (case vm_exec E op s of Inl _ \<Rightarrow> True | Inr s' \<Rightarrow> vm_pres E ops s')"

lemma vm_run_ok:
  assumes R: "radix_ok (radix_ops E) (trie E)"
  shows "vm_inv n (trie E) s \<Longrightarrow> vm_pres E ops s \<Longrightarrow> \<exists>s'. vm_run E ops s = Inr s' \<and> vm_inv n (trie E) s'"
proof (induction ops arbitrary: s)
  case (Cons op ops)
  then obtain t where "vm_exec E op s = Inr t" "vm_inv n (trie E) t" using vm_exec_ok [OF R, of n s op] by auto
  then show ?case using Cons by simp
qed simp

end
