(* ===== verification/VmDaemon.thy ===== *)
theory VmDaemon
  imports Prelude
begin

text \<open>
  What the page daemon of asgn3/vm_pageout.c decides: the integer square root of the laundry thread,
  the limits that are set at the start, the votes before a process is killed and the choice of the
  process, and the targets of the laundry thread.
\<close>


subsection \<open>The integer square root\<close>

function isqrt_start :: "u_int \<Rightarrow> u_int \<Rightarrow> u_int" where
  "isqrt_start num b = (if b > num then isqrt_start num (drop_bit 2 b) else b)"
  by auto

termination
proof (relation "measure (\<lambda>(num, b). unat b)")
  fix num b :: u_int
  assume "b > num"
  then have "0 < unat b" by (auto simp: word_less_nat_alt)
  then show "((num, drop_bit 2 b), (num, b)) \<in> measure (\<lambda>(num, b). unat b)"
    by (simp add: drop_bit_eq_div unat_div)
qed simp

function isqrt_loop :: "u_int \<Rightarrow> u_int \<Rightarrow> u_int \<Rightarrow> u_int" where
  "isqrt_loop num root b =
     (if b = 0 then root
      else
        let tmp = root + b; root = drop_bit 1 root in
        if num \<ge> tmp then isqrt_loop (num - tmp) (root + b) (drop_bit 2 b)
        else isqrt_loop num root (drop_bit 2 b))"
  by auto

termination
proof (relation "measure (\<lambda>(num, root, b). unat b)")
  have "unat (drop_bit 2 b) < unat b" if "b \<noteq> 0" for b :: u_int
    using that by (simp add: drop_bit_eq_div unat_div unat_gt_0)
  then show "\<And>num root (b::u_int) tmp x. b \<noteq> 0 \<Longrightarrow> tmp = root + b \<Longrightarrow> x = drop_bit 1 root \<Longrightarrow> tmp \<le> num \<Longrightarrow>
      ((num - tmp, x + b, drop_bit 2 b), num, root, b) \<in> measure (\<lambda>(num, root, b). unat b)"
    "\<And>num root (b::u_int) tmp x. b \<noteq> 0 \<Longrightarrow> tmp = root + b \<Longrightarrow> x = drop_bit 1 root \<Longrightarrow> \<not> tmp \<le> num \<Longrightarrow>
      ((num, x, drop_bit 2 b), num, root, b) \<in> measure (\<lambda>(num, root, b). unat b)"
    by simp_all
qed simp

declare isqrt_start.simps [simp del] isqrt_loop.simps [simp del]

text \<open>\<open>NBBY * sizeof(u_int) - 2\<close> is 30.\<close>

definition isqrt :: "u_int \<Rightarrow> u_int" where
  "isqrt num = isqrt_loop num 0 (isqrt_start num (push_bit 30 1))"


subsection \<open>Initial limits\<close>

record limits =
  lim_page_count :: u_int
  lim_free_count :: u_int
  lim_pageout_page_count :: u_int
  lim_interrupt_free_min :: u_int
  lim_free_min :: u_int
  lim_pageout_free_min :: u_int
  lim_free_reserved :: u_int
  lim_free_severe :: u_int
  lim_free_target :: u_int
  lim_inactive_target :: u_int
  lim_wakeup_thresh :: u_int
  lim_update_period :: int
  lim_max_wired :: u_int
  lim_background_launder_target :: u_int

text \<open>\<open>maxbsize\<close> is MAXBSIZE of sys/param.h.\<close>

definition vm_pageout_init :: "u_int \<Rightarrow> limits \<Rightarrow> limits" where
  "vm_pageout_init maxbsize l =
     (let l = l\<lparr>lim_interrupt_free_min := 2\<rparr>;
          l = l\<lparr>lim_pageout_page_count := (if lim_page_count l < 2000 then 8 else lim_pageout_page_count l)\<rparr>;
          l = l\<lparr>lim_free_min := (if lim_page_count l > 1024 then 4 + (lim_page_count l - 1024) div 200 else 4)\<rparr>;
          l = l\<lparr>lim_pageout_free_min := 2 * maxbsize div 4096 + lim_interrupt_free_min l\<rparr>;
          l = l\<lparr>lim_free_reserved := lim_pageout_page_count l + lim_pageout_free_min l + lim_page_count l div 768\<rparr>;
          l = l\<lparr>lim_free_severe := lim_free_min l div 2\<rparr>;
          l = l\<lparr>lim_free_target := 4 * lim_free_min l + lim_free_reserved l\<rparr>;
          l = l\<lparr>lim_free_min := lim_free_min l + lim_free_reserved l\<rparr>;
          l = l\<lparr>lim_free_severe := lim_free_severe l + lim_free_reserved l\<rparr>;
          l = l\<lparr>lim_inactive_target := 3 * lim_free_target l div 2\<rparr>;
          l = l\<lparr>lim_inactive_target := (if lim_inactive_target l > lim_free_count l div 3
                 then lim_free_count l div 3 else lim_inactive_target l)\<rparr>;
          l = l\<lparr>lim_wakeup_thresh := lim_free_min l div 10 * 11\<rparr>;
          l = l\<lparr>lim_update_period := (if lim_update_period l = 0 then 10 else lim_update_period l)\<rparr>;
          l = l\<lparr>lim_max_wired := (if lim_max_wired l = 0 then lim_free_count l div 3 else lim_max_wired l)\<rparr> in
      l\<lparr>lim_background_launder_target := (lim_free_target l - lim_free_min l) div 10\<rparr>)"

subsection \<open>Out of memory\<close>

record oom =
  vmd_oom_seq :: "nat \<Rightarrow> int"
  vmd_oom :: "nat \<Rightarrow> bool"
  vm_pageout_oom_vote :: int
  oom_kills :: nat  \<comment> \<open>calls of vm_pageout_oom\<close>

definition vm_pageout_mightbe_oom :: "int \<Rightarrow> nat \<Rightarrow> nat \<Rightarrow> int \<Rightarrow> int \<Rightarrow> oom \<Rightarrow> oom" where
  "vm_pageout_mightbe_oom oom_seq ndomains d page_shortage starting_page_shortage s =
     (let s = s\<lparr>vmd_oom_seq := (vmd_oom_seq s)(d :=
                if starting_page_shortage \<le> 0 \<or> starting_page_shortage \<noteq> page_shortage then 0
                else vmd_oom_seq s d + 1)\<rparr> in
      if vmd_oom_seq s d < oom_seq then
        if vmd_oom s d
        then s\<lparr>vmd_oom := (vmd_oom s)(d := False), vm_pageout_oom_vote := vm_pageout_oom_vote s - 1\<rparr>
        else s
      else
        let s = s\<lparr>vmd_oom_seq := (vmd_oom_seq s)(d := 0)\<rparr> in
        if vmd_oom s d then s
        else
          let old_vote = vm_pageout_oom_vote s;
              s = s\<lparr>vmd_oom := (vmd_oom s)(d := True), vm_pageout_oom_vote := vm_pageout_oom_vote s + 1\<rparr> in
          if old_vote \<noteq> int ndomains - 1 then s
          else s\<lparr>oom_kills := oom_kills s + 1, vmd_oom := (vmd_oom s)(d := False),
                 vm_pageout_oom_vote := vm_pageout_oom_vote s - 1\<rparr>)"

text \<open>The victim. An entry of the map of a process counts when its object is of a kind whose pages
  can be reclaimed.\<close>

datatype objtype = OBJT_DEFAULT | OBJT_SWAP | OBJT_VNODE | OBJT_PHYS | OBJT_OTHER

record map_entry =
  is_sub_map :: bool
  needs_copy :: bool
  entry_object :: "(objtype \<times> int \<times> int) option"  \<comment> \<open>type, reference count, resident pages\<close>

fun vm_pageout_oom_pagecount :: "map_entry list \<Rightarrow> int" where
  "vm_pageout_oom_pagecount [] = 0"
| "vm_pageout_oom_pagecount (e # es) =
     (if is_sub_map e then 0
      else case entry_object e of None \<Rightarrow> 0
      | Some (ty, refs, resident) \<Rightarrow>
          if needs_copy e \<and> refs \<noteq> 1 then 0
          else case ty of OBJT_OTHER \<Rightarrow> 0 | _ \<Rightarrow> resident) + vm_pageout_oom_pagecount es"

record oom_proc =
  op_normal :: bool     \<comment> \<open>p_state is PRS_NORMAL\<close>
  op_excluded :: bool   \<comment> \<open>one of P_INEXEC, P_PROTECTED, P_SYSTEM, P_WEXIT\<close>
  op_killed :: bool
  op_pid :: int
  op_threads :: "bool list"  \<comment> \<open>in a state that FOREACH_THREAD_IN_PROC accepts\<close>
  op_vmspace :: bool
  op_map_free :: bool   \<comment> \<open>vm_map_trylock_read succeeds\<close>
  op_swap :: int
  op_map :: "map_entry list"

definition oom_candidate :: "int \<Rightarrow> oom_proc \<Rightarrow> bool" where
  "oom_candidate swap_avail p \<longleftrightarrow>
     op_normal p \<and> \<not> op_excluded p \<and> op_pid p \<noteq> 1 \<and> \<not> op_killed p \<and> \<not> (op_pid p < 48 \<and> swap_avail \<noteq> 0) \<and>
     list_all id (op_threads p) \<and> op_vmspace p \<and> op_map_free p"

definition oom_size :: "bool \<Rightarrow> oom_proc \<Rightarrow> int" where
  "oom_size oom_mem p = op_swap p + (if oom_mem then vm_pageout_oom_pagecount (op_map p) else 0)"

fun oom_scan :: "bool \<Rightarrow> int \<Rightarrow> oom_proc option \<Rightarrow> int \<Rightarrow> oom_proc list \<Rightarrow> oom_proc option" where
  "oom_scan oom_mem swap_avail bigproc bigsize [] = bigproc"
| "oom_scan oom_mem swap_avail bigproc bigsize (p # ps) =
     (if oom_candidate swap_avail p \<and> oom_size oom_mem p > bigsize
      then oom_scan oom_mem swap_avail (Some p) (oom_size oom_mem p) ps
      else oom_scan oom_mem swap_avail bigproc bigsize ps)"

text \<open>The process that is killed.\<close>

definition vm_pageout_oom :: "bool \<Rightarrow> int \<Rightarrow> bool \<Rightarrow> oom_proc list \<Rightarrow> fault + oom_proc option" where
  "vm_pageout_oom oom_mem swap_avail panic_on_oom procs =
     (case oom_scan oom_mem swap_avail None 0 procs of
        None \<Rightarrow> Inr None
      | Some p \<Rightarrow> if panic_on_oom then Inl (Panic ''out of swap space'') else Inr (Some p))"

subsection \<open>The laundry thread\<close>

definition VM_LAUNDER_RATE :: int where "VM_LAUNDER_RATE = 10"
definition VM_INACT_SCAN_RATE :: int where "VM_INACT_SCAN_RATE = 2"

datatype laundry_request = LAUNDRY_IDLE | LAUNDRY_BACKGROUND | LAUNDRY_SHORTFALL

record laundry =
  l_shortfall :: int
  l_in_shortfall :: bool
  l_cycle :: int
  l_target :: int
  l_last_launder :: u_int
  l_last_target :: "int option"  \<comment> \<open>None: not yet assigned\<close>

definition laundry_start :: laundry where
  "laundry_start = \<lparr>l_shortfall = 0, l_in_shortfall = False, l_cycle = 0, l_target = 0,
     l_last_launder = 0, l_last_target = None\<rparr>"

text \<open>What one turn of the loop reads: the wakeups so far, vm_laundry_target() at both calls, the
  page counts, how many pages a laundering of so many gives, the request when the thread goes on,
  and the tunables.\<close>

record laundry_env =
  le_wakeups :: u_int
  le_target1 :: int
  le_target2 :: int
  le_deficit :: int
  le_inactive :: u_int
  le_free :: u_int
  le_laundry :: u_int
  le_laundered :: "int \<Rightarrow> int"
  le_request :: laundry_request
  le_bg_target :: u_int
  le_bg_rate :: u_int
  le_bg_max :: u_int

definition laundry_background :: "laundry_env \<Rightarrow> laundry \<Rightarrow> fault + laundry \<times> int" where
  "laundry_background e l =
     (let nclean = ucast (le_inactive e + le_free e) :: 64 word;
          ndirty = ucast (le_laundry e) :: 64 word;
          l = (if l_target l = 0 \<and> le_wakeups e \<noteq> l_last_launder l \<and>
                  ndirty * ucast (isqrt (le_wakeups e - l_last_launder l)) \<ge> nclean
               then l\<lparr>l_target := sint (le_bg_target e)\<rparr> else l) in
      if l_target l > 0 then
        rbind (if le_wakeups e \<noteq> l_last_launder l
               then Inr (l\<lparr>l_last_launder := le_wakeups e, l_last_target := Some (l_target l)\<rparr>)
               else case l_last_target l of None \<Rightarrow> Inl (NullDeref ''last_target'')
                    | Some t \<Rightarrow>
                        if (of_int (t - l_target l) :: u_int) \<ge> le_bg_max e * 4096 div 1024
                        then Inr (l\<lparr>l_target := 0\<rparr>) else Inr l) (\<lambda>l.
        let launder = c_div (sint (le_bg_rate e * 4096 div 1024)) VM_LAUNDER_RATE in
        Inr (l, if launder > l_target l then l_target l else launder))
      else Inr (l, 0))"

definition laundry_choose :: "laundry_env \<Rightarrow> laundry \<Rightarrow> fault + laundry \<times> int" where
  "laundry_choose e l =
     (let run = (\<lambda>l. if l_cycle l = 0 then Inl (DivByZero ''shortfall_cycle'')
                     else Inr (l\<lparr>l_last_launder := le_wakeups e, l_cycle := l_cycle l - 1\<rparr>,
                               c_div (l_target l) (l_cycle l))) in
      if l_shortfall l > 0 then
        run (l\<lparr>l_in_shortfall := True, l_cycle := VM_LAUNDER_RATE div VM_INACT_SCAN_RATE, l_target := l_shortfall l\<rparr>)
      else if \<not> l_in_shortfall l then laundry_background e l
      else if l_cycle l = 0 \<or> le_target1 e \<le> 0 then
        laundry_background e (l\<lparr>l_in_shortfall := False, l_target := 0\<rparr>)
      else run l)"

text \<open>min() is the one of sys/libkern.h, on unsigned operands.\<close>

definition u_min :: "int \<Rightarrow> int \<Rightarrow> int" where
  "u_min a b = sint (min (of_int a) (of_int b) :: u_int)"

text \<open>The end of a turn that was to launder so many pages and laundered \<open>num\<close>; the request stays posted as
  long as there is a target.\<close>

definition laundry_finish :: "laundry_env \<Rightarrow> int \<Rightarrow> int \<Rightarrow> laundry \<Rightarrow> laundry \<times> laundry_request" where
  "laundry_finish e launder num l =
     (let l = (if launder > 0 then l\<lparr>l_target := l_target l - u_min num (l_target l)\<rparr> else l);
          l = (if le_request e = LAUNDRY_SHORTFALL \<and> (\<not> l_in_shortfall l \<or> l_cycle l = 0)
               then l\<lparr>l_shortfall := le_target2 e + le_deficit e, l_target := 0\<rparr>
               else l\<lparr>l_shortfall := 0\<rparr>) in
      (l, if l_target l = 0 then LAUNDRY_IDLE else le_request e))"

text \<open>The second component is the number of pages the laundering was asked for, 0 when there was none,
  the third the request that stays posted.\<close>

definition laundry_turn :: "laundry_env \<Rightarrow> laundry \<Rightarrow> fault + laundry \<times> int \<times> laundry_request" where
  "laundry_turn e l =
     rbind (kassert (l_target l \<ge> 0) ''negative target'') (\<lambda>_.
     rbind (kassert (l_cycle l \<ge> 0) ''negative cycle'') (\<lambda>_.
     rbind (laundry_choose e l) (\<lambda>(l, launder).
     case laundry_finish e launder (le_laundered e launder) l of (l, req) \<Rightarrow>
       Inr (l, if launder > 0 then launder else 0, req))))"

text \<open>The thread for some turns, with the number of pages it laundered in all.\<close>

fun laundry_run :: "laundry_env list \<Rightarrow> laundry \<Rightarrow> fault + laundry \<times> int" where
  "laundry_run [] l = Inr (l, 0)"
| "laundry_run (e # es) l =
     rbind (laundry_turn e l) (\<lambda>(l, launder, _).
     rbind (laundry_run es l) (\<lambda>(l, num).
       Inr (l, (if launder > 0 then le_laundered e launder else 0) + num)))"

end
