(* ===== verification/VmScan.thy ===== *)
theory VmScan
  imports VmFree VmDaemon
begin

text \<open>
  The scans of vm_pageout.c over the page queues and the loop of the page daemon. While a scan
  waits for the lock of a page or of an object, or works on a page with the queue unlocked, other
  threads run: what they do then is an argument of the scan, one function per turn of the loop.
  The markers are the pages that the code puts into the lists to keep its place. Of the statistics
  that the repository prints before the first scan the reads that can fault are modelled.
\<close>

subsection \<open>Markers\<close>

definition marker_page :: "u_char \<Rightarrow> vm_page" where
  "marker_page q = \<lparr>pg_object = None, pindex = 0, wire_count = 0, busy_lock = VPB_SINGLE_EXCLUSIVER, hold_count = 1,
     pg_flags = PG_MARKER, aflags = 0, oflags = 0, queue = q, act_count = 0, valid = 0, dirty = 0,
     timestamp_sec = 0, timestamp_nsec = 0\<rparr>"

definition vm_pageout_init_marker :: "pg \<Rightarrow> u_char \<Rightarrow> 'r vm \<Rightarrow> 'r vm" where
  "vm_pageout_init_marker x q s = upd_pg x (\<lambda>_. marker_page q) s"

text \<open>\<open>None\<close>: the lock is free; \<open>Some f\<close>: it is not, and \<open>f\<close> is what other threads do until it is.\<close>

type_synonym 'r lock_try = "('r vm \<Rightarrow> 'r vm) option"

text \<open>The marker \<open>x\<close> behind \<open>m\<close> while the queue is unlocked: the new successor of the marker, and
  whether \<open>m\<close> is still in front of it and, if it is asked for, of the same object.\<close>

definition marked_wait ::
    "pg \<Rightarrow> pg \<Rightarrow> bool \<Rightarrow> ('r vm \<Rightarrow> 'r vm) \<Rightarrow> 'r vm \<Rightarrow> fault + 'r vm \<times> bool \<times> pg option" where
  "marked_wait x m same_object others s =
     (let q = queue (pages s m); s = vm_pageout_init_marker x q s; ob = pg_object (pages s m) in
      case vm_page_pagequeue m s of (d, _) \<Rightarrow>
      if q \<ge> PQ_COUNT then Inl (OutOfBounds ''vmd_pagequeues'')
      else
        rbind (tailq_insert_after m x (pq_pl s d q)) (\<lambda>l.
        let s = others (set_pq d q l s); l = pq_pl s d q;
            unchanged = ((same_object \<longrightarrow> pg_object (pages s m) = ob) \<and> tailq_prev x l = Some m) in
        rbind (kassert (\<not> unchanged \<or> queue (pages s m) = q) ''page queue'') (\<lambda>_.
        rbind (tailq_remove x l) (\<lambda>l'. Inr (set_pq d q l' s, unchanged, tailq_next x l)))))"

definition vm_pageout_page_lock ::
    "'r lock_try \<Rightarrow> pg \<Rightarrow> pg \<Rightarrow> pg option \<Rightarrow> 'r vm \<Rightarrow> fault + 'r vm \<times> bool \<times> pg option" where
  "vm_pageout_page_lock tr x m nxt s =
     (case tr of None \<Rightarrow> Inr (s, True, nxt) | Some others \<Rightarrow> marked_wait x m False others s)"

text \<open>VM_OBJECT_TRYWLOCK and, when it fails, vm_pageout_fallback_object_lock.\<close>

definition vm_pageout_object_lock ::
    "'r lock_try \<Rightarrow> pg \<Rightarrow> pg \<Rightarrow> pg option \<Rightarrow> 'r vm \<Rightarrow> fault + 'r vm \<times> bool \<times> pg option" where
  "vm_pageout_object_lock tr x m nxt s =
     (if pg_object (pages s m) = None then Inl (NullDeref ''object'')
      else case tr of None \<Rightarrow> Inr (s, True, nxt) | Some others \<Rightarrow> marked_wait x m True others s)"

text \<open>The locks in the turn with so many turns left; the work of others while the queue is unlocked, right
  after the page of the turn has left it and before the queue is locked again; and the marker on the
  stack of the waiting functions.\<close>

record 'r locks =
  page_try :: "nat \<Rightarrow> 'r lock_try"
  object_try :: "nat \<Rightarrow> 'r lock_try"
  dequeued :: "nat \<Rightarrow> pg \<Rightarrow> 'r vm \<Rightarrow> 'r vm"
  meanwhile :: "nat \<Rightarrow> 'r vm \<Rightarrow> 'r vm"
  local_marker :: pg

subsection \<open>The inactive queue\<close>

definition clean_mappings :: "'r vm_env \<Rightarrow> pg \<Rightarrow> obj \<Rightarrow> 'r vm \<Rightarrow> fault + 'r vm" where
  "clean_mappings E m ob s =
     (if obj_ref_count s ob \<noteq> 0 then
        rbind (vm_page_test_dirty m s) (\<lambda>s.
        Inr (if dirty (pages s m) = 0 then pmap_remove_all E m s else s))
      else Inr s)"

text \<open>\<open>True\<close>: the page is freed.\<close>

definition inactive_reclaim :: "'r vm_env \<Rightarrow> pg \<Rightarrow> obj \<Rightarrow> 'r vm \<Rightarrow> fault + 'r vm \<times> bool" where
  "inactive_reclaim E m ob s =
     (if valid (pages s m) = 0 then rbind (vm_page_free E m s) (\<lambda>s. Inr (s, True))
      else
        rbind (clean_mappings E m ob s) (\<lambda>s.
        if dirty (pages s m) = 0 then rbind (vm_page_free E m s) (\<lambda>s. Inr (s, True))
        else if \<not> obj_dead s ob then rbind (vm_page_launder m s) (\<lambda>s. Inr (s, False))
        else Inr (s, False)))"

text \<open>One page that is locked, not held and not busy.\<close>

definition inactive_take ::
    "'r vm_env \<Rightarrow> (pg \<Rightarrow> 'r vm \<Rightarrow> 'r vm) \<Rightarrow> ('r vm \<Rightarrow> 'r vm) \<Rightarrow> nat \<Rightarrow> pg \<Rightarrow> obj \<Rightarrow> 'r vm \<Rightarrow> fault + 'r vm \<times> bool \<times> pg option" where
  "inactive_take E during others d m ob s =
     (let mk = vmd_marker s d in
      rbind (tailq_insert_after m mk (pq_pl s d PQ_INACTIVE)) (\<lambda>l.
      rbind (vm_page_dequeue_locked m (set_pq d PQ_INACTIVE l s)) (\<lambda>s.
      rbind (inactive_reclaim E m ob (during m s)) (\<lambda>(s, freed).
      let s = others s; l = pq_pl s d PQ_INACTIVE in
      rbind (tailq_remove mk l) (\<lambda>l'. Inr (set_pq d PQ_INACTIVE l' s, freed, tailq_next mk l))))))"

text \<open>One turn of the loop on \<open>m\<close>: the next page, by how much addl_page_shortage grows, and whether
  the page is freed.\<close>

definition inactive_turn ::
    "'r vm_env \<Rightarrow> 'r locks \<Rightarrow> nat \<Rightarrow> nat \<Rightarrow> pg \<Rightarrow> 'r vm \<Rightarrow> fault + 'r vm \<times> pg option \<times> int \<times> bool" where
  "inactive_turn E L k d m s =
     rbind (kassert (queue (pages s m) = PQ_INACTIVE) ''Inactive queue'') (\<lambda>_.
     let nxt = tailq_next m (pq_pl s d PQ_INACTIVE) in
     if pg_flags (pages s m) AND PG_MARKER \<noteq> 0 then Inr (s, nxt, 0, False)
     else
       rbind (kassert (pg_flags (pages s m) AND PG_FICTITIOUS = 0) ''Fictitious page cannot be in inactive queue'') (\<lambda>_.
       rbind (kassert (\<not> unmanaged m s) ''Unmanaged page cannot be in inactive queue'') (\<lambda>_.
       rbind (vm_pageout_page_lock (page_try L k) (local_marker L) m nxt s) (\<lambda>(s, ok, nxt).
       if \<not> ok then Inr (s, nxt, 0, False)
       else if hold_count (pages s m) \<noteq> 0 then Inr (s, nxt, 1, False)
       else
         case pg_object (pages s m) of None \<Rightarrow> Inl (NullDeref ''object'')
         | Some ob \<Rightarrow>
             rbind (vm_pageout_object_lock (object_try L k) (local_marker L) m nxt s) (\<lambda>(s, ok, nxt).
             if \<not> ok then Inr (s, nxt, 0, False)
             else if hold_count (pages s m) \<noteq> 0 \<or> vm_page_busied (busy_lock (pages s m)) then Inr (s, nxt, 1, False)
             else
               rbind (inactive_take E (dequeued L k) (meanwhile L k) d m ob s) (\<lambda>(s, freed, nxt). Inr (s, nxt, 0, freed)))))))"

text \<open>The loop over maxscan, with addl_page_shortage and page_shortage.\<close>

fun inactive_scan ::
    "'r vm_env \<Rightarrow> 'r locks \<Rightarrow> nat \<Rightarrow> nat \<Rightarrow> pg option \<Rightarrow> int \<Rightarrow> int \<Rightarrow> 'r vm \<Rightarrow> fault + 'r vm \<times> int \<times> int" where
  "inactive_scan E L d 0 m addl shortage s = Inr (s, addl, shortage)"
| "inactive_scan E L d (Suc k) None addl shortage s = Inr (s, addl, shortage)"
| "inactive_scan E L d (Suc k) (Some m) addl shortage s =
     (if shortage \<le> 0 then Inr (s, addl, shortage)
      else
        rbind (inactive_turn E L k d m s) (\<lambda>(s, nxt, stuck, freed).
        inactive_scan E L d k nxt (addl + stuck) (if freed then shortage - 1 else shortage) s))"

subsection \<open>The active queue\<close>

definition active_take :: "int \<Rightarrow> pg \<Rightarrow> int \<Rightarrow> 'r vm \<Rightarrow> fault + 'r vm \<times> int" where
  "active_take weight m shortage s =
     rbind (vm_page_dequeue_locked m s) (\<lambda>s.
     if shortage \<le> 0 then rbind (vm_page_deactivate m s) (\<lambda>s. Inr (s, shortage))
     else if dirty (pages s m) = 0 then rbind (vm_page_deactivate m s) (\<lambda>s. Inr (s, shortage - weight))
     else rbind (vm_page_launder m s) (\<lambda>s. Inr (s, shortage - 1)))"

definition active_turn ::
    "'r locks \<Rightarrow> int \<Rightarrow> nat \<Rightarrow> nat \<Rightarrow> pg \<Rightarrow> int \<Rightarrow> 'r vm \<Rightarrow> fault + 'r vm \<times> pg option \<times> int" where
  "active_turn L weight k d m shortage s =
     rbind (kassert (queue (pages s m) = PQ_ACTIVE) ''vm_pageout_scan: page isn't active'') (\<lambda>_.
     let nxt = tailq_next m (pq_pl s d PQ_ACTIVE) in
     if pg_flags (pages s m) AND PG_MARKER \<noteq> 0 then Inr (s, nxt, shortage)
     else
       rbind (kassert (pg_flags (pages s m) AND PG_FICTITIOUS = 0) ''Fictitious page cannot be in active queue'') (\<lambda>_.
       rbind (kassert (\<not> unmanaged m s) ''Unmanaged page cannot be in active queue'') (\<lambda>_.
       rbind (vm_pageout_page_lock (page_try L k) (local_marker L) m nxt s) (\<lambda>(s, ok, nxt).
       if \<not> ok then Inr (s, nxt, shortage)
       else rbind (active_take weight m shortage s) (\<lambda>(s, shortage). Inr (s, nxt, shortage))))))"

text \<open>The loop ends at the latest when the larger of min_scan and maxscan is reached.\<close>

function active_scan ::
    "'r locks \<Rightarrow> int \<Rightarrow> nat \<Rightarrow> int \<Rightarrow> int \<Rightarrow> nat \<Rightarrow> pg option \<Rightarrow> int \<Rightarrow> 'r vm \<Rightarrow> fault + 'r vm \<times> int" where
  "active_scan L weight d min_scan maxscan scanned m shortage s =
     (case m of None \<Rightarrow> Inr (s, shortage)
      | Some m \<Rightarrow>
          if int scanned < min_scan \<or> (shortage > 0 \<and> int scanned < maxscan) then
            rbind (active_turn L weight scanned d m shortage s) (\<lambda>(s, nxt, shortage).
            active_scan L weight d min_scan maxscan (scanned + 1) nxt shortage s)
          else Inr (s, shortage))"
  by auto

termination
  by (relation "measure (\<lambda>(L, weight, d, min_scan, maxscan, scanned, m, shortage, s). nat (max min_scan maxscan) - scanned)") auto

declare active_scan.simps [simp del]

subsection \<open>A scan\<close>

datatype daemon_call =
    Lowmem | WakeupLaundry | SwapoutRun | SwapoutRunIdle | SleepDaemon | PauseDaemon

record 'r daemon =
  dm_vm :: "'r vm"
  dm_request :: laundry_request  \<comment> \<open>vm_laundry_request\<close>
  dm_oom :: oom
  vmd_last_active_scan :: int
  lowmem_uptime :: int
  dm_calls :: "daemon_call list"

text \<open>What a scan reads: the time, the tunables, and the macros vm_paging_target() and
  vm_page_count_min() of sys/vmmeter.h.\<close>

record 'r scan_env =
  sc_env :: "'r vm_env"
  sc_inactive :: "'r locks"
  sc_active :: "'r locks"
  time_uptime :: int
  lowmem_period :: int
  paging_target :: "u_int \<Rightarrow> int"
  v_inactive_target :: u_int
  act_scan_laundry_weight :: int
  scan_ticks :: int
  scan_hz :: int
  update_period :: int
  pageout_oom_seq :: int
  vm_ndomains :: nat

definition daemon_call :: "daemon_call \<Rightarrow> 'r daemon \<Rightarrow> 'r daemon" where
  "daemon_call c s = s\<lparr>dm_calls := dm_calls s @ [c]\<rparr>"

definition lowmem :: "'r scan_env \<Rightarrow> nat \<Rightarrow> int \<Rightarrow> 'r daemon \<Rightarrow> 'r daemon" where
  "lowmem Q d pass s =
     (if d = 0 \<and> pass > 0 \<and> time_uptime Q - lowmem_uptime s \<ge> lowmem_period Q
      then (daemon_call Lowmem s)\<lparr>lowmem_uptime := time_uptime Q\<rparr> else s)"

text \<open>The deficit and the number of pages to free.\<close>

definition scan_target :: "'r scan_env \<Rightarrow> int \<Rightarrow> 'r daemon \<Rightarrow> 'r daemon \<times> int \<times> int" where
  "scan_target Q pass s =
     (if pass > 0 then
        let deficit = sint (vm_pageout_deficit (dm_vm s)) in
        (s\<lparr>dm_vm := (dm_vm s)\<lparr>vm_pageout_deficit := 0\<rparr>\<rparr>, deficit,
         paging_target Q (v_free_count (dm_vm s)) + deficit)
      else (s, 0, 0))"

text \<open>The statistics read the first page of the inactive queue and the last one of the active queue.\<close>

definition print_statistics :: "nat \<Rightarrow> 'r vm \<Rightarrow> fault + unit" where
  "print_statistics d s =
     (case tailq_first (pq_pl s d PQ_INACTIVE) of None \<Rightarrow> Inl (NullDeref ''printpage'')
      | Some _ \<Rightarrow>
          (case tailq_first (rev (pq_pl s d PQ_ACTIVE)) of None \<Rightarrow> Inl (NullDeref ''printpage'')
           | Some _ \<Rightarrow> Inr ()))"

definition request_laundry :: "int \<Rightarrow> int \<Rightarrow> 'r daemon \<Rightarrow> 'r daemon" where
  "request_laundry starting shortage s =
     (if dm_request s = LAUNDRY_IDLE \<and> starting > 0 then
        daemon_call WakeupLaundry (s\<lparr>dm_request := (if shortage > 0 then LAUNDRY_SHORTFALL else LAUNDRY_BACKGROUND)\<rparr>)
      else s)"

text \<open>The number of pages to move out of the active queue: the counters are unsigned, the result is
  assigned to an int.\<close>

definition active_target :: "'r scan_env \<Rightarrow> int \<Rightarrow> int \<Rightarrow> 'r vm \<Rightarrow> fault + int" where
  "active_target Q deficit addl s =
     (let w = of_int (act_scan_laundry_weight Q) :: u_int in
      if w = 0 then Inl (DivByZero ''act_scan_laundry_weight'')
      else Inr (sint (v_inactive_target Q - (pq_vcnt s PQ_INACTIVE + pq_vcnt s PQ_LAUNDRY div w) +
                      of_int (paging_target Q (v_free_count s)) + of_int deficit + of_int addl) *
                act_scan_laundry_weight Q))"

definition active_min_scan :: "'r scan_env \<Rightarrow> nat \<Rightarrow> 'r daemon \<Rightarrow> fault + int" where
  "active_min_scan Q d s =
     (if update_period Q \<noteq> 0 then
        if scan_hz Q * update_period Q = 0 then Inl (DivByZero ''hz * vm_pageout_update_period'')
        else Inr (c_div (pq_cnt (dm_vm s) d PQ_ACTIVE * (scan_ticks Q - vmd_last_active_scan s)) (scan_hz Q * update_period Q))
      else Inr 0)"

definition scan_active :: "'r scan_env \<Rightarrow> nat \<Rightarrow> int \<Rightarrow> int \<Rightarrow> 'r daemon \<Rightarrow> fault + 'r daemon" where
  "scan_active Q d deficit addl s =
     rbind (active_target Q deficit addl (dm_vm s)) (\<lambda>shortage.
     rbind (active_min_scan Q d s) (\<lambda>min_scan.
     let maxscan = pq_cnt (dm_vm s) d PQ_ACTIVE;
         s = (if min_scan > 0 \<or> (shortage > 0 \<and> maxscan > 0) then s\<lparr>vmd_last_active_scan := scan_ticks Q\<rparr> else s) in
     rbind (active_scan (sc_active Q) (act_scan_laundry_weight Q) d min_scan maxscan 0
              (tailq_first (pq_pl (dm_vm s) d PQ_ACTIVE)) shortage (dm_vm s)) (\<lambda>(v, _).
     Inr (s\<lparr>dm_vm := v\<rparr>))))"

definition vm_pageout_scan :: "'r scan_env \<Rightarrow> nat \<Rightarrow> int \<Rightarrow> 'r daemon \<Rightarrow> fault + 'r daemon \<times> bool" where
  "vm_pageout_scan Q d pass s =
     (case scan_target Q pass (lowmem Q d pass s) of (s, deficit, starting) \<Rightarrow>
      rbind (print_statistics d (dm_vm s)) (\<lambda>_.
      rbind (inactive_scan (sc_env Q) (sc_inactive Q) d (nat (pq_cnt (dm_vm s) d PQ_INACTIVE))
               (tailq_first (pq_pl (dm_vm s) d PQ_INACTIVE)) 0 starting (dm_vm s)) (\<lambda>(v, addl, shortage).
      let s = request_laundry starting shortage (s\<lparr>dm_vm := v\<rparr>);
          s = (if shortage > 0 then daemon_call SwapoutRun s else s);
          s = s\<lparr>dm_oom := vm_pageout_mightbe_oom (pageout_oom_seq Q) (vm_ndomains Q) d shortage starting (dm_oom s)\<rparr> in
      rbind (scan_active Q d deficit addl s) (\<lambda>s.
      Inr (if pass > 0 then daemon_call SwapoutRunIdle s else s, shortage \<le> 0)))))"

subsection \<open>The page daemon\<close>

text \<open>The markers of a domain before the loop.\<close>

definition worker_start :: "'r scan_env \<Rightarrow> nat \<Rightarrow> 'r daemon \<Rightarrow> 'r daemon" where
  "worker_start Q d s =
     (let v = vm_pageout_init_marker (vmd_inacthead (dm_vm s) d) PQ_INACTIVE
                (vm_pageout_init_marker (vmd_marker (dm_vm s) d) PQ_INACTIVE (dm_vm s)) in
      s\<lparr>vmd_last_active_scan := scan_ticks Q,
        dm_vm := set_pq d PQ_INACTIVE (vmd_inacthead v d # pq_pl v d PQ_INACTIVE) v\<rparr>)"

text \<open>\<open>pass++\<close> on an int.\<close>

definition next_pass :: "int \<Rightarrow> int" where
  "next_pass pass = sint (of_int (pass + 1) :: c_int)"

text \<open>Up to the scan: the pass to make. With a sleep come what others do meanwhile and whether a wakeup
  ended it.\<close>

definition worker_wake :: "'r vm_env \<Rightarrow> ('r vm \<Rightarrow> 'r vm) \<times> bool \<Rightarrow> int \<times> bool \<Rightarrow> 'r daemon \<Rightarrow> 'r daemon \<times> int" where
  "worker_wake E sleep pass_met s =
     (case (sleep, pass_met) of ((others, woken), (pass, target_met)) \<Rightarrow>
      let v = dm_vm s;
          v = (if vm_pages_needed v \<and> \<not> vm_page_count_min E (v_free_count v)
               then vm_call WakeupFree (v\<lparr>vm_pages_needed := False\<rparr>) else v);
          v = (if vm_pageout_wanted v \<and> target_met then v\<lparr>vm_pageout_wanted := False\<rparr> else v) in
      if vm_pageout_wanted v then
        (let s = s\<lparr>dm_vm := v\<rparr> in if pass \<ge> 1 then (daemon_call PauseDaemon s)\<lparr>dm_vm := others v\<rparr> else s, next_pass pass)
      else if vm_pages_needed v then (s\<lparr>dm_vm := v\<rparr>, if pass = 0 then next_pass pass else pass)
      else ((daemon_call SleepDaemon s)\<lparr>dm_vm := others v\<rparr>, if woken then 1 else 0))"

definition vm_pageout_worker_turn ::
    "'r scan_env \<Rightarrow> nat \<Rightarrow> ('r vm \<Rightarrow> 'r vm) \<times> bool \<Rightarrow> int \<times> bool \<Rightarrow> 'r daemon \<Rightarrow> fault + 'r daemon \<times> int \<times> bool" where
  "vm_pageout_worker_turn Q d sleep pass_met s =
     (case worker_wake (sc_env Q) sleep pass_met s of (s, pass) \<Rightarrow>
      rbind (vm_pageout_scan Q d pass s) (\<lambda>(s, met). Inr (s, pass, met)))"

text \<open>The loop, for as many turns as one likes, each with its environment.\<close>

fun vm_pageout_worker ::
    "nat \<Rightarrow> ('r scan_env \<times> ('r vm \<Rightarrow> 'r vm) \<times> bool) list \<Rightarrow> int \<times> bool \<Rightarrow> 'r daemon \<Rightarrow> fault + 'r daemon \<times> int \<times> bool" where
  "vm_pageout_worker d [] pass_met s = Inr (s, pass_met)"
| "vm_pageout_worker d ((Q, sleep) # turns) pass_met s =
     rbind (vm_pageout_worker_turn Q d sleep pass_met s) (\<lambda>(s, pass_met). vm_pageout_worker d turns pass_met s)"

end
