(* ===== verification/VmDaemonLaws.thy ===== *)
theory VmDaemonLaws
  imports VmDaemon
begin

text \<open>
  The root is the integer square root, the limits are in order, the votes are counted right, the
  victim is the biggest candidate, and the laundry thread keeps its assertions.
\<close>

lemma four_power: "(4::nat) ^ k = 2 ^ k * 2 ^ k"
  by (simp add: power_mult_distrib [symmetric])

lemma isqrt_start_ok:
  assumes "unat b = 4 ^ k" "unat num < 4 ^ Suc k" 
  shows "\<exists>j. unat num < 4 ^ j \<and> j \<le> Suc k \<and>
    (j = 0 \<and> isqrt_start num b = 0 \<or> (\<exists>i. j = Suc i \<and> unat (isqrt_start num b) = 4 ^ i))"
  using assms
proof (induction k arbitrary: b)
  case 0
  then have b: "b = 1" by (simp add: word_unat_eq_iff)
  show ?case
  proof (cases "num = 0")
    case True
    have "isqrt_start 0 1 = 0" by (simp add: isqrt_start.simps [of 0 1] isqrt_start.simps [of 0 0])
    then have "isqrt_start num b = 0" by (simp add: True b)
    then show ?thesis using True by (intro exI [of _ 0]) simp
  next
    case False
    then have "\<not> num < 1" by (simp add: word_less_nat_alt unat_gt_0)
    then have "isqrt_start num b = 1" unfolding b isqrt_start.simps [of num 1] by (rule if_not_P)
    then show ?thesis using 0 by (intro exI [of _ 1]) simp
  qed
next
  case (Suc k)
  show ?case
  proof (cases "b > num")
    case True
    have "unat (drop_bit 2 b) = 4 ^ k" using Suc.prems(1) by (simp add: drop_bit_eq_div unat_div)
    moreover have "unat num < 4 ^ Suc k" using True Suc.prems(1) by (simp add: word_less_nat_alt)
    ultimately obtain j where "unat num < 4 ^ j" "j \<le> Suc k"
      "j = 0 \<and> isqrt_start num (drop_bit 2 b) = 0 \<or> (\<exists>i. j = Suc i \<and> unat (isqrt_start num (drop_bit 2 b)) = 4 ^ i)"
      using Suc.IH by blast
    then show ?thesis using True by (intro exI [of _ j]) (simp add: isqrt_start.simps [of num b])
  next
    case False
    then show ?thesis using Suc.prems by (intro exI [of _ "Suc (Suc k)"]) (simp add: isqrt_start.simps [of num b])
  qed
qed

text \<open>With \<open>b = 4 ^ (j - 1)\<close>, the root found so far is \<open>x\<close>, a multiple of \<open>2 ^ j\<close>: the variable \<open>root\<close>
  holds \<open>x * 2 ^ j\<close> and \<open>num\<close> what is left of the argument.\<close>

lemma isqrt_loop_ok:
  assumes "unat b = (if j = 0 then 0 else 4 ^ (j - 1))" "j \<le> 16" "unat root = x * 2 ^ j" "N = x * x + unat num"
    "N < (x + 2 ^ j) * (x + 2 ^ j)" "x + 2 ^ j \<le> 2 ^ 16"
  shows "\<exists>r. unat (isqrt_loop num root b) = r \<and> r * r \<le> N \<and> N < (r + 1) * (r + 1)"
  using assms
proof (induction j arbitrary: num root b x)
  case 0
  then have "b = 0" by (simp add: unat_eq_0)
  then show ?case using 0 by (simp add: isqrt_loop.simps)
next
  case (Suc j)
  have b: "unat b = 4 ^ j" "b \<noteq> 0" using Suc.prems(1) by auto
  have b': "unat (drop_bit 2 b) = (if j = 0 then 0 else 4 ^ (j - 1))"
    using b by (cases j) (simp_all add: drop_bit_eq_div unat_div)
  have half: "unat (drop_bit 1 root) = x * 2 ^ j" using Suc.prems(3) by (simp add: drop_bit_eq_div unat_div)
  have y: "x + 2 ^ j + 2 ^ j \<le> 2 ^ 16" using Suc.prems(6) by simp
  have sq: "(x + 2 ^ j) * (x + 2 ^ j) = x * x + (x * 2 ^ Suc j + 4 ^ j)"
    by (simp add: algebra_simps four_power)
  have small: "x * 2 ^ Suc j + 4 ^ j < 2 ^ 32"
  proof -
    have "(x + 2 ^ j) * (x + 2 ^ j) < 2 ^ 16 * 2 ^ 16"
      using y zero_less_power [of "2::nat" j] by (intro mult_strict_mono) linarith+
    then show ?thesis unfolding sq by simp
  qed
  have root: "unat root = x * 2 ^ Suc j" by (rule Suc.prems(3))
  have plus: "unat (v + w) = unat v + unat w" if "unat v + unat w < 2 ^ 32" for v w :: u_int
    using that by (simp add: unat_plus_if')
  have tmp: "unat (root + b) = x * 2 ^ Suc j + 4 ^ j"
    using plus [of root b] small unfolding root b(1) by blast
  show ?case
  proof (cases "num \<ge> root + b")
    case True
    have le: "x * 2 ^ Suc j + 4 ^ j \<le> unat num" using True tmp by (simp add: word_le_nat_alt)
    have n1: "unat (num - (root + b)) = unat num - (x * 2 ^ Suc j + 4 ^ j)"
      using True tmp by (simp add: unat_sub)
    have r1: "unat (drop_bit 1 root + b) = (x + 2 ^ j) * 2 ^ j"
    proof -
      have e: "x * 2 ^ j + 4 ^ j = (x + 2 ^ j) * 2 ^ j" by (simp add: algebra_simps four_power)
      have "x * 2 ^ j + 4 ^ j < 2 ^ 32" using small by simp
      then show ?thesis using plus [of "drop_bit 1 root" b] unfolding half b(1) e by blast
    qed
    have "\<exists>r. unat (isqrt_loop (num - (root + b)) (drop_bit 1 root + b) (drop_bit 2 b)) = r \<and> r * r \<le> N \<and> N < (r + 1) * (r + 1)"
    proof (rule Suc.IH [OF b' _ r1])
      show "N = (x + 2 ^ j) * (x + 2 ^ j) + unat (num - (root + b))" using Suc.prems(4) sq n1 le by simp
      show "N < (x + 2 ^ j + 2 ^ j) * (x + 2 ^ j + 2 ^ j)" using Suc.prems(5) by (simp add: mult_2 add.assoc)
    qed (use Suc.prems(2) y in auto)
    then show ?thesis using True b(2) by (simp add: isqrt_loop.simps [of num root b] Let_def)
  next
    case False
    then have lt: "unat num < x * 2 ^ Suc j + 4 ^ j" using tmp by (simp add: word_le_nat_alt)
    have "\<exists>r. unat (isqrt_loop num (drop_bit 1 root) (drop_bit 2 b)) = r \<and> r * r \<le> N \<and> N < (r + 1) * (r + 1)"
    proof (rule Suc.IH [OF b' _ half Suc.prems(4)])
      show "N < (x + 2 ^ j) * (x + 2 ^ j)" using Suc.prems(4) lt sq by simp
    qed (use Suc.prems(2) y in auto)
    then show ?thesis using False b(2) by (simp add: isqrt_loop.simps [of num root b] Let_def)
  qed
qed

lemma isqrt_ok: "unat (isqrt n) * unat (isqrt n) \<le> unat n \<and> unat n < (unat (isqrt n) + 1) * (unat (isqrt n) + 1)"
proof -
  have lim: "unat n < 4 ^ 16" using unsigned_less [of n] by simp
  obtain j where j: "unat n < 4 ^ j" "j \<le> Suc 15"
    "j = 0 \<and> isqrt_start n (push_bit 30 1) = 0 \<or> (\<exists>i. j = Suc i \<and> unat (isqrt_start n (push_bit 30 1)) = 4 ^ i)"
    using isqrt_start_ok [of "push_bit 30 1" 15 n] lim by auto
  have b: "unat (isqrt_start n (push_bit 30 1)) = (if j = 0 then 0 else 4 ^ (j - 1))" using j(3) by auto
  have "(2::nat) ^ j \<le> 2 ^ 16" using j(2) by (intro power_increasing) simp_all
  then show ?thesis
    using isqrt_loop_ok [OF b _ _ , of 0 0 "unat n" n] j(1,2) by (simp add: isqrt_def four_power)
qed

subsection \<open>The votes\<close>

definition votes :: "nat \<Rightarrow> oom \<Rightarrow> nat" where
  "votes n s = card {d. d < n \<and> vmd_oom s d}"

text \<open>The counter counts the domains that vote, and never all of them do.\<close>

definition oom_ok :: "nat \<Rightarrow> oom \<Rightarrow> bool" where
  "oom_ok n s \<longleftrightarrow> vm_pageout_oom_vote s = int (votes n s) \<and> votes n s < n"

lemma votes_upd:
  assumes "d < n"
  shows "votes n (s\<lparr>vmd_oom := (vmd_oom s)(d := b)\<rparr>) = votes n s - (if vmd_oom s d then 1 else 0) + (if b then 1 else 0)"
    "vmd_oom s d \<Longrightarrow> 0 < votes n s"
proof -
  let ?V = "{x. x < n \<and> vmd_oom s x}"
  have fin: "finite ?V" by simp
  show "vmd_oom s d \<Longrightarrow> 0 < votes n s" using assms fin by (auto simp: votes_def card_gt_0_iff)
  have eq: "{x. x < n \<and> vmd_oom (s\<lparr>vmd_oom := (vmd_oom s)(d := b)\<rparr>) x} = (if b then insert d (?V - {d}) else ?V - {d})"
    using assms by auto
  have c1: "card (?V - {d}) = card ?V - (if vmd_oom s d then 1 else 0)"
    using assms fin by (auto simp: card_Diff_singleton)
  have c2: "card (insert d (?V - {d})) = Suc (card (?V - {d}))"
    using fin by (intro card_insert_disjoint) auto
  show "votes n (s\<lparr>vmd_oom := (vmd_oom s)(d := b)\<rparr>) = votes n s - (if vmd_oom s d then 1 else 0) + (if b then 1 else 0)"
  proof -
    have "votes n (s\<lparr>vmd_oom := (vmd_oom s)(d := b)\<rparr>) = card (if b then insert d (?V - {d}) else ?V - {d})"
      unfolding votes_def using eq by (rule arg_cong)
    also have "\<dots> = card (?V - {d}) + (if b then 1 else 0)" using c2 by (simp split: if_splits)
    finally show ?thesis unfolding c1 votes_def .
  qed
qed

lemma votes_simps [simp]:
  "votes n (s\<lparr>vmd_oom_seq := q\<rparr>) = votes n s" "votes n (s\<lparr>vm_pageout_oom_vote := v\<rparr>) = votes n s"
  "votes n (s\<lparr>oom_kills := k\<rparr>) = votes n s"
  by (simp_all add: votes_def)

lemma all_others_vote:
  assumes "d < n" "\<not> vmd_oom s d"
  shows "Suc (votes n s) = n \<longleftrightarrow> (\<forall>x<n. x \<noteq> d \<longrightarrow> vmd_oom s x)"
proof -
  let ?V = "{x. x < n \<and> vmd_oom s x}" and ?A = "{..<n} - {d}"
  have sub: "?V \<subseteq> ?A" using assms(2) by auto
  have card: "card ?A = n - 1" using assms(1) by simp
  have "Suc (votes n s) = n \<longleftrightarrow> card ?V = card ?A" unfolding card votes_def using assms(1) by linarith
  also have "\<dots> \<longleftrightarrow> ?V = ?A" by (metis card_subset_eq finite_Diff finite_lessThan sub)
  also have "\<dots> \<longleftrightarrow> (\<forall>x<n. x \<noteq> d \<longrightarrow> vmd_oom s x)"
  proof
    show "?V = ?A \<Longrightarrow> \<forall>x<n. x \<noteq> d \<longrightarrow> vmd_oom s x" by (auto simp: set_eq_iff)
    show "\<forall>x<n. x \<noteq> d \<longrightarrow> vmd_oom s x \<Longrightarrow> ?V = ?A" using sub by auto
  qed
  finally show ?thesis .
qed

text \<open>A scan that failed outright counts, any other starts the count anew; at the limit the domain
  votes, and the last domain to vote kills.\<close>

lemma mightbe_oom_cases:
  fixes s :: oom and lim start left :: int
  assumes d: "d < n" and v: "vm_pageout_oom_vote s = int (votes n s)" "votes n s < n"
  defines "q \<equiv> if start \<le> 0 \<or> start \<noteq> left then 0 else vmd_oom_seq s d + 1"
  defines "others \<equiv> \<forall>x<n. x \<noteq> d \<longrightarrow> vmd_oom s x"
  shows "vm_pageout_mightbe_oom lim n d left start s =
    (let s = s\<lparr>vmd_oom_seq := (vmd_oom_seq s)(d := if q < lim then q else 0)\<rparr> in
     if q < lim then
       if vmd_oom s d then s\<lparr>vmd_oom := (vmd_oom s)(d := False), vm_pageout_oom_vote := vm_pageout_oom_vote s - 1\<rparr> else s
     else if vmd_oom s d then s
     else if others then s\<lparr>oom_kills := oom_kills s + 1, vmd_oom := (vmd_oom s)(d := False)\<rparr>
     else s\<lparr>vmd_oom := (vmd_oom s)(d := True), vm_pageout_oom_vote := vm_pageout_oom_vote s + 1\<rparr>)"
proof -
  have last: "vm_pageout_oom_vote s \<noteq> int n - 1 \<longleftrightarrow> \<not> others" if "\<not> vmd_oom s d"
  proof -
    have "vm_pageout_oom_vote s \<noteq> int n - 1 \<longleftrightarrow> Suc (votes n s) \<noteq> n" using v(1) by linarith
    then show ?thesis using all_others_vote [OF d that] by (simp add: others_def)
  qed
  show ?thesis
    unfolding vm_pageout_mightbe_oom_def q_def [symmetric] Let_def
    using last by (cases "q < lim"; cases "vmd_oom s d"; cases others) simp_all
qed

lemma mightbe_oom_ok:
  fixes s :: oom and lim start left :: int
  assumes ok: "oom_ok n s" and d: "d < n"
  defines "failed \<equiv> 0 < start \<and> start = left"
  defines "due \<equiv> (if failed then lim \<le> vmd_oom_seq s d + 1 else lim \<le> 0)"
  defines "s' \<equiv> vm_pageout_mightbe_oom lim n d left start s"
  defines "kill \<equiv> due \<and> \<not> vmd_oom s d \<and> (\<forall>x<n. x \<noteq> d \<longrightarrow> vmd_oom s x)"
  shows "oom_ok n s'" "oom_kills s' = oom_kills s + (if kill then 1 else 0)"
    "vmd_oom s' d \<longleftrightarrow> due \<and> \<not> kill" "\<And>x. x \<noteq> d \<Longrightarrow> vmd_oom s' x = vmd_oom s x"
    "vmd_oom_seq s' d = (if failed \<and> \<not> due then vmd_oom_seq s d + 1 else 0)"
proof -
  let ?q = "if start \<le> 0 \<or> start \<noteq> left then 0 else vmd_oom_seq s d + 1"
  have v: "vm_pageout_oom_vote s = int (votes n s)" "votes n s < n" using ok by (simp_all add: oom_ok_def)
  have due: "due \<longleftrightarrow> \<not> ?q < lim" by (auto simp: due_def failed_def)
  note run = mightbe_oom_cases [OF d v, where start = start and left = left and lim = lim, folded s'_def]
  have upd: "votes n (t\<lparr>vmd_oom := (vmd_oom s)(d := b)\<rparr>) = votes n s - (if vmd_oom s d then 1 else 0) + (if b then 1 else 0)"
    if "vmd_oom t = vmd_oom s" for t :: oom and b
    using votes_upd(1) [OF d, of t b] that by (simp add: votes_def)
  have upd': "votes n (s\<lparr>vmd_oom_seq := f, vmd_oom := (vmd_oom s)(d := b)\<rparr>) = votes n s - (if vmd_oom s d then 1 else 0) + (if b then 1 else 0)"
    "votes n (s\<lparr>vmd_oom_seq := f, vmd_oom := (vmd_oom s)(d := b), oom_kills := k\<rparr>) = votes n s - (if vmd_oom s d then 1 else 0) + (if b then 1 else 0)"
    "votes n (s\<lparr>vmd_oom_seq := f, vmd_oom := (vmd_oom s)(d := b), vm_pageout_oom_vote := w\<rparr>) = votes n s - (if vmd_oom s d then 1 else 0) + (if b then 1 else 0)"
    "votes n (s\<lparr>vmd_oom_seq := f, oom_kills := k, vmd_oom := (vmd_oom s)(d := b)\<rparr>) = votes n s - (if vmd_oom s d then 1 else 0) + (if b then 1 else 0)"
    for f b k w
    using upd [of s b] by (simp_all add: votes_def)
  have pos: "vmd_oom s d \<Longrightarrow> 0 < votes n s" by (rule votes_upd(2) [OF d])
  have lt: "\<not> vmd_oom s d \<Longrightarrow> \<not> (\<forall>x<n. x \<noteq> d \<longrightarrow> vmd_oom s x) \<Longrightarrow> Suc (votes n s) < n"
    using all_others_vote [OF d] v(2) by fastforce
  show "oom_ok n s'"
    unfolding run oom_ok_def using v pos lt by (auto simp: upd' Let_def)
  show "oom_kills s' = oom_kills s + (if kill then 1 else 0)" "vmd_oom s' d \<longleftrightarrow> due \<and> \<not> kill"
    "\<And>x. x \<noteq> d \<Longrightarrow> vmd_oom s' x = vmd_oom s x"
    unfolding run kill_def due by (auto simp: Let_def)
  show "vmd_oom_seq s' d = (if failed \<and> \<not> due then vmd_oom_seq s d + 1 else 0)"
    unfolding run failed_def due by (auto simp: Let_def)
qed

subsection \<open>The victim\<close>

lemma oom_scan_none:
  "(\<And>q. q \<in> set ps \<Longrightarrow> oom_candidate avail q \<Longrightarrow> oom_size oom_mem q \<le> z) \<Longrightarrow> oom_scan oom_mem avail b z ps = b"
  by (induction ps) (auto simp: leD)

lemma oom_scan_some:
  assumes "\<exists>q \<in> set ps. oom_candidate avail q \<and> z < oom_size oom_mem q"
  shows "\<exists>p \<in> set ps. oom_scan oom_mem avail b z ps = Some p \<and> oom_candidate avail p \<and> z < oom_size oom_mem p \<and>
    (\<forall>q \<in> set ps. oom_candidate avail q \<longrightarrow> oom_size oom_mem q \<le> oom_size oom_mem p)"
  using assms
proof (induction oom_mem avail b z ps rule: oom_scan.induct)
  case (2 oom_mem avail b z p ps)
  show ?case
  proof (cases "oom_candidate avail p \<and> z < oom_size oom_mem p")
    case True
    show ?thesis
    proof (cases "\<exists>q \<in> set ps. oom_candidate avail q \<and> oom_size oom_mem p < oom_size oom_mem q")
      case better: True
      then obtain r where "r \<in> set ps" "oom_scan oom_mem avail (Some p) (oom_size oom_mem p) ps = Some r"
        "oom_candidate avail r" "oom_size oom_mem p < oom_size oom_mem r"
        "\<forall>q \<in> set ps. oom_candidate avail q \<longrightarrow> oom_size oom_mem q \<le> oom_size oom_mem r"
        using 2(1) [OF True] by blast
      then show ?thesis using True by auto
    next
      case False
      then have all: "\<forall>q \<in> set ps. oom_candidate avail q \<longrightarrow> oom_size oom_mem q \<le> oom_size oom_mem p" by force
      then have "oom_scan oom_mem avail (Some p) (oom_size oom_mem p) ps = Some p" by (intro oom_scan_none) blast
      then show ?thesis using True all by simp
    qed
  next
    case False
    then obtain r where "r \<in> set ps" "oom_scan oom_mem avail b z ps = Some r"
        "oom_candidate avail r" "z < oom_size oom_mem r"
        "\<forall>q \<in> set ps. oom_candidate avail q \<longrightarrow> oom_size oom_mem q \<le> oom_size oom_mem r"
      using 2(2) [OF False] 2(3) by force
    then show ?thesis using False by auto
  qed
qed simp

lemma oom_victim_max:
  assumes "vm_pageout_oom oom_mem avail panicking procs = Inr r"
  shows "case r of None \<Rightarrow> \<forall>q \<in> set procs. oom_candidate avail q \<longrightarrow> oom_size oom_mem q \<le> 0
    | Some p \<Rightarrow> p \<in> set procs \<and> oom_candidate avail p \<and> 0 < oom_size oom_mem p \<and>
        (\<forall>q \<in> set procs. oom_candidate avail q \<longrightarrow> oom_size oom_mem q \<le> oom_size oom_mem p)"
proof (cases "\<exists>q \<in> set procs. oom_candidate avail q \<and> 0 < oom_size oom_mem q")
  case True
  then obtain p where "oom_scan oom_mem avail None 0 procs = Some p" "p \<in> set procs" "oom_candidate avail p"
    "0 < oom_size oom_mem p" "\<forall>q \<in> set procs. oom_candidate avail q \<longrightarrow> oom_size oom_mem q \<le> oom_size oom_mem p"
    using oom_scan_some [OF True, of None] by blast
  moreover from this(1) have "r = Some p" using assms by (cases panicking) (simp_all add: vm_pageout_oom_def)
  ultimately show ?thesis by simp
next
  case False
  then have none: "\<forall>q \<in> set procs. oom_candidate avail q \<longrightarrow> oom_size oom_mem q \<le> 0" by force
  then have "oom_scan oom_mem avail None 0 procs = None" by (intro oom_scan_none) blast
  then show ?thesis using none assms by (simp add: vm_pageout_oom_def)
qed

subsection \<open>The laundry thread\<close>

lemma sint_of_int: "0 \<le> k \<Longrightarrow> k < 2 ^ 31 \<Longrightarrow> sint (of_int k :: u_int) = k"
  by (subst sint_of_small) (simp_all add: unat_eq_nat_uint u_int_of_int)

lemma div_le_dividend_int: "0 \<le> t \<Longrightarrow> 0 < k \<Longrightarrow> t div k \<le> t" for t k :: int
  using zdiv_mono2 [of t 1 k] by simp

lemma u_min_eq: "0 \<le> a \<Longrightarrow> a < 2 ^ 32 \<Longrightarrow> 0 \<le> b \<Longrightarrow> b < 2 ^ 31 \<Longrightarrow> u_min a b = min a b"
  by (simp add: u_min_def min_def word_le_def u_int_of_int sint_of_int)

text \<open>Between two turns: no counter is negative, and a background run knows its first target.\<close>

definition laundry_ok :: "laundry \<Rightarrow> bool" where
  "laundry_ok l \<longleftrightarrow> 0 \<le> l_target l \<and> l_target l < 2 ^ 31 \<and> 0 \<le> l_cycle l \<and> l_shortfall l < 2 ^ 31 \<and>
     (\<not> l_in_shortfall l \<and> 0 < l_target l \<longrightarrow> l_last_target l \<noteq> None)"

text \<open>Targets and pages fit in an int, and laundering never undoes work.\<close>

definition laundry_env_ok :: "laundry_env \<Rightarrow> bool" where
  "laundry_env_ok e \<longleftrightarrow> unat (le_bg_target e) < 2 ^ 31 \<and>
     (\<forall>k. 0 \<le> le_laundered e k \<and> le_laundered e k < 2 ^ 32) \<and> le_target2 e + le_deficit e < 2 ^ 31"

lemma laundry_background_ok:
  assumes "0 \<le> l_target l" "l_target l < 2 ^ 31" "0 \<le> l_cycle l" "\<not> l_in_shortfall l" "laundry_env_ok e"
    "0 < l_target l \<longrightarrow> l_last_target l \<noteq> None"
  shows "\<exists>l' n. laundry_background e l = Inr (l', n) \<and> laundry_ok (l'\<lparr>l_shortfall := 0\<rparr>) \<and> n \<le> l_target l' \<and>
    \<not> l_in_shortfall l'"
proof -
  have bg: "0 \<le> sint (le_bg_target e)" "sint (le_bg_target e) < 2 ^ 31"
    using assms(5) by (simp_all add: laundry_env_ok_def sint_of_small uint_less_numeral)
  show ?thesis
    using assms(1-4,6) bg
    by (auto simp: laundry_background_def laundry_ok_def Let_def split: option.splits)
qed

lemma laundry_choose_ok:
  assumes l: "laundry_ok l" and e: "laundry_env_ok e"
  shows "\<exists>l' n. laundry_choose e l = Inr (l', n) \<and> laundry_ok (l'\<lparr>l_shortfall := 0\<rparr>) \<and> n \<le> l_target l'"
proof -
  have run: "c_div t k \<le> t" if "0 \<le> t" "0 < k" for t k :: int
    using that by (simp add: c_div_nonneg div_le_dividend_int)
  show ?thesis
  proof (cases "l_shortfall l \<le> 0 \<and> (\<not> l_in_shortfall l \<or> l_cycle l = 0 \<or> le_target1 e \<le> 0)")
    case True
    let ?l = "if l_in_shortfall l then l\<lparr>l_in_shortfall := False, l_target := 0\<rparr> else l"
    have "laundry_choose e l = laundry_background e ?l" using True by (auto simp: laundry_choose_def Let_def)
    moreover have "\<exists>l' n. laundry_background e ?l = Inr (l', n) \<and> laundry_ok (l'\<lparr>l_shortfall := 0\<rparr>) \<and> n \<le> l_target l' \<and>
      \<not> l_in_shortfall l'" using l e by (intro laundry_background_ok) (auto simp: laundry_ok_def)
    ultimately show ?thesis by auto
  next
    case False
    then show ?thesis
      using l run by (auto simp: laundry_choose_def laundry_ok_def Let_def VM_LAUNDER_RATE_def VM_INACT_SCAN_RATE_def)
  qed
qed

lemma laundry_turn_ok:
  assumes l: "laundry_ok l" and e: "laundry_env_ok e"
  shows "\<exists>l' n req. laundry_turn e l = Inr (l', n, req) \<and> laundry_ok l' \<and> 0 \<le> n"
proof -
  obtain k n where c: "laundry_choose e l = Inr (k, n)" "laundry_ok (k\<lparr>l_shortfall := 0\<rparr>)" "n \<le> l_target k"
    using laundry_choose_ok [OF l e] by blast
  have m: "u_min (le_laundered e n) (l_target k) = min (le_laundered e n) (l_target k)"
    using c(2) e by (intro u_min_eq) (simp_all add: laundry_ok_def laundry_env_ok_def)
  define t where "t = (if 0 < n then l_target k - min (le_laundered e n) (l_target k) else l_target k)"
  have b: "0 \<le> l_target k" "l_target k < 2 ^ 31" "0 \<le> le_laundered e n"
    using c(2) e by (simp_all add: laundry_ok_def laundry_env_ok_def)
  then have t: "0 \<le> t" "t < 2 ^ 31" "0 < t \<Longrightarrow> 0 < l_target k"
    by (simp_all add: t_def min_def split: if_splits)
  have upd: "(if 0 < n then k\<lparr>l_target := l_target k - u_min (le_laundered e n) (l_target k)\<rparr> else k) = k\<lparr>l_target := t\<rparr>"
    by (simp add: t_def m)
  define l' where "l' = (if le_request e = LAUNDRY_SHORTFALL \<and> (\<not> l_in_shortfall k \<or> l_cycle k = 0)
    then k\<lparr>l_target := 0, l_shortfall := le_target2 e + le_deficit e\<rparr> else k\<lparr>l_target := t, l_shortfall := 0\<rparr>)"
  have "0 \<le> l_target l" "0 \<le> l_cycle l" using l by (simp_all add: laundry_ok_def)
  then have "\<exists>req. laundry_turn e l = Inr (l', if 0 < n then n else 0, req)"
    unfolding laundry_turn_def laundry_finish_def c(1) Let_def rbind_simps prod.case upd l'_def
    by (cases "le_request e = LAUNDRY_SHORTFALL"; cases "l_in_shortfall k"; cases "l_cycle k = 0") simp_all
  moreover have "laundry_ok l'" using c(2) e t by (simp add: l'_def laundry_ok_def laundry_env_ok_def)
  ultimately show ?thesis by fastforce
qed

text \<open>
  A shortfall is spread over the turns that are left: the target is reached with the last of them when
  vm_laundry_target() asks for pages at every turn, and every laundering gives what it was asked for
  and at most \<open>c\<close> pages more, a cluster minus one.
\<close>

definition delivers :: "int \<Rightarrow> laundry_env \<Rightarrow> bool" where
  "delivers c e \<longleftrightarrow> 0 < le_target1 e \<and>
     (\<forall>k. 0 < k \<and> k < 2 ^ 31 \<longrightarrow> k \<le> le_laundered e k \<and> le_laundered e k \<le> k + c \<and> le_laundered e k < 2 ^ 31)"

definition laundered :: "laundry_env \<Rightarrow> int \<Rightarrow> int" where
  "laundered e n = (if n > 0 then le_laundered e n else 0)"

lemma shortfall_turn:
  assumes "delivers c e" "0 \<le> c" "l_in_shortfall l" "l_shortfall l \<le> 0" "0 < l_cycle l" "0 \<le> l_target l" "l_target l < 2 ^ 31"
    "le_request e \<noteq> LAUNDRY_SHORTFALL \<or> 1 < l_cycle l"
  shows "\<exists>t n req. laundry_turn e l = Inr (l\<lparr>l_shortfall := 0, l_last_launder := le_wakeups e, l_cycle := l_cycle l - 1,
      l_target := t\<rparr>, n, req) \<and> 0 \<le> t \<and> t \<le> l_target l \<and> (l_cycle l = 1 \<longrightarrow> t = 0) \<and>
      l_target l - t \<le> laundered e n \<and> laundered e n \<le> l_target l - t + c"
proof -
  let ?n = "l_target l div l_cycle l"
  have n: "0 \<le> ?n" "?n \<le> l_target l" "c_div (l_target l) (l_cycle l) = ?n"
    using assms by (simp_all add: pos_imp_zdiv_nonneg_iff div_le_dividend_int c_div_nonneg)
  have d: "?n \<le> le_laundered e ?n" "le_laundered e ?n \<le> ?n + c" "le_laundered e ?n < 2 ^ 31" if "0 < ?n"
    using assms(1,7) n(2) that unfolding delivers_def by fastforce+
  define t where "t = (if 0 < ?n then l_target l - min (le_laundered e ?n) (l_target l) else l_target l)"
  have m: "0 < ?n \<Longrightarrow> u_min (le_laundered e ?n) (l_target l) = min (le_laundered e ?n) (l_target l)"
    using assms(6,7) d by (intro u_min_eq) auto
  have "laundry_choose e l = Inr (l\<lparr>l_last_launder := le_wakeups e, l_cycle := l_cycle l - 1\<rparr>, ?n)"
    using assms n(3) by (simp add: laundry_choose_def delivers_def)
  then have "\<exists>req. laundry_turn e l = Inr (l\<lparr>l_shortfall := 0, l_last_launder := le_wakeups e, l_cycle := l_cycle l - 1,
      l_target := t\<rparr>, ?n, req)"
    using assms n m by (auto simp: laundry_turn_def laundry_finish_def delivers_def Let_def t_def)
  moreover have "0 \<le> t" "t \<le> l_target l" using assms(6) n d by (auto simp: t_def)
  moreover have "t = 0" if "l_cycle l = 1" using that d assms(6) by (auto simp: t_def)
  moreover have "l_target l - t \<le> laundered e ?n" "laundered e ?n \<le> l_target l - t + c"
    using n d assms(2) by (auto simp: t_def laundered_def)
  ultimately show ?thesis by blast
qed

lemma shortfall_met:
  assumes "list_all (delivers c) es" "0 \<le> c" "l_in_shortfall l" "l_shortfall l \<le> 0" "int (length es) = l_cycle l" "0 < l_cycle l"
    "0 \<le> l_target l" "l_target l < 2 ^ 31" "le_request (last es) \<noteq> LAUNDRY_SHORTFALL"
  shows "\<exists>l' n. laundry_run es l = Inr (l', n) \<and> l_target l' = 0 \<and> l_cycle l' = 0 \<and>
    l_target l \<le> n \<and> n \<le> l_target l + int (length es) * c"
  using assms
proof (induction es arbitrary: l)
  case (Cons e es)
  let ?l = "\<lambda>t. l\<lparr>l_shortfall := 0, l_last_launder := le_wakeups e, l_cycle := l_cycle l - 1, l_target := t\<rparr>"
  have "le_request e \<noteq> LAUNDRY_SHORTFALL \<or> 1 < l_cycle l" using Cons.prems(5,9) by (cases es) auto
  then obtain t n req where s: "laundry_turn e l = Inr (?l t, n, req)" and t: "0 \<le> t" "t \<le> l_target l" "l_cycle l = 1 \<Longrightarrow> t = 0"
    and n: "l_target l - t \<le> laundered e n" "laundered e n \<le> l_target l - t + c"
    using shortfall_turn [of c e l] Cons.prems by auto
  have "\<exists>l' m. laundry_run es (?l t) = Inr (l', m) \<and> l_target l' = 0 \<and> l_cycle l' = 0 \<and> t \<le> m \<and> m \<le> t + int (length es) * c"
  proof (cases es)
    case Nil
    then show ?thesis using Cons.prems(5) t by simp
  next
    case (Cons e' es')
    then show ?thesis using Cons.prems t Cons.IH [of "?l t"] by simp
  qed
  then obtain l' m where "laundry_run es (?l t) = Inr (l', m)" "l_target l' = 0" "l_cycle l' = 0" "t \<le> m" "m \<le> t + int (length es) * c"
    by blast
  then show ?case using n by (auto simp: s laundered_def [symmetric] algebra_simps)
qed simp

subsection \<open>The limits\<close>

text \<open>The free page limits are in order, far from overflow, when there are less than \<open>2 ^ 31\<close> pages; the
  wakeup threshold is 11 tenths of the minimum only up to the division.\<close>

lemma limits_ok:
  assumes "unat (lim_page_count l) < 2 ^ 31" "unat (lim_pageout_page_count l) \<le> 2 ^ 20" "unat maxbsize \<le> 2 ^ 20"
  defines "k \<equiv> vm_pageout_init maxbsize l"
  defines "lo \<equiv> (if 1024 < unat (lim_page_count l) then 4 + (unat (lim_page_count l) - 1024) div 200 else 4)"
  shows "unat (lim_free_min k) = lo + unat (lim_free_reserved k)"
    "unat (lim_free_severe k) = lo div 2 + unat (lim_free_reserved k)"
    "unat (lim_free_target k) = 4 * lo + unat (lim_free_reserved k)"
    "lim_interrupt_free_min k \<le> lim_pageout_free_min k" "lim_pageout_free_min k \<le> lim_free_reserved k"
    "unat (lim_wakeup_thresh k) = unat (lim_free_min k) div 10 * 11"
    "unat (lim_background_launder_target k) = 3 * lo div 10"
proof -
  define pc where "pc = lim_page_count l"
  define f :: u_int where "f = (if pc > 1024 then 4 + (pc - 1024) div 200 else 4)"
  define ppc where "ppc = (if pc < 2000 then 8 else lim_pageout_page_count l)"
  define pf :: u_int where "pf = 2 * maxbsize div 4096 + 2"
  define r where "r = ppc + pf + pc div 768"
  have u_pc: "unat pc < 2147483648" using assms(1) by (simp add: pc_def)
  have f: "unat f = lo"
  proof (cases "1024 < unat pc")
    case True
    have "unat (pc - 1024) = unat pc - 1024" using True by (simp add: unat_sub word_le_nat_alt)
    then have "unat ((pc - 1024) div 200) = (unat pc - 1024) div 200" by (simp add: unat_div)
    moreover have "(unat pc - 1024) div 200 < 2 ^ 31" using u_pc by (simp add: div_less_dividend less_mult_imp_div_less)
    ultimately have "unat (4 + (pc - 1024) div 200) = 4 + (unat pc - 1024) div 200" by (subst u_int_add) simp_all
    then show ?thesis using True by (simp add: f_def lo_def pc_def word_less_nat_alt)
  qed (simp add: f_def lo_def pc_def word_less_nat_alt)
  have "unat pc - 1024 \<le> 2147483647" using u_pc by simp
  then have lo: "lo \<le> 10737422" using div_le_mono [of "unat pc - 1024" 2147483647 200] by (simp add: lo_def pc_def)
  have m: "unat (2 * maxbsize) = 2 * unat maxbsize" using assms(3) by (subst u_int_mult) simp_all
  have "2 * unat maxbsize div 4096 \<le> 512" using assms(3) by simp
  then have pf: "unat pf \<le> 514"
    unfolding pf_def using m by (subst u_int_add) (simp_all add: unat_div)
  have p: "unat ppc \<le> 1048576" using assms(2) by (simp add: ppc_def)
  have "unat pc \<le> 2147483647" using u_pc by simp
  then have q: "unat (pc div 768) \<le> 2796202" using div_le_mono [of "unat pc" 2147483647 768] by (simp add: unat_div)
  have pp: "unat (ppc + pf) = unat ppc + unat pf" using p pf by (intro u_int_add) simp
  then have r: "unat r = unat ppc + unat pf + unat (pc div 768)" unfolding r_def using p pf q by (subst u_int_add) simp_all
  then have r_le: "unat r \<le> 3845292" using p pf q by simp
  have f4: "unat (4 * f) = 4 * lo" using lo f by (subst u_int_mult) simp_all
  have tgt: "unat (4 * f + r) = 4 * lo + unat r" using f4 lo r_le by (subst u_int_add) simp_all
  have mn: "unat (f + r) = lo + unat r" using f lo r_le by (subst u_int_add) simp_all
  have sv: "unat (f div 2 + r) = lo div 2 + unat r" using f lo r_le by (subst u_int_add) (simp_all add: unat_div)
  have "(lo + unat r) div 10 * 11 < 2 ^ 32" using lo r_le by simp
  then have th: "unat ((f + r) div 10 * 11) = (lo + unat r) div 10 * 11"
    using mn by (subst u_int_mult) (simp_all add: unat_div)
  have "4 * f + r - (f + r) = 3 * f" by simp
  moreover have "unat (3 * f) = 3 * lo" using lo f by (subst u_int_mult) simp_all
  ultimately have "unat (4 * f + r - (f + r)) = 3 * lo" by (simp only:)
  then have bg: "unat ((4 * f + r - (f + r)) div 10) = 3 * lo div 10" unfolding unat_div by (simp only: unat_numeral, simp)
  have k: "lim_free_min k = f + r" "lim_free_reserved k = r" "lim_free_severe k = f div 2 + r" "lim_free_target k = 4 * f + r"
    "lim_interrupt_free_min k = 2" "lim_pageout_free_min k = pf" "lim_wakeup_thresh k = (f + r) div 10 * 11"
    "lim_background_launder_target k = (4 * f + r - (f + r)) div 10"
    by (simp_all add: k_def vm_pageout_init_def Let_def f_def r_def pf_def ppc_def pc_def)
  show "unat (lim_free_min k) = lo + unat (lim_free_reserved k)" unfolding k by (rule mn)
  show "unat (lim_free_severe k) = lo div 2 + unat (lim_free_reserved k)" unfolding k by (rule sv)
  show "unat (lim_free_target k) = 4 * lo + unat (lim_free_reserved k)" unfolding k by (rule tgt)
  show "unat (lim_wakeup_thresh k) = unat (lim_free_min k) div 10 * 11" unfolding k by (simp only: th mn)
  show "unat (lim_background_launder_target k) = 3 * lo div 10" unfolding k by (rule bg)
  show "lim_interrupt_free_min k \<le> lim_pageout_free_min k"
    unfolding k pf_def word_le_nat_alt using m assms(3) by (subst u_int_add) (simp_all add: unat_div)
  show "lim_pageout_free_min k \<le> lim_free_reserved k" unfolding k word_le_nat_alt r by simp
qed

end
