(* ===== verification/VmScanLaws.thy ===== *)
theory VmScanLaws
  imports VmSteps VmScan VmDaemonLaws
begin

text \<open>
  The scans of the page daemon keep the invariants of the queues and of the objects while other
  threads run between their steps, and left alone they take the pages in queue order.
\<close>

subsection \<open>What the operations of a scan leave alone\<close>

text \<open>The pages handed back to the physical allocator, in order.\<close>

definition freed :: "'r vm \<Rightarrow> pg list" where
  "freed s = concat (map (\<lambda>c. case c of FreePage m \<Rightarrow> [m] | _ \<Rightarrow> []) (calls s))"

definition fixed where
  "fixed s = (phys_domain s, vmd_inacthead s, vmd_marker s, vmd_laundry_marker s, is_modified s, obj_ref_count s, obj_dead s,
     obj_anonymous s, obj_size s)"

lemma fixedD:
  assumes "fixed s' = fixed s"
  shows "phys_domain s' = phys_domain s" "vmd_inacthead s' = vmd_inacthead s" "vmd_marker s' = vmd_marker s"
    "vmd_laundry_marker s' = vmd_laundry_marker s" "is_modified s' = is_modified s"
    "obj_ref_count s' = obj_ref_count s" "obj_dead s' = obj_dead s" "obj_anonymous s' = obj_anonymous s" "obj_size s' = obj_size s"
  using assms by (simp_all add: fixed_def)

lemmas updaters = upd_pg_def set_pq_def vm_pagequeue_cnt_add_def set_memq_def set_rtree_def add_resident_def
  adj_free_def vm_call_def

lemma fixed_simps [simp]:
  "fixed (upd_pg x f s) = fixed s" "fixed (set_pq d q l s) = fixed s" "fixed (vm_pagequeue_cnt_add d q k s) = fixed s"
  "fixed (set_memq ob l s) = fixed s" "fixed (set_rtree ob t s) = fixed s" "fixed (add_resident ob k s) = fixed s"
  "fixed (adj_free E x k s) = fixed s" "fixed (vm_call c s) = fixed s"
  by (simp_all add: fixed_def updaters)

lemma is_mapped_simps [simp]:
  "is_mapped (upd_pg x f s) = is_mapped s" "is_mapped (set_pq d q l s) = is_mapped s"
  "is_mapped (vm_pagequeue_cnt_add d q k s) = is_mapped s"
  "is_mapped (set_memq ob l s) = is_mapped s" "is_mapped (set_rtree ob t s) = is_mapped s" "is_mapped (add_resident ob k s) = is_mapped s"
  "is_mapped (adj_free E x k s) = is_mapped s" "is_mapped (vm_call c s) = is_mapped s"
  by (simp_all add: updaters)

lemma freed_simps [simp]:
  "freed (upd_pg x f s) = freed s" "freed (set_pq d q l s) = freed s" "freed (vm_pagequeue_cnt_add d q k s) = freed s"
  "freed (set_memq ob l s) = freed s" "freed (set_rtree ob t s) = freed s" "freed (add_resident ob k s) = freed s"
  "freed (adj_free E x k s) = freed s" "freed (vm_call c s) = freed s @ (case c of FreePage m \<Rightarrow> [m] | _ \<Rightarrow> [])"
  by (simp_all add: updaters freed_def)

lemma pq_pl_simps [simp]:
  "pq_pl (set_memq ob l s) = pq_pl s" "pq_pl (set_rtree ob t s) = pq_pl s" "pq_pl (add_resident ob k s) = pq_pl s"
  "pq_pl (adj_free E x k s) = pq_pl s" "pq_pl (vm_call c s) = pq_pl s"
  by (simp_all add: updaters)

lemma field_simps_vm [simp]:
  "fixed (s\<lparr>memattr_default := u1\<rparr>) = fixed s" "fixed (s\<lparr>vm_page_zero_count := u2\<rparr>) = fixed s"
  "fixed (s\<lparr>vm_pages_needed := u3\<rparr>) = fixed s" "fixed (s\<lparr>vm_pageout_pages_needed := u3\<rparr>) = fixed s"
  "fixed (s\<lparr>is_mapped := u4\<rparr>) = fixed s"
  "freed (s\<lparr>memattr_default := u1\<rparr>) = freed s" "freed (s\<lparr>vm_page_zero_count := u2\<rparr>) = freed s"
  "freed (s\<lparr>vm_pages_needed := u3\<rparr>) = freed s" "freed (s\<lparr>vm_pageout_pages_needed := u3\<rparr>) = freed s"
  "freed (s\<lparr>is_mapped := u4\<rparr>) = freed s"
  by (simp_all add: fixed_def freed_def)

text \<open>One relation for what freeing a page off the queues, cleaning its mappings and the like keep.\<close>

definition off_queue_step :: "pg list \<Rightarrow> 'r vm \<Rightarrow> 'r vm \<Rightarrow> bool" where
  "off_queue_step fs s s' \<longleftrightarrow> fixed s' = fixed s \<and> pq_pl s' = pq_pl s \<and> is_mapped s' = is_mapped s \<and> freed s' = freed s @ fs"

lemma off_queue_refl [simp]: "off_queue_step [] s s"
  by (simp add: off_queue_step_def)

lemma off_queue_trans: "off_queue_step fs s t \<Longrightarrow> off_queue_step gs t u \<Longrightarrow> off_queue_step (fs @ gs) s u"
  by (simp add: off_queue_step_def)

lemma off_queue_simps [simp]:
  "off_queue_step fs s (upd_pg x f t) = off_queue_step fs s t" "off_queue_step fs s (set_memq ob l t) = off_queue_step fs s t"
  "off_queue_step fs s (set_rtree ob r t) = off_queue_step fs s t" "off_queue_step fs s (add_resident ob k t) = off_queue_step fs s t"
  "off_queue_step fs s (adj_free E x k t) = off_queue_step fs s t"
  "off_queue_step fs s (t\<lparr>memattr_default := u1\<rparr>) = off_queue_step fs s t"
  "off_queue_step fs s (t\<lparr>vm_page_zero_count := u2\<rparr>) = off_queue_step fs s t"
  "off_queue_step fs s (t\<lparr>vm_pages_needed := u3\<rparr>) = off_queue_step fs s t"
  "off_queue_step fs s (t\<lparr>vm_pageout_pages_needed := u3\<rparr>) = off_queue_step fs s t"
  "(case c of FreePage m \<Rightarrow> [m] | _ \<Rightarrow> []) = [] \<Longrightarrow> off_queue_step fs s (vm_call c t) = off_queue_step fs s t"
  by (simp_all add: off_queue_step_def)

lemma off_queue_call_if [simp]:
  "(case c of FreePage m \<Rightarrow> [m] | _ \<Rightarrow> []) = [] \<Longrightarrow> off_queue_step fs s (call_if b c t) = off_queue_step fs s t"
  by (simp add: call_if_def)

lemma off_queue_set_busy [simp]: "off_queue_step fs s (set_busy m xw t) = off_queue_step fs s t"
  by (simp add: set_busy_def)

lemma remove_step: "vm_page_remove R m s = Inr s' \<Longrightarrow> off_queue_step [] s s'"
  by (auto simp: vm_page_remove_def Let_def split: option.splits if_splits prod.splits)

lemma free_phys_step:
  "off_queue_step [] s t \<Longrightarrow> off_queue_step [m] s (vm_page_free_wakeup E (vm_page_free_phys E m t))"
proof -
  assume t: "off_queue_step [] s t"
  have w: "off_queue_step fs s (vm_page_free_wakeup E u) = off_queue_step fs s u" for fs u
    by (simp add: vm_page_free_wakeup_def Let_def)
  have "off_queue_step [m] s (vm_call (FreePage m) (adj_free E m 1 t))" using t by (simp add: off_queue_step_def)
  then show ?thesis by (simp add: w vm_page_free_phys_def Let_def)
qed

lemma frees_freed: "frees s m = count_list (freed s) m"
proof -
  have "count_list cs (FreePage m) = count_list (concat (map (\<lambda>c. case c of FreePage m \<Rightarrow> [m] | _ \<Rightarrow> []) cs)) m" for cs
    by (induction cs) (auto split: vm_call.splits)
  then show ?thesis by (simp add: frees_def freed_def)
qed

text \<open>A page that is off the queues is freed once and nothing else changes on the queues.\<close>

lemma pages_call: "pages (vm_call c s) = pages s"
  by (simp add: vm_call_def)

lemma remove_flags: "vm_page_remove R m s = Inr s' \<Longrightarrow> pg_flags (pages s' x) = pg_flags (pages s x)"
  by (auto simp: vm_page_remove_def Let_def set_busy_def call_if_def updaters split: option.splits if_splits prod.splits)

lemma free_off_queue:
  assumes R: "radix_ok (radix_ops E) a" and inv: "vm_inv n a s" and m: "freeable s m"
    and q: "queue (pages s m) = 255" and h: "hold_count (pages s m) = 0"
  shows "\<exists>s'. vm_page_free E m s = Inr s' \<and> vm_inv n a s' \<and> off_queue_step [m] s s' \<and> queue (pages s' m) = 255 \<and>
    pg_object (pages s' m) = None \<and> \<not> marker s' m \<and> (\<forall>x. x \<noteq> m \<longrightarrow> pages s' x = pages s x)"
proof -
  let ?s = "upd_pg m (\<lambda>p. p\<lparr>pg_flags := pg_flags p AND NOT PG_ZERO\<rparr>) s"
  obtain s' where s': "vm_page_free E m s = Inr s'" "vm_inv n a s'" "page_idle s' m" "\<forall>x. x \<noteq> m \<longrightarrow> pages s' x = pages s x"
    "frees s' m = frees s m + 1"
    using free_ok [OF R inv m] h by auto
  obtain t b where t: "vm_page_free_prep E m False ?s = Inr (t, b)"
    "s' = (if b then vm_page_free_wakeup E (vm_page_free_phys E m t) else t)"
    using s'(1) by (auto simp: vm_page_free_def vm_page_free_toq_def)
  obtain u where u: "vm_page_remove (radix_ops E) m ?s = Inr u" and rest: "off_queue_step [] u t"
    "b \<Longrightarrow> pg_flags (pages t m) = pg_flags (pages u m)"
    using t(1) q by (auto simp: vm_page_free_prep_def Let_def vm_page_undirty_def pages_call split: if_splits)
  have st: "off_queue_step [] s t" using off_queue_trans [OF remove_step [OF u] rest(1)] by (simp add: off_queue_step_def)
  have b
  proof (rule ccontr)
    assume "\<not> b"
    then have "freed s' = freed s" using st t(2) by (simp add: off_queue_step_def)
    then show False using s'(5) by (simp add: frees_freed)
  qed
  then have "off_queue_step [m] s s'" using free_phys_step [OF st] t(2) by simp
  moreover have "\<not> marker s' m"
  proof -
    have "pages s' = pages t"
      using \<open>b\<close> t(2) vm_sameD(3) [of t "vm_page_free_wakeup E (vm_page_free_phys E m t)"] by simp
    then have "pg_flags (pages s' m) = pg_flags (pages s m) AND NOT PG_ZERO"
      using rest(2) [OF \<open>b\<close>] remove_flags [OF u, of m] by simp
    then show ?thesis using m by (simp add: freeable_def marker_def zero_bits)
  qed
  ultimately show ?thesis using s' by (auto simp: page_idle_def Let_def)
qed

subsection \<open>The invariant of a scan\<close>

text \<open>A queued page belongs to an object, is only mapped when the object is and it holds data, and only
  a page that is valid as a whole is modified or dirty.\<close>

definition reclaimable :: "'r vm \<Rightarrow> pg \<Rightarrow> bool" where
  "reclaimable s m \<longleftrightarrow>
     (case pg_object (pages s m) of None \<Rightarrow> False
      | Some ob \<Rightarrow> is_mapped s m \<longrightarrow> obj_ref_count s ob \<noteq> 0 \<and> valid (pages s m) \<noteq> 0) \<and>
     (is_modified s m \<or> dirty (pages s m) \<noteq> 0 \<longrightarrow> valid (pages s m) = VM_PAGE_BITS_ALL)"

lemma reclaimable_cong:
  "pages s' x = pages s x \<Longrightarrow> is_mapped s' x = is_mapped s x \<Longrightarrow> is_modified s' x = is_modified s x \<Longrightarrow>
   obj_ref_count s' = obj_ref_count s \<Longrightarrow> reclaimable s' x = reclaimable s x"
  by (simp add: reclaimable_def split: option.split)

text \<open>A page of an object is only modified when it is valid as a whole.\<close>

definition sound_bits :: "'r vm \<Rightarrow> pg \<Rightarrow> bool" where
  "sound_bits s m \<longleftrightarrow> (pg_object (pages s m) \<noteq> None \<longrightarrow> is_modified s m \<longrightarrow> valid (pages s m) = VM_PAGE_BITS_ALL)"

lemma reclaimable_sound: "reclaimable s m \<Longrightarrow> sound_bits s m"
  by (simp add: reclaimable_def sound_bits_def)

lemma sound_bits_cong: "pages s' x = pages s x \<Longrightarrow> is_modified s' x = is_modified s x \<Longrightarrow> sound_bits s' x = sound_bits s x"
  by (simp add: sound_bits_def)

definition scan_inv :: "nat \<Rightarrow> ('r \<Rightarrow> u_long \<Rightarrow> pg option) \<Rightarrow> 'r vm \<Rightarrow> bool" where
  "scan_inv n a s \<longleftrightarrow> vm_inv n a s \<and>
     (\<forall>x. marker s x \<longrightarrow> pg_object (pages s x) = None) \<and>
     (\<forall>d q x. q < PQ_COUNT \<longrightarrow> marker s x \<longrightarrow> x \<in> set (pq_pl s d q) \<longrightarrow> queue (pages s x) = q) \<and>
     (\<forall>x. \<not> marker s x \<longrightarrow> queue (pages s x) < PQ_COUNT \<longrightarrow> reclaimable s x) \<and>
     (\<forall>x. \<not> marker s x \<longrightarrow> sound_bits s x)"

text \<open>A marker that is in use nowhere.\<close>

definition spare :: "'r vm \<Rightarrow> pg \<Rightarrow> bool" where
  "spare s x \<longleftrightarrow> marker s x \<and> (\<forall>d q. q < PQ_COUNT \<longrightarrow> x \<notin> set (pq_pl s d q)) \<and> (\<forall>d. x \<noteq> vmd_inacthead s d)"

text \<open>What others may do to a thread that owns the markers \<open>own\<close>: anything that keeps the invariant, the
  layout of the machine and which pages are markers at all, and that neither moves nor rewrites the
  markers of the thread, apart from those in \<open>X\<close>. They may put their own markers into the queues, move
  them and take them out again.\<close>

definition interferes :: "pg set \<Rightarrow> pg set \<Rightarrow> nat \<Rightarrow> ('r \<Rightarrow> u_long \<Rightarrow> pg option) \<Rightarrow> 'r vm \<Rightarrow> 'r vm \<Rightarrow> bool" where
  "interferes own X n a s s' \<longleftrightarrow> scan_inv n a s' \<and> (\<forall>x. marker s' x \<longleftrightarrow> marker s x) \<and>
     (\<forall>x \<in> own. marker s x \<longrightarrow> x \<notin> X \<longrightarrow> pages s' x = pages s x) \<and>
     (\<forall>x \<in> own. marker s x \<longrightarrow> (\<forall>d q. q < PQ_COUNT \<longrightarrow> x \<in> set (pq_pl s' d q) \<longleftrightarrow> x \<in> set (pq_pl s d q))) \<and>
     phys_domain s' = phys_domain s \<and> vmd_inacthead s' = vmd_inacthead s \<and> vmd_marker s' = vmd_marker s \<and>
     vmd_laundry_marker s' = vmd_laundry_marker s"

definition bystanders :: "pg set \<Rightarrow> nat \<Rightarrow> ('r \<Rightarrow> u_long \<Rightarrow> pg option) \<Rightarrow> ('r vm \<Rightarrow> 'r vm) \<Rightarrow> bool" where
  "bystanders own n a f \<longleftrightarrow> (\<forall>s. scan_inv n a s \<longrightarrow> interferes own {} n a s (f s))"

lemma interferes_refl: "scan_inv n a s \<Longrightarrow> interferes own X n a s s"
  by (simp add: interferes_def)

lemma interferes_trans: "interferes own X n a s t \<Longrightarrow> interferes own X n a t u \<Longrightarrow> interferes own X n a s u"
  unfolding interferes_def by metis

lemma interferes_mono: "interferes own X n a s t \<Longrightarrow> X \<subseteq> Y \<Longrightarrow> interferes own Y n a s t"
  unfolding interferes_def by blast

lemma interferes_inv: "interferes own X n a s t \<Longrightarrow> scan_inv n a t" "interferes own X n a s t \<Longrightarrow> marker t x \<longleftrightarrow> marker s x"
  by (simp_all add: interferes_def)

lemma interferes_spare: "interferes own X n a s s' \<Longrightarrow> spare s x \<Longrightarrow> x \<in> own \<Longrightarrow> spare s' x"
  unfolding interferes_def spare_def by simp

text \<open>The marker that a thread rewrites and moves does not concern the other threads.\<close>

lemma interferes_foreign: "interferes own X n a s t \<Longrightarrow> X \<inter> own = {} \<Longrightarrow> interferes own {} n a s t"
  unfolding interferes_def by blast

lemma scan_invD:
  assumes "scan_inv n a s"
  shows "vm_inv n a s" "vm_wf n s" "obj_wf a s" "\<And>x. marker s x \<Longrightarrow> pg_object (pages s x) = None"
    "\<And>d q x. q < 3 \<Longrightarrow> marker s x \<Longrightarrow> x \<in> set (pq_pl s d q) \<Longrightarrow> queue (pages s x) = q"
    "\<And>x. \<not> marker s x \<Longrightarrow> queue (pages s x) < 3 \<Longrightarrow> reclaimable s x" "\<And>x. \<not> marker s x \<Longrightarrow> sound_bits s x"
  using assms by (simp_all add: scan_inv_def vm_inv_def)

text \<open>Every entry of a list of a queue says which queue it is on.\<close>

lemma entry_queue:
  assumes "scan_inv n a s" "x \<in> set (pq_pl s d q)" "q < 3"
  shows "queue (pages s x) = q"
  using scan_invD(2,5) [OF assms(1)] queued_elem [OF scan_invD(2) [OF assms(1)] _ assms(3)] assms(2,3) by blast

lemma tailq_next_mem: "tailq_next x l = Some y \<Longrightarrow> y \<in> set l"
  by (induction l) (auto split: if_splits dest: tailq_first_SomeD)

lemma tailq_prev_mem: "tailq_prev x l = Some y \<Longrightarrow> y \<in> set l"
  using tailq_next_mem [of x "rev l" y] by (simp add: tailq_prev_def)

lemma tailq_next_remove1:
  assumes "distinct l" "tailq_next x l = Some y"
  shows "y \<in> set (remove1 x l)"
proof -
  have "x \<in> set l" using assms(2) by (induction l) (auto split: if_splits)
  then obtain xs ys where "l = xs @ x # ys" "tailq_next x l = tailq_first ys" "remove1 x l = xs @ ys"
    using split_distinct [OF assms(1)] by metis
  then show ?thesis using assms(2) by (auto dest: tailq_first_SomeD)
qed

text \<open>Moving markers in a list keeps the invariants.\<close>

lemma vm_inv_markers:
  assumes inv: "vm_inv n a s" and q: "q < 3" and l: "distinct l"
    "filter (\<lambda>x. \<not> marker s x) l = queued s d q" "q = 0 \<Longrightarrow> vmd_inacthead s d \<in> set l"
  shows "vm_inv n a (set_pq d q l s)"
proof -
  let ?s = "set_pq d q l s"
  have wf: "vm_wf n s" and obj: "obj_wf a s" using inv by (simp_all add: vm_inv_def)
  have mk: "marker ?s x = marker s x" for x by (simp add: marker_def)
  have el: "x \<in> set l \<longleftrightarrow> x \<in> set (pq_pl s d q)" if "\<not> marker s x" for x
  proof -
    have "x \<in> set (filter (\<lambda>x. \<not> marker s x) l) \<longleftrightarrow> x \<in> set (queued s d q)" by (simp only: l(2))
    then show ?thesis using that by (simp add: queued_def)
  qed
  have "vm_wf n ?s"
  proof (rule vm_wfI)
    show "page_ok n ?s x" if "\<not> marker ?s x" for x
      using vm_wfD(1) [OF wf, of x] that by (simp add: mk page_ok_def fictitious_def unmanaged_def)
    show "list_ok ?s d' q'" if q': "q' < 3" for d' q'
    proof -
      have "list_ok s d' q'" by (rule vm_wfD(2) [OF wf q'])
      then show ?thesis
        using l(1,2) el unfolding list_ok_def queued_def mk home_def by (cases "d' = d"; cases "q' = q") simp_all
    qed
  qed (use vm_wfD [OF wf] l(3) in \<open>auto simp: mk\<close>)
  moreover have "obj_wf a ?s" by (rule obj_wf_same [OF obj]) simp
  ultimately show ?thesis by (simp add: vm_inv_def)
qed

lemma scan_inv_markers:
  assumes inv: "scan_inv n a s" and q: "q < 3" and l: "distinct l"
    "filter (\<lambda>x. \<not> marker s x) l = queued s d q" "q = 0 \<Longrightarrow> vmd_inacthead s d \<in> set l"
    and m: "\<And>x. x \<in> set l \<Longrightarrow> marker s x \<Longrightarrow> queue (pages s x) = q"
  shows "scan_inv n a (set_pq d q l s)"
proof -
  have mk: "marker (set_pq d q l s) x = marker s x" for x by (simp add: marker_def)
  have "reclaimable (set_pq d q l s) x = reclaimable s x" for x
    unfolding reclaimable_def by (simp add: set_pq_def split: option.split)
  moreover have "sound_bits (set_pq d q l s) x = sound_bits s x" for x by (simp add: sound_bits_def set_pq_def)
  ultimately show ?thesis
    using vm_inv_markers [OF scan_invD(1) [OF inv] q l] scan_invD [OF inv] m
    by (auto simp: scan_inv_def mk)
qed


lemma scan_list:
  assumes "scan_inv n a s" "q < 3"
  shows "distinct (pq_pl s d q)" "q = 0 \<Longrightarrow> vmd_inacthead s d \<in> set (pq_pl s d q)"
  using vm_wfD(2,5) [OF scan_invD(2) [OF assms(1)]] assms(2) by (simp_all add: list_ok_def)

text \<open>A spare marker goes behind an entry of a list and comes out again.\<close>

lemma interferes_set_pq:
  assumes "scan_inv n a (set_pq d q l s)" "\<And>x. x \<in> own \<Longrightarrow> marker s x \<Longrightarrow> x \<in> set l \<longleftrightarrow> x \<in> set (pq_pl s d q)"
  shows "interferes own X n a s (set_pq d q l s)"
  using assms by (simp add: interferes_def marker_def set_pq_def)

lemma mark_in:
  assumes inv: "scan_inv n a s" and x: "marker s x" "x \<notin> set (pq_pl s d q)" "queue (pages s x) = q" and q: "q < 3"
    and m: "m \<in> set (pq_pl s d q)"
  shows "tailq_insert_after m x (pq_pl s d q) = Inr (insert_after m x (pq_pl s d q))"
    "scan_inv n a (set_pq d q (insert_after m x (pq_pl s d q)) s)"
    "distinct (insert_after m x (pq_pl s d q))" "set (insert_after m x (pq_pl s d q)) = insert x (set (pq_pl s d q))"
proof -
  show "tailq_insert_after m x (pq_pl s d q) = Inr (insert_after m x (pq_pl s d q))"
    using m by (simp add: tailq_insert_after_def)
  obtain xs ys where l: "pq_pl s d q = xs @ m # ys" "insert_after m x (pq_pl s d q) = xs @ m # x # ys"
    using split_distinct [OF scan_list(1) [OF inv q] m] by metis
  have d: "distinct (pq_pl s d q)" by (rule scan_list(1) [OF inv q])
  then show di: "distinct (insert_after m x (pq_pl s d q))" using x(2) unfolding l(2) by (auto simp: l(1))
  show se: "set (insert_after m x (pq_pl s d q)) = insert x (set (pq_pl s d q))" unfolding l(2) by (auto simp: l(1))
  show "scan_inv n a (set_pq d q (insert_after m x (pq_pl s d q)) s)"
  proof (rule scan_inv_markers [OF inv q di])
    show "filter (\<lambda>x. \<not> marker s x) (insert_after m x (pq_pl s d q)) = queued s d q"
      using x(1) unfolding l(2) by (simp add: l(1) queued_def)
    show "q = 0 \<Longrightarrow> vmd_inacthead s d \<in> set (insert_after m x (pq_pl s d q))"
      unfolding se using scan_list(2) [OF inv q] by simp
    show "y \<in> set (insert_after m x (pq_pl s d q)) \<Longrightarrow> marker s y \<Longrightarrow> queue (pages s y) = q" for y
      using x(3) scan_invD(5) [OF inv q] by (auto simp: se)
  qed
qed

lemma mark_out:
  assumes inv: "scan_inv n a s" and x: "marker s x" "x \<in> set (pq_pl s d q)" "\<And>d. x \<noteq> vmd_inacthead s d" and q: "q < 3"
  shows "tailq_remove x (pq_pl s d q) = Inr (remove1 x (pq_pl s d q))"
    "scan_inv n a (set_pq d q (remove1 x (pq_pl s d q)) s)"
proof -
  show "tailq_remove x (pq_pl s d q) = Inr (remove1 x (pq_pl s d q))" using x(2) by (simp add: tailq_remove_def)
  have d: "distinct (pq_pl s d q)" by (rule scan_list(1) [OF inv q])
  show "scan_inv n a (set_pq d q (remove1 x (pq_pl s d q)) s)"
  proof (rule scan_inv_markers [OF inv q])
    show "distinct (remove1 x (pq_pl s d q))" using d by simp
    show "filter (\<lambda>x. \<not> marker s x) (remove1 x (pq_pl s d q)) = queued s d q"
      using x(1) by (simp add: queued_def filter_remove1)
    show "q = 0 \<Longrightarrow> vmd_inacthead s d \<in> set (remove1 x (pq_pl s d q))"
      using scan_list(2) [OF inv q] x(3) d by (metis in_set_remove1)
    show "y \<in> set (remove1 x (pq_pl s d q)) \<Longrightarrow> marker s y \<Longrightarrow> queue (pages s y) = q" for y
      using scan_invD(5) [OF inv q] notin_set_remove1 by metis
  qed
qed


subsection \<open>Waiting for a lock\<close>

lemma init_marker_ok:
  assumes inv: "scan_inv n a s" and x: "spare s x"
  shows "scan_inv n a (vm_pageout_init_marker x q s)" "interferes own {x} n a s (vm_pageout_init_marker x q s)"
    "spare (vm_pageout_init_marker x q s) x"
proof -
  let ?s = "vm_pageout_init_marker x q s"
  have mkx: "marker s x" using x by (simp add: spare_def)
  have mk: "marker ?s y = marker s y" for y
    using mkx by (simp add: vm_pageout_init_marker_def marker_def marker_page_def PG_MARKER_def)
  have fields: "pq_pl ?s = pq_pl s" "pq_cnt ?s = pq_cnt s" "pq_vcnt ?s = pq_vcnt s" "phys_domain ?s = phys_domain s"
    "vmd_inacthead ?s = vmd_inacthead s" "vmd_marker ?s = vmd_marker s" "vmd_laundry_marker ?s = vmd_laundry_marker s"
    "is_modified ?s = is_modified s" "obj_ref_count ?s = obj_ref_count s" "is_mapped ?s = is_mapped s"
    by (simp_all add: vm_pageout_init_marker_def upd_pg_def)
  have other: "pages ?s y = pages s y" if "y \<noteq> x" for y using that by (simp add: vm_pageout_init_marker_def)
  have page: "pages ?s y = pages s y" if "\<not> marker s y" for y using that mkx by (intro other) auto
  have wf: "vm_wf n ?s"
    using scan_invD(2) [OF inv] page
    unfolding vm_wf_def page_ok_def list_ok_def queued_def mk fields home_def fictitious_def unmanaged_def by simp
  have none: "pg_object (pages s x) = None" using scan_invD(4) [OF inv mkx] .
  have obj: "obj_wf a ?s"
    unfolding obj_wf_def
  proof
    fix ob
    show "obj_ok a ?s ob"
    proof (rule obj_ok_transfer)
      show "obj_ok a s ob" using scan_invD(3) [OF inv] by (simp add: obj_wf_def)
      show "pindex (pages ?s y) = pindex (pages s y)" if "pg_object (pages s y) = Some ob" for y
        using that none by (subst other) auto
      show "pg_object (pages ?s y) = Some ob \<longleftrightarrow> pg_object (pages s y) = Some ob" for y
        using none other [of y] by (cases "y = x") (simp_all add: vm_pageout_init_marker_def marker_page_def)
    qed (simp_all add: vm_pageout_init_marker_def upd_pg_def)
  qed
  have rec: "reclaimable ?s y = reclaimable s y" if "\<not> marker s y" for y
    by (rule reclaimable_cong) (simp_all add: page that fields)
  have snd: "sound_bits ?s y = sound_bits s y" if "\<not> marker s y" for y
    by (rule sound_bits_cong) (simp_all add: page that fields)
  have mobj: "pg_object (pages ?s y) = None" if "marker s y" for y
    using scan_invD(4) [OF inv that] other [of y]
    by (cases "y = x") (simp_all add: vm_pageout_init_marker_def marker_page_def)
  have mqueue: "queue (pages ?s y) = q'" if "q' < 3" "marker s y" "y \<in> set (pq_pl s d q')" for d q' y
  proof -
    have "y \<noteq> x" using x that(1,3) by (auto simp: spare_def)
    then show ?thesis using other [of y] scan_invD(5) [OF inv that] by simp
  qed
  show sc: "scan_inv n a ?s"
    using wf obj mobj mqueue rec snd page scan_invD(6,7) [OF inv] by (simp add: scan_inv_def vm_inv_def mk fields)
  show "interferes own {x} n a s ?s" using sc other by (simp add: interferes_def mk fields)
  show "spare ?s x" using x by (simp add: spare_def mk fields)
qed

text \<open>The state in which the waiting thread looks for its place again, and what it makes of it.\<close>

definition found_place :: "pg \<Rightarrow> pg \<Rightarrow> nat \<Rightarrow> u_char \<Rightarrow> ('r vm \<Rightarrow> 'r vm) \<Rightarrow> 'r vm \<Rightarrow> 'r vm" where
  "found_place x m d q others s = others (set_pq d q (insert_after m x (pq_pl s d q)) (vm_pageout_init_marker x q s))"

lemma marked_wait_exact:
  assumes inv: "scan_inv n a s" and m: "\<not> marker s m" "m \<in> set (pq_pl s d q)" and q: "q < 3" and x: "spare s x" "x \<in> own"
    and f: "bystanders own n a f"
  defines "u \<equiv> found_place x m d q f s"
  shows "\<exists>xs ys. pq_pl u d q = xs @ x # ys \<and> x \<notin> set (xs @ ys) \<and> marked_wait x m so f s =
      Inr (set_pq d q (xs @ ys) u, (so \<longrightarrow> pg_object (pages u m) = pg_object (pages s m)) \<and> tailq_first (rev xs) = Some m, tailq_first ys) \<and>
    interferes own {x} n a s (set_pq d q (xs @ ys) u)"
proof -
  have qm: "queue (pages s m) = q" "d = home s m q"
    using queued_elem [OF scan_invD(2) [OF inv] m(1) q, of d] m(2) by simp_all
  let ?s = "vm_pageout_init_marker x q s"
  note init = init_marker_ok [OF inv x(1), where q = q]
  have ne: "m \<noteq> x" using m(1) x by (auto simp: spare_def)
  have same: "pages ?s m = pages s m" "pq_pl ?s = pq_pl s" "phys_domain ?s = phys_domain s"
    using ne by (simp_all add: vm_pageout_init_marker_def upd_pg_def)
  have home: "vm_page_pagequeue m ?s = (d, q)"
    using qm unfolding vm_page_pagequeue_def same home_def by auto
  have mkx: "marker ?s x" "x \<notin> set (pq_pl ?s d q)" "queue (pages ?s x) = q"
    using init(3) q by (simp_all add: spare_def) (simp add: vm_pageout_init_marker_def marker_page_def)
  note ins = mark_in [OF init(1) mkx q, of m, unfolded same(2), OF m(2)]
  let ?t = "set_pq d q (insert_after m x (pq_pl s d q)) ?s"
  have ut: "f ?t = u" by (simp add: u_def found_place_def)
  have u: "interferes own {} n a ?t u" using f ins(2) unfolding ut [symmetric] by (simp add: bystanders_def)
  have su: "scan_inv n a u" using u by (simp add: interferes_def)
  have mk: "marker u y = marker s y" for y using u init(2) by (simp add: interferes_def marker_def)
  have "x \<in> set (pq_pl ?t d q)" using ins(4) by simp
  then have xin: "x \<in> set (pq_pl u d q)" using u q mkx(1) x(2) by (simp add: interferes_def marker_def)
  have notail: "x \<noteq> vmd_inacthead u e" for e
    using x u by (simp add: interferes_def spare_def same) (simp add: vm_pageout_init_marker_def)
  have mxu: "marker u x" using x by (simp add: mk spare_def)
  note out = mark_out [OF su mxu xin notail q]
  have dist: "distinct (pq_pl u d q)" by (rule scan_list(1) [OF su q])
  obtain xs ys where l: "pq_pl u d q = xs @ x # ys" "tailq_next x (pq_pl u d q) = tailq_first ys"
    "tailq_prev x (pq_pl u d q) = tailq_first (rev xs)" "remove1 x (pq_pl u d q) = xs @ ys"
    using split_distinct [OF dist xin] by metis
  have nx: "x \<notin> set (xs @ ys)" using dist by (auto simp: l(1))
  define ok where "ok \<longleftrightarrow> (so \<longrightarrow> pg_object (pages u m) = pg_object (pages s m)) \<and> tailq_first (rev xs) = Some m"
  have okm: "m \<in> set (pq_pl u d q)" if ok using that tailq_prev_mem unfolding ok_def l(3) [symmetric] by metis
  have k: "\<not> ok \<or> queue (pages u m) = q" using okm entry_queue [OF su _ q] by blast
  let ?v = "set_pq d q (remove1 x (pq_pl u d q)) u"
  have "marked_wait x m so f s = Inr (?v, ok, tailq_first ys)"
    using q k by (simp add: marked_wait_def qm(1) Let_def home ins(1) same ut l(2,3) ok_def [symmetric] out(1) leD)
  moreover have "interferes own {x} n a s ?v"
  proof -
    have "y \<in> set (pq_pl ?v d' q') \<longleftrightarrow> y \<in> set (pq_pl s d' q')" if y: "y \<in> own" "marker s y" and q': "q' < 3"
      for y d' and q' :: u_char
    proof -
      have "y \<in> set (pq_pl u d' q') \<longleftrightarrow> y \<in> set (pq_pl ?t d' q')"
        using u q' y mk by (simp add: interferes_def)
      then show ?thesis using ins(4) dist x q by (auto simp: same spare_def split: if_splits)
    qed
    moreover have "pages ?v y = pages s y" if "y \<in> own" "marker s y" "y \<noteq> x" for y
      using u that mk [of y] by (simp add: interferes_def marker_def vm_pageout_init_marker_def)
    ultimately show ?thesis
      using out(2) u mk by (simp add: interferes_def marker_def) (simp add: set_pq_def vm_pageout_init_marker_def upd_pg_def)
  qed
  ultimately show ?thesis using l(1) nx unfolding l(4) ok_def by blast
qed

lemma marked_wait_ok:
  assumes inv: "scan_inv n a s" and m: "\<not> marker s m" "m \<in> set (pq_pl s d q)" and q: "q < 3" and x: "spare s x" "x \<in> own"
    and f: "bystanders own n a f"
  shows "\<exists>s' ok nxt. marked_wait x m so f s = Inr (s', ok, nxt) \<and> interferes own {x} n a s s' \<and>
    (nxt = None \<or> the nxt \<in> set (pq_pl s' d q)) \<and> (ok \<longrightarrow> m \<in> set (pq_pl s' d q) \<and> nxt \<noteq> Some m) \<and>
    (ok \<longrightarrow> so \<longrightarrow> pg_object (pages s' m) = pg_object (pages s m))"
proof -
  let ?u = "found_place x m d q f s"
  obtain xs ys where w: "pq_pl ?u d q = xs @ x # ys" "x \<notin> set (xs @ ys)" "marked_wait x m so f s =
      Inr (set_pq d q (xs @ ys) ?u, (so \<longrightarrow> pg_object (pages ?u m) = pg_object (pages s m)) \<and> tailq_first (rev xs) = Some m, tailq_first ys)"
    "interferes own {x} n a s (set_pq d q (xs @ ys) ?u)"
    using marked_wait_exact [OF assms] by blast
  have d: "distinct (xs @ ys)" using scan_list(1) [OF interferes_inv(1) [OF w(4)] q, of d] by simp
  have n: "tailq_first ys = None \<or> the (tailq_first ys) \<in> set (xs @ ys)" by (cases ys) simp_all
  have o: "m \<in> set (xs @ ys) \<and> tailq_first ys \<noteq> Some m" if "tailq_first (rev xs) = Some m"
    using tailq_first_SomeD [OF that] d by (auto dest!: tailq_first_SomeD)
  show ?thesis using w(3,4) n o by (intro exI [of _ "set_pq d q (xs @ ys) ?u"]) auto
qed

subsection \<open>A page that the scan has taken off its queue\<close>

lemma scan_inv_page:
  assumes inv: "scan_inv n a s" and inv': "vm_inv n a s'" and m: "\<not> marker s m" "\<not> marker s' m"
    and others: "\<And>x. x \<noteq> m \<Longrightarrow> pages s' x = pages s x" "\<And>x. x \<noteq> m \<Longrightarrow> is_mapped s' x = is_mapped s x" "fixed s' = fixed s"
    and mp: "queue (pages s' m) < 3 \<Longrightarrow> reclaimable s' m" and mb: "sound_bits s' m"
    and lists: "\<And>d q x. q < 3 \<Longrightarrow> x \<noteq> m \<Longrightarrow> x \<in> set (pq_pl s' d q) \<longleftrightarrow> x \<in> set (pq_pl s d q)"
  shows "interferes own {} n a s s'"
proof -
  note f = fixedD [OF others(3)]
  have mk: "marker s' x = marker s x" for x using m others(1) [of x] by (cases "x = m") (simp_all add: marker_def)
  have ne: "x \<noteq> m" if "marker s x" for x using that m(1) by auto
  have rec: "reclaimable s' x" if "\<not> marker s x" "queue (pages s' x) < 3" for x
  proof (cases "x = m")
    case False
    then show ?thesis
      using reclaimable_cong [of s' x s] others f scan_invD(6) [OF inv that(1)] that(2) by simp
  qed (use mp that in simp)
  have "sound_bits s' x" if "\<not> marker s x" for x
    using sound_bits_cong [of s' x s] others(1) f(5) scan_invD(7) [OF inv that] mb by (cases "x = m") simp_all
  then have "scan_inv n a s'"
    using inv' scan_invD(4,5) [OF inv] ne others(1) lists rec by (simp add: scan_inv_def mk)
  then show ?thesis
    using ne others(1) lists f by (simp add: interferes_def mk)
qed

text \<open>The page is off the queues and may go on any; it may be freed when it is idle as well.\<close>

definition movable :: "'r vm \<Rightarrow> pg \<Rightarrow> bool" where
  "movable s m \<longleftrightarrow> \<not> marker s m \<and> \<not> fictitious s m \<and> \<not> unmanaged m s \<and> wire_count (pages s m) = 0 \<and>
     queue (pages s m) = PQ_NONE \<and> reclaimable s m"

definition loose :: "'r vm \<Rightarrow> pg \<Rightarrow> bool" where
  "loose s m \<longleftrightarrow> movable s m \<and> hold_count (pages s m) = 0 \<and> \<not> vm_page_busied (busy_lock (pages s m))"

lemma loose_movable: "loose s m \<Longrightarrow> movable s m"
  by (simp add: loose_def)

lemma put_on_same [simp]:
  "fixed (put_on s m q l) = fixed s" "is_mapped (put_on s m q l) = is_mapped s" "freed (put_on s m q l) = freed s"
  "pq_pl (put_on s m q l) = (pq_pl s)(home s m q := (pq_pl s (home s m q))(q := l))"
  by (simp_all add: put_on_def Let_def)

lemma taken_off_same [simp]:
  "fixed (taken_off s m) = fixed s" "is_mapped (taken_off s m) = is_mapped s" "freed (taken_off s m) = freed s"
  "pq_pl (taken_off s m) = (let q = queue (pages s m); d = home s m q in
     (pq_pl s)(d := (pq_pl s d)(q := remove1 m (pq_pl s d q))))"
  by (simp_all add: taken_off_def Let_def)

text \<open>A loose page put at the end of a queue.\<close>

lemma put_loose:
  assumes inv: "scan_inv n a s" and m: "movable s m" and q: "q < 3"
  defines "s' \<equiv> put_on s m q (pq_pl s (home s m q) q @ [m])"
  shows "vm_page_enqueue q m s = Inr s'" "interferes own {} n a s s'"
proof -
  have l: "\<not> marker s m" "queue (pages s m) = 255" "wire_count (pages s m) = 0" "\<not> unmanaged m s" "reclaimable s m"
    using m by (simp_all add: loose_def movable_def)
  note e = enqueue_ok [OF scan_invD(2) [OF inv] l(1) q l(2-4)]
  show "vm_page_enqueue q m s = Inr s'" unfolding s'_def by (rule e(1))
  have "reclaimable s' m"
    using l(5) fixedD [of s' s] by (simp add: s'_def reclaimable_def put_on_simps split: option.splits)
  moreover have "vm_inv n a s'"
    using e(2) obj_wf_same [OF scan_invD(3) [OF inv] obj_same_put_on [OF obj_same_refl]] by (simp add: vm_inv_def s'_def)
  ultimately show "interferes own {} n a s s'"
    by (intro scan_inv_page [OF inv, where m = m]) (auto simp: s'_def put_on_simps l(1) reclaimable_sound)
qed

lemma launder_loose:
  assumes inv: "scan_inv n a s" and m: "movable s m"
  shows "vm_page_launder m s = Inr (put_on s m 2 (pq_pl s 0 2 @ [m]))"
  using put_loose(1) [OF inv m, of 2] m by (simp add: vm_page_launder_def vm_page_remque_def loose_def movable_def home_def)

lemma deactivate_loose:
  assumes inv: "scan_inv n a s" and m: "movable s m"
  shows "vm_page_deactivate m s = Inr (put_on s m 0 (pq_pl s (phys_domain s m) 0 @ [m]))"
  using m by (simp add: vm_page_deactivate_def vm_page_deactivate'_def vm_page_remque_def loose_def movable_def home_def put_on_def Let_def)

text \<open>The dirty bits when the mappings are gone.\<close>

definition final_dirty :: "'r vm_env \<Rightarrow> 'r vm \<Rightarrow> pg \<Rightarrow> vm_page_bits_t" where
  "final_dirty E s m =
     (let d = dirty (pages s m) in
      case pg_object (pages s m) of None \<Rightarrow> d
      | Some ob \<Rightarrow>
          if obj_ref_count s ob = 0 then d
          else let d = (if is_modified s m then VM_PAGE_BITS_ALL else d) in
               if d = 0 \<and> valid (pages s m) = VM_PAGE_BITS_ALL then dirty_after_remove_all E m else d)"

lemma dirty_step:
  assumes inv: "scan_inv n a s" and m: "loose s m"
    and t: "pages t = (pages s)(m := (pages s m)\<lparr>dirty := d\<rparr>)" "fixed t = fixed s" "pq_pl t = pq_pl s" "vm_inv n a t"
      "d \<noteq> 0 \<longrightarrow> valid (pages s m) = VM_PAGE_BITS_ALL" "\<forall>x. x \<noteq> m \<longrightarrow> is_mapped t x = is_mapped s x" "is_mapped t m \<longrightarrow> is_mapped s m"
  shows "interferes own {} n a s t" "loose t m"
proof -
  have l: "\<not> marker s m" "queue (pages s m) = 255" "reclaimable s m" using m by (simp_all add: loose_def movable_def)
  have r: "reclaimable t m" using l(3) t(1,5,7) fixedD [OF t(2)] by (simp add: reclaimable_def split: option.splits)
  show "loose t m" using m r t(1) by (simp add: loose_def movable_def marker_def fictitious_def unmanaged_def)
  show "interferes own {} n a s t"
    by (rule scan_inv_page [OF inv t(4), where m = m]) (use l t r reclaimable_sound [OF r] in \<open>auto simp: marker_def\<close>)
qed

lemma clean_mappings_ok:
  assumes inv: "scan_inv n a s" and m: "loose s m" "pg_object (pages s m) = Some ob" and v: "valid (pages s m) \<noteq> 0"
  shows "\<exists>s'. clean_mappings E m ob s = Inr s' \<and> interferes own {} n a s s' \<and> loose s' m \<and>
    fixed s' = fixed s \<and> pq_pl s' = pq_pl s \<and> freed s' = freed s \<and>
    pages s' = (pages s)(m := (pages s m)\<lparr>dirty := final_dirty E s m\<rparr>) \<and>
    (\<forall>x. x \<noteq> m \<longrightarrow> is_mapped s' x = is_mapped s x) \<and> (final_dirty E s m = 0 \<longrightarrow> \<not> is_mapped s' m)"
proof (cases "obj_ref_count s ob = 0")
  case True
  then have "\<not> is_mapped s m" "final_dirty E s m = dirty (pages s m)"
    using m by (simp_all add: loose_def movable_def reclaimable_def final_dirty_def)
  then show ?thesis
    using True m interferes_refl [OF inv] by (intro exI [of _ s]) (simp add: clean_mappings_def)
next
  case ref: False
  define d where "d = (if is_modified s m then VM_PAGE_BITS_ALL else dirty (pages s m))"
  have fin: "final_dirty E s m = (if d = 0 \<and> valid (pages s m) = VM_PAGE_BITS_ALL then dirty_after_remove_all E m else d)"
    using ref m(2) by (simp add: final_dirty_def d_def Let_def)
  have whole: "d \<noteq> 0 \<longrightarrow> valid (pages s m) = VM_PAGE_BITS_ALL" "final_dirty E s m \<noteq> 0 \<longrightarrow> valid (pages s m) = VM_PAGE_BITS_ALL"
    using m(1) unfolding fin by (auto simp: d_def loose_def movable_def reclaimable_def)
  define t where "t = upd_pg m (\<lambda>p. p\<lparr>dirty := d\<rparr>) s"
  have mk: "\<not> marker s m" using m(1) by (simp add: loose_def movable_def)
  have it: "vm_inv n a (upd_pg m (\<lambda>p. p\<lparr>dirty := e\<rparr>) s)" for e
    by (rule vm_inv_upd_flags [OF scan_invD(1) [OF inv] mk]) (use not_marker_flags [OF mk] in simp_all)
  have test: "vm_page_test_dirty m s = Inr t"
  proof (cases "dirty (pages s m) \<noteq> VM_PAGE_BITS_ALL \<and> is_modified s m")
    case True
    then have "valid (pages s m) = VM_PAGE_BITS_ALL" using m(1) by (simp add: loose_def movable_def reclaimable_def)
    then show ?thesis
      using True by (simp add: vm_page_test_dirty_def vm_page_dirty_def vm_page_dirty_KBI_def t_def d_def upd_pg_def)
  next
    case False
    then have d: "d = dirty (pages s m)" by (auto simp: d_def)
    have "t = s" unfolding t_def d by (simp add: upd_pg_def fun_upd_idem)
    then show ?thesis unfolding vm_page_test_dirty_def if_not_P [OF False] by simp
  qed
  have dt: "dirty (pages t m) = d" by (simp add: t_def)
  show ?thesis
  proof (cases "d = 0")
    case True
    let ?u = "pmap_remove_all E m t"
    have eq: "?u = vm_call (PmapRemoveAll m)
        ((upd_pg m (\<lambda>p. p\<lparr>dirty := final_dirty E s m\<rparr>) s)\<lparr>is_mapped := (is_mapped s)(m := False)\<rparr>)"
      using True by (simp add: pmap_remove_all_eq t_def fin) (simp add: upd_pg_def)
    have same: "pages ?u = (pages s)(m := (pages s m)\<lparr>dirty := final_dirty E s m\<rparr>)" "fixed ?u = fixed s" "pq_pl ?u = pq_pl s"
      "freed ?u = freed s" "is_mapped ?u = (is_mapped s)(m := False)"
      unfolding eq by (simp_all add: vm_call_def upd_pg_def) (simp_all add: fixed_def freed_def)
    have "vm_inv n a ?u" unfolding eq by (rule vm_sameD(4) [OF _ it [of "final_dirty E s m"]]) simp
    then have "interferes own {} n a s ?u" "loose ?u m"
      using dirty_step [OF inv m(1) same(1-3)] same(5) whole(2) by auto
    moreover have "clean_mappings E m ob s = Inr ?u"
      using ref True by (simp add: clean_mappings_def test dt)
    ultimately show ?thesis using same by auto
  next
    case False
    have same: "pages t = (pages s)(m := (pages s m)\<lparr>dirty := final_dirty E s m\<rparr>)" "fixed t = fixed s" "pq_pl t = pq_pl s"
      "freed t = freed s" "is_mapped t = is_mapped s"
      using False by (simp_all add: t_def fin)
    have "interferes own {} n a s t" "loose t m"
      using dirty_step [OF inv m(1) same(1-3)] same(5) it [of d] whole(2) by (simp_all add: t_def)
    moreover have "clean_mappings E m ob s = Inr t" using ref False by (simp add: clean_mappings_def test dt)
    ultimately show ?thesis using same False fin by auto
  qed
qed

text \<open>What becomes of a page of the inactive queue.\<close>

datatype fate = Skip | Stuck | Freed | Laundered | Dropped

definition fate :: "'r vm_env \<Rightarrow> 'r vm \<Rightarrow> pg \<Rightarrow> fate" where
  "fate E s m =
     (let p = pages s m in
      if pg_flags p AND PG_MARKER \<noteq> 0 then Skip
      else if hold_count p \<noteq> 0 \<or> vm_page_busied (busy_lock p) then Stuck
      else if valid p = 0 \<or> final_dirty E s m = 0 then Freed
      else if (case pg_object p of None \<Rightarrow> False | Some ob \<Rightarrow> obj_dead s ob) then Dropped else Laundered)"

lemma free_loose:
  assumes R: "radix_ok (radix_ops E) a" and inv: "scan_inv n a s" and m: "loose s m" and u: "\<not> is_mapped s m"
  shows "\<exists>s'. vm_page_free E m s = Inr s' \<and> interferes own {} n a s s' \<and> off_queue_step [m] s s' \<and>
    (\<forall>x. x \<noteq> m \<longrightarrow> pages s' x = pages s x)"
proof -
  have l: "freeable s m" "queue (pages s m) = 255" "hold_count (pages s m) = 0" "\<not> marker s m"
    using m u by (simp_all add: loose_def movable_def freeable_def)
  obtain s' where s': "vm_page_free E m s = Inr s'" "vm_inv n a s'" "off_queue_step [m] s s'" "queue (pages s' m) = 255"
    "pg_object (pages s' m) = None" "\<not> marker s' m" "\<forall>x. x \<noteq> m \<longrightarrow> pages s' x = pages s x"
    using free_off_queue [OF R scan_invD(1) [OF inv] l(1-3)] by blast
  then have "interferes own {} n a s s'"
    using s'(3-7) l(4)
    by (intro scan_inv_page [OF inv s'(2), where m = m]) (simp_all add: off_queue_step_def sound_bits_def)
  then show ?thesis using s' by blast
qed

text \<open>The result of the reclaim of a loose page, in full.\<close>

lemma inactive_reclaim_ok:
  assumes R: "radix_ok (radix_ops E) a" and inv: "scan_inv n a s" and m: "loose s m" "pg_object (pages s m) = Some ob"
  shows "\<exists>s'. inactive_reclaim E m ob s = Inr (s', fate E s m = Freed) \<and> interferes own {} n a s s' \<and> fixed s' = fixed s \<and>
    (\<forall>x. x \<noteq> m \<longrightarrow> pages s' x = pages s x \<and> is_mapped s' x = is_mapped s x) \<and>
    freed s' = freed s @ (if fate E s m = Freed then [m] else []) \<and>
    pq_pl s' = (if fate E s m = Laundered then (pq_pl s)(0 := (pq_pl s 0)(2 := pq_pl s 0 2 @ [m])) else pq_pl s)"
proof -
  have l: "pg_flags (pages s m) AND PG_MARKER = 0" "hold_count (pages s m) = 0" "\<not> vm_page_busied (busy_lock (pages s m))"
    using m(1) by (simp_all add: loose_def movable_def marker_def)
  have um: "valid (pages s m) = 0 \<Longrightarrow> \<not> is_mapped s m" using m by (simp add: loose_def movable_def reclaimable_def)
  show ?thesis
  proof (cases "valid (pages s m) = 0")
    case True
    obtain s' where "vm_page_free E m s = Inr s'" "interferes own {} n a s s'" "off_queue_step [m] s s'"
      "\<forall>x. x \<noteq> m \<longrightarrow> pages s' x = pages s x"
      using free_loose [OF R inv m(1) um [OF True]] by blast
    then show ?thesis using l True by (simp add: inactive_reclaim_def fate_def off_queue_step_def)
  next
    case False
    obtain t where t: "clean_mappings E m ob s = Inr t" "interferes own {} n a s t" "loose t m"
      "fixed t = fixed s" "pq_pl t = pq_pl s" "freed t = freed s"
      "pages t = (pages s)(m := (pages s m)\<lparr>dirty := final_dirty E s m\<rparr>)"
      "\<forall>x. x \<noteq> m \<longrightarrow> is_mapped t x = is_mapped s x" "final_dirty E s m = 0 \<longrightarrow> \<not> is_mapped t m"
      using clean_mappings_ok [OF inv m False] by blast
    have it: "scan_inv n a t" using t(2) by (simp add: interferes_def)
    show ?thesis
    proof (cases "final_dirty E s m = 0")
      case True
      obtain s' where s': "vm_page_free E m t = Inr s'" "interferes own {} n a t s'" "off_queue_step [m] t s'"
        "\<forall>x. x \<noteq> m \<longrightarrow> pages s' x = pages t x"
        using free_loose [OF R it t(3)] t(9) True by blast
      have "fate E s m = Freed" using l True by (simp add: fate_def)
      then show ?thesis
        using s' t False True interferes_trans [OF t(2) s'(2)]
        by (simp add: inactive_reclaim_def off_queue_step_def)
    next
      case dirty: False
      have f: "fate E s m = (if obj_dead s ob then Dropped else Laundered)"
        using l False dirty m(2) by (simp add: fate_def)
      have dd: "obj_dead t = obj_dead s" by (rule fixedD(7) [OF t(4)])
      note p = put_loose(2) [OF it loose_movable [OF t(3)], of 2]
      have h: "home t m 2 = 0" by (simp add: home_def)
      show ?thesis
        using False dirty t f dd launder_loose [OF it loose_movable [OF t(3)]] interferes_trans [OF t(2) p]
        by (cases "obj_dead s ob") (simp_all add: inactive_reclaim_def h put_on_simps)
    qed
  qed
qed

lemma loose_taken_off:
  assumes inv: "scan_inv n a s" and m: "\<not> marker s m" "queue (pages s m) < 3"
  shows "vm_page_dequeue_locked m s = Inr (taken_off s m)" "interferes own {} n a s (taken_off s m)" "movable (taken_off s m) m"
    "hold_count (pages s m) = 0 \<Longrightarrow> \<not> vm_page_busied (busy_lock (pages s m)) \<Longrightarrow> loose (taken_off s m) m"
proof -
  note wf = scan_invD(2) [OF inv]
  note d = dequeue_ok [OF wf m]
  show "vm_page_dequeue_locked m s = Inr (taken_off s m)" by (rule d(1))
  have "queue (pages s m) \<noteq> 255" using m(2) by auto
  then have q: "wire_count (pages s m) = 0" "\<not> unmanaged m s" using queued_free [OF wf m(1)] by blast+
  have "\<not> fictitious s m" using vm_wfD(1) [OF wf m(1)] q(1) by (simp add: page_ok_def)
  moreover have "reclaimable (taken_off s m) m"
    using scan_invD(6) [OF inv m] fixedD [of "taken_off s m" s]
    by (simp add: reclaimable_def taken_off_simps split: option.splits)
  ultimately show mv: "movable (taken_off s m) m"
    using m(1) q by (simp add: movable_def taken_off_simps fictitious_def)
  then show "hold_count (pages s m) = 0 \<Longrightarrow> \<not> vm_page_busied (busy_lock (pages s m)) \<Longrightarrow> loose (taken_off s m) m"
    by (simp add: loose_def taken_off_simps)
  have "vm_inv n a (taken_off s m)"
    using d(4) obj_wf_same [OF scan_invD(3) [OF inv]] by (simp add: vm_inv_def)
  then show "interferes own {} n a s (taken_off s m)"
    using m(1) mv
    by (intro scan_inv_page [OF inv, where m = m]) (auto simp: taken_off_simps Let_def movable_def reclaimable_sound)
qed

subsection \<open>One turn\<close>

definition in_list :: "'r vm \<Rightarrow> nat \<Rightarrow> u_char \<Rightarrow> pg option \<Rightarrow> bool" where
  "in_list s d q nxt \<longleftrightarrow> (case nxt of None \<Rightarrow> True | Some y \<Rightarrow> y \<in> set (pq_pl s d q))"

lemma in_list_next [simp]: "in_list s d q (tailq_next m (pq_pl s d q))"
  using tailq_next_mem [of m "pq_pl s d q"] by (simp add: in_list_def split: option.split)

text \<open>The marker behind the page of a turn, from its way in to its way out.\<close>

lemma marker_bracket:
  assumes inv: "scan_inv n a s" and x: "spare s x" "queue (pages s x) = q" "x \<in> own" and q: "q < 3" and m: "m \<in> set (pq_pl s d q)"
    and tw: "interferes own {} n a (set_pq d q (insert_after m x (pq_pl s d q)) s) w"
  defines "l \<equiv> pq_pl w d q"
  shows "tailq_remove x l = Inr (remove1 x l)" "interferes own {} n a s (set_pq d q (remove1 x l) w)"
    "in_list (set_pq d q (remove1 x l) w) d q (tailq_next x l)"
proof -
  have xm: "marker s x" "x \<notin> set (pq_pl s d q)" using x(1) q by (simp_all add: spare_def)
  let ?t = "set_pq d q (insert_after m x (pq_pl s d q)) s" and ?y = "set_pq d q (remove1 x l) w"
  have set_t: "set (insert_after m x (pq_pl s d q)) = insert x (set (pq_pl s d q))" by (rule mark_in(4) [OF inv xm x(2) q m])
  have iw: "scan_inv n a w" by (rule interferes_inv(1) [OF tw])
  have mkw: "marker w y = marker s y" for y using tw by (simp add: interferes_def marker_def)
  have memw: "y \<in> set (pq_pl w d' q') \<longleftrightarrow> y \<in> set (pq_pl ?t d' q')" if "q' < 3" "marker s y" "y \<in> own" for y d' q'
    using tw that by (simp add: interferes_def marker_def)
  have xw: "marker w x" "x \<in> set (pq_pl w d q)" using xm memw [of q x d] set_t q x(3) by (simp_all add: mkw)
  have ihw: "x \<noteq> vmd_inacthead w e" for e using tw x(1) by (simp add: interferes_def spare_def)
  note out = mark_out [OF iw xw ihw q, folded l_def]
  have dw: "distinct l" unfolding l_def by (rule scan_list(1) [OF iw q])
  show "tailq_remove x l = Inr (remove1 x l)" by (rule out(1))
  have "y \<in> set (pq_pl ?y d' q') \<longleftrightarrow> y \<in> set (pq_pl s d' q')" if "q' < 3" "marker s y" "y \<in> own" for y d' and q' :: u_char
    using memw [OF that] set_t dw xm(2) x(1) that by (auto simp: spare_def l_def split: if_splits)
  moreover have "marker ?y z = marker s z" "marker ?t z = marker s z" for z using mkw [of z] by (simp_all add: marker_def)
  ultimately show "interferes own {} n a s ?y" using out(2) tw by (simp add: interferes_def) (simp add: set_pq_def)
  show "in_list ?y d q (tailq_next x l)"
    using tailq_next_remove1 [OF dw, of x] by (cases "tailq_next x l") (simp_all add: in_list_def)
qed

text \<open>What others may do while the page \<open>m\<close> of the turn is off the queue, with its lock and that of its
  object still taken.\<close>

definition respects_lock :: "pg set \<Rightarrow> nat \<Rightarrow> ('r \<Rightarrow> u_long \<Rightarrow> pg option) \<Rightarrow> (pg \<Rightarrow> 'r vm \<Rightarrow> 'r vm) \<Rightarrow> bool" where
  "respects_lock own n a f \<longleftrightarrow> (\<forall>s m. scan_inv n a s \<longrightarrow> loose s m \<longrightarrow>
     interferes own {} n a s (f m s) \<and> loose (f m s) m \<and> pg_object (pages (f m s) m) = pg_object (pages s m))"

lemma inactive_take_ok:
  assumes R: "radix_ok (radix_ops E) a" and inv: "scan_inv n a s" and m: "\<not> marker s m" "m \<in> set (pq_pl s d 0)"
    and i: "hold_count (pages s m) = 0" "\<not> vm_page_busied (busy_lock (pages s m))" "pg_object (pages s m) = Some ob"
    and mk: "spare s (vmd_marker s d)" "queue (pages s (vmd_marker s d)) = 0" "vmd_marker s d \<in> own"
    and g: "respects_lock own n a g" and f: "bystanders own n a f"
  shows "\<exists>s' fr nxt. inactive_take E g f d m ob s = Inr (s', fr, nxt) \<and> interferes own {} n a s s' \<and> in_list s' d 0 nxt"
proof -
  let ?x = "vmd_marker s d"
  have xm: "marker s ?x" "?x \<notin> set (pq_pl s d 0)" using mk(1) by (simp_all add: spare_def)
  have z: "(0::u_char) < 3" by simp
  note ins = mark_in [OF inv xm mk(2) z m(2)]
  let ?t = "set_pq d 0 (insert_after m ?x (pq_pl s d 0)) s"
  have mt: "\<not> marker ?t m" "queue (pages ?t m) < 3" using m(1) entry_queue [OF inv m(2)] by (simp_all add: marker_def)
  have i': "hold_count (pages ?t m) = 0" "\<not> vm_page_busied (busy_lock (pages ?t m))" using i by simp_all
  note off = loose_taken_off(1,2) [OF ins(2) mt] loose_taken_off(4) [OF ins(2) mt i']
  have ob: "pg_object (pages (taken_off ?t m) m) = Some ob" using i(3) by (simp add: taken_off_simps)
  let ?w = "g m (taken_off ?t m)"
  have w: "interferes own {} n a (taken_off ?t m) ?w" "loose ?w m" "pg_object (pages ?w m) = Some ob"
    using g off(3) interferes_inv(1) [OF off(2)] ob by (simp_all add: respects_lock_def)
  obtain v where v: "inactive_reclaim E m ob ?w = Inr (v, fate E ?w m = Freed)"
    "interferes own {} n a ?w v" using inactive_reclaim_ok [OF R interferes_inv(1) [OF w(1)] w(2,3)] by blast
  have "interferes own {} n a v (f v)" using f interferes_inv(1) [OF v(2)] by (simp add: bystanders_def)
  then have tw: "interferes own {} n a ?t (f v)" using off(2) w(1) v(2) interferes_trans by blast
  note b = marker_bracket [OF inv mk z m(2) tw]
  have vm: "vmd_marker (taken_off ?t m) = vmd_marker s" by (simp add: taken_off_def set_pq_def upd_pg_def vm_pagequeue_cnt_add_def Let_def)
  have "inactive_take E g f d m ob s =
    Inr (set_pq d 0 (remove1 ?x (pq_pl (f v) d 0)) (f v), fate E ?w m = Freed, tailq_next ?x (pq_pl (f v) d 0))"
    using off(1) v(1) b(1) by (simp add: inactive_take_def ins(1) Let_def)
  then show ?thesis using b(2,3) by blast
qed

definition good_locks :: "pg set \<Rightarrow> nat \<Rightarrow> ('r \<Rightarrow> u_long \<Rightarrow> pg option) \<Rightarrow> 'r locks \<Rightarrow> bool" where
  "good_locks own n a L \<longleftrightarrow> (\<forall>k. pred_option (bystanders own n a) (page_try L k) \<and> pred_option (bystanders own n a) (object_try L k) \<and>
     bystanders own n a (meanwhile L k) \<and> respects_lock own n a (dequeued L k))"

text \<open>The two markers of a scan of domain \<open>d\<close> are free to be used.\<close>

definition markers_free :: "pg set \<Rightarrow> nat \<Rightarrow> pg \<Rightarrow> 'r vm \<Rightarrow> bool" where
  "markers_free own d x s \<longleftrightarrow> {x, vmd_marker s d} \<subseteq> own \<and> spare s (vmd_marker s d) \<and> queue (pages s (vmd_marker s d)) = PQ_INACTIVE \<and> spare s x \<and>
     x \<noteq> vmd_marker s d"

lemma markers_free_step: "interferes own {x} n a s s' \<Longrightarrow> markers_free own d x s \<Longrightarrow> markers_free own d x s'"
  using interferes_spare [of own "{x}" n a s s'] unfolding markers_free_def by (auto simp: interferes_def spare_def)

lemma page_lock_ok:
  assumes inv: "scan_inv n a s" and m: "\<not> marker s m" "m \<in> set (pq_pl s d q)" and q: "q < 3" and x: "spare s x" "x \<in> own"
    and f: "pred_option (bystanders own n a) tr" and nxt: "in_list s d q nxt"
  shows "\<exists>s' ok nxt'. vm_pageout_page_lock tr x m nxt s = Inr (s', ok, nxt') \<and> interferes own {x} n a s s' \<and>
    in_list s' d q nxt' \<and> (ok \<longrightarrow> m \<in> set (pq_pl s' d q) \<and> (nxt \<noteq> Some m \<longrightarrow> nxt' \<noteq> Some m))"
proof (cases tr)
  case None
  then show ?thesis using interferes_refl [OF inv] m nxt by (auto simp: vm_pageout_page_lock_def)
next
  case (Some g)
  then show ?thesis
    using marked_wait_ok [OF inv m q x, of g False] f
    by (simp add: vm_pageout_page_lock_def in_list_def) (metis option.case_eq_if)
qed

lemma object_lock_ok:
  assumes inv: "scan_inv n a s" and m: "\<not> marker s m" "m \<in> set (pq_pl s d q)" and q: "q < 3" and x: "spare s x" "x \<in> own"
    and f: "pred_option (bystanders own n a) tr" and nxt: "in_list s d q nxt"
  shows "\<exists>s' ok nxt'. vm_pageout_object_lock tr x m nxt s = Inr (s', ok, nxt') \<and> interferes own {x} n a s s' \<and>
    in_list s' d q nxt' \<and> (ok \<longrightarrow> m \<in> set (pq_pl s' d q) \<and> pg_object (pages s' m) = pg_object (pages s m))"
proof -
  have "reclaimable s m" using scan_invD(6) [OF inv m(1)] entry_queue [OF inv m(2) q] q by simp
  then have ob: "pg_object (pages s m) \<noteq> None" by (simp add: reclaimable_def split: option.splits)
  show ?thesis
  proof (cases tr)
    case None
    then show ?thesis using interferes_refl [OF inv] m nxt ob by (auto simp: vm_pageout_object_lock_def)
  next
    case (Some g)
    then show ?thesis
      using marked_wait_ok [OF inv m q x, of g True] f ob
      by (simp add: vm_pageout_object_lock_def in_list_def) (metis option.case_eq_if)
  qed
qed

lemma scan_entry:
  assumes inv: "scan_inv n a s" and m: "\<not> marker s m" "m \<in> set (pq_pl s d q)" and q: "q < 3"
  shows "queue (pages s m) = q" "\<not> fictitious s m" "\<not> unmanaged m s" "\<exists>ob. pg_object (pages s m) = Some ob"
proof -
  note wf = scan_invD(2) [OF inv]
  show qm: "queue (pages s m) = q" by (rule entry_queue [OF inv m(2) q])
  have "queue (pages s m) \<noteq> 255" using qm q by auto
  then have w: "wire_count (pages s m) = 0" "\<not> unmanaged m s" using queued_free [OF wf m(1)] by blast+
  then show "\<not> unmanaged m s" "\<not> fictitious s m" using vm_wfD(1) [OF wf m(1)] by (auto simp: page_ok_def)
  have "reclaimable s m" using scan_invD(6) [OF inv m(1)] qm q by simp
  then show "\<exists>ob. pg_object (pages s m) = Some ob" by (simp add: reclaimable_def split: option.splits)
qed

lemma inactive_turn_ok:
  assumes R: "radix_ok (radix_ops E) a" and inv: "scan_inv n a s" and m: "m \<in> set (pq_pl s d 0)"
    and L: "good_locks own n a L" and mk: "markers_free own d (local_marker L) s"
  shows "\<exists>s' nxt stuck fr. inactive_turn E L k d m s = Inr (s', nxt, stuck, fr) \<and>
    interferes own {local_marker L} n a s s' \<and> in_list s' d 0 nxt"
proof -
  let ?x = "local_marker L"
  let ?nxt = "tailq_next m (pq_pl s d 0)"
  have q0: "queue (pages s m) = 0" using entry_queue [OF inv m] by simp
  show ?thesis
  proof (cases "marker s m")
    case True
    then show ?thesis using q0 interferes_refl [OF inv] by (auto simp: inactive_turn_def marker_def)
  next
    case mm: False
    note e = scan_entry [OF inv mm m, simplified]
    have flags: "pg_flags (pages s m) AND PG_MARKER = 0" "pg_flags (pages s m) AND PG_FICTITIOUS = 0"
      using mm e(2) by (simp_all add: marker_def fictitious_def)
    have x: "spare s ?x" "?x \<in> own" using mk by (simp_all add: markers_free_def)
    have tr: "pred_option (bystanders own n a) (page_try L k)" "pred_option (bystanders own n a) (object_try L k)"
      "bystanders own n a (meanwhile L k)" "respects_lock own n a (dequeued L k)" using L by (simp_all add: good_locks_def)
    obtain t ok nx where t: "vm_pageout_page_lock (page_try L k) ?x m ?nxt s = Inr (t, ok, nx)"
      "interferes own {?x} n a s t" "in_list t d 0 nx" "ok \<longrightarrow> m \<in> set (pq_pl t d 0)"
      using page_lock_ok [OF inv mm m _ x tr(1), of ?nxt] by auto
    have it: "scan_inv n a t" "\<not> marker t m" using t(2) mm by (simp_all add: interferes_def)
    note mkt = markers_free_step [OF t(2) mk]
    show ?thesis
    proof (cases "ok \<and> hold_count (pages t m) = 0")
      case False
      then show ?thesis using q0 flags e(3) t by (auto simp: inactive_turn_def)
    next
      case ok: True
      have mt: "m \<in> set (pq_pl t d 0)" using ok t(4) by simp
      obtain ob where ob: "pg_object (pages t m) = Some ob" using scan_entry(4) [OF it(1,2) mt] by auto
      have xt: "spare t ?x" "?x \<in> own" using mkt by (simp_all add: markers_free_def)
      obtain u ok' nx' where u: "vm_pageout_object_lock (object_try L k) ?x m nx t = Inr (u, ok', nx')"
        "interferes own {?x} n a t u" "in_list u d 0 nx'" "ok' \<longrightarrow> m \<in> set (pq_pl u d 0) \<and> pg_object (pages u m) = pg_object (pages t m)"
        using object_lock_ok [OF it mt _ xt tr(2) t(3)] by auto
      have iu: "scan_inv n a u" "\<not> marker u m" using u(2) it by (simp_all add: interferes_def)
      note su = interferes_trans [OF t(2) u(2)]
      have turn: "inactive_turn E L k d m s =
        (if \<not> ok' then Inr (u, nx', 0, False)
         else if hold_count (pages u m) \<noteq> 0 \<or> vm_page_busied (busy_lock (pages u m)) then Inr (u, nx', 1, False)
         else rbind (inactive_take E (dequeued L k) (meanwhile L k) d m ob u) (\<lambda>(s, freed, nxt). Inr (s, nxt, 0, freed)))"
        using q0 flags e(3) ok by (simp add: inactive_turn_def t(1) ob u(1))
      show ?thesis
      proof (cases "ok' \<and> hold_count (pages u m) = 0 \<and> \<not> vm_page_busied (busy_lock (pages u m))")
        case False
        then show ?thesis unfolding turn using su u(3) by auto
      next
        case go: True
        have mu: "m \<in> set (pq_pl u d 0)" using go u(4) by simp
        have ob': "pg_object (pages u m) = Some ob" using go u(4) ob by simp
        have mk': "spare u (vmd_marker u d)" "queue (pages u (vmd_marker u d)) = 0" "vmd_marker u d \<in> own"
          using markers_free_step [OF su mk] by (simp_all add: markers_free_def)
        obtain v fr nx'' where v: "inactive_take E (dequeued L k) (meanwhile L k) d m ob u = Inr (v, fr, nx'')" "interferes own {} n a u v"
          "in_list v d 0 nx''"
          using inactive_take_ok [OF R iu mu _ _ ob' mk' tr(4,3)] go by blast
        have "interferes own {?x} n a s v" by (rule interferes_trans [OF su interferes_mono [OF v(2)]]) simp
        then show ?thesis unfolding turn using go v by auto
      qed
    qed
  qed
qed

text \<open>The whole scan of the inactive queue: nothing faults, whatever others do in between, and the
  shortage never falls below zero.\<close>

lemma inactive_scan_ok:
  assumes R: "radix_ok (radix_ops E) a" and L: "good_locks own n a L"
  shows "scan_inv n a s \<Longrightarrow> markers_free own d (local_marker L) s \<Longrightarrow> in_list s d 0 m \<Longrightarrow>
    \<exists>s' addl' short'. inactive_scan E L d k m addl short s = Inr (s', addl', short') \<and>
      interferes own {local_marker L} n a s s' \<and> short' \<le> short \<and> (0 < short \<longrightarrow> 0 \<le> short')"
proof (induction k arbitrary: m addl short s)
  case 0
  then show ?case by (simp add: interferes_refl)
next
  case (Suc k)
  show ?case
  proof (cases "m = None \<or> short \<le> 0")
    case True
    then show ?thesis using Suc.prems by (cases m) (auto simp: interferes_refl)
  next
    case False
    then obtain x where x: "m = Some x" "x \<in> set (pq_pl s d 0)" using Suc.prems(3) by (auto simp: in_list_def)
    obtain t nxt stuck fr where t: "inactive_turn E L k d x s = Inr (t, nxt, stuck, fr)"
      "interferes own {local_marker L} n a s t" "in_list t d 0 nxt"
      using inactive_turn_ok [OF R Suc.prems(1) x(2) L Suc.prems(2)] by blast
    have it: "scan_inv n a t" using t(2) by (simp add: interferes_def)
    let ?short = "if fr then short - 1 else short"
    obtain s' addl' short' where s': "inactive_scan E L d k nxt (addl + stuck) ?short t = Inr (s', addl', short')"
      "interferes own {local_marker L} n a t s'" "short' \<le> ?short" "0 < ?short \<longrightarrow> 0 \<le> short'"
      using Suc.IH [OF it markers_free_step [OF t(2) Suc.prems(2)] t(3)] by blast
    have "0 \<le> short'"
    proof (cases "0 < ?short")
      case no: False
      then have "?short = 0" using False by (auto split: if_splits)
      then have "inactive_scan E L d k nxt (addl + stuck) ?short t = Inr (t, addl + stuck, 0)"
        by (cases k; cases nxt) simp_all
      then show ?thesis using s'(1) by simp
    qed (use s'(4) in blast)
    then show ?thesis
      using False x(1) t(1) s' interferes_trans [OF t(2) s'(2)] by (auto split: if_splits)
  qed
qed

subsection \<open>The active queue\<close>

lemma tailq_next_ne: "distinct l \<Longrightarrow> m \<in> set l \<Longrightarrow> tailq_next m l \<noteq> Some m"
  by (rule split_distinct [of l m]) (auto dest: tailq_first_SomeD)

text \<open>Where a page of the active queue goes, and what it counts for.\<close>

definition active_goal :: "int \<Rightarrow> 'r vm \<Rightarrow> pg \<Rightarrow> u_char" where
  "active_goal shortage s m = (if 0 < shortage \<and> dirty (pages s m) \<noteq> 0 then PQ_LAUNDRY else PQ_INACTIVE)"

definition active_credit :: "int \<Rightarrow> int \<Rightarrow> 'r vm \<Rightarrow> pg \<Rightarrow> int" where
  "active_credit weight shortage s m =
     (if shortage \<le> 0 then 0 else if dirty (pages s m) = 0 then weight else 1)"

lemma active_take_ok:
  fixes shortage :: int
  assumes inv: "scan_inv n a s" and m: "\<not> marker s m" "m \<in> set (pq_pl s d 1)"
  defines "q \<equiv> active_goal shortage s m" and "t \<equiv> taken_off s m"
  defines "s' \<equiv> put_on t m q (pq_pl t (home t m q) q @ [m])"
  shows "active_take weight m shortage s = Inr (s', shortage - active_credit weight shortage s m)"
    "interferes own {} n a s s'"
proof -
  have qm: "queue (pages s m) < 3" using entry_queue [OF inv m(2)] by simp
  note off = loose_taken_off [OF inv m(1) qm, folded t_def]
  have it: "scan_inv n a t" using off(2) by (simp add: interferes_def)
  have dt: "dirty (pages t m) = dirty (pages s m)" by (simp add: t_def taken_off_simps)
  have ht: "home t m 0 = phys_domain t m" "home t m 2 = 0" by (simp_all add: home_def)
  show "active_take weight m shortage s = Inr (s', shortage - active_credit weight shortage s m)"
    using off(1) launder_loose [OF it off(3)] deactivate_loose [OF it off(3)]
    by (simp add: active_take_def active_credit_def s'_def q_def active_goal_def dt ht)
  have "q < 3" by (simp add: q_def active_goal_def)
  then show "interferes own {} n a s s'"
    using interferes_trans [OF off(2) put_loose(2) [OF it off(3)]] by (simp add: s'_def)
qed

lemma active_turn_ok:
  assumes inv: "scan_inv n a s" and m: "m \<in> set (pq_pl s d 1)"
    and L: "good_locks own n a L" and mk: "spare s (local_marker L)" "local_marker L \<in> own"
  shows "\<exists>s' nxt short'. active_turn L weight k d m short s = Inr (s', nxt, short') \<and>
    interferes own {local_marker L} n a s s' \<and> in_list s' d 1 nxt"
proof -
  let ?x = "local_marker L"
  let ?nxt = "tailq_next m (pq_pl s d 1)"
  have q1: "queue (pages s m) = 1" using entry_queue [OF inv m] by simp
  show ?thesis
  proof (cases "marker s m")
    case True
    then show ?thesis using q1 interferes_refl [OF inv] by (auto simp: active_turn_def marker_def)
  next
    case mm: False
    note e = scan_entry [OF inv mm m, simplified]
    have flags: "pg_flags (pages s m) AND PG_MARKER = 0" "pg_flags (pages s m) AND PG_FICTITIOUS = 0"
      using mm e(2) by (simp_all add: marker_def fictitious_def)
    have tr: "pred_option (bystanders own n a) (page_try L k)" using L by (simp add: good_locks_def)
    have dl: "distinct (pq_pl s d 1)" by (rule scan_list(1) [OF inv]) simp
    obtain t ok nx where t: "vm_pageout_page_lock (page_try L k) ?x m ?nxt s = Inr (t, ok, nx)"
      "interferes own {?x} n a s t" "in_list t d 1 nx" "ok \<longrightarrow> m \<in> set (pq_pl t d 1) \<and> nx \<noteq> Some m"
      using page_lock_ok [OF inv mm m _ mk tr, of ?nxt] tailq_next_ne [OF dl m] by auto
    have turn: "active_turn L weight k d m short s =
      (if \<not> ok then Inr (t, nx, short) else rbind (active_take weight m short t) (\<lambda>(s, shortage). Inr (s, nx, shortage)))"
      using q1 flags e(3) by (simp add: active_turn_def t(1))
    show ?thesis
    proof (cases ok)
      case False
      then show ?thesis unfolding turn using t by auto
    next
      case True
      have it: "scan_inv n a t" "\<not> marker t m" "m \<in> set (pq_pl t d 1)" "nx \<noteq> Some m"
        using t mm True by (simp_all add: interferes_def)
      let ?q = "active_goal short t m"
      let ?u = "put_on (taken_off t m) m ?q (pq_pl (taken_off t m) (home (taken_off t m) m ?q) ?q @ [m])"
      note u = active_take_ok(1) [OF it(1-3), where weight = weight and shortage = short]
        active_take_ok(2) [OF it(1-3), where shortage = short]
      have qt: "queue (pages t m) = 1" "d = home t m 1"
        using queued_elem [OF scan_invD(2) [OF it(1)] it(2), of 1 d] it(3) by simp_all
      have "pq_pl ?u d 1 = remove1 m (pq_pl t d 1)"
        using qt by (auto simp: Let_def active_goal_def)
      then have "in_list ?u d 1 nx"
        using t(3) it(4) by (auto simp: in_list_def split: option.splits)
      moreover have "interferes own {?x} n a s ?u"
        by (rule interferes_trans [OF t(2) interferes_mono [OF u(2)]]) simp
      ultimately show ?thesis unfolding turn using True u(1) by auto
    qed
  qed
qed

lemma active_scan_ok:
  assumes L: "good_locks own n a L" and x: "local_marker L \<in> own"
  shows "scan_inv n a s \<Longrightarrow> spare s (local_marker L) \<Longrightarrow> in_list s d 1 m \<Longrightarrow>
    \<exists>s' short'. active_scan L weight d min_scan maxscan k m short s = Inr (s', short') \<and>
      interferes own {local_marker L} n a s s'"
proof (induction "nat (max min_scan maxscan) - k" arbitrary: k m short s rule: less_induct)
  case less
  note rec = active_scan.simps [of L weight d min_scan maxscan k m short s]
  show ?case
  proof (cases "m \<noteq> None \<and> (int k < min_scan \<or> (0 < short \<and> int k < maxscan))")
    case False
    then show ?thesis using interferes_refl [OF less.prems(1)] rec by (auto split: option.splits)
  next
    case True
    then obtain y where p: "m = Some y" "y \<in> set (pq_pl s d 1)" using less.prems(3) by (auto simp: in_list_def)
    obtain t nxt short1 where t: "active_turn L weight k d y short s = Inr (t, nxt, short1)"
      "interferes own {local_marker L} n a s t" "in_list t d 1 nxt"
      using active_turn_ok [OF less.prems(1) p(2) L less.prems(2) x] by blast
    have it: "scan_inv n a t" using t(2) by (simp add: interferes_def)
    have "nat (max min_scan maxscan) - (k + 1) < nat (max min_scan maxscan) - k" using True by auto
    from less.hyps [OF this it interferes_spare [OF t(2) less.prems(2) x] t(3)]
    obtain s' short' where "active_scan L weight d min_scan maxscan (k + 1) nxt short1 t = Inr (s', short')"
      "interferes own {local_marker L} n a t s'" by blast
    then show ?thesis using True rec p(1) t(1) interferes_trans [OF t(2)] by auto
  qed
qed

subsection \<open>A scan and the page daemon\<close>

text \<open>Fields that no invariant reads.\<close>

lemma interferes_same:
  assumes inv: "scan_inv n a s" and same: "vm_same s s'" "fixed s' = fixed s" "is_mapped s' = is_mapped s"
  shows "interferes own X n a s s'"
proof -
  note f = fixedD [OF same(2)]
  have p: "pages s' = pages s" by (rule vm_sameD(3) [OF same(1)])
  have l: "pq_pl s' = pq_pl s" using same(1) by (simp add: vm_same_def)
  have mk: "marker s' x = marker s x" for x by (simp add: marker_def p)
  have "reclaimable s' x = reclaimable s x" for x by (rule reclaimable_cong) (simp_all add: p f same(3))
  moreover have "sound_bits s' x = sound_bits s x" for x by (rule sound_bits_cong) (simp_all add: p f)
  ultimately have "scan_inv n a s'"
    using vm_sameD(4) [OF same(1)] scan_invD [OF inv] by (simp add: scan_inv_def p l mk)
  then show ?thesis using f by (simp add: interferes_def p l mk)
qed

definition daemon_ok :: "pg set \<Rightarrow> nat \<Rightarrow> ('r \<Rightarrow> u_long \<Rightarrow> pg option) \<Rightarrow> nat \<Rightarrow> nat \<Rightarrow> pg \<Rightarrow> 'r daemon \<Rightarrow> bool" where
  "daemon_ok own n a nd d x s \<longleftrightarrow> scan_inv n a (dm_vm s) \<and> markers_free own d x (dm_vm s) \<and> oom_ok nd (dm_oom s) \<and> d < nd"

text \<open>What the environment of a scan promises: the others behave, and what the scan divides by is not zero:
  the weight of the laundry, and the clock rate when the pages are to be visited periodically.\<close>

definition scan_env_ok :: "pg set \<Rightarrow> nat \<Rightarrow> ('r \<Rightarrow> u_long \<Rightarrow> pg option) \<Rightarrow> nat \<Rightarrow> pg \<Rightarrow> 'r scan_env \<Rightarrow> bool" where
  "scan_env_ok own n a nd x Q \<longleftrightarrow> radix_ok (radix_ops (sc_env Q)) a \<and>
     good_locks own n a (sc_inactive Q) \<and> good_locks own n a (sc_active Q) \<and>
     local_marker (sc_inactive Q) = x \<and> local_marker (sc_active Q) = x \<and>
     (of_int (act_scan_laundry_weight Q) :: u_int) \<noteq> 0 \<and> (update_period Q \<noteq> 0 \<longrightarrow> scan_hz Q \<noteq> 0) \<and> vm_ndomains Q = nd"

lemma in_list_first [simp]: "in_list s d q (tailq_first (pq_pl s d q))"
  by (cases "pq_pl s d q") (simp_all add: in_list_def)

lemma lowmem_simps [simp]:
  "dm_vm (lowmem Q d pass s) = dm_vm s" "dm_oom (lowmem Q d pass s) = dm_oom s" "dm_request (lowmem Q d pass s) = dm_request s"
  by (simp_all add: lowmem_def daemon_call_def)

lemma daemon_call_simps [simp]:
  "dm_vm (daemon_call c s) = dm_vm s" "dm_oom (daemon_call c s) = dm_oom s" "dm_request (daemon_call c s) = dm_request s"
  by (simp_all add: daemon_call_def)

lemma request_simps [simp]:
  "dm_vm (request_laundry st sh s) = dm_vm s" "dm_oom (request_laundry st sh s) = dm_oom s"
  by (simp_all add: request_laundry_def)

lemma scan_active_ok:
  assumes Q: "scan_env_ok own n a nd x Q" and inv: "scan_inv n a (dm_vm s)" and x: "spare (dm_vm s) x" "x \<in> own"
  shows "\<exists>s'. scan_active Q d deficit addl s = Inr s' \<and> interferes own {x} n a (dm_vm s) (dm_vm s') \<and> dm_oom s' = dm_oom s \<and>
    dm_request s' = dm_request s"
proof -
  have q: "good_locks own n a (sc_active Q)" "local_marker (sc_active Q) = x" "(of_int (act_scan_laundry_weight Q) :: u_int) \<noteq> 0"
    "update_period Q \<noteq> 0 \<longrightarrow> scan_hz Q * update_period Q \<noteq> 0" using Q by (simp_all add: scan_env_ok_def)
  obtain short where 1: "active_target Q deficit addl (dm_vm s) = Inr short" using q(3) by (simp add: active_target_def)
  obtain min_scan where 2: "active_min_scan Q d s = Inr min_scan"
    using q(4) by (cases "update_period Q = 0") (simp_all add: active_min_scan_def)
  obtain v short' where "active_scan (sc_active Q) (act_scan_laundry_weight Q) d min_scan (pq_cnt (dm_vm s) d PQ_ACTIVE) 0
      (tailq_first (pq_pl (dm_vm s) d PQ_ACTIVE)) short (dm_vm s) = Inr (v, short')" "interferes own {x} n a (dm_vm s) v"
    using active_scan_ok [OF q(1) _ inv, of d "tailq_first (pq_pl (dm_vm s) d PQ_ACTIVE)" "act_scan_laundry_weight Q" min_scan
      "pq_cnt (dm_vm s) d PQ_ACTIVE" 0 short] x q(2) by auto
  then show ?thesis by (simp add: scan_active_def 1 2 Let_def)
qed

lemma print_statistics_ok:
  assumes "scan_inv n a s"
  shows "print_statistics d s = (if pq_pl s d 1 = [] then Inl (NullDeref ''printpage'') else Inr ())"
proof -
  have f: "tailq_first l = None \<longleftrightarrow> l = []" for l :: "pg list" by (cases l) simp_all
  have "pq_pl s d 0 \<noteq> []" using scan_list(2) [OF assms, of 0 d] by auto
  then obtain y where "tailq_first (pq_pl s d 0) = Some y" using f by blast
  moreover have "tailq_first (rev (pq_pl s d 1)) = None \<longleftrightarrow> pq_pl s d 1 = []" by (simp add: f)
  ultimately show ?thesis by (simp add: print_statistics_def split: option.splits)
qed

lemma scan_target_lists:
  "scan_target Q pass s = (s1, deficit, start) \<Longrightarrow> pq_pl (dm_vm s1) = pq_pl (dm_vm s)"
  by (auto simp: scan_target_def Let_def split: if_splits)

text \<open>The statistics read through NULL when the active queue is empty.\<close>

lemma pageout_scan_null:
  assumes "scan_inv n a (dm_vm s)" "pq_pl (dm_vm s) d PQ_ACTIVE = []"
  shows "vm_pageout_scan Q d pass s = Inl (NullDeref ''printpage'')"
proof -
  obtain s1 deficit start where s1: "scan_target Q pass (lowmem Q d pass s) = (s1, deficit, start)"
    by (cases "scan_target Q pass (lowmem Q d pass s)")
  have l: "pq_pl (dm_vm s1) = pq_pl (dm_vm s)" using scan_target_lists [OF s1] by simp
  have "tailq_first (pq_pl (dm_vm s) d 0) \<noteq> None"
    using scan_list(2) [OF assms(1), of 0 d] by (cases "pq_pl (dm_vm s) d 0") simp_all
  then have "print_statistics d (dm_vm s1) = Inl (NullDeref ''printpage'')"
    using assms(2) by (auto simp: print_statistics_def l split: option.splits)
  then show ?thesis by (simp add: vm_pageout_scan_def s1)
qed

lemma pageout_scan_ok:
  assumes Q: "scan_env_ok own n a nd x Q" and s: "daemon_ok own n a nd d x s" and act: "pq_pl (dm_vm s) d PQ_ACTIVE \<noteq> []"
  shows "\<exists>s' met. vm_pageout_scan Q d pass s = Inr (s', met) \<and> daemon_ok own n a nd d x s' \<and>
    interferes own {x} n a (dm_vm s) (dm_vm s') \<and> (pass \<le> 0 \<longrightarrow> met) \<and>
    dm_request s' = (if dm_request s = LAUNDRY_IDLE \<and> snd (snd (scan_target Q pass s)) > 0
                     then if met then LAUNDRY_BACKGROUND else LAUNDRY_SHORTFALL else dm_request s)"
proof -
  let ?s0 = "lowmem Q d pass s"
  obtain s1 deficit start where s1: "scan_target Q pass ?s0 = (s1, deficit, start)" by (cases "scan_target Q pass ?s0")
  have st: "start = snd (snd (scan_target Q pass s))" "pass \<le> 0 \<longrightarrow> start = 0"
    using s1 by (auto simp: scan_target_def Let_def split: if_splits)
  have R: "radix_ok (radix_ops (sc_env Q)) a" "good_locks own n a (sc_inactive Q)" "local_marker (sc_inactive Q) = x"
    "vm_ndomains Q = nd" using Q by (simp_all add: scan_env_ok_def)
  have inv: "scan_inv n a (dm_vm s)" "markers_free own d x (dm_vm s)" "oom_ok nd (dm_oom s)" "d < nd"
    using s by (simp_all add: daemon_ok_def)
  have s1': "interferes own {x} n a (dm_vm s) (dm_vm s1)" "dm_oom s1 = dm_oom s" "dm_request s1 = dm_request s"
  proof -
    have "interferes own {x} n a (dm_vm s) ((dm_vm s)\<lparr>vm_pageout_deficit := w\<rparr>)" for w
      by (rule interferes_same [OF inv(1)]) (simp_all add: fixed_def)
    then show "interferes own {x} n a (dm_vm s) (dm_vm s1)" "dm_oom s1 = dm_oom s" "dm_request s1 = dm_request s"
      using s1 interferes_refl [OF inv(1)] by (auto simp: scan_target_def Let_def split: if_splits)
  qed
  have i1: "scan_inv n a (dm_vm s1)" using s1'(1) by (simp add: interferes_def)
  note m1 = markers_free_step [OF s1'(1) inv(2)]
  obtain v addl short where v: "inactive_scan (sc_env Q) (sc_inactive Q) d (nat (pq_cnt (dm_vm s1) d PQ_INACTIVE))
      (tailq_first (pq_pl (dm_vm s1) d PQ_INACTIVE)) 0 start (dm_vm s1) = Inr (v, addl, short)"
    "interferes own {x} n a (dm_vm s1) v" "short \<le> start" "0 < start \<longrightarrow> 0 \<le> short"
    using inactive_scan_ok [OF R(1,2) i1, of d "tailq_first (pq_pl (dm_vm s1) d 0)" "nat (pq_cnt (dm_vm s1) d 0)" 0 start] m1 R(3)
    by auto
  have iv: "scan_inv n a v" "markers_free own d x v"
    using v(2) markers_free_step [OF v(2) m1] by (simp_all add: interferes_def)
  have pr: "print_statistics d (dm_vm s1) = Inr ()"
    using print_statistics_ok [OF i1] act scan_target_lists [OF s1] by simp
  let ?s2 = "request_laundry start short (s1\<lparr>dm_vm := v\<rparr>)"
  let ?s3 = "if short > 0 then daemon_call SwapoutRun ?s2 else ?s2"
  let ?s4 = "?s3\<lparr>dm_oom := vm_pageout_mightbe_oom (pageout_oom_seq Q) (vm_ndomains Q) d short start (dm_oom ?s3)\<rparr>"
  have s4: "dm_vm ?s4 = v" "dm_request ?s4 = dm_request ?s2"
    "dm_oom ?s4 = vm_pageout_mightbe_oom (pageout_oom_seq Q) nd d short start (dm_oom s)"
    using R(4) s1'(2) by simp_all
  have oom: "oom_ok nd (dm_oom ?s4)" unfolding s4 by (rule mightbe_oom_ok(1) [OF inv(3,4)])
  obtain s5 where s5: "scan_active Q d deficit addl ?s4 = Inr s5" "interferes own {x} n a v (dm_vm s5)" "dm_oom s5 = dm_oom ?s4"
    "dm_request s5 = dm_request ?s2"
    using scan_active_ok [OF Q, of ?s4 d deficit addl] iv s4 by (auto simp: markers_free_def)
  let ?s6 = "if pass > 0 then daemon_call SwapoutRunIdle s5 else s5"
  have s6: "dm_vm ?s6 = dm_vm s5" "dm_oom ?s6 = dm_oom s5" "dm_request ?s6 = dm_request s5" by simp_all
  have run: "vm_pageout_scan Q d pass s = Inr (?s6, short \<le> 0)"
    using s5(1) by (simp only: vm_pageout_scan_def s1 prod.case pr v(1) rbind_simps Let_def)
  have all: "interferes own {x} n a (dm_vm s) (dm_vm ?s6)"
    unfolding s6 by (rule interferes_trans [OF s1'(1) interferes_trans [OF v(2) s5(2)]])
  have "daemon_ok own n a nd d x ?s6"
    using all markers_free_step [OF all inv(2)] oom s5(3) inv(4) by (simp add: daemon_ok_def interferes_def s6)
  moreover have "dm_request ?s2 = (if dm_request s = LAUNDRY_IDLE \<and> start > 0 then if short \<le> 0 then LAUNDRY_BACKGROUND else LAUNDRY_SHORTFALL else dm_request s)"
    using s1'(3) by (simp add: request_laundry_def)
  moreover have "pass \<le> 0 \<longrightarrow> short \<le> 0" using st(2) v(3) by auto
  ultimately show ?thesis using run all s5(4) s6(3) st(1) by (intro exI [of _ ?s6] exI [of _ "short \<le> 0"]) simp
qed


text \<open>Up to the scan. Threads that wait for pages are woken before anything else when there are enough; the
  daemon sleeps only when nobody waits and its target is met.\<close>

lemma next_pass_small: "0 \<le> pass \<Longrightarrow> pass < 2 ^ 31 - 1 \<Longrightarrow> next_pass pass = pass + 1"
proof -
  assume p: "0 \<le> pass" "pass < 2 ^ 31 - 1"
  then have u: "uint (of_int (pass + 1) :: u_int) = pass + 1" by (intro u_int_of_int) simp_all
  then have "unat (of_int (pass + 1) :: u_int) < 2147483648" using p by (simp only: unat_eq_nat_uint u) (simp add: nat_less_iff)
  then show ?thesis unfolding next_pass_def using sint_of_small u by metis
qed

definition unanswered :: "'r vm_env \<Rightarrow> bool \<Rightarrow> 'r vm \<Rightarrow> bool" where
  "unanswered E met v \<longleftrightarrow> vm_pages_needed v \<and> vm_page_count_min E (v_free_count v) \<or> vm_pageout_wanted v \<and> \<not> met"

lemma worker_wake_ok:
  assumes s: "daemon_ok own n a nd d x s" and f: "bystanders own n a others"
    and w: "worker_wake E (others, woken) (pass, met) s = (s', pass')"
  shows "daemon_ok own n a nd d x s'"
    "vm_pages_needed (dm_vm s) \<Longrightarrow> \<not> vm_page_count_min E (v_free_count (dm_vm s)) \<Longrightarrow>
      \<exists>v. calls v = calls (dm_vm s) @ [WakeupFree] \<and> \<not> vm_pages_needed v \<and> (dm_vm s' = v \<or> dm_vm s' = others v)"
    "unanswered E met (dm_vm s) \<Longrightarrow> 0 \<le> pass \<Longrightarrow> pass < 2 ^ 31 - 1 \<Longrightarrow>
      1 \<le> pass' \<and> (dm_calls s' = dm_calls s \<or> dm_calls s' = dm_calls s @ [PauseDaemon])"
    "\<not> unanswered E met (dm_vm s) \<Longrightarrow> dm_calls s' = dm_calls s @ [SleepDaemon] \<and> pass' = (if woken then 1 else 0)"
    "dm_request s' = dm_request s"
proof -
  let ?v = "dm_vm s"
  define v1 where "v1 = (if vm_pages_needed ?v \<and> \<not> vm_page_count_min E (v_free_count ?v)
               then vm_call WakeupFree (?v\<lparr>vm_pages_needed := False\<rparr>) else ?v)"
  define v2 where "v2 = (if vm_pageout_wanted v1 \<and> met then v1\<lparr>vm_pageout_wanted := False\<rparr> else v1)"
  have same: "vm_same ?v v2" "fixed v2 = fixed ?v" "is_mapped v2 = is_mapped ?v"
    unfolding v2_def v1_def by (auto simp: fixed_def vm_call_def) (simp_all add: vm_same_def holds_def)
  have inv: "scan_inv n a ?v" "markers_free own d x ?v" "oom_ok nd (dm_oom s)" "d < nd" using s by (simp_all add: daemon_ok_def)
  have i2: "interferes own {x} n a ?v v2" by (rule interferes_same [OF inv(1) same])
  have iv2: "scan_inv n a v2" using i2 by (simp add: interferes_def)
  have "interferes own {} n a v2 (others v2)" using f iv2 by (simp add: bystanders_def)
  then have i3: "interferes own {x} n a ?v (others v2)" by (rule interferes_trans [OF i2 interferes_mono]) simp
  have step: "s' = (if vm_pageout_wanted v2 then if pass \<ge> 1 then (daemon_call PauseDaemon (s\<lparr>dm_vm := v2\<rparr>))\<lparr>dm_vm := others v2\<rparr> else s\<lparr>dm_vm := v2\<rparr>
      else if vm_pages_needed v2 then s\<lparr>dm_vm := v2\<rparr> else (daemon_call SleepDaemon s)\<lparr>dm_vm := others v2\<rparr>)"
    "pass' = (if vm_pageout_wanted v2 then next_pass pass else if vm_pages_needed v2 then if pass = 0 then next_pass pass else pass
      else if woken then 1 else 0)"
    using w unfolding worker_wake_def Let_def prod.case v1_def [symmetric] v2_def [symmetric]
    by (auto split: if_splits)
  have "daemon_ok own n a nd d x (t\<lparr>dm_vm := v\<rparr>)" if "interferes own {x} n a ?v v" "dm_oom t = dm_oom s" for t :: "'a daemon" and v
    using markers_free_step [OF that(1) inv(2)] that inv(3,4) by (simp add: daemon_ok_def interferes_def)
  then show "daemon_ok own n a nd d x s'" using i2 i3 step(1) by simp
  show "dm_request s' = dm_request s" using step(1) by simp
  have w2: "vm_pageout_wanted v2 \<longleftrightarrow> vm_pageout_wanted ?v \<and> \<not> met" by (auto simp: v2_def v1_def vm_call_def)
  have n2: "vm_pages_needed v2 \<longleftrightarrow> vm_pages_needed ?v \<and> vm_page_count_min E (v_free_count ?v)" by (auto simp: v2_def v1_def vm_call_def)
  show "\<exists>v. calls v = calls ?v @ [WakeupFree] \<and> \<not> vm_pages_needed v \<and> (dm_vm s' = v \<or> dm_vm s' = others v)"
    if "vm_pages_needed ?v" "\<not> vm_page_count_min E (v_free_count ?v)"
  proof (intro exI [of _ v2] conjI)
    show "calls v2 = calls ?v @ [WakeupFree]" using that by (simp add: v2_def v1_def vm_call_def)
    show "dm_vm s' = v2 \<or> dm_vm s' = others v2" using step(1) by simp
  qed (use n2 that in blast)
  show "1 \<le> pass' \<and> (dm_calls s' = dm_calls s \<or> dm_calls s' = dm_calls s @ [PauseDaemon])"
    if "unanswered E met ?v" "0 \<le> pass" "pass < 2 ^ 31 - 1"
    using that(1,2) next_pass_small [OF that(2,3)] step w2 n2 by (auto simp: unanswered_def daemon_call_def split: if_splits)
  show "dm_calls s' = dm_calls s @ [SleepDaemon] \<and> pass' = (if woken then 1 else 0)" if "\<not> unanswered E met ?v"
  proof -
    have "\<not> vm_pageout_wanted v2" "\<not> vm_pages_needed v2" using that w2 n2 by (auto simp: unanswered_def)
    then show ?thesis using step by (simp add: daemon_call_def)
  qed
qed

text \<open>The turns up to which the daemon never finds the active queue empty, when it is about to scan.\<close>

fun feeds :: "nat \<Rightarrow> ('r scan_env \<times> ('r vm \<Rightarrow> 'r vm) \<times> bool) list \<Rightarrow> int \<times> bool \<Rightarrow> 'r daemon \<Rightarrow> bool" where
  "feeds d [] pass_met s = True"
| "feeds d ((Q, sleep) # turns) pass_met s =
     (case worker_wake (sc_env Q) sleep pass_met s of (s1, pass) \<Rightarrow>
      pq_pl (dm_vm s1) d PQ_ACTIVE \<noteq> [] \<and>
      (case vm_pageout_scan Q d pass s1 of Inl e \<Rightarrow> False | Inr (s2, met) \<Rightarrow> feeds d turns (pass, met) s2))"

lemma worker_turn_ok:
  assumes Q: "scan_env_ok own n a nd x Q" and s: "daemon_ok own n a nd d x s" and f: "bystanders own n a (fst sleep)"
    and w: "worker_wake (sc_env Q) sleep pass_met s = (s1, pass1)"
  shows "daemon_ok own n a nd d x s1"
    "pq_pl (dm_vm s1) d PQ_ACTIVE = [] \<Longrightarrow> vm_pageout_worker_turn Q d sleep pass_met s = Inl (NullDeref ''printpage'')"
    "pq_pl (dm_vm s1) d PQ_ACTIVE \<noteq> [] \<Longrightarrow> \<exists>s' met'. vm_pageout_scan Q d pass1 s1 = Inr (s', met') \<and>
      vm_pageout_worker_turn Q d sleep pass_met s = Inr (s', pass1, met') \<and> daemon_ok own n a nd d x s'"
proof -
  obtain others woken where sl: "sleep = (others, woken)" by (cases sleep)
  obtain pass met where pm: "pass_met = (pass, met)" by (cases pass_met)
  show s1: "daemon_ok own n a nd d x s1" using worker_wake_ok(1) [OF s _ w [unfolded sl pm]] f sl by simp
  have turn: "vm_pageout_worker_turn Q d sleep pass_met s = rbind (vm_pageout_scan Q d pass1 s1) (\<lambda>(s, met). Inr (s, pass1, met))"
    by (simp add: vm_pageout_worker_turn_def w)
  show "vm_pageout_worker_turn Q d sleep pass_met s = Inl (NullDeref ''printpage'')" if "pq_pl (dm_vm s1) d PQ_ACTIVE = []"
    using pageout_scan_null [of n a s1 d Q pass1] that s1 by (simp add: turn daemon_ok_def)
  show "\<exists>s' met'. vm_pageout_scan Q d pass1 s1 = Inr (s', met') \<and>
      vm_pageout_worker_turn Q d sleep pass_met s = Inr (s', pass1, met') \<and> daemon_ok own n a nd d x s'"
    if "pq_pl (dm_vm s1) d PQ_ACTIVE \<noteq> []"
    using pageout_scan_ok [OF Q s1 that, of pass1] by (auto simp: turn)
qed

lemma worker_ok:
  "daemon_ok own n a nd d x s \<Longrightarrow> list_all (\<lambda>(Q, sleep). scan_env_ok own n a nd x Q \<and> bystanders own n a (fst sleep)) turns \<Longrightarrow>
   if feeds d turns pass_met s
   then \<exists>s' pass_met'. vm_pageout_worker d turns pass_met s = Inr (s', pass_met') \<and> daemon_ok own n a nd d x s'
   else vm_pageout_worker d turns pass_met s = Inl (NullDeref ''printpage'')"
proof (induction turns arbitrary: pass_met s)
  case (Cons tu turns)
  obtain Q sleep where tu: "tu = (Q, sleep)" by (cases tu)
  have Qs: "scan_env_ok own n a nd x Q" "bystanders own n a (fst sleep)" using Cons.prems(2) tu by simp_all
  have rest: "list_all (\<lambda>(Q, sleep). scan_env_ok own n a nd x Q \<and> bystanders own n a (fst sleep)) turns" using Cons.prems(2) by simp
  obtain s1 pass1 where w: "worker_wake (sc_env Q) sleep pass_met s = (s1, pass1)" by (cases "worker_wake (sc_env Q) sleep pass_met s")
  note T = worker_turn_ok [OF Qs(1) Cons.prems(1) Qs(2) w]
  show ?case
  proof (cases "pq_pl (dm_vm s1) d PQ_ACTIVE = []")
    case True
    then show ?thesis using T(2) by (simp add: tu w)
  next
    case False
    then obtain s2 met where t: "vm_pageout_scan Q d pass1 s1 = Inr (s2, met)"
      "vm_pageout_worker_turn Q d sleep pass_met s = Inr (s2, pass1, met)" "daemon_ok own n a nd d x s2"
      using T(3) by blast
    have "feeds d (tu # turns) pass_met s = feeds d turns (pass1, met) s2"
      "vm_pageout_worker d (tu # turns) pass_met s = vm_pageout_worker d turns (pass1, met) s2"
      using False by (simp_all add: tu w t(1,2))
    then show ?thesis using Cons.IH [OF t(3) rest, of "(pass1, met)"] by (simp only:)
  qed
qed simp

subsection \<open>A scan that nobody disturbs\<close>

definition undisturbed :: "'r locks \<Rightarrow> bool" where
  "undisturbed L \<longleftrightarrow> (\<forall>k. page_try L k = None \<and> object_try L k = None \<and> dequeued L k = (\<lambda>_. id) \<and> meanwhile L k = id)"

lemma bystanders_id: "bystanders own n a id"
  by (simp add: bystanders_def interferes_refl)

lemma respects_lock_id: "respects_lock own n a (\<lambda>_. id)"
  by (simp add: respects_lock_def interferes_refl)

lemma undisturbed_good: "undisturbed L \<Longrightarrow> good_locks own n a L"
  by (simp add: undisturbed_def good_locks_def bystanders_id respects_lock_id)

text \<open>The pages that the inactive scan visits: from the front of the queue until the target is
  reached or the turns run out.\<close>

fun visited :: "(pg \<Rightarrow> fate) \<Rightarrow> nat \<Rightarrow> int \<Rightarrow> pg list \<Rightarrow> pg list" where
  "visited f 0 short l = []"
| "visited f (Suc k) short [] = []"
| "visited f (Suc k) short (m # l) =
     (if short \<le> 0 then [] else m # visited f k (if f m = Freed then short - 1 else short) l)"

lemma visited_cong: "(\<And>x. x \<in> set l \<Longrightarrow> f x = g x) \<Longrightarrow> visited f k short l = visited g k short l"
  by (induction f k short l rule: visited.induct) auto

lemma visited_prefix: "\<exists>r. l = visited f k short l @ r"
  by (induction f k short l rule: visited.induct) auto

lemma final_dirty_cong:
  "pg_object (pages t m) = pg_object (pages s m) \<Longrightarrow> dirty (pages t m) = dirty (pages s m) \<Longrightarrow>
   valid (pages t m) = valid (pages s m) \<Longrightarrow> fixed t = fixed s \<Longrightarrow> final_dirty E t m = final_dirty E s m"
  using fixedD [of t s] by (simp add: final_dirty_def Let_def split: option.split)

lemma fate_cong:
  assumes "(pages t m)\<lparr>queue := q\<rparr> = (pages s m)\<lparr>queue := q\<rparr>" "fixed t = fixed s"
  shows "fate E t m = fate E s m"
proof -
  have p: "pg_object (pages t m) = pg_object (pages s m)" "dirty (pages t m) = dirty (pages s m)"
    "pg_flags (pages t m) = pg_flags (pages s m)" "hold_count (pages t m) = hold_count (pages s m)"
    "busy_lock (pages t m) = busy_lock (pages s m)" "valid (pages t m) = valid (pages s m)"
    using arg_cong [OF assms(1), of pg_object] arg_cong [OF assms(1), of dirty] arg_cong [OF assms(1), of pg_flags]
      arg_cong [OF assms(1), of hold_count] arg_cong [OF assms(1), of busy_lock] arg_cong [OF assms(1), of valid] by simp_all
  show ?thesis
    using p final_dirty_cong [OF p(1,2,6) assms(2), of E] fixedD(7) [OF assms(2)]
    by (simp add: fate_def Let_def split: option.split)
qed

definition stays :: "fate \<Rightarrow> bool" where
  "stays f \<longleftrightarrow> f = Skip \<or> f = Stuck"

text \<open>What a turn on \<open>m\<close>, between \<open>xs\<close> and \<open>ys\<close> in the queue of domain \<open>d\<close>, does.\<close>

definition turn_effect :: "'r vm_env \<Rightarrow> nat \<Rightarrow> pg \<Rightarrow> pg list \<Rightarrow> pg list \<Rightarrow> 'r vm \<Rightarrow> 'r vm \<Rightarrow> bool" where
  "turn_effect E d m xs ys s s' \<longleftrightarrow> fixed s' = fixed s \<and>
     (\<forall>x. x \<noteq> m \<longrightarrow> pages s' x = pages s x) \<and>
     freed s' = freed s @ (if fate E s m = Freed then [m] else []) \<and>
     pq_pl s' d 0 = xs @ (if stays (fate E s m) then [m] else []) @ ys \<and>
     pq_pl s' 0 2 = pq_pl s 0 2 @ (if fate E s m = Laundered then [m] else [])"

lemma insert_after_split: "m \<notin> set xs \<Longrightarrow> insert_after m x (xs @ m # ys) = xs @ m # x # ys"
  by (induction xs) auto

lemma tailq_next_split: "m \<notin> set xs \<Longrightarrow> tailq_next m (xs @ m # ys) = tailq_first ys"
  by (induction xs) auto

lemma remove1_split: "m \<notin> set xs \<Longrightarrow> remove1 m (xs @ m # ys) = xs @ ys"
  by (simp add: remove1_append)

lemma inactive_take_effect:
  assumes R: "radix_ok (radix_ops E) a" and inv: "scan_inv n a s" and m: "\<not> marker s m" "pq_pl s d 0 = xs @ m # ys"
    and i: "hold_count (pages s m) = 0" "\<not> vm_page_busied (busy_lock (pages s m))" "pg_object (pages s m) = Some ob"
    and mk: "spare s (vmd_marker s d)" "queue (pages s (vmd_marker s d)) = 0"
  shows "\<exists>s'. inactive_take E (\<lambda>_. id) id d m ob s = Inr (s', fate E s m = Freed, tailq_first ys) \<and> turn_effect E d m xs ys s s'"
proof -
  let ?x = "vmd_marker s d"
  have mem: "m \<in> set (pq_pl s d 0)" using m(2) by simp
  have xm: "marker s ?x" "?x \<notin> set (pq_pl s d 0)" using mk(1) by (simp_all add: spare_def)
  note ins = mark_in [OF inv xm mk(2) _ mem]
  have dl: "distinct (xs @ m # ys)" using scan_list(1) [OF inv, of 0 d] m(2) by simp
  have nx: "m \<notin> set xs" "m \<noteq> ?x" "?x \<notin> set xs" "?x \<notin> set ys" using dl xm m(2) by auto
  have ia: "insert_after m ?x (pq_pl s d 0) = xs @ m # ?x # ys" unfolding m(2) by (rule insert_after_split [OF nx(1)])
  let ?t = "set_pq d 0 (xs @ m # ?x # ys) s"
  have it: "scan_inv n a ?t" using ins(2) ia by simp
  have mt: "\<not> marker ?t m" "queue (pages ?t m) < 3" using m(1) entry_queue [OF inv mem] by (simp_all add: marker_def)
  have i': "hold_count (pages ?t m) = 0" "\<not> vm_page_busied (busy_lock (pages ?t m))" using i by simp_all
  note off = loose_taken_off(1,2) [OF it mt] loose_taken_off(4) [OF it mt i']
  let ?u = "taken_off ?t m"
  have iu: "scan_inv n a ?u" using off(2) by (simp add: interferes_def)
  have ob: "pg_object (pages ?u m) = Some ob" using i(3) by (simp add: taken_off_simps)
  have f: "fate E ?u m = fate E s m" by (rule fate_cong [where q = 0]) (simp_all add: taken_off_simps)
  obtain v where v: "inactive_reclaim E m ob ?u = Inr (v, fate E s m = Freed)" "fixed v = fixed s"
    "\<forall>x. x \<noteq> m \<longrightarrow> pages v x = pages s x"
    "freed v = freed s @ (if fate E s m = Freed then [m] else [])"
    "pq_pl v = (if fate E s m = Laundered then (pq_pl ?u)(0 := (pq_pl ?u 0)(2 := pq_pl ?u 0 2 @ [m])) else pq_pl ?u)"
    using inactive_reclaim_ok [OF R iu off(3) ob, of UNIV] f by (auto simp: taken_off_simps)
  have q: "queue (pages s m) = 0" "d = phys_domain s m"
    using entry_queue [OF inv mem] queued_elem [OF scan_invD(2) [OF inv] m(1), of 0 d] mem by (auto simp: home_def)
  have lu: "pq_pl ?u d 0 = xs @ ?x # ys" "pq_pl ?u 0 2 = pq_pl s 0 2"
    using q nx(1) by (auto simp: Let_def home_def remove1_split)
  have lv: "pq_pl v d 0 = xs @ ?x # ys" "pq_pl v 0 2 = pq_pl s 0 2 @ (if fate E s m = Laundered then [m] else [])"
  proof -
    define P where "P = pq_pl ?u"
    have "P d 0 = xs @ ?x # ys" "P 0 2 = pq_pl s 0 2" unfolding P_def by (rule lu)+
    moreover have "pq_pl v = (if fate E s m = Laundered then P(0 := (P 0)(2 := P 0 2 @ [m])) else P)"
      unfolding P_def by (rule v(5))
    ultimately show "pq_pl v d 0 = xs @ ?x # ys" "pq_pl v 0 2 = pq_pl s 0 2 @ (if fate E s m = Laundered then [m] else [])"
      by (cases "d = 0"; simp)+
  qed
  let ?w = "set_pq d 0 (xs @ ys) v"
  have "inactive_take E (\<lambda>_. id) id d m ob s = Inr (?w, fate E s m = Freed, tailq_first ys)"
    using off(1) v(1) lv(1) nx mem
    by (simp add: inactive_take_def tailq_insert_after_def ia Let_def tailq_remove_def remove1_split tailq_next_split)
  moreover have "\<not> stays (fate E s m)"
    using m(1) i by (simp add: stays_def fate_def Let_def marker_def)
  ultimately show ?thesis
    using v(2-4) lv by (simp add: turn_effect_def)
qed

lemma inactive_turn_effect:
  assumes R: "radix_ok (radix_ops E) a" and inv: "scan_inv n a s" and m: "pq_pl s d 0 = xs @ m # ys"
    and L: "undisturbed L" and mk: "markers_free own d (local_marker L) s"
  shows "\<exists>s'. inactive_turn E L k d m s = Inr (s', tailq_first ys, if fate E s m = Stuck then 1 else 0, fate E s m = Freed) \<and>
    turn_effect E d m xs ys s s' \<and> interferes own {local_marker L} n a s s'"
proof -
  have mem: "m \<in> set (pq_pl s d 0)" using m by simp
  have dl: "distinct (xs @ m # ys)" using scan_list(1) [OF inv, of 0 d] m by simp
  have q0: "queue (pages s m) = 0" using entry_queue [OF inv mem] by simp
  have nx: "tailq_next m (pq_pl s d 0) = tailq_first ys" unfolding m using dl by (intro tailq_next_split) auto
  obtain s' nxt stuck fr where ok: "inactive_turn E L k d m s = Inr (s', nxt, stuck, fr)" "interferes own {local_marker L} n a s s'"
    using inactive_turn_ok [OF R inv mem undisturbed_good [OF L] mk] by blast
  have l: "page_try L k = None" "object_try L k = None" "meanwhile L k = id" "dequeued L k = (\<lambda>_. id)"
    using L by (simp_all add: undisturbed_def)
  have "\<exists>s'. inactive_turn E L k d m s = Inr (s', tailq_first ys, if fate E s m = Stuck then 1 else 0, fate E s m = Freed) \<and>
    turn_effect E d m xs ys s s'"
  proof (cases "stays (fate E s m)")
    case True
    have "turn_effect E d m xs ys s s" using True m by (auto simp: turn_effect_def stays_def)
    moreover have "inactive_turn E L k d m s = Inr (s, tailq_first ys, if fate E s m = Stuck then 1 else 0, fate E s m = Freed)"
    proof (cases "marker s m")
      case True
      then have "fate E s m = Skip" by (simp add: fate_def marker_def)
      then show ?thesis using True q0 nx by (simp add: inactive_turn_def marker_def)
    next
      case False
      note e = scan_entry [OF inv False mem, simplified]
      obtain ob where ob: "pg_object (pages s m) = Some ob" using e(4) by blast
      have flags: "pg_flags (pages s m) AND PG_MARKER = 0" "pg_flags (pages s m) AND PG_FICTITIOUS = 0"
        using False e(2) by (simp_all add: marker_def fictitious_def)
      have "hold_count (pages s m) \<noteq> 0 \<or> vm_page_busied (busy_lock (pages s m))" "fate E s m = Stuck"
        using True flags by (auto simp: stays_def fate_def Let_def split: if_splits)
      then show ?thesis using q0 nx flags e(3) ob l
        by (cases "hold_count (pages s m) = 0")
          (simp_all add: inactive_turn_def vm_pageout_page_lock_def vm_pageout_object_lock_def Let_def)
    qed
    ultimately show ?thesis by blast
  next
    case False
    then have mm: "\<not> marker s m" and i: "hold_count (pages s m) = 0" "\<not> vm_page_busied (busy_lock (pages s m))"
      by (auto simp: stays_def fate_def Let_def marker_def split: if_splits)
    note e = scan_entry [OF inv mm mem, simplified]
    obtain ob where ob: "pg_object (pages s m) = Some ob" using e(4) by blast
    have flags: "pg_flags (pages s m) AND PG_MARKER = 0" "pg_flags (pages s m) AND PG_FICTITIOUS = 0"
      using mm e(2) by (simp_all add: marker_def fictitious_def)
    have mk': "spare s (vmd_marker s d)" "queue (pages s (vmd_marker s d)) = 0" using mk by (simp_all add: markers_free_def)
    obtain t where t: "inactive_take E (\<lambda>_. id) id d m ob s = Inr (t, fate E s m = Freed, tailq_first ys)" "turn_effect E d m xs ys s t"
      using inactive_take_effect [OF R inv mm m i ob mk'] by blast
    have "fate E s m \<noteq> Stuck" using False by (simp add: stays_def)
    then show ?thesis using q0 nx flags e(3) ob l i t
      by (simp add: inactive_turn_def vm_pageout_page_lock_def vm_pageout_object_lock_def)
  qed
  then show ?thesis using ok by auto
qed

text \<open>The scan as a whole: of the pages it visits, in queue order, those that are held, busy or markers
  stay, the clean ones are freed, the dirty ones go to the laundry.\<close>

lemma inactive_scan_effect:
  assumes R: "radix_ok (radix_ops E) a" and L: "undisturbed L"
  shows "scan_inv n a s \<Longrightarrow> markers_free own d (local_marker L) s \<Longrightarrow> pq_pl s d 0 = kept @ l \<Longrightarrow>
    \<exists>s'. inactive_scan E L d k (tailq_first l) addl short s =
        Inr (s', addl + int (length (filter (\<lambda>m. fate E s m = Stuck) (visited (fate E s) k short l))),
          short - int (length (filter (\<lambda>m. fate E s m = Freed) (visited (fate E s) k short l)))) \<and>
      freed s' = freed s @ filter (\<lambda>m. fate E s m = Freed) (visited (fate E s) k short l) \<and>
      pq_pl s' d 0 = kept @ filter (\<lambda>m. stays (fate E s m)) (visited (fate E s) k short l) @
        drop (length (visited (fate E s) k short l)) l \<and>
      pq_pl s' 0 2 = pq_pl s 0 2 @ filter (\<lambda>m. fate E s m = Laundered) (visited (fate E s) k short l)"
proof (induction k arbitrary: l kept addl short s)
  case 0
  then show ?case by simp
next
  case (Suc k)
  show ?case
  proof (cases l)
    case Nil
    then show ?thesis using Suc.prems(3) by simp
  next
    case (Cons m ys)
    show ?thesis
    proof (cases "short \<le> 0")
      case True
      then show ?thesis using Suc.prems(3) Cons by simp
    next
      case False
      have split: "pq_pl s d 0 = kept @ m # ys" using Suc.prems(3) Cons by simp
      obtain t where t: "inactive_turn E L k d m s = Inr (t, tailq_first ys, if fate E s m = Stuck then 1 else 0, fate E s m = Freed)"
        "turn_effect E d m kept ys s t" "interferes own {local_marker L} n a s t"
        using inactive_turn_effect [OF R Suc.prems(1) split L Suc.prems(2)] by blast
      have it: "scan_inv n a t" using t(3) by (simp add: interferes_def)
      note mt = markers_free_step [OF t(3) Suc.prems(2)]
      let ?kept = "kept @ (if stays (fate E s m) then [m] else [])"
      have lt: "pq_pl t d 0 = ?kept @ ys" using t(2) by (simp add: turn_effect_def)
      have "distinct (kept @ m # ys)" using scan_list(1) [OF Suc.prems(1), of 0 d] split by simp
      then have f: "fate E t x = fate E s x" if "x \<in> set ys" for x
        using that t(2) by (intro fate_cong [where q = 0]) (auto simp: turn_effect_def)
      let ?short = "if fate E s m = Freed then short - 1 else short"
      have V: "visited (fate E t) k ?short ys = visited (fate E s) k ?short ys" by (rule visited_cong [OF f])
      have sub: "set (visited (fate E s) k ?short ys) \<subseteq> set ys"
        using visited_prefix [of ys "fate E s" k ?short] by (metis Un_upper1 set_append)
      have F: "filter (\<lambda>m. P (fate E t m)) (visited (fate E s) k ?short ys) = filter (\<lambda>m. P (fate E s m)) (visited (fate E s) k ?short ys)" for P
        using sub f by (intro filter_cong) auto
      show ?thesis
        using Suc.IH [OF it mt lt, of "addl + (if fate E s m = Stuck then 1 else 0)" ?short] False t(2)
        unfolding Cons V F F [of "\<lambda>f. f = Freed"] F [of "\<lambda>f. f = Stuck"] F [of "\<lambda>f. f = Laundered"] 
        by (auto simp: t(1) turn_effect_def stays_def)
    qed
  qed
qed

text \<open>The active scan takes the pages from the front of the queue: each with the queue it goes to.\<close>

fun active_visited ::
    "(pg \<Rightarrow> bool) \<Rightarrow> int \<Rightarrow> int \<Rightarrow> int \<Rightarrow> nat \<Rightarrow> int \<Rightarrow> pg list \<Rightarrow> (pg \<times> u_char) list" where
  "active_visited clean weight mn mx k short [] = []"
| "active_visited clean weight mn mx k short (m # l) =
     (if int k < mn \<or> (0 < short \<and> int k < mx) then
        (if 0 < short \<and> \<not> clean m
         then (m, PQ_LAUNDRY) # active_visited clean weight mn mx (k + 1) (short - 1) l
         else (m, PQ_INACTIVE) # active_visited clean weight mn mx (k + 1) (if 0 < short then short - weight else short) l)
      else [])"

lemma active_visited_cong:
  "(\<And>x. x \<in> set l \<Longrightarrow> f x = g x) \<Longrightarrow> active_visited f w mn mx k short l = active_visited g w mn mx k short l"
  by (induction f w mn mx k short l rule: active_visited.induct) auto

definition clean :: "'r vm \<Rightarrow> pg \<Rightarrow> bool" where
  "clean s m \<longleftrightarrow> dirty (pages s m) = 0"

definition sent :: "u_char \<Rightarrow> (pg \<times> u_char) list \<Rightarrow> pg list" where
  "sent q V = map fst (filter (\<lambda>x. snd x = q) V)"

lemma active_turn_effect:
  assumes inv: "scan_inv n a s" and m: "\<not> marker s m" "pq_pl s d 1 = m # ys" and L: "undisturbed L"
  shows "\<exists>s'. active_turn L weight k d m short s =
        Inr (s', tailq_first ys, short - active_credit weight short s m) \<and> interferes own {} n a s s' \<and>
      (\<forall>x. x \<noteq> m \<longrightarrow> pages s' x = pages s x) \<and> pq_pl s' d 1 = ys \<and>
      pq_pl s' d 0 = pq_pl s d 0 @ (if active_goal short s m = 0 then [m] else []) \<and>
      pq_pl s' 0 2 = pq_pl s 0 2 @ (if active_goal short s m = 2 then [m] else [])"
proof -
  have mem: "m \<in> set (pq_pl s d 1)" using m(2) by simp
  have q: "queue (pages s m) = 1" "d = phys_domain s m"
    using queued_elem [OF scan_invD(2) [OF inv] m(1), of 1 d] mem by (simp_all add: home_def)
  note e = scan_entry [OF inv m(1) mem, simplified]
  have flags: "pg_flags (pages s m) AND PG_MARKER = 0" "pg_flags (pages s m) AND PG_FICTITIOUS = 0"
    using m(1) e(2) by (simp_all add: marker_def fictitious_def)
  let ?q = "active_goal short s m" and ?t = "taken_off s m"
  let ?u = "put_on ?t m ?q (pq_pl ?t (home ?t m ?q) ?q @ [m])"
  note u = active_take_ok(1) [OF inv m(1) mem, where weight = weight and shortage = short]
    active_take_ok(2) [OF inv m(1) mem, where shortage = short]
  have "active_turn L weight k d m short s = Inr (?u, tailq_first ys, short - active_credit weight short s m)"
    using q(1) flags e(3) L u(1) m(2) by (simp add: active_turn_def vm_pageout_page_lock_def undisturbed_def)
  moreover have "pages ?u x = pages s x" if "x \<noteq> m" for x using that by (simp add: put_on_simps taken_off_simps)
  moreover have "?q = 0 \<or> ?q = 2" by (simp add: active_goal_def)
  then have "pq_pl ?u d 1 = ys \<and> pq_pl ?u d 0 = pq_pl s d 0 @ (if ?q = 0 then [m] else []) \<and>
      pq_pl ?u 0 2 = pq_pl s 0 2 @ (if ?q = 2 then [m] else [])"
  proof
    assume "?q = 0"
    then show ?thesis using q m(2) by (auto simp: home_def taken_off_simps Let_def)
  next
    assume "?q = 2"
    then show ?thesis using q m(2) by (auto simp: home_def taken_off_simps Let_def)
  qed
  ultimately show ?thesis using u(2) by blast
qed

lemma active_scan_effect:
  assumes L: "undisturbed L"
  shows "scan_inv n a s \<Longrightarrow> pq_pl s d 1 = l \<Longrightarrow> (\<forall>x \<in> set l. \<not> marker s x) \<Longrightarrow>
    V = active_visited (clean s) weight mn mx k short l \<Longrightarrow>
    \<exists>s' short'. active_scan L weight d mn mx k (tailq_first l) short s = Inr (s', short') \<and>
      pq_pl s' d 1 = drop (length V) l \<and> pq_pl s' d 0 = pq_pl s d 0 @ sent PQ_INACTIVE V \<and>
      pq_pl s' 0 2 = pq_pl s 0 2 @ sent PQ_LAUNDRY V"
proof (induction l arbitrary: k short s V)
  case Nil
  then show ?case by (simp add: active_scan.simps sent_def)
next
  case (Cons m ys)
  note rec = active_scan.simps [of L weight d mn mx k "Some m" short s]
  show ?case
  proof (cases "int k < mn \<or> (0 < short \<and> int k < mx)")
    case False
    have "V = []" unfolding Cons.prems(4) active_visited.simps if_not_P [OF False] ..
    moreover have "active_scan L weight d mn mx k (tailq_first (m # ys)) short s = Inr (s, short)"
      by (simp only: tailq_first_simps rec option.case if_not_P [OF False])
    ultimately show ?thesis using Cons.prems(2) by (simp add: sent_def)
  next
    case True
    have mm: "\<not> marker s m" using Cons.prems(3) by simp
    obtain t where t: "active_turn L weight k d m short s = Inr (t, tailq_first ys, short - active_credit weight short s m)"
      "interferes own {} n a s t" "\<forall>x. x \<noteq> m \<longrightarrow> pages t x = pages s x" "pq_pl t d 1 = ys"
      "pq_pl t d 0 = pq_pl s d 0 @ (if active_goal short s m = 0 then [m] else [])"
      "pq_pl t 0 2 = pq_pl s 0 2 @ (if active_goal short s m = 2 then [m] else [])"
      using active_turn_effect [OF Cons.prems(1) mm Cons.prems(2) L] by blast
    have it: "scan_inv n a t" using t(2) by (simp add: interferes_def)
    have mt: "\<forall>x \<in> set ys. \<not> marker t x" using Cons.prems(3) t(2) by (simp add: interferes_def)
    have dl: "distinct (m # ys)" using scan_list(1) [OF Cons.prems(1), of 1 d] Cons.prems(2) by simp
    let ?short = "short - active_credit weight short s m"
    have V: "active_visited (clean t) weight mn mx (k + 1) ?short ys = active_visited (clean s) weight mn mx (k + 1) ?short ys"
      using dl t(3) by (intro active_visited_cong) (auto simp: clean_def)
    have Vm: "V = (m, active_goal short s m) # active_visited (clean s) weight mn mx (k + 1) ?short ys"
      using Cons.prems(4) True by (simp add: clean_def [of s m] active_goal_def active_credit_def)
    obtain s' short' where "active_scan L weight d mn mx (k + 1) (tailq_first ys) ?short t = Inr (s', short')"
      "pq_pl s' d 1 = drop (length (tl V)) ys" "pq_pl s' d 0 = pq_pl t d 0 @ sent PQ_INACTIVE (tl V)"
      "pq_pl s' 0 2 = pq_pl t 0 2 @ sent PQ_LAUNDRY (tl V)"
      using Cons.IH [OF it t(4) mt, of "tl V" "k + 1" ?short] V Vm by auto
    then show ?thesis using True rec t(1,5,6) Vm by (simp add: sent_def)
  qed
qed

text \<open>Another thread that takes a hold on a page is a bystander.\<close>

lemma bystanders_hold: "bystanders own n a (\<lambda>s. if marker s m then s else vm_page_hold m s)"
  unfolding bystanders_def
proof (intro allI impI)
  fix s :: "'a vm" assume inv: "scan_inv n a s"
  show "interferes own {} n a s (if marker s m then s else vm_page_hold m s)"
  proof (cases "marker s m")
    case False
    let ?s = "upd_pg m (\<lambda>p. p\<lparr>hold_count := hold_count p + 1\<rparr>) s"
    have i: "vm_inv n a ?s"
      by (rule vm_inv_upd_flags [OF scan_invD(1) [OF inv] False]) (use not_marker_flags [OF False] in simp_all)
    have "reclaimable ?s m = reclaimable s m" using fixedD [of ?s s] by (simp add: reclaimable_def split: option.split)
    moreover have "sound_bits ?s m = sound_bits s m" by (simp add: sound_bits_def) (simp add: upd_pg_def)
    ultimately have "interferes own {} n a s ?s"
      using scan_invD(6,7) [OF inv False] False
      by (intro scan_inv_page [OF inv i, where m = m]) (simp_all add: marker_def)
    then show ?thesis using False by (simp add: vm_page_hold_def)
  qed (simp add: interferes_refl [OF inv])
qed

text \<open>So is a thread that puts a marker of its own behind a page, as the other scans do while they wait.\<close>

lemma interferes_init_marker:
  assumes "scan_inv n a s" "spare s x" "x \<notin> own"
  shows "interferes own {} n a s (vm_pageout_init_marker x q s)"
  using interferes_foreign [OF init_marker_ok(2) [OF assms(1,2), of own q]] assms(3) by simp

lemma bystanders_mark:
  assumes x: "x \<notin> own" and q: "q < 3"
  shows "bystanders own n a (\<lambda>s. if spare s x \<and> m \<in> set (pq_pl s d q)
    then set_pq d q (insert_after m x (pq_pl s d q)) (vm_pageout_init_marker x q s) else s)"
  unfolding bystanders_def
proof (intro allI impI)
  fix s :: "'a vm" assume inv: "scan_inv n a s"
  let ?s = "vm_pageout_init_marker x q s" let ?t = "set_pq d q (insert_after m x (pq_pl s d q)) ?s"
  show "interferes own {} n a s (if spare s x \<and> m \<in> set (pq_pl s d q) then ?t else s)"
  proof (cases "spare s x \<and> m \<in> set (pq_pl s d q)")
    case True
    then have sp: "spare s x" and m: "m \<in> set (pq_pl s d q)" by blast+
    note i = init_marker_ok [OF inv sp, where q = q]
    have l: "pq_pl ?s = pq_pl s" by (simp add: vm_pageout_init_marker_def)
    have mk: "marker ?s x" "x \<notin> set (pq_pl ?s d q)" "queue (pages ?s x) = q"
      using i(3) q by (simp_all add: spare_def) (simp add: vm_pageout_init_marker_def marker_page_def)
    note ins = mark_in [OF i(1) mk q, of m, unfolded l, OF m]
    have "interferes own {} n a ?s ?t"
      by (rule interferes_set_pq [OF ins(2)]) (use ins(4) x in \<open>auto simp: l\<close>)
    from interferes_trans [OF interferes_init_marker [OF inv sp x] this] show ?thesis using True by simp
  qed (use interferes_refl [OF inv] in auto)
qed

lemma remove_unmanaged: "vm_page_remove R m s = Inr s' \<Longrightarrow> unmanaged x s' = unmanaged x s"
  by (auto simp: vm_page_remove_def Let_def set_busy_def call_if_def updaters unmanaged_def split: option.splits if_splits prod.splits)

text \<open>A page that is freed while it is held stays as it is for the last holder.\<close>

lemma free_held:
  assumes R: "radix_ok (radix_ops E) a" and inv: "vm_inv n a s" and m: "freeable s m" and h: "hold_count (pages s m) \<noteq> 0"
    and f: "vm_page_free E m s = Inr s'"
  shows "\<not> marker s' m" "\<not> fictitious s' m" "unmanaged m s' \<or> \<not> is_mapped s' m"
proof -
  let ?s = "upd_pg m (\<lambda>p. p\<lparr>pg_flags := pg_flags p AND NOT PG_ZERO\<rparr>) s"
  have mk: "\<not> marker s m" using m by (simp add: freeable_def)
  have i0: "vm_inv n a ?s" by (rule vm_inv_upd_flags [OF inv mk]) (use not_marker_flags [OF mk] in \<open>simp_all add: zero_bits\<close>)
  have m0: "freeable ?s m" using m by (simp add: freeable_def marker_def fictitious_def unmanaged_def zero_bits)
  have mk0: "\<not> marker ?s m" using m0 by (simp add: freeable_def)
  obtain t where t: "vm_page_free_prep E m False ?s = Inr (t, False)"
    using free_prep_ok [OF R i0 m0] h by auto
  then have s': "s' = t" using f by (simp add: vm_page_free_def vm_page_free_toq_def)
  obtain u where u: "vm_page_remque m ?s = Inr u" "\<not> marker u m" "pages u = (pages ?s)(m := (pages ?s m)\<lparr>queue := 255\<rparr>)"
    "is_mapped u = is_mapped s"
  proof (cases rule: queue_cases [OF inv_layers(1) [OF i0] mk0])
    case 1
    have noop: "queue p = 255 \<Longrightarrow> p\<lparr>queue := 255\<rparr> = p" for p :: vm_page by (cases p) simp
    have "(pages ?s m)\<lparr>queue := 255\<rparr> = pages ?s m" by (rule noop [OF 1])
    then have "(pages ?s)(m := (pages ?s m)\<lparr>queue := 255\<rparr>) = pages ?s" by (metis fun_upd_triv)
    then show thesis using 1 mk0 by (intro that [of ?s]) (simp_all add: vm_page_remque_def)
  next
    case 2
    show thesis
      using dequeue_ok(3) [OF inv_layers(1) [OF i0] mk0 2] mk0 by (intro that [of "taken_off ?s m"]) (simp_all add: taken_off_simps)
  qed
  have deq: "(if queue (pages ?s m) \<noteq> PQ_NONE then if False then vm_page_dequeue_locked m ?s else vm_page_dequeue m ?s else Inr ?s) = Inr u"
    using u(1) by (simp add: vm_page_remque_def split: if_splits)
  obtain v where v: "vm_page_remove (radix_ops E) m u = Inr v"
    and tv: "t = upd_pg m (\<lambda>p. p\<lparr>pg_flags := pg_flags p OR PG_UNHOLDFREE\<rparr>)
       (upd_pg m (\<lambda>p. p\<lparr>pg_flags := pg_flags p AND NOT PG_ZERO\<rparr>) (upd_pg m (\<lambda>p. vm_page_undirty (p\<lparr>valid := 0\<rparr>)) v)) \<or> t = v"
    using t unfolding vm_page_free_prep_def deq by (auto simp: Let_def split: if_splits)
  have fl: "pg_flags (pages v m) = pg_flags (pages s m) AND NOT PG_ZERO"
    using remove_flags [OF v, of m] by (simp add: u(3))
  have f3: "pg_flags (pages s m) AND PG_MARKER = 0" "pg_flags (pages s m) AND PG_FICTITIOUS = 0"
    using m by (simp_all add: freeable_def marker_def fictitious_def)
  show "\<not> marker s' m" "\<not> fictitious s' m"
    using tv f3 unfolding s' marker_def fictitious_def
    by (auto simp: fl vm_page_undirty_def unholdfree_bits zero_bits)
  have "unmanaged m t = unmanaged m v"
    using tv by (auto simp: unmanaged_def vm_page_undirty_def)
  then have "unmanaged m s' = unmanaged m s"
    using remove_unmanaged [OF v, of m] unfolding s' by (simp add: unmanaged_def u(3))
  moreover have "is_mapped s' = is_mapped s"
  proof -
    have "is_mapped v = is_mapped s" using remove_step [OF v] u(4) by (simp add: off_queue_step_def)
    then show ?thesis using tv unfolding s' by auto
  qed
  ultimately show "unmanaged m s' \<or> \<not> is_mapped s' m" using m by (simp add: freeable_def)
qed

end
