(* ===== verification/VmResident.thy ===== *)
theory VmResident
  imports VmObjectLaws Simulation
begin

text \<open>
  The abstract view of the objects: a map from page indices to pages for each object. The list, the
  trie and the counters of vm_page.c implement it, and histories of operations answer as the map
  does.
\<close>


subsection \<open>The resident pages as a map\<close>

type_synonym resident = "obj \<Rightarrow> u_long \<Rightarrow> pg option"

datatype res_op =
    Res_insert pg obj u_long | Res_remove pg | Res_lookup obj u_long | Res_least obj u_long
  | Res_next obj u_long | Res_prev obj u_long

text \<open>The page that an operation finds, or whether an insertion failed.\<close>

datatype res_answer = Found "pg option" | Failed bool

text \<open>
  The trie operations are carried along with the state. The environment of a step says whether memory
  for the nodes of the trie is to be had; without it vm_radix_insert fails.
\<close>

definition no_nodes :: "'r radix \<Rightarrow> 'r radix" where
  "no_nodes R = R\<lparr>r_insert := (\<lambda>_ _ _. None)\<rparr>"

fun res_exec :: "bool \<Rightarrow> res_op \<Rightarrow> 'r radix \<times> 'r vm \<Rightarrow> fault + ('r radix \<times> 'r vm) \<times> res_answer" where
  "res_exec room (Res_insert m ob k) (R, s) =
     rbind (vm_page_insert (if room then R else no_nodes R) m ob k s) (\<lambda>(s, failed). Inr ((R, s), Failed failed))"
| "res_exec _ (Res_remove m) (R, s) = rbind (vm_page_remove R m s) (\<lambda>s. Inr ((R, s), Found None))"
| "res_exec _ (Res_lookup ob k) (R, s) = Inr ((R, s), Found (vm_page_lookup R ob k s))"
| "res_exec _ (Res_least ob k) (R, s) = Inr ((R, s), Found (vm_page_find_least R ob k s))"
| "res_exec _ (Res_next ob k) (R, s) =
     (case vm_page_lookup R ob k s of None \<Rightarrow> Inl (NullDeref ''vm_page_next'')
      | Some m \<Rightarrow> rbind (vm_page_next m s) (\<lambda>q. Inr ((R, s), Found q)))"
| "res_exec _ (Res_prev ob k) (R, s) =
     (case vm_page_lookup R ob k s of None \<Rightarrow> Inl (NullDeref ''vm_page_prev'')
      | Some m \<Rightarrow> rbind (vm_page_prev m s) (\<lambda>q. Inr ((R, s), Found q)))"

definition least_index :: "(u_long \<Rightarrow> pg option) \<Rightarrow> u_long \<Rightarrow> pg option" where
  "least_index A k = (let J = {j. k \<le> j \<and> A j \<noteq> None} in if J = {} then None else A (Min J))"

fun res_spec :: "bool \<Rightarrow> res_op \<Rightarrow> resident \<Rightarrow> resident \<times> res_answer" where
  "res_spec room (Res_insert m ob k) A = (if room then (A(ob := (A ob)(k := Some m)), Failed False) else (A, Failed True))"
| "res_spec _ (Res_remove m) A = ((\<lambda>ob k. if A ob k = Some m then None else A ob k), Found None)"
| "res_spec _ (Res_lookup ob k) A = (A, Found (A ob k))"
| "res_spec _ (Res_least ob k) A = (A, Found (least_index (A ob) k))"
| "res_spec _ (Res_next ob k) A = (A, Found (if k = - 1 then None else A ob (k + 1)))"
| "res_spec _ (Res_prev ob k) A = (A, Found (if k = 0 then None else A ob (k - 1)))"

fun res_pre :: "bool \<Rightarrow> res_op \<Rightarrow> resident \<Rightarrow> bool" where
  "res_pre _ (Res_insert m ob k) A \<longleftrightarrow> A ob k = None \<and> (\<forall>o' k'. A o' k' \<noteq> Some m)"
| "res_pre _ (Res_next ob k) A \<longleftrightarrow> A ob k \<noteq> None"
| "res_pre _ (Res_prev ob k) A \<longleftrightarrow> A ob k \<noteq> None"
| "res_pre _ _ A \<longleftrightarrow> True"

definition look :: "'r radix \<Rightarrow> 'r \<Rightarrow> u_long \<Rightarrow> pg option" where
  "look R t k = r_lookup R k t"

definition res_of :: "'r radix \<times> 'r vm \<Rightarrow> resident" where
  "res_of x = (\<lambda>ob k. r_lookup (fst x) k (rtree (snd x) ob))"

text \<open>The trie keeps its laws, and with memory for its nodes an insertion at a free index succeeds.\<close>

definition res_good :: "'r radix \<times> 'r vm \<Rightarrow> bool" where
  "res_good x \<longleftrightarrow> radix_ok (fst x) (look (fst x)) \<and> (\<forall>k p t. r_lookup (fst x) k t = None \<longrightarrow> r_insert (fst x) k p t \<noteq> None) \<and>
     obj_wf (look (fst x)) (snd x)"

lemma find_least_index:
  assumes R: "radix_ok R a" and wf: "obj_wf a s"
  shows "vm_page_find_least R ob k s = least_index (a (rtree s ob)) k"
proof -
  let ?l = "memq s ob" and ?J = "{j. k \<le> j \<and> a (rtree s ob) j \<noteq> None}"
  have J: "j \<in> ?J \<longleftrightarrow> k \<le> j \<and> (\<exists>x\<in>set ?l. pindex (pages s x) = j)" for j
    using trie_None [OF wf, of ob j] obj_wfD(2) [OF wf, of _ ob] by auto
  show ?thesis
  proof (cases "find (\<lambda>m. k \<le> pindex (pages s m)) ?l")
    case None
    then have "?J = {}" using J by (auto simp: find_None_iff)
    then show ?thesis using None find_least_ok [OF R wf, of ob k] by (simp add: least_index_def Let_def)
  next
    case (Some x)
    have min: "x \<in> set l \<and> k \<le> pindex (pages s x) \<and> (\<forall>y\<in>set l. k \<le> pindex (pages s y) \<longrightarrow> pindex (pages s x) \<le> pindex (pages s y))"
      if "sorted_pages s l" "find (\<lambda>m. k \<le> pindex (pages s m)) l = Some x" for l
      using that by (induction l) (auto simp: sorted_pages_simps split: if_splits)
    note x = min [OF obj_wfD(1) [OF wf] Some]
    have "pindex (pages s x) \<in> ?J" using x J by blast
    moreover have "Min ?J = pindex (pages s x)"
      by (rule Min_eqI) (use x J in \<open>auto simp del: mem_Collect_eq\<close>)
    moreover have "a (rtree s ob) (pindex (pages s x)) = Some x"
      using x obj_wfD(2) [OF wf, of x ob] by (simp add: trie_iff [OF wf])
    ultimately show ?thesis using Some find_least_ok [OF R wf, of ob k] by (auto simp: least_index_def Let_def)
  qed
qed


lemma remove_res:
  assumes R: "radix_ok R a" and wf: "obj_wf a s"
  shows "\<exists>s'. vm_page_remove R m s = Inr s' \<and> obj_wf a s' \<and>
    (\<forall>ob k. a (rtree s' ob) k = (if a (rtree s ob) k = Some m then None else a (rtree s ob) k))"
proof -
  obtain s' where s': "vm_page_remove R m s = Inr s'" "obj_wf a s'"
    "case pg_object (pages s m) of None \<Rightarrow> s' = s | Some ob \<Rightarrow> page_removed a m s s'"
    using remove_ok [OF R wf] by blast
  have "a (rtree s' ob) k = (if a (rtree s ob) k = Some m then None else a (rtree s ob) k)" for ob k
  proof (cases "pg_object (pages s m)")
    case None
    then have "a (rtree s ob) k \<noteq> Some m" by (simp add: trie_iff [OF wf])
    then show ?thesis using s'(3) None by simp
  next
    case (Some o1)
    then have r: "a (rtree s' o1) = (a (rtree s o1))(pindex (pages s m) := None)" "obj_frame o1 s s'"
      using s'(3) by (auto simp: page_removed_def)
    show ?thesis
    proof (cases "ob = o1")
      case True
      then show ?thesis using Some trie_iff [OF wf, of o1 k m] by (auto simp: r(1))
    next
      case False
      then have "a (rtree s ob) k \<noteq> Some m" using Some by (simp add: trie_iff [OF wf])
      then show ?thesis using r(2) False by (simp add: obj_frame_def)
    qed
  qed
  then show ?thesis using s' by blast
qed

lemma res_exec_ok:
  assumes good: "res_good x" and pre: "res_pre u op (res_of x)"
  shows "\<exists>x' r. res_exec u op x = Inr (x', r) \<and> res_good x' \<and> res_spec u op (res_of x) = (res_of x', id r)"
proof -
  obtain R s where x: "x = (R, s)" by fastforce
  have R: "radix_ok R (look R)" and tot: "\<And>k p t. r_lookup R k t = None \<Longrightarrow> r_insert R k p t \<noteq> None" and wf: "obj_wf (look R) s"
    using good by (simp_all add: res_good_def x)
  have res: "res_of (R, t) = (\<lambda>ob k. look R (rtree t ob) k)" for t by (simp add: res_of_def look_def)
  have ok: "res_good (R, t)" if "obj_wf (look R) t" for t using good that by (simp add: res_good_def x)
  have lk: "vm_page_lookup R ob k s = look R (rtree s ob) k" for ob k by (simp add: vm_page_lookup_def look_def)
  show ?thesis
  proof (cases op)
    case (Res_insert m ob k)
    then have free: "look R (rtree s ob) k = None" and none: "\<And>o' k'. look R (rtree s o') k' \<noteq> Some m"
      using pre by (simp_all add: x res)
    have m: "pg_object (pages s m) = None"
    proof (cases "pg_object (pages s m)")
      case (Some o1)
      then show ?thesis using none [of o1 "pindex (pages s m)"] by (simp add: trie_iff [OF wf])
    qed
    show ?thesis
    proof (cases u)
      case True
      have "r_insert R k m (rtree s ob) \<noteq> None" using tot free by (simp add: look_def)
      then obtain s' where s': "vm_page_insert R m ob k s = Inr (s', False)" "obj_wf (look R) s'"
        "page_inserted (look R) m ob k s s'"
        using insert_ok [OF R wf m free] by auto
      have "(res_of (R, s))(ob := (res_of (R, s) ob)(k := Some m)) = res_of (R, s')"
        using s'(3) by (auto simp: res page_inserted_def obj_frame_def fun_eq_iff)
      then show ?thesis using Res_insert s' ok True by (simp add: x)
    next
      case False
      have "radix_ok (no_nodes R) (look R)" "r_insert (no_nodes R) k m (rtree s ob) = None"
        using R by (simp_all add: no_nodes_def radix_ok_def)
      then obtain s' where s': "vm_page_insert (no_nodes R) m ob k s = Inr (s', True)" "obj_wf (look R) s'"
        "s' = upd_pg m (\<lambda>p. p\<lparr>pg_object := None, pindex := 0\<rparr>) s"
        using insert_ok [OF _ wf m free, of "no_nodes R"] by auto
      have "rtree s' = rtree s" by (simp add: s'(3) upd_pg_def)
      then have "res_of (R, s') = res_of (R, s)" by (simp add: res)
      then show ?thesis using Res_insert s'(1,2) ok False by (simp add: x)
    qed
  next
    case (Res_remove m)
    obtain s' where s': "vm_page_remove R m s = Inr s'" "obj_wf (look R) s'"
      "\<forall>ob k. look R (rtree s' ob) k = (if look R (rtree s ob) k = Some m then None else look R (rtree s ob) k)"
      using remove_res [OF R wf] by blast
    then show ?thesis using Res_remove ok by (simp add: x res)
  next
    case (Res_lookup ob k)
    then show ?thesis using good by (simp add: x res lk)
  next
    case (Res_least ob k)
    then show ?thesis using good find_least_index [OF R wf] by (simp add: x res)
  next
    case (Res_next ob k)
    then obtain m where m: "look R (rtree s ob) k = Some m" using pre by (auto simp: x res)
    then have o: "pg_object (pages s m) = Some ob" "pindex (pages s m) = k" by (simp_all add: trie_iff [OF wf])
    then show ?thesis using Res_next good m next_ok [OF wf o(1)] by (simp add: x res lk)
  next
    case (Res_prev ob k)
    then obtain m where m: "look R (rtree s ob) k = Some m" using pre by (auto simp: x res)
    then have o: "pg_object (pages s m) = Some ob" "pindex (pages s m) = k" by (simp_all add: trie_iff [OF wf])
    then show ?thesis using Res_prev good m prev_ok [OF wf o(1)] by (simp add: x res lk)
  qed
qed

interpretation resident: simulation res_exec res_spec res_good res_of id res_pre
  by unfold_locales (rule res_exec_ok)

subsection \<open>A trie that can be run\<close>

text \<open>Association lists keep the laws; they stand in for the trie where an example is computed.\<close>

fun al_le :: "u_long \<Rightarrow> (u_long \<times> pg) list \<Rightarrow> (u_long \<times> pg) option" where
  "al_le k [] = None"
| "al_le k ((j, p) # t) =
     (if k < j then al_le k t
      else case al_le k t of None \<Rightarrow> Some (j, p) | Some (i, q) \<Rightarrow> if j < i then Some (i, q) else Some (j, p))"

fun al_ge :: "u_long \<Rightarrow> (u_long \<times> pg) list \<Rightarrow> (u_long \<times> pg) option" where
  "al_ge k [] = None"
| "al_ge k ((j, p) # t) =
     (if j < k then al_ge k t
      else case al_ge k t of None \<Rightarrow> Some (j, p) | Some (i, q) \<Rightarrow> if i < j then Some (i, q) else Some (j, p))"

definition al_radix :: "(u_long \<times> pg) list radix" where
  "al_radix = \<lparr>r_lookup = \<lambda>k t. map_of t k, r_lookup_le = \<lambda>k t. map_option snd (al_le k t),
     r_lookup_ge = \<lambda>k t. map_option snd (al_ge k t), r_insert = \<lambda>k p t. Some ((k, p) # t),
     r_remove = \<lambda>k t. (map_of t k, filter (\<lambda>(j, _). j \<noteq> k) t),
     r_replace = \<lambda>k p t. (map_of t k, (k, p) # t)\<rparr>"

lemma al_le_None: "al_le k t = None \<Longrightarrow> j \<le> k \<Longrightarrow> map_of t j = None"
  by (induction k t rule: al_le.induct) (auto split: if_splits option.splits)

lemma al_le_Some: "al_le k t = Some (j, p) \<Longrightarrow>
  j \<le> k \<and> map_of t j = Some p \<and> (\<forall>i\<le>k. j < i \<longrightarrow> map_of t i = None)"
proof (induction k t arbitrary: j p rule: al_le.induct)
  case (2 k j' p' t)
  then show ?case using al_le_None [of k t]
    by (fastforce split: if_splits option.splits)
qed simp

lemma al_ge_None: "al_ge k t = None \<Longrightarrow> k \<le> j \<Longrightarrow> map_of t j = None"
  by (induction k t rule: al_ge.induct) (auto split: if_splits option.splits)

lemma al_ge_Some: "al_ge k t = Some (j, p) \<Longrightarrow>
  k \<le> j \<and> map_of t j = Some p \<and> (\<forall>i\<ge>k. i < j \<longrightarrow> map_of t i = None)"
proof (induction k t arbitrary: j p rule: al_ge.induct)
  case (2 k j' p' t)
  then show ?case using al_ge_None [of k t]
    by (fastforce split: if_splits option.splits)
qed simp

lemma map_of_filter_key: "map_of (filter (\<lambda>(j, _). j \<noteq> k) t) = (map_of t)(k := None)"
  by (induction t) (auto simp: fun_eq_iff)

lemma al_radix_simps [simp]:
  "r_lookup al_radix k t = map_of t k" "r_insert al_radix k p t = Some ((k, p) # t)"
  "r_lookup_le al_radix k t = map_option snd (al_le k t)" "r_lookup_ge al_radix k t = map_option snd (al_ge k t)"
  "r_remove al_radix k t = (map_of t k, filter (\<lambda>(j, _). j \<noteq> k) t)"
  "r_replace al_radix k p t = (map_of t k, (k, p) # t)"
  by (simp_all add: al_radix_def)

lemma al_radix_ok: "radix_ok al_radix map_of"
  unfolding radix_ok_def
  by (auto simp: map_of_filter_key fun_eq_iff dest: al_le_None al_ge_None dest!: al_le_Some al_ge_Some)

end
