(* ===== verification/VmBusy.thy ===== *)
theory VmBusy
  imports VmPage Simulation
begin

text \<open>
  The busy lock of a page as the value it encodes: shared by a number of holders or exclusive, with
  or without waiters. The lock functions of vm_page.c implement the operations on those values.
\<close>


subsection \<open>What the busy lock means\<close>

datatype busy = Shared nat bool | Exclusive bool

definition low_word :: "nat \<Rightarrow> nat \<Rightarrow> u_int" where
  "low_word n r = of_nat (8 * n + r)"

fun busy_word :: "busy \<Rightarrow> u_int" where
  "busy_word (Shared n w) = low_word n (if w then 5 else 1)"
| "busy_word (Exclusive w) = low_word 0 (if w then 6 else 2)"

fun busy_ok :: "busy \<Rightarrow> bool" where
  "busy_ok (Shared n w) \<longleftrightarrow> n < 2 ^ 29"
| "busy_ok (Exclusive w) \<longleftrightarrow> True"

lemma unat_low_word: "n < 2 ^ 29 \<Longrightarrow> r < 8 \<Longrightarrow> unat (low_word n r) = 8 * n + r"
  unfolding low_word_def by (simp add: unat_of_nat del: of_nat_add)

lemma low_word_and:
  assumes "take_bit 3 k = k" "r < 8"
  shows "low_word n r AND k = of_nat r AND k"
proof -
  have t: "take_bit 3 (low_word n r) = (of_nat r :: u_int)"
  proof -
    have "take_bit 3 (8 * n + r) = r" using assms(2) by (simp add: take_bit_eq_mod)
    then show ?thesis
      using take_bit_of_nat [of 3 "8 * n + r", where 'a = u_int] by (simp add: low_word_def del: of_nat_add)
  qed
  have "low_word n r AND take_bit 3 k = take_bit 3 (low_word n r) AND take_bit 3 k"
    by (rule bit_eqI) (auto simp: bit_simps)
  then show ?thesis by (simp add: t assms(1))
qed

lemma busy_tests:
  assumes "r < 8"
  shows "low_word n r AND 1 = of_nat r AND 1" "low_word n r AND 2 = of_nat r AND 2" "low_word n r AND 4 = of_nat r AND 4"
  by (rule low_word_and; simp add: assms take_bit_eq_mod)+


lemma low_word_eq_iff:
  "n < 2 ^ 29 \<Longrightarrow> r < 8 \<Longrightarrow> n' < 2 ^ 29 \<Longrightarrow> r' < 8 \<Longrightarrow> low_word n r = low_word n' r' \<longleftrightarrow> n = n' \<and> r = r'"
proof -
  assume a: "n < 2 ^ 29" "r < 8" "n' < 2 ^ 29" "r' < 8"
  have "low_word n r = low_word n' r' \<longleftrightarrow> 8 * n + r = 8 * n' + r'"
    unfolding word_unat_eq_iff unat_low_word [OF a(1,2)] unat_low_word [OF a(3,4)] ..
  moreover have "8 * n + r = 8 * n' + r' \<Longrightarrow> n = n'" using a(2,4) by linarith
  ultimately show ?thesis by auto
qed

lemma low_word_waiters:
  assumes "r < 4"
  shows "low_word n r OR 4 = low_word n (r + 4)" "low_word n (r + 4) AND NOT 4 = low_word n r"
proof -
  have "r = 0 \<or> r = 1 \<or> r = 2 \<or> r = 3" using assms by auto
  then have z: "low_word n r AND 4 = 0" using busy_tests(3) [of r n] by auto
  have "low_word n r OR 4 = low_word n r + 4" by (rule disjunctive_add_eq_or [OF z, symmetric])
  also have "\<dots> = low_word n (r + 4)" by (simp add: low_word_def)
  finally show o: "low_word n r OR 4 = low_word n (r + 4)" .
  have "low_word n (r + 4) AND NOT 4 = low_word n r AND NOT 4"
    unfolding o [symmetric] by (rule bit_eqI) (auto simp: bit_simps)
  also have "\<dots> = low_word n r"
  proof (rule bit_eqI)
    fix i
    show "bit (low_word n r AND NOT 4) i = bit (low_word n r) i"
      using arg_cong [OF z, of "\<lambda>x. bit x i"] by (auto simp: bit_simps dest: bit_imp_le_length)
  qed
  finally show "low_word n (r + 4) AND NOT 4 = low_word n r" .
qed

lemma sharers_low_word:
  assumes "n < 2 ^ 29" "r < 8"
  shows "VPB_SHARERS (low_word n r) = of_nat n"
proof -
  have "VPB_SHARERS (low_word n r) = drop_bit 3 (low_word n r)"
  proof -
    have m: "VPB_BIT_FLAGMASK = mask 3"
      by (simp add: VPB_BIT_FLAGMASK_def VPB_BIT_SHARED_def VPB_BIT_EXCLUSIVE_def VPB_BIT_WAITERS_def mask_eq_exp_minus_1)
    show ?thesis unfolding VPB_SHARERS_def VPB_SHARERS_SHIFT_def m
      by (rule bit_eqI) (auto simp: bit_simps dest: bit_imp_le_length)
  qed
  moreover have u: "unat (drop_bit 3 (low_word n r)) = n"
    using assms by (simp add: drop_bit_eq_div unat_div unat_low_word)
  moreover have "of_nat (unat (drop_bit 3 (low_word n r))) = drop_bit 3 (low_word n r)" by simp
  ultimately show ?thesis unfolding u by simp
qed

lemma busy_consts:
  "VPB_UNBUSIED = low_word 0 1" "VPB_SHARERS_WORD 1 = low_word 1 1" "VPB_SINGLE_EXCLUSIVER = low_word 0 2"
  "VPB_BIT_SHARED = 1" "VPB_BIT_WAITERS = 4" "VPB_ONE_SHARER = 8"
  by (simp_all add: VPB_UNBUSIED_def VPB_SHARERS_WORD_def VPB_BIT_SHARED_def VPB_SHARERS_SHIFT_def low_word_def
      VPB_SINGLE_EXCLUSIVER_def VPB_BIT_EXCLUSIVE_def VPB_BIT_WAITERS_def VPB_ONE_SHARER_def)

lemma low_word_sharer:
  "low_word n r + 8 = low_word (Suc n) r" "low_word (Suc n) r - 8 = low_word n r"
  by (simp_all add: low_word_def)

lemma busy_word_inj: "busy_ok b \<Longrightarrow> busy_ok c \<Longrightarrow> busy_word b = busy_word c \<longleftrightarrow> b = c"
  by (cases b; cases c) (auto simp: low_word_eq_iff)

text \<open>The meaning of a lock word, the other way round.\<close>

definition busy_of :: "u_int \<Rightarrow> busy" where
  "busy_of x = (if x AND VPB_BIT_SHARED \<noteq> 0 then Shared (unat (VPB_SHARERS x)) (x AND VPB_BIT_WAITERS \<noteq> 0)
                else Exclusive (x AND VPB_BIT_WAITERS \<noteq> 0))"

lemma busy_of_word: "busy_ok b \<Longrightarrow> busy_of (busy_word b) = b"
  by (cases b) (auto simp: busy_of_def busy_consts busy_tests sharers_low_word unat_of_nat)

definition lock_ok :: "u_int \<Rightarrow> bool" where
  "lock_ok x \<longleftrightarrow> busy_ok (busy_of x) \<and> busy_word (busy_of x) = x"

lemma lock_ok_word: "busy_ok b \<Longrightarrow> lock_ok (busy_word b)"
  by (simp add: lock_ok_def busy_of_word)

subsection \<open>The lock operations implement their specification\<close>

datatype busy_op = Trysbusy | Tryxbusy | Sunbusy | Xunbusy | Downgrade | Sleep bool | Flash

fun busy_exec :: "unit \<Rightarrow> busy_op \<Rightarrow> u_int \<Rightarrow> fault + u_int \<times> bool" where
  "busy_exec _ Trysbusy x = Inr (vm_page_trysbusy x)"
| "busy_exec _ Tryxbusy x = Inr (vm_page_tryxbusy x)"
| "busy_exec _ Sunbusy x = vm_page_sunbusy x"
| "busy_exec _ Xunbusy x = vm_page_xunbusy x"
| "busy_exec _ Downgrade x = vm_page_busy_downgrade x"
| "busy_exec _ (Sleep nonshared) x = Inr (vm_page_busy_sleep nonshared x)"
| "busy_exec _ Flash x = Inr (vm_page_flash x)"

fun add_waiter :: "busy \<Rightarrow> busy" where
  "add_waiter (Shared n w) = Shared n True"
| "add_waiter (Exclusive w) = Exclusive True"

fun waiters :: "busy \<Rightarrow> bool" where
  "waiters (Shared n w) = w"
| "waiters (Exclusive w) = w"

fun no_waiter :: "busy \<Rightarrow> busy" where
  "no_waiter (Shared n w) = Shared n False"
| "no_waiter (Exclusive w) = Exclusive False"

text \<open>The second component is the result of an attempt, whether waiters are woken, or whether the
  caller sleeps.\<close>

fun busy_spec :: "unit \<Rightarrow> busy_op \<Rightarrow> busy \<Rightarrow> busy \<times> bool" where
  "busy_spec _ Trysbusy (Shared n w) = (Shared (Suc n) w, True)"
| "busy_spec _ Trysbusy (Exclusive w) = (Exclusive w, False)"
| "busy_spec _ Tryxbusy b = (if b = Shared 0 False then (Exclusive False, True) else (b, False))"
| "busy_spec _ Sunbusy (Shared n w) = (if n > 1 then (Shared (n - 1) w, False) else (Shared 0 False, w))"
| "busy_spec _ Sunbusy (Exclusive w) = (Exclusive w, False)"
| "busy_spec _ Xunbusy b = (Shared 0 False, waiters b)"
| "busy_spec _ Downgrade b = (Shared 1 False, waiters b)"
| "busy_spec _ (Sleep nonshared) b =
     (if b = Shared 0 False \<or> nonshared \<and> (case b of Shared n w \<Rightarrow> True | Exclusive w \<Rightarrow> False) then (b, False) else (add_waiter b, True))"
| "busy_spec _ Flash b = (no_waiter b, waiters b)"

text \<open>Only a sharer gives up a shared lock and only the owner an exclusive one, and the count of the
  sharers has 29 bits.\<close>

fun busy_pre :: "unit \<Rightarrow> busy_op \<Rightarrow> busy \<Rightarrow> bool" where
  "busy_pre _ Trysbusy (Shared n w) \<longleftrightarrow> Suc n < 2 ^ 29"
| "busy_pre _ Sunbusy b \<longleftrightarrow> (case b of Shared n w \<Rightarrow> 0 < n | Exclusive w \<Rightarrow> False)"
| "busy_pre _ Xunbusy b \<longleftrightarrow> (case b of Shared n w \<Rightarrow> False | Exclusive w \<Rightarrow> True)"
| "busy_pre _ Downgrade b \<longleftrightarrow> (case b of Shared n w \<Rightarrow> False | Exclusive w \<Rightarrow> True)"
| "busy_pre _ _ b \<longleftrightarrow> True"

lemmas busy_defs = vm_page_trysbusy_def vm_page_tryxbusy_def vm_page_sunbusy_def vm_page_xunbusy_def
  vm_page_busy_downgrade_def vm_page_busy_sleep_def vm_page_flash_def vm_page_sbusied_def vm_page_xbusied_def

lemma busy_exec_word:
  assumes "busy_ok b" "busy_pre u op b"
  shows "busy_ok (fst (busy_spec u op b)) \<and>
    busy_exec u op (busy_word b) = Inr (busy_word (fst (busy_spec u op b)), snd (busy_spec u op b))"
proof -
  have n0: "low_word 0 2 AND 1 = 0" "low_word 0 6 AND 1 = 0" "low_word 0 2 AND 4 = 0" "low_word 0 6 AND 4 = 4"
    "low_word 0 2 AND low_word 0 2 \<noteq> 0" "low_word 0 6 AND low_word 0 2 \<noteq> 0"
    "low_word 0 2 OR 4 = low_word 0 6" "low_word 0 6 OR 4 = low_word 0 6" "low_word 0 6 AND - 5 = low_word 0 2" "low_word 0 2 \<noteq> 0"
    "low_word 0 2 \<noteq> low_word 0 1" "low_word 0 6 \<noteq> low_word 0 1" "low_word 0 6 \<noteq> low_word 0 2" "low_word 0 2 OR 0 = low_word 0 2"
    by (simp_all add: low_word_def)
  show ?thesis
  proof (cases b)
    case (Exclusive w)
    then show ?thesis using assms(2)
      by (cases op; cases w) (simp_all add: busy_defs busy_consts n0 del: One_nat_def)
  next
    case (Shared n w)
    then have n: "n < 2 ^ 29" using assms(1) by simp
    have x: "low_word n 1 AND 1 = 1" "low_word n 5 AND 1 = 1" "low_word n 1 AND 4 = 0" "low_word n 5 AND 4 = 4"
      using busy_tests [of 1 n] busy_tests [of 5 n] by simp_all
    have eq: "low_word n 1 = low_word 0 1 \<longleftrightarrow> n = 0" "low_word n 5 \<noteq> low_word 0 1"
      "low_word n 1 = low_word 1 1 \<longleftrightarrow> n = 1" "low_word n 5 = low_word 1 5 \<longleftrightarrow> n = 1"
      using n by (simp_all add: low_word_eq_iff)
    have o: "low_word n 1 OR 4 = low_word n 5" "low_word n 5 OR 4 = low_word n 5" "low_word n 5 AND - 5 = low_word n 1"
      "low_word 1 1 OR 4 = low_word 1 5"
    proof -
      note l = low_word_waiters [of 1 n, simplified] low_word_waiters [of 1 1, simplified]
      have "(low_word n 1 OR 4) OR 4 = low_word n 1 OR 4" by (simp add: or.assoc)
      then show "low_word n 1 OR 4 = low_word n 5" "low_word n 5 OR 4 = low_word n 5" "low_word n 5 AND - 5 = low_word n 1"
        "low_word 1 1 OR 4 = low_word 1 5"
        using l by simp_all
    qed
    have s: "VPB_SHARERS (low_word n 1) > 1 \<longleftrightarrow> n > 1" "VPB_SHARERS (low_word n 5) > 1 \<longleftrightarrow> n > 1"
    proof -
      have "VPB_SHARERS (low_word n r) > 1 \<longleftrightarrow> n > 1" if "r < 8" for r
        unfolding sharers_low_word [OF n that] using n by (simp add: word_less_nat_alt unat_of_nat)
      then show "VPB_SHARERS (low_word n 1) > 1 \<longleftrightarrow> n > 1" "VPB_SHARERS (low_word n 5) > 1 \<longleftrightarrow> n > 1" by simp_all
    qed
    show ?thesis
    proof (cases op)
      case Sunbusy
      then have pos: "0 < n" using assms(2) Shared by simp
      have m: "low_word n r - 8 = low_word (n - 1) r" for r using low_word_sharer(2) [of "n - 1" r] pos by simp
      show ?thesis using Sunbusy Shared pos n
        by (cases w) (simp_all add: busy_defs busy_consts x eq o s m less_imp_diff_less del: One_nat_def)
    next
      case Trysbusy
      then show ?thesis using Shared assms(2) n
        by (cases w) (simp_all add: busy_defs busy_consts x eq o low_word_sharer del: One_nat_def)
    next
      case Tryxbusy
      then show ?thesis using Shared assms(2) n
        by (cases w) (simp_all add: busy_defs busy_consts x eq o low_word_sharer del: One_nat_def)
    next
      case Xunbusy
      then show ?thesis using Shared assms(2) n
        by (cases w) (simp_all add: busy_defs busy_consts x eq o low_word_sharer del: One_nat_def)
    next
      case Downgrade
      then show ?thesis using Shared assms(2) n
        by (cases w) (simp_all add: busy_defs busy_consts x eq o low_word_sharer del: One_nat_def)
    next
      case (Sleep ns)
      then show ?thesis using Shared assms(2) n
        by (cases w) (simp_all add: busy_defs busy_consts x eq o low_word_sharer del: One_nat_def)
    next
      case Flash
      then show ?thesis using Shared assms(2) n
        by (cases w) (simp_all add: busy_defs busy_consts x eq o low_word_sharer del: One_nat_def)
    qed
  qed
qed

lemma busy_exec_ok:
  assumes "lock_ok x" "busy_pre u op (busy_of x)"
  shows "\<exists>x' r. busy_exec u op x = Inr (x', r) \<and> lock_ok x' \<and> busy_spec u op (busy_of x) = (busy_of x', id r)"
proof -
  have b: "busy_ok (busy_of x)" "busy_word (busy_of x) = x" using assms(1) by (simp_all add: lock_ok_def)
  show ?thesis
    using busy_exec_word [OF b(1) assms(2)] lock_ok_word busy_of_word by (auto simp: b(2))
qed

interpretation busy: simulation busy_exec busy_spec lock_ok busy_of id busy_pre
  by unfold_locales (rule busy_exec_ok)

end
