(* ===== verification/VmSamples.thy ===== *)
theory VmSamples
  imports VmScanLaws VmResident VmBusy
begin

text \<open>
  The concrete state of the witnesses: one memory domain, one object with three inactive pages (a
  clean one, a held one and a dirty one) and two active ones, tries as association lists, and the
  pages 0, 1, 2 and 11 as markers.
\<close>

definition sample_page :: "obj option \<Rightarrow> u_long \<Rightarrow> u_char \<Rightarrow> vm_page" where
  "sample_page ob k q = \<lparr>pg_object = ob, pindex = k, wire_count = 0, busy_lock = VPB_UNBUSIED, hold_count = 0,
     pg_flags = 0, aflags = 0, oflags = 0, queue = q, act_count = 0, valid = 0, dirty = 0,
     timestamp_sec = 0, timestamp_nsec = 0\<rparr>"

definition sample_pages :: "pg \<Rightarrow> vm_page" where
  "sample_pages m =
     (if m < 3 \<or> m = 11 then marker_page PQ_INACTIVE
      else if m = 3 then (sample_page (Some 0) 3 PQ_INACTIVE)\<lparr>valid := VM_PAGE_BITS_ALL\<rparr>
      else if m = 4 then (sample_page (Some 0) 4 PQ_INACTIVE)\<lparr>valid := VM_PAGE_BITS_ALL, hold_count := 1\<rparr>
      else if m = 5 then (sample_page (Some 0) 5 PQ_INACTIVE)\<lparr>valid := VM_PAGE_BITS_ALL, dirty := VM_PAGE_BITS_ALL\<rparr>
      else if m = 6 then (sample_page (Some 0) 6 PQ_ACTIVE)\<lparr>valid := VM_PAGE_BITS_ALL\<rparr>
      else if m = 7 then (sample_page (Some 0) 7 PQ_ACTIVE)\<lparr>valid := VM_PAGE_BITS_ALL, dirty := VM_PAGE_BITS_ALL\<rparr>
      else sample_page None 0 PQ_NONE)"

definition vm1 :: "(u_long \<times> pg) list vm" where
  "vm1 = \<lparr>pages = sample_pages,
     pq_pl = (\<lambda>d q. if q = PQ_INACTIVE then if d = 0 then [0, 3, 4, 5] else [0]
                    else if q = PQ_ACTIVE \<and> d = 0 then [6, 7] else []),
     pq_cnt = (\<lambda>d q. if d \<noteq> 0 then 0 else if q = PQ_INACTIVE then 3 else if q = PQ_ACTIVE then 2 else 0),
     pq_vcnt = (\<lambda>q. if q = PQ_INACTIVE then 3 else if q = PQ_ACTIVE then 2 else 0),
     v_wire_count = 0, phys_domain = (\<lambda>_. 0), vmd_inacthead = (\<lambda>_. 0),
     memq = (\<lambda>ob. if ob = 0 then [3, 4, 5, 6, 7] else []),
     rtree = (\<lambda>ob. if ob = 0 then [(3, 3), (4, 4), (5, 5), (6, 6), (7, 7)] else []),
     resident_page_count = (\<lambda>ob. if ob = 0 then 5 else 0), is_vnode = (\<lambda>_. False),
     is_mapped = (\<lambda>_. False), is_write_mapped = (\<lambda>_. False), is_modified = (\<lambda>_. False),
     obj_unmanaged = (\<lambda>_. False), obj_fictitious = (\<lambda>_. False), obj_memattr_default = (\<lambda>_. True),
     obj_ref_count = (\<lambda>_. 0), obj_dead = (\<lambda>_. False), obj_anonymous = (\<lambda>_. True), obj_size = (\<lambda>_. 100),
     vmd_marker = (\<lambda>_. 1), vmd_laundry_marker = (\<lambda>_. 1), memattr_default = (\<lambda>_. True), v_free_count = 100,
     vm_page_zero_count = 0, vm_pageout_deficit = 0, vm_pageout_wanted = False, vm_pages_needed = False,
     vm_pageout_pages_needed = False, calls = []\<rparr>"

definition env1 :: "(u_long \<times> pg) list vm_env" where
  "env1 = \<lparr>radix_ops = al_radix, vm_phys_freecnt_adj = (\<lambda>_ k c. c + of_int k), dirty_after_remove_all = (\<lambda>_. 0),
     vm_page_count_min = (\<lambda>c. c < 10), vm_paging_needed = (\<lambda>c. c < 20), v_pageout_free_min = 5, v_free_reserved = 4,
     v_interrupt_free_min = 2, in_pageproc = False, have_pageproc = True\<rparr>"

lemma env1_radix [simp]: "radix_ops env1 = al_radix"
  by (simp add: env1_def)

lemma trie_env1: "trie env1 = map_of"
  by (simp add: trie_def fun_eq_iff)

lemma marker_vm1: "marker vm1 m \<longleftrightarrow> m < 3 \<or> m = 11"
  by (auto simp: marker_def vm1_def sample_pages_def marker_page_def sample_page_def PG_MARKER_def)

lemma queue_vm1: "queue (pages vm1 m) = (if m \<le> 5 \<or> m = 11 then 0 else if m \<le> 7 then 1 else 255)"
  by (auto simp: vm1_def sample_pages_def marker_page_def sample_page_def)

lemma object_vm1: "pg_object (pages vm1 m) = (if 3 \<le> m \<and> m \<le> 7 then Some 0 else None)"
  by (auto simp: vm1_def sample_pages_def marker_page_def sample_page_def)

lemma pindex_vm1: "3 \<le> m \<Longrightarrow> m \<le> 7 \<Longrightarrow> pindex (pages vm1 m) = of_nat m"
  by (auto simp: vm1_def sample_pages_def sample_page_def le_Suc_eq numeral_eq_Suc)

lemma valid_vm1: "3 \<le> m \<Longrightarrow> m \<le> 7 \<Longrightarrow> valid (pages vm1 m) = VM_PAGE_BITS_ALL"
  by (auto simp: vm1_def sample_pages_def sample_page_def le_Suc_eq numeral_eq_Suc)

lemma vm1_simps:
  "pages vm1 = sample_pages" "phys_domain vm1 = (\<lambda>_. 0)" "vmd_inacthead vm1 = (\<lambda>_. 0)" "vmd_marker vm1 = (\<lambda>_. 1)"
  "memq vm1 = (\<lambda>ob. if ob = 0 then [3, 4, 5, 6, 7] else [])"
  "rtree vm1 = (\<lambda>ob. if ob = 0 then [(3, 3), (4, 4), (5, 5), (6, 6), (7, 7)] else [])"
  "is_modified vm1 = (\<lambda>_. False)" "is_mapped vm1 = (\<lambda>_. False)" "obj_ref_count vm1 = (\<lambda>_. 0)" "obj_dead vm1 = (\<lambda>_. False)"
  "is_vnode vm1 = (\<lambda>_. False)" "calls vm1 = []" "resident_page_count vm1 = (\<lambda>ob. if ob = 0 then 5 else 0)"
  "pq_pl vm1 = (\<lambda>d q. if q = 0 then if d = 0 then [0, 3, 4, 5] else [0] else if q = 1 \<and> d = 0 then [6, 7] else [])"
  "pq_cnt vm1 = (\<lambda>d q. if d \<noteq> 0 then 0 else if q = 0 then 3 else if q = 1 then 2 else 0)"
  "pq_vcnt vm1 = (\<lambda>q. if q = 0 then 3 else if q = 1 then 2 else 0)"
  by (simp_all add: vm1_def fun_eq_iff)

lemma u_char_less3: "q < 3 \<Longrightarrow> q = 0 \<or> q = 1 \<or> q = 2" for q :: u_char
proof -
  assume "q < 3"
  then have "unat q < 3" by (simp add: word_less_nat_alt)
  then have "unat q = 0 \<or> unat q = 1 \<or> unat q = 2" by auto
  then show ?thesis by (auto simp: word_unat_eq_iff)
qed

lemma vm_wf_vm1: "vm_wf 1 vm1"
proof (rule vm_wfI)
  show "page_ok 1 vm1 m" if "\<not> marker vm1 m" for m
    using that queue_vm1 [of m]
    by (auto simp: page_ok_def fictitious_def unmanaged_def marker_vm1 vm1_simps sample_pages_def sample_page_def split: if_splits)
  show "list_ok vm1 d q" if "q < 3" for d q
    using u_char_less3 [OF that]
    by (auto simp: list_ok_def queued_def marker_vm1 home_def queue_vm1 vm1_simps(2,14,15) split: if_splits)
qed (use u_char_less3 in \<open>auto simp: marker_vm1 vm1_simps\<close>)

lemma obj_wf_vm1: "obj_wf map_of vm1"
  unfolding obj_wf_def
proof
  fix ob
  show "obj_ok map_of vm1 ob"
  proof (cases "ob = 0")
    case True
    have "sorted_pages vm1 [3, 4, 5, 6, 7]" by (simp add: sorted_pages_simps pindex_vm1)
    moreover have "map_of [(3, 3), (4, 4), (5, 5), (6, 6), (7, 7)] k = find (\<lambda>m. pindex (pages vm1 m) = k) [3, 4, 5, 6, 7]" for k :: u_long
      by (simp add: pindex_vm1)
    ultimately show ?thesis using True by (auto simp: obj_ok_def object_vm1 vm1_simps(5,6,11-13))
  qed (auto simp: obj_ok_def object_vm1 vm1_simps(5,6,11-13) sorted_pages_simps)
qed

lemma vm_inv_vm1: "vm_inv 1 (trie env1) vm1"
  unfolding vm_inv_def trie_env1 using vm_wf_vm1 obj_wf_vm1 ..

lemma scan_inv_vm1: "scan_inv 1 (trie env1) vm1"
  using vm_inv_vm1
  by (auto simp: scan_inv_def marker_vm1 object_vm1 queue_vm1 reclaimable_def sound_bits_def valid_vm1 vm1_simps(7,8,14) split: if_splits)

lemma spare_vm1: "spare vm1 2" "spare vm1 11"
  using u_char_less3 by (auto simp: spare_def marker_vm1 vm1_simps(3,14))

lemma markers_vm1: "{1, 2} \<subseteq> own \<Longrightarrow> markers_free own 0 2 vm1"
  using u_char_less3 by (auto simp: markers_free_def spare_def marker_vm1 queue_vm1 vm1_simps(3,4,14))

subsection \<open>Environments\<close>

definition quiet_locks :: "(u_long \<times> pg) list locks" where
  "quiet_locks = \<lparr>page_try = (\<lambda>_. None), object_try = (\<lambda>_. None), dequeued = (\<lambda>_ _. id), meanwhile = (\<lambda>_. id), local_marker = 2\<rparr>"

lemma quiet_locks_simps: "undisturbed quiet_locks" "local_marker quiet_locks = 2"
  by (simp_all add: quiet_locks_def undisturbed_def)

text \<open>Page 5 is locked by a thread that holds page 3 meanwhile; the scan of another thread leaves its marker
  11 behind page 4.\<close>

definition other_scan :: "(u_long \<times> pg) list vm \<Rightarrow> (u_long \<times> pg) list vm" where
  "other_scan s = (if spare s 11 \<and> 4 \<in> set (pq_pl s 0 0)
     then set_pq 0 0 (insert_after 4 11 (pq_pl s 0 0)) (vm_pageout_init_marker 11 0 s) else s)"

lemma bystanders_other_scan: "11 \<notin> own \<Longrightarrow> bystanders own n a other_scan"
  using bystanders_mark [of 11 own 0 n a 4 0] by (simp add: other_scan_def [abs_def])

definition busy_locks :: "(u_long \<times> pg) list locks" where
  "busy_locks = \<lparr>page_try = (\<lambda>k. if k = 0 then Some (\<lambda>s. if marker s 3 then s else vm_page_hold 3 s) else None),
     object_try = (\<lambda>k. if k = 1 then Some (\<lambda>s. if marker s 3 then s else vm_page_hold 3 s) else None),
     dequeued = (\<lambda>_ _. id), meanwhile = (\<lambda>_. other_scan), local_marker = 2\<rparr>"

lemma good_busy_locks: "11 \<notin> own \<Longrightarrow> good_locks own n a busy_locks"
  by (auto simp: good_locks_def busy_locks_def bystanders_hold bystanders_other_scan respects_lock_id)

definition scan1 :: "(u_long \<times> pg) list scan_env" where
  "scan1 = \<lparr>sc_env = env1, sc_inactive = busy_locks, sc_active = busy_locks, time_uptime = 0, lowmem_period = 10,
     paging_target = (\<lambda>c. 50 - uint c), v_inactive_target = 10, act_scan_laundry_weight = 1, scan_ticks = 0,
     scan_hz = 1000, update_period = 600, pageout_oom_seq = 12, vm_ndomains = 1\<rparr>"

lemma scan_env_ok_scan1: "11 \<notin> own \<Longrightarrow> scan_env_ok own 1 (trie env1) 1 2 scan1"
  using good_busy_locks al_radix_ok by (simp add: scan_env_ok_def scan1_def trie_env1) (simp add: busy_locks_def)

definition daemon1 :: "(u_long \<times> pg) list daemon" where
  "daemon1 = \<lparr>dm_vm = vm1, dm_request = LAUNDRY_IDLE,
     dm_oom = \<lparr>vmd_oom_seq = (\<lambda>_. 0), vmd_oom = (\<lambda>_. False), vm_pageout_oom_vote = 0, oom_kills = 0\<rparr>,
     vmd_last_active_scan = 0, lowmem_uptime = 0, dm_calls = []\<rparr>"

lemma daemon_ok_daemon1: "{1, 2} \<subseteq> own \<Longrightarrow> daemon_ok own 1 (trie env1) 1 0 2 daemon1"
  using scan_inv_vm1 markers_vm1 by (simp add: daemon_ok_def daemon1_def oom_ok_def votes_def)

lemma fates_vm1:
  "fate env1 vm1 0 = Skip" "fate env1 vm1 3 = Freed" "fate env1 vm1 4 = Stuck" "fate env1 vm1 5 = Laundered"
  by (simp_all add: fate_def Let_def vm1_simps final_dirty_def sample_pages_def sample_page_def marker_page_def PG_MARKER_def
      vm_page_busied_def VM_PAGE_BITS_ALL_def)

end
