(* ===== verification/VmProps.thy ===== *)
theory VmProps
  imports VmSamples
begin

text \<open>
  The properties of the virtual memory layer of asgn3: histories of page operations, the page daemon
  and its scans, the objects, the busy lock, allocation and freeing. The witnesses apply them to the
  states of \<open>VmSamples\<close>.
\<close>

lemma visited_numeral:
  "visited f (numeral v) short (m # l) =
     (if short \<le> 0 then [] else m # visited f (pred_numeral v) (if f m = Freed then short - 1 else short) l)"
  by (simp add: numeral_eq_Suc)

text \<open>
  C1: Histories of page operations. As long as the callers keep the preconditions stated in the code
  (which \<open>vm_pres\<close> collects), every history of activations, deactivations, launderings, requeueings,
  wirings, insertions, removals, renamings, replacements, holds, frees, advice and allocations runs
  without a failed assertion, a corrupted list or a NULL dereference, and leaves the page queues with
  their counters and the lists, tries and counters of all objects consistent.
\<close>

theorem vm_history_safe:
  assumes "radix_ok (radix_ops E) (trie E)" "vm_inv n (trie E) s" "vm_pres E ops s"
  shows "\<exists>s'. vm_run E ops s = Inr s' \<and> vm_inv n (trie E) s'"
  using assms by (rule vm_run_ok)

theorem vm_history_safe_witness:
  "\<exists>s'. vm_run env1 [Hold 3, Launder 6, Insert 8 1 5] vm1 = Inr s' \<and> vm_inv 1 (trie env1) s'"
proof (rule vm_history_safe)
  show "vm_pres env1 [Hold 3, Launder 6, Insert 8 1 5] vm1" 
    by (simp add: marker_def fictitious_def vm_page_hold_def vm_page_launder_def vm_page_remque_def vm_page_dequeue_def
        vm_page_dequeue_locked_def vm_page_pagequeue_def vm_page_enqueue_def vm_page_lookup_def unmanaged_def tailq_remove_def
        vm1_simps sample_pages_def sample_page_def marker_page_def Let_def leD upd_pg_def set_pq_def vm_pagequeue_cnt_add_def
        split: sum.split)
  show "radix_ok (radix_ops env1) (trie env1)" by (simp add: trie_env1 al_radix_ok)
qed (rule vm_inv_vm1)

text \<open>
  C3: The page daemon. Over any number of turns of its loop the daemon runs without a fault, whatever
  other threads do while it sleeps, waits for a page or object lock, or works with the queue unlocked,
  and queues, objects, markers and the votes of the domains are consistent after every turn; with one
  exception: the statistics that a scan prints first read the last page of the active queue, and the
  daemon reads through NULL in the first turn in which that queue is empty (\<open>feeds\<close>). The other threads,
  among them the laundry thread and the page daemons of other domains in the middle of their scans, keep
  the invariant and leave alone the two markers that this daemon owns; a page whose lock it holds stays
  off the queues. The two tunables that the scan divides by must not make the divisor 0
  (\<open>scan_env_ok\<close>).
\<close>

theorem page_daemon_safe:
  assumes "daemon_ok own n a nd d x s"
    "list_all (\<lambda>(Q, sleep). scan_env_ok own n a nd x Q \<and> bystanders own n a (fst sleep)) turns"
  shows "if feeds d turns (0, True) s
    then \<exists>s' pass_met. vm_pageout_worker d turns (0, True) s = Inr (s', pass_met) \<and> daemon_ok own n a nd d x s'
    else vm_pageout_worker d turns (0, True) s = Inl (NullDeref ''printpage'')"
  using assms by (rule worker_ok)

theorem page_daemon_safe_witness:
  "\<exists>s' pass_met. vm_pageout_worker 0 [(scan1, (\<lambda>s. if marker s 6 then s else vm_page_hold 6 s), True)] (0, True) daemon1 =
     Inr (s', pass_met) \<and> daemon_ok {1, 2} 1 (trie env1) 1 0 2 s'"
proof -
  let ?f = "\<lambda>s :: (u_long \<times> pg) list vm. if marker s 6 then s else vm_page_hold 6 s"
  have Q: "scan_env_ok {1, 2} 1 (trie env1) 1 2 scan1" "bystanders {1, 2} 1 (trie env1) (fst (?f, True))"
    "daemon_ok {1, 2} 1 (trie env1) 1 0 2 daemon1"
    by (simp_all add: scan_env_ok_scan1 bystanders_hold daemon_ok_daemon1 del: One_nat_def)
  obtain s1 pass where w: "worker_wake (sc_env scan1) (?f, True) (0, True) daemon1 = (s1, pass)"
    by (cases "worker_wake (sc_env scan1) (?f, True) (0, True) daemon1")
  have "pq_pl (dm_vm s1) = pq_pl vm1"
    using w by (auto simp: worker_wake_def daemon1_def vm1_def vm_page_hold_def daemon_call_def)
  then have a: "pq_pl (dm_vm s1) 0 PQ_ACTIVE \<noteq> []" by (simp add: vm1_simps(14))
  have "feeds 0 [(scan1, ?f, True)] (0, True) daemon1"
    using worker_turn_ok(3) [OF Q(1,3,2) w a] a w by auto
  then show ?thesis using page_daemon_safe [OF Q(3), of "[(scan1, ?f, True)]"] Q(1,2) by simp
qed

text \<open>
  C6: The inactive scan. A scan that nobody disturbs visits the queue from its front until the target
  is met or its turns run out; of the pages visited it leaves markers, held and busy pages where they
  are, frees the clean ones in queue order, sends the dirty ones to the tail of the laundry queue in
  queue order, and drops those of dead objects; it counts the stuck pages and the freed ones.
\<close>

theorem inactive_scan_fifo:
  assumes "radix_ok (radix_ops E) a" "undisturbed L" "scan_inv n a s" "markers_free own d (local_marker L) s"
    "V = visited (fate E s) k short (pq_pl s d PQ_INACTIVE)"
  shows "\<exists>s'. inactive_scan E L d k (tailq_first (pq_pl s d PQ_INACTIVE)) 0 short s =
      Inr (s', int (length (filter (\<lambda>m. fate E s m = Stuck) V)), short - int (length (filter (\<lambda>m. fate E s m = Freed) V))) \<and>
    freed s' = freed s @ filter (\<lambda>m. fate E s m = Freed) V \<and>
    pq_pl s' d PQ_INACTIVE = filter (\<lambda>m. stays (fate E s m)) V @ drop (length V) (pq_pl s d PQ_INACTIVE) \<and>
    pq_pl s' 0 PQ_LAUNDRY = pq_pl s 0 PQ_LAUNDRY @ filter (\<lambda>m. fate E s m = Laundered) V"
  using inactive_scan_effect [OF assms(1-4), of "[]" "pq_pl s d 0" k 0 short] assms(5) by simp

theorem inactive_scan_fifo_witness:
  "\<exists>s'. inactive_scan env1 quiet_locks 0 3 (Some 0) 0 2 vm1 = Inr (s', 1, 1) \<and> freed s' = [3] \<and>
     pq_pl s' 0 PQ_INACTIVE = [0, 4, 5] \<and> pq_pl s' 0 PQ_LAUNDRY = []"
proof -
  have V: "[0, 3, 4] = visited (fate env1 vm1) 3 2 (pq_pl vm1 0 PQ_INACTIVE)"
    by (simp add: vm1_simps(14) visited_numeral fates_vm1)
  show ?thesis
    using inactive_scan_fifo [OF _ _ scan_inv_vm1 _ V, where L = quiet_locks and own = "{1, 2}"] al_radix_ok markers_vm1 [of "{1, 2}"]
    by (simp add: trie_env1 quiet_locks_simps fates_vm1 stays_def vm1_simps(14) freed_def vm1_simps(12))
qed

text \<open>
  C7: The active scan as a FIFO queue. With no other thread and no marker in the queue, the scan takes
  the pages from the front of the active queue one after the other, regardless of their use: while the
  inactive queue is short of pages the dirty ones go to the tail of the laundry queue and the rest to
  the tail of the inactive queue, afterwards all go to the inactive queue, in the order they came.
\<close>

theorem active_scan_fifo:
  assumes "undisturbed L" "scan_inv n a s" "\<forall>x \<in> set (pq_pl s d PQ_ACTIVE). \<not> marker s x"
    "V = active_visited (clean s) weight min_scan maxscan 0 short (pq_pl s d PQ_ACTIVE)"
  shows "\<exists>s' short'. active_scan L weight d min_scan maxscan 0 (tailq_first (pq_pl s d PQ_ACTIVE)) short s = Inr (s', short') \<and>
    pq_pl s' d PQ_ACTIVE = drop (length V) (pq_pl s d PQ_ACTIVE) \<and>
    pq_pl s' d PQ_INACTIVE = pq_pl s d PQ_INACTIVE @ sent PQ_INACTIVE V \<and>
    pq_pl s' 0 PQ_LAUNDRY = pq_pl s 0 PQ_LAUNDRY @ sent PQ_LAUNDRY V"
  using active_scan_effect [OF assms(1,2) refl, of d V weight min_scan maxscan 0 short] assms(3,4) by simp

theorem active_scan_fifo_witness:
  "\<exists>s' short'. active_scan quiet_locks 1 0 0 2 0 (Some 6) 5 vm1 = Inr (s', short') \<and> pq_pl s' 0 PQ_ACTIVE = [] \<and>
    pq_pl s' 0 PQ_INACTIVE = [0, 3, 4, 5, 6] \<and> pq_pl s' 0 PQ_LAUNDRY = [7]"
proof -
  have V: "[(6, PQ_INACTIVE), (7, PQ_LAUNDRY)] = active_visited (clean vm1) 1 0 2 0 5 (pq_pl vm1 0 PQ_ACTIVE)"
    by (simp add: vm1_simps(1,14) clean_def sample_pages_def sample_page_def VM_PAGE_BITS_ALL_def)
  show ?thesis
    using active_scan_fifo [OF quiet_locks_simps(1) scan_inv_vm1 _ V]
    by (simp add: vm1_simps(14) marker_vm1 sent_def)
qed

text \<open>
  C20: Waiting for a lock with a marker. vm_pageout_page_lock and vm_pageout_fallback_object_lock put
  a marker behind the page, let other threads run, and find their place again. They never fault. When
  the others are done the marker still stands in the queue, between \<open>xs\<close> and \<open>ys\<close>: it is taken out and
  nothing else moves, the page to go on with is the first of \<open>ys\<close>, and "unchanged" is reported exactly
  when the page is the last of \<open>xs\<close> and, where it matters, still belongs to the same object.
\<close>

theorem marked_wait_finds_place:
  assumes "scan_inv n a s" "\<not> marker s m" "m \<in> set (pq_pl s d q)" "q < PQ_COUNT" "spare s x" "x \<in> own" "bystanders own n a others"
    "t = others (set_pq d q (insert_after m x (pq_pl s d q)) (vm_pageout_init_marker x q s))"
  shows "\<exists>xs ys. pq_pl t d q = xs @ x # ys \<and>
    marked_wait x m same_object others s =
      Inr (set_pq d q (xs @ ys) t,
           xs \<noteq> [] \<and> last xs = m \<and> (same_object \<longrightarrow> pg_object (pages t m) = pg_object (pages s m)),
           if ys = [] then None else Some (hd ys)) \<and>
    scan_inv n a (set_pq d q (xs @ ys) t) \<and> spare (set_pq d q (xs @ ys) t) x"
proof -
  have q: "q < 3" using assms(4) by simp
  obtain xs ys where w: "pq_pl t d q = xs @ x # ys" "marked_wait x m same_object others s =
      Inr (set_pq d q (xs @ ys) t, (same_object \<longrightarrow> pg_object (pages t m) = pg_object (pages s m)) \<and> tailq_first (rev xs) = Some m, tailq_first ys)"
    "interferes own {x} n a s (set_pq d q (xs @ ys) t)"
    using marked_wait_exact [OF assms(1-3) q assms(5-7), of same_object] unfolding found_place_def assms(8) [symmetric] by blast
  have "tailq_first (rev xs) = Some m \<longleftrightarrow> xs \<noteq> [] \<and> last xs = m" by (cases xs rule: rev_cases) simp_all
  moreover have "tailq_first ys = (if ys = [] then None else Some (hd ys))" by (cases ys) simp_all
  ultimately show ?thesis using w interferes_inv(1) [OF w(3)] interferes_spare [OF w(3) assms(5,6)] by auto
qed

text \<open>While the page 4 is waited for, another scan puts its marker 11 right behind it.\<close>

theorem marked_wait_finds_place_witness:
  "\<exists>s'. marked_wait 2 4 True other_scan vm1 = Inr (s', False, Some 5) \<and> pq_pl s' 0 PQ_INACTIVE = [0, 3, 4, 11, 5]"
proof -
  let ?s = "set_pq 0 0 (insert_after 4 2 (pq_pl vm1 0 0)) (vm_pageout_init_marker 2 0 vm1)"
  have l: "insert_after 4 2 (pq_pl vm1 0 0) = [0, 3, 4, 2, 5]" by (simp add: vm1_simps(14))
  have sp: "spare ?s 11"
    using spare_vm1(2) u_char_less3 by (auto simp: spare_def marker_def l vm_pageout_init_marker_def)
  have t: "pq_pl (other_scan ?s) 0 0 = [0, 3, 4, 11, 2, 5]" using sp by (simp add: other_scan_def l)
  have m: "\<not> marker vm1 4" "4 \<in> set (pq_pl vm1 0 0)" by (simp_all add: marker_vm1 vm1_simps(14))
  obtain xs ys where w: "pq_pl (other_scan ?s) 0 0 = xs @ 2 # ys" "marked_wait 2 4 True other_scan vm1 =
      Inr (set_pq 0 0 (xs @ ys) (other_scan ?s), xs \<noteq> [] \<and> last xs = 4 \<and> (True \<longrightarrow> pg_object (pages (other_scan ?s) 4) = pg_object (pages vm1 4)),
           if ys = [] then None else Some (hd ys))"
    using marked_wait_finds_place [OF scan_inv_vm1 m _ spare_vm1(1) _ bystanders_other_scan refl, of "{2}" True] by auto
  have "[0, 3, 4, 11] @ 2 # [5] = xs @ 2 # ys" using w(1) t by simp
  then have "xs = [0, 3, 4, 11]" "ys = [5]" by (auto simp: Cons_eq_append_conv)
  then show ?thesis using w(2) by simp
qed



text \<open>
  C11: The objects implement a map. Over every history of insertions, removals, lookups and steps to
  the next and the previous index, the page list, the trie and the counters of the objects answer as
  a map from page indices to pages does, and an insertion for which the trie finds no memory reports
  its failure and leaves the map as it was. The callers keep to the functions' rules: a page is
  inserted that is in no object, at an index that is free, and the page of the steps is in the object.
  The trie keeps the laws of a map and fails only for want of memory.
\<close>

theorem resident_refines:
  assumes "res_good x" "pre_steps res_pre res_spec ops (res_of x)"
  shows "\<exists>x' rs. run_steps res_exec ops x = Inr (x', rs) \<and> res_good x' \<and>
    spec_steps res_spec ops (res_of x) = (res_of x', map id rs)"
  using assms by (rule resident.runs)

theorem resident_refines_witness:
  "\<exists>x' rs. run_steps res_exec [(False, Res_insert 8 0 5000), (True, Res_insert 8 0 5000), (True, Res_next 0 4), (True, Res_remove 5),
       (False, Res_lookup 0 5), (False, Res_lookup 0 5000)] (al_radix, vm1) = Inr (x', rs) \<and>
     rs = [Failed True, Failed False, Found (Some 5), Found None, Found None, Found (Some 8)]"
proof -
  let ?ops = "[(False, Res_insert 8 0 5000), (True, Res_insert 8 0 5000), (True, Res_next 0 4), (True, Res_remove 5),
       (False, Res_lookup 0 5), (False, Res_lookup 0 5000)]"
  have R: "radix_ok al_radix (look al_radix)" using al_radix_ok by (simp add: look_def [abs_def] eta_contract_eq)
  have "look al_radix = map_of" by (simp add: look_def fun_eq_iff)
  then have "res_good (al_radix, vm1)" using R obj_wf_vm1 by (simp add: res_good_def)
  moreover have A: "res_of (al_radix, vm1) = (\<lambda>ob k. map_of (if ob = 0 then [(3, 3), (4, 4), (5, 5), (6, 6), (7, 7)] else []) k)"
    by (simp add: res_of_def vm1_simps(6) fun_eq_iff)
  have "pre_steps res_pre res_spec ?ops (res_of (al_radix, vm1))" unfolding A by (auto split: if_splits)
  moreover have "snd (spec_steps res_spec ?ops (res_of (al_radix, vm1))) =
      [Failed True, Failed False, Found (Some 5), Found None, Found None, Found (Some 8)]"
    unfolding A by simp
  ultimately show ?thesis using resident_refines [of "(al_radix, vm1)" ?ops] by auto
qed

text \<open>
  C22: The busy lock. The lock word encodes whether the page is shared by how many threads or held
  exclusively, and whether others wait; every history of the lock operations behaves on the words as
  it does on those values, waking the waiters when the last holder goes, and no lock state assertion
  fails.
\<close>

theorem busy_lock_refines:
  assumes "lock_ok x" "pre_steps busy_pre busy_spec ops (busy_of x)"
  shows "\<exists>x' rs. run_steps busy_exec ops x = Inr (x', rs) \<and> lock_ok x' \<and>
    spec_steps busy_spec ops (busy_of x) = (busy_of x', map id rs)"
  using assms by (rule busy.runs)

theorem busy_lock_refines_witness:
  "\<exists>x' rs. run_steps busy_exec [((), Trysbusy), ((), Trysbusy), ((), Tryxbusy), ((), Sleep False), ((), Sunbusy), ((), Sunbusy), ((), Tryxbusy)]
     VPB_UNBUSIED = Inr (x', rs) \<and> rs = [True, True, False, True, False, True, True] \<and> busy_of x' = Exclusive False"
proof -
  let ?ops = "[((), Trysbusy), ((), Trysbusy), ((), Tryxbusy), ((), Sleep False), ((), Sunbusy), ((), Sunbusy), ((), Tryxbusy)]"
  have u: "VPB_UNBUSIED = busy_word (Shared 0 False)" by (simp add: busy_consts)
  have ok: "busy_ok (Shared 0 False)" by simp
  have "lock_ok VPB_UNBUSIED" "busy_of VPB_UNBUSIED = Shared 0 False"
    unfolding u by (rule lock_ok_word [OF ok], rule busy_of_word [OF ok])
  then show ?thesis using busy_lock_refines [of VPB_UNBUSIED ?ops] by auto
qed

text \<open>
  C15: Allocation for an object. Given a page of the free list and enough free pages for the request
  class, vm_page_alloc_after puts the page into the object at the index, unqueued, clean and invalid,
  wired and busied as requested, or, when the trie has no node, undoes everything: the page passes the
  checks of the next allocation, is handed back exactly once, and the wire count and the object are as
  before.
\<close>

theorem page_alloc_outcome:
  assumes "radix_ok (radix_ops E) a" "vm_inv n a s" "allocatable s m" "obj_request req" "a (rtree s ob) pi = None"
    "mpred_ok s ob pi mpred" "may_alloc E (req_class_of E req) fc"
  shows "\<exists>s' r. vm_page_alloc_after E (Some ob) pi req mpred ((fc, Some m) # rest) s = Inr (s', r) \<and> vm_inv n a s' \<and>
    (if r_insert (radix_ops E) pi m (rtree s ob) = None
     then r = None \<and> v_wire_count s' = v_wire_count s \<and> a (rtree s' ob) = a (rtree s ob) \<and>
       vm_page_alloc_check m s' = Inr () \<and> frees s' m = frees s m + 1
     else r = Some m \<and> alloc_result req ob pi (pages s' m) \<and> a (rtree s' ob) = (a (rtree s ob))(pi := Some m))"
  using alloc_ok [OF assms] by blast

theorem page_alloc_outcome_witness:
  "\<exists>s'. vm_page_alloc_after env1 (Some 0) 9 VM_ALLOC_WIRED (Some 7) [(50, Some 8)] vm1 = Inr (s', Some 8) \<and>
     alloc_result VM_ALLOC_WIRED 0 9 (pages s' 8)"
proof -
  have 1: "allocatable vm1 8"
    by (simp add: allocatable_def marker_vm1 fictitious_def vm_page_alloc_check_def Let_def vm_page_busied_def)
      (simp add: vm1_def sample_pages_def sample_page_def)
  have 2: "obj_request VM_ALLOC_WIRED"
    by (simp add: obj_request_def has_flag_def VM_ALLOC_WIRED_def VM_ALLOC_NOOBJ_def VM_ALLOC_WAITOK_def VM_ALLOC_IFCACHED_def
        VM_ALLOC_NOBUSY_def VM_ALLOC_SBUSY_def)
  have 3: "mpred_ok vm1 0 9 (Some 7)" by (simp add: mpred_ok_def vm1_simps(5) pindex_vm1)
  have 4: "may_alloc env1 (req_class_of env1 VM_ALLOC_WIRED) 50" by (simp add: may_alloc_def env1_def)
  show ?thesis
    using page_alloc_outcome [OF _ vm_inv_vm1 1 2 _ 3 4, of "[]"] al_radix_ok by (simp add: trie_env1 vm1_simps(6)) blast
qed

text \<open>
  C16: A freed page can be allocated. vm_page_free on a page that may be freed takes it off its queue
  and out of its object, keeps the invariant and every other page; a page without holds is handed to
  the allocator exactly once in a state that passes all checks of the next allocation, a held page is
  not handed over yet but marked.
\<close>

theorem page_free_reusable:
  assumes "radix_ok (radix_ops E) a" "vm_inv n a s" "freeable s m"
  shows "\<exists>s'. vm_page_free E m s = Inr s' \<and> vm_inv n a s' \<and> page_idle s' m \<and>
    (\<forall>x. x \<noteq> m \<longrightarrow> pages s' x = pages s x) \<and>
    (if hold_count (pages s m) = 0 then vm_page_alloc_check m s' = Inr () \<and> frees s' m = frees s m + 1
     else pg_flags (pages s' m) AND PG_UNHOLDFREE \<noteq> 0 \<and> frees s' m = frees s m)"
  using free_ok [OF assms] by blast

lemma freeable_vm1: "3 \<le> m \<Longrightarrow> m \<le> 5 \<Longrightarrow> freeable vm1 m"
  by (auto simp: freeable_def marker_vm1 fictitious_def vm_page_busied_def vm1_simps(1,8) sample_pages_def sample_page_def)

theorem page_free_reusable_witness:
  "\<exists>s'. vm_page_free env1 3 vm1 = Inr s' \<and> vm_page_alloc_check 3 s' = Inr () \<and> frees s' 3 = 1"
proof -
  have "hold_count (pages vm1 3) = 0" "frees vm1 3 = 0"
    by (simp_all add: vm1_simps sample_pages_def sample_page_def frees_def)
  then show ?thesis
    using page_free_reusable [OF _ vm_inv_vm1 freeable_vm1, of env1 3] al_radix_ok by (auto simp: trie_env1)
qed

text \<open>
  A page freed while held. vm_page_free on a page with one hold does not hand it over; the
  vm_page_unhold that drops the hold does, exactly once, and the page then passes the checks of the
  next allocation.
\<close>

theorem held_page_freed_late:
  assumes "radix_ok (radix_ops E) a" "vm_inv n a s" "freeable s m" "hold_count (pages s m) = 1"
  shows "\<exists>s1 s2. vm_page_free E m s = Inr s1 \<and> frees s1 m = frees s m \<and>
    vm_page_unhold E m s1 = Inr s2 \<and> frees s2 m = frees s m + 1 \<and> vm_page_alloc_check m s2 = Inr () \<and> vm_inv n a s2"
proof -
  obtain s1 where s1: "vm_page_free E m s = Inr s1" "vm_inv n a s1" "page_idle s1 m" "hold_count (pages s1 m) = 1"
    "pg_flags (pages s1 m) AND PG_UNHOLDFREE \<noteq> 0" "frees s1 m = frees s m"
    using free_ok [OF assms(1-3)] assms(4) by auto
  have "hold_count (pages s m) \<noteq> 0" using assms(4) by simp
  note h = free_held [OF assms(1-3) this s1(1)]
  show ?thesis using unhold_frees [OF assms(1) s1(2) h(1,2) s1(3-5) h(3)] s1(1,6) by auto
qed

theorem held_page_freed_late_witness:
  "\<exists>s1 s2. vm_page_free env1 4 vm1 = Inr s1 \<and> frees s1 4 = 0 \<and> vm_page_unhold env1 4 s1 = Inr s2 \<and> frees s2 4 = 1"
proof -
  have "hold_count (pages vm1 4) = 1" "frees vm1 4 = 0"
    by (simp_all add: vm1_simps sample_pages_def sample_page_def frees_def)
  then show ?thesis
    using held_page_freed_late [OF _ vm_inv_vm1 freeable_vm1, of env1 4] al_radix_ok by (auto simp: trie_env1)
qed

text \<open>
  C31: Insertion and removal. Inserting a page at a free index makes vm_page_lookup find it there;
  removing it restores the page lists, the tries and the page count of the objects, and leaves of the
  page only the index it had.
\<close>

theorem insert_remove_roundtrip:
  assumes "radix_ok R a" "obj_wf a s" "pg_object (pages s m) = None" "a (rtree s ob) pi = None"
    "r_insert R pi m (rtree s ob) \<noteq> None" "\<not> vm_page_xbusied (busy_lock (pages s m))"
  shows "\<exists>s1 s2. vm_page_insert R m ob pi s = Inr (s1, False) \<and> vm_page_lookup R ob pi s1 = Some m \<and>
    vm_page_remove R m s1 = Inr s2 \<and> (\<forall>o'. a (rtree s2 o') = a (rtree s o') \<and> memq s2 o' = memq s o') \<and>
    resident_page_count s2 ob = resident_page_count s ob \<and> pages s2 = (pages s)(m := (pages s m)\<lparr>pindex := pi\<rparr>)"
  using assms by (rule insert_remove)

theorem insert_remove_roundtrip_witness:
  "\<exists>s1 s2. vm_page_insert al_radix 8 0 5000 vm1 = Inr (s1, False) \<and> vm_page_lookup al_radix 0 5000 s1 = Some 8 \<and>
     vm_page_remove al_radix 8 s1 = Inr s2 \<and> memq s2 0 = [3, 4, 5, 6, 7]"
proof -
  have "pg_object (pages vm1 8) = None" "map_of (rtree vm1 0) 5000 = None" "\<not> vm_page_xbusied (busy_lock (pages vm1 8))"
    by (simp_all add: vm1_simps sample_pages_def sample_page_def)
  then show ?thesis using insert_remove_roundtrip [OF al_radix_ok obj_wf_vm1, of 8 0 5000] by (auto simp: vm1_simps(5))
qed

lemma shortfall_run:
  assumes l: "laundry_ok l" "0 < l_shortfall l" and es: "list_all (delivers c) es" "length es = 5" "0 \<le> c"
    "le_request (last es) \<noteq> LAUNDRY_SHORTFALL"
  shows "\<exists>l' n. laundry_run es l = Inr (l', n) \<and> l_target l' = 0 \<and> l_cycle l' = 0 \<and> l_shortfall l \<le> n \<and> n \<le> l_shortfall l + 5 * c"
proof -
  obtain e es' where e: "es = e # es'" "delivers c e" using es by (cases es) auto
  define k where "k = l\<lparr>l_in_shortfall := True, l_cycle := 5, l_target := l_shortfall l, l_shortfall := 0\<rparr>"
  have t: "0 \<le> l_target l" "0 \<le> l_cycle l" "l_shortfall l < 2 ^ 31" using l(1) by (simp_all add: laundry_ok_def)
  have kt: "l_target k = l_shortfall l" "l_cycle k = 5" "l_in_shortfall k" "l_shortfall k = 0" by (simp_all add: k_def)
  have "laundry_choose e l = (case laundry_choose e k of Inl f \<Rightarrow> Inl f | Inr (k', n) \<Rightarrow> Inr (k'\<lparr>l_shortfall := l_shortfall l\<rparr>, n))"
    using l(2) e(2) by (simp add: laundry_choose_def k_def VM_LAUNDER_RATE_def VM_INACT_SCAN_RATE_def delivers_def)
  moreover have "laundry_choose e k = Inr (k\<lparr>l_last_launder := le_wakeups e, l_cycle := 4\<rparr>, c_div (l_shortfall l) 5)"
    using e(2) by (simp add: laundry_choose_def k_def delivers_def)
  ultimately have "laundry_turn e l = laundry_turn e k"
    using t(1,2) l(2) by (simp add: laundry_turn_def laundry_finish_def kt k_def Let_def)
  then have "laundry_run es l = laundry_run es k" by (simp add: e(1))
  then show ?thesis using shortfall_met [OF es(1,3) kt(3)] kt es(2,4) l(2) t(3) by simp
qed

text \<open>
  C36: The integer square root of the laundry thread. For every unsigned number, isqrt ends and
  returns the largest number whose square is not above it.
\<close>

theorem isqrt_root:
  "unat (isqrt n) * unat (isqrt n) \<le> unat n \<and> unat n < (unat (isqrt n) + 1) * (unat (isqrt n) + 1)"
  by (rule isqrt_ok)

text \<open>
  C29: The votes to kill a process. After every scan the counter equals the number of domains that
  vote, never all of them; a domain votes when so many scans in a row failed outright, loses its vote
  as soon as a scan frees something, and a process is killed exactly when the last domain to vote
  does, which takes its vote back.
\<close>

theorem oom_votes_counted:
  assumes "oom_ok n s" "d < n" "failed \<longleftrightarrow> 0 < start \<and> start = left"
    "due \<longleftrightarrow> (if failed then lim \<le> vmd_oom_seq s d + 1 else lim \<le> 0)"
    "kill \<longleftrightarrow> due \<and> \<not> vmd_oom s d \<and> (\<forall>x<n. x \<noteq> d \<longrightarrow> vmd_oom s x)"
  shows "let s' = vm_pageout_mightbe_oom lim n d left start s in
    oom_ok n s' \<and> oom_kills s' = oom_kills s + (if kill then 1 else 0) \<and> (vmd_oom s' d \<longleftrightarrow> due \<and> \<not> kill) \<and>
    (\<forall>x. x \<noteq> d \<longrightarrow> vmd_oom s' x = vmd_oom s x) \<and>
    vmd_oom_seq s' d = (if failed \<and> \<not> due then vmd_oom_seq s d + 1 else 0)"
proof -
  note M = mightbe_oom_ok [OF assms(1,2), where start = start and left = left and lim = lim,
      folded assms(3), folded assms(4), folded assms(5)]
  show ?thesis unfolding Let_def using M by blast
qed

theorem oom_votes_counted_witness:
  "oom_kills (vm_pageout_mightbe_oom 2 2 1 7 7
     \<lparr>vmd_oom_seq = (\<lambda>d. 1), vmd_oom = (\<lambda>d. d = 0), vm_pageout_oom_vote = 1, oom_kills = 0\<rparr>) = 1"
proof -
  let ?s = "\<lparr>vmd_oom_seq = (\<lambda>d. 1), vmd_oom = (\<lambda>d. d = 0), vm_pageout_oom_vote = 1, oom_kills = 0\<rparr>"
  have "{d. d < (2::nat) \<and> d = 0} = {0}" by auto
  then have "oom_ok 2 ?s" by (simp add: oom_ok_def votes_def)
  moreover have "\<forall>x<2. x \<noteq> 1 \<longrightarrow> x = (0::nat)" by auto
  ultimately show ?thesis using oom_votes_counted [of 2 ?s 1 True 7 7 True 2 True] by (simp add: Let_def)
qed

text \<open>
  C30: The process that is killed. vm_pageout_oom kills a candidate (a normal process that is not
  exempt, whose threads are all in an ordinary state and whose map can be read) that is as large as
  every other candidate, and nobody when no candidate would free anything.
\<close>

theorem oom_kills_largest:
  assumes "vm_pageout_oom oom_mem avail panicking procs = Inr r"
  shows "case r of None \<Rightarrow> \<forall>q \<in> set procs. oom_candidate avail q \<longrightarrow> oom_size oom_mem q \<le> 0
    | Some p \<Rightarrow> p \<in> set procs \<and> oom_candidate avail p \<and> 0 < oom_size oom_mem p \<and>
        (\<forall>q \<in> set procs. oom_candidate avail q \<longrightarrow> oom_size oom_mem q \<le> oom_size oom_mem p)"
  using assms by (rule oom_victim_max)

definition proc_of_size :: "int \<Rightarrow> int \<Rightarrow> oom_proc" where
  "proc_of_size pid n = \<lparr>op_normal = True, op_excluded = False, op_killed = False, op_pid = pid, op_threads = [True],
     op_vmspace = True, op_map_free = True, op_swap = 1,
     op_map = [\<lparr>is_sub_map = False, needs_copy = False, entry_object = Some (OBJT_DEFAULT, 1, n)\<rparr>]\<rparr>"

theorem oom_kills_largest_witness:
  "vm_pageout_oom True 0 False [proc_of_size 1 50, proc_of_size 100 3, proc_of_size 101 9, proc_of_size 102 9] =
     Inr (Some (proc_of_size 101 9)) \<and> oom_size True (proc_of_size 100 3) \<le> oom_size True (proc_of_size 101 9)"
proof -
  let ?l = "[proc_of_size 1 50, proc_of_size 100 3, proc_of_size 101 9, proc_of_size 102 9]"
  have "vm_pageout_oom True 0 False ?l = Inr (Some (proc_of_size 101 9))"
    by (simp add: vm_pageout_oom_def oom_candidate_def oom_size_def proc_of_size_def)
  moreover from oom_kills_largest [OF this] have "oom_size True (proc_of_size 100 3) \<le> oom_size True (proc_of_size 101 9)"
    by (simp add: oom_candidate_def proc_of_size_def)
  ultimately show ?thesis by simp
qed

definition turn_env :: "laundry_request \<Rightarrow> laundry_env" where
  "turn_env r = \<lparr>le_wakeups = 3, le_target1 = 9, le_target2 = 23, le_deficit = 1, le_inactive = 10, le_free = 10, le_laundry = 60,
     le_laundered = (\<lambda>k. if 0 \<le> k \<and> k < 2 ^ 31 then k else 0), le_request = r, le_bg_target = 100, le_bg_rate = 4096,
     le_bg_max = 20480\<rparr>"

text \<open>
  C28: A shortfall is met. The page daemon has posted a shortfall, and during the five turns that a
  shortfall run has, every laundering yields the pages it was asked for and at most \<open>c\<close> more (a
  cluster minus one, C10), vm_laundry_target() stays positive whenever it is asked (else the run is
  given up), and no new shortfall is requested at the end of the last turn (else the next run
  starts). Then the five turns launder the whole shortfall and at most \<open>c\<close> pages a turn more, and
  leave the target and the cycle at zero.
\<close>

theorem shortfall_met_in_five_turns:
  assumes "laundry_ok l" "0 < l_shortfall l" "list_all (delivers c) es" "length es = 5" "0 \<le> c"
    "le_request (last es) \<noteq> LAUNDRY_SHORTFALL"
  shows "\<exists>l' n. laundry_run es l = Inr (l', n) \<and> l_target l' = 0 \<and> l_cycle l' = 0 \<and>
    l_shortfall l \<le> n \<and> n \<le> l_shortfall l + 5 * c"
  using assms by (rule shortfall_run)

theorem shortfall_met_in_five_turns_witness:
  "\<exists>l' n. laundry_run (replicate 5 (turn_env LAUNDRY_IDLE)) (laundry_start\<lparr>l_shortfall := 23\<rparr>) = Inr (l', n) \<and> l_target l' = 0 \<and> n = 23"
proof -
  have "laundry_ok (laundry_start\<lparr>l_shortfall := 23\<rparr>)" by (simp add: laundry_ok_def laundry_start_def)
  moreover have "list_all (delivers 0) (replicate 5 (turn_env LAUNDRY_IDLE))"
    by (simp add: delivers_def turn_env_def list_all_iff)
  ultimately show ?thesis
    using shortfall_met_in_five_turns [of "laundry_start\<lparr>l_shortfall := 23\<rparr>" 0 "replicate 5 (turn_env LAUNDRY_IDLE)"]
    by (auto simp: turn_env_def)
qed




end
