(* ===== verification/VmLaunder.thy ===== *)
theory VmLaunder
  imports VmScan
begin

text \<open>
  The laundering of dirty pages in vm_pageout.c: clusters of adjacent pages, their way to the pager, and
  the scan of the laundry queue. The pager, the vnode locks and the page tables are not part of the
  sources: what they do is in the environment.
\<close>

definition PGA_WRITEABLE :: "8 word" where "PGA_WRITEABLE = 0x01"

definition vm_page_in_laundry :: "pg \<Rightarrow> 'r vm \<Rightarrow> bool" where
  "vm_page_in_laundry m s \<longleftrightarrow> queue (pages s m) = PQ_LAUNDRY"

definition vm_page_requeue_locked :: "pg \<Rightarrow> 'r vm \<Rightarrow> fault + 'r vm" where
  "vm_page_requeue_locked m s =
     rbind (kassert (queue (pages s m) \<noteq> PQ_NONE) ''vm_page_requeue_locked: page is not queued'') (\<lambda>_.
     case vm_page_pagequeue m s of (d, q) \<Rightarrow>
       if q \<ge> PQ_COUNT then Inl (OutOfBounds ''vmd_pagequeues'')
       else rbind (tailq_remove m (pq_pl s d q)) (\<lambda>l. Inr (set_pq d q (l @ [m]) s)))"

datatype pager_status =
    VM_PAGER_OK | VM_PAGER_BAD | VM_PAGER_FAIL | VM_PAGER_PEND | VM_PAGER_ERROR | VM_PAGER_AGAIN

text \<open>What vm_pageout_clean finds out about the vnode of an object, and what others do while it waits
  for the vnode lock with the page and the object unlocked.\<close>

record 'r vnode_try =
  vn_regular :: bool  \<comment> \<open>v_type is VREG\<close>
  vn_started :: bool  \<comment> \<open>vn_start_write succeeds\<close>
  vn_mount :: bool  \<comment> \<open>and the mount that it stores in mp is not NULL\<close>
  vget_wait :: "'r vm \<Rightarrow> 'r vm"
  vn_gotten :: bool  \<comment> \<open>vget succeeds\<close>
  vn_same_object :: bool  \<comment> \<open>v_object is still the object\<close>

text \<open>\<open>put_pages\<close> is vm_pager_put_pages in the given turn, with the status of each page. The pmap reports
  the modifications that it takes back in pmap_remove_write.\<close>

record 'r launder_env =
  la_env :: "'r vm_env"
  la_locks :: "'r locks"
  dirty_after_remove_write :: "pg \<Rightarrow> vm_page_bits_t \<Rightarrow> vm_page_bits_t"
  put_pages :: "nat \<Rightarrow> pg list \<Rightarrow> 'r vm \<Rightarrow> 'r vm \<times> (nat \<Rightarrow> pager_status)"
  la_now :: "int \<times> int"
  vnode_of :: "nat \<Rightarrow> 'r vnode_try"
  vm_pageout_page_count :: int
  disable_swap_pageouts :: bool

definition write_protect :: "'r launder_env \<Rightarrow> pg \<Rightarrow> vm_page \<Rightarrow> vm_page" where
  "write_protect A m p =
     p\<lparr>dirty := (if valid p = VM_PAGE_BITS_ALL then dirty_after_remove_write A m (dirty p) else dirty p),
       aflags := aflags p AND NOT PGA_WRITEABLE\<rparr>"

definition pmap_remove_write :: "'r launder_env \<Rightarrow> pg \<Rightarrow> 'r vm \<Rightarrow> 'r vm" where
  "pmap_remove_write A m s =
     vm_call (PmapRemoveWrite m) ((upd_pg m (write_protect A m) s)\<lparr>is_write_mapped := (is_write_mapped s)(m := False)\<rparr>)"

subsection \<open>Writing pages\<close>

text \<open>The pages are shared busied before they are handed to the pager.\<close>

fun flush_start :: "pg list \<Rightarrow> 'r vm \<Rightarrow> fault + 'r vm" where
  "flush_start [] s = Inr s"
| "flush_start (m # mc) s =
     rbind (kassert (valid (pages s m) = VM_PAGE_BITS_ALL) ''vm_pageout_flush: partially invalid page'') (\<lambda>_.
     rbind (kassert (aflags (pages s m) AND PGA_WRITEABLE = 0) ''vm_pageout_flush: writeable page'') (\<lambda>_.
     case vm_page_trysbusy (busy_lock (pages s m)) of (w, got) \<Rightarrow>
       if got then flush_start mc (upd_pg m (\<lambda>p. p\<lparr>busy_lock := w\<rparr>) s)
       else Inl (Panic ''page failed shared busying'')))"

definition leave_laundry :: "pg \<Rightarrow> 'r vm \<Rightarrow> fault + 'r vm" where
  "leave_laundry m s = (if vm_page_in_laundry m s then vm_page_deactivate_noreuse m s else Inr s)"

definition flush_page :: "'r launder_env \<Rightarrow> pager_status \<Rightarrow> pg \<Rightarrow> 'r vm \<Rightarrow> fault + 'r vm" where
  "flush_page A st m s =
     (case st of
        VM_PAGER_OK \<Rightarrow> leave_laundry m s
      | VM_PAGER_PEND \<Rightarrow> Inr s
      | VM_PAGER_BAD \<Rightarrow> leave_laundry m (upd_pg m vm_page_undirty s)
      | VM_PAGER_ERROR \<Rightarrow> vm_page_activate (la_now A) m s
      | VM_PAGER_FAIL \<Rightarrow> vm_page_activate (la_now A) m s
      | VM_PAGER_AGAIN \<Rightarrow> Inr s)"

definition end_io :: "obj \<Rightarrow> pg \<Rightarrow> 'r vm \<Rightarrow> fault + 'r vm" where
  "end_io ob m s =
     (let s = vm_call (PipWakeup ob) s in
      rbind (vm_page_sunbusy (busy_lock (pages s m))) (\<lambda>xw. Inr (set_busy m xw s)))"

text \<open>The loop over the statuses, with numpagedout, runlen and eio.\<close>

fun flush_loop ::
    "'r launder_env \<Rightarrow> obj \<Rightarrow> (nat \<Rightarrow> pager_status) \<Rightarrow> int \<Rightarrow> nat \<Rightarrow> pg list \<Rightarrow> int \<times> int \<times> bool \<Rightarrow> 'r vm \<Rightarrow>
     fault + 'r vm \<times> int \<times> int \<times> bool" where
  "flush_loop A ob st mreq i [] r s = Inr (s, r)"
| "flush_loop A ob st mreq i (m # mc) (num, runlen, eio) s =
     rbind (kassert (st i = VM_PAGER_PEND \<or> \<not> is_write_mapped s m) ''vm_pageout_flush: page is not write protected'') (\<lambda>_.
     rbind (flush_page A (st i) m s) (\<lambda>s.
     rbind (if st i \<noteq> VM_PAGER_PEND then end_io ob m s else Inr s) (\<lambda>s.
     let in_run = (int i \<ge> mreq \<and> int i - mreq < runlen) in
     flush_loop A ob st mreq (i + 1) mc
       (if st i = VM_PAGER_OK \<or> st i = VM_PAGER_PEND then num + 1 else num,
        if st i = VM_PAGER_AGAIN \<and> in_run then int i - mreq else runlen,
        eio \<or> (st i = VM_PAGER_ERROR \<or> st i = VM_PAGER_FAIL) \<and> in_run) s)))"

definition vm_pageout_flush ::
    "'r launder_env \<Rightarrow> nat \<Rightarrow> pg list \<Rightarrow> int \<Rightarrow> 'r vm \<Rightarrow> fault + 'r vm \<times> int \<times> int \<times> bool" where
  "vm_pageout_flush A k mc mreq s =
     (case mc of [] \<Rightarrow> Inl (OutOfBounds ''mc'')
      | m # _ \<Rightarrow>
          (case pg_object (pages s m) of None \<Rightarrow> Inl (NullDeref ''object'')
           | Some ob \<Rightarrow>
               rbind (flush_start mc s) (\<lambda>s.
               let s = vm_call (PutPages mc) (vm_call (PipAdd ob (length mc)) s) in
               case put_pages A k mc s of (s, st) \<Rightarrow>
                 flush_loop A ob st mreq 0 mc (0, int (length mc) - mreq, False) s)))"

subsection \<open>Clusters\<close>

text \<open>The array \<open>mc\<close> of \<open>2 * vm_pageout_page_count\<close> entries; an entry that is not yet written is \<open>None\<close>.\<close>

definition mc_set :: "int \<Rightarrow> pg \<Rightarrow> pg option list \<Rightarrow> fault + pg option list" where
  "mc_set i p mc = (if 0 \<le> i \<and> i < int (length mc) then Inr (mc[nat i := Some p]) else Inl (OutOfBounds ''mc''))"

definition mc_pages :: "int \<Rightarrow> int \<Rightarrow> pg option list \<Rightarrow> fault + pg list" where
  "mc_pages i count mc =
     (let l = take (nat count) (drop (nat i) mc) in
      if 0 \<le> i \<and> i + count \<le> int (length mc) \<and> list_all (\<lambda>p. p \<noteq> None) l then Inr (map the l)
      else Inl (OutOfBounds ''mc''))"

record cluster =
  cl_mc :: "pg option list"
  cl_pb :: pg
  cl_ps :: pg
  cl_ib :: int
  cl_is :: int
  cl_base :: int
  cl_count :: int

text \<open>Whether the page found next to the cluster can join it: the checks of both scans.\<close>

definition cluster_try :: "'r launder_env \<Rightarrow> pg option \<Rightarrow> 'r vm \<Rightarrow> fault + 'r vm \<times> pg option" where
  "cluster_try A q s =
     (case q of None \<Rightarrow> Inr (s, None)
      | Some p \<Rightarrow>
          if vm_page_busied (busy_lock (pages s p)) then Inr (s, None)
          else
            rbind (vm_page_test_dirty p s) (\<lambda>s.
            if dirty (pages s p) = 0 then Inr (s, None)
            else if \<not> vm_page_in_laundry p s \<or> hold_count (pages s p) \<noteq> 0 then Inr (s, None)
            else Inr (pmap_remove_write A p s, Some p)))"

function cluster_back :: "'r launder_env \<Rightarrow> u_long \<Rightarrow> cluster \<Rightarrow> 'r vm \<Rightarrow> fault + cluster \<times> 'r vm" where
  "cluster_back A pi c s =
     (if cl_ib c \<noteq> 0 \<and> cl_count c < vm_pageout_page_count A then
        if of_int (cl_ib c) > pi then Inr (c\<lparr>cl_ib := 0\<rparr>, s)
        else
          rbind (vm_page_prev (cl_pb c) s) (\<lambda>q.
          rbind (cluster_try A q s) (\<lambda>(s, got).
          case got of None \<Rightarrow> Inr (c\<lparr>cl_ib := 0\<rparr>, s)
          | Some p \<Rightarrow>
              rbind (mc_set (cl_base c - 1) p (cl_mc c)) (\<lambda>mc.
              if (pi - of_int (cl_ib c)) mod of_int (vm_pageout_page_count A) = 0
              then Inr (c\<lparr>cl_mc := mc, cl_base := cl_base c - 1, cl_pb := p, cl_count := cl_count c + 1, cl_ib := cl_ib c + 1\<rparr>, s)
              else cluster_back A pi
                (c\<lparr>cl_mc := mc, cl_base := cl_base c - 1, cl_pb := p, cl_count := cl_count c + 1, cl_ib := cl_ib c + 1\<rparr>) s)))
      else Inr (c, s))"
  by auto

termination
  by (relation "measure (\<lambda>(A, pi, c, s). nat (vm_pageout_page_count A - cl_count c))") auto

function cluster_forward :: "'r launder_env \<Rightarrow> u_long \<Rightarrow> u_long \<Rightarrow> cluster \<Rightarrow> 'r vm \<Rightarrow> fault + cluster \<times> 'r vm" where
  "cluster_forward A pi sz c s =
     (if cl_count c < vm_pageout_page_count A \<and> pi + of_int (cl_is c) < sz then
        rbind (vm_page_next (cl_ps c) s) (\<lambda>q.
        rbind (cluster_try A q s) (\<lambda>(s, got).
        case got of None \<Rightarrow> Inr (c, s)
        | Some p \<Rightarrow>
            rbind (mc_set (cl_base c + cl_count c) p (cl_mc c)) (\<lambda>mc.
            cluster_forward A pi sz (c\<lparr>cl_mc := mc, cl_ps := p, cl_count := cl_count c + 1, cl_is := cl_is c + 1\<rparr>) s)))
      else Inr (c, s))"
  by auto

termination
  by (relation "measure (\<lambda>(A, pi, sz, c, s). nat (vm_pageout_page_count A - cl_count c))") auto

declare cluster_back.simps [simp del] cluster_forward.simps [simp del]

text \<open>The loop over \<open>more\<close>: every turn but the last adds a page, so one turn more than a cluster has pages
  is enough.\<close>

fun cluster_more :: "'r launder_env \<Rightarrow> u_long \<Rightarrow> u_long \<Rightarrow> nat \<Rightarrow> cluster \<Rightarrow> 'r vm \<Rightarrow> fault + cluster \<times> 'r vm" where
  "cluster_more A pi sz 0 c s = Inl (Diverges ''vm_pageout_cluster'')"
| "cluster_more A pi sz (Suc fuel) c s =
     rbind (cluster_back A pi c s) (\<lambda>(c, s).
     rbind (cluster_forward A pi sz c s) (\<lambda>(c, s).
     if cl_ib c \<noteq> 0 \<and> cl_count c < vm_pageout_page_count A then cluster_more A pi sz fuel c s else Inr (c, s)))"

definition gather_cluster :: "'r launder_env \<Rightarrow> pg \<Rightarrow> 'r vm \<Rightarrow> fault + 'r vm \<times> pg list" where
  "gather_cluster A m s =
     (case pg_object (pages s m) of None \<Rightarrow> Inl (NullDeref ''object'')
      | Some ob \<Rightarrow>
          rbind (kassert (\<not> vm_page_busied (busy_lock (pages s m))) ''vm_page_assert_unbusied'') (\<lambda>_.
          rbind (kassert (hold_count (pages s m) = 0) ''page is held'') (\<lambda>_.
          let s = pmap_remove_write A m s; n = vm_pageout_page_count A in
          rbind (mc_set n m (replicate (nat (2 * n)) None)) (\<lambda>mc.
          rbind (cluster_more A (pindex (pages s m)) (obj_size s ob) (nat n + 1)
              \<lparr>cl_mc = mc, cl_pb = m, cl_ps = m, cl_ib = 1, cl_is = 1, cl_base = n, cl_count = 1\<rparr> s) (\<lambda>(c, s).
          rbind (mc_pages (cl_base c) (cl_count c) (cl_mc c)) (\<lambda>l. Inr (s, l)))))))"

definition vm_pageout_cluster :: "'r launder_env \<Rightarrow> nat \<Rightarrow> pg \<Rightarrow> 'r vm \<Rightarrow> fault + 'r vm \<times> int" where
  "vm_pageout_cluster A k m s =
     rbind (gather_cluster A m s) (\<lambda>(s, mc).
     rbind (vm_pageout_flush A k mc 0 s) (\<lambda>(s, num, _). Inr (s, num)))"

subsection \<open>The vnode of a page\<close>

datatype clean_error = CLEANED | EDEADLK | ENOENT | ENXIO | EBUSY | EIO

text \<open>mp stays NULL when the vnode is not a regular file, because vn_start_write is not called then.\<close>

definition vm_pageout_clean :: "'r launder_env \<Rightarrow> nat \<Rightarrow> pg \<Rightarrow> 'r vm \<Rightarrow> fault + 'r vm \<times> clean_error \<times> int" where
  "vm_pageout_clean A k m s =
     (case pg_object (pages s m) of None \<Rightarrow> Inl (NullDeref ''object'')
      | Some ob \<Rightarrow>
          let V = vnode_of A k; pi = pindex (pages s m);
              clean = (\<lambda>s. rbind (vm_pageout_cluster A k m s) (\<lambda>(s, num). Inr (s, if num = 0 then EIO else CLEANED, num)));
              release = (\<lambda>s. vm_call (ObjDeallocate ob) s) in
          if is_vnode s ob then
            if vn_regular V \<and> \<not> vn_started V then Inr (s, EDEADLK, 0)
            else
              rbind (kassert (vn_regular V \<and> vn_mount V) ''vp with NULL v_mount'') (\<lambda>_.
              let s = vget_wait V (vm_call (ObjReference ob) s) in
              if \<not> vn_gotten V then Inr (release s, EDEADLK, 0)
              else if \<not> vn_same_object V then Inr (release s, ENOENT, 0)
              else if \<not> vm_page_in_laundry m s \<or> pg_object (pages s m) \<noteq> Some ob \<or> pindex (pages s m) \<noteq> pi \<or> dirty (pages s m) = 0
              then Inr (release s, ENXIO, 0)
              else if vm_page_busied (busy_lock (pages s m)) \<or> hold_count (pages s m) \<noteq> 0 then Inr (release s, EBUSY, 0)
              else rbind (clean s) (\<lambda>(s, r). Inr (release s, r)))
          else clean s)"

subsection \<open>The scan of the laundry queue\<close>

text \<open>What a page counts for: so many pages laundered, or a vnode that was skipped.\<close>

datatype launder_result = NotLaundered | Laundered_pages int | Vnode_skipped

definition launder_page :: "'r launder_env \<Rightarrow> nat \<Rightarrow> pg \<Rightarrow> obj \<Rightarrow> 'r vm \<Rightarrow> fault + 'r vm \<times> launder_result" where
  "launder_page A k m ob s =
     (if valid (pages s m) = 0 then rbind (vm_page_free (la_env A) m s) (\<lambda>s. Inr (s, NotLaundered))
      else
        rbind (clean_mappings (la_env A) m ob s) (\<lambda>s.
        if dirty (pages s m) = 0 then rbind (vm_page_free (la_env A) m s) (\<lambda>s. Inr (s, NotLaundered))
        else if obj_dead s ob then Inr (s, NotLaundered)
        else if obj_anonymous s ob \<and> disable_swap_pageouts A then
          rbind (vm_page_requeue_locked m s) (\<lambda>s. Inr (s, NotLaundered))
        else
          rbind (vm_pageout_clean A k m s) (\<lambda>(s, e, num).
          Inr (s, case e of CLEANED \<Rightarrow> Laundered_pages num | EDEADLK \<Rightarrow> Vnode_skipped | _ \<Rightarrow> NotLaundered))))"

text \<open>The page stays in the queue, with the marker behind it; the other threads run when the queue is
  locked again.\<close>

definition launder_take ::
    "'r launder_env \<Rightarrow> nat \<Rightarrow> nat \<Rightarrow> pg \<Rightarrow> obj \<Rightarrow> 'r vm \<Rightarrow> fault + 'r vm \<times> launder_result \<times> pg option" where
  "launder_take A d k m ob s =
     (let mk = vmd_laundry_marker s d in
      rbind (tailq_insert_after m mk (pq_pl s d PQ_LAUNDRY)) (\<lambda>l.
      rbind (launder_page A k m ob (set_pq d PQ_LAUNDRY l s)) (\<lambda>(s, res).
      let s = meanwhile (la_locks A) k s; l = pq_pl s d PQ_LAUNDRY in
      rbind (tailq_remove mk l) (\<lambda>l'. Inr (set_pq d PQ_LAUNDRY l' s, res, tailq_next mk l)))))"

definition launder_turn ::
    "'r launder_env \<Rightarrow> nat \<Rightarrow> nat \<Rightarrow> pg \<Rightarrow> 'r vm \<Rightarrow> fault + 'r vm \<times> launder_result \<times> pg option" where
  "launder_turn A d k m s =
     (let L = la_locks A; nxt = tailq_next m (pq_pl s d PQ_LAUNDRY) in
      rbind (kassert (vm_page_in_laundry m s) ''page has an inconsistent queue'') (\<lambda>_.
      if pg_flags (pages s m) AND PG_MARKER \<noteq> 0 then Inr (s, NotLaundered, nxt)
      else
        rbind (kassert (pg_flags (pages s m) AND PG_FICTITIOUS = 0) ''PG_FICTITIOUS page cannot be in laundry queue'') (\<lambda>_.
        rbind (kassert (\<not> unmanaged m s) ''VPO_UNMANAGED page cannot be in laundry queue'') (\<lambda>_.
        rbind (vm_pageout_page_lock (page_try L k) (local_marker L) m nxt s) (\<lambda>(s, ok, nxt).
        if \<not> ok \<or> hold_count (pages s m) \<noteq> 0 then Inr (s, NotLaundered, nxt)
        else
          case pg_object (pages s m) of None \<Rightarrow> Inl (NullDeref ''object'')
          | Some ob \<Rightarrow>
              rbind (vm_pageout_object_lock (object_try L k) (local_marker L) m nxt s) (\<lambda>(s, ok, nxt).
              if \<not> ok \<or> hold_count (pages s m) \<noteq> 0 \<or> vm_page_busied (busy_lock (pages s m))
              then Inr (s, NotLaundered, nxt)
              else launder_take A d k m ob s))))))"

text \<open>The loop: what is left to launder and the vnodes skipped. It makes at most as many turns as maxscan
  is at its start, because a cluster that is laundered has one page at least.\<close>

fun launder_scan ::
    "'r launder_env \<Rightarrow> nat \<Rightarrow> nat \<Rightarrow> pg option \<Rightarrow> int \<Rightarrow> int \<Rightarrow> int \<Rightarrow> 'r vm \<Rightarrow> fault + 'r vm \<times> int \<times> int" where
  "launder_scan A d k None maxscan launder skipped s = Inr (s, launder, skipped)"
| "launder_scan A d k (Some m) maxscan launder skipped s =
     (if maxscan \<le> 0 \<or> launder \<le> 0 then Inr (s, launder, skipped)
      else case k of 0 \<Rightarrow> Inl (Diverges ''vm_pageout_launder'')
      | Suc k \<Rightarrow>
          rbind (launder_turn A d k m s) (\<lambda>(s, res, nxt).
          case res of
            NotLaundered \<Rightarrow> launder_scan A d k nxt (maxscan - 1) launder skipped s
          | Laundered_pages num \<Rightarrow> launder_scan A d k nxt (maxscan - 1 - (num - 1)) (launder - num) skipped s
          | Vnode_skipped \<Rightarrow> launder_scan A d k nxt (maxscan - 1) launder (skipped + 1) s))"

definition vm_pageout_launder :: "'r launder_env \<Rightarrow> nat \<Rightarrow> int \<Rightarrow> 'r vm \<Rightarrow> fault + 'r vm \<times> int" where
  "vm_pageout_launder A d launder s =
     (let maxscan = pq_cnt s d PQ_LAUNDRY in
      rbind (launder_scan A d (nat maxscan) (tailq_first (pq_pl s d PQ_LAUNDRY)) maxscan launder 0 s) (\<lambda>(s, left, skipped).
      Inr (call_if (skipped > 0 \<and> left > 0) SpeedupSyncer s, launder - left)))"

subsection \<open>The laundry thread\<close>

text \<open>What a turn of the thread meets: the wakeups, targets, tunables, the deficit and the request that it
  reads, the environment of the laundering, and what others do during the pause behind it and until the
  next turn. The page counts are those of the state.\<close>

record 'r laundry_turn_env =
  lt_reads :: laundry_env
  lt_launder :: "'r launder_env"
  lt_pause :: "'r vm \<Rightarrow> 'r vm"
  lt_sleep :: "'r vm \<Rightarrow> 'r vm"

definition laundry_counts :: "'r vm \<Rightarrow> laundry_env \<Rightarrow> laundry_env" where
  "laundry_counts s e = e\<lparr>le_inactive := pq_vcnt s PQ_INACTIVE, le_free := v_free_count s, le_laundry := pq_vcnt s PQ_LAUNDRY\<rparr>"

definition laundry_worker_start :: "nat \<Rightarrow> 'r vm \<Rightarrow> laundry \<times> 'r vm" where
  "laundry_worker_start d s = (laundry_start, vm_pageout_init_marker (vmd_laundry_marker s d) PQ_LAUNDRY s)"

definition laundry_worker_turn :: "nat \<Rightarrow> 'r laundry_turn_env \<Rightarrow> laundry \<Rightarrow> 'r vm \<Rightarrow> fault + laundry \<times> 'r vm" where
  "laundry_worker_turn d T l s =
     (let e = laundry_counts s (lt_reads T) in
      rbind (kassert (l_target l \<ge> 0) ''negative target'') (\<lambda>_.
      rbind (kassert (l_cycle l \<ge> 0) ''negative cycle'') (\<lambda>_.
      rbind (laundry_choose e l) (\<lambda>(l, launder).
      rbind (if launder > 0
             then rbind (vm_pageout_launder (lt_launder T) d launder s) (\<lambda>(s, num). Inr (lt_pause T s, num))
             else Inr (s, 0)) (\<lambda>(s, num).
      Inr (fst (laundry_finish e launder num l), lt_sleep T s))))))"

fun vm_pageout_laundry_worker :: "nat \<Rightarrow> 'r laundry_turn_env list \<Rightarrow> laundry \<times> 'r vm \<Rightarrow> fault + laundry \<times> 'r vm" where
  "vm_pageout_laundry_worker d [] ls = Inr ls"
| "vm_pageout_laundry_worker d (T # turns) ls =
     rbind (laundry_worker_turn d T (fst ls) (snd ls)) (vm_pageout_laundry_worker d turns)"

end
