(* ===== verification/VmLaunderLaws.thy ===== *)
theory VmLaunderLaws
  imports VmLaunder VmScanLaws VmBusy
begin

text \<open>
  Laundering keeps the invariants of the queues and of the objects whatever the pager answers, and a
  cluster is a run of neighbouring dirty pages around the page of the scan.
\<close>

subsection \<open>A page whose bits change\<close>

lemma vm_same_write_mapped [simp]: "vm_same s (t\<lparr>is_write_mapped := u\<rparr>) = vm_same s t"
  by (simp add: vm_same_def)

lemma write_mapped_simps [simp]:
  "fixed (s\<lparr>is_write_mapped := u\<rparr>) = fixed s" "freed (s\<lparr>is_write_mapped := u\<rparr>) = freed s"
  by (simp_all add: fixed_def freed_def)

lemma quiet_launder [simp]:
  "quiet (PmapRemoveWrite m)" "quiet (PutPages l)" "quiet (PipAdd ob k)" "quiet (PipWakeup ob)" "quiet (ObjReference ob)"
  "quiet (ObjDeallocate ob)" "quiet SpeedupSyncer"
  by (simp_all add: quiet_def)

text \<open>A page keeps its place and its meaning when only dirty bits, access flags, activity and the busy word
  change.\<close>

lemma interferes_bits:
  assumes inv: "scan_inv n a s" and m: "\<not> marker s m"
    and f: "queue (f (pages s m)) = queue (pages s m)" "wire_count (f (pages s m)) = wire_count (pages s m)"
      "oflags (f (pages s m)) = oflags (pages s m)" "pg_flags (f (pages s m)) = pg_flags (pages s m)"
      "pg_object (f (pages s m)) = pg_object (pages s m)" "pindex (f (pages s m)) = pindex (pages s m)"
      "valid (f (pages s m)) = valid (pages s m)"
    and d: "dirty (f (pages s m)) \<noteq> 0 \<Longrightarrow> dirty (pages s m) \<noteq> 0 \<or> valid (pages s m) = VM_PAGE_BITS_ALL"
  shows "interferes own {} n a s (upd_pg m f s)" "reclaimable s m \<Longrightarrow> reclaimable (upd_pg m f s) m"
proof -
  let ?s = "upd_pg m f s"
  have i: "vm_inv n a ?s"
    by (rule vm_inv_upd_flags [OF scan_invD(1) [OF inv] m]) (use f not_marker_flags [OF m] in simp_all)
  have fx: "fixed ?s = fixed s" "is_mapped ?s = is_mapped s" by simp_all
  show r: "reclaimable ?s m" if "reclaimable s m"
    using that d fixedD [OF fx(1)] by (auto simp: reclaimable_def f split: option.splits)
  have pm: "pages ?s m = f (pages s m)" "\<And>x. x \<noteq> m \<Longrightarrow> pages ?s x = pages s x" by simp_all
  have mk: "\<not> marker ?s m" using m by (simp add: marker_def f)
  have q: "queue (pages ?s m) < 3 \<Longrightarrow> reclaimable ?s m" using r scan_invD(6) [OF inv m] by (simp add: pm f)
  have sb: "sound_bits ?s m" using scan_invD(7) [OF inv m] fixedD(5) [OF fx(1)] by (simp add: sound_bits_def pm f)
  show "interferes own {} n a s ?s"
    by (rule scan_inv_page [OF inv i m mk pm(2) _ fx(1) q sb]) simp_all
qed

lemma interferes_same_call:
  "quiet c \<Longrightarrow> (case c of FreePage m \<Rightarrow> [m] | _ \<Rightarrow> []) = [] \<Longrightarrow> scan_inv n a s \<Longrightarrow> interferes own X n a s (vm_call c s)"
  by (rule interferes_same) simp_all

lemma write_protect_simps [simp]:
  "queue (write_protect A m p) = queue p" "wire_count (write_protect A m p) = wire_count p" "oflags (write_protect A m p) = oflags p"
  "pg_flags (write_protect A m p) = pg_flags p" "pg_object (write_protect A m p) = pg_object p" "pindex (write_protect A m p) = pindex p"
  "valid (write_protect A m p) = valid p" "busy_lock (write_protect A m p) = busy_lock p" "hold_count (write_protect A m p) = hold_count p"
  "aflags (write_protect A m p) AND PGA_WRITEABLE = 0"
  by (simp_all add: write_protect_def and.assoc)

lemma pmap_remove_write_fields:
  "pages (pmap_remove_write A m s) = (pages s)(m := write_protect A m (pages s m))" "fixed (pmap_remove_write A m s) = fixed s"
  "is_mapped (pmap_remove_write A m s) = is_mapped s" "pq_pl (pmap_remove_write A m s) = pq_pl s"
  "memq (pmap_remove_write A m s) = memq s" "rtree (pmap_remove_write A m s) = rtree s"
  by (simp_all add: pmap_remove_write_def fixed_def vm_call_def upd_pg_def)

lemma pmap_remove_write_ok:
  assumes inv: "scan_inv n a s" and m: "\<not> marker s m"
  shows "interferes own {} n a s (pmap_remove_write A m s)" "reclaimable s m \<Longrightarrow> reclaimable (pmap_remove_write A m s) m"
proof -
  let ?t = "upd_pg m (write_protect A m) s"
  have d: "dirty (write_protect A m p) \<noteq> 0 \<Longrightarrow> dirty p \<noteq> 0 \<or> valid p = VM_PAGE_BITS_ALL" for p
    by (simp add: write_protect_def split: if_splits)
  have b: "interferes own {} n a s ?t" "reclaimable s m \<Longrightarrow> reclaimable ?t m"
    by (rule interferes_bits [OF inv m]; (rule d)?; simp)+
  have "vm_same ?t (pmap_remove_write A m s)" by (simp add: pmap_remove_write_def)
  then have "interferes own {} n a ?t (pmap_remove_write A m s)"
    by (rule interferes_same [OF interferes_inv(1) [OF b(1)]]) (simp_all add: pmap_remove_write_fields)
  then show "interferes own {} n a s (pmap_remove_write A m s)" by (rule interferes_trans [OF b(1)])
  have "reclaimable (pmap_remove_write A m s) m = reclaimable ?t m"
    by (rule reclaimable_cong) (use fixedD [OF pmap_remove_write_fields(2), of A m s] fixedD [of ?t s] in \<open>simp_all add: pmap_remove_write_fields\<close>)
  then show "reclaimable s m \<Longrightarrow> reclaimable (pmap_remove_write A m s) m" using b(2) by simp
qed

subsection \<open>Moving a page\<close>

lemma put_movable:
  assumes inv: "scan_inv n a s" and m: "movable s m" and q: "q < 3"
    and l: "distinct l" "set l = insert m (set (pq_pl s (home s m q) q))"
  shows "interferes own {} n a s (put_on s m q l)"
proof -
  have p: "\<not> marker s m" "queue (pages s m) = 255" "wire_count (pages s m) = 0" "\<not> unmanaged m s" "reclaimable s m"
    using m by (simp_all add: movable_def)
  have r: "reclaimable (put_on s m q l) m"
    using p(5) fixedD [of "put_on s m q l" s] by (simp add: reclaimable_def put_on_simps split: option.splits)
  have "vm_wf n (put_on s m q l)" by (rule put_ok [OF scan_invD(2) [OF inv] p(1) q p(2-4) l])
  then have "vm_inv n a (put_on s m q l)"
    using obj_wf_same [OF scan_invD(3) [OF inv] obj_same_put_on [OF obj_same_refl]] by (simp add: vm_inv_def)
  then show ?thesis
    by (intro scan_inv_page [OF inv, where m = m]) (use l(2) r p(1) in \<open>auto simp: put_on_simps reclaimable_sound\<close>)
qed

lemma put_on_fields [simp]:
  "is_write_mapped (put_on s m q l) = is_write_mapped s" "is_write_mapped (taken_off s m) = is_write_mapped s"
  "is_write_mapped (upd_pg m f s) = is_write_mapped s"
  "memq (put_on s m q l) = memq s" "memq (taken_off s m) = memq s"
  by (simp_all add: put_on_def taken_off_def updaters Let_def)

text \<open>A page of the laundry goes in front of the marker of the inactive queue.\<close>

lemma leave_laundry_ok:
  assumes inv: "scan_inv n a s" and m: "\<not> marker s m"
  shows "\<exists>s'. leave_laundry m s = Inr s' \<and> interferes own {} n a s s' \<and> (\<forall>x. x \<noteq> m \<longrightarrow> pages s' x = pages s x) \<and>
    is_write_mapped s' = is_write_mapped s \<and> is_mapped s' = is_mapped s \<and> fixed s' = fixed s \<and> freed s' = freed s \<and>
    pages s' m = (pages s m)\<lparr>queue := if queue (pages s m) = PQ_LAUNDRY then PQ_INACTIVE else queue (pages s m)\<rparr>"
proof (cases "queue (pages s m) = 2")
  case False
  then show ?thesis using interferes_refl [OF inv] by (simp add: leave_laundry_def vm_page_in_laundry_def)
next
  case True
  then have q: "queue (pages s m) < 3" "queue (pages s m) \<noteq> 255" by simp_all
  have wm: "wire_count (pages s m) = 0" "\<not> unmanaged m s" using queued_free [OF scan_invD(2) [OF inv] m q(2)] .
  note off = loose_taken_off(1-3) [OF inv m q(1)]
  let ?t = "taken_off s m"
  have it: "scan_inv n a ?t" using interferes_inv(1) [OF off(2)] .
  have rq: "vm_page_remque m s = Inr ?t" by (rule dequeue_ok(3) [OF scan_invD(2) [OF inv] m q(1)])
  let ?d = "phys_domain s m"
  have h: "home ?t m 0 = ?d" by (simp add: home_def taken_off_simps)
  define l where "l = insert_before (vmd_inacthead s ?d) m (pq_pl ?t ?d 0)"
  have hd: "vmd_inacthead s ?d \<in> set (pq_pl ?t ?d 0)" using scan_list(2) [OF it, of 0 ?d] by (simp add: taken_off_simps)
  have nm: "m \<notin> set (pq_pl ?t ?d 0)"
    using queued_elem [OF scan_invD(2) [OF it], of m 0 ?d] m by (simp add: taken_off_simps)
  have l: "distinct l" "set l = insert m (set (pq_pl ?t (home ?t m 0) 0))"
    using insert_before_props [where y = "vmd_inacthead s ?d" and x = m and l = "pq_pl ?t ?d 0"] scan_list(1) [OF it, of 0 ?d] hd nm
    by (simp_all add: l_def h)
  have "leave_laundry m s = Inr (put_on ?t m 0 l)"
    using True wm rq hd
    by (simp add: leave_laundry_def vm_page_in_laundry_def vm_page_deactivate_noreuse_def vm_page_deactivate'_def Let_def
        put_on_def h taken_off_simps l_def)
  moreover have "interferes own {} n a s (put_on ?t m 0 l)"
    by (rule interferes_trans [OF off(2) put_movable [OF it off(3) _ l]]) simp
  ultimately show ?thesis using True by (simp add: put_on_simps taken_off_simps)
qed

subsection \<open>Writing pages\<close>

text \<open>The busy word of a page that is shared by so many threads, one of them the laundry thread.\<close>

definition shared_busy :: "'r vm \<Rightarrow> pg \<Rightarrow> bool" where
  "shared_busy s m \<longleftrightarrow> (\<exists>k w. busy_ok (Shared (Suc k) w) \<and> busy_lock (pages s m) = busy_word (Shared (Suc k) w))"

lemma sunbusy_shared:
  assumes "shared_busy s m"
  shows "\<exists>x. vm_page_sunbusy (busy_lock (pages s m)) = Inr x"
proof -
  obtain k w where b: "busy_ok (Shared (Suc k) w)" "busy_lock (pages s m) = busy_word (Shared (Suc k) w)"
    using assms by (auto simp only: shared_busy_def)
  have "busy_pre () Sunbusy (Shared (Suc k) w)" by simp
  from busy_exec_word [OF b(1) this] show ?thesis unfolding b(2) busy_exec.simps by blast
qed

text \<open>The step of one page leaves the others as they are.\<close>

definition page_step :: "pg \<Rightarrow> 'r vm \<Rightarrow> 'r vm \<Rightarrow> bool" where
  "page_step m s s' \<longleftrightarrow> (\<forall>x. x \<noteq> m \<longrightarrow> pages s' x = pages s x) \<and> is_write_mapped s' = is_write_mapped s \<and>
     is_mapped s' = is_mapped s \<and> fixed s' = fixed s"

lemma page_step_trans: "page_step m s t \<Longrightarrow> page_step m t u \<Longrightarrow> page_step m s u"
  by (simp add: page_step_def)

lemma page_step_simps [simp]:
  "page_step m s s" "page_step m s (upd_pg m f t) = page_step m s t" "page_step m s (vm_call c t) = page_step m s t"
  "page_step m s (put_on t m q l) = page_step m s t" "page_step m s (taken_off t m) = page_step m s t"
  by (simp_all add: page_step_def pages_call put_on_simps taken_off_simps) (simp add: vm_call_def)

lemma page_step_busy [simp]: "page_step m s (set_busy m x t) = page_step m s t"
  by (simp add: set_busy_def call_if_def)

lemma end_io_ok:
  assumes inv: "scan_inv n a s" and m: "\<not> marker s m" and b: "shared_busy s m"
  shows "\<exists>s'. end_io ob m s = Inr s' \<and> interferes own {} n a s s' \<and> page_step m s s'"
proof -
  obtain x where x: "vm_page_sunbusy (busy_lock (pages s m)) = Inr x"
    using sunbusy_shared [OF b] by blast
  let ?t = "vm_call (PipWakeup ob) s"
  let ?u = "upd_pg m (\<lambda>p. p\<lparr>busy_lock := fst x\<rparr>) ?t"
  have t: "interferes own {} n a s ?t" by (rule interferes_same_call [OF _ _ inv]) simp_all
  have it: "scan_inv n a ?t" "\<not> marker ?t m" using t m by (simp_all add: interferes_def)
  have u: "interferes own {} n a ?t ?u" by (rule interferes_bits(1) [OF it]) simp_all
  have "interferes own {} n a ?u (set_busy m x ?t)"
    using interferes_same_call [OF _ _ interferes_inv(1) [OF u], of "WakePage m"] interferes_refl [OF interferes_inv(1) [OF u]]
    by (simp add: set_busy_def call_if_def)
  then have "interferes own {} n a s (set_busy m x ?t)" using interferes_trans t u by blast
  then show ?thesis
    using x by (simp add: end_io_def Let_def pages_call)
qed

lemma flush_page_ok:
  assumes inv: "scan_inv n a s" and m: "\<not> marker s m" "reclaimable s m"
  shows "\<exists>s'. flush_page A st m s = Inr s' \<and> interferes own {} n a s s' \<and> page_step m s s' \<and>
    busy_lock (pages s' m) = busy_lock (pages s m)"
proof -
  have act: "\<exists>s'. vm_page_activate now m s = Inr s' \<and> interferes own {} n a s s' \<and> page_step m s s' \<and>
    busy_lock (pages s' m) = busy_lock (pages s m)" for now
  proof -
    let ?r = "upd_pg m raise_act s"
    have rf: "valid (raise_act p) = valid p" "dirty (raise_act p) = dirty p" "pindex (raise_act p) = pindex p"
      "busy_lock (raise_act p) = busy_lock p" for p by (simp_all add: raise_act_def)
    have r: "interferes own {} n a s ?r" "reclaimable ?r m"
      by (rule interferes_bits [OF inv m(1)]; (rule m(2))?; simp add: rf)+
    have ir: "scan_inv n a ?r" "\<not> marker ?r m" using r(1) m(1) by (simp_all add: interferes_def)
    note wf = scan_invD(2) [OF inv]
    show ?thesis
    proof (cases "queue (pages s m) \<noteq> 1 \<and> wire_count (pages s m) = 0 \<and> \<not> unmanaged m s")
      case False
      then have "queue (pages s m) = 1 \<or> queue (pages s m) = 255 \<and> (wire_count (pages s m) = 0 \<longrightarrow> unmanaged m s)"
        using queued_free [OF wf m(1)] by blast
      then show ?thesis using r(1) interferes_refl [OF inv] by (auto simp: vm_page_activate_def rf)
    next
      case True
      define u where "u = (if queue (pages s m) = 255 then ?r else taken_off ?r m)"
      have q: "queue (pages s m) < 3 \<or> queue (pages s m) = 255" using queue_cases [OF wf m(1)] by blast
      have u: "vm_page_remque m ?r = Inr u" "interferes own {} n a ?r u" "movable u m" "page_step m s u"
        "busy_lock (pages u m) = busy_lock (pages s m)"
      proof -
        have "vm_page_remque m ?r = Inr u \<and> interferes own {} n a ?r u \<and> movable u m"
        proof (cases "queue (pages s m) = 255")
          case off: True
          have "\<not> fictitious ?r m" using vm_wfD(1) [OF wf m(1)] True by (simp add: page_ok_def fictitious_def)
          then show ?thesis
            using off True ir r(2) interferes_refl [OF ir(1)]
            by (simp add: u_def vm_page_remque_def movable_def unmanaged_def)
        next
          case on: False
          then have "queue (pages ?r m) < 3" using q by simp
          then show ?thesis
            using on loose_taken_off(2,3) [OF ir] dequeue_ok(3) [OF scan_invD(2) [OF ir(1)] ir(2)] by (simp add: u_def)
        qed
        then show "vm_page_remque m ?r = Inr u" "interferes own {} n a ?r u" "movable u m" by blast+
        show "page_step m s u" "busy_lock (pages u m) = busy_lock (pages s m)"
          by (simp_all add: u_def taken_off_simps rf)
      qed
      let ?v = "upd_pg m (\<lambda>p. p\<lparr>timestamp_sec := fst now, timestamp_nsec := snd now\<rparr>) u"
      have iu: "scan_inv n a u" "\<not> marker u m" using u(2) ir by (simp_all add: interferes_def)
      have v: "interferes own {} n a u ?v" "reclaimable u m \<Longrightarrow> reclaimable ?v m"
        by (rule interferes_bits [OF iu]; simp)+
      have mv: "movable ?v m" using u(3) v(2) by (simp add: movable_def marker_def fictitious_def unmanaged_def)
      note p = put_loose [OF interferes_inv(1) [OF v(1)] mv, of 1, simplified]
      let ?w = "put_on ?v m 1 (pq_pl ?v (home ?v m 1) 1 @ [m])"
      have "vm_page_activate now m s = Inr ?w" using True u(1) p(1) by (simp add: vm_page_activate_def)
      moreover have "interferes own {} n a s ?w" using r(1) u(2) v(1) p(2) interferes_trans by simp blast
      ultimately show ?thesis using u by (simp add: put_on_simps)
    qed
  qed
  have bad: "\<exists>s'. leave_laundry m (upd_pg m vm_page_undirty s) = Inr s' \<and> interferes own {} n a s s' \<and>
    page_step m s s' \<and> busy_lock (pages s' m) = busy_lock (pages s m)"
  proof -
    let ?t = "upd_pg m vm_page_undirty s"
    have t: "interferes own {} n a s ?t" by (rule interferes_bits(1) [OF inv m(1)]) (simp_all add: vm_page_undirty_def)
    have "scan_inv n a ?t" "\<not> marker ?t m" using t m(1) by (simp_all add: interferes_def)
    from leave_laundry_ok [OF this, of own] show ?thesis using interferes_trans [OF t] by (auto simp: vm_page_undirty_def page_step_def)
  qed
  show ?thesis
    using act bad leave_laundry_ok [OF inv m(1), of own] interferes_refl [OF inv]
    by (cases st) (auto simp: flush_page_def page_step_def)
qed

text \<open>What is asked of the pager: the pages that it has finished are still pages of the object, shared by
  the laundry thread and not mapped for writing.\<close>

fun paged_ok :: "(nat \<Rightarrow> pager_status) \<Rightarrow> nat \<Rightarrow> pg list \<Rightarrow> 'r vm \<Rightarrow> bool" where
  "paged_ok st i [] s \<longleftrightarrow> True"
| "paged_ok st i (m # mc) s \<longleftrightarrow>
     (st i \<noteq> VM_PAGER_PEND \<longrightarrow> \<not> marker s m \<and> reclaimable s m \<and> shared_busy s m \<and> \<not> is_write_mapped s m) \<and>
     paged_ok st (i + 1) mc s"

lemma paged_ok_step: "page_step m s s' \<Longrightarrow> m \<notin> set mc \<Longrightarrow> paged_ok st i mc s \<Longrightarrow> paged_ok st i mc s'"
proof (induction mc arbitrary: i)
  case (Cons x mc)
  have x: "pages s' x = pages s x" "is_write_mapped s' = is_write_mapped s" "is_mapped s' = is_mapped s" "fixed s' = fixed s"
    using Cons.prems(1,2) by (simp_all add: page_step_def)
  have "reclaimable s' x = reclaimable s x" by (rule reclaimable_cong) (use x fixedD [OF x(4)] in simp_all)
  then show ?case using Cons x by (simp add: marker_def shared_busy_def)
qed simp


text \<open>The outcome of a flush, read off the statuses: the pages laundered, the pages before the first that
  has to be tried again, and whether one of these failed.\<close>

fun flush_result :: "(nat \<Rightarrow> pager_status) \<Rightarrow> int \<Rightarrow> nat \<Rightarrow> nat \<Rightarrow> int \<times> int \<times> bool \<Rightarrow> int \<times> int \<times> bool" where
  "flush_result st mreq i 0 r = r"
| "flush_result st mreq i (Suc k) (num, runlen, eio) =
     flush_result st mreq (i + 1) k
       (if st i = VM_PAGER_OK \<or> st i = VM_PAGER_PEND then num + 1 else num,
        if st i = VM_PAGER_AGAIN \<and> int i \<ge> mreq \<and> int i - mreq < runlen then int i - mreq else runlen,
        eio \<or> (st i = VM_PAGER_ERROR \<or> st i = VM_PAGER_FAIL) \<and> int i \<ge> mreq \<and> int i - mreq < runlen)"

lemma flush_loop_ok:
  assumes "scan_inv n a s" "distinct mc" "paged_ok st i mc s"
  shows "\<exists>s'. flush_loop A ob st mreq i mc r s = Inr (s', flush_result st mreq i (length mc) r) \<and> interferes own {} n a s s'"
  using assms
proof (induction mc arbitrary: s i r)
  case Nil
  then show ?case by (simp add: interferes_refl)
next
  case (Cons m mc)
  obtain num runlen eio where r: "r = (num, runlen, eio)" by (cases r)
  have m: "st i \<noteq> VM_PAGER_PEND \<longrightarrow> \<not> marker s m \<and> reclaimable s m \<and> shared_busy s m \<and> \<not> is_write_mapped s m"
    "paged_ok st (i + 1) mc s" "m \<notin> set mc" "distinct mc" using Cons.prems by simp_all
  obtain t u where t: "flush_page A (st i) m s = Inr t" "interferes own {} n a s t" "page_step m s t"
    and u: "(if st i \<noteq> VM_PAGER_PEND then end_io ob m t else Inr t) = Inr u" "interferes own {} n a t u" "page_step m t u"
  proof (cases "st i = VM_PAGER_PEND")
    case True
    then show thesis using that [of s s] interferes_refl [OF Cons.prems(1)] by (simp add: page_step_def flush_page_def)
  next
    case False
    then have m': "\<not> marker s m" "reclaimable s m" "shared_busy s m" using m(1) by simp_all
    obtain t where t: "flush_page A (st i) m s = Inr t" "interferes own {} n a s t" "page_step m s t"
      "busy_lock (pages t m) = busy_lock (pages s m)"
      using flush_page_ok [OF Cons.prems(1) m'(1,2), of A "st i"] by blast
    have "scan_inv n a t" "\<not> marker t m" "shared_busy t m" using t m' by (simp_all add: interferes_def shared_busy_def)
    from end_io_ok [OF this, of ob own] show thesis using that t False by auto
  qed
  have iu: "scan_inv n a u" using interferes_inv(1) [OF u(2)] .
  have "paged_ok st (i + 1) mc u" by (rule paged_ok_step [OF page_step_trans [OF t(3) u(3)] m(3,2)])
  note IH = Cons.IH [OF iu m(4) this]
  let ?r = "(if st i = VM_PAGER_OK \<or> st i = VM_PAGER_PEND then num + 1 else num,
        if st i = VM_PAGER_AGAIN \<and> int i \<ge> mreq \<and> int i - mreq < runlen then int i - mreq else runlen,
        eio \<or> (st i = VM_PAGER_ERROR \<or> st i = VM_PAGER_FAIL) \<and> int i \<ge> mreq \<and> int i - mreq < runlen)"
  obtain s' where s': "flush_loop A ob st mreq (i + 1) mc ?r u = Inr (s', flush_result st mreq (i + 1) (length mc) ?r)"
    "interferes own {} n a u s'" using IH by blast
  have k: "kassert (st i = VM_PAGER_PEND \<or> \<not> is_write_mapped s m) e = Inr ()" for e
    using m(1) by (auto simp: kassert_def)
  have "flush_loop A ob st mreq i (m # mc) r s = flush_loop A ob st mreq (i + 1) mc ?r u"
    unfolding r flush_loop.simps by (simp only: k rbind_simps t(1) u(1) Let_def conj_assoc)
  then have "flush_loop A ob st mreq i (m # mc) r s = Inr (s', flush_result st mreq i (length (m # mc)) r)"
    unfolding s'(1) r length_Cons flush_result.simps .
  moreover have "interferes own {} n a s s'" using t(2) u(2) s'(2) interferes_trans by blast
  ultimately show ?case by blast
qed

text \<open>A page as the cluster hands it to the pager.\<close>

definition flushable :: "'r vm \<Rightarrow> pg \<Rightarrow> bool" where
  "flushable s m \<longleftrightarrow> \<not> marker s m \<and> reclaimable s m \<and> valid (pages s m) = VM_PAGE_BITS_ALL \<and>
     aflags (pages s m) AND PGA_WRITEABLE = 0 \<and> \<not> vm_page_busied (busy_lock (pages s m)) \<and> \<not> is_write_mapped s m"

lemma trysbusy_unbusied:
  assumes "\<not> vm_page_busied w"
  shows "vm_page_trysbusy w = (busy_word (Shared 1 False), True)" "busy_ok (Shared 1 False)"
proof -
  have "w = VPB_UNBUSIED" using assms by (simp add: vm_page_busied_def)
  then show "vm_page_trysbusy w = (busy_word (Shared 1 False), True)" by (simp only:) code_simp
  show "busy_ok (Shared 1 False)" by simp
qed

lemma flush_start_ok:
  assumes "scan_inv n a s" "distinct mc" "\<forall>m\<in>set mc. flushable s m"
  shows "\<exists>s'. flush_start mc s = Inr s' \<and> interferes own {} n a s s' \<and> is_write_mapped s' = is_write_mapped s \<and>
    is_mapped s' = is_mapped s \<and> fixed s' = fixed s \<and> (\<forall>x. x \<notin> set mc \<longrightarrow> pages s' x = pages s x) \<and>
    (\<forall>x\<in>set mc. pages s' x = (pages s x)\<lparr>busy_lock := busy_word (Shared 1 False)\<rparr>)"
  using assms
proof (induction mc arbitrary: s)
  case Nil
  then show ?case by (simp add: interferes_refl)
next
  case (Cons m mc)
  define w where "w = busy_word (Shared 1 False)"
  let ?t = "upd_pg m (\<lambda>p. p\<lparr>busy_lock := w\<rparr>) s"
  have m: "flushable s m" "m \<notin> set mc" "distinct mc" using Cons.prems(2,3) by simp_all
  have nb: "\<not> vm_page_busied (busy_lock (pages s m))" "\<not> marker s m" using m(1) by (simp_all add: flushable_def)
  have t: "interferes own {} n a s ?t" by (rule interferes_bits(1) [OF Cons.prems(1) nb(2)]) simp_all
  have it: "scan_inv n a ?t" by (rule interferes_inv(1) [OF t])
  have "flushable ?t x" if "x \<in> set mc" for x
  proof -
    have x: "flushable s x" "x \<noteq> m" using Cons.prems(3) that m(2) by auto
    have "reclaimable ?t x = reclaimable s x"
      by (rule reclaimable_cong) (use x(2) fixedD [of ?t s] in simp_all)
    then show ?thesis using x by (simp add: flushable_def marker_def)
  qed
  then obtain s' where s': "flush_start mc ?t = Inr s'" "interferes own {} n a ?t s'" "is_write_mapped s' = is_write_mapped ?t"
    "is_mapped s' = is_mapped ?t" "fixed s' = fixed ?t" "\<forall>x. x \<notin> set mc \<longrightarrow> pages s' x = pages ?t x"
    "\<forall>x\<in>set mc. pages s' x = (pages ?t x)\<lparr>busy_lock := w\<rparr>"
    using Cons.IH [OF it m(3)] unfolding w_def by blast
  have "flush_start (m # mc) s = Inr s'"
    using m(1) s'(1) trysbusy_unbusied(1) [OF nb(1)] by (simp add: flushable_def w_def)
  then show ?case unfolding w_def [symmetric] using s' m(2) interferes_trans [OF t s'(2)] by simp
qed

text \<open>What is asked of the pager: it keeps the invariants, and the pages that it has finished are still
  pages of the object, shared by the laundry thread and not mapped for writing. Nothing is asked of pages
  whose status is VM_PAGER_PEND.\<close>

definition given :: "pg list \<Rightarrow> 'r vm \<Rightarrow> bool" where
  "given mc s \<longleftrightarrow> distinct mc \<and> (\<forall>m\<in>set mc. \<not> marker s m \<and> reclaimable s m \<and> shared_busy s m \<and> \<not> is_write_mapped s m)"

definition good_pager :: "pg set \<Rightarrow> nat \<Rightarrow> ('r \<Rightarrow> u_long \<Rightarrow> pg option) \<Rightarrow> 'r launder_env \<Rightarrow> bool" where
  "good_pager own n a A \<longleftrightarrow> (\<forall>k mc s. scan_inv n a s \<longrightarrow> given mc s \<longrightarrow>
     (case put_pages A k mc s of (s', st) \<Rightarrow> interferes own {} n a s s' \<and> paged_ok st 0 mc s'))"

lemma flushable_given:
  assumes f: "flushable s x" and p: "pages u x = (pages s x)\<lparr>busy_lock := busy_word (Shared 1 False)\<rparr>"
    and u: "is_mapped u = is_mapped s" "is_write_mapped u = is_write_mapped s" "fixed u = fixed s"
  shows "\<not> marker u x \<and> reclaimable u x \<and> shared_busy u x \<and> \<not> is_write_mapped u x"
proof -
  define w where "w = busy_word (Shared 1 False)"
  have sb: "shared_busy u x"
    unfolding shared_busy_def p by (rule exI [of _ 0], rule exI [of _ False]) simp
  have p': "pages u x = (pages s x)\<lparr>busy_lock := w\<rparr>" using p by (simp only: w_def)
  have "reclaimable u x"
    using f fixedD [OF u(3)] u(1) by (auto simp: flushable_def reclaimable_def p' split: option.splits)
  then show ?thesis using sb f u(2) by (simp add: flushable_def marker_def p')
qed

text \<open>What the pager answers for pages that have been shared busied.\<close>

definition statuses :: "'r launder_env \<Rightarrow> nat \<Rightarrow> obj \<Rightarrow> pg list \<Rightarrow> 'r vm \<Rightarrow> nat \<Rightarrow> pager_status" where
  "statuses A k ob mc t = snd (put_pages A k mc (vm_call (PutPages mc) (vm_call (PipAdd ob (length mc)) t)))"

lemma flush_ok:
  assumes G: "good_pager own n a A" and inv: "scan_inv n a s" and mc: "mc \<noteq> []" "distinct mc" "\<forall>m\<in>set mc. flushable s m"
    and ob: "pg_object (pages s (hd mc)) = Some ob"
  shows "\<exists>t s'. flush_start mc s = Inr t \<and> vm_pageout_flush A k mc mreq s =
      Inr (s', flush_result (statuses A k ob mc t) mreq 0 (length mc) (0, int (length mc) - mreq, False)) \<and> interferes own {} n a s s'"
proof -
  obtain m l where ml: "mc = m # l" using mc(1) by (cases mc) simp_all
  have ob: "pg_object (pages s m) = Some ob" using ob by (simp add: ml)
  obtain t where t: "flush_start mc s = Inr t" "interferes own {} n a s t" "is_write_mapped t = is_write_mapped s"
    "is_mapped t = is_mapped s" "fixed t = fixed s"
    "\<forall>x\<in>set mc. pages t x = (pages s x)\<lparr>busy_lock := busy_word (Shared 1 False)\<rparr>"
    using flush_start_ok [OF inv mc(2,3)] by blast
  define u0 where "u0 = vm_call (PipAdd ob (length mc)) t"
  define u where "u = vm_call (PutPages mc) u0"
  have u0: "interferes own {} n a t u0"
    unfolding u0_def by (rule interferes_same_call [OF _ _ interferes_inv(1) [OF t(2)]]) simp_all
  have "interferes own {} n a u0 u"
    unfolding u_def by (rule interferes_same_call [OF _ _ interferes_inv(1) [OF u0]]) simp_all
  then have u: "interferes own {} n a s u" using t(2) u0 interferes_trans by blast
  have same: "pages u = pages t" "is_mapped u = is_mapped s" "is_write_mapped u = is_write_mapped s" "fixed u = fixed s"
    using t(3-5) by (simp_all add: u_def u0_def pages_call) (simp add: vm_call_def)
  have g: "given mc u"
    unfolding given_def
  proof (intro conjI ballI mc(2))
    fix x assume x: "x \<in> set mc"
    have "pages u x = (pages s x)\<lparr>busy_lock := busy_word (Shared 1 False)\<rparr>" using t(6) x same(1) by simp
    from flushable_given [OF _ this same(2-4)] mc(3) x
    show "\<not> marker u x" "reclaimable u x" "shared_busy u x" "\<not> is_write_mapped u x" by blast+
  qed
  obtain v st where v: "put_pages A k mc u = (v, st)" by (cases "put_pages A k mc u")
  have "case put_pages A k mc u of (s', st) \<Rightarrow> interferes own {} n a u s' \<and> paged_ok st 0 mc s'"
    using G [unfolded good_pager_def, THEN spec, THEN spec, THEN spec, of u mc k] interferes_inv(1) [OF u] g by simp
  then have gv: "interferes own {} n a u v" "paged_ok st 0 mc v" by (simp_all add: v)
  obtain w where w: "flush_loop A ob st mreq 0 mc (0, int (length mc) - mreq, False) v =
      Inr (w, flush_result st mreq 0 (length mc) (0, int (length mc) - mreq, False))" "interferes own {} n a v w"
    using flush_loop_ok [OF interferes_inv(1) [OF gv(1)] mc(2) gv(2)] by blast
  have "vm_pageout_flush A k mc mreq s =
      (case put_pages A k mc u of (s, st) \<Rightarrow> flush_loop A ob st mreq 0 mc (0, int (length mc) - mreq, False) s)"
    unfolding vm_pageout_flush_def ml list.case ob option.case t(1) [unfolded ml] rbind_simps Let_def u_def u0_def ..
  then have "vm_pageout_flush A k mc mreq s = Inr (w, flush_result st mreq 0 (length mc) (0, int (length mc) - mreq, False))"
    unfolding v prod.case w(1) .
  moreover have "st = statuses A k ob mc t" using v by (simp add: statuses_def u_def u0_def)
  moreover have "interferes own {} n a s w" using u gv(1) w(2) interferes_trans by blast
  ultimately show ?thesis using t(1) by blast
qed

text \<open>The outcome in the words of the comment in front of the function: runlen counts the pages between
  mreq and the first page behind it that has to be tried again, and eio tells whether one of these failed.\<close>

definition flush_reads :: "(nat \<Rightarrow> pager_status) \<Rightarrow> int \<Rightarrow> nat \<Rightarrow> nat \<Rightarrow> int \<times> int \<times> bool \<Rightarrow> bool" where
  "flush_reads st mreq n i r \<longleftrightarrow> (case r of (num, runlen, eio) \<Rightarrow>
     num = int (length (filter (\<lambda>j. st j = VM_PAGER_OK \<or> st j = VM_PAGER_PEND) [0..<i])) \<and>
     0 \<le> runlen \<and> runlen \<le> int n - mreq \<and>
     (\<forall>j<i. mreq \<le> int j \<and> int j < mreq + runlen \<longrightarrow> st j \<noteq> VM_PAGER_AGAIN) \<and>
     (runlen < int n - mreq \<longrightarrow> mreq + runlen < int i \<and> st (nat (mreq + runlen)) = VM_PAGER_AGAIN) \<and>
     (eio \<longleftrightarrow> (\<exists>j<i. mreq \<le> int j \<and> int j < mreq + runlen \<and> (st j = VM_PAGER_ERROR \<or> st j = VM_PAGER_FAIL))))"

lemma flush_result_reads:
  assumes "0 \<le> mreq" "flush_reads st mreq (i + k) i r"
  shows "flush_reads st mreq (i + k) (i + k) (flush_result st mreq i k r)"
  using assms
proof (induction k arbitrary: i r)
  case (Suc k)
  obtain num runlen eio where r: "r = (num, runlen, eio)" by (cases r)
  let ?r = "(if st i = VM_PAGER_OK \<or> st i = VM_PAGER_PEND then num + 1 else num,
        if st i = VM_PAGER_AGAIN \<and> int i \<ge> mreq \<and> int i - mreq < runlen then int i - mreq else runlen,
        eio \<or> (st i = VM_PAGER_ERROR \<or> st i = VM_PAGER_FAIL) \<and> int i \<ge> mreq \<and> int i - mreq < runlen)"
  have *: "num = int (length (filter (\<lambda>j. st j = VM_PAGER_OK \<or> st j = VM_PAGER_PEND) [0..<i]))"
    "0 \<le> runlen" "runlen \<le> int (i + Suc k) - mreq"
    "\<forall>j<i. mreq \<le> int j \<and> int j < mreq + runlen \<longrightarrow> st j \<noteq> VM_PAGER_AGAIN"
    "runlen < int (i + Suc k) - mreq \<longrightarrow> mreq + runlen < int i \<and> st (nat (mreq + runlen)) = VM_PAGER_AGAIN"
    "eio \<longleftrightarrow> (\<exists>j<i. mreq \<le> int j \<and> int j < mreq + runlen \<and> (st j = VM_PAGER_ERROR \<or> st j = VM_PAGER_FAIL))"
    using Suc.prems(2) by (simp_all add: flush_reads_def r del: of_nat_add)
  have "flush_reads st mreq (i + Suc k) (Suc i) ?r"
  proof (cases "st i = VM_PAGER_AGAIN \<and> mreq \<le> int i \<and> int i - mreq < runlen")
    case True
    then have "runlen = int (i + Suc k) - mreq" using *(3,5) by linarith
    then show ?thesis
      using * True by (auto simp: flush_reads_def less_Suc_eq)
  next
    case False
    then show ?thesis
      using * by (auto simp: flush_reads_def less_Suc_eq)
  qed
  then show ?case using Suc.IH [OF Suc.prems(1), of "Suc i" ?r] by (simp add: r)
qed simp

lemma flush_result_ok:
  assumes "0 \<le> mreq" "mreq \<le> int n"
  shows "flush_reads st mreq n n (flush_result st mreq 0 n (0, int n - mreq, False))"
  using flush_result_reads [OF assms(1), of st 0 n] assms(2) by (simp add: flush_reads_def)

subsection \<open>Clusters\<close>

text \<open>The pages of an object by index; word arithmetic at the two ends of the index range does not get
  in the way.\<close>

definition slot :: "('r \<Rightarrow> u_long \<Rightarrow> pg option) \<Rightarrow> 'r vm \<Rightarrow> obj \<Rightarrow> int \<Rightarrow> pg option" where
  "slot a s ob i = (if 0 \<le> i \<and> i < 2 ^ 64 then a (rtree s ob) (of_int i) else None)"

lemma slot_iff:
  assumes "obj_wf a s"
  shows "slot a s ob i = Some p \<longleftrightarrow> pg_object (pages s p) = Some ob \<and> uint (pindex (pages s p)) = i"
proof (cases "0 \<le> i \<and> i < 2 ^ 64")
  case True
  then have "pindex (pages s p) = of_int i \<longleftrightarrow> uint (pindex (pages s p)) = i"
    by (auto simp: uint_word_of_int take_bit_int_eq_self)
  then show ?thesis using True by (simp add: slot_def trie_iff [OF assms])
next
  case False
  then have "uint (pindex (pages s p)) \<noteq> i" using uint_bounded [of "pindex (pages s p)"] by auto
  then show ?thesis using False by (auto simp: slot_def)
qed

lemma slot_word: "slot a s ob (uint k) = a (rtree s ob) k"
  using uint_bounded [of k] by (simp add: slot_def)

lemma next_slot:
  assumes wf: "obj_wf a s" and m: "pg_object (pages s m) = Some ob"
  shows "vm_page_next m s = Inr (slot a s ob (uint (pindex (pages s m)) + 1))"
proof -
  let ?k = "pindex (pages s m)"
  have "slot a s ob (uint ?k + 1) = (if ?k = - 1 then None else a (rtree s ob) (?k + 1))"
  proof (cases "?k = - 1")
    case True
    have "uint (- 1 :: 64 word) = 2 ^ 64 - 1" by (simp add: unsigned_minus_1_eq_mask mask_eq_exp_minus_1)
    then show ?thesis unfolding True by (simp add: slot_def)
  next
    case False
    then have "uint ?k \<noteq> uint (- 1 :: 64 word)" by (simp only: word_uint_eq_iff [symmetric] not_False_eq_True)
    then have "uint ?k + 1 < 2 ^ 64" using uint_bounded [of ?k] by (simp add: unsigned_minus_1_eq_mask mask_eq_exp_minus_1)
    then have "uint (?k + 1) = uint ?k + 1" by (simp add: uint_word_ariths(1))
    then show ?thesis using slot_word [of a s ob "?k + 1"] False by simp
  qed
  then show ?thesis using next_ok [OF wf m] by simp
qed

lemma prev_slot:
  assumes wf: "obj_wf a s" and m: "pg_object (pages s m) = Some ob"
  shows "vm_page_prev m s = Inr (slot a s ob (uint (pindex (pages s m)) - 1))"
proof -
  let ?k = "pindex (pages s m)"
  have "slot a s ob (uint ?k - 1) = (if ?k = 0 then None else a (rtree s ob) (?k - 1))"
  proof (cases "?k = 0")
    case True
    then show ?thesis by (simp add: slot_def)
  next
    case False
    then have "uint ?k \<noteq> 0" by (simp add: uint_0_iff)
    then have "0 < uint ?k" using uint_ge_0 [of ?k] by linarith
    then have "uint (?k - 1) = uint ?k - 1" using uint_bounded [of ?k] by (simp add: uint_word_ariths(2))
    then show ?thesis using slot_word [of a s ob "?k - 1"] False by simp
  qed
  then show ?thesis using prev_ok [OF wf m] by simp
qed

text \<open>What happens to the pages while a cluster is gathered: dirty bits and the permission to write.\<close>

definition only_bits :: "'r vm \<Rightarrow> 'r vm \<Rightarrow> bool" where
  "only_bits s t \<longleftrightarrow> fixed t = fixed s \<and> pq_pl t = pq_pl s \<and> memq t = memq s \<and> rtree t = rtree s \<and> is_mapped t = is_mapped s \<and>
     (\<forall>x. (is_write_mapped t x \<longrightarrow> is_write_mapped s x) \<and>
       (\<exists>d f. pages t x = (pages s x)\<lparr>dirty := d, aflags := f\<rparr> \<and> (dirty (pages s x) \<noteq> 0 \<longrightarrow> d \<noteq> 0) \<and>
         (d \<noteq> 0 \<longrightarrow> dirty (pages s x) \<noteq> 0 \<or> is_modified s x) \<and>
         (aflags (pages s x) AND PGA_WRITEABLE = 0 \<longrightarrow> f AND PGA_WRITEABLE = 0)))"

lemma only_bits_refl [simp]: "only_bits s s"
proof -
  have "pages s x = (pages s x)\<lparr>dirty := dirty (pages s x), aflags := aflags (pages s x)\<rparr>" for x by simp
  then show ?thesis unfolding only_bits_def by blast
qed

lemma only_bitsD:
  assumes "only_bits s t"
  shows "fixed t = fixed s" "pq_pl t = pq_pl s" "memq t = memq s" "rtree t = rtree s" "is_mapped t = is_mapped s"
    "is_write_mapped t x \<Longrightarrow> is_write_mapped s x"
    "pg_object (pages t x) = pg_object (pages s x)" "pindex (pages t x) = pindex (pages s x)"
    "busy_lock (pages t x) = busy_lock (pages s x)" "hold_count (pages t x) = hold_count (pages s x)"
    "pg_flags (pages t x) = pg_flags (pages s x)" "queue (pages t x) = queue (pages s x)" "valid (pages t x) = valid (pages s x)"
    "dirty (pages s x) \<noteq> 0 \<Longrightarrow> dirty (pages t x) \<noteq> 0"
    "dirty (pages t x) \<noteq> 0 \<Longrightarrow> dirty (pages s x) \<noteq> 0 \<or> is_modified s x"
    "aflags (pages s x) AND PGA_WRITEABLE = 0 \<Longrightarrow> aflags (pages t x) AND PGA_WRITEABLE = 0"
proof -
  obtain d f where x: "pages t x = (pages s x)\<lparr>dirty := d, aflags := f\<rparr>" "dirty (pages s x) \<noteq> 0 \<longrightarrow> d \<noteq> 0"
    "d \<noteq> 0 \<longrightarrow> dirty (pages s x) \<noteq> 0 \<or> is_modified s x" "aflags (pages s x) AND PGA_WRITEABLE = 0 \<longrightarrow> f AND PGA_WRITEABLE = 0"
    using assms unfolding only_bits_def by blast
  show "fixed t = fixed s" "pq_pl t = pq_pl s" "memq t = memq s" "rtree t = rtree s" "is_mapped t = is_mapped s"
    "is_write_mapped t x \<Longrightarrow> is_write_mapped s x" using assms unfolding only_bits_def by blast+
  show "pg_object (pages t x) = pg_object (pages s x)" "pindex (pages t x) = pindex (pages s x)"
    "busy_lock (pages t x) = busy_lock (pages s x)" "hold_count (pages t x) = hold_count (pages s x)"
    "pg_flags (pages t x) = pg_flags (pages s x)" "queue (pages t x) = queue (pages s x)" "valid (pages t x) = valid (pages s x)"
    "dirty (pages s x) \<noteq> 0 \<Longrightarrow> dirty (pages t x) \<noteq> 0"
    "dirty (pages t x) \<noteq> 0 \<Longrightarrow> dirty (pages s x) \<noteq> 0 \<or> is_modified s x"
    "aflags (pages s x) AND PGA_WRITEABLE = 0 \<Longrightarrow> aflags (pages t x) AND PGA_WRITEABLE = 0"
    using x(2-4) by (simp_all add: x(1))
qed

lemma only_bits_page:
  assumes "pages t = (pages s)(m := (pages s m)\<lparr>dirty := d, aflags := f\<rparr>)" "fixed t = fixed s" "pq_pl t = pq_pl s" "memq t = memq s"
    "rtree t = rtree s" "is_mapped t = is_mapped s" "\<And>x. is_write_mapped t x \<Longrightarrow> is_write_mapped s x"
    "dirty (pages s m) \<noteq> 0 \<Longrightarrow> d \<noteq> 0" "d \<noteq> 0 \<Longrightarrow> dirty (pages s m) \<noteq> 0 \<or> is_modified s m"
    "aflags (pages s m) AND PGA_WRITEABLE = 0 \<Longrightarrow> f AND PGA_WRITEABLE = 0"
  shows "only_bits s t"
proof -
  have "\<exists>d f. pages t x = (pages s x)\<lparr>dirty := d, aflags := f\<rparr> \<and> (dirty (pages s x) \<noteq> 0 \<longrightarrow> d \<noteq> 0) \<and>
         (d \<noteq> 0 \<longrightarrow> dirty (pages s x) \<noteq> 0 \<or> is_modified s x) \<and>
         (aflags (pages s x) AND PGA_WRITEABLE = 0 \<longrightarrow> f AND PGA_WRITEABLE = 0)" for x
  proof (cases "x = m")
    case True
    then show ?thesis using assms(1,8-10) by (intro exI [of _ d] exI [of _ f]) simp
  next
    case False
    have "pages s x = (pages s x)\<lparr>dirty := dirty (pages s x), aflags := aflags (pages s x)\<rparr>" by simp
    moreover have "pages t x = pages s x" using assms(1) False by simp
    ultimately show ?thesis by (intro exI [of _ "dirty (pages s x)"] exI [of _ "aflags (pages s x)"]) simp
  qed
  then show ?thesis unfolding only_bits_def using assms(2-7) by blast
qed

lemma only_bits_trans:
  assumes st: "only_bits s t" and tu: "only_bits t u"
  shows "only_bits s u"
proof -
  have im: "is_modified t = is_modified s" by (rule fixedD(5) [OF only_bitsD(1) [OF st]])
  have "\<exists>d f. pages u x = (pages s x)\<lparr>dirty := d, aflags := f\<rparr> \<and> (dirty (pages s x) \<noteq> 0 \<longrightarrow> d \<noteq> 0) \<and>
         (d \<noteq> 0 \<longrightarrow> dirty (pages s x) \<noteq> 0 \<or> is_modified s x) \<and>
         (aflags (pages s x) AND PGA_WRITEABLE = 0 \<longrightarrow> f AND PGA_WRITEABLE = 0)" for x
  proof -
    obtain d f where t: "pages t x = (pages s x)\<lparr>dirty := d, aflags := f\<rparr>" using st unfolding only_bits_def by blast
    obtain e g where u: "pages u x = (pages t x)\<lparr>dirty := e, aflags := g\<rparr>" using tu unfolding only_bits_def by blast
    have "pages u x = (pages s x)\<lparr>dirty := e, aflags := g\<rparr>" by (simp add: u t)
    then show ?thesis
      using only_bitsD(14-16) [OF st, of x] only_bitsD(14-16) [OF tu, of x] im u
      by (intro exI [of _ e] exI [of _ g]) auto
  qed
  moreover have "is_write_mapped u x \<Longrightarrow> is_write_mapped s x" for x
    using only_bitsD(6) [OF st] only_bitsD(6) [OF tu] by blast
  ultimately show ?thesis
    using only_bitsD(1-5) [OF st] only_bitsD(1-5) [OF tu] unfolding only_bits_def by simp
qed

text \<open>A page that may join a cluster, and one that is in it.\<close>

definition fits :: "'r vm \<Rightarrow> pg \<Rightarrow> bool" where
  "fits s p \<longleftrightarrow> \<not> vm_page_busied (busy_lock (pages s p)) \<and> (dirty (pages s p) \<noteq> 0 \<or> is_modified s p) \<and>
     queue (pages s p) = PQ_LAUNDRY \<and> hold_count (pages s p) = 0"

definition ready :: "'r vm \<Rightarrow> pg \<Rightarrow> bool" where
  "ready s p \<longleftrightarrow> flushable s p \<and> queue (pages s p) = PQ_LAUNDRY \<and> dirty (pages s p) \<noteq> 0 \<and> hold_count (pages s p) = 0"

definition joins :: "('r \<Rightarrow> u_long \<Rightarrow> pg option) \<Rightarrow> 'r vm \<Rightarrow> obj \<Rightarrow> int \<Rightarrow> bool" where
  "joins a s ob i \<longleftrightarrow> (case slot a s ob i of None \<Rightarrow> False | Some p \<Rightarrow> fits s p)"

lemma only_bits_fits:
  assumes "only_bits s t"
  shows "fits t p = fits s p"
proof -
  have "is_modified t = is_modified s" by (rule fixedD(5) [OF only_bitsD(1) [OF assms]])
  then show ?thesis using only_bitsD(7-16) [OF assms, of p] by (auto simp: fits_def)
qed

lemma only_bits_slot: "only_bits s t \<Longrightarrow> slot a t ob i = slot a s ob i"
  by (simp add: slot_def only_bitsD(4))

lemma only_bits_ready:
  assumes b: "only_bits s t" and inv: "scan_inv n a t" and r: "ready s p"
  shows "ready t p"
proof -
  have m: "\<not> marker t p" using r only_bitsD(11) [OF b, of p] by (simp add: ready_def flushable_def marker_def)
  have q: "queue (pages t p) = 2" using r only_bitsD(12) [OF b, of p] by (simp add: ready_def)
  have "reclaimable t p" using scan_invD(6) [OF inv m] q by simp
  then show ?thesis
    using r m q only_bitsD(6-16) [OF b, of p] by (auto simp: ready_def flushable_def)
qed

definition keeps_dirty :: "'r launder_env \<Rightarrow> bool" where
  "keeps_dirty A \<longleftrightarrow> (\<forall>m d. d \<noteq> 0 \<longrightarrow> dirty_after_remove_write A m d \<noteq> 0)"

lemma write_protected:
  assumes inv: "scan_inv n a s" and m: "\<not> marker s p" "queue (pages s p) = 2" "dirty (pages s p) \<noteq> 0" and A: "keeps_dirty A"
  shows "only_bits s (pmap_remove_write A p s)" "interferes own {} n a s (pmap_remove_write A p s)"
    "hold_count (pages s p) = 0 \<Longrightarrow> \<not> vm_page_busied (busy_lock (pages s p)) \<Longrightarrow> ready (pmap_remove_write A p s) p"
proof -
  let ?t = "pmap_remove_write A p s"
  have r: "reclaimable s p" using scan_invD(6) [OF inv m(1)] m(2) by simp
  then have v: "valid (pages s p) = VM_PAGE_BITS_ALL" using m(3) by (simp add: reclaimable_def)
  note ok = pmap_remove_write_ok [OF inv m(1), where A = A]
  note F = pmap_remove_write_fields [of A p s]
  have wm: "is_write_mapped ?t = (is_write_mapped s)(p := False)" by (simp add: pmap_remove_write_def vm_call_def)
  define d where "d = dirty_after_remove_write A p (dirty (pages s p))"
  define f where "f = aflags (pages s p) AND NOT PGA_WRITEABLE"
  have d: "d \<noteq> 0" using A m(3) by (simp add: keeps_dirty_def d_def)
  have f: "f AND PGA_WRITEABLE = 0" by (simp add: f_def and.assoc)
  have p: "pages ?t = (pages s)(p := (pages s p)\<lparr>dirty := d, aflags := f\<rparr>)"
    unfolding F(1) write_protect_def by (simp add: v d_def f_def)
  show "only_bits s ?t"
    by (rule only_bits_page [OF p]) (simp_all add: F(2-6) wm m(3) d f split: if_splits)
  show "interferes own {} n a s ?t" by (rule ok(1))
  show "hold_count (pages s p) = 0 \<Longrightarrow> \<not> vm_page_busied (busy_lock (pages s p)) \<Longrightarrow> ready ?t p"
    using ok(2) [OF r] m v d f wm by (simp add: ready_def flushable_def p marker_def)
qed

lemma test_dirty_ok:
  assumes inv: "scan_inv n a s" and ob: "pg_object (pages s p) = Some ob"
  shows "\<exists>t. vm_page_test_dirty p s = Inr t \<and> only_bits s t \<and> interferes own {} n a s t \<and>
    (dirty (pages t p) \<noteq> 0 \<longleftrightarrow> dirty (pages s p) \<noteq> 0 \<or> is_modified s p)"
proof -
  have m: "\<not> marker s p" using scan_invD(4) [OF inv, of p] ob by auto
  show ?thesis
  proof (cases "dirty (pages s p) \<noteq> VM_PAGE_BITS_ALL \<and> is_modified s p")
    case True
    have v: "valid (pages s p) = VM_PAGE_BITS_ALL" using scan_invD(7) [OF inv m] True ob by (simp add: sound_bits_def)
    let ?t = "upd_pg p (\<lambda>q. q\<lparr>dirty := VM_PAGE_BITS_ALL\<rparr>) s"
    have "vm_page_test_dirty p s = Inr ?t"
      using True v by (simp add: vm_page_test_dirty_def vm_page_dirty_def vm_page_dirty_KBI_def upd_pg_def)
    moreover have "interferes own {} n a s ?t" by (rule interferes_bits(1) [OF inv m]) (simp_all add: v)
    moreover have "only_bits s ?t"
      by (rule only_bits_page [where m = p and d = VM_PAGE_BITS_ALL and f = "aflags (pages s p)"])
        (use True in \<open>simp_all add: upd_pg_def fixed_def VM_PAGE_BITS_ALL_def\<close>)
    ultimately show ?thesis using True by (simp add: VM_PAGE_BITS_ALL_def)
  next
    case False
    have "vm_page_test_dirty p s = Inr s" unfolding vm_page_test_dirty_def if_not_P [OF False] by simp
    moreover have "dirty (pages s p) \<noteq> 0 \<longleftrightarrow> dirty (pages s p) \<noteq> 0 \<or> is_modified s p"
      using False by (auto simp: VM_PAGE_BITS_ALL_def)
    ultimately show ?thesis using interferes_refl [OF inv] by auto
  qed
qed

lemma cluster_try_ok:
  assumes inv: "scan_inv n a s" and ob: "\<And>p. q = Some p \<Longrightarrow> pg_object (pages s p) = Some ob" and A: "keeps_dirty A"
  shows "\<exists>t. cluster_try A q s = Inr (t, if (case q of None \<Rightarrow> False | Some p \<Rightarrow> fits s p) then q else None) \<and> only_bits s t \<and>
    interferes own {} n a s t \<and> (\<forall>p. q = Some p \<longrightarrow> fits s p \<longrightarrow> ready t p)"
proof (cases q)
  case None
  then show ?thesis using interferes_refl [OF inv] by (simp add: cluster_try_def)
next
  case (Some p)
  have m: "\<not> marker s p" using scan_invD(4) [OF inv, of p] ob [OF Some] by auto
  show ?thesis
  proof (cases "vm_page_busied (busy_lock (pages s p))")
    case True
    then show ?thesis using interferes_refl [OF inv] Some by (simp add: cluster_try_def fits_def)
  next
    case nb: False
    obtain t where t: "vm_page_test_dirty p s = Inr t" "only_bits s t" "interferes own {} n a s t"
      "dirty (pages t p) \<noteq> 0 \<longleftrightarrow> dirty (pages s p) \<noteq> 0 \<or> is_modified s p"
      using test_dirty_ok [OF inv ob [OF Some]] by blast
    note b = only_bitsD(9-12) [OF t(2), of p]
    have fit: "fits s p \<longleftrightarrow> dirty (pages t p) \<noteq> 0 \<and> queue (pages t p) = 2 \<and> hold_count (pages t p) = 0"
      using nb t(4) b by (simp add: fits_def)
    have tr: "cluster_try A q s =
      (if fits s p then Inr (pmap_remove_write A p t, Some p) else Inr (t, None))"
      unfolding fit using nb t(1) Some by (auto simp: cluster_try_def vm_page_in_laundry_def)
    show ?thesis
    proof (cases "fits s p")
      case False
      then show ?thesis using tr t Some by simp
    next
      case True
      have mt: "\<not> marker t p" "scan_inv n a t" using t(3) m by (simp_all add: interferes_def)
      have p: "queue (pages t p) = 2" "dirty (pages t p) \<noteq> 0" "hold_count (pages t p) = 0"
        "\<not> vm_page_busied (busy_lock (pages t p))" using True nb b fit by simp_all
      note w = write_protected [OF mt(2,1) p(1,2) A]
      show ?thesis
        using True tr Some w(1,2) w(3) [OF p(3,4)] only_bits_trans [OF t(2)] interferes_trans [OF t(3)] by auto
    qed
  qed
qed

text \<open>The step to the neighbour at index \<open>i\<close>, seen from the state at the start.\<close>

lemma cluster_step:
  assumes b: "only_bits s0 s" and inv: "scan_inv n a s" and A: "keeps_dirty A"
  shows "\<exists>t. cluster_try A (slot a s0 ob i) s = Inr (t, if joins a s0 ob i then slot a s0 ob i else None) \<and> only_bits s t \<and>
    interferes own {} n a s t \<and> (joins a s0 ob i \<longrightarrow> (\<exists>p. slot a s0 ob i = Some p \<and> ready t p))"
proof -
  have sl: "slot a s0 ob i = slot a s ob i" using only_bits_slot [OF b] by simp
  have ob: "pg_object (pages s p) = Some ob" if "slot a s0 ob i = Some p" for p
    using that slot_iff [OF scan_invD(3) [OF inv]] unfolding sl by blast
  have j: "joins a s0 ob i = (case slot a s0 ob i of None \<Rightarrow> False | Some p \<Rightarrow> fits s p)"
    by (simp add: joins_def only_bits_fits [OF b] split: option.split)
  obtain t where t: "cluster_try A (slot a s0 ob i) s = Inr (t, if joins a s0 ob i then slot a s0 ob i else None)"
    "only_bits s t" "interferes own {} n a s t" "\<forall>p. slot a s0 ob i = Some p \<longrightarrow> fits s p \<longrightarrow> ready t p"
    using cluster_try_ok [OF inv ob A, of "slot a s0 ob i"] unfolding j [symmetric] by blast
  then show ?thesis by (intro exI [of _ t]) (auto simp: j split: option.splits)
qed

text \<open>The cluster holds the pages at the positions from \<open>- b\<close> to \<open>f\<close> around the page it started from, with
  \<open>f = cl_is c - 1\<close> and \<open>b = cl_count c - cl_is c\<close>.\<close>

definition cluster_inv ::
    "('r \<Rightarrow> u_long \<Rightarrow> pg option) \<Rightarrow> int \<Rightarrow> 'r vm \<Rightarrow> obj \<Rightarrow> int \<Rightarrow> cluster \<Rightarrow> 'r vm \<Rightarrow> bool" where
  "cluster_inv a N s0 ob P c s \<longleftrightarrow>
     1 \<le> cl_is c \<and> cl_is c \<le> cl_count c \<and> cl_count c \<le> N \<and> cl_base c = N - (cl_count c - cl_is c) \<and>
     length (cl_mc c) = nat (2 * N) \<and> (cl_ib c = 0 \<or> cl_ib c = cl_count c - cl_is c + 1) \<and>
     (\<forall>i. cl_is c - cl_count c \<le> i \<and> i < cl_is c \<longrightarrow>
        (\<exists>p. slot a s0 ob (P + i) = Some p \<and> cl_mc c ! nat (N + i) = Some p \<and> ready s p \<and> (i \<noteq> 0 \<longrightarrow> joins a s0 ob (P + i)))) \<and>
     slot a s0 ob (P + (cl_is c - cl_count c)) = Some (cl_pb c) \<and> slot a s0 ob (P + cl_is c - 1) = Some (cl_ps c) \<and>
     (cl_ib c = 0 \<longrightarrow> \<not> joins a s0 ob (P + (cl_is c - cl_count c) - 1)) \<and> only_bits s0 s"

lemma joins_range: "joins a s ob i \<Longrightarrow> 0 \<le> i \<and> i < 2 ^ 64"
  by (auto simp: joins_def slot_def split: if_splits)

lemma cluster_inv_step:
  assumes c: "cluster_inv a N s0 ob P c s" and t: "only_bits s t" "scan_inv n a t"
  shows "cluster_inv a N s0 ob P c t"
proof -
  have "ready s p \<Longrightarrow> ready t p" for p by (rule only_bits_ready [OF t])
  moreover have "only_bits s0 t" using c t(1) only_bits_trans unfolding cluster_inv_def by blast
  ultimately show ?thesis using c unfolding cluster_inv_def by blast
qed

lemma cluster_inv_blocked:
  assumes "cluster_inv a N s0 ob P c s" "\<not> joins a s0 ob (P + (cl_is c - cl_count c) - 1)"
  shows "cluster_inv a N s0 ob P (c\<lparr>cl_ib := 0\<rparr>) s"
  using assms unfolding cluster_inv_def by simp

lemma cluster_inv_back:
  assumes c: "cluster_inv a N s0 ob P c s" and ct: "cl_ib c \<noteq> 0" "cl_count c < N" and p: "slot a s0 ob (P + (cl_is c - cl_count c) - 1) = Some p"
      "ready s p" "joins a s0 ob (P + (cl_is c - cl_count c) - 1)"
  shows "mc_set (cl_base c - 1) p (cl_mc c) = Inr ((cl_mc c)[nat (cl_base c - 1) := Some p])"
    "cluster_inv a N s0 ob P (c\<lparr>cl_mc := (cl_mc c)[nat (cl_base c - 1) := Some p], cl_base := cl_base c - 1, cl_pb := p,
       cl_count := cl_count c + 1, cl_ib := cl_ib c + 1\<rparr>) s"
proof -
  have I: "1 \<le> cl_is c" "cl_is c \<le> cl_count c" "cl_base c = N - (cl_count c - cl_is c)" "length (cl_mc c) = nat (2 * N)"
    "cl_ib c = cl_count c - cl_is c + 1" using c ct(1) unfolding cluster_inv_def by blast+
  have bound: "0 \<le> cl_base c - 1" "cl_base c - 1 < 2 * N" using I ct(2) by linarith+
  then show "mc_set (cl_base c - 1) p (cl_mc c) = Inr ((cl_mc c)[nat (cl_base c - 1) := Some p])"
    by (simp add: mc_set_def I(4))
  have len: "nat (cl_base c - 1) < length (cl_mc c)" using bound by (simp add: I(4))
  define j where "j = cl_is c - cl_count c - 1"
  have base: "cl_base c - 1 = N + j" by (simp add: I(3) j_def)
  have mem: "\<exists>q. slot a s0 ob (P + i) = Some q \<and> (cl_mc c)[nat (cl_base c - 1) := Some p] ! nat (N + i) = Some q \<and> ready s q \<and>
      (i \<noteq> 0 \<longrightarrow> joins a s0 ob (P + i))" if i: "j \<le> i" "i < cl_is c" for i
  proof (cases "i = j")
    case True
    have e: "P + (cl_is c - cl_count c) - 1 = P + i" by (simp add: True j_def)
    show ?thesis using p len unfolding base e by (simp add: True)
  next
    case False
    then have "cl_is c - cl_count c \<le> i" using i(1) by (simp add: j_def)
    then obtain q where q: "slot a s0 ob (P + i) = Some q" "cl_mc c ! nat (N + i) = Some q" "ready s q"
      "i \<noteq> 0 \<longrightarrow> joins a s0 ob (P + i)"
      using c i(2) unfolding cluster_inv_def by blast
    have "nat (cl_base c - 1) \<noteq> nat (N + i)" using False i(1) bound(1) unfolding base by linarith
    then show ?thesis using q by simp
  qed
  have sl: "P + (cl_is c - (cl_count c + 1)) = P + (cl_is c - cl_count c) - 1" by simp
  show "cluster_inv a N s0 ob P (c\<lparr>cl_mc := (cl_mc c)[nat (cl_base c - 1) := Some p], cl_base := cl_base c - 1, cl_pb := p,
       cl_count := cl_count c + 1, cl_ib := cl_ib c + 1\<rparr>) s"
    using c ct mem p(1) I unfolding cluster_inv_def by (simp add: j_def sl)
qed

lemma cluster_inv_forward:
  assumes c: "cluster_inv a N s0 ob P c s" and ct: "cl_count c < N" and p: "slot a s0 ob (P + cl_is c) = Some p"
      "ready s p" "joins a s0 ob (P + cl_is c)"
  shows "mc_set (cl_base c + cl_count c) p (cl_mc c) = Inr ((cl_mc c)[nat (cl_base c + cl_count c) := Some p])"
    "cluster_inv a N s0 ob P (c\<lparr>cl_mc := (cl_mc c)[nat (cl_base c + cl_count c) := Some p], cl_ps := p,
       cl_count := cl_count c + 1, cl_is := cl_is c + 1\<rparr>) s"
proof -
  have I: "1 \<le> cl_is c" "cl_is c \<le> cl_count c" "cl_base c = N - (cl_count c - cl_is c)" "length (cl_mc c) = nat (2 * N)"
    using c unfolding cluster_inv_def by blast+
  have base: "cl_base c + cl_count c = N + cl_is c" using I by simp
  have bound: "0 < N + cl_is c" "N + cl_is c < 2 * N" using I ct by linarith+
  then show "mc_set (cl_base c + cl_count c) p (cl_mc c) = Inr ((cl_mc c)[nat (cl_base c + cl_count c) := Some p])"
    unfolding base by (simp add: mc_set_def I(4))
  have len: "nat (N + cl_is c) < length (cl_mc c)" using bound by (simp add: I(4))
  have mem: "\<exists>q. slot a s0 ob (P + i) = Some q \<and> (cl_mc c)[nat (N + cl_is c) := Some p] ! nat (N + i) = Some q \<and> ready s q \<and>
      (i \<noteq> 0 \<longrightarrow> joins a s0 ob (P + i))" if i: "cl_is c - cl_count c \<le> i" "i < cl_is c + 1" for i
  proof (cases "i = cl_is c")
    case True
    then show ?thesis using p len by simp
  next
    case False
    then obtain q where q: "slot a s0 ob (P + i) = Some q" "cl_mc c ! nat (N + i) = Some q" "ready s q"
      "i \<noteq> 0 \<longrightarrow> joins a s0 ob (P + i)"
      using c i unfolding cluster_inv_def by (metis add.commute zle_add1_eq_le order_le_less)
    have "nat (N + cl_is c) \<noteq> nat (N + i)" using False i(2) bound(1) by linarith
    then show ?thesis using q by simp
  qed
  show "cluster_inv a N s0 ob P (c\<lparr>cl_mc := (cl_mc c)[nat (cl_base c + cl_count c) := Some p], cl_ps := p,
       cl_count := cl_count c + 1, cl_is := cl_is c + 1\<rparr>) s"
    using c ct mem p(1) I unfolding cluster_inv_def base by (simp add: algebra_simps)
qed

lemma pb_object: "obj_wf a s0 \<Longrightarrow> only_bits s0 s \<Longrightarrow> slot a s0 ob i = Some p \<Longrightarrow>
    pg_object (pages s p) = Some ob \<and> uint (pindex (pages s p)) = i"
  by (simp add: slot_iff only_bitsD(7,8))

lemma word_gt_iff: "0 \<le> k \<Longrightarrow> k < 2 ^ 64 \<Longrightarrow> (of_int k > (w :: u_long)) = (uint w < k)"
  by (simp add: word_less_alt uint_word_of_int take_bit_int_eq_self)

lemma cluster_back_ok:
  assumes A: "keeps_dirty A" and N: "N = vm_pageout_page_count A" "N < 2 ^ 31" and wf: "obj_wf a s0"
  shows "cluster_inv a N s0 ob (uint pi) c s \<Longrightarrow> scan_inv n a s \<Longrightarrow>
    \<exists>c' t. cluster_back A pi c s = Inr (c', t) \<and> cluster_inv a N s0 ob (uint pi) c' t \<and> interferes own {} n a s t \<and> only_bits s t \<and>
      cl_count c \<le> cl_count c' \<and> (cl_ib c \<noteq> 0 \<and> cl_count c < N \<longrightarrow> cl_ib c' = 0 \<or> cl_count c < cl_count c')"
proof (induction "nat (N - cl_count c)" arbitrary: c s rule: less_induct)
  case less
  let ?P = "uint pi"
  note I = less.prems
  show ?case
  proof (cases "cl_ib c \<noteq> 0 \<and> cl_count c < N")
    case False
    then have "cluster_back A pi c s = Inr (c, s)"
      unfolding cluster_back.simps [of A pi c s] N(1) [symmetric] by (simp only: if_False)
    then show ?thesis using I interferes_refl [OF I(2)] False by auto
  next
    case True
    have ib: "cl_ib c = cl_count c - cl_is c + 1" "1 \<le> cl_is c" "cl_is c \<le> cl_count c" "only_bits s0 s"
      "slot a s0 ob (?P + (cl_is c - cl_count c)) = Some (cl_pb c)"
      using I(1) True unfolding cluster_inv_def by blast+
    have word: "of_int (cl_ib c) > pi \<longleftrightarrow> ?P < cl_ib c"
    proof (rule word_gt_iff)
      have "cl_ib c < 2 ^ 31" using ib(1,2) True N(2) by linarith
      then show "cl_ib c < 2 ^ 64" by simp
    qed (use ib in linarith)
    define i where "i = ?P + (cl_is c - cl_count c) - 1"
    show ?thesis
    proof (cases "?P < cl_ib c")
      case low: True
      then have "i < 0" unfolding i_def ib(1) by linarith
      then have "\<not> joins a s0 ob i" using joins_range [of a s0 ob i] by auto
      then have "cluster_inv a N s0 ob ?P (c\<lparr>cl_ib := 0\<rparr>) s" using cluster_inv_blocked [OF I(1)] by (simp add: i_def)
      moreover have "cluster_back A pi c s = Inr (c\<lparr>cl_ib := 0\<rparr>, s)"
        using True low word by (subst cluster_back.simps) (simp add: N(1))
      ultimately show ?thesis using interferes_refl [OF I(2)] by simp
    next
      case high: False
      note pb = pb_object [OF wf ib(4,5)]
      have prev: "vm_page_prev (cl_pb c) s = Inr (slot a s0 ob i)"
        using prev_slot [OF scan_invD(3) [OF I(2)], of "cl_pb c" ob] pb only_bits_slot [OF ib(4)] by (simp add: i_def)
      obtain t where t: "cluster_try A (slot a s0 ob i) s = Inr (t, if joins a s0 ob i then slot a s0 ob i else None)"
        "only_bits s t" "interferes own {} n a s t" "joins a s0 ob i \<Longrightarrow> \<exists>p. slot a s0 ob i = Some p \<and> ready t p"
        using cluster_step [OF ib(4) I(2) A, of ob i] by blast
      have it: "scan_inv n a t" by (rule interferes_inv(1) [OF t(3)])
      note ct = cluster_inv_step [OF I(1) t(2) it]
      show ?thesis
      proof (cases "joins a s0 ob i")
        case False
        have "cluster_back A pi c s = Inr (c\<lparr>cl_ib := 0\<rparr>, t)"
          using True high word prev t(1) False by (subst cluster_back.simps) (simp add: N(1))
        moreover have "cluster_inv a N s0 ob ?P (c\<lparr>cl_ib := 0\<rparr>) t"
          using cluster_inv_blocked [OF ct] False by (simp add: i_def)
        ultimately show ?thesis using t(2,3) by simp
      next
        case joins: True
        obtain p where p: "slot a s0 ob i = Some p" "ready t p" using t(4) [OF joins] by blast
        note st = cluster_inv_back [OF ct _ _ p(1) [unfolded i_def] p(2) joins [unfolded i_def]]
        define c' where "c' = c\<lparr>cl_mc := (cl_mc c)[nat (cl_base c - 1) := Some p], cl_base := cl_base c - 1, cl_pb := p,
          cl_count := cl_count c + 1, cl_ib := cl_ib c + 1\<rparr>"
        have c': "cluster_inv a N s0 ob ?P c' t" "cl_count c' = cl_count c + 1"
          using st(2) True by (simp_all add: c'_def)
        have turn: "cluster_back A pi c s =
          (if (pi - of_int (cl_ib c)) mod of_int (vm_pageout_page_count A) = 0 then Inr (c', t) else cluster_back A pi c' t)"
          using True high word prev t(1) joins p(1) st(1) unfolding c'_def by (subst cluster_back.simps) (simp add: N(1))
        show ?thesis
        proof (cases "(pi - of_int (cl_ib c)) mod of_int (vm_pageout_page_count A) = 0")
          case True
          then show ?thesis using turn c' t(2,3) by simp
        next
          case go: False
          have "nat (N - cl_count c') < nat (N - cl_count c)" using True c'(2) by simp
          from less.hyps [OF this c'(1) it] obtain d u where u: "cluster_back A pi c' t = Inr (d, u)"
            "cluster_inv a N s0 ob ?P d u" "interferes own {} n a t u" "only_bits t u" "cl_count c' \<le> cl_count d" by blast
          have "interferes own {} n a s u" "only_bits s u"
            using interferes_trans [OF t(3) u(3)] only_bits_trans [OF t(2) u(4)] .
          then show ?thesis using turn go u c'(2) by simp
        qed
      qed
    qed
  qed
qed


lemma word_add_less_iff:
  assumes "0 \<le> k" "uint w + k \<le> 2 ^ 64"
  shows "w + of_int k < sz \<and> uint w + k < 2 ^ 64 \<longleftrightarrow> uint w + k < uint (sz :: u_long)"
proof (cases "uint w + k < 2 ^ 64")
  case True
  then have "k < 2 ^ 64" using uint_ge_0 [of w] by linarith
  then have "uint (w + of_int k) = uint w + k"
    using assms(1) True by (simp add: uint_word_ariths(1) uint_word_of_int take_bit_int_eq_self)
  then show ?thesis using True by (simp add: word_less_alt)
next
  case False
  then show ?thesis using uint_bounded [of sz] by simp
qed

lemma cluster_forward_ok:
  assumes A: "keeps_dirty A" and N: "N = vm_pageout_page_count A" "N < 2 ^ 31" and wf: "obj_wf a s0"
  shows "cluster_inv a N s0 ob (uint pi) c s \<Longrightarrow> scan_inv n a s \<Longrightarrow>
    \<exists>c' t. cluster_forward A pi sz c s = Inr (c', t) \<and> cluster_inv a N s0 ob (uint pi) c' t \<and> interferes own {} n a s t \<and> only_bits s t \<and>
      cl_count c \<le> cl_count c' \<and> cl_ib c' = cl_ib c \<and> cl_count c' - cl_is c' = cl_count c - cl_is c \<and>
      (cl_count c' < N \<longrightarrow> \<not> (uint pi + cl_is c' < uint sz \<and> joins a s0 ob (uint pi + cl_is c')))"
proof (induction "nat (N - cl_count c)" arbitrary: c s rule: less_induct)
  case less
  let ?P = "uint pi"
  note I = less.prems
  have fw: "1 \<le> cl_is c" "cl_is c \<le> cl_count c" "only_bits s0 s" "slot a s0 ob (?P + cl_is c - 1) = Some (cl_ps c)"
    using I(1) unfolding cluster_inv_def by blast+
  note ps = pb_object [OF wf fw(3,4)]
  have top: "?P + cl_is c \<le> 2 ^ 64" using ps uint_bounded [of "pindex (pages s (cl_ps c))"] by simp
  have word: "pi + of_int (cl_is c) < sz \<and> ?P + cl_is c < 2 ^ 64 \<longleftrightarrow> ?P + cl_is c < uint sz"
    by (rule word_add_less_iff) (use fw top in simp_all)
  show ?case
  proof (cases "cl_count c < N \<and> pi + of_int (cl_is c) < sz")
    case False
    then have "cluster_forward A pi sz c s = Inr (c, s)"
      unfolding cluster_forward.simps [of A pi sz c s] N(1) [symmetric] by (simp only: if_False)
    then show ?thesis using I interferes_refl [OF I(2)] False word by auto
  next
    case True
    define i where "i = ?P + cl_is c"
    have nxt: "vm_page_next (cl_ps c) s = Inr (slot a s0 ob i)"
      using next_slot [OF scan_invD(3) [OF I(2)], of "cl_ps c" ob] ps only_bits_slot [OF fw(3)] by (simp add: i_def)
    obtain t where t: "cluster_try A (slot a s0 ob i) s = Inr (t, if joins a s0 ob i then slot a s0 ob i else None)"
      "only_bits s t" "interferes own {} n a s t" "joins a s0 ob i \<Longrightarrow> \<exists>p. slot a s0 ob i = Some p \<and> ready t p"
      using cluster_step [OF fw(3) I(2) A, of ob i] by blast
    have it: "scan_inv n a t" by (rule interferes_inv(1) [OF t(3)])
    note ct = cluster_inv_step [OF I(1) t(2) it]
    show ?thesis
    proof (cases "joins a s0 ob i")
      case False
      have "cluster_forward A pi sz c s = Inr (c, t)"
        using True nxt t(1) False by (subst cluster_forward.simps) (simp add: N(1))
      then show ?thesis using ct t(2,3) False by (simp add: i_def)
    next
      case joins: True
      obtain p where p: "slot a s0 ob i = Some p" "ready t p" using t(4) [OF joins] by blast
      note st = cluster_inv_forward [OF ct _ p(1) [unfolded i_def] p(2) joins [unfolded i_def]]
      define c' where "c' = c\<lparr>cl_mc := (cl_mc c)[nat (cl_base c + cl_count c) := Some p], cl_ps := p,
        cl_count := cl_count c + 1, cl_is := cl_is c + 1\<rparr>"
      have c': "cluster_inv a N s0 ob ?P c' t" "cl_count c' = cl_count c + 1" "cl_ib c' = cl_ib c" "cl_is c' = cl_is c + 1"
        using st(2) True by (simp_all add: c'_def)
      have fwd: "cluster_forward A pi sz c s = cluster_forward A pi sz c' t"
        using True nxt t(1) joins p(1) st(1) unfolding c'_def by (subst cluster_forward.simps) (simp add: N(1))
      have "nat (N - cl_count c') < nat (N - cl_count c)" using True c'(2) by simp
      from less.hyps [OF this c'(1) it] obtain d u where u: "cluster_forward A pi sz c' t = Inr (d, u)"
        "cluster_inv a N s0 ob ?P d u" "interferes own {} n a t u" "only_bits t u" "cl_count c' \<le> cl_count d" "cl_ib d = cl_ib c'"
        "cl_count d - cl_is d = cl_count c' - cl_is c'"
        "cl_count d < N \<longrightarrow> \<not> (?P + cl_is d < uint sz \<and> joins a s0 ob (?P + cl_is d))" by blast
      have "interferes own {} n a s u" "only_bits s u"
        using interferes_trans [OF t(3) u(3)] only_bits_trans [OF t(2) u(4)] .
      then show ?thesis using fwd u c'(2-4) by simp
    qed
  qed
qed

text \<open>The loop over both directions ends, because every turn but the last adds a page.\<close>

lemma cluster_more_ok:
  assumes A: "keeps_dirty A" and N: "N = vm_pageout_page_count A" "N < 2 ^ 31" and wf: "obj_wf a s0"
  shows "cluster_inv a N s0 ob (uint pi) c s \<Longrightarrow> scan_inv n a s \<Longrightarrow> N - cl_count c < int fuel \<Longrightarrow> cl_ib c \<noteq> 0 \<Longrightarrow>
    \<exists>c' t. cluster_more A pi sz fuel c s = Inr (c', t) \<and> cluster_inv a N s0 ob (uint pi) c' t \<and> interferes own {} n a s t \<and> only_bits s t \<and>
      (cl_count c' < N \<longrightarrow> cl_ib c' = 0 \<and> \<not> (uint pi + cl_is c' < uint sz \<and> joins a s0 ob (uint pi + cl_is c')))"
proof (induction fuel arbitrary: c s)
  case 0
  then have "cl_count c \<le> N" unfolding cluster_inv_def by blast
  then show ?case using 0 by simp
next
  case (Suc fuel)
  obtain d t where d: "cluster_back A pi c s = Inr (d, t)" "cluster_inv a N s0 ob (uint pi) d t" "interferes own {} n a s t" "only_bits s t"
    "cl_count c \<le> cl_count d" "cl_ib c \<noteq> 0 \<and> cl_count c < N \<longrightarrow> cl_ib d = 0 \<or> cl_count c < cl_count d"
    using cluster_back_ok [OF A N wf Suc.prems(1,2)] by blast
  obtain e u where e: "cluster_forward A pi sz d t = Inr (e, u)" "cluster_inv a N s0 ob (uint pi) e u" "interferes own {} n a t u"
    "only_bits t u" "cl_count d \<le> cl_count e" "cl_ib e = cl_ib d"
    "cl_count e < N \<longrightarrow> \<not> (uint pi + cl_is e < uint sz \<and> joins a s0 ob (uint pi + cl_is e))"
    using cluster_forward_ok [OF A N wf d(2) interferes_inv(1) [OF d(3)], of sz] by blast
  have su: "interferes own {} n a s u" "only_bits s u"
    using interferes_trans [OF d(3) e(3)] only_bits_trans [OF d(4) e(4)] .
  show ?case
  proof (cases "cl_ib e \<noteq> 0 \<and> cl_count e < N")
    case False
    then have "cluster_more A pi sz (Suc fuel) c s = Inr (e, u)" using d(1) e(1) by (auto simp: N(1))
    then show ?thesis using e su False by auto
  next
    case True
    then have "cl_count c < cl_count e" using d(5,6) e(5,6) Suc.prems(4) by linarith
    then have "N - cl_count e < int fuel" using Suc.prems(3) by simp
    from Suc.IH [OF e(2) interferes_inv(1) [OF e(3)] this] True obtain c' v where
      v: "cluster_more A pi sz fuel e u = Inr (c', v)" "cluster_inv a N s0 ob (uint pi) c' v" "interferes own {} n a u v" "only_bits u v"
      "cl_count c' < N \<longrightarrow> cl_ib c' = 0 \<and> \<not> (uint pi + cl_is c' < uint sz \<and> joins a s0 ob (uint pi + cl_is c'))" by blast
    have "cluster_more A pi sz (Suc fuel) c s = Inr (c', v)" using d(1) e(1) v(1) True by (simp add: N(1))
    then show ?thesis using v interferes_trans [OF su(1) v(3)] only_bits_trans [OF su(2) v(4)] by blast
  qed
qed

text \<open>The run of pages of the object from index \<open>lo\<close> to index \<open>hi\<close>, and when it is the cluster around
  index \<open>i\<close>: it has at most \<open>N\<close> pages, all of them fit, and when it has fewer the run cannot go on.\<close>

definition page_run :: "('r \<Rightarrow> u_long \<Rightarrow> pg option) \<Rightarrow> 'r vm \<Rightarrow> obj \<Rightarrow> int \<Rightarrow> int \<Rightarrow> pg list" where
  "page_run a s ob lo hi = map (\<lambda>i. the (slot a s ob i)) [lo..hi]"

definition full_run :: "('r \<Rightarrow> u_long \<Rightarrow> pg option) \<Rightarrow> 'r vm \<Rightarrow> obj \<Rightarrow> int \<Rightarrow> int \<Rightarrow> int \<Rightarrow> int \<Rightarrow> bool" where
  "full_run a s ob N i lo hi \<longleftrightarrow> lo \<le> i \<and> i \<le> hi \<and> hi - lo < N \<and> list_all (joins a s ob) [lo..hi] \<and>
     (hi - lo + 1 = N \<or> \<not> joins a s ob (lo - 1) \<and> \<not> (hi + 1 < uint (obj_size s ob) \<and> joins a s ob (hi + 1)))"

lemma page_run_distinct:
  assumes wf: "obj_wf a s" and j: "list_all (joins a s ob) [lo..hi]"
  shows "distinct (page_run a s ob lo hi)"
proof -
  have "inj_on (\<lambda>i. the (slot a s ob i)) {lo..hi}"
  proof (rule inj_onI)
    fix i k assume ik: "i \<in> {lo..hi}" "k \<in> {lo..hi}" "the (slot a s ob i) = the (slot a s ob k)"
    then have "joins a s ob i" "joins a s ob k" using j by (simp_all add: list_all_iff)
    then obtain p q where "slot a s ob i = Some p" "slot a s ob k = Some q"
      by (auto simp: joins_def split: option.splits)
    then have "slot a s ob i = Some p" "slot a s ob k = Some p" using ik(3) by simp_all
    then have "uint (pindex (pages s p)) = i" "uint (pindex (pages s p)) = k" by (simp_all add: slot_iff [OF wf])
    then show "i = k" by simp
  qed
  then show ?thesis by (simp add: page_run_def distinct_map)
qed

text \<open>What the array holds when the loop is done.\<close>

lemma cluster_inv_members:
  assumes c: "cluster_inv a N s ob P c u" and k: "P + (cl_is c - cl_count c) \<le> k" "k \<le> P + cl_is c - 1" and P: "joins a s ob P"
  shows "\<exists>p. slot a s ob k = Some p \<and> cl_mc c ! nat (N + (k - P)) = Some p \<and> ready u p \<and> joins a s ob k"
proof -
  have "cl_is c - cl_count c \<le> k - P \<and> k - P < cl_is c" using k by linarith
  then obtain p where "slot a s ob (P + (k - P)) = Some p" "cl_mc c ! nat (N + (k - P)) = Some p" "ready u p"
    "k - P \<noteq> 0 \<longrightarrow> joins a s ob (P + (k - P))" using c unfolding cluster_inv_def by blast
  then show ?thesis using P by (cases "k = P") simp_all
qed

lemma cluster_inv_pages:
  assumes c: "cluster_inv a N s ob P c u" and P: "joins a s ob P"
  defines "lo \<equiv> P + (cl_is c - cl_count c)" and "hi \<equiv> P + cl_is c - 1"
  shows "mc_pages (cl_base c) (cl_count c) (cl_mc c) = Inr (page_run a s ob lo hi)" "list_all (joins a s ob) [lo..hi]"
    "list_all (ready u) (page_run a s ob lo hi)"
proof -
  have I: "1 \<le> cl_is c" "cl_is c \<le> cl_count c" "cl_count c \<le> N" "cl_base c = N - (cl_count c - cl_is c)" "length (cl_mc c) = nat (2 * N)"
    using c unfolding cluster_inv_def by blast+
  note mem = cluster_inv_members [OF c _ _ P, folded lo_def hi_def]
  have len: "length [lo..hi] = nat (cl_count c)" by (simp add: lo_def hi_def)
  have seg: "take (nat (cl_count c)) (drop (nat (cl_base c)) (cl_mc c)) = map (slot a s ob) [lo..hi]" (is "?l = ?r")
  proof (rule nth_equalityI)
    show "length ?l = length ?r" using I len by simp
    fix k assume "k < length ?l"
    then have "k < nat (cl_count c)" by simp
    then have k: "int k < cl_count c" by linarith
    have b: "nat (cl_base c) + k = nat (N + (lo + int k - P))" using I unfolding lo_def by simp
    have kh: "lo + int k \<le> hi" using k by (simp add: lo_def hi_def)
    then obtain p where p: "slot a s ob (lo + int k) = Some p" "cl_mc c ! nat (N + (lo + int k - P)) = Some p"
      using mem [of "lo + int k"] by auto
    have "?l ! k = cl_mc c ! (nat (cl_base c) + k)" using k I by (simp add: nth_drop)
    also have "\<dots> = ?r ! k" using kh p k by (simp add: nth_upto b)
    finally show "?l ! k = ?r ! k" .
  qed
  show "list_all (joins a s ob) [lo..hi]"
    unfolding list_all_iff
  proof
    fix k assume "k \<in> set [lo..hi]"
    then show "joins a s ob k" using mem [of k] by auto
  qed
  have "list_all (\<lambda>p. p \<noteq> None) (map (slot a s ob) [lo..hi])"
    unfolding list_all_iff
  proof
    fix q assume "q \<in> set (map (slot a s ob) [lo..hi])"
    then obtain k where "lo \<le> k" "k \<le> hi" "q = slot a s ob k" by auto
    then show "q \<noteq> None" using mem [of k] by auto
  qed
  moreover have "0 \<le> cl_base c \<and> cl_base c + cl_count c \<le> int (length (cl_mc c))" using I by simp
  ultimately show "mc_pages (cl_base c) (cl_count c) (cl_mc c) = Inr (page_run a s ob lo hi)"
    unfolding mc_pages_def Let_def seg page_run_def by (simp add: o_def)
  show "list_all (ready u) (page_run a s ob lo hi)"
    unfolding page_run_def list_all_iff
  proof
    fix p assume "p \<in> set (map (\<lambda>i. the (slot a s ob i)) [lo..hi])"
    then obtain k where "lo \<le> k" "k \<le> hi" "p = the (slot a s ob k)" by auto
    then show "ready u p" using mem [of k] by auto
  qed
qed

lemma cluster_inv_start:
  assumes N: "1 \<le> N" and t: "only_bits s t" "ready t m" "slot a s ob P = Some m"
  defines "mc \<equiv> (replicate (nat (2 * N)) None)[nat N := Some m]"
  shows "mc_set N m (replicate (nat (2 * N)) None) = Inr mc"
    "cluster_inv a N s ob P \<lparr>cl_mc = mc, cl_pb = m, cl_ps = m, cl_ib = 1, cl_is = 1, cl_base = N, cl_count = 1\<rparr> t"
proof -
  show "mc_set N m (replicate (nat (2 * N)) None) = Inr mc" using N by (simp add: mc_set_def mc_def)
  have m: "length mc = nat (2 * N)" by (simp add: mc_def)
  have "\<exists>p. slot a s ob (P + i) = Some p \<and> mc ! nat (N + i) = Some p \<and> ready t p \<and> (i \<noteq> 0 \<longrightarrow> joins a s ob (P + i))"
    if "0 \<le> i \<and> i < 1" for i
  proof -
    have "i = 0" using that by simp
    then show ?thesis using N t(2,3) by (simp add: mc_def)
  qed
  then show "cluster_inv a N s ob P \<lparr>cl_mc = mc, cl_pb = m, cl_ps = m, cl_ib = 1, cl_is = 1, cl_base = N, cl_count = 1\<rparr> t"
    using N t(1,3) m by (simp add: cluster_inv_def)
qed

lemma gather_ok:
  assumes A: "keeps_dirty A" and N: "N = vm_pageout_page_count A" "1 \<le> N" "N < 2 ^ 31" and inv: "scan_inv n a s"
    and m: "pg_object (pages s m) = Some ob" "fits s m" "dirty (pages s m) \<noteq> 0"
  shows "\<exists>t lo hi. gather_cluster A m s = Inr (t, page_run a s ob lo hi) \<and>
    full_run a s ob N (uint (pindex (pages s m))) lo hi \<and> interferes own {} n a s t \<and> only_bits s t \<and>
    list_all (ready t) (page_run a s ob lo hi)"
proof -
  define pi where "pi = pindex (pages s m)"
  note wf = scan_invD(3) [OF inv]
  have nm: "\<not> marker s m" using scan_invD(4) [OF inv, of m] m(1) by auto
  have fit: "queue (pages s m) = 2" "hold_count (pages s m) = 0" "\<not> vm_page_busied (busy_lock (pages s m))"
    using m(2) by (simp_all add: fits_def)
  define t where "t = pmap_remove_write A m s"
  have t: "only_bits s t" "interferes own {} n a s t" "ready t m"
    using write_protected [OF inv nm fit(1) m(3) A] fit(2,3) by (simp_all add: t_def)
  have it: "scan_inv n a t" by (rule interferes_inv(1) [OF t(2)])
  have sl: "slot a s ob (uint pi) = Some m" using slot_iff [OF wf] m(1) by (simp add: pi_def)
  have jm: "joins a s ob (uint pi)" using sl m(2) by (simp add: joins_def)
  note c0 = cluster_inv_start [OF N(2) t(1,3) sl]
  define c0 where "c0 = \<lparr>cl_mc = (replicate (nat (2 * N)) None)[nat N := Some m], cl_pb = m, cl_ps = m, cl_ib = 1, cl_is = 1,
    cl_base = N, cl_count = 1\<rparr>"
  have pit: "pindex (pages t m) = pi" "obj_size t ob = obj_size s ob"
    using only_bitsD(8) [OF t(1), of m] fixedD(9) [OF only_bitsD(1) [OF t(1)]] by (simp_all add: pi_def)
  have f: "N - cl_count c0 < int (nat N + 1)" "cl_ib c0 \<noteq> 0" using N by (simp_all add: c0_def)
  obtain c u where
    c: "cluster_more A pi (obj_size s ob) (nat N + 1) c0 t = Inr (c, u)" "cluster_inv a N s ob (uint pi) c u" "interferes own {} n a t u"
      "only_bits t u" "cl_count c < N \<Longrightarrow> cl_ib c = 0 \<and> \<not> (uint pi + cl_is c < uint (obj_size s ob) \<and> joins a s ob (uint pi + cl_is c))"
    using cluster_more_ok [OF A N(1,3) wf c0(2) [folded c0_def] it f, of "obj_size s ob"] by blast
  have I: "1 \<le> cl_is c" "cl_is c \<le> cl_count c" "cl_count c \<le> N"
    "cl_ib c = 0 \<Longrightarrow> \<not> joins a s ob (uint pi + (cl_is c - cl_count c) - 1)"
    using c(2) unfolding cluster_inv_def by blast+
  define lo where "lo = uint pi + (cl_is c - cl_count c)"
  define hi where "hi = uint pi + cl_is c - 1"
  note mem = cluster_inv_pages [OF c(2) jm, folded lo_def hi_def]
  have g: "gather_cluster A m s = Inr (u, page_run a s ob lo hi)"
    using m(1) fit(2,3) c(1) c0(1) mem(1)
    by (simp add: gather_cluster_def Let_def N(1) [symmetric] t_def [symmetric] pit c0_def del: cluster_more.simps)
  have "cl_count c = N \<or> \<not> joins a s ob (lo - 1) \<and> \<not> (uint pi + cl_is c < uint (obj_size s ob) \<and> joins a s ob (uint pi + cl_is c))"
    using I(3,4) c(5) unfolding lo_def by (cases "cl_count c = N") linarith+
  moreover have "lo \<le> uint pi" "uint pi \<le> hi" "hi - lo < N" "hi - lo + 1 = cl_count c" "hi + 1 = uint pi + cl_is c"
    using I(1-3) by (simp_all add: lo_def hi_def)
  ultimately have fr: "full_run a s ob N (uint pi) lo hi" unfolding full_run_def using mem(2) by simp
  show ?thesis
    unfolding pi_def [symmetric]
    using g fr mem(3) interferes_trans [OF t(2) c(3)] only_bits_trans [OF t(1) c(4)] by blast
qed

subsection \<open>A page that stays in the queue\<close>

lemma taken_off_zero_flag:
  "taken_off (upd_pg m (\<lambda>p. p\<lparr>pg_flags := pg_flags p AND NOT PG_ZERO\<rparr>) s) m =
   upd_pg m (\<lambda>p. p\<lparr>pg_flags := pg_flags p AND NOT PG_ZERO\<rparr>) (taken_off s m)"
  by (rule vm.equality; cases "pages s m"; simp add: taken_off_def Let_def home_def upd_pg_def set_pq_def vm_pagequeue_cnt_add_def)

text \<open>To free a queued page is to take it off its queue and to free it.\<close>

lemma free_queued:
  assumes inv: "scan_inv n a s" and m: "\<not> marker s m" "queue (pages s m) < 3"
  shows "vm_page_free E m s = vm_page_free E m (taken_off s m)"
proof -
  define t where "t = upd_pg m (\<lambda>p. p\<lparr>pg_flags := pg_flags p AND NOT PG_ZERO\<rparr>) s"
  have t: "pages t m = (pages s m)\<lparr>pg_flags := pg_flags (pages s m) AND NOT PG_ZERO\<rparr>" "is_mapped t = is_mapped s"
    by (simp_all add: t_def)
  have it: "vm_inv n a t"
    unfolding t_def by (rule vm_inv_upd_flags [OF scan_invD(1) [OF inv] m(1)]) (use not_marker_flags [OF m(1)] in \<open>simp_all add: zero_bits\<close>)
  have mt: "\<not> marker t m" "queue (pages t m) < 3" using m t(1) by (simp_all add: marker_def zero_bits)
  have wf: "vm_wf n t" using it by (simp add: vm_inv_def)
  have "queue (pages t m) \<noteq> 255" using mt(2) by auto
  then have q: "queue (pages t m) \<noteq> PQ_NONE" "\<not> unmanaged m t" using queued_free [OF wf mt(1)] by simp_all
  have "vm_page_free_prep E m False t = vm_page_free_prep E m False (taken_off t m)"
    unfolding vm_page_free_prep_def using q dequeue_ok(2) [OF wf mt] by (simp add: taken_off_simps)
  then show ?thesis
    unfolding vm_page_free_def vm_page_free_toq_def taken_off_zero_flag [symmetric] t_def [symmetric] by simp
qed

lemma free_queued_ok:
  assumes R: "radix_ok (radix_ops E) a" and inv: "scan_inv n a s" and m: "\<not> marker s m" "queue (pages s m) < 3"
    and i: "hold_count (pages s m) = 0" "\<not> vm_page_busied (busy_lock (pages s m))" "\<not> is_mapped s m"
  shows "\<exists>s'. vm_page_free E m s = Inr s' \<and> interferes own {} n a s s'"
proof -
  note off = loose_taken_off(2,4) [OF inv m]
  have "\<not> is_mapped (taken_off s m) m" using i(3) by simp
  from free_loose [OF R interferes_inv(1) [OF off(1)] off(2) [OF i(1,2)] this] obtain s' where
    "vm_page_free E m (taken_off s m) = Inr s'" "interferes own {} n a (taken_off s m) s'" by blast
  then show ?thesis using free_queued [OF inv m] interferes_trans [OF off(1)] by auto
qed

lemma unmap_ok:
  assumes inv: "scan_inv n a s" and m: "\<not> marker s m" "reclaimable s m"
  shows "interferes own {} n a s (pmap_remove_all E m s)"
proof -
  define d where "d = (if valid (pages s m) = VM_PAGE_BITS_ALL then dirty_after_remove_all E m else dirty (pages s m))"
  define t where "t = upd_pg m (\<lambda>p. p\<lparr>dirty := d\<rparr>) s"
  define u where "u = pmap_remove_all E m s"
  have u: "u = vm_call (PmapRemoveAll m) (t\<lparr>is_mapped := (is_mapped s)(m := False)\<rparr>)"
    by (simp add: u_def pmap_remove_all_eq t_def d_def)
  have d: "d \<noteq> 0 \<Longrightarrow> dirty (pages s m) \<noteq> 0 \<or> valid (pages s m) = VM_PAGE_BITS_ALL" by (auto simp: d_def split: if_splits)
  have t: "interferes own {} n a s t" "reclaimable t m"
    using interferes_bits [OF inv m(1), of "\<lambda>p. p\<lparr>dirty := d\<rparr>"] m(2) d by (simp_all add: t_def)
  have mt: "\<not> marker t m" using t(1) m(1) by (simp add: interferes_def)
  have uf: "pages u = pages t" "is_mapped u = (is_mapped s)(m := False)" "fixed u = fixed t" "pq_pl u = pq_pl t" "is_mapped t = is_mapped s"
    by (simp_all add: u pages_call) (simp_all add: vm_call_def t_def)
  have "vm_same t u" by (simp add: u)
  then have iu: "vm_inv n a u" using vm_sameD(4) scan_invD(1) [OF interferes_inv(1) [OF t(1)]] by blast
  have r: "reclaimable u m" using t(2) fixedD [OF uf(3)] by (simp add: reclaimable_def uf split: option.splits)
  have "interferes own {} n a t u"
    by (rule scan_inv_page [OF interferes_inv(1) [OF t(1)] iu mt])
      (use mt r reclaimable_sound [OF r] in \<open>simp_all add: uf marker_def\<close>)
  then show ?thesis unfolding u_def [symmetric] using interferes_trans t(1) by blast
qed

lemma pmap_remove_all_page:
  "pages (pmap_remove_all E m s) m = (pages s m)\<lparr>dirty := dirty (pages (pmap_remove_all E m s) m)\<rparr>"
  "\<not> is_mapped (pmap_remove_all E m s) m" "fixed (pmap_remove_all E m s) = fixed s"
  by (simp_all add: pmap_remove_all_eq pages_call)

lemma clean_queued_ok:
  assumes inv: "scan_inv n a s" and m: "pg_object (pages s m) = Some ob" "queue (pages s m) < 3" "valid (pages s m) \<noteq> 0"
  shows "\<exists>t. clean_mappings E m ob s = Inr t \<and> interferes own {} n a s t \<and> fixed t = fixed s \<and>
    (\<exists>d f. pages t m = (pages s m)\<lparr>dirty := d, aflags := f\<rparr>) \<and> (dirty (pages t m) = 0 \<longrightarrow> \<not> is_mapped t m)"
proof (cases "obj_ref_count s ob = 0")
  case True
  have "\<not> marker s m" using scan_invD(4) [OF inv, of m] m(1) by auto
  then have "\<not> is_mapped s m" using scan_invD(6) [OF inv _ m(2)] m(1) True by (simp add: reclaimable_def)
  moreover have "pages s m = (pages s m)\<lparr>dirty := dirty (pages s m), aflags := aflags (pages s m)\<rparr>" by simp
  moreover have "clean_mappings E m ob s = Inr s" using True by (simp add: clean_mappings_def)
  ultimately show ?thesis using interferes_refl [OF inv] by blast
next
  case False
  obtain t where t: "vm_page_test_dirty m s = Inr t" "only_bits s t" "interferes own {} n a s t"
    using test_dirty_ok [OF inv m(1)] by blast
  obtain d f where p: "pages t m = (pages s m)\<lparr>dirty := d, aflags := f\<rparr>" using t(2) unfolding only_bits_def by blast
  show ?thesis
  proof (cases "dirty (pages t m) = 0")
    case dirty: False
    then have "clean_mappings E m ob s = Inr t" using False t(1) by (simp add: clean_mappings_def)
    then show ?thesis using t(2,3) p dirty only_bitsD(1) by blast
  next
    case True
    let ?u = "pmap_remove_all E m t"
    have "\<not> marker s m" using scan_invD(4) [OF inv, of m] m(1) by auto
    then have mt: "\<not> marker t m" "queue (pages t m) < 3" using t(3) m(2) by (simp_all add: interferes_def p)
    have it: "scan_inv n a t" by (rule interferes_inv(1) [OF t(3)])
    have "interferes own {} n a t ?u" by (rule unmap_ok [OF it mt(1) scan_invD(6) [OF it mt]])
    then have "interferes own {} n a s ?u" using interferes_trans t(3) by blast
    moreover have "clean_mappings E m ob s = Inr ?u" using False True t(1) by (simp add: clean_mappings_def)
    moreover have "pages ?u m = (pages s m)\<lparr>dirty := dirty (pages ?u m), aflags := f\<rparr>"
      by (subst pmap_remove_all_page(1) [of E m t]) (cases "pages s m"; simp add: p)
    moreover have "fixed ?u = fixed s" using only_bitsD(1) [OF t(2)] pmap_remove_all_page(3) [of E m t] by (rule trans [rotated])
    ultimately show ?thesis using pmap_remove_all_page(2) by blast
  qed
qed

lemma requeue_locked_ok:
  assumes inv: "scan_inv n a s" and m: "\<not> marker s m" "queue (pages s m) = 2"
  shows "\<exists>s'. vm_page_requeue_locked m s = Inr s' \<and> interferes own {} n a s s'"
proof -
  let ?l = "pq_pl s 0 2" and ?t = "taken_off s m"
  have q3: "queue (pages s m) < 3" using m(2) by simp
  have h: "home s m 2 = 0" "home ?t m 2 = 0" by (simp_all add: home_def)
  have mem: "m \<in> set ?l" using queued_elem [OF scan_invD(2) [OF inv] m(1), of 2 0] m(2) by (simp add: home_def)
  have d: "distinct ?l" using scan_list(1) [OF inv, of 2] by simp
  note off = loose_taken_off(2,3) [OF inv m(1) q3]
  have tl: "pq_pl ?t 0 2 = remove1 m ?l" by (simp add: m(2) h)
  have "interferes own {} n a ?t (put_on ?t m 2 (remove1 m ?l @ [m]))"
    by (rule put_movable [OF interferes_inv(1) [OF off(1)] off(2)]) (use d tl h in auto)
  then have i: "interferes own {} n a s (put_on ?t m 2 (remove1 m ?l @ [m]))" using interferes_trans off(1) by blast
  have p: "(pages s)(m := (pages s m)\<lparr>queue := 2\<rparr>) = pages s"
    using m(2) by (intro ext) (metis fun_upd_apply vm_page.surjective vm_page.update_convs(9))
  have "vm_page_requeue_locked m s = Inr (put_on ?t m 2 (remove1 m ?l @ [m]))"
    using mem m(2) h p
    by (simp add: vm_page_requeue_locked_def vm_page_pagequeue_def tailq_remove_def put_on_def taken_off_def Let_def
        upd_pg_def set_pq_def vm_pagequeue_cnt_add_def home_def fun_upd_twist)
  then show ?thesis using i by blast
qed

subsection \<open>Laundering a page\<close>

text \<open>The environment that the laundry thread relies on.\<close>

definition good_launder :: "pg set \<Rightarrow> nat \<Rightarrow> ('r \<Rightarrow> u_long \<Rightarrow> pg option) \<Rightarrow> 'r launder_env \<Rightarrow> bool" where
  "good_launder own n a A \<longleftrightarrow> radix_ok (radix_ops (la_env A)) a \<and> good_locks own n a (la_locks A) \<and> good_pager own n a A \<and> keeps_dirty A \<and>
     1 \<le> vm_pageout_page_count A \<and> vm_pageout_page_count A < 2 ^ 31 \<and>
     (\<forall>k. vn_regular (vnode_of A k) \<and> (vn_started (vnode_of A k) \<longrightarrow> vn_mount (vnode_of A k)) \<and> bystanders own n a (vget_wait (vnode_of A k)))"

lemma good_launderD:
  assumes "good_launder own n a A"
  shows "radix_ok (radix_ops (la_env A)) a" "good_locks own n a (la_locks A)" "good_pager own n a A" "keeps_dirty A"
    "1 \<le> vm_pageout_page_count A" "vm_pageout_page_count A < 2 ^ 31" "vn_regular (vnode_of A k) \<and> (vn_started (vnode_of A k) \<longrightarrow> vn_mount (vnode_of A k))"
    "bystanders own n a (vget_wait (vnode_of A k))" "bystanders own n a (meanwhile (la_locks A) k)"
  using assms by (simp_all add: good_launder_def good_locks_def)

lemma cluster_ok:
  assumes G: "good_launder own n a A" and inv: "scan_inv n a s"
    and m: "pg_object (pages s m) = Some ob" "fits s m" "dirty (pages s m) \<noteq> 0"
  shows "\<exists>t num. vm_pageout_cluster A k m s = Inr (t, num) \<and> interferes own {} n a s t \<and> 0 \<le> num \<and> num \<le> vm_pageout_page_count A"
proof -
  note wf = scan_invD(3) [OF inv]
  obtain t lo hi where g: "gather_cluster A m s = Inr (t, page_run a s ob lo hi)"
    "full_run a s ob (vm_pageout_page_count A) (uint (pindex (pages s m))) lo hi" "interferes own {} n a s t" "only_bits s t"
    "list_all (ready t) (page_run a s ob lo hi)"
    using gather_ok [OF good_launderD(4) [OF G] refl good_launderD(5,6) [OF G] inv m] by blast
  define mc where "mc = page_run a s ob lo hi"
  have r: "lo \<le> hi" "hi - lo < vm_pageout_page_count A" "list_all (joins a s ob) [lo..hi]" using g(2) by (simp_all add: full_run_def)
  have len: "length mc = nat (hi - lo + 1)" by (simp add: mc_def page_run_def)
  have ne: "mc \<noteq> []" using r(1) len by auto
  have "joins a s ob lo" using r(1,3) by (simp add: list_all_iff)
  then obtain p where p: "slot a s ob lo = Some p" by (auto simp: joins_def split: option.splits)
  have "hd mc = p" using r(1) p by (simp add: mc_def page_run_def upto_rec1)
  then have ob: "pg_object (pages t (hd mc)) = Some ob" using p slot_iff [OF wf] only_bitsD(7) [OF g(4)] by simp
  have fl: "\<forall>x\<in>set mc. flushable t x" using g(5) by (simp add: mc_def list_all_iff ready_def)
  obtain st u where u: "vm_pageout_flush A k mc 0 t = Inr (u, flush_result st 0 0 (length mc) (0, int (length mc) - 0, False))"
    "interferes own {} n a t u"
    using flush_ok [OF good_launderD(3) [OF G] interferes_inv(1) [OF g(3)] ne page_run_distinct [OF wf r(3), folded mc_def] fl ob] by blast
  obtain num rl eio where res: "flush_result st 0 0 (length mc) (0, int (length mc) - 0, False) = (num, rl, eio)"
    using prod_cases3 by blast
  have "flush_reads st 0 (length mc) (length mc) (num, rl, eio)" using flush_result_ok [of 0 "length mc" st] by (simp only: res)
  then have "num = int (length (filter (\<lambda>j. st j = VM_PAGER_OK \<or> st j = VM_PAGER_PEND) [0..<length mc]))"
    by (simp add: flush_reads_def)
  then have "0 \<le> num" "num \<le> int (length mc)"
    using length_filter_le [of "\<lambda>j. st j = VM_PAGER_OK \<or> st j = VM_PAGER_PEND" "[0..<length mc]"] by simp_all
  moreover have "int (length mc) \<le> vm_pageout_page_count A" using r(1,2) len by simp
  moreover have "vm_pageout_cluster A k m s = Inr (u, num)"
    using u(1) unfolding res by (simp add: vm_pageout_cluster_def g(1) mc_def [symmetric])
  ultimately show ?thesis using interferes_trans [OF g(3) u(2)] by (intro exI [of _ u] exI [of _ num]) simp
qed

text \<open>What counts as laundered.\<close>

definition clean_outcome :: "int \<Rightarrow> clean_error \<Rightarrow> int \<Rightarrow> bool" where
  "clean_outcome N e num \<longleftrightarrow> (if e = CLEANED then 1 \<le> num \<and> num \<le> N else num = 0)"

lemma clean_step_ok:
  assumes G: "good_launder own n a A" and inv: "scan_inv n a s"
    and m: "pg_object (pages s m) = Some ob" "fits s m" "dirty (pages s m) \<noteq> 0"
  shows "\<exists>t e num. rbind (vm_pageout_cluster A k m s) (\<lambda>(s, num). Inr (s, if num = 0 then EIO else CLEANED, num)) = Inr (t, e, num) \<and>
    interferes own {} n a s t \<and> clean_outcome (vm_pageout_page_count A) e num"
proof -
  obtain t num where t: "vm_pageout_cluster A k m s = Inr (t, num)" "interferes own {} n a s t" "0 \<le> num" "num \<le> vm_pageout_page_count A"
    using cluster_ok [OF G inv m] by blast
  have "clean_outcome (vm_pageout_page_count A) (if num = 0 then EIO else CLEANED) num" using t(3,4) by (simp add: clean_outcome_def)
  then show ?thesis using t(1,2) by simp
qed

lemma release_ok: "scan_inv n a s \<Longrightarrow> interferes own {} n a s (vm_call (ObjDeallocate ob) s)"
  by (rule interferes_same_call) simp_all

lemma pageout_clean_ok:
  assumes G: "good_launder own n a A" and inv: "scan_inv n a s"
    and m: "pg_object (pages s m) = Some ob" "fits s m" "dirty (pages s m) \<noteq> 0"
  shows "\<exists>t e num. vm_pageout_clean A k m s = Inr (t, e, num) \<and> interferes own {} n a s t \<and> clean_outcome (vm_pageout_page_count A) e num"
proof -
  let ?N = "vm_pageout_page_count A"
  define clean where "clean = (\<lambda>s. rbind (vm_pageout_cluster A k m s) (\<lambda>(s, num). Inr (s, if num = 0 then EIO else CLEANED, num)))"
  have cl: "\<exists>t e num. clean s = Inr (t, e, num) \<and> interferes own {} n a s t \<and> clean_outcome ?N e num"
    if "scan_inv n a s" "pg_object (pages s m) = Some ob" "fits s m" "dirty (pages s m) \<noteq> 0" for s
    unfolding clean_def by (rule clean_step_ok [OF G that])
  have out: "clean_outcome ?N EDEADLK 0" "clean_outcome ?N ENOENT 0" "clean_outcome ?N ENXIO 0" "clean_outcome ?N EBUSY 0"
    by (simp_all add: clean_outcome_def)
  show ?thesis
  proof (cases "is_vnode s ob")
    case False
    then have "vm_pageout_clean A k m s = clean s" by (simp add: vm_pageout_clean_def m(1) Let_def clean_def)
    then show ?thesis using cl [OF inv m] by simp
  next
    case True
    let ?V = "vnode_of A k"
    note V = good_launderD(7,8) [OF G, of k]
    define t where "t = vget_wait ?V (vm_call (ObjReference ob) s)"
    have r: "interferes own {} n a s (vm_call (ObjReference ob) s)" by (rule interferes_same_call [OF _ _ inv]) simp_all
    have t: "interferes own {} n a s t"
      using V(2) interferes_inv(1) [OF r] interferes_trans [OF r] by (simp add: t_def bystanders_def)
    have it: "scan_inv n a t" by (rule interferes_inv(1) [OF t])
    have rel: "interferes own {} n a s (vm_call (ObjDeallocate ob) t)" by (rule interferes_trans [OF t release_ok [OF it]])
    define bad where "bad \<longleftrightarrow> \<not> vm_page_in_laundry m t \<or> pg_object (pages t m) \<noteq> Some ob \<or> pindex (pages t m) \<noteq> pindex (pages s m) \<or>
        dirty (pages t m) = 0"
    define busy where "busy \<longleftrightarrow> vm_page_busied (busy_lock (pages t m)) \<or> hold_count (pages t m) \<noteq> 0"
    have eq: "vm_pageout_clean A k m s =
      (if \<not> vn_started ?V then Inr (s, EDEADLK, 0)
       else if \<not> vn_gotten ?V then Inr (vm_call (ObjDeallocate ob) t, EDEADLK, 0)
       else if \<not> vn_same_object ?V then Inr (vm_call (ObjDeallocate ob) t, ENOENT, 0)
       else if bad then Inr (vm_call (ObjDeallocate ob) t, ENXIO, 0)
       else if busy then Inr (vm_call (ObjDeallocate ob) t, EBUSY, 0)
       else rbind (clean t) (\<lambda>(s, r). Inr (vm_call (ObjDeallocate ob) s, r)))"
      using V(1) True unfolding bad_def busy_def by (simp add: vm_pageout_clean_def m(1) Let_def clean_def t_def)
    show ?thesis
    proof (cases "vn_started ?V \<and> vn_gotten ?V \<and> vn_same_object ?V \<and> \<not> bad \<and> \<not> busy")
      case False
      then show ?thesis unfolding eq using rel interferes_refl [OF inv] out by (auto split: if_splits)
    next
      case True
      then have mt: "pg_object (pages t m) = Some ob" "fits t m" "dirty (pages t m) \<noteq> 0"
        by (simp_all add: bad_def busy_def fits_def vm_page_in_laundry_def)
      obtain u e num where u: "clean t = Inr (u, e, num)" "interferes own {} n a t u" "clean_outcome ?N e num"
        using cl [OF it mt] by blast
      have "vm_pageout_clean A k m s = Inr (vm_call (ObjDeallocate ob) u, e, num)" unfolding eq using True u(1) by simp
      moreover have "interferes own {} n a s (vm_call (ObjDeallocate ob) u)"
        using interferes_trans [OF t interferes_trans [OF u(2) release_ok [OF interferes_inv(1) [OF u(2)]]]] .
      ultimately show ?thesis using u(3) by blast
    qed
  qed
qed

definition laundered :: "int \<Rightarrow> launder_result \<Rightarrow> bool" where
  "laundered N res \<longleftrightarrow> (case res of Laundered_pages num \<Rightarrow> 1 \<le> num \<and> num \<le> N | _ \<Rightarrow> True)"

lemma launder_page_ok:
  assumes G: "good_launder own n a A" and inv: "scan_inv n a s" and m: "pg_object (pages s m) = Some ob" "queue (pages s m) = 2"
    and i: "hold_count (pages s m) = 0" "\<not> vm_page_busied (busy_lock (pages s m))"
  shows "\<exists>t res. launder_page A k m ob s = Inr (t, res) \<and> interferes own {} n a s t \<and> laundered (vm_pageout_page_count A) res"
proof -
  let ?E = "la_env A"
  have nm: "\<not> marker s m" "queue (pages s m) < 3" using scan_invD(4) [OF inv, of m] m by auto
  note R = good_launderD(1) [OF G]
  show ?thesis
  proof (cases "valid (pages s m) = 0")
    case True
    have "\<not> is_mapped s m" using scan_invD(6) [OF inv nm] True m(1) by (simp add: reclaimable_def)
    from free_queued_ok [OF R inv nm i this, of own] show ?thesis using True by (auto simp: launder_page_def laundered_def)
  next
    case False
    obtain t d f where t: "clean_mappings ?E m ob s = Inr t" "interferes own {} n a s t" "fixed t = fixed s"
      "pages t m = (pages s m)\<lparr>dirty := d, aflags := f\<rparr>" "dirty (pages t m) = 0 \<longrightarrow> \<not> is_mapped t m"
      using clean_queued_ok [OF inv m(1) nm(2) False, of ?E] by blast
    have it: "scan_inv n a t" by (rule interferes_inv(1) [OF t(2)])
    have mt: "\<not> marker t m" "queue (pages t m) < 3" "queue (pages t m) = 2" "hold_count (pages t m) = 0"
      "\<not> vm_page_busied (busy_lock (pages t m))" "pg_object (pages t m) = Some ob"
      using t(2) nm m i by (simp_all add: interferes_def t(4))
    show ?thesis
    proof (cases "dirty (pages t m) = 0")
      case True
      have "\<not> is_mapped t m" using t(5) True by simp
      from free_queued_ok [OF R it mt(1,2,4,5) this] obtain u where "vm_page_free ?E m t = Inr u" "interferes own {} n a t u" by blast
      then show ?thesis using False True t(1) interferes_trans [OF t(2)] by (simp add: launder_page_def laundered_def)
    next
      case dirty: False
      obtain r where r: "vm_page_requeue_locked m t = Inr r" "interferes own {} n a t r" using requeue_locked_ok [OF it mt(1,3)] by blast
      have "fits t m" using mt dirty by (simp add: fits_def)
      from pageout_clean_ok [OF G it mt(6) this dirty, of k] obtain u e num where
        u: "vm_pageout_clean A k m t = Inr (u, e, num)" "interferes own {} n a t u" "clean_outcome (vm_pageout_page_count A) e num" by blast
      have eq: "launder_page A k m ob s =
        (if obj_dead t ob then Inr (t, NotLaundered)
         else if obj_anonymous t ob \<and> disable_swap_pageouts A then Inr (r, NotLaundered)
         else Inr (u, case e of CLEANED \<Rightarrow> Laundered_pages num | EDEADLK \<Rightarrow> Vnode_skipped | _ \<Rightarrow> NotLaundered))"
        using False dirty t(1) r(1) u(1) by (simp add: launder_page_def)
      have "laundered (vm_pageout_page_count A) (case e of CLEANED \<Rightarrow> Laundered_pages num | EDEADLK \<Rightarrow> Vnode_skipped | _ \<Rightarrow> NotLaundered)"
        using u(3) by (simp add: laundered_def clean_outcome_def split: clean_error.splits)
      moreover have "laundered (vm_pageout_page_count A) NotLaundered" by (simp add: laundered_def)
      ultimately show ?thesis
        unfolding eq using t(2) interferes_trans [OF t(2) r(2)] interferes_trans [OF t(2) u(2)] by auto
    qed
  qed
qed

subsection \<open>The scan of the laundry queue\<close>

definition launder_markers :: "pg set \<Rightarrow> nat \<Rightarrow> pg \<Rightarrow> 'r vm \<Rightarrow> bool" where
  "launder_markers own d x s \<longleftrightarrow> {x, vmd_laundry_marker s d} \<subseteq> own \<and> spare s (vmd_laundry_marker s d) \<and> queue (pages s (vmd_laundry_marker s d)) = PQ_LAUNDRY \<and> spare s x \<and>
     x \<noteq> vmd_laundry_marker s d"

lemma launder_markers_step: "interferes own {x} n a s s' \<Longrightarrow> launder_markers own d x s \<Longrightarrow> launder_markers own d x s'"
  using interferes_spare [of own "{x}" n a s s'] unfolding launder_markers_def by (auto simp: interferes_def spare_def)

lemma launder_take_ok:
  assumes G: "good_launder own n a A" and inv: "scan_inv n a s" and m: "\<not> marker s m" "m \<in> set (pq_pl s d 2)"
    and i: "hold_count (pages s m) = 0" "\<not> vm_page_busied (busy_lock (pages s m))" "pg_object (pages s m) = Some ob"
    and mk: "spare s (vmd_laundry_marker s d)" "queue (pages s (vmd_laundry_marker s d)) = 2" "vmd_laundry_marker s d \<in> own"
  shows "\<exists>s' res nxt. launder_take A d k m ob s = Inr (s', res, nxt) \<and> interferes own {} n a s s' \<and> in_list s' d 2 nxt \<and>
    laundered (vm_pageout_page_count A) res"
proof -
  let ?x = "vmd_laundry_marker s d"
  let ?f = "meanwhile (la_locks A) k"
  have z: "(2::u_char) < 3" by simp
  have xm: "marker s ?x" "?x \<notin> set (pq_pl s d 2)" using mk(1) by (simp_all add: spare_def)
  note ins = mark_in [OF inv xm mk(2) z m(2)]
  let ?t = "set_pq d 2 (insert_after m ?x (pq_pl s d 2)) s"
  have "queue (pages s m) = 2" using entry_queue [OF inv m(2)] by simp
  then obtain v res where v: "launder_page A k m ob ?t = Inr (v, res)" "interferes own {} n a ?t v" "laundered (vm_pageout_page_count A) res"
    using launder_page_ok [OF G ins(2), of m ob k] i by auto
  have "interferes own {} n a v (?f v)" using good_launderD(9) [OF G] interferes_inv(1) [OF v(2)] by (simp add: bystanders_def)
  then have tw: "interferes own {} n a ?t (?f v)" using v(2) interferes_trans by blast
  note b = marker_bracket [OF inv mk z m(2) tw]
  have "launder_take A d k m ob s =
    Inr (set_pq d 2 (remove1 ?x (pq_pl (?f v) d 2)) (?f v), res, tailq_next ?x (pq_pl (?f v) d 2))"
    using v(1) b(1) by (simp add: launder_take_def ins(1) Let_def)
  then show ?thesis using b(2,3) v(3) by blast
qed

lemma launder_turn_ok:
  assumes G: "good_launder own n a A" and inv: "scan_inv n a s" and m: "m \<in> set (pq_pl s d 2)"
    and mk: "launder_markers own d (local_marker (la_locks A)) s"
  shows "\<exists>s' res nxt. launder_turn A d k m s = Inr (s', res, nxt) \<and> interferes own {local_marker (la_locks A)} n a s s' \<and>
    in_list s' d 2 nxt \<and> laundered (vm_pageout_page_count A) res"
proof -
  let ?L = "la_locks A"
  let ?x = "local_marker ?L"
  let ?nxt = "tailq_next m (pq_pl s d 2)"
  have nl: "laundered N NotLaundered" for N by (simp add: laundered_def)
  have z: "(2::u_char) < 3" by simp
  have q2: "queue (pages s m) = 2" using entry_queue [OF inv m] by simp
  show ?thesis
  proof (cases "marker s m")
    case True
    then show ?thesis using q2 interferes_refl [OF inv] nl by (auto simp: launder_turn_def marker_def vm_page_in_laundry_def Let_def)
  next
    case mm: False
    note e = scan_entry [OF inv mm m, simplified]
    have flags: "pg_flags (pages s m) AND PG_MARKER = 0" "pg_flags (pages s m) AND PG_FICTITIOUS = 0"
      using mm e(2) by (simp_all add: marker_def fictitious_def)
    have x: "spare s ?x" "?x \<in> own" using mk by (simp_all add: launder_markers_def)
    have tr: "pred_option (bystanders own n a) (page_try ?L k)" "pred_option (bystanders own n a) (object_try ?L k)"
      using good_launderD(2) [OF G] by (simp_all add: good_locks_def)
    obtain t ok nx where t: "vm_pageout_page_lock (page_try ?L k) ?x m ?nxt s = Inr (t, ok, nx)"
      "interferes own {?x} n a s t" "in_list t d 2 nx" "ok \<longrightarrow> m \<in> set (pq_pl t d 2)"
      using page_lock_ok [OF inv mm m z x tr(1), of ?nxt] by auto
    have it: "scan_inv n a t" "\<not> marker t m" using t(2) mm by (simp_all add: interferes_def)
    note mkt = launder_markers_step [OF t(2) mk]
    show ?thesis
    proof (cases "ok \<and> hold_count (pages t m) = 0")
      case False
      then show ?thesis using q2 flags e(3) t nl by (auto simp: launder_turn_def vm_page_in_laundry_def)
    next
      case ok: True
      have mt: "m \<in> set (pq_pl t d 2)" using ok t(4) by simp
      obtain ob where ob: "pg_object (pages t m) = Some ob" using scan_entry(4) [OF it(1,2) mt] by auto
      have xt: "spare t ?x" "?x \<in> own" using mkt by (simp_all add: launder_markers_def)
      obtain u ok' nx' where u: "vm_pageout_object_lock (object_try ?L k) ?x m nx t = Inr (u, ok', nx')"
        "interferes own {?x} n a t u" "in_list u d 2 nx'" "ok' \<longrightarrow> m \<in> set (pq_pl u d 2) \<and> pg_object (pages u m) = pg_object (pages t m)"
        using object_lock_ok [OF it mt z xt tr(2) t(3)] by auto
      have iu: "scan_inv n a u" "\<not> marker u m" using u(2) it by (simp_all add: interferes_def)
      note su = interferes_trans [OF t(2) u(2)]
      have turn: "launder_turn A d k m s =
        (if \<not> ok' \<or> hold_count (pages u m) \<noteq> 0 \<or> vm_page_busied (busy_lock (pages u m)) then Inr (u, NotLaundered, nx')
         else launder_take A d k m ob u)"
        using q2 flags e(3) ok by (simp add: launder_turn_def vm_page_in_laundry_def t(1) ob u(1))
      show ?thesis
      proof (cases "ok' \<and> hold_count (pages u m) = 0 \<and> \<not> vm_page_busied (busy_lock (pages u m))")
        case False
        then show ?thesis unfolding turn using su u(3) nl by auto
      next
        case go: True
        have mu: "m \<in> set (pq_pl u d 2)" "pg_object (pages u m) = Some ob" using go u(4) ob by simp_all
        have mk': "spare u (vmd_laundry_marker u d)" "queue (pages u (vmd_laundry_marker u d)) = 2" "vmd_laundry_marker u d \<in> own"
          using launder_markers_step [OF su mk] by (simp_all add: launder_markers_def)
        obtain v res nx'' where v: "launder_take A d k m ob u = Inr (v, res, nx'')" "interferes own {} n a u v" "in_list v d 2 nx''"
          "laundered (vm_pageout_page_count A) res"
          using launder_take_ok [OF G iu mu(1) _ _ mu(2) mk'] go by blast
        have "interferes own {?x} n a s v" by (rule interferes_trans [OF su interferes_mono [OF v(2)]]) simp
        then show ?thesis unfolding turn using go v by auto
      qed
    qed
  qed
qed

text \<open>The loop ends, because a turn takes at least one from maxscan; it launders less than a cluster too
  much.\<close>

lemma launder_scan_ok:
  assumes G: "good_launder own n a A"
  shows "scan_inv n a s \<Longrightarrow> launder_markers own d (local_marker (la_locks A)) s \<Longrightarrow> in_list s d 2 m \<Longrightarrow> maxscan \<le> int k \<Longrightarrow>
    \<exists>s' left sk. launder_scan A d k m maxscan launder skipped s = Inr (s', left, sk) \<and>
      interferes own {local_marker (la_locks A)} n a s s' \<and> left \<le> launder \<and> (0 < launder \<longrightarrow> - vm_pageout_page_count A < left)"
proof (induction k arbitrary: m maxscan launder skipped s)
  case 0
  have "- vm_pageout_page_count A < launder" if "0 < launder" using that good_launderD(5) [OF G] by simp
  then show ?case using 0 interferes_refl by (cases m) auto
next
  case (Suc k)
  let ?N = "vm_pageout_page_count A" and ?x = "local_marker (la_locks A)"
  have N: "1 \<le> ?N" by (rule good_launderD(5) [OF G])
  show ?case
  proof (cases "m = None \<or> maxscan \<le> 0 \<or> launder \<le> 0")
    case True
    then show ?thesis using Suc.prems(1) N interferes_refl [OF Suc.prems(1)] by (cases m) auto
  next
    case False
    then obtain p where p: "m = Some p" "p \<in> set (pq_pl s d 2)" using Suc.prems(3) by (auto simp: in_list_def)
    obtain t res nxt where t: "launder_turn A d k p s = Inr (t, res, nxt)" "interferes own {?x} n a s t" "in_list t d 2 nxt" "laundered ?N res"
      using launder_turn_ok [OF G Suc.prems(1) p(2) Suc.prems(2)] by blast
    note it = interferes_inv(1) [OF t(2)]
    define M where "M = (case res of Laundered_pages num \<Rightarrow> maxscan - num | _ \<Rightarrow> maxscan - 1)"
    define Q where "Q = (case res of Laundered_pages num \<Rightarrow> launder - num | _ \<Rightarrow> launder)"
    define S where "S = (case res of Vnode_skipped \<Rightarrow> skipped + 1 | _ \<Rightarrow> skipped)"
    have b: "M \<le> int k" "Q \<le> launder" "- ?N < Q"
      using Suc.prems(4) t(4) False N by (auto simp: M_def Q_def laundered_def split: launder_result.splits)
    have step: "launder_scan A d (Suc k) m maxscan launder skipped s = launder_scan A d k nxt M Q S t"
      using False p(1) t(1) by (cases res) (simp_all add: M_def Q_def S_def)
    obtain s' left sk where s': "launder_scan A d k nxt M Q S t = Inr (s', left, sk)" "interferes own {?x} n a t s'" "left \<le> Q"
      "0 < Q \<longrightarrow> - ?N < left"
      using Suc.IH [OF it launder_markers_step [OF t(2) Suc.prems(2)] t(3) b(1)] by blast
    have "- ?N < left"
    proof (cases "0 < Q")
      case no: False
      then have "launder_scan A d k nxt M Q S t = Inr (t, Q, S)" by (cases nxt; cases k) simp_all
      then show ?thesis using s'(1) b(3) by simp
    qed (use s'(4) in blast)
    then show ?thesis unfolding step using s' b(2) interferes_trans [OF t(2) s'(2)] by auto
  qed
qed

lemma int_nat_le: "i \<le> int (nat i)" by simp

lemma pageout_launder_ok:
  assumes G: "good_launder own n a A" and inv: "scan_inv n a s" and mk: "launder_markers own d (local_marker (la_locks A)) s"
  shows "\<exists>s' num. vm_pageout_launder A d launder s = Inr (s', num) \<and> interferes own {local_marker (la_locks A)} n a s s' \<and> 0 \<le> num \<and>
    (if 0 < launder then num < launder + vm_pageout_page_count A else num = 0)"
proof -
  let ?max = "pq_cnt s d 2" and ?m = "tailq_first (pq_pl s d 2)"
  obtain t left sk where t: "launder_scan A d (nat ?max) ?m ?max launder 0 s = Inr (t, left, sk)"
    "interferes own {local_marker (la_locks A)} n a s t" "left \<le> launder" "0 < launder \<longrightarrow> - vm_pageout_page_count A < left"
    using launder_scan_ok [OF G inv mk in_list_first int_nat_le, of ?max launder 0] by blast
  have z: "left = launder" if "\<not> 0 < launder"
    using t(1) that by (cases ?m; cases "nat ?max") auto
  let ?b = "sk > 0 \<and> left > 0"
  have "interferes own {local_marker (la_locks A)} n a t (call_if ?b SpeedupSyncer t)"
    using interferes_same_call [OF _ _ interferes_inv(1) [OF t(2)], of SpeedupSyncer] interferes_refl [OF interferes_inv(1) [OF t(2)]]
    by (simp add: call_if_def)
  then have "interferes own {local_marker (la_locks A)} n a s (call_if ?b SpeedupSyncer t)" by (rule interferes_trans [OF t(2)])
  moreover have "vm_pageout_launder A d launder s = Inr (call_if ?b SpeedupSyncer t, launder - left)"
    using t(1) by (simp add: vm_pageout_launder_def Let_def)
  ultimately show ?thesis using t(3,4) z by (intro exI [of _ "call_if ?b SpeedupSyncer t"] exI [of _ "launder - left"]) auto
qed

subsection \<open>The laundry thread\<close>

text \<open>What a turn of the thread relies on.\<close>

definition laundry_turn_env_ok :: "pg set \<Rightarrow> nat \<Rightarrow> ('r \<Rightarrow> u_long \<Rightarrow> pg option) \<Rightarrow> pg \<Rightarrow> 'r laundry_turn_env \<Rightarrow> bool" where
  "laundry_turn_env_ok own n a x T \<longleftrightarrow> good_launder own n a (lt_launder T) \<and> local_marker (la_locks (lt_launder T)) = x \<and>
     bystanders own n a (lt_pause T) \<and> bystanders own n a (lt_sleep T) \<and> unat (le_bg_target (lt_reads T)) < 2 ^ 31 \<and>
     le_target2 (lt_reads T) + le_deficit (lt_reads T) < 2 ^ 31"

text \<open>The turn is the one of the counters alone, with the pages that were laundered.\<close>

lemma laundry_choose_laundered: "laundry_choose (e\<lparr>le_laundered := f\<rparr>) l = laundry_choose e l"
  by (cases e) (simp only: laundry_choose_def laundry_background_def laundry_env.simps)

lemma laundry_finish_laundered: "laundry_finish (e\<lparr>le_laundered := f\<rparr>) k num l = laundry_finish e k num l"
  by (cases e) (simp only: laundry_finish_def laundry_env.simps)

lemma laundry_worker_turn_ok:
  assumes T: "laundry_turn_env_ok own n a x T" and l: "laundry_ok l" and inv: "scan_inv n a s" and mk: "launder_markers own d x s"
  shows "\<exists>l' s'. laundry_worker_turn d T l s = Inr (l', s') \<and> laundry_ok l' \<and> interferes own {x} n a s s'"
proof -
  define e where "e = laundry_counts s (lt_reads T)"
  have G: "good_launder own n a (lt_launder T)" "local_marker (la_locks (lt_launder T)) = x" "bystanders own n a (lt_pause T)"
    "bystanders own n a (lt_sleep T)" "unat (le_bg_target e) < 2 ^ 31" "le_target2 e + le_deficit e < 2 ^ 31"
    using T by (simp_all add: laundry_turn_env_ok_def e_def laundry_counts_def)
  have ok0: "laundry_env_ok (e\<lparr>le_laundered := \<lambda>_. 0\<rparr>)" using G(5,6) by (simp add: laundry_env_ok_def)
  obtain k launder where c: "laundry_choose e l = Inr (k, launder)" "laundry_ok (k\<lparr>l_shortfall := 0\<rparr>)" "launder \<le> l_target k"
    using laundry_choose_ok [OF l ok0] by (auto simp: laundry_choose_laundered)
  have nonneg: "0 \<le> l_target l" "0 \<le> l_cycle l" using l by (simp_all add: laundry_ok_def)
  have "\<exists>s' num. (if launder > 0 then rbind (vm_pageout_launder (lt_launder T) d launder s) (\<lambda>(s, num). Inr (lt_pause T s, num)) else Inr (s, 0)) =
      Inr (s', num) \<and> interferes own {x} n a s s' \<and> 0 \<le> num \<and> num < 2 ^ 32"
  proof (cases "launder > 0")
    case True
    obtain t num where t: "vm_pageout_launder (lt_launder T) d launder s = Inr (t, num)" "interferes own {x} n a s t" "0 \<le> num"
      "num < launder + vm_pageout_page_count (lt_launder T)"
      using pageout_launder_ok [OF G(1) inv, of d launder] mk True by (auto simp: G(2))
    have "interferes own {} n a t (lt_pause T t)" using G(3) interferes_inv(1) [OF t(2)] by (simp add: bystanders_def)
    then have "interferes own {x} n a s (lt_pause T t)" using interferes_trans [OF t(2) interferes_mono] by blast
    moreover have "num < 2 ^ 32" using t(4) c(2,3) good_launderD(6) [OF G(1)] by (simp add: laundry_ok_def)
    ultimately show ?thesis using t(1,3) True by simp
  next
    case False
    then show ?thesis using interferes_refl [OF inv] by simp
  qed
  then obtain t num where t: "(if launder > 0 then rbind (vm_pageout_launder (lt_launder T) d launder s) (\<lambda>(s, num). Inr (lt_pause T s, num)) else Inr (s, 0)) =
      Inr (t, num)" "interferes own {x} n a s t" "0 \<le> num" "num < 2 ^ 32" by blast
  let ?e = "e\<lparr>le_laundered := \<lambda>_. num\<rparr>"
  have "laundry_env_ok ?e" using G(5,6) t(3,4) by (simp add: laundry_env_ok_def)
  from laundry_turn_ok [OF l this] obtain l' m req where l': "laundry_turn ?e l = Inr (l', m, req)" "laundry_ok l'" by blast
  have "laundry_turn ?e l = Inr (fst (laundry_finish e launder num k), if launder > 0 then launder else 0, snd (laundry_finish e launder num k))"
    using nonneg c(1) by (simp add: laundry_turn_def laundry_choose_laundered laundry_finish_laundered split: prod.split)
  then have fin: "fst (laundry_finish e launder num k) = l'" using l'(1) by simp
  have "laundry_worker_turn d T l s = Inr (l', lt_sleep T t)"
    unfolding laundry_worker_turn_def Let_def e_def [symmetric] using nonneg c(1) t(1) fin by simp
  moreover have "interferes own {} n a t (lt_sleep T t)" using G(4) interferes_inv(1) [OF t(2)] by (simp add: bystanders_def)
  then have "interferes own {x} n a s (lt_sleep T t)" using interferes_trans [OF t(2) interferes_mono] by blast
  ultimately show ?thesis using l'(2) by blast
qed

lemma laundry_worker_ok:
  "laundry_ok l \<Longrightarrow> scan_inv n a s \<Longrightarrow> launder_markers own d x s \<Longrightarrow> list_all (laundry_turn_env_ok own n a x) turns \<Longrightarrow>
   \<exists>l' s'. vm_pageout_laundry_worker d turns (l, s) = Inr (l', s') \<and> laundry_ok l' \<and> interferes own {x} n a s s'"
proof (induction turns arbitrary: l s)
  case Nil
  then show ?case using interferes_refl by auto
next
  case (Cons T turns)
  obtain l1 s1 where t: "laundry_worker_turn d T l s = Inr (l1, s1)" "laundry_ok l1" "interferes own {x} n a s s1"
    using laundry_worker_turn_ok [of own n a x T l s d] Cons.prems by auto
  obtain l2 s2 where u: "vm_pageout_laundry_worker d turns (l1, s1) = Inr (l2, s2)" "laundry_ok l2" "interferes own {x} n a s1 s2"
    using Cons.IH [OF t(2) interferes_inv(1) [OF t(3)] launder_markers_step [OF t(3) Cons.prems(3)]] Cons.prems(4) by auto
  show ?case using t(1) u(1,2) interferes_trans [OF t(3) u(3)] by simp
qed

lemma laundry_worker_start_ok:
  assumes inv: "scan_inv n a s" and mk: "spare s (vmd_laundry_marker s d)" "spare s x" "x \<noteq> vmd_laundry_marker s d"
    and own: "{x, vmd_laundry_marker s d} \<subseteq> own"
  shows "\<exists>t. laundry_worker_start d s = (laundry_start, t) \<and> scan_inv n a t \<and> launder_markers own d x t"
proof -
  let ?m = "vmd_laundry_marker s d"
  let ?t = "vm_pageout_init_marker ?m 2 s"
  note i = init_marker_ok(1) [OF inv mk(1), of 2] init_marker_ok(2) [OF inv mk(1), of own 2] init_marker_ok(3) [OF inv mk(1), of 2]
  have vm: "vmd_laundry_marker ?t d = ?m" using i(2) by (simp add: interferes_def)
  have "spare ?t x" using interferes_spare [OF i(2) mk(2)] own by simp
  moreover have "queue (pages ?t ?m) = 2" by (simp add: vm_pageout_init_marker_def marker_page_def)
  ultimately have "launder_markers own d x ?t" using i(3) mk(3) own by (simp add: launder_markers_def vm)
  then show ?thesis using i(1) by (simp add: laundry_worker_start_def)
qed

end
