(* ===== verification/VmLaunderProps.thy ===== *)
theory VmLaunderProps
  imports VmLaunderLaws VmSamples
begin

text \<open>
  The properties of the laundering of pages: clusters, their way to the pager, the scan of the laundry
  queue and the laundry thread.
\<close>

subsection \<open>A state with a laundry queue\<close>

text \<open>The pages 3 to 6 of the object are dirty and in the laundry queue, page 7 is held in addition; page 1
  is the marker of the laundry queue.\<close>

definition laundry_pages :: "pg \<Rightarrow> vm_page" where
  "laundry_pages m =
     (if m = 1 then marker_page PQ_LAUNDRY
      else if m < 3 then marker_page PQ_INACTIVE
      else if m < 8 then (sample_page (Some 0) (of_nat m) PQ_LAUNDRY)\<lparr>valid := VM_PAGE_BITS_ALL, dirty := VM_PAGE_BITS_ALL,
        hold_count := (if m = 7 then 1 else 0)\<rparr>
      else sample_page None 0 PQ_NONE)"

definition vm2 :: "(u_long \<times> pg) list vm" where
  "vm2 = vm1\<lparr>pages := laundry_pages,
     pq_pl := (\<lambda>d q. if q = PQ_INACTIVE then [0] else if q = PQ_LAUNDRY \<and> d = 0 then [5, 3, 7, 4, 6] else []),
     pq_cnt := (\<lambda>d q. if d = 0 \<and> q = PQ_LAUNDRY then 5 else 0), pq_vcnt := (\<lambda>q. if q = PQ_LAUNDRY then 5 else 0)\<rparr>"

lemma vm2_simps:
  "pages vm2 = laundry_pages" "pq_pl vm2 = (\<lambda>d q. if q = 0 then [0] else if q = 2 \<and> d = 0 then [5, 3, 7, 4, 6] else [])"
  "pq_cnt vm2 = (\<lambda>d q. if d = 0 \<and> q = 2 then 5 else 0)" "pq_vcnt vm2 = (\<lambda>q. if q = 2 then 5 else 0)"
  "phys_domain vm2 = (\<lambda>_. 0)" "vmd_inacthead vm2 = (\<lambda>_. 0)" "vmd_laundry_marker vm2 = (\<lambda>_. 1)"
  "memq vm2 = memq vm1" "rtree vm2 = rtree vm1" "is_modified vm2 = (\<lambda>_. False)" "is_mapped vm2 = (\<lambda>_. False)"
  "is_write_mapped vm2 = (\<lambda>_. False)" "obj_size vm2 = (\<lambda>_. 100)" "obj_ref_count vm2 = (\<lambda>_. 0)"
  by (simp_all add: vm2_def fun_eq_iff) (simp_all add: vm1_def)

lemma laundry_page:
  "marker vm2 m \<longleftrightarrow> m < 3" "queue (laundry_pages m) = (if m = 1 then 2 else if m < 3 then 0 else if m < 8 then 2 else 255)"
  "pg_object (laundry_pages m) = (if 3 \<le> m \<and> m \<le> 7 then Some 0 else None)"
  "3 \<le> m \<Longrightarrow> m \<le> 7 \<Longrightarrow> pindex (laundry_pages m) = of_nat m" "3 \<le> m \<Longrightarrow> m \<le> 7 \<Longrightarrow> valid (laundry_pages m) = VM_PAGE_BITS_ALL"
  "3 \<le> m \<Longrightarrow> m \<le> 7 \<Longrightarrow> dirty (laundry_pages m) = VM_PAGE_BITS_ALL" "3 \<le> m \<Longrightarrow> busy_lock (laundry_pages m) = VPB_UNBUSIED"
  "3 \<le> m \<Longrightarrow> hold_count (laundry_pages m) = (if m = 7 then 1 else 0)" "aflags (laundry_pages m) = 0"
  "3 \<le> m \<Longrightarrow> pg_flags (laundry_pages m) = 0" "3 \<le> m \<Longrightarrow> oflags (laundry_pages m) = 0" "wire_count (laundry_pages m) = 0"
  by (auto simp: marker_def vm2_simps laundry_pages_def marker_page_def sample_page_def PG_MARKER_def)

lemma vm_wf_vm2: "vm_wf 1 vm2"
proof (rule vm_wfI)
  show "page_ok 1 vm2 m" if "\<not> marker vm2 m" for m
    using that laundry_page [of m] by (auto simp: page_ok_def fictitious_def unmanaged_def vm2_simps)
  show "list_ok vm2 d q" if "q < 3" for d q
    using u_char_less3 [OF that]
    by (auto simp: list_ok_def queued_def laundry_page home_def vm2_simps split: if_splits)
qed (use u_char_less3 in \<open>auto simp: laundry_page vm2_simps\<close>)

lemma obj_wf_vm2: "obj_wf map_of vm2"
  unfolding obj_wf_def
proof
  fix ob
  have p: "pg_object (pages vm2 x) = pg_object (pages vm1 x)" for x by (simp add: vm2_simps laundry_page object_vm1)
  show "obj_ok map_of vm2 ob"
  proof (rule obj_ok_transfer [of map_of vm1])
    show "obj_ok map_of vm1 ob" using obj_wf_vm1 by (simp add: obj_wf_def)
    show "pindex (pages vm2 x) = pindex (pages vm1 x)" if "pg_object (pages vm1 x) = Some ob" for x
      using that by (simp add: vm2_simps laundry_page object_vm1 pindex_vm1 split: if_splits)
  qed (simp_all add: p, simp_all add: vm2_def)
qed

lemma scan_inv_vm2: "scan_inv 1 map_of vm2"
proof -
  have "reclaimable vm2 x" if "3 \<le> x" "x \<le> 7" for x
    using that by (simp add: reclaimable_def vm2_simps laundry_page)
  then show ?thesis
    using vm_wf_vm2 obj_wf_vm2 u_char_less3
    by (auto simp: scan_inv_def vm_inv_def sound_bits_def laundry_page vm2_simps split: if_splits)
qed

lemma launder_markers_vm2: "{1, 2} \<subseteq> own \<Longrightarrow> launder_markers own 0 2 vm2" "spare vm2 1" "spare vm2 2"
  using u_char_less3 by (auto simp: launder_markers_def spare_def laundry_page vm2_simps)

text \<open>The pager answers that the second page has to be tried again; others hold page 6 while the vnode
  lock is waited for.\<close>

definition launder1 :: "(u_long \<times> pg) list launder_env" where
  "launder1 = \<lparr>la_env = env1, la_locks = busy_locks, dirty_after_remove_write = (\<lambda>_ d. d),
     put_pages = (\<lambda>_ mc s. (s, \<lambda>i. if i = 1 then VM_PAGER_AGAIN else VM_PAGER_OK)), la_now = (0, 0),
     vnode_of = (\<lambda>_. \<lparr>vn_regular = True, vn_started = True, vn_mount = True, vget_wait = (\<lambda>s. if marker s 6 then s else vm_page_hold 6 s),
       vn_gotten = True, vn_same_object = True\<rparr>),
     vm_pageout_page_count = 8, disable_swap_pageouts = False\<rparr>"

lemma launder1_simps:
  "vm_pageout_page_count launder1 = 8" "la_locks launder1 = busy_locks" "keeps_dirty launder1" "la_env launder1 = env1"
  "put_pages launder1 k mc s = (s, \<lambda>i. if i = 1 then VM_PAGER_AGAIN else VM_PAGER_OK)"
  "vn_regular (vnode_of launder1 k)" "vn_mount (vnode_of launder1 k)" "vget_wait (vnode_of launder1 k) = (\<lambda>s. if marker s 6 then s else vm_page_hold 6 s)"
  "local_marker busy_locks = 2"
  by (simp_all add: launder1_def busy_locks_def keeps_dirty_def)

lemma paged_ok_given: "given mc s \<Longrightarrow> paged_ok st i mc s"
  by (induction mc arbitrary: i) (auto simp: given_def)

lemma good_pager1: "good_pager own n a launder1"
  unfolding good_pager_def launder1_simps prod.case by (intro allI impI conjI interferes_refl paged_ok_given)

lemma good_launder1: "11 \<notin> own \<Longrightarrow> good_launder own n map_of launder1"
  unfolding good_launder_def launder1_simps(1,2,4,8) env1_radix
  using al_radix_ok good_busy_locks good_pager1 launder1_simps(3,6,7) by (intro conjI allI bystanders_hold) simp_all

lemma fits_vm2: "fits vm2 m \<longleftrightarrow> 3 \<le> m \<and> m \<le> 6"
proof (cases "3 \<le> m")
  case True
  then show ?thesis by (auto simp: fits_def vm2_simps laundry_page vm_page_busied_def VM_PAGE_BITS_ALL_def split: if_splits)
next
  case False
  then have "vm_page_busied (busy_lock (pages vm2 m))"
    by (simp add: vm2_simps laundry_pages_def marker_page_def vm_page_busied_def VPB_UNBUSIED_def VPB_SHARERS_WORD_def VPB_SINGLE_EXCLUSIVER_def VPB_BIT_SHARED_def VPB_BIT_EXCLUSIVE_def VPB_SHARERS_SHIFT_def)
  then show ?thesis using False by (simp add: fits_def)
qed

lemma vm2_index: "pg_object (pages vm2 p) = Some 0 \<Longrightarrow> 3 \<le> p \<and> p \<le> 7 \<and> uint (pindex (pages vm2 p)) = int p"
proof -
  assume "pg_object (pages vm2 p) = Some 0"
  then have p: "3 \<le> p" "p \<le> 7" by (simp_all add: vm2_simps laundry_page split: if_splits)
  then have "p = 3 \<or> p = 4 \<or> p = 5 \<or> p = 6 \<or> p = 7" by linarith
  then show ?thesis by (elim disjE) (simp_all add: vm2_simps laundry_page)
qed

lemma slot_vm2: "slot map_of vm2 0 i = (if 3 \<le> i \<and> i \<le> 7 then Some (nat i) else None)"
proof (cases "3 \<le> i \<and> i \<le> 7")
  case True
  then have "3 \<le> nat i" "nat i \<le> 7" by linarith+
  then have "pg_object (pages vm2 (nat i)) = Some 0" by (simp add: vm2_simps laundry_page)
  then show ?thesis using True slot_iff [OF obj_wf_vm2, of 0 i "nat i"] vm2_index [of "nat i"] by simp
next
  case False
  have "slot map_of vm2 0 i \<noteq> Some p" for p
    using False slot_iff [OF obj_wf_vm2, of 0 i p] vm2_index [of p] by auto
  then show ?thesis unfolding if_not_P [OF False] by (cases "slot map_of vm2 0 i") blast+
qed

lemma joins_vm2: "joins map_of vm2 0 i \<longleftrightarrow> 3 \<le> i \<and> i \<le> 6"
  unfolding joins_def slot_vm2 by (auto simp: fits_vm2 split: if_splits)

subsection \<open>The properties\<close>

text \<open>
  C8: Page clusters. For a dirty page of the laundry queue that is neither busy nor held,
  vm_pageout_cluster collects a run of pages of the object at consecutive indices around it, with every
  access to its array in bounds and in fewer turns of its loops than a cluster has pages. All of them are
  unheld dirty laundry pages that nobody can write any more, there are at most vm_pageout_page_count,
  and when there are fewer, the page before the run and the page behind it are missing, past the end of
  the object, or not fit.
\<close>

theorem cluster_is_full_run:
  assumes "scan_inv n a s" "keeps_dirty A" "1 \<le> vm_pageout_page_count A" "vm_pageout_page_count A < 2 ^ 31"
    "pg_object (pages s m) = Some ob" "fits s m" "dirty (pages s m) \<noteq> 0"
  shows "\<exists>t lo hi. gather_cluster A m s = Inr (t, page_run a s ob lo hi) \<and>
    full_run a s ob (vm_pageout_page_count A) (uint (pindex (pages s m))) lo hi \<and> distinct (page_run a s ob lo hi) \<and>
    list_all (ready t) (page_run a s ob lo hi) \<and> scan_inv n a t \<and> only_bits s t"
proof -
  obtain t lo hi where g: "gather_cluster A m s = Inr (t, page_run a s ob lo hi)"
    "full_run a s ob (vm_pageout_page_count A) (uint (pindex (pages s m))) lo hi" "interferes own {} n a s t" "only_bits s t"
    "list_all (ready t) (page_run a s ob lo hi)"
    using gather_ok [OF assms(2) refl assms(3,4,1,5-7)] by blast
  have "distinct (page_run a s ob lo hi)"
    using page_run_distinct [OF scan_invD(3) [OF assms(1)]] g(2) by (simp add: full_run_def)
  then show ?thesis using g interferes_inv(1) [OF g(3)] by blast
qed

theorem cluster_is_full_run_witness:
  "\<exists>t. gather_cluster launder1 4 vm2 = Inr (t, [3, 4, 5, 6]) \<and> list_all (ready t) [3, 4, 5, 6]"
proof -
  obtain t lo hi where g: "gather_cluster launder1 4 vm2 = Inr (t, page_run map_of vm2 0 lo hi)"
    "full_run map_of vm2 0 8 4 lo hi" "list_all (ready t) (page_run map_of vm2 0 lo hi)"
    using cluster_is_full_run [OF scan_inv_vm2 launder1_simps(3), of 4 0]
    by (auto simp: launder1_simps fits_vm2 vm2_simps laundry_page VM_PAGE_BITS_ALL_def)
  have r: "lo \<le> 4" "4 \<le> hi" "list_all (\<lambda>i. 3 \<le> i \<and> i \<le> 6) [lo..hi]"
    "hi - lo + 1 = 8 \<or> \<not> (3 \<le> lo - 1 \<and> lo - 1 \<le> 6) \<and> \<not> (3 \<le> hi + 1 \<and> hi + 1 \<le> 6)"
  proof -
    have "joins map_of vm2 0 = (\<lambda>i. 3 \<le> i \<and> i \<le> 6)" by (simp add: fun_eq_iff joins_vm2)
    then show "lo \<le> 4" "4 \<le> hi" "list_all (\<lambda>i. 3 \<le> i \<and> i \<le> 6) [lo..hi]"
      "hi - lo + 1 = 8 \<or> \<not> (3 \<le> lo - 1 \<and> lo - 1 \<le> 6) \<and> \<not> (3 \<le> hi + 1 \<and> hi + 1 \<le> 6)"
      using g(2) by (auto simp: full_run_def vm2_simps)
  qed
  have "lo \<in> set [lo..hi]" "hi \<in> set [lo..hi]" using r(1,2) by simp_all
  then have "3 \<le> lo" "hi \<le> 6" using r(3) unfolding list_all_iff by blast+
  then have e: "lo = 3" "hi = 6" using r(1,2,4) by linarith+
  have "page_run map_of vm2 0 3 6 = [3, 4, 5, 6]" by (simp add: page_run_def slot_vm2 upto_rec1)
  then show ?thesis using g(1,3) unfolding e by auto
qed

text \<open>
  C9: Writing a cluster. vm_pageout_flush never faults on pages that are ready for it, whatever the pager
  answers for them, and keeps the invariants. It returns what its comment says: the number of pages laundered,
  the number of pages between mreq and the first page behind it that has to be tried again, and whether
  the pager failed for one of these.
\<close>

theorem flush_outcome:
  assumes "good_pager own n a A" "scan_inv n a s" "mc \<noteq> []" "distinct mc" "\<forall>m\<in>set mc. flushable s m"
    "pg_object (pages s (hd mc)) = Some ob" "0 \<le> mreq" "mreq \<le> int (length mc)"
  shows "\<exists>t s' r. flush_start mc s = Inr t \<and> vm_pageout_flush A k mc mreq s = Inr (s', r) \<and> scan_inv n a s' \<and>
    flush_reads (statuses A k ob mc t) mreq (length mc) (length mc) r"
proof -
  obtain t s' where "flush_start mc s = Inr t" "vm_pageout_flush A k mc mreq s =
      Inr (s', flush_result (statuses A k ob mc t) mreq 0 (length mc) (0, int (length mc) - mreq, False))" "interferes own {} n a s s'"
    using flush_ok [OF assms(1-6), of k mreq] by blast
  then show ?thesis using flush_result_ok [OF assms(7,8)] interferes_inv(1) by blast
qed

theorem flush_outcome_witness:
  "\<exists>s'. vm_pageout_flush launder1 0 [3, 4, 5] 0 vm2 = Inr (s', 2, 1, False) \<and> scan_inv 1 map_of s'"
proof -
  have fl: "\<forall>m\<in>set [3, 4, 5]. flushable vm2 m"
    using fits_vm2 scan_invD(6) [OF scan_inv_vm2]
    by (simp add: flushable_def laundry_page vm2_simps(1,12)) (simp add: vm_page_busied_def)
  have ob: "pg_object (pages vm2 (hd [3, 4, 5])) = Some 0" by (simp add: vm2_simps laundry_page)
  obtain t s' r where f: "vm_pageout_flush launder1 0 [3, 4, 5] 0 vm2 = Inr (s', r)" "scan_inv 1 map_of s'"
    "flush_reads (statuses launder1 0 0 [3, 4, 5] t) 0 (length [3, 4, 5 :: pg]) (length [3, 4, 5 :: pg]) r"
    using flush_outcome [OF good_pager1 [of UNIV] scan_inv_vm2 _ _ fl ob, of 0 0] by (simp del: One_nat_def flush_start.simps list.size) blast
  obtain num runlen eio where r: "r = (num, runlen, eio)" by (cases r)
  have st: "statuses launder1 0 0 [3, 4, 5] t = (\<lambda>i. if i = 1 then VM_PAGER_AGAIN else VM_PAGER_OK)"
    by (simp add: statuses_def launder1_simps)
  have F: "num = 2" "0 \<le> runlen" "\<forall>j<3. int j < runlen \<longrightarrow> j \<noteq> 1" "runlen < 3 \<longrightarrow> nat runlen = 1" "\<not> eio" "runlen \<le> 3"
    using f(3) unfolding r st flush_reads_def prod.case by (auto simp: upt_rec split: if_splits)
  have "\<not> 1 < runlen" using F(3) [rule_format, of 1] by auto
  then have "runlen = 1" using F(4) by linarith
  then show ?thesis using f(1,2) F(1,5) by (simp add: r)
qed

text \<open>
  C10: A laundering. vm_pageout_launder runs without a fault whatever the pager, the vnode locks and the
  other threads do within the contracts stated for C4, keeps the invariants of queues, objects and markers, and goes over the number of pages
  it was asked for by at most a cluster minus one, as the laundry thread counts on; asked for none it
  launders none.
\<close>

theorem launder_bounded:
  assumes "good_launder own n a A" "scan_inv n a s" "launder_markers own d (local_marker (la_locks A)) s"
  shows "\<exists>s' num. vm_pageout_launder A d launder s = Inr (s', num) \<and> scan_inv n a s' \<and>
    launder_markers own d (local_marker (la_locks A)) s' \<and> 0 \<le> num \<and>
    num \<le> (if 0 < launder then launder + (vm_pageout_page_count A - 1) else 0)"
proof -
  obtain s' num where l: "vm_pageout_launder A d launder s = Inr (s', num)" "interferes own {local_marker (la_locks A)} n a s s'" "0 \<le> num"
    "if 0 < launder then num < launder + vm_pageout_page_count A else num = 0"
    using pageout_launder_ok [OF assms] by blast
  then show ?thesis
    using interferes_inv(1) [OF l(2)] launder_markers_step [OF l(2) assms(3)] by (auto split: if_splits)
qed

theorem launder_bounded_witness:
  "\<exists>s' num. vm_pageout_launder launder1 0 2 vm2 = Inr (s', num) \<and> scan_inv 1 map_of s' \<and> 0 \<le> num \<and> num \<le> 9"
proof -
  obtain s' num where "vm_pageout_launder launder1 0 2 vm2 = Inr (s', num)" "scan_inv 1 map_of s'" "0 \<le> num"
    "num \<le> (if 0 < (2::int) then 2 + (vm_pageout_page_count launder1 - 1) else 0)"
    using launder_bounded [OF good_launder1 [of "{1, 2}"] scan_inv_vm2, of 0 2] launder_markers_vm2(1) [of "{1, 2}"]
    unfolding launder1_simps(2,9) by (auto simp del: One_nat_def)
  then show ?thesis by (auto simp: launder1_simps(1))
qed





end
