(* ===== verification/VmContig.thy ===== *)
theory VmContig
  imports VmFree
begin

text \<open>
  Contiguous physical memory in vm_page.c: the search of vm_page_array for a run of pages that are
  free or can be moved away, the allocation of a run, and the reclamation of runs by moving their
  pages elsewhere. A page is its index in vm_page_array. Its physical address, its order in the
  physical allocator and the reservation it is in are kept by vm_phys.c and vm_reserv.c; they are
  arguments of the functions, as is what other threads do while a lock is awaited.
\<close>

subsection \<open>Address arithmetic\<close>

definition PAGE_SHIFT :: nat where "PAGE_SHIFT = 12"

definition atop :: "u_long \<Rightarrow> u_long" where "atop x = drop_bit PAGE_SHIFT x"
definition ptoa :: "u_long \<Rightarrow> u_long" where "ptoa x = push_bit PAGE_SHIFT x"
definition rounddown2 :: "u_long \<Rightarrow> u_long \<Rightarrow> u_long" where "rounddown2 x y = x AND NOT (y - 1)"
definition roundup2 :: "u_long \<Rightarrow> u_long \<Rightarrow> u_long" where "roundup2 x y = (x + (y - 1)) AND NOT (y - 1)"
definition powerof2 :: "u_long \<Rightarrow> bool" where "powerof2 x \<longleftrightarrow> (x - 1) AND x = 0"

text \<open>The value of an int that an unsigned long is assigned to, and of one that has been added to.\<close>

definition to_int :: "u_long \<Rightarrow> int" where "to_int w = sint (ucast w :: c_int)"
definition int_add :: "int \<Rightarrow> int \<Rightarrow> int" where "int_add x y = signed_take_bit 31 (x + y)"

subsection \<open>Looking for a run\<close>

definition VPSC_ANY :: u_int where "VPSC_ANY = 0"
definition VPSC_NORESERV :: u_int where "VPSC_NORESERV = 1"
definition VPSC_NOSUPER :: u_int where "VPSC_NOSUPER = 2"

definition VPO_SWAPSLEEP :: "8 word" where "VPO_SWAPSLEEP = 0x02"
definition VPO_SWAPINPROG :: "8 word" where "VPO_SWAPINPROG = 0x08"

record contig_env =
  phys_addr :: "pg \<Rightarrow> u_long"
  reserv_size :: "int \<Rightarrow> u_long"
  VM_NFREEORDER :: nat

text \<open>What the scan sees when it has the lock of a page: the memory, vm_reserv_level and
  vm_reserv_level_iffullpop of the page, and its order.\<close>

record 'r page_view =
  pv_vm :: "'r vm"
  pv_level :: int
  pv_level_full :: int
  pv_order :: nat

definition end_of_reserv :: "contig_env \<Rightarrow> pg \<Rightarrow> int \<Rightarrow> int" where
  "end_of_reserv C m level =
     (let pa = phys_addr C m in to_int (atop (roundup2 (pa + 1) (reserv_size C level) - pa)))"

text \<open>A page is pinned when it is wired or held.\<close>

definition pinned :: "'r vm \<Rightarrow> pg \<Rightarrow> bool" where
  "pinned s m \<longleftrightarrow> wire_count (pages s m) \<noteq> 0 \<or> hold_count (pages s m) \<noteq> 0"

definition swappable :: "obj \<Rightarrow> 'r vm \<Rightarrow> bool" where
  "swappable ob s \<longleftrightarrow> obj_anonymous s ob \<or> is_vnode s ob"

text \<open>By how many pages the run grows, 0 if it ends at \<open>m\<close>, and m_inc. This part has the lock of the
  object.\<close>

definition scan_owned :: "contig_env \<Rightarrow> u_int \<Rightarrow> pg \<Rightarrow> obj \<Rightarrow> 'r page_view \<Rightarrow> fault + int \<times> int" where
  "scan_owned C opts m ob v =
     (let s = pv_vm v; p = pages s m in
      rbind (kassert (pg_flags p AND PG_UNHOLDFREE = 0) ''page is PG_UNHOLDFREE'') (\<lambda>_.
      if \<not> swappable ob s then Inr (0, 1)
      else if has_flag opts VPSC_NOSUPER \<and> pv_level_full v \<ge> 0 then Inr (0, end_of_reserv C m (pv_level_full v))
      else if obj_memattr_default s ob \<and> queue p \<noteq> PQ_NONE \<and> \<not> vm_page_busied (busy_lock p) then
        rbind (kassert (memattr_default s m) ''page has an unexpected memattr'') (\<lambda>_.
        rbind (kassert (oflags p AND (VPO_SWAPINPROG OR VPO_SWAPSLEEP OR VPO_UNMANAGED) = 0)
          ''page has unexpected oflags'') (\<lambda>_.
        Inr (1, 1)))
      else Inr (0, 1)))"

text \<open>The list has a view for every time that the lock of the object is not free: the one that the
  scan has when it gets the lock.\<close>

fun scan_page :: "contig_env \<Rightarrow> u_int \<Rightarrow> pg \<Rightarrow> 'r page_view \<Rightarrow> 'r page_view list \<Rightarrow> fault + int \<times> int" where
  "scan_page C opts m v waits =
     (if pinned (pv_vm v) m then Inr (0, 1)
      else if pv_level v \<ge> 0 \<and> has_flag opts VPSC_NORESERV then Inr (0, end_of_reserv C m (pv_level v))
      else
        case pg_object (pages (pv_vm v) m) of
          Some ob \<Rightarrow>
            (case waits of [] \<Rightarrow> scan_owned C opts m ob v
             | v' # waits' \<Rightarrow>
                 if pg_object (pages (pv_vm v') m) \<noteq> Some ob then scan_page C opts m v' waits'
                 else if pinned (pv_vm v') m then Inr (0, 1)
                 else scan_owned C opts m ob v')
        | None \<Rightarrow>
            if pv_level v \<ge> 0 then Inr (1, 1)
            else if pv_order v < VM_NFREEORDER C then Inr (2 ^ pv_order v, 2 ^ pv_order v)
            else Inr (0, 1))"

declare scan_page.simps [simp del]

text \<open>Whether a run of \<open>npages\<close> may start at \<open>m\<close>.\<close>

datatype run_start = Past_end | Skip_to int | May_start

record run_request =
  rq_npages :: u_long
  rq_alignment :: u_long
  rq_boundary :: u_long
  rq_options :: u_int

definition run_start :: "contig_env \<Rightarrow> run_request \<Rightarrow> int \<Rightarrow> int \<Rightarrow> run_start" where
  "run_start C q m_end m =
     (let pa = phys_addr C (nat m) in
      if m + uint (rq_npages q) > m_end then Past_end
      else if pa AND (rq_alignment q - 1) \<noteq> 0 then Skip_to (to_int (atop (roundup2 pa (rq_alignment q) - pa)))
      else if rounddown2 (pa XOR (pa + ptoa (rq_npages q) - 1)) (rq_boundary q) \<noteq> 0
      then Skip_to (to_int (atop (roundup2 pa (rq_boundary q) - pa)))
      else May_start)"

definition run_found :: "run_request \<Rightarrow> pg option \<Rightarrow> int \<Rightarrow> pg option" where
  "run_found q m_run run_len = (if of_int run_len \<ge> rq_npages q then m_run else None)"

text \<open>\<open>views\<close> gives what the scan sees when it comes to a page; the number is the turns that are left.\<close>

fun scan_loop ::
    "contig_env \<Rightarrow> (pg \<Rightarrow> 'r page_view \<times> 'r page_view list) \<Rightarrow> run_request \<Rightarrow> int \<Rightarrow> nat \<Rightarrow>
     int \<Rightarrow> pg option \<Rightarrow> int \<Rightarrow> fault + pg option" where
  "scan_loop C views q m_end 0 m m_run run_len = Inl (Diverges ''vm_page_scan_contig'')"
| "scan_loop C views q m_end (Suc n) m m_run run_len =
     (if \<not> (m < m_end \<and> of_int run_len < rq_npages q) then Inr (run_found q m_run run_len)
      else if m < 0 then Inl (OutOfBounds ''vm_page_array'')
      else
        let (v, waits) = views (nat m); p = pages (pv_vm v) (nat m) in
        rbind (kassert (pg_flags p AND PG_MARKER = 0) ''page is PG_MARKER'') (\<lambda>_.
        rbind (kassert (pg_flags p AND PG_FICTITIOUS = 0 \<or> wire_count p = 1)
          ''fictitious page has invalid wire count'') (\<lambda>_.
        rbind (kassert (run_len = 0 \<longleftrightarrow> m_run = None) ''m_run'') (\<lambda>_.
        case (if run_len = 0 then run_start C q m_end m else May_start) of
          Past_end \<Rightarrow> Inr (run_found q m_run run_len)
        | Skip_to k \<Rightarrow> scan_loop C views q m_end n (m + k) m_run run_len
        | May_start \<Rightarrow>
            rbind (scan_page C (rq_options q) (nat m) v waits) (\<lambda>(ext, inc).
            if ext > 0 then
              scan_loop C views q m_end n (m + inc) (if run_len = 0 then Some (nat m) else m_run) (int_add run_len ext)
            else if run_len > 0 then scan_loop C views q m_end n (m + inc) None 0
            else scan_loop C views q m_end n (m + inc) m_run run_len)))))"

definition vm_page_scan_contig ::
    "contig_env \<Rightarrow> (pg \<Rightarrow> 'r page_view \<times> 'r page_view list) \<Rightarrow> nat \<Rightarrow> run_request \<Rightarrow> pg \<Rightarrow> pg \<Rightarrow> fault + pg option" where
  "vm_page_scan_contig C views fuel q m_start m_end =
     rbind (kassert (rq_npages q > 0) ''npages is 0'') (\<lambda>_.
     rbind (kassert (powerof2 (rq_alignment q)) ''alignment is not a power of 2'') (\<lambda>_.
     rbind (kassert (powerof2 (rq_boundary q)) ''boundary is not a power of 2'') (\<lambda>_.
     scan_loop C views q (int m_end) fuel (int m_start) None 0)))"


subsection \<open>Allocating a run\<close>

definition may_alloc_run :: "'r vm_env \<Rightarrow> u_int \<Rightarrow> u_long \<Rightarrow> u_int \<Rightarrow> bool" where
  "may_alloc_run E req_class npages free \<longleftrightarrow> ucast free \<ge> npages + ucast (v_free_reserved E) \<or>
     (req_class = VM_ALLOC_SYSTEM \<and> ucast free \<ge> npages + ucast (v_interrupt_free_min E)) \<or>
     (req_class = VM_ALLOC_INTERRUPT \<and> ucast free \<ge> npages)"

text \<open>The attempts of the \<open>again\<close> loop: the free count that is found, and the first page of the run that a
  reservation or the physical allocator hands out, if necessary after a reservation has been broken.\<close>

fun run_alloc_loop :: "'r vm_env \<Rightarrow> u_int \<Rightarrow> u_int \<Rightarrow> u_long \<Rightarrow> (u_int \<times> pg option) list \<Rightarrow> 'r vm \<Rightarrow>
    fault + 'r vm \<times> pg option" where
  "run_alloc_loop E req req_class npages [] s = Inl (Diverges ''vm_page_alloc_contig'')"
| "run_alloc_loop E req req_class npages ((free, got) # rest) s =
    (let s = s\<lparr>v_free_count := free\<rparr> in
     if may_alloc_run E req_class npages free then Inr (s, got)
     else
       rbind (vm_page_alloc_fail E req s) (\<lambda>(s, again).
       if again then run_alloc_loop E req req_class npages rest s else Inr (s, None)))"

definition run_pages :: "pg \<Rightarrow> nat \<Rightarrow> pg list" where
  "run_pages m n = [m..<m + n]"

definition take_run :: "'r vm_env \<Rightarrow> pg \<Rightarrow> nat \<Rightarrow> 'r vm \<Rightarrow> 'r vm" where
  "take_run E m n s =
     fold (\<lambda>x s. let s = vm_call (AllocPage x) s in
         if pg_flags (pages s x) AND PG_ZERO \<noteq> 0 then s\<lparr>vm_page_zero_count := vm_page_zero_count s - 1\<rparr> else s)
       (run_pages m n) (adj_free E m (- int n) s)"

fun alloc_checks :: "pg list \<Rightarrow> 'r vm \<Rightarrow> fault + unit" where
  "alloc_checks [] s = Inr ()"
| "alloc_checks (m # ms) s = rbind (vm_page_alloc_check m s) (\<lambda>_. alloc_checks ms s)"

definition contig_page :: "obj option \<Rightarrow> u_int \<Rightarrow> 'r vm \<Rightarrow> vm_page \<Rightarrow> vm_page" where
  "contig_page ob req s p =
     p\<lparr>aflags := 0,
       pg_flags := (pg_flags p OR PG_NODUMP) AND
         ((if has_flag req VM_ALLOC_ZERO then PG_ZERO else 0) OR (if has_flag req VM_ALLOC_NODUMP then PG_NODUMP else 0)),
       busy_lock := (if has_flag req VM_ALLOC_SBUSY then VPB_SHARERS_WORD 1
                     else if has_flag req (VM_ALLOC_NOBUSY OR VM_ALLOC_NOOBJ OR VM_ALLOC_SBUSY) then VPB_UNBUSIED
                     else VPB_SINGLE_EXCLUSIVER),
       wire_count := (if has_flag req VM_ALLOC_WIRED then 1 else wire_count p),
       act_count := 0,
       oflags := (if case ob of None \<Rightarrow> True | Some ob \<Rightarrow> obj_unmanaged s ob then VPO_UNMANAGED else 0)\<rparr>"

definition set_memattr :: "bool \<Rightarrow> pg \<Rightarrow> 'r vm \<Rightarrow> 'r vm" where
  "set_memattr dflt m s =
     (if dflt then s else (vm_call (PmapMemattr m) s)\<lparr>memattr_default := (memattr_default s)(m := False)\<rparr>)"

text \<open>The initialisation of the pages: the page whose insertion failed.\<close>

fun contig_init :: "'r vm_env \<Rightarrow> obj option \<Rightarrow> u_int \<Rightarrow> bool \<Rightarrow> u_long \<Rightarrow> pg option \<Rightarrow> pg list \<Rightarrow> 'r vm \<Rightarrow>
    fault + 'r vm \<times> pg option" where
  "contig_init E ob req dflt pi mpred [] s = Inr (s, None)"
| "contig_init E ob req dflt pi mpred (m # ms) s =
     (let s = upd_pg m (contig_page ob req s) s in
      case ob of
        None \<Rightarrow> contig_init E ob req dflt (pi + 1) mpred ms (set_memattr dflt m (upd_pg m (\<lambda>p. p\<lparr>pindex := pi\<rparr>) s))
      | Some o' \<Rightarrow>
          rbind (vm_page_insert_after (radix_ops E) m o' pi mpred s) (\<lambda>(s, failed).
          if failed then Inr (s, Some m)
          else contig_init E ob req dflt (pi + 1) (Some m) ms (set_memattr dflt m s)))"

text \<open>After a failure at the page \<open>bad\<close> all pages of the run are freed.\<close>

fun contig_undo :: "'r vm_env \<Rightarrow> u_int \<Rightarrow> pg \<Rightarrow> pg list \<Rightarrow> 'r vm \<Rightarrow> fault + 'r vm" where
  "contig_undo E req bad [] s = Inr s"
| "contig_undo E req bad (m # ms) s =
     rbind (vm_page_free_toq E m (upd_pg m (\<lambda>p. p\<lparr>
         wire_count := (if m \<le> bad \<and> has_flag req VM_ALLOC_WIRED then 0 else wire_count p),
         oflags := VPO_UNMANAGED, busy_lock := VPB_UNBUSIED\<rparr>) s)) (contig_undo E req bad ms)"

text \<open>\<open>dflt\<close>: the argument memattr is VM_MEMATTR_DEFAULT.\<close>

definition vm_page_alloc_contig ::
    "'r vm_env \<Rightarrow> obj option \<Rightarrow> u_long \<Rightarrow> u_int \<Rightarrow> u_long \<Rightarrow> bool \<Rightarrow> (u_int \<times> pg option) list \<Rightarrow> 'r vm \<Rightarrow>
     fault + 'r vm \<times> pg option" where
  "vm_page_alloc_contig E ob pi req npages dflt attempts s =
     rbind (kassert ((ob \<noteq> None) = (\<not> has_flag req VM_ALLOC_NOOBJ) \<and>
        (ob \<noteq> None \<or> \<not> has_flag req VM_ALLOC_SBUSY) \<and>
        req AND (VM_ALLOC_NOBUSY OR VM_ALLOC_SBUSY) \<noteq> VM_ALLOC_NOBUSY OR VM_ALLOC_SBUSY)
       ''vm_page_alloc_contig: inconsistent object/req'') (\<lambda>_.
     rbind (kassert (ob = None \<or> \<not> has_flag req VM_ALLOC_WAITOK)
       ''Can't sleep and retry object insertion.'') (\<lambda>_.
     rbind (case ob of None \<Rightarrow> Inr ()
            | Some o' \<Rightarrow> kassert (\<not> obj_fictitious s o') ''vm_page_alloc_contig: object has fictitious pages'') (\<lambda>_.
     rbind (kassert (npages > 0) ''vm_page_alloc_contig: npages is zero'') (\<lambda>_.
     let mpred = (case ob of None \<Rightarrow> None | Some o' \<Rightarrow> r_lookup_le (radix_ops E) pi (rtree s o')) in
     rbind (case mpred of None \<Rightarrow> Inr ()
            | Some p \<Rightarrow> kassert (pindex (pages s p) \<noteq> pi) ''vm_page_alloc_contig: pindex already allocated'') (\<lambda>_.
     rbind (run_alloc_loop E req (req_class_of E req) npages attempts s) (\<lambda>(s, got).
     case got of None \<Rightarrow> Inr (s, None)
     | Some m_ret \<Rightarrow>
         let run = run_pages m_ret (unat npages); s = take_run E m_ret (unat npages) s in
         rbind (alloc_checks run s) (\<lambda>_.
         let s = (if has_flag req VM_ALLOC_WIRED then s\<lparr>v_wire_count := v_wire_count s + ucast npages\<rparr> else s);
             dflt = (dflt \<and> (case ob of None \<Rightarrow> True | Some o' \<Rightarrow> obj_memattr_default s o')) in
         rbind (contig_init E ob req dflt pi mpred run s) (\<lambda>(s, bad).
         case bad of
           None \<Rightarrow> Inr (if vm_paging_needed E (v_free_count s) then pagedaemon_wakeup E s else s, Some m_ret)
         | Some m \<Rightarrow>
             let s = pagedaemon_wakeup E s;
                 s = (if has_flag req VM_ALLOC_WIRED then s\<lparr>v_wire_count := v_wire_count s - ucast npages\<rparr> else s) in
             rbind (kassert (pg_object (pages s m) = None) ''page has object'') (\<lambda>_.
             rbind (contig_undo E req m run s) (\<lambda>s.
             Inr (call_if (has_flag req VM_ALLOC_WAITFAIL) RadixWait s, None)))))))))))"

text \<open>A page from one free list, for no object.\<close>

fun freelist_loop :: "'r vm_env \<Rightarrow> u_int \<Rightarrow> u_int \<Rightarrow> (u_int \<times> pg option) list \<Rightarrow> 'r vm \<Rightarrow>
    fault + 'r vm \<times> pg option" where
  "freelist_loop E req req_class [] s = Inl (Diverges ''vm_page_alloc_freelist'')"
| "freelist_loop E req req_class ((free, got) # rest) s =
    (let s = s\<lparr>v_free_count := free\<rparr> in
     if may_alloc E req_class free then Inr (s, got)
     else
       rbind (vm_page_alloc_fail E req s) (\<lambda>(s, again).
       if again then freelist_loop E req req_class rest s else Inr (s, None)))"

definition vm_page_alloc_freelist ::
    "'r vm_env \<Rightarrow> u_int \<Rightarrow> (u_int \<times> pg option) list \<Rightarrow> 'r vm \<Rightarrow> fault + 'r vm \<times> pg option" where
  "vm_page_alloc_freelist E req attempts s =
     rbind (freelist_loop E req (req_class_of E req) attempts s) (\<lambda>(s, got).
     case got of None \<Rightarrow> Inr (s, None)
     | Some m \<Rightarrow>
         let s = take_page E m s; free_count = v_free_count s in
         rbind (vm_page_alloc_check m s) (\<lambda>_.
         let s = upd_pg m (\<lambda>p. p\<lparr>aflags := 0,
                   pg_flags := pg_flags p AND (if has_flag req VM_ALLOC_ZERO then PG_ZERO else 0),
                   wire_count := (if has_flag req VM_ALLOC_WIRED then 1 else wire_count p), oflags := VPO_UNMANAGED\<rparr>) s;
             s = (if has_flag req VM_ALLOC_WIRED then s\<lparr>v_wire_count := v_wire_count s + 1\<rparr> else s) in
         Inr (if vm_paging_needed E free_count then pagedaemon_wakeup E s else s, Some m)))"

end
