(* ===== verification/VmContigLaws.thy ===== *)
theory VmContigLaws
  imports VmContig VmScanLaws
begin

text \<open>
  What the functions of vm_page.c on contiguous memory promise: a run that the scan reports lies in
  the range, meets the alignment and the boundary and consists of pages that are free or can be
  moved away; the scan ends unless the boundary is smaller than the run.
\<close>

subsection \<open>Address arithmetic\<close>

lemma uint_low: "uint (take_bit k x) = uint x mod 2 ^ k" for x :: u_long
  unfolding unsigned_take_bit_eq by (simp add: take_bit_eq_mod)

lemma low_mask: "2 ^ k - 1 = (mask k :: u_long)"
  by (simp add: mask_eq_exp_minus_1)

lemma and_low_zero: "x AND (2 ^ k - 1) = 0 \<longleftrightarrow> 2 ^ k dvd uint x" for x :: u_long
  unfolding low_mask take_bit_eq_mask [symmetric] uint_0_iff [symmetric] uint_low dvd_eq_mod_eq_0 ..

lemma and_not_low: "x AND NOT (2 ^ k - 1) = push_bit k (drop_bit k x)" for x :: u_long
  unfolding low_mask by (rule bit_eqI) (auto simp: bit_simps)

lemma uint_rounddown: "uint (x AND NOT (2 ^ k - 1)) = uint x - uint x mod 2 ^ k" for x :: u_long
proof -
  have e: "x AND NOT (2 ^ k - 1) = x - take_bit k x"
    using bits_ident [of k x] unfolding and_not_low by (simp add: eq_diff_eq)
  have "take_bit k x \<le> x" by (simp only: word_le_def uint_low) (simp add: zmod_le_nonneg_dividend)
  then show ?thesis unfolding e by (simp only: uint_sub_ok uint_low)
qed

lemma uint_pow2: "k < 64 \<Longrightarrow> uint (2 ^ k :: u_long) = 2 ^ k"
  by (rule uint_2p) (simp add: word_neq_0_conv [symmetric])

lemma up_mod: "p - 1 - (a + (p - 1)) mod p = (- a) mod p" if "0 < p" for a p :: int
proof -
  have r: "0 \<le> p - 1 - (a + (p - 1)) mod p" "p - 1 - (a + (p - 1)) mod p < p"
    using pos_mod_bound [OF that, of "a + (p - 1)"] pos_mod_sign [OF that, of "a + (p - 1)"] by linarith+
  have "(- a) mod p = (p - 1 - (a + (p - 1))) mod p" by simp
  also have "\<dots> = (p - 1 - (a + (p - 1)) mod p) mod p" by (simp only: mod_diff_right_eq)
  finally show ?thesis using r by simp
qed

lemma uint_roundup:
  assumes "k < 64" "uint x + 2 ^ k \<le> 2 ^ 64"
  shows "uint (roundup2 x (2 ^ k)) = uint x + (- uint x) mod 2 ^ k"
proof -
  let ?p = "2 ^ k :: int"
  have "(1::u_long) \<le> 2 ^ k" using assms(1) by (simp add: word_le_def uint_pow2)
  then have u1: "uint (2 ^ k - 1 :: u_long) = ?p - 1"
    using assms(1) by (simp add: uint_sub_ok uint_pow2)
  have s: "uint (x + (2 ^ k - 1)) = uint x + (?p - 1)"
    using assms u1 by (subst uint_add_lem [THEN iffD1]) simp_all
  have "uint (roundup2 x (2 ^ k)) = uint x + (?p - 1) - (uint x + (?p - 1)) mod ?p"
    unfolding roundup2_def uint_rounddown s ..
  then show ?thesis using up_mod [of ?p "uint x"] by simp
qed

lemma roundup_diff:
  assumes "k < 64" "uint x + 2 ^ k \<le> 2 ^ 64"
  shows "uint (roundup2 x (2 ^ k) - x) = (- uint x) mod 2 ^ k"
proof -
  have "x \<le> roundup2 x (2 ^ k)" by (simp add: word_le_def uint_roundup [OF assms])
  then show ?thesis by (simp add: uint_sub_ok uint_roundup [OF assms])
qed

lemma uint_drop: "uint (drop_bit k x) = uint x div 2 ^ k" for x :: u_long
proof -
  have "uint (drop_bit k x) = drop_bit k (uint x)" by (rule bit_eqI) (simp add: bit_unsigned_iff bit_drop_bit_eq)
  then show ?thesis by (simp only: drop_bit_eq_div)
qed

lemma rounddown_xor: "rounddown2 (x XOR y) (2 ^ k) = 0 \<longleftrightarrow> uint x div 2 ^ k = uint y div 2 ^ k"
proof -
  have "rounddown2 z (2 ^ k) = 0 \<longleftrightarrow> drop_bit k z = 0" for z :: u_long
  proof -
    have "rounddown2 z (2 ^ k) = 0 \<longleftrightarrow> uint z - uint z mod 2 ^ k = 0"
      unfolding rounddown2_def uint_0_iff [symmetric] uint_rounddown ..
    also have "uint z - uint z mod 2 ^ k = uint z div 2 ^ k * 2 ^ k" by (simp add: minus_mod_eq_div_mult)
    also have "\<dots> = 0 \<longleftrightarrow> drop_bit k z = 0"
      unfolding uint_0_iff [of "drop_bit k z", symmetric] uint_drop by simp
    finally show ?thesis .
  qed
  moreover have "drop_bit k (x XOR y) = 0 \<longleftrightarrow> drop_bit k x = drop_bit k y" by (auto simp: drop_bit_xor bit_eq_iff bit_simps)
  moreover have "drop_bit k x = drop_bit k y \<longleftrightarrow> uint x div 2 ^ k = uint y div 2 ^ k"
    unfolding word_uint_eq_iff uint_drop ..
  ultimately show ?thesis by blast
qed

lemma rounddown_zero: "rounddown2 x 0 = 0" by (simp add: rounddown2_def)

lemma atop_int: "uint (atop x) = uint x div 4096"
  by (simp add: atop_def PAGE_SHIFT_def uint_drop)

lemma to_int_small: "uint w < 2 ^ 31 \<Longrightarrow> to_int w = uint w"
proof -
  assume w: "uint w < 2 ^ 31"
  have c: "uint (ucast w :: c_int) = uint w" using w by (simp add: unsigned_ucast_eq take_bit_int_eq_self)
  then have "unat (ucast w :: c_int) < 2147483648" using w by (simp add: uint_less_numeral [symmetric])
  then show ?thesis unfolding to_int_def by (simp add: sint_of_small c)
qed

lemma uint_ptoa: "uint w * 4096 < 2 ^ 64 \<Longrightarrow> uint (ptoa w) = uint w * 4096"
  by (simp add: ptoa_def PAGE_SHIFT_def push_bit_eq_mult uint_word_ariths)

lemma int_add_small: "- (2 ^ 31) \<le> x + y \<Longrightarrow> x + y < 2 ^ 31 \<Longrightarrow> int_add x y = x + y"
  unfolding int_add_def by (intro signed_take_bit_int_eq_self) simp_all

subsection \<open>Where a run may start\<close>

abbreviation pa :: "contig_env \<Rightarrow> int \<Rightarrow> int" where
  "pa C m \<equiv> uint (phys_addr C (nat m))"

text \<open>The pages from \<open>lo\<close> to \<open>hi\<close> have contiguous addresses below \<open>2 ^ 52\<close>, the limit of the machine.\<close>

definition phys_contig :: "contig_env \<Rightarrow> int \<Rightarrow> int \<Rightarrow> bool" where
  "phys_contig C lo hi \<longleftrightarrow> 0 \<le> lo \<and> 4096 dvd pa C lo \<and> (\<forall>m. lo \<le> m \<longrightarrow> m < hi \<longrightarrow> pa C m = pa C lo + 4096 * (m - lo)) \<and>
     pa C lo + 4096 * (hi - lo) \<le> 2 ^ 52 \<and> hi - lo \<le> 2 ^ 30"

definition small_pow2 :: "u_long \<Rightarrow> bool" where
  "small_pow2 w \<longleftrightarrow> (\<exists>k\<le>42. w = 2 ^ k)"

definition request_ok :: "run_request \<Rightarrow> bool" where
  "request_ok q \<longleftrightarrow> 0 < rq_npages q \<and> small_pow2 (rq_alignment q) \<and> (rq_boundary q = 0 \<or> small_pow2 (rq_boundary q))"

text \<open>The addresses of a run that starts at \<open>m\<close> are in the range, aligned, and do not cross the boundary.\<close>

definition crosses :: "int \<Rightarrow> int \<Rightarrow> int \<Rightarrow> bool" where
  "crosses b x len \<longleftrightarrow> b \<noteq> 0 \<and> x div b \<noteq> (x + len - 1) div b"

definition fits_run :: "contig_env \<Rightarrow> run_request \<Rightarrow> int \<Rightarrow> int \<Rightarrow> bool" where
  "fits_run C q hi m \<longleftrightarrow> m + uint (rq_npages q) \<le> hi \<and> uint (rq_alignment q) dvd pa C m \<and>
     \<not> crosses (uint (rq_boundary q)) (pa C m) (4096 * uint (rq_npages q))"

lemma skip_to_int:
  assumes "uint x < 2 ^ 52" "k \<le> 42"
  shows "to_int (atop (roundup2 x (2 ^ k) - x)) = (- uint x) mod 2 ^ k div 4096"
proof -
  have "2 ^ k \<le> (2::int) ^ 42" using assms(2) by (rule power_increasing) simp
  then have l: "uint x + 2 ^ k \<le> 2 ^ 64" using assms(1) by simp
  have "(- uint x) mod 2 ^ k < 2 ^ k" by (rule pos_mod_bound) simp
  moreover have "0 \<le> (- uint x) mod 2 ^ k" by simp
  ultimately have "(- uint x) mod 2 ^ k < 2 ^ 42" using \<open>2 ^ k \<le> (2::int) ^ 42\<close> by linarith
  then have "(- uint x) mod 2 ^ k div 4096 < 2 ^ 31" by (simp add: div_less_iff_less_mult)
  moreover have u: "uint (atop (roundup2 x (2 ^ k) - x)) = (- uint x) mod 2 ^ k div 4096"
    using assms(2) by (simp only: atop_int) (subst roundup_diff [OF _ l], simp_all)
  ultimately show ?thesis using to_int_small [of "atop (roundup2 x (2 ^ k) - x)"] by simp
qed

lemma phys_contigD:
  assumes "phys_contig C lo hi" "lo \<le> m" "m < hi"
  shows "4096 dvd pa C m" "pa C m + 4096 * (hi - m) \<le> 2 ^ 52" "pa C m < 2 ^ 52" "0 \<le> m" "hi - lo \<le> 2 ^ 30"
proof -
  have P: "0 \<le> lo" "4096 dvd pa C lo" "\<And>m. lo \<le> m \<Longrightarrow> m < hi \<Longrightarrow> pa C m = pa C lo + 4096 * (m - lo)"
    "pa C lo + 4096 * (hi - lo) \<le> 2 ^ 52" "hi - lo \<le> 2 ^ 30"
    using assms(1) unfolding phys_contig_def by blast+
  note e = P(3) [OF assms(2,3)]
  show "4096 dvd pa C m" unfolding e using P(2) by simp
  show r: "pa C m + 4096 * (hi - m) \<le> 2 ^ 52" unfolding e using P(4) by (simp only: right_diff_distrib)
  have "pa C m < pa C m + 4096 * (hi - m)" using assms(3) by simp
  also note r
  finally show "pa C m < 2 ^ 52" .
  show "0 \<le> m" "hi - lo \<le> 2 ^ 30" using P(1,5) assms(2) by simp_all
qed

lemma run_start_ok:
  assumes c: "phys_contig C lo hi" and m: "lo \<le> m" "m < hi" and q: "request_ok q"
  shows "run_start C q hi m =
    (if m + uint (rq_npages q) > hi then Past_end
     else if \<not> uint (rq_alignment q) dvd pa C m then Skip_to ((- pa C m) mod uint (rq_alignment q) div 4096)
     else if crosses (uint (rq_boundary q)) (pa C m) (4096 * uint (rq_npages q))
     then Skip_to ((- pa C m) mod uint (rq_boundary q) div 4096) else May_start)"
proof (cases "m + uint (rq_npages q) > hi")
  case False
  note D = phys_contigD [OF c m]
  obtain k where k: "k \<le> 42" "rq_alignment q = 2 ^ k" using q by (auto simp: request_ok_def small_pow2_def)
  have uk: "uint (rq_alignment q) = 2 ^ k" using k by (simp add: uint_pow2)
  let ?x = "phys_addr C (nat m)" and ?n = "uint (rq_npages q)"
  have n: "?n \<le> hi - m" "0 < ?n" using False q by (simp_all add: request_ok_def word_less_def)
  have al: "?x AND (rq_alignment q - 1) \<noteq> 0 \<longleftrightarrow> \<not> uint (rq_alignment q) dvd pa C m"
    unfolding uk unfolding k(2) and_low_zero ..
  have p: "uint (ptoa (rq_npages q)) = 4096 * ?n" using n D(5) m(1) by (simp add: uint_ptoa)
  have s: "uint (?x + ptoa (rq_npages q) - 1) = pa C m + 4096 * ?n - 1"
  proof -
    have "uint (?x + ptoa (rq_npages q)) = pa C m + 4096 * ?n"
      using D(2) n by (subst uint_add_lem [THEN iffD1]) (simp_all add: p)
    moreover from this have "(1::u_long) \<le> ?x + ptoa (rq_npages q)"
      using n(2) uint_ge_0 [of ?x] by (simp only: word_le_def uint_1)
    ultimately show ?thesis by (simp add: uint_sub_ok)
  qed
  have bd: "rounddown2 (?x XOR (?x + ptoa (rq_npages q) - 1)) (rq_boundary q) \<noteq> 0 \<longleftrightarrow>
      crosses (uint (rq_boundary q)) (pa C m) (4096 * ?n)"
  proof (cases "rq_boundary q = 0")
    case False
    then obtain j where j: "j \<le> 42" "rq_boundary q = 2 ^ j" using q by (auto simp: request_ok_def small_pow2_def)
    then have "uint (rq_boundary q) = 2 ^ j" by (simp add: uint_pow2)
    then show ?thesis by (simp add: crosses_def j(2) rounddown_xor s)
  qed (simp add: rounddown_zero crosses_def)
  have "rq_boundary q \<noteq> 0 \<Longrightarrow> to_int (atop (roundup2 ?x (rq_boundary q) - ?x)) = (- pa C m) mod uint (rq_boundary q) div 4096"
  proof -
    assume "rq_boundary q \<noteq> 0"
    then obtain j where j: "j \<le> 42" "rq_boundary q = 2 ^ j" using q by (auto simp: request_ok_def small_pow2_def)
    then show ?thesis using skip_to_int [OF D(3) j(1)] by (simp add: uint_pow2)
  qed
  moreover have "crosses (uint (rq_boundary q)) (pa C m) (4096 * ?n) \<Longrightarrow> rq_boundary q \<noteq> 0" by (auto simp: crosses_def)
  moreover have "to_int (atop (roundup2 ?x (rq_alignment q) - ?x)) = (- pa C m) mod uint (rq_alignment q) div 4096"
    unfolding uk unfolding k(2) by (rule skip_to_int [OF D(3) k(1)])
  ultimately show ?thesis using False unfolding run_start_def Let_def al bd by simp
qed (simp add: run_start_def Let_def)

lemma skip_pos:
  fixes x b :: int
  assumes "4096 dvd x" "b = 2 ^ k" "\<not> b dvd x"
  shows "0 < (- x) mod b div 4096"
proof -
  have "12 \<le> k"
  proof (rule ccontr)
    assume "\<not> 12 \<le> k"
    then have "b dvd 2 ^ 12" unfolding assms(2) by (intro le_imp_power_dvd) simp
    then have "b dvd 4096" by simp
    then show False using assms(1,3) dvd_trans by blast
  qed
  then have "(2::int) ^ 12 dvd b" unfolding assms(2) by (rule le_imp_power_dvd)
  then have "4096 dvd (- x) mod b" using assms(1) by (simp add: dvd_mod_iff)
  moreover have "(- x) mod b \<noteq> 0" using assms(3) by (simp add: mod_eq_0_iff_dvd)
  moreover have "0 \<le> (- x) mod b" unfolding assms(2) by simp
  ultimately have "4096 \<le> (- x) mod b" using zdvd_imp_le by fastforce
  then show ?thesis by (simp add: pos_imp_zdiv_pos_iff)
qed

subsection \<open>What the scan finds\<close>

text \<open>In the view \<open>v\<close> the page \<open>m\<close> is the first of \<open>e\<close> pages that are free, or one that the page daemon
  could launder or reclaim.\<close>

definition usable :: "contig_env \<Rightarrow> pg \<Rightarrow> 'r page_view \<Rightarrow> int \<Rightarrow> bool" where
  "usable C m v e \<longleftrightarrow> (let s = pv_vm v; p = pages s m in \<not> pinned s m \<and>
     (case pg_object p of
        None \<Rightarrow> e = 1 \<and> pv_level v \<ge> 0 \<or> e = 2 ^ pv_order v \<and> pv_order v < VM_NFREEORDER C
      | Some ob \<Rightarrow> e = 1 \<and> swappable ob s \<and> obj_memattr_default s ob \<and> queue p \<noteq> PQ_NONE \<and>
          \<not> vm_page_busied (busy_lock p)))"

definition sane_view :: "pg \<Rightarrow> 'r page_view \<Rightarrow> bool" where
  "sane_view m v \<longleftrightarrow> (let s = pv_vm v; p = pages s m in
     pg_flags p AND PG_MARKER = 0 \<and> (pg_flags p AND PG_FICTITIOUS = 0 \<or> wire_count p = 1) \<and>
     (\<forall>ob. pg_object p = Some ob \<longrightarrow> \<not> pinned s m \<longrightarrow> pg_flags p AND PG_UNHOLDFREE = 0 \<and>
        (swappable ob s \<and> obj_memattr_default s ob \<and> queue p \<noteq> PQ_NONE \<longrightarrow>
           memattr_default s m \<and> oflags p AND (VPO_SWAPINPROG OR VPO_SWAPSLEEP OR VPO_UNMANAGED) = 0)))"

definition reserv_ok :: "contig_env \<Rightarrow> bool" where
  "reserv_ok C \<longleftrightarrow> (\<forall>l\<ge>0. \<exists>k. 12 \<le> k \<and> k \<le> 42 \<and> reserv_size C l = 2 ^ k) \<and> VM_NFREEORDER C \<le> 30"

lemma scan_page_usable:
  "scan_page C opts m v waits = Inr (e, i) \<Longrightarrow> 0 < e \<Longrightarrow> i = e \<and> (\<exists>v' \<in> set (v # waits). usable C m v' e)"
proof (induction C opts m v waits rule: scan_page.induct)
  case (1 C opts m v waits)
  have own: "e = 1 \<and> i = 1 \<and> usable C m w e"
    if "scan_owned C opts m ob w = Inr (e, i)" "pg_object (pages (pv_vm w) m) = Some ob" "\<not> pinned (pv_vm w) m" for w ob
    using that 1(3) unfolding scan_owned_def usable_def Let_def by (auto split: if_splits)
  note E = 1(2) [unfolded scan_page.simps [of C opts m v waits]]
  have np: "\<not> pinned (pv_vm v) m" "\<not> (0 \<le> pv_level v \<and> has_flag opts VPSC_NORESERV)" using E 1(3) by (auto split: if_splits)
  show ?case
  proof (cases "pg_object (pages (pv_vm v) m)")
    case None
    then have "i = e \<and> (e = 1 \<and> pv_level v \<ge> 0 \<or> e = 2 ^ pv_order v \<and> pv_order v < VM_NFREEORDER C)"
      using E np 1(3) by (auto split: if_splits)
    then show ?thesis using None np by (simp add: usable_def Let_def)
  next
    case (Some ob)
    show ?thesis
    proof (cases waits)
      case Nil
      then show ?thesis using E np Some own [of ob v] by (auto split: if_splits)
    next
      case (Cons w ws)
      show ?thesis
      proof (cases "pg_object (pages (pv_vm w) m) = Some ob")
        case True
        then show ?thesis using E np Some Cons own [of ob w] 1(3) by (auto split: if_splits)
      next
        case False
        then have "scan_page C opts m w ws = Inr (e, i)" using E np Some Cons by (auto split: if_splits)
        then show ?thesis using 1(1) [OF np Some Cons False _ 1(3)] Cons by auto
      qed
    qed
  qed
qed

lemma reserv_skip:
  assumes "reserv_ok C" "4096 dvd uint (phys_addr C m)" "uint (phys_addr C m) < 2 ^ 52" "0 \<le> l"
  shows "0 < end_of_reserv C m l"
proof -
  obtain k where k: "12 \<le> k" "k \<le> 42" "reserv_size C l = 2 ^ k" using assms(1,4) unfolding reserv_ok_def by blast
  let ?x = "uint (phys_addr C m)" and ?p = "2 ^ k :: int"
  have p0: "0 < ?p" by simp
  have kl: "?p \<le> 2 ^ 42" using k(2) by (intro power_increasing) simp_all
  have d: "(4096::int) dvd ?p" using le_imp_power_dvd [OF k(1), of "2::int"] by simp
  have u1: "uint (phys_addr C m + 1) = ?x + 1" using assms(3) by (subst uint_add_lem [THEN iffD1]) simp_all
  have ur: "uint (roundup2 (phys_addr C m + 1) (2 ^ k)) = ?x + 1 + (- (?x + 1)) mod ?p"
    using kl assms(3) k(2) by (subst uint_roundup) (simp_all add: u1)
  have "phys_addr C m \<le> roundup2 (phys_addr C m + 1) (2 ^ k)"
    unfolding word_le_def ur using pos_mod_sign [of ?p "- (?x + 1)"] by simp
  then have ud: "uint (roundup2 (phys_addr C m + 1) (2 ^ k) - phys_addr C m) = 1 + (- (?x + 1)) mod ?p"
    by (simp add: uint_sub_ok ur)
  let ?r = "1 + (- (?x + 1)) mod ?p"
  have r: "?r \<le> ?p" "0 < ?r" using pos_mod_bound [OF p0, of "- (?x + 1)"] pos_mod_sign [OF p0, of "- (?x + 1)"] by linarith+
  have "4096 dvd ?r"
  proof -
    have "?r mod 4096 = (1 + (- (?x + 1)) mod ?p mod 4096) mod 4096" by (simp only: mod_add_right_eq)
    also have "(- (?x + 1)) mod ?p mod 4096 = (- (?x + 1)) mod 4096" using d by (rule mod_mod_cancel)
    also have "(1 + (- (?x + 1)) mod 4096) mod 4096 = (- ?x) mod 4096" by (simp only: mod_add_right_eq) simp
    also have "\<dots> = 0" using assms(2) by (simp add: mod_eq_0_iff_dvd)
    finally show ?thesis by (rule mod_0_imp_dvd)
  qed
  then have "4096 \<le> ?r" using r(2) by (simp add: zdvd_imp_le)
  moreover have "?r \<le> 2 ^ 42" using r(1) kl by linarith
  ultimately have "0 < ?r div 4096" "?r div 4096 < 2 ^ 31" by (simp_all add: pos_imp_zdiv_pos_iff div_less_iff_less_mult)
  then show ?thesis unfolding end_of_reserv_def Let_def k(3) using ud
    by (subst to_int_small) (simp_all add: atop_int)
qed

lemma scan_page_inc:
  assumes C: "reserv_ok C" "4096 dvd uint (phys_addr C m)" "uint (phys_addr C m) < 2 ^ 52"
  shows "scan_page C opts m v waits = Inr (e, i) \<Longrightarrow> 0 < i \<and> 0 \<le> e \<and> e \<le> 2 ^ 29"
proof (induction waits arbitrary: v)
  have own: "0 < i \<and> 0 \<le> e \<and> e \<le> 2 ^ 29" if "scan_owned C opts m ob w = Inr (e, i)" for w ob
    using that reserv_skip [OF C] unfolding scan_owned_def Let_def by (auto split: if_splits)
  have ord: "(0::int) < 2 ^ k \<and> (2::int) ^ k \<le> 2 ^ 29" if "k < VM_NFREEORDER C" for k
    using that C(1) power_increasing [of k 29 "2::int"] by (auto simp: reserv_ok_def)
  {
    case Nil
    then show ?case using own ord reserv_skip [OF C]
      by (auto simp: scan_page.simps [of C opts m v] split: if_splits option.splits)
  next
    case (Cons w ws)
    then show ?case using own ord reserv_skip [OF C]
      by (auto simp: scan_page.simps [of C opts m v] split: if_splits option.splits)
  }
qed

lemma scan_page_total:
  assumes "\<And>w. w \<in> set (v # waits) \<Longrightarrow> sane_view m w"
  shows "\<exists>e i. scan_page C opts m v waits = Inr (e, i)"
  using assms
proof (induction waits arbitrary: v)
  have own: "\<exists>e i. scan_owned C opts m ob w = Inr (e, i)"
    if "sane_view m w" "pg_object (pages (pv_vm w) m) = Some ob" "\<not> pinned (pv_vm w) m" for w ob
    using that unfolding scan_owned_def sane_view_def Let_def by auto
  {
    case Nil
    then show ?case using own by (auto simp: scan_page.simps [of C opts m v] split: option.splits)
  next
    case (Cons w ws)
    have "\<exists>e i. scan_page C opts m w ws = Inr (e, i)" by (rule Cons(1)) (use Cons(2) in auto)
    moreover have "sane_view m w" using Cons(2) by simp
    ultimately show ?case using own [of w] by (auto simp: scan_page.simps [of C opts m v] split: option.splits)
  }
qed

subsection \<open>The scan\<close>

text \<open>The state of the loop: no run, or one from \<open>r\<close> to \<open>m\<close> whose pages the scan has found usable.\<close>

definition found_usable ::
    "contig_env \<Rightarrow> (pg \<Rightarrow> 'r page_view \<times> 'r page_view list) \<Rightarrow> int \<Rightarrow> int \<Rightarrow> bool" where
  "found_usable C views r m \<longleftrightarrow> (\<forall>x. r \<le> x \<longrightarrow> x < m \<longrightarrow> (\<exists>y e v. r \<le> y \<and> y \<le> x \<and> x < y + e \<and>
     v \<in> set (fst (views (nat y)) # snd (views (nat y))) \<and> usable C (nat y) v e))"

definition run_state ::
    "contig_env \<Rightarrow> (pg \<Rightarrow> 'r page_view \<times> 'r page_view list) \<Rightarrow> run_request \<Rightarrow> int \<Rightarrow> int \<Rightarrow>
     int \<Rightarrow> pg option \<Rightarrow> int \<Rightarrow> bool" where
  "run_state C views q lo hi m m_run run_len \<longleftrightarrow> lo \<le> m \<and>
     (case m_run of None \<Rightarrow> run_len = 0
      | Some r \<Rightarrow> lo \<le> int r \<and> int r < hi \<and> int r + run_len = m \<and> 0 < run_len \<and> run_len < 2 ^ 31 \<and> fits_run C q hi (int r) \<and>
          found_usable C views (int r) m)"

lemma run_len_less:
  "0 \<le> k \<Longrightarrow> k < 2 ^ 31 \<Longrightarrow> (of_int k :: u_long) < w \<longleftrightarrow> k < uint w"
proof -
  assume "0 \<le> k" "k < 2 ^ 31"
  then have "uint (of_int k :: u_long) = k" by (simp add: uint_word_of_int)
  then show ?thesis by (simp add: word_less_def)
qed

lemma found_usable_grow:
  assumes "found_usable C views r m" "r \<le> m" "v \<in> set (fst (views (nat m)) # snd (views (nat m)))" "usable C (nat m) v e"
  shows "found_usable C views r (m + e)"
  unfolding found_usable_def
proof (intro allI impI)
  fix x
  assume x: "r \<le> x" "x < m + e"
  show "\<exists>y e v. r \<le> y \<and> y \<le> x \<and> x < y + e \<and> v \<in> set (fst (views (nat y)) # snd (views (nat y))) \<and> usable C (nat y) v e"
  proof (cases "x < m")
    case True
    then show ?thesis using assms(1) x(1) unfolding found_usable_def by blast
  next
    case False
    then show ?thesis using assms(2-4) x by (intro exI [of _ m] exI [of _ e] exI [of _ v]) simp
  qed
qed

text \<open>One turn keeps the state and moves on.\<close>

lemma run_start_May:
  assumes "phys_contig C lo hi" "lo \<le> m" "m < hi" "request_ok q" "run_start C q hi m = May_start"
  shows "fits_run C q hi m"
  using assms(5) unfolding run_start_ok [OF assms(1-4)] fits_run_def by (simp split: if_splits)

lemma run_start_Skip:
  assumes c: "phys_contig C lo hi" "lo \<le> m" "m < hi" "request_ok q" and s: "run_start C q hi m = Skip_to k"
  shows "0 \<le> k"
    "rq_boundary q = 0 \<or> 4096 * uint (rq_npages q) \<le> uint (rq_boundary q) \<Longrightarrow> 0 < k"
proof -
  have p4: "4096 dvd pa C m" by (rule phys_contigD(1) [OF c(1-3)])
  obtain j where j: "j \<le> 42" "rq_alignment q = 2 ^ j" using c(4) by (auto simp: request_ok_def small_pow2_def)
  have uj: "uint (rq_alignment q) = 2 ^ j" using j by (simp add: uint_pow2)
  have n0: "0 < uint (rq_npages q)" using c(4) by (simp add: request_ok_def word_less_def)
  consider "\<not> uint (rq_alignment q) dvd pa C m" "k = (- pa C m) mod uint (rq_alignment q) div 4096"
    | "crosses (uint (rq_boundary q)) (pa C m) (4096 * uint (rq_npages q))" "k = (- pa C m) mod uint (rq_boundary q) div 4096"
    using s unfolding run_start_ok [OF c] by (auto split: if_splits)
  then have "0 \<le> k \<and> (rq_boundary q = 0 \<or> 4096 * uint (rq_npages q) \<le> uint (rq_boundary q) \<longrightarrow> 0 < k)"
  proof cases
    case 1
    then have "0 < k" using skip_pos [OF p4 uj] by simp
    then show ?thesis by simp
  next
    case 2
    then have "rq_boundary q \<noteq> 0" by (auto simp: crosses_def)
    then obtain i where i: "i \<le> 42" "rq_boundary q = 2 ^ i" using c(4) by (auto simp: request_ok_def small_pow2_def)
    have ui: "uint (rq_boundary q) = 2 ^ i" using i by (simp add: uint_pow2)
    have "0 < k" if le: "4096 * uint (rq_npages q) \<le> uint (rq_boundary q)"
    proof -
      have "\<not> uint (rq_boundary q) dvd pa C m"
      proof
        assume "uint (rq_boundary q) dvd pa C m"
        then obtain c where c: "pa C m = uint (rq_boundary q) * c" by blast
        let ?b = "uint (rq_boundary q)"
        have "(pa C m + 4096 * uint (rq_npages q) - 1) div ?b = c + (4096 * uint (rq_npages q) - 1) div ?b"
          using ui unfolding c by (simp add: algebra_simps flip: add_diff_eq)
        also have "(4096 * uint (rq_npages q) - 1) div ?b = 0" using le n0 by (intro div_pos_pos_trivial) simp_all
        finally show False using 2(1) ui c by (simp add: crosses_def)
      qed
      then show ?thesis using skip_pos [OF p4 ui] 2(2) by simp
    qed
    moreover have "0 \<le> k" unfolding 2(2) ui by (simp add: pos_imp_zdiv_nonneg_iff)
    ultimately show ?thesis using \<open>rq_boundary q \<noteq> 0\<close> by blast
  qed
  then show "0 \<le> k" "rq_boundary q = 0 \<or> 4096 * uint (rq_npages q) \<le> uint (rq_boundary q) \<Longrightarrow> 0 < k" by blast+
qed

text \<open>What one turn does.\<close>

lemma scan_turn:
  assumes c: "phys_contig C lo hi" and R: "reserv_ok C" and q: "request_ok q"
    and st: "run_state C views q lo hi m m_run run_len" and m: "m < hi" and len: "of_int run_len < rq_npages q"
    and start: "(if run_len = 0 then run_start C q hi m else May_start) = May_start"
    and page: "scan_page C (rq_options q) (nat m) (fst (views (nat m))) (snd (views (nat m))) = Inr (e, i)"
  shows "0 < i" "0 < e \<Longrightarrow> run_state C views q lo hi (m + i) (if run_len = 0 then Some (nat m) else m_run) (int_add run_len e)"
    "\<not> 0 < e \<Longrightarrow> run_state C views q lo hi (m + i) None 0" "0 < run_len \<or> m_run = None \<and> run_len = 0"
proof -
  have lo: "lo \<le> m" and rl: "0 < run_len \<or> m_run = None \<and> run_len = 0" using st by (auto simp: run_state_def split: option.splits)
  note D = phys_contigD [OF c lo m]
  have ie: "0 < i" "0 \<le> e" "e \<le> 2 ^ 29" using scan_page_inc [OF R D(1,3) page] by blast+
  show "0 < i" "0 < run_len \<or> m_run = None \<and> run_len = 0" by (rule ie rl)+
  show "\<not> 0 < e \<Longrightarrow> run_state C views q lo hi (m + i) None 0" using lo ie by (simp add: run_state_def)
  assume e: "0 < e"
  obtain v where v: "i = e" "v \<in> set (fst (views (nat m)) # snd (views (nat m)))" "usable C (nat m) v e"
    using scan_page_usable [OF page e] by blast
  define r where "r = (if run_len = 0 then m else int (the m_run))"
  have r: "lo \<le> r" "r < hi" "r + run_len = m" "0 \<le> run_len" "fits_run C q hi r" "found_usable C views r m"
  proof -
    have "lo \<le> r \<and> r < hi \<and> r + run_len = m \<and> 0 \<le> run_len \<and> fits_run C q hi r \<and> found_usable C views r m"
    proof (cases "run_len = 0")
      case True
      then have "fits_run C q hi m" using start by (intro run_start_May [OF c lo m q]) simp
      then show ?thesis using True lo m by (simp add: r_def found_usable_def)
    next
      case False
      then show ?thesis using st by (auto simp: r_def run_state_def split: option.splits)
    qed
    then show "lo \<le> r" "r < hi" "r + run_len = m" "0 \<le> run_len" "fits_run C q hi r" "found_usable C views r m" by blast+
  qed
  have small: "run_len + e < 2 ^ 31" using r(1,3) m D(5) ie(3) by simp
  then have add: "int_add run_len e = run_len + e" using r(4) e by (intro int_add_small) simp_all
  have mr: "(if run_len = 0 then Some (nat m) else m_run) = Some (nat r)"
    using st r(4) by (auto simp: r_def run_state_def split: option.splits)
  have r0: "0 \<le> r" using r(1) c by (simp add: phys_contig_def)
  have "found_usable C views r (m + e)" using found_usable_grow [OF r(6) _ v(2,3)] r(3,4) by simp
  then show "run_state C views q lo hi (m + i) (if run_len = 0 then Some (nat m) else m_run) (int_add run_len e)"
    unfolding mr add v(1) using r r0 e lo small by (simp add: run_state_def)
qed

lemma scan_loop_sound:
  assumes c: "phys_contig C lo hi" and R: "reserv_ok C" and q: "request_ok q"
  shows "run_state C views q lo hi m m_run run_len \<Longrightarrow> scan_loop C views q hi n m m_run run_len = Inr (Some r) \<Longrightarrow>
    lo \<le> int r \<and> fits_run C q hi (int r) \<and> found_usable C views (int r) (int r + uint (rq_npages q))"
proof (induction n arbitrary: m m_run run_len)
  case (Suc n)
  note st = Suc.prems(1)
  have lo: "lo \<le> m" using st by (simp add: run_state_def)
  have fin: ?case if "run_found q m_run run_len = Some r"
  proof -
    have r: "m_run = Some r" "rq_npages q \<le> of_int run_len" using that by (auto simp: run_found_def split: if_splits)
    have S: "lo \<le> int r" "int r + run_len = m" "0 < run_len" "run_len < 2 ^ 31" "fits_run C q hi (int r)"
      "found_usable C views (int r) m" using st r(1) by (simp_all add: run_state_def)
    have "uint (rq_npages q) \<le> run_len" using r(2) run_len_less [of run_len "rq_npages q"] S(3,4) by (simp add: not_less [symmetric])
    then show ?thesis using S unfolding found_usable_def by simp
  qed
  show ?case
  proof (cases "m < hi \<and> of_int run_len < rq_npages q")
    case False
    then show ?thesis using Suc.prems(2) by (intro fin) simp
  next
    case True
    have m0: "\<not> m < 0" using lo c by (simp add: phys_contig_def)
    obtain v waits where v: "views (nat m) = (v, waits)" by (cases "views (nat m)")
    note E = Suc.prems(2) [unfolded scan_loop.simps, simplified True m0 v]
    show ?thesis
    proof (cases "if run_len = 0 then run_start C q hi m else May_start")
      case Past_end
      then show ?thesis using E by (intro fin) (auto simp: Let_def)
    next
      case (Skip_to k)
      then have rl: "run_len = 0" "run_start C q hi m = Skip_to k" by (auto split: if_splits)
      have "0 \<le> k" by (rule run_start_Skip(1) [OF c lo _ q rl(2)]) (use True in simp)
      then have "run_state C views q lo hi (m + k) m_run run_len" using st rl(1) by (auto simp: run_state_def split: option.splits)
      moreover have "scan_loop C views q hi n (m + k) m_run run_len = Inr (Some r)" using E Skip_to by (auto simp: Let_def)
      ultimately show ?thesis by (rule Suc.IH)
    next
      case May_start
      obtain e i where p: "scan_page C (rq_options q) (nat m) v waits = Inr (e, i)"
        and nxt: "(if 0 < e then scan_loop C views q hi n (m + i) (if run_len = 0 then Some (nat m) else m_run) (int_add run_len e)
          else if 0 < run_len then scan_loop C views q hi n (m + i) None 0
          else scan_loop C views q hi n (m + i) m_run run_len) = Inr (Some r)"
        using E May_start by (auto simp: Let_def)
      note T = scan_turn [OF c R q st _ _ May_start, of e i, unfolded v fst_conv snd_conv, OF _ _ p]
      show ?thesis
      proof (cases "0 < e")
        case True
        then show ?thesis using T(2) nxt \<open>m < hi \<and> _\<close> by (intro Suc.IH) simp_all
      next
        case False
        then have "scan_loop C views q hi n (m + i) None 0 = Inr (Some r)" using nxt T(4) True by (auto split: if_splits)
        then show ?thesis using T(3) True False by (intro Suc.IH) simp_all
      qed
    qed
  qed
qed simp

lemma scan_loop_ends:
  assumes c: "phys_contig C lo hi" and R: "reserv_ok C" and q: "request_ok q"
    and b: "rq_boundary q = 0 \<or> 4096 * uint (rq_npages q) \<le> uint (rq_boundary q)"
    and sane: "\<And>m w. lo \<le> int m \<Longrightarrow> int m < hi \<Longrightarrow> w \<in> set (fst (views m) # snd (views m)) \<Longrightarrow> sane_view m w"
  shows "run_state C views q lo hi m m_run run_len \<Longrightarrow> hi - m < int n \<Longrightarrow> 0 < n \<Longrightarrow>
    \<exists>res. scan_loop C views q hi n m m_run run_len = Inr res"
proof (induction n arbitrary: m m_run run_len)
  case 0
  then show ?case by simp
next
  case (Suc n)
  note st = Suc.prems(1)
  have lo: "lo \<le> m" using st by (simp add: run_state_def)
  have m0: "0 \<le> m" using lo c by (simp add: phys_contig_def)
  show ?case
  proof (cases "m < hi \<and> of_int run_len < rq_npages q")
    case False
    then show ?thesis by auto
  next
    case True
    obtain v waits where v: "views (nat m) = (v, waits)" by (cases "views (nat m)")
    have sv: "sane_view (nat m) w" if "w \<in> set (v # waits)" for w using sane [of "nat m" w] that v lo m0 True by simp
    have mr: "run_len = 0 \<longleftrightarrow> m_run = None" using st by (auto simp: run_state_def split: option.splits)
    have n0: "0 < n" using True Suc.prems(2) by simp
    have E: "scan_loop C views q hi (Suc n) m m_run run_len =
      (case (if run_len = 0 then run_start C q hi m else May_start) of
          Past_end \<Rightarrow> Inr (run_found q m_run run_len)
        | Skip_to k \<Rightarrow> scan_loop C views q hi n (m + k) m_run run_len
        | May_start \<Rightarrow>
            rbind (scan_page C (rq_options q) (nat m) v waits) (\<lambda>(ext, inc).
            if ext > 0 then
              scan_loop C views q hi n (m + inc) (if run_len = 0 then Some (nat m) else m_run) (int_add run_len ext)
            else if run_len > 0 then scan_loop C views q hi n (m + inc) None 0
            else scan_loop C views q hi n (m + inc) m_run run_len))"
      using True m0 sv [of v] mr by (simp add: v Let_def sane_view_def)
    show ?thesis
    proof (cases "if run_len = 0 then run_start C q hi m else May_start")
      case Past_end
      then show ?thesis unfolding E by simp
    next
      case (Skip_to k)
      then have rl: "run_len = 0" "run_start C q hi m = Skip_to k" by (auto split: if_splits)
      have k: "0 < k" by (rule run_start_Skip(2) [OF c lo _ q rl(2) b]) (use True in simp)
      then have "run_state C views q lo hi (m + k) m_run run_len" using st rl(1) by (auto simp: run_state_def split: option.splits)
      then have "\<exists>res. scan_loop C views q hi n (m + k) m_run run_len = Inr res" by (rule Suc.IH) (use Suc.prems(2) k n0 in simp_all)
      then show ?thesis unfolding E by (simp add: Skip_to)
    next
      case May_start
      obtain e i where p: "scan_page C (rq_options q) (nat m) v waits = Inr (e, i)" using scan_page_total [OF sv] by blast
      note T = scan_turn [OF c R q st _ _ May_start, of e i, unfolded v fst_conv snd_conv, OF _ _ p]
      have i: "hi - (m + i) < int n" using T(1) True Suc.prems(2) by simp
      show ?thesis
      proof (cases "0 < e")
        case e: True
        then have "\<exists>res. scan_loop C views q hi n (m + i) (if run_len = 0 then Some (nat m) else m_run) (int_add run_len e) = Inr res"
          using T(2) True i n0 by (intro Suc.IH) simp_all
        then show ?thesis unfolding E using e p by (simp add: May_start)
      next
        case e: False
        then have "\<exists>res. scan_loop C views q hi n (m + i) None 0 = Inr res" using T(3) True i n0 by (intro Suc.IH) simp_all
        then show ?thesis unfolding E using e p T(4) True by (auto simp: May_start)
      qed
    qed
  qed
qed

text \<open>With a boundary below the size of the run the scan stays at the first aligned page for ever.\<close>

lemma scan_loop_hangs:
  assumes c: "phys_contig C lo hi" "lo \<le> m" "m < hi" and q: "request_ok q"
    and room: "m + uint (rq_npages q) \<le> hi" and al: "uint (rq_alignment q) dvd pa C m"
    and b: "rq_boundary q \<noteq> 0" "uint (rq_boundary q) < 4096 * uint (rq_npages q)" "uint (rq_boundary q) dvd pa C m"
    and sane: "sane_view (nat m) (fst (views (nat m)))"
  shows "scan_loop C views q hi n m None 0 = Inl (Diverges ''vm_page_scan_contig'')"
proof (induction n)
  case (Suc n)
  let ?b = "uint (rq_boundary q)"
  have b0: "0 < ?b" using b(1) by (simp add: word_neq_0_conv word_less_def)
  obtain k where k: "pa C m = ?b * k" using b(3) by blast
  have "(pa C m + 4096 * uint (rq_npages q) - 1) div ?b = k + (4096 * uint (rq_npages q) - 1) div ?b"
    using b0 unfolding k by (simp add: algebra_simps flip: add_diff_eq)
  moreover have "1 \<le> (4096 * uint (rq_npages q) - 1) div ?b" 
    using zdiv_mono1 [of ?b "4096 * uint (rq_npages q) - 1" ?b] b(2) b0 by simp
  ultimately have cr: "crosses ?b (pa C m) (4096 * uint (rq_npages q))" using b0 k by (simp add: crosses_def)
  have "(- pa C m) mod ?b = 0" using b(3) by (simp add: mod_eq_0_iff_dvd)
  then have s: "run_start C q hi m = Skip_to 0" unfolding run_start_ok [OF c q] using room al cr by simp
  have m0: "0 \<le> m" using c by (simp add: phys_contig_def)
  have n0: "(0::u_long) < rq_npages q" using q by (simp add: request_ok_def)
  obtain v waits where v: "views (nat m) = (v, waits)" by (cases "views (nat m)")
  then have "scan_loop C views q hi (Suc n) m None 0 = scan_loop C views q hi n m None 0"
    using sane s m0 n0 c(3) by (simp add: Let_def sane_view_def)
  then show ?case using Suc by simp
qed simp

end
