(* ===== verification/VmGrab.thy ===== *)
theory VmGrab
  imports VmFree
begin

text \<open>
  Getting the page at an index of an object in vm_page.c, or the pages of a range, allocating what
  is missing and waiting for what is busy. While the object is unlocked other threads run; what they
  do, and what the physical allocator hands out, are arguments of the loops, one for every turn.
\<close>

definition VM_ALLOC_NORMAL :: u_int where "VM_ALLOC_NORMAL = 0"
definition VM_ALLOC_IGN_SBUSY :: u_int where "VM_ALLOC_IGN_SBUSY = 0x1000"
definition VM_ALLOC_NOWAIT :: u_int where "VM_ALLOC_NOWAIT = 0x8000"
definition VM_ALLOC_COUNT :: "nat \<Rightarrow> u_int" where "VM_ALLOC_COUNT k = push_bit VM_ALLOC_COUNT_SHIFT (of_nat k)"

definition vm_page_xbusy :: "pg \<Rightarrow> 'r vm \<Rightarrow> fault + 'r vm" where
  "vm_page_xbusy m s =
     (case vm_page_tryxbusy (busy_lock (pages s m)) of (w, got) \<Rightarrow>
        if got then Inr (upd_pg m (\<lambda>p. p\<lparr>busy_lock := w\<rparr>) s) else Inl (Panic ''failed exclusive busying''))"

definition vm_page_sbusy :: "pg \<Rightarrow> 'r vm \<Rightarrow> fault + 'r vm" where
  "vm_page_sbusy m s =
     (case vm_page_trysbusy (busy_lock (pages s m)) of (w, got) \<Rightarrow>
        if got then Inr (upd_pg m (\<lambda>p. p\<lparr>busy_lock := w\<rparr>) s) else Inl (Panic ''failed shared busying''))"

text \<open>What happens in one turn: what others do between the unlocking of the object and the sleep, what
  they do until the object is locked again, the count of free pages that an allocation finds, and
  the page that the physical allocator would give it.\<close>

record 'r grab_turn =
  gt_unlocked :: "'r vm \<Rightarrow> 'r vm"
  gt_others :: "'r vm \<Rightarrow> 'r vm"
  gt_free :: "'r vm \<Rightarrow> u_int"
  gt_got :: "'r vm \<Rightarrow> pg option"

definition grab_attempts :: "'r grab_turn \<Rightarrow> 'r vm \<Rightarrow> (u_int \<times> pg option) list" where
  "grab_attempts t s = [(gt_free t s, gt_got t s)]"

definition grab_must_sleep :: "u_int \<Rightarrow> pg \<Rightarrow> 'r vm \<Rightarrow> bool" where
  "grab_must_sleep flags m s =
     (if has_flag flags VM_ALLOC_IGN_SBUSY then vm_page_xbusied (busy_lock (pages s m))
      else vm_page_busied (busy_lock (pages s m)))"

text \<open>The page is referenced before the object is unlocked.\<close>

definition grab_sleep :: "'r grab_turn \<Rightarrow> u_int \<Rightarrow> pg \<Rightarrow> 'r vm \<Rightarrow> 'r vm" where
  "grab_sleep t flags m s =
     (let s = gt_unlocked t (vm_page_reference m s) in
      gt_others t (upd_pg m (\<lambda>p. p\<lparr>busy_lock :=
        fst (vm_page_busy_sleep (has_flag flags VM_ALLOC_IGN_SBUSY) (busy_lock p))\<rparr>) s))"

definition grab_take :: "u_int \<Rightarrow> pg \<Rightarrow> 'r vm \<Rightarrow> fault + 'r vm" where
  "grab_take flags m s =
     rbind (if has_flag flags VM_ALLOC_WIRED then vm_page_wire m s else Inr s) (\<lambda>s.
     rbind (if \<not> has_flag flags (VM_ALLOC_NOBUSY OR VM_ALLOC_SBUSY) then vm_page_xbusy m s else Inr s) (\<lambda>s.
     if has_flag flags VM_ALLOC_SBUSY then vm_page_sbusy m s else Inr s))"

subsection \<open>One page\<close>

definition grab_pflags :: "u_int \<Rightarrow> u_int" where
  "grab_pflags flags =
     (let f = flags AND NOT (VM_ALLOC_NOWAIT OR VM_ALLOC_WAITOK OR VM_ALLOC_WAITFAIL) in
      if has_flag flags VM_ALLOC_NOWAIT then f else f OR VM_ALLOC_WAITFAIL)"

fun grab_loop ::
    "'r vm_env \<Rightarrow> obj \<Rightarrow> u_long \<Rightarrow> u_int \<Rightarrow> u_int \<Rightarrow> 'r grab_turn list \<Rightarrow> 'r vm \<Rightarrow> fault + 'r vm \<times> pg option" where
  "grab_loop E ob pi flags pflags [] s = Inl (Diverges ''vm_page_grab'')"
| "grab_loop E ob pi flags pflags (t # ts) s =
     (case vm_page_lookup (radix_ops E) ob pi s of
        Some m \<Rightarrow>
          if grab_must_sleep flags m s then
            if has_flag flags VM_ALLOC_NOWAIT then Inr (s, None)
            else grab_loop E ob pi flags pflags ts (grab_sleep t flags m s)
          else rbind (grab_take flags m s) (\<lambda>s. Inr (s, Some m))
      | None \<Rightarrow>
          rbind (vm_page_alloc E (Some ob) pi pflags (grab_attempts t s) s) (\<lambda>(s, got).
          case got of
            None \<Rightarrow>
              if has_flag flags VM_ALLOC_NOWAIT then Inr (s, None)
              else grab_loop E ob pi flags pflags ts (gt_others t s)
          | Some m \<Rightarrow>
              Inr (call_if (has_flag flags VM_ALLOC_ZERO \<and> pg_flags (pages s m) AND PG_ZERO = 0) (PmapZero m) s, Some m)))"

definition vm_page_grab ::
    "'r vm_env \<Rightarrow> 'r grab_turn list \<Rightarrow> obj \<Rightarrow> u_long \<Rightarrow> u_int \<Rightarrow> 'r vm \<Rightarrow> fault + 'r vm \<times> pg option" where
  "vm_page_grab E ts ob pi flags s =
     rbind (kassert (has_flag flags VM_ALLOC_SBUSY \<longrightarrow> has_flag flags VM_ALLOC_IGN_SBUSY)
       ''vm_page_grab: VM_ALLOC_SBUSY/VM_ALLOC_IGN_SBUSY mismatch'') (\<lambda>_.
     grab_loop E ob pi flags (grab_pflags flags) ts s)"

subsection \<open>A range of pages\<close>

text \<open>The page at index \<open>k\<close>, and the page in front of that place.\<close>

definition grab_lookup :: "'r vm_env \<Rightarrow> obj \<Rightarrow> u_long \<Rightarrow> 'r vm \<Rightarrow> pg option \<times> pg option" where
  "grab_lookup E ob k s =
     (case r_lookup_le (radix_ops E) k (rtree s ob) of
        None \<Rightarrow> (None, None)
      | Some m \<Rightarrow> if pindex (pages s m) \<noteq> k then (None, Some m) else (Some m, tailq_prev m (memq s ob)))"

definition grab_validate :: "u_int \<Rightarrow> pg \<Rightarrow> 'r vm \<Rightarrow> 'r vm" where
  "grab_validate flags m s =
     (if valid (pages s m) = 0 \<and> has_flag flags VM_ALLOC_ZERO then
        upd_pg m (\<lambda>p. p\<lparr>valid := VM_PAGE_BITS_ALL\<rparr>)
          (call_if (pg_flags (pages s m) AND PG_ZERO = 0) (PmapZero m) s)
      else s)"

text \<open>\<open>ma\<close> has the pages that are taken so far, \<open>m\<close> is the page at the next index and \<open>mpred\<close> the one before
  it.\<close>

fun grab_pages_loop ::
    "'r vm_env \<Rightarrow> obj \<Rightarrow> u_long \<Rightarrow> u_int \<Rightarrow> u_int \<Rightarrow> nat \<Rightarrow> 'r grab_turn list \<Rightarrow> pg list \<Rightarrow>
     pg option \<Rightarrow> pg option \<Rightarrow> 'r vm \<Rightarrow> fault + 'r vm \<times> pg list" where
  "grab_pages_loop E ob pi flags pflags count ts ma m mpred s =
     (if count \<le> length ma then Inr (s, ma)
      else
        case ts of [] \<Rightarrow> Inl (Diverges ''vm_page_grab_pages'')
        | t # ts \<Rightarrow>
            let k = pi + of_nat (length ma);
                again = (\<lambda>s. case grab_lookup E ob k s of (m, mpred) \<Rightarrow>
                  grab_pages_loop E ob pi flags pflags count ts ma m mpred s);
                taken = (\<lambda>m s. let s = grab_validate flags m s in
                  rbind (vm_page_next m s) (\<lambda>nxt.
                  grab_pages_loop E ob pi flags pflags count ts (ma @ [m]) nxt (Some m) s)) in
            case m of
              Some m \<Rightarrow>
                if grab_must_sleep flags m s then
                  if has_flag flags VM_ALLOC_NOWAIT then Inr (s, ma) else again (grab_sleep t flags m s)
                else rbind (grab_take flags m s) (taken m)
            | None \<Rightarrow>
                rbind (vm_page_alloc_after E (Some ob) k (pflags OR VM_ALLOC_COUNT (count - length ma)) mpred
                    (grab_attempts t s) s) (\<lambda>(s, got).
                case got of
                  None \<Rightarrow> if has_flag flags VM_ALLOC_NOWAIT then Inr (s, ma) else again (gt_others t s)
                | Some m \<Rightarrow> taken m s))"

declare grab_pages_loop.simps [simp del]

definition grab_pages_pflags :: "u_int \<Rightarrow> u_int" where
  "grab_pages_pflags flags =
     (let f = flags AND NOT (VM_ALLOC_NOWAIT OR VM_ALLOC_WAITOK OR VM_ALLOC_WAITFAIL OR VM_ALLOC_IGN_SBUSY) in
      if has_flag flags VM_ALLOC_NOWAIT then f else f OR VM_ALLOC_WAITFAIL)"

definition vm_page_grab_pages ::
    "'r vm_env \<Rightarrow> 'r grab_turn list \<Rightarrow> obj \<Rightarrow> u_long \<Rightarrow> u_int \<Rightarrow> nat \<Rightarrow> 'r vm \<Rightarrow> fault + 'r vm \<times> pg list" where
  "vm_page_grab_pages E ts ob pi flags count s =
     rbind (kassert (drop_bit VM_ALLOC_COUNT_SHIFT flags = 0) ''vm_page_grap_pages: VM_ALLOC_COUNT() is not allowed'') (\<lambda>_.
     rbind (kassert (has_flag flags VM_ALLOC_NOBUSY \<longrightarrow> has_flag flags VM_ALLOC_WIRED)
       ''vm_page_grab_pages: the pages must be busied or wired'') (\<lambda>_.
     rbind (kassert (has_flag flags VM_ALLOC_SBUSY \<longrightarrow> has_flag flags VM_ALLOC_IGN_SBUSY)
       ''vm_page_grab_pages: VM_ALLOC_SBUSY/IGN_SBUSY mismatch'') (\<lambda>_.
     if count = 0 then Inr (s, [])
     else
       case grab_lookup E ob pi s of (m, mpred) \<Rightarrow>
         grab_pages_loop E ob pi flags (grab_pages_pflags flags) count ts [] m mpred s)))"

end
