(* ===== verification/VmGrabLaws.thy ===== *)
theory VmGrabLaws
  imports VmGrab VmFreeLaws VmBusy
begin

text \<open>
  The functions that grab pages never fail an assertion, keep the invariants of the queues and of the
  objects, and return the pages of the indices they were asked for, wired and busied as requested.
\<close>

subsection \<open>Busy words\<close>

lemma busied_words:
  assumes "busy_ok b"
  shows "vm_page_xbusied (busy_word b) \<longleftrightarrow> (case b of Shared k w \<Rightarrow> False | Exclusive w \<Rightarrow> True)"
    "vm_page_sbusied (busy_word b) \<longleftrightarrow> (case b of Shared k w \<Rightarrow> b \<noteq> Shared 0 False | Exclusive w \<Rightarrow> False)"
proof -
  have x: "low_word k 1 AND 2 = 0" "low_word k 5 AND 2 = 0" "low_word 0 2 AND 2 = 2" "low_word 0 6 AND 2 = 2"
    "low_word k 1 AND 1 = 1" "low_word k 5 AND 1 = 1" "low_word 0 2 AND 1 = 0" "low_word 0 6 AND 1 = 0" for k
    using busy_tests [of 1 k] busy_tests [of 5 k] busy_tests [of 2 0] busy_tests [of 6 0] by simp_all
  show "vm_page_xbusied (busy_word b) \<longleftrightarrow> (case b of Shared k w \<Rightarrow> False | Exclusive w \<Rightarrow> True)"
    by (cases b) (simp_all add: vm_page_xbusied_def VPB_SINGLE_EXCLUSIVER_def VPB_BIT_EXCLUSIVE_def x del: One_nat_def)
  show "vm_page_sbusied (busy_word b) \<longleftrightarrow> (case b of Shared k w \<Rightarrow> b \<noteq> Shared 0 False | Exclusive w \<Rightarrow> False)"
    using assms by (cases b) (auto simp: vm_page_sbusied_def busy_consts x low_word_eq_iff simp del: One_nat_def)
qed

text \<open>The word of a page that can take one more sharer.\<close>

definition word_fit :: "u_int \<Rightarrow> bool" where
  "word_fit x \<longleftrightarrow> lock_ok x \<and> (case busy_of x of Shared k w \<Rightarrow> k + 1 < 2 ^ 29 | Exclusive w \<Rightarrow> True)"

lemma word_fit_sbusy:
  assumes "word_fit x" "\<not> vm_page_xbusied x"
  shows "\<exists>w. vm_page_trysbusy x = (w, True) \<and> vm_page_sbusied w"
proof -
  define b where "b = busy_of x"
  have b: "busy_ok b" "x = busy_word b" "case b of Shared k w \<Rightarrow> k + 1 < 2 ^ 29 | Exclusive w \<Rightarrow> True"
    using assms(1) by (simp_all add: word_fit_def lock_ok_def b_def)
  then obtain k w where s: "b = Shared k w" using assms(2) busied_words(1) [OF b(1)] by (cases b) simp_all
  have "busy_ok (Shared (Suc k) w) \<and> vm_page_trysbusy x = (busy_word (Shared (Suc k) w), True)"
    using busy_exec_word [of b "()" Trysbusy] b s by simp
  then show ?thesis using busied_words(2) [of "Shared (Suc k) w"] by auto
qed

lemma tryxbusy_unbusied: "\<not> vm_page_busied x \<Longrightarrow> vm_page_tryxbusy x = (VPB_SINGLE_EXCLUSIVER, True)"
  by (simp add: vm_page_tryxbusy_def vm_page_busied_def)

lemma xbusied_single: "vm_page_xbusied VPB_SINGLE_EXCLUSIVER"
  by (simp add: vm_page_xbusied_def VPB_SINGLE_EXCLUSIVER_def VPB_BIT_EXCLUSIVE_def)

lemma sbusied_one: "vm_page_sbusied (VPB_SHARERS_WORD 1)"
  using busied_words(2) [of "Shared 1 False"] by (simp add: busy_consts del: One_nat_def)

subsection \<open>Taking a page\<close>

lemma wire_pages:
  assumes "vm_page_wire m s = Inr s'"
  shows "x \<noteq> m \<Longrightarrow> pages s' x = pages s x"
    "\<exists>q w. pages s' m = (pages s m)\<lparr>queue := q, wire_count := w\<rparr>"
proof -
  have deq: "vm_page_remque m s = Inr t \<Longrightarrow> (\<forall>x. x \<noteq> m \<longrightarrow> pages t x = pages s x) \<and> (\<exists>q. pages t m = (pages s m)\<lparr>queue := q\<rparr>)" for t
  proof -
    have self: "\<exists>q. p = p\<lparr>queue := q\<rparr>" for p :: vm_page by (rule exI [of _ "queue p"]) simp
    show "vm_page_remque m s = Inr t \<Longrightarrow> (\<forall>x. x \<noteq> m \<longrightarrow> pages t x = pages s x) \<and> (\<exists>q. pages t m = (pages s m)\<lparr>queue := q\<rparr>)"
      by (auto intro: self simp: vm_page_remque_def vm_page_dequeue_def vm_page_dequeue_locked_def split: if_splits prod.splits)
  qed
  have self: "\<exists>q w. p = p\<lparr>queue := q, wire_count := w\<rparr>" for p :: vm_page
    by (rule exI [of _ "queue p"], rule exI [of _ "wire_count p"]) simp
  have c: "(x \<noteq> m \<longrightarrow> pages s' x = pages s x) \<and> (\<exists>q w. pages s' m = (pages s m)\<lparr>queue := q, wire_count := w\<rparr>)"
  proof (cases "pg_flags (pages s m) AND PG_FICTITIOUS \<noteq> 0")
    case True
    then show ?thesis using assms by (auto intro: self simp: vm_page_wire_def)
  next
    case False
    then obtain t where t: "(if wire_count (pages s m) = 0 then
                 rbind (kassert (\<not> unmanaged m s \<or> queue (pages s m) = PQ_NONE)
                   ''vm_page_wire: unmanaged page is queued'') (\<lambda>_.
                 rbind (vm_page_remque m s) (\<lambda>s. Inr (s\<lparr>v_wire_count := v_wire_count s + 1\<rparr>)))
               else Inr s) = Inr t" "s' = upd_pg m (\<lambda>p. p\<lparr>wire_count := wire_count p + 1\<rparr>) t"
      using assms unfolding vm_page_wire_def if_not_P [OF False] rbind_eq_Inr by (auto simp: Let_def)
    have "(\<forall>x. x \<noteq> m \<longrightarrow> pages t x = pages s x) \<and> (\<exists>q. pages t m = (pages s m)\<lparr>queue := q\<rparr>)"
    proof (cases "wire_count (pages s m) = 0")
      case True
      then obtain u where "vm_page_remque m s = Inr u" "t = u\<lparr>v_wire_count := v_wire_count u + 1\<rparr>" using t(1) by auto
      then show ?thesis using deq [of u] by simp
    next
      case False
      then have "t = s" using t(1) by simp
      moreover have "pages s m = (pages s m)\<lparr>queue := queue (pages s m)\<rparr>" by simp
      ultimately show ?thesis by metis
    qed
    then obtain q where "\<forall>x. x \<noteq> m \<longrightarrow> pages t x = pages s x" "pages t m = (pages s m)\<lparr>queue := q\<rparr>" by blast
    then show ?thesis unfolding t(2) by (auto intro!: exI [of _ q] exI [of _ "wire_count (pages s m) + 1"])
  qed
  then show "x \<noteq> m \<Longrightarrow> pages s' x = pages s x" "\<exists>q w. pages s' m = (pages s m)\<lparr>queue := q, wire_count := w\<rparr>" by blast+
qed

text \<open>What the caller of the grab functions gets: the page of the index, wired and busied as it asked.\<close>

definition grabbed :: "u_int \<Rightarrow> obj \<Rightarrow> u_long \<Rightarrow> vm_page \<Rightarrow> bool" where
  "grabbed flags ob k p \<longleftrightarrow> pg_object p = Some ob \<and> pindex p = k \<and>
     (has_flag flags VM_ALLOC_WIRED \<longrightarrow> wire_count p \<noteq> 0) \<and>
     (if has_flag flags VM_ALLOC_SBUSY then vm_page_sbusied (busy_lock p)
      else has_flag flags VM_ALLOC_NOBUSY \<or> vm_page_xbusied (busy_lock p))"

text \<open>The requests that the functions serve: one kind of busying at most, and a page that others share
  is not busied exclusively.\<close>

definition grab_request :: "u_int \<Rightarrow> bool" where
  "grab_request flags \<longleftrightarrow> \<not> has_flag flags VM_ALLOC_NOOBJ \<and> \<not> has_flag flags VM_ALLOC_IFCACHED \<and>
     \<not> (has_flag flags VM_ALLOC_NOBUSY \<and> has_flag flags VM_ALLOC_SBUSY) \<and>
     (has_flag flags VM_ALLOC_SBUSY \<longrightarrow> has_flag flags VM_ALLOC_IGN_SBUSY) \<and>
     (has_flag flags VM_ALLOC_IGN_SBUSY \<longrightarrow> has_flag flags VM_ALLOC_NOBUSY \<or> has_flag flags VM_ALLOC_SBUSY)"

text \<open>Every page of the object from index \<open>k\<close> on can be grabbed.\<close>

definition grabbable :: "'r vm \<Rightarrow> obj \<Rightarrow> u_long \<Rightarrow> bool" where
  "grabbable s ob k \<longleftrightarrow> (\<forall>m. pg_object (pages s m) = Some ob \<longrightarrow> k \<le> pindex (pages s m) \<longrightarrow>
     \<not> marker s m \<and> \<not> fictitious s m \<and> wire_count (pages s m) \<noteq> - 1 \<and> word_fit (busy_lock (pages s m)))"

lemma vm_inv_busy:
  assumes "vm_inv n a s" "\<not> marker s m"
  shows "vm_inv n a (upd_pg m (\<lambda>p. p\<lparr>busy_lock := w\<rparr>) s)"
  by (rule vm_inv_upd_flags [OF assms]) (use not_marker_flags [OF assms(2)] in simp_all)

lemma grab_take_ok:
  assumes inv: "vm_inv n a s" and m: "\<not> marker s m" "\<not> fictitious s m" "wire_count (pages s m) \<noteq> - 1"
    "word_fit (busy_lock (pages s m))" and q: "grab_request flags" and nb: "\<not> grab_must_sleep flags m s"
    and at: "pg_object (pages s m) = Some ob" "pindex (pages s m) = k"
  shows "\<exists>s'. grab_take flags m s = Inr s' \<and> vm_inv n a s' \<and> obj_same s s' \<and> (\<forall>x. x \<noteq> m \<longrightarrow> pages s' x = pages s x) \<and>
    grabbed flags ob k (pages s' m) \<and> pg_flags (pages s' m) = pg_flags (pages s m)"
proof -
  define r where "r = (if has_flag flags VM_ALLOC_WIRED then vm_page_wire m s else Inr s)"
  obtain t where t: "r = Inr t" "vm_inv n a t" "obj_same s t" "\<And>x. x \<noteq> m \<Longrightarrow> pages t x = pages s x"
    "busy_lock (pages t m) = busy_lock (pages s m)" "pg_flags (pages t m) = pg_flags (pages s m)"
    "has_flag flags VM_ALLOC_WIRED \<Longrightarrow> wire_count (pages t m) \<noteq> 0"
  proof (cases "has_flag flags VM_ALLOC_WIRED")
    case True
    have wf: "vm_wf n s" "obj_wf a s" using inv by (simp_all add: vm_inv_def)
    obtain t where w: "vm_page_wire m s = Inr t" "vm_wf n t" "wire_count (pages t m) = wire_count (pages s m) + 1"
      using wire_ok [OF wf(1) m(1-3)] by blast
    have o: "obj_same s t" by (rule obj_same_wire [OF w(1)])
    have "wire_count (pages t m) \<noteq> 0" using w(3) m(3) by (simp add: eq_neg_iff_add_eq_0)
    moreover have "vm_inv n a t" using w(2) obj_wf_same [OF wf(2) o] by (simp add: vm_inv_def)
    moreover obtain q w' where "pages t m = (pages s m)\<lparr>queue := q, wire_count := w'\<rparr>" using wire_pages(2) [OF w(1)] by blast
    ultimately show thesis using that [of t] True w(1) o wire_pages(1) [OF w(1)] by (simp add: r_def)
  qed (use that [of s] inv in \<open>simp add: r_def\<close>)
  have mt: "\<not> marker t m" using m(1) by (simp add: marker_def t(6))
  have at': "pg_object (pages t m) = Some ob" "pindex (pages t m) = k" using t(3) at by (simp_all add: obj_same_def)
  have E: "grab_take flags m s = rbind (if \<not> has_flag flags (VM_ALLOC_NOBUSY OR VM_ALLOC_SBUSY) then vm_page_xbusy m t else Inr t) (\<lambda>s.
     if has_flag flags VM_ALLOC_SBUSY then vm_page_sbusy m s else Inr s)"
    unfolding grab_take_def r_def [symmetric] t(1) by simp
  have fin: ?thesis if "grab_take flags m s = Inr (upd_pg m (\<lambda>p. p\<lparr>busy_lock := w\<rparr>) t)"
    "if has_flag flags VM_ALLOC_SBUSY then vm_page_sbusied w else has_flag flags VM_ALLOC_NOBUSY \<or> vm_page_xbusied w" for w
  proof -
    let ?u = "upd_pg m (\<lambda>p. p\<lparr>busy_lock := w\<rparr>) t"
    have "vm_inv n a ?u" by (rule vm_inv_busy [OF t(2) mt])
    moreover have "obj_same s ?u" by (rule obj_same_upd_pg [OF t(3)]) simp_all
    moreover have "grabbed flags ob k (pages ?u m)" using that(2) at' t(7) by (simp add: grabbed_def)
    ultimately show ?thesis using that(1) t(4,6) by (intro exI [of _ ?u]) simp
  qed
  have same: "upd_pg m (\<lambda>p. p\<lparr>busy_lock := busy_lock (pages t m)\<rparr>) t = t" by (simp add: upd_pg_def)
  consider (shared) "has_flag flags VM_ALLOC_SBUSY" | (not_busied) "\<not> has_flag flags VM_ALLOC_SBUSY" "has_flag flags VM_ALLOC_NOBUSY"
    | (exclusive) "\<not> has_flag flags VM_ALLOC_SBUSY" "\<not> has_flag flags VM_ALLOC_NOBUSY" by blast
  then show ?thesis
  proof cases
    case shared
    then have "\<not> vm_page_xbusied (busy_lock (pages s m))" using nb q by (simp add: grab_must_sleep_def grab_request_def)
    then obtain w where "vm_page_trysbusy (busy_lock (pages s m)) = (w, True)" "vm_page_sbusied w"
      using word_fit_sbusy [OF m(4)] by blast
    then show ?thesis using shared by (intro fin [of w]) (simp_all add: E has_flag_or vm_page_sbusy_def t(5))
  next
    case not_busied
    then show ?thesis by (intro fin [of "busy_lock (pages t m)"]) (simp_all add: E has_flag_or same)
  next
    case exclusive
    then have "\<not> vm_page_busied (busy_lock (pages s m))" using nb q by (auto simp: grab_must_sleep_def grab_request_def)
    then show ?thesis using exclusive
      by (intro fin [of VPB_SINGLE_EXCLUSIVER]) (simp_all add: E has_flag_or vm_page_xbusy_def t(5) tryxbusy_unbusied xbusied_single)
  qed
qed

subsection \<open>Allocating a page\<close>

text \<open>The physical allocator hands out pages of the free list, and there is a page daemon to wait for.\<close>

definition supplies :: "nat \<Rightarrow> ('r \<Rightarrow> u_long \<Rightarrow> pg option) \<Rightarrow> 'r grab_turn \<Rightarrow> bool" where
  "supplies n a t \<longleftrightarrow> (\<forall>s. vm_inv n a s \<longrightarrow> 0 < gt_free t s \<longrightarrow> (\<exists>m. gt_got t s = Some m \<and> allocatable s m))"

lemma may_alloc_pos: "may_alloc E c k \<Longrightarrow> 0 < k"
  by (auto simp: may_alloc_def intro: le_less_trans [OF word_zero_le])

lemma alloc_none:
  assumes req: "obj_request req" and mp: "mpred_ok s ob pi mpred" and no: "\<not> may_alloc E (req_class_of E req) fc"
    and pd: "in_pageproc E \<or> have_pageproc E"
  shows "\<exists>s'. vm_page_alloc_after E (Some ob) pi req mpred ((fc, g) # rest) s = Inr (s', None) \<and> vm_same s s'"
proof -
  have pre: "(case mpred of None \<Rightarrow> Inr () | Some p \<Rightarrow> kassert (pindex (pages s p) < pi) msg) = Inr ()" for msg
    using mp by (auto simp: mpred_ok_def split: option.splits)
  let ?s = "s\<lparr>v_free_count := fc\<rparr>"
  let ?t = "?s\<lparr>vm_pageout_deficit := vm_pageout_deficit ?s + max (drop_bit VM_ALLOC_COUNT_SHIFT req) 1\<rparr>"
  have nw: "\<not> has_flag req VM_ALLOC_WAITOK" using req by (simp add: obj_request_def)
  have "\<exists>s'. vm_page_alloc_fail E req ?s = Inr (s', False)"
    using nw pd by (auto simp: vm_page_alloc_fail_def vm_wait'_def Let_def)
  then obtain s' where f: "vm_page_alloc_fail E req ?s = Inr (s', False)" by blast
  have "vm_same s s'" using vm_same_alloc_fail [OF f] by simp
  moreover have "vm_page_alloc_after E (Some ob) pi req mpred ((fc, g) # rest) s = Inr (s', None)"
    using req unfolding vm_page_alloc_after_def obj_request_def by (simp add: pre no f Let_def)
  ultimately show ?thesis by blast
qed

text \<open>Whatever comes of an allocation, the pages of the objects are left alone.\<close>

lemma grab_alloc_ok:
  assumes R: "radix_ok (radix_ops E) a" and inv: "vm_inv n a s" and req: "obj_request req"
    and free: "a (rtree s ob) pi = None" and mp: "mpred_ok s ob pi mpred"
    and t: "supplies n a t" and pd: "in_pageproc E \<or> have_pageproc E"
  shows "\<exists>s' r. vm_page_alloc_after E (Some ob) pi req mpred (grab_attempts t s) s = Inr (s', r) \<and> vm_inv n a s' \<and>
    (case r of
       None \<Rightarrow> \<forall>x. (pg_object (pages s x) \<noteq> None \<longrightarrow> pages s' x = pages s x) \<and>
          (pg_object (pages s x) = None \<longrightarrow> pg_object (pages s' x) = None)
     | Some m \<Rightarrow> pg_object (pages s m) = None \<and> alloc_result req ob pi (pages s' m) \<and>
          (\<forall>x. x \<noteq> m \<longrightarrow> pages s' x = pages s x))"
proof (cases "may_alloc E (req_class_of E req) (gt_free t s)")
  case False
  obtain s' where s': "vm_page_alloc_after E (Some ob) pi req mpred (grab_attempts t s) s = Inr (s', None)" "vm_same s s'"
    using alloc_none [OF req mp False pd] unfolding grab_attempts_def by blast
  then have "vm_inv n a s'" "pages s' = pages s" using vm_sameD inv by blast+
  then show ?thesis using s'(1) by (intro exI [of _ s'] exI [of _ None]) simp
next
  case True
  obtain m where m: "gt_got t s = Some m" "allocatable s m" using t inv may_alloc_pos [OF True] unfolding supplies_def by blast
  have om: "pg_object (pages s m) = None" using alloc_checkD(1) [of m s] m(2) by (simp add: allocatable_def)
  obtain s' r where A: "vm_page_alloc_after E (Some ob) pi req mpred (grab_attempts t s) s = Inr (s', r)" "vm_inv n a s'"
    "\<forall>x. x \<noteq> m \<longrightarrow> pages s' x = pages s x"
    "if r_insert (radix_ops E) pi m (rtree s ob) = None
     then r = None \<and> v_wire_count s' = v_wire_count s \<and> a (rtree s' ob) = a (rtree s ob) \<and>
       vm_page_alloc_check m s' = Inr () \<and> frees s' m = frees s m + 1
     else r = Some m \<and> alloc_result req ob pi (pages s' m) \<and> a (rtree s' ob) = (a (rtree s ob))(pi := Some m)"
    using alloc_ok [OF R inv m(2) req free mp True] unfolding grab_attempts_def m(1) by blast
  show ?thesis
  proof (cases "r_insert (radix_ops E) pi m (rtree s ob)")
    case None
    then have r: "r = None" "pg_object (pages s' m) = None" using A(4) alloc_checkD(1) [of m s'] by simp_all
    have "(pg_object (pages s x) \<noteq> None \<longrightarrow> pages s' x = pages s x) \<and>
      (pg_object (pages s x) = None \<longrightarrow> pg_object (pages s' x) = None)" for x
      using A(3) om r(2) by (cases "x = m") simp_all
    then show ?thesis using A(1,2) r(1) by auto
  next
    case (Some u)
    then show ?thesis using A om by auto
  qed
qed

lemma alloc_grabbed:
  assumes "alloc_result req ob k p" "has_flag req VM_ALLOC_WIRED = has_flag flags VM_ALLOC_WIRED"
    "has_flag req VM_ALLOC_SBUSY = has_flag flags VM_ALLOC_SBUSY" "has_flag req VM_ALLOC_NOBUSY = has_flag flags VM_ALLOC_NOBUSY"
  shows "grabbed flags ob k p"
  using assms by (simp add: alloc_result_def grabbed_def sbusied_one xbusied_single)

text \<open>The flags of the allocation are those of the request, but for the waiting.\<close>

lemma has_flag_and_not: "f AND g = 0 \<Longrightarrow> has_flag (w AND NOT g) f = has_flag w f"
proof -
  assume d: "f AND g = 0"
  have "(w AND NOT g) AND f = w AND f"
  proof (rule bit_eqI)
    fix i
    have "\<not> (bit f i \<and> bit g i)" using arg_cong [OF d, of "\<lambda>x. bit x i"] by (simp add: bit_simps)
    then show "bit ((w AND NOT g) AND f) i = bit (w AND f) i" by (auto simp: bit_simps dest: bit_imp_le_length)
  qed
  then show ?thesis by (simp add: has_flag_def)
qed

lemma has_flag_or_left: "has_flag (w OR v) f \<longleftrightarrow> has_flag w f \<or> has_flag v f"
proof -
  have "(w OR v) AND f = (w AND f) OR (v AND f)" by (rule bit_eqI) (auto simp: bit_simps)
  moreover have "a OR b = 0 \<longleftrightarrow> a = 0 \<and> b = 0" for a b :: u_int by (auto simp: bit_eq_iff bit_simps)
  ultimately show ?thesis by (simp add: has_flag_def)
qed

lemmas alloc_flag_defs = VM_ALLOC_NOWAIT_def VM_ALLOC_WAITOK_def VM_ALLOC_WAITFAIL_def VM_ALLOC_IGN_SBUSY_def VM_ALLOC_WIRED_def
  VM_ALLOC_SBUSY_def VM_ALLOC_NOBUSY_def VM_ALLOC_NOOBJ_def VM_ALLOC_IFCACHED_def VM_ALLOC_CLASS_MASK_def VM_ALLOC_ZERO_def

lemma count_low: "f < 2 ^ 16 \<Longrightarrow> \<not> has_flag (VM_ALLOC_COUNT k) f"
proof -
  assume "f < 2 ^ 16"
  then have t: "take_bit 16 f = f" using less_mask_eq [of f 16] by (simp add: take_bit_eq_mask)
  have "VM_ALLOC_COUNT k AND take_bit 16 f = 0"
    unfolding VM_ALLOC_COUNT_def VM_ALLOC_COUNT_SHIFT_def by (rule bit_eqI) (auto simp: bit_simps)
  then show ?thesis using t by (simp add: has_flag_def)
qed

lemma grab_pflags_flags:
  assumes "f \<in> {VM_ALLOC_WIRED, VM_ALLOC_SBUSY, VM_ALLOC_NOBUSY, VM_ALLOC_NOOBJ, VM_ALLOC_IFCACHED}"
  shows "has_flag (grab_pflags flags) f = has_flag flags f" "has_flag (grab_pages_pflags flags) f = has_flag flags f"
    "has_flag (grab_pages_pflags flags OR VM_ALLOC_COUNT k) f = has_flag flags f"
proof -
  have d: "f AND (VM_ALLOC_NOWAIT OR VM_ALLOC_WAITOK OR VM_ALLOC_WAITFAIL) = 0"
    "f AND (VM_ALLOC_NOWAIT OR VM_ALLOC_WAITOK OR VM_ALLOC_WAITFAIL OR VM_ALLOC_IGN_SBUSY) = 0"
    "\<not> has_flag VM_ALLOC_WAITFAIL f" "f < 2 ^ 16"
    using assms by (auto simp: alloc_flag_defs has_flag_def)
  show g: "has_flag (grab_pflags flags) f = has_flag flags f" "has_flag (grab_pages_pflags flags) f = has_flag flags f"
    using has_flag_and_not [OF d(1)] has_flag_and_not [OF d(2)] d(3)
    by (simp_all add: grab_pflags_def grab_pages_pflags_def Let_def has_flag_or_left)
  show "has_flag (grab_pages_pflags flags OR VM_ALLOC_COUNT k) f = has_flag flags f"
    using g(2) count_low [OF d(4)] by (simp add: has_flag_or_left)
qed

lemma grab_pflags_wait:
  "\<not> has_flag (grab_pflags flags) VM_ALLOC_WAITOK" "\<not> has_flag (grab_pages_pflags flags OR VM_ALLOC_COUNT k) VM_ALLOC_WAITOK"
proof -
  have z: "\<not> has_flag (w AND NOT g) f" if "f AND NOT g = 0" for w g f :: u_int
  proof -
    have "(w AND NOT g) AND f = w AND (f AND NOT g)" by (simp add: and.assoc and.commute and.left_commute)
    then show ?thesis using that by (simp add: has_flag_def)
  qed
  have d: "VM_ALLOC_WAITOK AND NOT (VM_ALLOC_NOWAIT OR VM_ALLOC_WAITOK OR VM_ALLOC_WAITFAIL) = 0"
    "VM_ALLOC_WAITOK AND NOT (VM_ALLOC_NOWAIT OR VM_ALLOC_WAITOK OR VM_ALLOC_WAITFAIL OR VM_ALLOC_IGN_SBUSY) = 0"
    "\<not> has_flag VM_ALLOC_WAITFAIL VM_ALLOC_WAITOK" "VM_ALLOC_WAITOK < 2 ^ 16"
    by (simp_all add: alloc_flag_defs has_flag_def)
  show "\<not> has_flag (grab_pflags flags) VM_ALLOC_WAITOK" "\<not> has_flag (grab_pages_pflags flags OR VM_ALLOC_COUNT k) VM_ALLOC_WAITOK"
    using z [OF d(1)] z [OF d(2)] d(3) count_low [OF d(4)]
    by (simp_all add: grab_pflags_def grab_pages_pflags_def Let_def has_flag_or_left)
qed

subsection \<open>Waiting\<close>

text \<open>What other threads may do while the object is unlocked: whatever keeps the invariants, as long as
  they leave the pages that are busied or wired for the caller where they are.\<close>

definition good_waits :: "nat \<Rightarrow> ('r \<Rightarrow> u_long \<Rightarrow> pg option) \<Rightarrow> u_int \<Rightarrow> obj \<Rightarrow> ('r vm \<Rightarrow> 'r vm) \<Rightarrow> bool" where
  "good_waits n a flags ob f \<longleftrightarrow> (\<forall>s. vm_inv n a s \<longrightarrow> vm_inv n a (f s) \<and> (\<forall>x. marker (f s) x = marker s x) \<and>
     (\<forall>k. grabbable s ob k \<longrightarrow> grabbable (f s) ob k) \<and>
     (\<forall>m k. grabbed flags ob k (pages s m) \<longrightarrow> grabbed flags ob k (pages (f s) m)))"

definition turn_ok :: "nat \<Rightarrow> ('r \<Rightarrow> u_long \<Rightarrow> pg option) \<Rightarrow> u_int \<Rightarrow> obj \<Rightarrow> 'r grab_turn \<Rightarrow> bool" where
  "turn_ok n a flags ob t \<longleftrightarrow> good_waits n a flags ob (gt_unlocked t) \<and> good_waits n a flags ob (gt_others t) \<and> supplies n a t"

lemma good_waitsD:
  assumes "good_waits n a flags ob f" "vm_inv n a s"
  shows "vm_inv n a (f s)" "marker (f s) x = marker s x" "grabbable s ob k \<Longrightarrow> grabbable (f s) ob k"
    "grabbed flags ob k (pages s m) \<Longrightarrow> grabbed flags ob k (pages (f s) m)"
  using assms unfolding good_waits_def by blast+

lemma word_fit_sleep: "word_fit x \<Longrightarrow> word_fit (fst (vm_page_busy_sleep ns x))"
proof -
  assume "word_fit x"
  define b where "b = busy_of x"
  have b: "busy_ok b" "x = busy_word b" "case b of Shared k w \<Rightarrow> k + 1 < 2 ^ 29 | Exclusive w \<Rightarrow> True"
    using \<open>word_fit x\<close> by (simp_all add: word_fit_def lock_ok_def b_def)
  define c where "c = fst (busy_spec () (Sleep ns) b)"
  have E: "busy_ok c" "fst (vm_page_busy_sleep ns x) = busy_word c"
    using busy_exec_word [OF b(1), of "()" "Sleep ns"] by (simp_all add: b(2) c_def)
  have "case c of Shared k w \<Rightarrow> k + 1 < 2 ^ 29 | Exclusive w \<Rightarrow> True"
    using b(3) by (cases b) (auto simp: c_def)
  then show ?thesis using E lock_ok_word [OF E(1)] busy_of_word [OF E(1)] by (simp add: word_fit_def)
qed

lemma grabbable_upd:
  assumes "grabbable s ob k" "\<And>p. pg_object (f p) = pg_object p" "\<And>p. pindex (f p) = pindex p"
    "\<And>p. pg_flags (f p) = pg_flags p" "\<And>p. wire_count (f p) = wire_count p"
    "\<And>p. word_fit (busy_lock p) \<Longrightarrow> word_fit (busy_lock (f p))"
  shows "grabbable (upd_pg m f s) ob k"
  using assms unfolding grabbable_def by (simp add: marker_def fictitious_def)

lemma grab_sleep_ok:
  assumes inv: "vm_inv n a s" and g: "grabbable s ob k" and m: "\<not> marker s m" and t: "turn_ok n a flags ob t"
  shows "vm_inv n a (grab_sleep t flags m s)" "grabbable (grab_sleep t flags m s) ob k"
    "x \<noteq> m \<Longrightarrow> grabbed flags ob j (pages s x) \<Longrightarrow> grabbed flags ob j (pages (grab_sleep t flags m s) x)"
proof -
  have T: "good_waits n a flags ob (gt_unlocked t)" "good_waits n a flags ob (gt_others t)" using t by (simp_all add: turn_ok_def)
  let ?s1 = "vm_page_reference m s"
  have i1: "vm_inv n a ?s1" unfolding vm_page_reference_def
    by (rule vm_inv_upd_flags [OF inv m]) (use not_marker_flags [OF m] in simp_all)
  have g1: "grabbable ?s1 ob k" unfolding vm_page_reference_def by (rule grabbable_upd [OF g]) simp_all
  note D1 = good_waitsD [OF T(1) i1]
  let ?s2 = "gt_unlocked t ?s1"
  have m2: "\<not> marker ?s2 m" using D1(2) [of m] m by (simp add: marker_def vm_page_reference_def)
  let ?w = "\<lambda>x. fst (vm_page_busy_sleep (has_flag flags VM_ALLOC_IGN_SBUSY) x)"
  let ?s3 = "upd_pg m (\<lambda>p. p\<lparr>busy_lock := ?w (busy_lock p)\<rparr>) ?s2"
  have i3: "vm_inv n a ?s3"
    by (rule vm_inv_upd_flags [OF D1(1) m2]) (use not_marker_flags [OF m2] in simp_all)
  have g3: "grabbable ?s3 ob k" by (rule grabbable_upd [OF D1(3) [OF g1]]) (simp_all add: word_fit_sleep)
  note D3 = good_waitsD [OF T(2) i3]
  have e: "grab_sleep t flags m s = gt_others t ?s3" by (simp add: grab_sleep_def Let_def)
  show "vm_inv n a (grab_sleep t flags m s)" "grabbable (grab_sleep t flags m s) ob k"
    unfolding e by (rule D3(1), rule D3(3) [OF g3])
  assume x: "x \<noteq> m" "grabbed flags ob j (pages s x)"
  then have "grabbed flags ob j (pages ?s1 x)" by (simp add: vm_page_reference_def)
  then have "grabbed flags ob j (pages ?s3 x)" using D1(4) x(1) by simp
  then show "grabbed flags ob j (pages (grab_sleep t flags m s) x)" unfolding e by (rule D3(4))
qed

subsection \<open>One page\<close>

text \<open>Nothing has to be waited for.\<close>

definition settled :: "'r vm_env \<Rightarrow> u_int \<Rightarrow> obj \<Rightarrow> u_long \<Rightarrow> 'r grab_turn \<Rightarrow> 'r vm \<Rightarrow> bool" where
  "settled E flags ob pi t s \<longleftrightarrow> (case vm_page_lookup (radix_ops E) ob pi s of
      Some m \<Rightarrow> \<not> grab_must_sleep flags m s
    | None \<Rightarrow> may_alloc E (req_class_of E (grab_pflags flags)) (gt_free t s) \<and>
        (\<forall>m. gt_got t s = Some m \<longrightarrow> r_insert (radix_ops E) pi m (rtree s ob) \<noteq> None))"

lemma vm_inv_call: "quiet c \<Longrightarrow> vm_inv n a s \<Longrightarrow> vm_inv n a (call_if b c s)"
  by (rule vm_sameD(4) [of s]) simp_all

lemma grab_request_alloc:
  assumes "grab_request flags"
  shows "obj_request (grab_pflags flags)" "obj_request (grab_pages_pflags flags OR VM_ALLOC_COUNT k)"
proof -
  have nb: "req AND (VM_ALLOC_NOBUSY OR VM_ALLOC_SBUSY) \<noteq> VM_ALLOC_NOBUSY OR VM_ALLOC_SBUSY"
    if "\<not> (has_flag req VM_ALLOC_NOBUSY \<and> has_flag req VM_ALLOC_SBUSY)" for req
  proof
    assume e: "req AND (VM_ALLOC_NOBUSY OR VM_ALLOC_SBUSY) = VM_ALLOC_NOBUSY OR VM_ALLOC_SBUSY"
    have "req AND f = (req AND (VM_ALLOC_NOBUSY OR VM_ALLOC_SBUSY)) AND f" if "f = VM_ALLOC_NOBUSY \<or> f = VM_ALLOC_SBUSY" for f
      using that by (rule disjE) (simp_all add: and.assoc alloc_flag_defs)
    then have "req AND VM_ALLOC_NOBUSY \<noteq> 0" "req AND VM_ALLOC_SBUSY \<noteq> 0" unfolding e by (simp_all add: alloc_flag_defs)
    then show False using that by (simp add: has_flag_def)
  qed
  show "obj_request (grab_pflags flags)" "obj_request (grab_pages_pflags flags OR VM_ALLOC_COUNT k)"
    using assms grab_pflags_wait
    by (simp_all add: obj_request_def grab_pflags_flags grab_request_def nb)
qed

lemma grabbable_alloc_none:
  assumes g: "grabbable s ob k" and p: "\<And>x. pg_object (pages s x) \<noteq> None \<Longrightarrow> pages s' x = pages s x"
    "\<And>x. pg_object (pages s x) = None \<Longrightarrow> pg_object (pages s' x) = None"
  shows "grabbable s' ob k"
  unfolding grabbable_def
proof (intro allI impI)
  fix x
  assume x: "pg_object (pages s' x) = Some ob" "k \<le> pindex (pages s' x)"
  then have "pg_object (pages s x) \<noteq> None" using p(2) [of x] by auto
  then have e: "pages s' x = pages s x" by (rule p(1))
  then show "\<not> marker s' x \<and> \<not> fictitious s' x \<and> wire_count (pages s' x) \<noteq> - 1 \<and> word_fit (busy_lock (pages s' x))"
    using g x unfolding grabbable_def marker_def fictitious_def e by simp
qed

lemma grab_loop_ok:
  assumes R: "radix_ok (radix_ops E) a" and q: "grab_request flags" and pd: "in_pageproc E \<or> have_pageproc E"
  shows "vm_inv n a s \<Longrightarrow> grabbable s ob pi \<Longrightarrow> list_all (turn_ok n a flags ob) ts \<Longrightarrow>
    (case grab_loop E ob pi flags (grab_pflags flags) ts s of
       Inl e \<Rightarrow> e = Diverges ''vm_page_grab'' \<and> (has_flag flags VM_ALLOC_NOWAIT \<longrightarrow> ts = [])
     | Inr (s', r) \<Rightarrow> vm_inv n a s' \<and> (case r of None \<Rightarrow> has_flag flags VM_ALLOC_NOWAIT | Some m \<Rightarrow> grabbed flags ob pi (pages s' m)))"
proof (induction ts arbitrary: s)
  case (Cons t ts)
  note inv = Cons.prems(1) and g = Cons.prems(2)
  have wf: "obj_wf a s" using inv by (simp add: vm_inv_def)
  have t: "turn_ok n a flags ob t" "list_all (turn_ok n a flags ob) ts" using Cons.prems(3) by simp_all
  note IH = Cons.IH [OF _ _ t(2)]
  show ?case
  proof (cases "vm_page_lookup (radix_ops E) ob pi s")
    case (Some m)
    then have at: "pg_object (pages s m) = Some ob" "pindex (pages s m) = pi"
      by (simp_all add: vm_page_lookup_def radix_okD(1) [OF R] trie_iff [OF wf])
    then have gm: "\<not> marker s m" "\<not> fictitious s m" "wire_count (pages s m) \<noteq> - 1" "word_fit (busy_lock (pages s m))"
      using g by (auto simp: grabbable_def)
    show ?thesis
    proof (cases "grab_must_sleep flags m s")
      case True
      note S = grab_sleep_ok [OF inv g gm(1) t(1)]
      show ?thesis
      proof (cases "has_flag flags VM_ALLOC_NOWAIT")
        case False
        then show ?thesis using IH [OF S(1,2)] True Some by (auto split: sum.splits)
      qed (use True Some inv in simp)
    next
      case False
      obtain s' where "grab_take flags m s = Inr s'" "vm_inv n a s'" "grabbed flags ob pi (pages s' m)"
        using grab_take_ok [OF inv gm q False at] by blast
      then show ?thesis using Some False by simp
    qed
  next
    case None
    then have free: "a (rtree s ob) pi = None" by (simp add: vm_page_lookup_def radix_okD(1) [OF R])
    have sup: "supplies n a t" "good_waits n a flags ob (gt_others t)" using t(1) by (simp_all add: turn_ok_def)
    obtain s' r where A: "vm_page_alloc E (Some ob) pi (grab_pflags flags) (grab_attempts t s) s = Inr (s', r)" "vm_inv n a s'"
      "case r of
       None \<Rightarrow> \<forall>x. (pg_object (pages s x) \<noteq> None \<longrightarrow> pages s' x = pages s x) \<and>
          (pg_object (pages s x) = None \<longrightarrow> pg_object (pages s' x) = None)
     | Some m \<Rightarrow> pg_object (pages s m) = None \<and> alloc_result (grab_pflags flags) ob pi (pages s' m) \<and>
          (\<forall>x. x \<noteq> m \<longrightarrow> pages s' x = pages s x)"
      using grab_alloc_ok [OF R inv grab_request_alloc(1) [OF q] free mpred_lookup_le [OF R wf free] sup(1) pd]
      unfolding vm_page_alloc_def by auto
    show ?thesis
    proof (cases r)
      case (Some m)
      then have "grabbed flags ob pi (pages s' m)" using A(3)
        by (intro alloc_grabbed [of "grab_pflags flags"]) (simp_all add: grab_pflags_flags)
      then show ?thesis using A(1,2) None Some by (simp add: vm_inv_call)
    next
      case r: None
      then have p: "\<And>x. pg_object (pages s x) \<noteq> None \<Longrightarrow> pages s' x = pages s x" "\<And>x. pg_object (pages s x) = None \<Longrightarrow> pg_object (pages s' x) = None"
        using A(3) by simp_all
      have "grabbable s' ob pi" by (rule grabbable_alloc_none [OF g p])
      then show ?thesis using A(1,2) None r IH [OF good_waitsD(1) [OF sup(2) A(2)] good_waitsD(3) [OF sup(2) A(2)]]
        by (auto split: sum.splits)
    qed
  qed
qed simp

lemma grab_settled:
  assumes R: "radix_ok (radix_ops E) a" and q: "grab_request flags" and inv: "vm_inv n a s" and g: "grabbable s ob pi"
    and t: "turn_ok n a flags ob t" and st: "settled E flags ob pi t s"
  shows "\<exists>s' m. grab_loop E ob pi flags (grab_pflags flags) (t # ts) s = Inr (s', Some m)"
proof (cases "vm_page_lookup (radix_ops E) ob pi s")
  case (Some m)
  have wf: "obj_wf a s" using inv by (simp add: vm_inv_def)
  have at: "pg_object (pages s m) = Some ob" "pindex (pages s m) = pi"
    using Some by (simp_all add: vm_page_lookup_def radix_okD(1) [OF R] trie_iff [OF wf])
  then have gm: "\<not> marker s m" "\<not> fictitious s m" "wire_count (pages s m) \<noteq> - 1" "word_fit (busy_lock (pages s m))"
    using g by (auto simp: grabbable_def)
  have nb: "\<not> grab_must_sleep flags m s" using st Some by (simp add: settled_def)
  show ?thesis using grab_take_ok [OF inv gm q nb at] Some nb by auto
next
  case None
  have wf: "obj_wf a s" using inv by (simp add: vm_inv_def)
  have free: "a (rtree s ob) pi = None" using None by (simp add: vm_page_lookup_def radix_okD(1) [OF R])
  have ok: "may_alloc E (req_class_of E (grab_pflags flags)) (gt_free t s)" using st None by (simp add: settled_def)
  obtain m where m: "gt_got t s = Some m" "allocatable s m"
    using t inv may_alloc_pos [OF ok] unfolding turn_ok_def supplies_def by blast
  have "r_insert (radix_ops E) pi m (rtree s ob) \<noteq> None" using st None m(1) by (simp add: settled_def)
  then obtain s' where "vm_page_alloc E (Some ob) pi (grab_pflags flags) (grab_attempts t s) s = Inr (s', Some m)"
    using alloc_ok [OF R inv m(2) grab_request_alloc(1) [OF q] free mpred_lookup_le [OF R wf free] ok, of "[]"]
    unfolding vm_page_alloc_def grab_attempts_def m(1) by auto
  then show ?thesis using None by simp
qed

subsection \<open>A range of pages\<close>

text \<open>The loop knows the page at the next index, or the place for a new one.\<close>

definition at_index ::
    "('r \<Rightarrow> u_long \<Rightarrow> pg option) \<Rightarrow> 'r vm \<Rightarrow> obj \<Rightarrow> u_long \<Rightarrow> pg option \<Rightarrow> pg option \<Rightarrow> bool" where
  "at_index a s ob k m mpred \<longleftrightarrow> (case m of
      Some x \<Rightarrow> pg_object (pages s x) = Some ob \<and> pindex (pages s x) = k
    | None \<Rightarrow> a (rtree s ob) k = None \<and> mpred_ok s ob k mpred)"

lemma grab_lookup_at:
  assumes R: "radix_ok (radix_ops E) a" and wf: "obj_wf a s"
  shows "at_index a s ob k (fst (grab_lookup E ob k s)) (snd (grab_lookup E ob k s))"
proof (cases "r_lookup_le (radix_ops E) k (rtree s ob)")
  case None
  then have "a (rtree s ob) k = None" using radix_okD(2) [OF R None] by simp
  then show ?thesis using mpred_lookup_le [OF R wf, of ob k] None by (simp add: grab_lookup_def at_index_def)
next
  case (Some p)
  obtain j where j: "j \<le> k" "a (rtree s ob) j = Some p" "\<forall>i\<le>k. j < i \<longrightarrow> a (rtree s ob) i = None"
    using radix_okD(3) [OF R Some] by blast
  have p: "pg_object (pages s p) = Some ob" "pindex (pages s p) = j" using j(2) by (simp_all add: trie_iff [OF wf])
  show ?thesis
  proof (cases "j = k")
    case True
    then show ?thesis using p Some by (simp add: grab_lookup_def at_index_def)
  next
    case False
    then have "a (rtree s ob) k = None" using j(1,3) by simp
    then show ?thesis using mpred_lookup_le [OF R wf, of ob k] Some p False by (simp add: grab_lookup_def at_index_def)
  qed
qed

lemma u_long_inc: "k \<noteq> - 1 \<Longrightarrow> k < k + 1" for k :: u_long
  using less_eq_dec_self_iff_eq [of "k + 1"] by (simp add: not_le [symmetric] eq_neg_iff_add_eq_0)

lemma at_index_next:
  assumes wf: "obj_wf a s" and m: "pg_object (pages s m) = Some ob" "pindex (pages s m) = k" and k: "k \<noteq> - 1"
  shows "\<exists>nxt. vm_page_next m s = Inr nxt \<and> at_index a s ob (k + 1) nxt (Some m)"
proof -
  have n: "vm_page_next m s = Inr (a (rtree s ob) (k + 1))" using next_ok [OF wf m(1)] m(2) k by simp
  have kk: "k < k + 1" using k by (rule u_long_inc)
  have "at_index a s ob (k + 1) (a (rtree s ob) (k + 1)) (Some m)"
  proof (cases "a (rtree s ob) (k + 1)")
    case (Some x)
    then have "pg_object (pages s x) = Some ob" "pindex (pages s x) = k + 1" by (simp_all add: trie_iff [OF wf])
    then show ?thesis unfolding Some by (simp add: at_index_def)
  next
    case None
    have "pindex (pages s x) \<le> k \<or> k + 1 < pindex (pages s x)" if "x \<in> set (memq s ob)" for x
    proof -
      have "pindex (pages s x) \<noteq> k + 1" using None that by (simp add: trie_None [OF wf] obj_wfD(2) [OF wf])
      then show ?thesis using inc_le [of k "pindex (pages s x)"] by (metis linorder_not_less order_le_imp_less_or_eq)
    qed
    then have "mpred_ok s ob (k + 1) (Some m)" using m kk by (simp add: mpred_ok_def obj_wfD(2) [OF wf])
    then show ?thesis using None by (simp add: at_index_def)
  qed
  then show ?thesis using n by blast
qed

text \<open>The pages taken so far.\<close>

definition grabbed_run :: "u_int \<Rightarrow> obj \<Rightarrow> u_long \<Rightarrow> 'r vm \<Rightarrow> pg list \<Rightarrow> bool" where
  "grabbed_run flags ob pi s ma \<longleftrightarrow> (\<forall>j<length ma. grabbed flags ob (pi + of_nat j) (pages s (ma ! j)))"

lemma grab_index: "unat pi + count < 2 ^ 64 \<Longrightarrow> i < count \<Longrightarrow> unat (pi + of_nat i) = unat pi + i" for pi :: u_long
  by (simp add: unat_word_ariths unat_of_nat)

lemma grab_validate_ok:
  assumes inv: "vm_inv n a s" and m: "\<not> marker s m"
  shows "vm_inv n a (grab_validate flags m s)" "obj_same s (grab_validate flags m s)"
    "x \<noteq> m \<Longrightarrow> pages (grab_validate flags m s) x = pages s x"
    "grabbed flags ob k (pages (grab_validate flags m s) m) = grabbed flags ob k (pages s m)"
    "has_flag flags VM_ALLOC_ZERO \<Longrightarrow> valid (pages (grab_validate flags m s) m) \<noteq> 0"
proof -
  let ?s = "call_if (pg_flags (pages s m) AND PG_ZERO = 0) (PmapZero m) s"
  have s: "vm_same s ?s" by simp
  have i: "vm_inv n a ?s" "pages ?s = pages s" "obj_same s ?s" using vm_sameD [OF s] inv by blast+
  have "vm_inv n a (upd_pg m (\<lambda>p. p\<lparr>valid := VM_PAGE_BITS_ALL\<rparr>) ?s)"
    by (rule vm_inv_upd_flags [OF i(1)]) (use m not_marker_flags [OF m] in \<open>simp_all add: marker_def\<close>)
  then show "vm_inv n a (grab_validate flags m s)" using inv by (simp add: grab_validate_def)
  show "obj_same s (grab_validate flags m s)" unfolding grab_validate_def using i(3) by (simp add: obj_same_upd_pg)
qed (auto simp: grab_validate_def grabbed_def VM_PAGE_BITS_ALL_def)

text \<open>A page has been taken at index \<open>k\<close>.\<close>

lemma grab_next_ok:
  assumes inv: "vm_inv n a s" and m: "grabbed flags ob k (pages s m)" "\<not> marker s m" and k: "k \<noteq> - 1"
    and g: "\<And>x. x \<noteq> m \<Longrightarrow> pg_object (pages s x) = Some ob \<Longrightarrow> k \<le> pindex (pages s x) \<Longrightarrow>
      \<not> marker s x \<and> \<not> fictitious s x \<and> wire_count (pages s x) \<noteq> - 1 \<and> word_fit (busy_lock (pages s x))"
  shows "\<exists>nxt. vm_page_next m (grab_validate flags m s) = Inr nxt \<and>
    at_index a (grab_validate flags m s) ob (k + 1) nxt (Some m)" "grabbable (grab_validate flags m s) ob (k + 1)"
proof -
  let ?s = "grab_validate flags m s"
  note V = grab_validate_ok [OF inv m(2)]
  have wf: "obj_wf a ?s" using V(1) by (simp add: vm_inv_def)
  have at: "pg_object (pages ?s m) = Some ob" "pindex (pages ?s m) = k"
    using m(1) V(2) by (simp_all add: obj_same_def grabbed_def)
  show "\<exists>nxt. vm_page_next m ?s = Inr nxt \<and> at_index a ?s ob (k + 1) nxt (Some m)"
    by (rule at_index_next [OF wf at k])
  have kk: "k < k + 1" using k by (rule u_long_inc)
  show "grabbable ?s ob (k + 1)" unfolding grabbable_def
  proof (intro allI impI)
    fix x
    assume x: "pg_object (pages ?s x) = Some ob" "k + 1 \<le> pindex (pages ?s x)"
    then have ne: "x \<noteq> m" using at kk by auto
    show "\<not> marker ?s x \<and> \<not> fictitious ?s x \<and> wire_count (pages ?s x) \<noteq> - 1 \<and> word_fit (busy_lock (pages ?s x))"
      using g [OF ne] x kk V(3) [OF ne] by (simp add: marker_def fictitious_def)
  qed
qed

lemma grab_pages_loop_ok:
  assumes R: "radix_ok (radix_ops E) a" and q: "grab_request flags" and pd: "in_pageproc E \<or> have_pageproc E"
    and rng: "unat pi + count < 2 ^ 64"
  shows "vm_inv n a s \<Longrightarrow> grabbed_run flags ob pi s ma \<Longrightarrow> length ma \<le> count \<Longrightarrow>
    (length ma < count \<Longrightarrow> grabbable s ob (pi + of_nat (length ma)) \<and> at_index a s ob (pi + of_nat (length ma)) m mpred) \<Longrightarrow>
    list_all (turn_ok n a flags ob) ts \<Longrightarrow>
    (case grab_pages_loop E ob pi flags (grab_pages_pflags flags) count ts ma m mpred s of
       Inl e \<Rightarrow> e = Diverges ''vm_page_grab_pages'' \<and> (has_flag flags VM_ALLOC_NOWAIT \<longrightarrow> length ma + length ts < count)
     | Inr (s', ma') \<Rightarrow> vm_inv n a s' \<and> grabbed_run flags ob pi s' ma' \<and> length ma' \<le> count \<and>
         (length ma' < count \<longrightarrow> has_flag flags VM_ALLOC_NOWAIT))"
proof (induction ts arbitrary: s ma m mpred)
  case Nil
  then show ?case by (simp add: grab_pages_loop.simps)
next
  case (Cons t ts)
  let ?pf = "grab_pages_pflags flags"
  let ?k = "pi + of_nat (length ma)"
  note inv = Cons.prems(1) and run = Cons.prems(2)
  have wf: "obj_wf a s" using inv by (simp add: vm_inv_def)
  have t: "turn_ok n a flags ob t" "list_all (turn_ok n a flags ob) ts" using Cons.prems(5) by simp_all
  show ?case
  proof (cases "length ma < count")
    case False
    then show ?thesis using inv run Cons.prems(3) by (simp add: grab_pages_loop.simps)
  next
    case True
    have g: "grabbable s ob ?k" and at: "at_index a s ob ?k m mpred" using Cons.prems(4) True by blast+
    have uk: "unat (pi + of_nat j) = unat pi + j" if "j < count" for j by (rule grab_index [OF rng that])
    have kj: "pi + of_nat j \<noteq> ?k" if "j < length ma" for j using uk [of j] uk [OF True] that True by (metis add_left_cancel less_trans nat_neq_iff)
    have again: ?thesis if E: "grab_pages_loop E ob pi flags ?pf count (t # ts) ma m mpred s =
        (case grab_lookup E ob ?k s' of (m, mpred) \<Rightarrow> grab_pages_loop E ob pi flags ?pf count ts ma m mpred s')"
      and s': "vm_inv n a s'" "grabbed_run flags ob pi s' ma" "grabbable s' ob ?k" and w: "\<not> has_flag flags VM_ALLOC_NOWAIT" for s'
    proof -
      have "obj_wf a s'" using s'(1) by (simp add: vm_inv_def)
      then have L: "at_index a s' ob ?k (fst (grab_lookup E ob ?k s')) (snd (grab_lookup E ob ?k s'))" by (rule grab_lookup_at [OF R])
      have "grabbable s' ob ?k \<and> at_index a s' ob ?k (fst (grab_lookup E ob ?k s')) (snd (grab_lookup E ob ?k s'))"
        using L s'(3) by blast
      note I = Cons.IH [OF s'(1,2) Cons.prems(3) this t(2)]
      show ?thesis unfolding E using I w by (auto simp: split_beta split: sum.splits)
    qed
    have took: ?thesis if E: "grab_pages_loop E ob pi flags ?pf count (t # ts) ma m mpred s =
        rbind (vm_page_next x (grab_validate flags x s')) (\<lambda>nxt.
          grab_pages_loop E ob pi flags ?pf count ts (ma @ [x]) nxt (Some x) (grab_validate flags x s'))"
      and x: "vm_inv n a s'" "grabbed flags ob ?k (pages s' x)" "\<not> marker s' x" "x \<notin> set ma"
      and oth: "\<And>y. y \<noteq> x \<Longrightarrow> pages s' y = pages s y" for x s'
    proof -
      let ?s = "grab_validate flags x s'"
      note V = grab_validate_ok [OF x(1,3)]
      have run': "grabbed_run flags ob pi ?s (ma @ [x])" unfolding grabbed_run_def
      proof (intro allI impI)
        fix j
        assume j: "j < length (ma @ [x])"
        show "grabbed flags ob (pi + of_nat j) (pages ?s ((ma @ [x]) ! j))"
        proof (cases "j = length ma")
          case True
          then show ?thesis using x(2) V(4) by simp
        next
          case False
          then have j: "j < length ma" using j by simp
          then have "ma ! j \<noteq> x" using x(4) nth_mem by metis
          then show ?thesis using run j V(3) oth by (simp add: grabbed_run_def nth_append)
        qed
      qed
      have gk: "\<not> marker s' y \<and> \<not> fictitious s' y \<and> wire_count (pages s' y) \<noteq> - 1 \<and> word_fit (busy_lock (pages s' y))"
        if y: "y \<noteq> x" "pg_object (pages s' y) = Some ob" "?k \<le> pindex (pages s' y)" for y
        using g y oth [OF y(1)] by (simp add: grabbable_def marker_def fictitious_def)
      obtain nxt where nx: "vm_page_next x ?s = Inr nxt"
        "length (ma @ [x]) < count \<Longrightarrow> grabbable ?s ob (pi + of_nat (length (ma @ [x]))) \<and> at_index a ?s ob (pi + of_nat (length (ma @ [x]))) nxt (Some x)"
      proof (cases "?k = - 1")
        case False
        have e: "pi + of_nat (length (ma @ [x])) = ?k + 1" by simp
        show thesis using grab_next_ok [OF x(1-3) False gk] that unfolding e by blast
      next
        case True
        have wf': "obj_wf a ?s" using V(1) by (simp add: vm_inv_def)
        have "pg_object (pages ?s x) = Some ob" "pindex (pages ?s x) = ?k" using x(2) V(2) by (simp_all add: obj_same_def grabbed_def)
        then have n: "vm_page_next x ?s = Inr None" using next_ok [OF wf', of x ob] True by simp
        have "unat ?k = 2 ^ 64 - 1" unfolding True by (simp add: unsigned_minus_1_eq_mask mask_eq_exp_minus_1)
        then have "\<not> length (ma @ [x]) < count" using uk [OF \<open>length ma < count\<close>] rng by simp
        then show thesis using that n by blast
      qed
      have len: "length (ma @ [x]) \<le> count" using True by simp
      show ?thesis unfolding E nx(1) rbind_simps
        using Cons.IH [OF V(1) run' len nx(2) t(2)] by (auto split: sum.splits)
    qed
    show ?thesis
    proof (cases m)
      case (Some x)
      then have ax: "pg_object (pages s x) = Some ob" "pindex (pages s x) = ?k" using at by (simp_all add: at_index_def)
      then have gx: "\<not> marker s x" "\<not> fictitious s x" "wire_count (pages s x) \<noteq> - 1" "word_fit (busy_lock (pages s x))"
        using g by (auto simp: grabbable_def)
      have nx: "x \<notin> set ma"
      proof
        assume "x \<in> set ma"
        then obtain j where j: "j < length ma" "ma ! j = x" by (auto simp: in_set_conv_nth)
        then have "pindex (pages s x) = pi + of_nat j" using run by (auto simp: grabbed_run_def grabbed_def)
        then show False using kj [OF j(1)] ax(2) by simp
      qed
      show ?thesis
      proof (cases "grab_must_sleep flags x s")
        case sl: True
        show ?thesis
        proof (cases "has_flag flags VM_ALLOC_NOWAIT")
          case True
          then show ?thesis using sl Some \<open>length ma < count\<close> inv run by (simp add: grab_pages_loop.simps Let_def)
        next
          case nw: False
          note S = grab_sleep_ok [OF inv g gx(1) t(1)]
          have "grabbed_run flags ob pi (grab_sleep t flags x s) ma" unfolding grabbed_run_def
          proof (intro allI impI)
            fix j
            assume j: "j < length ma"
            then have "ma ! j \<noteq> x" using nx nth_mem by metis
            then show "grabbed flags ob (pi + of_nat j) (pages (grab_sleep t flags x s) (ma ! j))"
              using run j by (intro S(3)) (simp_all add: grabbed_run_def)
          qed
          then show ?thesis using S(1,2) nw sl Some True
            by (intro again [of "grab_sleep t flags x s"]) (simp_all add: grab_pages_loop.simps [of E ob pi flags ?pf count "t # ts"] Let_def)
        qed
      next
        case nsl: False
        obtain s' where T: "grab_take flags x s = Inr s'" "vm_inv n a s'" "obj_same s s'" "\<forall>y. y \<noteq> x \<longrightarrow> pages s' y = pages s y"
          "grabbed flags ob ?k (pages s' x)" "pg_flags (pages s' x) = pg_flags (pages s x)"
          using grab_take_ok [OF inv gx q nsl ax] by blast
        have "\<not> marker s' x" using gx(1) by (simp add: marker_def T(6))
        then show ?thesis using T nsl Some True nx
          by (intro took [of x s']) (simp_all add: grab_pages_loop.simps [of E ob pi flags ?pf count "t # ts"] Let_def)
      qed
    next
      case None
      then have free: "a (rtree s ob) ?k = None" and mp: "mpred_ok s ob ?k mpred" using at by (simp_all add: at_index_def)
      let ?req = "?pf OR VM_ALLOC_COUNT (count - length ma)"
      have sup: "supplies n a t" "good_waits n a flags ob (gt_others t)" using t(1) by (simp_all add: turn_ok_def)
      obtain s' r where A: "vm_page_alloc_after E (Some ob) ?k ?req mpred (grab_attempts t s) s = Inr (s', r)" "vm_inv n a s'"
        "case r of
         None \<Rightarrow> \<forall>x. (pg_object (pages s x) \<noteq> None \<longrightarrow> pages s' x = pages s x) \<and>
            (pg_object (pages s x) = None \<longrightarrow> pg_object (pages s' x) = None)
       | Some m \<Rightarrow> pg_object (pages s m) = None \<and> alloc_result ?req ob ?k (pages s' m) \<and>
            (\<forall>x. x \<noteq> m \<longrightarrow> pages s' x = pages s x)"
        using grab_alloc_ok [OF R inv grab_request_alloc(2) [OF q] free mp sup(1) pd] by blast
      have own: "pg_object (pages s (ma ! j)) = Some ob" if "j < length ma" for j
        using run that by (auto simp: grabbed_run_def grabbed_def)
      show ?thesis
      proof (cases r)
        case (Some x)
        then have X: "pg_object (pages s x) = None" "alloc_result ?req ob ?k (pages s' x)" "\<And>y. y \<noteq> x \<Longrightarrow> pages s' y = pages s y"
          using A(3) by simp_all
        have "grabbed flags ob ?k (pages s' x)" using X(2)
          by (rule alloc_grabbed) (simp_all add: grab_pflags_flags)
        moreover have "x \<notin> set ma" using X(1) own by (auto simp: in_set_conv_nth)
        moreover have "\<not> marker s' x" using X(2) by (simp add: alloc_result_def marker_def)
        ultimately show ?thesis using A(1,2) X(3) Some None True
          by (intro took [of x s']) (simp_all add: grab_pages_loop.simps [of E ob pi flags ?pf count "t # ts"] Let_def)
      next
        case r: None
        then have p: "\<And>x. pg_object (pages s x) \<noteq> None \<Longrightarrow> pages s' x = pages s x" "\<And>x. pg_object (pages s x) = None \<Longrightarrow> pg_object (pages s' x) = None"
          using A(3) by simp_all
        show ?thesis
        proof (cases "has_flag flags VM_ALLOC_NOWAIT")
          case nw: True
          have "grabbed_run flags ob pi s' ma" using run own p(1) by (simp add: grabbed_run_def)
          then show ?thesis using A(1,2) r None True nw by (simp add: grab_pages_loop.simps Let_def)
        next
          case w: False
          note D = good_waitsD [OF sup(2) A(2)]
          have "grabbed_run flags ob pi (gt_others t s') ma" using run own p(1) D(4) by (simp add: grabbed_run_def)
          moreover have "grabbable (gt_others t s') ob ?k"
            by (rule D(3)) (rule grabbable_alloc_none [OF g p])
          ultimately show ?thesis using A(1) D(1) r None True w
            by (intro again [of "gt_others t s'"]) (simp_all add: grab_pages_loop.simps [of E ob pi flags ?pf count "t # ts"] Let_def)
        qed
      qed
    qed
  qed
qed

end
