(* ===== verification/Spec2Isabelle.thy ===== *)
theory Spec2Isabelle
  imports RunQueueProps SchedProps TdqProps SchedOpsProps FileSysProps ShellProps VmProps VmLaunderProps
    VmContigLaws VmGrabLaws
begin

text \<open>
  A model of the four course projects of this repository, which modify a FreeBSD kernel and
  build small systems programs: the ULE scheduler with a lottery queue for user threads
  (asgn2), the page queues and the page daemon with first-in first-out queues (asgn3), a FUSE
  file system in one backing file (asgn4) and a shell (asgn1).

  \<^bold>\<open>The scheduler, asgn2.\<close> A run queue (runq.h, kern_switch.c) is 64 lists of threads and a bitmap
  of the non-empty ones, with the number of threads and tickets of a lottery queue added by the
  project. Each CPU has a \<open>struct tdq\<close> (sched_ule.c) of four run queues: realtime, timeshare (a
  calendar indexed from \<open>tdq_idx\<close> and drained from \<open>tdq_ridx\<close>), idle and lottery. Threads carry
  their priority, queue index and flags (proc.h) and the scheduler's \<open>struct td_sched\<close>. The entry
  points of the kernel add, remove, wake and switch threads, lend priorities and run the clock;
  an idle CPU steals, and the clock balances CPUs over the topology tree.

  \<^item> \<open>Prelude\<close>: faults as values (a failed KASSERT, NULL dereference, division by zero, removal
    from the wrong list, an overrun array, exhausted fuel), their sequencing, C integers, flag
    words, TAILQ and ffsl.
  \<^item> \<open>Machine\<close>: the fields of a thread that the run queues use, the flags of proc.h, and the
    bitmap layouts of amd64 and i386 as a record \<open>rqb_machine\<close>.
  \<^item> \<open>RunQueue\<close>: runq_init, setbit, clrbit, findbit, findbit_from, add, add_pri, check, choose,
    choose_from, choose_fuzz, remove, remove_idx of kern_switch.c, line by line.
    \<open>RunQueueLaws\<close>: the locales \<open>status_bits\<close> and \<open>run_queue\<close>, what the layers promise each other,
    with their interpretations, and the invariant \<open>runq_wf\<close>. \<open>Lottery\<close>: the drawing of a ticket,
    with random() as an argument, and the accounting of tickets.
  \<^item> \<open>SchedPri\<close>: interactivity score, update and fork, cpu usage window, user priority and slices,
    in 32-bit arithmetic; tunables are a record \<open>tunables\<close>, compile-time constants \<open>kconf\<close>.
  \<^item> \<open>SchedState\<close>: the kernel state \<open>kern\<close>: threads, the queues of every CPU, idle threads, current
    threads, a trace of the calls to code outside the repository. \<open>Tdq\<close>: tdq_runq_add, tdq_runq_rem,
    tdq_load_add, tdq_load_rem, tdq_setlowpri, tdq_choose, tdq_add, tdq_steal, tdq_move,
    runq_steal, runq_steal_from, sched_choose, sched_rem. \<open>TdqLaws\<close>: the invariant \<open>k_wf\<close> (all run
    queues well-formed, each thread on one queue at most and its fields agreeing) and what each
    operation does to it.
  \<^item> \<open>CpuSearch\<close>, \<open>CpuSearchLaws\<close>: the search of the topology tree, the balancer and the stealers,
    with the proofs that the searches are exact and the loops end. The balancer and the stealers
    hold no lock while they search: the record \<open>rivals\<close> says what the other CPUs do after each search
    and while the locks are waited for, so that the branches on stale data are taken.
  \<^item> \<open>SchedOps\<close>, \<open>SchedInv\<close>: the entry points sched_add, sched_switch, sched_clock, sched_prio and
    the others, and the interleavings of all of them on all CPUs as the inductive relation
    \<open>sched_step\<close>; \<open>sched_reach\<close> are the states reachable after sched_setup.
  \<^item> \<open>RunQueueProps\<close>, \<open>SchedProps\<close>, \<open>TdqProps\<close>, \<open>SchedOpsProps\<close>: the properties. \<open>Samples\<close>: the
    concrete states of the witnesses.

  \<^bold>\<open>The virtual memory system, asgn3.\<close> A page (struct vm_page of vm_page.h) is on one of the queues
  inactive, active and laundry of its domain or on none, belongs to one object at an index or to
  none, and carries a busy word, hold and wire counts and bits for its valid and dirty chunks. The
  project makes the page daemon move the first pages of the active queue without regard to their
  use. The record \<open>vm\<close> is the state of pages, queues, objects and counters; calls to code outside
  the repository (pmap, the physical allocator, wakeups) are a trace in it.

  \<^item> \<open>VmPage\<close>: the page, its busy word and its valid and dirty bits as vm_page.c computes them on words.
    \<open>VmBusy\<close>: the busy word implements a shared and exclusive lock with waiters, by the locale
    \<open>simulation\<close>.
  \<^item> \<open>VmQueue\<close>: enqueue, dequeue, requeue, activate, deactivate, launder, wire and unwire.
    \<open>VmQueueLaws\<close>, \<open>VmQueueOps\<close>: the invariant \<open>vm_wf\<close> (each page is on the list its queue field names and
    on no other, once; the counters count) and what each operation does to it.
  \<^item> \<open>VmObject\<close>: insertion, removal, lookup, replacement and renaming of the pages of an object. The
    radix trie is a record of functions with the laws of a map (\<open>radix_ok\<close>, satisfied by the
    association lists \<open>al_radix\<close>). \<open>VmObjectLaws\<close>: the invariant \<open>obj_wf\<close>. \<open>VmResident\<close>: the objects
    implement a map from object and index to page.
  \<^item> \<open>VmFree\<close>: freeing, holding and allocating pages, \<open>VmFreeLaws\<close> what they guarantee; \<open>VmSteps\<close>: histories
    of all operations, with the preconditions that the comments and assertions of the code state.
  \<^item> \<open>VmGrab\<close>, \<open>VmGrabLaws\<close>: vm_page_grab and vm_page_grab_pages, which wait for busy pages and allocate
    missing ones: they return the pages of the indices, wired and busied as requested, and give up
    only when they may not wait.
  \<^item> \<open>VmContig\<close>, \<open>VmContigLaws\<close>: contiguous memory: the allocation of runs and the search of the page array
    for a run. A run that is found lies in the range, is aligned, does not cross the boundary and has
    usable pages; the search ends when the boundary is not below the size of the run, and with as many
    turns as there are pages, but may hang otherwise.
  \<^item> \<open>VmDaemon\<close>, \<open>VmDaemonLaws\<close>: the arithmetic of vm_pageout.c: the limits, the votes to kill a process and
    the choice of the victim, the loop of the laundry thread with its integer square root.
  \<^item> \<open>VmScan\<close>: the markers, the scans of the inactive and the active queue and the loop of the page daemon.
    Wherever the code gives up a queue lock, an argument of the model says what the other threads
    do meanwhile; the reads of the printed statistics that can go through NULL are a fault.
    \<open>VmScanLaws\<close>: interference is harmless when it keeps the invariant and leaves the markers in \<open>own\<close>,
    those of the scanning thread, and the pages it has dequeued alone (\<open>bystanders\<close>); the markers of other
    scans may come, go and move. What the scans do undisturbed is exact.
  \<^item> \<open>VmLaunder\<close>: the writing of dirty pages: the cluster of neighbouring pages (vm_pageout_cluster), its
    way to the pager (vm_pageout_flush), the vnode lock (vm_pageout_clean), the scan of the laundry
    queue (vm_pageout_launder) and the loop of the laundry thread around it. The answers of the pager,
    the outcome of the vnode calls and the bits that the pmap reports are arguments.
    \<open>VmLaunderLaws\<close>: all of it keeps the invariant and does not fault when the pager leaves the pages that it
    is done with busied and write-protected (\<open>good_pager\<close>), vnodes are regular files on a mount, and the
    other threads are bystanders; a cluster is a maximal run of fitting pages.
  \<^item> \<open>VmSamples\<close>, \<open>VmProps\<close>, \<open>VmLaunderProps\<close>: the states of the witnesses and the properties.

  \<^bold>\<open>The file system, asgn4.\<close> \<open>FileSys\<close> models hello.c: the backing file as blocks of metadata and
  data, its bitmap on disk and in memory, and one definition per FUSE operation with its error
  returns. \<open>FileSysLaws\<close> has the accesses, the name lookup and the type invariant; \<open>FileSysSmall\<close> the
  abstract specification (a map from names to contents) and the simulation for files of one
  block, through the locale \<open>simulation\<close> of \<open>Simulation\<close>; \<open>FileSysChain\<close> files of several blocks;
  \<open>FileSysProps\<close> the properties.

  \<^bold>\<open>The shell, asgn1.\<close> \<open>Shell\<close> models argshell.c as the system calls of the shell and of each child it
  forks; \<open>ShellProps\<close> has the properties.

  \<^bold>\<open>Bounds and fuel.\<close> Loops over a queue, a bitmap or a topology tree are structural recursion. The
  balancer picks CPUs out of a mask of 256 and runs with one turn more than that, which
  \<open>balance_loops_end\<close> proves enough whatever the other CPUs do. tdq_idled and tdq_trysteal start
  over when their data is stale, so nothing bounds their turns: they run for \<open>rv_rounds\<close> turns, and
  \<open>balance_loops_end\<close> says how many are enough when so many of them are disturbed. The loops of hello.c
  over chains of blocks end because the number of bytes left falls or the buffer is full; those
  of unlink and truncate have as much fuel as there are blocks, so they run out of it only on a
  chain that loops. \<open>Diverges\<close> is the value of a loop that has run out.
  The scans of the page queues are bounded by the code itself (maxscan and min_scan); the loop of
  vm_pageout_cluster over its two directions has one turn more than a cluster has pages, and
  \<open>cluster_is_full_run\<close> proves that it does not run out. The page daemon, the laundry thread and the
  retries of an allocation are run for any given number of turns.

  \<^bold>\<open>Assumptions.\<close> The kernel is built with INVARIANTS and SMP; a KASSERT that fails is a fault. An
  entry point of the scheduler is one step, as it is under the locks it takes, but for the searches
  without locks, within which \<open>rivals\<close> act; one search reads one state. The locks appear as the
  thread's lock pointer only. A page that is not fully valid is not reported dirty when its mappings
  are removed, as only valid pages are mapped. Code outside the repository (the context switch, wakeups, turnstiles,
  random(), FUSE, system calls) is a parameter, an argument or an entry of a trace.

  \<^bold>\<open>Not modelled.\<close> In asgn3 the reclaiming of runs by moving their pages, the set-up of the page
  array and the blacklist, and the text that a scan prints (as
  committed its statements do not compile). The sysctl handlers that print statistics and the topology, KTR, DTrace and logging;
  runq_print; struct proc and its locking beyond the fields used; the lexer shell.l; the benchmark
  programs and build files.
\<close>

end
